(* ===== verification/Prelude.thy ===== *)
theory Prelude
  imports Main "HOL-Library.Word" "HOL-Library.Signed_Division" "HOL-Library.Monad_Syntax"
begin

unbundle bit_operations_syntax

text \<open>
  Shared vocabulary of the development: the C integer types, byte order, checked array
  accesses, and the generic facts every component uses.

  Conventions. A value of type \<open>'a option\<close> returned by a modelled C function is
  \<open>None\<close> exactly where the C program has no defined continuation: an access outside an
  array, a dereference of NULL or of freed memory, a division by zero, a failed ASSERT, or a
  loop that does not end. Error returns of the code (\<open>-EINVAL\<close>, \<open>ENOENT\<close>, ...) are
  ordinary values. Signed C integers are \<open>int\<close>, with \<open>s32\<close> written wherever 32-bit
  arithmetic may wrap (kernels are built with wrapping signed overflow); unsigned ones are words.
\<close>

section \<open>Machine integers\<close>

type_synonym u8 = "8 word"
type_synonym u16 = "16 word"
type_synonym u32 = "32 word"
type_synonym u64 = "64 word"

named_theorems c_arith \<open>wrap-around of C integers that is not reached\<close>
named_theorems array_ops \<open>checked array accesses\<close>

definition s32 :: "int \<Rightarrow> int" where
  "s32 x = signed_take_bit 31 x"

lemma s32_id [c_arith]: "- (2 ^ 31) \<le> x \<Longrightarrow> x < 2 ^ 31 \<Longrightarrow> s32 x = x"
  unfolding s32_def by (rule signed_take_bit_int_eq_self) simp_all

lemma s32_range: "- (2 ^ 31) \<le> s32 x \<and> s32 x < 2 ^ 31"
  using signed_take_bit_int_greater_eq_minus_exp [of 31 x]
    signed_take_bit_int_less_exp [of 31 x]
  by (simp add: s32_def)

lemma s32_mod: "s32 x mod 2 ^ 32 = x mod 2 ^ 32"
proof -
  have "take_bit 32 (signed_take_bit 31 x) = take_bit 32 x"
    by (simp add: take_bit_signed_take_bit)
  then show ?thesis by (simp add: s32_def take_bit_eq_mod)
qed

lemma s32_s32 [simp]: "s32 (s32 x) = s32 x"
  by (simp add: s32_def)

lemma s32_add_s32 [simp]: "s32 (s32 a + b) = s32 (a + b)"
  unfolding s32_def by (metis signed_take_bit_add signed_take_bit_signed_take_bit min.idem)

lemma s32_diff_s32 [simp]: "s32 (s32 a - b) = s32 (a - b)"
  unfolding s32_def by (metis signed_take_bit_diff signed_take_bit_signed_take_bit min.idem)

text \<open>Conversion of C: \<open>(u_int) x\<close> of a signed value.\<close>

definition u32_of :: "int \<Rightarrow> u32" where
  "u32_of x = word_of_int x"

lemma u32_of_s32 [simp]: "u32_of (s32 x) = u32_of x"
  unfolding s32_def u32_of_def by transfer (simp add: take_bit_signed_take_bit)

section \<open>Byte order\<close>

text \<open>
  The modules run on little-endian x86 (one file reads the time stamp counter in assembler), so
  \<open>htonl\<close> and \<open>ntohl\<close> reverse the bytes. Addresses are kept in network order, as the C
  fields hold them.
\<close>

definition htonl :: "u32 \<Rightarrow> u32" where
  "htonl x = (push_bit 24 (x AND 0xff)) OR (push_bit 8 (x AND 0xff00))
     OR (drop_bit 8 x AND 0xff00) OR (drop_bit 24 x)"

definition ntohl :: "u32 \<Rightarrow> u32" where
  "ntohl x = htonl x"

definition htons :: "u16 \<Rightarrow> u16" where
  "htons x = (push_bit 8 (x AND 0xff)) OR (drop_bit 8 x)"

definition ntohs :: "u16 \<Rightarrow> u16" where
  "ntohs x = htons x"

lemma byte_masks: "(0xff :: 'a::len word) = mask 8" "(0xff00 :: u32) = push_bit 8 (mask 8)"
  by (simp_all add: mask_eq_exp_minus_1)

lemma bit_htonl:
  "bit (htonl x) n \<longleftrightarrow>
     (if n < 8 then bit x (24 + n) else if n < 16 then bit x (8 + n)
      else if n < 24 then bit x (n - 8) else n < 32 \<and> bit x (n - 24))"
  unfolding htonl_def byte_masks by (auto simp: bit_simps dest: bit_imp_le_length)

lemma bit_htons: "bit (htons x) n \<longleftrightarrow> (if n < 8 then bit x (8 + n) else n < 16 \<and> bit x (n - 8))"
  unfolding htons_def byte_masks by (auto simp: bit_simps dest: bit_imp_le_length)

lemma htonl_htonl [simp]: "htonl (htonl x) = x"
  by (rule bit_eqI) (auto simp: bit_htonl)

lemma ntohl_htonl [simp]: "ntohl (htonl x) = x"
  by (simp add: ntohl_def)

lemma htonl_ntohl [simp]: "htonl (ntohl x) = x"
  by (simp add: ntohl_def)

lemma ntohs_htons [simp]: "ntohs (htons x) = x"
  by (rule bit_eqI) (auto simp: bit_htons ntohs_def)

lemma htonl_and: "htonl (x AND y) = htonl x AND htonl y"
  by (rule bit_eqI) (auto simp: bit_htonl bit_simps)

lemma htonl_or: "htonl (x OR y) = htonl x OR htonl y"
  by (rule bit_eqI) (auto simp: bit_htonl bit_simps)

lemma htonl_not: "htonl (NOT x) = NOT (htonl x)"
  by (rule bit_eqI) (auto simp: bit_htonl bit_simps)

lemma and_not_clear: "a AND b = 0 \<Longrightarrow> a AND NOT b = (a :: 'a::len word)"
proof -
  assume "a AND b = 0"
  moreover have "(a AND b) OR (a AND NOT b) = a" by (rule bit_word_eqI) (auto simp: bit_simps)
  ultimately show ?thesis by simp
qed

lemma or_and_not: "(a OR b) AND NOT b = a AND NOT (b :: 'a::len word)"
  by (rule bit_word_eqI) (auto simp: bit_simps)

lemma or_absorb: "(a OR b) AND b = (b :: 'a::len word)"
  by (rule bit_word_eqI) (auto simp: bit_simps)

section \<open>Checked array accesses\<close>

definition aget :: "'a list \<Rightarrow> int \<Rightarrow> 'a option" where
  "aget xs i = (if 0 \<le> i \<and> i < int (length xs) then Some (xs ! nat i) else None)"

definition aset :: "'a list \<Rightarrow> int \<Rightarrow> 'a \<Rightarrow> 'a list option" where
  "aset xs i x = (if 0 \<le> i \<and> i < int (length xs) then Some (xs[nat i := x]) else None)"

lemma aget_Some [array_ops]: "0 \<le> i \<Longrightarrow> i < int (length xs) \<Longrightarrow> aget xs i = Some (xs ! nat i)"
  by (simp add: aget_def)

lemma aset_Some [array_ops]: "0 \<le> i \<Longrightarrow> i < int (length xs) \<Longrightarrow> aset xs i x = Some (xs[nat i := x])"
  by (simp add: aset_def)

lemma aget_nat [array_ops]: "k < length xs \<Longrightarrow> aget xs (int k) = Some (xs ! k)"
  by (simp add: aget_def)

lemma aset_nat [array_ops]: "k < length xs \<Longrightarrow> aset xs (int k) x = Some (xs[k := x])"
  by (simp add: aset_def)

lemma aget_None_iff: "aget xs i = None \<longleftrightarrow> i < 0 \<or> int (length xs) \<le> i"
  by (auto simp: aget_def)

lemma aset_None_iff: "aset xs i x = None \<longleftrightarrow> i < 0 \<or> int (length xs) \<le> i"
  by (auto simp: aset_def)

lemma aset_length: "aset xs i x = Some ys \<Longrightarrow> length ys = length xs"
  by (auto simp: aset_def split: if_splits)

text \<open>C's \<open>%\<close> on signed integers: truncated, and undefined for a zero divisor.\<close>

definition cmod :: "int \<Rightarrow> int \<Rightarrow> int option" where
  "cmod a b = (if b = 0 then None else Some (a smod b))"

definition cdiv :: "int \<Rightarrow> int \<Rightarrow> int option" where
  "cdiv a b = (if b = 0 then None else Some (a sdiv b))"

lemma smod_nonneg: "0 \<le> a \<Longrightarrow> 0 < b \<Longrightarrow> a smod b = a mod (b::int)"
  by (cases "a = 0")
    (auto simp: signed_modulo_int_def signed_divide_int_def minus_div_mult_eq_mod mult.commute)

lemma sdiv_nonneg: "0 \<le> a \<Longrightarrow> 0 < b \<Longrightarrow> a sdiv b = a div (b::int)"
  by (cases "a = 0") (auto simp: signed_divide_int_def)

lemma cmod_Some [array_ops]: "0 \<le> a \<Longrightarrow> 0 < b \<Longrightarrow> cmod a b = Some (a mod b)"
  by (simp add: cmod_def smod_nonneg)

lemmas c_simps = c_arith array_ops

end
