(* ===== verification/Timed_Queue.thy ===== *)
theory Timed_Queue
  imports Prelude
begin

text \<open>
  The contract of a virtual bandwidth queue, as the emulation of a hop uses it: entries are pairs
  of an exit tick and a length, \<open>expire\<close> removes the leading entries that are due, \<open>push\<close>
  appends one, \<open>depth\<close> accounts for the bytes. The lemmas inside the locale are the client's:
  what follows for any queue with these two laws when exit ticks are pushed in order.
\<close>

lemma dropWhile_sorted_filter:
  "sorted (map fst xs) \<Longrightarrow> dropWhile (\<lambda>e. fst e < (t::'t::linorder)) xs = filter (\<lambda>e. t \<le> fst e) xs"
proof (induction xs)
  case (Cons x xs)
  show ?case
  proof (cases "fst x < t")
    case True
    then show ?thesis using Cons by simp
  next
    case False
    then have "\<forall>e \<in> set (x # xs). t \<le> fst e" using Cons.prems by force
    then have "filter (\<lambda>e. t \<le> fst e) (x # xs) = x # xs" by (rule filter_True)
    with False show ?thesis by (simp only: dropWhile.simps if_False)
  qed
qed simp

lemma sorted_dropWhile_fst: "sorted (map fst xs) \<Longrightarrow> sorted (map fst (dropWhile P xs))"
  by (metis sorted_append append_eq_conv_conj map_append takeWhile_dropWhile_id)

locale timed_queue =
  fixes ent :: "'q \<Rightarrow> ('t::linorder \<times> int) list"
    and wf :: "'q \<Rightarrow> bool"
    and room :: "'q \<Rightarrow> bool"
    and depth :: "'q \<Rightarrow> int"
    and expire :: "'q \<Rightarrow> 't \<Rightarrow> 'q option"
    and push :: "'t \<Rightarrow> int \<Rightarrow> 'q \<Rightarrow> 'q option"
  assumes expire_spec: "wf q \<Longrightarrow> \<exists>q'. expire q t = Some q' \<and> wf q' \<and>
      ent q' = dropWhile (\<lambda>e. fst e < t) (ent q) \<and>
      depth q' = s32 (depth q - sum_list (map snd (takeWhile (\<lambda>e. fst e < t) (ent q))))"
    and push_spec: "wf q \<Longrightarrow> room q \<Longrightarrow> \<exists>q'. push t l q = Some q' \<and> wf q' \<and>
      ent q' = ent q @ [(t, l)] \<and> depth q' = s32 (depth q + l)"
begin

text \<open>In a queue whose exit ticks ascend, exactly the entries that are not due stay.\<close>

lemma expire_sorted:
  assumes "wf q" "sorted (map fst (ent q))" "expire q t = Some q'"
  shows "wf q' \<and> sorted (map fst (ent q')) \<and> ent q' = filter (\<lambda>e. t \<le> fst e) (ent q)"
  using expire_spec [OF assms(1), of t] assms(2,3)
  by (auto simp: dropWhile_sorted_filter [symmetric] sorted_dropWhile_fst)

lemma push_sorted:
  assumes "wf q" "room q" "sorted (map fst (ent q))" "\<forall>e \<in> set (ent q). fst e \<le> t"
    and "push t l q = Some q'"
  shows "wf q' \<and> sorted (map fst (ent q')) \<and> ent q' = ent q @ [(t, l)]"
  using push_spec [OF assms(1,2), of t l] assms(3-5) by (auto simp: sorted_append)

text \<open>The byte account stays the sum of the queued lengths.\<close>

lemma expire_accounted:
  assumes "wf q" "depth q = s32 (sum_list (map snd (ent q)))" "expire q t = Some q'"
  shows "depth q' = s32 (sum_list (map snd (ent q')))"
proof -
  have "sum_list (map snd (ent q)) = sum_list (map snd (takeWhile (\<lambda>e. fst e < t) (ent q)))
      + sum_list (map snd (dropWhile (\<lambda>e. fst e < t) (ent q)))"
    by (metis map_append sum_list_append takeWhile_dropWhile_id)
  then show ?thesis using expire_spec [OF assms(1), of t] assms(2,3)
    by auto
qed

lemma push_accounted:
  assumes "wf q" "room q" "depth q = s32 (sum_list (map snd (ent q)))" "push t l q = Some q'"
  shows "depth q' = s32 (sum_list (map snd (ent q')))"
  using push_spec [OF assms(1,2), of t l] assms(3,4) by auto

end

end
