(* ===== verification/Hop.thy ===== *)
theory Hop
  imports Timed_Queue
begin

text \<open>
  \<open>struct hop\<close>, one emulated link, as far as both kernels share it, and its virtual bandwidth
  queue. The queue is a ring: \<open>exittick\<close> and \<open>slotlen\<close> are arrays of \<open>qsize\<close> cells,
  \<open>headslot\<close> the oldest, \<open>slotdepth\<close> the number in use, \<open>bytedepth\<close> the bytes they
  hold. \<open>bwq\<close> reads the ring as the list of its entries; \<open>timed_queue\<close> is what the
  emulation of a hop relies on, proved here for the ring of the code at any width of the tick.
\<close>

section \<open>The structure\<close>

record 'w hop =
  KBps :: int
  delay :: int
  plr :: int
  qsize :: int
  emulator :: u32
  bytespertick :: u32
  hop_id :: int
  slotdepth :: int
  bytedepth :: int
  headslot :: int
  fragment :: int
  exittick :: "'w list"
  slotlen :: "int list"
  pkts :: int
  bytes :: int
  qdrops :: int

text \<open>\<open>struct sysctl_hop\<close>, what the deployment tools write for each hop.\<close>

record sysctl_hop =
  sh_bandwidth :: int
  sh_delay :: int
  sh_plr :: int
  sh_qsize :: int
  sh_emulator :: u32
  sh_xtq_type :: int
  sh_traceLink :: int

record sysctl_hopstats =
  hs_pkts :: int
  hs_bytes :: int
  hs_qdrops :: int

section \<open>The ring\<close>

text \<open>\<open>update_bwq\<close>: drop the entries whose exit tick is past. The loop ends when the ring is
  empty or its head is not due; \<open>None\<close> covers a read outside the arrays.\<close>

partial_function (option) update_bwq ::
  "('w::{linorder,zero}, 'z) hop_scheme \<Rightarrow> 'w \<Rightarrow> ('w, 'z) hop_scheme option" where
  "update_bwq h tick =
     (if slotdepth h = 0 then Some h
      else do {
        e \<leftarrow> aget (exittick h) (headslot h);
        if e < tick then do {
          ex \<leftarrow> aset (exittick h) (headslot h) 0;
          l \<leftarrow> aget (slotlen h) (headslot h);
          sl \<leftarrow> aset (slotlen h) (headslot h) 0;
          update_bwq (h\<lparr>exittick := ex, slotdepth := s32 (slotdepth h - 1),
             bytedepth := s32 (bytedepth h - l), slotlen := sl,
             headslot := (if s32 (headslot h + 1) = qsize h then 0 else s32 (headslot h + 1))\<rparr>) tick }
        else Some h })"

declare update_bwq.simps [code]

text \<open>The cell the next packet takes, \<open>(headslot + slotdepth) % qsize\<close>, the cell of the last
  one queued, and the assignments that add a packet.\<close>

definition new_slot :: "('w, 'z) hop_scheme \<Rightarrow> int option" where
  "new_slot h = cmod (s32 (headslot h + slotdepth h)) (qsize h)"

definition tail_exit :: "('w, 'z) hop_scheme \<Rightarrow> 'w option" where
  "tail_exit h = do {
     i \<leftarrow> cmod (s32 (headslot h + slotdepth h - 1)) (qsize h);
     aget (exittick h) i }"

definition bwq_add :: "int \<Rightarrow> 'w \<Rightarrow> int \<Rightarrow> ('w, 'z) hop_scheme \<Rightarrow> ('w, 'z) hop_scheme option" where
  "bwq_add newslot t l h = do {
     sl \<leftarrow> aset (slotlen h) newslot l;
     ex \<leftarrow> aset (exittick h) newslot t;
     Some (h\<lparr>slotdepth := s32 (slotdepth h + 1), slotlen := sl,
       bytedepth := s32 (bytedepth h + l), exittick := ex\<rparr>) }"

definition bwq_push :: "'w \<Rightarrow> int \<Rightarrow> ('w, 'z) hop_scheme \<Rightarrow> ('w, 'z) hop_scheme option" where
  "bwq_push t l h = do { i \<leftarrow> new_slot h; bwq_add i t l h }"

section \<open>The ring as a list\<close>

text \<open>The arrays of a ring that is ready for use. \<open>qsize < 2 ^ 30\<close> keeps
  \<open>headslot + slotdepth\<close> from wrapping; the allocator hands out no larger array.\<close>

definition ring_ok :: "('w, 'z) hop_scheme \<Rightarrow> bool" where
  "ring_ok h \<longleftrightarrow> 0 < qsize h \<and> qsize h < 2 ^ 30 \<and>
     int (length (exittick h)) = qsize h \<and> int (length (slotlen h)) = qsize h \<and>
     0 \<le> headslot h \<and> headslot h < qsize h"

definition bwq_wf :: "('w, 'z) hop_scheme \<Rightarrow> bool" where
  "bwq_wf h \<longleftrightarrow> ring_ok h \<and> 0 \<le> slotdepth h \<and> slotdepth h \<le> qsize h \<and>
     s32 (bytedepth h) = bytedepth h"

definition cell :: "('w, 'z) hop_scheme \<Rightarrow> nat \<Rightarrow> nat" where
  "cell h k = nat ((headslot h + int k) mod qsize h)"

definition bwq :: "('w, 'z) hop_scheme \<Rightarrow> ('w \<times> int) list" where
  "bwq h = map (\<lambda>k. (exittick h ! cell h k, slotlen h ! cell h k)) [0..<nat (slotdepth h)]"

lemma length_bwq [simp]: "length (bwq h) = nat (slotdepth h)"
  by (simp add: bwq_def)

lemma ring_cell:
  assumes "ring_ok h"
  shows "cell h k < length (exittick h)" "cell h k < length (slotlen h)"
    "int (cell h k) = (headslot h + int k) mod qsize h"
proof -
  have "0 \<le> (headslot h + int k) mod qsize h" "(headslot h + int k) mod qsize h < qsize h"
    using assms by (simp_all add: ring_ok_def)
  then show "cell h k < length (exittick h)" "cell h k < length (slotlen h)"
    "int (cell h k) = (headslot h + int k) mod qsize h"
    using assms unfolding cell_def ring_ok_def by linarith+
qed

lemma cell_inj:
  assumes "ring_ok h" "i < nat (qsize h)" "j < nat (qsize h)" "cell h i = cell h j"
  shows "i = j"
proof -
  have q: "0 < qsize h" using assms(1) by (simp add: ring_ok_def)
  have "(headslot h + int i) mod qsize h = (headslot h + int j) mod qsize h"
    using ring_cell(3) [OF assms(1)] assms(4) by metis
  then have "qsize h dvd (headslot h + int i) - (headslot h + int j)"
    by (rule mod_eq_dvd_iff [THEN iffD1])
  then have d: "qsize h dvd int i - int j" by simp
  have "\<bar>int i - int j\<bar> < qsize h" using assms(2,3) q by linarith
  with q have "int i - int j = 0" using dvd_imp_le_int [OF _ d] by fastforce
  then show ?thesis by simp
qed

definition popped :: "('w::zero, 'z) hop_scheme \<Rightarrow> ('w, 'z) hop_scheme" where
  "popped h = h\<lparr>exittick := (exittick h)[nat (headslot h) := 0], slotdepth := slotdepth h - 1,
     bytedepth := s32 (bytedepth h - slotlen h ! nat (headslot h)),
     slotlen := (slotlen h)[nat (headslot h) := 0],
     headslot := (if headslot h + 1 = qsize h then 0 else headslot h + 1)\<rparr>"

lemma popped_fields [simp]:
  "qsize (popped h) = qsize h" "slotdepth (popped h) = slotdepth h - 1"
  "exittick (popped h) = (exittick h)[nat (headslot h) := 0]"
  "slotlen (popped h) = (slotlen h)[nat (headslot h) := 0]"
  by (simp_all add: popped_def)

lemma popped_wf: "bwq_wf h \<Longrightarrow> 0 < slotdepth h \<Longrightarrow> bwq_wf (popped h)"
  by (auto simp: bwq_wf_def ring_ok_def popped_def)

lemma cell_popped: "ring_ok h \<Longrightarrow> cell (popped h) k = cell h (Suc k)"
proof -
  assume r: "ring_ok h"
  have "(headslot (popped h) + int k) mod qsize h = (headslot h + int (Suc k)) mod qsize h"
  proof (cases "headslot h + 1 = qsize h")
    case True
    then have e: "headslot h + int (Suc k) = int k + qsize h" by simp
    show ?thesis unfolding e using True by (simp add: popped_def)
  qed (simp add: popped_def add.assoc)
  then show ?thesis by (simp add: cell_def)
qed

lemma cell_0: "ring_ok h \<Longrightarrow> cell h 0 = nat (headslot h)"
  by (simp add: cell_def ring_ok_def)

lemma bwq_popped:
  assumes wf: "bwq_wf h" and d: "0 < slotdepth h"
  shows "bwq h = (exittick h ! nat (headslot h), slotlen h ! nat (headslot h)) # bwq (popped h)"
proof -
  have r: "ring_ok h" using wf by (simp add: bwq_wf_def)
  obtain n where n: "nat (slotdepth h) = Suc n" using d by (metis gr0_implies_Suc zero_less_nat_eq)
  have n': "n < nat (qsize h)" using wf n unfolding bwq_wf_def by linarith
  have n2: "n = nat (slotdepth h - 1)" using n by simp
  have ne: "nat (headslot h) \<noteq> cell h (Suc k)" if "k < nat (slotdepth h - 1)" for k
    using cell_inj [OF r, of "Suc k" 0] that n' n2 r by (auto simp: cell_0 [OF r] ring_ok_def)
  have "nat (slotdepth (popped h)) = n" using n by simp
  then show ?thesis
    unfolding bwq_def n
    by (auto simp: n upt_conv_Cons map_Suc_upt [symmetric] cell_0 [OF r] cell_popped [OF r]
        ne simp del: upt.simps)
qed

lemma update_bwq_pop:
  assumes "bwq_wf h" "0 < slotdepth h" "exittick h ! nat (headslot h) < tick"
  shows "update_bwq h tick = update_bwq (popped h) tick"
  using assms unfolding bwq_wf_def ring_ok_def
  by (subst update_bwq.simps) (simp add: array_ops s32_id popped_def)

lemma update_bwq_stop:
  assumes "bwq_wf h" "slotdepth h = 0 \<or> \<not> exittick h ! nat (headslot h) < tick"
  shows "update_bwq h tick = Some h"
  using assms unfolding bwq_wf_def ring_ok_def
  by (subst update_bwq.simps) (auto simp: array_ops)

text \<open>The loop removes exactly the leading entries that are due, and keeps the accounts.\<close>

lemma update_bwq_spec:
  "bwq_wf h \<Longrightarrow> \<exists>h'. update_bwq h tick = Some h' \<and> bwq_wf h' \<and>
     bwq h' = dropWhile (\<lambda>e. fst e < tick) (bwq h) \<and>
     bytedepth h' = s32 (bytedepth h - sum_list (map snd (takeWhile (\<lambda>e. fst e < tick) (bwq h))))"
proof (induction "nat (slotdepth h)" arbitrary: h)
  case 0
  then show ?case using update_bwq_stop [of h tick] by (auto simp: bwq_wf_def bwq_def)
next
  case (Suc n)
  then have d: "0 < slotdepth h" by simp
  let ?e = "exittick h ! nat (headslot h)"
  show ?case
  proof (cases "?e < tick")
    case False
    then show ?thesis
      using update_bwq_stop [of h tick] Suc.prems bwq_popped [OF Suc.prems d]
      by (auto simp: bwq_wf_def)
  next
    case True
    have n: "n = nat (slotdepth (popped h))" using Suc.hyps(2) by simp
    have b: "bytedepth (popped h) = s32 (bytedepth h - slotlen h ! nat (headslot h))"
      by (simp add: popped_def)
    from Suc.hyps(1) [OF n popped_wf [OF Suc.prems d]] show ?thesis
      unfolding update_bwq_pop [OF Suc.prems d True] bwq_popped [OF Suc.prems d]
      using True by (auto simp: b diff_diff_eq)
  qed
qed

lemma update_bwq_frame:
  "update_bwq h tick = Some h' \<Longrightarrow> bwq_wf h \<Longrightarrow>
     KBps h' = KBps h \<and> delay h' = delay h \<and> plr h' = plr h \<and> qsize h' = qsize h \<and>
     emulator h' = emulator h \<and> bytespertick h' = bytespertick h \<and> hop_id h' = hop_id h \<and>
     fragment h' = fragment h \<and> pkts h' = pkts h \<and> bytes h' = bytes h \<and> qdrops h' = qdrops h \<and>
     hop.more h' = hop.more h \<and>
     (headslot h' + slotdepth h') mod qsize h = (headslot h + slotdepth h) mod qsize h"
proof (induction "nat (slotdepth h)" arbitrary: h)
  case 0
  then show ?case using update_bwq_stop [of h tick] by (auto simp: bwq_wf_def)
next
  case (Suc n)
  then have d: "0 < slotdepth h" by simp
  show ?case
  proof (cases "exittick h ! nat (headslot h) < tick")
    case False
    then show ?thesis using update_bwq_stop [of h tick] Suc.prems by auto
  next
    case True
    have n: "n = nat (slotdepth (popped h))" using Suc.hyps(2) by simp
    have up: "update_bwq (popped h) tick = Some h'"
      using Suc.prems(1) update_bwq_pop [OF Suc.prems(2) d True] by simp
    have "(headslot (popped h) + slotdepth (popped h)) mod qsize h = (headslot h + slotdepth h) mod qsize h"
    proof (cases "headslot h + 1 = qsize h")
      case True
      then have e: "headslot h + slotdepth h = (slotdepth h - 1) + qsize h" by simp
      show ?thesis unfolding e using True by (simp add: popped_def)
    qed (simp add: popped_def)
    then show ?thesis
      using Suc.hyps(1) [OF n up popped_wf [OF Suc.prems(2) d]] by (simp add: popped_def)
  qed
qed

text \<open>The free cell is the same before and after the update: the code may compute it first.\<close>

lemma new_slot_Some: "bwq_wf h \<Longrightarrow> new_slot h = Some (int (cell h (nat (slotdepth h))))"
  unfolding bwq_wf_def new_slot_def
  by (auto simp: ring_cell(3)) (auto simp: ring_ok_def s32_id array_ops)

lemma new_slot_update: "bwq_wf h \<Longrightarrow> update_bwq h tick = Some h' \<Longrightarrow> new_slot h' = new_slot h"
proof -
  assume wf: "bwq_wf h" and up: "update_bwq h tick = Some h'"
  have wf': "bwq_wf h'" using update_bwq_spec [OF wf, of tick] up by auto
  have r: "ring_ok h" "ring_ok h'" using wf wf' by (simp_all add: bwq_wf_def)
  have "int (cell h' (nat (slotdepth h'))) = int (cell h (nat (slotdepth h)))"
    using update_bwq_frame [OF up wf] wf wf' r by (simp add: ring_cell(3) bwq_wf_def)
  then show ?thesis by (simp add: new_slot_Some [OF wf] new_slot_Some [OF wf'])
qed

lemma tail_exit_last:
  assumes wf: "bwq_wf h" and d: "0 < slotdepth h"
  shows "tail_exit h = Some (fst (last (bwq h)))"
proof -
  have r: "ring_ok h" using wf by (simp add: bwq_wf_def)
  let ?k = "nat (slotdepth h - 1)"
  have k: "int ?k = slotdepth h - 1" "nat (slotdepth h) = Suc ?k" using d by auto
  have "cmod (s32 (headslot h + slotdepth h - 1)) (qsize h) = Some (int (cell h ?k))"
    unfolding ring_cell(3) [OF r] k(1) using wf r d unfolding bwq_wf_def ring_ok_def
    by (simp add: s32_id cmod_Some add_diff_eq)
  moreover have "aget (exittick h) (int (cell h ?k)) = Some (exittick h ! cell h ?k)"
    using ring_cell(1) [OF r] by (simp add: array_ops)
  ultimately show ?thesis by (simp add: tail_exit_def bwq_def k(2))
qed

text \<open>Adding a packet appends its entry.\<close>

definition bwq_room :: "('w, 'z) hop_scheme \<Rightarrow> bool" where
  "bwq_room h \<longleftrightarrow> slotdepth h < qsize h"

lemma bwq_push_spec:
  assumes wf: "bwq_wf h" and room: "bwq_room h"
  shows "\<exists>h'. bwq_push t l h = Some h' \<and> bwq_wf h' \<and> bwq h' = bwq h @ [(t, l)] \<and>
     bytedepth h' = s32 (bytedepth h + l)"
proof -
  have r: "ring_ok h" using wf by (simp add: bwq_wf_def)
  let ?d = "nat (slotdepth h)" and ?c = "cell h (nat (slotdepth h))"
  let ?h' = "h\<lparr>slotdepth := slotdepth h + 1, slotlen := (slotlen h)[?c := l],
       bytedepth := s32 (bytedepth h + l), exittick := (exittick h)[?c := t]\<rparr>"
  have c: "?c < length (exittick h)" "?c < length (slotlen h)" using ring_cell [OF r] by simp_all
  have lt: "slotdepth h < qsize h" "0 \<le> slotdepth h" "qsize h < 2 ^ 30"
    using wf room by (simp_all add: bwq_wf_def bwq_room_def ring_ok_def)
  have "bwq_push t l h = Some ?h'"
    using c lt by (simp add: bwq_push_def new_slot_Some [OF wf] bwq_add_def array_ops s32_id)
  moreover have "bwq_wf ?h'" using wf room by (simp add: bwq_wf_def ring_ok_def bwq_room_def)
  moreover have "bwq ?h' = bwq h @ [(t, l)]"
  proof -
    have ne: "?c \<noteq> cell h k" if "k < ?d" for k
      using cell_inj [OF r, of k ?d] that lt by auto
    have "nat (slotdepth h + 1) = Suc ?d" using lt by simp
    then show ?thesis using ne c by (auto simp: bwq_def cell_def [of ?h'] cell_def [symmetric])
  qed
  ultimately show ?thesis by auto
qed

text \<open>The ring of the code keeps the contract, at both widths of the tick.\<close>

interpretation ring: timed_queue bwq bwq_wf bwq_room bytedepth update_bwq bwq_push
  by unfold_locales (fact update_bwq_spec, fact bwq_push_spec)

end
