(* ===== verification/Bytes.thy ===== *)
theory Bytes
  imports Prelude
begin

text \<open>
  Bytes in memory: 32-bit words in the order of the little-endian machines both modules run on,
  overwriting a part of a byte string, and streams of records of fixed width (the digests cores
  exchange, the words of a table), with the contract of their encoding as a locale.
\<close>

section \<open>Words and bytes\<close>

definition le32 :: "u8 \<Rightarrow> u8 \<Rightarrow> u8 \<Rightarrow> u8 \<Rightarrow> u32" where
  "le32 b0 b1 b2 b3 = ucast b0 OR push_bit 8 (ucast b1) OR push_bit 16 (ucast b2) OR push_bit 24 (ucast b3)"

definition bytes32 :: "u32 \<Rightarrow> u8 list" where
  "bytes32 w = [ucast w, ucast (drop_bit 8 w), ucast (drop_bit 16 w), ucast (drop_bit 24 w)]"

definition get32 :: "nat \<Rightarrow> u8 list \<Rightarrow> u32" where
  "get32 off d = le32 (d ! off) (d ! (off + 1)) (d ! (off + 2)) (d ! (off + 3))"

definition put_bytes :: "nat \<Rightarrow> u8 list \<Rightarrow> u8 list \<Rightarrow> u8 list" where
  "put_bytes off bs d = take off d @ bs @ drop (off + length bs) d"

lemma uint_u32_of: "0 \<le> x \<Longrightarrow> x < 2 ^ 32 \<Longrightarrow> uint (u32_of x) = x"
  by (simp add: u32_of_def uint_word_of_int_eq take_bit_int_eq_self)

lemma le32_bytes: "le32 (ucast w) (ucast (drop_bit 8 w)) (ucast (drop_bit 16 w)) (ucast (drop_bit 24 w)) = (w :: u32)"
proof (rule bit_word_eqI)
  fix n assume "n < LENGTH(32)"
  then have n: "n < 32" by simp
  have e: "8 + (n - 8) = n \<or> n < 8" "16 + (n - 16) = n \<or> n < 16" "24 + (n - 24) = n \<or> n < 24" by auto
  show "bit (le32 (ucast w) (ucast (drop_bit 8 w)) (ucast (drop_bit 16 w)) (ucast (drop_bit 24 w))) n = bit w n"
    using n e by (auto simp: le32_def bit_simps)
qed

lemma drop_put_bytes [simp]:
  "off + length bs \<le> n \<Longrightarrow> off \<le> length d \<Longrightarrow> drop n (put_bytes off bs d) = drop n d"
  by (simp add: put_bytes_def min_def)

lemma length_put_bytes [simp]: "off + length bs \<le> length d \<Longrightarrow> length (put_bytes off bs d) = length d"
  by (simp add: put_bytes_def)

section \<open>Records of fixed width\<close>

locale fixed_codec =
  fixes enc :: "'a \<Rightarrow> 'b list" and dec :: "'b list \<Rightarrow> 'a" and wf :: "'a \<Rightarrow> bool" and width :: nat
  assumes width: "length (enc x) = width"
    and dec_enc: "wf x \<Longrightarrow> dec (enc x @ rest) = x"
begin

lemma length_stream: "length (concat (map enc xs)) = width * length xs"
  by (induction xs) (simp_all add: width)

lemma drop_stream: "n \<le> length xs \<Longrightarrow> drop (width * n) (concat (map enc xs)) = concat (map enc (drop n xs))"
proof (induction n arbitrary: xs)
  case (Suc n)
  then show ?case by (cases xs) (simp_all add: width)
qed simp

lemma decode_at:
  assumes "n < length xs" "wf (xs ! n)"
  shows "dec (drop (width * n) (concat (map enc xs))) = xs ! n"
  using assms Cons_nth_drop_Suc [of n xs, symmetric] by (simp add: drop_stream dec_enc)

end

interpretation word_codec: fixed_codec bytes32 "get32 0" "\<lambda>_. True" 4
  by unfold_locales (simp_all add: bytes32_def get32_def le32_bytes)

end
