(* ===== verification/Topology.thy ===== *)
theory Topology
  imports Hop Bytes
begin

text \<open>
  The tables both kernels keep in mn_pathtable.c: \<open>nodetable\<close> from the low 16 bits of an
  address to a node number, \<open>pathtable\<close> from two node numbers to a path, \<open>hoptable\<close> of
  the hops. Pointers are modelled: the address of a path is a key of \<open>path_mem\<close>, which holds
  the NULL-terminated array of hop pointers while it is allocated, and a hop pointer is the address
  of the \<open>hoptable\<close> it points into and an index. So a pointer that outlives its table is seen.
  \<open>kmem\<close> counts the blocks that are allocated and not freed; \<open>alloc_ok\<close> says, one entry per
  request, whether the kernel's allocator serves it (when it is used up every request is served).
\<close>

section \<open>State\<close>

datatype hop_ptr = Hop_Ptr nat int

record 'h topo =
  nodetable :: "nat \<Rightarrow> u8"
  hopcount :: int
  hoptable :: "(nat \<times> 'h list) option"
  nodecount :: int
  pathtable :: "nat option list list option"
  path_mem :: "nat \<Rightarrow> hop_ptr option list option"
  next_addr :: nat
  kmem :: int
  alloc_ok :: "bool list"

definition NODEMASK :: u32 where "NODEMASK = 0xffff"

section \<open>The allocator\<close>

text \<open>A negative element count is a size no allocator serves; a request of size 0 succeeds and
  holds nothing.\<close>

definition kmalloc :: "int \<Rightarrow> ('h, 'z) topo_scheme \<Rightarrow> bool \<times> ('h, 'z) topo_scheme" where
  "kmalloc n s =
     (if n < 0 then (False, s)
      else case alloc_ok s of
        False # r \<Rightarrow> (False, s\<lparr>alloc_ok := r\<rparr>)
      | _ \<Rightarrow> (True, s\<lparr>alloc_ok := tl (alloc_ok s), kmem := kmem s + (if n = 0 then 0 else 1)\<rparr>))"

definition kfree_n :: "int \<Rightarrow> ('h, 'z) topo_scheme \<Rightarrow> ('h, 'z) topo_scheme" where
  "kfree_n n s = s\<lparr>kmem := kmem s - (if n = 0 then 0 else 1)\<rparr>"

definition kfree_path :: "nat \<Rightarrow> ('h, 'z) topo_scheme \<Rightarrow> ('h, 'z) topo_scheme option" where
  "kfree_path a s =
     (case path_mem s a of
        None \<Rightarrow> None
      | Some _ \<Rightarrow> Some (s\<lparr>path_mem := (path_mem s)(a := None), kmem := kmem s - 1\<rparr>))"

section \<open>lookup_path\<close>

text \<open>The int at index \<open>k\<close> of \<open>nodetable\<close>, from its four bytes.\<close>

definition node_id :: "(nat \<Rightarrow> u8) \<Rightarrow> nat \<Rightarrow> int" where
  "node_id t k = sint (le32 (t (4 * k)) (t (4 * k + 1)) (t (4 * k + 2)) (t (4 * k + 3)))"

definition node_of :: "('h, 'z) topo_scheme \<Rightarrow> u32 \<Rightarrow> int" where
  "node_of s addr = node_id (nodetable s) (unat (ntohl addr AND NODEMASK))"

definition lookup_path :: "('h, 'z) topo_scheme \<Rightarrow> u32 \<Rightarrow> u32 \<Rightarrow> nat option option" where
  "lookup_path s src dst =
     (let srcid = node_of s src; dstid = node_of s dst in
      case pathtable s of
        None \<Rightarrow> Some None
      | Some rows \<Rightarrow>
          if srcid = - 1 \<or> dstid = - 1 then Some None
          else do { row \<leftarrow> aget rows srcid; aget row dstid })"

section \<open>free_path\<close>

fun free_cells :: "nat option list \<Rightarrow> int list \<Rightarrow> ('h, 'z) topo_scheme \<Rightarrow> ('h, 'z) topo_scheme option" where
  "free_cells row [] s = Some s"
| "free_cells row (j # js) s = do {
     c \<leftarrow> aget row j;
     case c of
       None \<Rightarrow> free_cells row js s
     | Some a \<Rightarrow> do { s' \<leftarrow> kfree_path a s; free_cells row js s' } }"

fun free_rows :: "nat option list list \<Rightarrow> int list \<Rightarrow> ('h, 'z) topo_scheme \<Rightarrow> ('h, 'z) topo_scheme option" where
  "free_rows rows [] s = Some s"
| "free_rows rows (i # is) s = do {
     row \<leftarrow> aget rows i;
     s' \<leftarrow> free_cells row [0..nodecount s - 1] s;
     free_rows rows is s' }"

fun kfree_rows :: "nat option list list \<Rightarrow> int list \<Rightarrow> ('h, 'z) topo_scheme \<Rightarrow> ('h, 'z) topo_scheme option" where
  "kfree_rows rows [] s = Some s"
| "kfree_rows rows (i # is) s = do {
     row \<leftarrow> aget rows i;
     kfree_rows rows is (kfree_n 1 s) }"

definition free_path :: "('h, 'z) topo_scheme \<Rightarrow> ('h, 'z) topo_scheme option" where
  "free_path s = do {
     s1 \<leftarrow> (case pathtable s of
              None \<Rightarrow> Some s
            | Some rows \<Rightarrow>
                if nodecount s = 0 then Some s
                else do {
                  s1 \<leftarrow> free_rows rows [0..nodecount s - 1] s;
                  s2 \<leftarrow> kfree_rows rows [0..nodecount s - 1] s1;
                  Some (kfree_n 1 s2) });
     Some (s1\<lparr>pathtable := None, nodecount := 0\<rparr>) }"

section \<open>Hop pointers\<close>

text \<open>A hop pointer is good for the table it was made from.\<close>

definition deref_hop :: "hop_ptr \<Rightarrow> ('h, 'z) topo_scheme \<Rightarrow> 'h option" where
  "deref_hop hp s = (case hp of Hop_Ptr tab i \<Rightarrow> do {
     (a, hs) \<leftarrow> hoptable s;
     if a = tab then aget hs i else None })"

definition store_hop :: "hop_ptr \<Rightarrow> 'h \<Rightarrow> ('h, 'z) topo_scheme \<Rightarrow> ('h, 'z) topo_scheme option" where
  "store_hop hp h s = (case hp of Hop_Ptr tab i \<Rightarrow> do {
     (a, hs) \<leftarrow> hoptable s;
     if a = tab then do { hs' \<leftarrow> aset hs i h; Some (s\<lparr>hoptable := Some (a, hs')\<rparr>) } else None })"

section \<open>Well-formed tables\<close>

definition cells_of :: "nat option list list \<Rightarrow> nat list" where
  "cells_of rows = concat (map (\<lambda>row. [a. Some a \<leftarrow> row]) rows)"

text \<open>Every path in the table is allocated, and no two entries share one.\<close>

definition paths_wf :: "('h, 'z) topo_scheme \<Rightarrow> bool" where
  "paths_wf s \<longleftrightarrow>
     (case pathtable s of
        None \<Rightarrow> True
      | Some rows \<Rightarrow>
          0 \<le> nodecount s \<and> int (length rows) = nodecount s \<and>
          (\<forall>row \<in> set rows. int (length row) = nodecount s) \<and>
          distinct (cells_of rows) \<and>
          (\<forall>a \<in> set (cells_of rows). path_mem s a \<noteq> None)) \<and>
     (\<forall>a. next_addr s \<le> a \<longrightarrow> path_mem s a = None)"

definition hops_wf :: "('h, 'z) topo_scheme \<Rightarrow> bool" where
  "hops_wf s \<longleftrightarrow>
     (case hoptable s of
        None \<Rightarrow> hopcount s = 0
      | Some (a, hs) \<Rightarrow> int (length hs) = hopcount s \<and> a < next_addr s)"

definition topo_wf :: "('h, 'z) topo_scheme \<Rightarrow> bool" where
  "topo_wf s \<longleftrightarrow> paths_wf s \<and> hops_wf s"

lemma topo_wf_alloc [simp]:
  "paths_wf (alloc_ok_update f s) = paths_wf s" "paths_wf (kmem_update g s) = paths_wf s"
  "hops_wf (alloc_ok_update f s) = hops_wf s" "hops_wf (kmem_update g s) = hops_wf s"
  "topo_wf (alloc_ok_update f s) = topo_wf s" "topo_wf (kmem_update g s) = topo_wf s"
  by (auto simp: topo_wf_def paths_wf_def hops_wf_def split: option.splits)

text \<open>The node numbers the table holds are \<open>-1\<close> or rows of \<open>pathtable\<close>, once there is one.\<close>

definition nodes_ok :: "('h, 'z) topo_scheme \<Rightarrow> bool" where
  "nodes_ok s \<longleftrightarrow> pathtable s = None \<or> (\<forall>k < 65536. node_id (nodetable s) k = - 1 \<or>
     (0 \<le> node_id (nodetable s) k \<and> node_id (nodetable s) k < nodecount s))"

lemma mask_index: "unat (x AND NODEMASK) < 65536"
proof -
  have "x AND NODEMASK \<le> NODEMASK" by (rule word_and_le1)
  then have "unat (x AND NODEMASK) \<le> unat NODEMASK" by (simp add: word_le_nat_alt)
  then show ?thesis by (simp add: NODEMASK_def)
qed

lemma lookup_path_total:
  assumes "paths_wf s" "nodes_ok s"
  shows "\<exists>r. lookup_path s src dst = Some r"
proof (cases "pathtable s")
  case None
  then show ?thesis by (simp add: lookup_path_def)
next
  case (Some rows)
  have n: "node_of s x = - 1 \<or> 0 \<le> node_of s x \<and> node_of s x < nodecount s" for x
    using assms(2) mask_index [of "ntohl x"] Some unfolding nodes_ok_def node_of_def by auto
  show ?thesis
  proof (cases "node_of s src = - 1 \<or> node_of s dst = - 1")
    case True
    then show ?thesis using Some by (auto simp: lookup_path_def)
  next
    case False
    with n [of src] n [of dst] assms(1) Some
    have "aget rows (node_of s src) = Some (rows ! nat (node_of s src))"
      "nat (node_of s src) < length rows" "0 \<le> node_of s dst" "node_of s dst < nodecount s"
      by (auto simp: paths_wf_def array_ops)
    moreover from this have "int (length (rows ! nat (node_of s src))) = nodecount s"
      using assms(1) Some by (auto simp: paths_wf_def)
    ultimately show ?thesis using False Some by (simp add: lookup_path_def array_ops)
  qed
qed

text \<open>A path that is found is allocated.\<close>

lemma aget_set: "aget xs i = Some x \<Longrightarrow> x \<in> set xs"
  by (auto simp: aget_def split: if_splits)

lemma lookup_path_live:
  assumes "paths_wf s" "lookup_path s src dst = Some (Some a)"
  shows "path_mem s a \<noteq> None"
proof -
  obtain rows where r: "pathtable s = Some rows"
    using assms(2) by (auto simp: lookup_path_def Let_def split: option.splits)
  then obtain row where "aget rows (node_of s src) = Some row" "aget row (node_of s dst) = Some (Some a)"
    using assms(2) by (auto simp: lookup_path_def Let_def split: if_splits Option.bind_splits)
  then have "row \<in> set rows" "Some a \<in> set row" by (auto dest: aget_set)
  then have "a \<in> set (cells_of rows)" by (force simp: cells_of_def)
  with assms(1) r show ?thesis by (auto simp: paths_wf_def)
qed

section \<open>Freeing gives every block back\<close>

definition paths_owned :: "('h, 'z) topo_scheme \<Rightarrow> int" where
  "paths_owned s =
     (case pathtable s of
        None \<Rightarrow> 0
      | Some rows \<Rightarrow> if nodecount s = 0 then 0 else 1 + nodecount s + int (length (cells_of rows)))"

lemma paths_owned_alloc [simp]:
  "paths_owned (alloc_ok_update f s) = paths_owned s" "paths_owned (kmem_update g s) = paths_owned s"
  by (auto simp: paths_owned_def split: option.splits)

text \<open>What freeing a list of paths does.\<close>

definition freed :: "nat list \<Rightarrow> ('h, 'z) topo_scheme \<Rightarrow> ('h, 'z) topo_scheme" where
  "freed as s = s\<lparr>path_mem := (\<lambda>a. if a \<in> set as then None else path_mem s a),
     kmem := kmem s - int (length as)\<rparr>"

lemma freed_Nil [simp]: "freed [] s = s"
  by (simp add: freed_def)

lemma freed_append: "freed bs (freed as s) = freed (as @ bs) s"
  by (auto simp: freed_def fun_eq_iff)

lemma freed_fields [simp]:
  "nodecount (freed as s) = nodecount s" "pathtable (freed as s) = pathtable s"
  "path_mem (freed as s) a = (if a \<in> set as then None else path_mem s a)"
  by (simp_all add: freed_def)

lemma free_cells_drop:
  "k \<le> length row \<Longrightarrow> \<forall>a \<in> set [a. Some a \<leftarrow> drop k row]. path_mem s a \<noteq> None \<Longrightarrow>
   distinct [a. Some a \<leftarrow> drop k row] \<Longrightarrow>
   free_cells row [int k..int (length row) - 1] s = Some (freed [a. Some a \<leftarrow> drop k row] s)"
proof (induction "length row - k" arbitrary: k s)
  case 0
  then show ?case by simp
next
  case (Suc n)
  then have k: "k < length row" by simp
  have d: "drop k row = row ! k # drop (Suc k) row" using k by (simp add: Cons_nth_drop_Suc)
  have u: "[int k..int (length row) - 1] = int k # [int (Suc k)..int (length row) - 1]"
    using k by (simp add: upto_rec1 add.commute)
  show ?case
  proof (cases "row ! k")
    case None
    have "free_cells row [int (Suc k)..int (length row) - 1] s
        = Some (freed [a. Some a \<leftarrow> drop (Suc k) row] s)"
      by (rule Suc.hyps(1)) (use Suc k None in \<open>auto simp: d\<close>)
    with None k show ?thesis unfolding u by (simp add: array_ops d)
  next
    case (Some a)
    have fa: "kfree_path a s = Some (freed [a] s)"
      using Suc.prems(2) Some by (auto simp: kfree_path_def d freed_def fun_eq_iff)
    have ih: "free_cells row [int (Suc k)..int (length row) - 1] (freed [a] s)
        = Some (freed [a. Some a \<leftarrow> drop (Suc k) row] (freed [a] s))"
      by (rule Suc.hyps(1)) (use Suc k Some in \<open>auto simp: d\<close>)
    show ?thesis unfolding u using k Some fa ih by (simp add: array_ops d freed_append)
  qed
qed

lemma free_cells_all:
  assumes "\<forall>a \<in> set [a. Some a \<leftarrow> row]. path_mem s a \<noteq> None" "distinct [a. Some a \<leftarrow> row]"
    and "int (length row) = n"
  shows "free_cells row [0..n - 1] s = Some (freed [a. Some a \<leftarrow> row] s)"
  using free_cells_drop [of 0 row s] assms by simp

lemma free_rows_drop:
  "k \<le> length rows \<Longrightarrow> \<forall>row \<in> set rows. int (length row) = nodecount s \<Longrightarrow>
   \<forall>a \<in> set (cells_of (drop k rows)). path_mem s a \<noteq> None \<Longrightarrow> distinct (cells_of (drop k rows)) \<Longrightarrow>
   free_rows rows [int k..int (length rows) - 1] s = Some (freed (cells_of (drop k rows)) s)"
proof (induction "length rows - k" arbitrary: k s)
  case 0
  then show ?case by (simp add: cells_of_def)
next
  case (Suc n)
  then have k: "k < length rows" by simp
  let ?c = "[a. Some a \<leftarrow> rows ! k]"
  have c: "cells_of (drop k rows) = ?c @ cells_of (drop (Suc k) rows)"
    using k by (simp add: cells_of_def Cons_nth_drop_Suc [symmetric])
  have u: "[int k..int (length rows) - 1] = int k # [int (Suc k)..int (length rows) - 1]"
    using k by (simp add: upto_rec1 add.commute)
  have 1: "free_cells (rows ! k) [0..nodecount s - 1] s = Some (freed ?c s)"
    by (rule free_cells_all) (use Suc.prems k c in auto)
  have 2: "free_rows rows [int (Suc k)..int (length rows) - 1] (freed ?c s)
      = Some (freed (cells_of (drop (Suc k) rows)) (freed ?c s))"
    by (rule Suc.hyps(1)) (use Suc k c in auto)
  show ?case unfolding u using k 1 2 c by (simp add: array_ops freed_append)
qed

lemma kfree_rows_drop:
  "k \<le> length rows \<Longrightarrow>
   kfree_rows rows [int k..int (length rows) - 1] s = Some (s\<lparr>kmem := kmem s - int (length rows - k)\<rparr>)"
proof (induction "length rows - k" arbitrary: k s)
  case 0
  then show ?case by simp
next
  case (Suc n)
  then have k: "k < length rows" by simp
  have u: "[int k..int (length rows) - 1] = int k # [int (Suc k)..int (length rows) - 1]"
    using k by (simp add: upto_rec1 add.commute)
  show ?case unfolding u using Suc.hyps(1) [of "Suc k" "kfree_n 1 s"] Suc.hyps(2) k
    by (simp add: array_ops kfree_n_def)
qed

lemma free_path_spec:
  assumes "paths_wf s"
  shows "\<exists>s'. free_path s = Some s' \<and> pathtable s' = None \<and> nodecount s' = 0 \<and>
     kmem s' = kmem s - paths_owned s \<and> hoptable s' = hoptable s \<and> hopcount s' = hopcount s \<and>
     next_addr s' = next_addr s \<and> alloc_ok s' = alloc_ok s \<and> nodetable s' = nodetable s \<and>
     topo.more s' = topo.more s \<and>
     (\<forall>a. path_mem s' a = (case pathtable s of
            Some rows \<Rightarrow> if a \<in> set (cells_of rows) then None else path_mem s a
          | None \<Rightarrow> path_mem s a))"
proof (cases "pathtable s")
  case None
  then show ?thesis by (auto simp: free_path_def paths_owned_def)
next
  case (Some rows)
  note wf = assms [unfolded paths_wf_def Some, simplified]
  show ?thesis
  proof (cases "nodecount s = 0")
    case True
    then have "rows = []" using wf by simp
    then show ?thesis using Some True by (auto simp: free_path_def paths_owned_def cells_of_def)
  next
    case False
    have 1: "free_rows rows [0..nodecount s - 1] s = Some (freed (cells_of rows) s)"
      using free_rows_drop [of 0 rows s] wf by simp
    have 2: "kfree_rows rows [0..nodecount s - 1] (freed (cells_of rows) s)
       = Some ((freed (cells_of rows) s)\<lparr>kmem := kmem s - int (length (cells_of rows)) - nodecount s\<rparr>)"
      using kfree_rows_drop [of 0 rows "freed (cells_of rows) s"] wf by (simp add: freed_def)
    show ?thesis using Some False 1 2 by (simp add: free_path_def paths_owned_def kfree_n_def freed_def)
  qed
qed

lemma free_path_wf: "paths_wf s \<Longrightarrow> free_path s = Some s' \<Longrightarrow> paths_wf s'"
  using free_path_spec [of s] by (auto simp: paths_wf_def split: option.splits)

end
