(* ===== verification/Lx_Pathtable.thy ===== *)
theory Lx_Pathtable
  imports Topology "HOL-Library.Multiset"
begin

text \<open>
  emulator/linux/module/mn_pathtable.c: the /proc handlers that load the tables. What the user's
  buffer delivers is an argument (the value \<open>proc_dointvec\<close> stores, the bytes
  \<open>copy_from_user\<close> copies or its failure). A handler returns the C return value, the updated
  \<open>*lenp\<close> and \<open>*ppos\<close> where it sets them, and the state. The build is the default one,
  without MN_TCPDUMP.
\<close>

definition EPERM :: int where "EPERM = 1"
definition ENOENT :: int where "ENOENT = 2"
definition ENOMEM :: int where "ENOMEM = 12"
definition EFAULT :: int where "EFAULT = 14"
definition EINVAL :: int where "EINVAL = 22"
definition ENOBUFS :: int where "ENOBUFS = 105"

lemmas errno = EPERM_def ENOENT_def ENOMEM_def EFAULT_def EINVAL_def ENOBUFS_def

type_synonym lx_hop = "u64 hop"

section \<open>uninit_paths\<close>

fun kfree_hops :: "('w, 'y) hop_scheme list \<Rightarrow> int list \<Rightarrow> (('w, 'y) hop_scheme, 'z) topo_scheme
    \<Rightarrow> (('w, 'y) hop_scheme, 'z) topo_scheme option" where
  "kfree_hops hs [] s = Some s"
| "kfree_hops hs (i # is) s = do {
     h \<leftarrow> aget hs i;
     kfree_hops hs is (kfree_n (int (length (slotlen h))) (kfree_n (int (length (exittick h))) s)) }"

definition uninit_paths :: "(('w, 'y) hop_scheme, 'z) topo_scheme
    \<Rightarrow> (('w, 'y) hop_scheme, 'z) topo_scheme option" where
  "uninit_paths s = do {
     s1 \<leftarrow> free_path s;
     s2 \<leftarrow> (case hoptable s1 of
              None \<Rightarrow> Some s1
            | Some (a, hs) \<Rightarrow> do {
                s2 \<leftarrow> kfree_hops hs [0..hopcount s1 - 1] s1;
                Some (kfree_n 1 s2) });
     Some (s2\<lparr>hoptable := None, hopcount := 0\<rparr>) }"

section \<open>proc_nodetable\<close>

text \<open>\<open>data\<close> is what arrives in the kernel's buffer (its length is \<open>*lenp\<close>), \<open>failed\<close>
  whether \<open>copy_from_user\<close> reports missing bytes.\<close>

definition proc_nodetable :: "bool \<Rightarrow> u8 list \<Rightarrow> bool \<Rightarrow> nat \<Rightarrow> ('h, 'z) topo_scheme
    \<Rightarrow> int \<times> nat \<times> nat \<times> ('h, 'z) topo_scheme" where
  "proc_nodetable write data failed ppos s =
     (if 4 * (unat NODEMASK + 1) < ppos + length data then (- EINVAL, length data, ppos, s)
      else if \<not> write then (- EINVAL, 0, ppos, s)
      else
        let s' = s\<lparr>nodetable := (\<lambda>k. if ppos \<le> k \<and> k < ppos + length data then data ! (k - ppos)
                                     else nodetable s k)\<rparr>
        in if failed then (- EFAULT, length data, ppos, s')
           else (0, length data, ppos + length data, s'))"

section \<open>proc_nodecount\<close>

text \<open>The loop that allocates the rows: the rows it has, and the index at which it failed.\<close>

fun alloc_rows :: "int list \<Rightarrow> nat option list list \<Rightarrow> ('h, 'z) topo_scheme
    \<Rightarrow> nat option list list \<times> int option \<times> ('h, 'z) topo_scheme" where
  "alloc_rows [] rows s = (rows, None, s)"
| "alloc_rows (i # is) rows s =
     (let (ok, s') = kmalloc (nodecount s) s in
      if ok then alloc_rows is (rows @ [replicate (nat (nodecount s)) None]) s'
      else (rows, Some i, s'))"

definition proc_nodecount :: "bool \<Rightarrow> int \<Rightarrow> ('h, 'z) topo_scheme
    \<Rightarrow> (int \<times> ('h, 'z) topo_scheme) option" where
  "proc_nodecount write newval s =
     (let oldcount = nodecount s in
      if \<not> write then Some (0, s)
      else if oldcount = newval then Some (0, s)
      else do {
        s1 \<leftarrow> free_path (s\<lparr>nodecount := oldcount\<rparr>);
        let s2 = s1\<lparr>nodecount := newval\<rparr>;
        let (ok, s3) = kmalloc newval s2;
        if \<not> ok then do { s4 \<leftarrow> free_path s3; Some (- ENOMEM, s4) }
        else
          let (rows, failed, s4) = alloc_rows [0..newval - 1] [] s3 in
          case failed of
            None \<Rightarrow> Some (0, s4\<lparr>pathtable := Some rows\<rparr>)
          | Some i \<Rightarrow> do {
              s5 \<leftarrow> free_path (s4\<lparr>pathtable := Some rows, nodecount := i - 1\<rparr>);
              Some (- ENOMEM, s5) } })"

section \<open>proc_hophandle\<close>

definition vmalloc :: "int \<Rightarrow> ('h, 'z) topo_scheme \<Rightarrow> bool \<times> ('h, 'z) topo_scheme" where
  "vmalloc n s = (if n = 0 then (False, s) else kmalloc n s)"

text \<open>A cell of the table after \<open>memset\<close>, and the values taken from the user's hop.\<close>

definition zero_hop :: "'w hop" where
  "zero_hop = \<lparr>KBps = 0, delay = 0, plr = 0, qsize = 0, emulator = 0, bytespertick = 0, hop_id = 0,
     slotdepth = 0, bytedepth = 0, headslot = 0, fragment = 0, exittick = [], slotlen = [],
     pkts = 0, bytes = 0, qdrops = 0\<rparr>"

definition hop_params :: "int \<Rightarrow> int \<Rightarrow> sysctl_hop \<Rightarrow> ('w, 'y) hop_scheme \<Rightarrow> ('w, 'y) hop_scheme" where
  "hop_params HZ i sh h = h\<lparr>KBps := sh_bandwidth sh sdiv 8,
     delay := s32 (HZ * sh_delay sh) sdiv 1000,
     plr := sh_plr sh,
     qsize := sh_qsize sh,
     emulator := sh_emulator sh,
     bytespertick := u32_of (s32 ((sh_bandwidth sh sdiv 8) * 1000) sdiv HZ),
     hop_id := i\<rparr>"

definition put_hop :: "int \<Rightarrow> 'h \<Rightarrow> ('h, 'z) topo_scheme \<Rightarrow> ('h, 'z) topo_scheme option" where
  "put_hop i h s = do {
     (a, hs) \<leftarrow> hoptable s;
     hs' \<leftarrow> aset hs i h;
     Some (s\<lparr>hoptable := Some (a, hs')\<rparr>) }"

definition get_hop :: "int \<Rightarrow> ('h, 'z) topo_scheme \<Rightarrow> 'h option" where
  "get_hop i s = do { (a, hs) \<leftarrow> hoptable s; aget hs i }"

text \<open>One round of the loop: \<open>False\<close> when an array could not be allocated.\<close>

definition setup_hop :: "int \<Rightarrow> int \<Rightarrow> sysctl_hop \<Rightarrow> (lx_hop, 'z) topo_scheme
    \<Rightarrow> (bool \<times> (lx_hop, 'z) topo_scheme) option" where
  "setup_hop HZ i sh s = do {
     h \<leftarrow> get_hop i s;
     let h1 = hop_params HZ i sh h;
     let (ok, s1) = kmalloc (qsize h1) s;
     if \<not> ok then do { s1 \<leftarrow> put_hop i h1 s1; Some (False, s1) }
     else
       let h2 = h1\<lparr>exittick := replicate (nat (qsize h1)) 0, slotdepth := 0, bytedepth := 0,
                  headslot := 0, fragment := 0\<rparr> in
       let (ok, s2) = kmalloc (qsize h2) s1 in
       if \<not> ok then do { s2 \<leftarrow> put_hop i h2 s2; Some (False, s2) }
       else do {
         s3 \<leftarrow> put_hop i (h2\<lparr>slotlen := replicate (nat (qsize h2)) 0\<rparr>) s2;
         Some (True, s3) } }"

fun setup_hops :: "int \<Rightarrow> sysctl_hop list \<Rightarrow> int list \<Rightarrow> (lx_hop, 'z) topo_scheme
    \<Rightarrow> (bool \<times> (lx_hop, 'z) topo_scheme) option" where
  "setup_hops HZ hops [] s = Some (True, s)"
| "setup_hops HZ hops (i # is) s = do {
     sh \<leftarrow> aget hops i;
     (ok, s') \<leftarrow> setup_hop HZ i sh s;
     if ok then setup_hops HZ hops is s' else Some (False, s') }"

text \<open>\<open>tab\<close> is the copied \<open>tab.hopcount\<close>, \<open>uhops\<close> the copied array of hops;
  \<open>None\<close> for a failing copy. 12 is \<open>sizeof(tab)\<close>, a packed struct of a pointer and an int.\<close>

definition proc_hophandle :: "int \<Rightarrow> bool \<Rightarrow> int option \<Rightarrow> sysctl_hop list option \<Rightarrow> nat \<Rightarrow> nat
    \<Rightarrow> (lx_hop, 'z) topo_scheme \<Rightarrow> (int \<times> nat \<times> nat \<times> (lx_hop, 'z) topo_scheme) option" where
  "proc_hophandle HZ write tab uhops lenp ppos s =
     (if \<not> write then Some (- EINVAL, 0, ppos, s)
      else if ppos \<noteq> 0 then Some (- EFAULT, lenp, ppos, s)
      else if lenp \<noteq> 12 then Some (- EINVAL, lenp, ppos, s)
      else case tab of
        None \<Rightarrow> Some (- EFAULT, lenp, 12, s)
      | Some n \<Rightarrow>
          let (ok, s1) = vmalloc n s in
          if \<not> ok then Some (- ENOMEM, lenp, 12, s1)
          else case uhops of
            None \<Rightarrow> Some (- EFAULT, lenp, 12, s1)
          | Some hops \<Rightarrow> do {
              s2 \<leftarrow> uninit_paths s1;
              let (ok, s3) = vmalloc n s2;
              if \<not> ok then Some (- ENOMEM, lenp, 12, s3)
              else do {
                let s4 = s3\<lparr>hoptable := Some (next_addr s3, replicate (nat n) zero_hop),
                   next_addr := next_addr s3 + 1, hopcount := n\<rparr>;
                (ok, s5) \<leftarrow> setup_hops HZ hops [0..n - 1] s4;
                if ok then Some (0, lenp, 12, kfree_n 1 s5) else Some (- ENOMEM, lenp, 12, s5) } })"

section \<open>proc_hopstats\<close>

fun read_stats :: "int list \<Rightarrow> (('w, 'y) hop_scheme, 'z) topo_scheme \<Rightarrow> sysctl_hopstats list option" where
  "read_stats [] s = Some []"
| "read_stats (i # is) s = do {
     h \<leftarrow> get_hop i s;
     r \<leftarrow> read_stats is s;
     Some (\<lparr>hs_pkts = pkts h, hs_bytes = bytes h, hs_qdrops = qdrops h\<rparr> # r) }"

text \<open>The fourth component is what \<open>copy_to_user\<close> hands out; \<open>uok\<close> says that it succeeds.
  12 is \<open>sizeof(*stattab)\<close>.\<close>

definition proc_hopstats :: "bool \<Rightarrow> bool \<Rightarrow> int \<Rightarrow> int \<Rightarrow> (('w, 'y) hop_scheme, 'z) topo_scheme
    \<Rightarrow> (int \<times> int \<times> int \<times> sysctl_hopstats list \<times> (('w, 'y) hop_scheme, 'z) topo_scheme) option" where
  "proc_hopstats write uok lenp ppos s =
     (if ppos \<noteq> 0 \<and> \<not> write then Some (0, 0, ppos, [], s)
      else if lenp < hopcount s * 12 then Some (- EINVAL, lenp, ppos, [], s)
      else
        let (ok, s1) = kmalloc (hopcount s) s in
        if \<not> ok then Some (- ENOMEM, lenp, ppos, [], s1)
        else do {
          st \<leftarrow> read_stats [0..hopcount s1 - 1] s1;
          if \<not> uok then Some (- EFAULT, lenp, ppos, [], s1)
          else Some (0, hopcount s1 * 12, ppos + hopcount s1 * 12, st, kfree_n (hopcount s1) s1) })"

section \<open>proc_pathentry\<close>

record sysctl_pathentry =
  pe_src_node :: int
  pe_dst_node :: int
  pe_pathlen :: int

definition set_entry :: "int \<Rightarrow> int \<Rightarrow> nat option \<Rightarrow> ('h, 'z) topo_scheme \<Rightarrow> ('h, 'z) topo_scheme option" where
  "set_entry i j v s = do {
     rows \<leftarrow> pathtable s;
     row \<leftarrow> aget rows i;
     row' \<leftarrow> aset row j v;
     rows' \<leftarrow> aset rows i row';
     Some (s\<lparr>pathtable := Some rows'\<rparr>) }"

text \<open>The array that the loop fills, \<open>hoptable + hops[i]\<close> and a final NULL.\<close>

definition path_block :: "nat \<Rightarrow> int list \<Rightarrow> hop_ptr option list" where
  "path_block a hops = map (\<lambda>i. Some (Hop_Ptr a i)) hops @ [None]"

text \<open>\<open>entry\<close> and \<open>uhops\<close> are what the two copies deliver; 20 is \<open>sizeof(entry)\<close>.\<close>

definition proc_pathentry :: "bool \<Rightarrow> sysctl_pathentry option \<Rightarrow> int list option \<Rightarrow> nat \<Rightarrow> nat
    \<Rightarrow> ('h, 'z) topo_scheme \<Rightarrow> (int \<times> nat \<times> nat \<times> ('h, 'z) topo_scheme) option" where
  "proc_pathentry write entry uhops lenp ppos s =
     (if \<not> write then Some (- EINVAL, 0, ppos, s)
      else if lenp < 20 then Some (- EINVAL, lenp, ppos, s)
      else case entry of
        None \<Rightarrow> Some (- EFAULT, lenp, ppos + lenp, s)
      | Some e \<Rightarrow>
          if pathtable s = None \<or> hoptable s = None then Some (- EINVAL, lenp, ppos + lenp, s)
          else if nodecount s < pe_src_node e \<or> nodecount s < pe_dst_node e
          then Some (- EINVAL, lenp, ppos + lenp, s)
          else
            let (ok, s1) = kmalloc (pe_pathlen e) s in
            if \<not> ok then Some (- ENOMEM, lenp, ppos + lenp, s1)
            else case uhops of
              None \<Rightarrow> Some (- EFAULT, lenp, ppos + lenp, s1)
            | Some hops \<Rightarrow>
                let (ok, s2) = kmalloc (pe_pathlen e + 1) s1 in
                if \<not> ok then do {
                  s3 \<leftarrow> set_entry (pe_src_node e) (pe_dst_node e) None s2;
                  Some (- ENOMEM, lenp, ppos + lenp, s3) }
                else do {
                  (tab, hs) \<leftarrow> hoptable s2;
                  s3 \<leftarrow> set_entry (pe_src_node e) (pe_dst_node e) (Some (next_addr s2)) s2;
                  let s4 = s3\<lparr>path_mem := (path_mem s3)(next_addr s3 \<mapsto> path_block tab hops),
                     next_addr := next_addr s3 + 1\<rparr>;
                  Some (0, lenp, ppos + lenp, kfree_n (pe_pathlen e) s4) })"


section \<open>The allocator and the accounts\<close>

definition hop_blocks :: "('w, 'y) hop_scheme \<Rightarrow> int" where
  "hop_blocks h = of_bool (exittick h \<noteq> []) + of_bool (slotlen h \<noteq> [])"

definition hops_owned :: "(('w, 'y) hop_scheme, 'z) topo_scheme \<Rightarrow> int" where
  "hops_owned s = (case hoptable s of None \<Rightarrow> 0 | Some (a, hs) \<Rightarrow> 1 + sum_list (map hop_blocks hs))"

lemma hops_owned_alloc [simp]:
  "hops_owned (alloc_ok_update f s) = hops_owned s" "hops_owned (kmem_update g s) = hops_owned s"
  by (auto simp: hops_owned_def split: option.splits)

text \<open>The blocks the tables own are all that is allocated.\<close>

definition balanced :: "(('w, 'y) hop_scheme, 'z) topo_scheme \<Rightarrow> bool" where
  "balanced s \<longleftrightarrow> kmem s = paths_owned s + hops_owned s"

lemma kmalloc_cases:
  assumes "kmalloc n s = (ok, s')"
  shows "\<exists>r. s' = s\<lparr>alloc_ok := r, kmem := kmem s + of_bool (ok \<and> n \<noteq> 0)\<rparr> \<and> (ok \<longrightarrow> 0 \<le> n)"
proof (cases "n < 0 \<or> (\<exists>r. alloc_ok s = False # r)")
  case True
  then show ?thesis using assms by (cases s) (auto simp: kmalloc_def split: if_splits list.splits bool.splits)
next
  case False
  then have "kmalloc n s = (True, s\<lparr>alloc_ok := tl (alloc_ok s), kmem := kmem s + of_bool (n \<noteq> 0)\<rparr>)"
    by (auto simp: kmalloc_def split: list.splits bool.splits)
  then show ?thesis using assms False by auto
qed

lemma vmalloc_cases:
  "vmalloc n s = (ok, s') \<Longrightarrow>
   \<exists>r. s' = s\<lparr>alloc_ok := r, kmem := kmem s + of_bool ok\<rparr> \<and> (ok \<longrightarrow> 0 < n)"
  using kmalloc_cases [of n s ok s'] by (cases s) (auto simp: vmalloc_def split: if_splits)

lemma kmalloc_served: "alloc_ok s = [] \<Longrightarrow> 0 \<le> n \<Longrightarrow>
    kmalloc n s = (True, s\<lparr>kmem := kmem s + of_bool (n \<noteq> 0)\<rparr>)"
  by (auto simp: kmalloc_def)

lemma alloc_rows_spec:
  "alloc_rows is rows s = (rows', failed, s') \<Longrightarrow>
   \<exists>m r. m \<le> length is \<and> rows' = rows @ replicate m (replicate (nat (nodecount s)) None) \<and>
     s' = s\<lparr>alloc_ok := r, kmem := kmem s + int m * of_bool (nodecount s \<noteq> 0)\<rparr> \<and>
     failed = (if m = length is then None else Some (is ! m))"
proof (induction "is" arbitrary: rows s)
  case Nil
  then show ?case by (cases s) auto
next
  case (Cons i "is")
  obtain ok s1 where k: "kmalloc (nodecount s) s = (ok, s1)" by fastforce
  obtain r1 where s1: "s1 = s\<lparr>alloc_ok := r1, kmem := kmem s + of_bool (ok \<and> nodecount s \<noteq> 0)\<rparr>"
    using kmalloc_cases [OF k] by blast
  show ?case
  proof (cases ok)
    case False
    then show ?thesis using Cons.prems k s1 by (intro exI [of _ 0]) auto
  next
    case True
    have "alloc_rows is (rows @ [replicate (nat (nodecount s)) None]) s1 = (rows', failed, s')"
      using Cons.prems k True by simp
    from Cons.IH [OF this] obtain m r where m: "m \<le> length is"
      "rows' = (rows @ [replicate (nat (nodecount s)) None]) @ replicate m (replicate (nat (nodecount s)) None)"
      "s' = s\<lparr>alloc_ok := r, kmem := kmem s + int (Suc m) * of_bool (nodecount s \<noteq> 0)\<rparr>"
      "failed = (if m = length is then None else Some (is ! m))"
      using s1 True by (auto simp: algebra_simps)
    then show ?thesis by (intro exI [of _ "Suc m"] exI [of _ r]) auto
  qed
qed

lemma cells_of_empty [simp]: "cells_of (replicate m (replicate n None)) = []"
  by (induction m) (auto simp: cells_of_def)

lemma free_cells_empty:
  "\<forall>j \<in> set js. 0 \<le> j \<and> j < int n \<Longrightarrow> free_cells (replicate n None) js s = Some s"
  by (induction js) (auto simp: array_ops)

lemma free_rows_empty:
  "\<forall>i \<in> set is. 0 \<le> i \<and> i < int m \<Longrightarrow> nodecount s \<le> int n \<Longrightarrow>
   free_rows (replicate m (replicate n None)) is s = Some s"
  by (induction "is") (auto simp: array_ops free_cells_empty)

lemma kfree_rows_count:
  "\<forall>i \<in> set is. 0 \<le> i \<and> i < int (length rows) \<Longrightarrow>
   kfree_rows rows is s = Some (s\<lparr>kmem := kmem s - int (length is)\<rparr>)"
  by (induction "is" arbitrary: s) (auto simp: array_ops kfree_n_def)

text \<open>What the error path of \<open>proc_nodecount\<close> frees when row \<open>i\<close> could not be allocated:
  it calls \<open>free_path\<close> with \<open>nodecount = i - 1\<close>.\<close>

lemma free_path_partial:
  assumes "pathtable s = Some (replicate m (replicate n None))" "nodecount s = int m - 1" "m \<le> n"
  shows "free_path s = Some (s\<lparr>pathtable := None, nodecount := 0,
     kmem := kmem s - (if m = 1 then 0 else if m = 0 then 1 else int m)\<rparr>)"
proof (cases "m = 1")
  case True
  then show ?thesis using assms by (simp add: free_path_def)
next
  case False
  have 1: "free_rows (replicate m (replicate n None)) [0..nodecount s - 1] s = Some s"
    by (rule free_rows_empty) (use assms in auto)
  have 2: "kfree_rows (replicate m (replicate n None)) [0..nodecount s - 1] s
      = Some (s\<lparr>kmem := kmem s - int (nat (nodecount s))\<rparr>)"
    by (subst kfree_rows_count) (use assms in auto)
  show ?thesis using False assms 1 2 by (auto simp: free_path_def kfree_n_def)
qed


definition same_hops :: "('h, 'z) topo_scheme \<Rightarrow> ('h, 'z) topo_scheme \<Rightarrow> bool" where
  "same_hops s s' \<longleftrightarrow> hoptable s' = hoptable s \<and> hopcount s' = hopcount s \<and>
     nodetable s' = nodetable s \<and> next_addr s' = next_addr s \<and> topo.more s' = topo.more s"

lemma proc_nodecount_spec:
  assumes wf: "paths_wf s" and ne: "newval \<noteq> nodecount s"
  shows "\<exists>ret s'. proc_nodecount True newval s = Some (ret, s') \<and> same_hops s s' \<and> paths_wf s' \<and>
     (ret = 0 \<and> 0 \<le> newval \<and> nodecount s' = newval \<and>
        pathtable s' = Some (replicate (nat newval) (replicate (nat newval) None)) \<and>
        kmem s' = kmem s - paths_owned s + paths_owned s'
      \<or> ret = - ENOMEM \<and> pathtable s' = None \<and> nodecount s' = 0 \<and>
        (kmem s' = kmem s - paths_owned s \<or> kmem s' = kmem s - paths_owned s + 1 \<or>
         kmem s' = kmem s - paths_owned s + 2))"
proof -
  obtain s1 where s1: "free_path s = Some s1" "pathtable s1 = None" "nodecount s1 = 0"
    "kmem s1 = kmem s - paths_owned s" "same_hops s s1"
    using free_path_spec [OF wf] by (auto simp: same_hops_def)
  have wf1: "paths_wf s1" using free_path_wf [OF wf s1(1)] .
  obtain ok s3 where k: "kmalloc newval (s1\<lparr>nodecount := newval\<rparr>) = (ok, s3)" by fastforce
  obtain r where s3: "s3 = s1\<lparr>nodecount := newval, alloc_ok := r,
      kmem := kmem s1 + of_bool (ok \<and> newval \<noteq> 0)\<rparr>" and pos: "ok \<longrightarrow> 0 \<le> newval"
    using kmalloc_cases [OF k] by auto
  have live: "\<forall>a. next_addr s1 \<le> a \<longrightarrow> path_mem s1 a = None" using wf1 by (simp add: paths_wf_def)
  show ?thesis
  proof (cases ok)
    case False
    then have "proc_nodecount True newval s
        = Some (- ENOMEM, s1\<lparr>nodecount := 0, alloc_ok := r\<rparr>)"
      using ne s1 k s3 by (simp add: proc_nodecount_def Let_def free_path_def)
    then show ?thesis using s1 live by (auto simp: same_hops_def paths_wf_def)
  next
    case True
    obtain rows failed s4 where a: "alloc_rows [0..newval - 1] [] s3 = (rows, failed, s4)"
      by (metis prod_cases3)
    obtain m r4 where m: "m \<le> nat newval" "rows = replicate m (replicate (nat newval) None)"
      "s4 = s3\<lparr>alloc_ok := r4, kmem := kmem s3 + int m * of_bool (newval \<noteq> 0)\<rparr>"
      "failed = (if m = nat newval then None else Some ([0..newval - 1] ! m))"
      using alloc_rows_spec [OF a] s3 by auto
    show ?thesis
    proof (cases "m = nat newval")
      case all: True
      then have "proc_nodecount True newval s = Some (0, s4\<lparr>pathtable := Some rows\<rparr>)"
        using ne s1 k a m(4) True by (simp add: proc_nodecount_def Let_def)
      then show ?thesis using s1 live all m(2,3) s3 pos True
        by (auto simp: same_hops_def paths_wf_def paths_owned_def)
    next
      case some: False
      have i: "failed = Some (int m)" using some m(1,4) pos True by simp
      let ?s5 = "s4\<lparr>pathtable := Some rows, nodecount := int m - 1\<rparr>"
      have f: "free_path ?s5 = Some (?s5\<lparr>pathtable := None, nodecount := 0,
          kmem := kmem ?s5 - (if m = 1 then 0 else if m = 0 then 1 else int m)\<rparr>)"
        by (rule free_path_partial) (use m in auto)
      then have "proc_nodecount True newval s = Some (- ENOMEM, ?s5\<lparr>pathtable := None, nodecount := 0,
          kmem := kmem ?s5 - (if m = 1 then 0 else if m = 0 then 1 else int m)\<rparr>)"
        using ne s1 k a i True by (simp add: proc_nodecount_def Let_def)
      then show ?thesis using s1 live m(1,2,3) s3 some True
        by (auto simp: same_hops_def paths_wf_def)
    qed
  qed
qed

section \<open>Writing the hop table\<close>

lemma kfree_hops_spec:
  "\<forall>i \<in> set is. 0 \<le> i \<and> i < int (length hs) \<Longrightarrow>
   kfree_hops hs is s = Some (s\<lparr>kmem := kmem s - sum_list (map (\<lambda>i. hop_blocks (hs ! nat i)) is)\<rparr>)"
  by (induction "is" arbitrary: s) (auto simp: array_ops kfree_n_def hop_blocks_def)

lemma sum_upto_nth: "map (\<lambda>i. f (hs ! nat i)) [0..int (length hs) - 1] = map f hs"
  by (rule nth_equalityI) auto

lemma uninit_paths_spec:
  assumes "topo_wf s"
  shows "\<exists>s'. uninit_paths s = Some s' \<and> pathtable s' = None \<and> nodecount s' = 0 \<and>
     hoptable s' = None \<and> hopcount s' = 0 \<and> kmem s' = kmem s - paths_owned s - hops_owned s \<and>
     next_addr s' = next_addr s \<and> alloc_ok s' = alloc_ok s \<and> nodetable s' = nodetable s \<and>
     topo.more s' = topo.more s \<and> topo_wf s'"
proof -
  have pw: "paths_wf s" and hw: "hops_wf s" using assms by (simp_all add: topo_wf_def)
  obtain s1 where s1: "free_path s = Some s1" "pathtable s1 = None" "nodecount s1 = 0"
    "kmem s1 = kmem s - paths_owned s" "hoptable s1 = hoptable s" "hopcount s1 = hopcount s"
    "next_addr s1 = next_addr s" "alloc_ok s1 = alloc_ok s" "nodetable s1 = nodetable s"
    "topo.more s1 = topo.more s"
    using free_path_spec [OF pw] by auto
  have live: "\<forall>a. next_addr s \<le> a \<longrightarrow> path_mem s1 a = None"
    using free_path_wf [OF pw s1(1)] s1(7) by (simp add: paths_wf_def)
  show ?thesis
  proof (cases "hoptable s")
    case None
    then show ?thesis using s1 live hw
      by (auto simp: uninit_paths_def hops_owned_def topo_wf_def paths_wf_def hops_wf_def)
  next
    case (Some p)
    obtain a hs where p: "p = (a, hs)" by fastforce
    have n: "hopcount s = int (length hs)" using hw Some p by (simp add: hops_wf_def)
    have "kfree_hops hs [0..hopcount s1 - 1] s1
        = Some (s1\<lparr>kmem := kmem s1 - sum_list (map (\<lambda>i. hop_blocks (hs ! nat i)) [0..hopcount s1 - 1])\<rparr>)"
      by (rule kfree_hops_spec) (use s1 n in auto)
    then have k: "kfree_hops hs [0..hopcount s1 - 1] s1
        = Some (s1\<lparr>kmem := kmem s1 - sum_list (map hop_blocks hs)\<rparr>)"
      using s1(6) n by (simp add: sum_upto_nth)
    show ?thesis using Some p s1 live k
      by (auto simp: uninit_paths_def hops_owned_def kfree_n_def topo_wf_def paths_wf_def hops_wf_def)
  qed
qed

lemma uninit_paths_balanced:
  assumes "topo_wf s" "balanced s" "uninit_paths s = Some s'"
  shows "kmem s' = 0"
  using uninit_paths_spec [OF assms(1)] assms(2,3) by (auto simp: balanced_def)


text \<open>The cell a successful write leaves for hop \<open>i\<close>.\<close>

definition fresh_hop :: "int \<Rightarrow> int \<Rightarrow> sysctl_hop \<Rightarrow> lx_hop" where
  "fresh_hop HZ i sh = (hop_params HZ i sh zero_hop)
     \<lparr>exittick := replicate (nat (sh_qsize sh)) 0, slotlen := replicate (nat (sh_qsize sh)) 0\<rparr>"

lemma fresh_hop_blocks: "hop_blocks (fresh_hop HZ i sh) = (if 0 < sh_qsize sh then 2 else 0)"
  by (simp add: fresh_hop_def hop_blocks_def)

lemma zero_hop_blocks [simp]: "hop_blocks zero_hop = 0"
  by (simp add: hop_blocks_def zero_hop_def)

definition table_blocks :: "(('w, 'y) hop_scheme, 'z) topo_scheme \<Rightarrow> int" where
  "table_blocks s = (case hoptable s of None \<Rightarrow> 0 | Some (a, hs) \<Rightarrow> sum_list (map hop_blocks hs))"

lemma sum_list_update_diff:
  "k < length xs \<Longrightarrow> sum_list (map f (xs[k := x])) = sum_list (map f xs) - f (xs ! k) + (f x :: int)"
proof (induction xs arbitrary: k)
  case (Cons y ys)
  then show ?case by (cases k) auto
qed simp

definition same_paths :: "('h, 'z) topo_scheme \<Rightarrow> ('h, 'z) topo_scheme \<Rightarrow> bool" where
  "same_paths s s' \<longleftrightarrow> pathtable s' = pathtable s \<and> nodecount s' = nodecount s \<and>
     path_mem s' = path_mem s \<and> next_addr s' = next_addr s \<and> hopcount s' = hopcount s \<and>
     nodetable s' = nodetable s \<and> topo.more s' = topo.more s"

lemma same_paths_refl [simp]: "same_paths s s"
  by (simp add: same_paths_def)

lemma same_paths_trans: "same_paths s s1 \<Longrightarrow> same_paths s1 s2 \<Longrightarrow> same_paths s s2"
  by (simp add: same_paths_def)

lemma setup_hop_spec:
  assumes t: "hoptable s = Some (a, hs)" "k < length hs" "hs ! k = zero_hop"
  shows "\<exists>ok s' h. setup_hop HZ (int k) sh s = Some (ok, s') \<and> hoptable s' = Some (a, hs[k := h]) \<and>
     kmem s' = kmem s + hop_blocks h \<and> (ok \<longrightarrow> h = fresh_hop HZ (int k) sh \<and> 0 \<le> sh_qsize sh) \<and>
     same_paths s s'"
proof -
  let ?h1 = "hop_params HZ (int k) sh (zero_hop :: lx_hop)"
  have q: "qsize ?h1 = sh_qsize sh" by (simp add: hop_params_def)
  have g: "get_hop (int k) s = Some zero_hop" using t by (simp add: get_hop_def array_ops)
  obtain ok1 s1 where k1: "kmalloc (sh_qsize sh) s = (ok1, s1)" by fastforce
  obtain r1 where s1: "s1 = s\<lparr>alloc_ok := r1, kmem := kmem s + of_bool (ok1 \<and> sh_qsize sh \<noteq> 0)\<rparr>"
    and p1: "ok1 \<longrightarrow> 0 \<le> sh_qsize sh" using kmalloc_cases [OF k1] by blast
  have b1: "hop_blocks ?h1 = 0" by (simp add: hop_params_def hop_blocks_def zero_hop_def)
  show ?thesis
  proof (cases ok1)
    case False
    have "setup_hop HZ (int k) sh s = Some (False, s1\<lparr>hoptable := Some (a, hs[k := ?h1])\<rparr>)"
      using g k1 s1 t q False by (simp add: setup_hop_def put_hop_def array_ops Let_def)
    then show ?thesis using s1 b1 False by (auto simp: same_paths_def)
  next
    case True
    let ?h2 = "?h1\<lparr>exittick := replicate (nat (sh_qsize sh)) 0, slotdepth := 0, bytedepth := 0,
                  headslot := 0, fragment := 0\<rparr>"
    let ?h3 = "?h2\<lparr>slotlen := replicate (nat (sh_qsize sh)) 0\<rparr>"
    have h3: "?h3 = fresh_hop HZ (int k) sh"
      by (simp add: fresh_hop_def hop_params_def zero_hop_def)
    have b2: "hop_blocks ?h2 = of_bool (sh_qsize sh > 0)"
      by (simp add: hop_params_def hop_blocks_def zero_hop_def)
    obtain ok2 s2 where k2: "kmalloc (sh_qsize sh) s1 = (ok2, s2)" by fastforce
    obtain r2 where s2: "s2 = s1\<lparr>alloc_ok := r2, kmem := kmem s1 + of_bool (ok2 \<and> sh_qsize sh \<noteq> 0)\<rparr>"
      using kmalloc_cases [OF k2] by blast
    show ?thesis
    proof (cases ok2)
      case False
      have "setup_hop HZ (int k) sh s = Some (False, s2\<lparr>hoptable := Some (a, hs[k := ?h2])\<rparr>)"
        using g k1 k2 s1 s2 t q True False by (simp add: setup_hop_def put_hop_def array_ops Let_def)
      then show ?thesis using s1 s2 b2 p1 True False
        by (intro exI [of _ False] exI [of _ "s2\<lparr>hoptable := Some (a, hs[k := ?h2])\<rparr>"] exI [of _ ?h2])
           (auto simp: same_paths_def)
    next
      case ok2: True
      have "setup_hop HZ (int k) sh s = Some (True, s2\<lparr>hoptable := Some (a, hs[k := ?h3])\<rparr>)"
        using g k1 k2 s1 s2 t q True ok2 by (simp add: setup_hop_def put_hop_def array_ops Let_def)
      then show ?thesis using s1 s2 p1 True ok2 fresh_hop_blocks [of HZ "int k" sh]
        by (intro exI [of _ True] exI [of _ "s2\<lparr>hoptable := Some (a, hs[k := ?h3])\<rparr>"] exI [of _ ?h3])
           (auto simp: same_paths_def h3)
    qed
  qed
qed

lemma setup_hops_spec:
  assumes "hoptable s = Some (a, hs)" "k \<le> length hs" "length hops = length hs"
    and "\<forall>j. k \<le> j \<and> j < length hs \<longrightarrow> hs ! j = zero_hop"
  shows "\<exists>ok s' hs'. setup_hops HZ hops [int k..int (length hs) - 1] s = Some (ok, s') \<and>
     hoptable s' = Some (a, hs') \<and> length hs' = length hs \<and>
     kmem s' - table_blocks s' = kmem s - table_blocks s \<and> (\<forall>j < k. hs' ! j = hs ! j) \<and>
     (ok \<longrightarrow> (\<forall>j. k \<le> j \<and> j < length hs \<longrightarrow>
         hs' ! j = fresh_hop HZ (int j) (hops ! j) \<and> 0 \<le> sh_qsize (hops ! j))) \<and>
     same_paths s s'"
  using assms
proof (induction "length hs - k" arbitrary: k s hs)
  case 0
  then have "k = length hs" by simp
  then show ?case using "0.prems"(1)
    by (intro exI [of _ True] exI [of _ s] exI [of _ hs]) auto
next
  case (Suc n)
  then have k: "k < length hs" by simp
  have z: "hs ! k = zero_hop" using Suc.prems(4) k by simp
  have u: "[int k..int (length hs) - 1] = int k # [int (Suc k)..int (length hs) - 1]"
    using k by (simp add: upto_rec1 add.commute)
  have sh: "aget hops (int k) = Some (hops ! k)" using k Suc.prems(3) by (simp add: array_ops)
  from setup_hop_spec [OF Suc.prems(1) k z, of HZ "hops ! k"]
  obtain ok s1 h where s1: "setup_hop HZ (int k) (hops ! k) s = Some (ok, s1)"
    "hoptable s1 = Some (a, hs[k := h])" "kmem s1 = kmem s + hop_blocks h"
    "ok \<longrightarrow> h = fresh_hop HZ (int k) (hops ! k) \<and> 0 \<le> sh_qsize (hops ! k)" "same_paths s s1"
    by blast
  have tb: "table_blocks s1 = table_blocks s + hop_blocks h"
    using s1(2) Suc.prems(1) z k by (simp add: table_blocks_def sum_list_update_diff)
  show ?case
  proof (cases ok)
    case False
    then have "setup_hops HZ hops [int k..int (length hs) - 1] s = Some (False, s1)"
      unfolding u by (simp add: sh s1(1))
    then show ?thesis using s1 tb by auto
  next
    case True
    have "\<exists>ok s' hs'. setup_hops HZ hops [int (Suc k)..int (length (hs[k := h])) - 1] s1 = Some (ok, s') \<and>
     hoptable s' = Some (a, hs') \<and> length hs' = length (hs[k := h]) \<and>
     kmem s' - table_blocks s' = kmem s1 - table_blocks s1 \<and> (\<forall>j < Suc k. hs' ! j = hs[k := h] ! j) \<and>
     (ok \<longrightarrow> (\<forall>j. Suc k \<le> j \<and> j < length (hs[k := h]) \<longrightarrow>
         hs' ! j = fresh_hop HZ (int j) (hops ! j) \<and> 0 \<le> sh_qsize (hops ! j))) \<and>
     same_paths s1 s'"
      by (rule Suc.hyps(1)) (use Suc.hyps(2) Suc.prems s1(2) k in auto)
    then obtain ok2 s2 hs2 where s2:
      "setup_hops HZ hops [int (Suc k)..int (length hs) - 1] s1 = Some (ok2, s2)"
      "hoptable s2 = Some (a, hs2)" "length hs2 = length hs"
      "kmem s2 - table_blocks s2 = kmem s1 - table_blocks s1" "\<forall>j < Suc k. hs2 ! j = hs[k := h] ! j"
      "ok2 \<longrightarrow> (\<forall>j. Suc k \<le> j \<and> j < length hs \<longrightarrow>
         hs2 ! j = fresh_hop HZ (int j) (hops ! j) \<and> 0 \<le> sh_qsize (hops ! j))"
      "same_paths s1 s2" unfolding length_list_update by blast
    have step: "setup_hops HZ hops [int k..int (length hs) - 1] s = Some (ok2, s2)"
      unfolding u using s1(1) s2(1) True by (simp add: sh)
    have low: "\<forall>j < k. hs2 ! j = hs ! j" using s2(5) by auto
    have at: "hs2 ! k = h" using s2(5) k by simp
    have high: "ok2 \<longrightarrow> (\<forall>j. k \<le> j \<and> j < length hs \<longrightarrow>
         hs2 ! j = fresh_hop HZ (int j) (hops ! j) \<and> 0 \<le> sh_qsize (hops ! j))"
    proof (intro impI allI)
      fix j assume "ok2" and j: "k \<le> j \<and> j < length hs"
      then show "hs2 ! j = fresh_hop HZ (int j) (hops ! j) \<and> 0 \<le> sh_qsize (hops ! j)"
        using s2(6) at s1(4) True by (cases "j = k") auto
    qed
    have "same_paths s s2" using s1(5) s2(7) by (rule same_paths_trans)
    moreover have "kmem s2 - table_blocks s2 = kmem s - table_blocks s" using s2(4) tb s1(3) by simp
    ultimately show ?thesis using step s2(2,3) low high by blast
  qed
qed


text \<open>What a write of the hop table answers, and the table it leaves.\<close>

definition hop_row_ok :: "int \<Rightarrow> sysctl_hop list \<Rightarrow> nat \<Rightarrow> (lx_hop, 'z) topo_scheme \<Rightarrow> bool" where
  "hop_row_ok HZ hops j s \<longleftrightarrow> get_hop (int j) s = Some (fresh_hop HZ (int j) (hops ! j))"

lemma proc_hophandle_spec:
  assumes wf: "topo_wf s" and len: "length hops = nat n"
  shows "\<exists>ret s'. proc_hophandle HZ True (Some n) (Some hops) 12 0 s = Some (ret, 12, 12, s') \<and> topo_wf s' \<and>
     (ret = 0 \<and> hopcount s' = n \<and> 0 < n \<and> (\<forall>j < nat n. hop_row_ok HZ hops j s') \<and>
        kmem s' = kmem s - paths_owned s - hops_owned s + hops_owned s' \<and>
        pathtable s' = None \<and> nodecount s' = 0
      \<or> ret = - ENOMEM)"
proof -
  obtain ok1 s1 where v1: "vmalloc n s = (ok1, s1)" by fastforce
  obtain r1 where s1: "s1 = s\<lparr>alloc_ok := r1, kmem := kmem s + of_bool ok1\<rparr>" "ok1 \<longrightarrow> 0 < n"
    using vmalloc_cases [OF v1] by blast
  have wf1: "topo_wf s1" using wf s1 by simp
  have own: "paths_owned s1 = paths_owned s" "hops_owned s1 = hops_owned s"
    using s1 by simp_all
  show ?thesis
  proof (cases ok1)
    case False
    then show ?thesis using v1 wf1 by (simp add: proc_hophandle_def)
  next
    case True
    obtain s2 where s2: "uninit_paths s1 = Some s2" "pathtable s2 = None" "nodecount s2 = 0"
      "hoptable s2 = None" "hopcount s2 = 0" "kmem s2 = kmem s1 - paths_owned s - hops_owned s"
      "topo_wf s2" using uninit_paths_spec [OF wf1] own by auto
    obtain ok3 s3 where v3: "vmalloc n s2 = (ok3, s3)" by fastforce
    obtain r3 where s3: "s3 = s2\<lparr>alloc_ok := r3, kmem := kmem s2 + of_bool ok3\<rparr>"
      using vmalloc_cases [OF v3] by blast
    have wf3: "topo_wf s3" using s2 s3 by simp
    show ?thesis
    proof (cases ok3)
      case False
      then show ?thesis using v1 v3 s2 True wf3 by (simp add: proc_hophandle_def)
    next
      case ok3: True
      let ?hs = "replicate (nat n) (zero_hop :: lx_hop)"
      let ?s4 = "s3\<lparr>hoptable := Some (next_addr s3, ?hs),
                   next_addr := next_addr s3 + 1, hopcount := n\<rparr>"
      from setup_hops_spec [of ?s4 "next_addr s3" ?hs 0 hops HZ] len s1(2) True
      obtain ok5 s5 hs5 where s5: "setup_hops HZ hops [0..n - 1] ?s4 = Some (ok5, s5)"
        "hoptable s5 = Some (next_addr s3, hs5)" "length hs5 = nat n"
        "kmem s5 - table_blocks s5 = kmem ?s4 - table_blocks ?s4"
        "ok5 \<longrightarrow> (\<forall>j < nat n. hs5 ! j = fresh_hop HZ (int j) (hops ! j))" "same_paths ?s4 s5"
        by auto
      have t4: "table_blocks ?s4 = 0" by (simp add: table_blocks_def sum_list_replicate)
      have wf5: "topo_wf s5" using s5(2,3,6) wf3 s1(2) True s2(2) s3
        by (auto simp: topo_wf_def paths_wf_def hops_wf_def same_paths_def)
      have rows: "ok5 \<longrightarrow> (\<forall>j < nat n. hop_row_ok HZ hops j s5)"
        using s5(2,3,5) by (auto simp: hop_row_ok_def get_hop_def array_ops)
      have own5: "hops_owned s5 = 1 + table_blocks s5" using s5(2) by (simp add: hops_owned_def table_blocks_def)
      have run: "proc_hophandle HZ True (Some n) (Some hops) 12 0 s
          = Some (if ok5 then (0, 12, 12, kfree_n 1 s5) else (- ENOMEM, 12, 12, s5))"
        using v1 v3 s2(1) s5(1) True ok3 by (simp add: proc_hophandle_def Let_def)
      show ?thesis
      proof (cases ok5)
        case False
        then show ?thesis using run wf5 by simp
      next
        case ok5: True
        have "kmem (kfree_n 1 s5) = kmem s - paths_owned s - hops_owned s + hops_owned s5"
          using own5 s5(4) t4 s1 s2(6) s3 True ok3 by (simp add: kfree_n_def)
        moreover have "topo_wf (kfree_n 1 s5)" "hops_owned (kfree_n 1 s5) = hops_owned s5"
          "\<forall>j < nat n. hop_row_ok HZ hops j (kfree_n 1 s5)"
          using wf5 rows ok5
          by (simp_all add: kfree_n_def hop_row_ok_def get_hop_def)
        ultimately show ?thesis using run ok5 s5(6) s1(2) True s2 s3
          by (auto simp: same_paths_def kfree_n_def)
      qed
    qed
  qed
qed


section \<open>Writing a path and a node\<close>

lemma set_entry_spec:
  assumes wf: "paths_wf s" and p: "pathtable s = Some rows"
    and i: "0 \<le> i" "i < nodecount s" and j: "0 \<le> j" "j < nodecount s"
  shows "set_entry i j v s = Some (s\<lparr>pathtable := Some (rows[nat i := (rows ! nat i)[nat j := v]])\<rparr>)"
proof -
  have "int (length rows) = nodecount s" "\<forall>row \<in> set rows. int (length row) = nodecount s"
    using wf p by (simp_all add: paths_wf_def)
  moreover from this i have "int (length (rows ! nat i)) = nodecount s" by auto
  ultimately show ?thesis using p i j by (simp add: set_entry_def array_ops)
qed

lemma cells_of_update:
  assumes "i < length rows" "j < length (rows ! i)"
  shows "set (cells_of (rows[i := (rows ! i)[j := v]])) \<subseteq> set (cells_of rows) \<union> set_option v"
proof
  fix a assume "a \<in> set (cells_of (rows[i := (rows ! i)[j := v]]))"
  then obtain row where row: "row \<in> set (rows[i := (rows ! i)[j := v]])" "Some a \<in> set row"
    by (auto simp: cells_of_def split: option.splits)
  then have "row \<in> set rows \<or> row = (rows ! i)[j := v]" by (meson set_update_subset_insert insertE subsetD)
  then show "a \<in> set (cells_of rows) \<union> set_option v"
  proof
    assume "row \<in> set rows"
    then show ?thesis using row(2) by (force simp: cells_of_def)
  next
    assume "row = (rows ! i)[j := v]"
    then have "Some a \<in> insert v (set (rows ! i))"
      using row(2) by (meson set_update_subset_insert subsetD)
    then show ?thesis using nth_mem [OF assms(1)] by (force simp: cells_of_def)
  qed
qed

text \<open>A cell written with a new address leaves the addresses distinct.\<close>

lemma mset_cells_update:
  assumes "i < length rows" "j < length (rows ! i)"
  shows "mset (cells_of (rows[i := (rows ! i)[j := v]])) + mset (case rows ! i ! j of None \<Rightarrow> [] | Some a \<Rightarrow> [a])
     = mset (cells_of rows) + mset (case v of None \<Rightarrow> [] | Some a \<Rightarrow> [a])"
proof -
  define f :: "nat option \<Rightarrow> nat multiset" where "f = (\<lambda>c. mset (case c of None \<Rightarrow> [] | Some a \<Rightarrow> [a]))"
  have row: "mset [a. Some a \<leftarrow> row] = sum_list (map f row)" for row
    by (induction row) (auto simp: f_def split: option.splits)
  have all: "mset (cells_of rs) = sum_list (map (\<lambda>row. sum_list (map f row)) rs)" for rs
    by (induction rs) (auto simp: cells_of_def row)
  have upd: "sum_list (map g (xs[k := x])) + g (xs ! k) = sum_list (map g xs) + g x"
    if "k < length xs" for g :: "'b \<Rightarrow> nat multiset" and xs k x
    using that by (induction xs arbitrary: k) (auto simp: nth_Cons ac_simps split: nat.splits)
  let ?r' = "(rows ! i)[j := v]"
  have 1: "sum_list (map f ?r') + f (rows ! i ! j) = sum_list (map f (rows ! i)) + f v"
    by (rule upd [OF assms(2)])
  have 2: "mset (cells_of (rows[i := ?r'])) + sum_list (map f (rows ! i))
      = mset (cells_of rows) + sum_list (map f ?r')"
    unfolding all by (rule upd [OF assms(1)])
  have "mset (cells_of (rows[i := ?r'])) + f (rows ! i ! j) + sum_list (map f (rows ! i))
      = mset (cells_of rows) + f v + sum_list (map f (rows ! i))"
    using 1 2 by (metis (no_types, lifting) add.assoc add.commute)
  then show ?thesis by (simp add: f_def)
qed


definition entry_at :: "int \<Rightarrow> int \<Rightarrow> ('h, 'z) topo_scheme \<Rightarrow> nat option option" where
  "entry_at i j s = do { rows \<leftarrow> pathtable s; row \<leftarrow> aget rows i; aget row j }"

lemma lookup_path_entry:
  "pathtable s \<noteq> None \<Longrightarrow> node_of s src \<noteq> - 1 \<Longrightarrow> node_of s dst \<noteq> - 1 \<Longrightarrow>
   lookup_path s src dst = entry_at (node_of s src) (node_of s dst) s"
  by (auto simp: lookup_path_def entry_at_def)

lemma table_dims:
  assumes "paths_wf s" "pathtable s = Some rows" "0 \<le> i" "i < nodecount s" "0 \<le> j" "j < nodecount s"
  shows "nat i < length rows" "nat j < length (rows ! nat i)" "int (length (rows ! nat i)) = nodecount s"
proof -
  have "int (length rows) = nodecount s" "\<forall>row \<in> set rows. int (length row) = nodecount s"
    using assms(1,2) by (simp_all add: paths_wf_def)
  moreover from this(1) show "nat i < length rows" using assms(3,4) by linarith
  ultimately show "int (length (rows ! nat i)) = nodecount s" by simp
  then show "nat j < length (rows ! nat i)" using assms(5,6) by linarith
qed

text \<open>An entry set to NULL, or to the address of a path that was not in the table.\<close>

lemma paths_wf_set:
  assumes wf: "paths_wf s" and p: "pathtable s = Some rows"
    and ij: "0 \<le> i" "i < nodecount s" "0 \<le> j" "j < nodecount s"
    and v: "\<forall>a. v = Some a \<longrightarrow> a \<notin> set (cells_of rows) \<and> m a \<noteq> None"
    and m: "\<forall>a \<in> set (cells_of rows). m a \<noteq> None" "\<forall>a \<ge> k. m a = None"
  shows "paths_wf (s\<lparr>pathtable := Some (rows[nat i := (rows ! nat i)[nat j := v]]), path_mem := m, next_addr := k\<rparr>)"
proof -
  let ?rows = "rows[nat i := (rows ! nat i)[nat j := v]]"
  note d = table_dims [OF wf p ij]
  have sub: "set (cells_of ?rows) \<subseteq> set (cells_of rows) \<union> set_option v"
    by (rule cells_of_update [OF d(1,2)])
  have "distinct (cells_of rows)" using wf p by (simp add: paths_wf_def)
  then have "distinct (cells_of rows @ (case v of None \<Rightarrow> [] | Some a \<Rightarrow> [a]))"
    using v by (auto split: option.splits)
  moreover have "mset (cells_of ?rows @ (case rows ! nat i ! nat j of None \<Rightarrow> [] | Some a \<Rightarrow> [a]))
      = mset (cells_of rows @ (case v of None \<Rightarrow> [] | Some a \<Rightarrow> [a]))"
    using mset_cells_update [OF d(1,2), of v] by simp
  ultimately have dist: "distinct (cells_of ?rows)"
    using mset_eq_imp_distinct_iff distinct_append by blast
  have "\<forall>row \<in> set rows. int (length row) = nodecount s" using wf p by (simp add: paths_wf_def)
  then have rl: "\<forall>row \<in> set ?rows. int (length row) = nodecount s"
    using d(3) by (auto dest!: set_update_subset_insert [THEN subsetD])
  have "\<forall>a \<in> set (cells_of ?rows). m a \<noteq> None" using sub v m(1) by fastforce
  then show ?thesis using wf p dist rl m(2) by (simp add: paths_wf_def)
qed


lemma paths_owned_set:
  assumes wf: "paths_wf s" and p: "pathtable s = Some rows"
    and ij: "0 \<le> i" "i < nodecount s" "0 \<le> j" "j < nodecount s"
  shows "paths_owned (s\<lparr>pathtable := Some (rows[nat i := (rows ! nat i)[nat j := v]])\<rparr>)
     = paths_owned s + of_bool (v \<noteq> None) - of_bool (rows ! nat i ! nat j \<noteq> None)"
proof -
  note d = table_dims [OF wf p ij]
  have "length (cells_of (rows[nat i := (rows ! nat i)[nat j := v]])) + of_bool (rows ! nat i ! nat j \<noteq> None)
      = length (cells_of rows) + of_bool (v \<noteq> None)"
    using arg_cong [OF mset_cells_update [OF d(1,2), of v], of size] by (auto split: option.splits)
  then show ?thesis using p ij by (auto simp: paths_owned_def)
qed

lemma proc_pathentry_spec:
  assumes wf: "topo_wf s" and p: "pathtable s = Some rows" and t: "hoptable s = Some (tab, hs)"
    and i: "0 \<le> pe_src_node e" "pe_src_node e < nodecount s"
    and j: "0 \<le> pe_dst_node e" "pe_dst_node e < nodecount s" and len: "20 \<le> lenp"
  shows "\<exists>ret s'. proc_pathentry True (Some e) (Some hops) lenp ppos s = Some (ret, lenp, ppos + lenp, s') \<and>
     topo_wf s' \<and> nodecount s' = nodecount s \<and> hoptable s' = hoptable s \<and> nodetable s' = nodetable s \<and>
     (ret = - ENOMEM \<or>
      ret = 0 \<and> entry_at (pe_src_node e) (pe_dst_node e) s' = Some (Some (next_addr s)) \<and>
      path_mem s' = (path_mem s)(next_addr s \<mapsto> path_block tab hops) \<and>
      kmem s' = kmem s + 1 \<and>
      paths_owned s' = paths_owned s + 1
        - of_bool (rows ! nat (pe_src_node e) ! nat (pe_dst_node e) \<noteq> None))"
proof -
  let ?i = "pe_src_node e" and ?j = "pe_dst_node e" and ?n = "next_addr s"
  let ?upd = "\<lambda>v. rows[nat ?i := (rows ! nat ?i)[nat ?j := v]]"
  have pw: "paths_wf s" and hw: "hops_wf s" using wf by (simp_all add: topo_wf_def)
  note d = table_dims [OF pw p i j]
  have le: "\<not> nodecount s < ?i" "\<not> nodecount s < ?j" using i j by simp_all
  obtain ok1 s1 where k1: "kmalloc (pe_pathlen e) s = (ok1, s1)" by fastforce
  obtain r1 where s1: "s1 = s\<lparr>alloc_ok := r1, kmem := kmem s + of_bool (ok1 \<and> pe_pathlen e \<noteq> 0)\<rparr>"
    using kmalloc_cases [OF k1] by blast
  show ?thesis
  proof (cases ok1)
    case False
    then show ?thesis using p t le k1 s1 wf len by (simp add: proc_pathentry_def)
  next
    case True
    obtain ok2 s2 where k2: "kmalloc (pe_pathlen e + 1) s1 = (ok2, s2)" by fastforce
    obtain r2 where s2: "s2 = s1\<lparr>alloc_ok := r2, kmem := kmem s1 + of_bool (ok2 \<and> pe_pathlen e + 1 \<noteq> 0)\<rparr>"
      using kmalloc_cases [OF k2] by blast
    have pos: "0 \<le> pe_pathlen e" using kmalloc_cases [OF k1] True by blast
    have pw2: "paths_wf s2" and p2: "pathtable s2 = Some rows" and n2: "nodecount s2 = nodecount s"
      using pw p s1 s2 by simp_all
    have se: "set_entry ?i ?j v s2 = Some (s2\<lparr>pathtable := Some (?upd v)\<rparr>)" for v
      by (rule set_entry_spec [OF pw2 p2]) (use i j n2 in auto)
    have cells: "\<forall>a \<in> set (cells_of rows). path_mem s a \<noteq> None" "\<forall>a \<ge> ?n. path_mem s a = None"
      using pw p by (simp_all add: paths_wf_def)
    then have new: "?n \<notin> set (cells_of rows)" by auto
    show ?thesis
    proof (cases ok2)
      case False
      let ?s' = "s2\<lparr>pathtable := Some (?upd None)\<rparr>"
      have "paths_wf (s\<lparr>pathtable := Some (?upd None), path_mem := path_mem s, next_addr := ?n\<rparr>)"
        by (rule paths_wf_set [OF pw p i j]) (use cells in auto)
      then have "topo_wf ?s'" using hw s1 s2 by (auto simp: topo_wf_def hops_wf_def paths_wf_def split: option.splits)
      then show ?thesis using p t le k1 k2 s1 s2 True False se [of None] len n2
        by (simp add: proc_pathentry_def)
    next
      case ok2: True
      let ?s' = "kfree_n (pe_pathlen e) (s2\<lparr>pathtable := Some (?upd (Some ?n)),
          path_mem := (path_mem s)(?n \<mapsto> path_block tab hops), next_addr := ?n + 1\<rparr>)"
      have run: "proc_pathentry True (Some e) (Some hops) lenp ppos s = Some (0, lenp, ppos + lenp, ?s')"
        using p t le k1 k2 s1 s2 True ok2 se [of "Some ?n"] len n2 by (simp add: proc_pathentry_def)
      have "paths_wf (s\<lparr>pathtable := Some (?upd (Some ?n)),
          path_mem := (path_mem s)(?n \<mapsto> path_block tab hops), next_addr := ?n + 1\<rparr>)"
        by (rule paths_wf_set [OF pw p i j]) (use cells new in auto)
      then have "topo_wf ?s'" using hw s1 s2
        by (auto simp: topo_wf_def hops_wf_def paths_wf_def kfree_n_def split: option.splits)
      moreover have "entry_at ?i ?j ?s' = Some (Some ?n)"
        using d i j by (simp add: entry_at_def kfree_n_def array_ops)
      moreover have "kmem ?s' = kmem s + 1" using s1 s2 True ok2 pos by (simp add: kfree_n_def)
      moreover have "paths_owned ?s' = paths_owned (s\<lparr>pathtable := Some (?upd (Some ?n))\<rparr>)"
        using s1 s2 by (simp add: paths_owned_def kfree_n_def)
      ultimately show ?thesis
        using run paths_owned_set [OF pw p i j, of "Some ?n"] n2 s1 s2 by (simp add: kfree_n_def)
    qed
  qed
qed

end
