(* ===== verification/Mersenne.thy ===== *)
theory Mersenne
  imports Prelude
begin

text \<open>
  The module's pseudo-random generator (emulator/linux/module/ip_modelnet.c, \<open>random_seed\<close>
  and \<open>random_bits\<close>), which decides packet loss and the rounding of the bandwidth delay. The
  static array \<open>mt\<close> and index \<open>mti\<close> are one record; \<open>random_bits\<close> regenerates the
  array in place, in the code's three loops, when it is used up. The reference is the recurrence
  \<open>mt_seq\<close> of the Mersenne twister, which does not mention the array; the lemmas show that
  the in-place code reads no cell outside the array and delivers the tempered recurrence.
\<close>

section \<open>The generator of the code\<close>

definition MERS_N :: nat where "MERS_N = 624"
definition MERS_M :: nat where "MERS_M = 397"
definition MERS_A :: u32 where "MERS_A = 0x9908B0DF"
definition MERS_B :: u32 where "MERS_B = 0x9D2C5680"
definition MERS_C :: u32 where "MERS_C = 0xEFC60000"
definition UPPER_MASK :: u32 where "UPPER_MASK = push_bit 31 (- 1)"
definition LOWER_MASK :: u32 where "LOWER_MASK = push_bit 31 1 - 1"

lemmas mers_consts = MERS_N_def MERS_M_def

record rng =
  mti :: nat
  mt :: "u32 list"

definition seed_next :: "u32 \<Rightarrow> nat \<Rightarrow> u32" where
  "seed_next x i = 1812433253 * (x XOR drop_bit 30 x) + of_nat i"

text \<open>\<open>for (mti = 1; mti < MERS_N; mti++) mt[mti] = ...\<close>, with what is left of the range as
  the list \<open>is\<close>.\<close>

fun seed_loop :: "nat list \<Rightarrow> u32 list \<Rightarrow> u32 list option" where
  "seed_loop [] a = Some a"
| "seed_loop (i # is) a = do {
     x \<leftarrow> aget a (int i - 1);
     a' \<leftarrow> aset a (int i) (seed_next x i);
     seed_loop is a' }"

definition random_seed :: "u32 \<Rightarrow> rng \<Rightarrow> rng option" where
  "random_seed seed g = do {
     a \<leftarrow> aset (mt g) 0 seed;
     a' \<leftarrow> seed_loop [1..<MERS_N] a;
     Some (g\<lparr>mt := a', mti := MERS_N\<rparr>) }"

definition mag01 :: "u32 \<Rightarrow> u32" where
  "mag01 y = (if y AND 1 = 0 then 0 else MERS_A)"

text \<open>One assignment of the regeneration: \<open>y\<close> from cells \<open>k\<close> and \<open>k1\<close>, the new
  cell \<open>k\<close> from cell \<open>m\<close>.\<close>

definition regen_cell :: "nat \<Rightarrow> nat \<Rightarrow> int \<Rightarrow> u32 list \<Rightarrow> u32 list option" where
  "regen_cell k k1 m a = do {
     hi \<leftarrow> aget a (int k);
     lo \<leftarrow> aget a (int k1);
     z \<leftarrow> aget a m;
     let y = (hi AND UPPER_MASK) OR (lo AND LOWER_MASK);
     aset a (int k) (z XOR drop_bit 1 y XOR mag01 y) }"

fun regen_loop :: "int \<Rightarrow> nat list \<Rightarrow> u32 list \<Rightarrow> u32 list option" where
  "regen_loop d [] a = Some a"
| "regen_loop d (k # ks) a = do {
     a' \<leftarrow> regen_cell k (k + 1) (int k + d) a;
     regen_loop d ks a' }"

definition regenerate :: "u32 list \<Rightarrow> u32 list option" where
  "regenerate a = do {
     a1 \<leftarrow> regen_loop (int MERS_M) [0..<MERS_N - MERS_M] a;
     a2 \<leftarrow> regen_loop (int MERS_M - int MERS_N) [MERS_N - MERS_M..<MERS_N - 1] a1;
     regen_cell (MERS_N - 1) 0 (int MERS_M - 1) a2 }"

definition temper :: "u32 \<Rightarrow> u32" where
  "temper y0 =
     (let y1 = y0 XOR drop_bit 11 y0;
          y2 = y1 XOR (push_bit 7 y1 AND MERS_B);
          y3 = y2 XOR (push_bit 15 y2 AND MERS_C)
      in y3 XOR drop_bit 18 y3)"

definition random_bits :: "rng \<Rightarrow> (u32 \<times> rng) option" where
  "random_bits g = do {
     g' \<leftarrow> (if MERS_N \<le> mti g then do { a \<leftarrow> regenerate (mt g); Some \<lparr>mti = 0, mt = a\<rparr> } else Some g);
     y \<leftarrow> aget (mt g') (int (mti g'));
     Some (temper y, g'\<lparr>mti := mti g' + 1\<rparr>) }"

text \<open>\<open>n\<close> calls in a row.\<close>

fun random_stream :: "nat \<Rightarrow> rng \<Rightarrow> (u32 list \<times> rng) option" where
  "random_stream 0 g = Some ([], g)"
| "random_stream (Suc n) g = do {
     (y, g') \<leftarrow> random_bits g;
     (ys, g'') \<leftarrow> random_stream n g';
     Some (y # ys, g'') }"

section \<open>The reference recurrence\<close>

definition twist :: "u32 \<Rightarrow> u32 \<Rightarrow> u32" where
  "twist hi lo = (let y = (hi AND UPPER_MASK) OR (lo AND LOWER_MASK) in drop_bit 1 y XOR mag01 y)"

fun mt_seq :: "u32 \<Rightarrow> nat \<Rightarrow> u32" where
  "mt_seq s n =
     (if n = 0 then s
      else if n < 624 then seed_next (mt_seq s (n - 1)) n
      else mt_seq s (n - 227) XOR twist (mt_seq s (n - 624)) (mt_seq s (n - 623)))"

declare mt_seq.simps [simp del]

lemma mt_seq_0: "mt_seq s 0 = s"
  by (simp add: mt_seq.simps)

lemma mt_seq_seed: "0 < n \<Longrightarrow> n < 624 \<Longrightarrow> mt_seq s n = seed_next (mt_seq s (n - 1)) n"
  by (simp add: mt_seq.simps [of s n])

lemma mt_seq_twist:
  "mt_seq s (n + 624) = mt_seq s (n + 397) XOR twist (mt_seq s n) (mt_seq s (n + 1))"
  by (simp add: mt_seq.simps [of s "n + 624"] add.commute)

section \<open>The code follows the recurrence\<close>

text \<open>The array during regeneration of block \<open>n\<close>: the first \<open>k\<close> cells hold the next
  block already.\<close>

definition mid_block :: "u32 \<Rightarrow> nat \<Rightarrow> nat \<Rightarrow> u32 list \<Rightarrow> bool" where
  "mid_block s n k a \<longleftrightarrow> length a = 624 \<and>
     (\<forall>i < 624. a ! i = mt_seq s (if i < k then n + 624 + i else n + i))"

lemma mid_blockD: "mid_block s n k a \<Longrightarrow> i < 624 \<Longrightarrow> a ! i = mt_seq s (if i < k then n + 624 + i else n + i)"
  by (simp add: mid_block_def)

lemma mid_block_length: "mid_block s n k a \<Longrightarrow> length a = 624"
  by (simp add: mid_block_def)

lemma mid_block_shift: "mid_block s n 624 a \<Longrightarrow> mid_block s (n + 624) 0 a"
  by (simp add: mid_block_def)

lemma regen_cell_mid:
  assumes inv: "mid_block s n k a" and k: "k < 624"
    and k1: "k1 = (if k = 623 then 0 else k + 1)"
    and m: "m = int (if k < 227 then k + 397 else k - 227)"
  shows "\<exists>a'. regen_cell k k1 m a = Some a' \<and> mid_block s n (Suc k) a'"
proof -
  let ?m = "if k < 227 then k + 397 else k - 227"
  have len: "length a = 624" using inv by (rule mid_block_length)
  have hi: "a ! k = mt_seq s (n + k)" using mid_blockD [OF inv k] by simp
  have lo: "a ! k1 = mt_seq s (n + k + 1)"
    using mid_blockD [OF inv, of k1] k by (auto simp: k1 add.commute split: if_splits)
  have z: "a ! ?m = mt_seq s (n + k + 397)"
    using mid_blockD [OF inv, of ?m] k by (auto simp: algebra_simps split: if_splits)
  define v where "v = mt_seq s (n + k + 624)"
  have v: "v = a ! ?m XOR twist (a ! k) (a ! k1)"
    unfolding v_def hi lo z using mt_seq_twist [of s "n + k"] by simp
  have "aget a m = Some (a ! ?m)"
    unfolding m by (rule aget_nat) (use k len in auto)
  then have "regen_cell k k1 m a = Some (a[k := v])"
    using k len unfolding regen_cell_def v twist_def Let_def
    by (simp add: array_ops k1 xor.assoc)
  moreover have "mid_block s n (Suc k) (a[k := v])"
    unfolding mid_block_def
  proof (intro conjI allI impI)
    fix i assume "i < (624::nat)"
    then show "a[k := v] ! i = mt_seq s (if i < Suc k then n + 624 + i else n + i)"
      using mid_blockD [OF inv, of i] k len
      by (cases "i = k") (auto simp: v_def ac_simps less_Suc_eq)
  qed (simp add: len)
  ultimately show ?thesis by blast
qed

lemma regen_loop_low:
  "mid_block s n k a \<Longrightarrow> k \<le> 227 \<Longrightarrow>
   \<exists>a'. regen_loop 397 [k..<227] a = Some a' \<and> mid_block s n 227 a'"
proof (induction "227 - k" arbitrary: k a)
  case 0
  then show ?case by simp
next
  case (Suc d)
  then have k: "k < 227" by simp
  obtain a1 where "regen_cell k (k + 1) (int k + 397) a = Some a1" "mid_block s n (Suc k) a1"
    using regen_cell_mid [OF Suc.prems(1), of "k + 1" "int k + 397"] k by auto
  with Suc.hyps k show ?case by (simp add: upt_conv_Cons del: upt.simps)
qed

lemma regen_loop_high:
  "mid_block s n k a \<Longrightarrow> 227 \<le> k \<Longrightarrow> k \<le> 623 \<Longrightarrow>
   \<exists>a'. regen_loop (- 227) [k..<623] a = Some a' \<and> mid_block s n 623 a'"
proof (induction "623 - k" arbitrary: k a)
  case 0
  then show ?case by simp
next
  case (Suc d)
  then have k: "227 \<le> k" "k < 623" by simp_all
  obtain a1 where "regen_cell k (k + 1) (int k + - 227) a = Some a1" "mid_block s n (Suc k) a1"
    using regen_cell_mid [OF Suc.prems(1), of "k + 1" "int k + - 227"] k by (auto simp: of_nat_diff)
  with Suc.hyps k show ?case by (simp add: upt_conv_Cons del: upt.simps)
qed

lemma regenerate_block:
  assumes "mid_block s n 0 a"
  shows "\<exists>a'. regenerate a = Some a' \<and> mid_block s (n + 624) 0 a'"
proof -
  obtain a1 where 1: "regen_loop 397 [0..<227] a = Some a1" "mid_block s n 227 a1"
    using regen_loop_low [OF assms] by auto
  obtain a2 where 2: "regen_loop (- 227) [227..<623] a1 = Some a2" "mid_block s n 623 a2"
    using regen_loop_high [OF 1(2)] by auto
  obtain a3 where 3: "regen_cell 623 0 396 a2 = Some a3" "mid_block s n (Suc 623) a3"
    using regen_cell_mid [OF 2(2), of 0 396] by auto
  from 1 2 3 mid_block_shift [of s n a3] show ?thesis
    by (simp add: regenerate_def mers_consts del: upt.simps upt_rec_numeral)
qed

text \<open>The generator stands before element \<open>p\<close> of the recurrence.\<close>

definition rng_at :: "u32 \<Rightarrow> nat \<Rightarrow> rng \<Rightarrow> bool" where
  "rng_at s p g \<longleftrightarrow> mti g \<le> 624 \<and> (\<exists>n. p = n + mti g \<and> mid_block s n 0 (mt g))"

lemma random_bits_at:
  assumes "rng_at s p g"
  shows "\<exists>g'. random_bits g = Some (temper (mt_seq s p), g') \<and> rng_at s (Suc p) g'"
proof -
  obtain n where n: "p = n + mti g" "mid_block s n 0 (mt g)" and le: "mti g \<le> 624"
    using assms by (auto simp: rng_at_def)
  show ?thesis
  proof (cases "mti g = 624")
    case True
    obtain a where a: "regenerate (mt g) = Some a" "mid_block s (n + 624) 0 a"
      using regenerate_block [OF n(2)] by blast
    with True n show ?thesis
      using mid_blockD [OF a(2), of 0] mid_block_length [OF a(2)]
      by (auto simp: random_bits_def mers_consts array_ops rng_at_def add.commute)
  next
    case False
    with n le show ?thesis
      using mid_blockD [OF n(2), of "mti g"] mid_block_length [OF n(2)]
      by (auto simp: random_bits_def mers_consts array_ops rng_at_def)
  qed
qed

lemma seed_loop_seq:
  "0 < k \<Longrightarrow> k \<le> 624 \<Longrightarrow> length a = 624 \<Longrightarrow> \<forall>i < k. a ! i = mt_seq s i \<Longrightarrow>
   \<exists>a'. seed_loop [k..<624] a = Some a' \<and> mid_block s 0 0 a'"
proof (induction "624 - k" arbitrary: k a)
  case 0
  then show ?case by (simp add: mid_block_def)
next
  case (Suc d)
  then have k: "k < 624" by simp
  let ?v = "seed_next (a ! (k - 1)) k"
  have v: "?v = mt_seq s k" using Suc.prems k by (simp add: mt_seq_seed)
  have get: "aget a (int k - 1) = Some (a ! (k - 1))"
    using Suc.prems k by (simp add: aget_def nat_diff_distrib)
  have "\<exists>a'. seed_loop [Suc k..<624] (a[k := ?v]) = Some a' \<and> mid_block s 0 0 a'"
    using Suc.hyps Suc.prems k v by (auto simp: less_Suc_eq nth_list_update)
  with k get Suc.prems show ?case by (simp add: upt_conv_Cons array_ops del: upt.simps)
qed

lemma random_seed_at:
  assumes "length (mt g) = 624"
  shows "\<exists>g'. random_seed s g = Some g' \<and> rng_at s 624 g'"
proof -
  have "aset (mt g) 0 s = Some ((mt g)[0 := s])" using assms by (simp add: aset_def)
  moreover obtain a where "seed_loop [1..<624] ((mt g)[0 := s]) = Some a" "mid_block s 0 0 a"
    using seed_loop_seq [of 1 "(mt g)[0 := s]" s] assms by (auto simp: mt_seq_0)
  ultimately show ?thesis
    by (auto simp: random_seed_def mers_consts rng_at_def simp del: upt.simps)
qed

lemma random_stream_at:
  "rng_at s p g \<Longrightarrow>
   \<exists>g'. random_stream n g = Some (map (\<lambda>i. temper (mt_seq s (p + i))) [0..<n], g') \<and> rng_at s (p + n) g'"
proof (induction n arbitrary: p g)
  case 0
  then show ?case by simp
next
  case (Suc n)
  obtain g1 where g1: "random_bits g = Some (temper (mt_seq s p), g1)" "rng_at s (Suc p) g1"
    using random_bits_at [OF Suc.prems] by blast
  obtain g2 where g2: "random_stream n g1 = Some (map (\<lambda>i. temper (mt_seq s (Suc p + i))) [0..<n], g2)"
    "rng_at s (Suc p + n) g2" using Suc.IH [OF g1(2)] by blast
  from g1 g2 show ?case by (auto simp: upt_conv_Cons map_Suc_upt [symmetric] simp del: upt.simps)
qed

section \<open>Tempering\<close>

lemma xor_drop_inj:
  fixes x y :: "'a::len word"
  assumes "0 < k" and "x XOR drop_bit k x = y XOR drop_bit k y"
  shows "x = y"
proof (rule bit_eqI)
  fix n
  show "bit x n = bit y n"
  proof (induction "LENGTH('a) - n" arbitrary: n rule: less_induct)
    case less
    show ?case
    proof (cases "n < LENGTH('a)")
      case True
      then have "bit x (k + n) = bit y (k + n)" using less assms(1) by simp
      moreover have "bit (x XOR drop_bit k x) n = bit (y XOR drop_bit k y) n" using assms(2) by simp
      ultimately show ?thesis by (auto simp: bit_simps)
    qed (auto dest: bit_imp_le_length)
  qed
qed

lemma xor_push_inj:
  fixes x y :: "'a::len word"
  assumes "0 < k" and "x XOR (push_bit k x AND m) = y XOR (push_bit k y AND m)"
  shows "x = y"
proof (rule bit_eqI)
  fix n
  show "bit x n = bit y n"
  proof (induction n rule: less_induct)
    case (less n)
    have "bit (x XOR (push_bit k x AND m)) n = bit (y XOR (push_bit k y AND m)) n"
      using assms(2) by simp
    then show ?case using less [of "n - k"] assms(1)
      by (cases "k \<le> n") (auto simp: bit_simps dest: bit_imp_le_length)
  qed
qed

lemma temper_injective: "temper x = temper y \<Longrightarrow> x = y"
  unfolding temper_def Let_def
  by (rule xor_drop_inj [of 11], simp, rule xor_push_inj [of 7 _ MERS_B], simp,
      rule xor_push_inj [of 15 _ MERS_C], simp, rule xor_drop_inj [of 18], simp, assumption)

end
