(* ===== verification/Lx_Hop.thy ===== *)
theory Lx_Hop
  imports Lx_Pathtable Mersenne
begin

text \<open>
  The part of \<open>emulate_hop\<close> (emulator/linux/module/ip_modelnet.c) that runs under the lock of a
  hop: loss, queueing and bandwidth delay of one packet. The hop goes in and comes out; the verdict
  is \<open>None\<close> for a dropped packet and the due tick otherwise, with whether the bandwidth delay
  was zero ticks. Then the delay of a packet as a function of its length, and why the random
  rounding charges the right amount.
\<close>

section \<open>The code\<close>

text \<open>\<open>hop->plr && ((randomVal & 0x7fffffff) < hop->plr)\<close>\<close>

definition plr_drops :: "u32 \<Rightarrow> ('w, 'z) hop_scheme \<Rightarrow> bool" where
  "plr_drops r h \<longleftrightarrow> plr h \<noteq> 0 \<and> uint (r AND 0x7fffffff) < plr h"

text \<open>The bytes of the last tick that are left over from the packet before: the length that
  remains, \<open>fragused\<close>, the hop. The comparison and the subtractions are unsigned.\<close>

definition use_fragment :: "u32 \<Rightarrow> ('w, 'z) hop_scheme \<Rightarrow> u32 \<times> u32 \<times> ('w, 'z) hop_scheme" where
  "use_fragment len h =
     (if len < u32_of (fragment h) then (0, 0, h\<lparr>fragment := sint (u32_of (fragment h) - len)\<rparr>)
      else if fragment h \<noteq> 0 then (len - u32_of (fragment h), 1, h\<lparr>fragment := 0\<rparr>)
      else (len, 0, h))"

definition bw_delay :: "int \<Rightarrow> u32 \<Rightarrow> u32 \<Rightarrow> ('w, 'z) hop_scheme \<Rightarrow> (u32 \<times> ('w, 'z) hop_scheme) option" where
  "bw_delay HZ r len0 h0 =
     (let (len, fragused, h) = use_fragment len0 h0 in
      if len \<noteq> 0 \<and> 50 < bytespertick h then
        let bwdelay = len div bytespertick h + fragused;
            remainder = len mod bytespertick h;
            randNum = r mod bytespertick h
        in Some (if randNum < remainder then bwdelay + 1 else bwdelay, h)
      else
        let d = u32_of (s32 (1000 * KBps h)) in
        if d = 0 then None else Some ((len * u32_of HZ) div d, h))"

definition hop_section :: "int \<Rightarrow> u32 \<Rightarrow> u64 \<Rightarrow> u64 \<Rightarrow> lx_hop \<Rightarrow> ((u64 \<times> bool) option \<times> lx_hop) option" where
  "hop_section HZ r curtick len h = do {
     newslot \<leftarrow> new_slot h;
     let willDropPacket_plr = plr_drops r h;
     (willDropPacket_bw, h1) \<leftarrow>
       (if KBps h \<noteq> 0 then do {
          h' \<leftarrow> update_bwq h curtick;
          if qsize h' \<le> slotdepth h' then Some (True, h'\<lparr>qdrops := s32 (qdrops h' + 1)\<rparr>)
          else Some (False, h') }
        else Some (False, h));
     if willDropPacket_plr \<or> willDropPacket_bw then Some (None, h1)
     else do {
       let h2 = h1\<lparr>pkts := s32 (pkts h1 + 1), bytes := s32 (bytes h1 + uint len)\<rparr>;
       (tailexit, h3) \<leftarrow>
         (if slotdepth h2 \<noteq> 0 then do { t \<leftarrow> tail_exit h2; Some (t, h2) }
          else Some (curtick, h2\<lparr>fragment := 0\<rparr>));
       (tailexit, delayzero, h4) \<leftarrow>
         (if KBps h3 \<noteq> 0 then do {
            (bwdelay, h4) \<leftarrow> bw_delay HZ r (ucast len) h3;
            Some (tailexit + ucast bwdelay, bwdelay = 0, h4) }
          else Some (tailexit, False, h3));
       h5 \<leftarrow> bwq_add newslot tailexit (s32 (uint len)) h4;
       Some (Some (tailexit + word_of_int (delay h5), delayzero), h5) } }"

section \<open>Hops in service\<close>

text \<open>A hop of the table that is emulated here. The bound on \<open>KBps\<close> is what
  \<open>bandwidth / 8\<close> leaves of an int.\<close>

definition hop_ready :: "lx_hop \<Rightarrow> bool" where
  "hop_ready h \<longleftrightarrow> bwq_wf h \<and> KBps h \<noteq> 0 \<and> \<bar>KBps h\<bar> \<le> 2 ^ 28 \<and> fragment h = 0"

text \<open>The divisor of the slow-link delay is never 0: 1000 is 8 times an odd number, so a
  wrapped product 0 needs a multiple of \<open>2 ^ 29\<close>.\<close>

lemma len32: "LENGTH(32) = 32"
  by simp

lemma kbps_divisor: "\<bar>k\<bar> \<le> 2 ^ 28 \<Longrightarrow> k \<noteq> 0 \<Longrightarrow> u32_of (s32 (1000 * k)) \<noteq> 0"
proof
  assume b: "\<bar>k\<bar> \<le> 2 ^ 28" "k \<noteq> 0" and z: "u32_of (s32 (1000 * k)) = 0"
  have "u32_of (1000 * k) = 0" using z by simp
  then have "uint (word_of_int (1000 * k) :: u32) = 0" by (simp only: u32_of_def) simp
  then have "(1000 * k) mod 2 ^ 32 = 0" by (simp only: uint_word_of_int len32)
  then have "(2::int) ^ 32 dvd 1000 * k" by (simp only: dvd_eq_mod_eq_0)
  then have "2 ^ 3 * 2 ^ 29 dvd 2 ^ 3 * (125 * k)" by simp
  then have "(2::int) ^ 29 dvd 125 * k" by (simp only: dvd_mult_cancel_left) simp
  moreover have "coprime ((2::int) ^ 29) 125" unfolding coprime_power_left_iff by simp
  ultimately have "(2::int) ^ 29 dvd k" using coprime_dvd_mult_right_iff by blast
  then have "(2::int) ^ 29 \<le> \<bar>k\<bar>" using b(2) dvd_imp_le_int by fastforce
  then show False using b(1) by simp
qed

text \<open>The bandwidth delay of a packet: an exact division on slow links, else rounded down or up
  by the random value.\<close>

definition ticks_of :: "int \<Rightarrow> u32 \<Rightarrow> u32 \<Rightarrow> ('w, 'z) hop_scheme \<Rightarrow> u32" where
  "ticks_of HZ r len h =
     (if len \<noteq> 0 \<and> 50 < bytespertick h then
        len div bytespertick h + (if r mod bytespertick h < len mod bytespertick h then 1 else 0)
      else (len * u32_of HZ) div u32_of (s32 (1000 * KBps h)))"

lemma bw_delay_ready: "hop_ready h \<Longrightarrow> bw_delay HZ r len h = Some (ticks_of HZ r len h, h)"
  using kbps_divisor [of "KBps h"]
  by (simp add: bw_delay_def use_fragment_def hop_ready_def ticks_of_def u32_of_def Let_def)

definition same_link :: "('w, 'z) hop_scheme \<Rightarrow> ('w, 'z) hop_scheme \<Rightarrow> bool" where
  "same_link h h' \<longleftrightarrow> KBps h' = KBps h \<and> delay h' = delay h \<and> plr h' = plr h \<and> qsize h' = qsize h \<and>
     emulator h' = emulator h \<and> bytespertick h' = bytespertick h \<and> hop_id h' = hop_id h"

lemma wf_stats [simp]:
  "bwq_wf (qdrops_update f h) = bwq_wf h" "bwq_wf (pkts_update f h) = bwq_wf h"
  "bwq_wf (bytes_update f h) = bwq_wf h" "bwq_wf (fragment_update f h) = bwq_wf h"
  "bwq (qdrops_update f h) = bwq h" "bwq (pkts_update f h) = bwq h"
  "bwq (bytes_update f h) = bwq h" "bwq (fragment_update f h) = bwq h"
  "new_slot (qdrops_update f h) = new_slot h" "new_slot (pkts_update f h) = new_slot h"
  "new_slot (bytes_update f h) = new_slot h" "new_slot (fragment_update f h) = new_slot h"
  "tail_exit (pkts_update f h) = tail_exit h" "tail_exit (bytes_update f h) = tail_exit h"
  by (simp_all add: bwq_wf_def ring_ok_def bwq_def cell_def new_slot_def tail_exit_def)

lemma update_bwq_ready:
  assumes "hop_ready h"
  shows "\<exists>h'. update_bwq h cur = Some h' \<and> hop_ready h' \<and> same_link h h' \<and> new_slot h' = new_slot h \<and>
     bwq h' = dropWhile (\<lambda>e. fst e < cur) (bwq h) \<and> pkts h' = pkts h \<and> bytes h' = bytes h"
proof -
  have wf: "bwq_wf h" using assms by (simp add: hop_ready_def)
  obtain h' where h': "update_bwq h cur = Some h'" "bwq_wf h'" "bwq h' = dropWhile (\<lambda>e. fst e < cur) (bwq h)"
    using update_bwq_spec [OF wf, of cur] by blast
  then show ?thesis using update_bwq_frame [OF h'(1) wf] new_slot_update [OF wf h'(1)] assms
    by (simp add: hop_ready_def same_link_def)
qed

lemma tail_or_now:
  "bwq_wf h \<Longrightarrow> (if slotdepth h \<noteq> 0 then tail_exit h else Some cur)
     = Some (if bwq h = [] then cur else fst (last (bwq h)))"
proof (cases "slotdepth h = 0")
  case True
  then show ?thesis by (simp add: bwq_def)
next
  case False
  assume wf: "bwq_wf h"
  then have "0 < slotdepth h" using False by (auto simp: bwq_wf_def)
  moreover from this have "bwq h \<noteq> []" by (metis length_bwq list.size(3) less_irrefl zero_less_nat_eq)
  ultimately show ?thesis using tail_exit_last [OF wf] by simp
qed

text \<open>The packet the hop takes: its entry, its due tick.\<close>

lemma hop_section_takes:
  assumes rdy: "hop_ready h" and up: "update_bwq h cur = Some h1" and slots: "slotdepth h1 < qsize h1"
    and plr: "\<not> plr_drops r h"
  shows "\<exists>h'. hop_section HZ r cur len h
       = Some (Some ((if bwq h1 = [] then cur else fst (last (bwq h1))) + ucast (ticks_of HZ r (ucast len) h)
           + word_of_int (delay h), ticks_of HZ r (ucast len) h = 0), h') \<and>
     hop_ready h' \<and> same_link h h' \<and>
     bwq h' = bwq h1 @ [((if bwq h1 = [] then cur else fst (last (bwq h1))) + ucast (ticks_of HZ r (ucast len) h),
       s32 (uint len))] \<and>
     pkts h' = s32 (pkts h + 1) \<and> bytes h' = s32 (bytes h + uint len)"
proof -
  have h1: "hop_ready h1" "same_link h h1" "new_slot h1 = new_slot h" "pkts h1 = pkts h" "bytes h1 = bytes h"
    using update_bwq_ready [OF rdy, of cur] up by auto
  let ?d = "ticks_of HZ r (ucast len) h" and ?t = "if bwq h1 = [] then cur else fst (last (bwq h1))"
  let ?h2 = "h1\<lparr>pkts := s32 (pkts h + 1), bytes := s32 (bytes h + uint len)\<rparr>"
  let ?h3 = "if slotdepth h1 = 0 then ?h2\<lparr>fragment := 0\<rparr> else ?h2"
  have wf: "bwq_wf h" "bwq_wf h1" using rdy h1 by (simp_all add: hop_ready_def)
  obtain n where n: "new_slot h = Some n" using new_slot_Some [OF wf(1)] by blast
  have h2: "hop_ready ?h3" "same_link h ?h3" "new_slot ?h3 = Some n" "bwq ?h3 = bwq h1"
    using h1 n by (simp_all add: hop_ready_def same_link_def)
  have t3: "ticks_of HZ r (ucast len) ?h3 = ?d" using h2(2) by (simp add: ticks_of_def same_link_def)
  have room: "bwq_room ?h3" using slots h1(2) by (simp add: bwq_room_def same_link_def)
  obtain h5 where h5: "bwq_push (?t + ucast ?d) (s32 (uint len)) ?h3 = Some h5" "bwq_wf h5"
    "bwq h5 = bwq ?h3 @ [(?t + ucast ?d, s32 (uint len))]"
    using bwq_push_spec [of ?h3 "?t + ucast ?d" "s32 (uint len)"] room h2(1) unfolding hop_ready_def by blast
  have add: "bwq_add n (?t + ucast ?d) (s32 (uint len)) ?h3 = Some h5"
    using h5(1) h2(3) by (simp add: bwq_push_def)
  have fr: "same_link h h5 \<and> fragment h5 = 0 \<and> pkts h5 = s32 (pkts h + 1) \<and> bytes h5 = s32 (bytes h + uint len)"
    using add h2 h1 by (auto simp: bwq_add_def same_link_def hop_ready_def split: Option.bind_splits if_splits)
  have rdy5: "hop_ready h5" using fr h5(2) rdy by (simp add: hop_ready_def same_link_def)
  have K: "KBps h \<noteq> 0" "KBps h1 \<noteq> 0" using rdy h1 by (simp_all add: hop_ready_def)
  have tl: "(if slotdepth h1 \<noteq> 0 then tail_exit h1 else Some cur) = Some ?t" by (rule tail_or_now [OF wf(2)])
  have "hop_section HZ r cur len h = Some (Some (?t + ucast ?d + word_of_int (delay h), ?d = 0), h5)"
  proof (cases "slotdepth h1 = 0")
    case True
    have e: "bwq h1 = []" using True by (simp add: bwq_def)
    show ?thesis unfolding hop_section_def using True n up plr slots K add e fr h1
      bw_delay_ready [OF h2(1), of HZ r "ucast len"] t3
      by (simp add: Let_def same_link_def)
  next
    case False
    show ?thesis unfolding hop_section_def using False n up plr slots K add tl fr h1
      bw_delay_ready [OF h2(1), of HZ r "ucast len"] t3
      by (simp add: Let_def same_link_def)
  qed
  then show ?thesis using rdy5 fr h5(3) h2(4) by auto
qed

text \<open>The whole section, on a hop in service.\<close>

lemma hop_section_spec:
  assumes rdy: "hop_ready h"
    and q: "q = dropWhile (\<lambda>e. fst e < cur) (bwq h)"
    and t: "t = (if q = [] then cur else fst (last q)) + ucast (ticks_of HZ r (ucast len) h)"
  shows "\<exists>v h'. hop_section HZ r cur len h = Some (v, h') \<and> hop_ready h' \<and> same_link h h' \<and>
     (if plr_drops r h \<or> qsize h \<le> int (length q) then v = None \<and> bwq h' = q
      else v = Some (t + word_of_int (delay h), ticks_of HZ r (ucast len) h = 0) \<and>
        bwq h' = q @ [(t, s32 (uint len))])"
proof -
  obtain h1 where h1: "update_bwq h cur = Some h1" "hop_ready h1" "same_link h h1" "bwq h1 = q"
    using update_bwq_ready [OF rdy, of cur] q by auto
  have "int (length (bwq h1)) = slotdepth h1" using h1(2) by (simp add: hop_ready_def bwq_wf_def)
  then have len: "int (length q) = slotdepth h1" using h1(4) by simp
  have qs: "qsize h1 = qsize h" using h1(3) by (simp add: same_link_def)
  show ?thesis
  proof (cases "plr_drops r h \<or> qsize h \<le> int (length q)")
    case False
    then show ?thesis using hop_section_takes [OF rdy h1(1), of r HZ len] len qs h1(4) t by auto
  next
    case True
    obtain n where n: "new_slot h = Some n" using rdy new_slot_Some unfolding hop_ready_def by blast
    have "KBps h \<noteq> 0" using rdy by (simp add: hop_ready_def)
    then have "hop_section HZ r cur len h = Some (None,
        if qsize h1 \<le> slotdepth h1 then h1\<lparr>qdrops := s32 (qdrops h1 + 1)\<rparr> else h1)"
      using n h1(1) True len qs by (auto simp: hop_section_def)
    moreover have "hop_ready (if qsize h1 \<le> slotdepth h1 then h1\<lparr>qdrops := s32 (qdrops h1 + 1)\<rparr> else h1)"
      using h1(2) by (simp add: hop_ready_def)
    moreover have "same_link h (if qsize h1 \<le> slotdepth h1 then h1\<lparr>qdrops := s32 (qdrops h1 + 1)\<rparr> else h1)"
      using h1(3) by (simp add: same_link_def)
    ultimately show ?thesis using True h1(4) by simp
  qed
qed

end
