(* ===== verification/Calendar.thy ===== *)
theory Calendar
  imports Prelude
begin

text \<open>
  The packet calendar of both kernels: a circular array of \<open>2 ^ 14\<close> lists, indexed by the low
  bits of a tick. What the emulation needs of it is an agenda, a list of items for every tick, with a
  clock: the locale \<open>agenda_impl\<close> names the three operations (append an item for a tick, take
  the first item of the present tick, move on) and their laws, and shows that any run delivers the
  same items at the same ticks as the agenda does. The array of the code is an instance, as
  long as no item is due a whole revolution ahead.
\<close>

section \<open>The circular array\<close>

definition SCHEDLEN :: nat where "SCHEDLEN = 16384"

definition cal_slot :: "'w::len word \<Rightarrow> int" where
  "cal_slot t = uint (t AND 16383)"

definition cal_add :: "'w::len word \<Rightarrow> 'a \<Rightarrow> 'a list list \<Rightarrow> 'a list list option" where
  "cal_add t x cal = do {
     l \<leftarrow> aget cal (cal_slot t);
     aset cal (cal_slot t) (l @ [x]) }"

definition cal_take :: "'w::len word \<Rightarrow> 'a list list \<Rightarrow> ('a option \<times> 'a list list) option" where
  "cal_take t cal = do {
     l \<leftarrow> aget cal (cal_slot t);
     case l of
       [] \<Rightarrow> Some (None, cal)
     | x # r \<Rightarrow> do { cal' \<leftarrow> aset cal (cal_slot t) r; Some (Some x, cal') } }"

lemma mask14: "(16383 :: 'a::len word) = mask 14"
  by (simp add: mask_eq_exp_minus_1)

lemma cal_slot_take_bit: "cal_slot (t :: 'w::len word) = uint (take_bit 14 t)"
  unfolding cal_slot_def mask14 by (simp add: take_bit_eq_mask)

lemma uint_take_bit_14: "uint (take_bit 14 t) = uint t mod 16384"
proof -
  have "uint (take_bit 14 t) = take_bit 14 (uint t)" by (rule unsigned_take_bit_eq)
  then show ?thesis by (simp only: take_bit_eq_mod) simp
qed

lemma cal_slot_mod: "cal_slot t = uint t mod 16384"
  by (simp only: cal_slot_take_bit uint_take_bit_14)

lemma cal_slot_bounds: "0 \<le> cal_slot t" "cal_slot t < 16384"
  unfolding cal_slot_mod by simp_all

lemma word_take_bit_add: "take_bit n (x + y :: 'w::len word) = take_bit n (take_bit n x + take_bit n y)"
  unfolding take_bit_eq_mask by (simp add: mask_eqs)

lemma word_take_bit_diff: "take_bit n (x - y :: 'w::len word) = take_bit n (take_bit n x - take_bit n y)"
  unfolding take_bit_eq_mask by (simp add: mask_eqs)

text \<open>The ticks a calendar can hold at a time: a revolution from now on.\<close>

definition cal_due :: "'w::len word \<Rightarrow> 'w word \<Rightarrow> bool" where
  "cal_due now t \<longleftrightarrow> uint (t - now) < 16384"

lemma cal_due_now [simp]: "cal_due t t"
  by (simp add: cal_due_def)

text \<open>Two ticks of one revolution share no list.\<close>

lemma cal_slot_inj:
  fixes now t u :: "'w::len word"
  assumes "cal_due now t" "cal_due now u" "cal_slot t = cal_slot u"
  shows "t = u"
proof -
  have s: "take_bit 14 (x - now) = x - now" if "cal_due now x" for x :: "'w word"
  proof (rule word_uint_eqI)
    show "uint (take_bit 14 (x - now)) = uint (x - now)"
      using that by (simp only: cal_due_def uint_take_bit_14) (simp add: mod_pos_pos_trivial)
  qed
  have "take_bit 14 t = take_bit 14 u"
    using assms(3) unfolding cal_slot_take_bit by (rule word_uint_eqI)
  then have h: "take_bit 14 (t - now) = take_bit 14 (u - now)"
    by (simp only: word_take_bit_diff [of 14 t now] word_take_bit_diff [of 14 u now])
  have "t - now = u - now" using h unfolding s [OF assms(1)] s [OF assms(2)] .
  then show ?thesis by simp
qed

section \<open>Runs\<close>

datatype ('t, 'a) cal_op = Add 't 'a | Take | Tick

fun cal_run :: "('t \<Rightarrow> 'a \<Rightarrow> 'c \<Rightarrow> 'c option) \<Rightarrow> ('t \<Rightarrow> 'c \<Rightarrow> ('a option \<times> 'c) option)
    \<Rightarrow> ('t::{plus,one}, 'a) cal_op list \<Rightarrow> 't \<Rightarrow> 'c \<Rightarrow> (('t \<times> 'a) list \<times> 't \<times> 'c) option" where
  "cal_run add tk [] now c = Some ([], now, c)"
| "cal_run add tk (Add t x # ops) now c = do { c' \<leftarrow> add t x c; cal_run add tk ops now c' }"
| "cal_run add tk (Take # ops) now c = do {
     (r, c') \<leftarrow> tk now c;
     (out, e) \<leftarrow> cal_run add tk ops now c';
     Some ((case r of None \<Rightarrow> [] | Some x \<Rightarrow> [(now, x)]) @ out, e) }"
| "cal_run add tk (Tick # ops) now c = cal_run add tk ops (now + 1) c"

text \<open>The same on an agenda. \<open>None\<close> where the protocol of the clock is broken: an item due
  outside the horizon, or a tick left before its items are taken.\<close>

fun agenda_run :: "('t \<Rightarrow> 't \<Rightarrow> bool) \<Rightarrow> ('t::{plus,one}, 'a) cal_op list \<Rightarrow> 't \<Rightarrow> ('t \<Rightarrow> 'a list)
    \<Rightarrow> (('t \<times> 'a) list \<times> 't \<times> ('t \<Rightarrow> 'a list)) option" where
  "agenda_run due [] now ag = Some ([], now, ag)"
| "agenda_run due (Add t x # ops) now ag =
     (if due now t then agenda_run due ops now (ag(t := ag t @ [x])) else None)"
| "agenda_run due (Take # ops) now ag =
     (case ag now of
        [] \<Rightarrow> agenda_run due ops now ag
      | x # r \<Rightarrow> do {
          (out, e) \<leftarrow> agenda_run due ops now (ag(now := r));
          Some ((now, x) # out, e) })"
| "agenda_run due (Tick # ops) now ag =
     (if ag now = [] then agenda_run due ops (now + 1) ag else None)"

text \<open>On an agenda every item is handed out at the tick it was added for, once, or is still there.\<close>

fun added :: "('t, 'a) cal_op list \<Rightarrow> 't \<Rightarrow> 'a list" where
  "added [] t = []"
| "added (Add u x # ops) t = (if u = t then x # added ops t else added ops t)"
| "added (_ # ops) t = added ops t"

lemma agenda_run_on_time:
  "agenda_run due ops now ag = Some (out, now', ag') \<Longrightarrow>
   map snd (filter (\<lambda>e. fst e = t) out) @ ag' t = ag t @ added ops t"
proof (induction ops arbitrary: now ag out)
  case Nil
  then show ?case by simp
next
  case (Cons op ops)
  show ?case
  proof (cases op)
    case (Add u x)
    then have r: "agenda_run due ops now (ag(u := ag u @ [x])) = Some (out, now', ag')"
      using Cons.prems by (auto split: if_splits)
    show ?thesis using Cons.IH [OF r] Add by (cases "u = t") simp_all
  next
    case Take
    show ?thesis
    proof (cases "ag now")
      case Nil
      then show ?thesis using Cons Take by simp
    next
      case (Cons x r)
      then obtain out' where "agenda_run due ops now (ag(now := r)) = Some (out', now', ag')"
        "out = (now, x) # out'"
        using Cons.prems Take by (auto split: Option.bind_splits)
      then show ?thesis using Cons.IH [of now "ag(now := r)" out'] Cons Take
        by (cases "now = t") (simp_all del: fun_upd_apply, simp_all)
    qed
  next
    case Tick
    then show ?thesis using Cons by (auto split: if_splits)
  qed
qed

section \<open>The contract\<close>

locale agenda_impl =
  fixes rep :: "'t::{plus,one} \<Rightarrow> 'c \<Rightarrow> ('t \<Rightarrow> 'a list) \<Rightarrow> bool"
    and due :: "'t \<Rightarrow> 't \<Rightarrow> bool"
    and add :: "'t \<Rightarrow> 'a \<Rightarrow> 'c \<Rightarrow> 'c option"
    and take_first :: "'t \<Rightarrow> 'c \<Rightarrow> ('a option \<times> 'c) option"
  assumes add_law: "rep now c ag \<Longrightarrow> due now t \<Longrightarrow>
      \<exists>c'. add t x c = Some c' \<and> rep now c' (ag(t := ag t @ [x]))"
    and take_none: "rep now c ag \<Longrightarrow> ag now = [] \<Longrightarrow> take_first now c = Some (None, c)"
    and take_some: "rep now c ag \<Longrightarrow> ag now = x # r \<Longrightarrow>
      \<exists>c'. take_first now c = Some (Some x, c') \<and> rep now c' (ag(now := r))"
    and tick_law: "rep now c ag \<Longrightarrow> ag now = [] \<Longrightarrow> rep (now + 1) c ag"
begin

text \<open>A run of the implementation follows the run of the agenda.\<close>

lemma run_refines:
  "rep now c ag \<Longrightarrow> agenda_run due ops now ag = Some (out, now', ag') \<Longrightarrow>
   \<exists>c'. cal_run add take_first ops now c = Some (out, now', c') \<and> rep now' c' ag'"
proof (induction ops arbitrary: now c ag out)
  case Nil
  then show ?case by simp
next
  case (Cons op ops)
  show ?case
  proof (cases op)
    case (Add u x)
    then have d: "due now u" and r: "agenda_run due ops now (ag(u := ag u @ [x])) = Some (out, now', ag')"
      using Cons.prems(2) by (auto split: if_splits)
    obtain c1 where "add u x c = Some c1" "rep now c1 (ag(u := ag u @ [x]))"
      using add_law [OF Cons.prems(1) d] by blast
    show ?thesis using Cons.IH [OF \<open>rep now c1 (ag(u := ag u @ [x]))\<close> r] Add \<open>add u x c = Some c1\<close>
      by (simp del: fun_upd_apply)
  next
    case Take
    show ?thesis
    proof (cases "ag now")
      case Nil
      then show ?thesis using Cons.IH [OF Cons.prems(1)] Cons.prems(2) Take take_none [OF Cons.prems(1) Nil]
        by auto
    next
      case (Cons x r)
      then obtain out' where o: "agenda_run due ops now (ag(now := r)) = Some (out', now', ag')"
        "out = (now, x) # out'"
        using Cons.prems(2) Take by (auto split: Option.bind_splits)
      obtain c1 where "take_first now c = Some (Some x, c1)" "rep now c1 (ag(now := r))"
        using take_some [OF Cons.prems(1) Cons] by blast
      then show ?thesis using Cons.IH [OF _ o(1)] Take o(2) by fastforce
    qed
  next
    case Tick
    then have e: "ag now = []" and r: "agenda_run due ops (now + 1) ag = Some (out, now', ag')"
      using Cons.prems(2) by (auto split: if_splits)
    show ?thesis using Cons.IH [OF tick_law [OF Cons.prems(1) e] r] Tick by simp
  qed
qed

text \<open>So what the implementation hands out at a tick, and what it holds for it, is what was added.\<close>

lemma run_on_time:
  assumes "rep now c ag" "agenda_run due ops now ag = Some (out, now', ag')"
  shows "\<exists>c'. cal_run add take_first ops now c = Some (out, now', c') \<and>
     map snd (filter (\<lambda>e. fst e = t) out) @ ag' t = ag t @ added ops t"
  using run_refines [OF assms] agenda_run_on_time [OF assms(2), of t] by blast

end

section \<open>The array keeps the contract\<close>

definition cal_rep :: "'w::len word \<Rightarrow> 'a list list \<Rightarrow> ('w word \<Rightarrow> 'a list) \<Rightarrow> bool" where
  "cal_rep now cal ag \<longleftrightarrow> length cal = 16384 \<and> (\<forall>t. ag t \<noteq> [] \<longrightarrow> cal_due now t) \<and>
     (\<forall>t. cal_due now t \<longrightarrow> cal ! nat (cal_slot t) = ag t)"

lemma cal_slot_nat: "nat (cal_slot t) < 16384"
  using cal_slot_bounds [of t] by linarith

lemma cal_rep_upd:
  assumes "cal_rep now cal ag" "cal_due now t"
  shows "cal_rep now (cal[nat (cal_slot t) := l]) (ag(t := l))"
proof -
  have "cal[nat (cal_slot t) := l] ! nat (cal_slot u) = (ag(t := l)) u" if u: "cal_due now u" for u
  proof (cases "u = t")
    case False
    then have "cal_slot u \<noteq> cal_slot t" using cal_slot_inj [OF u assms(2)] by auto
    then have "nat (cal_slot t) \<noteq> nat (cal_slot u)"
      using cal_slot_bounds(1) [of t] cal_slot_bounds(1) [of u] by (simp add: eq_nat_nat_iff)
    then show ?thesis using assms(1) u False by (simp add: cal_rep_def)
  qed (use assms cal_slot_nat [of t] in \<open>simp add: cal_rep_def\<close>)
  then show ?thesis using assms by (auto simp: cal_rep_def)
qed

lemma cal_rep_get: "cal_rep now cal ag \<Longrightarrow> cal_due now t \<Longrightarrow> aget cal (cal_slot t) = Some (ag t)"
  using cal_slot_bounds [of t] by (simp add: cal_rep_def array_ops)

lemma cal_rep_set: "cal_rep now cal ag \<Longrightarrow> aset cal (cal_slot t) l = Some (cal[nat (cal_slot t) := l])"
  using cal_slot_bounds [of t] by (simp add: cal_rep_def array_ops)

lemma cal_due_next:
  fixes now :: "'w::len word"
  assumes "cal_due now t" "t \<noteq> now"
  shows "cal_due (now + 1) t"
proof -
  have "t - now \<noteq> 0" using assms(2) by simp
  then have "uint (t - now - 1) = uint (t - now) - 1"
    by (metis uint_minus_simple_alt word_le_less_eq word_less_1 linorder_not_less word_neq_0_conv uint_1)
  moreover have "t - (now + 1) = t - now - 1" by (simp only: diff_diff_add)
  ultimately have "uint (t - (now + 1)) = uint (t - now) - 1" by (simp only:)
  then show ?thesis using assms(1) unfolding cal_due_def by linarith
qed

lemma cal_rep_tick:
  assumes r: "cal_rep now cal ag" and e: "ag now = []" and w: "14 < LENGTH('w)"
  shows "cal_rep (now + 1 :: 'w::len word) cal ag"
  unfolding cal_rep_def
proof (intro conjI allI impI)
  show "length cal = 16384" using r by (simp add: cal_rep_def)
  show d: "cal_due (now + 1) t" if "ag t \<noteq> []" for t
    using r e that cal_due_next [of now t] by (auto simp: cal_rep_def)
  fix t assume n: "cal_due (now + 1) t"
  show "cal ! nat (cal_slot t) = ag t"
  proof (cases "cal_due now t")
    case True
    then show ?thesis using r by (simp add: cal_rep_def)
  next
    case False
    have far: "uint (t - now) = 16384"
    proof -
      let ?d = "t - (now + 1)"
      have d: "uint ?d < 16384" using n by (simp add: cal_due_def)
      have "(2::int) ^ 15 \<le> 2 ^ LENGTH('w)" by (rule power_increasing) (use w in auto)
      then have "uint ?d + 1 < 2 ^ LENGTH('w)" using d by simp
      moreover have "t - now = ?d + 1" by simp
      moreover have "uint ?d + uint (1 :: 'w word) < 2 ^ LENGTH('w) \<longleftrightarrow> uint (?d + 1) = uint ?d + uint (1 :: 'w word)"
        by (rule uint_add_lem)
      ultimately have "uint (t - now) = uint ?d + 1" by simp
      then show ?thesis using d False by (simp add: cal_due_def)
    qed
    have "take_bit 14 (t - now) = 0"
    proof (rule word_uint_eqI)
      show "uint (take_bit 14 (t - now)) = uint (0 :: 'w word)" by (simp only: uint_take_bit_14 far) simp
    qed
    then have "take_bit 14 t = take_bit 14 now" using word_take_bit_add [of 14 "t - now" now] by simp
    then have "cal_slot t = cal_slot now" by (simp add: cal_slot_take_bit)
    then have "cal ! nat (cal_slot t) = []" using r e cal_due_now [of now] by (simp add: cal_rep_def)
    moreover have "ag t = []" using r False by (auto simp: cal_rep_def)
    ultimately show ?thesis by simp
  qed
qed

interpretation cal64: agenda_impl "cal_rep :: 64 word \<Rightarrow> _" cal_due cal_add cal_take
proof unfold_locales
  fix now t :: "64 word" and c :: "'a list list" and ag :: "64 word \<Rightarrow> 'a list" and x :: 'a and r
  assume rep: "cal_rep now c ag"
  show "\<exists>c'. cal_add t x c = Some c' \<and> cal_rep now c' (ag(t := ag t @ [x]))" if d: "cal_due now t"
    using cal_rep_upd [OF rep d] by (simp add: cal_add_def cal_rep_get [OF rep d] cal_rep_set [OF rep])
  show "cal_take now c = Some (None, c)" if "ag now = []"
    using that by (simp add: cal_take_def cal_rep_get [OF rep])
  show "\<exists>c'. cal_take now c = Some (Some x, c') \<and> cal_rep now c' (ag(now := r))" if "ag now = x # r"
    using that cal_rep_upd [OF rep] by (simp add: cal_take_def cal_rep_get [OF rep] cal_rep_set [OF rep])
  show "cal_rep (now + 1) c ag" if "ag now = []" by (rule cal_rep_tick [OF rep that]) simp
qed

interpretation cal32: agenda_impl "cal_rep :: 32 word \<Rightarrow> _" cal_due cal_add cal_take
proof unfold_locales
  fix now t :: "32 word" and c :: "'a list list" and ag :: "32 word \<Rightarrow> 'a list" and x :: 'a and r
  assume rep: "cal_rep now c ag"
  show "\<exists>c'. cal_add t x c = Some c' \<and> cal_rep now c' (ag(t := ag t @ [x]))" if d: "cal_due now t"
    using cal_rep_upd [OF rep d] by (simp add: cal_add_def cal_rep_get [OF rep d] cal_rep_set [OF rep])
  show "cal_take now c = Some (None, c)" if "ag now = []"
    using that by (simp add: cal_take_def cal_rep_get [OF rep])
  show "\<exists>c'. cal_take now c = Some (Some x, c') \<and> cal_rep now c' (ag(now := r))" if "ag now = x # r"
    using that cal_rep_upd [OF rep] by (simp add: cal_take_def cal_rep_get [OF rep] cal_rep_set [OF rep])
  show "cal_rep (now + 1) c ag" if "ag now = []" by (rule cal_rep_tick [OF rep that]) simp
qed

end
