(* ===== verification/Lx_Core.thy ===== *)
theory Lx_Core
  imports Lx_Hop Calendar
begin

text \<open>
  emulator/linux/module/ip_modelnet.c and mn_remote.c: the packets in flight, the hook on incoming
  IP packets, the clock, loading and unloading. A packet is a cell of \<open>pkt_mem\<close> under its
  address, a socket buffer a cell of \<open>skbs\<close> while the module holds it; the calendar keeps the
  addresses of packets. What leaves the module is recorded: \<open>sent\<close> holds the calls of the
  continuation of the IP stack, \<open>freed_skbs\<close> the buffers given to \<open>kfree_skb\<close>. The
  operations are run one at a time.
\<close>

section \<open>State\<close>

record skb =
  sk_saddr :: u32
  sk_daddr :: u32
  sk_len :: u32

record remote_packet =
  ri_id :: u64
  ri_expire :: u64
  ri_len :: u64
  ri_wait_time :: u64
  ri_src :: u32
  ri_dst :: u32
  ri_hop :: u64
  ri_ttl :: int

record lx_packet =
  pk_path :: "(nat \<times> int) option"
  pk_skb :: "nat option"
  pk_cachehost :: u32
  pk_state :: int
  pk_info :: remote_packet

record lx = "lx_hop topo" +
  skbs :: "nat \<Rightarrow> skb option"
  pkt_mem :: "nat \<Rightarrow> lx_packet option"
  packet_calendar :: "nat list list option"
  calendar_tick :: u64
  jiffies :: u64
  rcv_finish :: "nat option"
  pkt_free :: u32
  pkts_queued :: u32
  delayzero :: u32
  pktcount :: "int list"
  gen :: rng
  sent :: "(nat \<times> nat) list"
  freed_skbs :: "nat list"
  modelnet_die :: bool
  work_pending :: bool
  sysctl_registered :: bool
  workqueue :: bool
  hook_registered :: bool

definition MODEL_SUBNET :: u32 where "MODEL_SUBNET = htonl 0x0a000000"
definition MODEL_MASK :: u32 where "MODEL_MASK = htonl 0xff000000"
definition MODEL_FORCEBIT :: u32 where "MODEL_FORCEBIT = htonl 0x00800000"
definition Q_BW :: int where "Q_BW = 1"
definition Q_DELAY :: int where "Q_DELAY = 2"
definition NF_ACCEPT :: int where "NF_ACCEPT = 1"
definition NF_STOLEN :: int where "NF_STOLEN = 2"

definition MODEL_FORCEOFF :: "u32 \<Rightarrow> u32" where
  "MODEL_FORCEOFF addr = addr AND NOT MODEL_FORCEBIT"

definition MC_PKT_HOME :: "lx_packet \<Rightarrow> bool" where
  "MC_PKT_HOME p \<longleftrightarrow> pk_cachehost p = 0"

definition MC_PKT_PCACHED :: "lx_packet \<Rightarrow> bool" where
  "MC_PKT_PCACHED p \<longleftrightarrow> ri_id (pk_info p) \<noteq> 0"

section \<open>Packets and hops\<close>

definition upd_pkt :: "nat \<Rightarrow> (lx_packet \<Rightarrow> lx_packet) \<Rightarrow> lx \<Rightarrow> lx option" where
  "upd_pkt a f s = do { p \<leftarrow> pkt_mem s a; Some (s\<lparr>pkt_mem := (pkt_mem s)(a \<mapsto> f p)\<rparr>) }"

definition kfree_skb :: "nat \<Rightarrow> lx \<Rightarrow> lx option" where
  "kfree_skb k s = do {
     b \<leftarrow> skbs s k;
     Some (s\<lparr>skbs := (skbs s)(k := None), freed_skbs := freed_skbs s @ [k]\<rparr>) }"

definition mn_free_pkt :: "nat \<Rightarrow> lx \<Rightarrow> lx option" where
  "mn_free_pkt a s = do {
     p \<leftarrow> pkt_mem s a;
     s1 \<leftarrow> (case pk_skb p of None \<Rightarrow> Some s | Some k \<Rightarrow> kfree_skb k s);
     Some (s1\<lparr>pkt_mem := (pkt_mem s1)(a := None), kmem := kmem s1 - 1, pkt_free := pkt_free s1 + 1\<rparr>) }"

section \<open>The path of a packet\<close>

text \<open>mn_remote.c: cores that exchange packets are not implemented in the Linux module.\<close>

definition lx_remote_hop :: "nat \<Rightarrow> u32 \<Rightarrow> lx \<Rightarrow> int \<times> lx" where
  "lx_remote_hop a owner_ip s = (- 1, s)"

definition lx_forward_packet :: "int \<Rightarrow> nat \<Rightarrow> lx \<Rightarrow> lx option" where
  "lx_forward_packet HZ a s = do {
     p \<leftarrow> pkt_mem s a;
     case pk_skb p of
       None \<Rightarrow> Some (snd (lx_remote_hop a (pk_cachehost p) s))
     | Some k \<Rightarrow> do {
         f \<leftarrow> rcv_finish s;
         b \<leftarrow> skbs s k;
         sec \<leftarrow> cdiv (uint (jiffies s)) HZ;
         i \<leftarrow> cmod sec 60;
         c \<leftarrow> aget (pktcount s) i;
         pc \<leftarrow> aset (pktcount s) i (s32 (c + 1));
         Some (s\<lparr>skbs := (skbs s)(k := None), sent := sent s @ [(f, k)],
           pkt_mem := (pkt_mem s)(a \<mapsto> p\<lparr>pk_skb := None\<rparr>), pktcount := pc\<rparr>) } }"

text \<open>\<open>random_bits\<close> is drawn first, whatever happens to the packet.\<close>

definition lx_emulate_hop :: "int \<Rightarrow> nat \<Rightarrow> hop_ptr \<Rightarrow> lx \<Rightarrow> (int \<times> lx) option" where
  "lx_emulate_hop HZ a hp s = do {
     (r, g) \<leftarrow> random_bits (gen s);
     p \<leftarrow> pkt_mem s a;
     h \<leftarrow> deref_hop hp s;
     (v, h') \<leftarrow> hop_section HZ r (calendar_tick s) (ri_len (pk_info p)) h;
     s1 \<leftarrow> store_hop hp h' (s\<lparr>gen := g\<rparr>);
     case v of
       None \<Rightarrow> Some (- ENOBUFS, s1)
     | Some (t, zero) \<Rightarrow> do {
         cal \<leftarrow> packet_calendar s1;
         cal' \<leftarrow> cal_add t a cal;
         Some (0, s1\<lparr>delayzero := delayzero s1 + (if zero then 1 else 0),
           pkt_mem := (pkt_mem s1)(a \<mapsto> p\<lparr>pk_state := Q_BW + Q_DELAY\<rparr>),
           packet_calendar := Some cal'\<rparr>) } }"

definition lx_emulate_nexthop :: "int \<Rightarrow> nat \<Rightarrow> lx \<Rightarrow> lx option" where
  "lx_emulate_nexthop HZ a s = do {
     p \<leftarrow> pkt_mem s a;
     (blk, i) \<leftarrow> pk_path p;
     arr \<leftarrow> path_mem s blk;
     curhop \<leftarrow> aget arr i;
     case curhop of
       None \<Rightarrow> do { s1 \<leftarrow> lx_forward_packet HZ a s; mn_free_pkt a s1 }
     | Some hp \<Rightarrow> do {
         h \<leftarrow> deref_hop hp s;
         (ret, s1) \<leftarrow> (if emulator h \<noteq> 0 then Some (lx_remote_hop a (emulator h) s)
                       else lx_emulate_hop HZ a hp s);
         s2 \<leftarrow> upd_pkt a (\<lambda>q. q\<lparr>pk_path := map_option (apsnd (\<lambda>j. j + 1)) (pk_path q),
             pk_info := (pk_info q)\<lparr>ri_hop := ri_hop (pk_info q) + 1\<rparr>\<rparr>) s1;
         q \<leftarrow> pkt_mem s2 a;
         h2 \<leftarrow> deref_hop hp s2;
         if \<not> (MC_PKT_HOME q \<and> MC_PKT_PCACHED q) \<and> emulator h2 \<noteq> 0 then mn_free_pkt a s2
         else if ret = - ENOBUFS then mn_free_pkt a s2
         else Some s2 } }"

text \<open>The force bit moves from the destination to the source before the path is looked up.\<close>

definition force_rewrite :: "skb \<Rightarrow> skb" where
  "force_rewrite ip = ip\<lparr>sk_saddr := sk_saddr ip OR (sk_daddr ip AND MODEL_FORCEBIT),
     sk_daddr := sk_daddr ip AND NOT MODEL_FORCEBIT\<rparr>"

definition lx_emulate_path :: "int \<Rightarrow> nat \<Rightarrow> lx \<Rightarrow> (int \<times> lx) option" where
  "lx_emulate_path HZ a s = do {
     p \<leftarrow> pkt_mem s a;
     k \<leftarrow> pk_skb p;
     ip \<leftarrow> skbs s k;
     let ip1 = force_rewrite ip;
     let saddr = sk_saddr ip1;
     let daddr = sk_daddr ip1;
     let s1 = s\<lparr>skbs := (skbs s)(k \<mapsto> ip1)\<rparr>;
     path \<leftarrow> lookup_path s1 (MODEL_FORCEOFF saddr) daddr;
     case path of
       None \<Rightarrow> Some (ENOENT, s1\<lparr>pkt_mem := (pkt_mem s1)(a \<mapsto> p\<lparr>pk_path := None\<rparr>)\<rparr>)
     | Some blk \<Rightarrow> do {
         s2 \<leftarrow> lx_emulate_nexthop HZ a (s1\<lparr>pkt_mem := (pkt_mem s1)(a \<mapsto> p\<lparr>pk_path := Some (blk, 0),
             pk_info := (pk_info p)\<lparr>ri_hop := 0, ri_src := saddr, ri_dst := daddr\<rparr>\<rparr>)\<rparr>);
         Some (0, s2) } }"

section \<open>The clock\<close>

text \<open>\<open>time_is_before_jiffies\<close> compares by the sign of the difference.\<close>

definition time_is_before_jiffies :: "u64 \<Rightarrow> lx \<Rightarrow> bool" where
  "time_is_before_jiffies t s \<longleftrightarrow> sint (t - jiffies s) < 0"

text \<open>The two inner loops take the first packet of the slot until the slot is empty.
  (\<open>list_for_each_safe\<close> fetches the successor before the packet is emulated; one appended
  meanwhile is reached, or found by the outer loop.)\<close>

partial_function (option) lx_drain :: "int \<Rightarrow> lx \<Rightarrow> lx option" where
  "lx_drain HZ s = do {
     cal \<leftarrow> packet_calendar s;
     (x, cal') \<leftarrow> cal_take (calendar_tick s) cal;
     case x of
       None \<Rightarrow> Some s
     | Some a \<Rightarrow> do {
         s' \<leftarrow> lx_emulate_nexthop HZ a (s\<lparr>packet_calendar := Some cal', pkts_queued := pkts_queued s - 1\<rparr>);
         lx_drain HZ s' } }"

declare lx_drain.simps [code]

partial_function (option) lx_ticks :: "int \<Rightarrow> lx \<Rightarrow> lx option" where
  "lx_ticks HZ s =
     (if time_is_before_jiffies (calendar_tick s) s then do {
        s' \<leftarrow> lx_drain HZ s;
        lx_ticks HZ (s'\<lparr>calendar_tick := calendar_tick s' + 1\<rparr>) }
      else Some s)"

declare lx_ticks.simps [code]

definition lx_hopclock :: "int \<Rightarrow> lx \<Rightarrow> lx option" where
  "lx_hopclock HZ s = do {
     s' \<leftarrow> lx_ticks HZ s;
     Some (if modelnet_die s' then s' else s'\<lparr>work_pending := True\<rparr>) }"

section \<open>The hook\<close>

text \<open>\<open>junk\<close> is what the fresh \<open>struct packet\<close> holds before its fields are assigned, \<open>a\<close>
  its address, \<open>okfn\<close> the continuation the hook is given.\<close>

definition lx_filter_ipinput :: "int \<Rightarrow> nat option \<Rightarrow> nat \<Rightarrow> lx_packet \<Rightarrow> nat \<Rightarrow> lx \<Rightarrow> (int \<times> lx) option" where
  "lx_filter_ipinput HZ skbuff okfn junk a s =
     (case skbuff of
        None \<Rightarrow> Some (NF_ACCEPT, s)
      | Some k \<Rightarrow> do {
          iph \<leftarrow> skbs s k;
          if sk_saddr iph AND MODEL_MASK = MODEL_SUBNET \<and> sk_daddr iph AND MODEL_MASK = MODEL_SUBNET
          then
            let (ok, s1) = kmalloc 1 (s\<lparr>rcv_finish := Some okfn\<rparr>) in
            if \<not> ok then Some (NF_ACCEPT, s1)
            else do {
              let p = junk\<lparr>pk_skb := Some k, pk_cachehost := 0,
                  pk_info := (pk_info junk)\<lparr>ri_len := ucast (sk_len iph), ri_id := 0\<rparr>\<rparr>;
              (err, s2) \<leftarrow> lx_emulate_path HZ a (s1\<lparr>pkt_mem := (pkt_mem s1)(a \<mapsto> p)\<rparr>);
              if err \<noteq> 0 then do {
                s3 \<leftarrow> upd_pkt a (\<lambda>q. q\<lparr>pk_skb := None\<rparr>) s2;
                s4 \<leftarrow> mn_free_pkt a s3;
                Some (NF_ACCEPT, s4) }
              else Some (NF_STOLEN, s2) }
          else Some (NF_ACCEPT, s) })"

section \<open>Loading and unloading\<close>

text \<open>\<open>modelnet_load\<close>: 0 or ENOMEM.\<close>

definition modelnet_load :: "lx \<Rightarrow> int \<times> lx" where
  "modelnet_load s =
     (let s1 = s\<lparr>delayzero := 0, calendar_tick := jiffies s\<rparr>;
          (ok, s2) = vmalloc (int SCHEDLEN) s1 in
      if \<not> ok then (ENOMEM, s2\<lparr>packet_calendar := None\<rparr>)
      else (0, s2\<lparr>packet_calendar := Some (replicate SCHEDLEN [])\<rparr>))"

definition modelnet_unload :: "lx \<Rightarrow> (int \<times> lx) option" where
  "modelnet_unload s = do {
     s1 \<leftarrow> uninit_paths s;
     Some (0, if packet_calendar s1 = None then s1 else (kfree_n 1 s1)\<lparr>packet_calendar := None\<rparr>) }"

text \<open>\<open>seed\<close> is what \<open>get_random_bytes\<close> delivers, \<open>reg_ok\<close> whether the sysctl table can be
  registered, \<open>hook\<close> the answer of \<open>nf_register_hook\<close>.\<close>

definition modelnet_init :: "u32 \<Rightarrow> bool \<Rightarrow> int \<Rightarrow> lx \<Rightarrow> (int \<times> lx) option" where
  "modelnet_init seed reg_ok hook s = do {
     g \<leftarrow> random_seed seed (gen s);
     let s1 = s\<lparr>gen := g\<rparr>;
     if \<not> reg_ok then Some (- EPERM, s1)
     else
       let s2 = s1\<lparr>sysctl_registered := True\<rparr>;
           (err, s3) = modelnet_load s2 in
       if err \<noteq> 0 then Some (- EPERM, s3)
       else
         let s4 = s3\<lparr>workqueue := True, work_pending := True\<rparr> in
         Some (hook, if hook < 0 then s4 else s4\<lparr>hook_registered := True\<rparr>) }"

definition modelnet_cleanup :: "lx \<Rightarrow> lx option" where
  "modelnet_cleanup s = do {
     let s1 = s\<lparr>sysctl_registered := False, hook_registered := False, modelnet_die := True,
         work_pending := False, workqueue := False\<rparr>;
     (r, s2) \<leftarrow> modelnet_unload s1;
     Some s2 }"

end
