(* ===== verification/Lx_Tables.thy ===== *)
theory Lx_Tables
  imports Lx_Pathtable Mersenne
begin

text \<open>
  What the tables of the Linux module guarantee to the packet path, and where its handlers fall
  short of it; the laws of the ring of a hop and of the generator are stated here too, over the
  definitions of Hop and Mersenne.
\<close>

section \<open>An allocator that serves every request\<close>

lemma setup_hop_served:
  assumes "alloc_ok s = []" "hoptable s = Some (a, hs)" "k < length hs" "0 \<le> sh_qsize sh"
  shows "\<exists>s'. setup_hop HZ (int k) sh s = Some (True, s') \<and> alloc_ok s' = [] \<and>
     (\<exists>hs'. hoptable s' = Some (a, hs') \<and> length hs' = length hs)"
  using assms
  by (simp add: setup_hop_def get_hop_def put_hop_def array_ops kmalloc_served hop_params_def Let_def)

lemma setup_hops_served:
  "alloc_ok s = [] \<Longrightarrow> hoptable s = Some (a, hs) \<Longrightarrow> length hops = length hs \<Longrightarrow>
   \<forall>sh \<in> set hops. 0 \<le> sh_qsize sh \<Longrightarrow> k \<le> length hs \<Longrightarrow>
   \<exists>s'. setup_hops HZ hops [int k..int (length hs) - 1] s = Some (True, s')"
proof (induction "length hs - k" arbitrary: k s hs)
  case 0
  then show ?case by simp
next
  case (Suc n)
  then have k: "k < length hs" by simp
  have u: "[int k..int (length hs) - 1] = int k # [int (Suc k)..int (length hs) - 1]"
    using k by (simp add: upto_rec1 add.commute)
  have q: "0 \<le> sh_qsize (hops ! k)" using Suc.prems k by simp
  obtain s1 hs1 where s1: "setup_hop HZ (int k) (hops ! k) s = Some (True, s1)" "alloc_ok s1 = []"
    "hoptable s1 = Some (a, hs1)" "length hs1 = length hs"
    using setup_hop_served [OF Suc.prems(1,2) k q, of HZ] by blast
  have "\<exists>s'. setup_hops HZ hops [int (Suc k)..int (length hs1) - 1] s1 = Some (True, s')"
    by (rule Suc.hyps(1)) (use Suc s1 k in auto)
  then show ?case unfolding u using s1 k Suc.prems by (auto simp: array_ops)
qed

lemma alloc_rows_served:
  "alloc_ok s = [] \<Longrightarrow> 0 \<le> nodecount s \<Longrightarrow> \<exists>rows' s'. alloc_rows is rows s = (rows', None, s')"
  by (induction "is" arbitrary: rows s) (auto simp: kmalloc_served)


lemma proc_nodecount_served:
  assumes wf: "paths_wf s" and ne: "n \<noteq> nodecount s" and n: "0 \<le> n" and a: "alloc_ok s = []"
  shows "\<exists>s'. proc_nodecount True n s = Some (0, s')"
proof -
  obtain s1 where s1: "free_path s = Some s1" "alloc_ok s1 = []"
    using free_path_spec [OF wf] a by auto
  have "\<exists>rows s4. alloc_rows [0..n - 1] [] (s1\<lparr>nodecount := n, kmem := k\<rparr>) = (rows, None, s4)" for k
    by (rule alloc_rows_served) (use s1 n in auto)
  then obtain rows s4 where "alloc_rows [0..n - 1] []
      (s1\<lparr>nodecount := n, kmem := kmem s1 + of_bool (n \<noteq> 0)\<rparr>) = (rows, None, s4)" by blast
  then show ?thesis using s1 ne n by (simp add: proc_nodecount_def kmalloc_served Let_def)
qed

lemma proc_hophandle_served:
  assumes wf: "topo_wf s" and a: "alloc_ok s = []" and n: "0 < n" "length hops = nat n"
    and q: "\<forall>sh \<in> set hops. 0 \<le> sh_qsize sh"
  shows "\<exists>s'. proc_hophandle HZ True (Some n) (Some hops) 12 0 s = Some (0, 12, 12, s')"
proof -
  let ?s1 = "s\<lparr>kmem := kmem s + 1\<rparr>"
  obtain s2 where s2: "uninit_paths ?s1 = Some s2" "alloc_ok s2 = []"
    using uninit_paths_spec [of ?s1] wf a by auto
  let ?hs = "replicate (nat n) (zero_hop :: lx_hop)"
  let ?s4 = "s2\<lparr>kmem := kmem s2 + 1, hoptable := Some (next_addr s2, ?hs),
       next_addr := next_addr s2 + 1, hopcount := n\<rparr>"
  have "\<exists>s5. setup_hops HZ hops [int 0..int (length ?hs) - 1] ?s4 = Some (True, s5)"
    by (rule setup_hops_served) (use s2 n q in auto)
  then obtain s5 where s5: "setup_hops HZ hops [0..n - 1] ?s4 = Some (True, s5)" using n by auto
  show ?thesis using s2 s5 n a by (simp add: proc_hophandle_def vmalloc_def kmalloc_served Let_def)
qed

section \<open>Generator and ring\<close>

text \<open>C18. Seeding the generator and drawing any number of values delivers exactly the tempered
  recurrence of the Mersenne twister from element 624 on: the in-place regeneration, in three
  loops over one array, reads and writes only inside the array and overwrites no cell too early.\<close>

theorem random_bits_is_mersenne_twister:
  assumes "length (mt g) = 624"
  shows "\<exists>g0 g'. random_seed s g = Some g0 \<and>
     random_stream n g0 = Some (map (\<lambda>i. temper (mt_seq s (624 + i))) [0..<n], g')"
proof -
  obtain g0 where g0: "random_seed s g = Some g0" "rng_at s 624 g0"
    using random_seed_at [OF assms] by blast
  then show ?thesis using random_stream_at [OF g0(2), of n] by blast
qed

theorem random_bits_is_mersenne_twister_witness:
  "\<exists>g0 g'. random_seed 5489 \<lparr>mti = 0, mt = replicate 624 0\<rparr> = Some g0 \<and>
     random_stream 700 g0 = Some (map (\<lambda>i. temper (mt_seq 5489 (624 + i))) [0..<700], g')"
  by (rule random_bits_is_mersenne_twister) simp

text \<open>C17. Bringing the virtual bandwidth queue of a hop up to date ends, touches no cell outside
  the two arrays, removes exactly the packets whose exit tick is past and keeps the byte account
  equal to the lengths that stay, in a queue whose exit ticks ascend.\<close>

theorem update_bwq_expires_due:
  assumes "bwq_wf h" "sorted (map fst (bwq h))" "bytedepth h = s32 (sum_list (map snd (bwq h)))"
  shows "\<exists>h'. update_bwq h tick = Some h' \<and> bwq_wf h' \<and>
     bwq h' = filter (\<lambda>e. tick \<le> fst e) (bwq h) \<and> sorted (map fst (bwq h')) \<and>
     bytedepth h' = s32 (sum_list (map snd (bwq h')))"
proof -
  obtain h' where h': "update_bwq h tick = Some h'" using ring.expire_spec [OF assms(1)] by blast
  then show ?thesis
    using ring.expire_sorted [OF assms(1,2) h'] ring.expire_accounted [OF assms(1,3) h'] by blast
qed

definition ex_ring :: "lx_hop" where
  "ex_ring = zero_hop\<lparr>KBps := 100, qsize := 3, slotdepth := 3, bytedepth := 60, headslot := 2,
     exittick := [7, 9, 4], slotlen := [20, 30, 10]\<rparr>"

theorem update_bwq_expires_due_witness:
  "\<exists>h'. update_bwq ex_ring 8 = Some h' \<and> bwq_wf h' \<and>
     bwq h' = filter (\<lambda>e. 8 \<le> fst e) (bwq ex_ring) \<and> sorted (map fst (bwq h')) \<and>
     bytedepth h' = s32 (sum_list (map snd (bwq h')))"
proof (rule update_bwq_expires_due)
  have l: "bwq ex_ring = [(4, 10), (7, 20), (9, 30)]"
    by (simp add: ex_ring_def bwq_def cell_def upt_rec)
  show "bwq_wf ex_ring" by (simp add: ex_ring_def bwq_wf_def ring_ok_def s32_id)
  show "sorted (map fst (bwq ex_ring))" by (simp add: l)
  show "bytedepth ex_ring = s32 (sum_list (map snd (bwq ex_ring)))" unfolding l by (simp add: ex_ring_def s32_id)
qed


section \<open>A small topology\<close>

text \<open>Two nodes, hosts 10.0.0.1 and 10.0.0.2, joined by one hop in one direction.\<close>

definition ex_nodes :: "nat \<Rightarrow> u8" where
  "ex_nodes k = (if 4 \<le> k \<and> k < 8 then 0 else if k = 8 then 1 else if 9 \<le> k \<and> k < 12 then 0 else 255)"

definition ex_topo :: "lx_hop topo" where
  "ex_topo = \<lparr>nodetable = ex_nodes, hopcount = 1, hoptable = Some (1, [ex_ring]), nodecount = 2,
     pathtable = Some [[None, Some 5], [None, None]],
     path_mem = [5 \<mapsto> path_block 1 [0]], next_addr = 6, kmem = 7, alloc_ok = []\<rparr>"

lemma ex_topo_fields [simp]:
  "nodetable ex_topo = ex_nodes" "hopcount ex_topo = 1" "hoptable ex_topo = Some (1, [ex_ring])"
  "nodecount ex_topo = 2" "pathtable ex_topo = Some [[None, Some 5], [None, None]]"
  "path_mem ex_topo = [5 \<mapsto> path_block 1 [0]]" "next_addr ex_topo = 6" "kmem ex_topo = 7"
  "alloc_ok ex_topo = []"
  by (simp_all add: ex_topo_def)

lemma ex_topo_wf: "topo_wf ex_topo"
  by (simp add: topo_wf_def paths_wf_def hops_wf_def cells_of_def)

lemma ex_topo_balanced: "balanced ex_topo"
  by (simp add: balanced_def paths_owned_def hops_owned_def cells_of_def hop_blocks_def ex_ring_def)

lemma ex_node_id: "node_id ex_nodes k = (if k = 1 then 0 else if k = 2 then 1 else - 1)"
proof -
  consider "k = 0" | "k = 1" | "k = 2" | "3 \<le> k" by linarith
  then show ?thesis
  proof cases
    case 4
    then have "ex_nodes (4 * k) = 255 \<and> ex_nodes (4 * k + 1) = 255 \<and> ex_nodes (4 * k + 2) = 255 \<and>
        ex_nodes (4 * k + 3) = 255" by (simp add: ex_nodes_def)
    then show ?thesis using 4 by (simp add: node_id_def le32_def)
  qed (simp_all add: node_id_def le32_def ex_nodes_def)
qed

lemma ex_topo_nodes: "nodes_ok ex_topo"
  by (simp add: nodes_ok_def ex_node_id)

section \<open>Looking up a path\<close>

text \<open>C27. Looking up a path for any pair of addresses reads no cell outside the node table and
  the path table when the node numbers are rows of the table, and the array it returns is
  allocated. It finds no path when there is no table or when an end has no node.\<close>

theorem lookup_path_safe:
  assumes "topo_wf s" "nodes_ok s"
  shows "\<exists>r. lookup_path s src dst = Some r \<and> (r = None \<or> (\<exists>a b. r = Some a \<and> path_mem s a = Some b)) \<and>
     (if pathtable s = None \<or> node_of s src = - 1 \<or> node_of s dst = - 1 then r = None
      else entry_at (node_of s src) (node_of s dst) s = Some r)"
proof -
  have wf: "paths_wf s" using assms(1) by (simp add: topo_wf_def)
  obtain r where r: "lookup_path s src dst = Some r" using lookup_path_total [OF wf assms(2)] by blast
  have "r = None \<or> (\<exists>a b. r = Some a \<and> path_mem s a = Some b)"
    using lookup_path_live [OF wf] r by (cases r) auto
  moreover have "r = None" if "pathtable s = None \<or> node_of s src = - 1 \<or> node_of s dst = - 1"
    using r that by (auto simp: lookup_path_def Let_def split: option.splits if_splits)
  ultimately show ?thesis using r lookup_path_entry by fastforce
qed

theorem lookup_path_safe_witness:
  "\<exists>r. lookup_path ex_topo (htonl 0x0a000001) (htonl 0x0a000002) = Some r \<and>
     (r = None \<or> (\<exists>a b. r = Some a \<and> path_mem ex_topo a = Some b)) \<and>
     (if pathtable ex_topo = None \<or> node_of ex_topo (htonl 0x0a000001) = - 1
         \<or> node_of ex_topo (htonl 0x0a000002) = - 1 then r = None
      else entry_at (node_of ex_topo (htonl 0x0a000001)) (node_of ex_topo (htonl 0x0a000002)) ex_topo = Some r)"
  by (rule lookup_path_safe [OF ex_topo_wf ex_topo_nodes])

lemma node_id_write:
  assumes d: "length data = 4"
  shows "node_id (\<lambda>j. if 4 * k \<le> j \<and> j < 4 * k + 4 then data ! (j - 4 * k) else t j) m
     = (if m = k then sint (le32 (data ! 0) (data ! 1) (data ! 2) (data ! 3)) else node_id t m)"
proof (cases "m = k")
  case False
  then have "m < k \<or> k < m" by linarith
  then show ?thesis using False by (auto simp: node_id_def)
qed (simp add: node_id_def numeral_eq_Suc)

text \<open>A write of the node table is read back: after the four bytes of a node number have been
  written at the place of a host, that host has this node, and no other host changes.\<close>

theorem proc_nodetable_roundtrip:
  assumes "k < 65536"
  shows "\<exists>s'. proc_nodetable True [b0, b1, b2, b3] False (4 * k) s = (0, 4, 4 * k + 4, s') \<and>
     (\<forall>addr. node_of s' addr = (if unat (ntohl addr AND NODEMASK) = k then sint (le32 b0 b1 b2 b3)
        else node_of s addr))"
proof -
  let ?t = "\<lambda>j. if 4 * k \<le> j \<and> j < 4 * k + 4 then [b0, b1, b2, b3] ! (j - 4 * k) else nodetable s j"
  have "node_id ?t m = (if m = k then sint (le32 b0 b1 b2 b3) else node_id (nodetable s) m)" for m
    using node_id_write [of "[b0, b1, b2, b3]" k "nodetable s" m] by (simp add: numeral_eq_Suc)
  then have "node_of (s\<lparr>nodetable := ?t\<rparr>) addr
      = (if unat (ntohl addr AND NODEMASK) = k then sint (le32 b0 b1 b2 b3) else node_of s addr)" for addr
    by (simp add: node_of_def)
  moreover have "4 * (unat NODEMASK + 1) = 262144" by (simp add: NODEMASK_def)
  moreover have "length [b0, b1, b2, b3] = 4" by simp
  ultimately show ?thesis using assms by (simp add: proc_nodetable_def del: list.size)
qed

theorem proc_nodetable_roundtrip_witness:
  "\<exists>s'. proc_nodetable True [1, 0, 0, 0] False (4 * 3) ex_topo = (0, 4, 4 * 3 + 4, s') \<and>
     (\<forall>addr. node_of s' addr = (if unat (ntohl addr AND NODEMASK) = 3 then sint (le32 1 0 0 0)
        else node_of ex_topo addr))"
  by (rule proc_nodetable_roundtrip) simp

section \<open>Freeing and sizing the tables\<close>

text \<open>Unloading gives back every block: when the tables own all that is allocated,
  \<open>uninit_paths\<close> runs to its end, frees no block twice, and leaves no table, no path and
  nothing allocated.\<close>

theorem uninit_paths_frees_all:
  assumes "topo_wf s" "balanced s"
  shows "\<exists>s'. uninit_paths s = Some s' \<and> kmem s' = 0 \<and> pathtable s' = None \<and> nodecount s' = 0 \<and>
     hoptable s' = None \<and> hopcount s' = 0 \<and> topo_wf s' \<and> balanced s'"
  using uninit_paths_spec [OF assms(1)] assms(2)
  by (auto simp: balanced_def paths_owned_def hops_owned_def)

theorem uninit_paths_frees_all_witness:
  "\<exists>s'. uninit_paths ex_topo = Some s' \<and> kmem s' = 0 \<and> pathtable s' = None \<and> nodecount s' = 0 \<and>
     hoptable s' = None \<and> hopcount s' = 0 \<and> topo_wf s' \<and> balanced s'"
  by (rule uninit_paths_frees_all [OF ex_topo_wf ex_topo_balanced])

text \<open>Writing a new node count frees the old paths and, when the allocator serves it, leaves an
  n by n table without paths; no block is lost, so a balanced state stays balanced.\<close>

theorem proc_nodecount_resizes:
  assumes "topo_wf s" "balanced s" "0 \<le> n" "n \<noteq> nodecount s" "alloc_ok s = []"
  shows "\<exists>s'. proc_nodecount True n s = Some (0, s') \<and> topo_wf s' \<and> balanced s' \<and> nodecount s' = n \<and>
     pathtable s' = Some (replicate (nat n) (replicate (nat n) None)) \<and> hoptable s' = hoptable s \<and>
     nodetable s' = nodetable s"
proof -
  have pw: "paths_wf s" using assms(1) by (simp add: topo_wf_def)
  obtain s' where r: "proc_nodecount True n s = Some (0, s')"
    using proc_nodecount_served [OF pw assms(4,3,5)] by blast
  then show ?thesis using proc_nodecount_spec [OF pw assms(4)] assms(1,2)
    by (auto simp: errno topo_wf_def hops_wf_def balanced_def hops_owned_def same_hops_def split: option.splits)
qed

theorem proc_nodecount_resizes_witness:
  "\<exists>s'. proc_nodecount True 3 ex_topo = Some (0, s') \<and> topo_wf s' \<and> balanced s' \<and> nodecount s' = 3 \<and>
     pathtable s' = Some (replicate (nat 3) (replicate (nat 3) None)) \<and> hoptable s' = hoptable ex_topo \<and>
     nodetable s' = nodetable ex_topo"
  by (rule proc_nodecount_resizes) (simp_all add: ex_topo_wf ex_topo_balanced)

lemma alloc_rows_fails:
  "alloc_ok s = replicate m True @ False # r \<Longrightarrow> m < length is \<Longrightarrow> 0 < nodecount s \<Longrightarrow>
   alloc_rows is rows s = (rows @ replicate m (replicate (nat (nodecount s)) None), Some (is ! m),
     s\<lparr>alloc_ok := r, kmem := kmem s + int m\<rparr>)"
proof (induction m arbitrary: "is" rows s)
  case 0
  then show ?case by (cases "is") (auto simp: kmalloc_def)
next
  case (Suc m)
  then obtain i is' where i: "is = i # is'" "m < length is'" by (cases "is") auto
  let ?s1 = "s\<lparr>alloc_ok := replicate m True @ False # r, kmem := kmem s + 1\<rparr>"
  have "kmalloc (nodecount s) s = (True, ?s1)" using Suc.prems by (simp add: kmalloc_def)
  moreover have "alloc_rows is' (rows @ [replicate (nat (nodecount s)) None]) ?s1
      = (rows @ replicate (Suc m) (replicate (nat (nodecount s)) None), Some (is' ! m),
         s\<lparr>alloc_ok := r, kmem := kmem s + int (Suc m)\<rparr>)"
    using Suc.IH [of ?s1 is' "rows @ [replicate (nat (nodecount s)) None]"] i Suc.prems by simp
  ultimately show ?case using i by simp
qed

text \<open>When a row of the new table cannot be allocated, the error path of \<open>proc_nodecount\<close>
  sets \<open>nodecount = i - 1\<close> where \<open>i\<close> rows exist, and loses memory: nothing for
  the first row, the table and its row when the second fails, one row for every later one.\<close>

theorem proc_nodecount_error_leaks:
  assumes "pathtable s = None" "nodecount s = 0" "i < nat n"
    and "alloc_ok s = True # replicate i True @ False # r"
  shows "\<exists>s'. proc_nodecount True n s = Some (- ENOMEM, s') \<and> pathtable s' = None \<and> nodecount s' = 0 \<and>
     kmem s' = kmem s + (if i = 0 then 0 else if i = 1 then 2 else 1)"
proof -
  have n: "0 < n" using assms(3) by simp
  let ?s1 = "s\<lparr>nodecount := n, alloc_ok := replicate i True @ False # r, kmem := kmem s + 1\<rparr>"
  have f: "free_path (s\<lparr>nodecount := 0\<rparr>) = Some (s\<lparr>nodecount := 0\<rparr>)"
    using assms(1,2) by (simp add: free_path_def)
  have k: "kmalloc n (s\<lparr>nodecount := n\<rparr>) = (True, ?s1)"
    using n assms(4) by (simp add: kmalloc_def)
  have a: "alloc_rows [0..n - 1] [] ?s1 = (replicate i (replicate (nat n) None), Some (int i),
      s\<lparr>nodecount := n, alloc_ok := r, kmem := kmem s + 1 + int i\<rparr>)"
    using alloc_rows_fails [of ?s1 i r "[0..n - 1]" "[]"] assms(3) n by simp
  let ?s2 = "s\<lparr>alloc_ok := r, kmem := kmem s + 1 + int i,
      pathtable := Some (replicate i (replicate (nat n) None)), nodecount := int i - 1\<rparr>"
  define d where "d = (if i = 1 then 0 else if i = 0 then 1 else int i)"
  have fp: "free_path ?s2 = Some (?s2\<lparr>pathtable := None, nodecount := 0, kmem := kmem ?s2 - d\<rparr>)"
    unfolding d_def by (rule free_path_partial) (use assms(3) in auto)
  have "proc_nodecount True n s
      = Some (- ENOMEM, ?s2\<lparr>pathtable := None, nodecount := 0, kmem := kmem ?s2 - d\<rparr>)"
    using f k a fp n assms(1,2) by (simp add: proc_nodecount_def Let_def)
  then show ?thesis by (auto simp: d_def)
qed

theorem proc_nodecount_error_leaks_witness:
  "\<exists>s'. proc_nodecount True 4 (ex_topo\<lparr>pathtable := None, nodecount := 0,
       alloc_ok := True # replicate 1 True @ False # []\<rparr>) = Some (- ENOMEM, s') \<and>
     pathtable s' = None \<and> nodecount s' = 0 \<and>
     kmem s' = kmem (ex_topo\<lparr>pathtable := None, nodecount := 0,
       alloc_ok := True # replicate 1 True @ False # []\<rparr>) + (if (1::nat) = 0 then 0 else if (1::nat) = 1 then 2 else 1)"
  by (rule proc_nodecount_error_leaks [where i = 1 and r = "[]"]) simp_all

section \<open>The hop table\<close>

text \<open>C30. A write of the hop table either installs the user's hops, each with empty rings of its
  \<open>qsize\<close> and the units converted (bandwidth to KBps, milliseconds to ticks), after freeing
  the old tables without losing a block, or reports \<open>-ENOMEM\<close>; it does the former
  whenever the allocator serves it. The tables stay well formed in either case.\<close>

theorem proc_hophandle_installs:
  assumes "topo_wf s" "length hops = nat n"
  shows "\<exists>ret s'. proc_hophandle HZ True (Some n) (Some hops) 12 0 s = Some (ret, 12, 12, s') \<and> topo_wf s' \<and>
     (alloc_ok s = [] \<and> 0 < n \<and> (\<forall>sh \<in> set hops. 0 \<le> sh_qsize sh) \<longrightarrow> ret = 0) \<and>
     (ret = 0 \<and> hopcount s' = n \<and> pathtable s' = None \<and> (balanced s \<longrightarrow> balanced s') \<and>
        (\<forall>j < nat n. get_hop (int j) s' = Some (fresh_hop HZ (int j) (hops ! j)))
      \<or> ret = - ENOMEM)"
proof -
  obtain ret s' where r: "proc_hophandle HZ True (Some n) (Some hops) 12 0 s = Some (ret, 12, 12, s')"
    "topo_wf s'" "ret = 0 \<and> hopcount s' = n \<and> 0 < n \<and> (\<forall>j < nat n. hop_row_ok HZ hops j s') \<and>
        kmem s' = kmem s - paths_owned s - hops_owned s + hops_owned s' \<and>
        pathtable s' = None \<and> nodecount s' = 0 \<or> ret = - ENOMEM"
    using proc_hophandle_spec [OF assms] by blast
  have "alloc_ok s = [] \<and> 0 < n \<and> (\<forall>sh \<in> set hops. 0 \<le> sh_qsize sh) \<longrightarrow> ret = 0"
    using proc_hophandle_served [OF assms(1) _ _ assms(2), of HZ] r(1) by auto
  moreover have "balanced s \<longrightarrow> ret = 0 \<longrightarrow> balanced s'"
    using r(3) by (auto simp: balanced_def paths_owned_def errno)
  ultimately show ?thesis using r by (auto simp: hop_row_ok_def)
qed

definition ex_hops :: "sysctl_hop list" where
  "ex_hops = [\<lparr>sh_bandwidth = 8000, sh_delay = 20, sh_plr = 0, sh_qsize = 10, sh_emulator = 0,
     sh_xtq_type = 0, sh_traceLink = 0\<rparr>]"

theorem proc_hophandle_installs_witness:
  "\<exists>ret s'. proc_hophandle 1000 True (Some 1) (Some ex_hops) 12 0 ex_topo = Some (ret, 12, 12, s') \<and> topo_wf s' \<and>
     (alloc_ok ex_topo = [] \<and> 0 < (1::int) \<and> (\<forall>sh \<in> set ex_hops. 0 \<le> sh_qsize sh) \<longrightarrow> ret = 0) \<and>
     (ret = 0 \<and> hopcount s' = 1 \<and> pathtable s' = None \<and> (balanced ex_topo \<longrightarrow> balanced s') \<and>
        (\<forall>j < nat 1. get_hop (int j) s' = Some (fresh_hop 1000 (int j) (ex_hops ! j)))
      \<or> ret = - ENOMEM)"
  by (rule proc_hophandle_installs) (simp_all add: ex_topo_wf ex_hops_def)

section \<open>Path entries\<close>

lemma proc_pathentry_served:
  assumes wf: "paths_wf s" and p: "pathtable s = Some rows" and t: "hoptable s = Some (tab, hs)"
    and i: "0 \<le> pe_src_node e" "pe_src_node e < nodecount s"
    and j: "0 \<le> pe_dst_node e" "pe_dst_node e < nodecount s" and len: "20 \<le> lenp"
    and n: "0 \<le> pe_pathlen e" and a: "alloc_ok s = []"
  shows "\<exists>s'. proc_pathentry True (Some e) (Some hops) lenp ppos s = Some (0, lenp, ppos + lenp, s')"
proof -
  have "\<exists>s'. set_entry (pe_src_node e) (pe_dst_node e) v (s\<lparr>kmem := k\<rparr>) = Some s'" for v k
    using set_entry_spec [of "s\<lparr>kmem := k\<rparr>" rows "pe_src_node e" "pe_dst_node e" v] wf p i j by auto
  then obtain s' where "set_entry (pe_src_node e) (pe_dst_node e) (Some (next_addr s))
      (s\<lparr>kmem := kmem s + of_bool (pe_pathlen e \<noteq> 0) + 1\<rparr>) = Some s'" by blast
  then show ?thesis using assms by (simp add: proc_pathentry_def kmalloc_served Let_def)
qed

text \<open>C28. A path written for two nodes is what the packet path finds: after a successful write,
  looking up any two addresses of these nodes yields a fresh array that holds a pointer to each hop
  of the user's list, in order, and the terminating NULL. The other entries are as before. When the
  entry held no path and the lists agree in length, no block is lost.\<close>

theorem pathentry_lookup_roundtrip:
  assumes "topo_wf s" "pathtable s = Some rows" "hoptable s = Some (tab, hs)"
    and "0 \<le> pe_src_node e" "pe_src_node e < nodecount s" "0 \<le> pe_dst_node e" "pe_dst_node e < nodecount s"
    and "0 \<le> pe_pathlen e" "alloc_ok s = []" "20 \<le> lenp"
    and "node_of s src = pe_src_node e" "node_of s dst = pe_dst_node e"
  shows "\<exists>s' a. proc_pathentry True (Some e) (Some hops) lenp ppos s = Some (0, lenp, ppos + lenp, s') \<and>
     topo_wf s' \<and> lookup_path s' src dst = Some (Some a) \<and>
     path_mem s' a = Some (map (\<lambda>i. Some (Hop_Ptr tab i)) hops @ [None]) \<and>
     path_mem s a = None \<and> (\<forall>b. b \<noteq> a \<longrightarrow> path_mem s' b = path_mem s b) \<and>
     (balanced s \<and> entry_at (pe_src_node e) (pe_dst_node e) s = Some None \<longrightarrow> balanced s')"
proof -
  have pw: "paths_wf s" using assms(1) by (simp add: topo_wf_def)
  obtain s0 where s0: "proc_pathentry True (Some e) (Some hops) lenp ppos s = Some (0, lenp, ppos + lenp, s0)"
    using proc_pathentry_served [OF pw assms(2-7) assms(10) assms(8,9)] by blast
  let ?c = "rows ! nat (pe_src_node e) ! nat (pe_dst_node e)"
  have s': "topo_wf s0" "nodetable s0 = nodetable s" "hoptable s0 = hoptable s"
    "entry_at (pe_src_node e) (pe_dst_node e) s0 = Some (Some (next_addr s))"
    "path_mem s0 = (path_mem s)(next_addr s \<mapsto> path_block tab hops)" "kmem s0 = kmem s + 1"
    "paths_owned s0 = paths_owned s + 1 - of_bool (?c \<noteq> None)"
    using proc_pathentry_spec [OF assms(1-7,10), of hops ppos] s0 by (auto simp: errno)
  have nodes: "node_of s0 src = pe_src_node e" "node_of s0 dst = pe_dst_node e"
    using s'(2) assms(11,12) by (simp_all add: node_of_def)
  have pt: "pathtable s0 \<noteq> None" using s'(4) by (cases "pathtable s0") (simp_all add: entry_at_def)
  have lk: "lookup_path s0 src dst = Some (Some (next_addr s))"
    using lookup_path_entry [OF pt] nodes s'(4) assms(4,6) by simp
  have "entry_at (pe_src_node e) (pe_dst_node e) s = Some ?c"
    using table_dims [OF pw assms(2,4-7)] assms(2,4,6) by (simp add: entry_at_def array_ops)
  moreover have "path_mem s (next_addr s) = None" using pw by (simp add: paths_wf_def)
  ultimately show ?thesis using s0 s' lk
    by (auto simp: path_block_def balanced_def hops_owned_def)
qed

definition ex_entry :: sysctl_pathentry where
  "ex_entry = \<lparr>pe_src_node = 1, pe_dst_node = 0, pe_pathlen = 2\<rparr>"

lemma ex_node_of [simp]:
  "node_of ex_topo (htonl 0x0a000001) = 0" "node_of ex_topo (htonl 0x0a000002) = 1"
  by (simp_all add: node_of_def NODEMASK_def ex_node_id)

theorem pathentry_lookup_roundtrip_witness:
  "\<exists>s' a. proc_pathentry True (Some ex_entry) (Some [0, 0]) 20 0 ex_topo = Some (0, 20, 0 + 20, s') \<and>
     topo_wf s' \<and> lookup_path s' (htonl 0x0a000002) (htonl 0x0a000001) = Some (Some a) \<and>
     path_mem s' a = Some (map (\<lambda>i. Some (Hop_Ptr 1 i)) [0, 0] @ [None]) \<and>
     path_mem ex_topo a = None \<and> (\<forall>b. b \<noteq> a \<longrightarrow> path_mem s' b = path_mem ex_topo b) \<and>
     (balanced ex_topo \<and> entry_at (pe_src_node ex_entry) (pe_dst_node ex_entry) ex_topo = Some None \<longrightarrow> balanced s')"
  by (rule pathentry_lookup_roundtrip [where rows = "[[None, Some 5], [None, None]]" and hs = "[ex_ring]"])
    (simp_all add: ex_topo_wf ex_entry_def)

text \<open>The range check of \<open>proc_pathentry\<close> is off by one and has no lower bound: an
  entry whose source or destination equals the node count passes it, and so does a negative one,
  and the handler then accesses the table outside its bounds.\<close>

theorem pathentry_bounds_unchecked:
  assumes "paths_wf s" "pathtable s = Some rows" "hoptable s = Some (tab, hs)"
    and "pe_src_node e = nodecount s \<or> pe_dst_node e = nodecount s \<or> pe_src_node e < 0 \<or> pe_dst_node e < 0"
    and "pe_src_node e \<le> nodecount s" "pe_dst_node e \<le> nodecount s"
    and "0 \<le> pe_pathlen e" "alloc_ok s = []" "20 \<le> lenp"
  shows "proc_pathentry True (Some e) (Some hops) lenp ppos s = None"
proof -
  have len: "int (length rows) = nodecount s" "\<forall>row \<in> set rows. int (length row) = nodecount s"
    using assms(1,2) by (simp_all add: paths_wf_def)
  have "set_entry (pe_src_node e) (pe_dst_node e) v (s\<lparr>kmem := k\<rparr>) = None" for v k
  proof (cases "aget rows (pe_src_node e)")
    case None
    then show ?thesis using assms(2) by (simp add: set_entry_def)
  next
    case (Some row)
    then have "int (length row) = nodecount s" using len(2) by (auto dest: aget_set)
    moreover have "pe_src_node e \<noteq> nodecount s" "\<not> pe_src_node e < 0"
      using Some len(1) by (auto simp: aget_def split: if_splits)
    ultimately have "aset row (pe_dst_node e) v = None"
      using assms(4) by (auto simp: aset_None_iff)
    then show ?thesis using Some assms(2) by (simp add: set_entry_def)
  qed
  then show ?thesis using assms(2,3,5-9) by (simp add: proc_pathentry_def kmalloc_served Let_def)
qed

theorem pathentry_bounds_unchecked_witness:
  "proc_pathentry True (Some (ex_entry\<lparr>pe_src_node := 2\<rparr>)) (Some [0, 0]) 20 0 ex_topo = None"
  by (rule pathentry_bounds_unchecked [where rows = "[[None, Some 5], [None, None]]" and hs = "[ex_ring]" and tab = 1])
    (use ex_topo_wf in \<open>simp_all add: ex_entry_def topo_wf_def\<close>)

text \<open>Writing an entry that already holds a path loses the old array: it is neither freed nor
  reachable from the table any more.\<close>

theorem pathentry_overwrite_leaks:
  assumes "topo_wf s" "balanced s" "pathtable s = Some rows" "hoptable s = Some (tab, hs)"
    and "0 \<le> pe_src_node e" "pe_src_node e < nodecount s" "0 \<le> pe_dst_node e" "pe_dst_node e < nodecount s"
    and "0 \<le> pe_pathlen e" "alloc_ok s = []" "20 \<le> lenp"
    and "entry_at (pe_src_node e) (pe_dst_node e) s = Some (Some a)"
  shows "\<exists>s'. proc_pathentry True (Some e) (Some hops) lenp ppos s = Some (0, lenp, ppos + lenp, s') \<and>
     kmem s' = paths_owned s' + hops_owned s' + 1 \<and>
     (\<forall>u. uninit_paths s' = Some u \<longrightarrow> kmem u = 1)"
proof -
  have pw: "paths_wf s" using assms(1) by (simp add: topo_wf_def)
  obtain s' where s': "proc_pathentry True (Some e) (Some hops) lenp ppos s = Some (0, lenp, ppos + lenp, s')"
    using proc_pathentry_served [OF pw assms(3-8,11,9,10)] by blast
  have "rows ! nat (pe_src_node e) ! nat (pe_dst_node e) = Some a"
    using assms(12) table_dims [OF pw assms(3,5-8)] assms(3,5,7) by (simp add: entry_at_def array_ops)
  then have 1: "topo_wf s'" "hoptable s' = hoptable s" "kmem s' = kmem s + 1" "paths_owned s' = paths_owned s"
    using proc_pathentry_spec [OF assms(1,3-8,11), of hops ppos] s' by (auto simp: errno)
  then have 2: "kmem s' = paths_owned s' + hops_owned s' + 1"
    using assms(2) by (simp add: balanced_def hops_owned_def)
  have "kmem u = 1" if "uninit_paths s' = Some u" for u
    using uninit_paths_spec [OF 1(1)] that 2 by auto
  then show ?thesis using s' 2 by blast
qed

theorem pathentry_overwrite_leaks_witness:
  "\<exists>s'. proc_pathentry True (Some \<lparr>pe_src_node = 0, pe_dst_node = 1, pe_pathlen = 1\<rparr>) (Some [0]) 20 0 ex_topo
       = Some (0, 20, 0 + 20, s') \<and>
     kmem s' = paths_owned s' + hops_owned s' + 1 \<and>
     (\<forall>u. uninit_paths s' = Some u \<longrightarrow> kmem u = 1)"
  by (rule pathentry_overwrite_leaks [where rows = "[[None, Some 5], [None, None]]" and hs = "[ex_ring]"
        and tab = 1 and a = 5])
    (simp_all add: ex_topo_wf ex_topo_balanced entry_at_def aget_def)

end
