(* ===== verification/Lx_Flow.thy ===== *)
theory Lx_Flow
  imports Lx_Core Lx_Tables
begin

text \<open>
  The packet path of the Linux module kept in order. \<open>lx_inv held s\<close> is the invariant: tables
  well formed, hops in service, every live packet either in \<open>held\<close> (the code is working on it) or
  at one place of the calendar, with a valid position in an allocated path and a socket buffer of its
  own. The lemmas show that one step of a packet keeps it, that every buffer stays accounted for
  (\<open>fate\<close>), and that the hops left to travel decrease, so the clock comes to an end.
\<close>

section \<open>The invariant\<close>

definition hops_ready :: "(lx_hop, 'z) topo_scheme \<Rightarrow> bool" where
  "hops_ready s \<longleftrightarrow> (\<forall>tab hs. hoptable s = Some (tab, hs) \<longrightarrow> (\<forall>h \<in> set hs. emulator h \<noteq> 0 \<or> hop_ready h))"

definition hop_ptr_ok :: "('h, 'z) topo_scheme \<Rightarrow> hop_ptr \<Rightarrow> bool" where
  "hop_ptr_ok s hp \<longleftrightarrow> deref_hop hp s \<noteq> None"

definition paths_valid :: "('h, 'z) topo_scheme \<Rightarrow> bool" where
  "paths_valid s \<longleftrightarrow> (\<forall>blk arr. path_mem s blk = Some arr \<longrightarrow>
     (\<exists>hps. arr = map Some hps @ [None] \<and> (\<forall>hp \<in> set hps. hop_ptr_ok s hp)))"

definition core_inv :: "lx \<Rightarrow> bool" where
  "core_inv s \<longleftrightarrow> topo_wf s \<and> nodes_ok s \<and> hops_ready s \<and> paths_valid s \<and> length (pktcount s) = 60 \<and>
     (\<exists>seed p. rng_at seed p (gen s))"

definition route_left :: "lx \<Rightarrow> lx_packet \<Rightarrow> nat" where
  "route_left s p = (case pk_path p of None \<Rightarrow> 0 | Some (blk, i) \<Rightarrow>
     (case path_mem s blk of None \<Rightarrow> 0 | Some arr \<Rightarrow> if 0 \<le> i then nat (int (length arr) - i) else 0))"

definition pkt_ok :: "lx \<Rightarrow> lx_packet \<Rightarrow> bool" where
  "pkt_ok s p \<longleftrightarrow> 0 < route_left s p \<and> (\<exists>k. pk_skb p = Some k \<and> skbs s k \<noteq> None) \<and>
     pk_cachehost p = 0 \<and> ri_id (pk_info p) = 0"

definition pkts_inv :: "nat list \<Rightarrow> lx \<Rightarrow> bool" where
  "pkts_inv held s \<longleftrightarrow>
     (\<exists>cal. packet_calendar s = Some cal \<and> length cal = 16384 \<and> distinct (held @ concat cal) \<and>
        (\<forall>a. pkt_mem s a \<noteq> None \<longleftrightarrow> a \<in> set (held @ concat cal))) \<and>
     (\<forall>a p. pkt_mem s a = Some p \<and> a \<notin> set held \<longrightarrow> pkt_ok s p) \<and>
     (\<forall>a b p q k. pkt_mem s a = Some p \<and> pkt_mem s b = Some q \<and> pk_skb p = Some k \<and> pk_skb q = Some k \<longrightarrow> a = b) \<and>
     (\<forall>a. pkt_mem s a \<noteq> None \<longrightarrow> rcv_finish s \<noteq> None)"

definition lx_inv :: "nat list \<Rightarrow> lx \<Rightarrow> bool" where
  "lx_inv held s \<longleftrightarrow> core_inv s \<and> pkts_inv held s \<and> (\<forall>a \<in> set held. \<forall>p. pkt_mem s a = Some p \<longrightarrow> pkt_ok s p)"

text \<open>Where a socket buffer is: with the module or its caller, handed on, or freed.\<close>

definition fate :: "lx \<Rightarrow> nat \<Rightarrow> nat" where
  "fate s k = count (mset (map snd (sent s))) k + count (mset (freed_skbs s)) k +
     (if skbs s k = None then 0 else 1)"

definition in_flight :: "lx \<Rightarrow> nat list" where
  "in_flight s = (case packet_calendar s of None \<Rightarrow> [] | Some cal \<Rightarrow> concat cal)"

definition left_of :: "lx \<Rightarrow> nat \<Rightarrow> nat" where
  "left_of s a = (case pkt_mem s a of None \<Rightarrow> 0 | Some p \<Rightarrow> route_left s p)"

definition load :: "lx \<Rightarrow> nat" where
  "load s = sum_list (map (left_of s) (in_flight s))"

text \<open>Blocks that are not accounted for by packets in the calendar.\<close>

definition base_mem :: "lx \<Rightarrow> int" where
  "base_mem s = kmem s - int (length (in_flight s))"

lemma core_inv_cong:
  assumes "pathtable s' = pathtable s" "nodecount s' = nodecount s" "path_mem s' = path_mem s"
    "next_addr s' = next_addr s" "hoptable s' = hoptable s" "hopcount s' = hopcount s"
    "nodetable s' = nodetable s" "length (pktcount s') = length (pktcount s)" "gen s' = gen s"
  shows "core_inv s' = core_inv s"
  unfolding core_inv_def topo_wf_def paths_wf_def hops_wf_def nodes_ok_def hops_ready_def
      paths_valid_def hop_ptr_ok_def deref_hop_def assms by (rule refl)

lemma route_left_cong: "path_mem s' = path_mem s \<Longrightarrow> route_left s' p = route_left s p"
  unfolding route_left_def by (simp cong: option.case_cong)

lemma left_of_cong:
  assumes "path_mem s' = path_mem s" "pkt_mem s' a = pkt_mem s a"
  shows "left_of s' a = left_of s a"
  unfolding left_of_def assms(2) by (cases "pkt_mem s a") (simp_all add: route_left_cong [OF assms(1)])

lemma deref_pkt: "deref_hop hp (s\<lparr>pkt_mem := m\<rparr> :: lx) = deref_hop hp s"
  by (simp add: deref_hop_def split: hop_ptr.split)

section \<open>Storing a hop\<close>

lemma deref_store:
  assumes "deref_hop hp s = Some h"
  obtains tab i hs where "hp = Hop_Ptr tab i" "hoptable s = Some (tab, hs)" "0 \<le> i" "i < int (length hs)"
    "h = hs ! nat i" "\<And>h'. store_hop hp h' s = Some (s\<lparr>hoptable := Some (tab, hs[nat i := h'])\<rparr>)"
proof -
  obtain tab i where hp: "hp = Hop_Ptr tab i" by (cases hp)
  obtain hs where hs: "hoptable s = Some (tab, hs)" "aget hs i = Some h"
    using assms hp by (auto simp: deref_hop_def split: Option.bind_splits if_splits)
  have i: "0 \<le> i" "i < int (length hs)" "h = hs ! nat i"
    using hs(2) by (auto simp: aget_def split: if_splits)
  show ?thesis using that hp hs(1) i by (simp add: store_hop_def array_ops)
qed

lemma core_inv_store:
  assumes inv: "core_inv s" and t: "hoptable s = Some (tab, hs)" and k: "k < length hs" and h: "hop_ready h'"
    and g: "\<exists>seed p. rng_at seed p g"
  shows "core_inv (s\<lparr>gen := g, hoptable := Some (tab, hs[k := h'])\<rparr>)"
proof -
  let ?s = "s\<lparr>gen := g, hoptable := Some (tab, hs[k := h'])\<rparr>"
  have "topo_wf ?s \<and> nodes_ok ?s" using inv t
    by (auto simp: core_inv_def topo_wf_def paths_wf_def hops_wf_def nodes_ok_def split: option.splits)
  moreover have "\<forall>h \<in> set hs. emulator h \<noteq> 0 \<or> hop_ready h"
    using inv t by (auto simp: core_inv_def hops_ready_def)
  then have "\<forall>h \<in> set (hs[k := h']). emulator h \<noteq> 0 \<or> hop_ready h"
    using h set_update_subset_insert [of hs k h'] by blast
  then have "hops_ready ?s" by (simp add: hops_ready_def)
  moreover have "hop_ptr_ok ?s hp = hop_ptr_ok s hp" for hp
    using t by (cases hp) (auto simp: hop_ptr_ok_def deref_hop_def aget_def)
  then have "paths_valid ?s" using inv by (auto simp: core_inv_def paths_valid_def)
  ultimately show ?thesis using inv g by (simp add: core_inv_def)
qed

lemma random_bits_total: "\<exists>seed p. rng_at seed p g \<Longrightarrow> \<exists>r g'. random_bits g = Some (r, g') \<and> (\<exists>seed p. rng_at seed p g')"
  using random_bits_at by blast

section \<open>One hop\<close>

lemma concat_update_snoc:
  "k < length cal \<Longrightarrow> mset (concat (cal[k := cal ! k @ [a]])) = mset (concat cal) + {#a#}"
  by (induction cal arbitrary: k) (auto simp: nth_Cons split: nat.splits)

lemma cal_add_spec:
  assumes "length cal = 16384"
  shows "\<exists>cal'. cal_add (t :: u64) a cal = Some cal' \<and> length cal' = 16384 \<and>
     mset (concat cal') = mset (concat cal) + {#a#}"
proof -
  let ?k = "nat (cal_slot t)"
  have "cal_add t a cal = Some (cal[?k := cal ! ?k @ [a]])"
    using assms cal_slot_bounds [of t] by (simp add: cal_add_def array_ops)
  then show ?thesis using concat_update_snoc [of ?k cal a] assms cal_slot_nat [of t] by simp
qed

text \<open>Crossing a hop that is emulated here: dropped, or back in the calendar. Either way only the
  generator, this hop, this packet and the calendar change.\<close>

definition same_world :: "lx \<Rightarrow> lx \<Rightarrow> bool" where
  "same_world s s' \<longleftrightarrow> pathtable s' = pathtable s \<and> nodecount s' = nodecount s \<and> path_mem s' = path_mem s \<and>
     nodetable s' = nodetable s \<and> jiffies s' = jiffies s \<and> calendar_tick s' = calendar_tick s \<and>
     rcv_finish s' = rcv_finish s \<and> modelnet_die s' = modelnet_die s \<and> hopcount s' = hopcount s \<and>
     next_addr s' = next_addr s"

lemma lx_emulate_hop_spec:
  assumes inv: "core_inv s" and p: "pkt_mem s a = Some p" and h: "deref_hop hp s = Some h" "emulator h = 0"
    and cal: "packet_calendar s = Some cal" "length cal = 16384"
  shows "\<exists>ret s'. lx_emulate_hop HZ a hp s = Some (ret, s') \<and> core_inv s' \<and> same_world s s' \<and>
     skbs s' = skbs s \<and> sent s' = sent s \<and> freed_skbs s' = freed_skbs s \<and> kmem s' = kmem s \<and>
     (\<exists>h'. deref_hop hp s' = Some h' \<and> emulator h' = 0) \<and>
     (ret = - ENOBUFS \<and> pkt_mem s' = pkt_mem s \<and> packet_calendar s' = Some cal \<or>
      ret = 0 \<and> pkt_mem s' = (pkt_mem s)(a \<mapsto> p\<lparr>pk_state := 3\<rparr>) \<and>
        (\<exists>cal'. packet_calendar s' = Some cal' \<and> length cal' = 16384 \<and>
           mset (concat cal') = mset (concat cal) + {#a#}))"
proof -
  obtain tab i hs where st: "hp = Hop_Ptr tab i" "hoptable s = Some (tab, hs)" "0 \<le> i" "i < int (length hs)"
    "h = hs ! nat i" "\<And>h'. store_hop hp h' s = Some (s\<lparr>hoptable := Some (tab, hs[nat i := h'])\<rparr>)"
    using deref_store [OF h(1)] by blast
  have "h \<in> set hs" using st by simp
  then have rdy: "hop_ready h" using inv st(2) h(2) by (auto simp: core_inv_def hops_ready_def)
  obtain r g where g: "random_bits (gen s) = Some (r, g)" "\<exists>seed p. rng_at seed p g"
    using random_bits_total inv unfolding core_inv_def by blast
  obtain v h' where v: "hop_section HZ r (calendar_tick s) (ri_len (pk_info p)) h = Some (v, h')"
    "hop_ready h'" "same_link h h'" using hop_section_spec [OF rdy refl refl] by blast
  have sth: "store_hop hp h' (s\<lparr>gen := g\<rparr>) = Some (s\<lparr>gen := g, hoptable := Some (tab, hs[nat i := h'])\<rparr>)"
    using st by (simp add: store_hop_def array_ops)
  have ci: "core_inv (s\<lparr>gen := g, hoptable := Some (tab, hs[nat i := h'])\<rparr>)"
    by (rule core_inv_store [OF inv st(2) _ v(2) g(2)]) (use st in auto)
  have e: "emulator h' = 0" using v(3) h(2) by (simp add: same_link_def)
  show ?thesis
  proof (cases v)
    case None
    then have "lx_emulate_hop HZ a hp s = Some (- ENOBUFS, s\<lparr>gen := g, hoptable := Some (tab, hs[nat i := h'])\<rparr>)"
      using g(1) p h(1) v(1) sth by (simp add: lx_emulate_hop_def)
    then show ?thesis using ci e st cal by (auto simp: same_world_def deref_hop_def array_ops)
  next
    case (Some tz)
    obtain t z where tz: "tz = (t, z)" by fastforce
    obtain cal' where cal': "cal_add t a cal = Some cal'" "length cal' = 16384"
      "mset (concat cal') = mset (concat cal) + {#a#}" using cal_add_spec [OF cal(2)] by blast
    let ?s' = "s\<lparr>gen := g, hoptable := Some (tab, hs[nat i := h']),
        delayzero := delayzero s + (if z then 1 else 0),
        pkt_mem := (pkt_mem s)(a \<mapsto> p\<lparr>pk_state := 3\<rparr>), packet_calendar := Some cal'\<rparr>"
    have "lx_emulate_hop HZ a hp s = Some (0, ?s')"
      using g(1) p h(1) v(1) sth Some tz cal cal' by (simp add: lx_emulate_hop_def Q_BW_def Q_DELAY_def)
    moreover have "core_inv ?s'" using ci by (subst core_inv_cong [of _ "s\<lparr>gen := g, hoptable := Some (tab, hs[nat i := h'])\<rparr>"]) simp_all
    ultimately show ?thesis using e st cal' by (auto simp: same_world_def deref_hop_def array_ops)
  qed
qed

section \<open>The packet in hand\<close>

lemma pkts_inv_cal:
  "pkts_inv held s \<Longrightarrow> \<exists>cal. packet_calendar s = Some cal \<and> length cal = 16384 \<and> in_flight s = concat cal \<and>
     distinct (held @ concat cal) \<and> (\<forall>a. pkt_mem s a \<noteq> None \<longleftrightarrow> a \<in> set (held @ concat cal))"
  by (auto simp: pkts_inv_def in_flight_def)

lemma pkts_inv_inj:
  "pkts_inv held s \<Longrightarrow> pkt_mem s a = Some p \<Longrightarrow> pkt_mem s b = Some q \<Longrightarrow> pk_skb p = Some k \<Longrightarrow>
   pk_skb q = Some k \<Longrightarrow> a = b"
  unfolding pkts_inv_def by blast

lemma pkt_ok_cong:
  assumes "path_mem s' = path_mem s" "\<And>k. pk_skb q = Some k \<Longrightarrow> skbs s' k = None \<longleftrightarrow> skbs s k = None"
  shows "pkt_ok s' q = pkt_ok s q"
  using assms route_left_cong [OF assms(1), of q] by (auto simp: pkt_ok_def)

text \<open>What is left of the invariant when the packet in hand, and its buffer only, are touched.\<close>

lemma others_ok:
  assumes inv: "pkts_inv [a] s" and p: "pkt_mem s a = Some p" and m: "path_mem s' = path_mem s"
    and k: "\<And>k. pk_skb p \<noteq> Some k \<Longrightarrow> skbs s' k = None \<longleftrightarrow> skbs s k = None"
    and q: "pkt_mem s b = Some q" "b \<noteq> a"
  shows "pkt_ok s' q"
proof -
  have "pkt_ok s q" using inv q by (auto simp: pkts_inv_def)
  moreover have "pk_skb p \<noteq> Some k" if "pk_skb q = Some k" for k
    using inv p q that unfolding pkts_inv_def by blast
  ultimately show ?thesis using pkt_ok_cong [OF m, of q] k by blast
qed

lemma pkts_inv_touch:
  assumes inv: "pkts_inv [a] s" and p: "pkt_mem s a = Some p" and m: "path_mem s' = path_mem s"
    and k: "\<And>k. pk_skb p \<noteq> Some k \<Longrightarrow> skbs s' k = None \<longleftrightarrow> skbs s k = None"
    and p': "pkt_mem s' = (pkt_mem s)(a \<mapsto> p')" "pk_skb p' = pk_skb p \<or> pk_skb p' = None"
    and c: "packet_calendar s' = packet_calendar s" "rcv_finish s' = rcv_finish s"
  shows "pkts_inv [a] s'"
proof -
  have 1: "\<forall>b q. pkt_mem s' b = Some q \<and> b \<notin> set [a] \<longrightarrow> pkt_ok s' q"
    using others_ok [OF inv p m k] p'(1) by auto
  have 2: "\<forall>b c q r k. pkt_mem s' b = Some q \<and> pkt_mem s' c = Some r \<and> pk_skb q = Some k \<and> pk_skb r = Some k \<longrightarrow> b = c"
  proof (intro allI impI)
    fix b c q r k
    assume h: "pkt_mem s' b = Some q \<and> pkt_mem s' c = Some r \<and> pk_skb q = Some k \<and> pk_skb r = Some k"
    have "\<exists>q'. pkt_mem s x = Some q' \<and> pk_skb q' = Some k" if "pkt_mem s' x = Some y" "pk_skb y = Some k" for x y
      using that p p' by (cases "x = a") auto
    from this [of b q] this [of c r] h obtain q' r' where "pkt_mem s b = Some q'" "pk_skb q' = Some k"
      "pkt_mem s c = Some r'" "pk_skb r' = Some k" by blast
    then show "b = c" using pkts_inv_inj [OF inv] by blast
  qed
  have 3: "pkt_mem s' b \<noteq> None \<longleftrightarrow> pkt_mem s b \<noteq> None" for b using p p'(1) by auto
  show ?thesis using inv 1 2 unfolding pkts_inv_def c 3 by blast
qed

lemma pkts_inv_drop:
  assumes inv: "pkts_inv [a] s" and p: "pkt_mem s a = Some p" and m: "path_mem s' = path_mem s"
    and k: "\<And>k. pk_skb p \<noteq> Some k \<Longrightarrow> skbs s' k = None \<longleftrightarrow> skbs s k = None"
    and p': "pkt_mem s' = (pkt_mem s)(a := None)"
    and c: "packet_calendar s' = packet_calendar s" "rcv_finish s' = rcv_finish s"
  shows "pkts_inv [] s'"
proof -
  have 1: "\<forall>b q. pkt_mem s' b = Some q \<and> b \<notin> set [] \<longrightarrow> pkt_ok s' q"
    using others_ok [OF inv p m k] p' by auto
  have 2: "\<forall>b c q r k. pkt_mem s' b = Some q \<and> pkt_mem s' c = Some r \<and> pk_skb q = Some k \<and> pk_skb r = Some k \<longrightarrow> b = c"
    using inv p' unfolding pkts_inv_def by (metis fun_upd_apply option.distinct(1))
  obtain cal where cal: "packet_calendar s = Some cal" "length cal = 16384" "distinct ([a] @ concat cal)"
    "\<forall>b. pkt_mem s b \<noteq> None \<longleftrightarrow> b \<in> set ([a] @ concat cal)" using inv pkts_inv_cal by blast
  have 3: "pkt_mem s' b \<noteq> None \<longleftrightarrow> b \<in> set ([] @ concat cal)" for b
    using cal(3,4) p' by (cases "b = a") auto
  have 4: "\<forall>b. pkt_mem s' b \<noteq> None \<longrightarrow> rcv_finish s' \<noteq> None"
    using inv p' c(2) by (auto simp: pkts_inv_def)
  have "distinct ([] @ concat cal)" using cal(3) by simp
  then show ?thesis using 1 2 3 4 cal(1,2) c(1) unfolding pkts_inv_def by auto
qed

lemma pkts_inv_queue:
  assumes inv: "pkts_inv [a] s" and p: "pkt_mem s a = Some p" and m: "path_mem s' = path_mem s"
    and k: "skbs s' = skbs s"
    and p': "pkt_mem s' = (pkt_mem s)(a \<mapsto> p')" "pk_skb p' = pk_skb p" "pkt_ok s' p'"
    and c: "packet_calendar s = Some cal" "packet_calendar s' = Some cal'" "length cal' = 16384"
      "mset (concat cal') = mset (concat cal) + {#a#}" "rcv_finish s' = rcv_finish s"
  shows "pkts_inv [] s'"
proof -
  have 1: "\<forall>b q. pkt_mem s' b = Some q \<and> b \<notin> set [] \<longrightarrow> pkt_ok s' q"
    using others_ok [OF inv p m] p' k by auto
  have 2: "\<forall>b c q r k. pkt_mem s' b = Some q \<and> pkt_mem s' c = Some r \<and> pk_skb q = Some k \<and> pk_skb r = Some k \<longrightarrow> b = c"
    using inv p p' unfolding pkts_inv_def by (metis fun_upd_apply option.inject)
  have 0: "distinct ([a] @ concat cal)" "\<forall>b. pkt_mem s b \<noteq> None \<longleftrightarrow> b \<in> set ([a] @ concat cal)"
    using inv c(1) by (auto simp: pkts_inv_def)
  have ms: "mset (concat cal') = mset ([a] @ concat cal)" using c(4) by simp
  have d: "distinct (concat cal')" using mset_eq_imp_distinct_iff [OF ms] 0(1) by simp
  have st: "set (concat cal') = set ([a] @ concat cal)" using mset_eq_setD [OF ms] .
  have 3: "pkt_mem s' b \<noteq> None \<longleftrightarrow> b \<in> set ([] @ concat cal')" for b
    using 0(2) p'(1) st by auto
  have 4: "\<forall>b. pkt_mem s' b \<noteq> None \<longrightarrow> rcv_finish s' \<noteq> None"
    using inv p p'(1) c(5) by (auto simp: pkts_inv_def)
  show ?thesis using 1 2 3 4 d c(2,3) unfolding pkts_inv_def by auto
qed

lemma load_other:
  assumes inv: "pkts_inv [a] s" and "path_mem s' = path_mem s" "packet_calendar s' = packet_calendar s"
    and "\<And>b. b \<noteq> a \<Longrightarrow> pkt_mem s' b = pkt_mem s b"
  shows "load s' = load s"
proof -
  obtain cal where "in_flight s = concat cal" "distinct ([a] @ concat cal)" using pkts_inv_cal [OF inv] by blast
  then have "b \<noteq> a" if "b \<in> set (in_flight s)" for b using that by auto
  then have e: "map (left_of s') (in_flight s) = map (left_of s) (in_flight s)"
    using assms(4) left_of_cong [OF assms(2)] by (intro map_cong) auto
  have f: "in_flight s' = in_flight s" using assms(3) by (simp add: in_flight_def)
  show ?thesis unfolding load_def f e by (rule refl)
qed

text \<open>Freeing it.\<close>

lemma mn_free_spec:
  assumes ci: "core_inv s" and inv: "pkts_inv [a] s" and p: "pkt_mem s a = Some p"
    and live: "\<And>k. pk_skb p = Some k \<Longrightarrow> skbs s k \<noteq> None"
  shows "\<exists>s'. mn_free_pkt a s = Some s' \<and> core_inv s' \<and> pkts_inv [] s' \<and> same_world s s' \<and>
     packet_calendar s' = packet_calendar s \<and> load s' = load s \<and> fate s' = fate s \<and> kmem s' = kmem s - 1 \<and>
     (\<forall>j. skbs s j = None \<or> pk_skb p = Some j \<longrightarrow> skbs s' j = None)"
proof -
  define s1 where "s1 = (case pk_skb p of None \<Rightarrow> s
    | Some k \<Rightarrow> s\<lparr>skbs := (skbs s)(k := None), freed_skbs := freed_skbs s @ [k]\<rparr>)"
  define s' where "s' = s1\<lparr>pkt_mem := (pkt_mem s1)(a := None), kmem := kmem s1 - 1, pkt_free := pkt_free s1 + 1\<rparr>"
  have run: "mn_free_pkt a s = Some s'"
    using p live by (auto simp: mn_free_pkt_def s'_def s1_def kfree_skb_def split: option.splits)
  have f: "pathtable s' = pathtable s" "nodecount s' = nodecount s" "path_mem s' = path_mem s"
    "next_addr s' = next_addr s" "hoptable s' = hoptable s" "hopcount s' = hopcount s"
    "nodetable s' = nodetable s" "pktcount s' = pktcount s" "gen s' = gen s"
    "packet_calendar s' = packet_calendar s" "rcv_finish s' = rcv_finish s"
    "pkt_mem s' = (pkt_mem s)(a := None)" "kmem s' = kmem s - 1" "jiffies s' = jiffies s"
    "calendar_tick s' = calendar_tick s" "modelnet_die s' = modelnet_die s" "sent s' = sent s"
    by (simp_all add: s'_def s1_def split: option.splits)
  have sk: "skbs s' k = (if pk_skb p = Some k then None else skbs s k)" for k
    by (simp add: s'_def s1_def split: option.splits)
  have fr: "freed_skbs s' = freed_skbs s @ (case pk_skb p of None \<Rightarrow> [] | Some k \<Rightarrow> [k])"
    by (simp add: s'_def s1_def split: option.splits)
  have "core_inv s' = core_inv s" by (rule core_inv_cong) (simp_all add: f)
  moreover have "pkts_inv [] s'" by (rule pkts_inv_drop [OF inv p]) (simp_all add: f sk)
  moreover have "fate s' k = fate s k" for k
    using live [of k] by (auto simp: fate_def f sk fr split: option.splits)
  moreover have "load s' = load s" by (rule load_other [OF inv]) (simp_all add: f)
  ultimately show ?thesis using run ci f sk by (auto simp: same_world_def fun_eq_iff)
qed

text \<open>Handing its buffer to the IP stack.\<close>

lemma forward_spec:
  assumes ci: "core_inv s" and inv: "pkts_inv [a] s" and p: "pkt_mem s a = Some p" "pk_skb p = Some k"
    and live: "skbs s k \<noteq> None" and HZ: "0 < HZ"
  shows "\<exists>f s'. rcv_finish s = Some f \<and> lx_forward_packet HZ a s = Some s' \<and> core_inv s' \<and> pkts_inv [a] s' \<and>
     same_world s s' \<and> packet_calendar s' = packet_calendar s \<and>
     pkt_mem s' = (pkt_mem s)(a \<mapsto> p\<lparr>pk_skb := None\<rparr>) \<and> load s' = load s \<and> fate s' = fate s \<and>
     kmem s' = kmem s \<and> sent s' = sent s @ [(f, k)] \<and> freed_skbs s' = freed_skbs s \<and> skbs s' k = None"
proof -
  obtain f where f: "rcv_finish s = Some f" using inv p unfolding pkts_inv_def by fastforce
  define i where "i = (uint (jiffies s) div HZ) mod 60"
  have i: "0 \<le> i" "i < 60" by (simp_all add: i_def)
  have len: "length (pktcount s) = 60" using ci by (simp add: core_inv_def)
  define s' where "s' = s\<lparr>skbs := (skbs s)(k := None), sent := sent s @ [(f, k)],
           pkt_mem := (pkt_mem s)(a \<mapsto> p\<lparr>pk_skb := None\<rparr>),
           pktcount := (pktcount s)[nat i := s32 (pktcount s ! nat i + 1)]\<rparr>"
  have nn: "0 \<le> uint (jiffies s) div HZ" using HZ by (simp add: pos_imp_zdiv_nonneg_iff)
  have "cdiv (uint (jiffies s)) HZ = Some (uint (jiffies s) div HZ)" using HZ by (simp add: cdiv_def sdiv_nonneg)
  moreover have "cmod (uint (jiffies s) div HZ) 60 = Some i" using nn by (simp add: array_ops i_def)
  ultimately have run: "lx_forward_packet HZ a s = Some s'"
    using p live f i len by (auto simp: lx_forward_packet_def s'_def array_ops)
  have "core_inv s' = core_inv s" by (rule core_inv_cong) (simp_all add: s'_def)
  moreover have "pkts_inv [a] s'" by (rule pkts_inv_touch [OF inv p(1)]) (auto simp: s'_def p)
  moreover have "load s' = load s" by (rule load_other [OF inv]) (simp_all add: s'_def)
  moreover have "fate s' j = fate s j" for j using live by (auto simp: fate_def s'_def)
  ultimately show ?thesis using run ci f by (auto simp: same_world_def fun_eq_iff s'_def)
qed

section \<open>One step of a packet\<close>

lemma path_cases:
  assumes ci: "core_inv s" and ok: "pkt_ok s p"
  obtains blk i arr where "pk_path p = Some (blk, i)" "path_mem s blk = Some arr" "0 \<le> i" "i < int (length arr)"
    "aget arr i = Some (arr ! nat i)" "arr ! nat i = None \<longleftrightarrow> i = int (length arr) - 1"
    "\<And>hp. arr ! nat i = Some hp \<Longrightarrow> hop_ptr_ok s hp"
proof -
  have "0 < route_left s p" using ok by (simp add: pkt_ok_def)
  then obtain blk i arr where path: "pk_path p = Some (blk, i)" "path_mem s blk = Some arr" "0 \<le> i" "i < int (length arr)"
    unfolding route_left_def by (cases "pk_path p") (auto split: option.splits if_splits)
  obtain hps where h: "arr = map Some hps @ [None]" "\<forall>hp \<in> set hps. hop_ptr_ok s hp"
    using ci path(2) unfolding core_inv_def paths_valid_def by blast
  have "arr ! nat i = (if i = int (length arr) - 1 then None else Some (hps ! nat i))"
    using path(3,4) h(1) by (auto simp: nth_append)
  moreover have "hps ! nat i \<in> set hps" if "i \<noteq> int (length arr) - 1"
    using path(3,4) h(1) that by auto
  ultimately have e: "arr ! nat i = None \<longleftrightarrow> i = int (length arr) - 1"
    and v: "\<And>hp. arr ! nat i = Some hp \<Longrightarrow> hop_ptr_ok s hp"
    using h(2) by (auto split: if_splits)
  have g: "aget arr i = Some (arr ! nat i)" using path by (simp add: array_ops)
  show ?thesis by (rule that [OF path g e v])
qed

lemma load_queue:
  assumes inv: "pkts_inv [a] s" and m: "path_mem s' = path_mem s" and p': "pkt_mem s' = (pkt_mem s)(a \<mapsto> p')"
    and c: "packet_calendar s = Some cal" "packet_calendar s' = Some cal'"
      "mset (concat cal') = mset (concat cal) + {#a#}"
  shows "load s' = load s + route_left s p'"
proof -
  have a: "a \<notin> set (concat cal)" using inv c(1) by (auto simp: pkts_inv_def)
  have la: "left_of s' a = route_left s p'" using p' by (simp add: left_of_def route_left_cong [OF m])
  have "load s' = sum_mset (image_mset (left_of s') (mset (concat cal')))"
    using c(2) by (simp add: load_def in_flight_def sum_mset_sum_list [symmetric] del: mset_concat mset_map) (metis mset_map)
  also have "\<dots> = sum_mset (image_mset (left_of s') (mset (concat cal))) + route_left s p'"
    unfolding c(3) using la by simp
  also have "sum_mset (image_mset (left_of s') (mset (concat cal))) = sum_list (map (left_of s') (concat cal))"
    by (metis mset_map sum_mset_sum_list)
  also have "map (left_of s') (concat cal) = map (left_of s) (concat cal)"
    using a p' by (intro map_cong left_of_cong [OF m]) auto
  finally show ?thesis using c(1) by (simp add: load_def in_flight_def)
qed

text \<open>\<open>emulate_nexthop\<close> on the packet in hand: it comes to an end, keeps the invariant, keeps
  every buffer accounted for, and shortens the way that is left.\<close>

lemma lx_emulate_nexthop_spec:
  assumes inv: "lx_inv [a] s" and p: "pkt_mem s a = Some p" and HZ: "0 < HZ"
  shows "\<exists>s'. lx_emulate_nexthop HZ a s = Some s' \<and> lx_inv [] s' \<and> same_world s s' \<and> fate s' = fate s \<and>
     load s' < load s + route_left s p \<and> base_mem s' = base_mem s - 1 \<and>
     (\<forall>k. pk_skb p = Some k \<longrightarrow> skbs s' k = None \<or> (\<exists>q. pkt_mem s' a = Some q \<and> pk_skb q = Some k))"
proof -
  have ci: "core_inv s" and pi: "pkts_inv [a] s" and ok: "pkt_ok s p" using inv p by (auto simp: lx_inv_def)
  obtain blk i arr where path: "pk_path p = Some (blk, i)" "path_mem s blk = Some arr" "0 \<le> i" "i < int (length arr)"
    "aget arr i = Some (arr ! nat i)" "arr ! nat i = None \<longleftrightarrow> i = int (length arr) - 1"
    "\<And>hp. arr ! nat i = Some hp \<Longrightarrow> hop_ptr_ok s hp" using path_cases [OF ci ok] by blast
  obtain k where k: "pk_skb p = Some k" "skbs s k \<noteq> None" using ok by (auto simp: pkt_ok_def)
  obtain cal where cal: "packet_calendar s = Some cal" "length cal = 16384" using pkts_inv_cal [OF pi] by blast
  have rl: "0 < route_left s p" using ok by (simp add: pkt_ok_def)
  show ?thesis
  proof (cases "arr ! nat i")
    case None
    obtain f s1 where s1: "lx_forward_packet HZ a s = Some s1" "core_inv s1" "pkts_inv [a] s1" "same_world s s1"
      "packet_calendar s1 = packet_calendar s" "pkt_mem s1 = (pkt_mem s)(a \<mapsto> p\<lparr>pk_skb := None\<rparr>)"
      "load s1 = load s" "fate s1 = fate s" "kmem s1 = kmem s" "skbs s1 k = None"
      using forward_spec [OF ci pi p k HZ] by blast
    have p1: "pkt_mem s1 a = Some (p\<lparr>pk_skb := None\<rparr>)" using s1(6) by simp
    obtain s2 where s2: "mn_free_pkt a s1 = Some s2" "core_inv s2" "pkts_inv [] s2" "same_world s1 s2"
      "packet_calendar s2 = packet_calendar s1" "load s2 = load s1" "fate s2 = fate s1" "kmem s2 = kmem s1 - 1" "skbs s2 k = None"
      using mn_free_spec [OF s1(2,3) p1] s1(10) by auto
    have "lx_emulate_nexthop HZ a s = Some s2"
      using p path(1,2,5) None s1(1) s2(1) by (simp add: lx_emulate_nexthop_def)
    then show ?thesis using s1 s2 rl k by (auto simp: lx_inv_def same_world_def base_mem_def in_flight_def)
  next
    case (Some hp)
    obtain h where h: "deref_hop hp s = Some h" using path(7) [OF Some] by (auto simp: hop_ptr_ok_def)
    define adv :: "lx_packet \<Rightarrow> lx_packet" where "adv = (\<lambda>q. q\<lparr>pk_path := map_option (apsnd (\<lambda>j. j + 1)) (pk_path q),
             pk_info := (pk_info q)\<lparr>ri_hop := ri_hop (pk_info q) + 1\<rparr>\<rparr>)"
    have adv: "pk_skb (adv q) = pk_skb q" "pk_cachehost (adv q) = pk_cachehost q"
      "ri_id (pk_info (adv q)) = ri_id (pk_info q)" for q by (simp_all add: adv_def)
    have home: "pk_cachehost p = 0" "ri_id (pk_info p) = 0" using ok by (simp_all add: pkt_ok_def)
    have run: "lx_emulate_nexthop HZ a s = do {
         (ret, s1) \<leftarrow> (if emulator h \<noteq> 0 then Some (- 1, s) else lx_emulate_hop HZ a hp s);
         s2 \<leftarrow> upd_pkt a adv s1;
         q \<leftarrow> pkt_mem s2 a;
         h2 \<leftarrow> deref_hop hp s2;
         if \<not> (MC_PKT_HOME q \<and> MC_PKT_PCACHED q) \<and> emulator h2 \<noteq> 0 then mn_free_pkt a s2
         else if ret = - ENOBUFS then mn_free_pkt a s2 else Some s2 }"
      using p path(1,2,5) Some h by (simp add: lx_emulate_nexthop_def adv_def lx_remote_hop_def)
    \<comment> \<open>dropped: the remote case and a refusal of the hop\<close>
    have dropped: ?thesis
      if r: "lx_emulate_nexthop HZ a s = mn_free_pkt a (s1\<lparr>pkt_mem := (pkt_mem s)(a \<mapsto> adv p)\<rparr>)"
        and c: "core_inv s1" and w: "same_world s s1" "skbs s1 = skbs s" "sent s1 = sent s"
          "freed_skbs s1 = freed_skbs s" "kmem s1 = kmem s" "packet_calendar s1 = packet_calendar s" for s1
    proof -
      let ?s2 = "s1\<lparr>pkt_mem := (pkt_mem s)(a \<mapsto> adv p)\<rparr>"
      have m: "path_mem ?s2 = path_mem s" using w(1) by (simp add: same_world_def)
      have 1: "core_inv ?s2" using c by (subst core_inv_cong [of _ s1]) simp_all
      have 2: "pkts_inv [a] ?s2"
        by (rule pkts_inv_touch [OF pi p m]) (use w adv in \<open>auto simp: same_world_def\<close>)
      have 3: "pkt_mem ?s2 a = Some (adv p)" by simp
      obtain s' where s': "mn_free_pkt a ?s2 = Some s'" "core_inv s'" "pkts_inv [] s'" "same_world ?s2 s'"
        "packet_calendar s' = packet_calendar ?s2" "load s' = load ?s2" "fate s' = fate ?s2" "kmem s' = kmem ?s2 - 1" "skbs s' k = None"
        using mn_free_spec [OF 1 2 3] w(2) k adv by auto
      have "load ?s2 = load s" by (rule load_other [OF pi m]) (simp_all add: w)
      moreover have "fate ?s2 = fate s" using w by (simp add: fate_def fun_eq_iff)
      ultimately show ?thesis using r s' w rl k
        by (auto simp: lx_inv_def same_world_def base_mem_def in_flight_def)
    qed
    show ?thesis
    proof (cases "emulator h = 0")
      case False
      then have "lx_emulate_nexthop HZ a s = mn_free_pkt a (s\<lparr>pkt_mem := (pkt_mem s)(a \<mapsto> adv p)\<rparr>)"
        using run h p home adv deref_pkt [of hp _ s] by (simp add: upd_pkt_def MC_PKT_PCACHED_def)
      then show ?thesis by (rule dropped) (simp_all add: ci same_world_def)
    next
      case True
      obtain ret s1 where e: "lx_emulate_hop HZ a hp s = Some (ret, s1)" "core_inv s1" "same_world s s1"
        "skbs s1 = skbs s" "sent s1 = sent s" "freed_skbs s1 = freed_skbs s" "kmem s1 = kmem s"
        "\<exists>h'. deref_hop hp s1 = Some h' \<and> emulator h' = 0"
        "ret = - ENOBUFS \<and> pkt_mem s1 = pkt_mem s \<and> packet_calendar s1 = Some cal \<or>
         ret = 0 \<and> pkt_mem s1 = (pkt_mem s)(a \<mapsto> p\<lparr>pk_state := 3\<rparr>) \<and>
           (\<exists>cal'. packet_calendar s1 = Some cal' \<and> length cal' = 16384 \<and>
              mset (concat cal') = mset (concat cal) + {#a#})"
        using lx_emulate_hop_spec [OF ci p h True cal, of HZ] by blast
      obtain h' where h': "deref_hop hp s1 = Some h'" "emulator h' = 0" using e(8) by blast
      have dr: "deref_hop hp (s1\<lparr>pkt_mem := m\<rparr>) = Some h'" for m
        using h' by (simp add: deref_pkt)
      from e(9) show ?thesis
      proof
        assume d: "ret = - ENOBUFS \<and> pkt_mem s1 = pkt_mem s \<and> packet_calendar s1 = Some cal"
        have "lx_emulate_nexthop HZ a s = mn_free_pkt a (s1\<lparr>pkt_mem := (pkt_mem s)(a \<mapsto> adv p)\<rparr>)"
          using run True e(1) d p dr h' by (simp add: upd_pkt_def)
        then show ?thesis by (rule dropped) (use e d cal in simp_all)
      next
        assume q: "ret = 0 \<and> pkt_mem s1 = (pkt_mem s)(a \<mapsto> p\<lparr>pk_state := 3\<rparr>) \<and>
           (\<exists>cal'. packet_calendar s1 = Some cal' \<and> length cal' = 16384 \<and>
              mset (concat cal') = mset (concat cal) + {#a#})"
        then obtain cal' where c': "packet_calendar s1 = Some cal'" "length cal' = 16384"
          "mset (concat cal') = mset (concat cal) + {#a#}" by blast
        let ?p' = "adv (p\<lparr>pk_state := 3\<rparr>)"
        let ?s' = "s1\<lparr>pkt_mem := (pkt_mem s)(a \<mapsto> ?p')\<rparr>"
        have r: "lx_emulate_nexthop HZ a s = Some ?s'"
          using run True e(1) q dr h' by (simp add: upd_pkt_def errno)
        have m: "path_mem ?s' = path_mem s" using e(3) by (simp add: same_world_def)
        have left: "route_left s ?p' + 1 = route_left s p"
          using path(1-4) by (simp add: route_left_def adv_def)
        have "i \<noteq> int (length arr) - 1" using path(6) Some by auto
        then have pos: "0 < route_left s ?p'" using path(1-4) by (simp add: route_left_def adv_def)
        have ok': "pkt_ok ?s' ?p'"
          using pos k e(4) home by (simp add: pkt_ok_def route_left_cong [OF m] adv)
        have "pkts_inv [] ?s'"
          by (rule pkts_inv_queue [OF pi p m _ _ _ ok' cal(1) _ c'(2,3)])
            (use e c' adv in \<open>simp_all add: same_world_def\<close>)
        moreover have "core_inv ?s'" using e(2) by (subst core_inv_cong [of _ s1]) simp_all
        moreover have "load ?s' = load s + route_left s ?p'"
          by (rule load_queue [OF pi m _ cal(1) _ c'(3)]) (simp_all add: c')
        moreover have "fate ?s' = fate s" using e by (simp add: fate_def fun_eq_iff)
        moreover have "length (concat cal') = length (concat cal) + 1"
          using arg_cong [OF c'(3), of size] by (simp del: mset_concat)
        ultimately show ?thesis using r left e c' cal adv
          by (auto simp: lx_inv_def same_world_def base_mem_def in_flight_def)
      qed
    qed
  qed
qed

section \<open>The clock\<close>

text \<open>Taking the first packet of a slot puts it in hand.\<close>

lemma cal_take_Some:
  assumes "length cal = 16384" "cal ! nat (cal_slot (t :: u64)) = a # r"
  shows "cal_take t cal = Some (Some a, cal[nat (cal_slot t) := r])"
  using assms cal_slot_bounds [of t] by (simp add: cal_take_def array_ops)

lemma cal_take_None:
  assumes "length cal = 16384" "cal ! nat (cal_slot (t :: u64)) = []"
  shows "cal_take t cal = Some (None, cal)"
  using assms cal_slot_bounds [of t] by (simp add: cal_take_def array_ops)

lemma concat_update_tl:
  "k < length cal \<Longrightarrow> cal ! k = a # r \<Longrightarrow> mset (concat cal) = mset (concat (cal[k := r])) + {#a#}"
  by (induction cal arbitrary: k) (auto simp: nth_Cons split: nat.splits)

lemma in_hand:
  assumes inv: "lx_inv [] s" and cal: "packet_calendar s = Some cal" and e: "cal ! nat (cal_slot (calendar_tick s)) = a # r"
  defines "s1 \<equiv> s\<lparr>packet_calendar := Some (cal[nat (cal_slot (calendar_tick s)) := r]), pkts_queued := pkts_queued s - 1\<rparr>"
  shows "\<exists>p. pkt_mem s1 a = Some p \<and> lx_inv [a] s1 \<and> load s = load s1 + route_left s1 p \<and> base_mem s1 = base_mem s + 1"
proof -
  let ?k = "nat (cal_slot (calendar_tick s))" and ?cal' = "cal[nat (cal_slot (calendar_tick s)) := r]"
  have ci: "core_inv s" and pi: "pkts_inv [] s" using inv by (simp_all add: lx_inv_def)
  have c: "length cal = 16384" "distinct (concat cal)" "\<forall>b. pkt_mem s b \<noteq> None \<longleftrightarrow> b \<in> set (concat cal)"
    using pkts_inv_cal [OF pi] cal by auto
  have ms: "mset (concat cal) = mset (a # concat ?cal')"
    using concat_update_tl [of ?k cal a r] e c(1) cal_slot_nat [of "calendar_tick s"] by simp
  have d: "distinct (a # concat ?cal')" using mset_eq_imp_distinct_iff [OF ms] c(2) by blast
  have st: "set (concat cal) = set (a # concat ?cal')" by (rule mset_eq_setD [OF ms])
  have "a \<in> set (concat cal)" unfolding st by simp
  then have "pkt_mem s a \<noteq> None" using c(3) by blast
  then obtain p where p: "pkt_mem s a = Some p" by blast
  have m: "path_mem s1 = path_mem s" by (simp add: s1_def)
  have okc: "pkt_ok s1 q = pkt_ok s q" for q by (rule pkt_ok_cong) (simp_all add: s1_def)
  have oks: "\<forall>b q. pkt_mem s b = Some q \<longrightarrow> pkt_ok s q" using pi by (simp add: pkts_inv_def)
  have "core_inv s1 = core_inv s" by (rule core_inv_cong) (simp_all add: s1_def)
  moreover have "pkts_inv [a] s1"
  proof -
    have "packet_calendar s1 = Some ?cal' \<and> length ?cal' = 16384" using c(1) by (simp add: s1_def)
    moreover have "distinct ([a] @ concat ?cal')" using d by simp
    moreover have "\<forall>b. pkt_mem s1 b \<noteq> None \<longleftrightarrow> b \<in> set ([a] @ concat ?cal')"
      using c(3) unfolding st by (simp add: s1_def)
    moreover have "\<forall>b q. pkt_mem s1 b = Some q \<and> b \<notin> set [a] \<longrightarrow> pkt_ok s1 q"
      using oks unfolding okc by (auto simp: s1_def)
    moreover have "\<forall>b c p q k. pkt_mem s1 b = Some p \<and> pkt_mem s1 c = Some q \<and> pk_skb p = Some k \<and>
        pk_skb q = Some k \<longrightarrow> b = c"
      using pkts_inv_inj [OF pi] by (auto simp: s1_def)
    moreover have "\<forall>b. pkt_mem s1 b \<noteq> None \<longrightarrow> rcv_finish s1 \<noteq> None"
      using pi by (simp add: pkts_inv_def s1_def)
    ultimately show ?thesis unfolding pkts_inv_def by blast
  qed
  ultimately have i1: "lx_inv [a] s1" using ci oks okc p by (simp add: lx_inv_def s1_def)
  have "load s = sum_mset (image_mset (left_of s) (mset (concat cal)))"
    using cal by (simp add: load_def in_flight_def sum_mset_sum_list [symmetric] del: mset_concat mset_map) (metis mset_map)
  also have "\<dots> = left_of s a + sum_list (map (left_of s) (concat ?cal'))"
    unfolding ms by (simp only: mset.simps image_mset_add_mset sum_mset.add_mset) (metis mset_map sum_mset_sum_list)
  also have "map (left_of s) (concat ?cal') = map (left_of s1) (in_flight s1)"
    using left_of_cong [OF m] by (auto simp: in_flight_def s1_def)
  also have "left_of s a = route_left s1 p" using p by (simp add: left_of_def route_left_cong [OF m])
  finally have l: "load s = load s1 + route_left s1 p" by (simp add: load_def)
  have "length (concat cal) = Suc (length (concat ?cal'))" using arg_cong [OF ms, of size] by (simp del: mset_concat)
  then have "base_mem s1 = base_mem s + 1" using cal by (simp add: base_mem_def in_flight_def s1_def)
  then show ?thesis using p i1 l by (auto simp: s1_def)
qed

lemma same_world_refl [simp]: "same_world s s"
  by (simp add: same_world_def)

lemma same_world_trans: "same_world s s1 \<Longrightarrow> same_world s1 s2 \<Longrightarrow> same_world s s2"
  by (simp add: same_world_def)

lemma lx_drain_spec:
  assumes HZ: "0 < HZ"
  shows "lx_inv [] s \<Longrightarrow> \<exists>s' cal. lx_drain HZ s = Some s' \<and> lx_inv [] s' \<and> same_world s s' \<and> fate s' = fate s \<and>
     base_mem s' = base_mem s \<and> load s' \<le> load s \<and>
     packet_calendar s' = Some cal \<and> cal ! nat (cal_slot (calendar_tick s)) = []"
proof (induction "load s" arbitrary: s rule: less_induct)
  case less
  have pi: "pkts_inv [] s" using less.prems by (simp add: lx_inv_def)
  obtain cal where cal: "packet_calendar s = Some cal" "length cal = 16384" using pkts_inv_cal [OF pi] by blast
  show ?case
  proof (cases "cal ! nat (cal_slot (calendar_tick s))")
    case Nil
    then have "lx_drain HZ s = Some s"
      using cal cal_take_None [OF cal(2)] by (subst lx_drain.simps) simp
    then show ?thesis using less.prems cal Nil by auto
  next
    case (Cons a r)
    let ?s1 = "s\<lparr>packet_calendar := Some (cal[nat (cal_slot (calendar_tick s)) := r]), pkts_queued := pkts_queued s - 1\<rparr>"
    obtain p where p: "pkt_mem ?s1 a = Some p" "lx_inv [a] ?s1" "load s = load ?s1 + route_left ?s1 p"
      "base_mem ?s1 = base_mem s + 1" using in_hand [OF less.prems cal(1) Cons] by blast
    obtain s2 where s2: "lx_emulate_nexthop HZ a ?s1 = Some s2" "lx_inv [] s2" "same_world ?s1 s2"
      "fate s2 = fate ?s1" "load s2 < load ?s1 + route_left ?s1 p" "base_mem s2 = base_mem ?s1 - 1"
      using lx_emulate_nexthop_spec [OF p(2,1) HZ] by blast
    have "load s2 < load s" using s2(5) p(3) by simp
    then obtain s' cal' where s': "lx_drain HZ s2 = Some s'" "lx_inv [] s'" "same_world s2 s'" "fate s' = fate s2"
      "base_mem s' = base_mem s2" "load s' \<le> load s2" "packet_calendar s' = Some cal'"
      "cal' ! nat (cal_slot (calendar_tick s2)) = []" using less.hyps [OF _ s2(2)] by blast
    have "lx_drain HZ s = Some s'"
      using cal cal_take_Some [OF cal(2) Cons] s2(1) s'(1) by (subst lx_drain.simps) simp
    moreover have "same_world s ?s1" by (simp add: same_world_def)
    then have "same_world s s'" using same_world_trans [OF _ same_world_trans [OF s2(3) s'(3)]] by blast
    moreover have "fate s' = fate s" unfolding s'(4) s2(4) by (simp add: fate_def fun_eq_iff)
    moreover have "base_mem s' = base_mem s" using s'(5) s2(6) p(4) by simp
    moreover have "load s' \<le> load s" using s'(6) \<open>load s2 < load s\<close> by simp
    moreover have "cal' ! nat (cal_slot (calendar_tick s)) = []"
      using s'(8) s2(3) by (simp add: same_world_def)
    ultimately show ?thesis using s'(2,7) by blast
  qed
qed

lemma behind_succ:
  fixes t j :: "u64"
  assumes "sint (t - j) < 0"
  shows "sint (t + 1 - j) = sint (t - j) + 1"
proof -
  let ?d = "t - j"
  have r: "- (2 ^ 63) \<le> sint ?d" using sint_greater_eq [of ?d] by simp
  have "sint (?d + 1) = signed_take_bit 63 (sint ?d + 1)" by (simp add: sint_word_ariths)
  also have "\<dots> = sint ?d + 1" by (rule signed_take_bit_int_eq_self) (use r assms in auto)
  finally show ?thesis by (simp add: algebra_simps)
qed

definition clock_frame :: "lx \<Rightarrow> lx \<Rightarrow> bool" where
  "clock_frame s s' \<longleftrightarrow> fate s' = fate s \<and> base_mem s' = base_mem s \<and> jiffies s' = jiffies s \<and>
     modelnet_die s' = modelnet_die s \<and> rcv_finish s' = rcv_finish s \<and> path_mem s' = path_mem s"

lemma lx_ticks_spec:
  assumes HZ: "0 < HZ"
  shows "lx_inv [] s \<Longrightarrow> \<exists>s'. lx_ticks HZ s = Some s' \<and> lx_inv [] s' \<and> clock_frame s s' \<and>
     calendar_tick s' = (if sint (calendar_tick s - jiffies s) < 0 then jiffies s else calendar_tick s)"
proof (induction "nat (- sint (calendar_tick s - jiffies s))" arbitrary: s rule: less_induct)
  case less
  show ?case
  proof (cases "sint (calendar_tick s - jiffies s) < 0")
    case False
    then have "lx_ticks HZ s = Some s" by (subst lx_ticks.simps) (simp add: time_is_before_jiffies_def)
    then show ?thesis using less.prems False by (simp add: clock_frame_def)
  next
    case True
    obtain s1 where s1: "lx_drain HZ s = Some s1" "lx_inv [] s1" "same_world s s1" "fate s1 = fate s"
      "base_mem s1 = base_mem s" using lx_drain_spec [OF HZ less.prems] by blast
    have sw: "calendar_tick s1 = calendar_tick s" "jiffies s1 = jiffies s" using s1(3) by (simp_all add: same_world_def)
    let ?s2 = "s1\<lparr>calendar_tick := calendar_tick s1 + 1\<rparr>"
    note d = behind_succ [OF True]
    have "core_inv ?s2 = core_inv s1" by (rule core_inv_cong) simp_all
    moreover have okc: "pkt_ok ?s2 q = pkt_ok s1 q" for q by (rule pkt_ok_cong) simp_all
    ultimately have i2: "lx_inv [] ?s2" using s1(2) by (simp add: lx_inv_def pkts_inv_def okc)
    have m: "nat (- sint (calendar_tick ?s2 - jiffies ?s2)) < nat (- sint (calendar_tick s - jiffies s))"
      using d True sw by (simp add: nat_less_iff)
    obtain s' where s': "lx_ticks HZ ?s2 = Some s'" "lx_inv [] s'" "clock_frame ?s2 s'"
      "calendar_tick s' = (if sint (calendar_tick ?s2 - jiffies ?s2) < 0 then jiffies ?s2 else calendar_tick ?s2)"
      using less.hyps [OF m i2] by blast
    have run: "lx_ticks HZ s = Some s'"
      using True s1(1) s'(1) by (subst lx_ticks.simps) (simp add: time_is_before_jiffies_def)
    have "clock_frame s1 ?s2" by (simp add: clock_frame_def fate_def base_mem_def in_flight_def fun_eq_iff)
    then have fr: "clock_frame s s'" using s'(3) s1(3-5) by (simp add: clock_frame_def same_world_def)
    have "calendar_tick s' = jiffies s"
    proof (cases "sint (calendar_tick s + 1 - jiffies s) < 0")
      case False
      then have "sint (calendar_tick s + 1 - jiffies s) = 0" using d True by linarith
      then have "calendar_tick s + 1 - jiffies s = 0" by (metis sint_0 signed_word_eqI)
      then show ?thesis using s'(4) sw False by simp
    qed (use s'(4) sw in simp)
    then show ?thesis using run s'(2) fr True by auto
  qed
qed

section \<open>The hook\<close>

text \<open>A fresh packet for a buffer that no packet holds.\<close>

lemma new_in_hand:
  assumes inv: "lx_inv [] s" and a: "pkt_mem s a = None" and k: "skbs s k \<noteq> None"
    and free: "\<forall>b q. pkt_mem s b = Some q \<longrightarrow> pk_skb q \<noteq> Some k"
    and s1: "path_mem s1 = path_mem s" "packet_calendar s1 = packet_calendar s" "rcv_finish s1 \<noteq> None"
      "\<And>j. skbs s1 j = None \<longleftrightarrow> skbs s j = None" "pkt_mem s1 = (pkt_mem s)(a \<mapsto> p)" "pk_skb p = Some k"
  shows "pkts_inv [a] s1 \<and> load s1 = load s \<and> a \<notin> set (in_flight s)"
proof -
  have pi: "pkts_inv [] s" using inv by (simp add: lx_inv_def)
  obtain cal where cal: "packet_calendar s = Some cal" "length cal = 16384" "in_flight s = concat cal"
    "distinct (concat cal)" "\<forall>b. pkt_mem s b \<noteq> None \<longleftrightarrow> b \<in> set (concat cal)" using pkts_inv_cal [OF pi] by auto
  have na: "a \<notin> set (concat cal)" using cal(5) a by blast
  have okc: "pkt_ok s1 q = pkt_ok s q" for q by (rule pkt_ok_cong) (simp_all add: s1)
  have "distinct ([a] @ concat cal)" using cal(4) na by simp
  moreover have "\<forall>b. pkt_mem s1 b \<noteq> None \<longleftrightarrow> b \<in> set ([a] @ concat cal)"
    using cal(5) s1(5) by (metis append_Cons append_Nil fun_upd_apply option.distinct(1) set_ConsD list.set_intros)
  moreover have "\<forall>b q. pkt_mem s1 b = Some q \<and> b \<notin> set [a] \<longrightarrow> pkt_ok s1 q"
    using pi unfolding okc by (auto simp: pkts_inv_def s1(5))
  moreover have "\<forall>b c q r j. pkt_mem s1 b = Some q \<and> pkt_mem s1 c = Some r \<and> pk_skb q = Some j \<and> pk_skb r = Some j \<longrightarrow> b = c"
  proof (intro allI impI)
    fix b c q r j
    assume h: "pkt_mem s1 b = Some q \<and> pkt_mem s1 c = Some r \<and> pk_skb q = Some j \<and> pk_skb r = Some j"
    show "b = c"
    proof (cases "b = a \<or> c = a")
      case True
      then show ?thesis using h s1(5,6) free by (metis fun_upd_apply option.inject)
    next
      case False
      then show ?thesis using h s1(5) pkts_inv_inj [OF pi, of b q c r j] by simp
    qed
  qed
  moreover have "\<forall>b. pkt_mem s1 b \<noteq> None \<longrightarrow> rcv_finish s1 \<noteq> None" using s1(3) by simp
  ultimately have 1: "pkts_inv [a] s1" unfolding pkts_inv_def using s1(2) cal(1,2) by auto
  have e: "map (left_of s1) (in_flight s) = map (left_of s) (in_flight s)"
  proof (rule map_cong [OF refl])
    fix b assume "b \<in> set (in_flight s)"
    then have "pkt_mem s1 b = pkt_mem s b" using na s1(5) unfolding cal(3) by auto
    then show "left_of s1 b = left_of s b" by (rule left_of_cong [OF s1(1)])
  qed
  have f: "in_flight s1 = in_flight s" using s1(2) by (simp add: in_flight_def)
  have "load s1 = load s" unfolding load_def f e by (rule refl)
  then show ?thesis using 1 na cal(3) by simp
qed

lemma path_start:
  assumes "core_inv s" "path_mem s blk \<noteq> None"
  shows "0 < route_left s (q\<lparr>pk_path := Some (blk, 0), pk_info := i\<rparr>)"
proof -
  obtain arr where arr: "path_mem s blk = Some arr" using assms(2) by blast
  then have "arr \<noteq> []" using assms(1) unfolding core_inv_def paths_valid_def by fastforce
  then show ?thesis using arr by (simp add: route_left_def)
qed

lemma lookup_path_cong:
  assumes "pathtable s' = pathtable s" "nodetable s' = nodetable s"
  shows "lookup_path s' src dst = lookup_path s src dst"
  unfolding lookup_path_def node_of_def assms by (rule refl)

definition modelnet_addrs :: "skb \<Rightarrow> bool" where
  "modelnet_addrs ip \<longleftrightarrow> sk_saddr ip AND MODEL_MASK = MODEL_SUBNET \<and> sk_daddr ip AND MODEL_MASK = MODEL_SUBNET"

text \<open>\<open>emulate_path\<close> on the fresh packet.\<close>

lemma lx_emulate_path_spec:
  assumes ci: "core_inv s" and pi: "pkts_inv [a] s" and p: "pkt_mem s a = Some p" "pk_skb p = Some k"
      "pk_cachehost p = 0" "ri_id (pk_info p) = 0" and ip: "skbs s k = Some ip" and HZ: "0 < HZ"
  shows "\<exists>err s'. lx_emulate_path HZ a s = Some (err, s') \<and> fate s' = fate s \<and>
     (err = ENOENT \<and> core_inv s' \<and> pkts_inv [a] s' \<and> skbs s' k \<noteq> None \<and> base_mem s' = base_mem s \<and>
        (\<exists>p'. pkt_mem s' a = Some p' \<and> pk_skb p' = Some k)
      \<or> err = 0 \<and> lx_inv [] s' \<and> base_mem s' = base_mem s - 1 \<and>
        (skbs s' k = None \<or> (\<exists>q. pkt_mem s' a = Some q \<and> pk_skb q = Some k)))"
proof -
  let ?src = "sk_saddr (force_rewrite ip)" and ?dst = "sk_daddr (force_rewrite ip)"
  let ?s1 = "s\<lparr>skbs := (skbs s)(k \<mapsto> force_rewrite ip)\<rparr>"
  have sk: "skbs ?s1 j = None \<longleftrightarrow> skbs s j = None" for j using ip by simp
  have wf: "paths_wf s" "nodes_ok s" using ci by (simp_all add: core_inv_def topo_wf_def)
  obtain path where "lookup_path s (MODEL_FORCEOFF ?src) ?dst = Some path" using lookup_path_total [OF wf] by blast
  moreover have "lookup_path ?s1 (MODEL_FORCEOFF ?src) ?dst = lookup_path s (MODEL_FORCEOFF ?src) ?dst"
    by (rule lookup_path_cong) simp_all
  ultimately have lk: "lookup_path ?s1 (MODEL_FORCEOFF ?src) ?dst = Some path"
    "lookup_path s (MODEL_FORCEOFF ?src) ?dst = Some path" by simp_all
  show ?thesis
  proof (cases path)
    case None
    let ?s' = "?s1\<lparr>pkt_mem := (pkt_mem s)(a \<mapsto> p\<lparr>pk_path := None\<rparr>)\<rparr>"
    have run: "lx_emulate_path HZ a s = Some (ENOENT, ?s')"
      using p ip lk None by (simp add: lx_emulate_path_def Let_def)
    have "core_inv ?s' = core_inv s" by (rule core_inv_cong) simp_all
    moreover have "pkts_inv [a] ?s'"
      by (rule pkts_inv_touch [OF pi p(1), where p' = "p\<lparr>pk_path := None\<rparr>"]) (use ip in simp_all)
    moreover have "fate ?s' = fate s" using sk by (simp add: fate_def fun_eq_iff)
    moreover have "base_mem ?s' = base_mem s" by (simp add: base_mem_def in_flight_def)
    ultimately show ?thesis using run ci p by auto
  next
    case (Some blk)
    let ?p2 = "p\<lparr>pk_path := Some (blk, 0), pk_info := (pk_info p)\<lparr>ri_hop := 0, ri_src := ?src, ri_dst := ?dst\<rparr>\<rparr>"
    let ?s2 = "?s1\<lparr>pkt_mem := (pkt_mem s)(a \<mapsto> ?p2)\<rparr>"
    have live: "path_mem s blk \<noteq> None" using lookup_path_live [OF wf(1)] lk(2) Some by simp
    have m: "path_mem ?s2 = path_mem s" by simp
    have "0 < route_left ?s2 ?p2" unfolding route_left_cong [OF m] by (rule path_start [OF ci live])
    then have ok: "pkt_ok ?s2 ?p2" using p by (simp add: pkt_ok_def)
    have "core_inv ?s2 = core_inv s" by (rule core_inv_cong) simp_all
    moreover have "pkts_inv [a] ?s2" by (rule pkts_inv_touch [OF pi p(1), where p' = ?p2]) (use ip in simp_all)
    ultimately have inv: "lx_inv [a] ?s2" using ci ok by (simp add: lx_inv_def)
    have p2: "pkt_mem ?s2 a = Some ?p2" by simp
    obtain s' where s': "lx_emulate_nexthop HZ a ?s2 = Some s'" "lx_inv [] s'" "fate s' = fate ?s2"
      "base_mem s' = base_mem ?s2 - 1" "skbs s' k = None \<or> (\<exists>q. pkt_mem s' a = Some q \<and> pk_skb q = Some k)"
      using lx_emulate_nexthop_spec [OF inv p2 HZ] p(2) by auto
    have "lx_emulate_path HZ a s = Some (0, s')"
      using p ip lk(1) Some s'(1) by (simp add: lx_emulate_path_def Let_def)
    moreover have "fate ?s2 = fate s" using sk by (simp add: fate_def fun_eq_iff)
    moreover have "base_mem ?s2 = base_mem s" by (simp add: base_mem_def in_flight_def)
    ultimately show ?thesis using s' by auto
  qed
qed

text \<open>The whole hook, for a packet of the emulated subnet and for any other.\<close>

lemma lx_filter_ipinput_spec:
  assumes inv: "lx_inv [] s" and a: "pkt_mem s a = None" and ip: "skbs s k = Some ip"
    and free: "\<forall>b q. pkt_mem s b = Some q \<longrightarrow> pk_skb q \<noteq> Some k" and HZ: "0 < HZ"
  shows "\<exists>v s'. lx_filter_ipinput HZ (Some k) okfn junk a s = Some (v, s') \<and> lx_inv [] s' \<and>
     fate s' = fate s \<and> base_mem s' = base_mem s \<and>
     (v = NF_ACCEPT \<and> skbs s' k \<noteq> None \<and> (\<forall>b q. pkt_mem s' b = Some q \<longrightarrow> pk_skb q \<noteq> Some k)
      \<or> v = NF_STOLEN \<and> modelnet_addrs ip \<and>
        (skbs s' k = None \<or> (\<exists>b q. pkt_mem s' b = Some q \<and> pk_skb q = Some k)))"
proof (cases "modelnet_addrs ip")
  case False
  then have "lx_filter_ipinput HZ (Some k) okfn junk a s = Some (NF_ACCEPT, s)"
    using ip by (auto simp: lx_filter_ipinput_def modelnet_addrs_def)
  then show ?thesis using inv ip free by simp
next
  case True
  have ci: "core_inv s" and pi: "pkts_inv [] s" using inv by (simp_all add: lx_inv_def)
  let ?s0 = "s\<lparr>rcv_finish := Some okfn\<rparr>"
  obtain ok s1 where km: "kmalloc 1 ?s0 = (ok, s1)" by fastforce
  obtain r where s1: "s1 = s\<lparr>rcv_finish := Some okfn, alloc_ok := r, kmem := kmem s + of_bool ok\<rparr>"
    using kmalloc_cases [OF km] by auto
  have c1: "core_inv s1" using ci unfolding s1 by (subst core_inv_cong [of _ s]) simp_all
  show ?thesis
  proof (cases ok)
    case False
    have okc: "pkt_ok s1 q = pkt_ok s q" for q by (rule pkt_ok_cong) (simp_all add: s1)
    have "pkts_inv [] s1" using pi unfolding pkts_inv_def okc by (auto simp: s1)
    moreover have "lx_filter_ipinput HZ (Some k) okfn junk a s = Some (NF_ACCEPT, s1)"
      using ip True km False by (simp add: lx_filter_ipinput_def modelnet_addrs_def)
    moreover have "fate s1 = fate s" "base_mem s1 = base_mem s"
      using False by (simp_all add: s1 fate_def base_mem_def in_flight_def fun_eq_iff)
    ultimately show ?thesis using c1 ip free by (simp add: lx_inv_def s1)
  next
    case ok: True
    define p where "p = junk\<lparr>pk_skb := Some k, pk_cachehost := 0,
                  pk_info := (pk_info junk)\<lparr>ri_len := ucast (sk_len ip), ri_id := 0\<rparr>\<rparr>"
    let ?s2 = "s1\<lparr>pkt_mem := (pkt_mem s)(a \<mapsto> p)\<rparr>"
    have p: "pkt_mem ?s2 a = Some p" "pk_skb p = Some k" "pk_cachehost p = 0" "ri_id (pk_info p) = 0"
      by (simp_all add: p_def)
    have ip2: "skbs ?s2 k = Some ip" using ip by (simp add: s1)
    have kn: "skbs s k \<noteq> None" using ip by simp
    have "pkts_inv [a] ?s2 \<and> load ?s2 = load s \<and> a \<notin> set (in_flight s)"
      by (rule new_in_hand [OF inv a kn free, where p = p]) (simp_all add: s1 p_def)
    then have p2: "pkts_inv [a] ?s2" by blast
    have c2: "core_inv ?s2" using c1 by (subst core_inv_cong [of _ s1]) simp_all
    have b2: "base_mem ?s2 = base_mem s + 1" using ok by (simp add: s1 base_mem_def in_flight_def)
    have f2: "fate ?s2 = fate s" by (simp add: s1 fate_def fun_eq_iff)
    obtain err s3 where s3: "lx_emulate_path HZ a ?s2 = Some (err, s3)" "fate s3 = fate ?s2"
      "err = ENOENT \<and> core_inv s3 \<and> pkts_inv [a] s3 \<and> skbs s3 k \<noteq> None \<and> base_mem s3 = base_mem ?s2 \<and>
        (\<exists>p'. pkt_mem s3 a = Some p' \<and> pk_skb p' = Some k)
      \<or> err = 0 \<and> lx_inv [] s3 \<and> base_mem s3 = base_mem ?s2 - 1 \<and>
        (skbs s3 k = None \<or> (\<exists>q. pkt_mem s3 a = Some q \<and> pk_skb q = Some k))"
      using lx_emulate_path_spec [OF c2 p2 p ip2 HZ] by blast
    have run: "lx_filter_ipinput HZ (Some k) okfn junk a s = (if err \<noteq> 0 then do {
                s3' \<leftarrow> upd_pkt a (\<lambda>q. q\<lparr>pk_skb := None\<rparr>) s3;
                s4 \<leftarrow> mn_free_pkt a s3';
                Some (NF_ACCEPT, s4) }
              else Some (NF_STOLEN, s3))"
      using ip True km ok s3(1) by (simp add: lx_filter_ipinput_def modelnet_addrs_def p_def s1)
    from s3(3) show ?thesis
    proof
      assume h: "err = 0 \<and> lx_inv [] s3 \<and> base_mem s3 = base_mem ?s2 - 1 \<and>
        (skbs s3 k = None \<or> (\<exists>q. pkt_mem s3 a = Some q \<and> pk_skb q = Some k))"
      then show ?thesis using run s3(2) f2 b2 True by auto
    next
      assume h: "err = ENOENT \<and> core_inv s3 \<and> pkts_inv [a] s3 \<and> skbs s3 k \<noteq> None \<and> base_mem s3 = base_mem ?s2 \<and>
        (\<exists>p'. pkt_mem s3 a = Some p' \<and> pk_skb p' = Some k)"
      then obtain p' where p': "pkt_mem s3 a = Some p'" "pk_skb p' = Some k" by blast
      let ?q = "p'\<lparr>pk_skb := None\<rparr>"
      let ?s4 = "s3\<lparr>pkt_mem := (pkt_mem s3)(a \<mapsto> ?q)\<rparr>"
      have p4: "pkts_inv [a] ?s4" by (rule pkts_inv_touch [where s = s3 and p = p' and p' = ?q]) (use h p' in simp_all)
      have c4: "core_inv ?s4" using h by (subst core_inv_cong [of _ s3]) simp_all
      have q4: "pkt_mem ?s4 a = Some ?q" by simp
      let ?s5 = "?s4\<lparr>pkt_mem := (pkt_mem ?s4)(a := None), kmem := kmem ?s4 - 1, pkt_free := pkt_free ?s4 + 1\<rparr>"
      have s5: "mn_free_pkt a ?s4 = Some ?s5" by (simp add: mn_free_pkt_def)
      then have i5: "core_inv ?s5" "pkts_inv [] ?s5" using mn_free_spec [OF c4 p4 q4] by auto
      have run5: "lx_filter_ipinput HZ (Some k) okfn junk a s = Some (NF_ACCEPT, ?s5)"
        using run h p' s5 by (simp add: upd_pkt_def errno)
      have "pk_skb q \<noteq> Some k" if "pkt_mem ?s5 b = Some q" for b q
        using that p' pkts_inv_inj [of "[a]" s3 a p' b q k] h by (auto split: if_splits)
      moreover have "fate ?s5 = fate s3" by (simp add: fate_def fun_eq_iff)
      moreover have "base_mem ?s5 = base_mem s3 - 1" by (simp add: base_mem_def in_flight_def)
      ultimately show ?thesis using run5 i5 h s3(2) f2 b2 by (auto simp: lx_inv_def)
    qed
  qed
qed

end
