(* ===== verification/Lx_Props.thy ===== *)
theory Lx_Props
  imports Lx_Flow
begin

text \<open>
  What the packet path of the Linux module guarantees: the delay a hop imposes, that every buffer is
  accounted for, that the clock comes to an end and delivers on time; and what it does not: hops
  without a bandwidth limit, packets in flight while tables are rewritten or the module is removed.
\<close>

section \<open>The delay of a hop\<close>

text \<open>C4. The whole decision about a packet that reaches a hop in service: with \<open>q\<close> the queue
  after the entries that are due have left, the packet is dropped exactly when the loss test hits or
  \<open>q\<close> fills the slots; otherwise it leaves the queue \<open>ticks_of\<close> ticks after the packet before
  it (after now, when the queue is empty), and is due \<open>delay\<close> ticks later. Nothing is read or
  written outside the ring, and nothing is divided by zero.\<close>

theorem hop_delay_exact:
  assumes "hop_ready h"
  shows "let q = dropWhile (\<lambda>e. fst e < cur) (bwq h);
       t = (if q = [] then cur else fst (last q)) + ucast (ticks_of HZ r (ucast len) h) in
     \<exists>v h'. hop_section HZ r cur len h = Some (v, h') \<and> hop_ready h' \<and>
     (if plr_drops r h \<or> qsize h \<le> int (length q) then v = None \<and> bwq h' = q
      else v = Some (t + word_of_int (delay h), ticks_of HZ r (ucast len) h = 0) \<and>
        bwq h' = q @ [(t, s32 (uint len))])"
  using hop_section_spec [OF assms refl refl, where cur = cur and HZ = HZ and r = r and len = len] unfolding Let_def by blast

lemma ex_ring_wf: "bwq_wf ex_ring"
  by (simp add: ex_ring_def bwq_wf_def ring_ok_def s32_id)

lemma ex_ring_ready: "hop_ready ex_ring"
  using ex_ring_wf by (simp add: hop_ready_def ex_ring_def zero_hop_def)

theorem hop_delay_exact_witness:
  "let q = dropWhile (\<lambda>e. fst e < 8) (bwq ex_ring);
       t = (if q = [] then 8 else fst (last q)) + ucast (ticks_of 1000 77 (ucast (1500 :: u64)) ex_ring) in
     \<exists>v h'. hop_section 1000 77 8 1500 ex_ring = Some (v, h') \<and> hop_ready h' \<and>
     (if plr_drops 77 ex_ring \<or> qsize ex_ring \<le> int (length q) then v = None \<and> bwq h' = q
      else v = Some (t + word_of_int (delay ex_ring), ticks_of 1000 77 (ucast (1500 :: u64)) ex_ring = 0) \<and>
        bwq h' = q @ [(t, s32 (uint (1500 :: u64)))])"
  by (rule hop_delay_exact [OF ex_ring_ready])

lemma sum_round: "0 < b \<Longrightarrow> (\<Sum>r<b. n div b + (if r < n mod b then 1 else 0)) = (n::nat)"
proof -
  assume b: "0 < b"
  have "(\<Sum>r<b. if r < n mod b then 1 else 0) = card {r. r < n mod b}"
  proof -
    have "{..<b} \<inter> {r. r < n mod b} = {r. r < n mod b}" using b mod_less_divisor [OF b, of n] by auto
    then show ?thesis by (simp add: sum.If_cases)
  qed
  then show ?thesis by (simp add: sum.distrib)
qed

lemma u32_lt: "unat (x :: u32) < 2 ^ 32"
  using unsigned_less [of x, where ?'a = nat] by simp

lemma ticks_round:
  assumes b: "50 < bytespertick h" and l: "len \<noteq> 0" and r: "r < unat (bytespertick h)"
  shows "unat (ticks_of HZ (of_nat r) len h)
     = unat len div unat (bytespertick h) + (if r < unat len mod unat (bytespertick h) then 1 else 0)"
proof -
  let ?b = "bytespertick h"
  have "r < 2 ^ 32" using r u32_lt [of ?b] by simp
  then have ur: "unat (of_nat r :: u32) = r" by (simp only: unat_of_nat len32 mod_less)
  have m: "of_nat r mod ?b < len mod ?b \<longleftrightarrow> r < unat len mod unat ?b"
    using r by (simp add: word_less_nat_alt unat_mod ur)
  have "unat len div 2 < 2 ^ 31" by (rule less_mult_imp_div_less) (use u32_lt [of len] in simp)
  moreover have "unat len div unat ?b \<le> unat len div 2"
    by (rule div_le_mono2) (use b in \<open>simp_all add: word_less_nat_alt\<close>)
  ultimately have "unat len div unat ?b + 1 < 2 ^ 32" by simp
  then have "unat (len div ?b + 1) = unat len div unat ?b + 1"
    by (simp add: unat_word_ariths unat_div)
  then show ?thesis using b l m by (simp add: ticks_of_def unat_div)
qed

text \<open>C16. The random rounding charges the right amount on average: over one value of each residue of
  the random number modulo \<open>bytespertick\<close>, the delays of a packet add up to its length.\<close>

theorem rounding_is_fair:
  assumes "fragment h = 0" "50 < bytespertick h" "len \<noteq> 0"
  shows "(\<Sum>r < unat (bytespertick h). case bw_delay HZ (of_nat r) len h of
       Some (d, h') \<Rightarrow> unat d | None \<Rightarrow> 0) = unat len"
proof -
  let ?b = "unat (bytespertick h)"
  have "bw_delay HZ (of_nat r) len h = Some (ticks_of HZ (of_nat r) len h, h)" for r
    using assms by (simp add: bw_delay_def use_fragment_def ticks_of_def u32_of_def)
  then have "(\<Sum>r < ?b. case bw_delay HZ (of_nat r) len h of Some (d, h') \<Rightarrow> unat d | None \<Rightarrow> 0)
      = (\<Sum>r < ?b. unat len div ?b + (if r < unat len mod ?b then 1 else 0))"
    using ticks_round [OF assms(2,3)] by (intro sum.cong) auto
  moreover have "0 < ?b" using assms(2) by (simp add: word_less_nat_alt)
  ultimately show ?thesis using sum_round by simp
qed

theorem rounding_is_fair_witness:
  "(\<Sum>r < unat (bytespertick (ex_ring\<lparr>bytespertick := 100\<rparr>)). case bw_delay 1000 (of_nat r) 150 (ex_ring\<lparr>bytespertick := 100\<rparr>) of
       Some (d, h') \<Rightarrow> unat d | None \<Rightarrow> 0) = unat (150 :: u32)"
  by (rule rounding_is_fair) (simp_all add: ex_ring_def zero_hop_def)

section \<open>Loss\<close>

text \<open>The loss test drops exactly \<open>plr\<close> of the \<open>2 ^ 31\<close> values of the low 31 random
  bits. So the largest rate, \<open>2 ^ 31 - 1\<close>, which the header documents as 100 percent, still
  lets a packet pass for one value.\<close>

theorem plr_exact_rate:
  assumes "0 \<le> plr h" "plr h < 2 ^ 31"
  shows "card {x :: nat. x < 2 ^ 31 \<and> plr_drops (of_nat x) h} = nat (plr h)"
proof -
  have low: "uint (of_nat x AND 0x7fffffff :: u32) = int x" if "x < 2 ^ 31" for x
  proof -
    have m: "(0x7fffffff :: u32) = mask 31" by (simp add: mask_eq_exp_minus_1)
    have "unat (of_nat x :: u32) = x" using that by (simp only: unat_of_nat len32) simp
    then have "uint (of_nat x :: u32) = int x" by (metis uint_nat)
    then have "uint (take_bit 31 (of_nat x :: u32)) = take_bit 31 (int x)" by (simp only: unsigned_take_bit_eq)
    also have "\<dots> = int x" using that by (simp only: take_bit_int_eq_self_iff) simp
    finally show ?thesis by (simp only: m take_bit_eq_mask [symmetric])
  qed
  have "{x :: nat. x < 2 ^ 31 \<and> plr_drops (of_nat x) h} = {..<nat (plr h)}"
    using assms low by (auto simp: plr_drops_def)
  then show ?thesis by simp
qed

theorem plr_exact_rate_witness:
  "card {x :: nat. x < 2 ^ 31 \<and> plr_drops (of_nat x) (ex_ring\<lparr>plr := 2147483647\<rparr>)}
     = nat (plr (ex_ring\<lparr>plr := 2147483647\<rparr>))"
  by (rule plr_exact_rate) simp_all

section \<open>Hops without a bandwidth limit\<close>

text \<open>On a hop whose bandwidth is 0 the queue is never brought up to date, though every packet
  is added to it. So once it holds a packet, the due tick of every later one is computed from the
  exit tick of that packet and not from the time of its arrival: it is the same for any \<open>cur\<close>.\<close>

theorem no_limit_hop_stale:
  assumes "bwq_wf h" "KBps h = 0" "0 < slotdepth h" "slotdepth h < qsize h" "\<not> plr_drops r h"
  shows "\<exists>h'. hop_section HZ r cur len h = Some (Some (fst (last (bwq h)) + word_of_int (delay h), False), h') \<and>
     bwq h' = bwq h @ [(fst (last (bwq h)), s32 (uint len))]"
proof -
  obtain n where n: "new_slot h = Some n" using new_slot_Some [OF assms(1)] by blast
  let ?h2 = "h\<lparr>pkts := s32 (pkts h + 1), bytes := s32 (bytes h + uint len)\<rparr>"
  let ?t = "fst (last (bwq h))"
  obtain h' where h': "bwq_push ?t (s32 (uint len)) ?h2 = Some h'" "bwq h' = bwq h @ [(?t, s32 (uint len))]"
    using bwq_push_spec [of ?h2 ?t "s32 (uint len)"] assms by (auto simp: bwq_room_def)
  have add: "bwq_add n ?t (s32 (uint len)) ?h2 = Some h'" using h'(1) n by (simp add: bwq_push_def)
  have "delay h' = delay h" using add by (auto simp: bwq_add_def split: Option.bind_splits)
  moreover have "tail_exit h = Some ?t" by (rule tail_exit_last [OF assms(1,3)])
  ultimately have "hop_section HZ r cur len h = Some (Some (?t + word_of_int (delay h), False), h')"
    using n assms(2,3,5) add by (simp add: hop_section_def Let_def)
  then show ?thesis using h'(2) by blast
qed

theorem no_limit_hop_stale_witness:
  "\<exists>h'. hop_section 1000 77 1000000 1500 (ex_ring\<lparr>KBps := 0, slotdepth := 2\<rparr>)
      = Some (Some (fst (last (bwq (ex_ring\<lparr>KBps := 0, slotdepth := 2\<rparr>))) + word_of_int (delay (ex_ring\<lparr>KBps := 0, slotdepth := 2\<rparr>)), False), h') \<and>
     bwq h' = bwq (ex_ring\<lparr>KBps := 0, slotdepth := 2\<rparr>) @ [(fst (last (bwq (ex_ring\<lparr>KBps := 0, slotdepth := 2\<rparr>))), s32 (uint (1500 :: u64)))]"
  by (rule no_limit_hop_stale) (simp_all add: ex_ring_def bwq_wf_def ring_ok_def s32_id plr_drops_def zero_hop_def)

section \<open>A small network in operation\<close>

text \<open>The topology of Lx_Tables, with a buffer from 10.0.0.1 to 10.0.0.2 that has just arrived,
  and the same with a packet for this buffer at the end of its path, due at tick 0.\<close>

definition ex_gen :: rng where
  "ex_gen = (case random_seed 1 \<lparr>mti = 0, mt = replicate 624 0\<rparr> of Some g \<Rightarrow> g | None \<Rightarrow> \<lparr>mti = 0, mt = []\<rparr>)"

lemma ex_gen_at: "rng_at 1 624 ex_gen"
proof -
  obtain g where "random_seed 1 \<lparr>mti = 0, mt = replicate 624 0\<rparr> = Some g" "rng_at 1 624 g"
    using random_seed_at [of "\<lparr>mti = 0, mt = replicate 624 0\<rparr>" 1] by auto
  then show ?thesis by (simp add: ex_gen_def)
qed

definition ex_skb :: skb where
  "ex_skb = \<lparr>sk_saddr = htonl 0x0a000001, sk_daddr = htonl 0x0a000002, sk_len = 1500\<rparr>"

definition ex_pkt :: lx_packet where
  "ex_pkt = \<lparr>pk_path = Some (5, 1), pk_skb = Some 1, pk_cachehost = 0, pk_state = 3,
     pk_info = \<lparr>ri_id = 0, ri_expire = 0, ri_len = 1500, ri_wait_time = 0, ri_src = 0, ri_dst = 0,
       ri_hop = 1, ri_ttl = 0\<rparr>\<rparr>"

definition ex_lx :: lx where
  "ex_lx = \<lparr>nodetable = ex_nodes, hopcount = 1, hoptable = Some (1, [ex_ring]), nodecount = 2,
     pathtable = Some [[None, Some 5], [None, None]], path_mem = [5 \<mapsto> path_block 1 [0]],
     next_addr = 6, kmem = 8, alloc_ok = [], skbs = [1 \<mapsto> ex_skb], pkt_mem = Map.empty,
     packet_calendar = Some (replicate 16384 []), calendar_tick = 0, jiffies = 1, rcv_finish = None,
     pkt_free = 0, pkts_queued = 0, delayzero = 0, pktcount = replicate 60 0, gen = ex_gen,
     sent = [], freed_skbs = [], modelnet_die = False, work_pending = False,
     sysctl_registered = True, workqueue = True, hook_registered = True\<rparr>"

definition ex_flying :: lx where
  "ex_flying = ex_lx\<lparr>packet_calendar := Some ((replicate 16384 [])[0 := [9]]), pkt_mem := [9 \<mapsto> ex_pkt],
     rcv_finish := Some 4, kmem := 9\<rparr>"

lemma ex_core: "core_inv ex_lx"
proof -
  have "topo_wf ex_lx" by (simp add: topo_wf_def paths_wf_def hops_wf_def cells_of_def ex_lx_def)
  moreover have "nodes_ok ex_lx" by (simp add: nodes_ok_def ex_node_id ex_lx_def)
  moreover have "hops_ready ex_lx" using ex_ring_ready by (simp add: hops_ready_def ex_lx_def)
  moreover have "paths_valid ex_lx"
    by (auto simp: paths_valid_def path_block_def hop_ptr_ok_def deref_hop_def ex_lx_def aget_def
        intro!: exI [of _ "[Hop_Ptr 1 0]"])
  moreover have "length (pktcount ex_lx) = 60 \<and> (\<exists>seed p. rng_at seed p (gen ex_lx))"
    using ex_gen_at by (auto simp: ex_lx_def)
  ultimately show ?thesis by (simp add: core_inv_def)
qed

lemma ex_lx_inv: "lx_inv [] ex_lx"
  using ex_core by (simp add: lx_inv_def pkts_inv_def ex_lx_def)

lemma concat_empty: "concat (replicate n []) = []"
  by (induction n) simp_all

lemma concat_first: "0 < n \<Longrightarrow> concat ((replicate n [])[0 := l]) = l"
  by (cases n) (simp_all add: concat_empty)

lemma ex_flying_inv: "lx_inv [] ex_flying"
proof -
  have "core_inv ex_flying = core_inv ex_lx" by (rule core_inv_cong) (simp_all add: ex_flying_def)
  moreover have "pkt_ok ex_flying ex_pkt"
    by (simp add: pkt_ok_def route_left_def ex_pkt_def ex_flying_def ex_lx_def path_block_def)
  moreover have c: "concat ((replicate 16384 [])[0 := [9::nat]]) = [9]" by (rule concat_first) simp
  have "pkts_inv [] ex_flying"
    if "pkt_ok ex_flying ex_pkt"
    unfolding pkts_inv_def using that c
    by (simp add: ex_flying_def del: set_concat distinct.simps) simp
  ultimately show ?thesis using ex_core by (auto simp: lx_inv_def)
qed

section \<open>Every buffer is accounted for\<close>

text \<open>C1. The hook, on any IP packet: it comes to an end, keeps the invariant, gives back the memory
  of a packet it does not keep, and for every buffer the number of places where it is (held, handed
  to the stack, freed) stays the same. An accepted buffer is still the caller's alone; a stolen one
  came from and to the emulated subnet, and the caller has it no longer: it is held by a packet in
  flight, or was handed on or freed.\<close>

theorem filter_ipinput_accounts:
  assumes "lx_inv [] s" "pkt_mem s a = None" "skbs s k = Some ip"
    and "\<forall>b q. pkt_mem s b = Some q \<longrightarrow> pk_skb q \<noteq> Some k" "0 < HZ"
  shows "\<exists>v s'. lx_filter_ipinput HZ (Some k) okfn junk a s = Some (v, s') \<and> lx_inv [] s' \<and>
     fate s' = fate s \<and> base_mem s' = base_mem s \<and>
     (v = NF_ACCEPT \<and> skbs s' k \<noteq> None \<and> (\<forall>b q. pkt_mem s' b = Some q \<longrightarrow> pk_skb q \<noteq> Some k)
      \<or> v = NF_STOLEN \<and> modelnet_addrs ip \<and>
        (skbs s' k = None \<or> (\<exists>b q. pkt_mem s' b = Some q \<and> pk_skb q = Some k)))"
  using lx_filter_ipinput_spec [OF assms(1-5)] by blast

theorem filter_ipinput_accounts_witness:
  "\<exists>v s'. lx_filter_ipinput 1000 (Some 1) 4 ex_pkt 9 ex_lx = Some (v, s') \<and> lx_inv [] s' \<and>
     fate s' = fate ex_lx \<and> base_mem s' = base_mem ex_lx \<and>
     (v = NF_ACCEPT \<and> skbs s' 1 \<noteq> None \<and> (\<forall>b q. pkt_mem s' b = Some q \<longrightarrow> pk_skb q \<noteq> Some 1)
      \<or> v = NF_STOLEN \<and> modelnet_addrs ex_skb \<and>
        (skbs s' 1 = None \<or> (\<exists>b q. pkt_mem s' b = Some q \<and> pk_skb q = Some 1)))"
  by (rule filter_ipinput_accounts [OF ex_lx_inv]) (simp_all add: ex_lx_def)

text \<open>C2. The clock comes to an end though every packet it takes may put itself back into the slot
  it is draining: it catches up with the jiffies, emulates the next hop of every packet due,
  keeps the invariant and every buffer accounted for, loses no memory, and queues itself again unless
  the module is going away.\<close>

theorem hopclock_terminates:
  assumes "lx_inv [] s" "0 < HZ"
  shows "\<exists>s'. lx_hopclock HZ s = Some s' \<and> lx_inv [] s' \<and> fate s' = fate s \<and> base_mem s' = base_mem s \<and>
     calendar_tick s' = (if sint (calendar_tick s - jiffies s) < 0 then jiffies s else calendar_tick s) \<and>
     (modelnet_die s \<or> work_pending s')"
proof -
  obtain s' where s': "lx_ticks HZ s = Some s'" "lx_inv [] s'" "clock_frame s s'"
    "calendar_tick s' = (if sint (calendar_tick s - jiffies s) < 0 then jiffies s else calendar_tick s)"
    using lx_ticks_spec [OF assms(2,1)] by blast
  let ?s2 = "s'\<lparr>work_pending := True\<rparr>"
  have "core_inv ?s2 = core_inv s'" by (rule core_inv_cong) simp_all
  moreover have okc: "pkt_ok ?s2 q = pkt_ok s' q" for q by (rule pkt_ok_cong) simp_all
  ultimately have "lx_inv [] ?s2" using s'(2) by (simp add: lx_inv_def pkts_inv_def okc)
  moreover have "fate ?s2 = fate s'" "base_mem ?s2 = base_mem s'"
    by (simp_all add: fate_def base_mem_def in_flight_def fun_eq_iff)
  ultimately show ?thesis using s' by (auto simp: lx_hopclock_def clock_frame_def)
qed

theorem hopclock_terminates_witness:
  "\<exists>s'. lx_hopclock 1000 ex_flying = Some s' \<and> lx_inv [] s' \<and> fate s' = fate ex_flying \<and>
     base_mem s' = base_mem ex_flying \<and>
     calendar_tick s' = (if sint (calendar_tick ex_flying - jiffies ex_flying) < 0 then jiffies ex_flying
       else calendar_tick ex_flying) \<and>
     (modelnet_die ex_flying \<or> work_pending s')"
  by (rule hopclock_terminates [OF ex_flying_inv]) simp

text \<open>C6. The calendar delivers on time: in a run of the operations of the code that follows the
  protocol of the clock (no packet due a revolution of \<open>2 ^ 14\<close> ticks ahead, no tick left with
  packets in its slot), what is taken at a tick, with what is still held for it, is what was
  there and what was added for it, in that order.\<close>

theorem packet_calendar_on_time:
  fixes now t :: u64
  assumes "cal_rep now cal ag" "agenda_run cal_due ops now ag = Some (out, now', ag')"
  shows "\<exists>cal'. cal_run cal_add cal_take ops now cal = Some (out, now', cal') \<and>
     map snd (filter (\<lambda>e. fst e = t) out) @ ag' t = ag t @ added ops t"
  by (rule cal64.run_on_time [OF assms])

theorem packet_calendar_on_time_witness:
  "\<exists>cal'. cal_run cal_add cal_take [Add (1 :: u64) CHR ''x'', Add 1 CHR ''y'', Tick, Take, Take] 0 (replicate 16384 [])
       = Some ([(1, CHR ''x''), (1, CHR ''y'')], 1, cal') \<and>
     map snd (filter (\<lambda>e. fst e = 1) [(1 :: u64, CHR ''x''), (1, CHR ''y'')]) @ ((\<lambda>_. [])(1 := [])) (1 :: u64)
       = (\<lambda>_. []) (1 :: u64) @ added [Add (1 :: u64) CHR ''x'', Add 1 CHR ''y'', Tick, Take, Take] 1"
proof (rule packet_calendar_on_time [where ag = "\<lambda>_. []" and ag' = "(\<lambda>_. [])(1 := [])"])
  show "cal_rep (0 :: u64) (replicate 16384 []) (\<lambda>_. [] :: char list)"
    by (simp add: cal_rep_def nth_replicate [OF cal_slot_nat])
  show "agenda_run cal_due [Add (1 :: u64) CHR ''x'', Add 1 CHR ''y'', Tick, Take, Take] 0 (\<lambda>_. [])
     = Some ([(1, CHR ''x''), (1, CHR ''y'')], 1, (\<lambda>_. [])(1 := []))"
    by (simp add: cal_due_def fun_eq_iff)
qed

section \<open>Loading and unloading\<close>

text \<open>The module's variables as the loader leaves them.\<close>

definition lx_boot :: "lx \<Rightarrow> bool" where
  "lx_boot s \<longleftrightarrow> hoptable s = None \<and> hopcount s = 0 \<and> pathtable s = None \<and> nodecount s = 0 \<and>
     path_mem s = Map.empty \<and> pkt_mem s = Map.empty \<and> kmem s = 0 \<and> length (mt (gen s)) = 624 \<and>
     length (pktcount s) = 60"

text \<open>C35. Loading brings the invariant about: when the allocator serves the calendar and the
  sysctl table can be registered, the clock is queued, the calendar is empty and starts at the
  present jiffy, the generator is seeded, and the answer is that of the hook's registration.\<close>

theorem modelnet_init_establishes:
  assumes "lx_boot s" "alloc_ok s = []"
  shows "\<exists>s'. modelnet_init seed True hook s = Some (hook, s') \<and> lx_inv [] s' \<and> in_flight s' = [] \<and>
     calendar_tick s' = jiffies s \<and> work_pending s' \<and> kmem s' = 1 \<and> fate s' = fate s \<and>
     (hook_registered s' \<longleftrightarrow> 0 \<le> hook \<or> hook_registered s)"
proof -
  note b = assms(1) [unfolded lx_boot_def]
  obtain g where g: "random_seed seed (gen s) = Some g" "rng_at seed 624 g"
    using random_seed_at [of "gen s" seed] b by blast
  let ?s' = "s\<lparr>gen := g, sysctl_registered := True, delayzero := 0, calendar_tick := jiffies s, kmem := 1,
     packet_calendar := Some (replicate 16384 []), workqueue := True, work_pending := True\<rparr>"
  let ?r = "if hook < 0 then ?s' else ?s'\<lparr>hook_registered := True\<rparr>"
  have run: "modelnet_init seed True hook s = Some (hook, ?r)"
    using g(1) b assms(2) by (simp add: modelnet_init_def modelnet_load_def vmalloc_def kmalloc_served SCHEDLEN_def Let_def)
  have "core_inv ?r"
    using b g(2) by (auto simp: core_inv_def topo_wf_def paths_wf_def hops_wf_def nodes_ok_def hops_ready_def paths_valid_def)
  moreover have "pkts_inv [] ?r" using b by (simp add: pkts_inv_def concat_empty)
  moreover have "in_flight ?r = []" by (simp add: in_flight_def concat_empty)
  ultimately show ?thesis using run by (auto simp: lx_inv_def fate_def fun_eq_iff)
qed

definition ex_boot :: lx where
  "ex_boot = ex_lx\<lparr>hopcount := 0, hoptable := None, nodecount := 0, pathtable := None, path_mem := Map.empty,
     kmem := 0, skbs := Map.empty, packet_calendar := None, sysctl_registered := False, workqueue := False,
     hook_registered := False\<rparr>"

lemma ex_boot: "lx_boot ex_boot" "alloc_ok ex_boot = []"
proof -
  have "length (mt ex_gen) = 624" using ex_gen_at by (auto simp: rng_at_def mid_block_def)
  then show "lx_boot ex_boot" "alloc_ok ex_boot = []" by (simp_all add: lx_boot_def ex_boot_def ex_lx_def)
qed

theorem modelnet_init_establishes_witness:
  "\<exists>s'. modelnet_init 7 True 0 ex_boot = Some (0, s') \<and> lx_inv [] s' \<and> in_flight s' = [] \<and>
     calendar_tick s' = jiffies ex_boot \<and> work_pending s' \<and> kmem s' = 1 \<and> fate s' = fate ex_boot \<and>
     (hook_registered s' \<longleftrightarrow> 0 \<le> (0::int) \<or> hook_registered ex_boot)"
  by (rule modelnet_init_establishes [OF ex_boot])

text \<open>Unloading frees the tables and the calendar but not the packets in it: every packet in
  flight stays allocated, and its buffer is neither handed on nor freed.\<close>

theorem cleanup_loses_packets:
  assumes "lx_inv [] s" "kmem s = paths_owned s + hops_owned s + 1 + int (length (in_flight s))"
  shows "\<exists>s'. modelnet_cleanup s = Some s' \<and> packet_calendar s' = None \<and> kmem s' = int (length (in_flight s)) \<and>
     (\<forall>a p. pkt_mem s a = Some p \<longrightarrow> pkt_mem s' a = Some p \<and>
        (\<exists>k. pk_skb p = Some k \<and> skbs s' k \<noteq> None)) \<and>
     sent s' = sent s \<and> freed_skbs s' = freed_skbs s"
proof -
  have wf: "topo_wf s" and pi: "pkts_inv [] s" using assms(1) by (simp_all add: lx_inv_def core_inv_def)
  let ?s1 = "s\<lparr>sysctl_registered := False, hook_registered := False, modelnet_die := True,
         work_pending := False, workqueue := False\<rparr>"
  have wf1: "topo_wf ?s1" using wf by (simp add: topo_wf_def paths_wf_def hops_wf_def cong: option.case_cong)
  have own: "paths_owned ?s1 = paths_owned s" "hops_owned ?s1 = hops_owned s"
    by (auto simp: paths_owned_def hops_owned_def split: option.splits)
  obtain s2 where s2: "uninit_paths ?s1 = Some s2" "kmem s2 = kmem s - paths_owned s - hops_owned s"
    "topo.more s2 = topo.more ?s1" using uninit_paths_spec [OF wf1] own by auto
  have m: "pkt_mem s2 = pkt_mem s \<and> skbs s2 = skbs s \<and> sent s2 = sent s \<and> freed_skbs s2 = freed_skbs s \<and>
      packet_calendar s2 = packet_calendar s"
    using s2(3) by (cases s2, cases s) simp
  obtain cal where "packet_calendar s = Some cal" using pi by (auto simp: pkts_inv_def)
  then have "modelnet_cleanup s = Some ((kfree_n 1 s2)\<lparr>packet_calendar := None\<rparr>)"
    using s2(1) m by (simp add: modelnet_cleanup_def modelnet_unload_def Let_def)
  moreover have "\<forall>a p. pkt_mem s a = Some p \<longrightarrow> (\<exists>k. pk_skb p = Some k \<and> skbs s k \<noteq> None)"
    using pi by (auto simp: pkts_inv_def pkt_ok_def)
  ultimately show ?thesis using m s2(2) assms(2) by (auto simp: kfree_n_def)
qed

theorem cleanup_loses_packets_witness:
  "\<exists>s'. modelnet_cleanup ex_flying = Some s' \<and> packet_calendar s' = None \<and> kmem s' = int (length (in_flight ex_flying)) \<and>
     (\<forall>a p. pkt_mem ex_flying a = Some p \<longrightarrow> pkt_mem s' a = Some p \<and>
        (\<exists>k. pk_skb p = Some k \<and> skbs s' k \<noteq> None)) \<and>
     sent s' = sent ex_flying \<and> freed_skbs s' = freed_skbs ex_flying"
proof (rule cleanup_loses_packets [OF ex_flying_inv])
  have "in_flight ex_flying = [9]" by (simp add: in_flight_def ex_flying_def concat_first)
  moreover have "paths_owned ex_flying = 4" "hops_owned ex_flying = 3"
    by (simp_all add: ex_flying_def ex_lx_def paths_owned_def hops_owned_def cells_of_def hop_blocks_def ex_ring_def)
  ultimately show "kmem ex_flying = paths_owned ex_flying + hops_owned ex_flying + 1 + int (length (in_flight ex_flying))"
    by (simp add: ex_flying_def)
qed

text \<open>C40. Rewriting the hop table frees every path while packets that travel one of them are in
  flight: after a successful write, the next step of such a packet reads freed memory.\<close>

theorem hoptable_write_dangles:
  assumes "lx_inv [] s" "pathtable s = Some rows"
    and "pkt_mem s a = Some p" "pk_path p = Some (blk, i)" "blk \<in> set (cells_of rows)"
    and "length hops = nat n" "proc_hophandle HZ True (Some n) (Some hops) 12 0 s = Some (0, 12, 12, s')"
  shows "lx_emulate_nexthop HZ a s' = None"
proof -
  obtain ok1 s1 where v1: "vmalloc n s = (ok1, s1)" by fastforce
  obtain r1 where s1: "s1 = s\<lparr>alloc_ok := r1, kmem := kmem s + of_bool ok1\<rparr>"
    using vmalloc_cases [OF v1] by blast
  have ok1: "ok1" using assms(7) v1 by (auto simp: proc_hophandle_def errno split: if_splits)
  have wf1: "topo_wf s1" using assms(1) s1 by (simp add: lx_inv_def core_inv_def)
  obtain s1' where f: "free_path s1 = Some s1'" "path_mem s1' blk = None" "topo.more s1' = topo.more s1"
    using free_path_spec [of s1] wf1 s1 assms(2,5) by (auto simp: topo_wf_def)
  obtain s2 where s2: "uninit_paths s1 = Some s2" "topo.more s2 = topo.more s1"
    using uninit_paths_spec [OF wf1] by blast
  have kh: "path_mem u = path_mem s1'"
    if "kfree_hops hs is s1' = Some u" for u hs "is"
  proof -
    have "kfree_hops hs is t = Some u \<Longrightarrow> path_mem u = path_mem t" for t :: lx
      by (induction "is" arbitrary: t) (fastforce simp: kfree_n_def split: Option.bind_splits)+
    then show ?thesis using that by blast
  qed
  have d2: "path_mem s2 blk = None"
    using s2(1) f(1,2) kh
    by (auto simp: uninit_paths_def kfree_n_def split: option.splits Option.bind_splits)
  obtain ok3 s3 where v3: "vmalloc n s2 = (ok3, s3)" by fastforce
  obtain r3 where s3: "s3 = s2\<lparr>alloc_ok := r3, kmem := kmem s2 + of_bool ok3\<rparr>"
    using vmalloc_cases [OF v3] by blast
  have ok3: "ok3" using assms(7) v1 ok1 s2(1) v3 by (auto simp: proc_hophandle_def errno split: if_splits)
  have n: "0 < n" using vmalloc_cases [OF v1] ok1 by blast
  let ?hs = "replicate (nat n) (zero_hop :: lx_hop)"
  let ?s4 = "s3\<lparr>hoptable := Some (next_addr s3, ?hs), next_addr := next_addr s3 + 1, hopcount := n\<rparr>"
  obtain ok5 s5 where s5: "setup_hops HZ hops [0..n - 1] ?s4 = Some (ok5, s5)" "same_paths ?s4 s5"
    using setup_hops_spec [of ?s4 "next_addr s3" ?hs 0 hops HZ] assms(6) n by auto
  have "s' = kfree_n 1 s5"
    using assms(7) v1 v3 ok1 ok3 s2(1) s5(1) by (auto simp: proc_hophandle_def errno split: if_splits)
  then have e: "path_mem s' = path_mem s2" "topo.more s' = topo.more s"
    using s5(2) s3 s2(2) s1 by (auto simp: same_paths_def kfree_n_def)
  have "pkt_mem s' = pkt_mem s" using e(2) by (cases s', cases s) simp
  moreover have "path_mem s' blk = None" using d2 e(1) by simp
  ultimately show ?thesis using assms(3,4) by (simp add: lx_emulate_nexthop_def)
qed

theorem hoptable_write_dangles_witness:
  "\<exists>s'. proc_hophandle 1000 True (Some 1) (Some ex_hops) 12 0 ex_flying = Some (0, 12, 12, s') \<and>
     lx_emulate_nexthop 1000 9 s' = None"
proof -
  have "topo_wf ex_flying" using ex_flying_inv by (simp add: lx_inv_def core_inv_def)
  then obtain s' where s': "proc_hophandle 1000 True (Some 1) (Some ex_hops) 12 0 ex_flying = Some (0, 12, 12, s')"
    using proc_hophandle_served [of ex_flying 1 ex_hops 1000] by (auto simp: ex_flying_def ex_lx_def ex_hops_def)
  have "lx_emulate_nexthop 1000 9 s' = None"
    by (rule hoptable_write_dangles [OF ex_flying_inv _ _ _ _ _ s', where a = 9 and p = ex_pkt and blk = 5 and i = 1
          and rows = "[[None, Some 5], [None, None]]"])
      (simp_all add: ex_flying_def ex_lx_def ex_pkt_def cells_of_def ex_hops_def)
  then show ?thesis using s' by blast
qed

end
