(* ===== verification/Client_Sockets.thy ===== *)
theory Client_Sockets
  imports Prelude
begin

text \<open>
  client/libipaddr.c, the library that is preloaded into applications: the socket calls. The system
  calls behind it are a parameter, the record \<open>'o sys\<close> of functions on a system state \<open>'o\<close>.
  The three \<open>fd_set\<close>s of the library are sets of descriptors; an access outside
  \<open>FD_SETSIZE\<close> bits is a fault. Addresses and ports are kept in network order.
\<close>

section \<open>Addresses\<close>

record sockaddr =
  sa_family :: u16
  sin_port :: u16
  sin_addr :: u32

definition AF_INET :: u16 where "AF_INET = 2"
definition PF_INET :: int where "PF_INET = 2"
definition INADDR_ANY :: u32 where "INADDR_ANY = 0"
definition FD_SETSIZE :: int where "FD_SETSIZE = 1024"

definition MAKE_IP :: "u32 \<Rightarrow> u32 \<Rightarrow> u32 \<Rightarrow> u32 \<Rightarrow> u32" where
  "MAKE_IP a b c d = push_bit 24 (a AND 0xff) OR push_bit 16 (b AND 0xff) OR push_bit 8 (c AND 0xff) OR (d AND 0xff)"

text \<open>16 is \<open>sizeof(struct sockaddr_in)\<close>.\<close>

definition IS_INET_ADDR :: "sockaddr option \<Rightarrow> int \<Rightarrow> bool" where
  "IS_INET_ADDR addr len \<longleftrightarrow> (case addr of None \<Rightarrow> False | Some sa \<Rightarrow> 16 \<le> len \<and> sa_family sa = AF_INET)"

definition IS_MNET_IP :: "u32 \<Rightarrow> bool" where
  "IS_MNET_IP ip \<longleftrightarrow> ip AND htonl 0xff000000 = htonl (MAKE_IP 10 0 0 0)"

definition MNET_MAGIC_BIT :: u32 where "MNET_MAGIC_BIT = htonl 0x00800000"

section \<open>State\<close>

text \<open>\<open>s_getsockname\<close> and \<open>s_getsockopt\<close> deliver \<open>None\<close> when they fail; the receiving
  calls get the caller's address buffer and its length and give them back.\<close>

record 'o sys =
  s_socket :: "int \<Rightarrow> int \<Rightarrow> int \<Rightarrow> 'o \<Rightarrow> int \<times> 'o"
  s_bind :: "int \<Rightarrow> sockaddr option \<Rightarrow> int \<Rightarrow> 'o \<Rightarrow> int \<times> 'o"
  s_getsockname :: "int \<Rightarrow> 'o \<Rightarrow> sockaddr option \<times> 'o"
  s_getsockopt :: "int \<Rightarrow> 'o \<Rightarrow> int option \<times> 'o"
  s_dup2 :: "int \<Rightarrow> int \<Rightarrow> 'o \<Rightarrow> int \<times> 'o"
  s_close :: "int \<Rightarrow> 'o \<Rightarrow> 'o"
  s_connect :: "int \<Rightarrow> sockaddr option \<Rightarrow> int \<Rightarrow> 'o \<Rightarrow> int \<times> 'o"
  s_sendto :: "int \<Rightarrow> u8 list \<Rightarrow> int \<Rightarrow> sockaddr option \<Rightarrow> int \<Rightarrow> 'o \<Rightarrow> int \<times> 'o"
  s_recvfrom :: "int \<Rightarrow> int \<Rightarrow> sockaddr option \<Rightarrow> int \<Rightarrow> 'o \<Rightarrow> int \<times> u8 list \<times> sockaddr option \<times> int \<times> 'o"
  s_sendmsg :: "int \<Rightarrow> u8 list \<Rightarrow> int \<Rightarrow> sockaddr option \<Rightarrow> int \<Rightarrow> 'o \<Rightarrow> int \<times> 'o"
  s_recvmsg :: "int \<Rightarrow> int \<Rightarrow> sockaddr option \<Rightarrow> int \<Rightarrow> 'o \<Rightarrow> int \<times> u8 list \<times> sockaddr option \<times> int \<times> 'o"
  s_getpeername :: "int \<Rightarrow> sockaddr option \<Rightarrow> int \<Rightarrow> 'o \<Rightarrow> int \<times> sockaddr option \<times> int \<times> 'o"

record 'o client =
  mn_localip :: u32
  mn_keep_dstip :: bool
  mn_unbound_sockets :: "int set"
  mn_modelnet_sockets :: "int set"
  mn_hasport_sockets :: "int set"
  os :: 'o

definition fd_ok :: "int \<Rightarrow> bool" where
  "fd_ok s \<longleftrightarrow> 0 \<le> s \<and> s < FD_SETSIZE"

definition fd_isset :: "int \<Rightarrow> int set \<Rightarrow> bool option" where
  "fd_isset s S = (if fd_ok s then Some (s \<in> S) else None)"

definition fd_set :: "int \<Rightarrow> int set \<Rightarrow> int set option" where
  "fd_set s S = (if fd_ok s then Some (insert s S) else None)"

definition fd_clr :: "int \<Rightarrow> int set \<Rightarrow> int set option" where
  "fd_clr s S = (if fd_ok s then Some (S - {s}) else None)"

definition SOCK_UNBOUND :: "int \<Rightarrow> 'o client \<Rightarrow> bool option" where
  "SOCK_UNBOUND s c = fd_isset s (mn_unbound_sockets c)"

definition SOCK_MNET :: "int \<Rightarrow> 'o client \<Rightarrow> bool option" where
  "SOCK_MNET s c = fd_isset s (mn_modelnet_sockets c)"

definition SOCK_SYS :: "int \<Rightarrow> 'o client \<Rightarrow> bool option" where
  "SOCK_SYS s c = do { u \<leftarrow> SOCK_UNBOUND s c; if u then Some False else do { m \<leftarrow> SOCK_MNET s c; Some (\<not> m) } }"

definition SOCK_HASPORT :: "int \<Rightarrow> 'o client \<Rightarrow> bool option" where
  "SOCK_HASPORT s c = fd_isset s (mn_hasport_sockets c)"

section \<open>Binding\<close>

definition bind_to :: "'o sys \<Rightarrow> int \<Rightarrow> u32 \<Rightarrow> u16 \<Rightarrow> 'o client \<Rightarrow> (int \<times> 'o client) option" where
  "bind_to f s addr port_n c =
     (let (ret, o1) = s_bind f s (Some \<lparr>sa_family = AF_INET, sin_port = port_n, sin_addr = addr\<rparr>) 16 (os c);
          c1 = c\<lparr>os := o1\<rparr> in
      if ret \<noteq> 0 then Some (ret, c1)
      else do {
        u \<leftarrow> fd_clr s (mn_unbound_sockets c1);
        m \<leftarrow> (if IS_MNET_IP addr then fd_set s (mn_modelnet_sockets c1) else fd_clr s (mn_modelnet_sockets c1));
        p \<leftarrow> (if port_n \<noteq> 0 then fd_set s (mn_hasport_sockets c1) else fd_clr s (mn_hasport_sockets c1));
        Some (ret, c1\<lparr>mn_unbound_sockets := u, mn_modelnet_sockets := m, mn_hasport_sockets := p\<rparr>) })"

definition rebind_to :: "'o sys \<Rightarrow> int \<Rightarrow> u32 \<Rightarrow> 'o client \<Rightarrow> (int \<times> 'o client) option" where
  "rebind_to f s addr c =
     (let (name, o1) = s_getsockname f s (os c) in
      case name of
        None \<Rightarrow> Some (- 1, c\<lparr>os := o1\<rparr>)
      | Some old_sa \<Rightarrow>
          let (sock_type, o2) = s_getsockopt f s o1 in
          case sock_type of
            None \<Rightarrow> Some (- 1, c\<lparr>os := o2\<rparr>)
          | Some t \<Rightarrow>
              let (s_new, o3) = s_socket f PF_INET t 0 o2 in
              if s_new < 0 then Some (- 1, c\<lparr>os := o3\<rparr>)
              else
                let (d, o4) = s_dup2 f s_new s o3 in
                if d = - 1 then Some (- 1, c\<lparr>os := s_close f s_new o4\<rparr>)
                else do {
                  (err, c1) \<leftarrow> bind_to f s addr (sin_port old_sa) (c\<lparr>os := s_close f s_new o4\<rparr>);
                  if err = 0 then Some (err, c1)
                  else do {
                    hp \<leftarrow> SOCK_HASPORT s c1;
                    if \<not> hp then bind_to f s addr 0 c1 else Some (err, c1) } })"

definition rebind_if_needed :: "'o sys \<Rightarrow> int \<Rightarrow> u32 \<Rightarrow> 'o client \<Rightarrow> (int \<times> 'o client) option" where
  "rebind_if_needed f s dest c =
     (if IS_MNET_IP dest then do {
        u \<leftarrow> SOCK_UNBOUND s c;
        if u then bind_to f s (mn_localip c) 0 c
        else do {
          y \<leftarrow> SOCK_SYS s c;
          if y then rebind_to f s (mn_localip c) c else Some (0, c) } }
      else do {
        u \<leftarrow> SOCK_UNBOUND s c;
        if u then bind_to f s INADDR_ANY 0 c
        else do {
          m \<leftarrow> SOCK_MNET s c;
          if m then rebind_to f s INADDR_ANY c else Some (0, c) } })"

section \<open>The intercepted calls\<close>

definition mn_socket :: "'o sys \<Rightarrow> int \<Rightarrow> int \<Rightarrow> int \<Rightarrow> 'o client \<Rightarrow> (int \<times> 'o client) option" where
  "mn_socket f domain type protocol c =
     (let (s, o1) = s_socket f domain type protocol (os c); c1 = c\<lparr>os := o1\<rparr> in
      if 0 \<le> s \<and> domain = PF_INET then
        if \<not> s < FD_SETSIZE then None
        else do {
          u \<leftarrow> fd_set s (mn_unbound_sockets c1);
          m \<leftarrow> fd_clr s (mn_modelnet_sockets c1);
          p \<leftarrow> fd_clr s (mn_hasport_sockets c1);
          Some (s, c1\<lparr>mn_unbound_sockets := u, mn_modelnet_sockets := m, mn_hasport_sockets := p\<rparr>) }
      else Some (s, c1))"

definition mn_bind :: "'o sys \<Rightarrow> int \<Rightarrow> sockaddr option \<Rightarrow> int \<Rightarrow> 'o client \<Rightarrow> (int \<times> 'o client) option" where
  "mn_bind f s my_addr addrlen c =
     (case my_addr of
        Some sa \<Rightarrow>
          if IS_INET_ADDR my_addr addrlen \<and> mn_localip c \<noteq> 0
          then bind_to f s (mn_localip c) (sin_port sa) c
          else (let (r, o1) = s_bind f s my_addr addrlen (os c) in Some (r, c\<lparr>os := o1\<rparr>))
      | None \<Rightarrow> (let (r, o1) = s_bind f s my_addr addrlen (os c) in Some (r, c\<lparr>os := o1\<rparr>)))"

text \<open>What \<open>connect\<close>, \<open>sendto\<close> and \<open>sendmsg\<close> do to a destination: the socket is bound to the
  right side first (the result of that is not looked at), then a modelnet destination other than
  the own address gets the magic bit, in a copy.\<close>

definition magic_dest :: "sockaddr option \<Rightarrow> int \<Rightarrow> 'o client \<Rightarrow> sockaddr option \<times> int" where
  "magic_dest to tolen c =
     (case to of
        None \<Rightarrow> (to, tolen)
      | Some sa \<Rightarrow>
          if \<not> mn_keep_dstip c \<and> IS_MNET_IP (sin_addr sa) \<and> mn_localip c \<noteq> 0 \<and> sin_addr sa \<noteq> mn_localip c
          then (Some (sa\<lparr>sin_addr := sin_addr sa OR MNET_MAGIC_BIT\<rparr>), 16)
          else (to, tolen))"

definition prepare_dest :: "'o sys \<Rightarrow> int \<Rightarrow> sockaddr option \<Rightarrow> int \<Rightarrow> 'o client
    \<Rightarrow> (sockaddr option \<times> int \<times> 'o client) option" where
  "prepare_dest f s to tolen c =
     (case to of
        Some sa \<Rightarrow>
          if IS_INET_ADDR to tolen then do {
            (r, c1) \<leftarrow> rebind_if_needed f s (sin_addr sa) c;
            let (to', len') = magic_dest to tolen c1;
            Some (to', len', c1) }
          else Some (to, tolen, c)
      | None \<Rightarrow> Some (to, tolen, c))"

definition mn_connect :: "'o sys \<Rightarrow> int \<Rightarrow> sockaddr option \<Rightarrow> int \<Rightarrow> 'o client \<Rightarrow> (int \<times> 'o client) option" where
  "mn_connect f s serv_addr addrlen c = do {
     (a, l, c1) \<leftarrow> prepare_dest f s serv_addr addrlen c;
     let (r, o1) = s_connect f s a l (os c1);
     Some (r, c1\<lparr>os := o1\<rparr>) }"

definition mn_sendto :: "'o sys \<Rightarrow> int \<Rightarrow> u8 list \<Rightarrow> int \<Rightarrow> sockaddr option \<Rightarrow> int \<Rightarrow> 'o client
    \<Rightarrow> (int \<times> 'o client) option" where
  "mn_sendto f s msg flags to tolen c = do {
     (a, l, c1) \<leftarrow> prepare_dest f s to tolen c;
     let (r, o1) = s_sendto f s msg flags a l (os c1);
     Some (r, c1\<lparr>os := o1\<rparr>) }"

text \<open>\<open>sendmsg\<close> and \<open>recvmsg\<close>: the header's name, its length and the rest, which is passed on.\<close>

definition mn_sendmsg :: "'o sys \<Rightarrow> int \<Rightarrow> u8 list \<Rightarrow> int \<Rightarrow> sockaddr option \<Rightarrow> int \<Rightarrow> 'o client
    \<Rightarrow> (int \<times> 'o client) option" where
  "mn_sendmsg f s iov flags msg_name msg_namelen c = do {
     (a, l, c1) \<leftarrow> prepare_dest f s msg_name msg_namelen c;
     let (r, o1) = s_sendmsg f s iov flags a l (os c1);
     Some (r, c1\<lparr>os := o1\<rparr>) }"

text \<open>The receiving side takes the bit off again, whatever the system call answered.\<close>

definition clear_magic :: "sockaddr option \<Rightarrow> int \<Rightarrow> 'o client \<Rightarrow> sockaddr option" where
  "clear_magic from fromlen c =
     (case from of
        None \<Rightarrow> None
      | Some sa \<Rightarrow>
          if IS_INET_ADDR from fromlen \<and> \<not> mn_keep_dstip c \<and> IS_MNET_IP (sin_addr sa)
          then Some (sa\<lparr>sin_addr := sin_addr sa AND NOT MNET_MAGIC_BIT\<rparr>)
          else from)"

definition mn_recvfrom :: "'o sys \<Rightarrow> int \<Rightarrow> int \<Rightarrow> sockaddr option \<Rightarrow> int \<Rightarrow> 'o client
    \<Rightarrow> int \<times> u8 list \<times> sockaddr option \<times> int \<times> 'o client" where
  "mn_recvfrom f s flags from fromlen c =
     (let (ret, buf, a, l, o1) = s_recvfrom f s flags from fromlen (os c) in
      (ret, buf, clear_magic a l c, l, c\<lparr>os := o1\<rparr>))"

definition mn_recvmsg :: "'o sys \<Rightarrow> int \<Rightarrow> int \<Rightarrow> sockaddr option \<Rightarrow> int \<Rightarrow> 'o client
    \<Rightarrow> int \<times> u8 list \<times> sockaddr option \<times> int \<times> 'o client" where
  "mn_recvmsg f s flags msg_name msg_namelen c =
     (let (ret, buf, a, l, o1) = s_recvmsg f s flags msg_name msg_namelen (os c) in
      (ret, buf, clear_magic a l c, l, c\<lparr>os := o1\<rparr>))"

definition mn_getpeername :: "'o sys \<Rightarrow> int \<Rightarrow> sockaddr option \<Rightarrow> int \<Rightarrow> 'o client
    \<Rightarrow> int \<times> sockaddr option \<times> int \<times> 'o client" where
  "mn_getpeername f s name namelen c =
     (let (ret, a, l, o1) = s_getpeername f s name namelen (os c) in
      (ret, clear_magic a l c, l, c\<lparr>os := o1\<rparr>))"

end
