(* ===== verification/Client_Hosts.thy ===== *)
theory Client_Hosts
  imports Client_Sockets "HOL-Library.Char_ord"
begin

text \<open>
  client/libipaddr.c: dotted addresses, the cache of virtual host names (139 chains, moved to front
  on a hit), the hosts file and the name calls. The hosts file is an argument: \<open>None\<close> when it
  cannot be opened, else the lines as \<open>sscanf\<close> reads them. A fault is a write outside a buffer of
  256 bytes, or the use of the variable \<open>filename\<close>, which the code never assigns. Chains are
  lists; the system's own name service is a parameter.
\<close>

section \<open>dots_to_ip\<close>

text \<open>\<open>strtoul\<close> in base 10: white space, a sign, digits; saturated at the largest
  \<open>unsigned long\<close>. Without digits the rest is the whole string.\<close>

definition digit_val :: "char \<Rightarrow> nat" where
  "digit_val ch = of_char ch - 48"

definition is_digit :: "char \<Rightarrow> bool" where
  "is_digit ch \<longleftrightarrow> 48 \<le> (of_char ch :: nat) \<and> (of_char ch :: nat) \<le> 57"

definition is_space :: "char \<Rightarrow> bool" where
  "is_space ch \<longleftrightarrow> (of_char ch :: nat) = 32 \<or> 9 \<le> (of_char ch :: nat) \<and> (of_char ch :: nat) \<le> 13"

definition digits_val :: "string \<Rightarrow> nat" where
  "digits_val ds = foldl (\<lambda>n ch. 10 * n + digit_val ch) 0 ds"

definition strtoul :: "string \<Rightarrow> u64 \<times> string" where
  "strtoul s =
     (let s1 = dropWhile is_space s;
          neg = (case s1 of ch # _ \<Rightarrow> ch = CHR ''-'' | [] \<Rightarrow> False);
          s2 = (case s1 of ch # r \<Rightarrow> if ch = CHR ''-'' \<or> ch = CHR ''+'' then r else s1 | [] \<Rightarrow> s1);
          ds = takeWhile is_digit s2;
          n = digits_val ds;
          v = (if 2 ^ 64 \<le> n then - 1 else if neg then - of_nat n else of_nat n)
      in if ds = [] then (0, s) else (v, dropWhile is_digit s2))"

text \<open>One field that must be followed by a dot: its value and what follows the dot.\<close>

definition dotted_field :: "string \<Rightarrow> (u32 \<times> string) option" where
  "dotted_field s =
     (let (v, rest) = strtoul s in
      if rest = s then None
      else case rest of ch # r \<Rightarrow> if ch = CHR ''.'' then Some (ucast v, r) else None | [] \<Rightarrow> None)"

definition dots_to_ip :: "string option \<Rightarrow> u32" where
  "dots_to_ip str =
     (case str of
        None \<Rightarrow> 0
      | Some s \<Rightarrow>
          (case (do {
                  (a, s1) \<leftarrow> dotted_field s;
                  (b, s2) \<leftarrow> dotted_field s1;
                  (c, s3) \<leftarrow> dotted_field s2;
                  let (d, rest) = strtoul s3;
                  if rest = s3 then None
                  else Some (MAKE_IP a b c (ucast d)) }) of
             None \<Rightarrow> 0
           | Some ip \<Rightarrow> ip))"

section \<open>The cache\<close>

record name_ip =
  vname :: string
  mname :: string
  ip :: u32

definition NAME_HASH_SLOTS :: nat where "NAME_HASH_SLOTS = 139"

text \<open>\<open>h = (h<<5)-h + *str++\<close>, with a signed \<open>char\<close>.\<close>

definition hash_step :: "u32 \<Rightarrow> char \<Rightarrow> u32" where
  "hash_step h ch = push_bit 5 h - h + word_of_int (signed_take_bit 7 (of_char ch))"

definition hash_string :: "string \<Rightarrow> u32" where
  "hash_string s = foldl hash_step 0 s"

definition name_slot :: "string \<Rightarrow> nat" where
  "name_slot s = unat (hash_string s) mod NAME_HASH_SLOTS"

text \<open>The first entry of a chain that satisfies a test, with the chain after it was moved to the
  front.\<close>

fun find_front :: "(name_ip \<Rightarrow> bool) \<Rightarrow> name_ip list \<Rightarrow> (name_ip \<times> name_ip list) option" where
  "find_front P [] = None"
| "find_front P (b # bs) =
     (if P b then Some (b, b # bs)
      else do {
        (x, r) \<leftarrow> find_front P bs;
        Some (x, x # b # tl r) })"

type_synonym name_table = "name_ip list list"

definition get_name_hash :: "string \<Rightarrow> name_table \<Rightarrow> (name_ip \<times> name_table) option" where
  "get_name_hash v tab =
     (let slot = name_slot v in
      case find_front (\<lambda>b. vname b = v) (tab ! slot) of
        None \<Rightarrow> None
      | Some (b, chain) \<Rightarrow> Some (b, tab[slot := chain]))"

fun scan_slots :: "u32 \<Rightarrow> nat list \<Rightarrow> name_table \<Rightarrow> (name_ip \<times> name_table) option" where
  "scan_slots a [] tab = None"
| "scan_slots a (slot # slots) tab =
     (case find_front (\<lambda>b. ip b = a) (tab ! slot) of
        None \<Rightarrow> scan_slots a slots tab
      | Some (b, chain) \<Rightarrow> Some (b, tab[slot := chain]))"

definition get_ip_hash :: "u32 \<Rightarrow> name_table \<Rightarrow> (name_ip \<times> name_table) option" where
  "get_ip_hash a tab = scan_slots a [0..<NAME_HASH_SLOTS] tab"

text \<open>\<open>malloc\<close> is taken to succeed.\<close>

definition put_name_hash :: "string \<Rightarrow> u32 \<Rightarrow> string \<Rightarrow> name_table \<Rightarrow> name_table" where
  "put_name_hash v a m tab =
     (let slot = name_slot v in tab[slot := \<lparr>vname = v, mname = m, ip = a\<rparr> # tab ! slot])"

section \<open>The hosts file\<close>

text \<open>A line: skipped (a comment, or it starts with white space), an entry
  \<open>name a.b.c.d # on machine\<close>, or anything else.\<close>

datatype hosts_line = Skipped | Entry string u32 u32 u32 u32 string | Malformed

record hosts =
  hostsfile :: bool
  use_mdb_hosts :: bool
  use_cache :: bool
  cache_preload :: bool
  name_hash :: name_table
  mn_localhost :: "string option"
  open_files :: nat

definition init_hostname_cache :: "string option \<Rightarrow> hosts \<Rightarrow> hosts" where
  "init_hostname_cache policy s =
     (if \<not> hostsfile s then s
      else
        let s1 = s\<lparr>use_mdb_hosts := True\<rparr>;
            p = (case policy of None \<Rightarrow> ''default'' | Some p \<Rightarrow> p) in
        if p = ''nopreload'' then s1\<lparr>use_cache := True, cache_preload := False\<rparr>
        else if p = ''preload'' then s1\<lparr>use_cache := True, cache_preload := True\<rparr>
        else if p = ''disable'' then s1\<lparr>cache_preload := False, use_cache := False\<rparr>
        else s1\<lparr>use_cache := True, cache_preload := True\<rparr>)"

definition fits :: "string \<Rightarrow> bool" where
  "fits s \<longleftrightarrow> length s < 256"

text \<open>The loop over the lines, for a test on an entry. \<open>found\<close> is the last match so far; the
  entry itself is what both functions copy out.\<close>

fun scan_hosts :: "(name_ip \<Rightarrow> bool) \<Rightarrow> hosts_line list \<Rightarrow> name_ip option \<Rightarrow> hosts \<Rightarrow> (name_ip option \<times> hosts) option" where
  "scan_hosts P [] found s = Some (found, s)"
| "scan_hosts P (Skipped # ls) found s = scan_hosts P ls found s"
| "scan_hosts P (Malformed # ls) found s = None"
| "scan_hosts P (Entry v a b c d m # ls) found s =
     (if \<not> (fits v \<and> fits m) then None
      else
        let e = \<lparr>vname = v, mname = m, ip = htonl (MAKE_IP a b c d)\<rparr>;
            s1 = (if cache_preload s then s\<lparr>name_hash := put_name_hash v (ip e) m (name_hash s)\<rparr> else s) in
        if P e then
          if cache_preload s1 then scan_hosts P ls (Some e) s1
          else Some (Some e, if use_cache s1 then s1\<lparr>name_hash := put_name_hash v (ip e) m (name_hash s1)\<rparr> else s1)
        else scan_hosts P ls found s1)"

text \<open>\<open>find_name\<close> and \<open>find_ip\<close>: the entry found, or none (the C return value 1). A file
  that is opened is not closed again.\<close>

definition find_name :: "hosts_line list option \<Rightarrow> string \<Rightarrow> hosts \<Rightarrow> (name_ip option \<times> hosts) option" where
  "find_name file v s =
     (if \<not> use_mdb_hosts s then Some (None, s)
      else case (if use_cache s then get_name_hash v (name_hash s) else None) of
        Some (e, tab) \<Rightarrow> Some (Some e, s\<lparr>name_hash := tab\<rparr>)
      | None \<Rightarrow>
          if \<not> hostsfile s then Some (None, s)
          else case file of
            None \<Rightarrow> None
          | Some ls \<Rightarrow> scan_hosts (\<lambda>e. vname e = v) ls None (s\<lparr>open_files := open_files s + 1\<rparr>))"

definition find_ip :: "hosts_line list option \<Rightarrow> u32 \<Rightarrow> hosts \<Rightarrow> (name_ip option \<times> hosts) option" where
  "find_ip file a s =
     (if \<not> use_mdb_hosts s then Some (None, s)
      else case (if use_cache s then get_ip_hash a (name_hash s) else None) of
        Some (e, tab) \<Rightarrow> Some (Some e, s\<lparr>name_hash := tab\<rparr>)
      | None \<Rightarrow>
          if \<not> hostsfile s then Some (None, s)
          else case file of
            None \<Rightarrow> None
          | Some ls \<Rightarrow> scan_hosts (\<lambda>e. ip e = a) ls None (s\<lparr>open_files := open_files s + 1\<rparr>))"

section \<open>The name calls\<close>

record hostent =
  h_name :: string
  h_alias :: string
  h_addr :: u32

text \<open>The answer: a \<open>hostent\<close> of the library, or that of the system call it passes on to.\<close>

datatype 'r answer = Own hostent | System 'r

definition mn_gethostbyname :: "(string \<Rightarrow> 'r) \<Rightarrow> hosts_line list option \<Rightarrow> string \<Rightarrow> hosts
    \<Rightarrow> ('r answer \<times> hosts) option" where
  "mn_gethostbyname f file name s = do {
     let v = (case mn_localhost s of Some l \<Rightarrow> if name = ''localhost'' then l else name | None \<Rightarrow> name);
     (r, s1) \<leftarrow> find_name file v s;
     Some (case r of
        Some e \<Rightarrow> (Own \<lparr>h_name = take 256 v, h_alias = mname e, h_addr = ip e\<rparr>, s1)
      | None \<Rightarrow> (System (f name), s1)) }"

definition mn_gethostbyname2 :: "(string \<Rightarrow> 'r) \<Rightarrow> (string \<Rightarrow> int \<Rightarrow> 'r) \<Rightarrow> hosts_line list option \<Rightarrow> string \<Rightarrow> int
    \<Rightarrow> hosts \<Rightarrow> ('r answer \<times> hosts) option" where
  "mn_gethostbyname2 f f2 file name af s =
     (if af = 2 then mn_gethostbyname f file name s else Some (System (f2 name af), s))"

definition mn_gethostbyaddr :: "(u32 \<Rightarrow> int \<Rightarrow> int \<Rightarrow> 'r) \<Rightarrow> hosts_line list option \<Rightarrow> u32 \<Rightarrow> int \<Rightarrow> int
    \<Rightarrow> hosts \<Rightarrow> ('r answer \<times> hosts) option" where
  "mn_gethostbyaddr f file addr len type s =
     (if type = 2 \<and> 4 \<le> len then do {
        (r, s1) \<leftarrow> find_ip file addr s;
        Some (case r of
           Some e \<Rightarrow> (Own \<lparr>h_name = vname e, h_alias = mname e, h_addr = addr\<rparr>, s1)
         | None \<Rightarrow> (System (f addr len type), s1)) }
      else Some (System (f addr len type), s))"

text \<open>\<open>strncpy\<close> fills the rest of the buffer with zeros and does not terminate a name that fills it.\<close>

definition strncpy :: "string \<Rightarrow> nat \<Rightarrow> string" where
  "strncpy src n = take n (src @ replicate n (CHR 0x00))"

definition mn_gethostname :: "(nat \<Rightarrow> int \<times> string) \<Rightarrow> nat \<Rightarrow> hosts \<Rightarrow> int \<times> string" where
  "mn_gethostname f namelen s =
     (case mn_localhost s of Some l \<Rightarrow> (0, strncpy l namelen) | None \<Rightarrow> f namelen)"

text \<open>What \<open>init\<close> sets up from the environment variables SRCIP, MN_LOCALHOST, HOSTS or MN_MDB,
  MN_HOSTNAME_CACHE and KEEP_DSTIP.\<close>

definition init_client :: "string option \<Rightarrow> string option \<Rightarrow> bool \<Rightarrow> string option \<Rightarrow> bool
    \<Rightarrow> hosts_line list option \<Rightarrow> 'o \<Rightarrow> ('o client \<times> hosts) option" where
  "init_client srcip localhost has_hosts policy keep file o0 =
     (let c = \<lparr>mn_localip = htonl (dots_to_ip srcip), mn_keep_dstip = keep, mn_unbound_sockets = {},
            mn_modelnet_sockets = {}, mn_hasport_sockets = {}, os = o0\<rparr>;
          s = init_hostname_cache policy \<lparr>hostsfile = has_hosts, use_mdb_hosts = False, use_cache = False,
            cache_preload = False, name_hash = replicate NAME_HASH_SLOTS [], mn_localhost = localhost,
            open_files = 0\<rparr> in
      if localhost = None \<and> mn_localip c \<noteq> 0 \<and> has_hosts then do {
        (r, s1) \<leftarrow> find_ip file (mn_localip c) s;
        Some (c, s1\<lparr>mn_localhost := Some (case r of Some e \<Rightarrow> vname e | None \<Rightarrow> [])\<rparr>) }
      else Some (c, s))"

end
