(* ===== verification/Client_Props.thy ===== *)
theory Client_Props
  imports Client_Hosts
begin

text \<open>
  What the client library promises an application: its record of how sockets are bound agrees with
  the system's, destinations and sources are translated there and back, names resolve alike from
  the file and from the cache.
\<close>

section \<open>Sockets\<close>

text \<open>What the system calls do, as far as the library relies on it. \<open>fds o s\<close> is the socket the
  descriptor \<open>s\<close> stands for, if it is in use; descriptors made by \<open>dup\<close> stand for the same socket.
  \<open>bound o k\<close> is the address the socket \<open>k\<close> is bound to, if it is.\<close>

definition sys_laws :: "'o sys \<Rightarrow> ('o \<Rightarrow> int \<Rightarrow> nat option) \<Rightarrow> ('o \<Rightarrow> nat \<Rightarrow> u32 option) \<Rightarrow> bool" where
  "sys_laws f fds bound \<longleftrightarrow>
     (\<forall>s sa l o1 r o2. s_bind f s (Some sa) l o1 = (r, o2) \<longrightarrow> fds o2 = fds o1 \<and>
        (if r = 0 then \<exists>k. fds o1 s = Some k \<and> bound o2 = (bound o1)(k := Some (sin_addr sa)) else bound o2 = bound o1)) \<and>
     (\<forall>s o1 n o2. s_getsockname f s o1 = (n, o2) \<longrightarrow> fds o2 = fds o1 \<and> bound o2 = bound o1) \<and>
     (\<forall>s o1 n o2. s_getsockopt f s o1 = (n, o2) \<longrightarrow> fds o2 = fds o1 \<and> bound o2 = bound o1) \<and>
     (\<forall>d t p o1 n o2. s_socket f d t p o1 = (n, o2) \<longrightarrow>
        (if n < 0 then fds o2 = fds o1 \<and> bound o2 = bound o1
         else fds o1 n = None \<and> (\<exists>k. k \<notin> ran (fds o1) \<and> fds o2 = (fds o1)(n \<mapsto> k) \<and> bound o2 = (bound o1)(k := None)))) \<and>
     (\<forall>n s o1 r o2. s_dup2 f n s o1 = (r, o2) \<longrightarrow>
        bound o2 = bound o1 \<and> fds o2 = (if r = - 1 then fds o1 else (fds o1)(s := fds o1 n))) \<and>
     (\<forall>n o1. fds (s_close f n o1) = (fds o1)(n := None) \<and> bound (s_close f n o1) = bound o1)"

lemma sys_bind:
  assumes "sys_laws f fds bound" "s_bind f s (Some sa) l o1 = (r, o2)"
  shows "fds o2 = fds o1" "r = 0 \<Longrightarrow> fds o1 s = Some k \<Longrightarrow> bound o2 = (bound o1)(k := Some (sin_addr sa))"
    "r \<noteq> 0 \<Longrightarrow> bound o2 = bound o1"
proof -
  have "fds o2 = fds o1 \<and>
     (if r = 0 then \<exists>k. fds o1 s = Some k \<and> bound o2 = (bound o1)(k := Some (sin_addr sa)) else bound o2 = bound o1)"
    by (rule assms(1) [unfolded sys_laws_def, THEN conjunct1, rule_format, OF assms(2)])
  then show "fds o2 = fds o1" "r = 0 \<Longrightarrow> fds o1 s = Some k \<Longrightarrow> bound o2 = (bound o1)(k := Some (sin_addr sa))"
    "r \<noteq> 0 \<Longrightarrow> bound o2 = bound o1" by auto
qed

lemma sys_getsockname: "sys_laws f fds bound \<Longrightarrow> s_getsockname f s o1 = (n, o2) \<Longrightarrow> fds o2 = fds o1 \<and> bound o2 = bound o1"
  by (simp add: sys_laws_def)

lemma sys_getsockopt: "sys_laws f fds bound \<Longrightarrow> s_getsockopt f s o1 = (n', o2) \<Longrightarrow> fds o2 = fds o1 \<and> bound o2 = bound o1"
  by (simp add: sys_laws_def)

lemma sys_socket:
  assumes "sys_laws f fds bound" "s_socket f d t p o1 = (n, o2)" "0 \<le> n"
  obtains k where "fds o1 n = None" "k \<notin> ran (fds o1)" "fds o2 = (fds o1)(n \<mapsto> k)" "bound o2 = (bound o1)(k := None)"
proof -
  have "if n < 0 then fds o2 = fds o1 \<and> bound o2 = bound o1
     else fds o1 n = None \<and> (\<exists>k. k \<notin> ran (fds o1) \<and> fds o2 = (fds o1)(n \<mapsto> k) \<and> bound o2 = (bound o1)(k := None))"
    by (rule assms(1) [unfolded sys_laws_def, THEN conjunct2, THEN conjunct2, THEN conjunct2, THEN conjunct1,
          rule_format, OF assms(2)])
  then show ?thesis using that assms(3) by auto
qed

lemma sys_socket_fails:
  "sys_laws f fds bound \<Longrightarrow> s_socket f d t p o1 = (n, o2) \<Longrightarrow> n < 0 \<Longrightarrow> fds o2 = fds o1 \<and> bound o2 = bound o1"
  unfolding sys_laws_def by metis

lemma sys_dup2: "sys_laws f fds bound \<Longrightarrow> s_dup2 f n s o1 = (r, o2) \<Longrightarrow>
    bound o2 = bound o1 \<and> fds o2 = (if r = - 1 then fds o1 else (fds o1)(s := fds o1 n))"
  by (simp add: sys_laws_def)

lemma sys_close: "sys_laws f fds bound \<Longrightarrow> fds (s_close f n o1) = (fds o1)(n := None) \<and> bound (s_close f n o1) = bound o1"
  by (simp add: sys_laws_def)

text \<open>The library's three states of a socket against the system's; a set of descriptors for which
  they agree, each the only one that stands for its socket.\<close>

definition tracks :: "('o \<Rightarrow> int \<Rightarrow> nat option) \<Rightarrow> ('o \<Rightarrow> nat \<Rightarrow> u32 option) \<Rightarrow> 'o client \<Rightarrow> int \<Rightarrow> bool" where
  "tracks fds bound c s \<longleftrightarrow> (\<exists>k. fds (os c) s = Some k \<and>
     (case bound (os c) k of
        None \<Rightarrow> s \<in> mn_unbound_sockets c \<and> s \<notin> mn_modelnet_sockets c
      | Some a \<Rightarrow> s \<notin> mn_unbound_sockets c \<and> (s \<in> mn_modelnet_sockets c \<longleftrightarrow> IS_MNET_IP a)))"

definition own :: "('o \<Rightarrow> int \<Rightarrow> nat option) \<Rightarrow> 'o client \<Rightarrow> int \<Rightarrow> nat \<Rightarrow> bool" where
  "own fds c s k \<longleftrightarrow> fd_ok s \<and> fds (os c) s = Some k \<and> (\<forall>s'. s' \<noteq> s \<longrightarrow> fds (os c) s' \<noteq> Some k)"

definition sockets_ok :: "('o \<Rightarrow> int \<Rightarrow> nat option) \<Rightarrow> ('o \<Rightarrow> nat \<Rightarrow> u32 option) \<Rightarrow> 'o client \<Rightarrow> int set \<Rightarrow> bool" where
  "sockets_ok fds bound c S \<longleftrightarrow> (\<forall>s \<in> S. tracks fds bound c s \<and> (\<exists>k. own fds c s k))"

lemma sockets_sub: "sockets_ok fds bound c S \<Longrightarrow> T \<subseteq> S \<Longrightarrow> sockets_ok fds bound c T"
  by (auto simp: sockets_ok_def)

lemma sockets_cong:
  assumes "fds (os c') = fds (os c)" "bound (os c') = bound (os c)"
    and "mn_unbound_sockets c' = mn_unbound_sockets c" "mn_modelnet_sockets c' = mn_modelnet_sockets c"
  shows "sockets_ok fds bound c' S = sockets_ok fds bound c S"
  unfolding sockets_ok_def tracks_def own_def assms by (rule refl)

lemma sockets_os:
  assumes "c' = c\<lparr>os := os c'\<rparr>" "fds (os c') = fds (os c)" "bound (os c') = bound (os c)" "sockets_ok fds bound c S"
  shows "sockets_ok fds bound c' S"
proof -
  have "mn_unbound_sockets c' = mn_unbound_sockets c" "mn_modelnet_sockets c' = mn_modelnet_sockets c"
    by (subst assms(1), simp)+
  then show ?thesis using sockets_cong [of fds c' c bound S] assms(2-4) by simp
qed

lemma sockets_insert:
  "sockets_ok fds bound c (insert s S) \<longleftrightarrow> tracks fds bound c s \<and> (\<exists>k. own fds c s k) \<and> sockets_ok fds bound c (S - {s})"
  by (auto simp: sockets_ok_def)

text \<open>An operation on \<open>s\<close> and on a socket that no other descriptor of \<open>S\<close> stands for leaves the others alone.\<close>

lemma sockets_others:
  assumes "sockets_ok fds bound c S" "s \<notin> S" "\<And>s'. s' \<noteq> s \<Longrightarrow> fds (os c') s' = fds (os c) s'"
    and "fds (os c') s = fds (os c) s \<or> fds (os c') s = None \<or> fds (os c') s = Some k \<and> (\<forall>s' \<in> S. fds (os c) s' \<noteq> Some k)"
    and "\<And>s' j. s' \<in> S \<Longrightarrow> fds (os c) s' = Some j \<Longrightarrow> bound (os c') j = bound (os c) j"
    and "mn_unbound_sockets c' - {s} = mn_unbound_sockets c - {s}" "mn_modelnet_sockets c' - {s} = mn_modelnet_sockets c - {s}"
  shows "sockets_ok fds bound c' S"
  unfolding sockets_ok_def
proof
  fix s' assume s': "s' \<in> S"
  then have n: "s' \<noteq> s" using assms(2) by blast
  then have u: "s' \<in> mn_unbound_sockets c' \<longleftrightarrow> s' \<in> mn_unbound_sockets c" "s' \<in> mn_modelnet_sockets c' \<longleftrightarrow> s' \<in> mn_modelnet_sockets c"
    using assms(6,7) by blast+
  obtain j where j: "tracks fds bound c s'" "own fds c s' j" "fds (os c) s' = Some j"
    using assms(1) s' by (auto simp: sockets_ok_def own_def)
  have "bound (os c') j = bound (os c) j" by (rule assms(5) [OF s' j(3)])
  then have "tracks fds bound c' s'" using assms(3) [OF n] j(1,3) by (auto simp: tracks_def u split: option.splits)
  moreover have "own fds c' s' j" unfolding own_def
  proof (intro conjI allI impI)
    show "fd_ok s'" "fds (os c') s' = Some j" using j(2) assms(3) [OF n] by (simp_all add: own_def)
    show "fds (os c') t \<noteq> Some j" if "t \<noteq> s'" for t
      using that j(2,3) assms(3) [of t] assms(4) s' by (cases "t = s") (auto simp: own_def)
  qed
  ultimately show "tracks fds bound c' s' \<and> (\<exists>k. own fds c' s' k)" by blast
qed

lemma bind_to_ok:
  assumes laws: "sys_laws f fds bound" and s: "own fds c s k" and ok: "sockets_ok fds bound c (S - {s})"
  shows "\<exists>r c'. bind_to f s addr port c = Some (r, c') \<and> mn_localip c' = mn_localip c \<and> own fds c' s k \<and>
     sockets_ok fds bound c' (S - {s}) \<and>
     (r = 0 \<longrightarrow> sockets_ok fds bound c' (insert s S) \<and> bound (os c') k = Some addr) \<and>
     (r \<noteq> 0 \<longrightarrow> c' = c\<lparr>os := os c'\<rparr> \<and> fds (os c') = fds (os c) \<and> bound (os c') = bound (os c))"
proof -
  obtain r o1 where b: "s_bind f s (Some \<lparr>sa_family = AF_INET, sin_port = port, sin_addr = addr\<rparr>) 16 (os c) = (r, o1)"
    by fastforce
  have fd: "fd_ok s" "fds (os c) s = Some k" using s by (simp_all add: own_def)
  note l = sys_bind [OF laws b]
  let ?u = "mn_unbound_sockets c - {s}"
  let ?m = "if IS_MNET_IP addr then insert s (mn_modelnet_sockets c) else mn_modelnet_sockets c - {s}"
  let ?p = "if port \<noteq> 0 then insert s (mn_hasport_sockets c) else mn_hasport_sockets c - {s}"
  let ?c = "if r = 0 then c\<lparr>os := o1, mn_unbound_sockets := ?u, mn_modelnet_sockets := ?m, mn_hasport_sockets := ?p\<rparr>
    else c\<lparr>os := o1\<rparr>"
  have run: "bind_to f s addr port c = Some (r, ?c)" using b fd by (simp add: bind_to_def fd_set_def fd_clr_def Let_def)
  have o: "own fds ?c s k" using s l(1) by (simp add: own_def)
  have rest: "sockets_ok fds bound ?c (S - {s})"
  proof (rule sockets_others [OF ok])
    show "bound (os ?c) j = bound (os c) j" if "s' \<in> S - {s}" "fds (os c) s' = Some j" for s' j
      using l(2) [OF _ fd(2)] l(3) that s by (auto simp: own_def)
  qed (use l(1) in auto)
  show ?thesis
  proof (cases "r = 0")
    case True
    then have "bound (os ?c) k = Some addr" using l(2) [OF _ fd(2)] by simp
    moreover from this have "tracks fds bound ?c s" using True l(1) fd by (simp add: tracks_def)
    ultimately show ?thesis using run o rest True by (auto simp: sockets_insert)
  next
    case False
    then show ?thesis using run o rest l(1,3) by simp
  qed
qed

lemma rebind_to_ok:
  assumes laws: "sys_laws f fds bound" and ok: "sockets_ok fds bound c S" "s \<in> S"
  shows "\<exists>r c'. rebind_to f s addr c = Some (r, c') \<and> mn_localip c' = mn_localip c \<and> sockets_ok fds bound c' (S - {s}) \<and>
     (r = 0 \<longrightarrow> sockets_ok fds bound c' S \<and> (\<exists>k. fds (os c') s = Some k \<and> bound (os c') k = Some addr))"
proof -
  obtain name o1 where 1: "s_getsockname f s (os c) = (name, o1)" by fastforce
  obtain ty o2 where 2: "s_getsockopt f s o1 = (ty, o2)" by fastforce
  have v: "fds o1 = fds (os c)" "bound o1 = bound (os c)" "fds o2 = fds (os c)" "bound o2 = bound (os c)"
    using sys_getsockname [OF laws 1] sys_getsockopt [OF laws 2] by simp_all
  have sub: "sockets_ok fds bound c (S - {s})" using sockets_sub [OF ok(1)] by blast
  have same: "sockets_ok fds bound (c\<lparr>os := o'\<rparr>) (S - {s})"
    if "fds o' = fds (os c)" "\<And>i j. fds (os c) i = Some j \<Longrightarrow> bound o' j = bound (os c) j" for o'
    by (rule sockets_others [OF sub]) (use that in auto)
  show ?thesis
  proof (cases "name = None \<or> ty = None")
    case True
    then have "\<exists>o'. rebind_to f s addr c = Some (- 1, c\<lparr>os := o'\<rparr>) \<and> fds o' = fds (os c) \<and> bound o' = bound (os c)"
      using 1 2 v by (auto simp: rebind_to_def split: option.split)
    then show ?thesis using same by auto
  next
    case False
    then obtain sa t where st: "name = Some sa" "ty = Some t" by auto
    obtain n o3 where 3: "s_socket f PF_INET t 0 o2 = (n, o3)" by fastforce
    obtain d o4 where 4: "s_dup2 f n s o3 = (d, o4)" by fastforce
    show ?thesis
    proof (cases "n < 0")
      case True
      then have "rebind_to f s addr c = Some (- 1, c\<lparr>os := o3\<rparr>)" using 1 2 3 st by (simp add: rebind_to_def)
      moreover have "fds o3 = fds (os c)" "bound o3 = bound (os c)" using sys_socket_fails [OF laws 3 True] v by simp_all
      ultimately show ?thesis using same by simp
    next
      case pos: False
      then have "0 \<le> n" by simp
      obtain k where k: "fds o2 n = None" "k \<notin> ran (fds o2)" "fds o3 = (fds o2)(n \<mapsto> k)" "bound o3 = (bound o2)(k := None)"
        by (rule sys_socket [OF laws 3 \<open>0 \<le> n\<close>])
      let ?c = "c\<lparr>os := s_close f n o4\<rparr>"
      note cl = sys_close [OF laws, of n o4]
      note du = sys_dup2 [OF laws 4]
      obtain j where j: "own fds c s j" using ok by (auto simp: sockets_ok_def)
      then have ns: "n \<noteq> s" "fd_ok s" using k(1) v(3) by (auto simp: own_def)
      have fresh: "fds (os c) s' \<noteq> Some k" for s' using k(2) v(3) by (auto simp: ran_def)
      show ?thesis
      proof (cases "d = - 1")
        case True
        have "fds (s_close f n o4) = fds (os c)" using cl du True k(1,3) v(3) by auto
        moreover have "bound (s_close f n o4) j = bound (os c) j" if "fds (os c) i = Some j" for i j
          using cl du k(4) v(4) that fresh by auto
        ultimately have "sockets_ok fds bound (c\<lparr>os := s_close f n o4\<rparr>) (S - {s})" by (rule same)
        moreover have "rebind_to f s addr c = Some (- 1, c\<lparr>os := s_close f n o4\<rparr>)"
          using 1 2 3 4 st pos True by (simp add: rebind_to_def)
        ultimately show ?thesis by simp
      next
        case False
        have f1: "fds (os ?c) = (fds (os c))(s \<mapsto> k)" using cl du False k(1,3) v(3) ns by auto
        have b1: "bound (os ?c) = (bound (os c))(k := None)" using cl du k(4) v(4) by simp
        have o: "own fds ?c s k" using ns(2) f1 fresh by (simp add: own_def)
        have rest: "sockets_ok fds bound ?c (S - {s})"
          by (rule sockets_others [where s = s and k = k, OF sub]) (use f1 b1 fresh in auto)
        have S: "insert s S = S" using ok(2) by blast
        obtain r c1 where b: "bind_to f s addr (sin_port sa) ?c = Some (r, c1)" "mn_localip c1 = mn_localip c"
          "own fds c1 s k" "sockets_ok fds bound c1 (S - {s})" "r = 0 \<longrightarrow> sockets_ok fds bound c1 S \<and> bound (os c1) k = Some addr"
          using bind_to_ok [OF laws o rest, of addr "sin_port sa"] S by auto
        obtain r2 c2 where b2: "bind_to f s addr 0 c1 = Some (r2, c2)" "mn_localip c2 = mn_localip c1"
          "own fds c2 s k" "sockets_ok fds bound c2 (S - {s})" "r2 = 0 \<longrightarrow> sockets_ok fds bound c2 S \<and> bound (os c2) k = Some addr"
          using bind_to_ok [OF laws b(3,4), of addr 0] S by auto
        have "SOCK_HASPORT s c1 = Some (s \<in> mn_hasport_sockets c1)"
          using ns(2) by (simp add: SOCK_HASPORT_def fd_isset_def)
        then have "rebind_to f s addr c = Some (if r = 0 \<or> s \<in> mn_hasport_sockets c1 then (r, c1) else (r2, c2))"
          using 1 2 3 4 st pos False b(1) b2(1) by (simp add: rebind_to_def)
        moreover have "fds (os c1) s = Some k" "fds (os c2) s = Some k" using b(3) b2(3) by (simp_all add: own_def)
        ultimately show ?thesis using b(2,4,5) b2(2,4,5) by (cases "r = 0 \<or> s \<in> mn_hasport_sockets c1") auto
      qed
    qed
  qed
qed

text \<open>The life of the sockets an application has from the library's \<open>socket\<close>, with the set of those the record is good
  for: it binds them, moves them to the side of a destination (what \<open>connect\<close>, \<open>sendto\<close> and
  \<open>sendmsg\<close> do first), closes them (the library does not notice); other calls leave the
  descriptors and the addresses alone. A socket that was bound and could not be moved is given up.
  No step makes a second descriptor for one of these sockets, as \<open>dup\<close> would.\<close>

inductive sock_step :: "'o sys \<Rightarrow> ('o \<Rightarrow> int \<Rightarrow> nat option) \<Rightarrow> ('o \<Rightarrow> nat \<Rightarrow> u32 option)
    \<Rightarrow> 'o client \<times> int set \<Rightarrow> 'o client \<times> int set \<Rightarrow> bool" for f fds bound where
  opened: "mn_socket f PF_INET t p c = Some (s, c') \<Longrightarrow>
     sock_step f fds bound (c, S) (c', if 0 \<le> s then insert s S else S)"
| named: "s \<in> S \<Longrightarrow> IS_INET_ADDR a l \<Longrightarrow> mn_bind f s a l c = Some (r, c') \<Longrightarrow> sock_step f fds bound (c, S) (c', S)"
| moved: "s \<in> S \<Longrightarrow> rebind_if_needed f s dest c = Some (r, c') \<Longrightarrow>
     sock_step f fds bound (c, S) (c', if r = 0 \<or> s \<in> mn_unbound_sockets c then S else S - {s})"
| shut: "sock_step f fds bound (c, S) (c\<lparr>os := s_close f s (os c)\<rparr>, S - {s})"
| other: "fds o' = fds (os c) \<Longrightarrow> bound o' = bound (os c) \<Longrightarrow> sock_step f fds bound (c, S) (c\<lparr>os := o'\<rparr>, S)"

definition lib_ok :: "('o \<Rightarrow> int \<Rightarrow> nat option) \<Rightarrow> ('o \<Rightarrow> nat \<Rightarrow> u32 option) \<Rightarrow> 'o client \<times> int set \<Rightarrow> bool" where
  "lib_ok fds bound x \<longleftrightarrow> sockets_ok fds bound (fst x) (snd x) \<and> IS_MNET_IP (mn_localip (fst x))"

lemma socket_ok:
  assumes laws: "sys_laws f fds bound" and ok: "sockets_ok fds bound c S" and run: "mn_socket f PF_INET t p c = Some (s, c')"
  shows "sockets_ok fds bound c' (if 0 \<le> s then insert s S else S) \<and> mn_localip c' = mn_localip c"
proof -
  obtain o1 where o1: "s_socket f PF_INET t p (os c) = (s, o1)"
    using run by (auto simp: mn_socket_def Let_def split: prod.splits if_splits Option.bind_splits)
  show ?thesis
  proof (cases "0 \<le> s")
    case False
    then have c': "c' = c\<lparr>os := o1\<rparr>" using run o1 by (simp add: mn_socket_def)
    have "fds o1 = fds (os c)" "bound o1 = bound (os c)" using sys_socket_fails [OF laws o1] False by simp_all
    then have "sockets_ok fds bound c' S" using ok sockets_cong [of fds c' c bound S] by (simp add: c')
    then show ?thesis using False c' by simp
  next
    case True
    obtain k where k: "fds (os c) s = None" "k \<notin> ran (fds (os c))" "fds o1 = (fds (os c))(s \<mapsto> k)" "bound o1 = (bound (os c))(k := None)"
      by (rule sys_socket [OF laws o1 True])
    have fd: "fd_ok s" and c': "c' = c\<lparr>os := o1, mn_unbound_sockets := insert s (mn_unbound_sockets c),
        mn_modelnet_sockets := mn_modelnet_sockets c - {s}, mn_hasport_sockets := mn_hasport_sockets c - {s}\<rparr>"
      using run o1 True by (auto simp: mn_socket_def fd_set_def fd_clr_def Let_def split: if_splits)
    have fresh: "fds (os c) s' \<noteq> Some k" for s' using k(2) by (auto simp: ran_def)
    have sub: "sockets_ok fds bound c (S - {s})" using sockets_sub [OF ok] by blast
    have "sockets_ok fds bound c' (S - {s})"
      by (rule sockets_others [where s = s and k = k, OF sub]) (use c' k fresh in auto)
    moreover have "tracks fds bound c' s" "own fds c' s k" using c' k fd fresh by (simp_all add: tracks_def own_def)
    ultimately show ?thesis using True c' by (auto simp: sockets_insert)
  qed
qed

lemma rebind_ok:
  assumes laws: "sys_laws f fds bound" and ok: "sockets_ok fds bound c S" "s \<in> S" and mnet: "IS_MNET_IP (mn_localip c)"
  shows "\<exists>r c'. rebind_if_needed f s dest c = Some (r, c') \<and> mn_localip c' = mn_localip c \<and>
     sockets_ok fds bound c' (if r = 0 \<or> s \<in> mn_unbound_sockets c then S else S - {s}) \<and>
     (r = 0 \<longrightarrow> (\<exists>k a. fds (os c') s = Some k \<and> bound (os c') k = Some a \<and> (IS_MNET_IP a \<longleftrightarrow> IS_MNET_IP dest)))"
proof -
  let ?a = "if IS_MNET_IP dest then mn_localip c else INADDR_ANY"
  have any: "\<not> IS_MNET_IP INADDR_ANY" by (simp add: IS_MNET_IP_def INADDR_ANY_def htonl_def MAKE_IP_def)
  then have side: "IS_MNET_IP ?a \<longleftrightarrow> IS_MNET_IP dest" using mnet by simp
  obtain k where k: "own fds c s k" "tracks fds bound c s" using ok by (auto simp: sockets_ok_def)
  then have fd: "fd_ok s" "fds (os c) s = Some k" by (simp_all add: own_def)
  have S: "insert s S = S" using ok(2) by blast
  have sub: "sockets_ok fds bound c (S - {s})" using sockets_sub [OF ok(1)] by blast
  note run = rebind_if_needed_def SOCK_UNBOUND_def SOCK_SYS_def SOCK_MNET_def fd_isset_def
  show ?thesis
  proof (cases "bound (os c) k")
    case None
    then have u: "s \<in> mn_unbound_sockets c" using k(2) fd(2) by (simp add: tracks_def)
    obtain r c' where b: "bind_to f s ?a 0 c = Some (r, c')" "mn_localip c' = mn_localip c" "own fds c' s k"
      "r = 0 \<longrightarrow> sockets_ok fds bound c' S \<and> bound (os c') k = Some ?a"
      "r \<noteq> 0 \<longrightarrow> c' = c\<lparr>os := os c'\<rparr> \<and> fds (os c') = fds (os c) \<and> bound (os c') = bound (os c)"
      using bind_to_ok [OF laws k(1) sub, of ?a 0] S by auto
    have "sockets_ok fds bound c' S" if "r \<noteq> 0" using sockets_os [of c' c fds bound S] that b(5) ok(1) by blast
    then show ?thesis using b u fd(1) side by (auto simp: run own_def)
  next
    case (Some a)
    then have t: "s \<notin> mn_unbound_sockets c" "s \<in> mn_modelnet_sockets c \<longleftrightarrow> IS_MNET_IP a"
      using k(2) fd(2) by (simp_all add: tracks_def)
    show ?thesis
    proof (cases "IS_MNET_IP a \<longleftrightarrow> IS_MNET_IP dest")
      case True
      then have "rebind_if_needed f s dest c = Some (0, c)" using t fd(1) by (simp add: run)
      then show ?thesis using ok(1) Some True fd(2) by auto
    next
      case False
      then have "rebind_if_needed f s dest c = rebind_to f s ?a c" using t fd(1) by (simp add: run)
      then show ?thesis using rebind_to_ok [OF laws ok, of ?a] t(1) side by auto
    qed
  qed
qed

lemma bind_call_ok:
  assumes laws: "sys_laws f fds bound" and ok: "sockets_ok fds bound c S" "s \<in> S" and mnet: "IS_MNET_IP (mn_localip c)"
    and a: "IS_INET_ADDR a l" "mn_bind f s a l c = Some (r, c')"
  shows "sockets_ok fds bound c' S \<and> mn_localip c' = mn_localip c"
proof -
  obtain sa where sa: "a = Some sa" using a(1) by (auto simp: IS_INET_ADDR_def split: option.splits)
  have "mn_localip c \<noteq> 0" using mnet by (auto simp: IS_MNET_IP_def htonl_def MAKE_IP_def)
  then have run: "bind_to f s (mn_localip c) (sin_port sa) c = Some (r, c')" using a sa by (simp add: mn_bind_def)
  obtain k where k: "own fds c s k" using ok by (auto simp: sockets_ok_def)
  have S: "insert s S = S" using ok(2) by blast
  have sub: "sockets_ok fds bound c (S - {s})" using sockets_sub [OF ok(1)] by blast
  have b: "mn_localip c' = mn_localip c" "r = 0 \<longrightarrow> sockets_ok fds bound c' S"
    "r \<noteq> 0 \<longrightarrow> c' = c\<lparr>os := os c'\<rparr> \<and> fds (os c') = fds (os c) \<and> bound (os c') = bound (os c)"
    using bind_to_ok [OF laws k sub, of "mn_localip c" "sin_port sa"] run S by auto
  have "sockets_ok fds bound c' S" if "r \<noteq> 0" using sockets_os [of c' c fds bound S] that b(3) ok(1) by blast
  then show ?thesis using b by blast
qed

lemma sock_step_ok:
  assumes laws: "sys_laws f fds bound" and step: "sock_step f fds bound x y" and ok: "lib_ok fds bound x"
  shows "lib_ok fds bound y"
  using step
proof cases
  case (opened t p c s c' S)
  then show ?thesis using socket_ok [OF laws _ opened(3), of S] ok by (simp add: lib_ok_def)
next
  case (named s S a l c r c')
  then show ?thesis using bind_call_ok [OF laws _ named(3) _ named(4,5)] ok by (simp add: lib_ok_def)
next
  case (moved s S dest c r c')
  then show ?thesis using rebind_ok [OF laws _ moved(3), of c dest] ok by (auto simp: lib_ok_def)
next
  case (shut c S s)
  have "sockets_ok fds bound c (S - {s})" using ok sockets_sub [of fds bound c S "S - {s}"] by (auto simp: lib_ok_def shut)
  then have "sockets_ok fds bound (c\<lparr>os := s_close f s (os c)\<rparr>) (S - {s})"
    by (rule sockets_others [where s = s]) (use sys_close [OF laws, of s "os c"] in auto)
  then show ?thesis using ok by (simp add: lib_ok_def shut)
next
  case (other o' c S)
  then show ?thesis using ok sockets_cong [of fds "c\<lparr>os := o'\<rparr>" c bound S] by (simp add: lib_ok_def)
qed

lemma sock_run_ok:
  assumes "sys_laws f fds bound" "(sock_step f fds bound)\<^sup>*\<^sup>* x y" "lib_ok fds bound x"
  shows "lib_ok fds bound y"
  using assms(2,3) by induction (use sock_step_ok [OF assms(1)] in blast)+

text \<open>C10. Before \<open>connect\<close>, \<open>sendto\<close> and \<open>sendmsg\<close> reach a destination, the socket is bound
  to the side of it. Start from any state of the library whose own address (SRCIP) is a modelnet address, and let the
  application open, bind, use and close sockets in any order. For each socket that came from the library's
  \<open>socket\<close>, has no second descriptor and was never bound and then failed to be moved: the library's record of it
  agrees with the system, and whenever \<open>rebind_if_needed\<close> answers 0, they agree again and the system has
  the socket bound to a modelnet address for a modelnet destination and to another one for an external destination.\<close>

theorem rebind_binds_right_side:
  assumes "sys_laws f fds bound" "IS_MNET_IP (mn_localip c0)" "(sock_step f fds bound)\<^sup>*\<^sup>* (c0, {}) (c, S)" "s \<in> S"
  shows "tracks fds bound c s \<and> (\<exists>r c'. rebind_if_needed f s dest c = Some (r, c') \<and>
     (r = 0 \<longrightarrow> tracks fds bound c' s \<and>
        (\<exists>k a. fds (os c') s = Some k \<and> bound (os c') k = Some a \<and> (IS_MNET_IP a \<longleftrightarrow> IS_MNET_IP dest))))"
proof -
  have "lib_ok fds bound (c, S)" using sock_run_ok [OF assms(1,3)] assms(2) by (simp add: lib_ok_def sockets_ok_def)
  then have ok: "sockets_ok fds bound c S" "IS_MNET_IP (mn_localip c)" by (simp_all add: lib_ok_def)
  then show ?thesis using rebind_ok [OF assms(1) ok(1) assms(4) ok(2), of dest] assms(4) by (auto simp: sockets_ok_def)
qed

text \<open>A small system: the open descriptors with their sockets, the addresses, and whether binding succeeds.\<close>

type_synonym ex_os = "(int \<times> nat) list \<times> (nat \<Rightarrow> u32 option)"

definition ex_fds :: "ex_os \<Rightarrow> int \<Rightarrow> nat option" where
  "ex_fds = (\<lambda>st. map_of (fst st))"

definition new_fd :: "(int \<times> nat) list \<Rightarrow> int" where
  "new_fd v = 1 + int (sum_list (map (\<lambda>e. nat (fst e)) v))"

definition new_sock :: "(int \<times> nat) list \<Rightarrow> nat" where
  "new_sock v = Suc (sum_list (map snd v))"

definition ex_sys :: "bool \<Rightarrow> ex_os sys" where
  "ex_sys ok = \<lparr>
     s_socket = (\<lambda>d t p (v, b). (new_fd v, ((new_fd v, new_sock v) # v, b(new_sock v := None)))),
     s_bind = (\<lambda>s a l (v, b). case (a, map_of v s) of
        (Some sa, Some k) \<Rightarrow> if ok then (0, (v, b(k := Some (sin_addr sa)))) else (- 1, (v, b))
      | _ \<Rightarrow> (- 1, (v, b))),
     s_getsockname = (\<lambda>s st. (Some \<lparr>sa_family = AF_INET, sin_port = 80, sin_addr = 0\<rparr>, st)),
     s_getsockopt = (\<lambda>s st. (Some 1, st)),
     s_dup2 = (\<lambda>n s (v, b). case map_of v n of
        Some k \<Rightarrow> if s = - 1 then (- 1, (v, b)) else (s, ((s, k) # v, b))
      | None \<Rightarrow> (- 1, (v, b))),
     s_close = (\<lambda>n (v, b). (filter (\<lambda>e. fst e \<noteq> n) v, b)),
     s_connect = (\<lambda>s a l st. (0, st)),
     s_sendto = (\<lambda>s m fl a l st. (0, st)),
     s_recvfrom = (\<lambda>s fl a l st. (0, [], a, l, st)),
     s_sendmsg = (\<lambda>s m fl a l st. (0, st)),
     s_recvmsg = (\<lambda>s fl a l st. (0, [], a, l, st)),
     s_getpeername = (\<lambda>s a l st. (0, a, l, st))\<rparr>"

lemma ex_sys_fields [simp]:
  "s_socket (ex_sys ok) d t p (v, b) = (new_fd v, ((new_fd v, new_sock v) # v, b(new_sock v := None)))"
  "s_bind (ex_sys ok) s (Some sa) l (v, b) = (case map_of v s of
      Some k \<Rightarrow> if ok then (0, (v, b(k := Some (sin_addr sa)))) else (- 1, (v, b)) | None \<Rightarrow> (- 1, (v, b)))"
  "s_getsockname (ex_sys ok) s st = (Some \<lparr>sa_family = AF_INET, sin_port = 80, sin_addr = 0\<rparr>, st)"
  "s_getsockopt (ex_sys ok) s st = (Some 1, st)"
  "s_dup2 (ex_sys ok) n s (v, b) = (case map_of v n of
      Some k \<Rightarrow> if s = - 1 then (- 1, (v, b)) else (s, ((s, k) # v, b)) | None \<Rightarrow> (- 1, (v, b)))"
  "s_close (ex_sys ok) n (v, b) = (filter (\<lambda>e. fst e \<noteq> n) v, b)"
  by (simp_all add: ex_sys_def split: option.split)

lemma map_of_dropped: "map_of (filter (\<lambda>e. fst e \<noteq> n) v) = (map_of v)(n := None)"
  by (induction v) (auto simp: fun_eq_iff)

lemma new_fd_fresh: "map_of v (new_fd v) = None" "0 \<le> new_fd v"
proof -
  have "nat i \<le> sum_list (map (\<lambda>e. nat (fst e)) v)" if "(i, k) \<in> set v" for i k
    using that member_le_sum_list [of "nat i" "map (\<lambda>e. nat (fst e)) v"] by force
  then have "(new_fd v, k) \<notin> set v" for k by (fastforce simp: new_fd_def)
  then show "map_of v (new_fd v) = None" by (metis map_of_SomeD not_None_eq)
qed (simp add: new_fd_def)

lemma new_sock_fresh: "new_sock v \<notin> ran (map_of v)"
proof
  assume "new_sock v \<in> ran (map_of v)"
  then obtain i where "(i, new_sock v) \<in> set v" by (auto simp: ran_def dest: map_of_SomeD)
  then have "new_sock v \<le> sum_list (map snd v)" using member_le_sum_list [of "new_sock v" "map snd v"] by force
  then show False by (simp add: new_sock_def)
qed

lemma ex_sys_laws: "sys_laws (ex_sys ok) ex_fds snd"
proof -
  have n: "\<not> new_fd v < 0" for v using new_fd_fresh(2) [of v] by simp
  have e: "\<exists>k. k \<notin> ran (map_of v) \<and> (map_of v)(new_fd v \<mapsto> new_sock v) = (map_of v)(new_fd v \<mapsto> k) \<and>
      b(new_sock v := None) = b(k := None)" for v and b :: "nat \<Rightarrow> u32 option"
    using new_sock_fresh [of v] by blast
  show ?thesis unfolding sys_laws_def ex_fds_def
    by (auto simp: map_of_dropped n e new_fd_fresh split: if_splits option.splits)
qed

definition ex_client :: "ex_os client" where
  "ex_client = \<lparr>mn_localip = htonl 0x0a000001, mn_keep_dstip = False, mn_unbound_sockets = {},
     mn_modelnet_sockets = {}, mn_hasport_sockets = {}, os = ([], Map.empty)\<rparr>"

text \<open>It opened a socket, bound it to its address, and goes on to an address outside.\<close>

definition ex_open :: "ex_os client" where
  "ex_open = ex_client\<lparr>os := ([(1, 1)], Map.empty(1 := None)), mn_unbound_sockets := {1}\<rparr>"

definition ex_named :: "ex_os client" where
  "ex_named = ex_open\<lparr>os := ([(1, 1)], [1 \<mapsto> htonl 0x0a000001]), mn_unbound_sockets := {}, mn_modelnet_sockets := {1}\<rparr>"

lemma ex_localip: "IS_MNET_IP (htonl 0x0a000001)"
  by (simp add: IS_MNET_IP_def htonl_def MAKE_IP_def)

lemma ex_run: "(sock_step (ex_sys True) ex_fds snd)\<^sup>*\<^sup>* (ex_client, {}) (ex_named, {1})"
proof -
  have "mn_socket (ex_sys True) PF_INET 1 0 ex_client = Some (1, ex_open)"
    by (simp add: mn_socket_def ex_client_def ex_open_def new_fd_def new_sock_def fd_set_def fd_clr_def fd_ok_def FD_SETSIZE_def
        PF_INET_def)
  from sock_step.opened [OF this] have 1: "sock_step (ex_sys True) ex_fds snd (ex_client, {}) (ex_open, {1})" by simp
  let ?a = "Some \<lparr>sa_family = AF_INET, sin_port = 0, sin_addr = 0\<rparr>"
  have "mn_bind (ex_sys True) 1 ?a 16 ex_open = Some (0, ex_named)"
    using ex_localip by (simp add: mn_bind_def IS_INET_ADDR_def bind_to_def ex_open_def ex_client_def ex_named_def fd_set_def
        fd_clr_def fd_ok_def FD_SETSIZE_def htonl_def)
  then have 2: "sock_step (ex_sys True) ex_fds snd (ex_open, {1}) (ex_named, {1})"
    by (intro sock_step.named [where a = ?a and l = 16 and s = 1 and r = 0]) (simp_all add: IS_INET_ADDR_def)
  show ?thesis using 1 2 by (meson r_into_rtranclp rtranclp_trans)
qed

theorem rebind_binds_right_side_witness:
  "tracks ex_fds snd ex_named 1 \<and> (\<exists>r c'. rebind_if_needed (ex_sys True) 1 (htonl 0x08080808) ex_named = Some (r, c') \<and>
     (r = 0 \<longrightarrow> tracks ex_fds snd c' 1 \<and> (\<exists>k a. ex_fds (os c') 1 = Some k \<and> snd (os c') k = Some a \<and>
        (IS_MNET_IP a \<longleftrightarrow> IS_MNET_IP (htonl 0x08080808)))))"
proof (rule rebind_binds_right_side [OF ex_sys_laws _ ex_run])
  show "IS_MNET_IP (mn_localip ex_client)" using ex_localip by (simp add: ex_client_def)
qed simp

text \<open>Why a failed move is excluded: when a socket is moved to the other side and the new one cannot be bound, the
  system has an unbound socket under the descriptor, but the library goes on recording the old side: it will
  never bind the socket again for a destination on that side.\<close>

theorem rebind_failure_goes_unrecorded:
  assumes "sys_laws f fds bound" "sockets_ok fds bound c S" "s \<in> S" "s \<notin> mn_unbound_sockets c"
    and "\<forall>s sa l o1. fst (s_bind f s (Some sa) l o1) = - 1"
    and "s_getsockname f s (os c) = (Some sa, o1)" "s_getsockopt f s o1 = (Some t, o2)"
    and "s_socket f PF_INET t 0 o2 = (n, o3)" "0 \<le> n" "s_dup2 f n s o3 = (s, o4)"
  shows "\<exists>c' k. rebind_to f s addr c = Some (- 1, c') \<and> fds (os c') s = Some k \<and> bound (os c') k = None \<and>
     mn_unbound_sockets c' = mn_unbound_sockets c \<and> mn_modelnet_sockets c' = mn_modelnet_sockets c \<and>
     \<not> tracks fds bound c' s"
proof -
  let ?c = "c\<lparr>os := s_close f n o4\<rparr>"
  have o2: "fds o2 = fds (os c)" "bound o2 = bound (os c)"
    using sys_getsockname [OF assms(1,6)] sys_getsockopt [OF assms(1,7)] by simp_all
  obtain j where j: "own fds c s j" using assms(2,3) by (auto simp: sockets_ok_def)
  obtain k where k: "fds o2 n = None" "k \<notin> ran (fds o2)" "fds o3 = (fds o2)(n \<mapsto> k)" "bound o3 = (bound o2)(k := None)"
    by (rule sys_socket [OF assms(1,8,9)])
  have s: "n \<noteq> s" "s \<noteq> - 1" "fd_ok s" using j o2 k(1) by (auto simp: own_def fd_ok_def)
  have f4: "fds (os ?c) s = Some k" "bound (os ?c) k = None"
    using sys_close [OF assms(1), of n o4] sys_dup2 [OF assms(1,10)] k(3,4) s by simp_all
  have fails: "\<exists>c'. bind_to f s addr p d = Some (- 1, c') \<and> fds (os c') = fds (os d) \<and> bound (os c') = bound (os d) \<and>
      c' = d\<lparr>os := os c'\<rparr>" for p d
  proof -
    obtain o' where "s_bind f s (Some \<lparr>sa_family = AF_INET, sin_port = p, sin_addr = addr\<rparr>) 16 (os d) = (- 1, o')"
      using assms(5) by (metis prod.collapse)
    then show ?thesis using sys_bind [OF assms(1)] by (fastforce simp: bind_to_def)
  qed
  obtain c1 where c1: "bind_to f s addr (sin_port sa) ?c = Some (- 1, c1)" "fds (os c1) = fds (os ?c)"
    "bound (os c1) = bound (os ?c)" "c1 = ?c\<lparr>os := os c1\<rparr>" using fails by blast
  obtain c2 where c2: "bind_to f s addr 0 c1 = Some (- 1, c2)" "fds (os c2) = fds (os c1)" "bound (os c2) = bound (os c1)"
    "c2 = c1\<lparr>os := os c2\<rparr>" using fails by blast
  have hp: "SOCK_HASPORT s c1 = Some (s \<in> mn_hasport_sockets c1)" using s(3) by (simp add: SOCK_HASPORT_def fd_isset_def)
  have run: "rebind_to f s addr c = Some (- 1, if s \<in> mn_hasport_sockets c1 then c1 else c2)"
    using assms(6-10) c1(1) c2(1) hp s(2) by (simp add: rebind_to_def)
  have sets: "mn_unbound_sockets c1 = mn_unbound_sockets c" "mn_modelnet_sockets c1 = mn_modelnet_sockets c"
    by (subst c1(4), simp)+
  have sets2: "mn_unbound_sockets c2 = mn_unbound_sockets c" "mn_modelnet_sockets c2 = mn_modelnet_sockets c"
    by (subst c2(4), simp add: sets)+
  let ?c' = "if s \<in> mn_hasport_sockets c1 then c1 else c2"
  have "fds (os ?c') s = Some k" "bound (os ?c') k = None" "mn_unbound_sockets ?c' = mn_unbound_sockets c"
    "mn_modelnet_sockets ?c' = mn_modelnet_sockets c" using f4 c1(2,3) c2(2,3) sets sets2 by simp_all
  moreover from this have "\<not> tracks fds bound ?c' s" using assms(4) by (simp add: tracks_def)
  ultimately show ?thesis using run by blast
qed

theorem rebind_failure_goes_unrecorded_witness:
  "\<exists>c' k. rebind_to (ex_sys False) 1 0 ex_named = Some (- 1, c') \<and> ex_fds (os c') 1 = Some k \<and> snd (os c') k = None \<and>
     mn_unbound_sockets c' = mn_unbound_sockets ex_named \<and> mn_modelnet_sockets c' = mn_modelnet_sockets ex_named \<and>
     \<not> tracks ex_fds snd c' 1"
proof (rule rebind_failure_goes_unrecorded [OF ex_sys_laws, where S = "{1}"])
  have "IS_MNET_IP (mn_localip ex_client)" using ex_localip by (simp add: ex_client_def)
  then show "sockets_ok ex_fds snd ex_named {1}"
    using sock_run_ok [OF ex_sys_laws ex_run] by (simp add: lib_ok_def sockets_ok_def)
  show "\<forall>s sa l o1. fst (s_bind (ex_sys False) s (Some sa) l o1) = - 1" by (auto split: option.split)
  show "s_getsockname (ex_sys False) 1 (os ex_named) = (Some \<lparr>sa_family = AF_INET, sin_port = 80, sin_addr = 0\<rparr>, os ex_named)" by simp
  show "s_getsockopt (ex_sys False) 1 (os ex_named) = (Some 1, os ex_named)" by simp
  show "s_socket (ex_sys False) PF_INET 1 0 (os ex_named) = (2, ([(2, 2), (1, 1)], [1 \<mapsto> htonl 0x0a000001](2 := None)))"
    by (simp add: ex_named_def new_fd_def new_sock_def)
  show "s_dup2 (ex_sys False) 2 1 ([(2, 2), (1, 1)], [1 \<mapsto> htonl 0x0a000001](2 := None))
      = (1, ([(1, 2), (2, 2), (1, 1)], [1 \<mapsto> htonl 0x0a000001](2 := None)))" by simp
qed (simp_all add: ex_named_def)

section \<open>Destinations\<close>

lemma mnet_magic: "IS_MNET_IP (a OR MNET_MAGIC_BIT) = IS_MNET_IP a"
proof -
  have "MNET_MAGIC_BIT AND htonl 0xff000000 = 0" by (simp add: MNET_MAGIC_BIT_def htonl_def)
  then show ?thesis by (simp add: IS_MNET_IP_def bit.conj_disj_distrib2)
qed

lemma magic_changes: "a AND MNET_MAGIC_BIT = 0 \<Longrightarrow> a OR MNET_MAGIC_BIT \<noteq> a"
proof
  assume "a AND MNET_MAGIC_BIT = 0" "a OR MNET_MAGIC_BIT = a"
  then have "MNET_MAGIC_BIT = 0" using or_absorb [of a MNET_MAGIC_BIT] by simp
  then show False by (simp add: MNET_MAGIC_BIT_def htonl_def)
qed

text \<open>The translation of addresses is invisible to the application: for any destination whose
  magic bit is clear, the address handed to the system and brought back by a receiving call is the
  one the application used, the length is that of an address, and the caller's own structure is
  not the one that is changed. Only a modelnet destination other than the own address gets the bit.\<close>

theorem magic_roundtrip:
  assumes "IS_INET_ADDR (Some sa) len" "sin_addr sa AND MNET_MAGIC_BIT = 0"
  shows "\<exists>sa' len'. magic_dest (Some sa) len c = (Some sa', len') \<and> IS_INET_ADDR (Some sa') len' \<and>
     clear_magic (Some sa') len' c = Some sa \<and>
     (sa' \<noteq> sa \<longleftrightarrow> \<not> mn_keep_dstip c \<and> IS_MNET_IP (sin_addr sa) \<and> mn_localip c \<noteq> 0 \<and> sin_addr sa \<noteq> mn_localip c)"
proof (cases "\<not> mn_keep_dstip c \<and> IS_MNET_IP (sin_addr sa) \<and> mn_localip c \<noteq> 0 \<and> sin_addr sa \<noteq> mn_localip c")
  case True
  let ?sa = "sa\<lparr>sin_addr := sin_addr sa OR MNET_MAGIC_BIT\<rparr>"
  have "(sin_addr sa OR MNET_MAGIC_BIT) AND NOT MNET_MAGIC_BIT = sin_addr sa"
    using assms(2) by (simp only: or_and_not and_not_clear)
  then have "clear_magic (Some ?sa) 16 c = Some sa"
    using True assms(1) by (simp add: clear_magic_def IS_INET_ADDR_def mnet_magic)
  moreover have "?sa \<noteq> sa"
  proof
    assume "?sa = sa"
    then have "sin_addr ?sa = sin_addr sa" by simp
    then show False using magic_changes [OF assms(2)] by simp
  qed
  ultimately show ?thesis using True assms(1) by (simp add: magic_dest_def IS_INET_ADDR_def)
next
  case False
  then have "magic_dest (Some sa) len c = (Some sa, len)" by (auto simp: magic_dest_def)
  moreover have "clear_magic (Some sa) len c = Some sa"
    using and_not_clear [OF assms(2)] by (simp add: clear_magic_def)
  ultimately show ?thesis using False assms(1) by blast
qed

theorem magic_roundtrip_witness:
  "\<exists>sa' len'. magic_dest (Some \<lparr>sa_family = AF_INET, sin_port = 80, sin_addr = htonl 0x0a000002\<rparr>) 16 ex_client = (Some sa', len') \<and>
     IS_INET_ADDR (Some sa') len' \<and>
     clear_magic (Some sa') len' ex_client = Some \<lparr>sa_family = AF_INET, sin_port = 80, sin_addr = htonl 0x0a000002\<rparr> \<and>
     (sa' \<noteq> \<lparr>sa_family = AF_INET, sin_port = 80, sin_addr = htonl 0x0a000002\<rparr> \<longleftrightarrow> \<not> mn_keep_dstip ex_client \<and>
        IS_MNET_IP (sin_addr \<lparr>sa_family = AF_INET, sin_port = 80, sin_addr = htonl 0x0a000002\<rparr>) \<and> mn_localip ex_client \<noteq> 0 \<and>
        sin_addr \<lparr>sa_family = AF_INET, sin_port = 80, sin_addr = htonl 0x0a000002\<rparr> \<noteq> mn_localip ex_client)"
  by (rule magic_roundtrip) (simp_all add: IS_INET_ADDR_def MNET_MAGIC_BIT_def htonl_def)

section \<open>Dotted addresses\<close>

fun dec_digits :: "nat \<Rightarrow> string" where
  "dec_digits n = (if n < 10 then [char_of (48 + n)] else dec_digits (n div 10) @ [char_of (48 + n mod 10)])"

declare dec_digits.simps [simp del]

lemma of_char_digit: "k < 10 \<Longrightarrow> (of_char (char_of (48 + k :: nat) :: char) :: nat) = 48 + k"
  by (simp add: of_char_of)

lemma dec_digits_props:
  "\<forall>ch \<in> set (dec_digits n). is_digit ch" "dec_digits n \<noteq> []" "digits_val (dec_digits n) = n"
proof (induction n rule: dec_digits.induct)
  case (1 n)
  case 1
  then show ?case using "1.IH"(1) of_char_digit [of n] of_char_digit [of "n mod 10"]
    by (subst dec_digits.simps) (auto simp: is_digit_def)
  case 2
  then show ?case by (subst dec_digits.simps) auto
  case 3
  show ?case
  proof (cases "n < 10")
    case True
    then show ?thesis using of_char_digit [of n] by (subst dec_digits.simps) (simp add: digits_val_def digit_val_def)
  next
    case False
    then have "digits_val (dec_digits (n div 10)) = n div 10" using "1.IH"(3) by blast
    then show ?thesis using False of_char_digit [of "n mod 10"]
      by (subst dec_digits.simps) (simp add: digits_val_def digit_val_def)
  qed
qed

lemma digit_no_space: "is_digit ch \<Longrightarrow> \<not> is_space ch \<and> ch \<noteq> CHR ''-'' \<and> ch \<noteq> CHR ''+''"
  by (auto simp: is_digit_def is_space_def)

lemma strtoul_dec:
  assumes n: "n < 2 ^ 64" and r: "r = [] \<or> \<not> is_digit (hd r)"
  shows "strtoul (dec_digits n @ r) = (of_nat n, r)"
proof -
  obtain ch cs where d: "dec_digits n = ch # cs" using dec_digits_props(2) [of n] by (cases "dec_digits n") auto
  have dg: "\<forall>x \<in> set (ch # cs). is_digit x" using dec_digits_props(1) [of n] d by simp
  have 1: "dropWhile is_space (dec_digits n @ r) = dec_digits n @ r"
    using digit_no_space [of ch] dg d by simp
  have 2: "takeWhile is_digit (dec_digits n @ r) = dec_digits n"
    using dg r unfolding d by (cases r) (auto simp: takeWhile_append)
  have 3: "dropWhile is_digit (dec_digits n @ r) = r"
    using dg r unfolding d by (cases r) (auto simp: dropWhile_append)
  have "ch \<noteq> CHR ''-'' \<and> ch \<noteq> CHR ''+''" using digit_no_space [of ch] dg by simp
  then show ?thesis using 1 2 3 n dec_digits_props(2,3) [of n] unfolding strtoul_def
    by (simp add: d Let_def split: list.splits)
qed

lemma dotted_field_dec:
  assumes "n < 2 ^ 64"
  shows "dotted_field (dec_digits n @ CHR ''.'' # r) = Some (ucast (of_nat n :: u64), r)"
proof -
  have "\<not> is_digit (hd (CHR ''.'' # r))" by (simp add: is_digit_def)
  then have "strtoul (dec_digits n @ CHR ''.'' # r) = (of_nat n, CHR ''.'' # r)"
    using strtoul_dec [OF assms, of "CHR ''.'' # r"] by simp
  then show ?thesis using dec_digits_props(2) [of n] by (simp add: dotted_field_def)
qed

text \<open>C34. Reading a dotted address that was printed in decimal gives the four bytes back, whatever
  follows it, and a string without an address gives 0.\<close>

theorem dots_to_ip_roundtrip:
  assumes "a < 256" "b < 256" "c < 256" "d < 256" "r = [] \<or> \<not> is_digit (hd r)"
  shows "dots_to_ip (Some (dec_digits a @ CHR ''.'' # dec_digits b @ CHR ''.'' # dec_digits c @ CHR ''.'' # dec_digits d @ r))
     = push_bit 24 (of_nat a) OR push_bit 16 (of_nat b) OR push_bit 8 (of_nat c) OR of_nat d"
proof -
  have u: "ucast (of_nat n :: u64) = (of_nat n :: u32)" if "n < 256" for n
    using that by (intro word_uint_eqI) (simp add: uint_up_ucast unsigned_ucast_eq of_nat_take_bit unsigned_of_nat take_bit_nat_eq_self)
  have m: "(of_nat n :: u32) AND 255 = of_nat n" if "n < 256" for n
  proof -
    have e: "(255 :: u32) = mask 8" by (simp add: mask_eq_exp_minus_1)
    have "take_bit 8 n = n" using that by (simp add: take_bit_nat_eq_self)
    then show ?thesis by (simp only: e take_bit_eq_mask [symmetric] take_bit_of_nat)
  qed
  have lt: "n < 2 ^ 64" if "n < 256" for n :: nat using that by simp
  have s: "strtoul (dec_digits d @ r) = (of_nat d, r)" by (rule strtoul_dec [OF lt [OF assms(4)] assms(5)])
  show ?thesis
    using dotted_field_dec [OF lt [OF assms(1)]] dotted_field_dec [OF lt [OF assms(2)]]
      dotted_field_dec [OF lt [OF assms(3)]] s dec_digits_props(2) [of d] u m assms(1-4)
    by (simp add: dots_to_ip_def MAKE_IP_def)
qed

theorem dots_to_ip_roundtrip_witness:
  "dots_to_ip (Some (dec_digits 10 @ CHR ''.'' # dec_digits 0 @ CHR ''.'' # dec_digits 0 @ CHR ''.'' # dec_digits 7 @ []))
     = push_bit 24 (of_nat 10) OR push_bit 16 (of_nat 0) OR push_bit 8 (of_nat 0) OR of_nat 7"
  by (rule dots_to_ip_roundtrip) simp_all

section \<open>Host names\<close>

text \<open>The contract of a cache of names: what a name resolves to is what was put last under it, and
  asking changes no answer.\<close>

locale name_cache =
  fixes ok :: "'c \<Rightarrow> bool"
    and resolve :: "'c \<Rightarrow> string \<Rightarrow> name_ip option"
    and get :: "string \<Rightarrow> 'c \<Rightarrow> (name_ip \<times> 'c) option"
    and put :: "string \<Rightarrow> u32 \<Rightarrow> string \<Rightarrow> 'c \<Rightarrow> 'c"
  assumes get_none: "ok c \<Longrightarrow> get v c = None \<longleftrightarrow> resolve c v = None"
    and get_some: "ok c \<Longrightarrow> get v c = Some (e, c') \<Longrightarrow> resolve c v = Some e \<and> ok c' \<and> resolve c' = resolve c"
    and put_law: "ok c \<Longrightarrow> ok (put v a m c) \<and>
      resolve (put v a m c) = (resolve c)(v \<mapsto> \<lparr>vname = v, mname = m, ip = a\<rparr>)"
begin

lemma get_put: "ok c \<Longrightarrow> \<exists>c'. get v (put v a m c) = Some (\<lparr>vname = v, mname = m, ip = a\<rparr>, c')"
proof -
  assume c: "ok c"
  let ?c = "put v a m c"
  have r: "resolve ?c v = Some \<lparr>vname = v, mname = m, ip = a\<rparr>" "ok ?c" using put_law [OF c, of v a m] by simp_all
  then have "get v ?c \<noteq> None" using get_none [OF r(2), of v] by simp
  then obtain e c' where g: "get v ?c = Some (e, c')" by auto
  then show ?thesis using get_some [OF r(2) g] r(1) by simp
qed

lemma get_again: "ok c \<Longrightarrow> get v c = Some (e, c') \<Longrightarrow> \<exists>c''. get v c' = Some (e, c'') \<and> resolve c'' = resolve c"
proof -
  assume c: "ok c" and g: "get v c = Some (e, c')"
  then have r: "resolve c v = Some e" "ok c'" "resolve c' = resolve c" using get_some by blast+
  then have "get v c' \<noteq> None" using get_none [OF r(2), of v] by simp
  then obtain e2 c2 where g2: "get v c' = Some (e2, c2)" by auto
  then show ?thesis using get_some [OF r(2) g2] r by auto
qed

end

text \<open>The chains of the code.\<close>

definition table_ok :: "name_table \<Rightarrow> bool" where
  "table_ok tab \<longleftrightarrow> length tab = NAME_HASH_SLOTS \<and>
     (\<forall>slot < NAME_HASH_SLOTS. \<forall>e \<in> set (tab ! slot). name_slot (vname e) = slot)"

definition name_resolve :: "name_table \<Rightarrow> string \<Rightarrow> name_ip option" where
  "name_resolve tab v = find (\<lambda>e. vname e = v) (tab ! name_slot v)"

lemma name_slot_less: "name_slot v < NAME_HASH_SLOTS"
  by (simp add: name_slot_def NAME_HASH_SLOTS_def)

lemma find_front_none: "find_front P xs = None \<longleftrightarrow> find P xs = None"
  by (induction xs) (auto split: Option.bind_splits)

lemma find_front_some:
  "find_front P xs = Some (b, ys) \<Longrightarrow> find P xs = Some b \<and> hd ys = b \<and> ys \<noteq> [] \<and> set ys = set xs \<and> length ys = length xs \<and>
     (\<forall>Q. \<not> Q b \<longrightarrow> find Q (tl ys) = find Q xs)"
proof (induction xs arbitrary: ys)
  case (Cons x xs)
  show ?case
  proof (cases "P x")
    case True
    then show ?thesis using Cons.prems by auto
  next
    case False
    then obtain r where r: "find_front P xs = Some (b, r)" "ys = b # x # tl r"
      using Cons.prems by (auto split: Option.bind_splits)
    note ih = Cons.IH [OF r(1)]
    have rt: "r = b # tl r" using ih by (cases r) auto
    then have "set r = insert b (set (tl r))" "length r = Suc (length (tl r))" by (metis list.simps(15), metis length_Cons)
    then show ?thesis using ih r False by (auto)
  qed
qed simp

lemma find_front_name:
  assumes "find_front (\<lambda>e. vname e = v) xs = Some (b, ys)"
  shows "find (\<lambda>e. vname e = u) ys = find (\<lambda>e. vname e = u) xs"
proof -
  note h = find_front_some [OF assms]
  have b: "vname b = v" using h by (metis (mono_tags, lifting) find_Some_iff)
  have ys: "ys = b # tl ys" using h by (cases ys) auto
  have f: "find (\<lambda>e. vname e = u) ys = (if u = v then Some b else find (\<lambda>e. vname e = u) (tl ys))"
    by (subst ys) (simp add: b)
  show ?thesis
  proof (cases "u = v")
    case True
    then show ?thesis using h f by simp
  next
    case False
    then show ?thesis using h f b by simp
  qed
qed

interpretation hosts_cache: name_cache table_ok name_resolve get_name_hash put_name_hash
proof unfold_locales
  fix c v a m e c'
  assume ok: "table_ok c"
  let ?s = "name_slot v"
  have len: "?s < length c" using ok name_slot_less [of v] by (simp add: table_ok_def)
  show "get_name_hash v c = None \<longleftrightarrow> name_resolve c v = None"
    using find_front_none [of "\<lambda>b. vname b = v" "c ! ?s"]
    by (cases "find_front (\<lambda>b. vname b = v) (c ! ?s)")
      (auto simp: get_name_hash_def name_resolve_def Let_def)
  show "table_ok (put_name_hash v a m c) \<and>
      name_resolve (put_name_hash v a m c) = (name_resolve c)(v \<mapsto> \<lparr>vname = v, mname = m, ip = a\<rparr>)"
    using ok len by (auto simp: put_name_hash_def Let_def table_ok_def name_resolve_def fun_eq_iff nth_list_update)
  show "name_resolve c v = Some e \<and> table_ok c' \<and> name_resolve c' = name_resolve c"
    if g: "get_name_hash v c = Some (e, c')"
  proof -
    obtain chain where ch: "find_front (\<lambda>b. vname b = v) (c ! ?s) = Some (e, chain)" "c' = c[?s := chain]"
      using g by (auto simp: get_name_hash_def Let_def split: option.splits)
    note h = find_front_some [OF ch(1)]
    have "table_ok c'" using ok h ch(2) len by (auto simp: table_ok_def nth_list_update)
    moreover have "name_resolve c' u = name_resolve c u" for u
      using find_front_name [OF ch(1), of u] ch(2) len by (simp add: name_resolve_def nth_list_update)
    ultimately show ?thesis using h by (auto simp: name_resolve_def fun_eq_iff)
  qed
qed

text \<open>The entries of a file without a malformed line and without a name that overflows its buffer.\<close>

fun entries :: "hosts_line list \<Rightarrow> name_ip list" where
  "entries [] = []"
| "entries (Entry v a b c d m # ls) = \<lparr>vname = v, mname = m, ip = htonl (MAKE_IP a b c d)\<rparr> # entries ls"
| "entries (l # ls) = entries ls"

fun line_ok :: "hosts_line \<Rightarrow> bool" where
  "line_ok (Entry v a b c d m) \<longleftrightarrow> fits v \<and> fits m"
| "line_ok Skipped \<longleftrightarrow> True"
| "line_ok Malformed \<longleftrightarrow> False"

text \<open>What a name stands for in the file: with preloading its last entry, otherwise the first.\<close>

definition file_entry :: "bool \<Rightarrow> hosts_line list \<Rightarrow> string \<Rightarrow> name_ip option" where
  "file_entry preload ls v = find (\<lambda>e. vname e = v) (if preload then rev (entries ls) else entries ls)"

definition put_all :: "name_ip list \<Rightarrow> name_table \<Rightarrow> name_table" where
  "put_all es tab = fold (\<lambda>e. put_name_hash (vname e) (ip e) (mname e)) es tab"

lemma find_append: "find P (xs @ ys) = (case find P xs of None \<Rightarrow> find P ys | Some x \<Rightarrow> Some x)"
  by (induction xs) auto

lemma put_all_resolve:
  "table_ok tab \<Longrightarrow> table_ok (put_all es tab) \<and> name_resolve (put_all es tab) v
     = (case find (\<lambda>e. vname e = v) (rev es) of None \<Rightarrow> name_resolve tab v | Some e \<Rightarrow> Some e)"
proof (induction es arbitrary: tab)
  case Nil
  then show ?case by (simp add: put_all_def)
next
  case (Cons e es)
  let ?tab = "put_name_hash (vname e) (ip e) (mname e) tab"
  have p: "table_ok ?tab" "name_resolve ?tab = (name_resolve tab)(vname e \<mapsto> e)"
    using hosts_cache.put_law [OF Cons.prems, of "vname e" "ip e" "mname e"] by (cases e, simp)+
  have "put_all (e # es) tab = put_all es ?tab" by (simp add: put_all_def)
  then show ?case using Cons.IH [OF p(1)] p(2) by (auto simp: find_append split: option.splits)
qed

lemma scan_preload:
  "cache_preload s \<Longrightarrow> list_all line_ok ls \<Longrightarrow> scan_hosts P ls found s
     = Some (case find P (rev (entries ls)) of None \<Rightarrow> found | Some e \<Rightarrow> Some e, s\<lparr>name_hash := put_all (entries ls) (name_hash s)\<rparr>)"
proof (induction ls arbitrary: found s)
  case (Cons l ls)
  show ?case
  proof (cases l)
    case (Entry v a b c d m)
    let ?e = "\<lparr>vname = v, mname = m, ip = htonl (MAKE_IP a b c d)\<rparr>"
    let ?s = "s\<lparr>name_hash := put_name_hash v (ip ?e) m (name_hash s)\<rparr>"
    have "scan_hosts P (l # ls) found s = scan_hosts P ls (if P ?e then Some ?e else found) ?s"
      using Entry Cons.prems by (simp add: Let_def)
    then show ?thesis using Cons.IH [of ?s] Cons.prems Entry
      by (auto simp: find_append put_all_def split: option.splits)
  qed (use Cons in simp_all)
qed (simp add: put_all_def)

lemma scan_once:
  "\<not> cache_preload s \<Longrightarrow> list_all line_ok ls \<Longrightarrow> scan_hosts P ls None s
     = Some (find P (entries ls), case find P (entries ls) of None \<Rightarrow> s
         | Some e \<Rightarrow> if use_cache s then s\<lparr>name_hash := put_name_hash (vname e) (ip e) (mname e) (name_hash s)\<rparr> else s)"
proof (induction ls)
  case (Cons l ls)
  then show ?case by (cases l) (simp_all add: Let_def)
qed simp

text \<open>The cache holds nothing that is not in the file.\<close>

definition hosts_ok :: "hosts_line list \<Rightarrow> hosts \<Rightarrow> bool" where
  "hosts_ok ls s \<longleftrightarrow> use_mdb_hosts s \<and> hostsfile s \<and> (cache_preload s \<longrightarrow> use_cache s) \<and> table_ok (name_hash s) \<and>
     (\<forall>v e. name_resolve (name_hash s) v = Some e \<longrightarrow> file_entry (cache_preload s) ls v = Some e)"

lemma find_name_ok:
  assumes ok: "hosts_ok ls s" and lines: "list_all line_ok ls"
  shows "\<exists>s'. find_name (Some ls) v s = Some (file_entry (cache_preload s) ls v, s') \<and> hosts_ok ls s' \<and>
     cache_preload s' = cache_preload s"
proof -
  let ?s = "s\<lparr>open_files := open_files s + 1\<rparr>" and ?P = "\<lambda>e. vname e = v"
  have t: "table_ok (name_hash s)" and m: "use_mdb_hosts s" "hostsfile s" using ok by (simp_all add: hosts_ok_def)
  show ?thesis
  proof (cases "if use_cache s then get_name_hash v (name_hash s) else None")
    case (Some et)
    obtain e tab where g: "use_cache s" "get_name_hash v (name_hash s) = Some (e, tab)"
      using Some by (cases et) (auto split: if_splits)
    note h = hosts_cache.get_some [OF t g(2)]
    have "find_name (Some ls) v s = Some (Some e, s\<lparr>name_hash := tab\<rparr>)" using g m by (simp add: find_name_def)
    then show ?thesis using ok h by (simp add: hosts_ok_def)
  next
    case None
    then have run: "find_name (Some ls) v s = scan_hosts ?P ls None ?s" using m by (simp add: find_name_def)
    show ?thesis
    proof (cases "cache_preload s")
      case True
      let ?tab = "put_all (entries ls) (name_hash s)"
      have "find_name (Some ls) v s = Some (file_entry True ls v, ?s\<lparr>name_hash := ?tab\<rparr>)"
        using scan_preload [of ?s ls ?P None] lines True unfolding run by (simp add: file_entry_def split: option.split)
      moreover have "file_entry True ls u = Some e" if "name_resolve ?tab u = Some e" for u e
        using that ok True put_all_resolve [OF t, of "entries ls" u]
        by (auto simp: hosts_ok_def file_entry_def split: option.splits)
      then have "hosts_ok ls (?s\<lparr>name_hash := ?tab\<rparr>)"
        using ok True put_all_resolve [OF t, of "entries ls"] by (simp add: hosts_ok_def)
      ultimately show ?thesis using True by simp
    next
      case False
      have r: "find_name (Some ls) v s = Some (find ?P (entries ls), case find ?P (entries ls) of None \<Rightarrow> ?s
         | Some e \<Rightarrow> if use_cache ?s then ?s\<lparr>name_hash := put_name_hash (vname e) (ip e) (mname e) (name_hash ?s)\<rparr> else ?s)"
        unfolding run by (rule scan_once) (use lines False in simp_all)
      show ?thesis
      proof (cases "find ?P (entries ls)")
        case none: None
        then show ?thesis using r ok False by (simp add: file_entry_def hosts_ok_def)
      next
        case (Some e)
        then have "vname e = v" by (metis (mono_tags, lifting) find_Some_iff)
        then show ?thesis using r ok False Some hosts_cache.put_law [OF t, of v "ip e" "mname e"]
          by (auto simp: file_entry_def hosts_ok_def)
      qed
    qed
  qed
qed

fun find_names :: "hosts_line list \<Rightarrow> string list \<Rightarrow> hosts \<Rightarrow> (name_ip option list \<times> hosts) option" where
  "find_names ls [] s = Some ([], s)"
| "find_names ls (v # vs) s = do {
     (r, s1) \<leftarrow> find_name (Some ls) v s;
     (rs, s2) \<leftarrow> find_names ls vs s1;
     Some (r # rs, s2) }"

lemma find_names_ok:
  "hosts_ok ls s \<Longrightarrow> list_all line_ok ls \<Longrightarrow>
   \<exists>s'. find_names ls vs s = Some (map (file_entry (cache_preload s) ls) vs, s')"
proof (induction vs arbitrary: s)
  case (Cons v vs)
  obtain s1 where 1: "find_name (Some ls) v s = Some (file_entry (cache_preload s) ls v, s1)" "hosts_ok ls s1"
    "cache_preload s1 = cache_preload s" using find_name_ok [OF Cons.prems] by blast
  obtain s2 where "find_names ls vs s1 = Some (map (file_entry (cache_preload s) ls) vs, s2)"
    using Cons.IH [OF 1(2) Cons.prems(2)] 1(3) by auto
  then show ?case using 1(1) by simp
qed simp

text \<open>C33. Looking names up through the cache is looking them up in the hosts file. After
  \<open>init_hostname_cache\<close> with an empty cache and whatever policy, and as long as the file stays the same and has
  neither malformed lines nor names of 256 characters, any sequence of calls of \<open>find_name\<close> answers each
  name with its last entry in the file when the policy preloads the cache and with its first
  otherwise (none if it has none), however often it was asked and whatever else was. No address is looked
  up in between: that may change the answer, as \<open>address_lookup_changes_names\<close> shows.\<close>

theorem names_resolve_as_in_file:
  assumes "list_all line_ok ls" "hostsfile s0" "name_hash s0 = replicate NAME_HASH_SLOTS []"
    and "s = init_hostname_cache policy s0"
  shows "\<exists>s'. find_names ls vs s = Some (map (file_entry (cache_preload s) ls) vs, s')"
proof (rule find_names_ok [OF _ assms(1)])
  have "name_resolve (replicate NAME_HASH_SLOTS []) v = None" for v
    using name_slot_less [of v] by (simp add: name_resolve_def)
  then show "hosts_ok ls s" using assms(2-4)
    by (simp add: hosts_ok_def init_hostname_cache_def Let_def table_ok_def)
qed

definition ex_hosts :: hosts where
  "ex_hosts = \<lparr>hostsfile = True, use_mdb_hosts = True, use_cache = True, cache_preload = True,
     name_hash = replicate 139 [], mn_localhost = None, open_files = 0\<rparr>"

definition ex_lines :: "hosts_line list" where
  "ex_lines = [Skipped, Entry ''c1'' 10 0 0 1 ''m'', Entry ''c2'' 10 0 0 2 ''m'']"

lemma ex_hosts_ok: "table_ok (name_hash ex_hosts)"
  by (simp add: table_ok_def ex_hosts_def NAME_HASH_SLOTS_def)

lemma name_slot_c: "name_slot ''c1'' = 60" "name_slot ''c2'' = 61" "name_slot ''c3'' = 62"
  by (simp_all add: name_slot_def hash_string_def hash_step_def NAME_HASH_SLOTS_def signed_take_bit_eq_if_positive)

definition ex_found :: "name_ip \<times> hosts" where
  "ex_found = (\<lparr>vname = ''c2'', mname = ''m'', ip = htonl (MAKE_IP 10 0 0 2)\<rparr>,
     ex_hosts\<lparr>name_hash := put_name_hash ''c2'' (htonl (MAKE_IP 10 0 0 2)) ''m''
        (put_name_hash ''c1'' (htonl (MAKE_IP 10 0 0 1)) ''m'' (replicate 139 [])), open_files := 1\<rparr>)"

lemma ex_miss: "get_name_hash v (replicate 139 []) = None"
  using name_slot_less [of v] by (simp add: get_name_hash_def NAME_HASH_SLOTS_def Let_def)

lemma ex_find: "find_name (Some ex_lines) ''c2'' ex_hosts = Some (Some (fst ex_found), snd ex_found)"
  using ex_miss [of "''c2''"]
  by (simp add: find_name_def ex_hosts_def ex_lines_def ex_found_def fits_def)

theorem names_resolve_as_in_file_witness:
  "\<exists>s'. find_names (ex_lines @ ex_lines) [''c2'', ''c3'', ''c2''] (init_hostname_cache None ex_hosts)
     = Some ([Some (fst ex_found), None, Some (fst ex_found)], s')"
proof -
  have "\<exists>s'. find_names (ex_lines @ ex_lines) [''c2'', ''c3'', ''c2''] (init_hostname_cache None ex_hosts)
     = Some (map (file_entry (cache_preload (init_hostname_cache None ex_hosts)) (ex_lines @ ex_lines)) [''c2'', ''c3'', ''c2''], s')"
    by (rule names_resolve_as_in_file [where ?s0.0 = ex_hosts])
      (simp_all add: ex_lines_def fits_def ex_hosts_def NAME_HASH_SLOTS_def)
  moreover have "cache_preload (init_hostname_cache None ex_hosts)" by (simp add: init_hostname_cache_def ex_hosts_def Let_def)
  ultimately show ?thesis by (simp add: file_entry_def ex_lines_def ex_found_def)
qed

definition is_entry :: "hosts_line \<Rightarrow> bool" where
  "is_entry l \<longleftrightarrow> (case l of Entry _ _ _ _ _ _ \<Rightarrow> True | _ \<Rightarrow> False)"

definition cached :: "hosts \<Rightarrow> nat" where
  "cached s = sum_list (map length (name_hash s))"

lemma cached_put:
  "table_ok tab \<Longrightarrow> sum_list (map length (put_name_hash v a m tab)) = sum_list (map length tab) + 1"
proof -
  assume "table_ok tab"
  then have k: "name_slot v < length tab" using name_slot_less [of v] by (simp add: table_ok_def)
  have "k < length xs \<Longrightarrow> sum_list (map length (xs[k := y # xs ! k])) = sum_list (map length xs) + 1"
    for k and y :: name_ip and xs
    by (induction xs arbitrary: k) (auto simp: nth_Cons split: nat.splits)
  then show ?thesis using k by (simp add: put_name_hash_def Let_def)
qed

lemma scan_hosts_miss:
  "scan_hosts P ls None s = Some (None, s') \<Longrightarrow> table_ok (name_hash s) \<Longrightarrow> cache_preload s \<Longrightarrow>
   cached s' = cached s + length (filter is_entry ls) \<and> open_files s' = open_files s \<and> table_ok (name_hash s')"
proof (induction ls arbitrary: s)
  case (Cons l ls)
  show ?case
  proof (cases l)
    case (Entry w a b c d m)
    let ?e = "\<lparr>vname = w, mname = m, ip = htonl (MAKE_IP a b c d)\<rparr>"
    let ?s1 = "s\<lparr>name_hash := put_name_hash w (ip ?e) m (name_hash s)\<rparr>"
    have found: "scan_hosts P ls (Some x) u = Some (None, u') \<Longrightarrow> cache_preload u \<Longrightarrow> False" for x u u' ls
      by (induction P ls "Some x" u arbitrary: x rule: scan_hosts.induct) (auto simp: Let_def split: if_splits)
    have "scan_hosts P ls None ?s1 = Some (None, s')"
    proof (cases "P ?e")
      case True
      then have "scan_hosts P ls (Some ?e) ?s1 = Some (None, s')"
        using Cons.prems(1,3) Entry by (auto simp: Let_def split: if_splits)
      then show ?thesis using found [of ls ?e ?s1 s'] Cons.prems(3) by simp
    qed (use Cons.prems(1,3) Entry in \<open>auto simp: Let_def split: if_splits\<close>)
    moreover have "table_ok (name_hash ?s1)" using hosts_cache.put_law [OF Cons.prems(2)] by simp
    ultimately show ?thesis using Cons.IH [of ?s1] Cons.prems(3) cached_put [OF Cons.prems(2)] Entry
      by (simp add: cached_def is_entry_def)
  qed (use Cons in \<open>auto simp: is_entry_def\<close>)
qed auto

text \<open>With preloading, every lookup of a name that is not in the file reads the whole file again,
  appends all its entries to the cache once more, and leaves the file open.\<close>

theorem failed_lookup_grows:
  assumes "table_ok (name_hash s)" "use_mdb_hosts s" "hostsfile s" "cache_preload s"
    and "find_name (Some ls) v s = Some (None, s')"
  shows "cached s' = cached s + length (filter is_entry ls) \<and> open_files s' = open_files s + 1"
proof -
  let ?s = "s\<lparr>open_files := open_files s + 1\<rparr>"
  have "scan_hosts (\<lambda>e. vname e = v) ls None ?s = Some (None, s')"
    using assms(2,3,5) by (auto simp: find_name_def split: if_splits option.splits)
  then show ?thesis using scan_hosts_miss [of _ ls ?s s'] assms(1,4) by (auto simp: cached_def)
qed

lemma ex_find_none:
  "find_name (Some ex_lines) ''c3'' ex_hosts = Some (None, snd ex_found)"
  using ex_miss [of "''c3''"]
  by (simp add: find_name_def ex_hosts_def ex_lines_def ex_found_def fits_def)

theorem failed_lookup_grows_witness:
  "cached (snd ex_found) = cached ex_hosts + length (filter is_entry ex_lines) \<and>
   open_files (snd ex_found) = open_files ex_hosts + 1"
  by (rule failed_lookup_grows [OF ex_hosts_ok _ _ _ ex_find_none]) (simp_all add: ex_hosts_def)

lemma scan_slots_skip:
  "\<forall>k \<in> set ks. find_front (\<lambda>b. ip b = a) (tab ! k) = None \<Longrightarrow> scan_slots a (ks @ rest) tab = scan_slots a rest tab"
  by (induction ks) auto

text \<open>Resolving an address changes what names resolve to: when the file gives a name two
  addresses, looking up the shadowed one moves its entry to the front of the chain, and from then
  on the name resolves to it.\<close>

theorem address_lookup_changes_names:
  assumes "table_ok tab" "tab ! k = e1 # e2 # rest" "k < 139" "vname e1 = vname e2" "ip e1 \<noteq> ip e2"
    and "\<forall>j < k. \<forall>e \<in> set (tab ! j). ip e \<noteq> ip e2"
  shows "\<exists>tab'. get_ip_hash (ip e2) tab = Some (e2, tab') \<and>
     name_resolve tab (vname e2) = Some e1 \<and> name_resolve tab' (vname e2) = Some e2"
proof -
  have slot: "name_slot (vname e2) = k"
    using assms(1-3) by (auto simp: table_ok_def NAME_HASH_SLOTS_def)
  have len: "k < length tab" using assms(1,3) by (simp add: table_ok_def NAME_HASH_SLOTS_def)
  have u: "[0..<139] = [0..<k] @ k # [Suc k..<139]"
    using upt_add_eq_append [of 0 k "139 - k"] upt_conv_Cons [of k 139] assms(3) by simp
  have "\<forall>j \<in> set [0..<k]. find_front (\<lambda>b. ip b = ip e2) (tab ! j) = None"
    using assms(6) by (auto simp: find_front_none find_None_iff)
  then have "get_ip_hash (ip e2) tab = scan_slots (ip e2) (k # [Suc k..<139]) tab"
    unfolding get_ip_hash_def NAME_HASH_SLOTS_def u by (rule scan_slots_skip)
  also have "\<dots> = Some (e2, tab[k := e2 # e1 # rest])" using assms(2,5) by simp
  finally show ?thesis using slot len assms(2,4) by (simp add: name_resolve_def)
qed

definition ex_twice :: name_table where
  "ex_twice = (replicate 139 [])[60 := [\<lparr>vname = ''c1'', mname = ''m'', ip = 1\<rparr>, \<lparr>vname = ''c1'', mname = ''m'', ip = 2\<rparr>]]"

theorem address_lookup_changes_names_witness:
  "\<exists>tab'. get_ip_hash (ip \<lparr>vname = ''c1'', mname = ''m'', ip = 2\<rparr>) ex_twice
       = Some (\<lparr>vname = ''c1'', mname = ''m'', ip = 2\<rparr>, tab') \<and>
     name_resolve ex_twice (vname \<lparr>vname = ''c1'', mname = ''m'', ip = 2\<rparr>)
       = Some \<lparr>vname = ''c1'', mname = ''m'', ip = 1\<rparr> \<and>
     name_resolve tab' (vname \<lparr>vname = ''c1'', mname = ''m'', ip = 2\<rparr>)
       = Some \<lparr>vname = ''c1'', mname = ''m'', ip = 2\<rparr>"
proof (rule address_lookup_changes_names [where k = 60 and rest = "[]"])
  show "table_ok ex_twice"
    by (auto simp: table_ok_def ex_twice_def NAME_HASH_SLOTS_def nth_list_update name_slot_c)
qed (simp_all add: ex_twice_def)

end
