(* ===== verification/Fb_Xcp.thy ===== *)
theory Fb_Xcp
  imports Hop
begin

text \<open>
  emulator/freebsd6.4/module/mn_xcp.c: the arithmetic of the XCP router a hop can carry. The
  counters of \<open>struct _xcp_pipe_\<close> are unsigned 64-bit words; every conversion of C is written
  out (\<open>u64_of\<close> of an int, \<open>s32\<close> and \<open>sint\<close> back), a division by a value that is only
  known at run time is \<open>udiv\<close>. A long has 32 bits: the module is built for i386. The
  parts of these functions that allocate pipes and schedule timeouts are in \<open>Fb_Xtq\<close>; messages
  and the counters that only pace them are left out.
\<close>

section \<open>State\<close>

text \<open>\<open>struct remote_packet\<close> of the FreeBSD module.\<close>

record fb_remote =
  fi_id :: u32
  fi_expire :: u32
  fi_len :: u32
  fi_wait_time :: u32
  fi_src :: u32
  fi_dst :: u32
  fi_hop :: u32
  fi_ttl :: int
  xcp_cwnd :: u32
  xcp_src_fdbk :: int
  xcp_rflct_fdbk :: int
  xcp_rtt :: u32

record xcp_pipe =
  routerId :: u32
  link_capacity_Kbytes :: u64
  Te :: u64
  Tq :: u64
  avg_rtt :: u64
  xi_pos :: u64
  xi_neg :: u64
  BTA :: u64
  BTF :: u64
  Queue_Kbytes :: u64
  input_traffic_Kbytes :: u64
  sum_rtt_by_cwnd :: u64
  sum_rtt_square_by_cwnd :: u64
  running_min_queue_Kbytes :: u64
  num_cc_packets_in_Te :: u64
  num_Kbytes_in_Te :: u64

definition MULTI_FAC :: int where "MULTI_FAC = 1000"
definition FP_SHIFT :: nat where "FP_SHIFT = 10"
definition FP_EXTRA :: nat where "FP_EXTRA = 1"
definition C1D1 :: int where "C1D1 = 1126"
definition CD6 :: int where "CD6 = 614"
definition ALPHA_G :: int where "ALPHA_G = 409"
definition BETA_G :: int where "BETA_G = 231"
definition GAMMA_G :: int where "GAMMA_G = 102"
definition MN_MTU :: int where "MN_MTU = 1500"

definition INITIAL_Te_VALUE :: "int \<Rightarrow> int" where "INITIAL_Te_VALUE hz = hz sdiv 20"
definition TICKS_CD002 :: "int \<Rightarrow> int" where "TICKS_CD002 hz = hz sdiv 500"
definition INITIAL_RTT_ESTIMATE :: "int \<Rightarrow> u32" where "INITIAL_RTT_ESTIMATE hz = u32_of (hz sdiv 1000)"

lemmas xcp_consts = MULTI_FAC_def FP_SHIFT_def FP_EXTRA_def C1D1_def CD6_def ALPHA_G_def BETA_G_def
  GAMMA_G_def MN_MTU_def INITIAL_Te_VALUE_def TICKS_CD002_def INITIAL_RTT_ESTIMATE_def

definition u64_of :: "int \<Rightarrow> u64" where
  "u64_of x = word_of_int x"

definition s64 :: "int \<Rightarrow> int" where
  "s64 x = signed_take_bit 63 x"

definition udiv :: "'w::len word \<Rightarrow> 'w word \<Rightarrow> 'w word option" where
  "udiv a b = (if b = 0 then None else Some (a div b))"

section \<open>xcp_alloc_pipe\<close>

text \<open>The fresh pipe of a hop of capacity \<open>kbps\<close> and queue size \<open>q\<close>.\<close>

definition fresh_pipe :: "int \<Rightarrow> int \<Rightarrow> int \<Rightarrow> u32 \<Rightarrow> xcp_pipe" where
  "fresh_pipe hz kbps q router =
     (let te = u64_of (INITIAL_Te_VALUE hz);
          cap = u64_of (s32 (kbps * (1000 div MULTI_FAC))) in
      \<lparr>routerId = router, link_capacity_Kbytes = cap, Te = te, Tq = te, avg_rtt = te,
       xi_pos = 1, xi_neg = 0,
       BTA = min (u64_of (s32 (q * (MN_MTU div MULTI_FAC))) div 2)
                 (drop_bit FP_SHIFT (u64_of ALPHA_G * cap * te) div u64_of hz),
       BTF = 0, Queue_Kbytes = 0, input_traffic_Kbytes = 0, sum_rtt_by_cwnd = 0,
       sum_rtt_square_by_cwnd = 0, running_min_queue_Kbytes = 0, num_cc_packets_in_Te = 0,
       num_Kbytes_in_Te = 0\<rparr>)"

text \<open>The random offset of the first timeout, for an interval \<open>t\<close> and a random value \<open>r\<close>.\<close>

definition stagger :: "int \<Rightarrow> u32 \<Rightarrow> u64 \<Rightarrow> u32" where
  "stagger hz r t =
     (let T = ucast (push_bit FP_SHIFT (ucast r :: u64) div 0x7fffffff) :: u32;
          Trange = ucast (t - t div 5) :: u32;
          T = ucast (ucast (drop_bit FP_SHIFT (T * Trange)) + t div 5) :: u32 in
      if T < u32_of (hz sdiv 250) then u32_of (hz sdiv 250) else T)"

section \<open>Timeouts\<close>

text \<open>What \<open>Tq_timeout\<close> does to the pipe of a hop that holds \<open>bd\<close> bytes.\<close>

definition tq_update :: "int \<Rightarrow> int \<Rightarrow> xcp_pipe \<Rightarrow> xcp_pipe option" where
  "tq_update hz bd p = do {
     let p1 = p\<lparr>Queue_Kbytes := running_min_queue_Kbytes p,
         running_min_queue_Kbytes := u64_of (bd sdiv MULTI_FAC)\<rparr>;
     drain \<leftarrow> udiv (u64_of (s32 (bd * hz))) (u64_of MULTI_FAC * link_capacity_Kbytes p1);
     Some (p1\<lparr>Tq := u64_of (max (TICKS_CD002 hz) (sint (avg_rtt p1 - drain) sdiv 2))\<rparr>) }"

text \<open>\<open>Te_timeout\<close>: the part under \<open>sum_rtt_by_cwnd_ > 0\<close>. The cap on the increase is an
  int that is compared as an unsigned 64-bit value.\<close>

definition cap_increase :: "int \<Rightarrow> int \<Rightarrow> u64 \<Rightarrow> u64" where
  "cap_increase q d bta =
     (let limit = s32 (s32 (drop_bit FP_SHIFT (s32 (CD6 * q)) - d) * (MN_MTU div MULTI_FAC) * 2 ^ FP_SHIFT) in
      if u64_of limit < bta then u64_of (max 0 limit) else bta)"

definition te_feedback :: "int \<Rightarrow> int \<Rightarrow> int \<Rightarrow> xcp_pipe \<Rightarrow> xcp_pipe option" where
  "te_feedback hz q d p = do {
     avg \<leftarrow> udiv (sum_rtt_square_by_cwnd p) (sum_rtt_by_cwnd p);
     rate \<leftarrow> udiv (input_traffic_Kbytes p * u64_of hz) (Te p);
     let rate_diff = s32 (uint (link_capacity_Kbytes p - rate));
     let phi = sint (u64_of rate_diff * drop_bit FP_SHIFT (u64_of ALPHA_G * avg)
                     - u64_of (s32 (uint (u64_of BETA_G * Queue_Kbytes p))));
     let absphi = (if 0 \<le> phi then phi else s64 (- phi));
     let shuffle = u64_of GAMMA_G * input_traffic_Kbytes p;
     let shuffled = (if shuffle < u64_of absphi then 0 else shuffle - u64_of absphi);
     let bta = cap_increase q d (u64_of (max 0 phi) + shuffled);
     let btf = u64_of (max 0 (s64 (- phi))) + shuffled;
     pos \<leftarrow> udiv (push_bit FP_EXTRA (push_bit FP_SHIFT (u64_of C1D1 * bta))) (sum_rtt_by_cwnd p * avg);
     neg \<leftarrow> udiv (push_bit FP_SHIFT (u64_of C1D1 * btf)) (avg * num_Kbytes_in_Te p);
     Some (p\<lparr>BTA := bta, BTF := btf, xi_pos := pos, xi_neg := drop_bit FP_SHIFT neg,
       avg_rtt := drop_bit FP_SHIFT (avg * u64_of hz)\<rparr>) }"

definition te_update :: "int \<Rightarrow> int \<Rightarrow> int \<Rightarrow> xcp_pipe \<Rightarrow> xcp_pipe option" where
  "te_update hz q d p = do {
     p1 \<leftarrow> (if 0 < sum_rtt_by_cwnd p then te_feedback hz q d p else Some p);
     Some (p1\<lparr>input_traffic_Kbytes := 0, num_cc_packets_in_Te := 0, num_Kbytes_in_Te := 0,
       sum_rtt_by_cwnd := 0, sum_rtt_square_by_cwnd := 0, Te := avg_rtt p1\<rparr>) }"

section \<open>Packets\<close>

text \<open>\<open>TE_BY_RTT\<close> for a value already converted to 64 bits. The callers have \<open>rtt > 0\<close>.\<close>

definition TE_BY_RTT :: "int \<Rightarrow> xcp_pipe \<Rightarrow> u64 \<Rightarrow> u64 \<Rightarrow> u64" where
  "TE_BY_RTT hz p rtt v = (v * (push_bit FP_SHIFT (Te p) div u64_of hz)) div rtt"

text \<open>The two feedback amounts a pipe would give a packet.\<close>

definition pos_neg_feedback :: "xcp_pipe \<Rightarrow> fb_remote \<Rightarrow> (u64 \<times> u64) option" where
  "pos_neg_feedback p info = do {
     let rtt = (ucast (xcp_rtt info) :: u64);
     let kb = (ucast (fi_len info div 1000) :: u64);
     inv_rate \<leftarrow> udiv (push_bit FP_EXTRA (push_bit FP_SHIFT (rtt * kb))) (ucast (xcp_cwnd info div 1000));
     Some (min (BTA p) (drop_bit FP_EXTRA (drop_bit FP_SHIFT (drop_bit FP_SHIFT (xi_pos p * inv_rate * rtt)))),
           min (BTF p) (drop_bit FP_SHIFT (xi_neg p * rtt * kb))) }"

text \<open>Take what was given out of the budgets; \<open>XCP_MAX (0, ...)\<close> of an unsigned value is that
  value.\<close>

definition spend_own :: "int \<Rightarrow> u64 \<Rightarrow> u64 \<Rightarrow> u64 \<Rightarrow> xcp_pipe \<Rightarrow> xcp_pipe" where
  "spend_own hz rtt pos neg p = p\<lparr>BTA := max 0 (BTA p - TE_BY_RTT hz p rtt pos),
     BTF := max 0 (BTF p - TE_BY_RTT hz p rtt neg)\<rparr>"

definition spend_upstream :: "int \<Rightarrow> u64 \<Rightarrow> int \<Rightarrow> u64 \<Rightarrow> u64 \<Rightarrow> xcp_pipe \<Rightarrow> xcp_pipe" where
  "spend_upstream hz rtt src_fdbk pos neg p =
     (let fwd = s32 (src_fdbk * 2 ^ FP_SHIFT) sdiv MULTI_FAC in
      if 0 < fwd then
        p\<lparr>BTA := BTA p - min (TE_BY_RTT hz p rtt (u64_of fwd)) (BTA p),
          BTF := BTF p - min (BTF p) (TE_BY_RTT hz p rtt (pos - neg - u64_of fwd))\<rparr>
      else
        let p1 = p\<lparr>BTF := BTF p - min (TE_BY_RTT hz p rtt (u64_of (- fwd))) (BTF p)\<rparr> in
        if 0 < sint (pos - neg)
        then p1\<lparr>BTF := BTF p1 - min (TE_BY_RTT hz p1 rtt (pos - neg)) (BTF p1)\<rparr> else p1)"

definition fill_in_feedback :: "int \<Rightarrow> xcp_pipe \<Rightarrow> fb_remote \<Rightarrow> (xcp_pipe \<times> fb_remote) option" where
  "fill_in_feedback hz p info =
     (if 0 < xcp_cwnd info \<and> 0 < xcp_rtt info then
        if fi_len info = 0 then Some (p, info)
        else do {
          let rtt = (ucast (xcp_rtt info) :: u64);
          (pos, neg) \<leftarrow> pos_neg_feedback p info;
          let feedback_bytes = s32 (drop_bit FP_SHIFT (s64 (sint (pos - neg) * MULTI_FAC)));
          if feedback_bytes \<le> xcp_src_fdbk info
          then Some (spend_own hz rtt pos neg p, info\<lparr>xcp_src_fdbk := feedback_bytes\<rparr>)
          else Some (spend_upstream hz rtt (xcp_src_fdbk info) pos neg p, info) }
      else Some (p, info\<lparr>xcp_src_fdbk := 0\<rparr>))"

definition xcp_dequeue :: "int \<Rightarrow> int \<Rightarrow> xcp_pipe \<Rightarrow> fb_remote \<Rightarrow> (xcp_pipe \<times> fb_remote) option" where
  "xcp_dequeue hz bd p info =
     fill_in_feedback hz
       (if u64_of (bd sdiv MULTI_FAC) < running_min_queue_Kbytes p
        then p\<lparr>running_min_queue_Kbytes := u64_of (bd sdiv MULTI_FAC)\<rparr> else p) info"

text \<open>The inverse rate of an arriving packet is computed in 32 bits.\<close>

definition arrival_inv_rate :: "fb_remote \<Rightarrow> u64" where
  "arrival_inv_rate info =
     (if xcp_cwnd info div 1000 \<noteq> 0
      then ucast (push_bit FP_EXTRA (push_bit FP_SHIFT (xcp_rtt info * (fi_len info div 1000)))
                  div (xcp_cwnd info div 1000))
      else 0)"

definition xcp_enqueue :: "int \<Rightarrow> xcp_pipe \<Rightarrow> fb_remote \<Rightarrow> xcp_pipe" where
  "xcp_enqueue hz p info =
     (let kb = (ucast (fi_len info div 1000) :: u64);
          p1 = p\<lparr>input_traffic_Kbytes := input_traffic_Kbytes p + kb\<rparr> in
      if xcp_cwnd info = 0 then p1
      else
        let p2 = p1\<lparr>num_cc_packets_in_Te := num_cc_packets_in_Te p1 + 1,
              num_Kbytes_in_Te := num_Kbytes_in_Te p1 + kb\<rparr> in
        if drop_bit FP_SHIFT (xcp_rtt info * u32_of hz) = INITIAL_RTT_ESTIMATE hz then p2
        else p2\<lparr>sum_rtt_by_cwnd := sum_rtt_by_cwnd p2 + arrival_inv_rate info,
              sum_rtt_square_by_cwnd := sum_rtt_square_by_cwnd p2
                + ucast (xcp_rtt info) * arrival_inv_rate info\<rparr>)"

definition running_avg :: "u32 \<Rightarrow> u32 \<Rightarrow> u32 \<Rightarrow> u32" where
  "running_avg var_sample var_last_avg gain =
     (gain * var_sample + (1000 - gain) * var_last_avg) div 1000"

end
