(* ===== verification/Fb_State.thy ===== *)
theory Fb_State
  imports Lx_Pathtable Calendar Fb_Xcp
begin

text \<open>
  The state of the FreeBSD module (emulator/freebsd6.4/module): the tables of \<open>Topology\<close> with
  hops that carry a queueing discipline, packets and mbuf chains under their addresses, the two
  calendars, the pool of hop schedulers, the state \<open>mn\<close> of the exchange between cores, and the
  mutex. What belongs to the FreeBSD kernel is the record \<open>kern\<close>: \<open>hz\<close>, checksums, routes.

  A packet remembers \<open>m_handle\<close>, the address of the caller's mbuf pointer, and \<open>MN_FREE_PKT\<close>
  writes NULL through it. A handle is the caller's while \<open>handles\<close> has it; a write through any
  other address has no defined outcome.
\<close>

section \<open>Memory\<close>

text \<open>The bytes of a chain, how many of them are in its first mbuf, the packet header, and whether the
  storage of the first mbuf is a cluster (the flag \<open>M_EXT\<close>).\<close>

record mbuf =
  m_data :: "u8 list"
  m_len :: nat
  m_pkthdr :: bool
  m_pktlen :: int
  csum_flags :: int
  csum_data :: int
  m_ext :: bool

record extended_q =
  xq_type :: int
  xq_callbacks :: bool
  xt_hop :: "nat option"

record fb_hop = "u32 hop" +
  xtq :: extended_q

record fb_packet =
  fp_path :: "(nat \<times> int) option"
  fp_m :: "nat option"
  fp_handle :: nat
  fp_cachehost :: u32
  fp_state :: int
  fp_info :: fb_remote

datatype timeout_fn = Tq_Fn | Te_Fn

text \<open>An aggregate that is pending: destination, the mbuf, its digests, the bytes left.\<close>

record remote_aggr =
  ag_id :: u32
  ag_m :: "nat option"
  ag_num :: u32
  ag_left :: int

record fb = "fb_hop topo" +
  mn_mtx :: "bool option"
  mbufs :: "nat \<Rightarrow> mbuf option"
  handles :: "nat \<Rightarrow> nat option option"
  fb_pkts :: "u32 \<Rightarrow> fb_packet option"
  cells :: "nat \<Rightarrow> u32 \<times> fb_packet"
  cell_pos :: nat
  fb_calendar :: "u32 list list option"
  hop_calendar :: "(nat \<times> timeout_fn \<times> hop_ptr) list list option"
  fb_tick :: u32
  ticks :: int
  random_out :: "nat \<Rightarrow> int"
  random_pos :: nat
  xcp_mem :: "nat \<Rightarrow> xcp_pipe option"
  xcp_initialized :: bool
  xcp_pipe_count :: int
  next_router :: u32
  free_hop_scheds :: "nat list"
  allocate_idx :: nat
  total_hop_scheds :: u32
  num_qsw_entries :: int
  mn_state :: u32
  mc_expire :: int
  mc_ttl :: int
  mc_pcache :: "u32 list"
  remote_port :: u16
  pending_xc :: "remote_aggr list"
  free_pending :: nat
  pcache_occupancy :: u32
  pkt_frees :: u32
  pkt_allocs :: u32
  queued :: u32
  hop_scheduled :: u32
  mc_send :: u32
  mc_recv :: u32
  mc_ttldrops :: u32
  mc_errs :: u32
  delay_zeros :: u32
  pkt_seconds :: "int list"
  forwarded :: "mbuf list"
  udp_out :: "(u32 \<times> mbuf) list"
  udp_in :: "mbuf list"
  callout :: bool
  dn_hook :: bool

text \<open>\<open>mhlen\<close> is MHLEN, what an mbuf with a packet header and without a cluster can hold.\<close>

record kern =
  hz :: int
  mhlen :: nat
  in_pseudo :: "u32 \<Rightarrow> u32 \<Rightarrow> u32 \<Rightarrow> u16"
  in_cksum :: "u8 list \<Rightarrow> u16"
  delayed_cksum :: "u8 list \<Rightarrow> u8 list"
  udpcksum :: bool
  route_ifp :: "u32 \<Rightarrow> nat option"
  ifaddrs :: "(nat \<times> u32) list"
  ip_output :: "mbuf \<Rightarrow> int"

definition FB_ENOBUFS :: int where "FB_ENOBUFS = 55"
definition EHOSTUNREACH :: int where "EHOSTUNREACH = 65"
definition EEXIST :: int where "EEXIST = 17"

section \<open>The mutex and the allocator\<close>

text \<open>The mutex is not recursive, and the operations run one at a time: a lock by the holder never
  returns.\<close>

definition mtx_lock :: "fb \<Rightarrow> fb option" where
  "mtx_lock s = (if mn_mtx s = Some False then Some (s\<lparr>mn_mtx := Some True\<rparr>) else None)"

definition mtx_unlock :: "fb \<Rightarrow> fb option" where
  "mtx_unlock s = (if mn_mtx s = Some True then Some (s\<lparr>mn_mtx := Some False\<rparr>) else None)"

text \<open>\<open>malloc\<close> with \<open>M_NOWAIT\<close> may fail; with \<open>M_WAITOK\<close> it returns only with the
  memory, and never for a size beyond the kernel's map. A request of size 0 is served with a
  block of its own.\<close>

definition malloc_nowait :: "int \<Rightarrow> fb \<Rightarrow> bool \<times> fb" where
  "malloc_nowait n s =
     (if n < 0 then (False, s)
      else case alloc_ok s of
        False # r \<Rightarrow> (False, s\<lparr>alloc_ok := r\<rparr>)
      | _ \<Rightarrow> (True, s\<lparr>alloc_ok := tl (alloc_ok s), kmem := kmem s + 1\<rparr>))"

definition malloc_wait :: "int \<Rightarrow> fb \<Rightarrow> fb option" where
  "malloc_wait n s = (if n < 0 then None else Some (s\<lparr>kmem := kmem s + 1\<rparr>))"

definition bsd_free :: "fb \<Rightarrow> fb" where
  "bsd_free s = s\<lparr>kmem := kmem s - 1\<rparr>"

definition random :: "fb \<Rightarrow> int \<times> fb" where
  "random s = (random_out s (random_pos s), s\<lparr>random_pos := random_pos s + 1\<rparr>)"

section \<open>mbufs\<close>

text \<open>Reads and writes of header fields reach into the first mbuf only.\<close>

definition mget8 :: "mbuf \<Rightarrow> nat \<Rightarrow> u8 option" where
  "mget8 m off = (if off < m_len m \<and> off < length (m_data m) then Some (m_data m ! off) else None)"

definition mget32 :: "mbuf \<Rightarrow> nat \<Rightarrow> u32 option" where
  "mget32 m off = (if off + 4 \<le> m_len m \<and> off + 4 \<le> length (m_data m) then Some (get32 off (m_data m)) else None)"

definition mput :: "nat \<Rightarrow> u8 list \<Rightarrow> mbuf \<Rightarrow> mbuf option" where
  "mput off bs m = (if off + length bs \<le> m_len m \<and> off + length bs \<le> length (m_data m)
     then Some (m\<lparr>m_data := put_bytes off bs (m_data m)\<rparr>) else None)"

definition m_freem :: "nat \<Rightarrow> fb \<Rightarrow> fb option" where
  "m_freem k s = do { m \<leftarrow> mbufs s k; Some (s\<lparr>mbufs := (mbufs s)(k := None)\<rparr>) }"

definition upd_mbuf :: "nat \<Rightarrow> mbuf \<Rightarrow> fb \<Rightarrow> fb" where
  "upd_mbuf k m s = s\<lparr>mbufs := (mbufs s)(k \<mapsto> m)\<rparr>"

text \<open>\<open>m_pullup\<close>: the first \<open>n\<close> bytes into one mbuf; it frees the chain and returns NULL when
  there are fewer, or no mbuf is to be had.\<close>

definition m_pullup :: "nat \<Rightarrow> nat \<Rightarrow> fb \<Rightarrow> (nat option \<times> fb) option" where
  "m_pullup k n s = do {
     m \<leftarrow> mbufs s k;
     if n \<le> m_len m then Some (Some k, s)
     else if length (m_data m) < n then do { s1 \<leftarrow> m_freem k s; Some (None, s1) }
     else case alloc_ok s of
       False # r \<Rightarrow> do { s1 \<leftarrow> m_freem k (s\<lparr>alloc_ok := r\<rparr>); Some (None, s1) }
     | _ \<Rightarrow> Some (Some k, upd_mbuf k (m\<lparr>m_len := n, m_ext := False\<rparr>) (s\<lparr>alloc_ok := tl (alloc_ok s)\<rparr>)) }"

text \<open>\<open>m_adj\<close> with a positive count trims at the front; \<open>m_cat\<close> appends a chain, without
  touching the length in the header.\<close>

definition m_adj :: "nat \<Rightarrow> mbuf \<Rightarrow> mbuf" where
  "m_adj n m = m\<lparr>m_data := drop n (m_data m), m_len := m_len m - n,
     m_pktlen := m_pktlen m - int (min n (length (m_data m)))\<rparr>"

definition m_cat :: "nat \<Rightarrow> nat \<Rightarrow> fb \<Rightarrow> fb option" where
  "m_cat a b s = do {
     m \<leftarrow> mbufs s a;
     n \<leftarrow> mbufs s b;
     Some (s\<lparr>mbufs := (mbufs s)(b := None, a \<mapsto> m\<lparr>m_data := m_data m @ m_data n\<rparr>)\<rparr>) }"

text \<open>\<open>MGETHDR\<close>: a fresh mbuf with a packet header, or NULL. \<open>MCLGET\<close> gives it a cluster of
  \<open>MCLBYTES\<close>, or leaves it as it is. A digest is put behind the room for a header of 28 bytes.\<close>

definition MCLBYTES :: nat where "MCLBYTES = 2048"

definition mgethdr :: "fb \<Rightarrow> nat option \<times> fb" where
  "mgethdr s = (case alloc_ok s of
     False # r \<Rightarrow> (None, s\<lparr>alloc_ok := r\<rparr>)
   | _ \<Rightarrow> (Some (next_addr s), s\<lparr>alloc_ok := tl (alloc_ok s), next_addr := next_addr s + 1,
       mbufs := (mbufs s)(next_addr s \<mapsto> \<lparr>m_data = [], m_len = 0, m_pkthdr = True, m_pktlen = 0,
         csum_flags = 0, csum_data = 0, m_ext = False\<rparr>)\<rparr>))"

definition mclget :: "nat \<Rightarrow> fb \<Rightarrow> fb option" where
  "mclget b s = do {
     m \<leftarrow> mbufs s b;
     case alloc_ok s of
       False # r \<Rightarrow> Some (s\<lparr>alloc_ok := r\<rparr>)
     | _ \<Rightarrow> Some (upd_mbuf b (m\<lparr>m_ext := True\<rparr>) (s\<lparr>alloc_ok := tl (alloc_ok s)\<rparr>)) }"

definition storage :: "kern \<Rightarrow> mbuf \<Rightarrow> nat" where
  "storage k m = (if m_ext m then MCLBYTES else mhlen k)"

section \<open>Packets\<close>

definition upd_fpkt :: "u32 \<Rightarrow> (fb_packet \<Rightarrow> fb_packet) \<Rightarrow> fb \<Rightarrow> fb option" where
  "upd_fpkt a f s = do { p \<leftarrow> fb_pkts s a; Some (s\<lparr>fb_pkts := (fb_pkts s)(a \<mapsto> f p)\<rparr>) }"

text \<open>\<open>malloc\<close> of a \<open>struct packet\<close>: \<open>cells\<close> lists the addresses the allocator hands out and
  what the memory holds then.\<close>

definition malloc_pkt :: "fb \<Rightarrow> (u32 \<times> fb_packet) option \<times> fb" where
  "malloc_pkt s =
     (let (ok, s1) = malloc_nowait 1 s in
      if ok then (Some (cells s1 (cell_pos s1)), s1\<lparr>cell_pos := cell_pos s1 + 1\<rparr>) else (None, s1))"

text \<open>\<open>*(pkt->m_handle) = NULL\<close>\<close>

definition null_handle :: "nat \<Rightarrow> fb \<Rightarrow> fb option" where
  "null_handle h s =
     (if handles s h = None then None else Some (s\<lparr>handles := (handles s)(h \<mapsto> None)\<rparr>))"

definition fb_free_pkt :: "u32 \<Rightarrow> fb \<Rightarrow> fb option" where
  "fb_free_pkt a s = do {
     p \<leftarrow> fb_pkts s a;
     s1 \<leftarrow> (case fp_m p of None \<Rightarrow> Some s | Some k \<Rightarrow> m_freem k s);
     s2 \<leftarrow> null_handle (fp_handle p) s1;
     Some (s2\<lparr>fb_pkts := (fb_pkts s2)(a := None), kmem := kmem s2 - 1, pkt_frees := pkt_frees s2 + 1\<rparr>) }"

text \<open>\<open>MN_UNCACHE_PKT\<close>\<close>

definition uncache_pkt :: "u32 \<Rightarrow> fb \<Rightarrow> fb option" where
  "uncache_pkt a s =
     (if a \<in> set (mc_pcache s) then
        upd_fpkt a (\<lambda>p. p\<lparr>fp_info := (fp_info p)\<lparr>fi_id := 0\<rparr>\<rparr>)
          (s\<lparr>mc_pcache := remove1 a (mc_pcache s), pcache_occupancy := pcache_occupancy s - 1\<rparr>)
      else None)"

definition FB_PKT_HOME :: "fb_packet \<Rightarrow> bool" where
  "FB_PKT_HOME p \<longleftrightarrow> fp_cachehost p = 0"

definition FB_PKT_PCACHED :: "fb_packet \<Rightarrow> bool" where
  "FB_PKT_PCACHED p \<longleftrightarrow> fi_id (fp_info p) \<noteq> 0"

definition MC_HOP_LOCAL :: "('w, 'z) hop_scheme \<Rightarrow> bool" where
  "MC_HOP_LOCAL h \<longleftrightarrow> emulator h = 0"

end
