(* ===== verification/Fb_Xtq.thy ===== *)
theory Fb_Xtq
  imports Fb_State
begin

text \<open>
  emulator/freebsd6.4/module/mn_xtq.c and the parts of mn_xcp.c that touch more than one pipe: the
  switch of queueing disciplines, the pool of hop schedulers and the hop calendar, allocation of a
  pipe, the two timeouts. A scheduler is a number; what it holds while it is scheduled (function
  and hop) is kept in the calendar beside it, since freeing one clears it.
\<close>

definition NUM_HOP_SCHEDS :: nat where "NUM_HOP_SCHEDS = 5000"
definition MAX_ALLOCATIONS :: nat where "MAX_ALLOCATIONS = 10"
definition XTQ_XCP :: int where "XTQ_XCP = 1"
definition XTQ_MAX :: int where "XTQ_MAX = 256"

section \<open>The pool of hop schedulers\<close>

definition xtq_create_hop_scheds :: "fb \<Rightarrow> fb" where
  "xtq_create_hop_scheds s =
     (if allocate_idx s = MAX_ALLOCATIONS then s
      else
        let (ok, s1) = malloc_nowait (int NUM_HOP_SCHEDS) s in
        if \<not> ok then s1
        else s1\<lparr>allocate_idx := allocate_idx s1 + 1,
          total_hop_scheds := total_hop_scheds s1 + of_nat NUM_HOP_SCHEDS,
          free_hop_scheds := rev [allocate_idx s1 * NUM_HOP_SCHEDS..<(allocate_idx s1 + 1) * NUM_HOP_SCHEDS]
            @ free_hop_scheds s1\<rparr>)"

definition xtq_get_hs :: "fb \<Rightarrow> nat option \<times> fb" where
  "xtq_get_hs s =
     (let s1 = (if free_hop_scheds s = [] then xtq_create_hop_scheds s else s) in
      case free_hop_scheds s1 of
        [] \<Rightarrow> (None, s1)
      | x # r \<Rightarrow> (Some x, s1\<lparr>free_hop_scheds := r\<rparr>))"

definition xtq_free_hs :: "nat \<Rightarrow> fb \<Rightarrow> fb" where
  "xtq_free_hs x s = s\<lparr>free_hop_scheds := free_hop_scheds s @ [x]\<rparr>"

text \<open>\<open>XTQ_SCHEDULE_HOP\<close>. Only the low bits of the due tick matter.\<close>

definition xtq_schedule_hop :: "hop_ptr \<Rightarrow> timeout_fn \<Rightarrow> u32 \<Rightarrow> fb \<Rightarrow> fb option" where
  "xtq_schedule_hop hp f d s =
     (let (hs, s1) = xtq_get_hs s in
      case hs of
        None \<Rightarrow> Some s1
      | Some x \<Rightarrow> do {
          cal \<leftarrow> hop_calendar s1;
          cal' \<leftarrow> cal_add (fb_tick s1 + d) (x, f, hp) cal;
          Some (s1\<lparr>hop_scheduled := hop_scheduled s1 + 1, hop_calendar := Some cal'\<rparr>) })"

text \<open>One list of the calendar in \<open>xtq_unschedule_hop\<close>: what stays and the schedulers that are
  freed. After a removal \<open>nxt_hs\<close> is the next entry already when \<open>TAILQ_FOREACH\<close> steps on.\<close>

fun unschedule_list :: "hop_ptr \<Rightarrow> (nat \<times> timeout_fn \<times> hop_ptr) list
    \<Rightarrow> (nat \<times> timeout_fn \<times> hop_ptr) list \<times> nat list" where
  "unschedule_list h [] = ([], [])"
| "unschedule_list h [e] = (if snd (snd e) = h then ([], [fst e]) else ([e], []))"
| "unschedule_list h (e # nxt # es) =
     (if snd (snd e) = h
      then let (l, r) = unschedule_list h es in (nxt # l, fst e # r)
      else let (l, r) = unschedule_list h (nxt # es) in (e # l, r))"

definition xtq_unschedule_hop :: "hop_ptr \<Rightarrow> fb \<Rightarrow> fb option" where
  "xtq_unschedule_hop h s = do {
     cal \<leftarrow> hop_calendar s;
     let res = map (unschedule_list h) cal;
     let freed = concat (map snd res);
     Some (s\<lparr>hop_calendar := Some (map fst res), free_hop_scheds := free_hop_scheds s @ freed,
       hop_scheduled := hop_scheduled s - of_nat (length freed)\<rparr>) }"

section \<open>The switch\<close>

definition qsw :: "extended_q list" where
  "qsw = [\<lparr>xq_type = 0, xq_callbacks = False, xt_hop = None\<rparr>,
          \<lparr>xq_type = XTQ_XCP, xq_callbacks = True, xt_hop = None\<rparr>,
          \<lparr>xq_type = XTQ_MAX, xq_callbacks = False, xt_hop = None\<rparr>]"

definition xtq_init :: "fb \<Rightarrow> fb" where
  "xtq_init s =
     (let s1 = xtq_create_hop_scheds s in
      s1\<lparr>num_qsw_entries := num_qsw_entries s1 + int (length (takeWhile (\<lambda>q. xq_type q \<noteq> XTQ_MAX) qsw))\<rparr>)"

text \<open>Every allocated block is freed.\<close>

definition xtq_uninit :: "fb \<Rightarrow> fb" where
  "xtq_uninit s = s\<lparr>kmem := kmem s - int (allocate_idx s)\<rparr>"

section \<open>XCP pipes\<close>

definition xcp_init :: "fb \<Rightarrow> fb" where
  "xcp_init s = s\<lparr>xcp_pipe_count := 0, xcp_initialized := True\<rparr>"

definition xcp_uninit :: "fb \<Rightarrow> fb" where
  "xcp_uninit s = s\<lparr>xcp_initialized := False\<rparr>"

definition xcp_free_pipe :: "fb \<Rightarrow> fb" where
  "xcp_free_pipe s =
     (let s1 = s\<lparr>xcp_pipe_count := xcp_pipe_count s - 1\<rparr> in
      if xcp_pipe_count s1 = 0 then xcp_uninit s1 else s1)"

definition set_xtq :: "hop_ptr \<Rightarrow> (extended_q \<Rightarrow> extended_q) \<Rightarrow> fb \<Rightarrow> fb option" where
  "set_xtq hp f s = do { h \<leftarrow> deref_hop hp s; store_hop hp (h\<lparr>xtq := f (xtq h)\<rparr>) s }"

text \<open>\<open>xcp_alloc_pipe\<close>: the errno it returns is ignored by its only caller.\<close>

definition xcp_alloc_pipe :: "kern \<Rightarrow> hop_ptr \<Rightarrow> fb \<Rightarrow> (int \<times> fb) option" where
  "xcp_alloc_pipe k hp s = do {
     h \<leftarrow> deref_hop hp s;
     let s1 = (if xcp_initialized s then s else xcp_init s);
     let s2 = s1\<lparr>xcp_pipe_count := xcp_pipe_count s1 + 1\<rparr>;
     let (ok, s3) = malloc_nowait 1 s2;
     if \<not> ok then do {
       s4 \<leftarrow> set_xtq hp (\<lambda>q. q\<lparr>xt_hop := None\<rparr>) s3;
       Some (ENOMEM, s4) }
     else do {
       let a = next_addr s3;
       let p = fresh_pipe (hz k) (KBps h) (qsize h) (next_router s3);
       s4 \<leftarrow> set_xtq hp (\<lambda>q. q\<lparr>xt_hop := Some a\<rparr>) (s3\<lparr>next_addr := a + 1,
           xcp_mem := (xcp_mem s3)(a \<mapsto> p), next_router := next_router s3 + 1\<rparr>);
       let (r1, s5) = random s4;
       s6 \<leftarrow> xtq_schedule_hop hp Tq_Fn (stagger (hz k) (u32_of r1) (Tq p)) s5;
       let (r2, s7) = random s6;
       s8 \<leftarrow> xtq_schedule_hop hp Te_Fn (stagger (hz k) (u32_of r2) (Te p)) s7;
       Some (0, s8) } }"

section \<open>Installing a discipline\<close>

text \<open>An unknown type takes the last installed entry.\<close>

definition xtq_install :: "kern \<Rightarrow> hop_ptr \<Rightarrow> int \<Rightarrow> fb \<Rightarrow> fb option" where
  "xtq_install k hp xtq_type s =
     (if xtq_type < 0 \<or> num_qsw_entries s < xtq_type then do {
        q \<leftarrow> aget qsw (num_qsw_entries s - 1);
        set_xtq hp (\<lambda>_. q) s }
      else do {
        q \<leftarrow> aget qsw xtq_type;
        s1 \<leftarrow> set_xtq hp (\<lambda>_. q) s;
        if xq_callbacks q then do { (err, s2) \<leftarrow> xcp_alloc_pipe k hp s1; Some s2 } else Some s1 })"

definition xtq_uninstall :: "kern \<Rightarrow> hop_ptr \<Rightarrow> int \<Rightarrow> fb \<Rightarrow> fb option" where
  "xtq_uninstall k hp xtq_type s = do {
     h \<leftarrow> deref_hop hp s;
     let s1 = (if xq_callbacks (xtq h) then xcp_free_pipe s else s);
     if 0 \<le> xtq_type then xtq_install k hp xtq_type s1 else Some s1 }"

section \<open>Callbacks of a hop\<close>

text \<open>The pipe of a hop: \<open>None\<close> when the hop or its pipe is not there.\<close>

definition pipe_of :: "hop_ptr \<Rightarrow> fb \<Rightarrow> (fb_hop \<times> nat \<times> xcp_pipe) option" where
  "pipe_of hp s = do {
     h \<leftarrow> deref_hop hp s;
     a \<leftarrow> xt_hop (xtq h);
     p \<leftarrow> xcp_mem s a;
     Some (h, a, p) }"

definition put_pipe :: "nat \<Rightarrow> xcp_pipe \<Rightarrow> fb \<Rightarrow> fb" where
  "put_pipe a p s = s\<lparr>xcp_mem := (xcp_mem s)(a \<mapsto> p)\<rparr>"

definition xtq_enqueue :: "kern \<Rightarrow> hop_ptr \<Rightarrow> u32 \<Rightarrow> fb \<Rightarrow> fb option" where
  "xtq_enqueue k hp pkt s = do {
     (h, a, p) \<leftarrow> pipe_of hp s;
     q \<leftarrow> fb_pkts s pkt;
     Some (put_pipe a (xcp_enqueue (hz k) p (fp_info q)) s) }"

definition xtq_dequeue :: "kern \<Rightarrow> hop_ptr \<Rightarrow> u32 \<Rightarrow> fb \<Rightarrow> fb option" where
  "xtq_dequeue k hp pkt s = do {
     (h, a, p) \<leftarrow> pipe_of hp s;
     q \<leftarrow> fb_pkts s pkt;
     (p', i') \<leftarrow> xcp_dequeue (hz k) (bytedepth h) p (fp_info q);
     upd_fpkt pkt (\<lambda>q. q\<lparr>fp_info := i'\<rparr>) (put_pipe a p' s) }"

definition Tq_timeout :: "kern \<Rightarrow> hop_ptr \<Rightarrow> fb \<Rightarrow> fb option" where
  "Tq_timeout k hp s = do {
     (h, a, p) \<leftarrow> pipe_of hp s;
     p' \<leftarrow> tq_update (hz k) (bytedepth h) p;
     xtq_schedule_hop hp Tq_Fn (ucast (Tq p')) (put_pipe a p' s) }"

definition Te_timeout :: "kern \<Rightarrow> hop_ptr \<Rightarrow> fb \<Rightarrow> fb option" where
  "Te_timeout k hp s = do {
     (h, a, p) \<leftarrow> pipe_of hp s;
     p' \<leftarrow> te_update (hz k) (qsize h) (slotdepth h) p;
     xtq_schedule_hop hp Te_Fn (ucast (Te p')) (put_pipe a p' s) }"

definition run_timeout :: "kern \<Rightarrow> timeout_fn \<Rightarrow> hop_ptr \<Rightarrow> fb \<Rightarrow> fb option" where
  "run_timeout k f hp = (case f of Tq_Fn \<Rightarrow> Tq_timeout k hp | Te_Fn \<Rightarrow> Te_timeout k hp)"

section \<open>XCP headers and checksums\<close>

definition IPPROTO_TUF :: u8 where "IPPROTO_TUF = 132"
definition CSUM_TCP :: int where "CSUM_TCP = 2"
definition CSUM_ACP :: int where "CSUM_ACP = 0x1000"

text \<open>The sum field of the transport header is at byte 36 of the packet, its offset in that header
  is 16; 40 and 60 are the sizes of \<open>struct tcpiphdr\<close> and \<open>struct acpiphdr\<close>.\<close>

definition pseudo_sum :: "kern \<Rightarrow> int \<Rightarrow> u16 \<Rightarrow> mbuf \<Rightarrow> mbuf option" where
  "pseudo_sum k hdr extra m = do {
     src \<leftarrow> mget32 m 12;
     dst \<leftarrow> mget32 m 16;
     let ck = in_pseudo k src dst (ucast (htons (word_of_int (m_pktlen m - hdr) + extra)));
     mput 36 [ucast ck, ucast (drop_bit 8 ck)] m }"

definition L4_tcp_cksum :: "kern \<Rightarrow> mbuf \<Rightarrow> mbuf option" where
  "L4_tcp_cksum k m =
     pseudo_sum k 40 (20 + 6) (if csum_flags m \<noteq> CSUM_TCP then m\<lparr>csum_flags := CSUM_TCP, csum_data := 16\<rparr> else m)"

text \<open>\<open>CSUM_DELAY_DATA\<close> has no \<open>CSUM_ACP\<close>, so the sum is computed at once.\<close>

definition L4_acp_cksum :: "kern \<Rightarrow> mbuf \<Rightarrow> mbuf option" where
  "L4_acp_cksum k m = do {
     m1 \<leftarrow> pseudo_sum k 60 (40 + 132) (if csum_flags m \<noteq> CSUM_ACP then m\<lparr>csum_flags := CSUM_ACP, csum_data := 16\<rparr> else m);
     Some (m1\<lparr>m_data := delayed_cksum k (m_data m1)\<rparr>) }"

definition xcp_get_xcpinfo :: "u32 \<Rightarrow> fb \<Rightarrow> fb option" where
  "xcp_get_xcpinfo a s = do {
     p \<leftarrow> fb_pkts s a;
     b \<leftarrow> fp_m p;
     m \<leftarrow> mbufs s b;
     proto \<leftarrow> mget8 m 9;
     if proto \<noteq> IPPROTO_TUF then
       upd_fpkt a (\<lambda>q. q\<lparr>fp_info := (fp_info q)\<lparr>xcp_cwnd := 0, xcp_src_fdbk := 0, xcp_rflct_fdbk := 0,
         xcp_rtt := 100\<rparr>\<rparr>) s
     else do {
       cwnd \<leftarrow> mget32 m 40;
       src \<leftarrow> mget32 m 44;
       rflct \<leftarrow> mget32 m 48;
       rtt \<leftarrow> mget32 m 52;
       upd_fpkt a (\<lambda>q. q\<lparr>fp_info := (fp_info q)\<lparr>xcp_cwnd := ntohl cwnd, xcp_src_fdbk := sint (ntohl src),
         xcp_rflct_fdbk := sint (ntohl rflct), xcp_rtt := ntohl rtt\<rparr>\<rparr>) s } }"

definition xcp_set_xcpinfo :: "kern \<Rightarrow> u32 \<Rightarrow> fb \<Rightarrow> fb option" where
  "xcp_set_xcpinfo k a s = do {
     p \<leftarrow> fb_pkts s a;
     b \<leftarrow> fp_m p;
     m \<leftarrow> mbufs s b;
     proto \<leftarrow> mget8 m 9;
     if proto \<noteq> IPPROTO_TUF then Some s
     else do {
       (r, s1) \<leftarrow> m_pullup b 60 s;
       s2 \<leftarrow> upd_fpkt a (\<lambda>q. q\<lparr>fp_m := r\<rparr>) s1;
       b' \<leftarrow> r;
       m1 \<leftarrow> mbufs s2 b';
       m2 \<leftarrow> mput 44 (bytes32 (htonl (u32_of (xcp_src_fdbk (fp_info p))))) m1;
       m3 \<leftarrow> L4_acp_cksum k m2;
       Some (upd_mbuf b' m3 s2) } }"

end
