(* ===== verification/Fb_Pathtable.thy ===== *)
theory Fb_Pathtable
  imports Fb_Xtq
begin

text \<open>
  emulator/freebsd6.4/module/mn_pathtable.c: path lookup and the sysctl handlers that load the
  tables. A request is a \<open>sysctl_req\<close>: what \<open>SYSCTL_IN\<close> returns and delivers, whether there is
  a new and an old buffer, what \<open>SYSCTL_OUT\<close> will return. The results of \<open>copyin\<close> are ignored by
  the code; what is in the buffer afterwards is an argument. Returns after a failed allocation with
  \<open>M_WAITOK\<close> are left out: such a request does not fail.
\<close>

section \<open>Lookup\<close>

definition fb_lookup_path :: "('h, 'z) topo_scheme \<Rightarrow> u32 \<Rightarrow> u32 \<Rightarrow> nat option option" where
  "fb_lookup_path s src dst =
     (let srcid = node_id (nodetable s) (unat (ntohl src AND NODEMASK));
          dstid = node_id (nodetable s) (unat (ntohl dst AND NODEMASK)) in
      if srcid = - 1 \<or> dstid = - 1 \<or> pathtable s = None then Some None
      else do {
        rows \<leftarrow> pathtable s;
        row \<leftarrow> aget rows srcid;
        aget row dstid })"

lemma fb_lookup_path_eq: "fb_lookup_path = lookup_path"
  by (intro ext) (auto simp: fb_lookup_path_def lookup_path_def node_of_def Let_def split: option.splits)

section \<open>Freeing the tables\<close>

text \<open>\<open>free_path\<close> is the function of \<open>Topology\<close>, on the blocks of this kernel's allocator.\<close>

definition fb_free_path :: "fb \<Rightarrow> fb option" where
  "fb_free_path s = free_path s"

fun uninit_hops :: "kern \<Rightarrow> nat \<Rightarrow> int list \<Rightarrow> fb \<Rightarrow> fb option" where
  "uninit_hops k tab [] s = Some s"
| "uninit_hops k tab (i # is) s = do {
     s1 \<leftarrow> xtq_uninstall k (Hop_Ptr tab i) (- 1) s;
     uninit_hops k tab is (bsd_free (bsd_free s1)) }"

definition fb_uninit_paths :: "kern \<Rightarrow> fb \<Rightarrow> fb option" where
  "fb_uninit_paths k s = do {
     s1 \<leftarrow> mtx_lock s;
     s2 \<leftarrow> fb_free_path s1;
     s3 \<leftarrow> (case hoptable s2 of
              None \<Rightarrow> Some s2
            | Some (tab, hs) \<Rightarrow> do {
                s3 \<leftarrow> uninit_hops k tab [0..hopcount s2 - 1] s2;
                Some (bsd_free s3) });
     mtx_unlock (s3\<lparr>hoptable := None, hopcount := 0\<rparr>) }"

section \<open>Requests\<close>

record 'a sysctl_req =
  rq_in :: "int \<times> 'a"
  rq_new :: bool
  rq_old :: bool
  rq_out :: int

text \<open>The first lines of the handlers: the errno to return at once, or the value that arrived.\<close>

definition sysctl_in :: "'a sysctl_req \<Rightarrow> int + 'a" where
  "sysctl_in r =
     (if fst (rq_in r) \<noteq> 0 \<or> \<not> rq_new r
      then Inl (if \<not> rq_old r then rq_out r else fst (rq_in r))
      else Inr (snd (rq_in r)))"

section \<open>sysctl_nodecount\<close>

text \<open>\<open>sysctl_handle_int\<close> stores the new value in a copy.\<close>

definition sysctl_nodecount :: "int sysctl_req \<Rightarrow> fb \<Rightarrow> (int \<times> fb) option" where
  "sysctl_nodecount r s =
     (if fst (rq_in r) \<noteq> 0 \<or> \<not> rq_new r then Some (fst (rq_in r), s)
      else do {
        let newcount = snd (rq_in r);
        s1 \<leftarrow> mtx_lock s;
        s2 \<leftarrow> (if newcount \<noteq> nodecount s1 then do {
                 s2 \<leftarrow> fb_free_path s1;
                 s3 \<leftarrow> malloc_wait newcount (s2\<lparr>nodecount := newcount\<rparr>);
                 Some (s3\<lparr>pathtable := Some (replicate (nat newcount) (replicate (nat newcount) None)),
                   kmem := kmem s3 + newcount\<rparr>) }
               else Some s1);
        s3 \<leftarrow> mtx_unlock s2;
        Some (0, s3) })"

section \<open>sysctl_hophandle\<close>

definition fb_zero_hop :: fb_hop where
  "fb_zero_hop = \<lparr>KBps = 0, delay = 0, plr = 0, qsize = 0, emulator = 0, bytespertick = 0, hop_id = 0,
     slotdepth = 0, bytedepth = 0, headslot = 0, fragment = 0, exittick = [], slotlen = [],
     pkts = 0, bytes = 0, qdrops = 0, xtq = \<lparr>xq_type = 0, xq_callbacks = False, xt_hop = None\<rparr>\<rparr>"

definition fb_setup_hop :: "kern \<Rightarrow> nat \<Rightarrow> int \<Rightarrow> sysctl_hop \<Rightarrow> fb \<Rightarrow> fb option" where
  "fb_setup_hop k tab i sh s = do {
     h \<leftarrow> deref_hop (Hop_Ptr tab i) s;
     let h1 = hop_params (hz k) i sh h;
     s1 \<leftarrow> malloc_wait (qsize h1) s;
     let h2 = h1\<lparr>exittick := replicate (nat (qsize h1)) 0, slotdepth := 0, bytedepth := 0,
         headslot := 0, fragment := 0\<rparr>;
     s2 \<leftarrow> malloc_wait (qsize h2) s1;
     s3 \<leftarrow> store_hop (Hop_Ptr tab i) (h2\<lparr>slotlen := replicate (nat (qsize h2)) 0\<rparr>) s2;
     xtq_install k (Hop_Ptr tab i) (sh_xtq_type sh) s3 }"

fun fb_setup_hops :: "kern \<Rightarrow> nat \<Rightarrow> sysctl_hop list \<Rightarrow> int list \<Rightarrow> fb \<Rightarrow> fb option" where
  "fb_setup_hops k tab hops [] s = Some s"
| "fb_setup_hops k tab hops (i # is) s = do {
     sh \<leftarrow> aget hops i;
     s1 \<leftarrow> fb_setup_hop k tab i sh s;
     fb_setup_hops k tab hops is s1 }"

text \<open>The request holds \<open>tab.hopcount\<close>; \<open>hops\<close> is the copied array.\<close>

definition sysctl_hophandle :: "kern \<Rightarrow> int sysctl_req \<Rightarrow> sysctl_hop list \<Rightarrow> fb \<Rightarrow> (int \<times> fb) option" where
  "sysctl_hophandle k r hops s =
     (case sysctl_in r of
        Inl e \<Rightarrow> Some (e, s)
      | Inr n \<Rightarrow> do {
          s1 \<leftarrow> malloc_wait n s;
          s2 \<leftarrow> fb_uninit_paths k s1;
          s3 \<leftarrow> malloc_wait n s2;
          let tab = next_addr s3;
          s4 \<leftarrow> mtx_lock (s3\<lparr>hoptable := Some (tab, replicate (nat n) fb_zero_hop), next_addr := tab + 1\<rparr>);
          s5 \<leftarrow> fb_setup_hops k tab hops [0..n - 1] (s4\<lparr>hopcount := n\<rparr>);
          s6 \<leftarrow> mtx_unlock (bsd_free s5);
          Some (rq_out r, s6) })"

section \<open>sysctl_hopmodhandle\<close>

record sysctl_hopmod =
  hm_hopidx :: int
  hm_hop :: sysctl_hop

definition sysctl_hopmodhandle :: "kern \<Rightarrow> sysctl_hopmod sysctl_req \<Rightarrow> fb \<Rightarrow> (int \<times> fb) option" where
  "sysctl_hopmodhandle k r s =
     (case sysctl_in r of
        Inl e \<Rightarrow> Some (e, s)
      | Inr md \<Rightarrow>
          if hopcount s \<le> hm_hopidx md then Some (EINVAL, s)
          else do {
            s1 \<leftarrow> mtx_lock s;
            (tab, hs) \<leftarrow> hoptable s1;
            let hp = Hop_Ptr tab (hm_hopidx md);
            h \<leftarrow> deref_hop hp s1;
            let sh = hm_hop md;
            let kbps = sh_bandwidth sh sdiv 8;
            s2 \<leftarrow> store_hop hp (h\<lparr>KBps := kbps, delay := s32 (hz k * sh_delay sh) sdiv 1000,
                plr := sh_plr sh, emulator := sh_emulator sh,
                bytespertick := u32_of (s32 (kbps * 1000) sdiv hz k)\<rparr>) s1;
            s3 \<leftarrow> xtq_uninstall k hp (sh_xtq_type sh) s2;
            s4 \<leftarrow> mtx_unlock s3;
            Some (rq_out r, s4) })"

section \<open>sysctl_hopstats\<close>

definition sysctl_hopstats_read :: "unit sysctl_req \<Rightarrow> fb \<Rightarrow> (int \<times> sysctl_hopstats list \<times> fb) option" where
  "sysctl_hopstats_read r s = do {
     s1 \<leftarrow> malloc_wait (hopcount s) s;
     st \<leftarrow> read_stats [0..hopcount s1 - 1] s1;
     Some (rq_out r, st, bsd_free s1) }"

section \<open>sysctl_pathentry\<close>

definition fb_pathentry :: "sysctl_pathentry sysctl_req \<Rightarrow> int list \<Rightarrow> fb \<Rightarrow> (int \<times> fb) option" where
  "fb_pathentry r hops s =
     (case sysctl_in r of
        Inl e \<Rightarrow> Some (e, s)
      | Inr e \<Rightarrow>
          if pathtable s = None \<or> hoptable s = None then Some (EINVAL, s)
          else if nodecount s < pe_src_node e \<or> nodecount s < pe_dst_node e then Some (EINVAL, s)
          else
            let (ok, s1) = malloc_nowait (pe_pathlen e) s in
            if \<not> ok then Some (ENOMEM, s1)
            else do {
              s2 \<leftarrow> mtx_lock s1;
              let (ok, s3) = malloc_nowait (pe_pathlen e + 1) s2;
              if \<not> ok then do {
                s4 \<leftarrow> set_entry (pe_src_node e) (pe_dst_node e) None s3;
                s5 \<leftarrow> mtx_unlock s4;
                Some (ENOMEM, s5) }
              else do {
                (tab, hs) \<leftarrow> hoptable s3;
                s4 \<leftarrow> set_entry (pe_src_node e) (pe_dst_node e) (Some (next_addr s3)) s3;
                let s5 = s4\<lparr>path_mem := (path_mem s4)(next_addr s4 \<mapsto> path_block tab hops),
                    next_addr := next_addr s4 + 1\<rparr>;
                s6 \<leftarrow> mtx_unlock (bsd_free s5);
                Some (0, s6) } })"

end
