(* ===== verification/Fb_Remote.thy ===== *)
theory Fb_Remote
  imports Fb_Pathtable
begin

text \<open>
  emulator/freebsd6.4/module/mn_remote.c and udp_send.c, udp_rewrite.c: what a core sends to
  another. A packet goes out as the 48 bytes of its \<open>struct remote_packet\<close>, alone, with its
  payload, or with others in an aggregate, while the payload may wait in the packet cache. The mbufs
  built here leave room for the header, so \<open>M_PREPEND\<close> always has it.
\<close>

section \<open>struct remote_packet on the wire\<close>

text \<open>The three bytes behind \<open>ttl\<close> are padding, shown as zero; the receiver does not look at them.\<close>

definition info_bytes :: "fb_remote \<Rightarrow> u8 list" where
  "info_bytes i = bytes32 (fi_id i) @ bytes32 (fi_expire i) @ bytes32 (fi_len i) @ bytes32 (fi_wait_time i)
     @ bytes32 (fi_src i) @ bytes32 (fi_dst i) @ bytes32 (fi_hop i) @ [word_of_int (fi_ttl i), 0, 0, 0]
     @ bytes32 (xcp_cwnd i) @ bytes32 (u32_of (xcp_src_fdbk i)) @ bytes32 (u32_of (xcp_rflct_fdbk i))
     @ bytes32 (xcp_rtt i)"

definition info_of_bytes :: "u8 list \<Rightarrow> fb_remote" where
  "info_of_bytes d = \<lparr>fi_id = get32 0 d, fi_expire = get32 4 d, fi_len = get32 8 d, fi_wait_time = get32 12 d,
     fi_src = get32 16 d, fi_dst = get32 20 d, fi_hop = get32 24 d, fi_ttl = sint (d ! 28),
     xcp_cwnd = get32 32 d, xcp_src_fdbk = sint (get32 36 d), xcp_rflct_fdbk = sint (get32 40 d),
     xcp_rtt = get32 44 d\<rparr>"

section \<open>udp_rewrite.c\<close>

definition bytes16 :: "u16 \<Rightarrow> u8 list" where
  "bytes16 w = [ucast w, ucast (drop_bit 8 w)]"

definition get16 :: "nat \<Rightarrow> u8 list \<Rightarrow> u16" where
  "get16 off d = ucast (d ! off) OR push_bit 8 (ucast (d ! (off + 1)))"

definition CSUM_UDP :: int where "CSUM_UDP = 4"

text \<open>\<open>udp_rewrite_word\<close>: 28 is the size of \<open>struct udpiphdr\<close>, its sum is at 26; the new word
  is \<open>m_copyback\<close> past the first mbuf.\<close>

definition udp_rewrite_word :: "kern \<Rightarrow> nat \<Rightarrow> u32 \<Rightarrow> mbuf \<Rightarrow> mbuf option" where
  "udp_rewrite_word k off w m = do {
     m1 \<leftarrow> (if 28 \<le> m_len m \<and> 28 \<le> length (m_data m) then
              if get16 26 (m_data m) \<noteq> 0 \<and> udpcksum k \<and> csum_flags m AND CSUM_UDP \<noteq> 0 then
                let ck = in_pseudo k (get32 12 (m_data m)) (get32 16 (m_data m))
                    (ucast (htons (word_of_int (m_pktlen m - 28) + 8 + 17))) in
                Some (m\<lparr>m_data := put_bytes 26 (bytes16 ck) (m_data m), csum_flags := CSUM_UDP, csum_data := 6\<rparr>)
              else Some m
            else None);
     if off + 4 \<le> m_len m1 then mput off (bytes32 w) m1
     else Some (m1\<lparr>m_data := put_bytes off (bytes32 w) (m_data m1)\<rparr>) }"

definition udp_rewrite_src :: "kern \<Rightarrow> u32 \<Rightarrow> mbuf \<Rightarrow> mbuf option" where
  "udp_rewrite_src k src m = udp_rewrite_word k 12 src m"

definition udp_rewrite_dst :: "kern \<Rightarrow> u32 \<Rightarrow> mbuf \<Rightarrow> mbuf option" where
  "udp_rewrite_dst k dst m = udp_rewrite_word k 16 dst m"

text \<open>Ports are shorts; -1 keeps the old one.\<close>

definition udp_rewrite_ports :: "kern \<Rightarrow> int \<Rightarrow> int \<Rightarrow> mbuf \<Rightarrow> mbuf option" where
  "udp_rewrite_ports k sport dport m =
     (if 28 \<le> m_len m \<and> 28 \<le> length (m_data m) then
        let s = (if sport = - 1 then get16 20 (m_data m) else word_of_int sport);
            d = (if dport = - 1 then get16 22 (m_data m) else word_of_int dport) in
        udp_rewrite_word k 20 (ucast s OR push_bit 16 (ucast d)) m
      else None)"

text \<open>\<open>udp_rewrite_misc\<close> panics for an offset or length that is not a multiple of 4, or past
  the packet.\<close>

fun rewrite_words :: "kern \<Rightarrow> nat \<Rightarrow> u32 list \<Rightarrow> mbuf \<Rightarrow> mbuf option" where
  "rewrite_words k off [] m = Some m"
| "rewrite_words k off (w # ws) m = do { m1 \<leftarrow> udp_rewrite_word k off w m; rewrite_words k (off + 4) ws m1 }"

definition udp_rewrite_misc :: "kern \<Rightarrow> nat \<Rightarrow> nat \<Rightarrow> u32 list \<Rightarrow> mbuf \<Rightarrow> mbuf option" where
  "udp_rewrite_misc k off len ws m =
     (if off mod 4 \<noteq> 0 \<or> len mod 4 \<noteq> 0 \<or> m_pktlen m < int (off + len) \<or> length ws < len div 4 then None
      else rewrite_words k off (take (len div 4) ws) m)"

text \<open>\<open>udp_rewrite_sum\<close>: the sum over the pseudo header and the data.\<close>

definition udp_rewrite_sum :: "kern \<Rightarrow> mbuf \<Rightarrow> mbuf option" where
  "udp_rewrite_sum k m =
     (if 28 \<le> m_len m \<and> 28 \<le> length (m_data m) then
        if get16 26 (m_data m) \<noteq> 0 \<and> udpcksum k then
          let d = m_data m;
              pseudo = put_bytes 26 [0, 0] (put_bytes 10 (bytes16 (get16 24 d)) (put_bytes 0 (replicate 9 0) d));
              ck = in_cksum k pseudo in
          Some (m\<lparr>m_data := put_bytes 26 (bytes16 (if ck = 0 then 0xffff else ck)) d\<rparr>)
        else Some m
      else None)"

section \<open>udp_send.c\<close>

text \<open>The route is looked up first; \<open>ro.ro_rt\<close> is NULL without one, and is read for the first
  interface address. On EHOSTUNREACH the chain, header prepended, stays allocated.\<close>

definition find_ifaddr :: "kern \<Rightarrow> u32 \<Rightarrow> u32 option option" where
  "find_ifaddr k dst =
     (if ifaddrs k = [] then Some None
      else do {
        ifp \<leftarrow> route_ifp k dst;
        Some (map_option snd (find (\<lambda>e. fst e = ifp) (ifaddrs k))) })"

definition udp_overlay :: "u16 \<Rightarrow> u32 \<Rightarrow> u32 \<Rightarrow> u16 \<Rightarrow> u16 \<Rightarrow> u16 \<Rightarrow> u8 list" where
  "udp_overlay len src dst sport dport ck =
     replicate 9 0 @ [17] @ bytes16 len @ bytes32 src @ bytes32 dst @ bytes16 sport @ bytes16 dport
     @ bytes16 len @ bytes16 ck"

definition prepend :: "u8 list \<Rightarrow> mbuf \<Rightarrow> mbuf" where
  "prepend h m = m\<lparr>m_data := h @ m_data m, m_len := m_len m + length h, m_pktlen := m_pktlen m + int (length h)\<rparr>"

definition udp_send_out :: "kern \<Rightarrow> u32 \<Rightarrow> u16 \<Rightarrow> u16 \<Rightarrow> nat option \<Rightarrow> fb \<Rightarrow> (int \<times> fb) option" where
  "udp_send_out k dst sport dport b s =
     (case b of
        None \<Rightarrow> Some (FB_ENOBUFS, s)
      | Some b \<Rightarrow> do {
          m \<leftarrow> mbufs s b;
          r \<leftarrow> find_ifaddr k dst;
          case r of
            None \<Rightarrow> Some (EHOSTUNREACH, upd_mbuf b (prepend (replicate 28 0) m) s)
          | Some src \<Rightarrow> do {
              let len = htons (word_of_int (m_pktlen m + 8));
              let m1 = prepend (udp_overlay len src dst sport dport 0) m;
              let c = in_cksum k (m_data m1);
              let ck = (if udpcksum k then (if c = 0 then 0xffff else c) else 0);
              let m2 = prepend (udp_overlay len src dst sport dport ck) m;
              let m3 = m2\<lparr>m_data := put_bytes 8 [64] (put_bytes 1 ([0] @ bytes16 (word_of_int (m_pktlen m2)))
                  (m_data m2))\<rparr>;
              Some (ip_output k m3, s\<lparr>mbufs := (mbufs s)(b := None), udp_out := udp_out s @ [(dst, m3)]\<rparr>) } })"

definition udp_send_out_complete :: "kern \<Rightarrow> nat \<Rightarrow> fb \<Rightarrow> (int \<times> fb) option" where
  "udp_send_out_complete k b s = do {
     m \<leftarrow> mbufs s b;
     dst \<leftarrow> mget32 m 16;
     r \<leftarrow> find_ifaddr k dst;
     case r of
       None \<Rightarrow> Some (EHOSTUNREACH, s)
     | Some src \<Rightarrow> do {
         m1 \<leftarrow> udp_rewrite_src k src m;
         Some (ip_output k m1, s\<lparr>mbufs := (mbufs s)(b := None), udp_out := udp_out s @ [(dst, m1)]\<rparr>) } }"

text \<open>\<open>udp_send_in\<close> and \<open>udp_send_in_complete\<close> hand a datagram to the local UDP stack. The chains
  are the caller's, so \<open>room\<close> says whether the header fits before the data; without room
  \<open>M_PREPEND\<close> takes another mbuf, or frees the chain when there is none.\<close>

definition m_prepend :: "bool \<Rightarrow> u8 list \<Rightarrow> nat \<Rightarrow> fb \<Rightarrow> (bool \<times> fb) option" where
  "m_prepend room h b s = do {
     m \<leftarrow> mbufs s b;
     if room then Some (True, upd_mbuf b (prepend h m) s)
     else case alloc_ok s of
       False # r \<Rightarrow> do { s1 \<leftarrow> m_freem b (s\<lparr>alloc_ok := r\<rparr>); Some (False, s1) }
     | _ \<Rightarrow> Some (True, upd_mbuf b ((prepend h m)\<lparr>m_len := length h, m_ext := False\<rparr>) (s\<lparr>alloc_ok := tl (alloc_ok s)\<rparr>)) }"

definition udp_send_in_complete :: "nat \<Rightarrow> fb \<Rightarrow> (int \<times> fb) option" where
  "udp_send_in_complete b s = do {
     m \<leftarrow> mbufs s b;
     Some (0, s\<lparr>mbufs := (mbufs s)(b := None), udp_in := udp_in s @ [m]\<rparr>) }"

definition udp_send_in :: "kern \<Rightarrow> u32 \<Rightarrow> u16 \<Rightarrow> u16 \<Rightarrow> bool \<Rightarrow> nat \<Rightarrow> fb \<Rightarrow> (int \<times> fb) option" where
  "udp_send_in k src sport dport room b s = do {
     (ok, s1) \<leftarrow> m_prepend room (replicate 28 0) b s;
     if \<not> ok then Some (FB_ENOBUFS, s1)
     else do {
       r \<leftarrow> find_ifaddr k src;
       case r of
         None \<Rightarrow> Some (EHOSTUNREACH, s1)
       | Some dst \<Rightarrow> do {
           m \<leftarrow> mbufs s1 b;
           let len = htons (word_of_int (m_pktlen m - 20));
           let hdr = put_bytes 2 (bytes16 (word_of_int (m_pktlen m - 20))) (udp_overlay len src dst sport dport 0);
           udp_send_in_complete b (upd_mbuf b (m\<lparr>m_data := put_bytes 0 hdr (m_data m)\<rparr>) s1) } } }"

section \<open>Aggregates\<close>

definition MN_PCACHE :: u32 where "MN_PCACHE = 1"
definition MN_AGGREGATE :: u32 where "MN_AGGREGATE = 2"
definition MN_KERNEL :: u32 where "MN_KERNEL = 4"
definition MN_MAX_CORES :: nat where "MN_MAX_CORES = 32"
definition MODEL_PORT :: u16 where "MODEL_PORT = 5347"

definition remote_aggregate_send :: "kern \<Rightarrow> remote_aggr \<Rightarrow> fb \<Rightarrow> (int \<times> fb) option" where
  "remote_aggregate_send k ragg s =
     (if ag_id ragg = 0 then None
      else do {
        (err, s1) \<leftarrow> udp_send_out k (ag_id ragg) (htons (remote_port s)) (htons (remote_port s)) (ag_m ragg) s;
        Some (err, s1\<lparr>mc_errs := mc_errs s1 + (if err \<noteq> 0 then 1 else 0),
          pending_xc := remove1 ragg (pending_xc s1), free_pending := free_pending s1 + 1\<rparr>) })"

fun aggregate_clean :: "kern \<Rightarrow> remote_aggr list \<Rightarrow> fb \<Rightarrow> fb option" where
  "aggregate_clean k [] s = Some s"
| "aggregate_clean k (r # rs) s = do { (err, s1) \<leftarrow> remote_aggregate_send k r s; aggregate_clean k rs s1 }"

definition remote_aggregate_clean :: "kern \<Rightarrow> fb \<Rightarrow> fb option" where
  "remote_aggregate_clean k s = aggregate_clean k (pending_xc s) s"

text \<open>The aggregate for a core: the pending one, or one from the free list put at the end.\<close>

definition get_aggregate :: "u32 \<Rightarrow> fb \<Rightarrow> (remote_aggr \<times> fb) option" where
  "get_aggregate owner s =
     (case find (\<lambda>r. ag_id r = owner) (pending_xc s) of
        Some r \<Rightarrow> Some (r, s)
      | None \<Rightarrow>
          if free_pending s = 0 then None
          else let r = \<lparr>ag_id = owner, ag_m = None, ag_num = 0, ag_left = MN_MTU - 28\<rparr> in
            Some (r, s\<lparr>pending_xc := pending_xc s @ [r], free_pending := free_pending s - 1\<rparr>))"

definition replace_aggregate :: "remote_aggr \<Rightarrow> remote_aggr \<Rightarrow> fb \<Rightarrow> fb" where
  "replace_aggregate r r' s = s\<lparr>pending_xc := map (\<lambda>x. if ag_id x = ag_id r then r' else x) (pending_xc s)\<rparr>"

text \<open>Put the digest into the mbuf of the aggregate. Neither the mbuf nor its cluster is checked: with no
  mbuf, and when the digest goes beyond the storage of the mbuf, there is no defined outcome. The
  assertion compares with \<open>MCLBYTES\<close> only.\<close>

definition add_digest :: "kern \<Rightarrow> fb_remote \<Rightarrow> remote_aggr \<Rightarrow> fb \<Rightarrow> (nat \<times> fb) option" where
  "add_digest k i r s =
     (if ag_num r = 0 then do {
        let (b, s1) = mgethdr s;
        b \<leftarrow> b;
        s2 \<leftarrow> mclget b s1;
        m \<leftarrow> mbufs s2 b;
        if 28 + 48 \<le> storage k m then
          Some (b, upd_mbuf b (m\<lparr>m_data := info_bytes i, m_len := 48, m_pktlen := 48\<rparr>) s2)
        else None }
      else do {
        b \<leftarrow> ag_m r;
        m \<leftarrow> mbufs s b;
        if m_len m + 48 \<le> MCLBYTES \<and> 28 + m_len m + 48 \<le> storage k m then
          Some (b, upd_mbuf b (m\<lparr>m_data := m_data m @ info_bytes i, m_len := m_len m + 48,
            m_pktlen := m_pktlen m + 48\<rparr>) s)
        else None })"

definition remote_aggregate :: "kern \<Rightarrow> u32 \<Rightarrow> u32 \<Rightarrow> fb \<Rightarrow> (int \<times> fb) option" where
  "remote_aggregate k a owner s = do {
     p \<leftarrow> fb_pkts s a;
     (r, s1) \<leftarrow> get_aggregate owner s;
     (r', s2) \<leftarrow>
       (if 48 \<le> u32_of (ag_left r) then do {
          (b, s2) \<leftarrow> add_digest k (fp_info p) r s1;
          let r' = r\<lparr>ag_m := Some b, ag_num := ag_num r + 1, ag_left := ag_left r - 48\<rparr>;
          Some (r', replace_aggregate r r' s2) }
        else Some (r, s1));
     if u32_of (ag_left r') < 48 then remote_aggregate_send k r' s2 else Some (0, s2) }"

section \<open>The packet cache\<close>

definition add_pcache :: "u32 \<Rightarrow> fb \<Rightarrow> fb option" where
  "add_pcache a s = do {
     p \<leftarrow> fb_pkts s a;
     if \<not> FB_PKT_HOME p then None
     else Some (s\<lparr>fb_pkts := (fb_pkts s)(a \<mapsto> p\<lparr>fp_info := (fp_info p)\<lparr>
           fi_expire := u32_of (ticks s + mc_expire s), fi_id := a\<rparr>\<rparr>),
         mc_pcache := mc_pcache s @ [a], pcache_occupancy := pcache_occupancy s + 1\<rparr>) }"

fun flush_list :: "u32 list \<Rightarrow> fb \<Rightarrow> fb option" where
  "flush_list [] s = Some s"
| "flush_list (a # as) s = do {
     p \<leftarrow> fb_pkts s a;
     if u32_of (ticks s) < fi_expire (fp_info p) then Some s
     else do { s1 \<leftarrow> uncache_pkt a s; s2 \<leftarrow> fb_free_pkt a s1; flush_list as s2 } }"

definition remote_flush :: "fb \<Rightarrow> fb option" where
  "remote_flush s = (if mn_state s AND MN_PCACHE \<noteq> 0 then flush_list (mc_pcache s) s else Some s)"

fun drop_pcache :: "u32 list \<Rightarrow> fb \<Rightarrow> fb option" where
  "drop_pcache [] s = Some s"
| "drop_pcache (a # as) s = do { s1 \<leftarrow> uncache_pkt a s; s2 \<leftarrow> fb_free_pkt a s1; drop_pcache as s2 }"

definition remote_uninit :: "fb \<Rightarrow> fb option" where
  "remote_uninit s = drop_pcache (mc_pcache s) s"

definition remote_init :: "kern \<Rightarrow> fb \<Rightarrow> fb" where
  "remote_init k s =
     (let s1 = s\<lparr>mn_state := MN_KERNEL OR MN_PCACHE OR MN_AGGREGATE, mc_pcache := [],
          mc_expire := hz k, remote_port := MODEL_PORT, mc_ttl := 40, pending_xc := [], free_pending := 0,
          pcache_occupancy := 0, pkt_frees := 0, pkt_allocs := 0, queued := 0, hop_scheduled := 0,
          mc_send := 0, mc_recv := 0, mc_ttldrops := 0, mc_errs := 0\<rparr>;
          (ok, s2) = malloc_nowait (int MN_MAX_CORES) s1 in
      if ok then s2\<lparr>free_pending := MN_MAX_CORES\<rparr> else s2)"

section \<open>remote_hop\<close>

definition s8 :: "int \<Rightarrow> int" where
  "s8 x = sint (word_of_int x :: 8 word)"

text \<open>A packet at its home core is filled in, and cached.\<close>

definition prepare_tunnel :: "u32 \<Rightarrow> fb \<Rightarrow> fb option" where
  "prepare_tunnel a s = do {
     p \<leftarrow> fb_pkts s a;
     if FB_PKT_HOME p then do {
       b \<leftarrow> fp_m p;
       m \<leftarrow> mbufs s b;
       src \<leftarrow> mget32 m 12;
       dst \<leftarrow> mget32 m 16;
       s1 \<leftarrow> upd_fpkt a (\<lambda>q. q\<lparr>fp_info := (fp_info q)\<lparr>fi_src := src, fi_dst := dst,
           fi_ttl := s8 (mc_ttl s), fi_id := 0, fi_expire := 0\<rparr>\<rparr>) s;
       if mn_state s1 AND MN_PCACHE \<noteq> 0 then add_pcache a s1 else Some s1 }
     else Some s }"

text \<open>The payload of a packet that is not cached follows its digest.\<close>

definition attach_payload :: "u32 \<Rightarrow> nat \<Rightarrow> fb \<Rightarrow> fb option" where
  "attach_payload a b s = do {
     p \<leftarrow> fb_pkts s a;
     c \<leftarrow> fp_m p;
     m \<leftarrow> mbufs s c;
     (r, s1) \<leftarrow> m_pullup c 20 (upd_mbuf c (m\<lparr>m_pkthdr := False, m_pktlen := 0\<rparr>) s);
     s2 \<leftarrow> (case r of None \<Rightarrow> Some s1 | Some c' \<Rightarrow> m_cat b c' s1);
     s3 \<leftarrow> upd_fpkt a (\<lambda>q. q\<lparr>fp_m := None\<rparr>) s2;
     m' \<leftarrow> mbufs s3 b;
     Some (upd_mbuf b (m'\<lparr>m_pktlen := m_pktlen m' + uint (fi_len (fp_info p))\<rparr>) s3) }"

definition remote_hop :: "kern \<Rightarrow> u32 \<Rightarrow> u32 \<Rightarrow> fb \<Rightarrow> (int \<times> fb) option" where
  "remote_hop k a owner s = do {
     p0 \<leftarrow> fb_pkts s a;
     if fi_hop (fp_info p0) = 0 then Some (EINVAL, s)
     else do {
       s1 \<leftarrow> prepare_tunnel a s;
       p \<leftarrow> fb_pkts s1 a;
       if fi_src (fp_info p) = 0 then Some (EINVAL, s1)
       else if mn_state s1 AND MN_AGGREGATE \<noteq> 0 \<and> FB_PKT_PCACHED p then remote_aggregate k a owner s1
       else
         let (r, s2) = mgethdr (s1\<lparr>mc_send := mc_send s1 + 1\<rparr>) in
         case r of
           None \<Rightarrow>
             if FB_PKT_HOME p then do { s3 \<leftarrow> uncache_pkt a s2; Some (FB_ENOBUFS, s3) }
             else Some (FB_ENOBUFS, s2)
         | Some b \<Rightarrow> do {
             m \<leftarrow> mbufs s2 b;
             let s3 = upd_mbuf b (m\<lparr>m_data := info_bytes (fp_info p), m_len := 48, m_pktlen := 48\<rparr>) s2;
             s4 \<leftarrow> (if storage k m < 28 + 48 then None
               else if \<not> FB_PKT_PCACHED p then attach_payload a b s3 else Some s3);
             (err, s5) \<leftarrow> udp_send_out k owner (htons (remote_port s4)) (htons (remote_port s4)) (Some b) s4;
             if err \<noteq> 0 then do {
               let s6 = s5\<lparr>mc_errs := mc_errs s5 + 1\<rparr>;
               s7 \<leftarrow> (if FB_PKT_HOME p \<and> mn_state s6 AND MN_PCACHE \<noteq> 0 then uncache_pkt a s6 else Some s6);
               Some (err, s7) }
             else Some (0, s5) } } }"

section \<open>mc_reunite\<close>

text \<open>The packet that returned, and the packet to go on with: the cached one on success.\<close>

definition mc_reunite :: "u32 \<Rightarrow> fb \<Rightarrow> (int \<times> u32 \<times> fb) option" where
  "mc_reunite a s = do {
     p \<leftarrow> fb_pkts s a;
     let info = fp_info p;
     if \<not> FB_PKT_HOME p then None
     else if fi_expire info \<le> u32_of (ticks s) then Some (1, a, s\<lparr>mc_errs := mc_errs s + 1\<rparr>)
     else if fi_hop info = 0 then Some (1, a, s)
     else do {
       c \<leftarrow> fb_pkts s (fi_id info);
       if fi_id (fp_info c) \<noteq> fi_id info \<or> fi_expire (fp_info c) \<noteq> fi_expire info
       then Some (1, a, s\<lparr>mc_errs := mc_errs s + 1\<rparr>)
       else do {
         s1 \<leftarrow> uncache_pkt (fi_id info) s;
         s2 \<leftarrow> upd_fpkt (fi_id info) (\<lambda>q. q\<lparr>fp_info := (fp_info q)\<lparr>fi_hop := fi_hop info, fi_id := 0\<rparr>,
             fp_path := fp_path p\<rparr>) s1;
         s3 \<leftarrow> fb_free_pkt a s2;
         Some (0, fi_id info, s3) } } }"

end
