(* ===== verification/Fb_Aggregate.thy ===== *)
theory Fb_Aggregate
  imports Fb_Remote
begin

text \<open>
  Aggregation of digests between cores (mn_remote.c): a frame is a stream of digests of 48 bytes,
  which a core decodes again, and the pending aggregates implement one list of digests for each
  core, sent when the thirtieth digest is in.
\<close>

section \<open>Digests\<close>

text \<open>What the C types of the fields hold.\<close>

definition info_ok :: "fb_remote \<Rightarrow> bool" where
  "info_ok i \<longleftrightarrow> - 128 \<le> fi_ttl i \<and> fi_ttl i < 128 \<and> s32 (xcp_src_fdbk i) = xcp_src_fdbk i \<and>
     s32 (xcp_rflct_fdbk i) = xcp_rflct_fdbk i"

lemma info_roundtrip:
  assumes "info_ok i"
  shows "info_of_bytes (info_bytes i @ rest) = i"
proof -
  have t: "sint (word_of_int (fi_ttl i) :: u8) = fi_ttl i"
    using assms by (simp add: info_ok_def signed_of_int signed_take_bit_int_eq_self)
  have f: "sint (u32_of x) = x" if "s32 x = x" for x
    using that by (simp add: u32_of_def signed_of_int s32_def)
  show ?thesis using t f assms
    by (cases i) (simp add: info_of_bytes_def info_bytes_def bytes32_def get32_def le32_bytes info_ok_def)
qed

interpretation digests: fixed_codec info_bytes info_of_bytes info_ok 48
proof unfold_locales
  show "length (info_bytes i) = 48" for i by (simp add: info_bytes_def bytes32_def)
qed (rule info_roundtrip)

section \<open>The aggregates as lists of digests\<close>

definition agg_holds :: "fb \<Rightarrow> fb_remote list \<Rightarrow> remote_aggr \<Rightarrow> bool" where
  "agg_holds s ds r \<longleftrightarrow> ag_id r \<noteq> 0 \<and> ds \<noteq> [] \<and> length ds \<le> 30 \<and> ag_num r = of_nat (length ds) \<and>
     ag_left r = 1472 - 48 * int (length ds) \<and>
     (\<exists>b m. ag_m r = Some b \<and> b < next_addr s \<and> mbufs s b = Some m \<and> m_data m = concat (map info_bytes ds) \<and>
        m_len m = 48 * length ds \<and> m_pktlen m = 48 * int (length ds) \<and> m_ext m)"

definition aggs_ok :: "fb \<Rightarrow> (u32 \<Rightarrow> fb_remote list) \<Rightarrow> bool" where
  "aggs_ok s D \<longleftrightarrow> distinct (map ag_id (pending_xc s)) \<and> distinct (map ag_m (pending_xc s)) \<and>
     (\<forall>r \<in> set (pending_xc s). agg_holds s (D (ag_id r)) r \<and> length (D (ag_id r)) < 30) \<and>
     (\<forall>c. c \<notin> ag_id ` set (pending_xc s) \<longrightarrow> D c = [])"

text \<open>The specification: a digest joins the list of its core; the thirtieth completes a frame.\<close>

definition spec_aggregate :: "u32 \<Rightarrow> fb_remote \<Rightarrow> (u32 \<Rightarrow> fb_remote list)
    \<Rightarrow> (u32 \<Rightarrow> fb_remote list) \<times> (u32 \<times> fb_remote list) list" where
  "spec_aggregate c i D =
     (let ds = D c @ [i] in if length ds = 30 then (D(c := []), [(c, ds)]) else (D(c := ds), []))"

text \<open>A frame on the wire: a UDP header of 28 bytes, then the digests.\<close>

definition carries :: "u32 \<times> mbuf \<Rightarrow> u32 \<times> fb_remote list \<Rightarrow> bool" where
  "carries f g \<longleftrightarrow> fst f = fst g \<and> drop 28 (m_data (snd f)) = concat (map info_bytes (snd g))"

lemma length_udp_overlay [simp]: "length (udp_overlay len src dst sport dport ck) = 28"
  by (simp add: udp_overlay_def bytes16_def bytes32_def)

lemma send_out_frame:
  assumes "mbufs s b = Some m" "find_ifaddr k c = Some (Some src)"
  shows "\<exists>m'. udp_send_out k c sp dp (Some b) s
       = Some (ip_output k m', s\<lparr>mbufs := (mbufs s)(b := None), udp_out := udp_out s @ [(c, m')]\<rparr>)
     \<and> drop 28 (m_data m') = m_data m"
  unfolding udp_send_out_def assms option.case bind.bind_lunit Let_def
  by (rule exI, rule conjI [OF refl]) (simp add: prepend_def bytes16_def)

section \<open>remote_aggregate implements the specification\<close>

lemma u32_of_left: "n \<le> 30 \<Longrightarrow> uint (u32_of (1472 - 48 * int n)) = 1472 - 48 * int n"
  by (rule uint_u32_of) simp_all

lemma num_pos: "0 < n \<Longrightarrow> n \<le> 30 \<Longrightarrow> (of_nat n :: u32) \<noteq> 0"
  by (auto simp: word_of_nat_eq_0_iff dest: dvd_imp_le)

lemma agg_holds_frame:
  assumes "agg_holds s ds r" "\<And>b. ag_m r = Some b \<Longrightarrow> mbufs s' b = mbufs s b" "next_addr s \<le> next_addr s'"
  shows "agg_holds s' ds r"
  using assms by (fastforce simp: agg_holds_def)

text \<open>The aggregates of the cores other than \<open>c\<close>, whose mbuf is \<open>b\<close>.\<close>

definition rest_ok :: "fb \<Rightarrow> (u32 \<Rightarrow> fb_remote list) \<Rightarrow> u32 \<Rightarrow> nat \<Rightarrow> remote_aggr list \<Rightarrow> bool" where
  "rest_ok s D c b rs \<longleftrightarrow> distinct (map ag_id rs) \<and> distinct (map ag_m rs) \<and>
     (\<forall>x \<in> set rs. ag_id x \<noteq> c \<and> ag_m x \<noteq> Some b \<and> agg_holds s (D (ag_id x)) x \<and> length (D (ag_id x)) < 30) \<and>
     (\<forall>c'. c' \<noteq> c \<longrightarrow> c' \<notin> ag_id ` set rs \<longrightarrow> D c' = [])"

lemma rest_ok_frame:
  assumes "rest_ok s D c b rs" "\<And>b'. b' < next_addr s \<Longrightarrow> b' \<noteq> b \<Longrightarrow> mbufs s' b' = mbufs s b'" "next_addr s \<le> next_addr s'"
  shows "rest_ok s' D c b rs"
proof -
  have "agg_holds s' (D (ag_id x)) x" if "x \<in> set rs" for x
  proof (rule agg_holds_frame)
    show "agg_holds s (D (ag_id x)) x" using assms(1) that by (simp add: rest_ok_def)
    show "mbufs s' b' = mbufs s b'" if m: "ag_m x = Some b'" for b'
      using assms(1,2) \<open>x \<in> set rs\<close> m by (auto simp: rest_ok_def agg_holds_def)
  qed (rule assms(3))
  then show ?thesis using assms(1) by (simp add: rest_ok_def)
qed

lemma aggs_ok_with:
  assumes "rest_ok s D c b (xs @ ys)" "agg_holds s ds r" "length ds < 30" "ag_id r = c" "ag_m r = Some b"
    and "pending_xc s = xs @ r # ys"
  shows "aggs_ok s (D(c := ds))"
  using assms unfolding aggs_ok_def rest_ok_def by (auto simp: image_iff)

lemma aggs_ok_without:
  "rest_ok s D c b (pending_xc s) \<Longrightarrow> aggs_ok s (D(c := []))"
  unfolding aggs_ok_def rest_ok_def by auto

lemma rest_ok_of_aggs:
  assumes "aggs_ok s D" "pending_xc s = xs @ r # ys" "ag_m r = Some b"
  shows "rest_ok s D (ag_id r) b (xs @ ys)"
  using assms unfolding aggs_ok_def rest_ok_def by (auto simp: image_iff)

lemma rest_ok_fresh:
  assumes "aggs_ok s D" "c \<notin> ag_id ` set (pending_xc s)"
  shows "rest_ok s D c (next_addr s) (pending_xc s)"
  using assms unfolding aggs_ok_def rest_ok_def agg_holds_def by (fastforce simp: image_iff)

text \<open>The aggregate of core \<open>c\<close> with one more digest in its mbuf.\<close>

definition joined :: "fb \<Rightarrow> (u32 \<Rightarrow> fb_remote list) \<Rightarrow> u32 \<Rightarrow> fb_remote list \<Rightarrow> remote_aggr \<Rightarrow> bool" where
  "joined s D c ds r \<longleftrightarrow> agg_holds s ds r \<and> ag_id r = c \<and>
     (\<exists>xs ys. pending_xc s = xs @ r # ys \<and> rest_ok s D c (the (ag_m r)) (xs @ ys))"

lemma join_pending:
  assumes ok: "aggs_ok s D" and r: "find (\<lambda>r. ag_id r = c) (pending_xc s) = Some r"
  shows "get_aggregate c s = Some (r, s) \<and> 48 \<le> u32_of (ag_left r) \<and>
     (\<exists>b s1. add_digest k i r s = Some (b, s1) \<and> udp_out s1 = udp_out s \<and> remote_port s1 = remote_port s \<and>
        (let r' = r\<lparr>ag_m := Some b, ag_num := ag_num r + 1, ag_left := ag_left r - 48\<rparr> in
         joined (replace_aggregate r r' s1) D c (D c @ [i]) r'))"
proof -
  obtain xs ys where p: "pending_xc s = xs @ r # ys" "ag_id r = c"
    using r by (metis (mono_tags, lifting) find_Some_iff id_take_nth_drop)
  then have h: "agg_holds s (D c) r" "length (D c) < 30" using ok by (auto simp: aggs_ok_def)
  then obtain b m where b: "ag_m r = Some b" "b < next_addr s" "mbufs s b = Some m"
    "m_data m = concat (map info_bytes (D c))" "m_len m = 48 * length (D c)" "m_pktlen m = 48 * int (length (D c))"
    "m_ext m" and n: "D c \<noteq> []" "ag_num r = of_nat (length (D c))" "ag_left r = 1472 - 48 * int (length (D c))" "c \<noteq> 0"
    using p(2) by (auto simp: agg_holds_def)
  have l: "48 \<le> u32_of (ag_left r)"
    using h(2) u32_of_left [of "length (D c)"] by (simp add: n(3) word_le_def)
  define s1 where "s1 = upd_mbuf b (m\<lparr>m_data := m_data m @ info_bytes i, m_len := m_len m + 48,
            m_pktlen := m_pktlen m + 48\<rparr>) s"
  define r' where "r' = r\<lparr>ag_m := Some b, ag_num := ag_num r + 1, ag_left := ag_left r - 48\<rparr>"
  have a: "add_digest k i r s = Some (b, s1)"
    using num_pos [of "length (D c)"] n(1,2) h(2) b by (simp add: add_digest_def s1_def storage_def MCLBYTES_def)
  have rest: "rest_ok s D c b (xs @ ys)" using rest_ok_of_aggs [OF ok p(1) b(1)] p(2) by simp
  let ?s = "replace_aggregate r r' s1"
  have "map (\<lambda>x. if ag_id x = ag_id r then r' else x) zs = zs" if "\<forall>x \<in> set zs. ag_id x \<noteq> c" for zs
    using that p(2) by (induction zs) auto
  then have pend: "pending_xc ?s = xs @ r' # ys"
    using rest p by (auto simp: replace_aggregate_def s1_def upd_mbuf_def rest_ok_def)
  have "rest_ok ?s D c b (xs @ ys)"
    by (rule rest_ok_frame [OF rest]) (simp_all add: replace_aggregate_def s1_def upd_mbuf_def)
  moreover have "agg_holds ?s (D c @ [i]) r'"
    using b n h(2) p(2) by (simp add: agg_holds_def replace_aggregate_def s1_def upd_mbuf_def r'_def algebra_simps)
  ultimately have "joined ?s D c (D c @ [i]) r'"
    using pend p(2) by (auto simp: joined_def r'_def)
  then show ?thesis using r l a
    by (simp add: get_aggregate_def r'_def s1_def upd_mbuf_def)
qed

lemma join_fresh:
  assumes ok: "aggs_ok s D" and r: "find (\<lambda>r. ag_id r = c) (pending_xc s) = None" and c: "c \<noteq> 0"
    and room: "0 < free_pending s" and mem: "False \<notin> set (take 2 (alloc_ok s))"
  shows "D c = [] \<and> (\<exists>r s0 b s1. get_aggregate c s = Some (r, s0) \<and> 48 \<le> u32_of (ag_left r) \<and>
        add_digest k i r s0 = Some (b, s1) \<and> udp_out s1 = udp_out s \<and> remote_port s1 = remote_port s \<and>
        (let r' = r\<lparr>ag_m := Some b, ag_num := ag_num r + 1, ag_left := ag_left r - 48\<rparr> in
         joined (replace_aggregate r r' s1) D c [i] r'))"
proof -
  have ids: "c \<notin> ag_id ` set (pending_xc s)" using r by (auto simp: find_None_iff)
  define r0 where "r0 = \<lparr>ag_id = c, ag_m = None, ag_num = 0, ag_left = MN_MTU - 28\<rparr>"
  define s0 where "s0 = s\<lparr>pending_xc := pending_xc s @ [r0], free_pending := free_pending s - 1\<rparr>"
  let ?b = "next_addr s"
  define m where "m = \<lparr>m_data = info_bytes i, m_len = 48, m_pkthdr = True, m_pktlen = 48, csum_flags = 0, csum_data = 0, m_ext = True\<rparr>"
  define s1 where "s1 = upd_mbuf ?b m (s0\<lparr>alloc_ok := tl (tl (alloc_ok s)), next_addr := ?b + 1\<rparr>)"
  define r' where "r' = r0\<lparr>ag_m := Some ?b, ag_num := ag_num r0 + 1, ag_left := ag_left r0 - 48\<rparr>"
  have g: "get_aggregate c s = Some (r0, s0)" using r room by (simp add: get_aggregate_def r0_def s0_def Let_def)
  have a: "add_digest k i r0 s0 = Some (?b, s1)"
  proof -
    define s2 where "s2 = s0\<lparr>alloc_ok := tl (alloc_ok s), next_addr := ?b + 1, mbufs := (mbufs s)(?b \<mapsto>
      \<lparr>m_data = [], m_len = 0, m_pkthdr = True, m_pktlen = 0, csum_flags = 0, csum_data = 0, m_ext = False\<rparr>)\<rparr>"
    have "mgethdr s0 = (Some ?b, s2)"
      using mem by (cases "alloc_ok s") (auto simp: mgethdr_def s0_def s2_def split: bool.splits)
    moreover have "mclget ?b s2 = Some (upd_mbuf ?b (m\<lparr>m_data := [], m_len := 0, m_pktlen := 0\<rparr>)
        (s2\<lparr>alloc_ok := tl (tl (alloc_ok s))\<rparr>))"
      using mem by (cases "tl (alloc_ok s)"; cases "alloc_ok s")
        (auto simp: mclget_def s2_def s0_def m_def split: bool.splits)
    ultimately show ?thesis
      by (simp add: add_digest_def r0_def storage_def MCLBYTES_def upd_mbuf_def m_def s1_def s2_def s0_def)
  qed
  have rest: "rest_ok s D c ?b (pending_xc s)" by (rule rest_ok_fresh [OF ok ids])
  let ?s = "replace_aggregate r0 r' s1"
  have "map (\<lambda>x. if ag_id x = c then r' else x) (pending_xc s) = pending_xc s"
    using ids by (intro map_idI) auto
  then have pend: "pending_xc ?s = pending_xc s @ r' # []"
    by (simp add: replace_aggregate_def s1_def s0_def upd_mbuf_def r0_def)
  have "rest_ok ?s D c ?b (pending_xc s)"
    by (rule rest_ok_frame [OF rest]) (simp_all add: replace_aggregate_def s1_def s0_def upd_mbuf_def)
  moreover have "agg_holds ?s [i] r'"
    using c by (simp add: agg_holds_def replace_aggregate_def s1_def s0_def upd_mbuf_def r'_def r0_def m_def MN_MTU_def)
  ultimately have "joined ?s D c [i] r'"
    unfolding joined_def using pend
    by (intro conjI exI [of _ "pending_xc s"] exI [of _ "[]"]) (simp_all add: r'_def r0_def)
  moreover have "D c = []" using ok ids by (auto simp: aggs_ok_def)
  moreover have "48 \<le> u32_of (ag_left r0)" by (simp add: r0_def MN_MTU_def u32_of_def)
  ultimately show ?thesis using g a
    by (intro conjI exI [of _ r0] exI [of _ s0] exI [of _ ?b] exI [of _ s1])
      (simp_all add: r'_def s1_def s0_def upd_mbuf_def)
qed

lemma send_joined:
  assumes j: "joined s D c ds r" and route: "find_ifaddr k c = Some (Some src)"
  shows "\<exists>e s' m'. remote_aggregate_send k r s = Some (e, s') \<and> aggs_ok s' (D(c := [])) \<and>
     udp_out s' = udp_out s @ [(c, m')] \<and> carries (c, m') (c, ds) \<and>
     pending_xc s' = remove1 r (pending_xc s) \<and> free_pending s' = free_pending s + 1"
proof -
  obtain xs ys b m where p: "pending_xc s = xs @ r # ys" and rest: "rest_ok s D c b (xs @ ys)"
    and b: "ag_m r = Some b" "mbufs s b = Some m" "m_data m = concat (map info_bytes ds)" and c: "ag_id r = c" "c \<noteq> 0"
    using j by (auto simp: joined_def agg_holds_def)
  let ?port = "htons (remote_port s)"
  obtain e m' where out: "udp_send_out k c ?port ?port (Some b) s
       = Some (e, s\<lparr>mbufs := (mbufs s)(b := None), udp_out := udp_out s @ [(c, m')]\<rparr>)" (is "_ = Some (e, ?s)")
    and m': "drop 28 (m_data m') = m_data m"
    using send_out_frame [OF b(2) route] by blast
  define s' where "s' = ?s\<lparr>mc_errs := mc_errs s + (if e \<noteq> 0 then 1 else 0), pending_xc := remove1 r (pending_xc s),
      free_pending := free_pending s + 1\<rparr>"
  have send: "remote_aggregate_send k r s = Some (e, s')"
    using c b(1) out by (simp add: remote_aggregate_send_def s'_def)
  have "r \<notin> set xs" using rest c(1) by (auto simp: rest_ok_def)
  then have p': "pending_xc s' = xs @ ys" by (simp add: s'_def p remove1_append)
  have "rest_ok s' D c b (pending_xc s')" unfolding p'
    by (rule rest_ok_frame [OF rest]) (simp_all add: s'_def)
  then have "aggs_ok s' (D(c := []))" by (rule aggs_ok_without)
  then show ?thesis using send m' b(3)
    by (intro exI [of _ e] exI [of _ s'] exI [of _ m']) (simp add: s'_def carries_def)
qed

lemma joined_ok: "joined s D c ds r \<Longrightarrow> length ds < 30 \<Longrightarrow> aggs_ok s (D(c := ds))"
  unfolding joined_def by (elim conjE exE, rule aggs_ok_with, assumption+) (auto simp: agg_holds_def)

lemma joined_of_aggs:
  assumes "aggs_ok s D" "pending_xc s = r # rs"
  shows "joined s D (ag_id r) (D (ag_id r)) r"
proof -
  have h: "agg_holds s (D (ag_id r)) r" using assms by (simp add: aggs_ok_def)
  then obtain b where "ag_m r = Some b" by (auto simp: agg_holds_def)
  then have "rest_ok s D (ag_id r) b ([] @ rs)" using rest_ok_of_aggs [OF assms(1), of "[]"] assms(2) by simp
  then show ?thesis using assms(2) h \<open>ag_m r = Some b\<close> unfolding joined_def
    by (intro conjI exI [of _ "[]"] exI [of _ rs]) simp_all
qed

lemma join_digest:
  assumes "aggs_ok s D" "c \<noteq> 0" "D c \<noteq> [] \<or> 0 < free_pending s \<and> False \<notin> set (take 2 (alloc_ok s))"
  shows "\<exists>r s0 b s1. get_aggregate c s = Some (r, s0) \<and> 48 \<le> u32_of (ag_left r) \<and>
     add_digest k i r s0 = Some (b, s1) \<and> udp_out s1 = udp_out s \<and>
     (let r' = r\<lparr>ag_m := Some b, ag_num := ag_num r + 1, ag_left := ag_left r - 48\<rparr> in
      joined (replace_aggregate r r' s1) D c (D c @ [i]) r')"
proof (cases "find (\<lambda>r. ag_id r = c) (pending_xc s)")
  case None
  then have "D c = []" using assms(1) by (force simp: find_None_iff aggs_ok_def)
  then show ?thesis using join_fresh [OF assms(1) None assms(2), of k i] assms(3) by auto
next
  case (Some r)
  then show ?thesis using join_pending [OF assms(1) Some, of k i] by blast
qed

lemma aggregate_step:
  assumes ok: "aggs_ok s D" and p: "fb_pkts s a = Some p" and c: "c \<noteq> 0"
    and room: "D c \<noteq> [] \<or> 0 < free_pending s \<and> False \<notin> set (take 2 (alloc_ok s))"
    and route: "length (D c) < 29 \<or> (\<exists>src. find_ifaddr k c = Some (Some src))"
    and spec: "spec_aggregate c (fp_info p) D = (D', fs)"
  shows "\<exists>e s' ms. remote_aggregate k a c s = Some (e, s') \<and> aggs_ok s' D' \<and>
     udp_out s' = udp_out s @ ms \<and> list_all2 carries ms fs"
proof -
  let ?ds = "D c @ [fp_info p]"
  obtain r s0 b s1 where g: "get_aggregate c s = Some (r, s0)" "48 \<le> u32_of (ag_left r)"
    "add_digest k (fp_info p) r s0 = Some (b, s1)" "udp_out s1 = udp_out s"
    and j: "joined (replace_aggregate r (r\<lparr>ag_m := Some b, ag_num := ag_num r + 1, ag_left := ag_left r - 48\<rparr>) s1)
      D c ?ds (r\<lparr>ag_m := Some b, ag_num := ag_num r + 1, ag_left := ag_left r - 48\<rparr>)"
    using join_digest [OF ok c room, of k "fp_info p"] by (auto simp: Let_def)
  define r' where "r' = r\<lparr>ag_m := Some b, ag_num := ag_num r + 1, ag_left := ag_left r - 48\<rparr>"
  define s2 where "s2 = replace_aggregate r r' s1"
  have j: "joined s2 D c ?ds r'" using j by (simp only: s2_def r'_def)
  have run: "remote_aggregate k a c s = (if u32_of (ag_left r') < 48 then remote_aggregate_send k r' s2 else Some (0, s2))"
    using p g by (simp add: remote_aggregate_def r'_def s2_def Let_def)
  have u: "udp_out s2 = udp_out s" using g(4) by (simp add: s2_def replace_aggregate_def)
  have l: "ag_left r' = 1472 - 48 * int (length ?ds)" "length ?ds \<le> 30"
    using j by (simp_all add: joined_def agg_holds_def)
  then have full: "u32_of (ag_left r') < 48 \<longleftrightarrow> length ?ds = 30"
    using u32_of_left [of "length ?ds"] by (auto simp: word_less_def)
  show ?thesis
  proof (cases "length ?ds = 30")
    case True
    have "D' = D(c := [])" "fs = [(c, ?ds)]" using True spec by (auto simp: spec_aggregate_def Let_def)
    moreover obtain src where "find_ifaddr k c = Some (Some src)" using route True by auto
    ultimately show ?thesis using send_joined [OF j] run full True u by fastforce
  next
    case False
    then have "D' = D(c := ?ds)" "fs = []" using spec by (auto simp: spec_aggregate_def Let_def)
    moreover have "aggs_ok s2 (D(c := ?ds))" using joined_ok [OF j] l(2) False by simp
    ultimately show ?thesis using run full False u by auto
  qed
qed

lemma clean_sends:
  assumes "aggs_ok s D" "pending_xc s = rs" "\<forall>r \<in> set rs. \<exists>src. find_ifaddr k (ag_id r) = Some (Some src)"
  shows "\<exists>s' ms. aggregate_clean k rs s = Some s' \<and> aggs_ok s' (\<lambda>c. []) \<and> pending_xc s' = [] \<and>
     free_pending s' = free_pending s + length rs \<and> udp_out s' = udp_out s @ ms \<and>
     list_all2 carries ms (map (\<lambda>r. (ag_id r, D (ag_id r))) rs)"
  using assms
proof (induction rs arbitrary: s D)
  case Nil
  then have "D = (\<lambda>c. [])" by (auto simp: aggs_ok_def)
  then show ?case using Nil by auto
next
  case (Cons r rs)
  let ?c = "ag_id r"
  obtain src where "find_ifaddr k ?c = Some (Some src)" using Cons.prems(3) by auto
  from send_joined [OF joined_of_aggs [OF Cons.prems(1,2)] this]
  obtain e s1 m' where s1: "remote_aggregate_send k r s = Some (e, s1)" "aggs_ok s1 (D(?c := []))"
    "udp_out s1 = udp_out s @ [(?c, m')]" "carries (?c, m') (?c, D ?c)" "pending_xc s1 = rs"
    "free_pending s1 = free_pending s + 1"
    using Cons.prems(2) by auto
  have "?c \<notin> ag_id ` set rs" using Cons.prems(1,2) by (auto simp: aggs_ok_def)
  then have eq: "map (\<lambda>x. (ag_id x, (D(?c := [])) (ag_id x))) rs = map (\<lambda>x. (ag_id x, D (ag_id x))) rs"
    by (auto simp: image_iff)
  obtain s' ms where "aggregate_clean k rs s1 = Some s'" "aggs_ok s' (\<lambda>c. [])" "pending_xc s' = []"
    "free_pending s' = free_pending s1 + length rs" "udp_out s' = udp_out s1 @ ms"
    "list_all2 carries ms (map (\<lambda>r. (ag_id r, D (ag_id r))) rs)"
    using Cons.IH [OF s1(2,5)] Cons.prems(3) unfolding eq by auto
  then show ?case using s1
    by (intro exI [of _ s'] exI [of _ "(?c, m') # ms"]) simp
qed

end
