(* ===== verification/Fb_Core.thy ===== *)
theory Fb_Core
  imports Fb_Remote Lx_Hop
begin

text \<open>
  emulator/freebsd6.4/module/ip_modelnet.c and \<open>remote_input\<close> of mn_remote.c: a packet crosses
  hop after hop, is driven by the clock, enters from the IP stack or from another core and leaves to
  either. The configuration is the default one, \<open>UNIFIED_PKT_SCHEDULE\<close>; the branches for packets
  queued for bandwidth alone are kept.
\<close>

definition FB_SUBNET :: u32 where "FB_SUBNET = htonl 0x0a000000"
definition FB_MASK :: u32 where "FB_MASK = htonl 0xff000000"
definition FB_FORCEBIT :: u32 where "FB_FORCEBIT = htonl 0x00800000"

definition FB_FORCEOFF :: "u32 \<Rightarrow> u32" where
  "FB_FORCEOFF addr = addr AND NOT FB_FORCEBIT"

section \<open>emulate_hop\<close>

text \<open>\<open>update_bwq\<close> of this module: the loop of \<open>Hop\<close> at 32-bit ticks.\<close>

definition fb_update_bwq :: "fb_hop \<Rightarrow> u32 \<Rightarrow> fb_hop option" where
  "fb_update_bwq h tick = update_bwq h tick"

text \<open>The bandwidth delay: what the last tick of the packet leaves over is carried to the next one
  in \<open>fragment\<close>, and the tick is charged when it is used up.\<close>

definition fb_bw_delay :: "int \<Rightarrow> u32 \<Rightarrow> ('w, 'z) hop_scheme \<Rightarrow> (u32 \<times> ('w, 'z) hop_scheme) option" where
  "fb_bw_delay HZ len0 h0 =
     (let (len, fragused, h) = use_fragment len0 h0 in
      if len \<noteq> 0 \<and> 50 < bytespertick h then
        let bwdelay = len div bytespertick h + fragused;
            remainder = len mod bytespertick h
        in Some (bwdelay, if remainder \<noteq> 0 then h\<lparr>fragment := sint (bytespertick h - remainder)\<rparr> else h)
      else
        let d = u32_of (s32 (1000 * KBps h)) in
        if d = 0 then None else Some ((len * u32_of HZ) div d, h))"

text \<open>From the check of the queue on: the exit tick, whether the delay is 0, the hop.\<close>

definition fb_queue :: "int \<Rightarrow> int \<Rightarrow> u32 \<Rightarrow> u32 \<Rightarrow> fb_hop \<Rightarrow> (u32 \<times> bool \<times> fb_hop) option" where
  "fb_queue HZ newslot curtick len h = do {
     (tailexit, h1) \<leftarrow>
       (if slotdepth h \<noteq> 0 then do { t \<leftarrow> tail_exit h; Some (t, h) }
        else Some (curtick, h\<lparr>fragment := 0\<rparr>));
     (tailexit, zero, h2) \<leftarrow>
       (if KBps h1 \<noteq> 0 then do {
          (bwdelay, h2) \<leftarrow> fb_bw_delay HZ len h1;
          Some (tailexit + bwdelay, bwdelay = 0, h2) }
        else Some (tailexit, False, h1));
     h3 \<leftarrow> bwq_add newslot tailexit (s32 (uint len)) h2;
     Some (tailexit, zero, h3) }"

text \<open>\<open>random()\<close> is an unsigned long below 2^31, so a negative \<open>plr\<close> is compared as a huge number.\<close>

definition fb_plr_drops :: "int \<Rightarrow> int \<Rightarrow> bool" where
  "fb_plr_drops plr_rate r \<longleftrightarrow> plr_rate \<noteq> 0 \<and> (plr_rate < 0 \<or> r < plr_rate)"

definition fb_emulate_hop :: "kern \<Rightarrow> u32 \<Rightarrow> hop_ptr \<Rightarrow> fb \<Rightarrow> (int \<times> fb) option" where
  "fb_emulate_hop k a hp s = do {
     h \<leftarrow> deref_hop hp s;
     newslot \<leftarrow> new_slot h;
     let (r, s1) = (if plr h \<noteq> 0 then random s else (0, s));
     if fb_plr_drops (plr h) r then Some (FB_ENOBUFS, s1)
     else do {
       h1 \<leftarrow> (if KBps h \<noteq> 0 then fb_update_bwq h (fb_tick s1) else Some h);
       if KBps h \<noteq> 0 \<and> qsize h1 \<le> slotdepth h1 then do {
         s2 \<leftarrow> store_hop hp (h1\<lparr>qdrops := s32 (qdrops h1 + 1)\<rparr>) s1;
         Some (FB_ENOBUFS, s2) }
       else do {
         p \<leftarrow> fb_pkts s1 a;
         let len = fi_len (fp_info p);
         s2 \<leftarrow> store_hop hp (h1\<lparr>pkts := s32 (pkts h1 + 1), bytes := s32 (bytes h1 + uint len)\<rparr>)
             (s1\<lparr>queued := queued s1 + 1\<rparr>);
         s3 \<leftarrow> (if xq_callbacks (xtq h1) then xtq_enqueue k hp a s2 else Some s2);
         h3 \<leftarrow> deref_hop hp s3;
         (tailexit, zero, h4) \<leftarrow> fb_queue (hz k) newslot (fb_tick s3) len h3;
         s4 \<leftarrow> store_hop hp h4 s3;
         s5 \<leftarrow> upd_fpkt a (\<lambda>q. q\<lparr>fp_state := 3\<rparr>) (s4\<lparr>delay_zeros := delay_zeros s4 + (if zero then 1 else 0)\<rparr>);
         cal \<leftarrow> fb_calendar s5;
         cal' \<leftarrow> cal_add (tailexit + word_of_int (delay h4)) a cal;
         Some (0, s5\<lparr>fb_calendar := Some cal'\<rparr>) } } }"

section \<open>forward_packet\<close>

text \<open>A packet whose payload travelled gets a packet header of its own again.\<close>

definition reheader :: "u32 \<Rightarrow> fb \<Rightarrow> (bool \<times> fb) option" where
  "reheader a s = do {
     p \<leftarrow> fb_pkts s a;
     let (r, s1) = mgethdr s;
     case r of
       None \<Rightarrow> Some (False, s1)
     | Some b \<Rightarrow> do {
         c \<leftarrow> fp_m p;
         m \<leftarrow> mbufs s1 b;
         s2 \<leftarrow> m_cat b c (upd_mbuf b (m\<lparr>m_pktlen := uint (fi_len (fp_info p)), m_len := 0\<rparr>) s1);
         (r', s3) \<leftarrow> m_pullup b 20 s2;
         s4 \<leftarrow> upd_fpkt a (\<lambda>q. q\<lparr>fp_m := r'\<rparr>) s3;
         Some (True, s4) } }"

definition fb_forward_packet :: "kern \<Rightarrow> u32 \<Rightarrow> fb \<Rightarrow> fb option" where
  "fb_forward_packet k a s = do {
     p \<leftarrow> fb_pkts s a;
     if fp_m p = None then do { (err, s1) \<leftarrow> remote_hop k a (fp_cachehost p) s; Some s1 }
     else do {
       (ok, s1) \<leftarrow> (if fp_cachehost p \<noteq> 0 then reheader a s else Some (True, s));
       if \<not> ok then Some s1
       else do {
         s2 \<leftarrow> (if xcp_initialized s1 then xcp_set_xcpinfo k a s1 else Some s1);
         q \<leftarrow> fb_pkts s2 a;
         b \<leftarrow> fp_m q;
         m \<leftarrow> mbufs s2 b;
         sec \<leftarrow> cdiv (ticks s2) (hz k);
         let i = uint (u32_of sec mod 60);
         c \<leftarrow> aget (pkt_seconds s2) i;
         pc \<leftarrow> aset (pkt_seconds s2) i (s32 (c + 1));
         Some (s2\<lparr>mbufs := (mbufs s2)(b := None), forwarded := forwarded s2 @ [m],
           fb_pkts := (fb_pkts s2)(a \<mapsto> q\<lparr>fp_m := None\<rparr>), pkt_seconds := pc\<rparr>) } } }"

section \<open>emulate_nexthop\<close>

text \<open>The hop before the present one is done with the packet. With bandwidth and delay queued
  together only the discipline is told; with bandwidth alone (\<open>Q_BW\<close>, bit 0, without
  \<open>Q_DELAY\<close>, bit 1) the packet is queued for its delay now. The result says whether it was.\<close>

definition leave_prev_hop :: "kern \<Rightarrow> u32 \<Rightarrow> fb \<Rightarrow> (bool \<times> fb) option" where
  "leave_prev_hop k a s = do {
     p \<leftarrow> fb_pkts s a;
     if fi_hop (fp_info p) = 0 \<or> \<not> bit (fp_state p) 0 then Some (False, s)
     else do {
       (blk, i) \<leftarrow> fp_path p;
       arr \<leftarrow> path_mem s blk;
       prv \<leftarrow> aget arr (i - 1);
       hp \<leftarrow> prv;
       h \<leftarrow> deref_hop hp s;
       if \<not> bit (fp_state p) 1 then do {
         s1 \<leftarrow> (if KBps h \<noteq> 0 then do { h' \<leftarrow> fb_update_bwq h (fb_tick s); store_hop hp h' s } else Some s);
         s2 \<leftarrow> (if MC_HOP_LOCAL h \<and> xq_callbacks (xtq h) then xtq_dequeue k hp a s1 else Some s1);
         s3 \<leftarrow> upd_fpkt a (\<lambda>q. q\<lparr>fp_state := 2\<rparr>) s2;
         cal \<leftarrow> fb_calendar s3;
         cal' \<leftarrow> cal_add (fb_tick s3 + word_of_int (delay h)) a cal;
         Some (True, s3\<lparr>fb_calendar := Some cal'\<rparr>) }
       else do {
         s1 \<leftarrow> (if MC_HOP_LOCAL h \<and> xq_callbacks (xtq h) then xtq_dequeue k hp a s else Some s);
         Some (False, s1) } } }"

definition fb_cross_hop :: "kern \<Rightarrow> u32 \<Rightarrow> hop_ptr \<Rightarrow> fb \<Rightarrow> fb option" where
  "fb_cross_hop k a hp s = do {
     h \<leftarrow> deref_hop hp s;
     (dropped, s1) \<leftarrow> (if emulator h \<noteq> 0 then remote_hop k a (emulator h) s else fb_emulate_hop k a hp s);
     s2 \<leftarrow> upd_fpkt a (\<lambda>q. q\<lparr>fp_path := map_option (apsnd (\<lambda>j. j + 1)) (fp_path q),
         fp_info := (fp_info q)\<lparr>fi_hop := fi_hop (fp_info q) + 1\<rparr>\<rparr>) s1;
     q \<leftarrow> fb_pkts s2 a;
     h2 \<leftarrow> deref_hop hp s2;
     if \<not> (FB_PKT_HOME q \<and> FB_PKT_PCACHED q) \<and> emulator h2 \<noteq> 0 then fb_free_pkt a s2
     else if dropped \<noteq> 0 then fb_free_pkt a s2
     else Some s2 }"

definition fb_emulate_nexthop :: "kern \<Rightarrow> u32 \<Rightarrow> fb \<Rightarrow> fb option" where
  "fb_emulate_nexthop k a s = do {
     p \<leftarrow> fb_pkts s a;
     (blk, i) \<leftarrow> fp_path p;
     arr \<leftarrow> path_mem s blk;
     curhop \<leftarrow> aget arr i;
     foreign \<leftarrow> (if fi_hop (fp_info p) = 0 then do {
                   hp \<leftarrow> curhop;
                   h \<leftarrow> deref_hop hp s;
                   Some (emulator h \<noteq> 0) }
                 else Some False);
     if foreign then fb_free_pkt a s
     else do {
       (waits, s1) \<leftarrow> leave_prev_hop k a s;
       if waits then Some s1
       else case curhop of
         None \<Rightarrow> do { s2 \<leftarrow> fb_forward_packet k a s1; fb_free_pkt a s2 }
       | Some hp \<Rightarrow> fb_cross_hop k a hp s1 } }"

section \<open>emulate_path\<close>

text \<open>The force bit moves from the destination to the source.\<close>

definition fb_force_rewrite :: "u32 \<Rightarrow> u32 \<Rightarrow> u32 \<times> u32" where
  "fb_force_rewrite src dst = (src OR (dst AND FB_FORCEBIT), dst AND NOT FB_FORCEBIT)"

definition fb_emulate_path :: "kern \<Rightarrow> u32 \<Rightarrow> fb \<Rightarrow> (int \<times> fb) option" where
  "fb_emulate_path k a s = do {
     p \<leftarrow> fb_pkts s a;
     b \<leftarrow> fp_m p;
     m \<leftarrow> mbufs s b;
     src0 \<leftarrow> mget32 m 12;
     dst0 \<leftarrow> mget32 m 16;
     let (src, dst) = fb_force_rewrite src0 dst0;
     m1 \<leftarrow> mput 12 (bytes32 src @ bytes32 dst) m;
     let s1 = upd_mbuf b m1 s;
     path \<leftarrow> fb_lookup_path s1 (FB_FORCEOFF src) dst;
     case path of
       None \<Rightarrow> do { s2 \<leftarrow> upd_fpkt a (\<lambda>q. q\<lparr>fp_path := None\<rparr>) s1; Some (ENOENT, s2) }
     | Some blk \<Rightarrow> do {
         s2 \<leftarrow> upd_fpkt a (\<lambda>q. q\<lparr>fp_path := Some (blk, 0)\<rparr>) s1;
         s3 \<leftarrow> (if xcp_initialized s2 then xcp_get_xcpinfo a s2 else Some s2);
         s4 \<leftarrow> upd_fpkt a (\<lambda>q. q\<lparr>fp_info := (fp_info q)\<lparr>fi_hop := 0, fi_src := src, fi_dst := dst\<rparr>\<rparr>) s3;
         s5 \<leftarrow> fb_emulate_nexthop k a s4;
         Some (0, s5) } }"

section \<open>remote_input\<close>

definition CSUM_DATA_VALID :: int where "CSUM_DATA_VALID = 0x400"
definition CSUM_PSEUDO_HDR :: int where "CSUM_PSEUDO_HDR = 0x800"

text \<open>\<open>udp_validate\<close> frees the chain it rejects. \<open>ip_len\<close> is in host order here.\<close>

definition udp_checksum :: "kern \<Rightarrow> nat \<Rightarrow> mbuf \<Rightarrow> u16" where
  "udp_checksum k iphlen m =
     (let d = m_data m; len = ntohs (get16 (iphlen + 4) d) in
      if csum_flags m AND CSUM_DATA_VALID \<noteq> 0 then
        (if csum_flags m AND CSUM_PSEUDO_HDR \<noteq> 0 then word_of_int (csum_data m)
         else in_pseudo k (get32 12 d) (get32 16 d) (htonl (word_of_int (uint len + csum_data m + 17)))) XOR 0xffff
      else in_cksum k (take (unat len + 20) (put_bytes 10 (bytes16 (get16 (iphlen + 4) d)) (put_bytes 0 (replicate 9 0) d))))"

definition udp_validate :: "kern \<Rightarrow> nat \<Rightarrow> fb \<Rightarrow> (bool \<times> fb) option" where
  "udp_validate k b s = do {
     m0 \<leftarrow> mbufs s b;
     hl \<leftarrow> mget8 m0 0;
     let iphlen = 4 * unat (hl AND 0xf);
     if 20 < iphlen then Some (True, s)
     else do {
       (r, s1) \<leftarrow> m_pullup b (iphlen + 8) s;
       case r of
         None \<Rightarrow> Some (False, s1)
       | Some b \<Rightarrow> do {
           m \<leftarrow> mbufs s1 b;
           let d = m_data m;
           let len = uint (ntohs (get16 (iphlen + 4) d));
           let ip_len = uint (get16 2 d);
           if ip_len \<noteq> len \<and> (ip_len < len \<or> len < 8) then do { s2 \<leftarrow> m_freem b s1; Some (False, s2) }
           else if get16 (iphlen + 6) d = 0 then Some (True, s1)
           else
             let c = udp_checksum k iphlen m;
                 d1 = (if csum_flags m AND CSUM_DATA_VALID \<noteq> 0 then d
                       else put_bytes 10 (bytes16 (get16 (iphlen + 4) d)) d);
                 s2 = upd_mbuf b (m\<lparr>m_data := put_bytes (iphlen + 6) (bytes16 c) d1\<rparr>) s1 in
             if c \<noteq> 0 then do { s3 \<leftarrow> m_freem b s2; Some (False, s3) } else Some (True, s2) } } }"

text \<open>The label \<open>error\<close>: the chain and the last packet are freed.\<close>

definition input_error :: "int \<Rightarrow> nat option \<Rightarrow> u32 option \<Rightarrow> fb \<Rightarrow> (int \<times> fb) option" where
  "input_error err m pkt s = do {
     s1 \<leftarrow> (case m of None \<Rightarrow> Some s | Some b \<Rightarrow> m_freem b s);
     s2 \<leftarrow> (case pkt of None \<Rightarrow> Some s1 | Some a \<Rightarrow> fb_free_pkt a s1);
     Some (err, s2) }"

text \<open>One digest: the state with the new packet filled in, the chain that is left, whether this
  is the last round, and the \<open>ttl\<close> the test sees: the copy in the chain, and only that copy, is
  decremented.\<close>

definition take_digest :: "u32 \<Rightarrow> fb_packet \<Rightarrow> nat \<Rightarrow> fb \<Rightarrow> (bool \<times> fb) option" where
  "take_digest a junk b s = do {
     m \<leftarrow> mbufs s b;
     if length (m_data m) < 48 then None
     else do {
       let i = info_of_bytes (m_data m);
       let s1 = upd_mbuf b (m_adj 48 m) (s\<lparr>pkt_allocs := pkt_allocs s + 1\<rparr>);
       let cached = (fi_id i \<noteq> 0);
       let p = junk\<lparr>fp_cachehost := 0, fp_m := (if cached then None else Some b), fp_info := i\<rparr>;
       Some (cached, s1\<lparr>fb_pkts := (fb_pkts s1)(a \<mapsto> p)\<rparr>) } }"

text \<open>The packet on its path: its errno, the packet to go on with.\<close>

definition route_digest :: "u32 \<Rightarrow> fb \<Rightarrow> (int \<times> u32 \<times> fb) option" where
  "route_digest a s = do {
     p \<leftarrow> fb_pkts s a;
     let i = fp_info p;
     if fi_ttl i \<le> 0 then Some (EINVAL, a, s\<lparr>mc_ttldrops := mc_ttldrops s + 1\<rparr>)
     else do {
       path \<leftarrow> fb_lookup_path s (FB_FORCEOFF (fi_src i)) (fi_dst i);
       case path of
         None \<Rightarrow> do { s1 \<leftarrow> upd_fpkt a (\<lambda>q. q\<lparr>fp_path := None\<rparr>) s; Some (ENOENT, a, s1) }
       | Some blk \<Rightarrow> do {
           arr \<leftarrow> path_mem s blk;
           first \<leftarrow> aget arr 0;
           hp \<leftarrow> first;
           h \<leftarrow> deref_hop hp s;
           s1 \<leftarrow> upd_fpkt a (\<lambda>q. q\<lparr>fp_cachehost := emulator h, fp_path := Some (blk, uint (fi_hop i)),
               fp_state := 0\<rparr>) s;
           if emulator h = 0 \<and> fi_id i \<noteq> 0 then mc_reunite a s1 else Some (0, a, s1) } } }"

fun input_loop :: "kern \<Rightarrow> nat \<Rightarrow> int \<Rightarrow> int \<Rightarrow> u32 option \<Rightarrow> nat \<Rightarrow> fb \<Rightarrow> (int \<times> fb) option" where
  "input_loop k 0 ip_len once pkt b s = None"
| "input_loop k (Suc n) ip_len once pkt b s = do {
     m \<leftarrow> mbufs s b;
     if m_pktlen m = 0 then do { s1 \<leftarrow> m_freem b s; Some (0, s1) }
     else if 46 < once then input_error 1 (Some b) pkt s
     else
       let (cell, s1) = malloc_pkt s in
       case cell of
         None \<Rightarrow> input_error FB_ENOBUFS (Some b) None s1
       | Some (a, junk) \<Rightarrow> do {
           (cached, s2) \<leftarrow> take_digest a junk b s1;
           if cached \<and> mn_state s2 AND MN_AGGREGATE = 0 \<and> ip_len \<noteq> 76
           then input_error EINVAL (Some b) (Some a) s2
           else do {
             (err, a', s3) \<leftarrow> route_digest a s2;
             if err \<noteq> 0 then input_error err (if cached then Some b else None) (Some a') s3
             else do {
               s4 \<leftarrow> fb_emulate_nexthop k a' s3;
               if cached then input_loop k n ip_len (once + 1) (Some a') b s4 else None } } } }"

text \<open>At most 47 rounds; the fuel allows one more.\<close>

definition remote_input :: "kern \<Rightarrow> nat \<Rightarrow> fb \<Rightarrow> (int \<times> fb) option" where
  "remote_input k b s = do {
     (ok, s1) \<leftarrow> udp_validate k b (s\<lparr>mc_recv := mc_recv s + 1\<rparr>);
     if \<not> ok then Some (EINVAL, s1)
     else do {
       m \<leftarrow> mbufs s1 b;
       input_loop k 48 (m_pktlen m) 1 None b (upd_mbuf b (m_adj 28 m) s1) } }"

section \<open>The clock\<close>

partial_function (option) drain_packets :: "kern \<Rightarrow> fb \<Rightarrow> fb option" where
  "drain_packets k s = do {
     cal \<leftarrow> fb_calendar s;
     (x, cal') \<leftarrow> cal_take (fb_tick s) cal;
     case x of
       None \<Rightarrow> Some s
     | Some a \<Rightarrow> do {
         s' \<leftarrow> fb_emulate_nexthop k a (s\<lparr>fb_calendar := Some cal', queued := queued s - 1\<rparr>);
         drain_packets k s' } }"

declare drain_packets.simps [code]

definition fire_hop :: "kern \<Rightarrow> nat \<times> timeout_fn \<times> hop_ptr \<Rightarrow> fb \<Rightarrow> fb option" where
  "fire_hop k e s = do {
     s1 \<leftarrow> run_timeout k (fst (snd e)) (snd (snd e)) (s\<lparr>hop_scheduled := hop_scheduled s - 1\<rparr>);
     Some (xtq_free_hs (fst e) s1) }"

partial_function (option) drain_hops :: "kern \<Rightarrow> fb \<Rightarrow> fb option" where
  "drain_hops k s = do {
     cal \<leftarrow> hop_calendar s;
     (x, cal') \<leftarrow> cal_take (fb_tick s) cal;
     case x of
       None \<Rightarrow> Some s
     | Some e \<Rightarrow> do {
         s' \<leftarrow> fire_hop k e (s\<lparr>hop_calendar := Some cal'\<rparr>);
         drain_hops k s' } }"

declare drain_hops.simps [code]

partial_function (option) fb_ticks :: "kern \<Rightarrow> fb \<Rightarrow> fb option" where
  "fb_ticks k s =
     (if fb_tick s \<noteq> u32_of (ticks s) then do {
        s1 \<leftarrow> drain_packets k s;
        s2 \<leftarrow> drain_hops k s1;
        fb_ticks k (s2\<lparr>fb_tick := fb_tick s2 + 1\<rparr>) }
      else Some s)"

declare fb_ticks.simps [code]

definition fb_hopclock :: "kern \<Rightarrow> fb \<Rightarrow> fb option" where
  "fb_hopclock k s = do {
     s1 \<leftarrow> mtx_lock s;
     s2 \<leftarrow> fb_ticks k s1;
     s3 \<leftarrow> (if mn_state s2 AND MN_AGGREGATE \<noteq> 0 then remote_aggregate_clean k s2 else Some s2);
     s4 \<leftarrow> (if ticks s3 smod 100 = 0 then remote_flush s3 else Some s3);
     s5 \<leftarrow> mtx_unlock s4;
     Some (s5\<lparr>callout := True\<rparr>) }"

section \<open>filter_ipinput\<close>

text \<open>\<open>h\<close> is the address of the caller's mbuf pointer.\<close>

definition accept_packet :: "kern \<Rightarrow> nat \<Rightarrow> nat \<Rightarrow> fb \<Rightarrow> (int option \<times> fb) option" where
  "accept_packet k h b s =
     (let (cell, s1) = malloc_pkt s in
      case cell of
        None \<Rightarrow> Some (None, s1)
      | Some (a, junk) \<Rightarrow> do {
          m \<leftarrow> mbufs s1 b;
          let p = junk\<lparr>fp_m := Some b, fp_handle := h, fp_cachehost := 0,
              fp_info := (fp_info junk)\<lparr>fi_len := u32_of (m_pktlen m), fi_id := 0\<rparr>\<rparr>;
          (err, s2) \<leftarrow> fb_emulate_path k a (s1\<lparr>pkt_allocs := pkt_allocs s1 + 1, fb_pkts := (fb_pkts s1)(a \<mapsto> p)\<rparr>);
          s3 \<leftarrow> (if err \<noteq> 0 then fb_free_pkt a s2 else Some s2);
          Some (Some err, s3) })"

definition other_packet :: "kern \<Rightarrow> nat \<Rightarrow> fb \<Rightarrow> (int option \<times> fb) option" where
  "other_packet k b s = do {
     m0 \<leftarrow> mbufs s b;
     hl \<leftarrow> mget8 m0 0;
     let iphlen = 4 * unat (hl AND 0xf);
     (r, s1) \<leftarrow> m_pullup b (iphlen + 8) s;
     case r of
       None \<Rightarrow> Some (None, s1)
     | Some b \<Rightarrow> do {
         m \<leftarrow> mbufs s1 b;
         if ntohs (get16 (iphlen + 2) (m_data m)) = remote_port s1 then do {
           (err, s2) \<leftarrow> remote_input k b s1;
           Some (Some err, s2) }
         else Some (Some EINVAL, s1) } }"

definition fb_filter_ipinput :: "kern \<Rightarrow> nat \<Rightarrow> fb \<Rightarrow> (int \<times> fb) option" where
  "fb_filter_ipinput k h s = do {
     mh \<leftarrow> handles s h;
     b \<leftarrow> mh;
     s1 \<leftarrow> mtx_lock s;
     m \<leftarrow> mbufs s1 b;
     src \<leftarrow> mget32 m 12;
     dst \<leftarrow> mget32 m 16;
     (err, s2) \<leftarrow> (if src AND FB_MASK = FB_SUBNET \<and> dst AND FB_MASK = FB_SUBNET
                  then accept_packet k h b s1 else other_packet k b s1);
     case err of
       None \<Rightarrow> do { s3 \<leftarrow> mtx_unlock s2; Some (FB_ENOBUFS, s3) }
     | Some e \<Rightarrow> do {
         s3 \<leftarrow> mtx_unlock (s2\<lparr>handles := (handles s2)(h \<mapsto> None)\<rparr>);
         Some (e, s3) } }"

section \<open>modelnet_modevent\<close>

datatype mod_event = MOD_LOAD | MOD_UNLOAD | MOD_OTHER

definition fb_load :: "kern \<Rightarrow> fb \<Rightarrow> (int \<times> fb) option" where
  "fb_load k s =
     (let (ok, s1) = malloc_nowait 1 s in
      if \<not> ok then Some (ENOMEM, s1\<lparr>mn_mtx := None\<rparr>)
      else do {
        s2 \<leftarrow> mtx_lock (s1\<lparr>mn_mtx := Some False\<rparr>);
        if dn_hook s2 then do { s3 \<leftarrow> mtx_unlock s2; Some (EEXIST, s3) }
        else do {
          let s3 = s2\<lparr>dn_hook := True, delay_zeros := 0, fb_tick := u32_of (ticks s2), callout := True\<rparr>;
          let (ok1, s4) = malloc_nowait (int SCHEDLEN) s3;
          let (ok2, s5) = malloc_nowait (int SCHEDLEN) s4;
          if \<not> ok1 \<or> \<not> ok2 then None
          else do {
            let s6 = s5\<lparr>fb_calendar := Some (replicate SCHEDLEN []), hop_calendar := Some (replicate SCHEDLEN [])\<rparr>;
            s7 \<leftarrow> mtx_unlock (xtq_init (remote_init k s6));
            Some (0, s7) } } })"

definition fb_unload :: "kern \<Rightarrow> fb \<Rightarrow> (int \<times> fb) option" where
  "fb_unload k s = do {
     s1 \<leftarrow> mtx_lock s;
     s2 \<leftarrow> remote_uninit (xtq_uninit (s1\<lparr>callout := False\<rparr>));
     s3 \<leftarrow> fb_uninit_paths k s2;
     s4 \<leftarrow> mtx_unlock ((bsd_free (bsd_free s3))\<lparr>hop_calendar := None, fb_calendar := None, dn_hook := False\<rparr>);
     Some (0, (bsd_free s4)\<lparr>mn_mtx := None\<rparr>) }"

definition modelnet_modevent :: "kern \<Rightarrow> mod_event \<Rightarrow> fb \<Rightarrow> (int \<times> fb) option" where
  "modelnet_modevent k ev s =
     (case ev of MOD_LOAD \<Rightarrow> fb_load k s | MOD_UNLOAD \<Rightarrow> fb_unload k s | MOD_OTHER \<Rightarrow> Some (0, s))"

end
