(* ===== verification/Fb_Pool.thy ===== *)
theory Fb_Pool
  imports Fb_Core
begin

text \<open>
  The hop schedulers of the FreeBSD module: every allocated scheduler is free or scheduled, once,
  whatever is scheduled, unscheduled or fired; and a timeout that reschedules itself for the slot
  the clock is draining keeps the clock there.
\<close>

section \<open>No scheduler is lost\<close>

text \<open>\<open>out\<close>: the schedulers in nobody's list, those being fired.\<close>

definition sched_ids :: "(nat \<times> timeout_fn \<times> hop_ptr) list list \<Rightarrow> nat multiset" where
  "sched_ids cal = image_mset fst (mset (concat cal))"

definition hs_ok :: "nat multiset \<Rightarrow> fb \<Rightarrow> bool" where
  "hs_ok out s \<longleftrightarrow> (\<exists>cal. hop_calendar s = Some cal \<and> length cal = SCHEDLEN \<and> allocate_idx s \<le> MAX_ALLOCATIONS \<and>
     mset (free_hop_scheds s) + sched_ids cal + out = mset [0..<allocate_idx s * NUM_HOP_SCHEDS])"

lemma create_ok: "hs_ok out s \<Longrightarrow> hs_ok out (xtq_create_hop_scheds s)"
proof -
  assume a: "hs_ok out s"
  obtain ok s1 where m: "malloc_nowait (int NUM_HOP_SCHEDS) s = (ok, s1)" by fastforce
  have s1: "hop_calendar s1 = hop_calendar s" "allocate_idx s1 = allocate_idx s" "free_hop_scheds s1 = free_hop_scheds s"
    using m by (auto simp: malloc_nowait_def split: if_splits list.splits bool.splits)
  have u: "[0..<(n + 1) * NUM_HOP_SCHEDS] = [0..<n * NUM_HOP_SCHEDS] @ [n * NUM_HOP_SCHEDS..<(n + 1) * NUM_HOP_SCHEDS]" for n
    using upt_add_eq_append [of 0 "n * NUM_HOP_SCHEDS" NUM_HOP_SCHEDS] by (simp add: add.commute)
  show ?thesis
  proof (cases "allocate_idx s = MAX_ALLOCATIONS \<or> \<not> ok")
    case True
    then show ?thesis using a m s1 by (auto simp: xtq_create_hop_scheds_def hs_ok_def)
  next
    case False
    obtain cal where c: "hop_calendar s = Some cal" "length cal = SCHEDLEN" "allocate_idx s \<le> MAX_ALLOCATIONS"
      "mset (free_hop_scheds s) + sched_ids cal + out = mset [0..<allocate_idx s * NUM_HOP_SCHEDS]"
      using a by (auto simp: hs_ok_def)
    let ?n = "allocate_idx s" and ?s' = "xtq_create_hop_scheds s"
    have f: "hop_calendar ?s' = Some cal" "allocate_idx ?s' = ?n + 1"
      "free_hop_scheds ?s' = rev [?n * NUM_HOP_SCHEDS..<(?n + 1) * NUM_HOP_SCHEDS] @ free_hop_scheds s"
      using False m s1 c by (simp_all add: xtq_create_hop_scheds_def Let_def)
    have "mset (free_hop_scheds ?s') + sched_ids cal + out
        = mset [?n * NUM_HOP_SCHEDS..<(?n + 1) * NUM_HOP_SCHEDS] + mset [0..<?n * NUM_HOP_SCHEDS]"
      unfolding f(3) c(4) [symmetric] mset_append mset_rev by (simp only: add.assoc)
    also have "\<dots> = mset [0..<allocate_idx ?s' * NUM_HOP_SCHEDS]"
      unfolding f(2) u [of ?n] mset_append by (rule add.commute)
    finally show ?thesis using f c False by (auto simp: hs_ok_def)
  qed
qed

lemma cal_add_concat:
  "cal_add t x cal = Some cal' \<Longrightarrow> length cal' = length cal \<and> mset (concat cal') = add_mset x (mset (concat cal))"
proof -
  have g: "k < length cal \<Longrightarrow> mset (concat (cal[k := cal ! k @ [x]])) = add_mset x (mset (concat cal))" for k
  proof (induction cal arbitrary: k)
    case (Cons l cal)
    then show ?case by (cases k) auto
  qed simp
  assume "cal_add t x cal = Some cal'"
  then show ?thesis using g by (auto simp: cal_add_def aget_def aset_def split: if_splits)
qed

lemma get_hs_ok:
  assumes "hs_ok out s" "xtq_get_hs s = (r, s')"
  shows "case r of None \<Rightarrow> hs_ok out s' | Some x \<Rightarrow> hs_ok (add_mset x out) s'"
proof -
  define s1 where "s1 = (if free_hop_scheds s = [] then xtq_create_hop_scheds s else s)"
  have 1: "hs_ok out s1" using assms(1) create_ok by (simp add: s1_def)
  show ?thesis using assms(2) 1 unfolding xtq_get_hs_def s1_def [symmetric] Let_def hs_ok_def
    by (cases "free_hop_scheds s1") auto
qed

lemma schedule_ok:
  assumes ok: "hs_ok out s"
  shows "\<exists>s'. xtq_schedule_hop hp f d s = Some s' \<and> hs_ok out s'"
proof -
  obtain r s1 where g: "xtq_get_hs s = (r, s1)" by fastforce
  show ?thesis
  proof (cases r)
    case None
    then show ?thesis using get_hs_ok [OF ok g] g by (simp add: xtq_schedule_hop_def)
  next
    case (Some x)
    obtain cal where c: "hop_calendar s1 = Some cal" "length cal = SCHEDLEN" "allocate_idx s1 \<le> MAX_ALLOCATIONS"
      "mset (free_hop_scheds s1) + sched_ids cal + add_mset x out = mset [0..<allocate_idx s1 * NUM_HOP_SCHEDS]"
      using get_hs_ok [OF ok g] Some by (auto simp: hs_ok_def)
    have "cal_slot (fb_tick s1 + d) < int (length cal)" "0 \<le> cal_slot (fb_tick s1 + d)"
      using cal_slot_bounds [of "fb_tick s1 + d"] c(2) by (simp_all add: SCHEDLEN_def)
    then obtain cal' where a: "cal_add (fb_tick s1 + d) (x, f, hp) cal = Some cal'"
      by (simp add: cal_add_def aget_Some aset_Some)
    then show ?thesis using c cal_add_concat [OF a] g Some
      by (simp add: xtq_schedule_hop_def hs_ok_def sched_ids_def)
  qed
qed

lemma unschedule_list_ids:
  "mset (map fst (fst (unschedule_list h l))) + mset (snd (unschedule_list h l)) = mset (map fst l)"
  by (induction h l rule: unschedule_list.induct) (auto simp: case_prod_unfold Let_def)

lemma unschedule_ok:
  assumes ok: "hs_ok out s"
  shows "\<exists>s'. xtq_unschedule_hop hp s = Some s' \<and> hs_ok out s'"
proof -
  obtain cal where c: "hop_calendar s = Some cal" "length cal = SCHEDLEN" "allocate_idx s \<le> MAX_ALLOCATIONS"
    "mset (free_hop_scheds s) + sched_ids cal + out = mset [0..<allocate_idx s * NUM_HOP_SCHEDS]"
    using ok by (auto simp: hs_ok_def)
  have "sched_ids (map (\<lambda>l. fst (unschedule_list hp l)) ls) + mset (concat (map (\<lambda>l. snd (unschedule_list hp l)) ls))
      = sched_ids ls" for ls
  proof (induction ls)
    case (Cons l ls)
    have "image_mset fst (mset (fst (unschedule_list hp l))) + mset (snd (unschedule_list hp l)) = image_mset fst (mset l)"
      using unschedule_list_ids [of hp l] by simp
    then show ?case using Cons by (auto simp: sched_ids_def add_ac)
  qed (simp add: sched_ids_def)
  then show ?thesis using c by (auto simp: xtq_unschedule_hop_def hs_ok_def Let_def comp_def add_ac)
qed

lemma free_hs_ok: "hs_ok (add_mset x out) s \<Longrightarrow> hs_ok out (xtq_free_hs x s)"
  by (auto simp: hs_ok_def xtq_free_hs_def)

lemma take_ok:
  assumes "hs_ok {#} s" "hop_calendar s = Some cal" "cal_take (fb_tick s) cal = Some (Some e, cal')"
  shows "hs_ok {#fst e#} (s\<lparr>hop_calendar := Some cal'\<rparr>)"
proof -
  have g: "k < length c \<Longrightarrow> c ! k = x # xs \<Longrightarrow> mset (concat c) = add_mset x (mset (concat (c[k := xs])))" for c k x xs
  proof (induction c arbitrary: k)
    case (Cons l c)
    then show ?case by (cases k) auto
  qed simp
  obtain xs where "aget cal (cal_slot (fb_tick s)) = Some (e # xs)" "cal' = cal[nat (cal_slot (fb_tick s)) := xs]"
    using assms(3) by (auto simp: cal_take_def aset_def split: Option.bind_splits list.splits if_splits)
  then show ?thesis using assms(1,2) g [of "nat (cal_slot (fb_tick s))" cal e xs]
    by (auto simp: aget_def hs_ok_def sched_ids_def split: if_splits)
qed

lemma hs_ok_frame [simp]:
  "hs_ok out (s\<lparr>hop_scheduled := n\<rparr>) = hs_ok out s" "hs_ok out (put_pipe a p s) = hs_ok out s"
  by (simp_all add: hs_ok_def put_pipe_def)

lemma timeout_schedules:
  "run_timeout k f hp s = Some s1 \<Longrightarrow> \<exists>a p g d. xtq_schedule_hop hp g d (put_pipe a p s) = Some s1"
  by (auto simp: run_timeout_def Tq_timeout_def Te_timeout_def split: timeout_fn.splits Option.bind_splits)
    blast+

lemma fire_ok:
  assumes "hs_ok {#fst e#} s" "fire_hop k e s = Some s'"
  shows "hs_ok {#} s'"
proof -
  let ?s = "s\<lparr>hop_scheduled := hop_scheduled s - 1\<rparr>"
  obtain s1 where s1: "run_timeout k (fst (snd e)) (snd (snd e)) ?s = Some s1" "s' = xtq_free_hs (fst e) s1"
    using assms(2) by (auto simp: fire_hop_def split: Option.bind_splits)
  obtain a p g d where "xtq_schedule_hop (snd (snd e)) g d (put_pipe a p ?s) = Some s1"
    using timeout_schedules [OF s1(1)] by blast
  then have "hs_ok {#fst e#} s1"
    using schedule_ok [of "{#fst e#}" "put_pipe a p ?s" "snd (snd e)" g d] assms(1) by simp
  then show ?thesis using s1(2) free_hs_ok by simp
qed

lemma drain_ok: "drain_hops k s = Some s' \<Longrightarrow> hs_ok {#} s \<Longrightarrow> hs_ok {#} s'"
proof -
  assume run: "drain_hops k s = Some s'"
  have "hs_ok {#} s \<longrightarrow> hs_ok {#} s'"
  proof (rule drain_hops.raw_induct [where P = "\<lambda>k s s'. hs_ok {#} s \<longrightarrow> hs_ok {#} s'", OF _ run])
    fix f :: "kern \<Rightarrow> fb \<Rightarrow> fb option" and k s s'
    assume ih: "\<And>k s s'. f k s = Some s' \<Longrightarrow> hs_ok {#} s \<longrightarrow> hs_ok {#} s'"
      and run: "(hop_calendar s \<bind> (\<lambda>cal. cal_take (fb_tick s) cal \<bind> (\<lambda>(x, cal').
          case x of None \<Rightarrow> Some s
          | Some e \<Rightarrow> fire_hop k e (s\<lparr>hop_calendar := Some cal'\<rparr>) \<bind> f k))) = Some s'"
    obtain cal x cal' where c: "hop_calendar s = Some cal" "cal_take (fb_tick s) cal = Some (x, cal')"
      using run by (auto split: Option.bind_splits)
    show "hs_ok {#} s \<longrightarrow> hs_ok {#} s'"
    proof (cases x)
      case None
      then show ?thesis using run c by simp
    next
      case (Some e)
      then obtain s1 where "fire_hop k e (s\<lparr>hop_calendar := Some cal'\<rparr>) = Some s1" "f k s1 = Some s'"
        using run c by (auto split: Option.bind_splits)
      then show ?thesis using take_ok [OF _ c(1)] c(2) Some fire_ok ih by blast
    qed
  qed
  then show "hs_ok {#} s \<Longrightarrow> hs_ok {#} s'" by blast
qed

section \<open>A clock that stands still\<close>

lemma te_update_idle: "sum_rtt_by_cwnd p = 0 \<Longrightarrow> avg_rtt p = 0 \<Longrightarrow>
   \<exists>p'. te_update HZ q d p = Some p' \<and> avg_rtt p' = 0"
  by (simp add: te_update_def)

lemma te_update_resets: "te_update HZ q d p = Some p' \<Longrightarrow> sum_rtt_by_cwnd p' = 0 \<and> Te p' = avg_rtt p'"
  by (auto simp: te_update_def split: Option.bind_splits)

definition zero_estimate :: "kern \<Rightarrow> hop_ptr \<Rightarrow> fb \<Rightarrow> bool" where
  "zero_estimate k hp s \<longleftrightarrow> (\<exists>h a p p'. pipe_of hp s = Some (h, a, p) \<and>
     te_update (hz k) (qsize h) (slotdepth h) p = Some p' \<and> avg_rtt p' = 0)"

definition spins :: "kern \<Rightarrow> fb \<Rightarrow> bool" where
  "spins k s \<longleftrightarrow> (\<exists>cal x hp. hop_calendar s = Some cal \<and> length cal = SCHEDLEN \<and>
     cal ! nat (cal_slot (fb_tick s)) = [(x, Te_Fn, hp)] \<and> zero_estimate k hp s \<and> free_hop_scheds s \<noteq> [])"

lemma spin_step:
  assumes "spins k s"
  shows "\<exists>cal e cal' s'. hop_calendar s = Some cal \<and> cal_take (fb_tick s) cal = Some (Some e, cal') \<and>
     fire_hop k e (s\<lparr>hop_calendar := Some cal'\<rparr>) = Some s' \<and> spins k s'"
proof -
  obtain cal x hp h a p p' where c: "hop_calendar s = Some cal" "length cal = SCHEDLEN"
    "cal ! nat (cal_slot (fb_tick s)) = [(x, Te_Fn, hp)]" "free_hop_scheds s \<noteq> []"
    "pipe_of hp s = Some (h, a, p)" and te: "te_update (hz k) (qsize h) (slotdepth h) p = Some p'" "avg_rtt p' = 0"
    using assms by (auto simp: spins_def zero_estimate_def)
  let ?k = "nat (cal_slot (fb_tick s))"
  have b: "0 \<le> cal_slot (fb_tick s)" "cal_slot (fb_tick s) < int (length cal)"
    using cal_slot_bounds [of "fb_tick s"] c(2) by (simp_all add: SCHEDLEN_def)
  have k: "?k < length cal" using b by simp
  have take: "cal_take (fb_tick s) cal = Some (Some (x, Te_Fn, hp), cal[?k := []])"
    using b c(3) by (simp add: cal_take_def array_ops)
  obtain y ys where y: "free_hop_scheds s = y # ys" using c(4) by (cases "free_hop_scheds s") auto
  have r: "sum_rtt_by_cwnd p' = 0" "Te p' = 0" using te_update_resets [OF te(1)] te(2) by auto
  have po: "pipe_of hp (s\<lparr>hop_calendar := m, hop_scheduled := n\<rparr>) = Some (h, a, p)" for m n
    using c(5) by (simp add: pipe_of_def deref_hop_def split: hop_ptr.splits)
  have sl: "fb_tick s + ucast (Te p') = fb_tick s" by (simp add: r)
  have add: "cal_add (fb_tick s) (y, Te_Fn, hp) (cal[?k := []]) = Some (cal[?k := [(y, Te_Fn, hp)]])"
    using b by (simp add: cal_add_def array_ops)
  let ?s' = "s\<lparr>hop_scheduled := hop_scheduled s, xcp_mem := (xcp_mem s)(a \<mapsto> p'), free_hop_scheds := ys @ [x],
      hop_calendar := Some (cal[?k := [(y, Te_Fn, hp)]])\<rparr>"
  have fire: "fire_hop k (x, Te_Fn, hp) (s\<lparr>hop_calendar := Some (cal[?k := []])\<rparr>) = Some ?s'"
    using po te y add sl
    by (simp add: fire_hop_def run_timeout_def Te_timeout_def put_pipe_def xtq_schedule_hop_def xtq_get_hs_def
        xtq_free_hs_def)
  have "pipe_of hp ?s' = Some (h, a, p')"
    using c(5) by (auto simp: pipe_of_def deref_hop_def split: hop_ptr.splits Option.bind_splits)
  then have "zero_estimate k hp ?s'" using te_update_idle [OF r(1) te(2)] by (fastforce simp: zero_estimate_def)
  then have "spins k ?s'" using c(2) k by (auto simp: spins_def)
  then show ?thesis using c(1) take fire by blast
qed

lemma spins_forever: "spins k s \<Longrightarrow> drain_hops k s = None"
proof -
  have "\<not> spins k s" if "drain_hops k s = Some r" for r
  proof (rule drain_hops.raw_induct [where P = "\<lambda>k s r. \<not> spins k s", OF _ that])
    fix f :: "kern \<Rightarrow> fb \<Rightarrow> fb option" and k s r
    assume ih: "\<And>k s r. f k s = Some r \<Longrightarrow> \<not> spins k s"
      and run: "(hop_calendar s \<bind> (\<lambda>cal. cal_take (fb_tick s) cal \<bind> (\<lambda>(x, cal').
          case x of None \<Rightarrow> Some s
          | Some e \<Rightarrow> fire_hop k e (s\<lparr>hop_calendar := Some cal'\<rparr>) \<bind> f k))) = Some r"
    show "\<not> spins k s"
    proof
      assume "spins k s"
      then obtain cal e cal' s' where "hop_calendar s = Some cal" "cal_take (fb_tick s) cal = Some (Some e, cal')"
        "fire_hop k e (s\<lparr>hop_calendar := Some cal'\<rparr>) = Some s'" "spins k s'"
        using spin_step [of k s] by blast
      then show False using run ih by auto
    qed
  qed
  then show "spins k s \<Longrightarrow> drain_hops k s = None" by (cases "drain_hops k s") auto
qed

lemma drain_none: 
  assumes "fb_calendar s = Some cal" "length cal = SCHEDLEN" "cal ! nat (cal_slot (fb_tick s)) = []"
  shows "drain_packets k s = Some s"
  using assms cal_slot_bounds [of "fb_tick s"]
  by (subst drain_packets.simps) (simp add: cal_take_def array_ops SCHEDLEN_def)

lemma spinning_clock:
  assumes "fb_tick s \<noteq> u32_of (ticks s)" "spins k s"
    and "fb_calendar s = Some cal" "length cal = SCHEDLEN" "cal ! nat (cal_slot (fb_tick s)) = []"
  shows "fb_hopclock k s = None"
proof (cases "mtx_lock s")
  case (Some s1)
  then have s1: "s1 = s\<lparr>mn_mtx := Some True\<rparr>" by (simp add: mtx_lock_def split: if_splits)
  have "zero_estimate k hp (s\<lparr>mn_mtx := m\<rparr>) = zero_estimate k hp s" for hp m
    by (simp add: zero_estimate_def pipe_of_def deref_hop_def split: hop_ptr.splits)
  then have "spins k s1" using assms(2) by (simp add: spins_def s1)
  moreover have "drain_packets k s1 = Some s1" by (rule drain_none) (use assms in \<open>simp_all add: s1\<close>)
  moreover have "fb_tick s1 \<noteq> u32_of (ticks s1)" using assms(1) by (simp add: s1)
  ultimately have "fb_ticks k s1 = None" using spins_forever [of k s1] by (subst fb_ticks.simps) simp
  then show ?thesis using Some by (simp add: fb_hopclock_def)
qed (simp add: fb_hopclock_def)

lemma zero_rtt:
  assumes "hz k < 1024" "0 \<le> hz k" "sum_rtt_square_by_cwnd p div sum_rtt_by_cwnd p = 1" "te_update (hz k) q d p = Some p'"
    "0 < sum_rtt_by_cwnd p"
  shows "avg_rtt p' = 0"
proof -
  have "uint (u64_of (hz k)) = hz k" using assms(1,2) by (simp add: u64_of_def uint_word_of_int_eq take_bit_int_eq_self)
  then have "uint (drop_bit 10 (u64_of (hz k))) = 0" using assms(1,2)
    by (simp add: drop_bit_eq_div uint_div)
  then have "drop_bit 10 (u64_of (hz k)) = 0" by (simp only: uint_0_iff)
  then show ?thesis using assms(3-5)
    by (auto simp: te_update_def te_feedback_def udiv_def FP_SHIFT_def Let_def split: Option.bind_splits if_splits)
qed

end
