(* ===== verification/Fb_Link.thy ===== *)
theory Fb_Link
  imports Fb_Core
begin

text \<open>
  The bandwidth delay of the FreeBSD module on links of more than 50 bytes per tick: \<open>fragment\<close>
  carries the unused bytes of the last tick to the next packet, and the account is exact but for
  packets that fill such a rest exactly: the branch \<open>hop->fragment > len\<close> does not take them, and
  the rest of the code charges a tick only when bytes are left.
\<close>

section \<open>One packet\<close>

text \<open>How much of the last tick is used; links for which the hint \<open>bytespertick\<close> is followed; a
  packet that fills the rest exactly.\<close>

definition tick_used :: "('w, 'z) hop_scheme \<Rightarrow> int" where
  "tick_used h = (if fragment h = 0 then 0 else uint (bytespertick h) - fragment h)"

definition fast_link :: "('w, 'z) hop_scheme \<Rightarrow> bool" where
  "fast_link h \<longleftrightarrow> 50 < bytespertick h \<and> uint (bytespertick h) < 2 ^ 31 \<and> 0 \<le> fragment h \<and>
     fragment h < uint (bytespertick h) \<and> KBps h \<noteq> 0 \<and> \<bar>KBps h\<bar> \<le> 2 ^ 28"

definition exact_fit :: "u32 \<Rightarrow> ('w, 'z) hop_scheme \<Rightarrow> bool" where
  "exact_fit len h \<longleftrightarrow> fragment h \<noteq> 0 \<and> uint len = fragment h"

lemma sint_small: "uint (w :: u32) < 2 ^ 31 \<Longrightarrow> sint w = uint w"
  by (simp add: sint_uint signed_take_bit_int_eq_self order_less_le_trans [of _ 0] order.trans [of _ 0])

lemma bw_delay_charges:
  assumes f: "fast_link h"
  shows "\<exists>d h'. fb_bw_delay HZ len h = Some (d, h') \<and> fast_link h' \<and> bytespertick h' = bytespertick h \<and>
     uint d * uint (bytespertick h) + tick_used h'
       = tick_used h + uint len - (if exact_fit len h then uint (bytespertick h) else 0)"
proof -
  let ?b = "uint (bytespertick h)" and ?g = "fragment h"
  have b: "50 < ?b" "?b < 2 ^ 31" and g: "0 \<le> ?g" "?g < ?b" and K: "KBps h \<noteq> 0" "\<bar>KBps h\<bar> \<le> 2 ^ 28"
    using f by (auto simp: fast_link_def word_less_def)
  have ug: "uint (u32_of ?g) = ?g" by (rule uint_u32_of) (use b g in auto)
  have l: "0 \<le> uint len" "uint len < 2 ^ 32" using uint_lt2p [of len] by simp_all
  note div = kbps_divisor [OF K(2,1)]
  show ?thesis
  proof (cases "uint len < ?g")
    case True
    then have c: "len < u32_of ?g" by (simp add: word_less_def ug)
    have "uint (u32_of ?g - len) = ?g - uint len" using True by (simp add: uint_sub_if' ug)
    then have s: "sint (u32_of ?g - len) = ?g - uint len" using g b l by (subst sint_small) linarith+
    show ?thesis using c s div g b True l f
      by (auto simp: fb_bw_delay_def use_fragment_def tick_used_def fast_link_def exact_fit_def)
        (use uint_ge_0 [of len] in linarith)
  next
    case False
    then have c: "\<not> len < u32_of ?g" by (simp add: word_less_def ug)
    let ?l = "len - u32_of ?g" and ?u = "if ?g \<noteq> 0 then 1 else 0 :: u32"
    have ul: "uint ?l = uint len - ?g" using False by (simp add: uint_sub_if' ug)
    have z: "u32_of 0 = 0" by (simp add: u32_of_def)
    have us: "use_fragment len h = (?l, ?u, h\<lparr>fragment := 0\<rparr>)"
      using c z by (auto simp: use_fragment_def)
    show ?thesis
    proof (cases "?l = 0")
      case True
      then have "uint len = ?g" using ul by simp
      then show ?thesis using us True div g b f
        by (auto simp: fb_bw_delay_def tick_used_def fast_link_def exact_fit_def)
    next
      case nz: False
      let ?d = "?l div bytespertick h + ?u" and ?r = "?l mod bytespertick h"
      have n: "uint len \<noteq> ?g" using nz ul by (metis diff_self uint_0_iff)
      have ur: "uint ?r = (uint len - ?g) mod ?b" by (simp add: uint_mod ul)
      have uq: "uint (?l div bytespertick h) = (uint len - ?g) div ?b" by (simp add: uint_div ul)
      have "(uint len - ?g) div ?b \<le> (uint len - ?g) div 2"
        using ul uint_ge_0 [of ?l] b by (intro zdiv_mono2) auto
      also have "\<dots> \<le> 2 ^ 32 div 2" using l g by (intro zdiv_mono1) auto
      finally have "(uint len - ?g) div ?b + 1 < 2 ^ 32" by simp
      moreover have "0 \<le> (uint len - ?g) div ?b" using ul uint_ge_0 [of ?l] b by (intro pos_imp_zdiv_nonneg_iff [THEN iffD2]) auto
      ultimately have ud: "uint ?d = (uint len - ?g) div ?b + uint ?u"
        using uq by (auto simp: uint_word_ariths mod_pos_pos_trivial)
      have r: "0 \<le> uint ?r" "uint ?r < ?b" using ur b by simp_all
      have s: "sint (bytespertick h - ?r) = ?b - uint ?r"
      proof -
        have "uint (bytespertick h - ?r) = ?b - uint ?r" using r by (simp add: uint_sub_if')
        moreover from this have "uint (bytespertick h - ?r) < 2 ^ 31" using r b by linarith
        ultimately show ?thesis using sint_small by metis
      qed
      have m: "?b * ((uint len - ?g) div ?b) + uint ?r = uint len - ?g" unfolding ur by (rule mult_div_mod_eq)
      define h' where "h' = (if ?r \<noteq> 0 then h\<lparr>fragment := sint (bytespertick h - ?r)\<rparr> else h\<lparr>fragment := 0\<rparr>)"
      have run: "fb_bw_delay HZ len h = Some (?d, h')"
        using us nz f by (simp add: fb_bw_delay_def fast_link_def h'_def Let_def)
      have r0: "?r = 0 \<longleftrightarrow> uint ?r = 0" by (metis uint_0_iff)
      have h': "fast_link h'" "bytespertick h' = bytespertick h" "tick_used h' = uint ?r"
        using f s r r0 by (auto simp: h'_def fast_link_def tick_used_def)
          (use uint_ge_0 [of ?r] in linarith)
      have e: "\<not> exact_fit len h" using n by (simp add: exact_fit_def)
      have "uint ?d * ?b + tick_used h' = tick_used h + uint len"
        unfolding ud h'(3) distrib_right using m by (auto simp: tick_used_def mult.commute)
      then show ?thesis using run h' e by auto
    qed
  qed
qed


section \<open>A burst\<close>

text \<open>The ticks charged, the exact fits, the hop afterwards.\<close>

fun send_burst :: "int \<Rightarrow> u32 list \<Rightarrow> ('w, 'z) hop_scheme \<Rightarrow> (int \<times> nat \<times> ('w, 'z) hop_scheme) option" where
  "send_burst HZ [] h = Some (0, 0, h)"
| "send_burst HZ (l # ls) h = do {
     (d, h1) \<leftarrow> fb_bw_delay HZ l h;
     (t, n, h2) \<leftarrow> send_burst HZ ls h1;
     Some (uint d + t, n + of_bool (exact_fit l h), h2) }"

text \<open>C22. On a link of more than 50 bytes per tick, the bandwidth delays of a burst of packets of any
  lengths account for every byte: ticks times bytes per tick, and what is used of the last tick, is
  the sum of the lengths and what was used before the burst, except that every packet that exactly
  fills the rest of a tick has one tick too few charged to it.\<close>

theorem burst_charges_bytes:
  "fast_link h \<Longrightarrow> \<exists>t n h'. send_burst HZ ls h = Some (t, n, h') \<and> fast_link h' \<and>
     (t + int n) * uint (bytespertick h) + tick_used h' = tick_used h + sum_list (map uint ls)"
proof (induction ls arbitrary: h)
  case (Cons l ls)
  obtain d h1 where d: "fb_bw_delay HZ l h = Some (d, h1)" "fast_link h1" "bytespertick h1 = bytespertick h"
    "uint d * uint (bytespertick h) + tick_used h1
       = tick_used h + uint l - (if exact_fit l h then uint (bytespertick h) else 0)"
    using bw_delay_charges [OF Cons.prems, of HZ l] by blast
  obtain t n h2 where t: "send_burst HZ ls h1 = Some (t, n, h2)" "fast_link h2"
    "(t + int n) * uint (bytespertick h) + tick_used h2 = tick_used h1 + sum_list (map uint ls)"
    using Cons.IH [OF d(2)] d(3) by auto
  have "(uint d + t + int (n + of_bool (exact_fit l h))) * uint (bytespertick h) + tick_used h2
      = tick_used h + (uint l + sum_list (map uint ls))"
    using d(4) t(3) by (auto simp: algebra_simps)
  then show ?case using d t by simp
qed auto

definition ex_fast :: "u32 hop" where
  "ex_fast = \<lparr>KBps = 100, delay = 10, plr = 0, qsize = 4, emulator = 0, bytespertick = 100, hop_id = 0,
     slotdepth = 0, bytedepth = 0, headslot = 0, fragment = 30, exittick = [0, 0, 0, 0], slotlen = [0, 0, 0, 0],
     pkts = 0, bytes = 0, qdrops = 0\<rparr>"

theorem burst_charges_bytes_witness:
  "\<exists>t n h'. send_burst 1000 [20, 10, 1500] ex_fast = Some (t, n, h') \<and> fast_link h' \<and>
     (t + int n) * uint (bytespertick ex_fast) + tick_used h' = tick_used ex_fast + sum_list (map uint [20, 10, 1500 :: u32])"
  by (rule burst_charges_bytes) (simp add: fast_link_def ex_fast_def)

end
