(* ===== verification/In_Flight.thy ===== *)
theory In_Flight
  imports Calendar "HOL-Library.Multiset"
begin

text \<open>
  Packets in flight: a memory of packets, the calendar that holds their addresses, and the buffer each
  packet owns. \<open>flight_ok held cal m buf ok\<close> says that the live packets are those in \<open>held\<close> (the
  code is working on them) and those in the calendar, each at one place, that no two share a buffer,
  and that each one in the calendar is \<open>ok\<close>. The lemmas say what the steps of an emulator do to
  that: touch the packet in hand, free it, put it into the calendar, take one out, accept a new one.
\<close>

definition flight_ok :: "'a list \<Rightarrow> 'a list list \<Rightarrow> ('a \<Rightarrow> 'p option) \<Rightarrow> ('p \<Rightarrow> 'b option) \<Rightarrow> ('p \<Rightarrow> bool) \<Rightarrow> bool" where
  "flight_ok held cal m buf ok \<longleftrightarrow> length cal = SCHEDLEN \<and> distinct (held @ concat cal) \<and>
     dom m = set (held @ concat cal) \<and> (\<forall>a p. m a = Some p \<and> a \<notin> set held \<longrightarrow> ok p) \<and>
     (\<forall>a b p q k. m a = Some p \<and> m b = Some q \<and> buf p = Some k \<and> buf q = Some k \<longrightarrow> a = b)"

definition flight_load :: "('p \<Rightarrow> nat) \<Rightarrow> 'a list list \<Rightarrow> ('a \<Rightarrow> 'p option) \<Rightarrow> nat" where
  "flight_load left cal m = sum_list (map (\<lambda>a. case m a of None \<Rightarrow> 0 | Some p \<Rightarrow> left p) (concat cal))"

text \<open>The buffers the packets own.\<close>

definition owned :: "('a \<Rightarrow> 'p option) \<Rightarrow> ('p \<Rightarrow> 'b option) \<Rightarrow> 'b set" where
  "owned m buf = {k. \<exists>a p. m a = Some p \<and> buf p = Some k}"

lemma flight_okI:
  assumes "length cal = SCHEDLEN" "distinct (held @ concat cal)" "\<And>a. m a \<noteq> None \<longleftrightarrow> a \<in> set (held @ concat cal)"
    and "\<And>a p. m a = Some p \<Longrightarrow> a \<notin> set held \<Longrightarrow> ok p"
    and "\<And>a b p q k. m a = Some p \<Longrightarrow> m b = Some q \<Longrightarrow> buf p = Some k \<Longrightarrow> buf q = Some k \<Longrightarrow> a = b"
  shows "flight_ok held cal m buf ok"
proof -
  have "dom m = set (held @ concat cal)" using assms(3) by (auto simp del: set_append set_concat)
  then show ?thesis using assms unfolding flight_ok_def by blast
qed

lemma flight_inj:
  "flight_ok held cal m buf ok \<Longrightarrow> m a = Some p \<Longrightarrow> m b = Some q \<Longrightarrow> buf p = Some k \<Longrightarrow> buf q = Some k \<Longrightarrow> a = b"
  unfolding flight_ok_def by blast

lemma flight_okD:
  assumes "flight_ok held cal m buf ok"
  shows "length cal = SCHEDLEN" "distinct (held @ concat cal)" "m a \<noteq> None \<longleftrightarrow> a \<in> set (held @ concat cal)"
    and "m a = Some p \<Longrightarrow> a \<notin> set held \<Longrightarrow> ok p"
proof -
  have d: "dom m = set (held @ concat cal)" using assms unfolding flight_ok_def by blast
  show "m a \<noteq> None \<longleftrightarrow> a \<in> set (held @ concat cal)" unfolding d [symmetric] by blast
  show "length cal = SCHEDLEN" "distinct (held @ concat cal)" "m a = Some p \<Longrightarrow> a \<notin> set held \<Longrightarrow> ok p"
    using assms unfolding flight_ok_def by blast+
qed

text \<open>Another packet than the one in hand has another buffer.\<close>

lemma flight_other:
  assumes "flight_ok [a] cal m buf ok" "m a = Some p" "m b = Some q" "b \<noteq> a"
    and "\<And>q. ok q \<Longrightarrow> buf p = None \<or> buf q \<noteq> buf p \<Longrightarrow> ok' q"
  shows "ok' q"
proof (rule assms(5))
  show "ok q" using flight_okD(4) [OF assms(1,3)] assms(4) by simp
  show "buf p = None \<or> buf q \<noteq> buf p"
    using flight_inj [OF assms(1,2,3)] assms(4) by (cases "buf p") auto
qed

lemma flight_card: "flight_ok held cal m buf ok \<Longrightarrow> card (dom m) = length held + length (concat cal)"
  unfolding flight_ok_def by (metis distinct_card length_append)

lemma flight_finite: "flight_ok held cal m buf ok \<Longrightarrow> finite (dom m)"
  unfolding flight_ok_def by simp

section \<open>The calendar\<close>

lemma slot_lt: "length cal = SCHEDLEN \<Longrightarrow> nat (cal_slot t) < length cal"
  using cal_slot_bounds [of t] by (simp add: SCHEDLEN_def)

lemma mset_snoc: "k < length cal \<Longrightarrow> mset (concat (cal[k := cal ! k @ [a]])) = add_mset a (mset (concat cal))"
  by (induction cal arbitrary: k) (auto simp: nth_Cons split: nat.splits)

lemma mset_tl: "k < length cal \<Longrightarrow> cal ! k = a # r \<Longrightarrow> mset (concat cal) = add_mset a (mset (concat (cal[k := r])))"
  by (induction cal arbitrary: k) (auto simp: nth_Cons split: nat.splits)

lemma cal_add_total:
  assumes "length cal = SCHEDLEN"
  obtains cal' where "cal_add t a cal = Some cal'" "length cal' = SCHEDLEN"
    "mset (concat cal') = add_mset a (mset (concat cal))"
proof -
  have "cal_add t a cal = Some (cal[nat (cal_slot t) := cal ! nat (cal_slot t) @ [a]])"
    using assms cal_slot_bounds [of t] by (simp add: cal_add_def array_ops SCHEDLEN_def)
  then show ?thesis using that mset_snoc [OF slot_lt [OF assms], of t a] assms by simp
qed

lemma cal_take_total:
  assumes "length cal = SCHEDLEN"
  obtains (empty) "cal ! nat (cal_slot t) = []" "cal_take t cal = Some (None, cal)"
  | (item) a cal' where "cal_take t cal = Some (Some a, cal')" "length cal' = SCHEDLEN"
    "mset (concat cal) = add_mset a (mset (concat cal'))"
proof (cases "cal ! nat (cal_slot t)")
  case Nil
  then show ?thesis using empty assms cal_slot_bounds [of t] by (simp add: cal_take_def array_ops SCHEDLEN_def)
next
  case (Cons a r)
  have "cal_take t cal = Some (Some a, cal[nat (cal_slot t) := r])"
    using assms Cons cal_slot_bounds [of t] by (simp add: cal_take_def array_ops SCHEDLEN_def)
  then show ?thesis using item mset_tl [OF slot_lt [OF assms] Cons] assms by simp
qed

section \<open>Steps\<close>

lemma flight_touch:
  assumes f: "flight_ok [a] cal m buf ok" and p: "m a = Some p" and b: "buf p' = buf p \<or> buf p' = None"
    and ok: "\<And>q. ok q \<Longrightarrow> buf p = None \<or> buf q \<noteq> buf p \<Longrightarrow> ok' q"
  shows "flight_ok [a] cal (m(a \<mapsto> p')) buf ok'"
proof (rule flight_okI)
  show "(m(a \<mapsto> p')) x \<noteq> None \<longleftrightarrow> x \<in> set ([a] @ concat cal)" for x
    using flight_okD(3) [OF f, of x] p by (cases "x = a") (simp_all del: not_None_eq)
  show "ok' q" if "(m(a \<mapsto> p')) x = Some q" "x \<notin> set [a]" for x q
    using flight_other [OF f p _ _ ok, of x q] that by simp
  have old: "\<exists>q'. m x = Some q' \<and> buf q' = Some k" if "(m(a \<mapsto> p')) x = Some q" "buf q = Some k" for x q k
    using that p b by (cases "x = a") auto
  show "x = y" if "(m(a \<mapsto> p')) x = Some q" "(m(a \<mapsto> p')) y = Some r" "buf q = Some k" "buf r = Some k" for x y q r k
    using old [OF that(1,3)] old [OF that(2,4)] flight_inj [OF f] by blast
qed (use flight_okD(1,2) [OF f] in simp_all)

lemma flight_drop:
  assumes f: "flight_ok [a] cal m buf ok" and p: "m a = Some p"
    and ok: "\<And>q. ok q \<Longrightarrow> buf p = None \<or> buf q \<noteq> buf p \<Longrightarrow> ok' q"
  shows "flight_ok [] cal (m(a := None)) buf ok'"
proof (rule flight_okI)
  show "(m(a := None)) x \<noteq> None \<longleftrightarrow> x \<in> set ([] @ concat cal)" for x
    using flight_okD(2) [OF f] flight_okD(3) [OF f, of x] by (cases "x = a") (simp_all del: not_None_eq)
  show "ok' q" if "(m(a := None)) x = Some q" for x q
    using flight_other [OF f p _ _ ok, of x q] that by (cases "x = a") simp_all
  show "x = y" if "(m(a := None)) x = Some q" "(m(a := None)) y = Some r" "buf q = Some k" "buf r = Some k" for x y q r k
    using that flight_inj [OF f, of x q y r k] by (cases "x = a"; cases "y = a") simp_all
qed (use flight_okD(1,2) [OF f] in simp_all)

lemma flight_queue:
  assumes f: "flight_ok [a] cal m buf ok" and p: "m a = Some p" "ok p"
    and c: "length cal' = SCHEDLEN" "mset (concat cal') = add_mset a (mset (concat cal))"
  shows "flight_ok [] cal' m buf ok"
proof -
  have ms: "mset (concat cal') = mset ([a] @ concat cal)" using c(2) by simp
  have d: "distinct (concat cal')" using mset_eq_imp_distinct_iff [OF ms] flight_okD(2) [OF f] by simp
  have s: "set (concat cal') = set ([a] @ concat cal)" by (rule mset_eq_setD [OF ms])
  show ?thesis
  proof (rule flight_okI)
    show "m x \<noteq> None \<longleftrightarrow> x \<in> set ([] @ concat cal')" for x
      using flight_okD(3) [OF f, of x] s by simp
    show "ok q" if "m x = Some q" for x q
      using that p flight_okD(4) [OF f] by (cases "x = a") auto
  qed (use c d flight_inj [OF f] in simp_all)
qed

lemma flight_take:
  assumes f: "flight_ok [] cal m buf ok" and c: "length cal' = SCHEDLEN" "mset (concat cal) = add_mset a (mset (concat cal'))"
  obtains p where "m a = Some p" "ok p" "flight_ok [a] cal' m buf ok"
proof -
  have ms: "mset (concat cal) = mset ([a] @ concat cal')" using c(2) by simp
  have d: "distinct ([a] @ concat cal')" using mset_eq_imp_distinct_iff [OF ms] flight_okD(2) [OF f] by simp
  have s: "set (concat cal) = set ([a] @ concat cal')" by (rule mset_eq_setD [OF ms])
  have "a \<in> set (concat cal)" unfolding s by simp
  then have "m a \<noteq> None" using flight_okD(3) [OF f, of a] by (simp del: set_concat)
  then obtain p where p: "m a = Some p" by blast
  have "flight_ok [a] cal' m buf ok"
  proof (rule flight_okI)
    show "m x \<noteq> None \<longleftrightarrow> x \<in> set ([a] @ concat cal')" for x
      using flight_okD(3) [OF f, of x] unfolding s [symmetric] append_Nil .
    show "ok q" if "m x = Some q" for x q
      using flight_okD(4) [OF f that(1)] by simp
  qed (use c d flight_inj [OF f] in simp_all)
  then show ?thesis using that p flight_okD(4) [OF f p] by simp
qed

lemma flight_new:
  assumes f: "flight_ok [] cal m buf ok" and a: "m a = None" and k: "\<And>k. buf p = Some k \<Longrightarrow> k \<notin> owned m buf"
  shows "flight_ok [a] cal (m(a \<mapsto> p)) buf ok"
proof (rule flight_okI)
  have n: "a \<notin> set (concat cal)" using flight_okD(3) [OF f, of a] a by simp
  then show "distinct ([a] @ concat cal)" using flight_okD(2) [OF f] by simp
  show "(m(a \<mapsto> p)) x \<noteq> None \<longleftrightarrow> x \<in> set ([a] @ concat cal)" for x
    using flight_okD(3) [OF f, of x] by simp
  show "ok q" if "(m(a \<mapsto> p)) x = Some q" "x \<notin> set [a]" for x q
    using flight_okD(4) [OF f, of x q] that by simp
  show "b = c" if "(m(a \<mapsto> p)) b = Some q" "(m(a \<mapsto> p)) c = Some r" "buf q = Some k" "buf r = Some k" for b c q r k
    using that assms(3) flight_inj [OF f, of b q c r k]
    by (cases "b = a"; cases "c = a") (auto simp: owned_def)
qed (use flight_okD(1) [OF f] in simp)

lemma flight_ok_cong: "(\<And>p. ok p \<Longrightarrow> ok' p) \<Longrightarrow> flight_ok held cal m buf ok \<Longrightarrow> flight_ok held cal m buf ok'"
  unfolding flight_ok_def by blast

section \<open>Load\<close>

lemma load_mset:
  "flight_load left cal m = sum_mset (image_mset (\<lambda>a. case m a of None \<Rightarrow> 0 | Some p \<Rightarrow> left p) (mset (concat cal)))"
  unfolding flight_load_def by (metis mset_map sum_mset_sum_list)

lemma load_add:
  "mset (concat cal') = add_mset a (mset (concat cal)) \<Longrightarrow> m a = Some p \<Longrightarrow>
   flight_load left cal' m = flight_load left cal m + left p"
  by (simp add: load_mset del: mset_concat)

lemma load_upd: "a \<notin> set (concat cal) \<Longrightarrow> flight_load left cal (m(a := x)) = flight_load left cal m"
  unfolding flight_load_def by (intro arg_cong [of _ _ sum_list] map_cong) auto

lemma held_out: "flight_ok [a] cal m buf ok \<Longrightarrow> a \<notin> set (concat cal)"
  by (simp add: flight_ok_def)

section \<open>Owned buffers\<close>

lemma owned_upd:
  assumes "flight_ok held cal m buf ok" "m a = Some p"
  shows "owned (m(a \<mapsto> p')) buf = owned m buf - set_option (buf p) \<union> set_option (buf p')"
  using flight_inj [OF assms(1) _ assms(2)] assms(2) unfolding owned_def
  by (auto split: if_splits) (metis option.inject)+

lemma owned_del:
  assumes "flight_ok held cal m buf ok" "m a = Some p"
  shows "owned (m(a := None)) buf = owned m buf - set_option (buf p)"
  using flight_inj [OF assms(1) _ assms(2)] assms(2) unfolding owned_def by (auto split: if_splits) (metis option.inject)+

lemma owned_new: "m a = None \<Longrightarrow> owned (m(a \<mapsto> p)) buf = owned m buf \<union> set_option (buf p)"
proof (intro set_eqI iffI)
  fix k assume "m a = None" "k \<in> owned (m(a \<mapsto> p)) buf"
  then show "k \<in> owned m buf \<union> set_option (buf p)" unfolding owned_def by (auto split: if_splits)
next
  fix k assume a: "m a = None" "k \<in> owned m buf \<union> set_option (buf p)"
  then consider b q where "m b = Some q" "buf q = Some k" | "buf p = Some k" unfolding owned_def by auto
  then show "k \<in> owned (m(a \<mapsto> p)) buf"
  proof cases
    case 1
    then have "(m(a \<mapsto> p)) b = Some q" using a(1) by (cases "b = a") simp_all
    then show ?thesis using 1(2) unfolding owned_def by blast
  next
    case 2
    have "(m(a \<mapsto> p)) a = Some p" by simp
    then show ?thesis using 2 unfolding owned_def by blast
  qed
qed

end
