(* ===== verification/Fb_Flow.thy ===== *)
theory Fb_Flow
  imports Fb_Core Lx_Flow In_Flight
begin

text \<open>
  The packet path of the FreeBSD module on one core: every hop of the tables is emulated here and
  carries no extended queue. \<open>fb_inv held s\<close> is the invariant, built on \<open>flight_ok\<close>; one step of
  a packet keeps it, keeps the books (\<open>books\<close>: blocks, the packet statistics, the mbuf chains that are
  not the module's) and shortens the way that is left, so the clock comes to an end.
\<close>

section \<open>One hop\<close>

definition fb_hop_ready :: "fb_hop \<Rightarrow> bool" where
  "fb_hop_ready h \<longleftrightarrow> bwq_wf h \<and> KBps h \<noteq> 0 \<and> \<bar>KBps h\<bar> \<le> 2 ^ 28 \<and> emulator h = 0 \<and> \<not> xq_callbacks (xtq h)"

lemma fb_bw_delay_total:
  assumes "KBps h \<noteq> 0" "\<bar>KBps h\<bar> \<le> 2 ^ 28"
  obtains d f where "fb_bw_delay HZ len h = Some (d, h\<lparr>fragment := f\<rparr>)"
proof -
  have "\<exists>l u f. use_fragment len h = (l, u, h\<lparr>fragment := f\<rparr>)"
  proof -
    consider "len < u32_of (fragment h)" | "\<not> len < u32_of (fragment h)" "fragment h \<noteq> 0"
      | "\<not> len < u32_of (fragment h)" "h = h\<lparr>fragment := fragment h\<rparr>" "fragment h = 0" by fastforce
    then show ?thesis
    proof cases
      case 3
      then have "use_fragment len h = (len, 0, h\<lparr>fragment := fragment h\<rparr>)" by (simp add: use_fragment_def)
      then show ?thesis by blast
    qed (simp_all add: use_fragment_def, blast+)
  qed
  then obtain l u f where u: "use_fragment len h = (l, u, h\<lparr>fragment := f\<rparr>)" by blast
  have "u32_of (s32 (1000 * KBps h)) \<noteq> 0" by (rule kbps_divisor [OF assms(2,1)])
  then have "fb_bw_delay HZ len h = Some
      (if l \<noteq> 0 \<and> 50 < bytespertick h then l div bytespertick h + u else (l * u32_of HZ) div u32_of (s32 (1000 * KBps h)),
       h\<lparr>fragment := (if l \<noteq> 0 \<and> 50 < bytespertick h \<and> l mod bytespertick h \<noteq> 0
         then sint (bytespertick h - l mod bytespertick h) else f)\<rparr>)"
    using u by (simp add: fb_bw_delay_def Let_def)
  then show ?thesis by (rule that)
qed

lemma bwq_add_total:
  assumes wf: "bwq_wf h" "bwq_room h" "new_slot h = Some n"
  obtains h' where "bwq_add n t l h = Some h'" "bwq_wf h'" "same_link h h'" "hop.more h' = hop.more h"
proof -
  obtain h' where h': "bwq_push t l h = Some h'" "bwq_wf h'" using bwq_push_spec [OF wf(1,2)] by blast
  have a: "bwq_add n t l h = Some h'" using h'(1) wf(3) by (simp add: bwq_push_def)
  then have "same_link h h'" "hop.more h' = hop.more h"
    by (auto simp: bwq_add_def same_link_def split: Option.bind_splits)
  then show ?thesis using that a h'(2) by blast
qed

lemma fb_queue_total:
  assumes rdy: "fb_hop_ready h" and room: "bwq_room h" and n: "new_slot h = Some n"
  obtains t z h' where "fb_queue HZ n cur len h = Some (t, z, h')" "fb_hop_ready h'"
proof -
  have wf: "bwq_wf h" and K: "KBps h \<noteq> 0" "\<bar>KBps h\<bar> \<le> 2 ^ 28" using rdy by (simp_all add: fb_hop_ready_def)
  define h1 where "h1 = (if slotdepth h = 0 then h\<lparr>fragment := 0\<rparr> else h)"
  define t1 where "t1 = (if bwq h = [] then cur else fst (last (bwq h)))"
  have "(if slotdepth h \<noteq> 0 then tail_exit h else Some cur) = Some t1"
    unfolding t1_def by (rule tail_or_now [OF wf])
  then have 1: "(if slotdepth h \<noteq> 0 then do { t \<leftarrow> tail_exit h; Some (t, h) } else Some (cur, h\<lparr>fragment := 0\<rparr>)) = Some (t1, h1)"
    by (auto simp: h1_def)
  have K1: "KBps h1 \<noteq> 0" "\<bar>KBps h1\<bar> \<le> 2 ^ 28" using K by (simp_all add: h1_def)
  obtain d f where d: "fb_bw_delay HZ len h1 = Some (d, h1\<lparr>fragment := f\<rparr>)" using fb_bw_delay_total [OF K1] by blast
  let ?h2 = "h1\<lparr>fragment := f\<rparr>"
  have w2: "bwq_wf ?h2" "bwq_room ?h2" "new_slot ?h2 = Some n"
    using wf room n by (simp_all add: h1_def bwq_room_def)
  obtain h' where h': "bwq_add n (t1 + d) (s32 (uint len)) ?h2 = Some h'" "bwq_wf h'" "same_link ?h2 h'" "hop.more h' = hop.more ?h2"
    using bwq_add_total [OF w2] by blast
  have x: "xtq h' = xtq h" using h'(4) by (cases h', cases h) (simp add: h1_def split: if_splits)
  have "fb_hop_ready h'" using h'(2,3) rdy x by (auto simp: fb_hop_ready_def same_link_def h1_def)
  then show ?thesis using that 1 K1(1) d h'(1) by (auto simp: fb_queue_def simp del: split_paired_Ex)
qed

section \<open>The invariant\<close>

text \<open>A path has at least one hop: the code reads the first one without a check.\<close>

definition one_core :: "fb \<Rightarrow> bool" where
  "one_core s \<longleftrightarrow> topo_wf s \<and> nodes_ok s \<and> paths_valid s \<and>
     (\<forall>tab hs. hoptable s = Some (tab, hs) \<longrightarrow> (\<forall>h \<in> set hs. fb_hop_ready h)) \<and>
     (\<forall>blk arr. path_mem s blk = Some arr \<longrightarrow> 2 \<le> length arr \<and> length arr < 2 ^ 32) \<and>
     length (pkt_seconds s) = 60 \<and> \<not> xcp_initialized s \<and> mc_pcache s = [] \<and> pending_xc s = [] \<and>
     hop_calendar s = Some (replicate SCHEDLEN [])"

text \<open>A packet that may go on: it stands at a place of an allocated path, \<open>fi_hop\<close> counts the hops
  behind it, past the first hop it has been queued for bandwidth and delay, and it has a chain.\<close>

definition pkt_fit :: "(nat \<Rightarrow> hop_ptr option list option) \<Rightarrow> (nat \<Rightarrow> mbuf option) \<Rightarrow> fb_packet \<Rightarrow> bool" where
  "pkt_fit pm mb p \<longleftrightarrow>
     (\<exists>blk i arr. fp_path p = Some (blk, int i) \<and> pm blk = Some arr \<and> i < length arr \<and>
        fi_hop (fp_info p) = word_of_nat i \<and> (0 < i \<longrightarrow> fp_state p = 3)) \<and>
     (\<exists>b. fp_m p = Some b \<and> mb b \<noteq> None) \<and> fp_cachehost p = 0 \<and> fi_id (fp_info p) = 0"

definition way_left :: "(nat \<Rightarrow> hop_ptr option list option) \<Rightarrow> fb_packet \<Rightarrow> nat" where
  "way_left pm p = (case fp_path p of None \<Rightarrow> 0 | Some (blk, i) \<Rightarrow>
     (case pm blk of None \<Rightarrow> 0 | Some arr \<Rightarrow> nat (int (length arr) - i)))"

definition fb_flight :: "u32 list \<Rightarrow> fb \<Rightarrow> bool" where
  "fb_flight held s \<longleftrightarrow> (\<exists>cal. fb_calendar s = Some cal \<and>
     flight_ok held cal (fb_pkts s) fp_m (pkt_fit (path_mem s) (mbufs s)))"

definition fb_inv :: "u32 list \<Rightarrow> fb \<Rightarrow> bool" where
  "fb_inv held s \<longleftrightarrow> one_core s \<and> fb_flight held s \<and>
     (\<forall>a \<in> set held. \<forall>p. fb_pkts s a = Some p \<longrightarrow> pkt_fit (path_mem s) (mbufs s) p)"

definition fb_load_of :: "fb \<Rightarrow> nat" where
  "fb_load_of s = (case fb_calendar s of None \<Rightarrow> 0 | Some cal \<Rightarrow> flight_load (way_left (path_mem s)) cal (fb_pkts s))"

text \<open>The books: blocks beside the packets, packets allocated and neither freed nor live, packets counted
  as queued beyond those in the calendar, chains that are not a packet's.\<close>

definition books :: "fb \<Rightarrow> int \<times> u32 \<times> u32 \<times> nat set" where
  "books s = (kmem s - int (card (dom (fb_pkts s))), pkt_allocs s - pkt_frees s - of_nat (card (dom (fb_pkts s))),
     queued s - of_nat (case fb_calendar s of None \<Rightarrow> 0 | Some cal \<Rightarrow> length (concat cal)),
     dom (mbufs s) - owned (fb_pkts s) fp_m)"

definition fb_same :: "fb \<Rightarrow> fb \<Rightarrow> bool" where
  "fb_same s s' \<longleftrightarrow> path_mem s' = path_mem s \<and> ticks s' = ticks s \<and> fb_tick s' = fb_tick s \<and> mn_mtx s' = mn_mtx s"

lemma fb_same_refl [simp]: "fb_same s s"
  by (simp add: fb_same_def)

lemma fb_same_trans: "fb_same s s1 \<Longrightarrow> fb_same s1 s2 \<Longrightarrow> fb_same s s2"
  by (simp add: fb_same_def)

text \<open>What a step of the packets leaves alone: the callers' pointers stay where they are, the packets
  that are still there point to the same ones, and a chain that is not the module's keeps its contents.\<close>

definition links_kept :: "fb \<Rightarrow> fb \<Rightarrow> bool" where
  "links_kept s s' \<longleftrightarrow> dom (handles s') = dom (handles s) \<and>
     (\<forall>a q. fb_pkts s' a = Some q \<longrightarrow> (\<exists>p. fb_pkts s a = Some p \<and> fp_handle q = fp_handle p)) \<and>
     owned (fb_pkts s') fp_m \<subseteq> owned (fb_pkts s) fp_m \<and>
     (\<forall>c. c \<notin> owned (fb_pkts s) fp_m \<longrightarrow> mbufs s' c = mbufs s c)"

text \<open>Every packet's pointer is still its caller's.\<close>

definition callers :: "fb \<Rightarrow> bool" where
  "callers s \<longleftrightarrow> (\<forall>a p. fb_pkts s a = Some p \<longrightarrow> handles s (fp_handle p) \<noteq> None)"

lemma links_trans:
  assumes "links_kept s s1" "links_kept s1 s2"
  shows "links_kept s s2"
proof -
  have "\<exists>p. fb_pkts s a = Some p \<and> fp_handle q = fp_handle p" if q: "fb_pkts s2 a = Some q" for a q
  proof -
    obtain p1 where "fb_pkts s1 a = Some p1" "fp_handle q = fp_handle p1" using q assms(2) unfolding links_kept_def by blast
    moreover have "\<exists>p. fb_pkts s a = Some p \<and> fp_handle p1 = fp_handle p"
      using \<open>fb_pkts s1 a = Some p1\<close> assms(1) unfolding links_kept_def by blast
    ultimately show ?thesis by simp
  qed
  moreover have "mbufs s2 c = mbufs s c" if "c \<notin> owned (fb_pkts s) fp_m" for c
  proof -
    have "c \<notin> owned (fb_pkts s1) fp_m" using that assms(1) unfolding links_kept_def by blast
    then have "mbufs s2 c = mbufs s1 c" using assms(2) unfolding links_kept_def by blast
    then show ?thesis using that assms(1) unfolding links_kept_def by simp
  qed
  moreover have "owned (fb_pkts s2) fp_m \<subseteq> owned (fb_pkts s) fp_m" "dom (handles s2) = dom (handles s)"
    using assms by (auto simp: links_kept_def)
  ultimately show ?thesis unfolding links_kept_def by blast
qed

lemma links_same: "handles s' = handles s \<Longrightarrow> fb_pkts s' = fb_pkts s \<Longrightarrow> mbufs s' = mbufs s \<Longrightarrow> links_kept s s'"
  by (simp add: links_kept_def)

lemma callers_linked: "links_kept s s' \<Longrightarrow> callers s \<Longrightarrow> callers s'"
  unfolding links_kept_def callers_def by (metis domIff)

lemma links_step:
  assumes "fb_pkts s a = Some p" "fb_pkts s' = (fb_pkts s)(a := x)" "dom (handles s') = dom (handles s)"
    and "\<And>q. x = Some q \<Longrightarrow> fp_handle q = fp_handle p \<and> (fp_m q = fp_m p \<or> fp_m q = None)"
    and "\<And>c. fp_m p \<noteq> Some c \<Longrightarrow> mbufs s' c = mbufs s c"
  shows "links_kept s s'"
proof -
  have "owned (fb_pkts s') fp_m \<subseteq> owned (fb_pkts s) fp_m"
    using assms(1,2,4) by (fastforce simp: owned_def split: if_splits)
  moreover have "mbufs s' c = mbufs s c" if "c \<notin> owned (fb_pkts s) fp_m" for c
    using that assms(1,5) by (auto simp: owned_def)
  moreover have "\<exists>p. fb_pkts s b = Some p \<and> fp_handle q = fp_handle p" if "fb_pkts s' b = Some q" for b q
    using that assms(1,2,4) by (auto split: if_splits)
  ultimately show ?thesis using assms(3) unfolding links_kept_def by blast
qed

lemma one_core_cong:
  assumes "pathtable s' = pathtable s" "nodecount s' = nodecount s" "path_mem s' = path_mem s"
    "next_addr s' = next_addr s" "hoptable s' = hoptable s" "hopcount s' = hopcount s"
    "nodetable s' = nodetable s" "length (pkt_seconds s') = length (pkt_seconds s)"
    "xcp_initialized s' = xcp_initialized s" "mc_pcache s' = mc_pcache s" "pending_xc s' = pending_xc s"
    "hop_calendar s' = hop_calendar s"
  shows "one_core s' = one_core s"
  unfolding one_core_def topo_wf_def paths_wf_def hops_wf_def nodes_ok_def
      paths_valid_def hop_ptr_ok_def deref_hop_def assms by (rule refl)

lemma one_core_store:
  assumes inv: "one_core s" and t: "hoptable s = Some (tab, hs)" and h: "fb_hop_ready h'"
  shows "one_core (s\<lparr>hoptable := Some (tab, hs[k := h'])\<rparr>)"
proof -
  let ?s = "s\<lparr>hoptable := Some (tab, hs[k := h'])\<rparr>"
  have "topo_wf ?s \<and> nodes_ok ?s" using inv t
    by (auto simp: one_core_def topo_wf_def paths_wf_def hops_wf_def nodes_ok_def split: option.splits)
  moreover have "\<forall>h \<in> set hs. fb_hop_ready h" using inv t by (simp add: one_core_def)
  then have "\<forall>h \<in> set (hs[k := h']). fb_hop_ready h"
    using h set_update_subset_insert [of hs k h'] by blast
  moreover have "hop_ptr_ok ?s hp = hop_ptr_ok s hp" for hp
    using t by (cases hp) (auto simp: hop_ptr_ok_def deref_hop_def aget_def)
  then have "paths_valid ?s" using inv by (auto simp: one_core_def paths_valid_def)
  ultimately show ?thesis using inv by (simp add: one_core_def)
qed

lemma one_core_hop: "one_core s \<Longrightarrow> deref_hop hp s = Some h \<Longrightarrow> fb_hop_ready h"
  by (erule deref_store) (auto simp: one_core_def)

lemma pkt_fit_cong: "(\<And>b. fp_m p = Some b \<Longrightarrow> mb b = None \<longleftrightarrow> mb' b = None) \<Longrightarrow> pkt_fit pm mb p = pkt_fit pm mb' p"
  unfolding pkt_fit_def by auto

section \<open>Crossing a hop\<close>

lemma fb_update_ready:
  assumes "fb_hop_ready h"
  obtains h' where "fb_update_bwq h t = Some h'" "fb_hop_ready h'" "new_slot h' = new_slot h" "KBps h' = KBps h"
    "qsize h' = qsize h" "xtq h' = xtq h"
proof -
  have wf: "bwq_wf h" using assms by (simp add: fb_hop_ready_def)
  obtain h' where h': "update_bwq h t = Some h'" "bwq_wf h'" using update_bwq_spec [OF wf, of t] by blast
  note fr = update_bwq_frame [OF h'(1) wf]
  have x: "xtq h' = xtq h" using fr by (cases h', cases h) simp
  have "fb_hop_ready h'" using fr x h'(2) assms by (simp add: fb_hop_ready_def)
  then show ?thesis using that h'(1) fr x new_slot_update [OF wf h'(1)] by (simp add: fb_update_bwq_def)
qed

lemma fb_hop_ready_stats [simp]:
  "fb_hop_ready (h\<lparr>qdrops := x\<rparr>) = fb_hop_ready h" "fb_hop_ready (h\<lparr>pkts := x, bytes := y\<rparr>) = fb_hop_ready h"
  by (simp_all add: fb_hop_ready_def)

definition hop_result :: "u32 \<Rightarrow> fb_packet \<Rightarrow> u32 list list \<Rightarrow> fb \<Rightarrow> int \<Rightarrow> fb \<Rightarrow> bool" where
  "hop_result a p cal s r s' \<longleftrightarrow>
     r \<noteq> 0 \<and> fb_pkts s' = fb_pkts s \<and> fb_calendar s' = Some cal \<and> queued s' = queued s \<or>
     r = 0 \<and> fb_pkts s' = (fb_pkts s)(a \<mapsto> p\<lparr>fp_state := 3\<rparr>) \<and> queued s' = queued s + 1 \<and>
       (\<exists>cal'. fb_calendar s' = Some cal' \<and> length cal' = SCHEDLEN \<and> mset (concat cal') = add_mset a (mset (concat cal)))"

definition hop_frame :: "fb \<Rightarrow> fb \<Rightarrow> bool" where
  "hop_frame s s' \<longleftrightarrow> fb_same s s' \<and> mbufs s' = mbufs s \<and> kmem s' = kmem s \<and> pkt_allocs s' = pkt_allocs s \<and>
     pkt_frees s' = pkt_frees s \<and> cells s' = cells s \<and> cell_pos s' = cell_pos s \<and> handles s' = handles s"

lemma fb_emulate_hop_spec:
  assumes oc: "one_core s" and p: "fb_pkts s a = Some p" and h: "deref_hop hp s = Some h"
    and cal: "fb_calendar s = Some cal" "length cal = SCHEDLEN"
  obtains r s' where "fb_emulate_hop k a hp s = Some (r, s')" "one_core s'" "hop_frame s s'"
    "hop_result a p cal s r s'" "\<exists>h'. deref_hop hp s' = Some h' \<and> emulator h' = 0"
proof -
  obtain tab i hs where st: "hp = Hop_Ptr tab i" "hoptable s = Some (tab, hs)" "0 \<le> i" "i < int (length hs)" "h = hs ! nat i"
    using deref_store [OF h] by metis
  have rdy: "fb_hop_ready h" by (rule one_core_hop [OF oc h])
  have em: "emulator h = 0" and K: "KBps h \<noteq> 0" using rdy by (simp_all add: fb_hop_ready_def)
  obtain n where n: "new_slot h = Some n" using rdy new_slot_Some by (auto simp: fb_hop_ready_def)
  define x where "x = (if plr h \<noteq> 0 then random_out s (random_pos s) else 0)"
  define rp where "rp = (if plr h \<noteq> 0 then random_pos s + 1 else random_pos s)"
  have rnd: "(if plr h \<noteq> 0 then random s else (0, s)) = (x, s\<lparr>random_pos := rp\<rparr>)"
    by (simp add: random_def x_def rp_def)
  let ?s1 = "s\<lparr>random_pos := rp\<rparr>"
  have oc1: "one_core ?s1" using oc by (subst one_core_cong [of _ s]) simp_all
  let ?put = "\<lambda>g. ?s1\<lparr>hoptable := Some (tab, hs[nat i := g])\<rparr>"
  have ocp: "one_core (?put g)" if "fb_hop_ready g" for g
    using one_core_store [OF oc1 _ that, of tab hs "nat i"] st(2) by simp
  obtain h1 where h1: "fb_update_bwq h (fb_tick s) = Some h1" "fb_hop_ready h1" "new_slot h1 = new_slot h" "KBps h1 = KBps h"
    "qsize h1 = qsize h" "xtq h1 = xtq h" using fb_update_ready [OF rdy] by blast
  have fr: "hop_frame s (?put g)" "hop_frame s ?s1" for g by (simp_all add: hop_frame_def fb_same_def)
  define lost where "lost \<longleftrightarrow> fb_plr_drops (plr h) x"
  have run: "fb_emulate_hop k a hp s =
      (if lost then Some (FB_ENOBUFS, ?s1)
       else if qsize h1 \<le> slotdepth h1 then do {
         s2 \<leftarrow> store_hop hp (h1\<lparr>qdrops := s32 (qdrops h1 + 1)\<rparr>) ?s1;
         Some (FB_ENOBUFS, s2) }
       else do {
         p \<leftarrow> fb_pkts ?s1 a;
         let len = fi_len (fp_info p);
         s2 \<leftarrow> store_hop hp (h1\<lparr>pkts := s32 (pkts h1 + 1), bytes := s32 (bytes h1 + uint len)\<rparr>)
             (?s1\<lparr>queued := queued ?s1 + 1\<rparr>);
         s3 \<leftarrow> (if xq_callbacks (xtq h1) then xtq_enqueue k hp a s2 else Some s2);
         h3 \<leftarrow> deref_hop hp s3;
         (tailexit, zero, h4) \<leftarrow> fb_queue (hz k) n (fb_tick s3) len h3;
         s4 \<leftarrow> store_hop hp h4 s3;
         s5 \<leftarrow> upd_fpkt a (\<lambda>q. q\<lparr>fp_state := 3\<rparr>) (s4\<lparr>delay_zeros := delay_zeros s4 + (if zero then 1 else 0)\<rparr>);
         cal \<leftarrow> fb_calendar s5;
         cal' \<leftarrow> cal_add (tailexit + word_of_int (delay h4)) a cal;
         Some (0, s5\<lparr>fb_calendar := Some cal'\<rparr>) })"
    unfolding fb_emulate_hop_def h n Option.bind.bind_lunit rnd lost_def using K h1(1) by simp
  consider "lost" | "\<not> lost" "qsize h1 \<le> slotdepth h1" | "\<not> lost" "bwq_room h1" by (force simp: bwq_room_def)
  then show ?thesis
  proof cases
    case 1
    have "fb_emulate_hop k a hp s = Some (FB_ENOBUFS, ?s1)" using run 1 by simp
    moreover have "deref_hop hp ?s1 = Some h" using h st by (simp add: deref_hop_def)
    moreover have "hop_result a p cal s FB_ENOBUFS ?s1" using cal by (simp add: hop_result_def FB_ENOBUFS_def)
    ultimately show ?thesis using that oc1 fr(2) em by blast
  next
    case 2
    let ?g = "h1\<lparr>qdrops := s32 (qdrops h1 + 1)\<rparr>"
    have "fb_emulate_hop k a hp s = Some (FB_ENOBUFS, ?put ?g)"
      using run 2 st by (simp add: store_hop_def array_ops)
    moreover have "deref_hop hp (?put ?g) = Some ?g" using st by (simp add: deref_hop_def array_ops)
    moreover have "hop_result a p cal s FB_ENOBUFS (?put ?g)" using cal by (simp add: hop_result_def FB_ENOBUFS_def)
    moreover have "fb_hop_ready ?g" "emulator ?g = 0" using h1(2) by (simp_all add: fb_hop_ready_def)
    ultimately show ?thesis using that ocp [of ?g] fr(1) by blast
  next
    case 3
    let ?l = "fi_len (fp_info p)"
    let ?h3 = "h1\<lparr>pkts := s32 (pkts h1 + 1), bytes := s32 (bytes h1 + uint ?l)\<rparr>"
    have h3: "fb_hop_ready ?h3" "bwq_room ?h3" "new_slot ?h3 = Some n"
      using h1 3(2) n by (simp_all add: bwq_room_def)
    obtain t z h4 where q: "fb_queue (hz k) n (fb_tick s) ?l ?h3 = Some (t, z, h4)" "fb_hop_ready h4"
      using fb_queue_total [OF h3] by blast
    obtain cal' where c': "cal_add (t + word_of_int (delay h4)) a cal = Some cal'" "length cal' = SCHEDLEN"
      "mset (concat cal') = add_mset a (mset (concat cal))" using cal_add_total [OF cal(2)] by blast
    let ?s' = "(?put h4)\<lparr>queued := queued s + 1, delay_zeros := delay_zeros s + (if z then 1 else 0),
        fb_pkts := (fb_pkts s)(a \<mapsto> p\<lparr>fp_state := 3\<rparr>), fb_calendar := Some cal'\<rparr>"
    have nq: "\<not> qsize h1 \<le> slotdepth h1" using 3(2) by (simp add: bwq_room_def)
    have nx: "\<not> xq_callbacks (xtq h1)" using h1(2) by (simp add: fb_hop_ready_def)
    have "fb_emulate_hop k a hp s = Some (0, ?s')"
      using run 3(1) nq nx st p q(1) c'(1) cal(1)
      by (simp add: store_hop_def deref_hop_def array_ops upd_fpkt_def Let_def)
    moreover have "deref_hop hp ?s' = Some h4" using st by (simp add: deref_hop_def array_ops)
    moreover have "hop_result a p cal s 0 ?s'" using c' by (simp add: hop_result_def)
    moreover have "one_core ?s'" using ocp [OF q(2)] by (subst one_core_cong [of _ "?put h4"]) simp_all
    moreover have "hop_frame s ?s'" by (simp add: hop_frame_def fb_same_def)
    moreover have "emulator h4 = 0" using q(2) by (simp add: fb_hop_ready_def)
    ultimately show ?thesis using that by blast
  qed
qed

section \<open>Freeing and forwarding the packet in hand\<close>

lemma flight_cal:
  assumes "fb_flight held s"
  obtains cal where "fb_calendar s = Some cal" "length cal = SCHEDLEN"
    "flight_ok held cal (fb_pkts s) fp_m (pkt_fit (path_mem s) (mbufs s))"
  using assms flight_okD(1) unfolding fb_flight_def by blast

lemma card_drop: "finite (dom m) \<Longrightarrow> m a = Some p \<Longrightarrow> int (card (dom (m(a := None)))) = int (card (dom m)) - 1"
proof -
  assume f: "finite (dom m)" and a: "m a = Some p"
  have i: "a \<in> dom m" using a by blast
  then have "0 < card (dom m)" using f card_gt_0_iff by blast
  then show ?thesis using f i by simp
qed

lemma fb_free_spec:
  assumes oc: "one_core s" and fl: "fb_flight [a] s" and p: "fb_pkts s a = Some p"
    and live: "\<And>b. fp_m p = Some b \<Longrightarrow> mbufs s b \<noteq> None"
    and caller: "handles s (fp_handle p) \<noteq> None \<or> fb_free_pkt a s \<noteq> None"
  obtains s' where "fb_free_pkt a s = Some s'" "one_core s'" "fb_flight [] s'" "fb_same s s'"
    "fb_load_of s' = fb_load_of s" "books s' = books s" "fb_pkts s' = (fb_pkts s)(a := None)" "links_kept s s'"
proof -
  obtain cal where cal: "fb_calendar s = Some cal" "length cal = SCHEDLEN"
    "flight_ok [a] cal (fb_pkts s) fp_m (pkt_fit (path_mem s) (mbufs s))" using flight_cal [OF fl] by blast
  define mb where "mb = (case fp_m p of None \<Rightarrow> mbufs s | Some b \<Rightarrow> (mbufs s)(b := None))"
  define H where "H = (handles s)(fp_handle p \<mapsto> None)"
  let ?s' = "s\<lparr>mbufs := mb, handles := H, fb_pkts := (fb_pkts s)(a := None),
      kmem := kmem s - 1, pkt_frees := pkt_frees s + 1\<rparr>"
  have m: "(case fp_m p of None \<Rightarrow> Some s | Some k \<Rightarrow> m_freem k s) = Some (s\<lparr>mbufs := mb\<rparr>)"
    using live by (cases "fp_m p") (auto simp: mb_def m_freem_def)
  have c: "handles s (fp_handle p) \<noteq> None"
    using caller p m by (auto simp: fb_free_pkt_def null_handle_def split: if_splits)
  have run: "fb_free_pkt a s = Some ?s'" using p m c by (simp add: fb_free_pkt_def null_handle_def H_def)
  have keep: "links_kept s ?s'"
    by (rule links_step [where x = None, OF p]) (use c in \<open>auto simp: H_def mb_def split: option.splits\<close>)
  have fit: "pkt_fit (path_mem s) mb q" if "pkt_fit (path_mem s) (mbufs s) q" "fp_m p = None \<or> fp_m q \<noteq> fp_m p" for q
    using that by (subst pkt_fit_cong [of q _ "mbufs s"]) (auto simp: mb_def split: option.splits)
  have "flight_ok [] cal ((fb_pkts s)(a := None)) fp_m (pkt_fit (path_mem s) mb)"
    by (rule flight_drop [OF cal(3) p fit])
  then have "fb_flight [] ?s'" using cal(1) by (simp add: fb_flight_def)
  moreover have "one_core ?s'" using oc by (subst one_core_cong [of _ s]) simp_all
  moreover have "fb_load_of ?s' = fb_load_of s"
    using load_upd [OF held_out [OF cal(3)]] cal(1) by (simp add: fb_load_of_def)
  moreover have "books ?s' = books s"
  proof -
    note c = card_drop [OF flight_finite [OF cal(3)] p]
    have "(of_nat (card (dom ((fb_pkts s)(a := None)))) :: u32) = of_nat (card (dom (fb_pkts s))) - 1"
      using arg_cong [OF c, of "of_int :: int \<Rightarrow> u32"] by simp
    moreover have "dom mb - owned ((fb_pkts s)(a := None)) fp_m = dom (mbufs s) - owned (fb_pkts s) fp_m"
      unfolding owned_del [OF cal(3) p]
      using p by (cases "fp_m p") (auto simp: mb_def owned_def)
    ultimately show ?thesis using c cal(1) by (simp add: books_def del: dom_fun_upd)
  qed
  moreover have "fb_same s ?s'" by (simp add: fb_same_def)
  ultimately show ?thesis using that run keep by simp
qed

lemma fb_forward_spec:
  assumes oc: "one_core s" and fl: "fb_flight [a] s" and p: "fb_pkts s a = Some p" "fp_m p = Some b" "fp_cachehost p = 0"
    and live: "mbufs s b = Some m" and hz: "hz k \<noteq> 0"
  obtains s' where "fb_forward_packet k a s = Some s'" "one_core s'" "fb_flight [a] s'" "fb_same s s'"
    "fb_load_of s' = fb_load_of s" "books s' = books s" "fb_pkts s' = (fb_pkts s)(a \<mapsto> p\<lparr>fp_m := None\<rparr>)"
    "forwarded s' = forwarded s @ [m]" "handles s' = handles s" "links_kept s s'"
proof -
  obtain cal where cal: "fb_calendar s = Some cal" "length cal = SCHEDLEN"
    "flight_ok [a] cal (fb_pkts s) fp_m (pkt_fit (path_mem s) (mbufs s))" using flight_cal [OF fl] by blast
  define i where "i = uint (u32_of (ticks s sdiv hz k) mod 60)"
  have "i = uint (u32_of (ticks s sdiv hz k)) mod 60" by (simp add: i_def uint_mod)
  then have i: "0 \<le> i" "i < 60" by simp_all
  have len: "length (pkt_seconds s) = 60" using oc by (simp add: one_core_def)
  have nx: "\<not> xcp_initialized s" using oc by (simp add: one_core_def)
  let ?s' = "s\<lparr>mbufs := (mbufs s)(b := None), forwarded := forwarded s @ [m],
       fb_pkts := (fb_pkts s)(a \<mapsto> p\<lparr>fp_m := None\<rparr>),
       pkt_seconds := (pkt_seconds s)[nat i := s32 (pkt_seconds s ! nat i + 1)]\<rparr>"
  have run: "fb_forward_packet k a s = Some ?s'"
    using p live hz nx i len by (simp add: fb_forward_packet_def cdiv_def i_def [symmetric] array_ops)
  have fit: "pkt_fit (path_mem s) ((mbufs s)(b := None)) q"
    if "pkt_fit (path_mem s) (mbufs s) q" "fp_m p = None \<or> fp_m q \<noteq> fp_m p" for q
    using that p(2) by (subst pkt_fit_cong [of q _ "mbufs s"]) auto
  have "flight_ok [a] cal ((fb_pkts s)(a \<mapsto> p\<lparr>fp_m := None\<rparr>)) fp_m (pkt_fit (path_mem s) ((mbufs s)(b := None)))"
    by (rule flight_touch [OF cal(3) p(1) _ fit]) simp_all
  then have "fb_flight [a] ?s'" using cal(1) by (simp add: fb_flight_def)
  moreover have "one_core ?s'" using oc by (subst one_core_cong [of _ s]) simp_all
  moreover have "fb_load_of ?s' = fb_load_of s"
    using load_upd [OF held_out [OF cal(3)]] cal(1) by (simp add: fb_load_of_def)
  moreover have "books ?s' = books s"
  proof -
    have "dom ((fb_pkts s)(a \<mapsto> p\<lparr>fp_m := None\<rparr>)) = dom (fb_pkts s)" using p(1) by auto
    moreover have "dom ((mbufs s)(b := None)) - owned ((fb_pkts s)(a \<mapsto> p\<lparr>fp_m := None\<rparr>)) fp_m
        = dom (mbufs s) - owned (fb_pkts s) fp_m"
      unfolding owned_upd [OF cal(3) p(1)] using p by (auto simp: owned_def)
    ultimately show ?thesis using cal(1) by (simp add: books_def del: dom_fun_upd)
  qed
  moreover have "fb_same s ?s'" by (simp add: fb_same_def)
  moreover have "links_kept s ?s'"
    by (rule links_step [where x = "Some (p\<lparr>fp_m := None\<rparr>)", OF p(1)]) (use p(2) in auto)
  ultimately show ?thesis using that run by simp
qed

section \<open>One step of a packet\<close>

lemma fb_path_at:
  assumes oc: "one_core s" and arr: "path_mem s blk = Some arr" "i < length arr"
  shows "arr ! i = None \<longleftrightarrow> i = length arr - 1" "arr ! i = Some hp \<Longrightarrow> \<exists>h. deref_hop hp s = Some h \<and> fb_hop_ready h"
proof -
  obtain hps where h: "arr = map Some hps @ [None]" "\<forall>hp \<in> set hps. hop_ptr_ok s hp"
    using oc arr(1) unfolding one_core_def paths_valid_def by blast
  then show "arr ! i = None \<longleftrightarrow> i = length arr - 1" using arr(2) by (auto simp: nth_append)
  assume "arr ! i = Some hp"
  then have "hp \<in> set hps" using h(1) arr(2) by (auto simp: nth_append split: if_splits)
  then show "\<exists>h. deref_hop hp s = Some h \<and> fb_hop_ready h"
    using h(2) one_core_hop [OF oc] by (force simp: hop_ptr_ok_def)
qed

lemma leave_nothing:
  assumes oc: "one_core s" and p: "fb_pkts s a = Some p" and fit: "pkt_fit (path_mem s) mb p"
  shows "leave_prev_hop k a s = Some (False, s)"
proof -
  obtain blk i arr where f: "fp_path p = Some (blk, int i)" "path_mem s blk = Some arr" "i < length arr"
    "fi_hop (fp_info p) = word_of_nat i" "0 < i \<longrightarrow> fp_state p = 3" using fit by (auto simp: pkt_fit_def)
  show ?thesis
  proof (cases "i = 0")
    case True
    then show ?thesis using p f(4) by (simp add: leave_prev_hop_def)
  next
    case False
    have j: "i - 1 < length arr" using f(3) by simp
    then have "arr ! (i - 1) \<noteq> None" using fb_path_at(1) [OF oc f(2) j] False f(3) by linarith
    then obtain hp where hp: "arr ! (i - 1) = Some hp" by blast
    then obtain h where h: "deref_hop hp s = Some h" "fb_hop_ready h" using fb_path_at(2) [OF oc f(2) j] by blast
    have "aget arr (int i - 1) = Some (Some hp)" using False f(3) hp by (simp add: aget_def nat_diff_distrib)
    moreover have "bit (3::int) 0" "bit (3::int) 1" by simp_all
    ultimately show ?thesis using p f False h by (simp add: leave_prev_hop_def fb_hop_ready_def)
  qed
qed

definition advanced :: "fb_packet \<Rightarrow> fb_packet" where
  "advanced q = q\<lparr>fp_path := map_option (apsnd (\<lambda>j. j + 1)) (fp_path q),
         fp_info := (fp_info q)\<lparr>fi_hop := fi_hop (fp_info q) + 1\<rparr>\<rparr>"

lemma advanced_simps [simp]:
  "fp_m (advanced q) = fp_m q" "fp_handle (advanced q) = fp_handle q" "fp_cachehost (advanced q) = fp_cachehost q" "fi_id (fp_info (advanced q)) = fi_id (fp_info q)"
  by (simp_all add: advanced_def)

lemma cross_dropped:
  assumes i: "one_core s1" "hop_frame s s1" "hop_result a p cal s r s1" "r \<noteq> 0"
    and inv: "fb_flight [a] s" "fb_calendar s = Some cal" "fb_pkts s a = Some p" "pkt_fit (path_mem s) (mbufs s) p"
    and caller: "handles s (fp_handle p) \<noteq> None \<or> fb_free_pkt a (s1\<lparr>fb_pkts := (fb_pkts s1)(a \<mapsto> advanced p)\<rparr>) \<noteq> None"
  obtains s' where "fb_free_pkt a (s1\<lparr>fb_pkts := (fb_pkts s1)(a \<mapsto> advanced p)\<rparr>) = Some s'" "fb_inv [] s'" "fb_same s s'"
    "books s' = books s" "fb_load_of s' = fb_load_of s" "links_kept s s'"
proof -
  let ?s2 = "s1\<lparr>fb_pkts := (fb_pkts s1)(a \<mapsto> advanced p)\<rparr>"
  have e: "fb_pkts s1 = fb_pkts s" "fb_calendar s1 = Some cal" "queued s1 = queued s" using i(3,4) by (auto simp: hop_result_def)
  have fr: "path_mem s1 = path_mem s" "mbufs s1 = mbufs s" "kmem s1 = kmem s" "pkt_allocs s1 = pkt_allocs s"
    "pkt_frees s1 = pkt_frees s" "fb_same s s1" "handles s1 = handles s" using i(2) by (simp_all add: hop_frame_def fb_same_def)
  obtain cal2 where f: "flight_ok [a] cal (fb_pkts s) fp_m (pkt_fit (path_mem s) (mbufs s))"
    using flight_cal [OF inv(1)] inv(2) by auto
  have "flight_ok [a] cal ((fb_pkts s)(a \<mapsto> advanced p)) fp_m (pkt_fit (path_mem s) (mbufs s))"
    by (rule flight_touch [OF f inv(3)]) simp_all
  then have 1: "fb_flight [a] ?s2" using e fr by (simp add: fb_flight_def)
  have 2: "one_core ?s2" using i(1) by (subst one_core_cong [of _ s1]) simp_all
  have 3: "fb_pkts ?s2 a = Some (advanced p)" by simp
  obtain s' where s': "fb_free_pkt a ?s2 = Some s'" "one_core s'" "fb_flight [] s'" "fb_same ?s2 s'"
    "fb_load_of s' = fb_load_of ?s2" "books s' = books ?s2" "links_kept ?s2 s'"
    by (rule fb_free_spec [OF 2 1 3]) (use inv(4) fr caller in \<open>auto simp: pkt_fit_def\<close>)
  have "links_kept s ?s2" by (rule links_step [where x = "Some (advanced p)", OF inv(3)]) (use e fr in auto)
  then have "links_kept s s'" using s'(7) links_trans by blast
  have "dom ((fb_pkts s)(a \<mapsto> advanced p)) = dom (fb_pkts s)" using inv(3) by auto
  moreover have "owned ((fb_pkts s)(a \<mapsto> advanced p)) fp_m = owned (fb_pkts s) fp_m"
    unfolding owned_upd [OF f inv(3)] using inv(3) by (cases "fp_m p") (auto simp: owned_def)
  ultimately have "books ?s2 = books s" using e fr inv(2) by (simp add: books_def del: dom_fun_upd)
  moreover have "fb_load_of ?s2 = fb_load_of s"
    using e fr inv(2) load_upd [OF held_out [OF f]] by (simp add: fb_load_of_def)
  moreover have "fb_same s ?s2" using fr(6) by (simp add: fb_same_def)
  ultimately show ?thesis using that s' fb_same_trans \<open>links_kept s s'\<close> by (simp add: fb_inv_def)
qed

lemma cross_queued:
  assumes i: "one_core s1" "hop_frame s s1" "hop_result a p cal s 0 s1"
    and inv: "fb_flight [a] s" "fb_calendar s = Some cal" "fb_pkts s a = Some p" "pkt_fit (path_mem s) (mbufs s) p"
    and hop: "fp_path p = Some (blk, int j)" "path_mem s blk = Some arr" "j < length arr" "arr ! j \<noteq> None"
    and s2: "s2 = s1\<lparr>fb_pkts := (fb_pkts s1)(a \<mapsto> advanced (p\<lparr>fp_state := 3\<rparr>))\<rparr>"
  shows "fb_inv [] s2 \<and> fb_same s s2 \<and> books s2 = books s \<and> fb_load_of s2 < fb_load_of s + way_left (path_mem s) p \<and> links_kept s s2"
proof -
  let ?q = "advanced (p\<lparr>fp_state := 3\<rparr>)"
  obtain cal' where e: "fb_pkts s1 = (fb_pkts s)(a \<mapsto> p\<lparr>fp_state := 3\<rparr>)" "queued s1 = queued s + 1"
    "fb_calendar s1 = Some cal'" "length cal' = SCHEDLEN" "mset (concat cal') = add_mset a (mset (concat cal))"
    using i(3) by (auto simp: hop_result_def)
  have fr: "path_mem s1 = path_mem s" "mbufs s1 = mbufs s" "kmem s1 = kmem s" "pkt_allocs s1 = pkt_allocs s"
    "pkt_frees s1 = pkt_frees s" "fb_same s s1" "handles s1 = handles s" using i(2) by (simp_all add: hop_frame_def fb_same_def)
  have f: "flight_ok [a] cal (fb_pkts s) fp_m (pkt_fit (path_mem s) (mbufs s))"
    using flight_cal [OF inv(1)] inv(2) by auto
  have m: "fb_pkts s2 = (fb_pkts s)(a \<mapsto> ?q)" using s2 e(1) by simp
  have "arr ! j = None \<longleftrightarrow> j = length arr - 1"
    using fb_path_at(1) [OF i(1), of blk arr j] fr(1) hop(2,3) by simp
  then have j: "Suc j < length arr" using hop(3,4) by linarith
  have fit: "pkt_fit (path_mem s) (mbufs s) ?q"
    using inv(4) hop(1,2) j by (auto simp: pkt_fit_def advanced_def intro!: exI [of _ blk] exI [of _ "Suc j"])
  have g: "flight_ok [a] cal (fb_pkts s2) fp_m (pkt_fit (path_mem s) (mbufs s))"
    unfolding m by (rule flight_touch [OF f inv(3)]) simp_all
  have a2: "fb_pkts s2 a = Some ?q" by (simp add: m)
  have m2: "path_mem s2 = path_mem s" "mbufs s2 = mbufs s" "fb_calendar s2 = Some cal'" using fr e(3) s2 by simp_all
  have "fb_flight [] s2" using flight_queue [OF g a2 fit e(4,5)] m2 unfolding fb_flight_def by simp
  moreover have "one_core s2" using i(1) unfolding s2 by (subst one_core_cong [of _ s1]) simp_all
  moreover have "fb_same s s2" using fr(6) by (simp add: fb_same_def s2)
  moreover have "books s2 = books s"
  proof -
    have "dom ((fb_pkts s)(a \<mapsto> ?q)) = dom (fb_pkts s)" using inv(3) by auto
    moreover have "owned ((fb_pkts s)(a \<mapsto> ?q)) fp_m = owned (fb_pkts s) fp_m"
      unfolding owned_upd [OF f inv(3)] using inv(3) by (cases "fp_m p") (auto simp: owned_def)
    moreover have "length (concat cal') = Suc (length (concat cal))"
      using arg_cong [OF e(5), of size] by (simp del: mset_concat)
    ultimately show ?thesis using m e s2 fr inv(2) by (simp add: books_def del: dom_fun_upd length_concat)
  qed
  moreover have "fb_load_of s2 = fb_load_of s + way_left (path_mem s) ?q"
    using load_add [where m = "fb_pkts s2", OF e(5) a2] load_upd [OF held_out [OF f]] e(3) fr(1) s2 inv(2) m by (simp add: fb_load_of_def)
  moreover have "way_left (path_mem s) ?q < way_left (path_mem s) p"
    using hop(1,2) j by (simp add: way_left_def advanced_def)
  moreover have "links_kept s s2" by (rule links_step [where x = "Some ?q", OF inv(3) m]) (use s2 fr in simp_all)
  ultimately show ?thesis by (simp add: fb_inv_def)
qed

lemma fb_emulate_nexthop_spec:
  assumes inv: "fb_inv [a] s" and p: "fb_pkts s a = Some p" and hz: "hz k \<noteq> 0"
    and caller: "handles s (fp_handle p) \<noteq> None \<or> fb_emulate_nexthop k a s \<noteq> None"
  obtains s' where "fb_emulate_nexthop k a s = Some s'" "fb_inv [] s'" "fb_same s s'" "books s' = books s"
    "fb_load_of s' < fb_load_of s + way_left (path_mem s) p" "links_kept s s'"
proof -
  have oc: "one_core s" and fl: "fb_flight [a] s" and fit: "pkt_fit (path_mem s) (mbufs s) p"
    using inv p by (simp_all add: fb_inv_def)
  obtain blk i arr where f: "fp_path p = Some (blk, int i)" "path_mem s blk = Some arr" "i < length arr"
    "fi_hop (fp_info p) = word_of_nat i" using fit by (auto simp: pkt_fit_def)
  obtain b m where b: "fp_m p = Some b" "mbufs s b = Some m" using fit by (auto simp: pkt_fit_def)
  have home: "fp_cachehost p = 0" "fi_id (fp_info p) = 0" using fit by (simp_all add: pkt_fit_def)
  obtain cal where cal: "fb_calendar s = Some cal" "length cal = SCHEDLEN" using flight_cal [OF fl] by blast
  have size: "2 \<le> length arr" "length arr < 2 ^ 32" using oc f(2) by (auto simp: one_core_def)
  have g: "aget arr (int i) = Some (arr ! i)" using f(3) by (simp add: array_ops)
  have left: "0 < way_left (path_mem s) p" using f by (simp add: way_left_def)
  note lv = leave_nothing [OF oc p fit]
  show ?thesis
  proof (cases "arr ! i")
    case None
    then have "i = length arr - 1" using fb_path_at(1) [OF oc f(2,3)] by simp
    then have "0 < i" using size by simp
    then have nz: "fi_hop (fp_info p) \<noteq> 0"
      using f(3,4) size by (auto simp: word_of_nat_eq_0_iff dest: nat_dvd_not_less)
    obtain s1 where s1: "fb_forward_packet k a s = Some s1" "one_core s1" "fb_flight [a] s1" "fb_same s s1"
      "fb_load_of s1 = fb_load_of s" "books s1 = books s" "fb_pkts s1 = (fb_pkts s)(a \<mapsto> p\<lparr>fp_m := None\<rparr>)"
      "handles s1 = handles s" "links_kept s s1"
      by (rule fb_forward_spec [OF oc fl p b(1) home(1) b(2) hz])
    have p1: "fb_pkts s1 a = Some (p\<lparr>fp_m := None\<rparr>)" by (simp add: s1(7))
    have last: "fb_emulate_nexthop k a s = fb_free_pkt a s1"
      using p f(1,2) g nz lv None s1(1) by (simp add: fb_emulate_nexthop_def)
    obtain s2 where s2: "fb_free_pkt a s1 = Some s2" "one_core s2" "fb_flight [] s2" "fb_same s1 s2"
      "fb_load_of s2 = fb_load_of s1" "books s2 = books s1" "links_kept s1 s2"
      by (rule fb_free_spec [OF s1(2,3) p1]) (use caller last s1(8) in simp_all)
    show ?thesis using that s1 s2 left fb_same_trans last links_trans [OF s1(9) s2(7)] by (simp add: fb_inv_def)
  next
    case (Some hp)
    obtain h where h: "deref_hop hp s = Some h" "fb_hop_ready h" using fb_path_at(2) [OF oc f(2,3) Some] by blast
    have em: "emulator h = 0" using h(2) by (simp add: fb_hop_ready_def)
    have run: "fb_emulate_nexthop k a s = fb_cross_hop k a hp s"
      using p f(1,2) g lv Some h(1) em by (simp add: fb_emulate_nexthop_def)
    obtain r s1 where s1: "fb_emulate_hop k a hp s = Some (r, s1)" "one_core s1" "hop_frame s s1"
      "hop_result a p cal s r s1" "\<exists>h'. deref_hop hp s1 = Some h' \<and> emulator h' = 0"
      by (rule fb_emulate_hop_spec [OF oc p h(1) cal])
    obtain h' where h': "deref_hop hp s1 = Some h'" "emulator h' = 0" using s1(5) by blast
    obtain q where q: "fb_pkts s1 a = Some q" "r \<noteq> 0 \<Longrightarrow> q = p" "r = 0 \<Longrightarrow> q = p\<lparr>fp_state := 3\<rparr>"
      using s1(4) p by (auto simp: hop_result_def)
    let ?s2 = "s1\<lparr>fb_pkts := (fb_pkts s1)(a \<mapsto> advanced q)\<rparr>"
    have "deref_hop hp ?s2 = Some h'" using h'(1) by (cases hp) (simp add: deref_hop_def)
    then have run2: "fb_emulate_nexthop k a s = (if r \<noteq> 0 then fb_free_pkt a ?s2 else Some ?s2)"
      unfolding run using h em s1(1) q(1) h'(2) by (simp add: fb_cross_hop_def upd_fpkt_def advanced_def)
    show ?thesis
    proof (cases "r = 0")
      case True
      have ne: "arr ! i \<noteq> None" using Some by simp
      have s2: "?s2 = s1\<lparr>fb_pkts := (fb_pkts s1)(a \<mapsto> advanced (p\<lparr>fp_state := 3\<rparr>))\<rparr>" using q(3) True by simp
      have r0: "hop_result a p cal s 0 s1" using s1(4) True by simp
      show ?thesis
        using that run2 True cross_queued [OF s1(2,3) r0 fl cal(1) p fit f(1,2,3) ne s2] by simp
    next
      case False
      obtain s' where "fb_free_pkt a (s1\<lparr>fb_pkts := (fb_pkts s1)(a \<mapsto> advanced p)\<rparr>) = Some s'" "fb_inv [] s'"
        "fb_same s s'" "books s' = books s" "fb_load_of s' = fb_load_of s" "links_kept s s'"
        by (rule cross_dropped [OF s1(2-4) False fl cal(1) p fit]) (use caller run2 False q(2) in simp)
      then show ?thesis using that run2 False q(2) left by simp
    qed
  qed
qed

section \<open>The clock\<close>

lemma free_stale: "fb_pkts s a = Some p \<Longrightarrow> handles s (fp_handle p) = None \<Longrightarrow> fb_free_pkt a s = None"
  by (auto simp: fb_free_pkt_def null_handle_def m_freem_def split: option.splits Option.bind_splits)

lemma fb_in_hand:
  assumes inv: "fb_inv [] s" and cal: "fb_calendar s = Some cal"
    and c: "length cal' = SCHEDLEN" "mset (concat cal) = add_mset a (mset (concat cal'))"
    and s1: "s1 = s\<lparr>fb_calendar := Some cal', queued := queued s - 1\<rparr>"
  obtains p where "fb_pkts s1 a = Some p" "fb_inv [a] s1" "fb_same s s1" "books s1 = books s" "links_kept s s1"
    "fb_load_of s = fb_load_of s1 + way_left (path_mem s1) p"
proof -
  have f: "flight_ok [] cal (fb_pkts s) fp_m (pkt_fit (path_mem s) (mbufs s))"
    using inv flight_cal [of "[]" s] cal by (auto simp: fb_inv_def)
  obtain p where p: "fb_pkts s a = Some p" "pkt_fit (path_mem s) (mbufs s) p"
    "flight_ok [a] cal' (fb_pkts s) fp_m (pkt_fit (path_mem s) (mbufs s))" by (rule flight_take [OF f c])
  have "one_core s1" using inv unfolding s1 fb_inv_def by (subst one_core_cong [of _ s]) simp_all
  then have "fb_inv [a] s1" using p by (simp add: fb_inv_def fb_flight_def s1)
  moreover have "length (concat cal) = Suc (length (concat cal'))"
    using arg_cong [OF c(2), of size] by (simp del: mset_concat)
  then have "books s1 = books s" using cal by (simp add: books_def s1 del: length_concat)
  moreover have "fb_load_of s = fb_load_of s1 + way_left (path_mem s1) p"
    using load_add [where m = "fb_pkts s", OF c(2) p(1)] cal by (simp add: fb_load_of_def s1)
  moreover have "links_kept s s1" by (rule links_same) (simp_all add: s1)
  ultimately show ?thesis using that p(1) by (simp add: s1 fb_same_def)
qed

lemma drain_packets_spec:
  assumes hz: "hz k \<noteq> 0"
  shows "fb_inv [] s \<Longrightarrow> callers s \<or> drain_packets k s \<noteq> None \<Longrightarrow>
     \<exists>s'. drain_packets k s = Some s' \<and> fb_inv [] s' \<and> fb_same s s' \<and> books s' = books s \<and> links_kept s s' \<and>
     (\<exists>cal. fb_calendar s' = Some cal \<and> cal ! nat (cal_slot (fb_tick s)) = [])"
proof (induction "fb_load_of s" arbitrary: s rule: less_induct)
  case less
  obtain cal where cal: "fb_calendar s = Some cal" "length cal = SCHEDLEN"
    using less.prems(1) flight_cal [of "[]" s] by (auto simp: fb_inv_def)
  show ?case
  proof (cases rule: cal_take_total [OF cal(2), of "fb_tick s"])
    case 1
    then have "drain_packets k s = Some s" using cal by (subst drain_packets.simps) simp
    then show ?thesis using less.prems(1) cal 1 links_same [of s s] by auto
  next
    case (2 a cal')
    let ?s1 = "s\<lparr>fb_calendar := Some cal', queued := queued s - 1\<rparr>"
    obtain p where p: "fb_pkts ?s1 a = Some p" "fb_inv [a] ?s1" "fb_same s ?s1" "books ?s1 = books s" "links_kept s ?s1"
      "fb_load_of s = fb_load_of ?s1 + way_left (path_mem ?s1) p"
      by (rule fb_in_hand [OF less.prems(1) cal(1) 2(2,3) refl])
    have run: "drain_packets k s = fb_emulate_nexthop k a ?s1 \<bind> drain_packets k"
      using cal 2(1) by (subst drain_packets.simps) simp
    have "handles ?s1 (fp_handle p) \<noteq> None \<or> fb_emulate_nexthop k a ?s1 \<noteq> None"
      using less.prems(2) p(1) run by (auto simp: callers_def)
    then obtain s2 where s2: "fb_emulate_nexthop k a ?s1 = Some s2" "fb_inv [] s2" "fb_same ?s1 s2" "books s2 = books ?s1"
      "fb_load_of s2 < fb_load_of ?s1 + way_left (path_mem ?s1) p" "links_kept ?s1 s2"
      by (rule fb_emulate_nexthop_spec [OF p(2,1) hz])
    note ks = links_trans [OF p(5) s2(6)]
    have c2: "callers s2 \<or> drain_packets k s2 \<noteq> None" using less.prems(2) callers_linked [OF ks] run s2(1) by auto
    have "fb_load_of s2 < fb_load_of s" using s2(5) p(6) by simp
    from less.hyps [OF this s2(2) c2] obtain s' c where s': "drain_packets k s2 = Some s'" "fb_inv [] s'" "fb_same s2 s'"
      "books s' = books s2" "links_kept s2 s'" "fb_calendar s' = Some c" "c ! nat (cal_slot (fb_tick s2)) = []" by blast
    have "drain_packets k s = Some s'" using run s2(1) s'(1) by simp
    moreover have "links_kept s s'" by (rule links_trans [OF ks s'(5)])
    moreover have "fb_same s s'" using fb_same_trans [OF p(3) fb_same_trans [OF s2(3) s'(3)]] .
    moreover have "fb_tick s2 = fb_tick s" using p(3) s2(3) by (simp add: fb_same_def)
    ultimately show ?thesis using s' s2(4) p(4) by auto
  qed
qed

text \<open>The packet at the head of the slot is at the end of its path and its caller has returned.\<close>

lemma stale_at_end:
  assumes inv: "fb_inv [] s" and hz: "hz k \<noteq> 0" and cal: "fb_calendar s = Some cal"
    and head: "cal ! nat (cal_slot (fb_tick s)) = a # rest" and p: "fb_pkts s a = Some p"
    and path: "fp_path p = Some (blk, i)" "path_mem s blk = Some arr" "aget arr i = Some None"
    and stale: "handles s (fp_handle p) = None"
  shows "drain_packets k s = None"
proof -
  have len: "length cal = SCHEDLEN" using inv cal flight_cal [of "[]" s] by (auto simp: fb_inv_def)
  obtain cal' where c: "cal_take (fb_tick s) cal = Some (Some a, cal')" "length cal' = SCHEDLEN"
    "mset (concat cal) = add_mset a (mset (concat cal'))"
    by (cases rule: cal_take_total [OF len, of "fb_tick s"])
      (use head len cal_slot_bounds [of "fb_tick s"] in \<open>auto simp: cal_take_def array_ops SCHEDLEN_def\<close>)
  let ?s = "s\<lparr>fb_calendar := Some cal', queued := queued s - 1\<rparr>"
  have q: "fb_pkts ?s a = Some p" using p by simp
  have i1: "fb_inv [a] ?s" by (rule fb_in_hand [OF inv cal c(2,3) refl])
  then have oc: "one_core ?s" and fl: "fb_flight [a] ?s" and fit: "pkt_fit (path_mem ?s) (mbufs ?s) p"
    using p by (simp_all add: fb_inv_def)
  obtain b m where b: "fp_m p = Some b" "mbufs ?s b = Some m" "fp_cachehost p = 0" using fit by (auto simp: pkt_fit_def)
  obtain s1 where s1: "fb_forward_packet k a ?s = Some s1" "fb_pkts s1 = (fb_pkts ?s)(a \<mapsto> p\<lparr>fp_m := None\<rparr>)"
    "handles s1 = handles ?s" by (rule fb_forward_spec [OF oc fl q b(1,3,2) hz])
  have "fb_free_pkt a s1 = None" by (rule free_stale [where p = "p\<lparr>fp_m := None\<rparr>"]) (use s1(2,3) stale in simp_all)
  then have "fb_emulate_nexthop k a ?s = None"
    using q path leave_nothing [OF oc q fit] s1(1) by (simp add: fb_emulate_nexthop_def split: Option.bind_splits)
  then show ?thesis using cal c(1) by (subst drain_packets.simps) simp
qed

end
