(* ===== verification/Fb_Run.thy ===== *)
theory Fb_Run
  imports Fb_Flow
begin

text \<open>
  Runs of the FreeBSD module on one core: the clock and the hook keep the invariant of \<open>Fb_Flow\<close>, and
  with it any interleaving of arriving packets, passing time, clock runs and returning callers keeps the
  books. The clock returns as long as no packet in flight has lost its caller. The runs are the reachable states of a step relation.
\<close>

section \<open>The clock\<close>

lemma no_hop_fires: "one_core s \<Longrightarrow> drain_hops k s = Some s"
  using cal_slot_bounds [of "fb_tick s"]
  by (subst drain_hops.simps) (simp add: one_core_def cal_take_def array_ops SCHEDLEN_def)

lemma fb_inv_tick: "fb_inv held s \<Longrightarrow> fb_inv held (s\<lparr>fb_tick := t\<rparr>)"
proof -
  have "one_core (s\<lparr>fb_tick := t\<rparr>) = one_core s" by (rule one_core_cong) simp_all
  then show "fb_inv held s \<Longrightarrow> fb_inv held (s\<lparr>fb_tick := t\<rparr>)" by (simp add: fb_inv_def fb_flight_def)
qed

definition clock_same :: "fb \<Rightarrow> fb \<Rightarrow> bool" where
  "clock_same s s' \<longleftrightarrow> books s' = books s \<and> path_mem s' = path_mem s \<and> ticks s' = ticks s \<and> mn_mtx s' = mn_mtx s \<and>
     links_kept s s'"

lemma ticks_left: "(t :: u32) \<noteq> u \<Longrightarrow> unat (u - (t + 1)) < unat (u - t)"
proof -
  assume "t \<noteq> u"
  then have "u - t \<noteq> 0" by simp
  then have "unat (u - t - 1) < unat (u - t)" by (metis measure_unat)
  then show ?thesis by (simp add: algebra_simps)
qed

lemma fb_ticks_spec:
  assumes hz: "hz k \<noteq> 0"
  shows "fb_inv [] s \<Longrightarrow> callers s \<or> fb_ticks k s \<noteq> None \<Longrightarrow>
     \<exists>s'. fb_ticks k s = Some s' \<and> fb_inv [] s' \<and> clock_same s s' \<and> fb_tick s' = u32_of (ticks s)"
proof (induction "unat (u32_of (ticks s) - fb_tick s)" arbitrary: s rule: less_induct)
  case less
  show ?case
  proof (cases "fb_tick s = u32_of (ticks s)")
    case True
    then have "fb_ticks k s = Some s" by (subst fb_ticks.simps) simp
    then show ?thesis using less.prems(1) True by (simp add: clock_same_def links_same)
  next
    case False
    have go: "fb_ticks k s = drain_packets k s \<bind> (\<lambda>s1. drain_hops k s1 \<bind> (\<lambda>s2. fb_ticks k (s2\<lparr>fb_tick := fb_tick s2 + 1\<rparr>)))"
      using False by (subst fb_ticks.simps) simp
    have "callers s \<or> drain_packets k s \<noteq> None" using less.prems(2) go by auto
    then obtain s1 where s1: "drain_packets k s = Some s1" "fb_inv [] s1" "fb_same s s1" "books s1 = books s" "links_kept s s1"
      using drain_packets_spec [OF hz less.prems(1)] by blast
    have h: "drain_hops k s1 = Some s1" using no_hop_fires s1(2) by (simp add: fb_inv_def)
    let ?s2 = "s1\<lparr>fb_tick := fb_tick s1 + 1\<rparr>"
    have t: "ticks ?s2 = ticks s" "fb_tick ?s2 = fb_tick s + 1" using s1(3) by (simp_all add: fb_same_def)
    have m: "unat (u32_of (ticks ?s2) - fb_tick ?s2) < unat (u32_of (ticks s) - fb_tick s)"
      unfolding t by (rule ticks_left [OF False])
    have k2: "links_kept s ?s2" by (rule links_trans [OF s1(5)]) (rule links_same, simp_all)
    have c2: "callers ?s2 \<or> fb_ticks k ?s2 \<noteq> None"
      using less.prems(2) callers_linked [OF k2] go s1(1) h by auto
    from less.hyps [OF m fb_inv_tick [OF s1(2)] c2] obtain s' where s': "fb_ticks k ?s2 = Some s'" "fb_inv [] s'"
      "clock_same ?s2 s'" "fb_tick s' = u32_of (ticks ?s2)" by blast
    have run: "fb_ticks k s = Some s'" using go s1(1) h s'(1) by simp
    have "books ?s2 = books s1" by (simp add: books_def)
    then have "clock_same s s'" using s'(3) s1(3,4) links_trans [OF k2] by (simp add: clock_same_def fb_same_def)
    then show ?thesis using run s'(2,4) unfolding t(1) by blast
  qed
qed

definition fb_idle :: "fb \<Rightarrow> bool" where
  "fb_idle s \<longleftrightarrow> fb_inv [] s \<and> mn_mtx s = Some False"

lemma fb_inv_cong:
  assumes "one_core s' = one_core s" "fb_calendar s' = fb_calendar s" "fb_pkts s' = fb_pkts s"
    "path_mem s' = path_mem s" "mbufs s' = mbufs s"
  shows "fb_inv held s' = fb_inv held s"
  unfolding fb_inv_def fb_flight_def assms by (rule refl)

lemma fb_inv_mtx [simp]: "fb_inv held (s\<lparr>mn_mtx := x\<rparr>) = fb_inv held s"
  by (rule fb_inv_cong) (rule one_core_cong, simp_all)

lemma fb_hopclock_spec:
  assumes idle: "fb_idle s" and hz: "hz k \<noteq> 0" and caller: "callers s \<or> fb_hopclock k s \<noteq> None"
  obtains s' where "fb_hopclock k s = Some s'" "fb_idle s'" "books s' = books s" "fb_tick s' = u32_of (ticks s)"
    "links_kept s s'"
proof -
  let ?s1 = "s\<lparr>mn_mtx := Some True\<rparr>"
  have l: "mtx_lock s = Some ?s1" using idle by (simp add: fb_idle_def mtx_lock_def)
  have i1: "fb_inv [] ?s1" using idle by (simp add: fb_idle_def)
  have k1: "links_kept s ?s1" by (rule links_same) simp_all
  have "callers ?s1 \<or> fb_ticks k ?s1 \<noteq> None"
    using caller callers_linked [OF k1] by (auto simp: fb_hopclock_def l)
  then obtain s2 where s2: "fb_ticks k ?s1 = Some s2" "fb_inv [] s2" "clock_same ?s1 s2" "fb_tick s2 = u32_of (ticks s)"
    using fb_ticks_spec [OF hz i1] by auto
  have e: "pending_xc s2 = []" "mc_pcache s2 = []" using s2(2) by (simp_all add: fb_inv_def one_core_def)
  have ag: "(if mn_state s2 AND MN_AGGREGATE \<noteq> 0 then remote_aggregate_clean k s2 else Some s2) = Some s2"
    using e by (simp add: remote_aggregate_clean_def)
  have flush: "(if ticks s2 smod 100 = 0 then remote_flush s2 else Some s2) = Some s2"
    using e by (simp add: remote_flush_def)
  have u: "mtx_unlock s2 = Some (s2\<lparr>mn_mtx := Some False\<rparr>)" using s2(3) by (simp add: mtx_unlock_def clock_same_def)
  let ?s' = "s2\<lparr>mn_mtx := Some False, callout := True\<rparr>"
  have run: "fb_hopclock k s = Some ?s'"
    unfolding fb_hopclock_def l Option.bind.bind_lunit s2(1) ag flush u by simp
  have oc: "one_core ?s' = one_core s2" by (rule one_core_cong) simp_all
  have "fb_inv [] ?s' = fb_inv [] s2" by (rule fb_inv_cong [OF oc]) simp_all
  then have "fb_idle ?s'" using s2(2) by (simp add: fb_idle_def)
  moreover have "books ?s' = books s2" "books ?s1 = books s" by (simp_all add: books_def)
  moreover have "links_kept s2 ?s'" by (rule links_same) simp_all
  then have "links_kept s ?s'" using links_trans [OF k1] links_trans s2(3) unfolding clock_same_def by blast
  ultimately show ?thesis using that run s2(3,4) by (simp add: clock_same_def)
qed

section \<open>The hook\<close>

definition take_chain :: "nat \<Rightarrow> int \<times> u32 \<times> u32 \<times> nat set \<Rightarrow> int \<times> u32 \<times> u32 \<times> nat set" where
  "take_chain b = (\<lambda>(mem, live, q, chains). (mem, live, q, chains - {b}))"

lemma new_packet:
  assumes inv: "fb_inv [] s" and a: "fb_pkts s a = None" and b: "mbufs s b \<noteq> None" "b \<notin> owned (fb_pkts s) fp_m"
    and p: "fp_m p = Some b"
    and t: "t = s\<lparr>alloc_ok := r, kmem := kmem s + 1, cell_pos := c, pkt_allocs := pkt_allocs s + 1,
      mbufs := (mbufs s)(b \<mapsto> m), fb_pkts := (fb_pkts s)(a \<mapsto> p)\<rparr>"
  shows "one_core t" "fb_flight [a] t" "books t = take_chain b (books s)"
proof -
  obtain cal where cal: "fb_calendar s = Some cal" "flight_ok [] cal (fb_pkts s) fp_m (pkt_fit (path_mem s) (mbufs s))"
    using inv flight_cal [of "[]" s] by (auto simp: fb_inv_def)
  have "one_core t = one_core s" unfolding t by (rule one_core_cong) simp_all
  then show "one_core t" using inv by (simp add: fb_inv_def)
  have "pkt_fit (path_mem s) ((mbufs s)(b \<mapsto> m)) q" if "pkt_fit (path_mem s) (mbufs s) q" for q
    using that b(1) by (subst pkt_fit_cong [of q _ "mbufs s"]) auto
  then have "flight_ok [] cal (fb_pkts s) fp_m (pkt_fit (path_mem s) ((mbufs s)(b \<mapsto> m)))"
    using flight_ok_cong cal(2) by blast
  then have "flight_ok [a] cal ((fb_pkts s)(a \<mapsto> p)) fp_m (pkt_fit (path_mem s) ((mbufs s)(b \<mapsto> m)))"
    by (rule flight_new [where m = "fb_pkts s", OF _ a]) (use p b(2) in auto)
  then show "fb_flight [a] t" using cal(1) by (simp add: fb_flight_def t)
  have "card (dom ((fb_pkts s)(a \<mapsto> p))) = Suc (card (dom (fb_pkts s)))"
    using a flight_finite [OF cal(2)] by (simp add: domIff)
  moreover have "dom ((mbufs s)(b \<mapsto> m)) - owned ((fb_pkts s)(a \<mapsto> p)) fp_m = dom (mbufs s) - owned (fb_pkts s) fp_m - {b}"
    using owned_new [where m = "fb_pkts s" and buf = fp_m, OF a, of p] p b(1) by auto
  ultimately show "books t = take_chain b (books s)"
    by (simp add: books_def t take_chain_def del: dom_fun_upd)
qed

lemma path_longer:
  assumes "one_core s" "fb_lookup_path s src dst = Some (Some blk)"
  obtains arr where "path_mem s blk = Some arr" "2 \<le> length arr"
proof -
  have "path_mem s blk \<noteq> None" using lookup_path_live [of s src dst blk] assms
    by (simp add: fb_lookup_path_eq one_core_def topo_wf_def)
  then show ?thesis using that assms(1) by (auto simp: one_core_def)
qed

lemma fb_lookup_total:
  assumes "one_core s"
  obtains r where "fb_lookup_path s src dst = Some r"
  using lookup_path_total [of s src dst] assms by (auto simp: fb_lookup_path_eq one_core_def topo_wf_def)

lemma fb_lookup_cong:
  "pathtable s' = pathtable s \<Longrightarrow> nodetable s' = nodetable s \<Longrightarrow> fb_lookup_path s' src dst = fb_lookup_path s src dst"
  unfolding fb_lookup_path_eq by (rule lookup_path_cong)

text \<open>The chains that are neither the arriving one nor the module's are the same.\<close>

definition others_same :: "nat \<Rightarrow> fb \<Rightarrow> fb \<Rightarrow> bool" where
  "others_same b s s' \<longleftrightarrow> (\<forall>c. c \<noteq> b \<longrightarrow> c \<notin> owned (fb_pkts s) fp_m \<longrightarrow> mbufs s' c = mbufs s c)"

lemma others_new:
  assumes "links_kept t s'" "fb_pkts t = (fb_pkts s)(a \<mapsto> q)" "fb_pkts s a = None" "fp_m q = Some b"
    and "mbufs t = (mbufs s)(b \<mapsto> m)"
  shows "others_same b s s'"
proof -
  have "owned (fb_pkts t) fp_m = owned (fb_pkts s) fp_m \<union> {b}"
    unfolding assms(2) using owned_new [where m = "fb_pkts s" and buf = fp_m and p = q, OF assms(3)] assms(4) by simp
  then show ?thesis using assms(1,5) by (simp add: others_same_def links_kept_def)
qed

text \<open>\<open>emulate_path\<close> on the fresh packet, and what the hook does with an error.\<close>

lemma fb_emulate_path_spec:
  assumes inv: "fb_inv [] s" and a: "fb_pkts s a = None" and b: "mbufs s b = Some m" "b \<notin> owned (fb_pkts s) fp_m"
    and hdr: "20 \<le> m_len m" "20 \<le> length (m_data m)" and hz: "hz k \<noteq> 0"
    and p: "fp_m p = Some b" "fp_cachehost p = 0" "fi_id (fp_info p) = 0" and caller: "handles s (fp_handle p) \<noteq> None"
    and t: "t = s\<lparr>alloc_ok := r, kmem := kmem s + 1, cell_pos := c, pkt_allocs := pkt_allocs s + 1,
      fb_pkts := (fb_pkts s)(a \<mapsto> p)\<rparr>"
  obtains err s2 s3 where "fb_emulate_path k a t = Some (err, s2)" "(if err \<noteq> 0 then fb_free_pkt a s2 else Some s2) = Some s3"
    "fb_inv [] s3" "books s3 = take_chain b (books s)" "mn_mtx s3 = mn_mtx s" "others_same b s s3"
proof -
  obtain src0 dst0 where ad: "mget32 m 12 = Some src0" "mget32 m 16 = Some dst0" using hdr by (simp add: mget32_def)
  obtain src dst where sd: "fb_force_rewrite src0 dst0 = (src, dst)" by fastforce
  let ?bs = "bytes32 src @ bytes32 dst"
  let ?m1 = "m\<lparr>m_data := put_bytes 12 ?bs (m_data m)\<rparr>"
  have mp: "mput 12 ?bs m = Some ?m1" using hdr by (simp add: mput_def bytes32_def)
  have oc: "one_core s" using inv by (simp add: fb_inv_def)
  obtain path where lk: "fb_lookup_path s (FB_FORCEOFF src) dst = Some path" by (rule fb_lookup_total [OF oc])
  have lk1: "fb_lookup_path s1 (FB_FORCEOFF src) dst = Some path"
    if "pathtable s1 = pathtable s" "nodetable s1 = nodetable s" for s1 :: fb
    using fb_lookup_cong [OF that] lk by simp
  note run = fb_emulate_path_def p(1) ad sd mp lk1 t b(1) upd_mbuf_def upd_fpkt_def Let_def
  let ?t = "\<lambda>q. s\<lparr>alloc_ok := r, kmem := kmem s + 1, cell_pos := c, pkt_allocs := pkt_allocs s + 1,
      mbufs := (mbufs s)(b \<mapsto> ?m1), fb_pkts := (fb_pkts s)(a \<mapsto> q)\<rparr>"
  have bn: "mbufs s b \<noteq> None" using b(1) by simp
  have mx: "mn_mtx (?t q) = mn_mtx s" for q by simp
  show ?thesis
  proof (cases path)
    case None
    let ?q = "p\<lparr>fp_path := None\<rparr>"
    have pq: "fp_m ?q = Some b" using p(1) by simp
    note new = new_packet [where r = r and c = c and m = ?m1, OF inv a bn b(2) pq refl]
    have e: "fb_emulate_path k a t = Some (ENOENT, ?t ?q)"
      using None by (simp add: run)
    have tq: "fb_pkts (?t ?q) a = Some ?q" by simp
    obtain s3 where s3: "fb_free_pkt a (?t ?q) = Some s3" "one_core s3" "fb_flight [] s3" "fb_same (?t ?q) s3"
      "books s3 = books (?t ?q)" "links_kept (?t ?q) s3"
      by (rule fb_free_spec [OF new(1,2) tq]) (use p(1) caller in auto)
    have "others_same b s s3" by (rule others_new [OF s3(6) _ a pq]) simp_all
    then show ?thesis using that [OF e, of s3] s3 new(3) by (simp add: ENOENT_def fb_inv_def fb_same_def)
  next
    case (Some blk)
    let ?q = "p\<lparr>fp_path := Some (blk, 0), fp_info := (fp_info p)\<lparr>fi_hop := 0, fi_src := src, fi_dst := dst\<rparr>\<rparr>"
    have pq: "fp_m ?q = Some b" using p(1) by simp
    note new = new_packet [where r = r and c = c and m = ?m1, OF inv a bn b(2) pq refl]
    have lk2: "fb_lookup_path s (FB_FORCEOFF src) dst = Some (Some blk)" using lk Some by simp
    obtain arr where arr: "path_mem s blk = Some arr" "2 \<le> length arr" by (rule path_longer [OF oc lk2])
    have "pkt_fit (path_mem (?t ?q)) (mbufs (?t ?q)) ?q"
      using arr p by (auto simp: pkt_fit_def intro!: exI [of _ blk] exI [of _ "0::nat"])
    then have inv2: "fb_inv [a] (?t ?q)" using new by (simp add: fb_inv_def)
    have tq: "fb_pkts (?t ?q) a = Some ?q" by simp
    obtain s3 where s3: "fb_emulate_nexthop k a (?t ?q) = Some s3" "fb_inv [] s3" "fb_same (?t ?q) s3" "books s3 = books (?t ?q)"
      "links_kept (?t ?q) s3" by (rule fb_emulate_nexthop_spec [OF inv2 tq hz]) (use caller in simp)
    have o: "others_same b s s3" by (rule others_new [OF s3(5) _ a pq]) simp_all
    have nx: "\<not> xcp_initialized s" using oc by (simp add: one_core_def)
    have last: "(fb_emulate_path k a t) = do { s5 \<leftarrow> fb_emulate_nexthop k a (?t ?q); Some (0, s5) }"
      using Some nx by (simp add: run)
    show ?thesis using that [of 0 s3 s3] last s3 o new(3) by (simp add: fb_same_def)
  qed
qed

text \<open>A chain whose IP header is in its first mbuf, from a virtual node to another.\<close>

definition emulated :: "mbuf \<Rightarrow> bool" where
  "emulated m \<longleftrightarrow> 20 \<le> m_len m \<and> 20 \<le> length (m_data m) \<and>
     get32 12 (m_data m) AND FB_MASK = FB_SUBNET \<and> get32 16 (m_data m) AND FB_MASK = FB_SUBNET"

text \<open>The address the allocator hands out next is not that of a live packet.\<close>

definition fresh_cell :: "fb \<Rightarrow> bool" where
  "fresh_cell s \<longleftrightarrow> fb_pkts s (fst (cells s (cell_pos s))) = None"

lemma malloc_pkt_cases:
  obtains r where "malloc_pkt s = (None, s\<lparr>alloc_ok := r\<rparr>)"
  | r where "malloc_pkt s = (Some (cells s (cell_pos s)), s\<lparr>alloc_ok := r, kmem := kmem s + 1, cell_pos := cell_pos s + 1\<rparr>)"
proof (cases "\<exists>r. alloc_ok s = False # r")
  case True
  then obtain r where "alloc_ok s = False # r" by blast
  then have "malloc_pkt s = (None, s\<lparr>alloc_ok := r\<rparr>)" by (simp add: malloc_pkt_def malloc_nowait_def)
  then show ?thesis by (rule that(1))
next
  case False
  then have "malloc_nowait 1 s = (True, s\<lparr>alloc_ok := tl (alloc_ok s), kmem := kmem s + 1\<rparr>)"
    by (auto simp: malloc_nowait_def split: list.splits bool.splits)
  then have "malloc_pkt s = (Some (cells s (cell_pos s)), s\<lparr>alloc_ok := tl (alloc_ok s), kmem := kmem s + 1, cell_pos := cell_pos s + 1\<rparr>)"
    by (simp add: malloc_pkt_def)
  then show ?thesis by (rule that(2))
qed

lemma accept_packet_spec:
  assumes inv: "fb_inv [] s" and fresh: "fresh_cell s" and b: "mbufs s b = Some m" "b \<notin> owned (fb_pkts s) fp_m"
    and hdr: "20 \<le> m_len m" "20 \<le> length (m_data m)" and hz: "hz k \<noteq> 0" and caller: "handles s h \<noteq> None"
  obtains (refused) r where "accept_packet k h b s = Some (None, s\<lparr>alloc_ok := r\<rparr>)"
  | (taken) e s' where "accept_packet k h b s = Some (Some e, s')" "fb_inv [] s'" "books s' = take_chain b (books s)"
    "mn_mtx s' = mn_mtx s" "others_same b s s'"
proof (cases rule: malloc_pkt_cases [of s])
  case (1 r)
  then show ?thesis using refused by (simp add: accept_packet_def)
next
  case (2 r)
  obtain a junk where c: "cells s (cell_pos s) = (a, junk)" by fastforce
  have a: "fb_pkts s a = None" using fresh c by (simp add: fresh_cell_def)
  let ?p = "junk\<lparr>fp_m := Some b, fp_handle := h, fp_cachehost := 0,
              fp_info := (fp_info junk)\<lparr>fi_len := u32_of (m_pktlen m), fi_id := 0\<rparr>\<rparr>"
  let ?t = "s\<lparr>alloc_ok := r, kmem := kmem s + 1, cell_pos := cell_pos s + 1, pkt_allocs := pkt_allocs s + 1,
      fb_pkts := (fb_pkts s)(a \<mapsto> ?p)\<rparr>"
  have p: "fp_m ?p = Some b" "fp_cachehost ?p = 0" "fi_id (fp_info ?p) = 0" "handles s (fp_handle ?p) \<noteq> None"
    using caller by simp_all
  obtain err s2 s3 where r: "fb_emulate_path k a ?t = Some (err, s2)"
    "(if err \<noteq> 0 then fb_free_pkt a s2 else Some s2) = Some s3" "fb_inv [] s3" "books s3 = take_chain b (books s)" "mn_mtx s3 = mn_mtx s"
    "others_same b s s3" by (rule fb_emulate_path_spec [OF inv a b hdr hz p refl])
  have "accept_packet k h b s = Some (Some err, s3)"
    using 2 c b(1) r(1,2) by (simp add: accept_packet_def Let_def)
  then show ?thesis using taken r(3-6) by blast
qed

lemma books_cong:
  "kmem s' = kmem s \<Longrightarrow> fb_pkts s' = fb_pkts s \<Longrightarrow> pkt_allocs s' = pkt_allocs s \<Longrightarrow> pkt_frees s' = pkt_frees s \<Longrightarrow>
   queued s' = queued s \<Longrightarrow> fb_calendar s' = fb_calendar s \<Longrightarrow> mbufs s' = mbufs s \<Longrightarrow> books s' = books s"
  by (simp add: books_def)

lemma fb_filter_spec:
  assumes idle: "fb_idle s" and fresh: "fresh_cell s" and h: "handles s h = Some (Some b)"
    and b: "mbufs s b = Some m" "b \<notin> owned (fb_pkts s) fp_m" and m: "emulated m" and hz: "hz k \<noteq> 0"
  obtains (refused) s' where "fb_filter_ipinput k h s = Some (FB_ENOBUFS, s')" "fb_idle s'" "books s' = books s"
    "handles s' = handles s" "mbufs s' = mbufs s"
  | (taken) e s' where "fb_filter_ipinput k h s = Some (e, s')" "fb_idle s'" "books s' = take_chain b (books s)"
    "handles s' h = Some None" "others_same b s s'"
proof -
  let ?s1 = "s\<lparr>mn_mtx := Some True\<rparr>"
  have l: "mtx_lock s = Some ?s1" using idle by (simp add: fb_idle_def mtx_lock_def)
  have hdr: "20 \<le> m_len m" "20 \<le> length (m_data m)" using m by (simp_all add: emulated_def)
  have g: "mget32 m 12 = Some (get32 12 (m_data m))" "mget32 m 16 = Some (get32 16 (m_data m))"
    using hdr by (simp_all add: mget32_def)
  have b1: "mbufs ?s1 b = Some m" "b \<notin> owned (fb_pkts ?s1) fp_m" using b by simp_all
  have c1: "handles ?s1 h \<noteq> None" using h by simp
  have i1: "fb_inv [] ?s1" and f1: "fresh_cell ?s1" using idle fresh by (simp_all add: fb_idle_def fresh_cell_def)
  have run: "fb_filter_ipinput k h s = do {
     (err, s2) \<leftarrow> accept_packet k h b ?s1;
     case err of
       None \<Rightarrow> do { s3 \<leftarrow> mtx_unlock s2; Some (FB_ENOBUFS, s3) }
     | Some e \<Rightarrow> do { s3 \<leftarrow> mtx_unlock (s2\<lparr>handles := (handles s2)(h \<mapsto> None)\<rparr>); Some (e, s3) } }"
    using h l b g m by (simp add: fb_filter_ipinput_def emulated_def)
  show ?thesis
  proof (rule accept_packet_spec [OF i1 f1 b1 hdr hz c1])
    fix r assume r: "accept_packet k h b ?s1 = Some (None, ?s1\<lparr>alloc_ok := r\<rparr>)"
    let ?s' = "s\<lparr>mn_mtx := Some False, alloc_ok := r\<rparr>"
    have "fb_filter_ipinput k h s = Some (FB_ENOBUFS, ?s')" using run r by (simp add: mtx_unlock_def)
    moreover have "one_core ?s' = one_core s" by (rule one_core_cong) simp_all
    then have "fb_inv [] ?s' = fb_inv [] s" by (rule fb_inv_cong) simp_all
    then have "fb_idle ?s'" using idle by (simp add: fb_idle_def)
    moreover have "books ?s' = books s" by (rule books_cong) simp_all
    ultimately show ?thesis using refused by simp
  next
    fix e s2 assume r: "accept_packet k h b ?s1 = Some (Some e, s2)" "fb_inv [] s2"
      "books s2 = take_chain b (books ?s1)" "mn_mtx s2 = mn_mtx ?s1" "others_same b ?s1 s2"
    let ?s' = "s2\<lparr>handles := (handles s2)(h \<mapsto> None), mn_mtx := Some False\<rparr>"
    have "fb_filter_ipinput k h s = Some (e, ?s')" using run r(1,4) by (simp add: mtx_unlock_def)
    moreover have "one_core ?s' = one_core s2" by (rule one_core_cong) simp_all
    then have "fb_inv [] ?s' = fb_inv [] s2" by (rule fb_inv_cong) simp_all
    then have "fb_idle ?s'" using r(2) by (simp add: fb_idle_def)
    moreover have "books ?s' = books s2" "books ?s1 = books s" by (rule books_cong, simp_all)+
    moreover have "others_same b s ?s'" using r(5) by (simp add: others_same_def)
    ultimately show ?thesis using taken r(3) by simp
  qed
qed

section \<open>Runs\<close>

definition receive :: "nat \<Rightarrow> nat \<Rightarrow> mbuf \<Rightarrow> fb \<Rightarrow> fb" where
  "receive h b m s = s\<lparr>mbufs := (mbufs s)(b \<mapsto> m), handles := (handles s)(h \<mapsto> Some b)\<rparr>"

text \<open>What can happen to an idle module: time passes, the clock runs, a packet of the emulated network
  arrives in a chain \<open>b\<close> whose pointer the caller keeps at \<open>h\<close>, a caller returns and its pointer is gone.
  A step that would write through a pointer that is gone is none: the hook and the clock give \<open>None\<close>.\<close>

inductive fb_step :: "kern \<Rightarrow> fb \<Rightarrow> fb \<Rightarrow> bool" for k where
  time: "fb_step k s (s\<lparr>ticks := ticks s + 1\<rparr>)"
| clock: "fb_hopclock k s = Some s' \<Longrightarrow> fb_step k s s'"
| packet: "mbufs s b = None \<Longrightarrow> emulated m \<Longrightarrow> fresh_cell s \<Longrightarrow>
    fb_filter_ipinput k h (receive h b m s) = Some (e, s') \<Longrightarrow> fb_step k s s'"
| leave: "fb_step k s (s\<lparr>handles := (handles s)(h := None)\<rparr>)"

definition counters :: "fb \<Rightarrow> int \<times> u32 \<times> u32" where
  "counters s = (kmem s - int (card (dom (fb_pkts s))), pkt_allocs s - pkt_frees s - of_nat (card (dom (fb_pkts s))),
     queued s - of_nat (case fb_calendar s of None \<Rightarrow> 0 | Some cal \<Rightarrow> length (concat cal)))"

lemma counters_books: "counters s = (fst (books s), fst (snd (books s)), fst (snd (snd (books s))))"
  by (simp add: counters_def books_def)

lemma take_chain_counters: "books s' = take_chain b (books s) \<Longrightarrow> counters s' = counters s"
  by (simp add: counters_books take_chain_def split: prod.splits)

lemma receive_idle:
  assumes idle: "fb_idle s" and b: "mbufs s b = None"
  shows "fb_idle (receive h b m s)" "counters (receive h b m s) = counters s"
    "fresh_cell (receive h b m s) = fresh_cell s" "b \<notin> owned (fb_pkts s) fp_m"
proof -
  obtain cal where cal: "fb_calendar s = Some cal" "flight_ok [] cal (fb_pkts s) fp_m (pkt_fit (path_mem s) (mbufs s))"
    using idle flight_cal [of "[]" s] by (auto simp: fb_inv_def fb_idle_def)
  show n: "b \<notin> owned (fb_pkts s) fp_m"
    using flight_okD(4) [OF cal(2)] b by (force simp: owned_def pkt_fit_def)
  have fit: "pkt_fit (path_mem s) ((mbufs s)(b \<mapsto> m)) p" if "pkt_fit (path_mem s) (mbufs s) p" for p
    using that by (auto simp: pkt_fit_def)
  have "flight_ok [] cal (fb_pkts s) fp_m (pkt_fit (path_mem s) ((mbufs s)(b \<mapsto> m)))"
    by (rule flight_ok_cong [OF _ cal(2)]) (rule fit)
  moreover have "one_core (receive h b m s) = one_core s" by (rule one_core_cong) (simp_all add: receive_def)
  ultimately show "fb_idle (receive h b m s)" using idle cal(1)
    by (simp add: fb_idle_def fb_inv_def fb_flight_def) (simp add: receive_def)
  show "counters (receive h b m s) = counters s" by (simp add: counters_def receive_def)
  show "fresh_cell (receive h b m s) = fresh_cell s" by (simp add: fresh_cell_def receive_def)
qed

lemma receive_filter:
  assumes "fb_idle s" "mbufs s b = None" "emulated m" "fresh_cell s" "hz k \<noteq> 0"
  obtains e s' where "fb_filter_ipinput k h (receive h b m s) = Some (e, s')" "fb_idle s'" "counters s' = counters s"
proof -
  let ?r = "receive h b m s"
  note r = receive_idle(1-3) [where h = h and m = m, OF assms(1,2)] receive_idle(4) [OF assms(1,2)]
  have f: "fresh_cell ?r" using r(3) assms(4) by simp
  have g: "handles ?r h = Some (Some b)" "mbufs ?r b = Some m" "b \<notin> owned (fb_pkts ?r) fp_m"
    using r(4) by (simp_all add: receive_def)
  show ?thesis
  proof (rule fb_filter_spec [OF r(1) f g assms(3,5)])
    fix s' assume a: "fb_filter_ipinput k h ?r = Some (FB_ENOBUFS, s')" "fb_idle s'" "books s' = books ?r"
    have "counters s' = counters s" using a(3) r(2) by (simp add: counters_books)
    then show ?thesis by (rule that [OF a(1,2)])
  next
    fix e s' assume a: "fb_filter_ipinput k h ?r = Some (e, s')" "fb_idle s'" "books s' = take_chain b (books ?r)"
    have "counters s' = counters s" using take_chain_counters [OF a(3)] r(2) by simp
    then show ?thesis by (rule that [OF a(1,2)])
  qed
qed

text \<open>Every step leads from idle to idle and keeps the counters.\<close>

lemma fb_step_idle:
  assumes "fb_step k s s'" "fb_idle s" "hz k \<noteq> 0"
  shows "fb_idle s' \<and> counters s' = counters s"
  using assms(1)
proof cases
  case time
  have "one_core s' = one_core s" unfolding time by (rule one_core_cong) simp_all
  then have "fb_inv [] s' = fb_inv [] s" by (rule fb_inv_cong) (simp_all add: time)
  then show ?thesis using assms(2) by (simp add: fb_idle_def time counters_def)
next
  case clock
  show ?thesis
    by (rule fb_hopclock_spec [OF assms(2,3)]) (use clock in \<open>auto simp: counters_books\<close>)
next
  case (leave h)
  have "one_core s' = one_core s" unfolding leave by (rule one_core_cong) simp_all
  then have "fb_inv [] s' = fb_inv [] s" by (rule fb_inv_cong) (simp_all add: leave)
  then show ?thesis using assms(2) by (simp add: fb_idle_def leave counters_def)
next
  case (packet b m h e)
  show ?thesis
    by (rule receive_filter [where h = h, OF assms(2) packet(1-3) assms(3)]) (use packet(4) in simp)
qed

lemma fb_run_idle:
  assumes "(fb_step k)\<^sup>*\<^sup>* s0 s" "fb_idle s0" "hz k \<noteq> 0"
  shows "fb_idle s \<and> counters s = counters s0"
  using assms(1)
proof induction
  case base
  then show ?case using assms(2) by simp
next
  case (step s s')
  then show ?case using fb_step_idle [OF step(2) _ assms(3)] by simp
qed

section \<open>Fuel\<close>

text \<open>\<open>remote_input\<close> gives up in its 47th round, so more fuel than \<open>input_loop\<close> is given changes nothing.\<close>

lemma input_fuel:
  "0 < n \<Longrightarrow> 48 \<le> int n + once \<Longrightarrow> input_loop k (n + d) ip_len once pkt b s = input_loop k n ip_len once pkt b s"
proof (induction n arbitrary: once pkt s)
  case (Suc n)
  show ?case
  proof (cases "46 < once")
    case True
    then show ?thesis by simp
  next
    case False
    have e: "input_loop k (n + d) ip_len (once + 1) pkt' b s' = input_loop k n ip_len (once + 1) pkt' b s'" for pkt' s'
      using Suc False by simp
    show ?thesis unfolding add_Suc input_loop.simps e by (rule refl)
  qed
qed simp

lemma remote_input_fuel:
  "remote_input k b s = do {
     (ok, s1) \<leftarrow> udp_validate k b (s\<lparr>mc_recv := mc_recv s + 1\<rparr>);
     if \<not> ok then Some (EINVAL, s1)
     else do {
       m \<leftarrow> mbufs s1 b;
       input_loop k (48 + d) (m_pktlen m) 1 None b (upd_mbuf b (m_adj 28 m) s1) } }"
  unfolding remote_input_def by (subst input_fuel) simp_all

end
