(* ===== verification/Fb_Props.thy ===== *)
theory Fb_Props
  imports Fb_Aggregate Fb_Pool Fb_Link Fb_Run Lx_Tables
begin

text \<open>
  Properties of the FreeBSD module: its runs on one core, the exchange of digests between cores, the hop
  schedulers, and the states in which the module does not go on as its code means to.
\<close>

section \<open>An example state\<close>

definition ex_link :: fb_hop where
  "ex_link = \<lparr>KBps = 100, delay = 10, plr = 0, qsize = 4, emulator = 0, bytespertick = 100, hop_id = 0,
     slotdepth = 0, bytedepth = 0, headslot = 0, fragment = 0, exittick = [0, 0, 0, 0], slotlen = [0, 0, 0, 0],
     pkts = 0, bytes = 0, qdrops = 0, xtq = \<lparr>xq_type = 0, xq_callbacks = False, xt_hop = None\<rparr>\<rparr>"

definition ex_ip :: mbuf where
  "ex_ip = \<lparr>m_data = [0x45, 0, 28, 0, 0, 0, 0, 0, 64, 17, 0, 0, 10, 0, 0, 1, 10, 0, 0, 2, 0, 0, 0, 0, 0, 0, 0, 0],
     m_len = 28, m_pkthdr = True, m_pktlen = 28, csum_flags = 0, csum_data = 0, m_ext = True\<rparr>"

definition ex_cell :: fb_packet where
  "ex_cell = \<lparr>fp_path = None, fp_m = None, fp_handle = 99, fp_cachehost = 7, fp_state = 0,
     fp_info = \<lparr>fi_id = 0, fi_expire = 0, fi_len = 0, fi_wait_time = 0, fi_src = 0, fi_dst = 0,
       fi_hop = 0, fi_ttl = 0, xcp_cwnd = 0, xcp_src_fdbk = 0, xcp_rflct_fdbk = 0, xcp_rtt = 0\<rparr>\<rparr>"

definition ex_fb :: fb where
  "ex_fb = \<lparr>nodetable = ex_nodes, hopcount = 1, hoptable = Some (1, [ex_link]), nodecount = 2,
     pathtable = Some [[None, Some 5], [None, None]], path_mem = [5 \<mapsto> path_block 1 [0]],
     next_addr = 6, kmem = 8, alloc_ok = [],
     mn_mtx = Some False, mbufs = [3 \<mapsto> ex_ip], handles = [2 \<mapsto> Some 3],
     fb_pkts = Map.empty, cells = (\<lambda>i. (word_of_nat (64 + i), ex_cell)), cell_pos = 0,
     fb_calendar = Some (replicate 16384 []), hop_calendar = Some (replicate 16384 []),
     fb_tick = 100, ticks = 102, random_out = (\<lambda>i. 0), random_pos = 0, xcp_mem = Map.empty,
     xcp_initialized = False, xcp_pipe_count = 0, next_router = 0, free_hop_scheds = [1, 2, 3],
     allocate_idx = 1, total_hop_scheds = 5000, num_qsw_entries = 2, mn_state = 7, mc_expire = 1000,
     mc_ttl = 40, mc_pcache = [], remote_port = 5347, pending_xc = [], free_pending = 32,
     pcache_occupancy = 0, pkt_frees = 0, pkt_allocs = 0, queued = 0, hop_scheduled = 0, mc_send = 0,
     mc_recv = 0, mc_ttldrops = 0, mc_errs = 0, delay_zeros = 0, pkt_seconds = replicate 60 0,
     forwarded = [], udp_out = [], udp_in = [], callout = True, dn_hook = True\<rparr>"

definition ex_kern :: kern where
  "ex_kern = \<lparr>hz = 1000, mhlen = 168, in_pseudo = (\<lambda>a b c. 0), in_cksum = (\<lambda>d. 0), delayed_cksum = id, udpcksum = True,
     route_ifp = (\<lambda>a. Some 1), ifaddrs = [(1, 0x0100000a)], ip_output = (\<lambda>m. 0)\<rparr>"

section \<open>One core\<close>

text \<open>C3. On one core, and for traffic between nodes of the emulated subnet, the only thing that can go wrong
  in the FreeBSD module is the write through the pointer of a caller that has returned. From an
  idle state, after any interleaving of arriving packets, passing time, clock runs and returning callers, whatever
  the allocator and the random numbers answer: the memory beside the live packets, the statistics of
  allocated and freed packets against the live ones, and the count of queued packets against the
  calendar are what they were; while the pointer of each live packet is still its caller's, the clock returns and
  catches up with the ticks; and the hook takes or refuses any further packet of the emulated subnet.
  One core means \<open>one_core\<close>: sound tables, no hop on another core, every hop with a bandwidth
  limit and without an extended queue.\<close>

theorem one_core_runs:
  assumes "(fb_step k)\<^sup>*\<^sup>* s0 s" "fb_idle s0" "hz k \<noteq> 0"
  shows "counters s = counters s0 \<and>
     (callers s \<longrightarrow> (\<exists>s'. fb_hopclock k s = Some s' \<and> fb_idle s' \<and> fb_tick s' = u32_of (ticks s))) \<and>
     (\<forall>h b m. mbufs s b = None \<and> emulated m \<and> fresh_cell s \<longrightarrow>
        (\<exists>e s'. fb_filter_ipinput k h (receive h b m s) = Some (e, s') \<and> fb_idle s'))"
proof -
  have i: "fb_idle s" "counters s = counters s0" using fb_run_idle [OF assms] by simp_all
  have "\<exists>s'. fb_hopclock k s = Some s' \<and> fb_idle s' \<and> fb_tick s' = u32_of (ticks s)" if "callers s"
    by (rule fb_hopclock_spec [OF i(1) assms(3)]) (use that in blast)+
  moreover have "\<exists>e s'. fb_filter_ipinput k h (receive h b m s) = Some (e, s') \<and> fb_idle s'"
    if "mbufs s b = None" "emulated m" "fresh_cell s" for h b m
    by (rule receive_filter [where h = h, OF i(1) that assms(3)]) blast
  ultimately show ?thesis using i(2) by blast
qed

text \<open>C29. What the condition on the callers in the last property is worth: the hook returns while its packet waits in
  the calendar, and with it the caller, whose pointer the packet keeps. When such a packet comes to
  the end of its path, the clock forwards it and then writes NULL through the pointer that is gone.\<close>

theorem waiting_packet_writes_stale:
  assumes "fb_idle s" "hz k \<noteq> 0" "fb_tick s \<noteq> u32_of (ticks s)" "fb_calendar s = Some cal"
    and "cal ! nat (cal_slot (fb_tick s)) = a # rest" "fb_pkts s a = Some p"
    and "fp_path p = Some (blk, i)" "path_mem s blk = Some arr" "aget arr i = Some None"
    and "handles s (fp_handle p) = None"
  shows "fb_hopclock k s = None"
proof -
  let ?s = "s\<lparr>mn_mtx := Some True\<rparr>"
  have "fb_inv [] ?s" using assms(1) by (simp add: fb_idle_def)
  then have "drain_packets k ?s = None" by (rule stale_at_end [OF _ assms(2)]) (use assms(4-10) in simp_all)
  then have "fb_ticks k ?s = None" using assms(3) by (subst fb_ticks.simps) simp
  then show ?thesis using assms(1) by (simp add: fb_hopclock_def mtx_lock_def fb_idle_def)
qed

text \<open>C20. What the hook does with a chain of the emulated network, on one core: it refuses it with
  \<open>ENOBUFS\<close>, and then all chains and all callers' pointers are untouched; or it takes
  it, and then the caller's pointer is NULL, and of the chains that were not the module's this one is now the
  module's or gone, and each other one is in place with its contents; either way the mutex is free
  and the books are kept.\<close>

theorem hook_takes_or_refuses:
  assumes "fb_idle s" "fresh_cell s" "handles s h = Some (Some b)" "mbufs s b = Some m"
    and "b \<notin> owned (fb_pkts s) fp_m" "emulated m" "hz k \<noteq> 0"
  shows "\<exists>e s'. fb_filter_ipinput k h s = Some (e, s') \<and> fb_idle s' \<and> counters s' = counters s \<and>
     (if handles s' h = Some None then
        dom (mbufs s') - owned (fb_pkts s') fp_m = dom (mbufs s) - owned (fb_pkts s) fp_m - {b} \<and>
        (\<forall>c. c \<noteq> b \<longrightarrow> c \<notin> owned (fb_pkts s) fp_m \<longrightarrow> mbufs s' c = mbufs s c)
      else e = FB_ENOBUFS \<and> mbufs s' = mbufs s \<and> handles s' = handles s)"
proof (rule fb_filter_spec [OF assms])
  fix s' assume a: "fb_filter_ipinput k h s = Some (FB_ENOBUFS, s')" "fb_idle s'" "books s' = books s"
    "handles s' = handles s" "mbufs s' = mbufs s"
  then show ?thesis using assms(3) by (simp add: counters_books)
next
  fix e s' assume a: "fb_filter_ipinput k h s = Some (e, s')" "fb_idle s'" "books s' = take_chain b (books s)"
    "handles s' h = Some None" "others_same b s s'"
  have "dom (mbufs s') - owned (fb_pkts s') fp_m = dom (mbufs s) - owned (fb_pkts s) fp_m - {b}"
    using a(3) by (simp add: books_def take_chain_def)
  then show ?thesis using a take_chain_counters [OF a(3)] by (simp add: others_same_def)
qed

section \<open>Digests between cores\<close>

text \<open>C9. \<open>remote_aggregate\<close> implements the list of digests each core is owed: a digest joins the list of
  its core; nothing is sent until the thirtieth, which makes the code send one frame with the thirty, in order, and
  start afresh. The lists of the other cores are as before. The conditions: for the first digest of a
  list one of the 32 aggregates is free, \<open>MGETHDR\<close> finds an mbuf and \<open>MCLGET\<close> a cluster, which
  the code does not check; for the thirtieth there is a route to the core.\<close>

theorem aggregate_refines_queue:
  assumes "aggs_ok s D" "fb_pkts s a = Some p" "c \<noteq> 0"
    and "D c \<noteq> [] \<or> 0 < free_pending s \<and> False \<notin> set (take 2 (alloc_ok s))"
    and "length (D c) < 29 \<or> (\<exists>src. find_ifaddr k c = Some (Some src))"
    and "spec_aggregate c (fp_info p) D = (D', fs)"
  shows "\<exists>e s' ms. remote_aggregate k a c s = Some (e, s') \<and> aggs_ok s' D' \<and>
     udp_out s' = udp_out s @ ms \<and> list_all2 carries ms fs"
  using aggregate_step [OF assms] .

text \<open>Without a cluster the digests run over the end of the mbuf, which the code's assertion lets pass: in an
  mbuf with room for \<open>mhlen\<close> bytes behind its headers, the digest that does not fit has no defined outcome.\<close>

theorem missing_cluster_overflows:
  assumes "fb_pkts s a = Some p" "find (\<lambda>r. ag_id r = c) (pending_xc s) = Some r" "ag_num r \<noteq> 0" "48 \<le> u32_of (ag_left r)"
    and "ag_m r = Some b" "mbufs s b = Some m" "\<not> m_ext m" "mhlen k < 28 + m_len m + 48"
  shows "remote_aggregate k a c s = None"
  using assms by (simp add: remote_aggregate_def get_aggregate_def add_digest_def storage_def)

lemma udp_send_out_frame:
  "udp_send_out k d sp dp b s = Some (e, s') \<Longrightarrow>
   fb_pkts s' = fb_pkts s \<and> mc_pcache s' = mc_pcache s \<and> mn_state s' = mn_state s \<and> hoptable s' = hoptable s \<and>
   ticks s' = ticks s \<and> handles s' = handles s \<and> mn_mtx s' = mn_mtx s"
  by (auto simp: udp_send_out_def upd_mbuf_def Let_def split: option.splits Option.bind_splits)

lemma remote_aggregate_send_frame:
  "remote_aggregate_send k r s = Some (e, s') \<Longrightarrow> fb_pkts s' = fb_pkts s \<and> mc_pcache s' = mc_pcache s \<and> mn_state s' = mn_state s \<and>
   hoptable s' = hoptable s \<and> ticks s' = ticks s \<and> handles s' = handles s \<and> mn_mtx s' = mn_mtx s"
  using udp_send_out_frame by (fastforce simp: remote_aggregate_send_def split: if_splits Option.bind_splits)

lemma aggregate_clean_frame:
  "aggregate_clean k rs s = Some s' \<Longrightarrow> mc_pcache s' = mc_pcache s \<and> ticks s' = ticks s \<and> mn_mtx s' = mn_mtx s"
proof (induction rs arbitrary: s)
  case (Cons r rs)
  then show ?case using remote_aggregate_send_frame by (fastforce split: Option.bind_splits)
qed simp

text \<open>The cleaner of the packet cache leaves the aggregates and the wire alone.\<close>

lemma flush_list_frame:
  "flush_list as s = Some s' \<Longrightarrow> pending_xc s' = pending_xc s \<and> free_pending s' = free_pending s \<and> udp_out s' = udp_out s"
proof (induction as arbitrary: s)
  case (Cons a as)
  have u: "pending_xc s1 = pending_xc s \<and> free_pending s1 = free_pending s \<and> udp_out s1 = udp_out s"
    if "uncache_pkt a s = Some s1" for s1
    using that by (auto simp: uncache_pkt_def upd_fpkt_def split: if_splits Option.bind_splits)
  have f: "pending_xc s2 = pending_xc s1 \<and> free_pending s2 = free_pending s1 \<and> udp_out s2 = udp_out s1"
    if "fb_free_pkt a s1 = Some s2" for s1 s2
    using that by (auto simp: fb_free_pkt_def m_freem_def null_handle_def split: if_splits Option.bind_splits option.splits)
  show ?case using Cons u f by (fastforce split: if_splits Option.bind_splits)
qed simp

lemma remote_flush_frame:
  "remote_flush s = Some s' \<Longrightarrow> pending_xc s' = pending_xc s \<and> free_pending s' = free_pending s \<and> udp_out s' = udp_out s"
  using flush_list_frame by (auto simp: remote_flush_def split: if_splits)

lemma aggs_none: "aggs_ok s' (\<lambda>c. []) \<longleftrightarrow> pending_xc s' = []"
  by (auto simp: aggs_ok_def agg_holds_def)

text \<open>C24. No digest waits longer than a run of the clock. When \<open>hopclock\<close> has driven the packets of the
  ticks that passed (\<open>s1\<close>), the module aggregates, and there are routes to the cores that are
  owed digests, then the rest of the run sends one frame for each pending aggregate with exactly the digests that
  were owed, and at the end every aggregate is free again. The run returns unless the cleaner of the packet
  cache, which follows on every hundredth tick, has packets to look at.\<close>

theorem pending_digests_leave:
  assumes "mn_mtx s = Some False" "fb_ticks k (s\<lparr>mn_mtx := Some True\<rparr>) = Some s1" "mn_mtx s1 = Some True"
    and "mn_state s1 AND MN_AGGREGATE \<noteq> 0" "aggs_ok s1 D"
    and "\<forall>r \<in> set (pending_xc s1). \<exists>src. find_ifaddr k (ag_id r) = Some (Some src)"
  shows "(ticks s1 smod 100 \<noteq> 0 \<or> mc_pcache s1 = [] \<longrightarrow> fb_hopclock k s \<noteq> None) \<and>
     (\<forall>s'. fb_hopclock k s = Some s' \<longrightarrow> aggs_ok s' (\<lambda>c. []) \<and>
        free_pending s' = free_pending s1 + length (pending_xc s1) \<and>
        (\<exists>ms. udp_out s' = udp_out s1 @ ms \<and>
           list_all2 carries ms (map (\<lambda>r. (ag_id r, D (ag_id r))) (pending_xc s1))))"
proof -
  obtain s2 ms where c: "aggregate_clean k (pending_xc s1) s1 = Some s2" "pending_xc s2 = []"
    "free_pending s2 = free_pending s1 + length (pending_xc s1)" "udp_out s2 = udp_out s1 @ ms"
    "list_all2 carries ms (map (\<lambda>r. (ag_id r, D (ag_id r))) (pending_xc s1))"
    using clean_sends [OF assms(5) refl assms(6)] by blast
  note f = aggregate_clean_frame [OF c(1)]
  have run: "fb_hopclock k s = (if ticks s2 smod 100 = 0 then remote_flush s2 else Some s2) \<bind>
      (\<lambda>s4. mtx_unlock s4 \<bind> (\<lambda>s5. Some (s5\<lparr>callout := True\<rparr>)))"
    using assms(1-4) c(1) by (simp add: fb_hopclock_def mtx_lock_def remote_aggregate_clean_def)
  have "fb_hopclock k s \<noteq> None" if "ticks s1 smod 100 \<noteq> 0 \<or> mc_pcache s1 = []"
    using that f assms(3) by (auto simp: run remote_flush_def mtx_unlock_def)
  moreover have "pending_xc s' = [] \<and> free_pending s' = free_pending s2 \<and> udp_out s' = udp_out s2"
    if s': "fb_hopclock k s = Some s'" for s'
    using s' c(2) remote_flush_frame [of s2] unfolding run
    by (auto simp: mtx_unlock_def split: if_splits Option.bind_splits)
  ultimately show ?thesis using c(3-5) by (auto simp: aggs_none)
qed

text \<open>C23. What one core puts into a frame another takes out: when the header and \<open>n\<close> digests have
  been trimmed off, the next packet \<open>remote_input\<close> builds carries digest \<open>n\<close> of the sender, field
  by field, and the chain is left at the following one.\<close>

theorem digests_arrive:
  assumes "carries (c, f) (c, ds)" "n < length ds" "info_ok (ds ! n)"
    and "mbufs s b = Some m" "m_data m = drop (28 + 48 * n) (m_data f)"
  shows "\<exists>cached s' p m'. take_digest a junk b s = Some (cached, s') \<and> fb_pkts s' a = Some p \<and>
     fp_info p = ds ! n \<and> (cached \<longleftrightarrow> fi_id (ds ! n) \<noteq> 0) \<and> mbufs s' b = Some m' \<and>
     m_data m' = drop (28 + 48 * (n + 1)) (m_data f)"
proof -
  have d: "m_data m = drop (48 * n) (concat (map info_bytes ds))"
  proof -
    have "m_data m = drop (48 * n) (drop 28 (m_data f))" using assms(5) by (simp add: add.commute)
    then show ?thesis using assms(1) unfolding carries_def fst_conv snd_conv by (simp only:)
  qed
  have "48 \<le> length (m_data m)" using assms(2) by (simp add: d digests.length_stream)
  moreover have "info_of_bytes (m_data m) = ds ! n" unfolding d by (rule digests.decode_at) (use assms in simp_all)
  moreover have "drop 48 (m_data m) = drop (28 + 48 * (n + 1)) (m_data f)"
    using assms(5) by (simp add: add.commute add.left_commute)
  ultimately show ?thesis
    using assms(4) by (auto simp: take_digest_def m_adj_def upd_mbuf_def Let_def)
qed

section \<open>Hop schedulers and the clock\<close>

text \<open>C21. The pool of hop schedulers is conserved: each allocated scheduler is in the free list or
  in the calendar exactly once, and stays so when a hop is scheduled (which always returns, with or
  without a scheduler left), when a hop is unscheduled, and when the clock drains a slot.\<close>

theorem hop_schedulers_conserved:
  assumes "hs_ok {#} s"
  shows "(\<exists>s'. xtq_schedule_hop hp f d s = Some s' \<and> hs_ok {#} s') \<and>
     (\<exists>s'. xtq_unschedule_hop hp s = Some s' \<and> hs_ok {#} s') \<and>
     (\<forall>s'. drain_hops k s = Some s' \<longrightarrow> hs_ok {#} s')"
  using schedule_ok [OF assms] unschedule_ok [OF assms] drain_ok [OF _ assms] by blast

text \<open>C38. With fewer than 1024 ticks a second, a router whose flows average a round trip of one unit
  (a 1024th of a second) gets the interval 0 at the end of the present one; its timeout schedules
  itself for the very slot the clock is draining, and \<open>hopclock\<close> never returns.\<close>

theorem tiny_rtt_hangs_clock:
  assumes "fb_tick s \<noteq> u32_of (ticks s)" "fb_calendar s = Some pcal" "length pcal = SCHEDLEN"
    and "pcal ! nat (cal_slot (fb_tick s)) = []" "hop_calendar s = Some cal" "length cal = SCHEDLEN"
    and "cal ! nat (cal_slot (fb_tick s)) = [(x, Te_Fn, hp)]" "free_hop_scheds s \<noteq> []"
    and "pipe_of hp s = Some (h, i, p)" "0 \<le> hz k" "hz k < 1024" "0 < sum_rtt_by_cwnd p"
    and "sum_rtt_square_by_cwnd p div sum_rtt_by_cwnd p = 1"
    and "te_update (hz k) (qsize h) (slotdepth h) p \<noteq> None"
  shows "fb_hopclock k s = None"
proof (rule spinning_clock [OF assms(1) _ assms(2-4)])
  have "zero_estimate k hp s" using assms(9-14) zero_rtt [of k p] by (auto simp: zero_estimate_def)
  then show "spins k s" using assms(5-8) by (auto simp: spins_def)
qed

section \<open>Where the module does not go on\<close>

lemma mtx_lock_locked: "mtx_lock s = Some s' \<Longrightarrow> mn_mtx s' = Some True"
  by (auto simp: mtx_lock_def split: if_splits)

lemma drop_pcache_mtx: "drop_pcache as s = Some s' \<Longrightarrow> mn_mtx s' = mn_mtx s"
proof (induction as arbitrary: s)
  case (Cons a as)
  obtain s1 s2 where 1: "uncache_pkt a s = Some s1" "fb_free_pkt a s1 = Some s2" "drop_pcache as s2 = Some s'"
    using Cons.prems by (auto split: Option.bind_splits)
  have "mn_mtx s1 = mn_mtx s" using 1(1) by (auto simp: uncache_pkt_def upd_fpkt_def split: if_splits Option.bind_splits)
  moreover have "mn_mtx s2 = mn_mtx s1" using 1(2)
    by (auto simp: fb_free_pkt_def m_freem_def null_handle_def split: Option.bind_splits option.splits if_splits)
  ultimately show ?case using Cons.IH [OF 1(3)] by simp
qed simp

text \<open>Unloading the FreeBSD module never comes back: the handler holds the mutex when it calls
  \<open>uninit_paths\<close>, which takes it again, whatever the state.\<close>

theorem unload_never_returns: "modelnet_modevent k MOD_UNLOAD s = None"
proof (cases "mtx_lock s")
  case None
  then show ?thesis by (simp add: modelnet_modevent_def fb_unload_def)
next
  case (Some s1)
  show ?thesis
  proof (cases "remote_uninit (xtq_uninit (s1\<lparr>callout := False\<rparr>))")
    case None
    then show ?thesis using Some by (simp add: modelnet_modevent_def fb_unload_def)
  next
    case (Some s2)
    then have "mn_mtx s2 = mn_mtx s1" using drop_pcache_mtx unfolding remote_uninit_def xtq_uninit_def by fastforce
    then have "mtx_lock s2 = None" using mtx_lock_locked [OF \<open>mtx_lock s = Some s1\<close>] by (simp add: mtx_lock_def)
    then show ?thesis using Some \<open>mtx_lock s = Some s1\<close> by (simp add: modelnet_modevent_def fb_unload_def fb_uninit_paths_def)
  qed
qed

lemma mgethdr_frame:
  "mgethdr s = (r, s') \<Longrightarrow> fb_pkts s' = fb_pkts s \<and> mc_pcache s' = mc_pcache s \<and> mn_state s' = mn_state s \<and>
   hoptable s' = hoptable s \<and> ticks s' = ticks s \<and> handles s' = handles s"
  by (auto simp: mgethdr_def split: list.splits bool.splits)

lemma mclget_frame:
  "mclget b s = Some s' \<Longrightarrow> fb_pkts s' = fb_pkts s \<and> mc_pcache s' = mc_pcache s \<and> mn_state s' = mn_state s \<and>
   hoptable s' = hoptable s \<and> ticks s' = ticks s \<and> handles s' = handles s"
  by (auto simp: mclget_def upd_mbuf_def split: list.splits bool.splits Option.bind_splits)

lemma add_digest_frame:
  "add_digest k i r s = Some (b, s') \<Longrightarrow> fb_pkts s' = fb_pkts s \<and> mc_pcache s' = mc_pcache s \<and> mn_state s' = mn_state s \<and>
   hoptable s' = hoptable s \<and> ticks s' = ticks s \<and> handles s' = handles s"
  using mgethdr_frame [of s] mclget_frame
  by (fastforce simp: add_digest_def upd_mbuf_def split: Option.bind_splits if_splits prod.splits)

lemma get_aggregate_frame:
  "get_aggregate d s = Some (r, s') \<Longrightarrow> fb_pkts s' = fb_pkts s \<and> mc_pcache s' = mc_pcache s \<and> mn_state s' = mn_state s \<and>
   hoptable s' = hoptable s \<and> ticks s' = ticks s \<and> handles s' = handles s"
  by (auto simp: get_aggregate_def Let_def split: option.splits if_splits)

lemma remote_aggregate_frame:
  assumes "remote_aggregate k a d s = Some (e, s')"
  shows "fb_pkts s' = fb_pkts s \<and> mc_pcache s' = mc_pcache s \<and> mn_state s' = mn_state s \<and>
   hoptable s' = hoptable s \<and> ticks s' = ticks s \<and> handles s' = handles s"
proof -
  obtain p where p: "fb_pkts s a = Some p" using assms by (auto simp: remote_aggregate_def split: Option.bind_splits)
  obtain r s1 where 1: "get_aggregate d s = Some (r, s1)" 
    and 2: "(if 48 \<le> u32_of (ag_left r) then do {
          (b, s2) \<leftarrow> add_digest k (fp_info p) r s1;
          let r' = r\<lparr>ag_m := Some b, ag_num := ag_num r + 1, ag_left := ag_left r - 48\<rparr>;
          Some (r', replace_aggregate r r' s2) }
        else Some (r, s1)) \<bind> (\<lambda>(r', s2). if u32_of (ag_left r') < 48 then remote_aggregate_send k r' s2 else Some (0, s2))
       = Some (e, s')"
    using assms p unfolding remote_aggregate_def by (auto split: Option.bind_splits)
  note f = get_aggregate_frame [OF 1]
  show ?thesis
  proof (cases "48 \<le> u32_of (ag_left r)")
    case True
    then obtain b s2 where 3: "add_digest k (fp_info p) r s1 = Some (b, s2)" using 2 by (auto split: Option.bind_splits)
    show ?thesis using 2 3 True f add_digest_frame [OF 3]
      by (auto simp: Let_def replace_aggregate_def split: if_splits dest!: remote_aggregate_send_frame)
  next
    case False
    then show ?thesis using 2 f by (auto split: if_splits dest!: remote_aggregate_send_frame)
  qed
qed

text \<open>C39. When a packet at its home core is cached and its digest cannot be sent on, it is freed
  although it stays in the packet cache: \<open>remote_hop\<close> has put it there, the error makes
  \<open>emulate_nexthop\<close> free it, and the next run of \<open>remote_flush\<close> reads the freed packet.\<close>

theorem failed_send_frees_cached:
  assumes hop: "deref_hop hp s = Some h" "emulator h \<noteq> 0"
    and on: "mn_state s AND MN_PCACHE \<noteq> 0" "mn_state s AND MN_AGGREGATE \<noteq> 0"
    and p: "fb_pkts s a = Some p" "fp_cachehost p = 0" "fi_hop (fp_info p) \<noteq> 0" "a \<noteq> 0"
    and m: "fp_m p = Some b" "mbufs s b = Some m" "mget32 m 12 = Some src" "src \<noteq> 0"
    and fail: "remote_hop k a (emulator h) s = Some (e, s1)" "e \<noteq> 0"
    and run: "fb_cross_hop k a hp s = Some s'"
  shows "a \<in> set (mc_pcache s') \<and> fb_pkts s' a = None \<and> (mc_pcache s = [] \<longrightarrow> remote_flush s' = None)"
proof -
  obtain dst where d: "mget32 m 16 = Some dst"
    using fail p m by (auto simp: remote_hop_def prepare_tunnel_def FB_PKT_HOME_def split: Option.bind_splits)
  define q where "q = p\<lparr>fp_info := (fp_info p)\<lparr>fi_src := src, fi_dst := dst, fi_ttl := s8 (mc_ttl s),
      fi_expire := u32_of (ticks s + mc_expire s), fi_id := a\<rparr>\<rparr>"
  define s0 where "s0 = s\<lparr>fb_pkts := (fb_pkts s)(a \<mapsto> q), mc_pcache := mc_pcache s @ [a],
      pcache_occupancy := pcache_occupancy s + 1\<rparr>"
  have prep: "prepare_tunnel a s = Some s0"
    using p m d on by (simp add: prepare_tunnel_def FB_PKT_HOME_def upd_fpkt_def add_pcache_def s0_def q_def)
  have q: "fb_pkts s0 a = Some q" "mn_state s0 = mn_state s" "FB_PKT_PCACHED q" "fi_src (fp_info q) = src"
    using p(4) by (simp_all add: s0_def q_def FB_PKT_PCACHED_def)
  have "remote_aggregate k a (emulator h) s0 = Some (e, s1)"
    using fail(1) p(1,3) prep m(4) on q by (simp add: remote_hop_def)
  note f = remote_aggregate_frame [OF this]
  have hop1: "deref_hop hp s1 = Some h"
    using hop(1) f by (simp add: deref_hop_def s0_def split: hop_ptr.splits)
  define q1 where "q1 = q\<lparr>fp_path := map_option (apsnd (\<lambda>j. j + 1)) (fp_path q),
         fp_info := (fp_info q)\<lparr>fi_hop := fi_hop (fp_info q) + 1\<rparr>\<rparr>"
  define s2 where "s2 = s1\<lparr>fb_pkts := (fb_pkts s1)(a \<mapsto> q1)\<rparr>"
  have hop2: "deref_hop hp s2 = Some h" using hop1 by (simp add: deref_hop_def s2_def split: hop_ptr.splits)
  have up: "upd_fpkt a (\<lambda>q. q\<lparr>fp_path := map_option (apsnd (\<lambda>j. j + 1)) (fp_path q),
         fp_info := (fp_info q)\<lparr>fi_hop := fi_hop (fp_info q) + 1\<rparr>\<rparr>) s1 = Some s2"
    using f by (simp add: upd_fpkt_def s2_def q1_def s0_def)
  have q1: "FB_PKT_HOME q1" "FB_PKT_PCACHED q1" "fb_pkts s2 a = Some q1"
    using p by (simp_all add: FB_PKT_HOME_def FB_PKT_PCACHED_def q1_def q_def s2_def)
  have "fb_free_pkt a s2 = Some s'"
    using run hop fail up q1 hop2 by (simp add: fb_cross_hop_def)
  then have fr: "fb_pkts s' = (fb_pkts s2)(a := None)" "mc_pcache s' = mc_pcache s2" "mn_state s' = mn_state s2"
    by (auto simp: fb_free_pkt_def null_handle_def m_freem_def split: Option.bind_splits option.splits if_splits)
  have pc: "mc_pcache s' = mc_pcache s @ [a]" "mn_state s' = mn_state s" using fr f by (simp_all add: s2_def s0_def)
  show ?thesis using fr(1) pc on(1) by (simp add: remote_flush_def)
qed

section \<open>Witnesses\<close>

definition ex_owed :: fb where
  "ex_owed = ex_fb\<lparr>mbufs := [3 \<mapsto> \<lparr>m_data = info_bytes (fp_info ex_cell), m_len = 48, m_pkthdr = True,
       m_pktlen = 48, csum_flags = 0, csum_data = 0, m_ext = True\<rparr>],
     pending_xc := [\<lparr>ag_id = 7, ag_m = Some 3, ag_num = 1, ag_left = 1424\<rparr>], free_pending := 31,
     fb_pkts := [64 \<mapsto> ex_cell]\<rparr>"

definition ex_debt :: "u32 \<Rightarrow> fb_remote list" where
  "ex_debt = (\<lambda>c. [])(7 := [fp_info ex_cell])"

lemma ex_owed_ok: "aggs_ok ex_owed ex_debt"
  by (simp add: aggs_ok_def agg_holds_def ex_owed_def ex_debt_def ex_fb_def)

lemma ex_route: "find_ifaddr ex_kern 7 = Some (Some 0x0100000a)"
  by (simp add: find_ifaddr_def ex_kern_def)

theorem aggregate_refines_queue_witness:
  "\<exists>e s' ms. remote_aggregate ex_kern 64 7 ex_owed = Some (e, s') \<and>
     aggs_ok s' (ex_debt(7 := [fp_info ex_cell, fp_info ex_cell])) \<and>
     udp_out s' = udp_out ex_owed @ ms \<and> list_all2 carries ms []"
  by (rule aggregate_refines_queue [OF ex_owed_ok, where p = ex_cell])
    (simp_all add: ex_route, simp_all add: ex_owed_def ex_fb_def ex_debt_def spec_aggregate_def)

theorem pending_digests_leave_witness:
  "\<exists>s' ms. fb_hopclock ex_kern (ex_owed\<lparr>ticks := 100\<rparr>) = Some s' \<and> pending_xc s' = [] \<and>
     udp_out s' = udp_out ex_owed @ ms \<and> list_all2 carries ms [(7, [fp_info ex_cell])]"
proof -
  let ?s = "ex_owed\<lparr>ticks := 100\<rparr>" and ?s1 = "ex_owed\<lparr>ticks := 100, mn_mtx := Some True\<rparr>"
  have t: "fb_ticks ex_kern (?s\<lparr>mn_mtx := Some True\<rparr>) = Some ?s1"
    by (subst fb_ticks.simps) (simp add: ex_owed_def ex_fb_def u32_of_def)
  have a: "aggs_ok ?s1 ex_debt" using ex_owed_ok by (simp add: aggs_ok_def agg_holds_def)
  have r: "\<forall>r \<in> set (pending_xc ?s1). \<exists>src. find_ifaddr ex_kern (ag_id r) = Some (Some src)"
    by (simp add: ex_owed_def ex_route)
  have m: "mn_mtx ?s = Some False" "mn_mtx ?s1 = Some True" "mn_state ?s1 AND MN_AGGREGATE \<noteq> 0"
    by (simp_all add: ex_owed_def ex_fb_def MN_AGGREGATE_def)
  have "mc_pcache ?s1 = []" by (simp add: ex_owed_def ex_fb_def)
  then obtain s' where s': "fb_hopclock ex_kern ?s = Some s'"
    using pending_digests_leave [OF m(1) t m(2,3) a r] by blast
  moreover have "pending_xc s' = [] \<and> (\<exists>ms. udp_out s' = udp_out ex_owed @ ms \<and>
      list_all2 carries ms [(7, [fp_info ex_cell])])"
    using pending_digests_leave [OF m(1) t m(2,3) a r, THEN conjunct2, rule_format, OF s']
    by (simp add: aggs_none ex_owed_def ex_debt_def)
  ultimately show ?thesis by blast
qed

definition ex_frame :: mbuf where
  "ex_frame = \<lparr>m_data = replicate 28 1 @ concat (map info_bytes [fp_info ex_cell, (fp_info ex_cell)\<lparr>fi_id := 5\<rparr>]),
     m_len = 124, m_pkthdr = True, m_pktlen = 124, csum_flags = 0, csum_data = 0, m_ext = True\<rparr>"

theorem digests_arrive_witness:
  "\<exists>cached s' p m'. take_digest 70 ex_cell 3 (ex_fb\<lparr>mbufs := [3 \<mapsto> m_adj 76 ex_frame]\<rparr>) = Some (cached, s') \<and>
     fb_pkts s' 70 = Some p \<and> fp_info p = [fp_info ex_cell, (fp_info ex_cell)\<lparr>fi_id := 5\<rparr>] ! 1 \<and>
     (cached \<longleftrightarrow> fi_id ([fp_info ex_cell, (fp_info ex_cell)\<lparr>fi_id := 5\<rparr>] ! 1) \<noteq> 0) \<and> mbufs s' 3 = Some m' \<and>
     m_data m' = drop (28 + 48 * (1 + 1)) (m_data ex_frame)"
  by (rule digests_arrive [where c = 7 and f = ex_frame and ds = "[fp_info ex_cell, (fp_info ex_cell)\<lparr>fi_id := 5\<rparr>]" and n = 1 and m = "m_adj 76 ex_frame"])
    (simp_all add: carries_def ex_frame_def info_ok_def ex_cell_def m_adj_def s32_def)

definition ex_idle :: fb where
  "ex_idle = ex_fb\<lparr>free_hop_scheds := [], allocate_idx := 0\<rparr>"

theorem hop_schedulers_conserved_witness:
  "\<exists>s'. xtq_schedule_hop (Hop_Ptr 1 0) Tq_Fn 7 ex_idle = Some s' \<and> hs_ok {#} s'"
proof (rule hop_schedulers_conserved [THEN conjunct1])
  show "hs_ok {#} ex_idle"
    by (simp add: ex_idle_def hs_ok_def ex_fb_def sched_ids_def SCHEDLEN_def MAX_ALLOCATIONS_def)
qed

definition ex_router :: xcp_pipe where
  "ex_router = \<lparr>routerId = 0, link_capacity_Kbytes = 100, Te = 50, Tq = 50, avg_rtt = 50, xi_pos = 1, xi_neg = 0,
     BTA = 10, BTF = 0, Queue_Kbytes = 0, input_traffic_Kbytes = 5, sum_rtt_by_cwnd = 2000,
     sum_rtt_square_by_cwnd = 2000, running_min_queue_Kbytes = 0, num_cc_packets_in_Te = 5, num_Kbytes_in_Te = 5\<rparr>"

definition ex_spin :: fb where
  "ex_spin = ex_fb\<lparr>hoptable := Some (1, [ex_link\<lparr>xtq := \<lparr>xq_type = 1, xq_callbacks = True, xt_hop = Some 9\<rparr>\<rparr>]),
     xcp_mem := [9 \<mapsto> ex_router], hop_calendar := Some ((replicate 16384 [])[100 := [(0, Te_Fn, Hop_Ptr 1 0)]])\<rparr>"

theorem tiny_rtt_hangs_clock_witness:
  "fb_hopclock ex_kern ex_spin = None"
proof (rule tiny_rtt_hangs_clock)
  show "fb_calendar ex_spin = Some (replicate 16384 [])" by (simp add: ex_spin_def ex_fb_def)
  show "hop_calendar ex_spin = Some ((replicate 16384 [])[100 := [(0, Te_Fn, Hop_Ptr 1 0)]])" by (simp add: ex_spin_def)
  have t: "nat (cal_slot (fb_tick ex_spin)) = 100" by (simp add: ex_spin_def ex_fb_def) code_simp
  show "replicate 16384 [] ! nat (cal_slot (fb_tick ex_spin)) = []" by (simp add: t)
  show "((replicate 16384 [])[100 := [(0, Te_Fn, Hop_Ptr 1 0)]]) ! nat (cal_slot (fb_tick ex_spin)) = [(0, Te_Fn, Hop_Ptr 1 0)]"
    by (simp add: t)
  show "pipe_of (Hop_Ptr 1 0) ex_spin = Some (ex_link\<lparr>xtq := \<lparr>xq_type = 1, xq_callbacks = True, xt_hop = Some 9\<rparr>\<rparr>, 9, ex_router)"
    by (simp add: pipe_of_def deref_hop_def ex_spin_def aget_def)
  show "te_update (hz ex_kern) (qsize (ex_link\<lparr>xtq := \<lparr>xq_type = 1, xq_callbacks = True, xt_hop = Some 9\<rparr>\<rparr>))
      (slotdepth (ex_link\<lparr>xtq := \<lparr>xq_type = 1, xq_callbacks = True, xt_hop = Some 9\<rparr>\<rparr>)) ex_router \<noteq> None" by code_simp
qed (simp_all add: ex_spin_def ex_fb_def ex_kern_def ex_router_def SCHEDLEN_def u32_of_def)

definition ex_fail_kern :: kern where
  "ex_fail_kern = ex_kern\<lparr>ip_output := \<lambda>m. 50\<rparr>"

text \<open>A packet on its second hop, which core 7 emulates, and an aggregate for 7 that is all but full.\<close>

definition ex_full :: fb where
  "ex_full = ex_fb\<lparr>hoptable := Some (1, [ex_link\<lparr>emulator := 7\<rparr>]),
     mbufs := [3 \<mapsto> ex_ip, 4 \<mapsto> \<lparr>m_data = replicate 1392 0, m_len = 1392, m_pkthdr = True, m_pktlen = 1392,
       csum_flags = 0, csum_data = 0, m_ext = True\<rparr>],
     fb_pkts := [64 \<mapsto> ex_cell\<lparr>fp_cachehost := 0, fp_m := Some 3, fp_path := Some (5, 0),
       fp_info := (fp_info ex_cell)\<lparr>fi_hop := 1\<rparr>\<rparr>],
     pending_xc := [\<lparr>ag_id = 7, ag_m = Some 4, ag_num = 29, ag_left = 80\<rparr>], free_pending := 31,
     handles := [99 \<mapsto> Some 3]\<rparr>"

lemma ex_route_fail: "find_ifaddr ex_fail_kern 7 = Some (Some 0x0100000a)"
  by (simp add: find_ifaddr_def ex_fail_kern_def ex_kern_def)

lemma ex_header: "mget32 ex_ip 12 = Some 0x0100000a" "mget32 ex_ip 16 = Some 0x0200000a" by code_simp+

lemma ex_send_fails:
  assumes "mbufs s b = Some m"
    and "\<And>s'. mbufs s' = (mbufs s)(b := None) \<Longrightarrow> fb_pkts s' = fb_pkts s \<Longrightarrow> hoptable s' = hoptable s \<Longrightarrow>
       handles s' = handles s \<Longrightarrow> Q (F (50, s'))"
  shows "Q (udp_send_out ex_fail_kern 7 sp dp (Some b) s \<bind> F)"
  using send_out_frame [OF assms(1) ex_route_fail, of sp dp] assms(2) by (auto simp: ex_fail_kern_def)

lemma ex_hop_fails:
  "\<exists>s1 q. remote_hop ex_fail_kern 64 7 ex_full = Some (50, s1) \<and> mbufs s1 3 = Some ex_ip \<and>
     fb_pkts s1 64 = Some q \<and> fp_m q = Some 3 \<and> hoptable s1 = hoptable ex_full \<and> handles s1 (fp_handle q) \<noteq> None"
  by (simp add: remote_hop_def prepare_tunnel_def ex_full_def ex_fb_def ex_header FB_PKT_HOME_def upd_fpkt_def
      MN_PCACHE_def add_pcache_def FB_PKT_PCACHED_def MN_AGGREGATE_def remote_aggregate_def get_aggregate_def u32_of_def
      add_digest_def storage_def MCLBYTES_def Let_def remote_aggregate_send_def ex_cell_def,
    rule ex_send_fails, simp_all add: replace_aggregate_def upd_mbuf_def)

theorem failed_send_frees_cached_witness:
  "\<exists>s'. fb_cross_hop ex_fail_kern 64 (Hop_Ptr 1 0) ex_full = Some s' \<and>
     64 \<in> set (mc_pcache s') \<and> fb_pkts s' 64 = None \<and> remote_flush s' = None"
proof -
  obtain s1 q where r: "remote_hop ex_fail_kern 64 7 ex_full = Some (50, s1)" "mbufs s1 3 = Some ex_ip"
    "fb_pkts s1 64 = Some q" "fp_m q = Some 3" "hoptable s1 = hoptable ex_full" "handles s1 (fp_handle q) \<noteq> None"
    using ex_hop_fails by blast
  have h: "deref_hop (Hop_Ptr 1 0) ex_full = Some (ex_link\<lparr>emulator := 7\<rparr>)"
    by (simp add: deref_hop_def ex_full_def aget_def)
  have h1: "deref_hop (Hop_Ptr 1 0) (s1\<lparr>fb_pkts := f\<rparr>) = Some (ex_link\<lparr>emulator := 7\<rparr>)" for f
    using r(5) h by (simp add: deref_hop_def)
  obtain y where "handles s1 (fp_handle q) = Some y" using r(6) by blast
  then have "fb_cross_hop ex_fail_kern 64 (Hop_Ptr 1 0) ex_full \<noteq> None"
    using r(1-5) h h1 by (simp add: fb_cross_hop_def upd_fpkt_def fb_free_pkt_def m_freem_def null_handle_def Let_def)
  then obtain s' where s': "fb_cross_hop ex_fail_kern 64 (Hop_Ptr 1 0) ex_full = Some s'" by blast
  have "64 \<in> set (mc_pcache s') \<and> fb_pkts s' 64 = None \<and> (mc_pcache ex_full = [] \<longrightarrow> remote_flush s' = None)"
  proof (rule failed_send_frees_cached [OF h])
    show "mbufs ex_full 3 = Some ex_ip" by (simp add: ex_full_def)
    show "mget32 ex_ip 12 = Some 0x0100000a" by (rule ex_header)
    show "remote_hop ex_fail_kern 64 (emulator (ex_link\<lparr>emulator := 7\<rparr>)) ex_full = Some (50, s1)" using r by simp
    show "fb_cross_hop ex_fail_kern 64 (Hop_Ptr 1 0) ex_full = Some s'" by (rule s')
    show "fb_pkts ex_full 64 = Some (ex_cell\<lparr>fp_m := Some 3, fp_cachehost := 0, fp_path := Some (5, 0),
       fp_info := (fp_info ex_cell)\<lparr>fi_hop := 1\<rparr>\<rparr>)" by (simp add: ex_full_def ex_cell_def)
  qed (simp_all add: ex_full_def ex_fb_def MN_PCACHE_def MN_AGGREGATE_def)
  moreover have "mc_pcache ex_full = []" by (simp add: ex_full_def ex_fb_def)
  ultimately show ?thesis using s' by blast
qed

lemma ex_nodes_two: "nodes_ok ex_fb = nodes_ok ex_topo"
  by (simp add: nodes_ok_def ex_fb_def ex_topo_def)

lemma ex_fb_idle: "fb_idle ex_fb"
proof -
  have "path_block 1 [0] = map Some [Hop_Ptr 1 0] @ [None]" by (simp add: path_block_def)
  moreover have "hop_ptr_ok ex_fb (Hop_Ptr 1 0)" by (simp add: hop_ptr_ok_def deref_hop_def ex_fb_def aget_def)
  ultimately have "paths_valid ex_fb"
    unfolding paths_valid_def by (auto simp: ex_fb_def split: if_splits intro!: exI [of _ "[Hop_Ptr 1 0]"])
  moreover have "topo_wf ex_fb" by (simp add: topo_wf_def paths_wf_def hops_wf_def cells_of_def ex_fb_def)
  moreover have "fb_hop_ready ex_link"
    by (simp add: fb_hop_ready_def ex_link_def bwq_wf_def ring_ok_def s32_def)
  ultimately have "one_core ex_fb"
    using ex_topo_nodes ex_nodes_two
    by (auto simp: one_core_def ex_fb_def path_block_def SCHEDLEN_def split: if_splits)
  moreover have "fb_flight [] ex_fb" by (simp add: fb_flight_def flight_ok_def ex_fb_def SCHEDLEN_def)
  ultimately show ?thesis by (simp add: fb_idle_def fb_inv_def) (simp add: ex_fb_def)
qed

lemma ex_ip_emulated: "emulated ex_ip"
  by (simp add: emulated_def ex_ip_def) code_simp

text \<open>A packet that has crossed its only hop waits for its tick in the calendar; its caller keeps the
  pointer 99, or has returned.\<close>

definition ex_waiter :: fb_packet where
  "ex_waiter = ex_cell\<lparr>fp_path := Some (5, 1), fp_m := Some 3, fp_cachehost := 0, fp_state := 3,
     fp_info := (fp_info ex_cell)\<lparr>fi_hop := 1\<rparr>\<rparr>"

definition ex_wait :: fb where
  "ex_wait = ex_fb\<lparr>fb_pkts := [64 \<mapsto> ex_waiter], cell_pos := 1, queued := 1, fb_calendar := Some ((replicate 16384 [])[100 := [64]]), handles := [99 \<mapsto> None]\<rparr>"

lemma ex_wait_idle: "fb_idle (ex_wait\<lparr>handles := H\<rparr>)"
proof -
  have c: "concat ((replicate 16384 [])[100 := [x]]) = [x]" for x :: u32
    by (simp add: upd_conv_take_nth_drop min_def)
  let ?p = ex_waiter
  have p: "fb_pkts ex_wait = [64 \<mapsto> ?p]" "fp_path ?p = Some (5, int 1)" "fi_hop (fp_info ?p) = word_of_nat 1"
    "fp_state ?p = 3" "fp_m ?p = Some 3" "fp_cachehost ?p = 0" "fi_id (fp_info ?p) = 0"
    by (simp_all add: ex_wait_def ex_waiter_def ex_cell_def)
  have "path_mem ex_wait 5 = Some (path_block 1 [0])" "1 < length (path_block 1 [0])" "mbufs ex_wait 3 \<noteq> None"
    by (simp_all add: ex_wait_def ex_fb_def path_block_def)
  then have "pkt_fit (path_mem ex_wait) (mbufs ex_wait) ?p" using p unfolding pkt_fit_def by blast
  then have "flight_ok [] ((replicate 16384 [])[100 := [64]]) (fb_pkts ex_wait) fp_m (pkt_fit (path_mem ex_wait) (mbufs ex_wait))"
    by (intro flight_okI, unfold c) (auto simp: SCHEDLEN_def p(1) split: if_splits)
  then have "fb_flight [] (ex_wait\<lparr>handles := H\<rparr>)" by (simp add: fb_flight_def) (simp add: ex_wait_def)
  moreover have "one_core (ex_wait\<lparr>handles := H\<rparr>) = one_core ex_fb"
    by (rule one_core_cong) (simp_all add: ex_wait_def)
  ultimately show ?thesis using ex_fb_idle by (simp add: fb_idle_def fb_inv_def) (simp add: ex_wait_def)
qed

lemma ex_wait_kept: "fb_idle ex_wait"
  using ex_wait_idle [of "handles ex_wait"] by simp

theorem one_core_runs_witness:
  "counters (ex_wait\<lparr>ticks := 103\<rparr>) = counters ex_wait \<and>
     (\<exists>s'. fb_hopclock ex_kern (ex_wait\<lparr>ticks := 103\<rparr>) = Some s' \<and> fb_idle s' \<and> fb_tick s' = 103) \<and>
     (\<exists>e s'. fb_filter_ipinput ex_kern 8 (receive 8 9 ex_ip (ex_wait\<lparr>ticks := 103\<rparr>)) = Some (e, s') \<and> fb_idle s')"
proof -
  have "fb_step ex_kern ex_wait (ex_wait\<lparr>ticks := 103\<rparr>)"
    using fb_step.time [of ex_kern ex_wait] by (simp add: ex_wait_def ex_fb_def)
  then have r: "(fb_step ex_kern)\<^sup>*\<^sup>* ex_wait (ex_wait\<lparr>ticks := 103\<rparr>)" by blast
  have "hz ex_kern \<noteq> 0" by (simp add: ex_kern_def)
  note w = one_core_runs [OF r ex_wait_kept this]
  have "mbufs (ex_wait\<lparr>ticks := 103\<rparr>) 9 = None \<and> emulated ex_ip \<and> fresh_cell (ex_wait\<lparr>ticks := 103\<rparr>)"
    using ex_ip_emulated by (simp add: fresh_cell_def ex_wait_def ex_fb_def)
  moreover have "callers (ex_wait\<lparr>ticks := 103\<rparr>)" by (simp add: callers_def ex_wait_def ex_waiter_def ex_cell_def)
  ultimately show ?thesis using w by (simp add: u32_of_def)
qed

theorem waiting_packet_writes_stale_witness: "fb_hopclock ex_kern (ex_wait\<lparr>handles := Map.empty\<rparr>) = None"
proof (rule waiting_packet_writes_stale [where p = ex_waiter and blk = 5 and i = 1 and arr = "path_block 1 [0]", OF ex_wait_idle])
  have t: "nat (cal_slot (fb_tick ex_wait)) = 100" by (simp add: ex_wait_def ex_fb_def) code_simp
  show "((replicate 16384 [])[100 := [64]]) ! nat (cal_slot (fb_tick (ex_wait\<lparr>handles := Map.empty\<rparr>))) = [64 :: u32]"
    by (simp add: t)
qed (simp_all add: ex_wait_def ex_waiter_def ex_fb_def ex_kern_def ex_cell_def path_block_def aget_def u32_of_def)

theorem hook_takes_or_refuses_witness:
  "\<exists>e s'. fb_filter_ipinput ex_kern 2 ex_fb = Some (e, s') \<and> fb_idle s' \<and> counters s' = counters ex_fb \<and>
     (if handles s' 2 = Some None then
        dom (mbufs s') - owned (fb_pkts s') fp_m = dom (mbufs ex_fb) - owned (fb_pkts ex_fb) fp_m - {3} \<and>
        (\<forall>c. c \<noteq> 3 \<longrightarrow> c \<notin> owned (fb_pkts ex_fb) fp_m \<longrightarrow> mbufs s' c = mbufs ex_fb c)
      else e = FB_ENOBUFS \<and> mbufs s' = mbufs ex_fb \<and> handles s' = handles ex_fb)"
  by (rule hook_takes_or_refuses [OF ex_fb_idle _ _ _ _ ex_ip_emulated])
    (simp_all add: fresh_cell_def ex_fb_def owned_def ex_kern_def)

end
