(* ===== verification/Fb_Xcp_Props.thy ===== *)
theory Fb_Xcp_Props
  imports Fb_Xcp
begin

text \<open>
  What the arithmetic of an XCP hop is good for. \<open>xcp_inv n p\<close> is the invariant of a pipe that
  has taken at most \<open>n\<close> data packets since its last estimate: no counter has wrapped, and no
  divisor of the next estimate is 0. A run of a pipe is a list of arrivals, departures and timeouts.
\<close>

section \<open>Words\<close>


lemma word_pos_uint: "0 < (x :: 'w::len word) \<longleftrightarrow> 0 < uint x"
  by (simp add: word_less_def)

lemma uint_plus_small: "uint (x :: u64) + uint y < 2 ^ 64 \<Longrightarrow> uint (x + y) = uint x + uint y"
  by (simp add: uint_word_ariths)

lemma uint_mult_small: "uint (x :: u64) * uint y < 2 ^ 64 \<Longrightarrow> uint (x * y) = uint x * uint y"
  by (simp add: uint_word_ariths)

lemma uint_ucast_64: "uint (ucast (x :: u32) :: u64) = uint x"
  by (simp add: uint_up_ucast is_up)

lemma uint32_less: "uint (x :: u32) < 2 ^ 32"
  using uint_lt2p [of x] by simp

section \<open>The invariant\<close>

definition xcp_inv :: "nat \<Rightarrow> xcp_pipe \<Rightarrow> bool" where
  "xcp_inv n p \<longleftrightarrow> 0 < Te p \<and> 0 < avg_rtt p \<and>
     uint (sum_rtt_by_cwnd p) \<le> uint (sum_rtt_square_by_cwnd p) \<and>
     uint (sum_rtt_square_by_cwnd p) \<le> 65535 * uint (sum_rtt_by_cwnd p) \<and>
     uint (sum_rtt_by_cwnd p) \<le> int n * (2 ^ 32 - 1) \<and>
     uint (num_Kbytes_in_Te p) \<le> int n * 2 ^ 32 \<and>
     (0 < sum_rtt_by_cwnd p \<longrightarrow> 0 < num_Kbytes_in_Te p)"

lemma enqueue_inv:
  assumes inv: "xcp_inv n p" and n: "n < 65536" and rtt: "uint (xcp_rtt i) \<le> 65535"
  shows "xcp_inv (Suc n) (xcp_enqueue hz p i)"
proof -
  let ?kb = "ucast (fi_len i div 1000) :: u64" and ?r = "arrival_inv_rate i"
  have kb: "uint ?kb < 2 ^ 32" by (simp only: uint_ucast_64 uint32_less)
  have r: "uint ?r < 2 ^ 32" unfolding arrival_inv_rate_def using uint32_less by (simp add: uint_ucast_64)
  have n': "int n \<le> 65535" using n by simp
  have s: "uint (sum_rtt_by_cwnd p) \<le> 65535 * (2 ^ 32 - 1)" "uint (num_Kbytes_in_Te p) \<le> 65535 * 2 ^ 32"
    using inv n' unfolding xcp_inv_def by (simp_all add: order_trans)
  have k1: "uint (num_Kbytes_in_Te p + ?kb) = uint (num_Kbytes_in_Te p) + uint ?kb"
    by (rule uint_plus_small) (use s kb in simp)
  have s1: "uint (sum_rtt_by_cwnd p + ?r) = uint (sum_rtt_by_cwnd p) + uint ?r"
    by (rule uint_plus_small) (use s r in simp)
  have m: "uint (xcp_rtt i) * uint ?r \<le> 65535 * (2 ^ 32 - 1)"
    by (rule mult_mono) (use rtt r in auto)
  have m1: "uint (ucast (xcp_rtt i) * ?r) = uint (xcp_rtt i) * uint ?r"
    by (subst uint_mult_small) (use m in \<open>simp_all add: uint_ucast_64\<close>)
  have q: "uint (sum_rtt_square_by_cwnd p) \<le> 65535 * (65535 * (2 ^ 32 - 1))"
    using inv s unfolding xcp_inv_def by linarith
  have q1: "uint (sum_rtt_square_by_cwnd p + ucast (xcp_rtt i) * ?r)
      = uint (sum_rtt_square_by_cwnd p) + uint (xcp_rtt i) * uint ?r"
    by (subst uint_plus_small) (use q m in \<open>simp_all add: m1\<close>)
  have pos: "0 < uint (xcp_rtt i) \<and> 0 < uint ?kb" if "0 < uint ?r"
    using that by (cases "xcp_rtt i = 0"; cases "fi_len i div 1000 = 0")
      (auto simp: arrival_inv_rate_def uint_ucast_64 word_pos_uint [symmetric] word_neq_0_conv [symmetric] split: if_splits)
  have le: "uint ?r \<le> uint (xcp_rtt i) * uint ?r" "uint (xcp_rtt i) * uint ?r \<le> 65535 * uint ?r"
    using pos rtt by (cases "uint ?r = 0"; force intro: mult_right_mono simp: mult_le_cancel_right1)+
  have a: "uint (x::u64) \<le> int n * c \<Longrightarrow> uint y \<le> c \<Longrightarrow> uint x + uint (y::u64) \<le> int (Suc n) * c" for x y c
    by (simp add: algebra_simps)
  have imp: "0 < uint (num_Kbytes_in_Te p) + uint ?kb" if "0 < uint (sum_rtt_by_cwnd p) + uint ?r"
    using inv pos that uint_ge_0 [of ?kb] uint_ge_0 [of "num_Kbytes_in_Te p"] uint_ge_0 [of "sum_rtt_by_cwnd p"]
    unfolding xcp_inv_def word_pos_uint by (cases "0 < uint ?r") linarith+
  have g1: "xcp_inv (Suc n) (p\<lparr>input_traffic_Kbytes := x\<rparr>)" for x
    using inv unfolding xcp_inv_def by (simp add: distrib_right)
  have g2: "xcp_inv (Suc n) (p\<lparr>input_traffic_Kbytes := x, num_cc_packets_in_Te := y,
      num_Kbytes_in_Te := num_Kbytes_in_Te p + ?kb\<rparr>)" for x y
    using inv kb unfolding xcp_inv_def word_pos_uint by (auto simp: distrib_right k1 intro: add_pos_nonneg)
  have g3: "xcp_inv (Suc n) (p\<lparr>input_traffic_Kbytes := x, num_cc_packets_in_Te := y,
      num_Kbytes_in_Te := num_Kbytes_in_Te p + ?kb, sum_rtt_by_cwnd := sum_rtt_by_cwnd p + ?r,
      sum_rtt_square_by_cwnd := sum_rtt_square_by_cwnd p + ucast (xcp_rtt i) * ?r\<rparr>)" for x y
    using inv kb r le imp unfolding xcp_inv_def word_pos_uint by (auto simp: distrib_right k1 s1 q1)
  show ?thesis using g1 g2 g3 by (simp add: xcp_enqueue_def Let_def)
qed


section \<open>Estimates\<close>

lemma estimate_bounds:
  assumes inv: "xcp_inv n p" and s: "0 < sum_rtt_by_cwnd p" and n: "n \<le> 65536"
  defines "avg \<equiv> sum_rtt_square_by_cwnd p div sum_rtt_by_cwnd p"
  shows "1 \<le> uint avg" "uint avg \<le> 65535" "sum_rtt_by_cwnd p * avg \<noteq> 0" "avg * num_Kbytes_in_Te p \<noteq> 0"
proof -
  have s0: "0 < uint (sum_rtt_by_cwnd p)" using s by (simp add: word_pos_uint)
  have a: "uint avg = uint (sum_rtt_square_by_cwnd p) div uint (sum_rtt_by_cwnd p)"
    by (simp add: avg_def uint_div)
  have le: "uint (sum_rtt_by_cwnd p) \<le> uint (sum_rtt_square_by_cwnd p)"
    "uint (sum_rtt_square_by_cwnd p) \<le> 65535 * uint (sum_rtt_by_cwnd p)" using inv by (simp_all add: xcp_inv_def)
  show a1: "1 \<le> uint avg" unfolding a using le s0 by (metis div_self less_irrefl zdiv_mono1)
  have "uint avg \<le> (65535 * uint (sum_rtt_by_cwnd p)) div uint (sum_rtt_by_cwnd p)"
    unfolding a by (rule zdiv_mono1 [OF le(2) s0])
  then show a2: "uint avg \<le> 65535" using s0 by simp
  have "uint (sum_rtt_by_cwnd p) * uint avg \<le> uint (sum_rtt_square_by_cwnd p)"
    unfolding a minus_mod_eq_mult_div [symmetric] using s0 by simp
  then have "uint (sum_rtt_by_cwnd p) * uint avg < 2 ^ 64" using uint_lt2p [of "sum_rtt_square_by_cwnd p"] by simp
  then have "uint (sum_rtt_by_cwnd p * avg) = uint (sum_rtt_by_cwnd p) * uint avg" by (rule uint_mult_small)
  moreover have "0 < uint (sum_rtt_by_cwnd p) * uint avg" using s0 a1 by simp
  ultimately show "sum_rtt_by_cwnd p * avg \<noteq> 0" by (metis less_irrefl uint_0_eq)
  have k: "uint (num_Kbytes_in_Te p) \<le> int n * 2 ^ 32" "0 < uint (num_Kbytes_in_Te p)"
    using inv s by (simp_all add: xcp_inv_def word_pos_uint)
  have "uint (num_Kbytes_in_Te p) \<le> 65536 * 2 ^ 32" using k(1) n by simp
  then have "uint avg * uint (num_Kbytes_in_Te p) \<le> 65535 * (65536 * 2 ^ 32)" by (rule mult_mono [OF a2]) simp_all
  then have "uint (avg * num_Kbytes_in_Te p) = uint avg * uint (num_Kbytes_in_Te p)" by (intro uint_mult_small) simp
  moreover have "0 < uint avg * uint (num_Kbytes_in_Te p)" using k(2) a1 by simp
  ultimately show "avg * num_Kbytes_in_Te p \<noteq> 0" by (metis less_irrefl uint_0_eq)
qed

lemma te_update_inv:
  assumes inv: "xcp_inv n p" and n: "n \<le> 65536" and hz: "1024 \<le> hz" "hz < 2 ^ 31"
  shows "\<exists>p'. te_update hz q d p = Some p' \<and> xcp_inv 0 p' \<and> link_capacity_Kbytes p' = link_capacity_Kbytes p"
proof (cases "0 < sum_rtt_by_cwnd p")
  case False
  then show ?thesis using inv by (simp add: te_update_def xcp_inv_def)
next
  case True
  define avg where "avg = sum_rtt_square_by_cwnd p div sum_rtt_by_cwnd p"
  note b = estimate_bounds [OF inv True n, folded avg_def]
  have te: "Te p \<noteq> 0" using inv by (auto simp: xcp_inv_def)
  have "uint (u64_of hz) = hz" using hz by (simp add: u64_of_def uint_word_of_int_eq take_bit_int_eq_self)
  moreover have "uint avg * hz \<le> 65535 * 2 ^ 31" by (rule mult_mono) (use b hz in auto)
  ultimately have m: "uint (avg * u64_of hz) = uint avg * hz" by (simp add: uint_mult_small)
  have "1024 \<le> uint avg * hz" using mult_mono [of 1 "uint avg" 1024 hz] b(1) hz by simp
  then have "0 < uint (drop_bit FP_SHIFT (avg * u64_of hz))"
    by (simp add: FP_SHIFT_def drop_bit_eq_div uint_div m)
  then have "0 < drop_bit FP_SHIFT (avg * u64_of hz)" by (simp add: word_pos_uint)
  then show ?thesis using True te b(3,4)
    by (simp add: te_update_def te_feedback_def udiv_def avg_def [symmetric] Let_def xcp_inv_def)
qed


section \<open>Departures\<close>

lemma spend_keeps [simp]:
  "xcp_inv n (spend_own hz rtt a b p) = xcp_inv n p" "link_capacity_Kbytes (spend_own hz rtt a b p) = link_capacity_Kbytes p"
  "xcp_inv n (spend_upstream hz rtt f a b p) = xcp_inv n p"
  "link_capacity_Kbytes (spend_upstream hz rtt f a b p) = link_capacity_Kbytes p"
  by (simp_all add: spend_own_def spend_upstream_def xcp_inv_def Let_def)

text \<open>A packet whose window is below 1000 bytes.\<close>

definition tiny_window :: "fb_remote \<Rightarrow> bool" where
  "tiny_window i \<longleftrightarrow> 0 < xcp_cwnd i \<and> xcp_cwnd i < 1000 \<and> 0 < xcp_rtt i \<and> fi_len i \<noteq> 0"

lemma div_1000_zero: "(w :: u32) div 1000 = 0 \<longleftrightarrow> w < 1000"
  by (auto simp: uint_0_iff [symmetric] uint_div word_less_def zdiv_eq_0_iff)

lemma ucast_64_eq_0: "(ucast (w :: u32) :: u64) = 0 \<longleftrightarrow> w = 0"
  by (simp add: uint_0_iff [symmetric] uint_ucast_64)

lemma fill_in_feedback_defined:
  "fill_in_feedback hz p i = None \<longleftrightarrow> tiny_window i"
  by (auto simp: fill_in_feedback_def pos_neg_feedback_def udiv_def tiny_window_def ucast_64_eq_0 div_1000_zero Let_def)

lemma dequeue_inv:
  assumes "xcp_inv n p" "\<not> tiny_window i"
  shows "\<exists>p' i'. xcp_dequeue hz bd p i = Some (p', i') \<and> xcp_inv n p' \<and> link_capacity_Kbytes p' = link_capacity_Kbytes p"
proof -
  let ?p = "if u64_of (bd sdiv MULTI_FAC) < running_min_queue_Kbytes p
     then p\<lparr>running_min_queue_Kbytes := u64_of (bd sdiv MULTI_FAC)\<rparr> else p"
  have p: "xcp_inv n ?p" "link_capacity_Kbytes ?p = link_capacity_Kbytes p" using assms(1) by (simp_all add: xcp_inv_def)
  obtain p' i' where f: "fill_in_feedback hz ?p i = Some (p', i')"
    using fill_in_feedback_defined [of hz ?p i] assms(2) by auto
  have "xcp_inv n p' \<and> link_capacity_Kbytes p' = link_capacity_Kbytes p"
    using f p by (auto simp: fill_in_feedback_def Let_def simp del: if_split_asm split: if_splits Option.bind_splits prod.splits)
  then show ?thesis using f by (simp add: xcp_dequeue_def)
qed


section \<open>Runs\<close>

text \<open>\<open>traffic_ok\<close>: round trips below 64 seconds, at most 65536 data packets between two estimates,
  and no departing packet with a window below 1000 bytes.\<close>

datatype xcp_event = Arrival fb_remote | Departure int fb_remote | Te_fires int int | Tq_fires int

fun xcp_step :: "int \<Rightarrow> xcp_event \<Rightarrow> xcp_pipe \<Rightarrow> xcp_pipe option" where
  "xcp_step hz (Arrival i) p = Some (xcp_enqueue hz p i)"
| "xcp_step hz (Departure bd i) p = map_option fst (xcp_dequeue hz bd p i)"
| "xcp_step hz (Te_fires q d) p = te_update hz q d p"
| "xcp_step hz (Tq_fires bd) p = tq_update hz bd p"

fun xcp_run :: "int \<Rightarrow> xcp_event list \<Rightarrow> xcp_pipe \<Rightarrow> xcp_pipe option" where
  "xcp_run hz [] p = Some p"
| "xcp_run hz (e # es) p = do { p' \<leftarrow> xcp_step hz e p; xcp_run hz es p' }"

fun traffic_ok :: "nat \<Rightarrow> xcp_event list \<Rightarrow> bool" where
  "traffic_ok n [] \<longleftrightarrow> True"
| "traffic_ok n (Arrival i # es) \<longleftrightarrow> n < 65536 \<and> uint (xcp_rtt i) \<le> 65535 \<and> traffic_ok (Suc n) es"
| "traffic_ok n (Departure bd i # es) \<longleftrightarrow> \<not> tiny_window i \<and> traffic_ok n es"
| "traffic_ok n (Te_fires q d # es) \<longleftrightarrow> traffic_ok 0 es"
| "traffic_ok n (Tq_fires bd # es) \<longleftrightarrow> traffic_ok n es"

lemma tq_update_inv:
  assumes "xcp_inv n p" "0 < uint (link_capacity_Kbytes p)" "uint (link_capacity_Kbytes p) < 2 ^ 31"
  shows "\<exists>p'. tq_update hz bd p = Some p' \<and> xcp_inv n p' \<and> link_capacity_Kbytes p' = link_capacity_Kbytes p"
proof -
  have m: "uint (u64_of MULTI_FAC) = 1000" by (simp add: u64_of_def MULTI_FAC_def)
  have "uint (u64_of MULTI_FAC * link_capacity_Kbytes p) = 1000 * uint (link_capacity_Kbytes p)"
    by (subst uint_mult_small) (use assms m in simp_all)
  then have "u64_of MULTI_FAC * link_capacity_Kbytes p \<noteq> 0" using assms(2) by (metis mult_pos_pos zero_less_numeral less_irrefl uint_0_eq)
  then show ?thesis using assms(1) by (simp add: tq_update_def udiv_def xcp_inv_def)
qed

lemma xcp_run_safe:
  "xcp_inv n p \<Longrightarrow> n \<le> 65536 \<Longrightarrow> traffic_ok n es \<Longrightarrow> 0 < uint (link_capacity_Kbytes p) \<Longrightarrow>
   uint (link_capacity_Kbytes p) < 2 ^ 31 \<Longrightarrow> 1024 \<le> hz \<Longrightarrow> hz < 2 ^ 31 \<Longrightarrow>
   \<exists>p' m. xcp_run hz es p = Some p' \<and> xcp_inv m p'"
proof (induction es arbitrary: n p)
  case (Cons e es)
  have "\<exists>p' m. xcp_step hz e p = Some p' \<and> xcp_inv m p' \<and> m \<le> 65536 \<and> traffic_ok m es \<and>
     link_capacity_Kbytes p' = link_capacity_Kbytes p"
  proof (cases e)
    case (Arrival i)
    have "link_capacity_Kbytes (xcp_enqueue hz p i) = link_capacity_Kbytes p" by (simp add: xcp_enqueue_def Let_def)
    then show ?thesis using Arrival Cons.prems enqueue_inv [OF Cons.prems(1), of i hz]
      by (intro exI [of _ "xcp_enqueue hz p i"] exI [of _ "Suc n"]) simp
  next
    case (Departure bd i)
    then show ?thesis using Cons.prems dequeue_inv [OF Cons.prems(1), of i hz bd] by auto
  next
    case (Te_fires q d)
    then show ?thesis using Cons.prems te_update_inv [OF Cons.prems(1,2), of hz q d] by auto
  next
    case (Tq_fires bd)
    then show ?thesis using Cons.prems tq_update_inv [OF Cons.prems(1,4,5), of hz bd] by auto
  qed
  then show ?case using Cons by (metis (no_types, lifting) bind.bind_lunit xcp_run.simps(2))
qed auto

lemma fresh_inv:
  assumes hz: "20 \<le> hz" "hz < 2 ^ 31" and k: "0 < k" "k < 2 ^ 31"
  shows "xcp_inv 0 (fresh_pipe hz k q r)" "uint (link_capacity_Kbytes (fresh_pipe hz k q r)) = k"
proof -
  have "hz sdiv 20 = hz div 20" using hz by (simp add: sdiv_nonneg)
  then have "1 \<le> hz sdiv 20" "hz sdiv 20 < 2 ^ 31" using hz by auto
  then have "uint (u64_of (INITIAL_Te_VALUE hz)) = hz sdiv 20"
    by (simp add: u64_of_def INITIAL_Te_VALUE_def uint_word_of_int_eq take_bit_int_eq_self)
  then have "0 < u64_of (INITIAL_Te_VALUE hz)" using \<open>1 \<le> hz sdiv 20\<close> by (simp add: word_pos_uint)
  then show "xcp_inv 0 (fresh_pipe hz k q r)" by (simp add: xcp_inv_def fresh_pipe_def Let_def)
  have "s32 k = k" using k by (simp add: s32_id)
  then show "uint (link_capacity_Kbytes (fresh_pipe hz k q r)) = k" using k
    by (simp add: fresh_pipe_def MULTI_FAC_def Let_def u64_of_def uint_word_of_int_eq take_bit_int_eq_self)
qed

text \<open>C19. An XCP router survives its traffic: with at least 1024 clock ticks a second and a link
  of nonzero bandwidth, a pipe that starts fresh never divides by 0, whatever packets arrive and
  depart and however the timeouts fall, as long as the traffic is within \<open>traffic_ok\<close>; and the
  interval to its next estimate is never 0 ticks.\<close>

theorem xcp_router_runs:
  assumes "1024 \<le> hz" "hz < 2 ^ 31" "0 < kbps" "kbps < 2 ^ 31" "traffic_ok 0 es"
  shows "\<exists>p. xcp_run hz es (fresh_pipe hz kbps q r) = Some p \<and> 0 < Te p \<and> 0 < avg_rtt p"
  using xcp_run_safe [OF fresh_inv(1) [of hz kbps q r], of es hz] fresh_inv(2) [of hz kbps q r] assms
  by (force simp: xcp_inv_def)


section \<open>The budgets\<close>

definition queue_room :: "int \<Rightarrow> int \<Rightarrow> int" where
  "queue_room q d = 614 * q div 1024 - d"

lemma uint_u64_of: "uint (u64_of x) = x mod 2 ^ 64"
  by (simp only: u64_of_def uint_word_of_int) simp

lemma s32_small: "\<bar>x\<bar> < 2 ^ 31 \<Longrightarrow> s32 x = x"
  by (rule s32_id) auto

text \<open>The cap on what an estimate may hand out holds only while the queue is at most 60 percent
  full: then it is the free room, but when the queue is fuller the negative room is compared as an
  unsigned number, and the increase is not capped at all.\<close>

theorem increase_cap:
  assumes q: "0 \<le> q" "q < 2 ^ 20" and d: "0 \<le> d" "d \<le> q" and b: "uint bta < 2 ^ 63"
  shows "cap_increase q d bta
     = (if queue_room q d < 0 then bta else min bta (u64_of (1024 * queue_room q d)))"
proof -
  have r: "- (2 ^ 20) < queue_room q d" "queue_room q d < 2 ^ 20" using q d unfolding queue_room_def by linarith+
  have 1: "s32 (614 * q) = 614 * q" by (rule s32_small) (use q in simp)
  have 2: "s32 (614 * q div 1024 - d) = queue_room q d" unfolding queue_room_def [symmetric]
    by (rule s32_small) (use r in simp)
  have 3: "s32 (queue_room q d * 1024) = 1024 * queue_room q d" 
    by (subst s32_small) (use r in \<open>simp_all add: mult.commute\<close>)
  have l: "cap_increase q d bta = (if u64_of (1024 * queue_room q d) < bta
      then u64_of (max 0 (1024 * queue_room q d)) else bta)"
    using 1 2 3 by (simp add: cap_increase_def xcp_consts drop_bit_eq_div)
  show ?thesis
  proof (cases "queue_room q d < 0")
    case True
    have "uint (u64_of (1024 * queue_room q d)) = 1024 * queue_room q d + 2 ^ 64"
    proof -
      have "(1024 * queue_room q d) mod 2 ^ 64 = (1024 * queue_room q d + 2 ^ 64) mod 2 ^ 64" by simp
      also have "\<dots> = 1024 * queue_room q d + 2 ^ 64" by (rule mod_pos_pos_trivial) (use r True in simp_all)
      finally show ?thesis by (simp only: uint_u64_of)
    qed
    then have "\<not> u64_of (1024 * queue_room q d) < bta" using b r by (simp add: word_less_def)
    then show ?thesis using l True by simp
  next
    case False
    then show ?thesis using l by (auto simp: min_def max_def not_le)
  qed
qed

text \<open>A packet whose share exceeds what is left of the budget for increases raises that budget:
  the subtraction wraps, and the maximum with 0 that should stop it is taken of an unsigned value.\<close>

theorem overspending_raises_budget:
  assumes "pos_neg_feedback p i = Some (pos, neg)" "BTA p < TE_BY_RTT hz p (ucast (xcp_rtt i)) pos"
    and "0 < xcp_cwnd i" "0 < xcp_rtt i" "fi_len i \<noteq> 0" "fill_in_feedback hz p i = Some (p', i')"
    and "s32 (drop_bit 10 (s64 (sint (pos - neg) * 1000))) \<le> xcp_src_fdbk i"
  shows "BTA p < BTA p'"
proof -
  have p': "BTA p' = BTA p - TE_BY_RTT hz p (ucast (xcp_rtt i)) pos"
    using assms(1,3-7) by (auto simp: fill_in_feedback_def spend_own_def xcp_consts Let_def)
  have "x - y > x" if "x < y" for x y :: u64
    using that uint_lt2p [of y] by (simp add: word_less_def uint_sub_if')
  then show ?thesis unfolding p' using assms(2) .
qed

section \<open>Examples\<close>

definition ex_pipe :: xcp_pipe where
  "ex_pipe = (fresh_pipe 2000 1000 50 0)\<lparr>Te := 2000, BTA := 10, xi_pos := 5\<rparr>"

definition ex_info :: fb_remote where
  "ex_info = \<lparr>fi_id = 0, fi_expire = 0, fi_len = 1500, fi_wait_time = 0, fi_src = 0, fi_dst = 0,
     fi_hop = 1, fi_ttl = 40, xcp_cwnd = 3000, xcp_src_fdbk = 100000, xcp_rflct_fdbk = 0, xcp_rtt = 100\<rparr>"

definition ex_traffic :: "xcp_event list" where
  "ex_traffic = [Arrival ex_info, Departure 1500 ex_info, Te_fires 50 1, Tq_fires 3000, Te_fires 50 0]"

theorem xcp_router_runs_witness:
  "\<exists>p. xcp_run 2000 ex_traffic (fresh_pipe 2000 1000 50 7) = Some p \<and> 0 < Te p \<and> 0 < avg_rtt p"
  by (rule xcp_router_runs)
    (simp_all add: ex_traffic_def ex_info_def tiny_window_def)

theorem increase_cap_witness:
  "cap_increase 50 20 90000 = (if queue_room 50 20 < 0 then 90000 else min 90000 (u64_of (1024 * queue_room 50 20)))
   \<and> cap_increase 50 30 90000 = (if queue_room 50 30 < 0 then 90000 else min 90000 (u64_of (1024 * queue_room 50 30)))"
  using increase_cap [of 50 20 90000] increase_cap [of 50 30 90000] by simp

theorem overspending_raises_budget_witness:
  "BTA ex_pipe < BTA (fst (the (fill_in_feedback 2000 ex_pipe ex_info)))"
proof (rule overspending_raises_budget [where i = ex_info and pos = 10 and neg = 0 and hz = 2000
      and i' = "snd (the (fill_in_feedback 2000 ex_pipe ex_info))"])
  show "pos_neg_feedback ex_pipe ex_info = Some (10, 0)" by code_simp
  show "BTA ex_pipe < TE_BY_RTT 2000 ex_pipe (ucast (xcp_rtt ex_info)) 10" by code_simp
  show "fill_in_feedback 2000 ex_pipe ex_info = Some (fst (the (fill_in_feedback 2000 ex_pipe ex_info)),
      snd (the (fill_in_feedback 2000 ex_pipe ex_info)))" by code_simp
  show "s32 (drop_bit 10 (s64 (sint (10 - 0 :: u64) * 1000))) \<le> xcp_src_fdbk ex_info" by code_simp
qed (simp_all add: ex_info_def)

end
