(* ===== verification/Lx_Tcpdump.thy ===== *)
theory Lx_Tcpdump
  imports Lx_Pathtable
begin

text \<open>
  emulator/linux/module/mn_tcpdump.c, the packet traces of the Linux module (built with
  MN_TCPDUMP): packets crossing a traced link are recorded in the store buffer; the buffers are
  rotated when the next record would not fit, or after a second without that, and a reader of
  /proc empties the hold buffer. The time of day and the bytes of the packet from its IP header on
  are arguments.
\<close>

section \<open>State\<close>

text \<open>A buffer that is NULL is \<open>None\<close>; the wake-ups of the reader are counted.\<close>

record tcpdump =
  tick_counter :: u32
  holdbuf :: "u8 list option"
  storebuf :: "u8 list option"
  hold_len :: u32
  store_len :: u32
  dropcount :: int
  capture_length :: u32
  wakeups :: nat

definition TCPDUMP_BUF_SIZE :: nat where "TCPDUMP_BUF_SIZE = 524288"

text \<open>\<open>sizeof(struct mn_tcpdump_hdr)\<close> on a 64-bit kernel: two 64-bit words of the time of day, three
  unsigned ints and four bytes of padding.\<close>

definition TRACE_HDR :: nat where "TRACE_HDR = 32"

definition rotate_buffers :: "tcpdump \<Rightarrow> tcpdump" where
  "rotate_buffers s = s\<lparr>holdbuf := storebuf s, hold_len := store_len s, storebuf := holdbuf s, store_len := 0\<rparr>"

text \<open>\<open>vmalloc\<close> of a buffer, with the garbage it holds; \<open>kfree\<close> of vmalloc memory is a bug
  the kernel stops at.\<close>

definition init_mn_tcpdump_buffers :: "u8 list option \<Rightarrow> u8 list option \<Rightarrow> tcpdump \<Rightarrow> (int \<times> tcpdump) option" where
  "init_mn_tcpdump_buffers m1 m2 s =
     (if holdbuf s \<noteq> None \<or> storebuf s \<noteq> None then None
      else
        let s1 = s\<lparr>holdbuf := m1\<rparr> in
        if m1 = None then Some (ENOMEM, s1)
        else
          let s2 = s1\<lparr>storebuf := m2\<rparr> in
          if m2 = None then Some (ENOMEM, s2)
          else Some (0, s2\<lparr>dropcount := 0, store_len := 0, hold_len := 0, tick_counter := 0\<rparr>))"

section \<open>Recording\<close>

text \<open>\<open>struct mn_tcpdump_hdr\<close>. \<open>struct timeval\<close> is a pair of longs, stored little-endian; the padding
  after the last member is zero, since the code clears the whole header first.\<close>

definition bytes64 :: "64 word \<Rightarrow> u8 list" where
  "bytes64 w = bytes32 (ucast w) @ bytes32 (ucast (drop_bit 32 w))"

definition trace_hdr :: "64 word \<times> 64 word \<Rightarrow> u32 \<Rightarrow> u32 \<Rightarrow> u32 \<Rightarrow> u8 list" where
  "trace_hdr tv link plen clen =
     bytes64 (fst tv) @ bytes64 (snd tv) @ bytes32 link @ bytes32 plen @ bytes32 clen @ replicate 4 0"

text \<open>Writes to a buffer, which must be there and have the room.\<close>

definition buf_write :: "nat \<Rightarrow> u8 list \<Rightarrow> u8 list option \<Rightarrow> u8 list option" where
  "buf_write off bs b = do {
     d \<leftarrow> b;
     if off + length bs \<le> length d then Some (put_bytes off bs d) else None }"

definition mask_addr :: "nat \<Rightarrow> u8 list \<Rightarrow> u8 list option" where
  "mask_addr off d = (if off + 4 \<le> length d then Some (put_bytes off (bytes32 (get32 off d AND 0xFFFF7FFF)) d) else None)"

definition trace_tos :: "bool \<Rightarrow> bool \<Rightarrow> u8" where
  "trace_tos willdrop_plr willdrop_bw = (if willdrop_plr then 1 else if willdrop_bw then 2 else 0)"

text \<open>The part of \<open>handle_tcpdump\<close> that writes the record.\<close>

definition trace_record :: "64 word \<times> 64 word \<Rightarrow> u32 \<Rightarrow> u32 \<Rightarrow> u8 list \<Rightarrow> bool \<Rightarrow> bool \<Rightarrow> tcpdump \<Rightarrow> (int \<times> tcpdump) option" where
  "trace_record tv link plen payload willdrop_plr willdrop_bw s = do {
     let clen = (if capture_length s = 0 then plen else min plen (capture_length s));
     let off = unat (store_len s);
     let iph = off + TRACE_HDR;
     b1 \<leftarrow> buf_write off (trace_hdr tv link plen clen) (storebuf s);
     if length payload < unat clen then None
     else do {
       b2 \<leftarrow> buf_write iph (take (unat clen) payload) (Some b1);
       b3 \<leftarrow> mask_addr (iph + 12) b2;
       b4 \<leftarrow> mask_addr (iph + 16) b3;
       b5 \<leftarrow> buf_write (iph + 1) [trace_tos willdrop_plr willdrop_bw] (Some b4);
       Some (0, s\<lparr>storebuf := Some b5, store_len := store_len s + of_nat TRACE_HDR + clen\<rparr>) } }"

text \<open>The room check adds two unsigned ints, which wraps at 32 bits, and then a \<open>size_t\<close>.\<close>

definition handle_tcpdump :: "bool \<Rightarrow> 64 word \<times> 64 word \<Rightarrow> u32 \<Rightarrow> (u32 \<times> u8 list) option \<Rightarrow> bool \<Rightarrow> bool
    \<Rightarrow> tcpdump \<Rightarrow> (int \<times> tcpdump) option" where
  "handle_tcpdump traceLink tv link skb willdrop_plr willdrop_bw s =
     (if \<not> traceLink then Some (0, s)
      else case skb of
        None \<Rightarrow> Some (0, s)
      | Some (plen, payload) \<Rightarrow>
          if TCPDUMP_BUF_SIZE \<le> unat (store_len s + plen) + TRACE_HDR then
            if hold_len s = 0
            then trace_record tv link plen payload willdrop_plr willdrop_bw
                   ((rotate_buffers (s\<lparr>tick_counter := 0\<rparr>))\<lparr>wakeups := wakeups s + 1\<rparr>)
            else Some (0, s\<lparr>dropcount := s32 (dropcount s + 1)\<rparr>)
          else trace_record tv link plen payload willdrop_plr willdrop_bw s)"

definition tcpdump_handle_inactivity :: "tcpdump \<Rightarrow> tcpdump" where
  "tcpdump_handle_inactivity s =
     (let s1 = s\<lparr>tick_counter := 0\<rparr> in
      if hold_len s1 = 0 \<and> store_len s1 \<noteq> 0 then (rotate_buffers s1)\<lparr>wakeups := wakeups s1 + 1\<rparr> else s1)"

text \<open>The first lines of \<open>hopclock\<close>.\<close>

definition trace_tick :: "u32 \<Rightarrow> tcpdump \<Rightarrow> tcpdump" where
  "trace_tick HZ s =
     (let s1 = s\<lparr>tick_counter := tick_counter s + 1\<rparr> in
      if HZ \<le> tick_counter s1 then tcpdump_handle_inactivity s1 else s1)"

section \<open>Reading\<close>

text \<open>From the copy on: \<open>left\<close> bytes are not copied to the user. The result holds what
  arrives there, the new \<open>lenp\<close> and the new position.\<close>

definition read_hold :: "nat \<Rightarrow> nat \<Rightarrow> nat \<Rightarrow> tcpdump \<Rightarrow> (u8 list \<times> nat \<times> nat \<times> tcpdump) option" where
  "read_hold left lenp ppos s =
     (let amount = unat (min (hold_len s - of_nat ppos) (of_nat lenp)) in
      do {
        d \<leftarrow> holdbuf s;
        if length d < ppos + amount then None
        else
          let copied = amount - left;
              out = take copied (drop ppos d) in
          if unat (hold_len s) \<le> ppos + copied
          then Some (out, copied, 0, s\<lparr>hold_len := 0\<rparr>)
          else Some (out, copied, ppos + copied, s) })"

text \<open>A read with nothing to read waits; what it does when it is woken is \<open>Read_Waits\<close> followed
  by \<open>read_hold\<close>, unless a signal ended the wait.\<close>

datatype read_result = Read_Returns int "u8 list" nat nat tcpdump | Read_Waits tcpdump

definition proc_read_dumps :: "bool \<Rightarrow> nat \<Rightarrow> nat \<Rightarrow> nat \<Rightarrow> tcpdump \<Rightarrow> read_result option" where
  "proc_read_dumps write left lenp ppos s =
     (if write then Some (Read_Returns (- EINVAL) [] 0 ppos s)
      else if unat (hold_len s) \<le> ppos \<and> hold_len s \<noteq> 0 then Some (Read_Returns 0 [] 0 ppos s)
      else if hold_len s = 0 then Some (Read_Waits s)
      else do {
        (out, lenp', ppos', s') \<leftarrow> read_hold left lenp ppos s;
        Some (Read_Returns 0 out lenp' ppos' s') })"

definition read_woken :: "nat \<Rightarrow> nat \<Rightarrow> nat \<Rightarrow> tcpdump \<Rightarrow> read_result option" where
  "read_woken left lenp ppos s =
     (if hold_len s = 0 then Some (Read_Returns (- EINVAL) [] lenp ppos s)
      else do {
        (out, lenp', ppos', s') \<leftarrow> read_hold left lenp ppos s;
        Some (Read_Returns 0 out lenp' ppos' s') })"

end
