(* ===== verification/Lx_Tcpdump_Props.thy ===== *)
theory Lx_Tcpdump_Props
  imports Lx_Tcpdump
begin

text \<open>
  The trace buffers of the Linux module: they stay within their bounds, and a reader gets the
  records of the packets that were not counted as dropped, whole and in order.
\<close>

section \<open>Buffers\<close>

text \<open>\<open>pos\<close> is the position of the reader.\<close>

definition trace_ok :: "tcpdump \<Rightarrow> nat \<Rightarrow> bool" where
  "trace_ok s pos \<longleftrightarrow> (\<exists>h st. holdbuf s = Some h \<and> storebuf s = Some st \<and> length h = TCPDUMP_BUF_SIZE \<and>
     length st = TCPDUMP_BUF_SIZE \<and> unat (hold_len s) \<le> TCPDUMP_BUF_SIZE \<and> unat (store_len s) < TCPDUMP_BUF_SIZE \<and>
     (hold_len s = 0 \<and> pos = 0 \<or> pos < unat (hold_len s)))"

definition unread :: "tcpdump \<Rightarrow> nat \<Rightarrow> u8 list" where
  "unread s pos = drop pos (take (unat (hold_len s)) (the (holdbuf s)))
     @ take (unat (store_len s)) (the (storebuf s))"

definition captured :: "u32 \<Rightarrow> u32 \<Rightarrow> u32" where
  "captured cap plen = (if cap = 0 then plen else min plen cap)"

text \<open>What the kernel hands over: at least an IP header, at most 64 KB, the captured part linear.\<close>

definition skb_ok :: "u32 \<Rightarrow> u32 \<Rightarrow> u8 list \<Rightarrow> bool" where
  "skb_ok cap plen payload \<longleftrightarrow> 20 \<le> unat plen \<and> unat plen \<le> 65535 \<and> unat (captured cap plen) \<le> length payload"

lemma length_trace_hdr [simp]: "length (trace_hdr tv l p c) = 32"
  by (simp add: trace_hdr_def bytes64_def bytes32_def)

lemma length_bytes32 [simp]: "length (bytes32 w) = 4"
  by (simp add: bytes32_def)

lemma take_put_bytes [simp]: "n \<le> off \<Longrightarrow> off \<le> length d \<Longrightarrow> take n (put_bytes off bs d) = take n d"
  by (simp add: put_bytes_def min_def)

lemma put_bytes_append [simp]:
  "put_bytes (length a + off) bs (a @ d) = a @ put_bytes off bs d"
  by (simp add: put_bytes_def)

lemma put_bytes_within:
  "off + length bs \<le> length d \<Longrightarrow> put_bytes off bs (d @ e) = put_bytes off bs d @ e"
  by (simp add: put_bytes_def)

lemma get32_append: "get32 (length a + off) (a @ d) = get32 off d"
  by (simp add: get32_def nth_append add.assoc)

lemma get32_within: "off + 4 \<le> length d \<Longrightarrow> get32 off (d @ e) = get32 off d"
  by (simp add: get32_def nth_append)

lemma unat_captured: "unat (captured cap plen) \<le> unat plen"
  by (auto simp: captured_def word_le_nat_alt min_def)

text \<open>The three corrections of a copied header.\<close>

definition fix_up :: "u8 \<Rightarrow> u8 list \<Rightarrow> u8 list" where
  "fix_up tos d = (let d2 = put_bytes 12 (bytes32 (get32 12 d AND 0xFFFF7FFF)) d;
     d3 = put_bytes 16 (bytes32 (get32 16 d2 AND 0xFFFF7FFF)) d2 in put_bytes 1 [tos] d3)"

lemma length_fix_up: "20 \<le> length d \<Longrightarrow> length (fix_up tos d) = length d"
  by (simp add: fix_up_def Let_def)

lemma fix_up_within: "20 \<le> length d \<Longrightarrow> fix_up tos (d @ e) = fix_up tos d @ e"
  by (simp add: fix_up_def Let_def put_bytes_within get32_within)

lemma mask_addr_append:
  "off + 4 \<le> length d \<Longrightarrow>
   mask_addr (length a + off) (a @ d) = Some (a @ put_bytes off (bytes32 (get32 off d AND 0xFFFF7FFF)) d)"
  by (simp add: mask_addr_def get32_append)

lemma fix_up_in_buffer:
  assumes "20 \<le> length d" "iph = length a"
  shows "do { b3 \<leftarrow> mask_addr (iph + 12) (a @ d); b4 \<leftarrow> mask_addr (iph + 16) b3; buf_write (iph + 1) [tos] (Some b4) }
     = Some (a @ fix_up tos d)"
  using assms by (simp add: mask_addr_append buf_write_def fix_up_def Let_def del: One_nat_def)

lemma unat_sum:
  assumes "unat a + 32 + unat (c :: u32) < 2 ^ 32"
  shows "unat (a + 32 + c) = unat a + 32 + unat c"
proof -
  have "unat (a + 32) = unat a + 32" using assms by (subst unat_add_lem [THEN iffD1]) simp_all
  then show ?thesis using assms by (subst unat_add_lem [THEN iffD1]) simp_all
qed

lemma trace_record_runs:
  assumes st: "storebuf s = Some st" "length st = TCPDUMP_BUF_SIZE"
    and room: "unat (store_len s) + unat plen + 32 < TCPDUMP_BUF_SIZE" and skb: "skb_ok (capture_length s) plen payload"
  shows "\<exists>st'. trace_record tv link plen payload lost full s
       = Some (0, s\<lparr>storebuf := Some st', store_len := store_len s + 32 + captured (capture_length s) plen\<rparr>) \<and>
     length st' = TCPDUMP_BUF_SIZE \<and>
     unat (store_len s + 32 + captured (capture_length s) plen) = unat (store_len s) + 32 + unat (captured (capture_length s) plen) \<and>
     take (unat (store_len s)) st' = take (unat (store_len s)) st \<and>
     (20 \<le> unat (captured (capture_length s) plen) \<longrightarrow> take (unat (store_len s) + 32 + unat (captured (capture_length s) plen)) st'
        = take (unat (store_len s)) st @ trace_hdr tv link plen (captured (capture_length s) plen)
          @ fix_up (trace_tos lost full) (take (unat (captured (capture_length s) plen)) payload))"
proof -
  let ?off = "unat (store_len s)" and ?c = "captured (capture_length s) plen" and ?tos = "trace_tos lost full"
  let ?d = "take (unat ?c) payload" and ?h = "trace_hdr tv link plen ?c"
  have c: "unat ?c \<le> unat plen" "20 \<le> unat plen" "unat ?c \<le> length payload"
    using skb unat_captured [of "capture_length s" plen] by (simp_all add: skb_ok_def)
  define a where "a = take ?off st @ ?h"
  define e where "e = drop (?off + 32 + unat ?c) st"
  have a: "length a = ?off + 32" using st room c by (simp add: a_def)
  have e: "20 \<le> length (?d @ e)" "length (?d @ e) = TCPDUMP_BUF_SIZE - (?off + 32)"
    using st room c by (simp_all add: e_def min_def)
  have w1: "buf_write ?off ?h (Some st) = Some (a @ drop (?off + 32) st)"
    using st room by (simp add: buf_write_def put_bytes_def a_def)
  have "put_bytes (length a + 0) ?d (a @ drop (?off + 32) st) = a @ ?d @ e"
    using c unfolding put_bytes_append by (simp add: put_bytes_def e_def min_def add.commute)
  then have w2: "buf_write (?off + 32) ?d (Some (a @ drop (?off + 32) st)) = Some (a @ ?d @ e)"
    using st room c a by (simp add: buf_write_def min_def)
  note fx = fix_up_in_buffer [OF e(1), of "?off + 32" a ?tos, OF a [symmetric]]
  let ?st = "a @ fix_up ?tos (?d @ e)"
  have run: "trace_record tv link plen payload lost full s
       = Some (0, s\<lparr>storebuf := Some ?st, store_len := store_len s + 32 + ?c\<rparr>)"
  proof -
    obtain b3 b4 where m: "mask_addr (?off + 32 + 12) (a @ ?d @ e) = Some b3" "mask_addr (?off + 32 + 16) b3 = Some b4"
      "buf_write (?off + 32 + 1) [?tos] (Some b4) = Some ?st"
      using fx by (auto simp del: One_nat_def split: Option.bind_splits)
    show ?thesis
      using w1 w2 m st(1) c(3) unfolding trace_record_def Let_def captured_def [symmetric] TRACE_HDR_def
      by (simp del: One_nat_def)
  qed
  have "unat (store_len s + 32 + ?c) = ?off + 32 + unat ?c"
    by (rule unat_sum) (use room c in \<open>simp add: TCPDUMP_BUF_SIZE_def\<close>)
  moreover have "take (?off + 32 + unat ?c) ?st = a @ fix_up ?tos ?d" if "20 \<le> unat ?c"
    using that a c(3) by (simp add: fix_up_within length_fix_up min_def)
  ultimately show ?thesis
    using run a e st room by (intro exI [of _ ?st]) (simp add: length_fix_up, simp add: a_def)
qed

section \<open>One step\<close>

text \<open>A packet that finds both buffers full.\<close>

definition overrun :: "tcpdump \<Rightarrow> u32 \<Rightarrow> bool" where
  "overrun s plen \<longleftrightarrow> TCPDUMP_BUF_SIZE \<le> unat (store_len s) + unat plen + 32 \<and> hold_len s \<noteq> 0"

definition trace_entry :: "u32 \<Rightarrow> 64 word \<times> 64 word \<Rightarrow> u32 \<Rightarrow> u32 \<Rightarrow> u8 list \<Rightarrow> bool \<Rightarrow> bool \<Rightarrow> u8 list" where
  "trace_entry cap tv link plen payload lost full = trace_hdr tv link plen (captured cap plen)
     @ fix_up (trace_tos lost full) (take (unat (captured cap plen)) payload)"

lemma unread_record:
  assumes ok: "trace_ok s pos" and room: "unat (store_len s) + unat plen + 32 < TCPDUMP_BUF_SIZE"
    and skb: "skb_ok (capture_length s) plen payload"
  shows "\<exists>s'. trace_record tv link plen payload lost full s = Some (0, s') \<and> trace_ok s' pos \<and>
     capture_length s' = capture_length s \<and> dropcount s' = dropcount s \<and>
     (20 \<le> unat (captured (capture_length s) plen) \<longrightarrow> unread s' pos = unread s pos @
        trace_entry (capture_length s) tv link plen payload lost full)"
proof -
  obtain h st where b: "holdbuf s = Some h" "storebuf s = Some st" "length st = TCPDUMP_BUF_SIZE"
    using ok by (auto simp: trace_ok_def)
  have c: "unat (captured (capture_length s) plen) \<le> unat plen" by (rule unat_captured)
  obtain st' where r: "trace_record tv link plen payload lost full s = Some (0, s\<lparr>storebuf := Some st',
      store_len := store_len s + 32 + captured (capture_length s) plen\<rparr>)" "length st' = TCPDUMP_BUF_SIZE"
    "unat (store_len s + 32 + captured (capture_length s) plen)
       = unat (store_len s) + 32 + unat (captured (capture_length s) plen)"
    "20 \<le> unat (captured (capture_length s) plen) \<longrightarrow>
       take (unat (store_len s) + 32 + unat (captured (capture_length s) plen)) st'
         = take (unat (store_len s)) st @ trace_entry (capture_length s) tv link plen payload lost full"
    using trace_record_runs [OF b(2,3) room skb, of tv link lost full] unfolding trace_entry_def by blast
  then show ?thesis using ok b c room
    by (simp add: trace_ok_def unread_def)
qed

lemma rotate_ok:
  assumes "trace_ok s pos" "hold_len s = 0" "store_len s \<noteq> 0 \<or> n = 0"
  shows "trace_ok (rotate_buffers s) pos \<and> unread (rotate_buffers s) pos = unread s pos"
  using assms by (auto simp: trace_ok_def rotate_buffers_def unread_def unat_gt_0)

lemma trace_ok_scalars [simp]:
  "trace_ok (s\<lparr>tick_counter := c\<rparr>) pos = trace_ok s pos" "trace_ok (s\<lparr>wakeups := w\<rparr>) pos = trace_ok s pos"
  "trace_ok (s\<lparr>dropcount := d\<rparr>) pos = trace_ok s pos" "unread (s\<lparr>tick_counter := c\<rparr>) pos = unread s pos"
  "unread (s\<lparr>wakeups := w\<rparr>) pos = unread s pos" "unread (s\<lparr>dropcount := d\<rparr>) pos = unread s pos"
  by (simp_all add: trace_ok_def unread_def)

lemma handle_step:
  assumes ok: "trace_ok s pos" and skb: "skb_ok (capture_length s) plen payload"
  shows "\<exists>s'. handle_tcpdump True tv link (Some (plen, payload)) lost full s = Some (0, s') \<and> trace_ok s' pos \<and>
     capture_length s' = capture_length s \<and>
     dropcount s' = (if overrun s plen then s32 (dropcount s + 1) else dropcount s) \<and>
     (20 \<le> unat (captured (capture_length s) plen) \<longrightarrow> unread s' pos = unread s pos @
        (if overrun s plen then [] else trace_entry (capture_length s) tv link plen payload lost full))"
proof -
  have p: "unat plen \<le> 65535" using skb by (simp add: skb_ok_def)
  have l: "unat (store_len s) < TCPDUMP_BUF_SIZE" using ok by (auto simp: trace_ok_def)
  have "unat (store_len s + plen) = unat (store_len s) + unat plen"
    using p l by (subst unat_add_lem [THEN iffD1]) (simp_all add: TCPDUMP_BUF_SIZE_def)
  then have full: "TCPDUMP_BUF_SIZE \<le> unat (store_len s + plen) + TRACE_HDR
      \<longleftrightarrow> TCPDUMP_BUF_SIZE \<le> unat (store_len s) + unat plen + 32"
    by (simp add: TRACE_HDR_def)
  show ?thesis
  proof (cases "TCPDUMP_BUF_SIZE \<le> unat (store_len s) + unat plen + 32")
    case False
    then show ?thesis using unread_record [OF ok _ skb, of tv link lost full] full
      by (simp add: handle_tcpdump_def overrun_def)
  next
    case True
    show ?thesis
    proof (cases "hold_len s = 0")
      case False
      then show ?thesis using True full ok by (simp add: handle_tcpdump_def overrun_def)
    next
      case h: True
      let ?s = "(rotate_buffers (s\<lparr>tick_counter := 0\<rparr>))\<lparr>wakeups := wakeups s + 1\<rparr>"
      have "store_len s \<noteq> 0" using True p by (auto simp: TCPDUMP_BUF_SIZE_def)
      then have s: "trace_ok ?s pos" "unread ?s pos = unread s pos"
        using rotate_ok [of "s\<lparr>tick_counter := 0\<rparr>" pos] ok h by simp_all
      have c: "capture_length ?s = capture_length s" "dropcount ?s = dropcount s" "store_len ?s = 0"
        by (simp_all add: rotate_buffers_def)
      then have "unat (store_len ?s) + unat plen + 32 < TCPDUMP_BUF_SIZE"
        using p by (simp add: TCPDUMP_BUF_SIZE_def)
      from unread_record [OF s(1) this, of payload tv link lost full]
      show ?thesis using True full skb h s(2) c by (simp add: handle_tcpdump_def overrun_def)
    qed
  qed
qed

lemma tick_step:
  assumes "trace_ok s pos"
  shows "trace_ok (trace_tick HZ s) pos \<and> unread (trace_tick HZ s) pos = unread s pos \<and>
     capture_length (trace_tick HZ s) = capture_length s \<and> dropcount (trace_tick HZ s) = dropcount s"
  using assms rotate_ok [of "s\<lparr>tick_counter := 0\<rparr>" pos]
  by (auto simp: trace_tick_def tcpdump_handle_inactivity_def Let_def) (simp_all add: rotate_buffers_def)

lemma read_step:
  assumes ok: "trace_ok s pos" and some: "hold_len s \<noteq> 0"
  shows "\<exists>out n pos' s'. proc_read_dumps False left lenp pos s = Some (Read_Returns 0 out n pos' s') \<and>
     trace_ok s' pos' \<and> unread s pos = out @ unread s' pos' \<and> length out = n \<and>
     capture_length s' = capture_length s \<and> dropcount s' = dropcount s"
proof -
  obtain h st where b: "holdbuf s = Some h" "length h = TCPDUMP_BUF_SIZE" "unat (hold_len s) \<le> TCPDUMP_BUF_SIZE"
    "pos < unat (hold_len s)"
    using ok some by (auto simp: trace_ok_def)
  define amount where "amount = unat (min (hold_len s - of_nat pos) (of_nat lenp))"
  have "unat (of_nat pos :: u32) = pos" using b(3,4) by (simp add: unat_of_nat TCPDUMP_BUF_SIZE_def)
  then have "unat (hold_len s - of_nat pos) = unat (hold_len s) - pos"
    using b(4) by (subst unat_sub) (simp_all add: word_le_nat_alt)
  then have a: "amount \<le> unat (hold_len s) - pos" unfolding amount_def by (simp add: min_def word_le_nat_alt)
  define c where "c = amount - left"
  have c: "pos + c \<le> unat (hold_len s)" using a b(4) by (simp add: c_def)
  let ?out = "take c (drop pos h)"
  have run: "read_hold left lenp pos s = (if unat (hold_len s) \<le> pos + c then Some (?out, c, 0, s\<lparr>hold_len := 0\<rparr>)
      else Some (?out, c, pos + c, s))"
    using b a unfolding read_hold_def amount_def [symmetric] Let_def c_def [symmetric] by simp
  have split: "drop pos (take (unat (hold_len s)) h) = ?out @ drop (pos + c) (take (unat (hold_len s)) h)"
  proof -
    have "take c (drop pos (take (unat (hold_len s)) h)) = ?out" using c by (simp add: take_drop min_def)
    then show ?thesis by (metis append_take_drop_id drop_drop add.commute)
  qed
  have len: "length ?out = c" using c b by simp
  show ?thesis
  proof (cases "unat (hold_len s) \<le> pos + c")
    case True
    then have "proc_read_dumps False left lenp pos s = Some (Read_Returns 0 ?out c 0 (s\<lparr>hold_len := 0\<rparr>))"
      using run b(4) some by (simp add: proc_read_dumps_def)
    moreover have "trace_ok (s\<lparr>hold_len := 0\<rparr>) 0" using ok by (auto simp: trace_ok_def)
    moreover have "unread s pos = ?out @ unread (s\<lparr>hold_len := 0\<rparr>) 0" using split True b by (simp add: unread_def)
    ultimately show ?thesis using len by fastforce
  next
    case False
    then have "proc_read_dumps False left lenp pos s = Some (Read_Returns 0 ?out c (pos + c) s)"
      using run b(4) some by (simp add: proc_read_dumps_def)
    moreover have "trace_ok s (pos + c)" using ok False by (auto simp: trace_ok_def)
    moreover have "unread s pos = ?out @ unread s (pos + c)" using split b by (simp add: unread_def)
    ultimately show ?thesis using len by fastforce
  qed
qed

section \<open>Runs\<close>

text \<open>A packet on a traced link, a tick of the clock, a read by the only reader.\<close>

datatype trace_event =
    Ev_Packet "64 word \<times> 64 word" u32 u32 "u8 list" bool bool
  | Ev_Tick u32
  | Ev_Read nat nat

text \<open>A run: what the reader got, what was recorded, how many packets were not, its position.\<close>

fun trace_run :: "trace_event list \<Rightarrow> nat \<Rightarrow> tcpdump \<Rightarrow> (u8 list \<times> u8 list \<times> nat \<times> nat \<times> tcpdump) option" where
  "trace_run [] pos s = Some ([], [], 0, pos, s)"
| "trace_run (Ev_Packet tv link plen payload lost full # es) pos s = do {
     (r, s1) \<leftarrow> handle_tcpdump True tv link (Some (plen, payload)) lost full s;
     (out, log, n, pos', s') \<leftarrow> trace_run es pos s1;
     Some (if overrun s plen then (out, log, n + 1, pos', s')
       else (out, trace_entry (capture_length s) tv link plen payload lost full @ log, n, pos', s')) }"
| "trace_run (Ev_Tick HZ # es) pos s = trace_run es pos (trace_tick HZ s)"
| "trace_run (Ev_Read left lenp # es) pos s = do {
     r \<leftarrow> proc_read_dumps False left lenp pos s;
     case r of
       Read_Waits s1 \<Rightarrow> trace_run es pos s1
     | Read_Returns e out1 n1 pos1 s1 \<Rightarrow> do {
         (out, rest) \<leftarrow> trace_run es pos1 s1;
         Some (out1 @ out, rest) } }"

fun event_ok :: "u32 \<Rightarrow> trace_event \<Rightarrow> bool" where
  "event_ok cap (Ev_Packet tv link plen payload lost full) = skb_ok cap plen payload"
| "event_ok cap e = True"

definition whole_header :: "u32 \<Rightarrow> bool" where
  "whole_header cap \<longleftrightarrow> cap = 0 \<or> 20 \<le> unat cap"

lemma whole_captured: "whole_header cap \<Longrightarrow> skb_ok cap plen payload \<Longrightarrow> 20 \<le> unat (captured cap plen)"
  by (auto simp: whole_header_def skb_ok_def captured_def min_def)

lemma s32_plus_Suc: "s32 (s32 (d + 1) + int n) = s32 (d + int (Suc n))"
  using s32_add_s32 [of "d + 1" "int n"] by (simp add: add_ac)

lemma run_reads_log:
  assumes "trace_ok s pos" "list_all (event_ok (capture_length s)) es"
  shows "\<exists>out log n pos' s'. trace_run es pos s = Some (out, log, n, pos', s') \<and> trace_ok s' pos' \<and>
     s32 (dropcount s') = s32 (dropcount s + int n) \<and>
     (whole_header (capture_length s) \<longrightarrow> unread s pos @ log = out @ unread s' pos')"
  using assms
proof (induction es pos s rule: trace_run.induct)
  case (2 tv link plen payload lost full es pos s)
  obtain s1 where 1: "handle_tcpdump True tv link (Some (plen, payload)) lost full s = Some (0, s1)"
    "trace_ok s1 pos" "capture_length s1 = capture_length s"
    "dropcount s1 = (if overrun s plen then s32 (dropcount s + 1) else dropcount s)"
    "whole_header (capture_length s) \<longrightarrow> unread s1 pos = unread s pos @
        (if overrun s plen then [] else trace_entry (capture_length s) tv link plen payload lost full)"
    using handle_step [OF 2(2), of plen payload tv link lost full] 2(3) whole_captured by fastforce
  then obtain out log n pos' s' where "trace_run es pos s1 = Some (out, log, n, pos', s')" "trace_ok s' pos'"
    "s32 (dropcount s') = s32 (dropcount s1 + int n)"
    "whole_header (capture_length s) \<longrightarrow> unread s1 pos @ log = out @ unread s' pos'"
    using 2(1) [OF 1(1) refl] 2(3) by auto
  then show ?case using 1 s32_plus_Suc [of "dropcount s" n] by auto
next
  case (3 HZ es pos s)
  then show ?case using tick_step [OF 3(2), of HZ] by simp
next
  case (4 left lenp es pos s)
  show ?case
  proof (cases "hold_len s = 0")
    case True
    then have "proc_read_dumps False left lenp pos s = Some (Read_Waits s)" by (simp add: proc_read_dumps_def)
    then show ?thesis using 4 by simp
  next
    case False
    obtain out1 n1 pos1 s1 where r: "proc_read_dumps False left lenp pos s = Some (Read_Returns 0 out1 n1 pos1 s1)"
      "trace_ok s1 pos1" "unread s pos = out1 @ unread s1 pos1" "capture_length s1 = capture_length s"
      "dropcount s1 = dropcount s"
      using read_step [OF 4(3) False, of left lenp] by blast
    obtain out log n pos' s' where "trace_run es pos1 s1 = Some (out, log, n, pos', s')" "trace_ok s' pos'"
      "s32 (dropcount s') = s32 (dropcount s1 + int n)"
      "whole_header (capture_length s1) \<longrightarrow> unread s1 pos1 @ log = out @ unread s' pos'"
      using 4(1) [OF r(1) refl r(2)] 4(4) r(4) by auto
    then show ?thesis using r by auto
  qed
qed simp_all

lemma init_trace_ok:
  assumes "init_mn_tcpdump_buffers (Some b1) (Some b2) s0 = Some (0, s)"
    and "length b1 = TCPDUMP_BUF_SIZE" "length b2 = TCPDUMP_BUF_SIZE"
  shows "trace_ok s 0 \<and> unread s 0 = [] \<and> dropcount s = 0 \<and> capture_length s = capture_length s0"
  using assms by (auto simp: init_mn_tcpdump_buffers_def trace_ok_def unread_def TCPDUMP_BUF_SIZE_def split: if_splits)

lemma unread_bound: "trace_ok s pos \<Longrightarrow> length (unread s pos) \<le> 2 * TCPDUMP_BUF_SIZE"
  by (auto simp: trace_ok_def unread_def)

text \<open>C36. From any state whose buffers have their size and whose lengths are within them, any
  sequence of packets (an IP header at least, 64 KB at most, whatever the capture length), clock
  ticks and reads runs to its end: no access leaves a buffer, the buffers and lengths stay within
  their bounds, and the drop counter has grown by the number of packets that found both buffers
  full.\<close>

theorem trace_buffers_in_bounds:
  assumes "trace_ok s pos" "list_all (event_ok (capture_length s)) es"
  shows "\<exists>out log n pos' s'. trace_run es pos s = Some (out, log, n, pos', s') \<and> trace_ok s' pos' \<and>
     s32 (dropcount s') = s32 (dropcount s + int n)"
  using run_reads_log [OF assms] by blast

text \<open>C11. The buffers implement one queue of bytes. After \<open>init_mn_tcpdump_buffers\<close>, and when the
  capture length covers an IP header or is 0, what the reader has got and what waits in the two
  buffers are together exactly the records of the packets that were not dropped, in their order; at
  most two buffers wait.\<close>

theorem trace_reads_in_order:
  assumes "init_mn_tcpdump_buffers (Some b1) (Some b2) s0 = Some (0, s)"
    and "length b1 = TCPDUMP_BUF_SIZE" "length b2 = TCPDUMP_BUF_SIZE"
    and "whole_header (capture_length s0)" "list_all (event_ok (capture_length s0)) es"
  shows "\<exists>out log n pos' s'. trace_run es 0 s = Some (out, log, n, pos', s') \<and>
     log = out @ unread s' pos' \<and> length (unread s' pos') \<le> 2 * TCPDUMP_BUF_SIZE \<and>
     s32 (dropcount s') = s32 (int n)"
proof -
  note i = init_trace_ok [OF assms(1-3)]
  then have "list_all (event_ok (capture_length s)) es" using assms(5) by simp
  then obtain out log n pos' s' where "trace_run es 0 s = Some (out, log, n, pos', s')" "trace_ok s' pos'"
    "s32 (dropcount s') = s32 (int n)" "log = out @ unread s' pos'"
    using run_reads_log [of s 0 es] i assms(4) by auto
  then show ?thesis using unread_bound by blast
qed

section \<open>Examples\<close>

definition ex_dump :: tcpdump where
  "ex_dump = \<lparr>tick_counter = 0, holdbuf = None, storebuf = None, hold_len = 0, store_len = 0, dropcount = 0,
     capture_length = 50, wakeups = 0\<rparr>"

definition ex_init :: tcpdump where
  "ex_init = ex_dump\<lparr>holdbuf := Some (replicate TCPDUMP_BUF_SIZE 0), storebuf := Some (replicate TCPDUMP_BUF_SIZE 0)\<rparr>"

definition ex_events :: "trace_event list" where
  "ex_events = [Ev_Packet (7, 9) 3 28 (replicate 28 1) False False, Ev_Tick 1, Ev_Read 0 30, Ev_Read 2 100,
     Ev_Packet (8, 9) 3 100 (replicate 60 2) False True]"

theorem trace_buffers_in_bounds_witness:
  "\<exists>out log n pos' s'. trace_run ex_events 0 ex_init = Some (out, log, n, pos', s') \<and> trace_ok s' pos' \<and>
     s32 (dropcount s') = s32 (dropcount ex_init + int n)"
  by (rule trace_buffers_in_bounds)
    (simp_all add: trace_ok_def ex_init_def ex_dump_def ex_events_def skb_ok_def captured_def TCPDUMP_BUF_SIZE_def)

theorem trace_reads_in_order_witness:
  "\<exists>out log n pos' s'. trace_run ex_events 0 ex_init = Some (out, log, n, pos', s') \<and>
     log = out @ unread s' pos' \<and> length (unread s' pos') \<le> 2 * TCPDUMP_BUF_SIZE \<and>
     s32 (dropcount s') = s32 (int n)"
  by (rule trace_reads_in_order [of "replicate TCPDUMP_BUF_SIZE 0" "replicate TCPDUMP_BUF_SIZE 0" ex_dump ex_init ex_events])
    (simp_all add: init_mn_tcpdump_buffers_def ex_init_def ex_dump_def ex_events_def skb_ok_def captured_def
      whole_header_def)

end
