(* ===== verification/Log_Server.thy ===== *)
theory Log_Server
  imports Bytes
begin

text \<open>
  tools/ipgatherer.c, the server that collects the logs of the emulated nodes: it waits for
  datagrams, and appends the data of each to the log file of its node. What a round of the loop
  meets (the clock, the datagram, the answers of \<open>open\<close> and \<open>write\<close>) is a record; files are
  byte strings under their names. The name of the sender is only printed and is left out, as are
  the messages. The descriptor \<open>fd\<close> stays 0, so it is never closed.
\<close>

section \<open>State\<close>

record gather =
  filedes :: "int list"
  goodtimeleft :: "int list"
  oldtime :: int
  nd_msg :: "u8 list"
  fd_table :: "int \<Rightarrow> string option"
  log_files :: "string \<Rightarrow> u8 list"

text \<open>\<open>polls\<close> has, for each time \<open>poll\<close> returns, the two values of \<open>time(NULL)\<close>;
  \<open>datagram\<close> is \<open>None\<close> when \<open>recvfrom\<close> fails; \<open>opened\<close> is the new descriptor or -1;
  \<open>taken\<close> says how many bytes \<open>write\<close> takes at most, \<open>None\<close> that it fails.\<close>

record arrival =
  polls :: "(int \<times> int) list"
  datagram :: "u8 list option"
  opened :: int
  taken :: "nat option"

datatype round_result = Exits int | Goes_On gather

definition FILEOPENTIME :: int where "FILEOPENTIME = 15"

definition s16 :: "int \<Rightarrow> int" where
  "s16 x = signed_take_bit 15 x"

definition digit_char :: "nat \<Rightarrow> char" where
  "digit_char d = char_of (48 + d)"

text \<open>\<open>"%s/log%03d"\<close>, for the nodes 0 to 255 that have a place in the table.\<close>

definition log_name :: "string \<Rightarrow> nat \<Rightarrow> string" where
  "log_name log_path n = log_path @ ''/log'' @ [digit_char (n div 100), digit_char (n div 10 mod 10), digit_char (n mod 10)]"

definition close_fd :: "int \<Rightarrow> gather \<Rightarrow> gather" where
  "close_fd fd g = g\<lparr>fd_table := (fd_table g)(fd := None)\<rparr>"

section \<open>Idle files\<close>

fun close_idle :: "int list \<Rightarrow> gather \<Rightarrow> gather option" where
  "close_idle [] g = Some g"
| "close_idle (i # is) g = do {
     fd \<leftarrow> aget (filedes g) i;
     if - 1 < fd then do {
       t \<leftarrow> aget (goodtimeleft g) i;
       left \<leftarrow> aset (goodtimeleft g) i (s16 (t - 1));
       let g1 = g\<lparr>goodtimeleft := left\<rparr>;
       if s16 (t - 1) \<le> 0 then do {
         fds \<leftarrow> aset (filedes g1) i (- 1);
         close_idle is ((close_fd fd g1)\<lparr>filedes := fds\<rparr>) }
       else close_idle is g1 }
     else close_idle is g }"

definition check_for_close :: "gather \<Rightarrow> gather option" where
  "check_for_close g = close_idle [0..255] g"

fun poll_rounds :: "(int \<times> int) list \<Rightarrow> gather \<Rightarrow> gather option" where
  "poll_rounds [] g = Some g"
| "poll_rounds ((t1, t2) # ts) g = do {
     g1 \<leftarrow> (if 1 \<le> t1 - oldtime g then check_for_close g else Some g);
     poll_rounds ts (g1\<lparr>oldtime := t2\<rparr>) }"

section \<open>One datagram\<close>

text \<open>\<open>struct netlog_msg\<close>: the node, then up to 8192 bytes. A short datagram leaves the rest of
  the buffer as it was. A \<open>write\<close> with a negative count, or to a bad descriptor, fails.\<close>

definition write_log :: "int \<Rightarrow> u8 list \<Rightarrow> int \<Rightarrow> nat option \<Rightarrow> gather \<Rightarrow> gather" where
  "write_log fd d cnt n g =
     (case (fd_table g fd, n) of
        (Some name, Some n) \<Rightarrow>
          if cnt < 0 then g
          else g\<lparr>log_files := (log_files g)(name := log_files g name @ take (min n (nat cnt)) d)\<rparr>
      | _ \<Rightarrow> g)"

text \<open>The name is printed into \<open>filename[128]\<close> with no bound: a longer one is undefined.\<close>

definition open_log :: "string \<Rightarrow> int \<Rightarrow> int \<Rightarrow> gather \<Rightarrow> gather option" where
  "open_log log_path node fd g = do {
     name \<leftarrow> (if length (log_name log_path (nat node)) < 128 then Some (log_name log_path (nat node)) else None);
     fds \<leftarrow> aset (filedes g) node fd;
     Some (g\<lparr>filedes := fds, fd_table := (if fd < 0 then fd_table g else (fd_table g)(fd \<mapsto> name))\<rparr>) }"

definition serve_round :: "string \<Rightarrow> arrival \<Rightarrow> gather \<Rightarrow> round_result option" where
  "serve_round log_path a g0 = do {
     g \<leftarrow> poll_rounds (polls a) g0;
     case datagram a of
       None \<Rightarrow> Some (Exits 1)
     | Some d \<Rightarrow> do {
         let d1 = take (length (nd_msg g)) d;
         let buf = put_bytes 0 d1 (nd_msg g);
         let cnt = int (length d1) - 4;
         let node = sint (get32 0 buf);
         fd \<leftarrow> aget (filedes g) node;
         g1 \<leftarrow> (if fd < 0 then open_log log_path node (opened a) (g\<lparr>nd_msg := buf\<rparr>) else Some (g\<lparr>nd_msg := buf\<rparr>));
         left \<leftarrow> aset (goodtimeleft g1) node FILEOPENTIME;
         fd' \<leftarrow> aget (filedes g1) node;
         fds \<leftarrow> aset (filedes g1) node (- 1);
         let g2 = write_log fd' (drop 4 buf) cnt (taken a) (g1\<lparr>goodtimeleft := left\<rparr>);
         Some (Goes_On ((close_fd fd' g2)\<lparr>filedes := fds\<rparr>)) } }"

fun serverloop :: "string \<Rightarrow> arrival list \<Rightarrow> gather \<Rightarrow> round_result option" where
  "serverloop log_path [] g = Some (Goes_On g)"
| "serverloop log_path (a # as) g = do {
     r \<leftarrow> serve_round log_path a g;
     case r of Exits e \<Rightarrow> Some (Exits e) | Goes_On g' \<Rightarrow> serverloop log_path as g' }"

text \<open>The initial state: no descriptor, and whatever the stack and the heap hold.\<close>

definition gather_start :: "int list \<Rightarrow> u8 list \<Rightarrow> int \<Rightarrow> (string \<Rightarrow> u8 list) \<Rightarrow> gather" where
  "gather_start garbage junk now files =
     \<lparr>filedes = replicate 256 (- 1), goodtimeleft = garbage, oldtime = now, nd_msg = junk, fd_table = (\<lambda>x. None),
      log_files = files\<rparr>"

section \<open>Options\<close>

text \<open>\<open>main\<close>: the log path, or the exit status for an unknown option. \<open>strcpy\<close> into the 128
  bytes of \<open>log_path\<close> is not checked, nor is a missing argument.\<close>

fun parse_options :: "string list \<Rightarrow> string \<Rightarrow> (int + string) option" where
  "parse_options [] log_path = Some (Inr log_path)"
| "parse_options (a # args) log_path =
     (if a = ''--binary'' \<or> a = ''--verbose'' then parse_options args log_path
      else if a = ''--logpath'' then
        (case args of
           [] \<Rightarrow> None
         | p # rest \<Rightarrow> if length p < 128 then parse_options rest p else None)
      else Some (Inl 1))"

end
