(* ===== verification/Log_Server_Props.thy ===== *)
theory Log_Server_Props
  imports Log_Server
begin

text \<open>
  The log server keeps no file open between rounds, so the closing of idle files never does
  anything, and the file of each node is the data of its datagrams in the order of arrival.
\<close>

definition gather_ok :: "gather \<Rightarrow> bool" where
  "gather_ok g \<longleftrightarrow> filedes g = replicate 256 (- 1) \<and> length (goodtimeleft g) = 256 \<and> length (nd_msg g) = 8196 \<and>
     fd_table g = (\<lambda>fd. None)"

definition msg_node :: "u8 list \<Rightarrow> int" where
  "msg_node d = sint (get32 0 d)"

text \<open>A datagram arrived that holds the number of a node and no more than the buffer; the number has a
  place in the table, which the code does not check.\<close>

definition received :: "arrival \<Rightarrow> bool" where
  "received a \<longleftrightarrow> (\<exists>d. datagram a = Some d \<and> 4 \<le> length d \<and> length d \<le> 8196)"

definition in_table :: "arrival \<Rightarrow> bool" where
  "in_table a \<longleftrightarrow> 0 \<le> msg_node (the (datagram a)) \<and> msg_node (the (datagram a)) < 256"

text \<open>What reaches the file: nothing when the file cannot be opened or written.\<close>

definition logged :: "arrival \<Rightarrow> u8 list" where
  "logged a = (if opened a < 0 then [] else case taken a of None \<Rightarrow> [] | Some n \<Rightarrow> take n (drop 4 (the (datagram a))))"

definition for_node :: "nat \<Rightarrow> arrival \<Rightarrow> bool" where
  "for_node n a \<longleftrightarrow> msg_node (the (datagram a)) = int n"

section \<open>Names\<close>

lemma digit_char_inj: "d < 10 \<Longrightarrow> e < 10 \<Longrightarrow> digit_char d = digit_char e \<Longrightarrow> d = e"
proof -
  assume "d < 10" "e < 10" "digit_char d = digit_char e"
  then have "(of_char (char_of (48 + d) :: char) :: nat) = of_char (char_of (48 + e) :: char)"
    by (simp add: digit_char_def)
  then show "d = e" using \<open>d < 10\<close> \<open>e < 10\<close> by (simp add: of_char_of)
qed

lemma log_name_inj:
  assumes "m < 256" "n < 256" "log_name p m = log_name p n"
  shows "m = n"
proof -
  have c: "digit_char (m div 100) = digit_char (n div 100)" "digit_char (m div 10 mod 10) = digit_char (n div 10 mod 10)"
    "digit_char (m mod 10) = digit_char (n mod 10)"
    using assms(3) unfolding log_name_def by simp_all
  have "m div 100 = n div 100" by (rule digit_char_inj [OF _ _ c(1)]) (use assms(1,2) in linarith)+
  moreover have "m div 10 mod 10 = n div 10 mod 10" by (rule digit_char_inj [OF _ _ c(2)]) simp_all
  moreover have "m mod 10 = n mod 10" by (rule digit_char_inj [OF _ _ c(3)]) simp_all
  moreover have "k = 100 * (k div 100) + 10 * (k div 10 mod 10) + k mod 10" for k :: nat
  proof -
    have "k div 100 = k div 10 div 10" by (simp add: div_mult2_eq [symmetric])
    then show ?thesis using div_mult_mod_eq [of k 10] div_mult_mod_eq [of "k div 10" 10] by linarith
  qed
  ultimately show ?thesis by metis
qed

section \<open>One round\<close>

lemma close_idle_none:
  "filedes g = replicate 256 (- 1) \<Longrightarrow> \<forall>i \<in> set js. 0 \<le> i \<and> i < 256 \<Longrightarrow> close_idle js g = Some g"
  by (induction js) (auto simp: aget_def)

lemma poll_rounds_idle:
  "gather_ok g \<Longrightarrow> \<exists>t. poll_rounds ts g = Some (g\<lparr>oldtime := t\<rparr>)"
proof (induction ts arbitrary: g)
  case Nil
  show ?case by (rule exI [of _ "oldtime g"]) simp
next
  case (Cons p ts)
  obtain t1 t2 where p: "p = (t1, t2)" by fastforce
  have c: "check_for_close g = Some g"
    unfolding check_for_close_def by (rule close_idle_none) (use Cons.prems in \<open>auto simp: gather_ok_def\<close>)
  have "gather_ok (g\<lparr>oldtime := t2\<rparr>)" using Cons.prems by (simp add: gather_ok_def)
  from Cons.IH [OF this] c show ?case by (auto simp: p)
qed

lemma sent_node:
  assumes "4 \<le> length d"
  shows "sint (get32 0 (put_bytes 0 d buf)) = msg_node d"
proof -
  have "0 < length d" "1 < length d" "2 < length d" "3 < length d" using assms by linarith+
  then show ?thesis by (simp add: msg_node_def put_bytes_def get32_def nth_append del: length_greater_0_conv)
qed

lemma serve_round_logs:
  assumes ok: "gather_ok g" and a: "received a" "in_table a" and p: "length p \<le> 120"
  shows "\<exists>g' n. serve_round p a g = Some (Goes_On g') \<and> gather_ok g' \<and> n < 256 \<and> for_node n a \<and>
     log_files g' = (log_files g)(log_name p n := log_files g (log_name p n) @ logged a)"
proof -
  obtain d where d: "datagram a = Some d" "4 \<le> length d" "length d \<le> 8196" "0 \<le> msg_node d" "msg_node d < 256"
    using a by (auto simp: received_def in_table_def)
  obtain t where t: "poll_rounds (polls a) g = Some (g\<lparr>oldtime := t\<rparr>)" using poll_rounds_idle [OF ok] by blast
  define buf where "buf = put_bytes 0 d (nd_msg g)"
  have buf: "buf = d @ drop (length d) (nd_msg g)" by (simp add: buf_def put_bytes_def)
  have node: "sint (get32 0 buf) = msg_node d" unfolding buf_def by (rule sent_node [OF d(2)])
  have len: "length buf = 8196" using ok d(3) by (simp add: buf_def gather_ok_def)
  have tk: "take (length (nd_msg g)) d = d" using ok d(3) by (simp add: gather_ok_def)
  let ?i = "nat (msg_node d)"
  have i: "?i < 256" using d(4,5) by simp
  have at: "aget (replicate 256 (- 1 :: int)) (msg_node d) = Some (- 1)" using d(4,5) by (simp add: aget_def)
  have put: "aset xs (msg_node d) x = Some (xs[?i := x])" if "length xs = 256" for xs :: "int list" and x
    using that d(4,5) by (simp add: aset_def)
  have wr: "take (min n (nat (int (length d) - 4))) (drop 4 buf) = take n (drop 4 d)" for n
  proof -
    have "nat (int (length d) - 4) = length (drop 4 d)" using d(2) by simp
    then show ?thesis using d(2) by (simp add: buf min_def)
  qed
  have restored: "(replicate 256 (- 1 :: int))[?i := x, ?i := - 1] = replicate 256 (- 1)" for x
    using i by (simp add: list_update_same_conv [THEN iffD2])
  have get: "aget ((replicate 256 (- 1 :: int))[?i := x]) (msg_node d) = Some x" for x
    using i d(4,5) by (simp add: aget_def)
  have o: "gather_ok (g\<lparr>oldtime := t\<rparr>)" and o1: "filedes g = replicate 256 (- 1)" "fd_table g = (\<lambda>fd. None)"
    "length (goodtimeleft g) = 256" using ok by (simp_all add: gather_ok_def)
  define g2 where "g2 = write_log (opened a) (drop 4 buf) (int (length d) - 4) (taken a)
     (g\<lparr>oldtime := t, nd_msg := buf, filedes := (replicate 256 (- 1))[?i := opened a],
        fd_table := (if opened a < 0 then fd_table g else (fd_table g)(opened a \<mapsto> log_name p ?i)),
        goodtimeleft := (goodtimeleft g)[?i := FILEOPENTIME]\<rparr>)"
  have nm: "length (log_name p k) < 128" for k using p by (simp add: log_name_def)
  have run: "serve_round p a g = Some (Goes_On ((close_fd (opened a) g2)\<lparr>filedes := replicate 256 (- 1)\<rparr>))"
    using t d(1) tk node at put get restored o1 nm
    by (simp add: serve_round_def buf_def [symmetric] open_log_def Let_def g2_def)
  have g2: "length (goodtimeleft g2) = 256" "nd_msg g2 = buf" "(fd_table g2)(opened a := None) = (\<lambda>fd. None)"
    using o1 by (auto simp: g2_def write_log_def fun_eq_iff split: option.splits prod.splits)
  have "\<not> int (length d) - 4 < 0" using d(2) by simp
  then have "log_files g2 = (log_files g)(log_name p ?i := log_files g (log_name p ?i) @ logged a)"
    using o1 d(1) wr by (auto simp: g2_def write_log_def logged_def split: option.splits)
  moreover have "for_node ?i a" using d by (simp add: for_node_def)
  ultimately show ?thesis using run g2 len i
    by (intro exI [of _ "(close_fd (opened a) g2)\<lparr>filedes := replicate 256 (- 1)\<rparr>"] exI [of _ ?i])
      (simp add: gather_ok_def close_fd_def)
qed

text \<open>Outside the table, or with a path that does not fit the buffer of the name, there is no defined outcome.\<close>

lemma serve_round_stuck:
  assumes ok: "gather_ok g" and a: "received a" and bad: "\<not> in_table a \<or> 120 < length p"
  shows "serve_round p a g = None"
proof -
  obtain d where d: "datagram a = Some d" "4 \<le> length d" "length d \<le> 8196" using a by (auto simp: received_def)
  obtain t where t: "poll_rounds (polls a) g = Some (g\<lparr>oldtime := t\<rparr>)" using poll_rounds_idle [OF ok] by blast
  have tk: "take (length (nd_msg g)) d = d" using ok d(3) by (simp add: gather_ok_def)
  have f: "filedes g = replicate 256 (- 1)" using ok by (simp add: gather_ok_def)
  note run = serve_round_def t d(1) tk sent_node [OF d(2)] f
  show ?thesis
  proof (cases "in_table a")
    case True
    then have "aget (replicate 256 (- 1 :: int)) (msg_node d) = Some (- 1)"
      using d(1) nat_less_iff [of "msg_node d" 256] by (simp add: in_table_def aget_def)
    moreover have "\<not> length (log_name p k) < 128" for k using bad True by (simp add: log_name_def)
    ultimately show ?thesis by (simp add: run open_log_def Let_def)
  next
    case False
    then have "aget (replicate 256 (- 1 :: int)) (msg_node d) = None" using d(1) by (simp add: in_table_def aget_def)
    then show ?thesis by (simp add: run Let_def)
  qed
qed

section \<open>The logs\<close>

lemma upd_concat:
  assumes "f' = f(log_name p m := f (log_name p m) @ x)" "m < 256" "n < 256"
  shows "f' (log_name p n) = f (log_name p n) @ (if m = n then x else [])"
  using assms log_name_inj [of m n p] by auto

lemma for_node_unique: "for_node m a \<Longrightarrow> for_node n a \<longleftrightarrow> m = n"
  by (auto simp: for_node_def)

text \<open>C25. A run of the log server's loop on datagrams that hold at least the number of a node, from a state with
  no file open: if each number is one of 0 to 255 and the log path has at most 120 characters,
  the loop never exits and never leaves its arrays, and afterwards the log file of each node is what it
  was, followed by the data of the node's own datagrams, in the order of arrival, each cut where
  \<open>write\<close> stopped taking it, with no descriptor left open; otherwise the run goes outside an array.
  The code checks neither condition.\<close>

theorem logs_keep_arrival_order:
  assumes "gather_ok g" "list_all received as"
  shows "if list_all in_table as \<and> (as = [] \<or> length p \<le> 120) then
       \<exists>g'. serverloop p as g = Some (Goes_On g') \<and> gather_ok g' \<and>
         (\<forall>n \<in> {0..<256}. log_files g' (log_name p n) =
            log_files g (log_name p n) @ concat (map logged (filter (for_node n) as)))
     else serverloop p as g = None"
  using assms
proof (induction "as" arbitrary: g)
  case Nil
  then show ?case by simp
next
  case (Cons a as)
  show ?case
  proof (cases "in_table a \<and> length p \<le> 120")
    case False
    then have "serve_round p a g = None" using serve_round_stuck [OF Cons.prems(1)] Cons.prems(2) by auto
    then show ?thesis using False by auto
  next
    case True
    obtain g1 m where g1: "serve_round p a g = Some (Goes_On g1)" "gather_ok g1" "m < 256" "for_node m a"
        "log_files g1 = (log_files g)(log_name p m := log_files g (log_name p m) @ logged a)"
      using serve_round_logs [OF Cons.prems(1), of a p] Cons.prems(2) True by auto
    note ih = Cons.IH [OF g1(2)]
    show ?thesis
    proof (cases "list_all in_table as")
      case False
      then show ?thesis using ih Cons.prems(2) g1(1) by simp
    next
      case all: True
      then obtain g2 where g2: "serverloop p as g1 = Some (Goes_On g2)" "gather_ok g2"
          "\<forall>n \<in> {0..<256}. log_files g2 (log_name p n) =
             log_files g1 (log_name p n) @ concat (map logged (filter (for_node n) as))"
        using ih Cons.prems(2) True by auto
      have "log_files g2 (log_name p n) = log_files g (log_name p n) @ concat (map logged (filter (for_node n) (a # as)))"
        if n: "n < 256" for n
        using g2(3) n upd_concat [OF g1(5) g1(3) n] for_node_unique [OF g1(4), of n] by simp
      then show ?thesis using g1(1) g2(1,2) True all by auto
    qed
  qed
qed

definition two_arrivals :: "arrival list" where
  "two_arrivals =
     [\<lparr>polls = [(5, 5)], datagram = Some [7, 0, 0, 0, 1, 2], opened = 4, taken = Some 8\<rparr>,
      \<lparr>polls = [(5, 6), (7, 7)], datagram = Some [7, 0, 0, 0, 3], opened = 4, taken = Some 8\<rparr>]"

lemma two_arrivals_ok: "list_all received two_arrivals" "list_all in_table two_arrivals" "logged (two_arrivals ! 0) = [1, 2]" "logged (two_arrivals ! 1) = [3]"
  "for_node 7 (two_arrivals ! 0)" "for_node 7 (two_arrivals ! 1)"
  by (simp_all add: two_arrivals_def received_def in_table_def logged_def for_node_def msg_node_def get32_def le32_def)

lemma logs_keep_arrival_order_witness:
  "\<exists>g'. serverloop ''.'' two_arrivals (gather_start (replicate 256 0) (replicate 8196 0) 4 (\<lambda>x. [])) = Some (Goes_On g') \<and>
     log_files g' ''./log007'' = [1, 2, 3]"
proof -
  have g: "gather_ok (gather_start (replicate 256 0) (replicate 8196 0) 4 (\<lambda>x. []))"
    by (simp add: gather_ok_def gather_start_def)
  have n: "log_name ''.'' 7 = ''./log007''" by code_simp
  have t: "two_arrivals = [two_arrivals ! 0, two_arrivals ! 1]" by (simp add: two_arrivals_def)
  have "concat (map logged (filter (for_node 7) two_arrivals)) = [1, 2, 3]"
    by (subst t) (simp add: two_arrivals_ok del: One_nat_def)
  moreover have "7 \<in> {0..<256::nat}" by simp
  moreover obtain g' where "serverloop ''.'' two_arrivals (gather_start (replicate 256 0) (replicate 8196 0) 4 (\<lambda>x. [])) = Some (Goes_On g')"
    "\<forall>n \<in> {0..<256}. log_files g' (log_name ''.'' n) = [] @ concat (map logged (filter (for_node n) two_arrivals))"
    using logs_keep_arrival_order [OF g two_arrivals_ok(1), of "''.''"] two_arrivals_ok(2) by (auto simp: gather_start_def)
  ultimately show ?thesis using n by (metis append_Nil)
qed

end
