(* ===== verification/Mt_Base.thy ===== *)
theory Mt_Base
  imports Prelude
begin

text \<open>
  Arrays, loops and floating point as the METIS sources under \<open>src/tools/assignment/metis\<close>
  use them. An \<open>idxtype *\<close> is an \<open>int list\<close> read and written through the checked accesses of
  the prelude; \<open>at\<close> and \<open>upd\<close> are their values inside the bounds, for use in statements. A
  counted loop is \<open>for_loop\<close>, a search that leaves its loop by \<open>break\<close> is \<open>search\<close> (it gives the
  value of the loop variable), and a loop without a counter is \<open>while_loop\<close>, a
  \<open>partial_function\<close>, so that a loop that does not end is \<open>None\<close>. Weights are mathematical
  integers: the sources add \<open>int\<close>s, whose overflow is undefined in C.
\<close>

section \<open>Arrays\<close>

definition at :: "'a list \<Rightarrow> int \<Rightarrow> 'a" where
  "at xs i = xs ! nat i"

definition upd :: "'a list \<Rightarrow> int \<Rightarrow> 'a \<Rightarrow> 'a list" where
  "upd xs i x = xs[nat i := x]"

definition ilen :: "'a list \<Rightarrow> int" where
  "ilen xs = int (length xs)"

named_theorems arr \<open>reads and writes inside the bounds\<close>

lemma aget_at [arr]: "0 \<le> i \<Longrightarrow> i < ilen xs \<Longrightarrow> aget xs i = Some (at xs i)"
  by (simp add: aget_def at_def ilen_def)

lemma aset_upd [arr]: "0 \<le> i \<Longrightarrow> i < ilen xs \<Longrightarrow> aset xs i x = Some (upd xs i x)"
  by (simp add: aset_def upd_def ilen_def)

lemma aget_SomeD: "aget xs i = Some x \<Longrightarrow> 0 \<le> i \<and> i < ilen xs \<and> x = at xs i"
  by (auto simp: aget_def at_def ilen_def split: if_splits)

lemma ilen_upd [simp]: "ilen (upd xs i x) = ilen xs"
  by (simp add: ilen_def upd_def)

lemma length_upd [simp]: "length (upd xs i x) = length xs"
  by (simp add: upd_def)

lemma ilen_nonneg [simp]: "0 \<le> ilen xs"
  by (simp add: ilen_def)

lemma ilen_not_neg [simp]: "\<not> ilen xs < 0"
  by (simp add: ilen_def)

lemma ilen_Nil [simp]: "ilen [] = 0"
  by (simp add: ilen_def)

lemma ilen_replicate [simp]: "ilen (replicate n x) = int n"
  by (simp add: ilen_def)

lemma ilen_append [simp]: "ilen (xs @ ys) = ilen xs + ilen ys"
  by (simp add: ilen_def)

lemma at_upd [simp]:
  "0 \<le> i \<Longrightarrow> i < ilen xs \<Longrightarrow> 0 \<le> j \<Longrightarrow> at (upd xs i x) j = (if j = i then x else at xs j)"
  by (auto simp: at_def upd_def ilen_def nth_list_update)

lemma at_upd_same: "0 \<le> i \<Longrightarrow> i < ilen xs \<Longrightarrow> at (upd xs i x) i = x"
  by simp

lemma at_upd_other: "0 \<le> i \<Longrightarrow> 0 \<le> j \<Longrightarrow> j \<noteq> i \<Longrightarrow> at (upd xs i x) j = at xs j"
  by (auto simp: at_def upd_def nth_list_update)

lemma at_replicate [simp]: "0 \<le> i \<Longrightarrow> i < int n \<Longrightarrow> at (replicate n x) i = x"
  by (simp add: at_def)

lemma at_append: "0 \<le> i \<Longrightarrow> at (xs @ ys) i = (if i < ilen xs then at xs i else at ys (i - ilen xs))"
  by (auto simp: at_def ilen_def nth_append nat_diff_distrib)

lemma at_eqI:
  assumes "length xs = length ys" "\<And>i. 0 \<le> i \<Longrightarrow> i < ilen xs \<Longrightarrow> at xs i = at ys i"
  shows "xs = ys"
proof (rule nth_equalityI)
  fix k assume "k < length xs"
  with assms(2) [of "int k"] show "xs ! k = ys ! k" by (simp add: at_def ilen_def)
qed (fact assms(1))

lemma at_in_set: "0 \<le> i \<Longrightarrow> i < ilen xs \<Longrightarrow> at xs i \<in> set xs"
  by (simp add: at_def ilen_def)

lemma set_at: "set xs = at xs ` {0..<ilen xs}"
proof
  show "set xs \<subseteq> at xs ` {0..<ilen xs}"
  proof
    fix x assume "x \<in> set xs"
    then obtain k where "k < length xs" "x = xs ! k" by (metis in_set_conv_nth)
    then have "x = at xs (int k)" "int k \<in> {0..<ilen xs}" by (simp_all add: at_def ilen_def)
    then show "x \<in> at xs ` {0..<ilen xs}" by blast
  qed
qed (auto simp: at_in_set)

section \<open>Counted loops\<close>

primrec for_n :: "nat \<Rightarrow> int \<Rightarrow> (int \<Rightarrow> 's \<Rightarrow> 's option) \<Rightarrow> 's \<Rightarrow> 's option" where
  "for_n 0 a f s = Some s"
| "for_n (Suc n) a f s = do { t \<leftarrow> f a s; for_n n (a + 1) f t }"

text \<open>\<open>for (i = a; i < b; i++)\<close>, with the variables the body changes as its state.\<close>

definition for_loop :: "int \<Rightarrow> int \<Rightarrow> (int \<Rightarrow> 's \<Rightarrow> 's option) \<Rightarrow> 's \<Rightarrow> 's option" where
  "for_loop a b f s = for_n (nat (b - a)) a f s"

lemma for_loop_empty [simp]: "b \<le> a \<Longrightarrow> for_loop a b f s = Some s"
  by (simp add: for_loop_def)

lemma for_loop_step: "a < b \<Longrightarrow> for_loop a b f s = do { t \<leftarrow> f a s; for_loop (a + 1) b f t }"
proof -
  assume "a < b"
  then have "nat (b - a) = Suc (nat (b - (a + 1)))" by simp
  then show ?thesis by (simp add: for_loop_def)
qed

lemma for_loop_rule:
  assumes "a \<le> b" "P a s"
    and "\<And>i t. a \<le> i \<Longrightarrow> i < b \<Longrightarrow> P i t \<Longrightarrow> \<exists>t'. f i t = Some t' \<and> P (i + 1) t'"
  shows "\<exists>t. for_loop a b f s = Some t \<and> P b t"
  using assms
proof (induction "nat (b - a)" arbitrary: a s)
  case 0
  then show ?case by auto
next
  case (Suc n)
  then have "a < b" by simp
  with Suc.prems obtain t where t: "f a s = Some t" "P (a + 1) t" by blast
  have "\<exists>t'. for_loop (a + 1) b f t = Some t' \<and> P b t'"
    by (rule Suc.hyps(1)) (use Suc t \<open>a < b\<close> in \<open>auto\<close>)
  with t \<open>a < b\<close> show ?case by (simp add: for_loop_step)
qed

lemma for_loop_cong:
  assumes "\<And>i t. a \<le> i \<Longrightarrow> i < b \<Longrightarrow> f i t = g i t"
  shows "for_loop a b f s = for_loop a b g s"
  using assms
proof (induction "nat (b - a)" arbitrary: a s)
  case 0
  then show ?case by simp
next
  case (Suc n)
  then have "a < b" by simp
  with Suc show ?case
    by (auto simp: for_loop_step intro!: Option.bind_cong)
qed

lemma for_loop_split:
  assumes "a \<le> m" "m \<le> b"
  shows "for_loop a b f s = do { t \<leftarrow> for_loop a m f s; for_loop m b f t }"
  using assms
proof (induction "nat (m - a)" arbitrary: a s)
  case 0
  then show ?case by simp
next
  case (Suc n)
  then have "a < m" by simp
  with Suc show ?case
    by (auto simp: for_loop_step Option.bind_assoc intro!: Option.bind_cong)
qed

text \<open>\<open>for (i = a; i < b; i++) if (p) break;\<close>: the value of \<open>i\<close> after the loop.\<close>

primrec search_n :: "nat \<Rightarrow> int \<Rightarrow> (int \<Rightarrow> bool option) \<Rightarrow> int option" where
  "search_n 0 a p = Some a"
| "search_n (Suc n) a p = do { c \<leftarrow> p a; if c then Some a else search_n n (a + 1) p }"

definition search :: "int \<Rightarrow> int \<Rightarrow> (int \<Rightarrow> bool option) \<Rightarrow> int option" where
  "search a b p = search_n (nat (b - a)) a p"

lemma search_empty [simp]: "b \<le> a \<Longrightarrow> search a b p = Some a"
  by (simp add: search_def)

lemma search_step: "a < b \<Longrightarrow> search a b p = do { c \<leftarrow> p a; if c then Some a else search (a + 1) b p }"
proof -
  assume "a < b"
  then have "nat (b - a) = Suc (nat (b - (a + 1)))" by simp
  then show ?thesis by (simp add: search_def cong: if_cong)
qed

lemma search_rule:
  assumes "a \<le> b" "\<And>i. a \<le> i \<Longrightarrow> i < b \<Longrightarrow> p i = Some (q i)"
  shows "\<exists>j. search a b p = Some j \<and> a \<le> j \<and> j \<le> b \<and> (\<forall>i. a \<le> i \<and> i < j \<longrightarrow> \<not> q i) \<and> (j < b \<longrightarrow> q j)"
  using assms
proof (induction "nat (b - a)" arbitrary: a)
  case 0
  then show ?case by auto
next
  case (Suc n)
  then have "a < b" by simp
  show ?case
  proof (cases "q a")
    case True
    with Suc.prems \<open>a < b\<close> show ?thesis by (auto simp: search_step)
  next
    case False
    have "\<exists>j. search (a + 1) b p = Some j \<and> a + 1 \<le> j \<and> j \<le> b
        \<and> (\<forall>i. a + 1 \<le> i \<and> i < j \<longrightarrow> \<not> q i) \<and> (j < b \<longrightarrow> q j)"
      by (rule Suc.hyps(1)) (use Suc \<open>a < b\<close> in auto)
    then obtain j where j: "search (a + 1) b p = Some j" "a + 1 \<le> j" "j \<le> b"
      "\<And>i. a + 1 \<le> i \<Longrightarrow> i < j \<Longrightarrow> \<not> q i" "j < b \<longrightarrow> q j" by auto
    have "\<not> q i" if "a \<le> i" "i < j" for i
      using j(4) [of i] False that by (cases "i = a") auto
    then show ?thesis
      using j Suc.prems \<open>a < b\<close> False by (auto simp: search_step)
  qed
qed

text \<open>The rule as an elimination, and the value of a search whose result is known.\<close>

lemma searchE:
  assumes "a \<le> b" "\<And>i. a \<le> i \<Longrightarrow> i < b \<Longrightarrow> p i = Some (q i)"
  obtains j where "search a b p = Some j" "a \<le> j" "j \<le> b"
    "\<And>i. a \<le> i \<Longrightarrow> i < j \<Longrightarrow> \<not> q i" "j < b \<Longrightarrow> q j"
  using search_rule [of a b p q, OF assms] that by auto

text \<open>\<open>for (j = b; j > a; j--) if (p) break;\<close>\<close>

primrec search_down_n :: "nat \<Rightarrow> int \<Rightarrow> (int \<Rightarrow> bool option) \<Rightarrow> int option" where
  "search_down_n 0 b p = Some b"
| "search_down_n (Suc n) b p = do { c \<leftarrow> p b; if c then Some b else search_down_n n (b - 1) p }"

definition search_down :: "int \<Rightarrow> int \<Rightarrow> (int \<Rightarrow> bool option) \<Rightarrow> int option" where
  "search_down b a p = search_down_n (nat (b - a)) b p"

lemma search_down_rule:
  assumes "a \<le> b" "\<And>i. a < i \<Longrightarrow> i \<le> b \<Longrightarrow> p i = Some (q i)"
  shows "\<exists>j. search_down b a p = Some j \<and> a \<le> j \<and> j \<le> b \<and> (\<forall>i. j < i \<and> i \<le> b \<longrightarrow> \<not> q i) \<and> (a < j \<longrightarrow> q j)"
  using assms
proof (induction "nat (b - a)" arbitrary: b)
  case 0
  then show ?case by (auto simp: search_down_def)
next
  case (Suc n)
  then have "a < b" by simp
  have step: "search_down b a p = (if q b then Some b else search_down (b - 1) a p)"
  proof -
    have "nat (b - a) = Suc (nat (b - 1 - a))" using \<open>a < b\<close> by simp
    then show ?thesis using Suc.prems(2) [of b] \<open>a < b\<close> by (simp add: search_down_def)
  qed
  show ?case
  proof (cases "q b")
    case True
    with step \<open>a < b\<close> show ?thesis by auto
  next
    case False
    have "\<exists>j. search_down (b - 1) a p = Some j \<and> a \<le> j \<and> j \<le> b - 1
        \<and> (\<forall>i. j < i \<and> i \<le> b - 1 \<longrightarrow> \<not> q i) \<and> (a < j \<longrightarrow> q j)"
      by (rule Suc.hyps(1)) (use Suc \<open>a < b\<close> in auto)
    then obtain j where j: "search_down (b - 1) a p = Some j" "a \<le> j" "j \<le> b - 1"
      "\<And>i. j < i \<Longrightarrow> i \<le> b - 1 \<Longrightarrow> \<not> q i" "a < j \<longrightarrow> q j" by auto
    have "\<not> q i" if "j < i" "i \<le> b" for i
      using j(4) [of i] False that by (cases "i = b") auto
    then show ?thesis using j step False by auto
  qed
qed

text \<open>\<open>for (i = b; i > a; i--)\<close>\<close>

definition for_down :: "int \<Rightarrow> int \<Rightarrow> (int \<Rightarrow> 's \<Rightarrow> 's option) \<Rightarrow> 's \<Rightarrow> 's option" where
  "for_down b a f s = for_loop 0 (b - a) (\<lambda>m. f (b - m)) s"

lemma for_down_rule:
  assumes "a \<le> b" "P b s"
    and "\<And>i t. a < i \<Longrightarrow> i \<le> b \<Longrightarrow> P i t \<Longrightarrow> \<exists>t'. f i t = Some t' \<and> P (i - 1) t'"
  shows "\<exists>t. for_down b a f s = Some t \<and> P a t"
proof -
  have "\<exists>t. for_loop 0 (b - a) (\<lambda>m. f (b - m)) s = Some t \<and> P (b - (b - a)) t"
  proof (rule for_loop_rule)
    fix i t assume "0 \<le> i" "i < b - a" "P (b - i) t"
    then show "\<exists>t'. f (b - i) t = Some t' \<and> P (b - (i + 1)) t'"
      using assms(3) [of "b - i" t] by (simp add: algebra_simps)
  qed (use assms in auto)
  then show ?thesis by (simp add: for_down_def)
qed

section \<open>Loops without a counter\<close>

partial_function (option) while_loop :: "('s \<Rightarrow> bool option) \<Rightarrow> ('s \<Rightarrow> 's option) \<Rightarrow> 's \<Rightarrow> 's option" where
  "while_loop c f s = do { b \<leftarrow> c s; if b then do { t \<leftarrow> f s; while_loop c f t } else Some s }"

lemma while_loop_rule:
  fixes m :: "'s \<Rightarrow> nat"
  assumes "I s"
    and "\<And>s. I s \<Longrightarrow> \<exists>b. c s = Some b \<and> (\<not> b \<longrightarrow> Q s) \<and> (b \<longrightarrow> (\<exists>t. f s = Some t \<and> I t \<and> m t < m s))"
  shows "\<exists>t. while_loop c f s = Some t \<and> Q t"
  using assms(1)
proof (induction "m s" arbitrary: s rule: less_induct)
  case less
  from assms(2) [OF less.prems] obtain b where b: "c s = Some b" "\<not> b \<longrightarrow> Q s"
    "b \<longrightarrow> (\<exists>t. f s = Some t \<and> I t \<and> m t < m s)" by blast
  show ?case
  proof (cases b)
    case True
    with b obtain t where t: "f s = Some t" "I t" "m t < m s" by blast
    from less.hyps [OF t(3,2)] b t True show ?thesis
      by (simp add: while_loop.simps [of c f s])
  qed (use b in \<open>simp add: while_loop.simps [of c f s]\<close>)
qed

text \<open>What holds whenever such a loop ends; a loop whose condition never fails is \<open>None\<close>.\<close>

lemma while_loop_partial:
  assumes "while_loop c f s = Some t" "I s"
    and "\<And>s t. I s \<Longrightarrow> c s = Some True \<Longrightarrow> f s = Some t \<Longrightarrow> I t"
  shows "I t \<and> c t = Some False"
proof -
  have "(\<forall>s t. I s \<longrightarrow> c s = Some True \<longrightarrow> f s = Some t \<longrightarrow> I t) \<longrightarrow> I s \<longrightarrow> I t \<and> c t = Some False"
    using assms(1)
  proof (induction c f s t rule: while_loop.raw_induct [rotated, consumes 1])
    case (1 wl c f s t)
    show ?case
    proof (intro impI)
      assume pres: "\<forall>s t. I s \<longrightarrow> c s = Some True \<longrightarrow> f s = Some t \<longrightarrow> I t" and "I s"
      from 1(2) obtain b where b: "c s = Some b" by (cases "c s") auto
      show "I t \<and> c t = Some False"
      proof (cases b)
        case True
        with 1(2) b obtain u where u: "f s = Some u" "wl c f u = Some t"
          by (auto simp: Option.bind_eq_Some_conv)
        with pres \<open>I s\<close> b True have "I u" by auto
        with 1(1) [OF u(2)] pres show ?thesis by blast
      qed (use 1(2) b \<open>I s\<close> in auto)
    qed
  qed
  with assms(2,3) show ?thesis by blast
qed

lemma while_loop_diverges:
  assumes "I s" "\<And>s. I s \<Longrightarrow> c s = Some True" "\<And>s t. I s \<Longrightarrow> f s = Some t \<Longrightarrow> I t"
  shows "while_loop c f s = None"
proof (cases "while_loop c f s")
  case (Some t)
  with while_loop_partial [of c f s t I] assms show ?thesis by fastforce
qed

section \<open>Doubles\<close>

text \<open>
  The sources multiply counts by the constants 0.7, 0.9 and 1.5 in double precision. A product
  of a double \<open>m / 2 ^ 53\<close> and an \<open>int\<close> is the exact product rounded to 53 significant bits,
  half to even; \<open>round53\<close> is that rounding on non-negative integers.
\<close>

fun bits_needed :: "nat \<Rightarrow> int \<Rightarrow> nat" where
  "bits_needed 0 p = 0"
| "bits_needed (Suc k) p = (if p \<le> 0 then 0 else Suc (bits_needed k (p div 2)))"

definition round53 :: "int \<Rightarrow> int" where
  "round53 p =
     (let e = bits_needed 128 p - 53;
          q = p div 2 ^ e;
          r = p mod 2 ^ e;
          h = 2 ^ (e - 1)
      in if e = 0 then p
         else if r < h \<or> r = h \<and> even q then q * 2 ^ e
         else (q + 1) * 2 ^ e)"

text \<open>\<open>(int) (0.7 * q)\<close>, \<open>c < 0.9 * n\<close> and \<open>(int) (1.5 * q)\<close> for non-negative \<open>int\<close>s; the doubles
  nearest to 0.7 and 0.9 are \<open>6305039478318694 / 2 ^ 53\<close> and \<open>8106479329266893 / 2 ^ 53\<close>, and 1.5
  is exact.\<close>

definition times_07 :: "int \<Rightarrow> int" where
  "times_07 q = round53 (6305039478318694 * q) div 2 ^ 53"

definition less_09 :: "int \<Rightarrow> int \<Rightarrow> bool" where
  "less_09 c n \<longleftrightarrow> c * 2 ^ 53 < round53 (8106479329266893 * n)"

definition times_15 :: "int \<Rightarrow> int" where
  "times_15 q = (3 * q) sdiv 2"

lemma bits_needed_bounds:
  "0 < p \<Longrightarrow> p < 2 ^ k \<Longrightarrow> p < 2 ^ bits_needed k p \<and> 2 ^ bits_needed k p \<le> 2 * p"
proof (induction k p rule: bits_needed.induct)
  case (2 k p)
  show ?case
  proof (cases "p = 1")
    case True
    then show ?thesis by (cases k) simp_all
  next
    case False
    with 2 have "p div 2 < 2 ^ bits_needed k (p div 2) \<and> 2 ^ bits_needed k (p div 2) \<le> 2 * (p div 2)"
      by (intro 2(1)) auto
    with 2 show ?thesis by auto
  qed
qed simp

lemma bits_needed_0 [simp]: "bits_needed k 0 = 0"
  by (cases k) simp_all

lemma round53_0 [simp]: "round53 0 = 0"
  by (simp add: round53_def)

lemma round53_nonneg: "0 \<le> p \<Longrightarrow> 0 \<le> round53 p"
  by (auto simp: round53_def Let_def pos_imp_zdiv_nonneg_iff)

lemma round53_upper:
  assumes "0 < p" "p < 2 ^ 128"
  shows "round53 p * 2 ^ 53 \<le> p * (2 ^ 53 + 1)"
proof -
  define b where "b = bits_needed 128 p"
  define e where "e = b - 53"
  have "2 ^ b \<le> 2 * p" using bits_needed_bounds [OF assms] by (simp add: b_def)
  have dm: "p = p div 2 ^ e * 2 ^ e + p mod 2 ^ e" by (rule div_mult_mod_eq [symmetric])
  have md: "0 \<le> p mod 2 ^ e" by simp
  show ?thesis
  proof (cases "e = 0")
    case True
    then show ?thesis using assms by (simp add: round53_def Let_def flip: b_def e_def)
  next
    case False
    then have "b = Suc (53 + (e - 1))" by (simp add: e_def)
    then have "(2 :: int) * 2 ^ (53 + (e - 1)) \<le> 2 * p"
      using \<open>2 ^ b \<le> 2 * p\<close> by (simp del: power_Suc add: power_Suc [symmetric])
    then have "2 ^ (53 + (e - 1)) \<le> p" by linarith
    then have low: "2 ^ (e - 1) * 2 ^ 53 \<le> p" by (simp add: power_add mult.commute)
    have half: "(2 :: int) ^ e = 2 * 2 ^ (e - 1)"
      using False by (cases e) simp_all
    have "round53 p \<le> p + 2 ^ (e - 1)"
    proof (cases "p mod 2 ^ e < 2 ^ (e - 1) \<or> p mod 2 ^ e = 2 ^ (e - 1) \<and> even (p div 2 ^ e)")
      case True
      have "round53 p = p div 2 ^ e * 2 ^ e"
        using True False by (auto simp: round53_def Let_def simp flip: b_def e_def)
      moreover have "(0 :: int) \<le> 2 ^ (e - 1)" by simp
      ultimately show ?thesis using dm md by linarith
    next
      case other: False
      have "round53 p = p div 2 ^ e * 2 ^ e + 2 ^ e"
        using other False by (auto simp: round53_def Let_def distrib_right simp flip: b_def e_def)
      moreover have "2 ^ (e - 1) \<le> p mod 2 ^ e" using other by auto
      ultimately show ?thesis using dm half by linarith
    qed
    then have "round53 p * 2 ^ 53 \<le> (p + 2 ^ (e - 1)) * 2 ^ 53" by simp
    also have "\<dots> \<le> p * (2 ^ 53 + 1)" using low by (simp add: algebra_simps)
    finally show ?thesis .
  qed
qed

lemma times_07_nonneg: "0 \<le> q \<Longrightarrow> 0 \<le> times_07 q"
  by (simp add: times_07_def round53_nonneg pos_imp_zdiv_nonneg_iff)

lemma less_09_less:
  assumes "less_09 c n" "0 < n" "n < 2 ^ 32"
  shows "c < n"
proof -
  define p where "p = 8106479329266893 * n"
  have p: "0 < p" "p < 2 ^ 128" using assms by (simp_all add: p_def)
  have "c * 2 ^ 53 * 2 ^ 53 < round53 p * 2 ^ 53"
    using assms(1) by (simp add: less_09_def p_def)
  also have "\<dots> \<le> p * (2 ^ 53 + 1)" using round53_upper [OF p] .
  also have "\<dots> \<le> n * 2 ^ 53 * 2 ^ 53" using assms(2) by (simp add: p_def)
  finally show ?thesis by simp
qed

end
