(* ===== verification/Mt_Util.thy ===== *)
theory Mt_Util
  imports Mt_Base
begin

text \<open>
  The utility routines of \<open>util.c\<close> and the numbering conversions of \<open>fortran.c\<close>.
  \<open>rand ()\<close> is a stream of non-negative numbers with a position in it.
\<close>

section \<open>Vectors\<close>

definition idxset :: "int \<Rightarrow> int \<Rightarrow> int list \<Rightarrow> int list option" where
  "idxset n val x = for_loop 0 n (\<lambda>i x. aset x i val) x"

definition idxamax :: "int \<Rightarrow> int list \<Rightarrow> int option" where
  "idxamax n x = for_loop 1 n (\<lambda>i m. do {
     a \<leftarrow> aget x i; b \<leftarrow> aget x m; Some (if a > b then i else m) }) 0"

definition idxamin :: "int \<Rightarrow> int list \<Rightarrow> int option" where
  "idxamin n x = for_loop 1 n (\<lambda>i m. do {
     a \<leftarrow> aget x i; b \<leftarrow> aget x m; Some (if a < b then i else m) }) 0"

definition idxsum :: "int \<Rightarrow> int list \<Rightarrow> int option" where
  "idxsum n x = for_loop 0 n (\<lambda>i sum. do { a \<leftarrow> aget x i; Some (sum + a) }) 0"

definition idxsum_strd :: "int \<Rightarrow> int list \<Rightarrow> int \<Rightarrow> int option" where
  "idxsum_strd n x incx = for_loop 0 n (\<lambda>i sum. do { a \<leftarrow> aget x (i * incx); Some (sum + a) }) 0"

definition idxadd :: "int \<Rightarrow> int list \<Rightarrow> int list \<Rightarrow> int list option" where
  "idxadd n x y = for_down (n - 1) (- 1) (\<lambda>n y. do {
     a \<leftarrow> aget x n; b \<leftarrow> aget y n; aset y n (b + a) }) y"

definition SWAP :: "'a list \<Rightarrow> int \<Rightarrow> int \<Rightarrow> 'a list option" where
  "SWAP p v u = do { tmp \<leftarrow> aget p v; b \<leftarrow> aget p u; p \<leftarrow> aset p v b; aset p u tmp }"

definition RandomInRangeFast :: "int \<Rightarrow> int \<Rightarrow> int option" where
  "RandomInRangeFast r u = cmod (r div 8) u"

definition RandomPermute ::
  "(nat \<Rightarrow> int) \<Rightarrow> nat \<Rightarrow> int \<Rightarrow> int list \<Rightarrow> int \<Rightarrow> (int list \<times> nat) option" where
  "RandomPermute rand k n p flag = do {
     p \<leftarrow> (if flag = 1 then for_loop 0 n (\<lambda>i p. aset p i i) p else Some p);
     if n \<le> 4 then Some (p, k)
     else for_loop 0 ((n + 15) div 16) (\<lambda>_ (p, k). do {
       u \<leftarrow> RandomInRangeFast (rand k) (n - 4);
       v \<leftarrow> RandomInRangeFast (rand (k + 1)) (n - 4);
       p \<leftarrow> SWAP p v u;
       p \<leftarrow> SWAP p (v + 1) (u + 1);
       p \<leftarrow> SWAP p (v + 2) (u + 2);
       p \<leftarrow> SWAP p (v + 3) (u + 3);
       Some (p, k + 2) }) (p, k) }"

text \<open>\<open>for (; a % 2 != 1; a = a >> 1);\<close> does not end for 0 and negative numbers.\<close>

definition ispow2 :: "int \<Rightarrow> int option" where
  "ispow2 a = do {
     a \<leftarrow> while_loop (\<lambda>a. Some (a smod 2 \<noteq> 1)) (\<lambda>a. Some (a div 2)) a;
     Some (if a > 1 then 0 else 1) }"

function log2_loop :: "int \<Rightarrow> int \<Rightarrow> int" where
  "log2_loop i a = (if a > 1 then log2_loop (i + 1) (a div 2) else i)"
  by auto
termination by (relation "measure (\<lambda>(i, a). nat a)") auto

declare log2_loop.simps [simp del]

definition log2 :: "int \<Rightarrow> int" where
  "log2 a = log2_loop 1 a - 1"

section \<open>Numbering\<close>

text \<open>The loops \<open>for (i = 0; i < n; i++) x[i] += d;\<close> of the conversions.\<close>

definition bump :: "int \<Rightarrow> int \<Rightarrow> int list \<Rightarrow> int list option" where
  "bump d n x = for_loop 0 n (\<lambda>i x. do { v \<leftarrow> aget x i; aset x i (v + d) }) x"

definition Change2CNumbering :: "int \<Rightarrow> int list \<Rightarrow> int list \<Rightarrow> (int list \<times> int list) option" where
  "Change2CNumbering nvtxs xadj adjncy = do {
     xadj \<leftarrow> bump (- 1) (nvtxs + 1) xadj;
     nedges \<leftarrow> aget xadj nvtxs;
     adjncy \<leftarrow> bump (- 1) nedges adjncy;
     Some (xadj, adjncy) }"

definition Change2FNumbering2 :: "int \<Rightarrow> int list \<Rightarrow> int list \<Rightarrow> (int list \<times> int list) option" where
  "Change2FNumbering2 nvtxs xadj adjncy = do {
     nedges \<leftarrow> aget xadj nvtxs;
     adjncy \<leftarrow> bump 1 nedges adjncy;
     xadj \<leftarrow> bump 1 (nvtxs + 1) xadj;
     Some (xadj, adjncy) }"

definition Change2FNumbering ::
  "int \<Rightarrow> int list \<Rightarrow> int list \<Rightarrow> int list \<Rightarrow> (int list \<times> int list \<times> int list) option" where
  "Change2FNumbering nvtxs xadj adjncy vector = do {
     vector \<leftarrow> bump 1 nvtxs vector;
     nedges \<leftarrow> aget xadj nvtxs;
     adjncy \<leftarrow> bump 1 nedges adjncy;
     xadj \<leftarrow> bump 1 (nvtxs + 1) xadj;
     Some (xadj, adjncy, vector) }"

definition Change2FNumberingOrder ::
  "int \<Rightarrow> int list \<Rightarrow> int list \<Rightarrow> int list \<Rightarrow> int list \<Rightarrow> (int list \<times> int list \<times> int list \<times> int list) option" where
  "Change2FNumberingOrder nvtxs xadj adjncy v1 v2 = do {
     (v1, v2) \<leftarrow> for_loop 0 nvtxs (\<lambda>i (v1, v2). do {
       a \<leftarrow> aget v1 i; v1 \<leftarrow> aset v1 i (a + 1);
       b \<leftarrow> aget v2 i; v2 \<leftarrow> aset v2 i (b + 1);
       Some (v1, v2) }) (v1, v2);
     nedges \<leftarrow> aget xadj nvtxs;
     adjncy \<leftarrow> bump 1 nedges adjncy;
     xadj \<leftarrow> bump 1 (nvtxs + 1) xadj;
     Some (xadj, adjncy, v1, v2) }"

definition ChangeMesh2CNumbering :: "int \<Rightarrow> int list \<Rightarrow> int list option" where
  "ChangeMesh2CNumbering n mesh = bump (- 1) n mesh"

definition ChangeMesh2FNumbering ::
  "int \<Rightarrow> int list \<Rightarrow> int \<Rightarrow> int list \<Rightarrow> int list \<Rightarrow> (int list \<times> int list \<times> int list) option" where
  "ChangeMesh2FNumbering n mesh nvtxs xadj adjncy = do {
     mesh \<leftarrow> bump 1 n mesh;
     nedges \<leftarrow> aget xadj nvtxs;
     adjncy \<leftarrow> bump 1 nedges adjncy;
     xadj \<leftarrow> bump 1 (nvtxs + 1) xadj;
     Some (mesh, xadj, adjncy) }"

definition ChangeMesh2FNumbering2 ::
  "int \<Rightarrow> int list \<Rightarrow> int \<Rightarrow> int \<Rightarrow> int list \<Rightarrow> int list \<Rightarrow> (int list \<times> int list \<times> int list) option" where
  "ChangeMesh2FNumbering2 n mesh ne nn epart npart = do {
     mesh \<leftarrow> bump 1 n mesh;
     epart \<leftarrow> bump 1 ne epart;
     npart \<leftarrow> bump 1 nn npart;
     Some (mesh, epart, npart) }"

section \<open>Facts about vectors\<close>

lemma idxset_spec:
  assumes "0 \<le> n" "n \<le> ilen x"
  shows "\<exists>y. idxset n val x = Some y \<and> length y = length x
    \<and> (\<forall>i. 0 \<le> i \<longrightarrow> at y i = (if i < n then val else at x i))"
proof -
  have "\<exists>y. for_loop 0 n (\<lambda>i x. aset x i val) x = Some y \<and> (length y = length x
    \<and> (\<forall>i. 0 \<le> i \<longrightarrow> at y i = (if i < n then val else at x i)))"
  proof (rule for_loop_rule)
    fix i t
    assume "0 \<le> i" "i < n"
      and t: "length t = length x \<and> (\<forall>j. 0 \<le> j \<longrightarrow> at t j = (if j < i then val else at x j))"
    moreover from t have "ilen t = ilen x" by (simp add: ilen_def)
    ultimately show "\<exists>t'. aset t i val = Some t' \<and> length t' = length x
        \<and> (\<forall>j. 0 \<le> j \<longrightarrow> at t' j = (if j < i + 1 then val else at x j))"
      using assms by (simp add: arr)
  qed (use assms in auto)
  then show ?thesis by (simp add: idxset_def)
qed

lemma idxsum_spec:
  assumes "0 \<le> n" "n \<le> ilen x"
  shows "idxsum n x = Some (\<Sum>i = 0..<n. at x i)"
proof -
  have "\<exists>y. for_loop 0 n (\<lambda>i sum. do { a \<leftarrow> aget x i; Some (sum + a) }) 0 = Some y
    \<and> y = (\<Sum>i = 0..<n. at x i)"
  proof (rule for_loop_rule)
    fix i t assume "0 \<le> i" "i < n" "t = (\<Sum>i = 0..<i. at x i)"
    moreover from \<open>0 \<le> i\<close> have "{0..<i + 1} = insert i {0..<i}" by auto
    ultimately show "\<exists>t'. do { a \<leftarrow> aget x i; Some (t + a) } = Some t' \<and> t' = (\<Sum>i = 0..<i + 1. at x i)"
      using assms by (simp add: arr)
  qed (use assms in auto)
  then show ?thesis by (simp add: idxsum_def)
qed

lemma idxamax_spec:
  assumes "0 < n" "n \<le> ilen x"
  shows "\<exists>m. idxamax n x = Some m \<and> 0 \<le> m \<and> m < n \<and> (\<forall>i. 0 \<le> i \<and> i < n \<longrightarrow> at x i \<le> at x m)"
proof -
  have "\<exists>m. for_loop 1 n (\<lambda>i m. do {
     a \<leftarrow> aget x i; b \<leftarrow> aget x m; Some (if a > b then i else m) }) 0 = Some m
    \<and> (0 \<le> m \<and> m < n \<and> (\<forall>i. 0 \<le> i \<and> i < n \<longrightarrow> at x i \<le> at x m))"
  proof (rule for_loop_rule)
    fix i m assume "1 \<le> i" "i < n" and "0 \<le> m \<and> m < i \<and> (\<forall>j. 0 \<le> j \<and> j < i \<longrightarrow> at x j \<le> at x m)"
    then have m: "0 \<le> m" "m < i" "\<And>j. 0 \<le> j \<Longrightarrow> j < i \<Longrightarrow> at x j \<le> at x m" by auto
    have "at x j \<le> at x (if at x i > at x m then i else m)" if "0 \<le> j" "j < i + 1" for j
      using m(3) [of j] that by (cases "j = i") auto
    then show "\<exists>t'. do { a \<leftarrow> aget x i; b \<leftarrow> aget x m; Some (if a > b then i else m) } = Some t'
        \<and> 0 \<le> t' \<and> t' < i + 1 \<and> (\<forall>j. 0 \<le> j \<and> j < i + 1 \<longrightarrow> at x j \<le> at x t')"
      using m assms \<open>i < n\<close> \<open>1 \<le> i\<close> by (simp add: arr)
  next
    have "at x j \<le> at x 0" if "0 \<le> j \<and> j < 1" for j :: int
    proof -
      from that have "j = 0" by simp
      then show ?thesis by simp
    qed
    then show "(0 :: int) \<le> 0 \<and> 0 < (1 :: int) \<and> (\<forall>j. 0 \<le> j \<and> j < 1 \<longrightarrow> at x j \<le> at x 0)" by auto
  qed (use assms in auto)
  then show ?thesis by (simp add: idxamax_def)
qed

section \<open>Random permutations\<close>

text \<open>The first \<open>n\<close> entries of an array are a permutation of the numbers below \<open>n\<close>.\<close>

definition perm_on :: "int \<Rightarrow> int list \<Rightarrow> bool" where
  "perm_on n p \<longleftrightarrow> n \<le> ilen p \<and> bij_betw (at p) {0..<n} {0..<n}"

lemma perm_onD:
  assumes "perm_on n p" "0 \<le> i" "i < n"
  shows "0 \<le> at p i" "at p i < n"
  using assms bij_betwE [of "at p" "{0..<n}" "{0..<n}"] by (auto simp: perm_on_def)

lemma perm_on_ex:
  assumes "perm_on n p" "0 \<le> v" "v < n"
  shows "\<exists>i. 0 \<le> i \<and> i < n \<and> at p i = v"
proof -
  have "v \<in> at p ` {0..<n}" using assms by (simp add: perm_on_def bij_betw_def)
  then show ?thesis by auto
qed

lemma perm_on_inj:
  assumes "perm_on n p" "0 \<le> i" "i < n" "0 \<le> j" "j < n" "at p i = at p j"
  shows "i = j"
  using assms inj_onD [of "at p" "{0..<n}" i j] by (simp add: perm_on_def bij_betw_def)

lemma perm_on_iff:
  assumes "n \<le> ilen p" "\<And>i. 0 \<le> i \<Longrightarrow> i < n \<Longrightarrow> 0 \<le> at p i \<and> at p i < n"
    and "\<And>i j. 0 \<le> i \<Longrightarrow> i < j \<Longrightarrow> j < n \<Longrightarrow> at p i \<noteq> at p j"
  shows "perm_on n p"
proof -
  have inj: "inj_on (at p) {0..<n}"
    by (rule inj_onI) (metis assms(3) atLeastLessThan_iff linorder_neqE)
  moreover have "at p ` {0..<n} \<subseteq> {0..<n}" using assms(2) by auto
  ultimately have "at p ` {0..<n} = {0..<n}"
    by (intro card_subset_eq) (auto simp: card_image)
  with inj assms(1) show ?thesis by (simp add: perm_on_def bij_betw_def)
qed

lemma SWAP_spec:
  assumes "0 \<le> v" "v < ilen p" "0 \<le> u" "u < ilen p"
  shows "\<exists>q. SWAP p v u = Some q \<and> length q = length p
    \<and> (\<forall>i. 0 \<le> i \<longrightarrow> at q i = (if i = u then at p v else if i = v then at p u else at p i))"
  using assms by (simp add: SWAP_def arr)

lemma SWAP_perm:
  assumes "perm_on n p" "0 \<le> v" "v < n" "0 \<le> u" "u < n"
  shows "\<exists>q. SWAP p v u = Some q \<and> length q = length p \<and> perm_on n q"
proof -
  have n: "n \<le> ilen p" using assms(1) by (simp add: perm_on_def)
  obtain q where q: "SWAP p v u = Some q" "length q = length p"
    "\<And>i. 0 \<le> i \<Longrightarrow> at q i = (if i = u then at p v else if i = v then at p u else at p i)"
    using SWAP_spec [of v p u] assms n by auto
  have "perm_on n q"
  proof (rule perm_on_iff)
    show "n \<le> ilen q" using n q(2) by (simp add: ilen_def)
    fix i j assume "0 \<le> i" "i < j" "j < n"
    then show "at q i \<noteq> at q j"
      using assms q(3) [of i] q(3) [of j] perm_on_inj [OF assms(1), of "if i = u then v else if i = v then u else i"
          "if j = u then v else if j = v then u else j"]
      by (auto split: if_splits)
  qed (use assms q(3) perm_onD [OF assms(1)] in \<open>auto\<close>)
  with q show ?thesis by blast
qed

lemma RandomPermute_perm:
  assumes n: "0 \<le> n" "n \<le> ilen p" and rand: "\<And>k. 0 \<le> rand k"
  shows "\<exists>q k'. RandomPermute rand k n p 1 = Some (q, k') \<and> length q = length p \<and> perm_on n q"
proof -
  have "\<exists>q. for_loop 0 n (\<lambda>i p. aset p i i) p = Some q
      \<and> (length q = length p \<and> (\<forall>i. 0 \<le> i \<and> i < n \<longrightarrow> at q i = i))"
  proof (rule for_loop_rule)
    fix i t
    assume "0 \<le> i" "i < n" and t: "length t = length p \<and> (\<forall>j. 0 \<le> j \<and> j < i \<longrightarrow> at t j = j)"
    moreover from t have "ilen t = ilen p" by (simp add: ilen_def)
    ultimately show "\<exists>t'. aset t i i = Some t' \<and> length t' = length p
        \<and> (\<forall>j. 0 \<le> j \<and> j < i + 1 \<longrightarrow> at t' j = j)"
      using n by (simp add: arr)
  qed (use n in auto)
  then obtain q where q: "for_loop 0 n (\<lambda>i p. aset p i i) p = Some q" "length q = length p"
    and id: "\<And>i. 0 \<le> i \<Longrightarrow> i < n \<Longrightarrow> at q i = i" by auto
  have pq: "perm_on n q"
    by (rule perm_on_iff) (use n q id in \<open>auto simp: ilen_def\<close>)
  show ?thesis
  proof (cases "n \<le> 4")
    case True
    with q pq show ?thesis by (simp add: RandomPermute_def)
  next
    case False
    define body where "body = (\<lambda>(_ :: int) (p :: int list, k). do {
       u \<leftarrow> RandomInRangeFast (rand k) (n - 4);
       v \<leftarrow> RandomInRangeFast (rand (k + 1)) (n - 4);
       p \<leftarrow> SWAP p v u;
       p \<leftarrow> SWAP p (v + 1) (u + 1);
       p \<leftarrow> SWAP p (v + 2) (u + 2);
       p \<leftarrow> SWAP p (v + 3) (u + 3);
       Some (p, k + 2) })"
    have "\<exists>t. for_loop 0 ((n + 15) div 16) body (q, k) = Some t
        \<and> (length (fst t) = length p \<and> perm_on n (fst t))"
    proof (rule for_loop_rule)
      fix i :: int and t :: "int list \<times> nat"
      assume t: "length (fst t) = length p \<and> perm_on n (fst t)"
      obtain a k where [simp]: "t = (a, k)" by force
      define u where "u = (rand k div 8) mod (n - 4)"
      define v where "v = (rand (k + 1) div 8) mod (n - 4)"
      have uv: "RandomInRangeFast (rand k) (n - 4) = Some u"
        "RandomInRangeFast (rand (k + 1)) (n - 4) = Some v"
        using rand [of k] rand [of "k + 1"] False
        by (simp_all add: RandomInRangeFast_def cmod_Some u_def v_def pos_imp_zdiv_nonneg_iff)
      have b: "0 \<le> u" "u < n - 4" "0 \<le> v" "v < n - 4"
        using False by (simp_all add: u_def v_def)
      from t b obtain a1 where a1: "SWAP a v u = Some a1" "length a1 = length a" "perm_on n a1"
        using SWAP_perm [of n a v u] by auto
      from a1 b obtain a2 where a2: "SWAP a1 (v + 1) (u + 1) = Some a2" "length a2 = length a" "perm_on n a2"
        using SWAP_perm [of n a1 "v + 1" "u + 1"] by auto
      from a2 b obtain a3 where a3: "SWAP a2 (v + 2) (u + 2) = Some a3" "length a3 = length a" "perm_on n a3"
        using SWAP_perm [of n a2 "v + 2" "u + 2"] by auto
      from a3 b obtain a4 where a4: "SWAP a3 (v + 3) (u + 3) = Some a4" "length a4 = length a" "perm_on n a4"
        using SWAP_perm [of n a3 "v + 3" "u + 3"] by auto
      show "\<exists>t'. body i t = Some t' \<and> length (fst t') = length p \<and> perm_on n (fst t')"
        using t a1(1) a2(1) a3(1) a4 uv by (simp add: body_def)
    qed (use False q pq in \<open>simp_all add: pos_imp_zdiv_nonneg_iff\<close>)
    with q(1) False show ?thesis
      by (auto simp: RandomPermute_def body_def)
  qed
qed

section \<open>Powers of two\<close>

lemma log2_loop_bounds:
  "1 \<le> a \<Longrightarrow> i \<le> log2_loop i a \<and> 2 ^ nat (log2_loop i a - i) \<le> a \<and> a < 2 * 2 ^ nat (log2_loop i a - i)"
proof (induction i a rule: log2_loop.induct)
  case (1 i a)
  show ?case
  proof (cases "a > 1")
    case True
    then have ih: "i + 1 \<le> log2_loop (i + 1) (a div 2)"
      "2 ^ nat (log2_loop (i + 1) (a div 2) - (i + 1)) \<le> a div 2"
      "a div 2 < 2 * 2 ^ nat (log2_loop (i + 1) (a div 2) - (i + 1))"
      using 1(1) by auto
    have eq: "log2_loop i a = log2_loop (i + 1) (a div 2)"
      using True by (simp add: log2_loop.simps [of i a])
    have "nat (log2_loop (i + 1) (a div 2) - i) = Suc (nat (log2_loop (i + 1) (a div 2) - (i + 1)))"
      using ih(1) by simp
    then have pow: "(2 :: int) ^ nat (log2_loop (i + 1) (a div 2) - i)
        = 2 * 2 ^ nat (log2_loop (i + 1) (a div 2) - (i + 1))" by simp
    have half: "2 * x \<le> a \<and> a < 2 * (2 * x)" if "x \<le> a div 2" "a div 2 < 2 * x" for x :: int
      using that by presburger
    from half [OF ih(2,3)] ih(1) show ?thesis by (simp only: eq pow) simp
  next
    case False
    with 1(2) have "a = 1" by simp
    then show ?thesis by (simp add: log2_loop.simps [of i 1])
  qed
qed

lemma log2_bounds:
  assumes "1 \<le> a"
  shows "0 \<le> log2 a" "2 ^ nat (log2 a) \<le> a" "a < 2 ^ (nat (log2 a) + 1)"
  using log2_loop_bounds [OF assms, of 1] by (simp_all add: log2_def)

lemma log2_one [simp]: "log2 1 = 0"
  by (simp add: log2_def log2_loop.simps)

lemma ispow2_one_step: "while_loop (\<lambda>a. Some (a smod 2 \<noteq> 1)) (\<lambda>a. Some (a div 2)) a
    = (if a smod 2 \<noteq> 1 then while_loop (\<lambda>a. Some (a smod 2 \<noteq> 1)) (\<lambda>a. Some (a div 2)) (a div 2)
       else Some (a :: int))"
  by (subst while_loop.simps) simp

lemma ispow2_pos:
  assumes "0 < a"
  shows "ispow2 a = Some (if \<exists>k. a = 2 ^ k then 1 else 0)"
proof -
  have *: "while_loop (\<lambda>a. Some (a smod 2 \<noteq> 1)) (\<lambda>a. Some (a div 2)) a = Some b
      \<Longrightarrow> 1 < b \<longleftrightarrow> \<not> (\<exists>k. a = 2 ^ k)" if "0 < a" for a b :: int
    using that
  proof (induction "nat a" arbitrary: a rule: less_induct)
    case less
    have m: "a smod 2 = a mod 2" using less.prems by (simp add: smod_nonneg)
    show ?case
    proof (cases "even a")
      case True
      then obtain c where c: "a = 2 * c" by blast
      have ih: "1 < b \<longleftrightarrow> \<not> (\<exists>k. c = 2 ^ k)"
        by (rule less.hyps) (use less.prems c m in \<open>auto simp: ispow2_one_step [of "2 * c"]\<close>)
      have "(\<exists>k. a = 2 ^ k) \<longleftrightarrow> (\<exists>k. c = 2 ^ k)"
      proof
        assume "\<exists>k. a = 2 ^ k"
        then obtain k where k: "a = 2 ^ k" ..
        with True less.prems have "k \<noteq> 0" by (auto intro: ccontr)
        with k c show "\<exists>k. c = 2 ^ k" by (cases k) auto
      next
        assume "\<exists>k. c = 2 ^ k"
        then obtain k where "c = 2 ^ k" ..
        with c have "a = 2 ^ Suc k" by simp
        then show "\<exists>k. a = 2 ^ k" ..
      qed
      with ih show ?thesis by simp
    next
      case False
      then have "a mod 2 = 1" by presburger
      then have "b = a" using less.prems m by (simp add: ispow2_one_step [of a])
      moreover have "(\<exists>k. a = 2 ^ k) \<longleftrightarrow> a = 1"
      proof
        assume "\<exists>k. a = 2 ^ k"
        then obtain k where "a = 2 ^ k" ..
        with False show "a = 1" by (cases k) auto
      qed (auto intro: exI [of _ 0])
      ultimately show ?thesis using less.prems by auto
    qed
  qed
  have "\<exists>b. while_loop (\<lambda>a. Some (a smod 2 \<noteq> 1)) (\<lambda>a. Some (a div 2)) a = Some b \<and> True"
  proof (rule while_loop_rule [where I = "\<lambda>a. 0 < a" and m = nat])
    fix s :: int assume "0 < s"
    moreover then have "s smod 2 \<noteq> 1 \<Longrightarrow> 0 < s div 2"
      by (simp add: smod_nonneg) presburger
    ultimately show "\<exists>b. Some (s smod 2 \<noteq> 1) = Some b \<and> (\<not> b \<longrightarrow> True)
        \<and> (b \<longrightarrow> (\<exists>t. Some (s div 2) = Some t \<and> 0 < t \<and> nat t < nat s))"
      by auto
  qed (fact assms)
  then obtain b where "while_loop (\<lambda>a. Some (a smod 2 \<noteq> 1)) (\<lambda>a. Some (a div 2)) a = Some b" by blast
  with * [OF assms] show ?thesis by (auto simp: ispow2_def)
qed

lemma ispow2_loops:
  assumes "a \<le> 0"
  shows "ispow2 a = None"
proof -
  have "while_loop (\<lambda>a. Some (a smod 2 \<noteq> 1)) (\<lambda>a. Some (a div 2)) a = None"
  proof (rule while_loop_diverges [where I = "\<lambda>a. a \<le> 0"])
    fix s :: int assume "s \<le> 0"
    then show "Some (s smod 2 \<noteq> 1) = Some True"
      by (cases "s = 0") (auto simp: signed_modulo_int_def signed_divide_int_def sgn_if split: if_splits)
  qed (use assms in auto)
  then show ?thesis by (simp add: ispow2_def)
qed

section \<open>Changing the numbering and back\<close>

lemma bump_spec:
  assumes "0 \<le> n" "n \<le> ilen x"
  shows "bump d n x = Some (map (\<lambda>v. v + d) (take (nat n) x) @ drop (nat n) x)"
proof -
  have "\<exists>y. for_loop 0 n (\<lambda>i x. do { v \<leftarrow> aget x i; aset x i (v + d) }) x = Some y
    \<and> y = map (\<lambda>v. v + d) (take (nat n) x) @ drop (nat n) x"
  proof (rule for_loop_rule)
    fix i t
    assume i: "0 \<le> i" "i < n" and t: "t = map (\<lambda>v. v + d) (take (nat i) x) @ drop (nat i) x"
    have l: "nat i < length x" using i assms by (simp add: ilen_def)
    have n: "nat (i + 1) = Suc (nat i)" using i by simp
    have "aget t i = Some (x ! nat i)"
      using l i by (simp add: t aget_def nth_append)
    moreover have "aset t i (x ! nat i + d)
        = Some (map (\<lambda>v. v + d) (take (nat (i + 1)) x) @ drop (nat (i + 1)) x)"
      using l i unfolding n
      by (simp add: t aset_def list_update_append take_Suc_conv_app_nth Cons_nth_drop_Suc [symmetric])
    ultimately show "\<exists>t'. do { v \<leftarrow> aget t i; aset t i (v + d) } = Some t'
        \<and> t' = map (\<lambda>v. v + d) (take (nat (i + 1)) x) @ drop (nat (i + 1)) x" by simp
  qed (use assms in auto)
  then show ?thesis by (simp add: bump_def)
qed

lemma bump_back:
  assumes "0 \<le> n" "n \<le> ilen x" "bump d n x = Some y"
  shows "ilen y = ilen x" "bump (- d) n y = Some x"
proof -
  have y: "y = map (\<lambda>v. v + d) (take (nat n) x) @ drop (nat n) x"
    using bump_spec [OF assms(1,2), of d] assms(3) by simp
  have n: "nat n \<le> length x" using assms by (simp add: ilen_def)
  show "ilen y = ilen x" using n by (simp add: y ilen_def)
  then show "bump (- d) n y = Some x"
    using bump_spec [of n y "- d"] assms n by (simp add: y comp_def)
qed

end
