(* ===== verification/Mt_Graph.thy ===== *)
theory Mt_Graph
  imports Mt_Util
begin

text \<open>
  The graph and control structures of \<open>struct.h\<close>, the workspace of \<open>memory.c\<close> and the set-up of
  the input graph in \<open>graph.c\<close>. A graph is stored by rows: row \<open>i\<close> holds the neighbours
  \<open>adjncy[xadj[i]], ..., adjncy[xadj[i + 1] - 1]\<close> and their weights. \<open>vwgt\<close> and \<open>adjwgt\<close> may be
  NULL (\<open>None\<close>). Only one weight per vertex (\<open>ncon == 1\<close>) is modelled, which is what the hop
  assignment asks for; memory that was allocated and not written yet holds arbitrary numbers.
\<close>

section \<open>Structures\<close>

record mgraph =
  nvtxs :: int
  nedges :: int
  xadj :: "int list"
  vwgt :: "int list option"
  adjncy :: "int list"
  adjwgt :: "int list option"
  adjwgtsum :: "int list"
  cmap :: "int list"

text \<open>\<open>CtrlType\<close> with its workspace. \<open>junk\<close> is the content of fresh memory, \<open>rand_at\<close> and
  \<open>rand_pos\<close> are the results of \<open>rand ()\<close> and how many have been taken, \<open>auxlen\<close> is the length of
  \<open>wspace.auxcore\<close>.\<close>

record ctrl =
  CType :: int
  RType :: int
  CoarsenTo :: int
  maxvwgt :: int
  maxcore :: int
  ccore :: int
  auxlen :: int
  junk :: "nat \<Rightarrow> int"
  rand_at :: "nat \<Rightarrow> int"
  rand_pos :: nat

definition fresh :: "ctrl \<Rightarrow> int \<Rightarrow> int list" where
  "fresh c n = map (junk c) [0..<nat n]"

lemma length_fresh [simp]: "length (fresh c n) = nat n"
  by (simp add: fresh_def)

lemma ilen_fresh [simp]: "0 \<le> n \<Longrightarrow> ilen (fresh c n) = n"
  by (simp add: ilen_def)

text \<open>\<open>n += n%2\<close> keeps the pointers aligned; leaving the core is undefined.\<close>

definition pad2 :: "int \<Rightarrow> int" where
  "pad2 n = n + n mod 2"

definition WspaceAvail :: "ctrl \<Rightarrow> int" where
  "WspaceAvail c = maxcore c - ccore c"

definition idxwspacemalloc :: "ctrl \<Rightarrow> int \<Rightarrow> (int list \<times> ctrl) option" where
  "idxwspacemalloc c n =
     (let c = c\<lparr>ccore := ccore c + pad2 n\<rparr>
      in if ccore c \<le> maxcore c then Some (fresh c n, c) else None)"

definition idxwspacefree :: "ctrl \<Rightarrow> int \<Rightarrow> ctrl option" where
  "idxwspacefree c n =
     (let c = c\<lparr>ccore := ccore c - pad2 n\<rparr>
      in if 0 \<le> ccore c then Some c else None)"

definition HTLENGTH :: int where "HTLENGTH = 2047"

text \<open>\<open>AllocateWorkSpace\<close> of the k-way partitioner; \<open>ln\<close> is
  \<open>sizeof(ListNodeType) / sizeof(idxtype)\<close> (3 on 32-bit machines, 6 on 64-bit ones).\<close>

definition AllocateWorkSpace :: "int \<Rightarrow> int \<Rightarrow> mgraph \<Rightarrow> ctrl \<Rightarrow> ctrl" where
  "AllocateWorkSpace ln nparts g c = c\<lparr>
     auxlen := 2 * nedges g,
     maxcore := 3 * (nvtxs g + 1) + 5 * (nparts + 1) + nvtxs g * ln + 20 + HTLENGTH,
     ccore := 0\<rparr>"

section \<open>Reading a graph\<close>

text \<open>An access through a pointer that may be NULL.\<close>

definition nget :: "int list option \<Rightarrow> int \<Rightarrow> int option" where
  "nget p i = do { xs \<leftarrow> p; aget xs i }"

lemma nget_Some [simp]: "nget (Some xs) i = aget xs i"
  by (simp add: nget_def)

lemma nget_None [simp]: "nget None i = None"
  by (simp add: nget_def)

text \<open>The row structure is sound: starts are ordered, neighbours are vertices.\<close>

definition csr :: "mgraph \<Rightarrow> bool" where
  "csr g \<longleftrightarrow> 0 \<le> nvtxs g \<and> ilen (xadj g) = nvtxs g + 1 \<and> at (xadj g) 0 = 0
    \<and> (\<forall>i. 0 \<le> i \<and> i < nvtxs g \<longrightarrow> at (xadj g) i \<le> at (xadj g) (i + 1))
    \<and> at (xadj g) (nvtxs g) = nedges g \<and> nedges g \<le> ilen (adjncy g)
    \<and> (\<forall>j. 0 \<le> j \<and> j < nedges g \<longrightarrow> 0 \<le> at (adjncy g) j \<and> at (adjncy g) j < nvtxs g)"

definition ewgt :: "mgraph \<Rightarrow> int \<Rightarrow> int" where
  "ewgt g j = (case adjwgt g of Some w \<Rightarrow> at w j | None \<Rightarrow> 1)"

definition vwt :: "mgraph \<Rightarrow> int \<Rightarrow> int" where
  "vwt g v = (case vwgt g of Some w \<Rightarrow> at w v | None \<Rightarrow> 1)"

definition row :: "mgraph \<Rightarrow> int \<Rightarrow> int set" where
  "row g i = {at (xadj g) i..<at (xadj g) (i + 1)}"

text \<open>A sum over the edges of a row, weighted by a function of the neighbour.\<close>

definition rowsum :: "mgraph \<Rightarrow> (int \<Rightarrow> int) \<Rightarrow> int \<Rightarrow> int" where
  "rowsum g f i = (\<Sum>j \<in> row g i. f (at (adjncy g) j) * ewgt g j)"

definition wf_graph :: "mgraph \<Rightarrow> bool" where
  "wf_graph g \<longleftrightarrow> csr g
    \<and> (\<forall>w. vwgt g = Some w \<longrightarrow> nvtxs g \<le> ilen w)
    \<and> (\<forall>w. adjwgt g = Some w \<longrightarrow> nedges g \<le> ilen w)
    \<and> ilen (adjwgtsum g) = nvtxs g \<and> ilen (cmap g) = nvtxs g
    \<and> (\<forall>i. 0 \<le> i \<and> i < nvtxs g \<longrightarrow> at (adjwgtsum g) i = rowsum g (\<lambda>_. 1) i)"

definition weighted :: "mgraph \<Rightarrow> bool" where
  "weighted g \<longleftrightarrow> vwgt g \<noteq> None \<and> adjwgt g \<noteq> None"

lemma csrD:
  assumes "csr g"
  shows "0 \<le> nvtxs g" "ilen (xadj g) = nvtxs g + 1" "at (xadj g) 0 = 0"
    "0 \<le> i \<Longrightarrow> i < nvtxs g \<Longrightarrow> at (xadj g) i \<le> at (xadj g) (i + 1)"
    "at (xadj g) (nvtxs g) = nedges g" "nedges g \<le> ilen (adjncy g)"
    "0 \<le> j \<Longrightarrow> j < nedges g \<Longrightarrow> 0 \<le> at (adjncy g) j"
    "0 \<le> j \<Longrightarrow> j < nedges g \<Longrightarrow> at (adjncy g) j < nvtxs g"
  using assms by (auto simp: csr_def)

lemma xadj_mono:
  assumes "csr g" "0 \<le> i" "i \<le> j" "j \<le> nvtxs g"
  shows "at (xadj g) i \<le> at (xadj g) j"
  using assms(3,4)
proof (induction j rule: int_ge_induct)
  case (step j)
  with csrD(4) [OF assms(1), of j] assms(2) show ?case by simp
qed simp

lemma xadj_bounds:
  assumes "csr g" "0 \<le> i" "i \<le> nvtxs g"
  shows "0 \<le> at (xadj g) i" "at (xadj g) i \<le> nedges g"
  using xadj_mono [of g 0 i] xadj_mono [of g i "nvtxs g"] assms by (auto simp: csr_def)

lemma row_bounds:
  assumes "csr g" "0 \<le> i" "i < nvtxs g" "at (xadj g) i \<le> j" "j < at (xadj g) (i + 1)"
  shows "0 \<le> j" "j < nedges g"
  using xadj_bounds [of g i] xadj_bounds [of g "i + 1"] assms by auto

lemma nedges_nonneg: "csr g \<Longrightarrow> 0 \<le> nedges g"
  using xadj_bounds(1) [of g "nvtxs g"] by (auto simp: csr_def)

text \<open>The rows together are all edges.\<close>

lemma row_decomp:
  assumes "csr g" "0 \<le> n" "n \<le> nvtxs g"
  shows "(\<Sum>i = 0..<n. \<Sum>j \<in> row g i. f j) = (\<Sum>j = 0..<at (xadj g) n. f j :: int)"
  using assms(2,3)
proof (induction n rule: int_ge_induct)
  case base
  then show ?case using assms(1) by (simp add: csrD(3))
next
  case (step n)
  then have "{0..<n + 1} = insert n {0..<n}" by auto
  moreover have "{0..<at (xadj g) (n + 1)} = {0..<at (xadj g) n} \<union> row g n"
    using xadj_bounds(1) [OF assms(1), of n] csrD(4) [OF assms(1), of n] step by (auto simp: row_def)
  moreover have "(\<Sum>j \<in> {0..<at (xadj g) n} \<union> row g n. f j)
      = (\<Sum>j = 0..<at (xadj g) n. f j) + (\<Sum>j \<in> row g n. f j)"
    by (rule sum.union_disjoint) (auto simp: row_def)
  ultimately show ?case using step by simp
qed

section \<open>Cuts and weights\<close>

text \<open>Twice the weight of the edges between different parts (each edge stands in two rows), and the
  weight of a part.\<close>

definition cut2 :: "mgraph \<Rightarrow> (int \<Rightarrow> int) \<Rightarrow> int" where
  "cut2 g p = (\<Sum>i = 0..<nvtxs g. rowsum g (\<lambda>k. if p k = p i then 0 else 1) i)"

definition part_weight :: "mgraph \<Rightarrow> (int \<Rightarrow> int) \<Rightarrow> int \<Rightarrow> int" where
  "part_weight g p k = (\<Sum>i = 0..<nvtxs g. if p i = k then vwt g i else 0)"

section \<open>The input graph\<close>

definition row_weight_loop ::
  "int list \<Rightarrow> int list option \<Rightarrow> int \<Rightarrow> int list \<Rightarrow> int list option" where
  "row_weight_loop xa aw nv sums = for_loop 0 nv (\<lambda>i s. do {
     a \<leftarrow> aget xa i; b \<leftarrow> aget xa (i + 1);
     sum \<leftarrow> for_loop a b (\<lambda>j sum. do { w \<leftarrow> nget aw j; Some (sum + w) }) 0;
     aset s i sum }) sums"

definition SetUpGraphKway :: "ctrl \<Rightarrow> int \<Rightarrow> int list \<Rightarrow> int list \<Rightarrow> mgraph option" where
  "SetUpGraphKway c nv xa adj = do {
     ne \<leftarrow> aget xa nv;
     sums \<leftarrow> for_loop 0 nv (\<lambda>i s. do {
       a \<leftarrow> aget xa i; b \<leftarrow> aget xa (i + 1); aset s i (b - a) }) (fresh c nv);
     Some \<lparr>nvtxs = nv, nedges = ne, xadj = xa, vwgt = None, adjncy = adj, adjwgt = None,
       adjwgtsum = sums, cmap = fresh c nv\<rparr> }"

text \<open>\<open>SetUpGraph\<close> for one constraint. Bit 1 of \<open>wgtflag\<close> says that vertex weights are given, bit 0
  that edge weights are; weights that are not given are 1. \<open>kmetis\<close> is \<open>OpType == OP_KMETIS\<close>.\<close>

definition SetUpGraph ::
  "ctrl \<Rightarrow> bool \<Rightarrow> int \<Rightarrow> int list \<Rightarrow> int list \<Rightarrow> int list option \<Rightarrow> int list option \<Rightarrow> int \<Rightarrow> mgraph option" where
  "SetUpGraph c kmetis nv xa adj vw aw wgtflag =
     (if kmetis \<and> wgtflag AND 2 = 0 \<and> wgtflag AND 1 = 0 then SetUpGraphKway c nv xa adj
      else do {
        ne \<leftarrow> aget xa nv;
        vw \<leftarrow> (if wgtflag AND 2 = 0 then map_option Some (idxset nv 1 (fresh c nv)) else Some vw);
        aw \<leftarrow> (if wgtflag AND 1 = 0 then map_option Some (idxset ne 1 (fresh c ne)) else Some aw);
        sums \<leftarrow> row_weight_loop xa aw nv (fresh c nv);
        Some \<lparr>nvtxs = nv, nedges = ne, xadj = xa, vwgt = vw, adjncy = adj, adjwgt = aw,
          adjwgtsum = sums, cmap = fresh c nv\<rparr> })"

text \<open>What the caller has to pass: the rows of a graph, and weights for the bits set.\<close>

definition input_ok :: "int \<Rightarrow> int list \<Rightarrow> int list \<Rightarrow> int list option \<Rightarrow> int list option \<Rightarrow> int \<Rightarrow> bool" where
  "input_ok nv xa adj vw aw wgtflag \<longleftrightarrow>
     csr \<lparr>nvtxs = nv, nedges = at xa nv, xadj = xa, vwgt = None, adjncy = adj, adjwgt = None,
       adjwgtsum = [], cmap = []\<rparr>
     \<and> (wgtflag AND 2 \<noteq> 0 \<longrightarrow> (\<exists>w. vw = Some w \<and> nv \<le> ilen w))
     \<and> (wgtflag AND 1 \<noteq> 0 \<longrightarrow> (\<exists>w. aw = Some w \<and> at xa nv \<le> ilen w))"

lemma sum_upto: "a \<le> b \<Longrightarrow> (\<Sum>j = a..<b + 1. f j) = (\<Sum>j = a..<b. f j) + (f (b :: int) :: int)"
proof -
  assume "a \<le> b"
  then have "{a..<b + 1} = insert b {a..<b}" by auto
  then show ?thesis by simp
qed

lemma row_weight_loop_spec:
  assumes g: "csr g" and aw: "adjwgt g = Some w" "nedges g \<le> ilen w" and s: "ilen s = nvtxs g"
  shows "\<exists>t. row_weight_loop (xadj g) (adjwgt g) (nvtxs g) s = Some t \<and> length t = length s
    \<and> (\<forall>i. 0 \<le> i \<and> i < nvtxs g \<longrightarrow> at t i = rowsum g (\<lambda>_. 1) i)"
  unfolding row_weight_loop_def
proof (rule for_loop_rule [where P = "\<lambda>n t. length t = length s
    \<and> (\<forall>i. 0 \<le> i \<and> i < n \<longrightarrow> at t i = rowsum g (\<lambda>_. 1) i)"])
  fix i t
  assume i: "0 \<le> i" "i < nvtxs g"
    and t: "length t = length s \<and> (\<forall>j. 0 \<le> j \<and> j < i \<longrightarrow> at t j = rowsum g (\<lambda>_. 1) j)"
  let ?a = "at (xadj g) i" and ?b = "at (xadj g) (i + 1)"
  have ab: "aget (xadj g) i = Some ?a" "aget (xadj g) (i + 1) = Some ?b"
    using i csrD(2) [OF g] by (simp_all add: arr)
  have "\<exists>r. for_loop ?a ?b (\<lambda>j sum. do { w \<leftarrow> nget (adjwgt g) j; Some (sum + w) }) 0 = Some r
      \<and> r = (\<Sum>j = ?a..<?b. ewgt g j)"
  proof (rule for_loop_rule [where P = "\<lambda>b r. r = (\<Sum>j = ?a..<b. ewgt g j)"])
    fix j r assume j: "?a \<le> j" "j < ?b" and "r = (\<Sum>j = ?a..<j. ewgt g j)"
    with row_bounds [OF g i j] aw
    show "\<exists>t'. do { w \<leftarrow> nget (adjwgt g) j; Some (r + w) } = Some t' \<and> t' = (\<Sum>j = ?a..<j + 1. ewgt g j)"
      by (simp add: arr sum_upto ewgt_def)
  qed (use csrD(4) [OF g i] in auto)
  moreover have "(\<Sum>j = ?a..<?b. ewgt g j) = rowsum g (\<lambda>_. 1) i" by (simp add: rowsum_def row_def)
  moreover have "ilen t = nvtxs g" using t s by (simp add: ilen_def)
  ultimately show "\<exists>t'. do { a \<leftarrow> aget (xadj g) i; b \<leftarrow> aget (xadj g) (i + 1);
      sum \<leftarrow> for_loop a b (\<lambda>j sum. do { w \<leftarrow> nget (adjwgt g) j; Some (sum + w) }) 0;
      aset t i sum } = Some t' \<and> length t' = length s
      \<and> (\<forall>j. 0 \<le> j \<and> j < i + 1 \<longrightarrow> at t' j = rowsum g (\<lambda>_. 1) j)"
    using i t by (auto simp: ab arr)
qed (use csrD(1) [OF g] in auto)

lemma rowsum_cong:
  "xadj g = xadj h \<Longrightarrow> adjncy g = adjncy h \<Longrightarrow> adjwgt g = adjwgt h \<Longrightarrow> rowsum g f i = rowsum h f i"
  by (simp add: rowsum_def row_def ewgt_def)

lemma SetUpGraphKway_wf:
  assumes "input_ok nv xa adj vw aw 0"
  shows "\<exists>g. SetUpGraphKway c nv xa adj = Some g \<and> wf_graph g \<and> nvtxs g = nv \<and> xadj g = xa
    \<and> adjncy g = adj \<and> vwgt g = None \<and> adjwgt g = None"
proof -
  let ?g = "\<lparr>nvtxs = nv, nedges = at xa nv, xadj = xa, vwgt = None, adjncy = adj, adjwgt = None,
       adjwgtsum = [], cmap = []\<rparr>"
  have g: "csr ?g" using assms by (simp add: input_ok_def)
  have "\<exists>t. for_loop 0 nv (\<lambda>i s. do {
       a \<leftarrow> aget xa i; b \<leftarrow> aget xa (i + 1); aset s i (b - a) }) (fresh c nv) = Some t
      \<and> length t = nat nv \<and> (\<forall>i. 0 \<le> i \<and> i < nv \<longrightarrow> at t i = at xa (i + 1) - at xa i)"
  proof (rule for_loop_rule [where P = "\<lambda>n t. length t = nat nv \<and> (\<forall>i. 0 \<le> i \<and> i < n \<longrightarrow> at t i = at xa (i + 1) - at xa i)"])
    fix i t
    assume "0 \<le> i" "i < nv" "length t = nat nv \<and> (\<forall>j. 0 \<le> j \<and> j < i \<longrightarrow> at t j = at xa (j + 1) - at xa j)"
    moreover then have "ilen t = nv" by (simp add: ilen_def)
    ultimately show "\<exists>t'. do { a \<leftarrow> aget xa i; b \<leftarrow> aget xa (i + 1); aset t i (b - a) } = Some t'
        \<and> length t' = nat nv \<and> (\<forall>j. 0 \<le> j \<and> j < i + 1 \<longrightarrow> at t' j = at xa (j + 1) - at xa j)"
      using csrD(2) [OF g] by (simp add: arr)
  qed (use csrD(1) [OF g] in auto)
  then obtain t where t: "for_loop 0 nv (\<lambda>i s. do {
       a \<leftarrow> aget xa i; b \<leftarrow> aget xa (i + 1); aset s i (b - a) }) (fresh c nv) = Some t"
    "length t = nat nv" "\<And>i. 0 \<le> i \<Longrightarrow> i < nv \<Longrightarrow> at t i = at xa (i + 1) - at xa i" by auto
  have "aget xa nv = Some (at xa nv)" using csrD(1,2) [OF g] by (simp add: arr)
  then have "SetUpGraphKway c nv xa adj = Some (?g\<lparr>adjwgtsum := t, cmap := fresh c nv\<rparr>)"
    using t by (simp add: SetUpGraphKway_def)
  moreover have "wf_graph (?g\<lparr>adjwgtsum := t, cmap := fresh c nv\<rparr>)"
    using g t csrD(4) [OF g] csrD(1) [OF g]
    by (simp add: wf_graph_def csr_def rowsum_def row_def ewgt_def ilen_def)
  ultimately show ?thesis by (intro exI conjI) auto
qed

lemma ones_or_given:
  assumes "0 \<le> m" "\<not> z \<Longrightarrow> \<exists>w. p = Some w \<and> m \<le> ilen w"
  obtains p' where "(if z then map_option Some (idxset m 1 (fresh c m)) else Some p) = Some (Some p')"
    "m \<le> ilen p'" "\<not> z \<Longrightarrow> p = Some p'"
proof (cases z)
  case True
  then show ?thesis using idxset_spec [of m "fresh c m" 1] assms(1) that by (auto simp: ilen_def)
next
  case False
  then show ?thesis using assms(2) that by auto
qed

lemma SetUpGraph_wf:
  assumes "input_ok nv xa adj vw aw wgtflag"
  shows "\<exists>g. SetUpGraph c k nv xa adj vw aw wgtflag = Some g \<and> wf_graph g
    \<and> nvtxs g = nv \<and> xadj g = xa \<and> adjncy g = adj
    \<and> (wgtflag AND 2 \<noteq> 0 \<longrightarrow> vwgt g = vw) \<and> (wgtflag AND 1 \<noteq> 0 \<longrightarrow> adjwgt g = aw)
    \<and> (\<not> (k \<and> wgtflag AND 2 = 0 \<and> wgtflag AND 1 = 0) \<longrightarrow> weighted g)"
proof (cases "k \<and> wgtflag AND 2 = 0 \<and> wgtflag AND 1 = 0")
  case True
  then have "input_ok nv xa adj vw aw 0" using assms by (simp add: input_ok_def)
  from SetUpGraphKway_wf [OF this, of c] True show ?thesis by (auto simp: SetUpGraph_def)
next
  case False
  let ?g = "\<lparr>nvtxs = nv, nedges = at xa nv, xadj = xa, vwgt = None, adjncy = adj, adjwgt = None,
       adjwgtsum = [], cmap = []\<rparr>"
  have g: "csr ?g" using assms by (simp add: input_ok_def)
  have n: "0 \<le> nv" "0 \<le> at xa nv" using csrD(1) [OF g] nedges_nonneg [OF g] by simp_all
  have ne: "aget xa nv = Some (at xa nv)" using csrD(1,2) [OF g] by (simp add: arr)
  obtain vw' where vw: "(if wgtflag AND 2 = 0 then map_option Some (idxset nv 1 (fresh c nv)) else Some vw) = Some (Some vw')"
    "nv \<le> ilen vw'" "wgtflag AND 2 \<noteq> 0 \<Longrightarrow> vw = Some vw'"
    by (rule ones_or_given [OF n(1), of "wgtflag AND 2 = 0" vw c]) (use assms in \<open>auto simp: input_ok_def\<close>)
  obtain aw' where aw: "(if wgtflag AND 1 = 0 then map_option Some (idxset (at xa nv) 1 (fresh c (at xa nv))) else Some aw) = Some (Some aw')"
    "at xa nv \<le> ilen aw'" "wgtflag AND 1 \<noteq> 0 \<Longrightarrow> aw = Some aw'"
    by (rule ones_or_given [OF n(2), of "wgtflag AND 1 = 0" aw c]) (use assms in \<open>auto simp: input_ok_def\<close>)
  let ?h = "?g\<lparr>vwgt := Some vw', adjwgt := Some aw'\<rparr>"
  have h: "csr ?h" using g by (simp add: csr_def)
  obtain t where t: "row_weight_loop xa (Some aw') nv (fresh c nv) = Some t" "length t = nat nv"
    "\<And>i. 0 \<le> i \<Longrightarrow> i < nv \<Longrightarrow> at t i = rowsum ?h (\<lambda>_. 1) i"
    using row_weight_loop_spec [OF h, of aw' "fresh c nv"] aw(2) n by auto
  have "wf_graph (?h\<lparr>adjwgtsum := t, cmap := fresh c nv\<rparr>)"
    using h t vw(2) aw(2) n
    by (simp add: wf_graph_def csr_def ilen_def)
      (auto simp: rowsum_def row_def ewgt_def)
  moreover have "SetUpGraph c k nv xa adj vw aw wgtflag = Some (?h\<lparr>adjwgtsum := t, cmap := fresh c nv\<rparr>)"
    unfolding SetUpGraph_def if_not_P [OF False] ne Option.bind.bind_lunit vw(1) aw(1) t(1) by simp
  ultimately show ?thesis using vw aw False
    by (intro exI [of _ "?h\<lparr>adjwgtsum := t, cmap := fresh c nv\<rparr>"]) (auto simp: weighted_def)
qed

end
