(* ===== verification/Mt_Contract.thy ===== *)
theory Mt_Contract
  imports Mt_Graph "HOL-Library.Multiset"
begin

text \<open>
  \<open>ccgraph.c\<close>: the next coarser graph of a matching. The vertices of a matched pair become one
  vertex, the edges of both rows are collected by the coarse number of their other end, and the
  edge between the two is dropped. The code has three versions of the same loop, which differ in
  how they find the slot of a coarse neighbour: a table with one entry per coarse vertex
  (\<open>CreateCoarseGraphNoMask\<close>), or a hash table of 2048 entries backed by a linear search
  (\<open>CreateCoarseGraph\<close> and \<open>CreateCoarseGraph_NVW\<close>, the latter for graphs without weights). Here
  the loop is one definition over the three operations on a row under construction.
\<close>

section \<open>A row under construction\<close>

text \<open>\<open>cadjncy\<close>, \<open>cadjwgt\<close>, \<open>htable\<close> and \<open>nedges\<close>. The code moves the first two pointers past
  each finished row; here they stay and \<open>b\<close> is the start of the row.\<close>

type_synonym rst = "int list \<times> int list \<times> int list \<times> int"

definition put_new :: "int \<Rightarrow> int \<Rightarrow> int \<Rightarrow> int list \<Rightarrow> int list \<Rightarrow> int \<Rightarrow> (int list \<times> int list) option" where
  "put_new b k w adj wgt ne = do {
     adj \<leftarrow> aset adj (b + ne) k; wgt \<leftarrow> aset wgt (b + ne) w; Some (adj, wgt) }"

definition put_old :: "int \<Rightarrow> int \<Rightarrow> int \<Rightarrow> int list \<Rightarrow> int list option" where
  "put_old b m w wgt = do { x \<leftarrow> aget wgt (b + m); aset wgt (b + m) (x + w) }"

definition entry_nomask :: "int \<Rightarrow> int \<Rightarrow> int \<Rightarrow> rst \<Rightarrow> rst option" where
  "entry_nomask b k w = (\<lambda>(adj, wgt, ht, ne). do {
     m \<leftarrow> aget ht k;
     if m = - 1 then do {
       (adj, wgt) \<leftarrow> put_new b k w adj wgt ne;
       ht \<leftarrow> aset ht k ne;
       Some (adj, wgt, ht, ne + 1) }
     else do {
       wgt \<leftarrow> put_old b m w wgt;
       Some (adj, wgt, ht, ne) } })"

text \<open>The search for the slot of \<open>k\<close>: \<open>for (jj=0; jj<nedges; jj++) if (cadjncy[jj] == k) break;\<close>\<close>

definition find_slot :: "int \<Rightarrow> int \<Rightarrow> int list \<Rightarrow> int \<Rightarrow> int option" where
  "find_slot b k adj ne = search 0 ne (\<lambda>jj. do { x \<leftarrow> aget adj (b + jj); Some (x = k) })"

definition entry_mask :: "int \<Rightarrow> int \<Rightarrow> int \<Rightarrow> rst \<Rightarrow> rst option" where
  "entry_mask b k w = (\<lambda>(adj, wgt, ht, ne). do {
     m \<leftarrow> aget ht (k AND HTLENGTH);
     if m = - 1 then do {
       (adj, wgt) \<leftarrow> put_new b k w adj wgt ne;
       ht \<leftarrow> aset ht (k AND HTLENGTH) ne;
       Some (adj, wgt, ht, ne + 1) }
     else do {
       x \<leftarrow> aget adj (b + m);
       if x = k then do {
         wgt \<leftarrow> put_old b m w wgt;
         Some (adj, wgt, ht, ne) }
       else do {
         jj \<leftarrow> find_slot b k adj ne;
         if jj < ne then do {
           wgt \<leftarrow> put_old b jj w wgt;
           Some (adj, wgt, ht, ne) }
         else do {
           (adj, wgt) \<leftarrow> put_new b k w adj wgt ne;
           Some (adj, wgt, ht, ne + 1) } } } })"

text \<open>Slot \<open>j\<close> is overwritten by the last one; the weight it held is the amount by which
  \<open>cadjwgtsum\<close> shrinks.\<close>

definition drop_slot ::
  "int \<Rightarrow> int \<Rightarrow> int list \<Rightarrow> int list \<Rightarrow> int \<Rightarrow> (int \<times> int list \<times> int list) option" where
  "drop_slot b j adj wgt ne = do {
     d \<leftarrow> aget wgt (b + j);
     x \<leftarrow> aget adj (b + (ne - 1));
     adj \<leftarrow> aset adj (b + j) x;
     y \<leftarrow> aget wgt (b + (ne - 1));
     wgt \<leftarrow> aset wgt (b + j) y;
     Some (d, adj, wgt) }"

definition del_nomask :: "int \<Rightarrow> int \<Rightarrow> rst \<Rightarrow> (int \<times> rst) option" where
  "del_nomask b c = (\<lambda>(adj, wgt, ht, ne). do {
     j \<leftarrow> aget ht c;
     if j \<noteq> - 1 then do {
       (d, adj, wgt) \<leftarrow> drop_slot b j adj wgt ne;
       ht \<leftarrow> aset ht c (- 1);
       Some (d, adj, wgt, ht, ne - 1) }
     else Some (0, adj, wgt, ht, ne) })"

text \<open>When the search fails, \<open>jj\<close> is \<open>nedges\<close>, and the second check reads \<open>cadjncy[nedges]\<close>, which
  this row has not written. \<open>adjwgt\<close> follows \<open>adjncy\<close> in \<open>gdata\<close>.\<close>

definition del_mask :: "int \<Rightarrow> int \<Rightarrow> rst \<Rightarrow> (int \<times> rst) option" where
  "del_mask b c = (\<lambda>(adj, wgt, ht, ne). do {
     jj \<leftarrow> aget ht (c AND HTLENGTH);
     jj \<leftarrow> (if jj \<ge> 0 then do {
              x \<leftarrow> aget adj (b + jj);
              if x \<noteq> c then find_slot b c adj ne else Some jj }
            else Some jj);
     x \<leftarrow> (if jj \<ge> 0 then aget (adj @ wgt) (b + jj) else Some (c - 1));
     if jj \<ge> 0 \<and> x = c then do {
       (d, adj, wgt) \<leftarrow> drop_slot b jj adj wgt ne;
       Some (d, adj, wgt, ht, ne - 1) }
     else Some (0, adj, wgt, ht, ne) })"

definition reset_nomask :: "int \<Rightarrow> int \<Rightarrow> rst \<Rightarrow> int list option" where
  "reset_nomask b c = (\<lambda>(adj, wgt, ht, ne).
     for_loop 0 ne (\<lambda>j ht. do { k \<leftarrow> aget adj (b + j); aset ht k (- 1) }) ht)"

definition reset_mask :: "int \<Rightarrow> int \<Rightarrow> rst \<Rightarrow> int list option" where
  "reset_mask b c = (\<lambda>(adj, wgt, ht, ne). do {
     ht \<leftarrow> for_loop 0 ne (\<lambda>j ht. do { k \<leftarrow> aget adj (b + j); aset ht (k AND HTLENGTH) (- 1) }) ht;
     aset ht (c AND HTLENGTH) (- 1) })"

section \<open>The loop over the vertices\<close>

text \<open>The arrays of the coarse graph and the running counts \<open>cnvtxs\<close> and \<open>cnedges\<close>.\<close>

record cst =
  cnv :: int
  ced :: int
  cxadj :: "int list"
  cvw :: "int list"
  csum :: "int list"
  cadj :: "int list"
  cwgt :: "int list"
  htab :: "int list"

definition row_loop ::
  "(int \<Rightarrow> int \<Rightarrow> int \<Rightarrow> rst \<Rightarrow> rst option) \<Rightarrow> (int \<Rightarrow> int option) \<Rightarrow> int list \<Rightarrow> mgraph \<Rightarrow> int \<Rightarrow> int
     \<Rightarrow> rst \<Rightarrow> rst option" where
  "row_loop ent ew aux g b v s = do {
     istart \<leftarrow> aget (xadj g) v;
     iend \<leftarrow> aget (xadj g) (v + 1);
     for_loop istart iend (\<lambda>j s. do { k \<leftarrow> aget aux j; w \<leftarrow> ew j; ent b k w s }) s }"

definition coarse_visit ::
  "(int \<Rightarrow> int \<Rightarrow> int \<Rightarrow> rst \<Rightarrow> rst option) \<Rightarrow> (int \<Rightarrow> int \<Rightarrow> rst \<Rightarrow> (int \<times> rst) option)
     \<Rightarrow> (int \<Rightarrow> int \<Rightarrow> rst \<Rightarrow> int list option) \<Rightarrow> (int \<Rightarrow> int option) \<Rightarrow> (int \<Rightarrow> int option)
     \<Rightarrow> int list \<Rightarrow> mgraph \<Rightarrow> int list \<Rightarrow> int \<Rightarrow> cst \<Rightarrow> cst option" where
  "coarse_visit ent del reset vw ew aux g mat v s = do {
     u \<leftarrow> aget mat v;
     x \<leftarrow> vw v;
     cvw1 \<leftarrow> aset (cvw s) (cnv s) x;
     sv \<leftarrow> aget (adjwgtsum g) v;
     csum1 \<leftarrow> aset (csum s) (cnv s) sv;
     r \<leftarrow> row_loop ent ew aux g (ced s) v (cadj s, cwgt s, htab s, 0);
     (cvw1, csum1, r) \<leftarrow>
       (if v \<noteq> u then do {
          y \<leftarrow> vw u;
          cvw1 \<leftarrow> aset cvw1 (cnv s) (x + y);
          su \<leftarrow> aget (adjwgtsum g) u;
          r \<leftarrow> row_loop ent ew aux g (ced s) u r;
          (d, r) \<leftarrow> del (ced s) (cnv s) r;
          csum1 \<leftarrow> aset csum1 (cnv s) (sv + su - d);
          Some (cvw1, csum1, r) }
        else Some (cvw1, csum1, r));
     ht \<leftarrow> reset (ced s) (cnv s) r;
     (adj, wgt, _, ne) \<leftarrow> Some r;
     cx \<leftarrow> aset (cxadj s) (cnv s + 1) (ced s + ne);
     Some \<lparr>cnv = cnv s + 1, ced = ced s + ne, cxadj = cx, cvw = cvw1, csum = csum1,
       cadj = adj, cwgt = wgt, htab = ht\<rparr> }"

definition coarse_loop ::
  "(int \<Rightarrow> int \<Rightarrow> int \<Rightarrow> rst \<Rightarrow> rst option) \<Rightarrow> (int \<Rightarrow> int \<Rightarrow> rst \<Rightarrow> (int \<times> rst) option)
     \<Rightarrow> (int \<Rightarrow> int \<Rightarrow> rst \<Rightarrow> int list option) \<Rightarrow> (int \<Rightarrow> int option) \<Rightarrow> (int \<Rightarrow> int option)
     \<Rightarrow> int list \<Rightarrow> mgraph \<Rightarrow> int list \<Rightarrow> int list \<Rightarrow> cst \<Rightarrow> cst option" where
  "coarse_loop ent del reset vw ew aux g mat perm s =
     for_loop 0 (nvtxs g) (\<lambda>i s. do {
       v \<leftarrow> aget perm i;
       cv \<leftarrow> aget (cmap g) v;
       if cv \<noteq> cnv s then Some s
       else coarse_visit ent del reset vw ew aux g mat v s }) s"

text \<open>\<open>auxadj\<close>: the adjacency lists with coarse numbers, built in \<open>wspace.auxcore\<close>.\<close>

definition map_adjacency :: "ctrl \<Rightarrow> mgraph \<Rightarrow> int list option" where
  "map_adjacency c g = do {
     iend \<leftarrow> aget (xadj g) (nvtxs g);
     if iend \<le> auxlen c \<and> iend \<le> ilen (adjncy g)
     then for_loop 0 iend (\<lambda>i aux. do {
            x \<leftarrow> aget aux i; k \<leftarrow> aget (cmap g) x; aset aux i k }) (take (nat iend) (adjncy g))
     else None }"

definition SetUpCoarseGraph :: "ctrl \<Rightarrow> mgraph \<Rightarrow> int \<Rightarrow> mgraph" where
  "SetUpCoarseGraph c g n =
     \<lparr>nvtxs = n, nedges = - 1, xadj = fresh c (n + 1), vwgt = Some (fresh c n),
      adjncy = fresh c (nedges g), adjwgt = Some (fresh c (nedges g)),
      adjwgtsum = fresh c n, cmap = fresh c n\<rparr>"

text \<open>\<open>(0.7 * n)\<close> as a double; the condition of the code compares the old graph with itself.\<close>

definition less_07 :: "int \<Rightarrow> int \<Rightarrow> bool" where
  "less_07 m n \<longleftrightarrow> m * 2 ^ 53 < round53 (6305039478318694 * n)"

definition ReAdjustMemory :: "mgraph \<Rightarrow> mgraph \<Rightarrow> mgraph" where
  "ReAdjustMemory g cg =
     (if nedges cg > 100000 \<and> less_07 (nedges g) (nedges g)
      then cg\<lparr>adjncy := take (nat (nedges cg)) (adjncy cg),
              adjwgt := map_option (take (nat (nedges cg))) (adjwgt cg)\<rparr>
      else cg)"

definition contract ::
  "(int \<Rightarrow> int \<Rightarrow> int \<Rightarrow> rst \<Rightarrow> rst option) \<Rightarrow> (int \<Rightarrow> int \<Rightarrow> rst \<Rightarrow> (int \<times> rst) option)
     \<Rightarrow> (int \<Rightarrow> int \<Rightarrow> rst \<Rightarrow> int list option) \<Rightarrow> (int \<Rightarrow> int option) \<Rightarrow> (int \<Rightarrow> int option)
     \<Rightarrow> int \<Rightarrow> ctrl \<Rightarrow> mgraph \<Rightarrow> int \<Rightarrow> int list \<Rightarrow> int list \<Rightarrow> (mgraph \<times> ctrl) option" where
  "contract ent del reset vw ew htsize c g cnvtxs mat perm = do {
     cg \<leftarrow> Some (SetUpCoarseGraph c g cnvtxs);
     (ht, c1) \<leftarrow> idxwspacemalloc c htsize;
     ht \<leftarrow> idxset htsize (- 1) ht;
     aux \<leftarrow> map_adjacency c g;
     cx \<leftarrow> aset (xadj cg) 0 0;
     w \<leftarrow> adjwgt cg;
     vwt \<leftarrow> vwgt cg;
     s \<leftarrow> coarse_loop ent del reset vw ew aux g mat perm
            \<lparr>cnv = 0, ced = 0, cxadj = cx, cvw = vwt, csum = adjwgtsum cg, cadj = adjncy cg,
             cwgt = w, htab = ht\<rparr>;
     c2 \<leftarrow> idxwspacefree c1 htsize;
     Some (ReAdjustMemory g (cg\<lparr>nedges := ced s, xadj := cxadj s, vwgt := Some (cvw s),
       adjncy := cadj s, adjwgt := Some (cwgt s), adjwgtsum := csum s\<rparr>), c2) }"

definition CreateCoarseGraphNoMask ::
  "ctrl \<Rightarrow> mgraph \<Rightarrow> int \<Rightarrow> int list \<Rightarrow> int list \<Rightarrow> (mgraph \<times> ctrl) option" where
  "CreateCoarseGraphNoMask c g cnvtxs mat perm =
     contract entry_nomask del_nomask reset_nomask (nget (vwgt g)) (nget (adjwgt g)) cnvtxs
       c g cnvtxs mat perm"

definition CreateCoarseGraph ::
  "ctrl \<Rightarrow> mgraph \<Rightarrow> int \<Rightarrow> int list \<Rightarrow> int list \<Rightarrow> (mgraph \<times> ctrl) option" where
  "CreateCoarseGraph c g cnvtxs mat perm = do {
     dense \<leftarrow> (if cnvtxs < 8 * HTLENGTH then Some True
               else do { q \<leftarrow> cdiv (nedges g) (nvtxs g); Some (q > 15) });
     if dense then CreateCoarseGraphNoMask c g cnvtxs mat perm
     else contract entry_mask del_mask reset_mask (nget (vwgt g)) (nget (adjwgt g)) (HTLENGTH + 1)
       c g cnvtxs mat perm }"

definition CreateCoarseGraph_NVW ::
  "ctrl \<Rightarrow> mgraph \<Rightarrow> int \<Rightarrow> int list \<Rightarrow> int list \<Rightarrow> (mgraph \<times> ctrl) option" where
  "CreateCoarseGraph_NVW c g cnvtxs mat perm =
     contract entry_mask del_mask reset_mask (\<lambda>_. Some 1) (\<lambda>_. Some 1) (HTLENGTH + 1)
       c g cnvtxs mat perm"

section \<open>Reference rows\<close>

text \<open>A row as an association list: what collecting and dropping are meant to do.\<close>

fun row_add :: "int \<Rightarrow> int \<Rightarrow> (int \<times> int) list \<Rightarrow> (int \<times> int) list" where
  "row_add k w [] = [(k, w)]"
| "row_add k w ((k', x) # al) = (if k' = k then (k, x + w) # al else (k', x) # row_add k w al)"

definition row_get :: "int \<Rightarrow> (int \<times> int) list \<Rightarrow> int" where
  "row_get k al = (case map_of al k of Some w \<Rightarrow> w | None \<Rightarrow> 0)"

definition row_del :: "int \<Rightarrow> (int \<times> int) list \<Rightarrow> (int \<times> int) list" where
  "row_del k al = (if k \<in> fst ` set al then butlast (map (\<lambda>e. if fst e = k then last al else e) al) else al)"

definition rsum :: "(int \<Rightarrow> int) \<Rightarrow> (int \<times> int) list \<Rightarrow> int" where
  "rsum f al = (\<Sum>(k, w) \<leftarrow> al. f k * w)"

lemma rsum_simps [simp]: "rsum f [] = 0" "rsum f ((k, w) # al) = f k * w + rsum f al"
  "rsum f (al @ bl) = rsum f al + rsum f bl"
  by (simp_all add: rsum_def)

lemma rsum_row_add: "rsum f (row_add k w al) = rsum f al + f k * w"
  by (induction k w al rule: row_add.induct) (auto simp: algebra_simps)

lemma keys_row_add: "fst ` set (row_add k w al) = insert k (fst ` set al)"
  by (induction k w al rule: row_add.induct) auto

lemma distinct_row_add: "distinct (map fst al) \<Longrightarrow> distinct (map fst (row_add k w al))"
proof (induction k w al rule: row_add.induct)
  case (2 k w k' x al)
  then show ?case using keys_row_add [of k w al] by auto
qed simp

lemma row_add_new: "k \<notin> fst ` set al \<Longrightarrow> row_add k w al = al @ [(k, w)]"
  by (induction k w al rule: row_add.induct) auto

lemma row_add_old:
  "distinct (map fst al) \<Longrightarrow> m < length al \<Longrightarrow> fst (al ! m) = k \<Longrightarrow>
     row_add k w al = al[m := (k, snd (al ! m) + w)]"
proof (induction k w al arbitrary: m rule: row_add.induct)
  case (2 k w k' x al)
  show ?case
  proof (cases m)
    case (Suc m')
    with 2 have "k' \<noteq> k" by (metis distinct.simps(2) fst_conv length_Cons list.simps(9) nth_Cons_Suc
        nth_map nth_mem length_map not_less_eq)
    with 2 Suc show ?thesis by simp
  qed (use 2 in auto)
qed simp

lemma row_del_at:
  assumes "distinct (map fst al)" "m < length al" "fst (al ! m) = k"
  shows "row_del k al = take (length al - 1) (al[m := last al])" "row_get k al = snd (al ! m)"
    "k \<in> fst ` set al"
proof -
  show k: "k \<in> fst ` set al" using assms by (metis image_eqI nth_mem)
  have "map (\<lambda>e. if fst e = k then last al else e) al = al[m := last al]"
  proof (rule nth_equalityI)
    fix i assume "i < length (map (\<lambda>e. if fst e = k then last al else e) al)"
    then show "map (\<lambda>e. if fst e = k then last al else e) al ! i = al[m := last al] ! i"
      using assms nth_eq_iff_index_eq [of "map fst al" i m] by (auto simp: nth_list_update)
  qed simp
  then show "row_del k al = take (length al - 1) (al[m := last al])"
    using k by (simp add: row_del_def butlast_conv_take)
  have "map_of al k = Some (snd (al ! m))"
    using assms by (metis map_of_eq_Some_iff nth_mem prod.collapse)
  then show "row_get k al = snd (al ! m)" by (simp add: row_get_def)
qed

lemma row_get_absent [simp]: "k \<notin> fst ` set al \<Longrightarrow> row_get k al = 0"
  by (auto simp: row_get_def split: option.splits dest!: map_of_SomeD intro: rev_image_eqI)

lemma row_del_absent [simp]: "k \<notin> fst ` set al \<Longrightarrow> row_del k al = al"
  by (simp add: row_del_def)

lemma row_del_split:
  assumes "distinct (map fst (xs @ (k, w) # ys))"
  shows "mset (row_del k (xs @ (k, w) # ys)) = mset (xs @ ys)" "row_get k (xs @ (k, w) # ys) = w"
proof -
  let ?al = "xs @ (k, w) # ys"
  have m: "length xs < length ?al" "fst (?al ! length xs) = k" by simp_all
  show "row_get k ?al = w" using row_del_at(2) [OF assms m] by simp
  show "mset (row_del k ?al) = mset (xs @ ys)"
  proof (cases ys rule: rev_cases)
    case Nil
    then show ?thesis using row_del_at(1) [OF assms m] by (simp add: list_update_append)
  next
    case (snoc zs e)
    then show ?thesis using row_del_at(1) [OF assms m] by (simp add: list_update_append)
  qed
qed

lemma rsum_mset: "mset al = mset bl \<Longrightarrow> rsum f al = rsum f bl"
proof -
  have "rsum f zs = sum_mset (image_mset (\<lambda>(k, w). f k * w) (mset zs))" for zs
    by (simp add: rsum_def flip: sum_mset_sum_list mset_map)
  then show "mset al = mset bl \<Longrightarrow> rsum f al = rsum f bl" by simp
qed

lemma row_del_facts:
  assumes "distinct (map fst al)"
  shows "rsum f (row_del k al) = rsum f al - f k * row_get k al"
    "fst ` set (row_del k al) = fst ` set al - {k}" "distinct (map fst (row_del k al))"
proof -
  have "rsum f (row_del k al) = rsum f al - f k * row_get k al
    \<and> fst ` set (row_del k al) = fst ` set al - {k} \<and> distinct (map fst (row_del k al))"
  proof (cases "k \<in> fst ` set al")
    case True
    then obtain e where "e \<in> set al" "fst e = k" by auto
    moreover from split_list [OF this(1)] obtain xs ys where "al = xs @ e # ys" by blast
    ultimately obtain w where al: "al = xs @ (k, w) # ys" by (metis prod.collapse)
    with assms have d: "distinct (map fst (xs @ (k, w) # ys))" by simp
    note r = row_del_split [OF d]
    have "set (row_del k al) = set (xs @ ys)" using mset_eq_setD [OF r(1)] al by simp
    moreover have "mset (map fst (row_del k al)) = mset (map fst (xs @ ys))" using r(1) al by simp
    then have "distinct (map fst (row_del k al)) = distinct (map fst (xs @ ys))"
      by (rule mset_eq_imp_distinct_iff)
    moreover have "fst ` set (xs @ ys) = fst ` set al - {k}" using d al by auto
    moreover have "distinct (map fst (xs @ ys))" using d by simp
    moreover have "rsum f (row_del k al) = rsum f al - f k * row_get k al"
      using rsum_mset [OF r(1), of f] r(2) by (simp add: al)
    ultimately show ?thesis by simp
  qed (use assms in auto)
  then show "rsum f (row_del k al) = rsum f al - f k * row_get k al"
    "fst ` set (row_del k al) = fst ` set al - {k}" "distinct (map fst (row_del k al))" by blast+
qed

section \<open>Rows in the arrays\<close>

text \<open>The row starting at \<open>b\<close> holds the entries of \<open>al\<close>, with coarse numbers below \<open>n\<close>.\<close>

definition row_ok :: "int \<Rightarrow> int \<Rightarrow> (int \<times> int) list \<Rightarrow> int list \<Rightarrow> int list \<Rightarrow> int \<Rightarrow> bool" where
  "row_ok n b al adj wgt ne \<longleftrightarrow> 0 \<le> b \<and> ne = ilen al \<and> b + ne \<le> ilen adj \<and> ilen wgt = ilen adj
    \<and> distinct (map fst al) \<and> (\<forall>k \<in> fst ` set al. 0 \<le> k \<and> k < n)
    \<and> (\<forall>m. 0 \<le> m \<and> m < ne \<longrightarrow> at adj (b + m) = fst (at al m) \<and> at wgt (b + m) = snd (at al m))"

text \<open>An operation on the row leaves the rows before it alone.\<close>

definition keeps :: "int \<Rightarrow> int list \<Rightarrow> int list \<Rightarrow> int list \<Rightarrow> int list \<Rightarrow> bool" where
  "keeps b adj wgt adj' wgt' \<longleftrightarrow> ilen adj' = ilen adj
    \<and> (\<forall>p. 0 \<le> p \<and> p < b \<longrightarrow> at adj' p = at adj p \<and> at wgt' p = at wgt p)"

lemma keeps_refl [simp]: "keeps b adj wgt adj wgt"
  by (simp add: keeps_def)

lemma keeps_trans: "keeps b adj wgt adj' wgt' \<Longrightarrow> keeps b adj' wgt' adj'' wgt'' \<Longrightarrow> keeps b adj wgt adj'' wgt''"
  by (simp add: keeps_def)

lemma row_ok_empty [simp]: "row_ok n b [] adj wgt ne \<longleftrightarrow> 0 \<le> b \<and> ne = 0 \<and> b \<le> ilen adj \<and> ilen wgt = ilen adj"
  by (auto simp: row_ok_def)

lemma row_ok_key:
  assumes "row_ok n b al adj wgt ne" "0 \<le> m" "m < ne"
  shows "at adj (b + m) \<in> fst ` set al" "at adj (b + m) = fst (al ! nat m)"
  using assms by (auto simp: row_ok_def ilen_def at_def)

lemma row_ok_index:
  assumes "row_ok n b al adj wgt ne" "k \<in> fst ` set al"
  shows "\<exists>m. 0 \<le> m \<and> m < ne \<and> at adj (b + m) = k"
proof -
  from assms(2) obtain i where "i < length al" "fst (al ! i) = k" by (auto simp: in_set_conv_nth)
  with assms(1) show ?thesis by (intro exI [of _ "int i"]) (auto simp: row_ok_def ilen_def at_def)
qed

lemma put_new_ok:
  assumes r: "row_ok n b al adj wgt ne" and "b + ne < ilen adj" "k \<notin> fst ` set al" "0 \<le> k" "k < n"
  shows "\<exists>adj' wgt'. put_new b k w adj wgt ne = Some (adj', wgt')
    \<and> row_ok n b (row_add k w al) adj' wgt' (ne + 1) \<and> keeps b adj wgt adj' wgt'"
proof -
  let ?adj = "upd adj (b + ne) k" and ?wgt = "upd wgt (b + ne) w"
  have ne: "0 \<le> b" "0 \<le> ne" "ne = ilen al" "ilen wgt = ilen adj" using r by (auto simp: row_ok_def)
  then have "put_new b k w adj wgt ne = Some (?adj, ?wgt)"
    using assms by (simp add: put_new_def arr)
  moreover have "at ?adj (b + m) = fst (at (al @ [(k, w)]) m) \<and> at ?wgt (b + m) = snd (at (al @ [(k, w)]) m)"
    if "0 \<le> m" "m < ne + 1" for m
    using that r ne assms(2) by (auto simp: row_ok_def at_append) (auto simp: at_def)
  then have "row_ok n b (row_add k w al) ?adj ?wgt (ne + 1)"
    using r assms ne by (auto simp: row_ok_def row_add_new ilen_def)
  moreover have "keeps b adj wgt ?adj ?wgt" using ne assms(2) by (simp add: keeps_def)
  ultimately show ?thesis by blast
qed

lemma put_old_ok:
  assumes r: "row_ok n b al adj wgt ne" and m: "0 \<le> m" "m < ne" "at adj (b + m) = k"
  shows "\<exists>wgt'. put_old b m w wgt = Some wgt'
    \<and> row_ok n b (row_add k w al) adj wgt' ne \<and> keeps b adj wgt adj wgt'"
proof -
  let ?wgt = "upd wgt (b + m) (at wgt (b + m) + w)"
  have ne: "0 \<le> b" "ne = ilen al" "b + ne \<le> ilen adj" "ilen wgt = ilen adj" "distinct (map fst al)"
    using r by (auto simp: row_ok_def)
  have k: "fst (al ! nat m) = k" "at wgt (b + m) = snd (al ! nat m)" "nat m < length al"
    using r m by (auto simp: row_ok_def at_def ilen_def)
  have ra: "row_add k w al = upd al m (k, snd (al ! nat m) + w)"
    using row_add_old [OF ne(5) k(3,1), of w] by (simp add: upd_def)
  have "put_old b m w wgt = Some ?wgt" using ne m by (simp add: put_old_def arr)
  moreover have "at adj (b + i) = fst (at (row_add k w al) i) \<and> at ?wgt (b + i) = snd (at (row_add k w al) i)"
    if "0 \<le> i" "i < ne" for i
    using that m ne k r unfolding ra by (auto simp: row_ok_def)
  then have "row_ok n b (row_add k w al) adj ?wgt ne"
    using r distinct_row_add [OF ne(5), of k w] keys_row_add [of k w al] row_ok_key(1) [OF r m(1,2)] m(3)
    by (auto simp: row_ok_def ra)
  moreover have "keeps b adj wgt adj ?wgt" using ne m by (simp add: keeps_def)
  ultimately show ?thesis by blast
qed

lemma drop_slot_ok:
  assumes r: "row_ok n b al adj wgt ne" and m: "0 \<le> m" "m < ne" "at adj (b + m) = c"
  shows "\<exists>adj' wgt'. drop_slot b m adj wgt ne = Some (row_get c al, adj', wgt')
    \<and> row_ok n b (row_del c al) adj' wgt' (ne - 1) \<and> keeps b adj wgt adj' wgt' \<and> c \<in> fst ` set al"
proof -
  let ?adj = "upd adj (b + m) (at adj (b + (ne - 1)))" and ?wgt = "upd wgt (b + m) (at wgt (b + (ne - 1)))"
  have ne: "0 \<le> b" "ne = ilen al" "b + ne \<le> ilen adj" "ilen wgt = ilen adj" "distinct (map fst al)"
    using r by (auto simp: row_ok_def)
  have k: "fst (al ! nat m) = c" "at wgt (b + m) = snd (al ! nat m)" "nat m < length al"
    using r m by (auto simp: row_ok_def at_def ilen_def)
  note d = row_del_at [OF ne(5) k(3,1)]
  have nat1: "nat (ne - 1) = length al - 1" using ne(2) m by (simp add: ilen_def)
  have "al \<noteq> []" using k(3) by auto
  then have "at al (ne - 1) = last al" using nat1 by (simp add: at_def last_conv_nth)
  moreover have "at adj (b + (ne - 1)) = fst (at al (ne - 1)) \<and> at wgt (b + (ne - 1)) = snd (at al (ne - 1))"
    using r m by (simp add: row_ok_def)
  ultimately have lst: "at adj (b + (ne - 1)) = fst (last al)" "at wgt (b + (ne - 1)) = snd (last al)"
    by simp_all
  have "drop_slot b m adj wgt ne = Some (row_get c al, ?adj, ?wgt)"
    using ne m k(2) d(2) by (simp add: drop_slot_def arr)
  moreover have "row_ok n b (row_del c al) ?adj ?wgt (ne - 1)"
    unfolding row_ok_def
  proof (intro conjI allI impI)
    show "ne - 1 = ilen (row_del c al)" using d(1) k(3) ne(2) by (simp add: ilen_def)
    fix i assume i: "0 \<le> i \<and> i < ne - 1"
    then have "nat i < length al - 1" using nat1 by linarith
    then have "at (row_del c al) i = al[nat m := last al] ! nat i"
      by (simp add: d(1) at_def)
    also have "\<dots> = (if i = m then last al else at al i)"
    proof (cases "i = m")
      case False
      then have "nat i \<noteq> nat m" using i m(1) by (auto simp: nat_eq_iff)
      with False show ?thesis by (simp add: at_def)
    qed (use k(3) in \<open>simp add: at_def\<close>)
    finally have v: "at (row_del c al) i = (if i = m then last al else at al i)" .
    have old: "at adj (b + i) = fst (at al i)" "at wgt (b + i) = snd (at al i)"
      using r i by (auto simp: row_ok_def)
    show "at ?adj (b + i) = fst (at (row_del c al) i)" "at ?wgt (b + i) = snd (at (row_del c al) i)"
      using i m ne lst old by (auto simp: v)
  next
    show "\<forall>k \<in> fst ` set (row_del c al). 0 \<le> k \<and> k < n"
      using r row_del_facts(2) [OF ne(5), of c] by (auto simp: row_ok_def)
  qed (use ne row_del_facts(3) [OF ne(5), of c] in auto)
  moreover have "keeps b adj wgt ?adj ?wgt" using ne m by (simp add: keeps_def)
  ultimately show ?thesis using d(3) by blast
qed

lemma find_slot_ok:
  assumes r: "row_ok n b al adj wgt ne"
  shows "\<exists>jj. find_slot b k adj ne = Some jj \<and> 0 \<le> jj \<and> jj \<le> ne
    \<and> (jj < ne \<longrightarrow> at adj (b + jj) = k) \<and> (jj = ne \<longrightarrow> k \<notin> fst ` set al)"
proof -
  have ne: "0 \<le> ne" "0 \<le> b" "b + ne \<le> ilen adj" using r by (auto simp: row_ok_def)
  obtain jj where jj: "find_slot b k adj ne = Some jj" "0 \<le> jj" "jj \<le> ne"
    "\<And>i. 0 \<le> i \<Longrightarrow> i < jj \<Longrightarrow> at adj (b + i) \<noteq> k" "jj < ne \<Longrightarrow> at adj (b + jj) = k"
    unfolding find_slot_def
    by (rule searchE [of 0 ne "\<lambda>jj. do { x \<leftarrow> aget adj (b + jj); Some (x = k) }" "\<lambda>jj. at adj (b + jj) = k"])
      (use ne in \<open>auto simp: arr\<close>)
  have "k \<notin> fst ` set al" if "jj = ne"
    using row_ok_index [OF r, of k] jj(4) that by auto
  with jj show ?thesis by blast
qed

end
