(* ===== verification/Mt_Contract_Props.thy ===== *)
theory Mt_Contract_Props
  imports Mt_Contract
begin

text \<open>
  What the contraction computes. The locale \<open>edge_index\<close> is the contract between the loop over the
  vertices and the three operations on a row; the table of \<open>CreateCoarseGraphNoMask\<close> and the hash
  table of \<open>CreateCoarseGraph\<close> both satisfy it (the latter only when the dropped edge exists), so
  that both build the rows of the reference.
\<close>

section \<open>Matchings\<close>

text \<open>What the matching routines hand over: \<open>mat\<close> pairs vertices, \<open>cmap\<close> numbers the pairs, and the
  numbers first appear in ascending order along \<open>perm\<close>.\<close>

definition matching_ok :: "mgraph \<Rightarrow> int \<Rightarrow> int list \<Rightarrow> int list \<Rightarrow> bool" where
  "matching_ok g n mat perm \<longleftrightarrow> perm_on (nvtxs g) perm \<and> nvtxs g \<le> ilen mat \<and> 0 \<le> n
    \<and> (\<forall>v. 0 \<le> v \<and> v < nvtxs g \<longrightarrow> 0 \<le> at mat v \<and> at mat v < nvtxs g \<and> at mat (at mat v) = v
         \<and> at (cmap g) (at mat v) = at (cmap g) v \<and> 0 \<le> at (cmap g) v \<and> at (cmap g) v < n)
    \<and> (\<forall>v w. 0 \<le> v \<and> v < nvtxs g \<and> 0 \<le> w \<and> w < nvtxs g \<and> at (cmap g) v = at (cmap g) w
         \<longrightarrow> w = v \<or> w = at mat v)
    \<and> (\<forall>c. 0 \<le> c \<and> c < n \<longrightarrow> (\<exists>v. 0 \<le> v \<and> v < nvtxs g \<and> at (cmap g) v = c))
    \<and> (\<forall>j c. 0 \<le> j \<and> j < nvtxs g \<and> 0 \<le> c \<and> c < at (cmap g) (at perm j)
         \<longrightarrow> (\<exists>i. 0 \<le> i \<and> i < j \<and> at (cmap g) (at perm i) = c))"

lemma matching_okD:
  assumes "matching_ok g n mat perm" "0 \<le> v" "v < nvtxs g"
  shows "0 \<le> at mat v" "at mat v < nvtxs g" "at mat (at mat v) = v"
    "at (cmap g) (at mat v) = at (cmap g) v" "0 \<le> at (cmap g) v" "at (cmap g) v < n"
    "0 \<le> w \<Longrightarrow> w < nvtxs g \<Longrightarrow> at (cmap g) v = at (cmap g) w \<Longrightarrow> w = v \<or> w = at mat v"
  using assms unfolding matching_ok_def by blast+

lemma matching_ok_member:
  assumes "matching_ok g n mat perm" "0 \<le> c" "c < n"
  obtains v where "0 \<le> v" "v < nvtxs g" "at (cmap g) v = c"
proof -
  have "\<forall>c. 0 \<le> c \<and> c < n \<longrightarrow> (\<exists>v. 0 \<le> v \<and> v < nvtxs g \<and> at (cmap g) v = c)"
    using assms(1) unfolding matching_ok_def by (elim conjE)
  with assms(2,3) that show ?thesis by blast
qed

lemma matching_ok_order:
  assumes "matching_ok g n mat perm" "0 \<le> j" "j < nvtxs g" "0 \<le> c" "c < at (cmap g) (at perm j)"
  shows "\<exists>i. 0 \<le> i \<and> i < j \<and> at (cmap g) (at perm i) = c"
proof -
  have "\<forall>j c. 0 \<le> j \<and> j < nvtxs g \<and> 0 \<le> c \<and> c < at (cmap g) (at perm j)
         \<longrightarrow> (\<exists>i. 0 \<le> i \<and> i < j \<and> at (cmap g) (at perm i) = c)"
    using assms(1) unfolding matching_ok_def by (elim conjE)
  with assms(2-) show ?thesis by blast
qed

text \<open>A sum over the members of the pair of \<open>v\<close>.\<close>

lemma class_sum:
  assumes "matching_ok g n mat perm" "0 \<le> v" "v < nvtxs g"
  shows "(\<Sum>i = 0..<nvtxs g. if at (cmap g) i = at (cmap g) v then f i else 0)
    = f v + (if at mat v \<noteq> v then f (at mat v) else (0 :: int))"
proof -
  note m = matching_okD [OF assms]
  have "{i \<in> {0..<nvtxs g}. at (cmap g) i = at (cmap g) v} = {v, at mat v}"
    using m assms(2,3) by (auto dest: m(7))
  then have "(\<Sum>i = 0..<nvtxs g. if at (cmap g) i = at (cmap g) v then f i else 0) = sum f {v, at mat v}"
    by (simp only: sum.inter_filter [symmetric] finite_atLeastLessThan_int)
  then show ?thesis by auto
qed

section \<open>Reference rows of a graph\<close>

definition add_row :: "mgraph \<Rightarrow> int \<Rightarrow> (int \<times> int) list \<Rightarrow> (int \<times> int) list" where
  "add_row g v al =
     fold (\<lambda>j. row_add (at (cmap g) (at (adjncy g) j)) (ewgt g j)) [at (xadj g) v..at (xadj g) (v + 1) - 1] al"

definition class_row :: "mgraph \<Rightarrow> int list \<Rightarrow> int \<Rightarrow> (int \<times> int) list" where
  "class_row g mat v =
     (let u = at mat v; al = add_row g v [] in
      if v \<noteq> u then row_del (at (cmap g) v) (add_row g u al) else al)"

text \<open>The weight between the two members of the pair, counted in both rows.\<close>

definition inner_wgt :: "mgraph \<Rightarrow> int list \<Rightarrow> int \<Rightarrow> int" where
  "inner_wgt g mat v =
     (if v \<noteq> at mat v then row_get (at (cmap g) v) (add_row g (at mat v) (add_row g v [])) else 0)"

lemma fold_upto_invariant:
  fixes a b :: int
  assumes "P a s" "a \<le> b" "\<And>j s. a \<le> j \<Longrightarrow> j < b \<Longrightarrow> P j s \<Longrightarrow> P (j + 1) (f j s)"
  shows "P b (fold f [a..b - 1] s)"
  using assms
proof (induction "nat (b - a)" arbitrary: a s)
  case 0
  then show ?case by simp
next
  case (Suc n)
  then have "a < b" by simp
  then have "[a..b - 1] = a # [a + 1..b - 1]" by (simp add: upto_rec1)
  with Suc \<open>a < b\<close> show ?case by simp
qed

lemma add_row_facts:
  assumes "csr g" "0 \<le> v" "v < nvtxs g" "distinct (map fst al)"
  shows "rsum f (add_row g v al) = rsum f al + rowsum g (\<lambda>k. f (at (cmap g) k)) v"
    "distinct (map fst (add_row g v al))"
    "fst ` set (add_row g v al) = fst ` set al \<union> (\<lambda>j. at (cmap g) (at (adjncy g) j)) ` row g v"
proof -
  let ?a = "at (xadj g) v" and ?b = "at (xadj g) (v + 1)"
  have "rsum f (add_row g v al) = rsum f al + (\<Sum>j = ?a..<?b. f (at (cmap g) (at (adjncy g) j)) * ewgt g j)
    \<and> distinct (map fst (add_row g v al))
    \<and> fst ` set (add_row g v al) = fst ` set al \<union> (\<lambda>j. at (cmap g) (at (adjncy g) j)) ` {?a..<?b}"
    unfolding add_row_def
  proof (rule fold_upto_invariant [where P = "\<lambda>b r. rsum f r = rsum f al + (\<Sum>j = ?a..<b. f (at (cmap g) (at (adjncy g) j)) * ewgt g j)
    \<and> distinct (map fst r) \<and> fst ` set r = fst ` set al \<union> (\<lambda>j. at (cmap g) (at (adjncy g) j)) ` {?a..<b}"])
    fix j r
    assume j: "?a \<le> j" and r: "rsum f r = rsum f al + (\<Sum>j = ?a..<j. f (at (cmap g) (at (adjncy g) j)) * ewgt g j)
      \<and> distinct (map fst r) \<and> fst ` set r = fst ` set al \<union> (\<lambda>j. at (cmap g) (at (adjncy g) j)) ` {?a..<j}"
    let ?r = "row_add (at (cmap g) (at (adjncy g) j)) (ewgt g j) r"
    have "{?a..<j + 1} = insert j {?a..<j}" using j by auto
    then show "rsum f ?r = rsum f al + (\<Sum>j = ?a..<j + 1. f (at (cmap g) (at (adjncy g) j)) * ewgt g j)
      \<and> distinct (map fst ?r) \<and> fst ` set ?r = fst ` set al \<union> (\<lambda>j. at (cmap g) (at (adjncy g) j)) ` {?a..<j + 1}"
      using r j by (simp add: rsum_row_add distinct_row_add keys_row_add sum_upto)
  qed (use csrD(4) [OF assms(1-3)] assms(4) in auto)
  then show "rsum f (add_row g v al) = rsum f al + rowsum g (\<lambda>k. f (at (cmap g) k)) v"
    "distinct (map fst (add_row g v al))"
    "fst ` set (add_row g v al) = fst ` set al \<union> (\<lambda>j. at (cmap g) (at (adjncy g) j)) ` row g v"
    by (auto simp: rowsum_def row_def)
qed

text \<open>Summing over a class row is summing over the rows of its members, without the inner edge.\<close>

lemma class_row_sum:
  assumes "csr g" "matching_ok g n mat perm" "0 \<le> v" "v < nvtxs g"
  shows "rsum f (class_row g mat v) =
    rowsum g (\<lambda>k. f (at (cmap g) k)) v
    + (if at mat v \<noteq> v then rowsum g (\<lambda>k. f (at (cmap g) k)) (at mat v) else 0)
    - f (at (cmap g) v) * inner_wgt g mat v"
proof -
  note m = matching_okD [OF assms(2-4)]
  have d: "distinct (map fst ([] :: (int \<times> int) list))" by simp
  note a = add_row_facts [OF assms(1,3,4) d]
  note b = add_row_facts [OF assms(1) m(1,2) a(2)]
  show ?thesis
    using a(1) [of f] b(1) [of f] row_del_facts(1) [OF b(2), of f "at (cmap g) v"]
    by (auto simp: class_row_def inner_wgt_def Let_def)
qed

section \<open>The coarse arrays\<close>

definition deg :: "mgraph \<Rightarrow> int \<Rightarrow> int" where
  "deg g v = at (xadj g) (v + 1) - at (xadj g) v"

definition pair_sum :: "int list \<Rightarrow> (int \<Rightarrow> int) \<Rightarrow> int \<Rightarrow> int" where
  "pair_sum mat f v = f v + (if at mat v \<noteq> v then f (at mat v) else 0)"

text \<open>Row \<open>c\<close> of the coarse graph is the reference row of \<open>v\<close>.\<close>

definition row_built :: "mgraph \<Rightarrow> int list \<Rightarrow> cst \<Rightarrow> int \<Rightarrow> int \<Rightarrow> bool" where
  "row_built g mat s c v \<longleftrightarrow> 0 \<le> v \<and> v < nvtxs g \<and> at (cmap g) v = c
    \<and> 0 \<le> at (cxadj s) c \<and> at (cxadj s) (c + 1) = at (cxadj s) c + ilen (class_row g mat v)
    \<and> at (cxadj s) (c + 1) \<le> ced s
    \<and> (\<forall>m. 0 \<le> m \<and> m < ilen (class_row g mat v) \<longrightarrow>
         at (cadj s) (at (cxadj s) c + m) = fst (at (class_row g mat v) m)
         \<and> at (cwgt s) (at (cxadj s) c + m) = snd (at (class_row g mat v) m))
    \<and> at (cvw s) c = pair_sum mat (vwt g) v
    \<and> at (csum s) c = pair_sum mat (at (adjwgtsum g)) v - inner_wgt g mat v"

text \<open>The degrees of the vertices whose pair is numbered below \<open>k\<close>.\<close>

definition deg_below :: "mgraph \<Rightarrow> int \<Rightarrow> int" where
  "deg_below g k = (\<Sum>i = 0..<nvtxs g. if at (cmap g) i < k then deg g i else 0)"

definition cst_ok :: "mgraph \<Rightarrow> int \<Rightarrow> int list \<Rightarrow> cst \<Rightarrow> bool" where
  "cst_ok g n mat s \<longleftrightarrow> ilen (cxadj s) = n + 1 \<and> ilen (cvw s) = n \<and> ilen (csum s) = n
    \<and> ilen (cadj s) = nedges g \<and> ilen (cwgt s) = nedges g
    \<and> 0 \<le> cnv s \<and> cnv s \<le> n \<and> at (cxadj s) 0 = 0 \<and> at (cxadj s) (cnv s) = ced s
    \<and> 0 \<le> ced s \<and> ced s \<le> deg_below g (cnv s)
    \<and> (\<forall>c. 0 \<le> c \<and> c < cnv s \<longrightarrow> (\<exists>v. row_built g mat s c v))"

lemma deg_nonneg: "csr g \<Longrightarrow> 0 \<le> v \<Longrightarrow> v < nvtxs g \<Longrightarrow> 0 \<le> deg g v"
  using csrD(4) [of g v] by (simp add: deg_def)

lemma deg_below_step:
  assumes "matching_ok g n mat perm" "0 \<le> v" "v < nvtxs g"
  shows "deg_below g (at (cmap g) v + 1) = deg_below g (at (cmap g) v) + pair_sum mat (deg g) v"
proof -
  have "deg_below g (at (cmap g) v + 1) = (\<Sum>i = 0..<nvtxs g.
      (if at (cmap g) i < at (cmap g) v then deg g i else 0)
      + (if at (cmap g) i = at (cmap g) v then deg g i else 0))"
    unfolding deg_below_def by (rule sum.cong) auto
  then show ?thesis
    using class_sum [OF assms, of "deg g"] by (simp add: sum.distrib deg_below_def pair_sum_def)
qed

lemma deg_below_le: "csr g \<Longrightarrow> deg_below g k \<le> nedges g"
proof -
  assume g: "csr g"
  have "deg_below g k \<le> (\<Sum>i = 0..<nvtxs g. deg g i)"
    unfolding deg_below_def by (rule sum_mono) (use deg_nonneg [OF g] in auto)
  also have "\<dots> = (\<Sum>i = 0..<nvtxs g. \<Sum>j \<in> row g i. 1)"
  proof (rule sum.cong)
    fix i assume "i \<in> {0..<nvtxs g}"
    then show "deg g i = (\<Sum>j \<in> row g i. 1)"
      using csrD(4) [OF g, of i] by (simp add: deg_def row_def)
  qed simp
  also have "\<dots> = (\<Sum>j = 0..<at (xadj g) (nvtxs g). 1)"
    by (rule row_decomp [OF g csrD(1) [OF g] order_refl])
  also have "\<dots> = nedges g" using csrD(5) [OF g] nedges_nonneg [OF g] by simp
  finally show ?thesis .
qed

section \<open>What a coarse graph is\<close>

text \<open>Every coarse vertex has the row, the weight and the weight sum of one of the pairs.\<close>

definition coarse_of :: "mgraph \<Rightarrow> int list \<Rightarrow> int \<Rightarrow> mgraph \<Rightarrow> bool" where
  "coarse_of g mat n cg \<longleftrightarrow> nvtxs cg = n \<and> wf_graph cg \<and> weighted cg \<and> nedges cg \<le> nedges g
    \<and> (\<forall>v. 0 \<le> v \<and> v < nvtxs g \<longrightarrow> (\<exists>x \<in> {v, at mat v}. let c = at (cmap g) v in
         at (xadj cg) (c + 1) = at (xadj cg) c + ilen (class_row g mat x)
         \<and> (\<forall>m. 0 \<le> m \<and> m < ilen (class_row g mat x) \<longrightarrow>
              at (adjncy cg) (at (xadj cg) c + m) = fst (at (class_row g mat x) m)
              \<and> ewgt cg (at (xadj cg) c + m) = snd (at (class_row g mat x) m))
         \<and> vwt cg c = pair_sum mat (vwt g) v))"

lemma rsum_at: "rsum f al = (\<Sum>m = 0..<ilen al. f (fst (at al m)) * snd (at al m))"
proof (induction al rule: rev_induct)
  case (snoc e al)
  have "(\<Sum>m = 0..<ilen al. f (fst (at (al @ [e]) m)) * snd (at (al @ [e]) m))
      = (\<Sum>m = 0..<ilen al. f (fst (at al m)) * snd (at al m))"
    by (rule sum.cong) (simp_all add: at_append)
  moreover have "ilen (al @ [e]) = ilen al + 1" by (simp add: ilen_def)
  moreover have "at (al @ [e]) (ilen al) = e" by (simp add: at_append) (simp add: at_def)
  ultimately show ?case using snoc by (cases e) (simp add: sum_upto)
qed simp

lemma rowsum_entries:
  assumes "at (xadj cg) (c + 1) = at (xadj cg) c + ilen al"
    and "\<And>m. 0 \<le> m \<Longrightarrow> m < ilen al \<Longrightarrow> at (adjncy cg) (at (xadj cg) c + m) = fst (at al m)
           \<and> ewgt cg (at (xadj cg) c + m) = snd (at al m)"
  shows "rowsum cg f c = rsum f al"
proof -
  have "rowsum cg f c = (\<Sum>m = 0..<ilen al. f (at (adjncy cg) (at (xadj cg) c + m)) * ewgt cg (at (xadj cg) c + m))"
    unfolding rowsum_def row_def assms(1)
    by (rule sum.reindex_bij_witness [of _ "\<lambda>m. at (xadj cg) c + m" "\<lambda>j. j - at (xadj cg) c"]) auto
  also have "\<dots> = rsum f al" unfolding rsum_at by (rule sum.cong) (auto simp: assms(2))
  finally show ?thesis .
qed

text \<open>The keys of a class row are coarse numbers of neighbours.\<close>

lemma class_row_keys:
  assumes "csr g" "matching_ok g n mat perm" "0 \<le> v" "v < nvtxs g" "k \<in> fst ` set (class_row g mat v)"
  shows "0 \<le> k" "k < n"
proof -
  note m = matching_okD [OF assms(2-4)]
  have d: "distinct (map fst ([] :: (int \<times> int) list))" by simp
  note a = add_row_facts [OF assms(1,3,4) d]
  note b = add_row_facts [OF assms(1) m(1,2) a(2)]
  have "k \<in> (\<lambda>j. at (cmap g) (at (adjncy g) j)) ` (row g v \<union> row g (at mat v))"
    using assms(5) a(3) b(3) row_del_facts(2) [OF b(2), of "at (cmap g) v"]
    by (auto simp: class_row_def Let_def split: if_splits)
  then obtain j where j: "j \<in> row g v \<union> row g (at mat v)" "k = at (cmap g) (at (adjncy g) j)" by auto
  have "0 \<le> j \<and> j < nedges g"
    using j(1) row_bounds [OF assms(1,3,4)] row_bounds [OF assms(1) m(1,2)] by (auto simp: row_def)
  then have "0 \<le> at (adjncy g) j" "at (adjncy g) j < nvtxs g" using csrD(7,8) [OF assms(1)] by auto
  then show "0 \<le> k" "k < n" using matching_okD(5,6) [OF assms(2)] j(2) by auto
qed

text \<open>The arrays at the end of the loop.\<close>

lemma coarse_arrays:
  assumes g: "wf_graph g" and m: "matching_ok g n mat perm" and s: "cst_ok g n mat s" "cnv s = n"
    and cm: "ilen cm = n"
    and cg: "cg = \<lparr>nvtxs = n, nedges = ced s, xadj = cxadj s, vwgt = Some (cvw s), adjncy = cadj s,
      adjwgt = Some (cwgt s), adjwgtsum = csum s, cmap = cm\<rparr>"
  shows "coarse_of g mat n cg"
proof -
  have gc: "csr g" using g by (simp add: wf_graph_def)
  have s': "ilen (cxadj s) = n + 1" "ilen (cvw s) = n" "ilen (csum s) = n"
    "ilen (cadj s) = nedges g" "ilen (cwgt s) = nedges g" "0 \<le> n" "at (cxadj s) 0 = 0"
    "at (cxadj s) n = ced s" "0 \<le> ced s" "ced s \<le> nedges g"
    using s deg_below_le [OF gc, of n] by (auto simp: cst_ok_def)
  have built: "\<exists>v. row_built g mat s c v" if "0 \<le> c" "c < n" for c
    using s that by (auto simp: cst_ok_def)
  have row: "at (adjncy cg) (at (xadj cg) c + i) = fst (at (class_row g mat v) i)
      \<and> ewgt cg (at (xadj cg) c + i) = snd (at (class_row g mat v) i)"
    if "row_built g mat s c v" "0 \<le> i" "i < ilen (class_row g mat v)" for c v i
    using that by (auto simp: row_built_def cg ewgt_def)
  have steps: "at (xadj cg) c \<le> at (xadj cg) (c + 1)" if "0 \<le> c" "c < n" for c
    using built [OF that] by (auto simp: row_built_def cg)
  have nb: "0 \<le> at (adjncy cg) j \<and> at (adjncy cg) j < n" if "0 \<le> j" "j < ced s" for j
  proof -
    have "\<exists>c. 0 \<le> c \<and> c < k \<and> at (xadj cg) c \<le> j \<and> j < at (xadj cg) (c + 1)"
      if "0 \<le> k" "k \<le> n" "j < at (xadj cg) k" for k
      using that
    proof (induction k rule: int_ge_induct)
      case base
      then show ?case using s'(7) \<open>0 \<le> j\<close> by (simp add: cg)
    next
      case (step k)
      show ?case
      proof (cases "j < at (xadj cg) k")
        case True
        with step obtain c where "0 \<le> c \<and> c < k \<and> at (xadj cg) c \<le> j \<and> j < at (xadj cg) (c + 1)" by auto
        then show ?thesis by (intro exI [of _ c]) auto
      next
        case False
        with step show ?thesis by (intro exI [of _ k]) auto
      qed
    qed
    from this [of n] obtain c where c: "0 \<le> c" "c < n" "at (xadj cg) c \<le> j" "j < at (xadj cg) (c + 1)"
      using s' \<open>j < ced s\<close> by (auto simp: cg)
    from built [OF c(1,2)] obtain v where v: "row_built g mat s c v" ..
    let ?i = "j - at (xadj cg) c"
    have i: "0 \<le> ?i" "?i < ilen (class_row g mat v)" using c v by (auto simp: row_built_def cg)
    have "at (adjncy cg) j = fst (at (class_row g mat v) ?i)" using row [OF v i] by simp
    moreover have "fst (at (class_row g mat v) ?i) \<in> fst ` set (class_row g mat v)"
      using at_in_set [OF i] by (rule imageI)
    ultimately show ?thesis
      using class_row_keys [OF gc m, of v] v by (auto simp: row_built_def)
  qed
  have csr: "csr cg"
    using s' steps nb by (auto simp: csr_def cg)
  have sums: "at (adjwgtsum cg) c = rowsum cg (\<lambda>_. 1) c" if "0 \<le> c" "c < n" for c
  proof -
    from built [OF that] obtain v where v: "row_built g mat s c v" ..
    have vr: "0 \<le> v" "v < nvtxs g" using v by (auto simp: row_built_def)
    note mv = matching_okD [OF m vr]
    have "rowsum cg (\<lambda>_. 1) c = rsum (\<lambda>_. 1) (class_row g mat v)"
      by (rule rowsum_entries) (use v row [OF v] in \<open>auto simp: row_built_def cg\<close>)
    also have "\<dots> = pair_sum mat (at (adjwgtsum g)) v - inner_wgt g mat v"
      using class_row_sum [OF gc m vr, of "\<lambda>_. 1"] g vr mv(1,2)
      by (simp add: pair_sum_def wf_graph_def)
    finally show ?thesis using v by (simp add: row_built_def cg)
  qed
  have wf: "wf_graph cg"
    using csr s' cm sums by (auto simp: wf_graph_def cg)
  have "\<exists>x \<in> {v, at mat v}. let c = at (cmap g) v in
         at (xadj cg) (c + 1) = at (xadj cg) c + ilen (class_row g mat x)
         \<and> (\<forall>m. 0 \<le> m \<and> m < ilen (class_row g mat x) \<longrightarrow>
              at (adjncy cg) (at (xadj cg) c + m) = fst (at (class_row g mat x) m)
              \<and> ewgt cg (at (xadj cg) c + m) = snd (at (class_row g mat x) m))
         \<and> vwt cg c = pair_sum mat (vwt g) v" if v: "0 \<le> v" "v < nvtxs g" for v
  proof -
    note mv = matching_okD [OF m v]
    from built [OF mv(5,6)] obtain x where x: "row_built g mat s (at (cmap g) v) x" ..
    then have "x = v \<or> x = at mat v" using mv(7) [of x] by (auto simp: row_built_def)
    moreover have "pair_sum mat (vwt g) (at mat v) = pair_sum mat (vwt g) v"
      using mv(3) by (auto simp: pair_sum_def)
    ultimately show ?thesis
      using x row [OF x] by (intro bexI [of _ x]) (auto simp: row_built_def Let_def cg vwt_def)
  qed
  then show ?thesis using wf s'(10) by (simp add: coarse_of_def weighted_def cg)
qed

lemma ReAdjustMemory_id:
  assumes "0 \<le> nedges g" "nedges g < 2 ^ 31"
  shows "ReAdjustMemory g cg = cg"
proof -
  have "\<not> less_07 (nedges g) (nedges g)"
  proof (cases "nedges g = 0")
    case True
    then show ?thesis by (simp add: less_07_def)
  next
    case False
    let ?p = "6305039478318694 * nedges g"
    have "0 < ?p" "?p < 2 ^ 128" using assms False by simp_all
    from round53_upper [OF this]
    have "round53 ?p * 2 ^ 53 \<le> ?p * (2 ^ 53 + 1)" .
    also have "\<dots> \<le> nedges g * 2 ^ 53 * 2 ^ 53" using assms by simp
    finally show ?thesis by (simp add: less_07_def)
  qed
  then show ?thesis by (simp add: ReAdjustMemory_def)
qed

lemma map_adjacency_ok:
  assumes g: "csr g" "ilen (cmap g) = nvtxs g" and room: "nedges g \<le> auxlen c"
  shows "\<exists>aux. map_adjacency c g = Some aux
    \<and> (\<forall>j. 0 \<le> j \<longrightarrow> j < nedges g \<longrightarrow> aget aux j = Some (at (cmap g) (at (adjncy g) j)))"
proof -
  let ?e = "nedges g"
  note d = csrD [OF g(1)] nedges_nonneg [OF g(1)]
  have e: "aget (xadj g) (nvtxs g) = Some ?e" using d by (simp add: arr)
  have l: "length (take (nat ?e) (adjncy g)) = nat ?e" using d by (simp add: ilen_def)
  have "\<exists>aux. for_loop 0 ?e (\<lambda>i aux. do { x \<leftarrow> aget aux i; k \<leftarrow> aget (cmap g) x; aset aux i k })
      (take (nat ?e) (adjncy g)) = Some aux
    \<and> (ilen aux = ?e \<and> (\<forall>j. 0 \<le> j \<and> j < nedges g \<longrightarrow> at aux j = at (cmap g) (at (adjncy g) j)))"
  proof -
    have "\<exists>aux. for_loop 0 ?e (\<lambda>i aux. do { x \<leftarrow> aget aux i; k \<leftarrow> aget (cmap g) x; aset aux i k })
        (take (nat ?e) (adjncy g)) = Some aux
      \<and> (ilen aux = ?e \<and> (\<forall>j. 0 \<le> j \<and> j < ?e \<longrightarrow>
          at aux j = (if j < ?e then at (cmap g) (at (adjncy g) j) else at (adjncy g) j)))"
    proof (rule for_loop_rule [where P = "\<lambda>i aux. ilen aux = ?e \<and> (\<forall>j. 0 \<le> j \<and> j < ?e \<longrightarrow>
          at aux j = (if j < i then at (cmap g) (at (adjncy g) j) else at (adjncy g) j))"])
      fix i t assume i: "0 \<le> i" "i < ?e" and t: "ilen t = ?e \<and> (\<forall>j. 0 \<le> j \<and> j < ?e \<longrightarrow>
          at t j = (if j < i then at (cmap g) (at (adjncy g) j) else at (adjncy g) j))"
      have x: "at t i = at (adjncy g) i" using t i by simp
      show "\<exists>t'. do { x \<leftarrow> aget t i; k \<leftarrow> aget (cmap g) x; aset t i k } = Some t' \<and> ilen t' = ?e
          \<and> (\<forall>j. 0 \<le> j \<and> j < ?e \<longrightarrow> at t' j = (if j < i + 1 then at (cmap g) (at (adjncy g) j) else at (adjncy g) j))"
        using t i x d(7,8) [OF i] g(2) by (auto simp: arr)
    next
      have "at (take (nat ?e) (adjncy g)) j = at (adjncy g) j" if "0 \<le> j" "j < ?e" for j
        using that by (simp add: at_def)
      then show "ilen (take (nat ?e) (adjncy g)) = ?e \<and> (\<forall>j. 0 \<le> j \<and> j < ?e \<longrightarrow>
          at (take (nat ?e) (adjncy g)) j = (if j < 0 then at (cmap g) (at (adjncy g) j) else at (adjncy g) j))"
        using l d by (simp add: ilen_def)
    qed (use d in auto)
    then show ?thesis by auto
  qed
  then show ?thesis using e room d by (auto simp: map_adjacency_def arr)
qed

section \<open>The contract\<close>

locale edge_index =
  fixes ent :: "int \<Rightarrow> int \<Rightarrow> int \<Rightarrow> rst \<Rightarrow> rst option"
    and del :: "int \<Rightarrow> int \<Rightarrow> rst \<Rightarrow> (int \<times> rst) option"
    and reset :: "int \<Rightarrow> int \<Rightarrow> rst \<Rightarrow> int list option"
    and idx :: "int \<Rightarrow> (int \<times> int) list \<Rightarrow> int list \<Rightarrow> bool"
    and used :: "int \<Rightarrow> int \<Rightarrow> (int \<times> int) list \<Rightarrow> int list \<Rightarrow> bool"
    and htsize :: "int \<Rightarrow> int"
    and hole :: bool
  assumes init: "\<And>n ht. 0 \<le> n \<Longrightarrow> 0 \<le> htsize n \<and> (ilen ht = htsize n
      \<longrightarrow> (\<forall>i. 0 \<le> i \<and> i < htsize n \<longrightarrow> at ht i = - 1) \<longrightarrow> idx n [] ht)"
    and ent: "\<And>n b al adj wgt ht ne k w. row_ok n b al adj wgt ne \<Longrightarrow> idx n al ht \<Longrightarrow> 0 \<le> k \<Longrightarrow> k < n \<Longrightarrow>
      b + ne < ilen adj \<Longrightarrow>
      \<exists>adj' wgt' ht' ne'. ent b k w (adj, wgt, ht, ne) = Some (adj', wgt', ht', ne')
        \<and> row_ok n b (row_add k w al) adj' wgt' ne' \<and> idx n (row_add k w al) ht' \<and> keeps b adj wgt adj' wgt'"
    and del: "\<And>n b al adj wgt ht ne c. row_ok n b al adj wgt ne \<Longrightarrow> idx n al ht \<Longrightarrow> 0 \<le> c \<Longrightarrow> c < n \<Longrightarrow>
      hole \<or> c \<in> fst ` set al \<Longrightarrow>
      \<exists>adj' wgt' ht' ne'. del b c (adj, wgt, ht, ne) = Some (row_get c al, adj', wgt', ht', ne')
        \<and> row_ok n b (row_del c al) adj' wgt' ne' \<and> used n c (row_del c al) ht' \<and> keeps b adj wgt adj' wgt'"
    and clean: "\<And>n al ht c. idx n al ht \<Longrightarrow> used n c al ht"
    and reset: "\<And>n b al adj wgt ht ne c. row_ok n b al adj wgt ne \<Longrightarrow> used n c al ht \<Longrightarrow> 0 \<le> c \<Longrightarrow> c < n \<Longrightarrow>
      \<exists>ht'. reset b c (adj, wgt, ht, ne) = Some ht' \<and> idx n [] ht'"
begin

lemma row_loop_ok:
  assumes g: "csr g" and v: "0 \<le> v" "v < nvtxs g" and n: "\<And>x. 0 \<le> x \<Longrightarrow> x < nvtxs g \<Longrightarrow> 0 \<le> at (cmap g) x \<and> at (cmap g) x < n"
    and aux: "\<And>j. 0 \<le> j \<Longrightarrow> j < nedges g \<Longrightarrow> aget aux j = Some (at (cmap g) (at (adjncy g) j))"
    and ew: "\<And>j. 0 \<le> j \<Longrightarrow> j < nedges g \<Longrightarrow> ew j = Some (ewgt g j)"
    and r: "row_ok n b al adj wgt ne" "idx n al ht"
    and room: "b + ne + (at (xadj g) (v + 1) - at (xadj g) v) \<le> ilen adj"
  shows "\<exists>adj' wgt' ht' ne'. row_loop ent ew aux g b v (adj, wgt, ht, ne) = Some (adj', wgt', ht', ne')
    \<and> row_ok n b (add_row g v al) adj' wgt' ne' \<and> idx n (add_row g v al) ht' \<and> keeps b adj wgt adj' wgt'
    \<and> ne' \<le> ne + (at (xadj g) (v + 1) - at (xadj g) v)"
proof -
  let ?a = "at (xadj g) v" and ?e = "at (xadj g) (v + 1)"
  define add where "add j = row_add (at (cmap g) (at (adjncy g) j)) (ewgt g j)" for j
  have ae: "aget (xadj g) v = Some ?a" "aget (xadj g) (v + 1) = Some ?e" "?a \<le> ?e"
    using v csrD(2) [OF g] csrD(4) [OF g v] by (simp_all add: arr)
  define P where "P j s = (case s of (adj', wgt', ht', ne') \<Rightarrow>
      row_ok n b (fold add [?a..j - 1] al) adj' wgt' ne' \<and> idx n (fold add [?a..j - 1] al) ht'
      \<and> keeps b adj wgt adj' wgt' \<and> ne' \<le> ne + (j - ?a))" for j s
  have "\<exists>s. for_loop ?a ?e (\<lambda>j s. do { k \<leftarrow> aget aux j; w \<leftarrow> ew j; ent b k w s }) (adj, wgt, ht, ne) = Some s \<and> P ?e s"
  proof (rule for_loop_rule [where P = P])
    fix j s assume j: "?a \<le> j" "j < ?e" and "P j s"
    then obtain adj1 wgt1 ht1 ne1 where s: "s = (adj1, wgt1, ht1, ne1)"
      and r1: "row_ok n b (fold add [?a..j - 1] al) adj1 wgt1 ne1" "idx n (fold add [?a..j - 1] al) ht1"
        "keeps b adj wgt adj1 wgt1" "ne1 \<le> ne + (j - ?a)"
      by (cases s) (auto simp: P_def)
    note jb = row_bounds [OF g v j]
    let ?k = "at (cmap g) (at (adjncy g) j)"
    have k: "0 \<le> ?k" "?k < n" using n csrD(7,8) [OF g jb] by auto
    have "b + ne1 < ilen adj1" using r1(3,4) room j by (simp add: keeps_def)
    from ent [OF r1(1,2) k this, of "ewgt g j"]
    obtain adj2 wgt2 ht2 ne2 where e: "ent b ?k (ewgt g j) s = Some (adj2, wgt2, ht2, ne2)"
      and r2: "row_ok n b (row_add ?k (ewgt g j) (fold add [?a..j - 1] al)) adj2 wgt2 ne2"
        "idx n (row_add ?k (ewgt g j) (fold add [?a..j - 1] al)) ht2" "keeps b adj1 wgt1 adj2 wgt2"
      using s by auto
    have "[?a..j] = [?a..j - 1] @ [j]" using j by (simp add: upto_rec2)
    then have f: "fold add [?a..j] al = row_add ?k (ewgt g j) (fold add [?a..j - 1] al)" by (simp add: add_def)
    have "ne1 = ilen (fold add [?a..j - 1] al)" "ne2 = ilen (fold add [?a..j] al)"
      using r1(1) r2(1) by (auto simp: row_ok_def f)
    moreover have "ilen (row_add ?k w xs) \<le> ilen xs + 1" for w xs
      by (induction ?k w xs rule: row_add.induct) (auto simp: ilen_def)
    ultimately have "ne2 \<le> ne1 + 1" by (simp add: f)
    then have "P (j + 1) (adj2, wgt2, ht2, ne2)"
      using r1 r2 keeps_trans [OF r1(3) r2(3)] by (simp add: P_def f)
    with e aux [OF jb] ew [OF jb]
    show "\<exists>t. do { k \<leftarrow> aget aux j; w \<leftarrow> ew j; ent b k w s } = Some t \<and> P (j + 1) t" by simp
  qed (use ae r in \<open>auto simp: P_def\<close>)
  then obtain s where s: "for_loop ?a ?e (\<lambda>j s. do { k \<leftarrow> aget aux j; w \<leftarrow> ew j; ent b k w s }) (adj, wgt, ht, ne) = Some s"
    "P ?e s" by blast
  have "add_row g v al = fold add [?a..?e - 1] al"
    unfolding add_row_def add_def by (rule refl)
  with s ae show ?thesis
    by (cases s) (auto simp: row_loop_def P_def)
qed

lemma coarse_visit_ok:
  assumes g: "csr g" and m: "matching_ok g n mat perm"
    and aux: "\<And>j. 0 \<le> j \<Longrightarrow> j < nedges g \<Longrightarrow> aget aux j = Some (at (cmap g) (at (adjncy g) j))"
    and ew: "\<And>j. 0 \<le> j \<Longrightarrow> j < nedges g \<Longrightarrow> ew j = Some (ewgt g j)"
    and vw: "\<And>v. 0 \<le> v \<Longrightarrow> v < nvtxs g \<Longrightarrow> vw v = Some (vwt g v)"
    and sums: "ilen (adjwgtsum g) = nvtxs g"
    and s: "cst_ok g n mat s" "idx n [] (htab s)"
    and v: "0 \<le> v" "v < nvtxs g" "at (cmap g) v = cnv s"
    and adjacent: "hole \<or> at mat v = v \<or> cnv s \<in> fst ` set (add_row g (at mat v) (add_row g v []))"
  shows "\<exists>t. coarse_visit ent del reset vw ew aux g mat v s = Some t
    \<and> cst_ok g n mat t \<and> idx n [] (htab t) \<and> cnv t = cnv s + 1"
proof -
  note mv = matching_okD [OF m v(1,2)]
  let ?u = "at mat v" and ?b = "ced s" and ?c = "cnv s"
  have c: "0 \<le> ?c" "?c < n" using mv(5,6) v(3) by auto
  have cm: "0 \<le> at (cmap g) x \<and> at (cmap g) x < n" if "0 \<le> x" "x < nvtxs g" for x
    using matching_okD(5,6) [OF m that] by auto
  have len: "ilen (cxadj s) = n + 1" "ilen (cvw s) = n" "ilen (csum s) = n"
    "ilen (cadj s) = nedges g" "ilen (cwgt s) = nedges g" "0 \<le> ?b"
    using s(1) by (auto simp: cst_ok_def)
  have "?b \<le> deg_below g ?c" using s(1) by (simp add: cst_ok_def)
  moreover have "deg_below g (?c + 1) = deg_below g ?c + pair_sum mat (deg g) v"
    using deg_below_step [OF m v(1,2)] v(3) by simp
  ultimately have room: "?b + pair_sum mat (deg g) v \<le> deg_below g (?c + 1)" by simp
  also have le: "deg_below g (?c + 1) \<le> nedges g" by (rule deg_below_le [OF g])
  finally have room2: "?b + pair_sum mat (deg g) v \<le> nedges g" .
  have dv: "0 \<le> deg g v" "0 \<le> deg g ?u" using deg_nonneg [OF g] v mv(1,2) by auto
  have "?b \<le> ilen (cadj s)" using room2 dv len by (auto simp: pair_sum_def split: if_splits)
  then have r0: "row_ok n ?b [] (cadj s) (cwgt s) 0" using len by simp
  have b1: "?b + 0 + (at (xadj g) (v + 1) - at (xadj g) v) \<le> ilen (cadj s)"
    using room2 dv len by (auto simp: pair_sum_def deg_def split: if_splits)
  from row_loop_ok [OF g v(1,2) cm aux ew r0 s(2) b1]
  obtain adj1 wgt1 ht1 ne1 where l1: "row_loop ent ew aux g ?b v (cadj s, cwgt s, htab s, 0) = Some (adj1, wgt1, ht1, ne1)"
    and r1: "row_ok n ?b (add_row g v []) adj1 wgt1 ne1" "idx n (add_row g v []) ht1"
      "keeps ?b (cadj s) (cwgt s) adj1 wgt1" "ne1 \<le> deg g v"
    by (auto simp: deg_def)
  have mid: "\<exists>adj2 wgt2 ht2 ne2.
      (if v \<noteq> ?u then do {
          y \<leftarrow> vw ?u;
          cvw1 \<leftarrow> aset (upd (cvw s) ?c (vwt g v)) ?c (vwt g v + y);
          su \<leftarrow> aget (adjwgtsum g) ?u;
          r \<leftarrow> row_loop ent ew aux g ?b ?u (adj1, wgt1, ht1, ne1);
          (d, r) \<leftarrow> del ?b ?c r;
          csum1 \<leftarrow> aset (upd (csum s) ?c (at (adjwgtsum g) v)) ?c (at (adjwgtsum g) v + su - d);
          Some (cvw1, csum1, r) }
        else Some (upd (cvw s) ?c (vwt g v), upd (csum s) ?c (at (adjwgtsum g) v), (adj1, wgt1, ht1, ne1)))
      = Some (upd (cvw s) ?c (pair_sum mat (vwt g) v),
          upd (csum s) ?c (pair_sum mat (at (adjwgtsum g)) v - inner_wgt g mat v), (adj2, wgt2, ht2, ne2))
      \<and> row_ok n ?b (class_row g mat v) adj2 wgt2 ne2 \<and> used n ?c (class_row g mat v) ht2
      \<and> keeps ?b (cadj s) (cwgt s) adj2 wgt2 \<and> ne2 \<le> pair_sum mat (deg g) v"
  proof (cases "v = ?u")
    case True
    then show ?thesis using r1 clean [OF r1(2)]
      by (simp add: class_row_def Let_def pair_sum_def inner_wgt_def)
  next
    case False
    let ?al = "add_row g ?u (add_row g v [])"
    have b2: "?b + ne1 + (at (xadj g) (?u + 1) - at (xadj g) ?u) \<le> ilen adj1"
      using room2 r1(3,4) len False by (simp add: pair_sum_def deg_def keeps_def)
    from row_loop_ok [OF g mv(1,2) cm aux ew r1(1,2) b2]
    obtain adj2 wgt2 ht2 ne2 where l2: "row_loop ent ew aux g ?b ?u (adj1, wgt1, ht1, ne1) = Some (adj2, wgt2, ht2, ne2)"
      and r2: "row_ok n ?b ?al adj2 wgt2 ne2" "idx n ?al ht2" "keeps ?b adj1 wgt1 adj2 wgt2" "ne2 \<le> ne1 + deg g ?u"
      by (auto simp: deg_def)
    have "hole \<or> ?c \<in> fst ` set ?al" using adjacent False by auto
    from del [OF r2(1,2) c this]
    obtain adj3 wgt3 ht3 ne3 where d: "del ?b ?c (adj2, wgt2, ht2, ne2) = Some (row_get ?c ?al, adj3, wgt3, ht3, ne3)"
      and r3: "row_ok n ?b (row_del ?c ?al) adj3 wgt3 ne3" "used n ?c (row_del ?c ?al) ht3" "keeps ?b adj2 wgt2 adj3 wgt3"
      by blast
    have "length (row_del ?c ?al) \<le> length ?al" by (simp add: row_del_def)
    then have "ne3 \<le> ne2" using r2(1) r3(1) by (simp add: row_ok_def ilen_def)
    moreover have "class_row g mat v = row_del ?c ?al" using False v(3) by (simp add: class_row_def Let_def)
    moreover have "inner_wgt g mat v = row_get ?c ?al" using False v(3) by (simp add: inner_wgt_def)
    moreover have "upd (upd xs i x) i y = upd xs i y" for xs :: "int list" and i x y by (simp add: upd_def)
    ultimately show ?thesis
      using False l2 d r3 r2(4) r1(4) vw [OF mv(1,2)] c len mv(1,2) sums
        keeps_trans [OF keeps_trans [OF r1(3) r2(3)] r3(3)]
      by (simp add: arr pair_sum_def)
  qed
  then obtain adj2 wgt2 ht2 ne2 where l2: "(if v \<noteq> ?u then do {
          y \<leftarrow> vw ?u;
          cvw1 \<leftarrow> aset (upd (cvw s) ?c (vwt g v)) ?c (vwt g v + y);
          su \<leftarrow> aget (adjwgtsum g) ?u;
          r \<leftarrow> row_loop ent ew aux g ?b ?u (adj1, wgt1, ht1, ne1);
          (d, r) \<leftarrow> del ?b ?c r;
          csum1 \<leftarrow> aset (upd (csum s) ?c (at (adjwgtsum g) v)) ?c (at (adjwgtsum g) v + su - d);
          Some (cvw1, csum1, r) }
        else Some (upd (cvw s) ?c (vwt g v), upd (csum s) ?c (at (adjwgtsum g) v), (adj1, wgt1, ht1, ne1)))
      = Some (upd (cvw s) ?c (pair_sum mat (vwt g) v),
          upd (csum s) ?c (pair_sum mat (at (adjwgtsum g)) v - inner_wgt g mat v), (adj2, wgt2, ht2, ne2))"
    and r2: "row_ok n ?b (class_row g mat v) adj2 wgt2 ne2" "used n ?c (class_row g mat v) ht2"
      "keeps ?b (cadj s) (cwgt s) adj2 wgt2" "ne2 \<le> pair_sum mat (deg g) v"
    by blast
  from reset [OF r2(1,2) c] obtain ht where ht: "reset ?b ?c (adj2, wgt2, ht2, ne2) = Some ht" "idx n [] ht" by blast
  let ?t = "\<lparr>cnv = ?c + 1, ced = ?b + ne2, cxadj = upd (cxadj s) (?c + 1) (?b + ne2),
    cvw = upd (cvw s) ?c (pair_sum mat (vwt g) v),
    csum = upd (csum s) ?c (pair_sum mat (at (adjwgtsum g)) v - inner_wgt g mat v),
    cadj = adj2, cwgt = wgt2, htab = ht\<rparr>"
  have u: "aget mat v = Some ?u" using m v by (simp add: arr matching_ok_def)
  have "coarse_visit ent del reset vw ew aux g mat v s = Some ?t"
    unfolding coarse_visit_def u Option.bind.bind_lunit vw [OF v(1,2)]
    using c len v sums l1 l2 ht(1) by (simp add: arr)
  moreover have "cst_ok g n mat ?t"
  proof -
    have ne2: "0 \<le> ne2" "ne2 = ilen (class_row g mat v)" "?b + ne2 \<le> ilen adj2" "ilen wgt2 = ilen adj2"
      using r2(1) by (auto simp: row_ok_def)
    have "row_built g mat ?t ?c v"
      using v c len ne2 s(1) r2(1) by (auto simp: row_built_def cst_ok_def row_ok_def)
    moreover have "row_built g mat ?t k x" if "0 \<le> k" "k < ?c" "row_built g mat s k x" for k x
      using that v c len ne2(1,3,4) r2(3) by (auto simp: row_built_def keeps_def)
    ultimately have "\<exists>x. row_built g mat ?t k x" if "0 \<le> k" "k < ?c + 1" for k
    proof (cases "k = ?c")
      case False
      with that have k: "0 \<le> k" "k < ?c" by auto
      with s(1) obtain x where "row_built g mat s k x" by (auto simp: cst_ok_def)
      from \<open>\<And>k x. 0 \<le> k \<Longrightarrow> k < ?c \<Longrightarrow> row_built g mat s k x \<Longrightarrow> row_built g mat ?t k x\<close> [OF k this]
      show ?thesis by blast
    qed blast
    then show ?thesis
      using s(1) c len ne2 room r2(3,4) by (auto simp: cst_ok_def keeps_def)
  qed
  ultimately show ?thesis using ht(2) by auto
qed

lemma coarse_loop_ok:
  assumes g: "csr g" and m: "matching_ok g n mat perm"
    and aux: "\<And>j. 0 \<le> j \<Longrightarrow> j < nedges g \<Longrightarrow> aget aux j = Some (at (cmap g) (at (adjncy g) j))"
    and ew: "\<And>j. 0 \<le> j \<Longrightarrow> j < nedges g \<Longrightarrow> ew j = Some (ewgt g j)"
    and vw: "\<And>v. 0 \<le> v \<Longrightarrow> v < nvtxs g \<Longrightarrow> vw v = Some (vwt g v)"
    and sums: "ilen (adjwgtsum g) = nvtxs g" and cm: "ilen (cmap g) = nvtxs g"
    and s: "cst_ok g n mat s" "idx n [] (htab s)" "cnv s = 0"
    and adjacent: "\<And>v. 0 \<le> v \<Longrightarrow> v < nvtxs g \<Longrightarrow>
      hole \<or> at mat v = v \<or> at (cmap g) v \<in> fst ` set (add_row g (at mat v) (add_row g v []))"
  shows "\<exists>t. coarse_loop ent del reset vw ew aux g mat perm s = Some t \<and> cst_ok g n mat t \<and> cnv t = n"
proof -
  have perm: "perm_on (nvtxs g) perm" using m by (simp add: matching_ok_def)
  have nn: "0 \<le> nvtxs g" using csrD(1) [OF g] .
  define P where "P i s \<longleftrightarrow> cst_ok g n mat s \<and> idx n [] (htab s)
      \<and> (\<forall>j. 0 \<le> j \<and> j < i \<longrightarrow> at (cmap g) (at perm j) < cnv s)
      \<and> (\<forall>c. 0 \<le> c \<and> c < cnv s \<longrightarrow> (\<exists>j. 0 \<le> j \<and> j < i \<and> at (cmap g) (at perm j) = c))" for i s
  have "\<exists>t. coarse_loop ent del reset vw ew aux g mat perm s = Some t \<and> P (nvtxs g) t"
    unfolding coarse_loop_def
  proof (rule for_loop_rule [where P = P])
    fix i s assume i: "0 \<le> i" "i < nvtxs g" and p: "P i s"
    let ?v = "at perm i" and ?c = "at (cmap g) (at perm i)"
    have v: "0 \<le> ?v" "?v < nvtxs g" using perm_onD [OF perm i] .
    have get: "aget perm i = Some ?v" "aget (cmap g) ?v = Some ?c"
      using i v perm cm by (auto simp: arr perm_on_def)
    have old: "\<exists>j. 0 \<le> j \<and> j < i \<and> at (cmap g) (at perm j) = c" if "0 \<le> c" "c < ?c" for c
      using matching_ok_order [OF m i that] .
    have cst: "cst_ok g n mat s" "0 \<le> cnv s" using p by (auto simp: P_def cst_ok_def)
    have le: "?c \<le> cnv s"
    proof (rule ccontr)
      assume "\<not> ?c \<le> cnv s"
      with old [of "cnv s"] cst(2) obtain j where "0 \<le> j \<and> j < i \<and> at (cmap g) (at perm j) = cnv s" by auto
      with p show False by (auto simp: P_def)
    qed
    show "\<exists>t. do { v \<leftarrow> aget perm i; cv \<leftarrow> aget (cmap g) v;
        if cv \<noteq> cnv s then Some s else coarse_visit ent del reset vw ew aux g mat v s } = Some t \<and> P (i + 1) t"
    proof (cases "?c = cnv s")
      case True
      have adj: "hole \<or> at mat ?v = ?v \<or> cnv s \<in> fst ` set (add_row g (at mat ?v) (add_row g ?v []))"
        using adjacent [OF v] by (simp add: True)
      have ix: "idx n [] (htab s)" using p by (simp add: P_def)
      from coarse_visit_ok [OF g m aux ew vw sums cst(1) ix v True adj]
      obtain t where t: "coarse_visit ent del reset vw ew aux g mat ?v s = Some t" "cst_ok g n mat t"
        "idx n [] (htab t)" "cnv t = cnv s + 1" by blast
      have "at (cmap g) (at perm j) < cnv t" if "0 \<le> j" "j < i + 1" for j
        using that p True t(4) by (cases "j = i") (auto simp: P_def)
      moreover have "\<exists>j. 0 \<le> j \<and> j < i + 1 \<and> at (cmap g) (at perm j) = c" if "0 \<le> c" "c < cnv t" for c
      proof (cases "c = cnv s")
        case True
        with \<open>?c = cnv s\<close> i show ?thesis by (intro exI [of _ i]) auto
      next
        case False
        with that t(4) have "c < cnv s" by simp
        with p that obtain j where "0 \<le> j \<and> j < i \<and> at (cmap g) (at perm j) = c" by (auto simp: P_def)
        then show ?thesis by (intro exI [of _ j]) auto
      qed
      ultimately have "P (i + 1) t" using t by (simp add: P_def)
      with t(1) get True show ?thesis by simp
    next
      case False
      with le have "?c < cnv s" by simp
      then have "at (cmap g) (at perm j) < cnv s" if "0 \<le> j" "j < i + 1" for j
        using that p by (cases "j = i") (auto simp: P_def)
      moreover have "\<exists>j. 0 \<le> j \<and> j < i + 1 \<and> at (cmap g) (at perm j) = c" if "0 \<le> c" "c < cnv s" for c
      proof -
        from p that obtain j where "0 \<le> j \<and> j < i \<and> at (cmap g) (at perm j) = c" by (auto simp: P_def)
        then show ?thesis by (intro exI [of _ j]) auto
      qed
      ultimately have "P (i + 1) s" using p by (simp add: P_def)
      with get False show ?thesis by simp
    qed
  qed (use s nn in \<open>auto simp: P_def\<close>)
  then obtain t where t: "coarse_loop ent del reset vw ew aux g mat perm s = Some t" "P (nvtxs g) t" by blast
  have "n \<le> cnv t"
  proof (rule ccontr)
    assume "\<not> n \<le> cnv t"
    moreover have "0 \<le> cnv t" using t(2) by (simp add: P_def cst_ok_def)
    ultimately obtain v where v: "0 \<le> v" "v < nvtxs g" "at (cmap g) v = cnv t"
      using matching_ok_member [OF m, of "cnv t"] by (metis not_le_imp_less)
    from perm_on_ex [OF perm v(1,2)] obtain j where "0 \<le> j" "j < nvtxs g" "at perm j = v" by blast
    with t(2) v(3) show False by (auto simp: P_def)
  qed
  moreover have "cnv t \<le> n" using t(2) by (simp add: P_def cst_ok_def)
  ultimately show ?thesis using t by (auto simp: P_def)
qed

lemma contract_ok:
  assumes g: "wf_graph g" "nedges g < 2 ^ 31" and m: "matching_ok g n mat perm"
    and room: "nedges g \<le> auxlen c" "0 \<le> ccore c" "ccore c + pad2 (htsize n) \<le> maxcore c"
    and ew: "\<And>j. 0 \<le> j \<Longrightarrow> j < nedges g \<Longrightarrow> ew j = Some (ewgt g j)"
    and vw: "\<And>v. 0 \<le> v \<Longrightarrow> v < nvtxs g \<Longrightarrow> vw v = Some (vwt g v)"
    and adjacent: "\<And>v. 0 \<le> v \<Longrightarrow> v < nvtxs g \<Longrightarrow>
      hole \<or> at mat v = v \<or> at (cmap g) v \<in> fst ` set (add_row g (at mat v) (add_row g v []))"
  shows "\<exists>cg. contract ent del reset vw ew (htsize n) c g n mat perm = Some (cg, c) \<and> coarse_of g mat n cg"
proof -
  have gc: "csr g" "ilen (adjwgtsum g) = nvtxs g" "ilen (cmap g) = nvtxs g" using g by (auto simp: wf_graph_def)
  have n: "0 \<le> n" using m by (simp add: matching_ok_def)
  have ht0: "0 \<le> htsize n" using init [OF n] by blast
  let ?c1 = "c\<lparr>ccore := ccore c + pad2 (htsize n)\<rparr>"
  have w: "idxwspacemalloc c (htsize n) = Some (fresh c (htsize n), ?c1)"
    "idxwspacefree ?c1 (htsize n) = Some c"
    using room by (simp_all add: idxwspacemalloc_def idxwspacefree_def Let_def fresh_def)
  obtain ht where ht: "idxset (htsize n) (- 1) (fresh c (htsize n)) = Some ht"
    "length ht = nat (htsize n)" "\<And>i. 0 \<le> i \<Longrightarrow> i < htsize n \<Longrightarrow> at ht i = - 1"
    using idxset_spec [of "htsize n" "fresh c (htsize n)" "- 1"] ht0 by auto
  have i0: "idx n [] ht" using init [OF n, of ht] ht ht0 by (auto simp: ilen_def)
  have cm: "0 \<le> at (cmap g) v \<and> at (cmap g) v < n" if "0 \<le> v" "v < nvtxs g" for v
    using matching_okD(5,6) [OF m that] by simp
  obtain aux where aux: "map_adjacency c g = Some aux"
    "\<And>j. 0 \<le> j \<Longrightarrow> j < nedges g \<Longrightarrow> aget aux j = Some (at (cmap g) (at (adjncy g) j))"
    using map_adjacency_ok [OF gc(1,3) room(1)] by blast
  let ?s = "\<lparr>cnv = 0, ced = 0, cxadj = upd (fresh c (n + 1)) 0 0, cvw = fresh c n, csum = fresh c n,
    cadj = fresh c (nedges g), cwgt = fresh c (nedges g), htab = ht\<rparr>"
  have "0 \<le> deg_below g 0"
    unfolding deg_below_def by (rule sum_nonneg) (use deg_nonneg [OF gc(1)] in auto)
  then have s: "cst_ok g n mat ?s" "idx n [] (htab ?s)" "cnv ?s = 0"
    using n nedges_nonneg [OF gc(1)] i0 by (auto simp: cst_ok_def)
  from coarse_loop_ok [OF gc(1) m aux(2) ew vw gc(2,3) s adjacent]
  obtain t where t: "coarse_loop ent del reset vw ew aux g mat perm ?s = Some t" "cst_ok g n mat t" "cnv t = n"
    by blast
  let ?cg = "\<lparr>nvtxs = n, nedges = ced t, xadj = cxadj t, vwgt = Some (cvw t), adjncy = cadj t,
      adjwgt = Some (cwgt t), adjwgtsum = csum t, cmap = fresh c n\<rparr>"
  have "coarse_of g mat n ?cg"
    by (rule coarse_arrays [OF g(1) m t(2,3)]) (use n in simp_all)
  moreover have "contract ent del reset vw ew (htsize n) c g n mat perm = Some (ReAdjustMemory g ?cg, c)"
    using w ht(1) aux(1) t(1) n by (simp add: contract_def SetUpCoarseGraph_def arr)
  ultimately show ?thesis using ReAdjustMemory_id [OF nedges_nonneg [OF gc(1)] g(2)] by simp
qed

end

section \<open>The two indexes\<close>

definition idx_nomask :: "int \<Rightarrow> (int \<times> int) list \<Rightarrow> int list \<Rightarrow> bool" where
  "idx_nomask n al ht \<longleftrightarrow> ilen ht = n \<and> (\<forall>k. 0 \<le> k \<and> k < n \<longrightarrow>
     (if at ht k = - 1 then k \<notin> fst ` set al
      else 0 \<le> at ht k \<and> at ht k < ilen al \<and> at (map fst al) (at ht k) = k))"

definition used_nomask :: "int \<Rightarrow> int \<Rightarrow> (int \<times> int) list \<Rightarrow> int list \<Rightarrow> bool" where
  "used_nomask n c al ht \<longleftrightarrow> ilen ht = n
     \<and> (\<forall>k. 0 \<le> k \<and> k < n \<and> at ht k \<noteq> - 1 \<longrightarrow> k \<in> fst ` set al)"

definition idx_mask :: "int \<Rightarrow> (int \<times> int) list \<Rightarrow> int list \<Rightarrow> bool" where
  "idx_mask n al ht \<longleftrightarrow> ilen ht = HTLENGTH + 1 \<and> (\<forall>h. 0 \<le> h \<and> h \<le> HTLENGTH \<longrightarrow>
     (if at ht h = - 1 then \<forall>k \<in> fst ` set al. k AND HTLENGTH \<noteq> h
      else 0 \<le> at ht h \<and> at ht h < ilen al \<and> at (map fst al) (at ht h) AND HTLENGTH = h))"

definition used_mask :: "int \<Rightarrow> int \<Rightarrow> (int \<times> int) list \<Rightarrow> int list \<Rightarrow> bool" where
  "used_mask n c al ht \<longleftrightarrow> ilen ht = HTLENGTH + 1
     \<and> (\<forall>h. 0 \<le> h \<and> h \<le> HTLENGTH \<and> at ht h \<noteq> - 1 \<longrightarrow>
          h = c AND HTLENGTH \<or> (\<exists>k \<in> fst ` set al. k AND HTLENGTH = h))"

lemma and_HTLENGTH: "0 \<le> k AND HTLENGTH" "k AND HTLENGTH \<le> HTLENGTH"
proof -
  have "k AND HTLENGTH = k mod 2048"
    using take_bit_eq_mask [of 11 k] by (simp add: HTLENGTH_def take_bit_eq_mod mask_eq_exp_minus_1)
  then show "0 \<le> k AND HTLENGTH" "k AND HTLENGTH \<le> HTLENGTH"
    using pos_mod_bound [of 2048 k] by (simp_all add: HTLENGTH_def)
qed

lemma keys_old: "k \<in> fst ` set al \<Longrightarrow> map fst (row_add k w al) = map fst al"
  by (induction k w al rule: row_add.induct) auto

lemma at_map_fst: "0 \<le> m \<Longrightarrow> m < ilen al \<Longrightarrow> at (map fst al) m = fst (at al m)"
  by (simp add: at_def ilen_def)

lemma row_ok_at:
  assumes "row_ok n b al adj wgt ne" "0 \<le> m" "m < ilen al"
  shows "at adj (b + m) = at (map fst al) m" "m < ne" "b + m < ilen adj" "0 \<le> b + m"
    "at (map fst al) m \<in> fst ` set al"
proof -
  show "at adj (b + m) = at (map fst al) m" "m < ne" "b + m < ilen adj" "0 \<le> b + m"
    using assms by (auto simp: row_ok_def at_map_fst)
  have "at (map fst al) m \<in> set (map fst al)"
    by (rule at_in_set) (use assms in \<open>simp_all add: ilen_def\<close>)
  then show "at (map fst al) m \<in> fst ` set al" by simp
qed

text \<open>Clearing the entries of the keys of a row.\<close>

lemma clear_keys:
  assumes r: "row_ok n b al adj wgt ne"
    and h: "\<And>k. k \<in> fst ` set al \<Longrightarrow> 0 \<le> h k \<and> h k < ilen ht"
  shows "\<exists>ht'. for_loop 0 ne (\<lambda>j ht. do { k \<leftarrow> aget adj (b + j); aset ht (h k) (- 1) }) ht = Some ht'
    \<and> ilen ht' = ilen ht \<and> (\<forall>i. 0 \<le> i \<longrightarrow> at ht' i = (if i \<in> h ` fst ` set al then - 1 else at ht i))"
proof -
  have ne: "ne = ilen al" using r by (simp add: row_ok_def)
  have "\<exists>ht'. for_loop 0 ne (\<lambda>j ht. do { k \<leftarrow> aget adj (b + j); aset ht (h k) (- 1) }) ht = Some ht'
    \<and> ilen ht' = ilen ht
    \<and> (\<forall>i. 0 \<le> i \<longrightarrow> at ht' i = (if \<exists>j. 0 \<le> j \<and> j < ne \<and> i = h (at (map fst al) j) then - 1 else at ht i))"
  proof (rule for_loop_rule [where P = "\<lambda>m ht'. ilen ht' = ilen ht
      \<and> (\<forall>i. 0 \<le> i \<longrightarrow> at ht' i = (if \<exists>j. 0 \<le> j \<and> j < m \<and> i = h (at (map fst al) j) then - 1 else at ht i))"])
    fix m t
    assume m: "0 \<le> m" "m < ne" and t: "ilen t = ilen ht
      \<and> (\<forall>i. 0 \<le> i \<longrightarrow> at t i = (if \<exists>j. 0 \<le> j \<and> j < m \<and> i = h (at (map fst al) j) then - 1 else at ht i))"
    let ?k = "at (map fst al) m"
    note a = row_ok_at [OF r m(1), unfolded ne [symmetric], OF m(2)]
    have k: "0 \<le> h ?k" "h ?k < ilen t" using h [OF a(5)] t by auto
    have "at (upd t (h ?k) (- 1)) i = (if \<exists>j. 0 \<le> j \<and> j < m + 1 \<and> i = h (at (map fst al) j) then - 1 else at ht i)"
      if "0 \<le> i" for i
    proof (cases "i = h ?k")
      case True
      with that k m show ?thesis by auto
    next
      case False
      then have "(\<exists>j. 0 \<le> j \<and> j < m + 1 \<and> i = h (at (map fst al) j))
          \<longleftrightarrow> (\<exists>j. 0 \<le> j \<and> j < m \<and> i = h (at (map fst al) j))"
        by (metis zless_add1_eq)
      with False that k t show ?thesis by simp
    qed
    with a k t show "\<exists>t'. do { k \<leftarrow> aget adj (b + m); aset t (h k) (- 1) } = Some t' \<and> ilen t' = ilen ht
        \<and> (\<forall>i. 0 \<le> i \<longrightarrow> at t' i = (if \<exists>j. 0 \<le> j \<and> j < m + 1 \<and> i = h (at (map fst al) j) then - 1 else at ht i))"
      by (simp add: arr)
  qed (use ne in auto)
  moreover have "(\<exists>j. 0 \<le> j \<and> j < ne \<and> i = h (at (map fst al) j)) \<longleftrightarrow> i \<in> h ` fst ` set al" for i
  proof -
    have "fst ` set al = at (map fst al) ` {0..<ilen (map fst al)}"
      using set_at [of "map fst al"] by simp
    moreover have "ilen (map fst al) = ne" by (simp add: ne ilen_def)
    ultimately have "i \<in> h ` fst ` set al \<longleftrightarrow> i \<in> h ` at (map fst al) ` {0..<ne}" by metis
    then show ?thesis by auto
  qed
  ultimately show ?thesis by simp
qed

lemma at_keys: "0 \<le> m \<Longrightarrow> m < ilen al \<Longrightarrow> at (map fst al) m \<in> fst ` set al"
proof -
  assume "0 \<le> m" "m < ilen al"
  then have "at (map fst al) m \<in> set (map fst al)" by (intro at_in_set) (simp_all add: ilen_def)
  then show ?thesis by simp
qed

lemma idx_nomask_key:
  assumes "idx_nomask n al ht" "0 \<le> k" "k < n" "at ht k \<noteq> - 1"
  shows "k \<in> fst ` set al"
proof -
  from assms have "0 \<le> at ht k" "at ht k < ilen al" "at (map fst al) (at ht k) = k"
    by (auto simp: idx_nomask_def)
  with at_keys [OF this(1,2)] show ?thesis by simp
qed

lemma idx_mask_key:
  assumes "idx_mask n al ht" "0 \<le> h" "h \<le> HTLENGTH" "at ht h \<noteq> - 1"
  shows "\<exists>k \<in> fst ` set al. k AND HTLENGTH = h"
proof -
  from assms have "0 \<le> at ht h" "at ht h < ilen al" "at (map fst al) (at ht h) AND HTLENGTH = h"
    by (auto simp: idx_mask_def)
  with at_keys [OF this(1,2)] show ?thesis by blast
qed

lemma idx_mask_absent:
  assumes "idx_mask n al ht" "at ht (k AND HTLENGTH) = - 1"
  shows "k \<notin> fst ` set al"
proof -
  have "if at ht (k AND HTLENGTH) = - 1 then \<forall>x \<in> fst ` set al. x AND HTLENGTH \<noteq> k AND HTLENGTH
      else 0 \<le> at ht (k AND HTLENGTH) \<and> at ht (k AND HTLENGTH) < ilen al
        \<and> at (map fst al) (at ht (k AND HTLENGTH)) AND HTLENGTH = k AND HTLENGTH"
    using assms(1) and_HTLENGTH [of k] unfolding idx_mask_def by blast
  with assms(2) show ?thesis by fastforce
qed

lemma keys_old_facts:
  assumes "k \<in> fst ` set al"
  shows "map fst (row_add k w al) = map fst al" "ilen (row_add k w al) = ilen al"
    "fst ` set (row_add k w al) = fst ` set al"
proof -
  show *: "map fst (row_add k w al) = map fst al" using keys_old [OF assms] .
  then show "ilen (row_add k w al) = ilen al" by (metis ilen_def length_map)
  from * show "fst ` set (row_add k w al) = fst ` set al" by (metis list.set_map)
qed

interpretation nomask: edge_index entry_nomask del_nomask reset_nomask idx_nomask used_nomask "\<lambda>n. n" True
proof
  show "0 \<le> n \<and> (ilen ht = n \<longrightarrow> (\<forall>i. 0 \<le> i \<and> i < n \<longrightarrow> at ht i = - 1) \<longrightarrow> idx_nomask n [] ht)" if "0 \<le> n" for n ht
    using that by (simp add: idx_nomask_def)
  show "used_nomask n c al ht" if "idx_nomask n al ht" for n al ht c
    using that idx_nomask_key [OF that] by (simp add: used_nomask_def) (simp add: idx_nomask_def)
next
  fix n b al adj wgt ht ne k w
  assume r: "row_ok n b al adj wgt ne" and i: "idx_nomask n al ht" and k: "0 \<le> k" "k < n" and room: "b + ne < ilen adj"
  have ne: "ne = ilen al" "0 \<le> ne" using r by (auto simp: row_ok_def)
  have ht: "ilen ht = n" using i by (simp add: idx_nomask_def)
  show "\<exists>adj' wgt' ht' ne'. entry_nomask b k w (adj, wgt, ht, ne) = Some (adj', wgt', ht', ne')
        \<and> row_ok n b (row_add k w al) adj' wgt' ne' \<and> idx_nomask n (row_add k w al) ht' \<and> keeps b adj wgt adj' wgt'"
  proof (cases "at ht k = - 1")
    case True
    then have new: "k \<notin> fst ` set al" using i k by (auto simp: idx_nomask_def)
    from put_new_ok [OF r room new k, of w] obtain adj' wgt' where p: "put_new b k w adj wgt ne = Some (adj', wgt')"
      "row_ok n b (row_add k w al) adj' wgt' (ne + 1)" "keeps b adj wgt adj' wgt'" by blast
    have "idx_nomask n (row_add k w al) (upd ht k ne)"
      using i k ht ne by (auto simp: idx_nomask_def row_add_new [OF new] at_append ilen_def) (auto simp: at_def)
    with p True k ht show ?thesis by (simp add: entry_nomask_def arr)
  next
    case False
    then have m: "0 \<le> at ht k" "at ht k < ilen al" "at (map fst al) (at ht k) = k"
      using i k by (auto simp: idx_nomask_def)
    note a = row_ok_at [OF r m(1,2)]
    from put_old_ok [OF r m(1) a(2) a(1) [unfolded m(3)], of w] obtain wgt' where
      p: "put_old b (at ht k) w wgt = Some wgt'" "row_ok n b (row_add k w al) adj wgt' ne" "keeps b adj wgt adj wgt'" by blast
    have "k \<in> fst ` set al" using a(5) by (simp add: m(3))
    then have "idx_nomask n (row_add k w al) ht"
      using i by (simp add: idx_nomask_def keys_old_facts)
    with p False k ht show ?thesis by (simp add: entry_nomask_def arr)
  qed
next
  fix n b al adj wgt ht ne c
  assume r: "row_ok n b al adj wgt ne" and i: "idx_nomask n al ht" and c: "0 \<le> c" "c < n"
  have ht: "ilen ht = n" using i by (simp add: idx_nomask_def)
  have d: "distinct (map fst al)" using r by (simp add: row_ok_def)
  show "\<exists>adj' wgt' ht' ne'. del_nomask b c (adj, wgt, ht, ne) = Some (row_get c al, adj', wgt', ht', ne')
        \<and> row_ok n b (row_del c al) adj' wgt' ne' \<and> used_nomask n c (row_del c al) ht' \<and> keeps b adj wgt adj' wgt'"
  proof (cases "at ht c = - 1")
    case True
    then have "c \<notin> fst ` set al" using i c by (auto simp: idx_nomask_def)
    moreover have "used_nomask n c al ht" using ht idx_nomask_key [OF i] by (simp add: used_nomask_def)
    ultimately show ?thesis using r True c ht by (simp add: del_nomask_def arr)
  next
    case False
    then have m: "0 \<le> at ht c" "at ht c < ilen al" "at (map fst al) (at ht c) = c"
      using i c by (auto simp: idx_nomask_def)
    note a = row_ok_at [OF r m(1,2)]
    from drop_slot_ok [OF r m(1) a(2) a(1) [unfolded m(3)]] obtain adj' wgt' where
      p: "drop_slot b (at ht c) adj wgt ne = Some (row_get c al, adj', wgt')"
      "row_ok n b (row_del c al) adj' wgt' (ne - 1)" "keeps b adj wgt adj' wgt'" by blast
    have "used_nomask n c (row_del c al) (upd ht c (- 1))"
      using c ht idx_nomask_key [OF i] row_del_facts(2) [OF d, of c] by (auto simp: used_nomask_def split: if_splits)
    with p False c ht show ?thesis by (simp add: del_nomask_def arr)
  qed
next
  fix n b al adj wgt ht ne c
  assume r: "row_ok n b al adj wgt ne" and u: "used_nomask n c al ht"
  obtain ht' where ht': "for_loop 0 ne (\<lambda>j ht. do { k \<leftarrow> aget adj (b + j); aset ht k (- 1) }) ht = Some ht'"
    "ilen ht' = ilen ht" "\<And>i. 0 \<le> i \<Longrightarrow> at ht' i = (if i \<in> fst ` set al then - 1 else at ht i)"
  proof -
    have "\<forall>k \<in> fst ` set al. 0 \<le> k \<and> k < n" using r unfolding row_ok_def by blast
    with u have "\<And>k. k \<in> fst ` set al \<Longrightarrow> 0 \<le> k \<and> k < ilen ht" unfolding used_nomask_def by blast
    from clear_keys [OF r, of "\<lambda>k. k" ht, OF this] that show ?thesis unfolding image_ident by blast
  qed
  have "at ht' k = - 1" if "0 \<le> k" "k < n" for k
    using that u ht'(3) [OF that(1)] by (auto simp: used_nomask_def split: if_splits)
  with ht' u show "\<exists>ht'. reset_nomask b c (adj, wgt, ht, ne) = Some ht' \<and> idx_nomask n [] ht'"
    by (simp add: reset_nomask_def idx_nomask_def used_nomask_def)
qed

text \<open>The hash table drops an edge correctly when the row has it.\<close>

interpretation mask: edge_index entry_mask del_mask reset_mask idx_mask used_mask "\<lambda>_. HTLENGTH + 1" False
proof
  show "0 \<le> HTLENGTH + 1 \<and> (ilen ht = HTLENGTH + 1 \<longrightarrow> (\<forall>i. 0 \<le> i \<and> i < HTLENGTH + 1 \<longrightarrow> at ht i = - 1) \<longrightarrow> idx_mask n [] ht)"
    if "0 \<le> n" for n ht
    by (simp add: idx_mask_def HTLENGTH_def)
  show "used_mask n c al ht" if "idx_mask n al ht" for n al ht c
    using that idx_mask_key [OF that] by (simp add: used_mask_def) (simp add: idx_mask_def)
next
  fix n b al adj wgt ht ne k w
  assume r: "row_ok n b al adj wgt ne" and i: "idx_mask n al ht" and k: "0 \<le> k" "k < n" and room: "b + ne < ilen adj"
  let ?h = "k AND HTLENGTH"
  note h = and_HTLENGTH [of k]
  have ne: "ne = ilen al" "0 \<le> ne" using r by (auto simp: row_ok_def)
  have ht: "ilen ht = HTLENGTH + 1" using i by (simp add: idx_mask_def)
  show "\<exists>adj' wgt' ht' ne'. entry_mask b k w (adj, wgt, ht, ne) = Some (adj', wgt', ht', ne')
        \<and> row_ok n b (row_add k w al) adj' wgt' ne' \<and> idx_mask n (row_add k w al) ht' \<and> keeps b adj wgt adj' wgt'"
  proof (cases "at ht ?h = - 1")
    case True
    then have new: "k \<notin> fst ` set al" using idx_mask_absent [OF i] by blast
    from put_new_ok [OF r room new k, of w] obtain adj' wgt' where p: "put_new b k w adj wgt ne = Some (adj', wgt')"
      "row_ok n b (row_add k w al) adj' wgt' (ne + 1)" "keeps b adj wgt adj' wgt'" by blast
    have "idx_mask n (row_add k w al) (upd ht ?h ne)"
      using i h ht ne by (auto simp: idx_mask_def row_add_new [OF new] at_append ilen_def) (auto simp: at_def)
    with p True h ht show ?thesis by (simp add: entry_mask_def arr)
  next
    case False
    then have m: "0 \<le> at ht ?h" "at ht ?h < ilen al"
      using i h by (auto simp: idx_mask_def)
    note a = row_ok_at [OF r m]
    have same: "idx_mask n (row_add k w al) ht" if "k \<in> fst ` set al"
      using i by (simp add: idx_mask_def keys_old_facts [OF that])
    show ?thesis
    proof (cases "at adj (b + at ht ?h) = k")
      case True
      from put_old_ok [OF r m(1) a(2) True, of w] obtain wgt' where
        p: "put_old b (at ht ?h) w wgt = Some wgt'" "row_ok n b (row_add k w al) adj wgt' ne" "keeps b adj wgt adj wgt'" by blast
      have "k \<in> fst ` set al" using a(1,5) True by simp
      from same [OF this] p False True h ht a show ?thesis by (simp add: entry_mask_def arr)
    next
      case other: False
      from find_slot_ok [OF r, of k] obtain jj where jj: "find_slot b k adj ne = Some jj" "0 \<le> jj" "jj \<le> ne"
        "jj < ne \<longrightarrow> at adj (b + jj) = k" "jj = ne \<longrightarrow> k \<notin> fst ` set al" by blast
      show ?thesis
      proof (cases "jj < ne")
        case True
        with jj have "at adj (b + jj) = k" by simp
        from put_old_ok [OF r jj(2) True this, of w] obtain wgt' where
          p: "put_old b jj w wgt = Some wgt'" "row_ok n b (row_add k w al) adj wgt' ne" "keeps b adj wgt adj wgt'" by blast
        have "k \<in> fst ` set al"
          using row_ok_at(1,5) [OF r jj(2)] True ne jj(4) by auto
        from same [OF this] p False True other jj(1) h ht a show ?thesis
          by (auto simp: entry_mask_def arr)
      next
        case last: False
        then have new: "k \<notin> fst ` set al" using jj by auto
        from put_new_ok [OF r room new k, of w] obtain adj' wgt' where p: "put_new b k w adj wgt ne = Some (adj', wgt')"
          "row_ok n b (row_add k w al) adj' wgt' (ne + 1)" "keeps b adj wgt adj' wgt'" by blast
        have "if at ht i = - 1 then \<forall>x \<in> fst ` set (row_add k w al). x AND HTLENGTH \<noteq> i
          else 0 \<le> at ht i \<and> at ht i < ilen (row_add k w al)
            \<and> at (map fst (row_add k w al)) (at ht i) AND HTLENGTH = i" if "0 \<le> i \<and> i \<le> HTLENGTH" for i
          using i that False
          by (auto simp: idx_mask_def row_add_new [OF new] at_append ilen_def split: if_splits)
        then have "idx_mask n (row_add k w al) ht" using ht by (simp add: idx_mask_def)
        with p False other last jj(1) h ht a show ?thesis
          by (auto simp: entry_mask_def arr)
      qed
    qed
  qed
next
  fix n b al adj wgt ht ne c
  assume r: "row_ok n b al adj wgt ne" and i: "idx_mask n al ht" and c: "0 \<le> c" "c < n"
    and "False \<or> c \<in> fst ` set al"
  then have ca: "c \<in> fst ` set al" by simp
  let ?h = "c AND HTLENGTH"
  note h = and_HTLENGTH [of c]
  have ht: "ilen ht = HTLENGTH + 1" using i by (simp add: idx_mask_def)
  have d: "distinct (map fst al)" "b + ne \<le> ilen adj" "0 \<le> b" using r by (auto simp: row_ok_def)
  have "at ht ?h \<noteq> - 1" using idx_mask_absent [OF i] ca by blast
  then have m: "0 \<le> at ht ?h" "at ht ?h < ilen al" using i h by (auto simp: idx_mask_def)
  note a = row_ok_at [OF r m]
  from find_slot_ok [OF r, of c] ca obtain jj where f: "find_slot b c adj ne = Some jj" "0 \<le> jj" "jj < ne"
    "at adj (b + jj) = c" by fastforce
  define j where "j = (if at adj (b + at ht ?h) \<noteq> c then jj else at ht ?h)"
  have j: "0 \<le> j" "j < ne" "at adj (b + j) = c" using f a m by (auto simp: j_def)
  have j2: "aget (adj @ wgt) (b + j) = Some c"
  proof -
    have "aget (adj @ wgt) (b + j) = Some (at (adj @ wgt) (b + j))"
      by (rule aget_at) (use j d ilen_nonneg [of wgt] in \<open>simp_all del: ilen_nonneg\<close>)
    then show ?thesis using j d by (simp add: at_append)
  qed
  from drop_slot_ok [OF r j] obtain adj' wgt' where
    p: "drop_slot b j adj wgt ne = Some (row_get c al, adj', wgt')"
    "row_ok n b (row_del c al) adj' wgt' (ne - 1)" "keeps b adj wgt adj' wgt'" by blast
  have "used_mask n c (row_del c al) ht"
    unfolding used_mask_def
  proof (intro conjI allI impI)
    fix x assume "0 \<le> x \<and> x \<le> HTLENGTH \<and> at ht x \<noteq> - 1"
    then obtain k where "k \<in> fst ` set al" "k AND HTLENGTH = x" using idx_mask_key [OF i] by blast
    then show "x = c AND HTLENGTH \<or> (\<exists>k \<in> fst ` set (row_del c al). k AND HTLENGTH = x)"
      using row_del_facts(2) [OF d(1), of c] by (cases "k = c") auto
  qed (fact ht)
  moreover have "del_mask b c (adj, wgt, ht, ne) = Some (row_get c al, adj', wgt', ht, ne - 1)"
  proof -
    have "aget adj (b + at ht ?h) = Some (at adj (b + at ht ?h))" using a by (simp add: arr)
    then show ?thesis
      using h ht m f(1) j2 j(1) p(1) by (cases "at adj (b + at ht ?h) = c") (simp_all add: del_mask_def arr j_def)
  qed
  ultimately show "\<exists>adj' wgt' ht' ne'. del_mask b c (adj, wgt, ht, ne) = Some (row_get c al, adj', wgt', ht', ne')
        \<and> row_ok n b (row_del c al) adj' wgt' ne' \<and> used_mask n c (row_del c al) ht' \<and> keeps b adj wgt adj' wgt'"
    using p by blast
next
  fix n b al adj wgt ht ne c
  assume r: "row_ok n b al adj wgt ne" and u: "used_mask n c al ht"
  have ht: "ilen ht = HTLENGTH + 1" using u by (simp add: used_mask_def)
  obtain ht' where "for_loop 0 ne (\<lambda>j ht. do { k \<leftarrow> aget adj (b + j); aset ht (k AND HTLENGTH) (- 1) }) ht = Some ht'"
    "ilen ht' = ilen ht" "\<And>i. 0 \<le> i \<Longrightarrow> at ht' i = (if i \<in> (\<lambda>k. k AND HTLENGTH) ` fst ` set al then - 1 else at ht i)"
  proof -
    have "0 \<le> k AND HTLENGTH \<and> k AND HTLENGTH < ilen ht" for k
      using and_HTLENGTH [of k] ht by linarith
    from clear_keys [OF r, of "\<lambda>k. k AND HTLENGTH" ht, OF this] that show ?thesis by blast
  qed
  moreover have "at (upd ht' (c AND HTLENGTH) (- 1)) i = - 1" if "0 \<le> i" "i \<le> HTLENGTH" for i
    using u that calculation and_HTLENGTH [of c] ht by (auto simp: used_mask_def)
  ultimately show "\<exists>ht'. reset_mask b c (adj, wgt, ht, ne) = Some ht' \<and> idx_mask n [] ht'"
    using and_HTLENGTH [of c] ht by (simp add: reset_mask_def arr idx_mask_def)
qed

section \<open>The routines\<close>

text \<open>Room in the workspace for a contraction.\<close>

definition contract_room :: "ctrl \<Rightarrow> mgraph \<Rightarrow> int \<Rightarrow> bool" where
  "contract_room c g n \<longleftrightarrow> nedges g < 2 ^ 31 \<and> nedges g \<le> auxlen c \<and> 0 \<le> ccore c
    \<and> ccore c + max (pad2 n) (HTLENGTH + 1) \<le> maxcore c"

text \<open>The pairs are joined by an edge of one of the two.\<close>

definition pairs_adjacent :: "mgraph \<Rightarrow> int list \<Rightarrow> bool" where
  "pairs_adjacent g mat \<longleftrightarrow> (\<forall>v. 0 \<le> v \<and> v < nvtxs g \<longrightarrow> at mat v = v
    \<or> (\<exists>j \<in> row g v. at (adjncy g) j = at mat v) \<or> (\<exists>j \<in> row g (at mat v). at (adjncy g) j = v))"

lemma pairs_adjacent_key:
  assumes "csr g" "matching_ok g n mat perm" "pairs_adjacent g mat" "0 \<le> v" "v < nvtxs g"
  shows "False \<or> at mat v = v \<or> at (cmap g) v \<in> fst ` set (add_row g (at mat v) (add_row g v []))"
proof -
  note m = matching_okD [OF assms(2,4,5)]
  have d: "distinct (map fst ([] :: (int \<times> int) list))" by simp
  note a = add_row_facts [OF assms(1,4,5) d]
  note b = add_row_facts [OF assms(1) m(1,2) a(2)]
  from assms(3-5) consider "at mat v = v" | j where "j \<in> row g v" "at (adjncy g) j = at mat v"
    | j where "j \<in> row g (at mat v)" "at (adjncy g) j = v"
    unfolding pairs_adjacent_def by blast
  then show ?thesis
  proof cases
    case 2
    then have "at (cmap g) (at (adjncy g) j) = at (cmap g) v" using m(4) by simp
    with 2(1) show ?thesis unfolding b(3) a(3) by (metis UnI1 UnI2 image_eqI)
  next
    case 3
    then show ?thesis unfolding b(3) by (metis UnI2 image_eqI)
  qed simp
qed

lemma accessors:
  assumes "wf_graph g" "weighted g"
  shows "0 \<le> j \<Longrightarrow> j < nedges g \<Longrightarrow> nget (adjwgt g) j = Some (ewgt g j)"
    "0 \<le> v \<Longrightarrow> v < nvtxs g \<Longrightarrow> nget (vwgt g) v = Some (vwt g v)"
  using assms by (auto simp: wf_graph_def weighted_def ewgt_def vwt_def arr)

lemma CreateCoarseGraphNoMask_ok:
  assumes "wf_graph g" "weighted g" "matching_ok g n mat perm" "contract_room c g n"
  shows "\<exists>cg. CreateCoarseGraphNoMask c g n mat perm = Some (cg, c) \<and> coarse_of g mat n cg"
  unfolding CreateCoarseGraphNoMask_def
  by (rule nomask.contract_ok [OF assms(1) _ assms(3)])
    (use assms(4) accessors [OF assms(1,2)] in \<open>auto simp: contract_room_def\<close>)

lemma contract_mask_ok:
  assumes "wf_graph g" "matching_ok g n mat perm" "contract_room c g n" "pairs_adjacent g mat"
    and ew: "\<And>j. 0 \<le> j \<Longrightarrow> j < nedges g \<Longrightarrow> ew j = Some (ewgt g j)"
    and vw: "\<And>v. 0 \<le> v \<Longrightarrow> v < nvtxs g \<Longrightarrow> vw v = Some (vwt g v)"
  shows "\<exists>cg. contract entry_mask del_mask reset_mask vw ew (HTLENGTH + 1) c g n mat perm = Some (cg, c)
    \<and> coarse_of g mat n cg"
proof -
  have "pad2 (HTLENGTH + 1) = HTLENGTH + 1" by (simp add: pad2_def HTLENGTH_def)
  moreover have "csr g" using assms(1) by (simp add: wf_graph_def)
  ultimately show ?thesis
    by (intro mask.contract_ok [OF assms(1) _ assms(2)])
      (use assms pairs_adjacent_key [OF _ assms(2,4)] in \<open>auto simp: contract_room_def\<close>)
qed

lemma CreateCoarseGraph_ok:
  assumes "wf_graph g" "weighted g" "matching_ok g n mat perm" "contract_room c g n" "pairs_adjacent g mat"
  shows "\<exists>cg. CreateCoarseGraph c g n mat perm = Some (cg, c) \<and> coarse_of g mat n cg"
proof (cases "n < 8 * HTLENGTH")
  case True
  then show ?thesis using CreateCoarseGraphNoMask_ok [OF assms(1-4)] by (simp add: CreateCoarseGraph_def)
next
  case False
  then have n: "0 < n" by (simp add: HTLENGTH_def)
  have "nvtxs g \<noteq> 0"
  proof
    assume "nvtxs g = 0"
    moreover obtain v where "0 \<le> v" "v < nvtxs g" using matching_ok_member [OF assms(3) order_refl n] .
    ultimately show False by simp
  qed
  then have "cdiv (nedges g) (nvtxs g) = Some (nedges g sdiv nvtxs g)" by (simp add: cdiv_def)
  then have eq: "CreateCoarseGraph c g n mat perm =
      (if nedges g sdiv nvtxs g > 15 then CreateCoarseGraphNoMask c g n mat perm
       else contract entry_mask del_mask reset_mask (nget (vwgt g)) (nget (adjwgt g)) (HTLENGTH + 1) c g n mat perm)"
    using False by (simp add: CreateCoarseGraph_def)
  show ?thesis
    unfolding eq using contract_mask_ok [OF assms(1,3-5) accessors [OF assms(1,2)]]
      CreateCoarseGraphNoMask_ok [OF assms(1-4)] by (simp split: if_split)
qed

lemma CreateCoarseGraph_NVW_ok:
  assumes "wf_graph g" "vwgt g = None" "adjwgt g = None" "matching_ok g n mat perm" "contract_room c g n"
    "pairs_adjacent g mat"
  shows "\<exists>cg. CreateCoarseGraph_NVW c g n mat perm = Some (cg, c) \<and> coarse_of g mat n cg"
  unfolding CreateCoarseGraph_NVW_def
  by (rule contract_mask_ok [OF assms(1,4-6)]) (use assms in \<open>simp_all add: ewgt_def vwt_def\<close>)

section \<open>What contraction preserves\<close>

lemma sum_by_class:
  fixes h :: "'a \<Rightarrow> int"
  assumes "\<And>i. i \<in> A \<Longrightarrow> 0 \<le> h i \<and> h i < n"
  shows "(\<Sum>c = 0..<n. \<Sum>i \<in> A. if h i = c then f c i else (0 :: int)) = (\<Sum>i \<in> A. f (h i) i)"
proof -
  have "(\<Sum>c = 0..<n. \<Sum>i \<in> A. if h i = c then f c i else 0) = (\<Sum>i \<in> A. \<Sum>c = 0..<n. if h i = c then f c i else 0)"
    by (rule sum.swap)
  also have "\<dots> = (\<Sum>i \<in> A. f (h i) i)"
    by (rule sum.cong) (use assms in \<open>auto simp: sum.delta'\<close>)
  finally show ?thesis .
qed

lemma coarse_rowsum:
  assumes g: "csr g" and m: "matching_ok g n mat perm" and cg: "coarse_of g mat n cg" and c: "0 \<le> c" "c < n"
    and f: "f c = 0"
  shows "rowsum cg f c = (\<Sum>i = 0..<nvtxs g. if at (cmap g) i = c then rowsum g (\<lambda>k. f (at (cmap g) k)) i else 0)"
proof -
  obtain v where v: "0 \<le> v" "v < nvtxs g" "at (cmap g) v = c" using matching_ok_member [OF m c] .
  note mv = matching_okD [OF m v(1,2)]
  let ?F = "rowsum g (\<lambda>k. f (at (cmap g) k))"
  from cg v obtain x where x: "x \<in> {v, at mat v}"
    "at (xadj cg) (c + 1) = at (xadj cg) c + ilen (class_row g mat x)"
    "\<And>m. 0 \<le> m \<Longrightarrow> m < ilen (class_row g mat x) \<Longrightarrow>
        at (adjncy cg) (at (xadj cg) c + m) = fst (at (class_row g mat x) m)
        \<and> ewgt cg (at (xadj cg) c + m) = snd (at (class_row g mat x) m)"
    unfolding coarse_of_def Let_def by blast
  have xr: "0 \<le> x" "x < nvtxs g" "at (cmap g) x = c" using x(1) v mv(1,2,4) by auto
  have "rowsum cg f c = rsum f (class_row g mat x)" by (rule rowsum_entries [OF x(2,3)])
  also have "\<dots> = pair_sum mat ?F x" using class_row_sum [OF g m xr(1,2), of f] f xr(3) by (simp add: pair_sum_def)
  also have "\<dots> = (\<Sum>i = 0..<nvtxs g. if at (cmap g) i = c then ?F i else 0)"
    using class_sum [OF m xr(1,2), of ?F] by (simp add: pair_sum_def xr(3))
  finally show ?thesis .
qed

lemma coarse_cut:
  assumes g: "csr g" and m: "matching_ok g n mat perm" and cg: "coarse_of g mat n cg"
  shows "cut2 cg p = cut2 g (\<lambda>v. p (at (cmap g) v))"
proof -
  have cm: "0 \<le> at (cmap g) i \<and> at (cmap g) i < n" if "i \<in> {0..<nvtxs g}" for i
    using matching_okD(5,6) [OF m, of i] that by simp
  let ?f = "\<lambda>c k. if p k = p c then 0 else 1 :: int"
  have "cut2 cg p = (\<Sum>c = 0..<n. \<Sum>i = 0..<nvtxs g.
      if at (cmap g) i = c then rowsum g (\<lambda>k. ?f c (at (cmap g) k)) i else 0)"
    unfolding cut2_def using cg
    by (intro sum.cong) (auto simp: coarse_of_def intro!: coarse_rowsum [OF g m cg])
  also have "\<dots> = (\<Sum>i = 0..<nvtxs g. rowsum g (\<lambda>k. ?f (at (cmap g) i) (at (cmap g) k)) i)"
    by (rule sum_by_class [OF cm])
  finally show ?thesis by (simp add: cut2_def)
qed

lemma coarse_part_weight:
  assumes m: "matching_ok g n mat perm" and cg: "coarse_of g mat n cg"
  shows "part_weight cg p k = part_weight g (\<lambda>v. p (at (cmap g) v)) k"
proof -
  have cm: "0 \<le> at (cmap g) i \<and> at (cmap g) i < n" if "i \<in> {0..<nvtxs g}" for i
    using matching_okD(5,6) [OF m, of i] that by simp
  have w: "vwt cg c = (\<Sum>i = 0..<nvtxs g. if at (cmap g) i = c then vwt g i else 0)" if c: "0 \<le> c" "c < n" for c
  proof -
    obtain v where v: "0 \<le> v" "v < nvtxs g" "at (cmap g) v = c" using matching_ok_member [OF m c] .
    with cg have "vwt cg c = pair_sum mat (vwt g) v" unfolding coarse_of_def Let_def by blast
    with class_sum [OF m v(1,2), of "vwt g"] v(3) show ?thesis by (simp add: pair_sum_def)
  qed
  have "part_weight cg p k = (\<Sum>c = 0..<n. \<Sum>i = 0..<nvtxs g.
      if at (cmap g) i = c then if p c = k then vwt g i else 0 else 0)"
    unfolding part_weight_def using cg
    by (intro sum.cong) (auto simp: coarse_of_def w if_distrib intro!: sum.cong)
  also have "\<dots> = (\<Sum>i = 0..<nvtxs g. if p (at (cmap g) i) = k then vwt g i else 0)"
    by (rule sum_by_class [OF cm])
  finally show ?thesis by (simp add: part_weight_def)
qed

end
