(* ===== verification/Mt_Kway.thy ===== *)
theory Mt_Kway
  imports Mt_Contract_Props
begin

text \<open>
  The state of the k-way refinement: the partition and what \<open>kwayrefine.c\<close> keeps of it. For every
  vertex \<open>RInfoType\<close> holds the weight of its edges inside its part (\<open>id\<close>) and to other parts (\<open>ed\<close>),
  and the latter by part in a block of \<open>wspace.edegrees\<close>, to which it points. All blocks lie in the
  one array \<open>estore\<close>, so that a write past the end of a block is a write into the next one.
\<close>

section \<open>Structures\<close>

text \<open>\<open>EDegreeType\<close>: \<open>pid\<close> and \<open>ed\<close>.\<close>

type_synonym edeg = "int \<times> int"

record rinfo =
  rid :: int
  red :: int
  ndegrees :: int
  edegrees :: "int option"

text \<open>The partition in \<open>GraphType\<close>, with \<open>wspace.edegrees\<close> and \<open>wspace.cdegree\<close>. The local variable
  \<open>nbnd\<close> of the routines is the field.\<close>

record kstate =
  wher :: "int list"
  pwgts :: "int list"
  bndptr :: "int list"
  bndind :: "int list"
  nbnd :: int
  mincut :: int
  rinfos :: "rinfo list"
  estore :: "edeg list"
  cdegree :: int

text \<open>The arrays are parts of \<open>rdata\<close>, not initialised.\<close>

definition fresh_rinfos :: "ctrl \<Rightarrow> int \<Rightarrow> rinfo list" where
  "fresh_rinfos c n = map (\<lambda>k. \<lparr>rid = junk c (4 * k), red = junk c (4 * k + 1), ndegrees = junk c (4 * k + 2),
     edegrees = Some (junk c (4 * k + 3))\<rparr>) [0..<nat n]"

definition AllocateKWayPartitionMemory :: "ctrl \<Rightarrow> mgraph \<Rightarrow> int \<Rightarrow> kstate \<Rightarrow> kstate" where
  "AllocateKWayPartitionMemory c g nparts s = s\<lparr>
     pwgts := fresh c nparts, wher := fresh c (nvtxs g),
     bndptr := fresh c (nvtxs g), bndind := fresh c (nvtxs g),
     rinfos := fresh_rinfos c (nvtxs g)\<rparr>"

section \<open>The boundary list\<close>

definition BNDInsert :: "int \<Rightarrow> kstate \<Rightarrow> kstate option" where
  "BNDInsert v s = do {
     bi \<leftarrow> aset (bndind s) (nbnd s) v;
     bp \<leftarrow> aset (bndptr s) v (nbnd s);
     Some (s\<lparr>bndind := bi, bndptr := bp, nbnd := nbnd s + 1\<rparr>) }"

definition BNDDelete :: "int \<Rightarrow> kstate \<Rightarrow> kstate option" where
  "BNDDelete v s = do {
     s \<leftarrow> Some (s\<lparr>nbnd := nbnd s - 1\<rparr>);
     k \<leftarrow> aget (bndptr s) v;
     x \<leftarrow> aget (bndind s) (nbnd s);
     bi \<leftarrow> aset (bndind s) k x;
     y \<leftarrow> aget bi (nbnd s);
     k \<leftarrow> aget (bndptr s) v;
     bp \<leftarrow> aset (bndptr s) y k;
     bp \<leftarrow> aset bp v (- 1);
     Some (s\<lparr>bndind := bi, bndptr := bp\<rparr>) }"

section \<open>External degrees\<close>

text \<open>\<open>myedegrees[k]\<close>\<close>

definition slot :: "kstate \<Rightarrow> rinfo \<Rightarrow> int \<Rightarrow> edeg option" where
  "slot s r k = do { e \<leftarrow> edegrees r; aget (estore s) (e + k) }"

definition set_slot :: "kstate \<Rightarrow> rinfo \<Rightarrow> int \<Rightarrow> edeg \<Rightarrow> kstate option" where
  "set_slot s r k d = do { e \<leftarrow> edegrees r; es \<leftarrow> aset (estore s) (e + k) d; Some (s\<lparr>estore := es\<rparr>) }"

definition set_rinfo :: "kstate \<Rightarrow> int \<Rightarrow> rinfo \<Rightarrow> kstate option" where
  "set_rinfo s v r = do { rs \<leftarrow> aset (rinfos s) v r; Some (s\<lparr>rinfos := rs\<rparr>) }"

text \<open>\<open>if (myrinfo->edegrees == NULL)\<close>: the next free block, one slot for each edge.\<close>

definition take_block :: "mgraph \<Rightarrow> int \<Rightarrow> kstate \<Rightarrow> kstate option" where
  "take_block g v s = do {
     r \<leftarrow> aget (rinfos s) v;
     if edegrees r = None then do {
       a \<leftarrow> aget (xadj g) v; b \<leftarrow> aget (xadj g) (v + 1);
       s \<leftarrow> set_rinfo s v (r\<lparr>edegrees := Some (cdegree s)\<rparr>);
       Some (s\<lparr>cdegree := cdegree s + (b - a)\<rparr>) }
     else Some s }"

text \<open>The first slot of part \<open>q\<close>, or \<open>ndegrees\<close>.\<close>

definition find_part :: "kstate \<Rightarrow> rinfo \<Rightarrow> int \<Rightarrow> int option" where
  "find_part s r q = search 0 (ndegrees r) (\<lambda>k. do { d \<leftarrow> slot s r k; Some (fst d = q) })"

text \<open>\<open>myedegrees[k] = myedegrees[--myrinfo->ndegrees]\<close>\<close>

definition drop_slot_at :: "int \<Rightarrow> int \<Rightarrow> kstate \<Rightarrow> kstate option" where
  "drop_slot_at v k s = do {
     r \<leftarrow> aget (rinfos s) v;
     r \<leftarrow> Some (r\<lparr>ndegrees := ndegrees r - 1\<rparr>);
     s \<leftarrow> set_rinfo s v r;
     d \<leftarrow> slot s r (ndegrees r);
     set_slot s r k d }"

text \<open>Weight \<open>w\<close> added to the degree of \<open>v\<close> towards part \<open>q\<close>, or taken off it.\<close>

definition add_edeg :: "int \<Rightarrow> int \<Rightarrow> int \<Rightarrow> kstate \<Rightarrow> kstate option" where
  "add_edeg v q w s = do {
     r \<leftarrow> aget (rinfos s) v;
     k \<leftarrow> find_part s r q;
     if k = ndegrees r then do {
       s \<leftarrow> set_slot s r k (q, w);
       set_rinfo s v (r\<lparr>ndegrees := ndegrees r + 1\<rparr>) }
     else do { d \<leftarrow> slot s r k; set_slot s r k (fst d, snd d + w) } }"

definition sub_edeg :: "int \<Rightarrow> int \<Rightarrow> int \<Rightarrow> kstate \<Rightarrow> kstate option" where
  "sub_edeg v q w s = do {
     r \<leftarrow> aget (rinfos s) v;
     k \<leftarrow> find_part s r q;
     if k = ndegrees r then Some s
     else do {
       d \<leftarrow> slot s r k;
       if snd d = w then drop_slot_at v k s else set_slot s r k (fst d, snd d - w) } }"

section \<open>The initial parameters\<close>

definition init_vertex :: "mgraph \<Rightarrow> int \<Rightarrow> kstate \<times> int \<Rightarrow> (kstate \<times> int) option" where
  "init_vertex g i = (\<lambda>(s, cut). do {
     me \<leftarrow> aget (wher s) i;
     x \<leftarrow> aget (pwgts s) me; w \<leftarrow> nget (vwgt g) i; pw \<leftarrow> aset (pwgts s) me (x + w);
     a \<leftarrow> aget (xadj g) i; b \<leftarrow> aget (xadj g) (i + 1);
     ed \<leftarrow> for_loop a b (\<lambda>j ed. do {
       u \<leftarrow> aget (adjncy g) j; other \<leftarrow> aget (wher s) u;
       if me \<noteq> other then do { w \<leftarrow> nget (adjwgt g) j; Some (ed + w) } else Some ed }) 0;
     sum \<leftarrow> aget (adjwgtsum g) i;
     s \<leftarrow> set_rinfo (s\<lparr>pwgts := pw\<rparr>) i \<lparr>rid = sum - ed, red = ed, ndegrees = 0, edegrees = None\<rparr>;
     s \<leftarrow> (if ed - (sum - ed) \<ge> 0 then BNDInsert i s else Some s);
     s \<leftarrow> (if ed > 0 then do {
         s \<leftarrow> take_block g i s;
         for_loop a b (\<lambda>j s. do {
           u \<leftarrow> aget (adjncy g) j; other \<leftarrow> aget (wher s) u;
           if me \<noteq> other then do { w \<leftarrow> nget (adjwgt g) j; add_edeg i other w s } else Some s }) s }
       else Some s);
     Some (s, if ed > 0 then cut + ed else cut) })"

definition ComputeKWayPartitionParams :: "mgraph \<Rightarrow> int \<Rightarrow> kstate \<Rightarrow> kstate option" where
  "ComputeKWayPartitionParams g nparts s = do {
     pw \<leftarrow> idxset nparts 0 (pwgts s);
     bp \<leftarrow> idxset (nvtxs g) (- 1) (bndptr s);
     (s, cut) \<leftarrow> for_loop 0 (nvtxs g) (init_vertex g)
       (s\<lparr>pwgts := pw, bndptr := bp, cdegree := 0, nbnd := 0\<rparr>, 0);
     Some (s\<lparr>mincut := cut sdiv 2\<rparr>) }"

section \<open>The boundary\<close>

definition boundary_loop :: "mgraph \<Rightarrow> (rinfo \<Rightarrow> bool) \<Rightarrow> kstate \<Rightarrow> kstate option" where
  "boundary_loop g p s = do {
     bp \<leftarrow> idxset (nvtxs g) (- 1) (bndptr s);
     for_loop 0 (nvtxs g) (\<lambda>i s. do { r \<leftarrow> aget (rinfos s) i; if p r then BNDInsert i s else Some s })
       (s\<lparr>bndptr := bp, nbnd := 0\<rparr>) }"

definition ComputeKWayBoundary :: "mgraph \<Rightarrow> kstate \<Rightarrow> kstate option" where
  "ComputeKWayBoundary g = boundary_loop g (\<lambda>r. red r - rid r \<ge> 0)"

definition ComputeKWayBalanceBoundary :: "mgraph \<Rightarrow> kstate \<Rightarrow> kstate option" where
  "ComputeKWayBalanceBoundary g = boundary_loop g (\<lambda>r. red r > 0)"

section \<open>Projection\<close>

text \<open>The partition of the coarse graph carried to the fine one; \<open>cmap\<close> then holds the external
  degrees of the coarse vertices.\<close>

definition project_where :: "mgraph \<Rightarrow> kstate \<Rightarrow> int list \<Rightarrow> (int list \<times> int list) option" where
  "project_where g cs wh = for_loop 0 (nvtxs g) (\<lambda>i (wh, cm). do {
     k \<leftarrow> aget cm i;
     q \<leftarrow> aget (wher cs) k; wh \<leftarrow> aset wh i q;
     r \<leftarrow> aget (rinfos cs) k; cm \<leftarrow> aset cm i (red r);
     Some (wh, cm) }) (wh, cmap g)"

text \<open>One edge of an interface vertex. \<open>htable\<close> holds the slot of a part, \<open>ndegrees\<close> is still local.\<close>

definition project_edge ::
  "mgraph \<Rightarrow> int \<Rightarrow> int \<Rightarrow> int \<Rightarrow> kstate \<times> int list \<times> int \<times> int \<Rightarrow> (kstate \<times> int list \<times> int \<times> int) option" where
  "project_edge g i me j = (\<lambda>(s, htable, nd, ed). do {
     u \<leftarrow> aget (adjncy g) j; other \<leftarrow> aget (wher s) u;
     if me \<noteq> other then do {
       w \<leftarrow> nget (adjwgt g) j;
       r \<leftarrow> aget (rinfos s) i;
       k \<leftarrow> aget htable other;
       if k = - 1 then do {
         htable \<leftarrow> aset htable other nd;
         s \<leftarrow> set_slot s r nd (other, w);
         Some (s, htable, nd + 1, ed + w) }
       else do {
         d \<leftarrow> slot s r k;
         s \<leftarrow> set_slot s r k (fst d, snd d + w);
         Some (s, htable, nd, ed + w) } }
     else Some (s, htable, nd, ed) })"

definition project_vertex ::
  "mgraph \<Rightarrow> int list \<Rightarrow> int \<Rightarrow> kstate \<times> int list \<Rightarrow> (kstate \<times> int list) option" where
  "project_vertex g cm i = (\<lambda>(s, htable). do {
     me \<leftarrow> aget (wher s) i;
     sum \<leftarrow> aget (adjwgtsum g) i;
     s \<leftarrow> set_rinfo s i \<lparr>rid = sum, red = 0, ndegrees = 0, edegrees = None\<rparr>;
     c \<leftarrow> aget cm i;
     if c > 0 then do {
       istart \<leftarrow> aget (xadj g) i; iend \<leftarrow> aget (xadj g) (i + 1);
       s \<leftarrow> take_block g i s;
       (s, htable, nd, ed) \<leftarrow> for_loop istart iend (project_edge g i me) (s, htable, 0, 0);
       r \<leftarrow> aget (rinfos s) i;
       r \<leftarrow> Some (r\<lparr>red := ed, rid := sum - ed\<rparr>);
       if ed = 0 then do {
         s \<leftarrow> set_rinfo s i (r\<lparr>edegrees := None\<rparr>);
         Some (s\<lparr>cdegree := cdegree s - (iend - istart)\<rparr>, htable) }
       else do {
         s \<leftarrow> (if ed - (sum - ed) \<ge> 0 then BNDInsert i s else Some s);
         r \<leftarrow> Some (r\<lparr>ndegrees := nd\<rparr>);
         s \<leftarrow> set_rinfo s i r;
         htable \<leftarrow> for_loop 0 nd (\<lambda>j h. do { d \<leftarrow> slot s r j; aset h (fst d) (- 1) }) htable;
         Some (s, htable) } }
     else Some (s, htable) })"

text \<open>The result is the state for the fine graph and the new \<open>cmap\<close>; the coarse graph is freed.\<close>

definition ProjectKWayPartition ::
  "ctrl \<Rightarrow> mgraph \<Rightarrow> int \<Rightarrow> kstate \<Rightarrow> (kstate \<times> int list \<times> ctrl) option" where
  "ProjectKWayPartition c g nparts cs = do {
     s \<leftarrow> Some (AllocateKWayPartitionMemory c g nparts cs);
     bp \<leftarrow> idxset (nvtxs g) (- 1) (bndptr s);
     (wh, cm) \<leftarrow> project_where g cs (wher s);
     (htable, c) \<leftarrow> idxwspacemalloc c nparts;
     htable \<leftarrow> idxset nparts (- 1) htable;
     (s, htable) \<leftarrow> for_loop 0 (nvtxs g) (project_vertex g cm)
       (s\<lparr>bndptr := bp, wher := wh, cdegree := 0, nbnd := 0\<rparr>, htable);
     pw \<leftarrow> for_loop 0 nparts (\<lambda>k pw. do { x \<leftarrow> aget (pwgts cs) k; aset pw k x }) (pwgts s);
     c \<leftarrow> idxwspacefree c nparts;
     Some (s\<lparr>pwgts := pw, mincut := mincut cs\<rparr>, cm, c) }"

end
