(* ===== verification/Mt_Kway_State.thy ===== *)
theory Mt_Kway_State
  imports Mt_Kway
begin

text \<open>
  The operations on the refinement state, one at a time: the boundary list without repetitions, the
  blocks of external degrees that lie apart in the store, and the slots in a block as an association
  list. Each lemma says what an operation does to the vertex it is called on, and that it leaves the
  other vertices alone (\<open>vertex_step\<close>, \<open>bnd_step\<close>).
\<close>

section \<open>Boundary lists\<close>

text \<open>\<open>bndind\<close> lists the vertices of the boundary without repetition, \<open>bndptr\<close> holds their places in it.\<close>

definition on_bnd :: "kstate \<Rightarrow> int \<Rightarrow> bool" where
  "on_bnd s v \<longleftrightarrow> at (bndptr s) v \<noteq> - 1"

definition bnd_ok :: "int \<Rightarrow> kstate \<Rightarrow> bool" where
  "bnd_ok n s \<longleftrightarrow> ilen (bndptr s) = n \<and> ilen (bndind s) = n \<and> 0 \<le> nbnd s \<and> nbnd s \<le> n
    \<and> (\<forall>k. 0 \<le> k \<and> k < nbnd s \<longrightarrow> 0 \<le> at (bndind s) k \<and> at (bndind s) k < n \<and> at (bndptr s) (at (bndind s) k) = k)
    \<and> (\<forall>v. 0 \<le> v \<and> v < n \<and> on_bnd s v \<longrightarrow>
         0 \<le> at (bndptr s) v \<and> at (bndptr s) v < nbnd s \<and> at (bndind s) (at (bndptr s) v) = v)"

text \<open>Only the boundary changes.\<close>

definition bnd_step :: "kstate \<Rightarrow> kstate \<Rightarrow> bool" where
  "bnd_step s s' \<longleftrightarrow> s' = s\<lparr>bndptr := bndptr s', bndind := bndind s', nbnd := nbnd s'\<rparr>"

lemma bnd_step_refl [simp]: "bnd_step s s"
  by (simp add: bnd_step_def)

lemma bnd_stepD:
  assumes "bnd_step s s'"
  shows "wher s' = wher s" "pwgts s' = pwgts s" "mincut s' = mincut s" "rinfos s' = rinfos s"
    "estore s' = estore s" "cdegree s' = cdegree s"
  using assms by (metis bnd_step_def kstate.select_convs kstate.surjective kstate.update_convs(3,4,5))+

lemma bnd_okD:
  assumes "bnd_ok n s"
  shows "ilen (bndptr s) = n" "ilen (bndind s) = n" "0 \<le> nbnd s" "nbnd s \<le> n"
    "0 \<le> k \<Longrightarrow> k < nbnd s \<Longrightarrow> 0 \<le> at (bndind s) k" "0 \<le> k \<Longrightarrow> k < nbnd s \<Longrightarrow> at (bndind s) k < n"
    "0 \<le> k \<Longrightarrow> k < nbnd s \<Longrightarrow> at (bndptr s) (at (bndind s) k) = k"
    "0 \<le> v \<Longrightarrow> v < n \<Longrightarrow> on_bnd s v \<Longrightarrow> 0 \<le> at (bndptr s) v"
    "0 \<le> v \<Longrightarrow> v < n \<Longrightarrow> on_bnd s v \<Longrightarrow> at (bndptr s) v < nbnd s"
    "0 \<le> v \<Longrightarrow> v < n \<Longrightarrow> on_bnd s v \<Longrightarrow> at (bndind s) (at (bndptr s) v) = v"
  using assms by (auto simp: bnd_ok_def)

lemma bnd_ok_listed:
  assumes "bnd_ok n s" "0 \<le> k" "k < nbnd s"
  shows "on_bnd s (at (bndind s) k)"
  using bnd_okD(7) [OF assms] assms(2) by (simp add: on_bnd_def)

lemma bnd_room:
  assumes s: "bnd_ok n s" and v: "0 \<le> v" "v < n" "\<not> on_bnd s v"
  shows "nbnd s < n"
proof -
  have inj: "inj_on (at (bndind s)) {0..<nbnd s}"
    by (rule inj_onI) (use bnd_okD(7) [OF s] in \<open>metis atLeastLessThan_iff\<close>)
  have "at (bndind s) ` {0..<nbnd s} \<subseteq> {0..<n} - {v}"
    using bnd_okD(5,6) [OF s] bnd_ok_listed [OF s] v(3) by fastforce
  from card_mono [OF _ this] have "nat (nbnd s) \<le> card ({0..<n} - {v})"
    by (simp add: card_image [OF inj])
  with v show ?thesis by simp
qed

lemma BNDInsert_ok:
  assumes s: "bnd_ok n s" and v: "0 \<le> v" "v < n" "\<not> on_bnd s v"
  shows "\<exists>s'. BNDInsert v s = Some s' \<and> bnd_step s s' \<and> bnd_ok n s' \<and> (\<forall>u. 0 \<le> u \<longrightarrow> on_bnd s' u = (on_bnd s u \<or> u = v))"
proof -
  note d = bnd_okD [OF s] and room = bnd_room [OF s v]
  let ?s = "s\<lparr>bndind := upd (bndind s) (nbnd s) v, bndptr := upd (bndptr s) v (nbnd s), nbnd := nbnd s + 1\<rparr>"
  have on: "on_bnd ?s u = (on_bnd s u \<or> u = v)" if "0 \<le> u" for u
    using that v d(1,3) by (auto simp: on_bnd_def)
  have "BNDInsert v s = Some ?s" using d(1-4) room v by (simp add: BNDInsert_def arr)
  moreover have "bnd_ok n ?s"
    unfolding bnd_ok_def
  proof (intro conjI allI impI; (elim conjE)?)
    fix k assume k: "0 \<le> k" "k < nbnd ?s"
    have ne: "k < nbnd s \<Longrightarrow> at (bndind s) k \<noteq> v" using bnd_ok_listed [OF s k(1)] v(3) by auto
    show "0 \<le> at (bndind ?s) k" "at (bndind ?s) k < n" "at (bndptr ?s) (at (bndind ?s) k) = k"
      using k d(1-4) d(5-7) [of k] v room ne by auto
  next
    fix u assume u: "0 \<le> u" "u < n" "on_bnd ?s u"
    then have "u \<noteq> v \<Longrightarrow> on_bnd s u" using on by simp
    then show "0 \<le> at (bndptr ?s) u" "at (bndptr ?s) u < nbnd ?s" "at (bndind ?s) (at (bndptr ?s) u) = u"
      using u d(1-4) d(8-10) [of u] v room by fastforce+
  qed (use d(1-4) room in auto)
  moreover have "bnd_step s ?s" by (simp add: bnd_step_def)
  ultimately show ?thesis using on by (intro exI [of _ ?s]) simp
qed

lemma BNDDelete_ok:
  assumes s: "bnd_ok n s" and v: "0 \<le> v" "v < n" "on_bnd s v"
  shows "\<exists>s'. BNDDelete v s = Some s' \<and> bnd_step s s' \<and> bnd_ok n s' \<and> (\<forall>u. 0 \<le> u \<and> u < n \<longrightarrow> on_bnd s' u = (on_bnd s u \<and> u \<noteq> v))"
proof -
  note d = bnd_okD [OF s]
  define k m where "k = at (bndptr s) v" and "m = nbnd s - 1"
  define x where "x = at (bndind s) m"
  have k: "0 \<le> k" "k \<le> m" "at (bndind s) k = v" using d(8-10) [OF v] by (auto simp: k_def m_def)
  then have m: "0 \<le> m" "m < n" "m < nbnd s" using d(4) by (auto simp: m_def)
  then have x: "0 \<le> x" "x < n" "at (bndptr s) x = m" using d(5-7) [of m] by (auto simp: x_def m_def)
  let ?s = "s\<lparr>nbnd := m, bndind := upd (bndind s) k x, bndptr := upd (upd (bndptr s) x k) v (- 1)\<rparr>"
  have "BNDDelete v s = Some ?s"
    using d(1,2) k m x v by (simp add: BNDDelete_def arr flip: k_def m_def x_def)
  moreover have on: "on_bnd ?s u = (on_bnd s u \<and> u \<noteq> v)" if "0 \<le> u" "u < n" for u
    using that v d(1) x k m by (auto simp: on_bnd_def)
  moreover have "bnd_ok n ?s"
    unfolding bnd_ok_def
  proof (intro conjI allI impI; (elim conjE)?)
    fix i assume i: "0 \<le> i" "i < nbnd ?s"
    let ?y = "at (bndind s) i"
    have im: "i < m" "i < nbnd s" using i m by auto
    have y: "0 \<le> ?y" "?y < n" "at (bndptr s) ?y = i" using d(5-7) [OF i(1) im(2)] by auto
    have new: "at (bndind ?s) i = (if i = k then x else ?y)" using i k m d(2) by simp
    have "x = v \<Longrightarrow> k = m" using x(3) by (simp add: k_def)
    then have xv: "i = k \<Longrightarrow> x \<noteq> v" using im(1) by auto
    have yv: "i \<noteq> k \<Longrightarrow> ?y \<noteq> v" using y(3) by (auto simp: k_def)
    have yx: "?y \<noteq> x" using y(3) x(3) im(1) by auto
    have ptr: "at (bndptr ?s) u = (if u = v then - 1 else if u = x then k else at (bndptr s) u)" if "0 \<le> u" for u
      using that v(1,2) x(1,2) d(1) by simp
    show "0 \<le> at (bndind ?s) i" "at (bndind ?s) i < n" using new x(1,2) y(1,2) by auto
    show "at (bndptr ?s) (at (bndind ?s) i) = i"
      unfolding new using ptr [OF x(1)] ptr [OF y(1)] xv yv yx y(3) by (cases "i = k") auto
  next
    fix u assume u: "0 \<le> u" "u < n" "on_bnd ?s u"
    then have o: "on_bnd s u" "u \<noteq> v" using on by auto
    note du = d(8-10) [OF u(1,2) o(1)]
    have ptr: "at (bndptr ?s) u = (if u = x then k else at (bndptr s) u)"
      using u(1) o(2) v(1,2) x(1,2) d(1) by simp
    have ind: "at (bndind ?s) j = (if j = k then x else at (bndind s) j)" if "0 \<le> j" for j
      using that k m d(2) by simp
    have um: "u \<noteq> x \<Longrightarrow> at (bndptr s) u \<noteq> m" using du(3) by (auto simp: x_def)
    have uk: "at (bndptr s) u \<noteq> k" using du(3) k(3) o(2) by auto
    have xk: "u = x \<Longrightarrow> k < m" using x(3) uk k(2) by force
    show "0 \<le> at (bndptr ?s) u" unfolding ptr using du(1) k(1) by simp
    show "at (bndptr ?s) u < nbnd ?s" unfolding ptr using du(2) um xk by (auto simp: m_def)
    show "at (bndind ?s) (at (bndptr ?s) u) = u"
      unfolding ptr using ind [OF k(1)] ind [OF du(1)] uk du(3) by (cases "u = x") auto
  qed (use d(1-4) m in auto)
  moreover have "bnd_step s ?s" by (simp add: bnd_step_def)
  ultimately show ?thesis by (intro exI [of _ ?s]) simp
qed

section \<open>Blocks of external degrees\<close>

definition block :: "edeg list \<Rightarrow> int \<Rightarrow> int \<Rightarrow> edeg list" where
  "block es e n = map (\<lambda>k. at es (e + k)) [0..n - 1]"

lemma ilen_block [simp]: "0 \<le> n \<Longrightarrow> ilen (block es e n) = n"
  by (simp add: block_def ilen_def)

lemma at_block: "0 \<le> k \<Longrightarrow> k < n \<Longrightarrow> at (block es e n) k = at es (e + k)"
  by (simp add: block_def at_def)

lemma block_snoc: "0 \<le> n \<Longrightarrow> block es e (n + 1) = block es e n @ [at es (e + n)]"
  by (simp add: block_def upto_rec2 [of 0 n])

lemma block_0 [simp]: "block es e 0 = []"
  by (simp add: block_def)

lemma block_cong:
  "(\<And>k. 0 \<le> k \<Longrightarrow> k < n \<Longrightarrow> at es (e + k) = at es' (e + k)) \<Longrightarrow> block es e n = block es' e n"
  by (simp add: block_def)

lemma block_upd:
  assumes "0 \<le> e" "0 \<le> k" "k < n" "e + n \<le> ilen es"
  shows "block (upd es (e + k) d) e n = upd (block es e n) k d"
proof (rule at_eqI)
  fix i assume "0 \<le> i" "i < ilen (block (upd es (e + k) d) e n)"
  with assms show "at (block (upd es (e + k) d) e n) i = at (upd (block es e n) k d) i"
    by (simp add: at_block)
qed (use assms in \<open>simp add: block_def\<close>)

lemma block_upd_beyond: "0 \<le> e \<Longrightarrow> n \<le> k \<Longrightarrow> e + k < ilen es \<Longrightarrow> block (upd es (e + k) d) e n = block es e n"
  by (rule block_cong) simp

text \<open>The slots of a vertex.\<close>

definition slots_of :: "edeg list \<Rightarrow> rinfo \<Rightarrow> edeg list" where
  "slots_of es r = (case edegrees r of None \<Rightarrow> [] | Some e \<Rightarrow> block es e (ndegrees r))"

definition slots :: "kstate \<Rightarrow> int \<Rightarrow> edeg list" where
  "slots s v = slots_of (estore s) (at (rinfos s) v)"

text \<open>The blocks of the vertices in \<open>A\<close> lie apart from each other, and the rest of the store has
  room for all that have none yet.\<close>

definition has_block :: "mgraph \<Rightarrow> kstate \<Rightarrow> int \<Rightarrow> int \<Rightarrow> bool" where
  "has_block g s v e \<longleftrightarrow> edegrees (at (rinfos s) v) = Some e \<and> 0 \<le> e \<and> e + deg g v \<le> cdegree s
     \<and> 0 \<le> ndegrees (at (rinfos s) v) \<and> ndegrees (at (rinfos s) v) \<le> deg g v"

definition no_block :: "kstate \<Rightarrow> int \<Rightarrow> bool" where
  "no_block s v \<longleftrightarrow> edegrees (at (rinfos s) v) = None"

definition apart :: "mgraph \<Rightarrow> kstate \<Rightarrow> int \<Rightarrow> int \<Rightarrow> bool" where
  "apart g s u v \<longleftrightarrow> (\<forall>e f. edegrees (at (rinfos s) u) = Some e \<and> edegrees (at (rinfos s) v) = Some f
     \<longrightarrow> e + deg g u \<le> f \<or> f + deg g v \<le> e)"

definition waiting :: "mgraph \<Rightarrow> int set \<Rightarrow> kstate \<Rightarrow> int" where
  "waiting g A s = (\<Sum>v = 0..<nvtxs g. if v \<in> A \<and> \<not> no_block s v then 0 else deg g v)"

definition blocks_ok :: "mgraph \<Rightarrow> int set \<Rightarrow> kstate \<Rightarrow> bool" where
  "blocks_ok g A s \<longleftrightarrow> ilen (rinfos s) = nvtxs g \<and> 0 \<le> cdegree s
     \<and> (\<forall>v \<in> A. 0 \<le> v \<and> v < nvtxs g)
     \<and> (\<forall>v \<in> A. no_block s v \<and> ndegrees (at (rinfos s) v) = 0 \<or> (\<exists>e. has_block g s v e))
     \<and> (\<forall>u \<in> A. \<forall>v \<in> A. u \<noteq> v \<longrightarrow> apart g s u v)
     \<and> cdegree s + waiting g A s \<le> ilen (estore s)"

text \<open>Only the degrees of \<open>v\<close> change.\<close>

definition vertex_step :: "mgraph \<Rightarrow> int \<Rightarrow> kstate \<Rightarrow> kstate \<Rightarrow> bool" where
  "vertex_step g v s s' \<longleftrightarrow> s' = s\<lparr>rinfos := rinfos s', estore := estore s', cdegree := cdegree s'\<rparr>
     \<and> ilen (rinfos s') = ilen (rinfos s) \<and> ilen (estore s') = ilen (estore s)
     \<and> (\<forall>u. 0 \<le> u \<and> u \<noteq> v \<longrightarrow> at (rinfos s') u = at (rinfos s) u)
     \<and> (\<forall>e. edegrees (at (rinfos s) v) = Some e \<longrightarrow> edegrees (at (rinfos s') v) = Some e)
     \<and> (\<forall>k. 0 \<le> k \<and> at (estore s') k \<noteq> at (estore s) k \<longrightarrow>
          (\<exists>e. edegrees (at (rinfos s') v) = Some e \<and> e \<le> k \<and> k < e + deg g v))"

lemma vertex_stepD:
  assumes "vertex_step g v s s'"
  shows "wher s' = wher s" "pwgts s' = pwgts s" "mincut s' = mincut s" "bndptr s' = bndptr s"
    "bndind s' = bndind s" "nbnd s' = nbnd s" "ilen (rinfos s') = ilen (rinfos s)" "ilen (estore s') = ilen (estore s)"
    "0 \<le> u \<Longrightarrow> u \<noteq> v \<Longrightarrow> at (rinfos s') u = at (rinfos s) u"
proof -
  have s': "s' = s\<lparr>rinfos := rinfos s', estore := estore s', cdegree := cdegree s'\<rparr>"
    using assms by (simp add: vertex_step_def)
  show "wher s' = wher s" by (subst s') simp
  show "pwgts s' = pwgts s" by (subst s') simp
  show "mincut s' = mincut s" by (subst s') simp
  show "bndptr s' = bndptr s" by (subst s') simp
  show "bndind s' = bndind s" by (subst s') simp
  show "nbnd s' = nbnd s" by (subst s') simp
qed (use assms in \<open>auto simp: vertex_step_def\<close>)

lemma vertex_step_refl [simp]: "vertex_step g v s s"
  by (simp add: vertex_step_def)

lemma vertex_step_trans:
  assumes "vertex_step g v s t" "vertex_step g v t u"
  shows "vertex_step g v s u"
proof -
  have "u = s\<lparr>rinfos := rinfos u, estore := estore u, cdegree := cdegree u\<rparr>"
    by (rule kstate.equality) (simp_all add: vertex_stepD(1-6) [OF assms(1)] vertex_stepD(1-6) [OF assms(2)])
  moreover have "\<exists>e. edegrees (at (rinfos u) v) = Some e \<and> e \<le> k \<and> k < e + deg g v"
    if "0 \<le> k" "at (estore u) k \<noteq> at (estore s) k" for k
  proof (cases "at (estore u) k = at (estore t) k")
    case True
    with that assms(1) obtain e where "edegrees (at (rinfos t) v) = Some e \<and> e \<le> k \<and> k < e + deg g v"
      unfolding vertex_step_def by metis
    with assms(2) show ?thesis unfolding vertex_step_def by metis
  next
    case False
    with that assms(2) show ?thesis unfolding vertex_step_def by metis
  qed
  ultimately show ?thesis using assms unfolding vertex_step_def by auto
qed

lemma bnd_step_slots: "bnd_step s s' \<Longrightarrow> slots s' v = slots s v"
  by (simp add: slots_def bnd_stepD)

lemma blocks_ok_cong:
  "rinfos s' = rinfos s \<Longrightarrow> estore s' = estore s \<Longrightarrow> cdegree s' = cdegree s \<Longrightarrow> blocks_ok g A s' = blocks_ok g A s"
  by (simp add: blocks_ok_def waiting_def no_block_def has_block_def apart_def)

lemma slots_cong: "rinfos s' = rinfos s \<Longrightarrow> estore s' = estore s \<Longrightarrow> slots s' v = slots s v"
  by (simp add: slots_def)

lemma bnd_step_blocks: "bnd_step s s' \<Longrightarrow> blocks_ok g A s' = blocks_ok g A s"
  by (rule blocks_ok_cong) (simp_all add: bnd_stepD)

text \<open>The other vertices keep their slots.\<close>

lemma vertex_step_slots:
  assumes st: "vertex_step g v s s'" and b: "blocks_ok g A s'" and uv: "u \<in> A" "v \<in> A" "u \<noteq> v"
  shows "slots s' u = slots s u"
proof -
  have u: "0 \<le> u" using b uv(1) by (simp add: blocks_ok_def)
  have r: "at (rinfos s') u = at (rinfos s) u" using vertex_stepD(9) [OF st u uv(3)] .
  show ?thesis
  proof (cases "edegrees (at (rinfos s) u)")
    case None
    then show ?thesis by (simp add: slots_def slots_of_def r)
  next
    case (Some e)
    then have he: "has_block g s' u e" using b uv(1) r by (auto simp: blocks_ok_def no_block_def has_block_def)
    have ap: "apart g s' u v" using b uv by (simp add: blocks_ok_def)
    have "at (estore s') (e + k) = at (estore s) (e + k)" if k: "0 \<le> k" "k < ndegrees (at (rinfos s) u)" for k
    proof (rule ccontr)
      assume "at (estore s') (e + k) \<noteq> at (estore s) (e + k)"
      moreover have "0 \<le> e + k" using he k by (simp add: has_block_def)
      ultimately obtain f where "edegrees (at (rinfos s') v) = Some f" "f \<le> e + k" "e + k < f + deg g v"
        using st unfolding vertex_step_def by metis
      with ap he k r show False by (auto simp: apart_def has_block_def)
    qed
    then show ?thesis by (simp add: slots_def slots_of_def r Some cong: block_cong)
  qed
qed

lemma blocks_block:
  assumes "blocks_ok g A s" "v \<in> A" "edegrees (at (rinfos s) v) = Some e" "csr g"
  shows "0 \<le> e" "e + deg g v \<le> cdegree s" "cdegree s \<le> ilen (estore s)" "0 \<le> ndegrees (at (rinfos s) v)"
    "ndegrees (at (rinfos s) v) \<le> deg g v" "0 \<le> v" "v < nvtxs g"
proof -
  have "has_block g s v e" using assms(1-3) by (auto simp: blocks_ok_def no_block_def has_block_def)
  then show "0 \<le> e" "e + deg g v \<le> cdegree s" "0 \<le> ndegrees (at (rinfos s) v)"
    "ndegrees (at (rinfos s) v) \<le> deg g v" by (auto simp: has_block_def)
  have "0 \<le> waiting g A s" unfolding waiting_def by (rule sum_nonneg) (simp add: deg_nonneg [OF assms(4)])
  then show "cdegree s \<le> ilen (estore s)" using assms(1) by (auto simp: blocks_ok_def)
  show "0 \<le> v" "v < nvtxs g" using assms(1,2) by (auto simp: blocks_ok_def)
qed

text \<open>A change of \<open>v\<close> that leaves its block where it is keeps the blocks apart.\<close>

lemma blocks_same_place:
  assumes st: "vertex_step g v s s'" and b: "blocks_ok g A s" and v: "v \<in> A"
    and r: "edegrees (at (rinfos s') v) = edegrees (at (rinfos s) v)" "cdegree s' = cdegree s"
    and n: "edegrees (at (rinfos s) v) = None \<Longrightarrow> ndegrees (at (rinfos s') v) = 0"
      "edegrees (at (rinfos s) v) \<noteq> None \<Longrightarrow> 0 \<le> ndegrees (at (rinfos s') v) \<and> ndegrees (at (rinfos s') v) \<le> deg g v"
  shows "blocks_ok g A s'"
proof -
  have e: "edegrees (at (rinfos s') u) = edegrees (at (rinfos s) u)" if "0 \<le> u" for u
    using vertex_stepD(9) [OF st that] r(1) by (cases "u = v") auto
  have w: "waiting g A s' = waiting g A s"
    unfolding waiting_def by (rule sum.cong) (auto simp: no_block_def e)
  have pos: "\<And>u. u \<in> A \<Longrightarrow> 0 \<le> u" using b by (simp add: blocks_ok_def)
  have 1: "no_block s' u \<and> ndegrees (at (rinfos s') u) = 0 \<or> (\<exists>f. has_block g s' u f)" if u: "u \<in> A" for u
  proof (cases "u = v")
    case True
    have "no_block s v \<and> ndegrees (at (rinfos s) v) = 0 \<or> (\<exists>e. has_block g s v e)"
      using b v by (simp add: blocks_ok_def)
    with True n r show ?thesis by (auto simp: no_block_def has_block_def)
  next
    case False
    have "no_block s u \<and> ndegrees (at (rinfos s) u) = 0 \<or> (\<exists>e. has_block g s u e)"
      using b u by (simp add: blocks_ok_def)
    with False r(2) vertex_stepD(9) [OF st pos [OF u] False] show ?thesis
      by (simp add: no_block_def has_block_def)
  qed
  have 2: "apart g s' u w" if "u \<in> A" "w \<in> A" "u \<noteq> w" for u w
    using b that by (simp add: blocks_ok_def apart_def e pos)
  show ?thesis
    using b 1 2 w r(2) vertex_stepD(7,8) [OF st] by (simp add: blocks_ok_def)
qed

lemma vertex_stepI:
  assumes "0 \<le> v" "v < ilen (rinfos s)"
    and "\<And>e. edegrees (at (rinfos s) v) = Some e \<Longrightarrow> edegrees r = Some e"
    and "ilen es = ilen (estore s)"
    and "\<And>k. 0 \<le> k \<Longrightarrow> at es k \<noteq> at (estore s) k \<Longrightarrow> \<exists>e. edegrees r = Some e \<and> e \<le> k \<and> k < e + deg g v"
  shows "vertex_step g v s (s\<lparr>rinfos := upd (rinfos s) v r, estore := es, cdegree := c\<rparr>)"
  using assms by (auto simp: vertex_step_def)

lemma blocks_vertex:
  assumes "blocks_ok g A s" "v \<in> A"
  shows "0 \<le> v" "v < nvtxs g" "v < ilen (rinfos s)" "ilen (slots s v) = ndegrees (at (rinfos s) v)"
    "0 \<le> ndegrees (at (rinfos s) v)"
    "edegrees (at (rinfos s) v) = None \<Longrightarrow> ndegrees (at (rinfos s) v) = 0"
    "edegrees (at (rinfos s) v) \<noteq> None \<Longrightarrow> ndegrees (at (rinfos s) v) \<le> deg g v"
  using assms by (auto simp: blocks_ok_def no_block_def has_block_def slots_def slots_of_def split: option.splits)

text \<open>The effects of the operations on \<open>v\<close>: a step at \<open>v\<close> that keeps the blocks.\<close>

definition local_ok :: "mgraph \<Rightarrow> int set \<Rightarrow> int \<Rightarrow> kstate \<Rightarrow> kstate \<Rightarrow> bool" where
  "local_ok g A v s s' \<longleftrightarrow> vertex_step g v s s' \<and> blocks_ok g A s'"

lemma local_ok_trans: "local_ok g A v s t \<Longrightarrow> local_ok g A v t u \<Longrightarrow> local_ok g A v s u"
  by (auto simp: local_ok_def elim: vertex_step_trans)

lemma local_okI:
  assumes b: "blocks_ok g A s" and v: "v \<in> A" and e: "edegrees r = edegrees (at (rinfos s) v)"
    and n: "edegrees r = None \<Longrightarrow> ndegrees r = 0" "edegrees r \<noteq> None \<Longrightarrow> 0 \<le> ndegrees r \<and> ndegrees r \<le> deg g v"
    and es: "ilen es = ilen (estore s)"
      "\<And>k. 0 \<le> k \<Longrightarrow> at es k \<noteq> at (estore s) k \<Longrightarrow> \<exists>e. edegrees r = Some e \<and> e \<le> k \<and> k < e + deg g v"
  shows "local_ok g A v s (s\<lparr>rinfos := upd (rinfos s) v r, estore := es\<rparr>)"
proof -
  note l = blocks_vertex(1,3) [OF b v]
  let ?s = "s\<lparr>rinfos := upd (rinfos s) v r, estore := es\<rparr>"
  have "vertex_step g v s (s\<lparr>rinfos := upd (rinfos s) v r, estore := es, cdegree := cdegree s\<rparr>)"
    by (rule vertex_stepI [OF l]) (use e es in auto)
  then have st: "vertex_step g v s ?s" by simp
  moreover have "blocks_ok g A ?s"
    by (rule blocks_same_place [OF st b v]) (use l e n in simp_all)
  ultimately show ?thesis by (simp add: local_ok_def)
qed

lemma set_degs_ok:
  assumes b: "blocks_ok g A s" and v: "v \<in> A" and r: "r = (at (rinfos s) v)\<lparr>rid := x, red := y\<rparr>"
  shows "\<exists>s'. set_rinfo s v r = Some s' \<and> local_ok g A v s s' \<and> slots s' v = slots s v \<and> at (rinfos s') v = r"
proof -
  note l = blocks_vertex [OF b v]
  let ?s = "s\<lparr>rinfos := upd (rinfos s) v r, estore := estore s\<rparr>"
  have "local_ok g A v s ?s" by (rule local_okI [OF b v]) (use l r in auto)
  then show ?thesis
    using l(1,3) r by (intro exI [of _ ?s]) (simp add: set_rinfo_def arr slots_def slots_of_def split: option.split)
qed

lemma waiting_block:
  assumes "v \<in> A" "0 \<le> v" "v < nvtxs g" "no_block s v" "\<not> no_block s' v"
    and "\<And>u. 0 \<le> u \<Longrightarrow> u \<noteq> v \<Longrightarrow> no_block s' u = no_block s u"
  shows "waiting g A s' = waiting g A s - deg g v"
proof -
  have "waiting g A s = (\<Sum>u = 0..<nvtxs g. (if u \<in> A \<and> \<not> no_block s' u then 0 else deg g u) + (if u = v then deg g v else 0))"
    unfolding waiting_def by (rule sum.cong) (use assms in auto)
  then show ?thesis using assms(2,3) by (simp add: sum.distrib waiting_def)
qed

lemma take_block_ok:
  assumes b: "blocks_ok g A s" and g: "csr g" and v: "v \<in> A"
  shows "\<exists>s' e. take_block g v s = Some s' \<and> local_ok g A v s s' \<and> slots s' v = slots s v
    \<and> at (rinfos s') v = (at (rinfos s) v)\<lparr>edegrees := Some e\<rparr>"
proof (cases "edegrees (at (rinfos s) v)")
  case (Some e)
  then show ?thesis using b v blocks_vertex [OF b v]
    by (intro exI [of _ s] exI [of _ e]) (simp add: take_block_def arr local_ok_def)
next
  case None
  note l = blocks_vertex [OF b v]
  let ?r = "(at (rinfos s) v)\<lparr>edegrees := Some (cdegree s)\<rparr>"
  let ?s = "s\<lparr>rinfos := upd (rinfos s) v ?r, cdegree := cdegree s + deg g v\<rparr>"
  have "take_block g v s = Some ?s"
    using l None csrD(2) [OF g] by (simp add: take_block_def set_rinfo_def arr deg_def)
  moreover have st: "vertex_step g v s ?s"
    using vertex_stepI [OF l(1,3), of ?r "estore s" g "cdegree s + deg g v"] None by simp
  moreover have "blocks_ok g A ?s"
  proof -
    have d: "0 \<le> deg g v" using deg_nonneg [OF g l(1,2)] .
    have pos: "\<And>u. u \<in> A \<Longrightarrow> 0 \<le> u" using b by (simp add: blocks_ok_def)
    have c: "0 \<le> cdegree s" using b by (simp add: blocks_ok_def)
    have r: "at (rinfos ?s) u = (if u = v then ?r else at (rinfos s) u)" if "0 \<le> u" for u
      using that l by simp
    have below: "f + deg g u \<le> cdegree s" if "u \<in> A" "edegrees (at (rinfos s) u) = Some f" for u f
      using blocks_block(2) [OF b that g] .
    have w: "waiting g A ?s = waiting g A s - deg g v"
      by (rule waiting_block [OF v l(1,2)]) (use None r l(1) in \<open>auto simp: no_block_def\<close>)
    have 1: "no_block ?s u \<and> ndegrees (at (rinfos ?s) u) = 0 \<or> (\<exists>e. has_block g ?s u e)" if u: "u \<in> A" for u
    proof (cases "u = v")
      case True
      have "has_block g ?s v (cdegree s)" using l None r d c by (simp add: has_block_def)
      with True show ?thesis by blast
    next
      case False
      have "no_block s u \<and> ndegrees (at (rinfos s) u) = 0 \<or> (\<exists>e. has_block g s u e)"
        using b u by (simp add: blocks_ok_def)
      with False r pos [OF u] d show ?thesis by (fastforce simp: no_block_def has_block_def)
    qed
    have 2: "apart g ?s u w" if "u \<in> A" "w \<in> A" "u \<noteq> w" for u w
    proof -
      have "apart g s u w" using b that by (simp add: blocks_ok_def)
      then show ?thesis
        using that below r pos [OF that(1)] pos [OF that(2)] by (auto simp: apart_def)
    qed
    show ?thesis using b 1 2 w d c by (simp add: blocks_ok_def)
  qed
  ultimately show ?thesis
    using l None by (intro exI [of _ ?s] exI [of _ "cdegree s"]) (simp add: local_ok_def slots_def slots_of_def)
qed

text \<open>Reading a slot, and the search for a part.\<close>

lemma slot_at:
  assumes "blocks_ok g A s" "v \<in> A" "0 \<le> k" "k < ndegrees (at (rinfos s) v)" "csr g"
  shows "slot s (at (rinfos s) v) k = Some (at (slots s v) k)"
proof -
  obtain e where e: "edegrees (at (rinfos s) v) = Some e"
    using blocks_vertex(6) [OF assms(1,2)] assms(3,4) by (cases "edegrees (at (rinfos s) v)") auto
  note d = blocks_block [OF assms(1,2) e assms(5)]
  show ?thesis using d assms(3,4) by (simp add: slot_def e arr slots_def slots_of_def at_block)
qed

lemma find_part_ok:
  assumes b: "blocks_ok g A s" and v: "v \<in> A" and g: "csr g"
  shows "\<exists>k. find_part s (at (rinfos s) v) q = Some k \<and> 0 \<le> k \<and> k \<le> ndegrees (at (rinfos s) v)
    \<and> (k = ndegrees (at (rinfos s) v) \<longrightarrow> q \<notin> fst ` set (slots s v))
    \<and> (k < ndegrees (at (rinfos s) v) \<longrightarrow> fst (at (slots s v) k) = q)"
proof -
  let ?r = "at (rinfos s) v"
  note l = blocks_vertex [OF b v]
  obtain k where k: "search 0 (ndegrees ?r) (\<lambda>k. do { d \<leftarrow> slot s ?r k; Some (fst d = q) }) = Some k"
    "0 \<le> k" "k \<le> ndegrees ?r" "\<And>i. 0 \<le> i \<Longrightarrow> i < k \<Longrightarrow> fst (at (slots s v) i) \<noteq> q"
    "k < ndegrees ?r \<Longrightarrow> fst (at (slots s v) k) = q"
    by (rule searchE [of 0 "ndegrees ?r" "\<lambda>k. do { d \<leftarrow> slot s ?r k; Some (fst d = q) }"
          "\<lambda>k. fst (at (slots s v) k) = q"])
      (use l(5) slot_at [OF b v _ _ g] in auto)
  have "q \<notin> fst ` set (slots s v)" if "k = ndegrees ?r"
  proof
    assume "q \<in> fst ` set (slots s v)"
    then obtain i where "0 \<le> i" "i < ilen (slots s v)" "q = fst (at (slots s v) i)"
      unfolding set_at image_image by auto
    with k(4) [of i] that l(4) show False by simp
  qed
  with k show ?thesis by (intro exI [of _ k]) (simp add: find_part_def)
qed

text \<open>The reference operations on the slots.\<close>

definition row_sub :: "int \<Rightarrow> int \<Rightarrow> (int \<times> int) list \<Rightarrow> (int \<times> int) list" where
  "row_sub q w al = (if q \<notin> fst ` set al then al else if row_get q al = w then row_del q al else row_add q (- w) al)"

lemma row_add_at:
  assumes "distinct (map fst al)" "0 \<le> m" "m < ilen al" "fst (at al m) = q"
  shows "row_add q w al = upd al m (fst (at al m), snd (at al m) + w)" "row_get q al = snd (at al m)"
    "q \<in> fst ` set al"
  using row_add_old [OF assms(1), of "nat m" q w] row_del_at(2,3) [OF assms(1), of "nat m" q] assms
  by (simp_all add: at_def upd_def ilen_def nat_less_iff)

lemma set_slot_ok:
  assumes b: "blocks_ok g A s" and v: "v \<in> A" and g: "csr g" and k: "0 \<le> k" "k < ndegrees (at (rinfos s) v)"
  shows "\<exists>s'. set_slot s (at (rinfos s) v) k d = Some s' \<and> local_ok g A v s s'
    \<and> slots s' v = upd (slots s v) k d \<and> rinfos s' = rinfos s"
proof -
  note l = blocks_vertex [OF b v]
  obtain e where e: "edegrees (at (rinfos s) v) = Some e"
    using l(6) k by (cases "edegrees (at (rinfos s) v)") auto
  note d = blocks_block [OF b v e g]
  let ?es = "upd (estore s) (e + k) d"
  have self: "upd (rinfos s) v (at (rinfos s) v) = rinfos s"
    by (simp add: upd_def at_def)
  have "local_ok g A v s (s\<lparr>rinfos := upd (rinfos s) v (at (rinfos s) v), estore := ?es\<rparr>)"
  proof (rule local_okI [OF b v])
    fix i assume "0 \<le> i" "at ?es i \<noteq> at (estore s) i"
    then have "i = e + k" using d k by (auto split: if_splits)
    then show "\<exists>e. edegrees (at (rinfos s) v) = Some e \<and> e \<le> i \<and> i < e + deg g v"
      using e d k by simp
  qed (use l e in auto)
  then show ?thesis
    using d k by (intro exI [of _ "s\<lparr>estore := ?es\<rparr>"])
      (simp add: self set_slot_def e arr slots_def slots_of_def block_upd)
qed

lemma add_edeg_ok:
  assumes b: "blocks_ok g A s" and v: "v \<in> A" and g: "csr g" and dist: "distinct (map fst (slots s v))"
    and e: "edegrees (at (rinfos s) v) = Some e"
    and room: "q \<notin> fst ` set (slots s v) \<Longrightarrow> ndegrees (at (rinfos s) v) < deg g v"
  shows "\<exists>s'. add_edeg v q w s = Some s' \<and> local_ok g A v s s' \<and> slots s' v = row_add q w (slots s v)
    \<and> at (rinfos s') v = (at (rinfos s) v)\<lparr>ndegrees := ilen (row_add q w (slots s v))\<rparr>"
proof -
  let ?r = "at (rinfos s) v"
  note l = blocks_vertex [OF b v] and d = blocks_block [OF b v e g]
  obtain k where k: "find_part s ?r q = Some k" "0 \<le> k" "k \<le> ndegrees ?r"
    "k = ndegrees ?r \<Longrightarrow> q \<notin> fst ` set (slots s v)" "k < ndegrees ?r \<Longrightarrow> fst (at (slots s v) k) = q"
    using find_part_ok [OF b v g, of q] by blast
  show ?thesis
  proof (cases "k = ndegrees ?r")
    case True
    then have new: "q \<notin> fst ` set (slots s v)" "ndegrees ?r < deg g v" using k(4) room by auto
    let ?es = "upd (estore s) (e + k) (q, w)" and ?r' = "?r\<lparr>ndegrees := k + 1\<rparr>"
    let ?s = "s\<lparr>rinfos := upd (rinfos s) v ?r', estore := ?es\<rparr>"
    have ek: "0 \<le> e + k" "e + k < ilen (estore s)" using new d True by auto
    have "local_ok g A v s ?s"
    proof (rule local_okI [OF b v])
      fix i assume "0 \<le> i" "at ?es i \<noteq> at (estore s) i"
      then have "i = e + k" using ek by (auto split: if_splits)
      then show "\<exists>e. edegrees ?r' = Some e \<and> e \<le> i \<and> i < e + deg g v" using e k(2) new(2) True by simp
    qed (use e k(2) new(2) True in auto)
    moreover have "add_edeg v q w s = Some ?s"
      using l ek k(1) True e by (simp add: add_edeg_def arr set_slot_def set_rinfo_def)
    moreover have "slots ?s v = row_add q w (slots s v)"
      using l ek k(2) d(1) True e new(1)
      by (simp add: slots_def slots_of_def row_add_new block_snoc block_upd_beyond)
    moreover have "ilen (row_add q w (slots s v)) = k + 1"
      using l True new(1) by (simp add: row_add_new) (simp add: ilen_def)
    ultimately show ?thesis using l by (intro exI [of _ ?s]) simp
  next
    case False
    then have kk: "0 \<le> k" "k < ndegrees ?r" "k < ilen (slots s v)" "fst (at (slots s v) k) = q"
      using k l(4) by auto
    note r = row_add_at [OF dist kk(1,3,4)]
    obtain s' where s': "set_slot s ?r k (q, snd (at (slots s v) k) + w) = Some s'" "local_ok g A v s s'"
      "slots s' v = upd (slots s v) k (q, snd (at (slots s v) k) + w)" "rinfos s' = rinfos s"
      using set_slot_ok [OF b v g kk(1,2)] by blast
    have "add_edeg v q w s = Some s'"
      using l k(1) False slot_at [OF b v kk(1,2) g] s'(1) kk(4) by (simp add: add_edeg_def arr)
    moreover have "slots s' v = row_add q w (slots s v)" using s'(3) r(1) kk(4) by simp
    moreover have "ilen (row_add q w (slots s v)) = ndegrees ?r" using r(1) l(4) by simp
    ultimately show ?thesis using s' by (intro exI [of _ s']) simp
  qed
qed

lemma drop_slot_at_ok:
  assumes b: "blocks_ok g A s" and v: "v \<in> A" and g: "csr g" and dist: "distinct (map fst (slots s v))"
    and k: "0 \<le> k" "k < ndegrees (at (rinfos s) v)" and q: "fst (at (slots s v) k) = q"
  shows "\<exists>s'. drop_slot_at v k s = Some s' \<and> local_ok g A v s s' \<and> slots s' v = row_del q (slots s v)
    \<and> at (rinfos s') v = (at (rinfos s) v)\<lparr>ndegrees := ndegrees (at (rinfos s) v) - 1\<rparr>"
proof -
  let ?r = "at (rinfos s) v" and ?n = "ndegrees (at (rinfos s) v) - 1"
  note l = blocks_vertex [OF b v]
  obtain e where e: "edegrees ?r = Some e" using l(6) k by (cases "edegrees ?r") auto
  note d = blocks_block [OF b v e g]
  define x where "x = at (estore s) (e + ?n)"
  let ?es = "upd (estore s) (e + k) x" and ?r' = "?r\<lparr>ndegrees := ?n\<rparr>"
  let ?s = "s\<lparr>rinfos := upd (rinfos s) v ?r', estore := ?es\<rparr>"
  have ek: "0 \<le> e + k" "e + k < ilen (estore s)" "0 \<le> e + ?n" "e + ?n < ilen (estore s)" using d k by auto
  have "local_ok g A v s ?s"
  proof (rule local_okI [OF b v])
    fix i assume "0 \<le> i" "at ?es i \<noteq> at (estore s) i"
    then have "i = e + k" using ek by (auto split: if_splits)
    then show "\<exists>e. edegrees ?r' = Some e \<and> e \<le> i \<and> i < e + deg g v" using e k d by simp
  qed (use e k d in auto)
  moreover have "drop_slot_at v k s = Some ?s"
    using l ek e by (simp add: drop_slot_at_def arr set_slot_def set_rinfo_def slot_def x_def)
  moreover have "slots ?s v = row_del q (slots s v)"
  proof -
    let ?bl = "block (estore s) e ?n"
    have al: "slots s v = ?bl @ [x]"
      using block_snoc [of ?n "estore s" e] k e by (simp add: slots_def slots_of_def x_def)
    have kn: "nat k < length (slots s v)" "fst (slots s v ! nat k) = q"
      using k q l(4) by (simp_all add: at_def ilen_def nat_less_iff)
    have "row_del q (slots s v) = take (length ?bl) ((?bl @ [x])[nat k := x])"
      using row_del_at(1) [OF dist kn] unfolding al by simp
    also have "\<dots> = (if k < ?n then upd ?bl k x else ?bl)"
    proof -
      have "length ?bl = nat ?n" using k by (simp add: block_def)
      then show ?thesis using k by (auto simp: list_update_append upd_def)
    qed
    also have "\<dots> = slots ?s v"
      using l e k d ek block_upd [of e k ?n "estore s" x] block_upd_beyond [of e ?n k "estore s" x]
      by (auto simp: slots_def slots_of_def)
    finally show ?thesis by simp
  qed
  ultimately show ?thesis using l by (intro exI [of _ ?s]) simp
qed

lemma sub_edeg_ok:
  assumes b: "blocks_ok g A s" and v: "v \<in> A" and g: "csr g" and dist: "distinct (map fst (slots s v))"
  shows "\<exists>s' n. sub_edeg v q w s = Some s' \<and> local_ok g A v s s' \<and> slots s' v = row_sub q w (slots s v)
    \<and> at (rinfos s') v = (at (rinfos s) v)\<lparr>ndegrees := n\<rparr>"
proof -
  let ?r = "at (rinfos s) v"
  note l = blocks_vertex [OF b v]
  obtain k where k: "find_part s ?r q = Some k" "0 \<le> k" "k \<le> ndegrees ?r"
    "k = ndegrees ?r \<Longrightarrow> q \<notin> fst ` set (slots s v)" "k < ndegrees ?r \<Longrightarrow> fst (at (slots s v) k) = q"
    using find_part_ok [OF b v g, of q] by blast
  show ?thesis
  proof (cases "k = ndegrees ?r")
    case True
    then show ?thesis using k b l
      by (intro exI [of _ s] exI [of _ "ndegrees ?r"]) (simp add: sub_edeg_def arr local_ok_def row_sub_def)
  next
    case False
    then have kk: "0 \<le> k" "k < ndegrees ?r" "k < ilen (slots s v)" "fst (at (slots s v) k) = q"
      using k l(4) by auto
    note r = row_add_at [OF dist kk(1,3,4)]
    let ?x = "snd (at (slots s v) k)"
    have sl: "slot s ?r k = Some (at (slots s v) k)" by (rule slot_at [OF b v kk(1,2) g])
    show ?thesis
    proof (cases "?x = w")
      case True
      then have "sub_edeg v q w s = drop_slot_at v k s"
        using l k(1) False sl by (simp add: sub_edeg_def arr)
      moreover have "row_sub q w (slots s v) = row_del q (slots s v)" using r(2,3) True by (simp add: row_sub_def)
      ultimately show ?thesis using drop_slot_at_ok [OF b v g dist kk(1,2,4)] by auto
    next
      case ne: False
      obtain s' where s': "set_slot s ?r k (q, ?x - w) = Some s'" "local_ok g A v s s'"
        "slots s' v = upd (slots s v) k (q, ?x - w)" "rinfos s' = rinfos s"
        using set_slot_ok [OF b v g kk(1,2)] by blast
      moreover have "sub_edeg v q w s = Some s'"
        using l k(1) False sl s'(1) kk(4) ne by (simp add: sub_edeg_def arr)
      moreover have "row_sub q w (slots s v) = upd (slots s v) k (q, ?x - w)"
        using r(1) [of "- w"] r(2,3) ne kk(4) by (simp add: row_sub_def)
      ultimately show ?thesis by (intro exI [of _ s'] exI [of _ "ndegrees ?r"]) simp
    qed
  qed
qed

end
