(* ===== verification/Mt_Kway_Spec.thy ===== *)
theory Mt_Kway_Spec
  imports Mt_Kway_State
begin

text \<open>
  What the refinement state means: a partition of the vertices, with the exact weights of the
  connections of each vertex to each part, the weights of the parts and the cut (\<open>kinv\<close>); and that
  \<open>ComputeKWayPartitionParams\<close> sets it up.
\<close>

section \<open>The graphs of the partitioner\<close>

definition nbrs :: "mgraph \<Rightarrow> int \<Rightarrow> int set" where
  "nbrs g v = at (adjncy g) ` row g v"

text \<open>The weight of the edges from \<open>u\<close> to \<open>v\<close>.\<close>

definition ew :: "mgraph \<Rightarrow> int \<Rightarrow> int \<Rightarrow> int" where
  "ew g u v = rowsum g (\<lambda>k. if k = v then 1 else 0) u"

definition kgraph :: "mgraph \<Rightarrow> bool" where
  "kgraph g \<longleftrightarrow> wf_graph g \<and> weighted g
    \<and> (\<forall>v. 0 \<le> v \<and> v < nvtxs g \<longrightarrow> inj_on (at (adjncy g)) (row g v) \<and> v \<notin> nbrs g v)
    \<and> (\<forall>j. 0 \<le> j \<and> j < nedges g \<longrightarrow> 0 \<le> ewgt g j)
    \<and> (\<forall>u v. 0 \<le> u \<and> u < nvtxs g \<and> 0 \<le> v \<and> v < nvtxs g \<longrightarrow>
         (u \<in> nbrs g v \<longleftrightarrow> v \<in> nbrs g u) \<and> ew g u v = ew g v u)"

lemma kgraphD:
  assumes "kgraph g"
  shows "wf_graph g" "csr g" "weighted g"
    "0 \<le> v \<Longrightarrow> v < nvtxs g \<Longrightarrow> inj_on (at (adjncy g)) (row g v)"
    "0 \<le> v \<Longrightarrow> v < nvtxs g \<Longrightarrow> v \<notin> nbrs g v"
    "0 \<le> j \<Longrightarrow> j < nedges g \<Longrightarrow> 0 \<le> ewgt g j"
    "0 \<le> u \<Longrightarrow> u < nvtxs g \<Longrightarrow> 0 \<le> v \<Longrightarrow> v < nvtxs g \<Longrightarrow> u \<in> nbrs g v \<longleftrightarrow> v \<in> nbrs g u"
    "0 \<le> u \<Longrightarrow> u < nvtxs g \<Longrightarrow> 0 \<le> v \<Longrightarrow> v < nvtxs g \<Longrightarrow> ew g u v = ew g v u"
  using assms by (auto simp: kgraph_def wf_graph_def)

text \<open>An edge of a row, as the loops read it.\<close>

lemma kgraph_edge:
  assumes g: "kgraph g" and v: "0 \<le> v" "v < nvtxs g" and j: "at (xadj g) v \<le> j" "j < at (xadj g) (v + 1)"
  shows "aget (adjncy g) j = Some (at (adjncy g) j)" "nget (adjwgt g) j = Some (ewgt g j)"
    "0 \<le> at (adjncy g) j" "at (adjncy g) j < nvtxs g" "at (adjncy g) j \<in> nbrs g v" "0 \<le> ewgt g j" "j \<in> row g v"
proof -
  note c = kgraphD(2) [OF g] and b = row_bounds [OF kgraphD(2) [OF g] v j]
  show "aget (adjncy g) j = Some (at (adjncy g) j)" using b csrD(6) [OF c] by (simp add: arr)
  show "0 \<le> at (adjncy g) j" "at (adjncy g) j < nvtxs g" using csrD(7,8) [OF c b] by simp_all
  show "j \<in> row g v" using j by (simp add: row_def)
  then show "at (adjncy g) j \<in> nbrs g v" by (simp add: nbrs_def)
  show "0 \<le> ewgt g j" by (rule kgraphD(6) [OF g b])
  obtain w where w: "adjwgt g = Some w" "nedges g \<le> ilen w"
    using kgraphD(1,3) [OF g] by (auto simp: weighted_def wf_graph_def)
  with b show "nget (adjwgt g) j = Some (ewgt g j)" by (simp add: arr ewgt_def)
qed

lemma kgraph_ends:
  assumes "kgraph g" "0 \<le> v" "v < nvtxs g"
  shows "aget (xadj g) v = Some (at (xadj g) v)" "aget (xadj g) (v + 1) = Some (at (xadj g) (v + 1))"
    "at (xadj g) v \<le> at (xadj g) (v + 1)" "at (xadj g) (v + 1) - at (xadj g) v = deg g v"
    "nget (vwgt g) v = Some (vwt g v)" "aget (adjwgtsum g) v = Some (rowsum g (\<lambda>_. 1) v)"
proof -
  note c = kgraphD(2) [OF assms(1)]
  show "aget (xadj g) v = Some (at (xadj g) v)" "aget (xadj g) (v + 1) = Some (at (xadj g) (v + 1))"
    "at (xadj g) v \<le> at (xadj g) (v + 1)" "at (xadj g) (v + 1) - at (xadj g) v = deg g v"
    using csrD(2,4) [OF c] assms(2,3) by (simp_all add: arr deg_def)
  obtain w where "vwgt g = Some w" "nvtxs g \<le> ilen w"
    using kgraphD(1,3) [OF assms(1)] by (auto simp: weighted_def wf_graph_def)
  then show "nget (vwgt g) v = Some (vwt g v)" using assms(2,3) by (simp add: arr vwt_def)
  show "aget (adjwgtsum g) v = Some (rowsum g (\<lambda>_. 1) v)"
    using kgraphD(1) [OF assms(1)] assms(2,3) by (simp add: arr wf_graph_def)
qed

section \<open>Connections between vertices and parts\<close>

text \<open>The weight of the edges from \<open>v\<close> into part \<open>q\<close>, and to other parts than its own.\<close>

definition conn :: "mgraph \<Rightarrow> (int \<Rightarrow> int) \<Rightarrow> int \<Rightarrow> int \<Rightarrow> int" where
  "conn g p v q = rowsum g (\<lambda>k. if p k = q then 1 else 0) v"

definition ext :: "mgraph \<Rightarrow> (int \<Rightarrow> int) \<Rightarrow> int \<Rightarrow> int" where
  "ext g p v = rowsum g (\<lambda>k. if p k = p v then 0 else 1) v"

lemma finite_row [simp]: "finite (row g v)"
  by (simp add: row_def)

lemma rowsum_add: "rowsum g f v + rowsum g h v = rowsum g (\<lambda>k. f k + h k) v"
  by (simp add: rowsum_def sum.distrib distrib_right)

lemma rowsum_diff: "rowsum g f v - rowsum g h v = rowsum g (\<lambda>k. f k - h k) v"
  by (simp add: rowsum_def sum_subtractf left_diff_distrib)

lemma rowsum_eqI: "(\<And>k. k \<in> nbrs g v \<Longrightarrow> f k = h k) \<Longrightarrow> rowsum g f v = rowsum g h v"
  unfolding rowsum_def nbrs_def by (rule sum.cong) auto

lemma conn_plus_ext: "conn g p v (p v) + ext g p v = rowsum g (\<lambda>_. 1) v"
  unfolding conn_def ext_def rowsum_add by (rule rowsum_eqI) simp

lemma cut2_ext: "cut2 g p = (\<Sum>v = 0..<nvtxs g. ext g p v)"
  by (simp add: cut2_def ext_def)

lemma rowsum_nonneg:
  assumes g: "kgraph g" and v: "0 \<le> v" "v < nvtxs g" and f: "\<And>k. 0 \<le> f k"
  shows "0 \<le> rowsum g f v"
  unfolding rowsum_def
  by (rule sum_nonneg) (use kgraph_edge(6) [OF g v] f in \<open>auto simp: row_def\<close>)

lemma conn_nonneg: "kgraph g \<Longrightarrow> 0 \<le> v \<Longrightarrow> v < nvtxs g \<Longrightarrow> 0 \<le> conn g p v q"
  unfolding conn_def by (rule rowsum_nonneg) auto

lemma ext_nonneg: "kgraph g \<Longrightarrow> 0 \<le> v \<Longrightarrow> v < nvtxs g \<Longrightarrow> 0 \<le> ext g p v"
  unfolding ext_def by (rule rowsum_nonneg) auto

lemma conn_le_ext:
  assumes "kgraph g" "0 \<le> v" "v < nvtxs g" "q \<noteq> p v"
  shows "conn g p v q \<le> ext g p v"
proof -
  have "0 \<le> ext g p v - conn g p v q"
    unfolding ext_def conn_def rowsum_diff by (rule rowsum_nonneg [OF assms(1-3)]) (use assms(4) in auto)
  then show ?thesis by simp
qed

lemma conn_absent: "q \<notin> p ` nbrs g v \<Longrightarrow> conn g p v q = 0"
proof -
  assume "q \<notin> p ` nbrs g v"
  then have "conn g p v q = rowsum g (\<lambda>_. 0) v" unfolding conn_def by (intro rowsum_eqI) auto
  then show ?thesis by (simp add: rowsum_def)
qed

text \<open>A row sum by neighbours.\<close>

lemma rowsum_ew:
  assumes "csr g" "0 \<le> v" "v < nvtxs g"
  shows "rowsum g f v = (\<Sum>k = 0..<nvtxs g. f k * ew g v k)"
proof -
  have "(\<Sum>k = 0..<nvtxs g. f k * ew g v k)
      = (\<Sum>k = 0..<nvtxs g. \<Sum>j \<in> row g v. if at (adjncy g) j = k then f k * ewgt g j else 0)"
    unfolding ew_def rowsum_def sum_distrib_left by (intro sum.cong refl) auto
  also have "\<dots> = (\<Sum>j \<in> row g v. \<Sum>k = 0..<nvtxs g. if at (adjncy g) j = k then f k * ewgt g j else 0)"
    by (rule sum.swap)
  also have "\<dots> = (\<Sum>j \<in> row g v. f (at (adjncy g) j) * ewgt g j)"
  proof (rule sum.cong)
    fix j assume "j \<in> row g v"
    then have "0 \<le> j" "j < nedges g" using row_bounds [OF assms] by (auto simp: row_def)
    then have "at (adjncy g) j \<in> {0..<nvtxs g}" using csrD(7,8) [OF assms(1)] by simp
    then show "(\<Sum>k = 0..<nvtxs g. if at (adjncy g) j = k then f k * ewgt g j else 0)
        = f (at (adjncy g) j) * ewgt g j" by (simp add: sum.delta)
  qed simp
  finally show ?thesis by (simp add: rowsum_def)
qed

lemma even_symmetric_sum:
  fixes h :: "int \<Rightarrow> int \<Rightarrow> int"
  assumes "0 \<le> n" "\<And>i k. 0 \<le> i \<Longrightarrow> i < n \<Longrightarrow> 0 \<le> k \<Longrightarrow> k < n \<Longrightarrow> h i k = h k i" "\<And>i. h i i = 0"
  shows "even (\<Sum>i = 0..<n. \<Sum>k = 0..<n. h i k)"
  using assms(1,2)
proof (induction n rule: int_ge_induct)
  case (step n)
  have sym: "(\<Sum>i = 0..<n. h i n) = (\<Sum>k = 0..<n. h n k)"
    by (rule sum.cong) (use step in auto)
  have "(\<Sum>i = 0..<n + 1. \<Sum>k = 0..<n + 1. h i k)
      = (\<Sum>i = 0..<n. (\<Sum>k = 0..<n. h i k) + h i n) + ((\<Sum>k = 0..<n. h n k) + h n n)"
    using step.hyps by (simp add: sum_upto)
  also have "\<dots> = (\<Sum>i = 0..<n. \<Sum>k = 0..<n. h i k) + 2 * (\<Sum>k = 0..<n. h n k)"
    using assms(3) sym by (simp add: sum.distrib)
  finally show ?case using step by simp
qed simp

lemma even_cut2:
  assumes "kgraph g"
  shows "even (cut2 g p)"
proof -
  note c = kgraphD(2) [OF assms]
  have "cut2 g p = (\<Sum>i = 0..<nvtxs g. \<Sum>k = 0..<nvtxs g. (if p k = p i then 0 else 1) * ew g i k)"
    unfolding cut2_ext ext_def by (rule sum.cong) (auto simp: rowsum_ew [OF c])
  then show ?thesis
    using even_symmetric_sum [of "nvtxs g" "\<lambda>i k. (if p k = p i then 0 else 1) * ew g i k"]
      kgraphD(8) [OF assms] csrD(1) [OF c] by simp
qed

section \<open>Slots that agree with a partition\<close>

definition row_is :: "mgraph \<Rightarrow> (int \<Rightarrow> int) \<Rightarrow> int \<Rightarrow> (int \<times> int) list \<Rightarrow> bool" where
  "row_is g p v al \<longleftrightarrow> distinct (map fst al) \<and> p v \<notin> fst ` set al \<and> fst ` set al \<subseteq> p ` nbrs g v
     \<and> (\<forall>q. q \<noteq> p v \<longrightarrow> row_get q al = conn g p v q)"

definition rinfo_ok :: "mgraph \<Rightarrow> (int \<Rightarrow> int) \<Rightarrow> kstate \<Rightarrow> int \<Rightarrow> bool" where
  "rinfo_ok g p s v \<longleftrightarrow> rid (at (rinfos s) v) = conn g p v (p v) \<and> red (at (rinfos s) v) = ext g p v
     \<and> row_is g p v (slots s v)"

text \<open>There are no more parts around a vertex than edges, so its block has room for all of them.\<close>

lemma row_room:
  assumes "csr g" "0 \<le> v" "v < nvtxs g"
    and "distinct (map fst al)" "fst ` set al \<subseteq> p ` nbrs g v" "q \<in> p ` nbrs g v" "q \<notin> fst ` set al"
  shows "ilen al < deg g v"
proof -
  have "card (insert q (fst ` set al)) \<le> card (p ` nbrs g v)"
    by (rule card_mono) (use assms in \<open>auto simp: nbrs_def\<close>)
  moreover have "card (insert q (fst ` set al)) = Suc (length al)"
    using assms(4,7) distinct_card [OF assms(4)] by simp
  moreover have "card (p ` nbrs g v) \<le> card (row g v)"
    unfolding nbrs_def image_image by (rule card_image_le) simp
  moreover have "card (row g v) = nat (deg g v)" by (simp add: row_def deg_def)
  ultimately show ?thesis using deg_nonneg [OF assms(1-3)] by (simp add: ilen_def)
qed

lemma row_get_add [simp]: "row_get k (row_add q w al) = row_get k al + (if k = q then w else 0)"
  by (induction q w al rule: row_add.induct) (auto simp: row_get_def)

lemma row_get_rsum:
  assumes "distinct (map fst al)"
  shows "row_get k al = rsum (\<lambda>x. if x = k then 1 else 0) al"
  using assms
proof (induction al)
  case (Cons e al)
  obtain q w where e: "e = (q, w)" by force
  show ?case
  proof (cases "q = k")
    case True
    then have "k \<notin> fst ` set al" using Cons.prems e by auto
    then have "row_get k al = 0" by simp
    with Cons e True show ?thesis by (simp add: row_get_def)
  qed (use Cons e in \<open>simp add: row_get_def\<close>)
qed (simp add: row_get_def)

lemma row_get_del:
  "distinct (map fst al) \<Longrightarrow> row_get k (row_del q al) = (if k = q then 0 else row_get k al)"
  using row_del_facts(1) [of al "\<lambda>x. if x = k then 1 else 0" q] row_del_facts(3) [of al q]
  by (simp add: row_get_rsum)

lemma row_sub_facts:
  assumes "distinct (map fst al)"
  shows "distinct (map fst (row_sub q w al))" "fst ` set (row_sub q w al) \<subseteq> fst ` set al"
    "row_get k (row_sub q w al) = (if k = q \<and> q \<in> fst ` set al then row_get k al - w else row_get k al)"
proof -
  have i: "q \<in> fst ` set al \<Longrightarrow> insert q (fst ` set al) = fst ` set al" by blast
  show "distinct (map fst (row_sub q w al))" "fst ` set (row_sub q w al) \<subseteq> fst ` set al"
    "row_get k (row_sub q w al) = (if k = q \<and> q \<in> fst ` set al then row_get k al - w else row_get k al)"
    using row_del_facts(2,3) [OF assms, of q] row_get_del [OF assms, of k q] assms i keys_row_add [of q "- w" al]
    by (auto simp: row_sub_def distinct_row_add)
qed

lemma row_sub_gone:
  assumes "distinct (map fst al)" "row_get q al = w"
  shows "q \<notin> fst ` set (row_sub q w al)"
  using row_del_facts(2) [OF assms(1), of q] assms(2) by (cases "q \<in> fst ` set al") (simp_all add: row_sub_def)

lemma rinfo_ok_cong:
  "at (rinfos s') v = at (rinfos s) v \<Longrightarrow> slots s' v = slots s v \<Longrightarrow> rinfo_ok g p s' v = rinfo_ok g p s v"
  by (simp add: rinfo_ok_def)

lemma local_ok_others:
  assumes "local_ok g A v s s'" "u \<in> A" "v \<in> A" "u \<noteq> v"
  shows "slots s' u = slots s u" "at (rinfos s') u = at (rinfos s) u" "rinfo_ok g p s' u = rinfo_ok g p s u"
proof -
  have "0 \<le> u" using assms(1,2) by (auto simp: local_ok_def blocks_ok_def)
  then show r: "at (rinfos s') u = at (rinfos s) u"
    using assms vertex_stepD(9) by (auto simp: local_ok_def)
  show s: "slots s' u = slots s u" using assms vertex_step_slots by (auto simp: local_ok_def)
  from r s show "rinfo_ok g p s' u = rinfo_ok g p s u" by (rule rinfo_ok_cong)
qed

lemma local_okD:
  assumes "local_ok g A v s s'"
  shows "wher s' = wher s" "pwgts s' = pwgts s" "mincut s' = mincut s" "bndptr s' = bndptr s"
    "bndind s' = bndind s" "nbnd s' = nbnd s" "blocks_ok g A s'" "ilen (estore s') = ilen (estore s)"
  using assms vertex_stepD by (auto simp: local_ok_def)

lemma bnd_ok_cong:
  "bndptr s' = bndptr s \<Longrightarrow> bndind s' = bndind s \<Longrightarrow> nbnd s' = nbnd s \<Longrightarrow> bnd_ok n s' = bnd_ok n s"
  by (simp add: bnd_ok_def on_bnd_def)

lemma on_bnd_cong: "bndptr s' = bndptr s \<Longrightarrow> on_bnd s' v = on_bnd s v"
  by (simp add: on_bnd_def)

text \<open>A vertex whose parameters are set up for the first time.\<close>

lemma blocks_grow:
  assumes b: "blocks_ok g A s" and v: "v \<notin> A" "0 \<le> v" "v < nvtxs g"
    and r: "edegrees r = None" "ndegrees r = 0"
  shows "blocks_ok g (insert v A) (s\<lparr>rinfos := upd (rinfos s) v r\<rparr>)" (is "blocks_ok g _ ?s")
    "u \<in> A \<Longrightarrow> slots (s\<lparr>rinfos := upd (rinfos s) v r\<rparr>) u = slots s u"
    "slots (s\<lparr>rinfos := upd (rinfos s) v r\<rparr>) v = []"
proof -
  have l: "ilen (rinfos s) = nvtxs g" and pos: "\<And>u. u \<in> A \<Longrightarrow> 0 \<le> u" using b by (auto simp: blocks_ok_def)
  have at: "at (upd (rinfos s) v r) u = (if u = v then r else at (rinfos s) u)" if "0 \<le> u" for u
    using that l v by simp
  have nb: "no_block ?s u = (u = v \<or> no_block s u)" if "0 \<le> u" for u
    using at [OF that] r by (simp add: no_block_def)
  have w: "waiting g (insert v A) ?s = waiting g A s"
    unfolding waiting_def by (rule sum.cong) (use v in \<open>auto simp: nb\<close>)
  have 1: "no_block ?s u \<and> ndegrees (at (rinfos ?s) u) = 0 \<or> (\<exists>e. has_block g ?s u e)" if u: "u \<in> insert v A" for u
  proof (cases "u = v")
    case False
    then have "u \<in> A" using u by simp
    then have "no_block s u \<and> ndegrees (at (rinfos s) u) = 0 \<or> (\<exists>e. has_block g s u e)"
      using b by (simp add: blocks_ok_def)
    with False pos [OF \<open>u \<in> A\<close>] show ?thesis by (simp add: no_block_def has_block_def at)
  qed (use v r in \<open>simp add: no_block_def at\<close>)
  have 2: "apart g ?s u x" if "u \<in> insert v A" "x \<in> insert v A" "u \<noteq> x" for u x
  proof (cases "u = v \<or> x = v")
    case False
    then have "u \<in> A" "x \<in> A" using that by auto
    with b that(3) have "apart g s u x" by (simp add: blocks_ok_def)
    with False pos [OF \<open>u \<in> A\<close>] pos [OF \<open>x \<in> A\<close>] show ?thesis by (simp add: apart_def at)
  qed (use that v r in \<open>auto simp: apart_def at\<close>)
  show "blocks_ok g (insert v A) ?s" using b v 1 2 w by (simp add: blocks_ok_def)
  show "u \<in> A \<Longrightarrow> slots ?s u = slots s u"
    using v(1) pos [of u] by (auto simp: slots_def at)
  show "slots ?s v = []" using v r at by (simp add: slots_def slots_of_def)
qed

section \<open>The state agrees with the partition\<close>

text \<open>The invariant of the refinement for \<open>n\<close> parts.\<close>

definition part_ok :: "mgraph \<Rightarrow> int \<Rightarrow> int list \<Rightarrow> bool" where
  "part_ok g n wh \<longleftrightarrow> ilen wh = nvtxs g \<and> (\<forall>v. 0 \<le> v \<and> v < nvtxs g \<longrightarrow> 0 \<le> at wh v \<and> at wh v < n)"

definition kinv :: "mgraph \<Rightarrow> int \<Rightarrow> kstate \<Rightarrow> bool" where
  "kinv g n s \<longleftrightarrow> part_ok g n (wher s)
    \<and> ilen (pwgts s) = n \<and> (\<forall>q. 0 \<le> q \<and> q < n \<longrightarrow> at (pwgts s) q = part_weight g (at (wher s)) q)
    \<and> blocks_ok g {0..<nvtxs g} s \<and> (\<forall>v. 0 \<le> v \<and> v < nvtxs g \<longrightarrow> rinfo_ok g (at (wher s)) s v)
    \<and> bnd_ok (nvtxs g) s \<and> 2 * mincut s = cut2 g (at (wher s))"

text \<open>The part of a neighbour, as the loops read it.\<close>

lemma part_edge:
  assumes "part_ok g n wh" "kgraph g" "0 \<le> v" "v < nvtxs g" "at (xadj g) v \<le> j" "j < at (xadj g) (v + 1)"
  shows "aget wh (at (adjncy g) j) = Some (at wh (at (adjncy g) j))"
    "0 \<le> at wh (at (adjncy g) j)" "at wh (at (adjncy g) j) < n"
    "at wh (at (adjncy g) j) \<in> at wh ` nbrs g v"
  using kgraph_edge(3,4,5) [OF assms(2-6)] assms(1) by (simp_all add: arr part_ok_def)

lemma part_vertex:
  assumes "part_ok g n wh" "0 \<le> v" "v < nvtxs g"
  shows "aget wh v = Some (at wh v)" "0 \<le> at wh v" "at wh v < n"
  using assms by (simp_all add: arr part_ok_def)

section \<open>The initial parameters\<close>

lemma ext_loop:
  assumes g: "kgraph g" and p: "part_ok g n wh" and v: "0 \<le> v" "v < nvtxs g"
  shows "for_loop (at (xadj g) v) (at (xadj g) (v + 1)) (\<lambda>j ed. do {
       u \<leftarrow> aget (adjncy g) j; other \<leftarrow> aget wh u;
       if at wh v \<noteq> other then do { w \<leftarrow> nget (adjwgt g) j; Some (ed + w) } else Some ed }) 0
     = Some (ext g (at wh) v)"
proof -
  let ?a = "at (xadj g) v" and ?b = "at (xadj g) (v + 1)"
  let ?t = "\<lambda>j. (if at wh (at (adjncy g) j) = at wh v then 0 else 1) * ewgt g j"
  have "\<exists>r. for_loop ?a ?b (\<lambda>j ed. do {
       u \<leftarrow> aget (adjncy g) j; other \<leftarrow> aget wh u;
       if at wh v \<noteq> other then do { w \<leftarrow> nget (adjwgt g) j; Some (ed + w) } else Some ed }) 0
     = Some r \<and> r = (\<Sum>j = ?a..<?b. ?t j)"
  proof (rule for_loop_rule)
    fix j r assume j: "?a \<le> j" "j < ?b" and "r = (\<Sum>j = ?a..<j. ?t j)"
    then show "\<exists>t'. do { u \<leftarrow> aget (adjncy g) j; other \<leftarrow> aget wh u;
       if at wh v \<noteq> other then do { w \<leftarrow> nget (adjwgt g) j; Some (r + w) } else Some r } = Some t'
       \<and> t' = (\<Sum>j = ?a..<j + 1. ?t j)"
      using kgraph_edge(1,2) [OF g v j] part_edge(1) [OF p g v j] by (auto simp: sum_upto)
  qed (use kgraph_ends(3) [OF g v] in auto)
  then show ?thesis by (simp add: ext_def rowsum_def row_def)
qed

lemma fill_slots:
  assumes g: "kgraph g" and p: "part_ok g n (wher s)" and b: "blocks_ok g A s" and v: "v \<in> A"
    and e: "edegrees (at (rinfos s) v) = Some e" and empty: "slots s v = []" and me: "me = at (wher s) v"
  shows "\<exists>s' m. for_loop (at (xadj g) v) (at (xadj g) (v + 1)) (\<lambda>j s. do {
       u \<leftarrow> aget (adjncy g) j; other \<leftarrow> aget (wher s) u;
       if me \<noteq> other then do { w \<leftarrow> nget (adjwgt g) j; add_edeg v other w s } else Some s }) s = Some s'
     \<and> local_ok g A v s s' \<and> row_is g (at (wher s)) v (slots s' v)
     \<and> at (rinfos s') v = (at (rinfos s) v)\<lparr>ndegrees := m\<rparr>"
proof -
  let ?a = "at (xadj g) v" and ?b = "at (xadj g) (v + 1)" and ?p = "at (wher s)"
  note c = kgraphD(2) [OF g] and vv = blocks_vertex(1,2) [OF b v]
  let ?sum = "\<lambda>q j. \<Sum>i = ?a..<j. (if ?p (at (adjncy g) i) = q then 1 else 0) * ewgt g i"
  let ?P = "\<lambda>j t. local_ok g A v s t \<and> (\<exists>m. at (rinfos t) v = (at (rinfos s) v)\<lparr>ndegrees := m\<rparr>)
    \<and> distinct (map fst (slots t v)) \<and> ?p v \<notin> fst ` set (slots t v) \<and> fst ` set (slots t v) \<subseteq> ?p ` nbrs g v
    \<and> (\<forall>q. q \<noteq> ?p v \<longrightarrow> row_get q (slots t v) = ?sum q j)"
  have "\<exists>t. for_loop ?a ?b (\<lambda>j s. do {
       u \<leftarrow> aget (adjncy g) j; other \<leftarrow> aget (wher s) u;
       if ?p v \<noteq> other then do { w \<leftarrow> nget (adjwgt g) j; add_edeg v other w s } else Some s }) s = Some t \<and> ?P ?b t"
  proof (rule for_loop_rule [where P = ?P])
    fix j t assume j: "?a \<le> j" "j < ?b" and t: "?P j t"
    then obtain m where l: "local_ok g A v s t" and m: "at (rinfos t) v = (at (rinfos s) v)\<lparr>ndegrees := m\<rparr>"
      and d: "distinct (map fst (slots t v))" "?p v \<notin> fst ` set (slots t v)" "fst ` set (slots t v) \<subseteq> ?p ` nbrs g v"
      and r: "\<And>q. q \<noteq> ?p v \<Longrightarrow> row_get q (slots t v) = ?sum q j" by blast
    have w: "wher t = wher s" and bt: "blocks_ok g A t" using local_okD(1,7) [OF l] by auto
    note ed = kgraph_edge(1,2) [OF g vv j] part_edge [OF p g vv j]
    let ?o = "?p (at (adjncy g) j)"
    have sum: "?sum q (j + 1) = ?sum q j + (if ?o = q then ewgt g j else 0)" for q
      using j by (simp add: sum_upto)
    show "\<exists>t'. do { u \<leftarrow> aget (adjncy g) j; other \<leftarrow> aget (wher t) u;
       if ?p v \<noteq> other then do { w \<leftarrow> nget (adjwgt g) j; add_edeg v other w t } else Some t } = Some t' \<and> ?P (j + 1) t'"
    proof (cases "?p v = ?o")
      case True
      then have "\<forall>q. q \<noteq> ?p v \<longrightarrow> row_get q (slots t v) = ?sum q (j + 1)" using r sum by simp
      with t have "?P (j + 1) t" by blast
      moreover have "do { u \<leftarrow> aget (adjncy g) j; other \<leftarrow> aget (wher t) u;
       if ?p v \<noteq> other then do { w \<leftarrow> nget (adjwgt g) j; add_edeg v other w t } else Some t } = Some t"
        using ed(1,3) w True by simp
      ultimately show ?thesis by blast
    next
      case False
      have et: "edegrees (at (rinfos t) v) = Some e" using m e by simp
      have room: "ndegrees (at (rinfos t) v) < deg g v" if "?o \<notin> fst ` set (slots t v)"
        using row_room [OF c vv d(1,3) ed(6) that] blocks_vertex(4) [OF bt v] by simp
      obtain t' where t': "add_edeg v ?o (ewgt g j) t = Some t'" "local_ok g A v t t'"
        "slots t' v = row_add ?o (ewgt g j) (slots t v)"
        "at (rinfos t') v = (at (rinfos t) v)\<lparr>ndegrees := ilen (row_add ?o (ewgt g j) (slots t v))\<rparr>"
        using add_edeg_ok [OF bt v c d(1) et room] by blast
      have "distinct (map fst (slots t' v))" "?p v \<notin> fst ` set (slots t' v)" "fst ` set (slots t' v) \<subseteq> ?p ` nbrs g v"
        using t'(3) d False ed(6) by (simp_all add: distinct_row_add keys_row_add)
      moreover have "row_get q (slots t' v) = ?sum q (j + 1)" if "q \<noteq> ?p v" for q
        using r [OF that] sum [of q] t'(3) by simp
      moreover have "\<exists>m. at (rinfos t') v = (at (rinfos s) v)\<lparr>ndegrees := m\<rparr>" using t'(4) m by auto
      ultimately have "?P (j + 1) t'" using local_ok_trans [OF l t'(2)] by blast
      moreover have "do { u \<leftarrow> aget (adjncy g) j; other \<leftarrow> aget (wher t) u;
       if ?p v \<noteq> other then do { w \<leftarrow> nget (adjwgt g) j; add_edeg v other w t } else Some t } = Some t'"
        using ed(1-3) w t'(1) False by simp
      ultimately show ?thesis by blast
    qed
  qed (use b empty kgraph_ends(3) [OF g vv] in \<open>auto simp: local_ok_def row_get_def intro: exI [of _ "ndegrees (at (rinfos s) v)"]\<close>)
  then obtain t where t: "for_loop ?a ?b (\<lambda>j s. do {
       u \<leftarrow> aget (adjncy g) j; other \<leftarrow> aget (wher s) u;
       if ?p v \<noteq> other then do { w \<leftarrow> nget (adjwgt g) j; add_edeg v other w s } else Some s }) s = Some t" "?P ?b t"
    by blast
  then have "row_is g ?p v (slots t v)"
    by (simp add: row_is_def conn_def rowsum_def row_def)
  with t show ?thesis unfolding me by auto
qed

text \<open>The loop over the vertices, up to vertex \<open>n\<close>.\<close>

definition init_inv :: "mgraph \<Rightarrow> int \<Rightarrow> int list \<Rightarrow> int \<Rightarrow> kstate \<times> int \<Rightarrow> bool" where
  "init_inv g np wh n = (\<lambda>(s, tot). wher s = wh \<and> ilen (pwgts s) = np
    \<and> (\<forall>q. 0 \<le> q \<and> q < np \<longrightarrow> at (pwgts s) q = (\<Sum>i = 0..<n. if at wh i = q then vwt g i else 0))
    \<and> blocks_ok g {0..<n} s \<and> (\<forall>v. 0 \<le> v \<and> v < n \<longrightarrow> rinfo_ok g (at wh) s v)
    \<and> bnd_ok (nvtxs g) s
    \<and> (\<forall>v. 0 \<le> v \<and> v < nvtxs g \<longrightarrow> on_bnd s v = (v < n \<and> conn g (at wh) v (at wh v) \<le> ext g (at wh) v))
    \<and> tot = (\<Sum>i = 0..<n. ext g (at wh) i))"

lemma row_is_interior:
  assumes "kgraph g" "0 \<le> v" "v < nvtxs g" "ext g p v \<le> 0"
  shows "row_is g p v []"
proof -
  have "conn g p v q = 0" if "q \<noteq> p v" for q
    using conn_le_ext [of g v q p] conn_nonneg [OF assms(1-3), of p q] assms that by simp
  then show ?thesis by (simp add: row_is_def row_get_def)
qed

lemma bnd_if_ok:
  assumes b: "bnd_ok n s" and v: "0 \<le> v" "v < n" "\<not> on_bnd s v"
  shows "\<exists>s'. (if c then BNDInsert v s else Some s) = Some s' \<and> bnd_step s s' \<and> bnd_ok n s'
    \<and> (\<forall>u. 0 \<le> u \<longrightarrow> on_bnd s' u = (on_bnd s u \<or> c \<and> u = v))"
  using BNDInsert_ok [OF b v] b by (cases c) auto

lemma init_vertex_ok:
  assumes g: "kgraph g" and p: "part_ok g np wh" and i: "0 \<le> i" "i < nvtxs g"
    and inv: "init_inv g np wh i (s, tot)"
  shows "\<exists>t. init_vertex g i (s, tot) = Some t \<and> init_inv g np wh (i + 1) t"
proof -
  let ?p = "at wh" and ?a = "at (xadj g) i" and ?b = "at (xadj g) (i + 1)"
  let ?ed = "ext g (at wh) i" and ?id = "conn g (at wh) i (at wh i)"
  note c = kgraphD(2) [OF g]
  have w: "wher s = wh" and pl: "ilen (pwgts s) = np"
    and pw: "\<And>q. 0 \<le> q \<Longrightarrow> q < np \<Longrightarrow> at (pwgts s) q = (\<Sum>i = 0..<i. if at wh i = q then vwt g i else 0)"
    and b: "blocks_ok g {0..<i} s" and r: "\<And>v. 0 \<le> v \<Longrightarrow> v < i \<Longrightarrow> rinfo_ok g ?p s v"
    and bo: "bnd_ok (nvtxs g) s"
    and on: "\<And>v. 0 \<le> v \<Longrightarrow> v < nvtxs g \<Longrightarrow> on_bnd s v = (v < i \<and> conn g ?p v (?p v) \<le> ext g ?p v)"
    and tot: "tot = (\<Sum>i = 0..<i. ext g ?p i)"
    using inv by (auto simp: init_inv_def)
  note me = part_vertex [OF p i] and ends = kgraph_ends [OF g i]
  define pw' where "pw' = upd (pwgts s) (?p i) (at (pwgts s) (?p i) + vwt g i)"
  define r0 where "r0 = \<lparr>rid = ?id, red = ?ed, ndegrees = 0, edegrees = None\<rparr>"
  define s1 where "s1 = s\<lparr>pwgts := pw', rinfos := upd (rinfos s) i r0\<rparr>"
  have rl: "ilen (rinfos s) = nvtxs g" using b by (simp add: blocks_ok_def)
  have dis: "i \<notin> {0..<i}" by simp
  have ins: "insert i {0..<i} = {0..<i + 1}" using i by auto
  have r0n: "edegrees r0 = None" "ndegrees r0 = 0" by (simp_all add: r0_def)
  note grow = blocks_grow [OF b dis i r0n]
  have b1: "blocks_ok g {0..<i + 1} s1"
    using grow(1) blocks_ok_cong [of s1 "s\<lparr>rinfos := upd (rinfos s) i r0\<rparr>"] unfolding ins by (simp add: s1_def)
  have sl1: "slots s1 u = slots s u" if "u \<in> {0..<i}" for u
    using grow(2) [OF that] by (simp add: s1_def slots_def)
  have sli: "slots s1 i = []" using grow(3) by (simp add: s1_def slots_def)
  have ri1: "at (rinfos s1) u = (if u = i then r0 else at (rinfos s) u)" if "0 \<le> u" for u
    using that i rl by (simp add: s1_def)
  have bo1: "bnd_ok (nvtxs g) s1" using bo by (simp add: s1_def bnd_ok_def on_bnd_def)
  have on1: "on_bnd s1 u = on_bnd s u" for u by (simp add: s1_def on_bnd_def)
  have noti: "\<not> on_bnd s1 i" using on [OF i] on1 by simp
  obtain s2 where s2: "(if ?ed - ?id \<ge> 0 then BNDInsert i s1 else Some s1) = Some s2" "bnd_step s1 s2"
    "bnd_ok (nvtxs g) s2" "\<And>u. 0 \<le> u \<Longrightarrow> on_bnd s2 u = (on_bnd s1 u \<or> ?ed - ?id \<ge> 0 \<and> u = i)"
    using bnd_if_ok [OF bo1 i noti] by metis
  note st2 = bnd_stepD [OF s2(2)]
  have b2: "blocks_ok g {0..<i + 1} s2" using b1 bnd_step_blocks [OF s2(2)] by simp
  have sl2: "slots s2 u = slots s1 u" for u by (rule bnd_step_slots [OF s2(2)])
  have vA: "i \<in> {0..<i + 1}" using i by simp
  have w2: "wher s2 = wh" using st2(1) w by (simp add: s1_def)
  obtain s3 m ed where s3: "(if ?ed > 0 then do {
         s \<leftarrow> take_block g i s2;
         for_loop ?a ?b (\<lambda>j s. do {
           u \<leftarrow> aget (adjncy g) j; other \<leftarrow> aget (wher s) u;
           if ?p i \<noteq> other then do { w \<leftarrow> nget (adjwgt g) j; add_edeg i other w s } else Some s }) s }
       else Some s2) = Some s3"
    "local_ok g {0..<i + 1} i s2 s3" "row_is g ?p i (slots s3 i)"
    "at (rinfos s3) i = r0\<lparr>edegrees := ed, ndegrees := m\<rparr>"
  proof (cases "?ed > 0")
    case True
    obtain t e where t: "take_block g i s2 = Some t" "local_ok g {0..<i + 1} i s2 t" "slots t i = slots s2 i"
      "at (rinfos t) i = (at (rinfos s2) i)\<lparr>edegrees := Some e\<rparr>"
      using take_block_ok [OF b2 c vA] by blast
    have wt: "wher t = wh" using local_okD(1) [OF t(2)] w2 by simp
    have pt: "part_ok g np (wher t)" using p wt by simp
    have "edegrees (at (rinfos t) i) = Some e" "slots t i = []" "?p i = at (wher t) i"
      using t(3,4) sl2 sli wt by simp_all
    from fill_slots [OF g pt local_okD(7) [OF t(2)] vA this] obtain u k where u: "for_loop ?a ?b (\<lambda>j s. do {
           u \<leftarrow> aget (adjncy g) j; other \<leftarrow> aget (wher s) u;
           if ?p i \<noteq> other then do { w \<leftarrow> nget (adjwgt g) j; add_edeg i other w s } else Some s }) t = Some u"
      "local_ok g {0..<i + 1} i t u" "row_is g (at (wher t)) i (slots u i)"
      "at (rinfos u) i = (at (rinfos t) i)\<lparr>ndegrees := k\<rparr>" by blast
    show ?thesis
    proof (rule that)
      show "at (rinfos u) i = r0\<lparr>edegrees := Some e, ndegrees := k\<rparr>"
        using u(4) t(4) st2(4) ri1 [OF i(1)] by simp
    qed (use True t u local_ok_trans wt in auto)
  next
    case False
    have "row_is g ?p i []" using row_is_interior [OF g i] False by simp
    with that [of s2 0 None] False show ?thesis
      using b2 sl2 sli st2(4) ri1 [OF i(1)] by (simp add: local_ok_def r0_def)
  qed
  note d3 = local_okD [OF s3(2)]
  have sum: "rowsum g (\<lambda>_. 1) i - ?ed = ?id" using conn_plus_ext [of g ?p i] by simp
  have "init_vertex g i (s, tot) = Some (s3, if ?ed > 0 then tot + ?ed else tot)"
  proof -
    have a: "aget (pwgts s) (?p i) = Some (at (pwgts s) (?p i))"
      "aset (pwgts s) (?p i) (at (pwgts s) (?p i) + vwt g i) = Some pw'"
      using me pl by (simp_all add: arr pw'_def)
    have s1: "set_rinfo (s\<lparr>pwgts := pw'\<rparr>) i \<lparr>rid = ?id, red = ?ed, ndegrees = 0, edegrees = None\<rparr> = Some s1"
      using i rl by (simp add: set_rinfo_def arr s1_def r0_def)
    show ?thesis
      unfolding init_vertex_def prod.case w me(1) ends ext_loop [OF g p i] a Option.bind.bind_lunit sum s1 s2(1) s3(1)
      by (rule refl)
  qed
  moreover have "init_inv g np wh (i + 1) (s3, if ?ed > 0 then tot + ?ed else tot)"
    unfolding init_inv_def prod.case
  proof (intro conjI allI impI; (elim conjE)?)
    show "wher s3 = wh" "ilen (pwgts s3) = np" using d3(1,2) w2 st2(2) pl by (simp_all add: s1_def pw'_def)
    show "blocks_ok g {0..<i + 1} s3" by (fact d3(7))
    show "bnd_ok (nvtxs g) s3" using s2(3) bnd_ok_cong [OF d3(4-6)] by simp
    fix q assume "0 \<le> q" "q < np"
    then show "at (pwgts s3) q = (\<Sum>i = 0..<i + 1. if ?p i = q then vwt g i else 0)"
      using d3(2) st2(2) pw [of q] me pl i(1) by (auto simp: s1_def pw'_def sum_upto)
  next
    fix v assume v: "0 \<le> v" "v < i + 1"
    show "rinfo_ok g ?p s3 v"
    proof (cases "v = i")
      case True
      then show ?thesis using s3(3,4) by (simp add: rinfo_ok_def r0_def)
    next
      case False
      then have vi: "v \<in> {0..<i}" "v \<in> {0..<i + 1}" using v by auto
      have "rinfo_ok g ?p s3 v = rinfo_ok g ?p s2 v" using local_ok_others(3) [OF s3(2) vi(2) vA False] .
      also have "\<dots> = rinfo_ok g ?p s v"
        by (rule rinfo_ok_cong) (use st2(4) sl2 sl1 [OF vi(1)] ri1 [OF v(1)] False in auto)
      finally show ?thesis using r vi(1) by simp
    qed
  next
    fix v assume v: "0 \<le> v" "v < nvtxs g"
    show "on_bnd s3 v = (v < i + 1 \<and> conn g ?p v (?p v) \<le> ext g ?p v)"
      using s2(4) [OF v(1)] on_bnd_cong [OF d3(4)] on1 on [OF v] by auto
  next
    have "0 \<le> ?ed" by (rule ext_nonneg [OF g i])
    then show "(if ?ed > 0 then tot + ?ed else tot) = (\<Sum>i = 0..<i + 1. ext g ?p i)"
      using tot i(1) by (auto simp: sum_upto)
  qed
  ultimately show ?thesis by blast
qed

text \<open>What \<open>AllocateKWayPartitionMemory\<close> provides, and a store with room for one slot per edge.\<close>

definition kroom :: "mgraph \<Rightarrow> int \<Rightarrow> kstate \<Rightarrow> bool" where
  "kroom g n s \<longleftrightarrow> ilen (pwgts s) = n \<and> ilen (bndptr s) = nvtxs g \<and> ilen (bndind s) = nvtxs g
    \<and> ilen (rinfos s) = nvtxs g \<and> nedges g \<le> ilen (estore s)"

lemma waiting_all: "csr g \<Longrightarrow> waiting g {} s = nedges g"
proof -
  assume g: "csr g"
  have "waiting g {} s = (\<Sum>v = 0..<nvtxs g. \<Sum>j \<in> row g v. 1)"
    unfolding waiting_def by (rule sum.cong) (use csrD(4) [OF g] in \<open>auto simp: deg_def row_def\<close>)
  also have "\<dots> = (\<Sum>j = 0..<at (xadj g) (nvtxs g). 1)"
    by (rule row_decomp [OF g]) (use csrD(1) [OF g] in auto)
  also have "\<dots> = nedges g" using csrD(5) [OF g] nedges_nonneg [OF g] by simp
  finally show ?thesis .
qed

lemma idxset_at:
  assumes "0 \<le> n" "n \<le> ilen x"
  shows "\<exists>y. idxset n v x = Some y \<and> ilen y = ilen x \<and> (\<forall>i. 0 \<le> i \<and> i < n \<longrightarrow> at y i = v)"
  using idxset_spec [OF assms, of v] by (auto simp: ilen_def)

lemma ComputeKWayPartitionParams_ok:
  assumes g: "kgraph g" and p: "part_ok g n (wher s)" and room: "kroom g n s" and n: "0 \<le> n"
  shows "\<exists>s'. ComputeKWayPartitionParams g n s = Some s' \<and> kinv g n s' \<and> wher s' = wher s
    \<and> (\<forall>v. 0 \<le> v \<and> v < nvtxs g \<longrightarrow> on_bnd s' v = (conn g (at (wher s)) v (at (wher s) v) \<le> ext g (at (wher s)) v))"
proof -
  note c = kgraphD(2) [OF g] and nv = csrD(1) [OF kgraphD(2) [OF g]]
  have l: "ilen (pwgts s) = n" "ilen (bndptr s) = nvtxs g" "ilen (bndind s) = nvtxs g"
    "ilen (rinfos s) = nvtxs g" "nedges g \<le> ilen (estore s)" using room by (auto simp: kroom_def)
  obtain pw where pw: "idxset n 0 (pwgts s) = Some pw" "ilen pw = n" "\<And>q. 0 \<le> q \<Longrightarrow> q < n \<Longrightarrow> at pw q = 0"
    using idxset_at [of n "pwgts s" 0] n l(1) by auto
  obtain bp where bp: "idxset (nvtxs g) (- 1) (bndptr s) = Some bp" "ilen bp = nvtxs g"
    "\<And>v. 0 \<le> v \<Longrightarrow> v < nvtxs g \<Longrightarrow> at bp v = - 1"
    using idxset_at [of "nvtxs g" "bndptr s" "- 1"] nv l(2) by auto
  let ?s = "s\<lparr>pwgts := pw, bndptr := bp, cdegree := 0, nbnd := 0\<rparr>"
  have "blocks_ok g {} ?s" using l waiting_all [OF c] by (simp add: blocks_ok_def)
  moreover have "bnd_ok (nvtxs g) ?s" using l bp nv by (simp add: bnd_ok_def on_bnd_def)
  ultimately have i0: "init_inv g n (wher s) 0 (?s, 0)"
    using pw bp by (auto simp: init_inv_def on_bnd_def)
  have "\<exists>t. for_loop 0 (nvtxs g) (init_vertex g) (?s, 0) = Some t \<and> init_inv g n (wher s) (nvtxs g) t"
  proof (rule for_loop_rule [where P = "init_inv g n (wher s)"])
    fix i t assume "0 \<le> i" "i < nvtxs g" "init_inv g n (wher s) i t"
    then show "\<exists>t'. init_vertex g i t = Some t' \<and> init_inv g n (wher s) (i + 1) t'"
      using init_vertex_ok [OF g p] by (cases t) blast
  qed (use nv i0 in auto)
  then obtain s' tot where t: "for_loop 0 (nvtxs g) (init_vertex g) (?s, 0) = Some (s', tot)"
    "init_inv g n (wher s) (nvtxs g) (s', tot)" by (metis surj_pair)
  let ?r = "s'\<lparr>mincut := tot sdiv 2\<rparr>"
  have tot: "tot = cut2 g (at (wher s))" using t(2) by (simp add: init_inv_def cut2_ext)
  have "0 \<le> tot" unfolding tot cut2_ext by (rule sum_nonneg) (simp add: ext_nonneg [OF g])
  then have "2 * (tot sdiv 2) = tot" using even_cut2 [OF g] tot by (simp add: sdiv_nonneg)
  moreover have "blocks_ok g A ?r = blocks_ok g A s'" "rinfo_ok g q ?r v = rinfo_ok g q s' v"
    "bnd_ok m ?r = bnd_ok m s'" "on_bnd ?r v = on_bnd s' v" for A q v m
    by (rule blocks_ok_cong, simp_all add: rinfo_ok_def slots_def bnd_ok_def on_bnd_def)
  ultimately have "kinv g n ?r"
    using t(2) p tot by (simp add: kinv_def init_inv_def part_weight_def)
  moreover have "ComputeKWayPartitionParams g n s = Some ?r"
    using pw(1) bp(1) t(1) by (simp add: ComputeKWayPartitionParams_def)
  ultimately show ?thesis using t(2) by (intro exI [of _ ?r]) (simp add: init_inv_def on_bnd_def)
qed

end
