(* ===== verification/Mt_Kway_Move.thy ===== *)
theory Mt_Kway_Move
  imports Mt_Kway_Spec
begin

text \<open>
  The move of one vertex to another part, which the refinement routines of \<open>kwayfm.c\<close> and
  \<open>subdomains.c\<close> share: the degrees of the vertex are turned round, and a loop over its edges adjusts
  the degrees of the neighbours. \<open>edge_inv\<close> is the invariant of that loop.
\<close>

section \<open>Moving a vertex\<close>

text \<open>\<open>where[i] = to\<close>, with the cut and the degrees of \<open>i\<close>; the part of slot \<open>k\<close> is the new one.\<close>

definition flip_vertex :: "int \<Rightarrow> int \<Rightarrow> kstate \<Rightarrow> kstate option" where
  "flip_vertex i k s = do {
     r \<leftarrow> aget (rinfos s) i;
     (to, ed) \<leftarrow> slot s r k;
     from \<leftarrow> aget (wher s) i;
     wh \<leftarrow> aset (wher s) i to;
     s \<leftarrow> Some (s\<lparr>mincut := mincut s - (ed - rid r), wher := wh\<rparr>);
     s \<leftarrow> set_rinfo s i (r\<lparr>red := red r + (rid r - ed), rid := ed\<rparr>);
     s \<leftarrow> set_slot s r k (to, rid r);
     if rid r = 0 then drop_slot_at i k s else set_slot s r k (from, rid r) }"

text \<open>The degrees and the boundary status of a neighbour in part \<open>me\<close> of a vertex that goes from
  \<open>from\<close> to \<open>to\<close>. Which degrees \<open>(id, ed)\<close> put a vertex on the boundary and which take it off differs
  between the routines.\<close>

definition shift_degs ::
  "(int \<Rightarrow> int \<Rightarrow> bool) \<Rightarrow> (int \<Rightarrow> int \<Rightarrow> bool) \<Rightarrow> int \<Rightarrow> int \<Rightarrow> int \<Rightarrow> int \<Rightarrow> int \<Rightarrow> kstate \<Rightarrow> kstate option" where
  "shift_degs enters leaves from to me ii w s = do {
     r \<leftarrow> aget (rinfos s) ii;
     if me = from then do {
         r \<leftarrow> Some (r\<lparr>rid := rid r - w, red := red r + w\<rparr>);
         s \<leftarrow> set_rinfo s ii r;
         b \<leftarrow> aget (bndptr s) ii;
         if enters (rid r) (red r) \<and> b = - 1 then BNDInsert ii s else Some s }
       else if me = to then do {
         r \<leftarrow> Some (r\<lparr>rid := rid r + w, red := red r - w\<rparr>);
         s \<leftarrow> set_rinfo s ii r;
         b \<leftarrow> aget (bndptr s) ii;
         if leaves (rid r) (red r) \<and> b \<noteq> - 1 then BNDDelete ii s else Some s }
       else Some s }"

text \<open>The body of the loop over the edges of the vertex.\<close>

definition move_edge ::
  "(int \<Rightarrow> int \<Rightarrow> bool) \<Rightarrow> (int \<Rightarrow> int \<Rightarrow> bool) \<Rightarrow> mgraph \<Rightarrow> int \<Rightarrow> int \<Rightarrow> int \<Rightarrow> kstate \<Rightarrow> kstate option" where
  "move_edge enters leaves g from to j s = do {
     ii \<leftarrow> aget (adjncy g) j;
     me \<leftarrow> aget (wher s) ii;
     s \<leftarrow> take_block g ii s;
     w \<leftarrow> nget (adjwgt g) j;
     s \<leftarrow> shift_degs enters leaves from to me ii w s;
     s \<leftarrow> (if me \<noteq> from then sub_edeg ii from w s else Some s);
     if me \<noteq> to then add_edeg ii to w s else Some s }"

section \<open>Connections after a move\<close>

definition moved_to :: "(int \<Rightarrow> int) \<Rightarrow> int \<Rightarrow> int \<Rightarrow> int \<Rightarrow> int" where
  "moved_to p i q = p(i := q)"

lemma moved_to_simps [simp]: "moved_to p i q i = q" "v \<noteq> i \<Longrightarrow> moved_to p i q v = p v"
  by (simp_all add: moved_to_def)

lemma ew_edge:
  assumes "kgraph g" "0 \<le> v" "v < nvtxs g" "at (xadj g) v \<le> j" "j < at (xadj g) (v + 1)"
  shows "ew g v (at (adjncy g) j) = ewgt g j"
proof -
  have j: "j \<in> row g v" using assms by (simp add: row_def)
  have "ew g v (at (adjncy g) j) = (\<Sum>i \<in> row g v. if i = j then ewgt g i else 0)"
    unfolding ew_def rowsum_def
    by (rule sum.cong) (use inj_onD [OF kgraphD(4) [OF assms(1-3)] _ _ j] in auto)
  then show ?thesis using j by simp
qed

lemma ew_absent: "u \<notin> nbrs g v \<Longrightarrow> ew g v u = 0"
proof -
  assume "u \<notin> nbrs g v"
  then have "ew g v u = rowsum g (\<lambda>_. 0) v" unfolding ew_def by (intro rowsum_eqI) auto
  then show ?thesis by (simp add: rowsum_def)
qed

lemma rowsum_scale: "rowsum g (\<lambda>k. c * f k) v = c * rowsum g f v"
  by (simp add: rowsum_def sum_distrib_left mult.assoc)

lemma conn_move:
  assumes "p i = from"
  shows "conn g (moved_to p i to) v q
    = conn g p v q + ((if q = to then 1 else 0) - (if q = from then 1 else 0)) * ew g v i"
proof -
  let ?c = "(if q = to then 1 else 0) - (if q = from then 1 else 0) :: int"
  have "conn g (moved_to p i to) v q - conn g p v q = rowsum g (\<lambda>k. ?c * (if k = i then 1 else 0)) v"
    unfolding conn_def rowsum_diff by (rule rowsum_eqI) (use assms in \<open>auto simp: moved_to_def\<close>)
  then show ?thesis unfolding rowsum_scale ew_def by simp
qed

lemma conn_move_far: "i \<notin> nbrs g v \<Longrightarrow> conn g (moved_to p i to) v q = conn g p v q"
  using conn_move [of p i "p i" g to v q] ew_absent [of i g v] by simp

lemma ext_conn: "ext g p v = rowsum g (\<lambda>_. 1) v - conn g p v (p v)"
  using conn_plus_ext [of g p v] by simp

lemma image_move_far: "i \<notin> nbrs g v \<Longrightarrow> moved_to p i to ` nbrs g v = p ` nbrs g v"
  by (rule image_cong) (auto simp: moved_to_def)

lemma rinfo_ok_far:
  assumes "i \<notin> nbrs g v" "v \<noteq> i"
  shows "rinfo_ok g (moved_to p i to) s v = rinfo_ok g p s v"
  by (simp add: rinfo_ok_def row_is_def ext_conn conn_move_far [OF assms(1)] image_move_far [OF assms(1)] assms(2))

lemma cut2_move:
  assumes g: "kgraph g" and i: "0 \<le> i" "i < nvtxs g" and p: "p i = from" "from \<noteq> to"
  shows "cut2 g (moved_to p i to) = cut2 g p - 2 * (conn g p i to - conn g p i from)"
proof -
  let ?p = "moved_to p i to" and ?t = "\<lambda>v. rowsum g (\<lambda>_. 1) v"
  let ?d = "\<lambda>v. ((if p v = to then 1 else 0) - (if p v = from then 1 else 0)) * ew g i v"
  note c = kgraphD(2) [OF g]
  have self: "ew g i i = 0" using ew_absent kgraphD(5) [OF g i] by blast
  have "ext g ?p v = ext g p v - ?d v - (if v = i then conn g p i to - conn g p i from else 0)"
    if "v \<in> {0..<nvtxs g}" for v
  proof (cases "v = i")
    case True
    have "conn g ?p i to = conn g p i to" by (rule conn_move_far [OF kgraphD(5) [OF g i]])
    then show ?thesis using True p self by (simp add: ext_conn)
  next
    case False
    then show ?thesis
      using conn_move [of p i "from" g to v "p v", OF p(1)] kgraphD(8) [OF g, of v i] that i
      by (simp add: ext_conn)
  qed
  then have "cut2 g ?p = (\<Sum>v = 0..<nvtxs g. ext g p v - ?d v - (if v = i then conn g p i to - conn g p i from else 0))"
    unfolding cut2_ext by (rule sum.cong [OF refl])
  also have "\<dots> = cut2 g p - (\<Sum>v = 0..<nvtxs g. ?d v) - (conn g p i to - conn g p i from)"
    using i by (simp add: sum_subtractf cut2_ext)
  also have "(\<Sum>v = 0..<nvtxs g. ?d v) = conn g p i to - conn g p i from"
    unfolding conn_def rowsum_diff by (rule rowsum_ew [OF c i, symmetric])
  finally show ?thesis by simp
qed

lemma part_weight_move:
  assumes i: "0 \<le> i" "i < nvtxs g" and p: "p i = from"
  shows "part_weight g (moved_to p i to) q
    = part_weight g p q + (if q = to then vwt g i else 0) - (if q = from then vwt g i else 0)"
proof -
  have "part_weight g (moved_to p i to) q = (\<Sum>v = 0..<nvtxs g. (if p v = q then vwt g v else 0)
      + (if v = i then (if q = to then vwt g i else 0) - (if q = from then vwt g i else 0) else 0))"
    unfolding part_weight_def by (rule sum.cong) (use p in auto)
  then show ?thesis using i by (simp add: sum.distrib part_weight_def)
qed

lemma part_ok_move:
  assumes "part_ok g n wh" "0 \<le> i" "i < nvtxs g" "0 \<le> q" "q < n"
  shows "part_ok g n (upd wh i q)"
  using assms by (auto simp: part_ok_def)

text \<open>Facts on vertices depend on the parts of the vertices only.\<close>

lemma nbrs_vertex: "kgraph g \<Longrightarrow> 0 \<le> v \<Longrightarrow> v < nvtxs g \<Longrightarrow> u \<in> nbrs g v \<Longrightarrow> 0 \<le> u \<and> u < nvtxs g"
  using kgraph_edge(3,4) [of g v] by (auto simp: nbrs_def row_def)

lemma rinfo_ok_part:
  assumes "kgraph g" "0 \<le> v" "v < nvtxs g" "\<And>u. 0 \<le> u \<Longrightarrow> p u = q u"
  shows "rinfo_ok g p s v = rinfo_ok g q s v"
proof -
  have n: "p u = q u" if "u \<in> nbrs g v" for u using nbrs_vertex [OF assms(1-3) that] assms(4) by simp
  have "conn g p v k = conn g q v k" for k unfolding conn_def by (rule rowsum_eqI) (simp add: n)
  moreover have "ext g p v = ext g q v" unfolding ext_def by (rule rowsum_eqI) (simp add: n assms(2,4))
  moreover have "p ` nbrs g v = q ` nbrs g v" by (rule image_cong) (simp_all add: n)
  ultimately show ?thesis using assms(2,4) by (simp add: rinfo_ok_def row_is_def)
qed

lemma cut2_part:
  assumes "kgraph g" "\<And>u. 0 \<le> u \<Longrightarrow> p u = q u"
  shows "cut2 g p = cut2 g q" "part_weight g p k = part_weight g q k"
proof -
  have "ext g p v = ext g q v" if "v \<in> {0..<nvtxs g}" for v
    unfolding ext_def
    by (rule rowsum_eqI) (use nbrs_vertex [OF assms(1), of v] that assms(2) in auto)
  then show "cut2 g p = cut2 g q" unfolding cut2_ext by (rule sum.cong [OF refl])
  show "part_weight g p k = part_weight g q k"
    unfolding part_weight_def by (rule sum.cong) (use assms(2) in auto)
qed

lemma at_upd_moved: "0 \<le> i \<Longrightarrow> i < ilen wh \<Longrightarrow> 0 \<le> u \<Longrightarrow> at (upd wh i q) u = moved_to (at wh) i q u"
  by simp

lemma row_replace:
  assumes d: "distinct (map fst al)" and k: "0 \<le> k" "k < ilen al" "fst (at al k) = q" and r: "r \<notin> fst ` set al"
  shows "distinct (map fst (upd al k (r, x)))" "fst ` set (upd al k (r, x)) = insert r (fst ` set al - {q})"
    "row_get a (upd al k (r, x)) = (if a = r then x else if a = q then 0 else row_get a al)"
proof -
  let ?m = "nat k"
  have m: "?m < length al" using k by (simp add: ilen_def nat_less_iff)
  obtain w where w: "al ! ?m = (q, w)" using k(3) by (metis at_def prod.collapse)
  define xs ys where "xs = take ?m al" and "ys = drop (Suc ?m) al"
  have al: "al = xs @ (q, w) # ys" using id_take_nth_drop [OF m] w by (simp add: xs_def ys_def)
  have up: "upd al k (r, x) = xs @ (r, x) # ys"
    using upd_conv_take_nth_drop [OF m, of "(r, x)"] by (simp add: upd_def xs_def ys_def)
  show d': "distinct (map fst (upd al k (r, x)))" unfolding up using d r by (auto simp: al)
  show "fst ` set (upd al k (r, x)) = insert r (fst ` set al - {q})" unfolding up using d by (auto simp: al)
  show "row_get a (upd al k (r, x)) = (if a = r then x else if a = q then 0 else row_get a al)"
  proof (cases "a = r \<or> a = q")
    case True
    have q: "q \<notin> fst ` set xs" "q \<notin> fst ` set ys" "r \<noteq> q" "r \<notin> fst ` set xs" "r \<notin> fst ` set ys"
      using d r unfolding al by auto
    then have "q \<notin> fst ` set (upd al k (r, x))" unfolding up by auto
    moreover have "row_get r (upd al k (r, x)) = x"
      using row_del_split(2) [of xs r x ys] d' unfolding up by simp
    ultimately show ?thesis using True q(3) by auto
  next
    case False
    then show ?thesis using d' d unfolding up by (simp add: row_get_rsum) (simp add: al)
  qed
qed

lemma row_keep_key:
  assumes "distinct (map fst al)" "0 \<le> k" "k < ilen al" "fst (at al k) = q"
  shows "distinct (map fst (upd al k (q, x)))" "fst ` set (upd al k (q, x)) = fst ` set al"
    "a \<noteq> q \<Longrightarrow> row_get a (upd al k (q, x)) = row_get a al"
proof -
  have u: "upd al k (q, x) = row_add q (x - row_get q al) al"
    using row_add_at [OF assms] assms(4) by simp
  have i: "insert q (fst ` set al) = fst ` set al" using row_add_at(3) [OF assms] by blast
  show "distinct (map fst (upd al k (q, x)))" "fst ` set (upd al k (q, x)) = fst ` set al"
    "a \<noteq> q \<Longrightarrow> row_get a (upd al k (q, x)) = row_get a al"
    unfolding u using assms(1) i by (simp_all add: distinct_row_add keys_row_add)
qed

text \<open>The slots of the vertex itself: its new part goes, its old part comes in.\<close>

lemma row_is_flip:
  assumes g: "kgraph g" and i: "0 \<le> i" "i < nvtxs g" and al: "row_is g p i al"
    and k: "0 \<le> k" "k < ilen al" "fst (at al k) = to" and p: "p i = from"
  shows "from \<noteq> to" "snd (at al k) = conn g p i to"
    "conn g p i from \<noteq> 0 \<Longrightarrow> row_is g (moved_to p i to) i (upd al k (from, conn g p i from))"
    "conn g p i from = 0 \<Longrightarrow> row_is g (moved_to p i to) i (row_del to (upd al k (to, 0)))"
proof -
  have d: "distinct (map fst al)" and f: "from \<notin> fst ` set al" and s: "fst ` set al \<subseteq> p ` nbrs g i"
    and r: "\<And>q. q \<noteq> from \<Longrightarrow> row_get q al = conn g p i q" using al p by (auto simp: row_is_def)
  note a = row_add_at [OF d k]
  show ne: "from \<noteq> to" using a(3) f by auto
  then show "snd (at al k) = conn g p i to" using a(2) r [of to] by simp
  have c: "conn g (moved_to p i to) i q = conn g p i q" for q
    by (rule conn_move_far [OF kgraphD(5) [OF g i]])
  have img: "moved_to p i to ` nbrs g i = p ` nbrs g i" by (rule image_move_far [OF kgraphD(5) [OF g i]])
  show "row_is g (moved_to p i to) i (upd al k (from, conn g p i from))" if "conn g p i from \<noteq> 0"
  proof -
    note rr = row_replace [OF d k f, where x = "conn g p i from"]
    have "from \<in> p ` nbrs g i" using conn_absent that by metis
    then show ?thesis using rr(1,2) rr(3) r s ne c img by (auto simp: row_is_def)
  qed
  show "row_is g (moved_to p i to) i (row_del to (upd al k (to, 0)))" if "conn g p i from = 0"
  proof -
    note kk = row_keep_key [OF d k, where x = 0]
    have "row_get q (row_del to (upd al k (to, 0))) = conn g p i q" if "q \<noteq> to" for q
      using row_get_del [OF kk(1), of q to] kk(3) [OF that] r [of q] f that \<open>conn g p i from = 0\<close> by (cases "q = from") auto
    then show ?thesis using row_del_facts(2,3) [OF kk(1), of to] kk(2) s ne c img by (auto simp: row_is_def)
  qed
qed

lemma kstate_wher_cong:
  "blocks_ok g A (s\<lparr>mincut := m, wher := w\<rparr>) = blocks_ok g A s" "slots (s\<lparr>mincut := m, wher := w\<rparr>) v = slots s v"
  by (rule blocks_ok_cong, simp_all add: slots_def)

lemma flip_vertex_ok:
  assumes g: "kgraph g" and p: "part_ok g n (wher s)" and b: "blocks_ok g {0..<nvtxs g} s"
    and r: "\<And>v. 0 \<le> v \<Longrightarrow> v < nvtxs g \<Longrightarrow> rinfo_ok g (at (wher s)) s v"
    and i: "0 \<le> i" "i < nvtxs g" and k: "0 \<le> k" "k < ndegrees (at (rinfos s) i)"
    and to: "to = fst (at (slots s i) k)"
  defines "from \<equiv> at (wher s) i"
  shows "\<exists>s'. flip_vertex i k s = Some s' \<and> wher s' = upd (wher s) i to \<and> blocks_ok g {0..<nvtxs g} s'
    \<and> pwgts s' = pwgts s \<and> bndptr s' = bndptr s \<and> bndind s' = bndind s \<and> nbnd s' = nbnd s
    \<and> mincut s' = mincut s - (conn g (at (wher s)) i to - conn g (at (wher s)) i from)
    \<and> rinfo_ok g (moved_to (at (wher s)) i to) s' i
    \<and> (\<forall>v. 0 \<le> v \<and> v < nvtxs g \<and> v \<noteq> i \<longrightarrow> rinfo_ok g (at (wher s)) s' v)"
proof -
  let ?p = "at (wher s)" and ?A = "{0..<nvtxs g}"
  let ?f = "conn g ?p i from" and ?t = "conn g ?p i to"
  have iA: "i \<in> ?A" using i by simp
  note c = kgraphD(2) [OF g] and l = blocks_vertex [OF b iA]
  have ri: "rid (at (rinfos s) i) = ?f" "red (at (rinfos s) i) = ext g ?p i" "row_is g ?p i (slots s i)"
    using r [OF i] by (simp_all add: rinfo_ok_def from_def)
  have kl: "k < ilen (slots s i)" using l(4) k by simp
  have fr: "?p i = from" by (simp add: from_def)
  note fl = row_is_flip [OF g i ri(3) k(1) kl to [symmetric] fr]
  have d: "distinct (map fst (slots s i))" using ri(3) by (simp add: row_is_def)
  let ?r = "at (rinfos s) i"
  define s1 where "s1 = s\<lparr>mincut := mincut s - (?t - ?f), wher := upd (wher s) i to\<rparr>"
  have b1: "blocks_ok g ?A s1" and r1: "rinfos s1 = rinfos s" and sl1: "slots s1 v = slots s v" for v
    using b by (simp_all add: s1_def kstate_wher_cong)
  let ?r' = "?r\<lparr>red := red ?r + (rid ?r - ?t), rid := ?t\<rparr>"
  obtain s2 where s2: "set_rinfo s1 i ?r' = Some s2" "local_ok g ?A i s1 s2" "slots s2 i = slots s1 i" "at (rinfos s2) i = ?r'"
    using set_degs_ok [OF b1 iA, where r = ?r' and x = ?t and y = "red ?r + (rid ?r - ?t)"] r1 by auto
  note d2 = local_okD [OF s2(2)]
  have k2: "k < ndegrees (at (rinfos s2) i)" using s2(4) k by simp
  have ss: "set_slot s2 ?r k x = set_slot s2 (at (rinfos s2) i) k x" for x
    using s2(4) by (simp add: set_slot_def)
  obtain s3 where s3: "set_slot s2 ?r k (to, ?f) = Some s3" "local_ok g ?A i s2 s3"
    "slots s3 i = upd (slots s i) k (to, ?f)" "rinfos s3 = rinfos s2"
    using set_slot_ok [OF d2(7) iA c k(1) k2, of "(to, ?f)"] ss s2(3) sl1 by auto
  note d3 = local_okD [OF s3(2)]
  have k3: "k < ndegrees (at (rinfos s3) i)" using s3(4) k2 by simp
  have ss3: "set_slot s3 ?r k x = set_slot s3 (at (rinfos s3) i) k x" for x
    using s2(4) s3(4) by (simp add: set_slot_def)
  have kk: "distinct (map fst (slots s3 i))" "fst (at (slots s3 i) k) = to"
    using row_keep_key(1) [OF d k(1) kl to [symmetric]] k(1) kl by (simp_all add: s3(3))
  obtain s4 where s4: "(if rid ?r = 0 then drop_slot_at i k s3 else set_slot s3 ?r k (from, rid ?r)) = Some s4"
    "local_ok g ?A i s3 s4" "row_is g (moved_to ?p i to) i (slots s4 i)"
    "rid (at (rinfos s4) i) = ?t \<and> red (at (rinfos s4) i) = red ?r + (rid ?r - ?t)"
  proof (cases "?f = 0")
    case True
    from drop_slot_at_ok [OF d3(7) iA c kk(1) k(1) k3 kk(2)] obtain t where t: "drop_slot_at i k s3 = Some t"
      "local_ok g ?A i s3 t" "slots t i = row_del to (slots s3 i)"
      "at (rinfos t) i = (at (rinfos s3) i)\<lparr>ndegrees := ndegrees (at (rinfos s3) i) - 1\<rparr>" by blast
    then show ?thesis using that [of t] fl(4) True ri(1) s3(3,4) s2(4) by simp
  next
    case False
    from set_slot_ok [OF d3(7) iA c k(1) k3, of "(from, ?f)"] obtain t where t:
      "set_slot s3 (at (rinfos s3) i) k (from, ?f) = Some t" "local_ok g ?A i s3 t"
      "slots t i = upd (slots s3 i) k (from, ?f)" "rinfos t = rinfos s3" by blast
    have "slots t i = upd (slots s i) k (from, ?f)" using t(3) s3(3) by (simp add: upd_def)
    then show ?thesis using that [of t] t fl(3) False ri(1) s3(4) s2(4) ss3 by simp
  qed
  note d4 = local_okD [OF s4(2)]
  have sl: "slot s ?r k = Some (to, ?t)"
    using slot_at [OF b iA k c] to fl(2) by (simp add: prod_eq_iff)
  have "flip_vertex i k s = Some s4"
  proof -
    have a: "aget (rinfos s) i = Some ?r" "aget (wher s) i = Some from" "aset (wher s) i to = Some (upd (wher s) i to)"
      using l p i by (simp_all add: arr part_ok_def from_def)
    show ?thesis
      unfolding flip_vertex_def a sl Option.bind.bind_lunit prod.case
      unfolding ri(1) s1_def [symmetric] s2(1) [unfolded ri(1)] Option.bind.bind_lunit s3(1) s4(1) [unfolded ri(1)] by (rule refl)
  qed
  moreover have "rinfo_ok g (moved_to ?p i to) s4 i"
  proof -
    have "conn g (moved_to ?p i to) i q = conn g ?p i q" for q
      by (rule conn_move_far [OF kgraphD(5) [OF g i]])
    then show ?thesis using s4(3,4) ri fr by (simp add: rinfo_ok_def ext_conn)
  qed
  moreover have "rinfo_ok g ?p s4 v" if v: "0 \<le> v" "v < nvtxs g" "v \<noteq> i" for v
  proof -
    have vA: "v \<in> ?A" using v by simp
    have "rinfo_ok g ?p s4 v = rinfo_ok g ?p s1 v"
      using local_ok_others(3) [OF s4(2) vA iA v(3)] local_ok_others(3) [OF s3(2) vA iA v(3)]
        local_ok_others(3) [OF s2(2) vA iA v(3)] by simp
    also have "\<dots> = rinfo_ok g ?p s v" by (rule rinfo_ok_cong) (simp_all add: r1 sl1)
    finally show ?thesis using r v by simp
  qed
  ultimately show ?thesis
    using d2 d3 d4 by (intro exI [of _ s4]) (simp add: s1_def)
qed

text \<open>The slots of a neighbour, after both updates.\<close>

lemma row_is_move:
  assumes g: "kgraph g" and i: "0 \<le> i" "i < nvtxs g" and v: "0 \<le> v" "v < nvtxs g" "i \<in> nbrs g v" "v \<noteq> i"
    and al: "row_is g p v al" and p: "p i = from" "from \<noteq> to" and w: "w = ew g v i" "0 \<le> w"
  defines "al1 \<equiv> if p v \<noteq> from then row_sub from w al else al"
  defines "al2 \<equiv> if p v \<noteq> to then row_add to w al1 else al1"
  shows "distinct (map fst al1)" "fst ` set al1 \<subseteq> moved_to p i to ` nbrs g v" "row_is g (moved_to p i to) v al2"
proof -
  let ?q = "moved_to p i to"
  have d: "distinct (map fst al)" and f: "p v \<notin> fst ` set al" and s: "fst ` set al \<subseteq> p ` nbrs g v"
    and r: "\<And>q. q \<noteq> p v \<Longrightarrow> row_get q al = conn g p v q" using al by (auto simp: row_is_def)
  note sub = row_sub_facts [OF d, where q = "from" and w = w]
  have c: "conn g ?q v q = conn g p v q + ((if q = to then 1 else 0) - (if q = from then 1 else 0)) * w" for q
    using conn_move [of p i "from" g to v q, OF p(1)] w(1) by simp
  show d1: "distinct (map fst al1)" using d sub(1) by (simp add: al1_def)
  have k1: "fst ` set al1 \<subseteq> fst ` set al" using sub(2) by (auto simp: al1_def)
  have to: "to \<in> ?q ` nbrs g v" using v(3) by (intro image_eqI [of _ _ i]) simp_all
  have other: "q \<in> ?q ` nbrs g v" if "q \<in> p ` nbrs g v" "q \<noteq> from" for q
  proof -
    from that(1) obtain u where "u \<in> nbrs g v" "q = p u" by auto
    moreover then have "u \<noteq> i" using that(2) p(1) by auto
    ultimately show ?thesis by (intro image_eqI [of _ _ u]) simp_all
  qed
  have fr: "from \<in> ?q ` nbrs g v" if "from \<in> fst ` set al1"
  proof -
    have "p v \<noteq> from" using that k1 f by auto
    moreover have "row_get from al \<noteq> w"
      using row_sub_gone [OF d, of "from" w] that calculation by (auto simp: al1_def)
    ultimately have "conn g ?q v from \<noteq> 0" using r [of "from"] c [of "from"] p(2) by simp
    then show ?thesis using conn_absent by metis
  qed
  show k2: "fst ` set al1 \<subseteq> ?q ` nbrs g v"
    using k1 s other fr by (metis (no_types, lifting) subsetD subsetI)
  have g1: "row_get q al1 = conn g p v q - (if q = from then w else 0)" if "q \<noteq> p v" for q
  proof (cases "q = from")
    case True
    then have pv: "p v \<noteq> from" using that by simp
    show ?thesis
    proof (cases "from \<in> fst ` set al")
      case True
      then show ?thesis using pv sub(3) [of "from"] r [of "from"] \<open>q = from\<close> by (simp add: al1_def)
    next
      case False
      then have "conn g p v from = 0" using r [of "from"] pv by simp
      moreover have "0 \<le> conn g ?q v from" by (rule conn_nonneg [OF g v(1,2)])
      ultimately have "w = 0" using c [of "from"] p(2) w(2) by simp
      with False pv r [of "from"] \<open>q = from\<close> show ?thesis by (simp add: al1_def row_sub_def)
    qed
  next
    case False
    then show ?thesis using sub(3) [of q] r [OF that] by (simp add: al1_def)
  qed
  have "distinct (map fst al2)" "fst ` set al2 \<subseteq> ?q ` nbrs g v" "p v \<notin> fst ` set al2"
    using d1 k2 to f k1 by (auto simp: al2_def distinct_row_add keys_row_add)
  moreover have "row_get q al2 = conn g ?q v q" if "q \<noteq> p v" for q
    using g1 [OF that] c [of q] that p(2) by (auto simp: al2_def)
  ultimately show "row_is g ?q v al2" using v(4) by (simp add: row_is_def)
qed

lemma bnd_insert_if:
  assumes b: "bnd_ok n s" and v: "0 \<le> v" "v < n"
  shows "\<exists>s'. (if c \<and> at (bndptr s) v = - 1 then BNDInsert v s else Some s) = Some s' \<and> bnd_step s s' \<and> bnd_ok n s'
    \<and> (\<forall>u. 0 \<le> u \<and> u < n \<longrightarrow> on_bnd s' u = (on_bnd s u \<or> c \<and> u = v))"
proof (cases "on_bnd s v")
  case True
  then show ?thesis using b by (auto simp: on_bnd_def)
next
  case False
  then have "at (bndptr s) v = - 1" by (simp add: on_bnd_def)
  with BNDInsert_ok [OF b v False] b show ?thesis by (cases c) auto
qed

lemma bnd_delete_if:
  assumes b: "bnd_ok n s" and v: "0 \<le> v" "v < n"
  shows "\<exists>s'. (if c \<and> at (bndptr s) v \<noteq> - 1 then BNDDelete v s else Some s) = Some s' \<and> bnd_step s s' \<and> bnd_ok n s'
    \<and> (\<forall>u. 0 \<le> u \<and> u < n \<longrightarrow> on_bnd s' u = (on_bnd s u \<and> \<not> (c \<and> u = v)))"
proof (cases "on_bnd s v")
  case False
  then show ?thesis using b by (auto simp: on_bnd_def)
next
  case True
  then have "at (bndptr s) v \<noteq> - 1" by (simp add: on_bnd_def)
  with BNDDelete_ok [OF b v True] b show ?thesis by (cases c) auto
qed

text \<open>Steps that change the degrees of \<open>v\<close> and the boundary.\<close>

definition near_ok :: "mgraph \<Rightarrow> int \<Rightarrow> kstate \<Rightarrow> kstate \<Rightarrow> bool" where
  "near_ok g v s s' \<longleftrightarrow> wher s' = wher s \<and> pwgts s' = pwgts s \<and> mincut s' = mincut s
    \<and> blocks_ok g {0..<nvtxs g} s' \<and> bnd_ok (nvtxs g) s'
    \<and> (\<forall>u. 0 \<le> u \<and> u < nvtxs g \<and> u \<noteq> v \<longrightarrow> slots s' u = slots s u \<and> at (rinfos s') u = at (rinfos s) u)"

lemma near_ok_trans: "near_ok g v s t \<Longrightarrow> near_ok g v t u \<Longrightarrow> near_ok g v s u"
  by (simp add: near_ok_def)

lemma near_local:
  assumes "local_ok g {0..<nvtxs g} v s s'" "0 \<le> v" "v < nvtxs g" "bnd_ok (nvtxs g) s"
  shows "near_ok g v s s'"
proof -
  have "v \<in> {0..<nvtxs g}" using assms by simp
  note o = local_ok_others [OF assms(1) _ this] and d = local_okD [OF assms(1)]
  show ?thesis using o d bnd_ok_cong [OF d(4-6), of "nvtxs g"] assms(4) by (simp add: near_ok_def)
qed

lemma near_bnd: "bnd_step s s' \<Longrightarrow> bnd_ok (nvtxs g) s' \<Longrightarrow> blocks_ok g {0..<nvtxs g} s \<Longrightarrow> near_ok g v s s'"
  using bnd_step_slots [of s s'] bnd_step_blocks [of s s'] by (simp add: near_ok_def bnd_stepD)

lemma shift_degs_ok:
  fixes me w :: int
  assumes b: "blocks_ok g {0..<nvtxs g} s" and bo: "bnd_ok (nvtxs g) s" and v: "0 \<le> v" "v < nvtxs g" and ft: "from \<noteq> to"
  defines "r \<equiv> at (rinfos s) v"
  defines "d \<equiv> (if me = to then w else 0) - (if me = from then w else 0)"
  shows "\<exists>s'. shift_degs enters leaves from to me v w s = Some s' \<and> near_ok g v s s' \<and> slots s' v = slots s v
    \<and> at (rinfos s') v = r\<lparr>rid := rid r + d, red := red r - d\<rparr>
    \<and> (\<forall>u. 0 \<le> u \<and> u < nvtxs g \<longrightarrow> on_bnd s' u =
         (if u \<noteq> v then on_bnd s u else if me = from then on_bnd s v \<or> enters (rid r + d) (red r - d)
          else if me = to then on_bnd s v \<and> \<not> leaves (rid r + d) (red r - d) else on_bnd s v))"
proof (cases "me = from \<or> me = to")
  case False
  have "aget (rinfos s) v = Some r" using v b by (simp add: arr blocks_ok_def r_def)
  then have "shift_degs enters leaves from to me v w s = Some s" using False by (simp add: shift_degs_def)
  moreover have "near_ok g v s s" using b bo by (simp add: near_ok_def)
  ultimately show ?thesis using False by (intro exI [of _ s]) (simp add: d_def r_def)
next
  case True
  have vA: "v \<in> {0..<nvtxs g}" using v by simp
  let ?r = "r\<lparr>rid := rid r + d, red := red r - d\<rparr>"
  obtain s1 where s1: "set_rinfo s v ?r = Some s1" "local_ok g {0..<nvtxs g} v s s1" "slots s1 v = slots s v"
    "at (rinfos s1) v = ?r"
    using set_degs_ok [OF b vA, where r = ?r and x = "rid r + d" and y = "red r - d"] by (auto simp: r_def)
  note d1 = local_okD [OF s1(2)]
  have bo1: "bnd_ok (nvtxs g) s1" using bnd_ok_cong [OF d1(4-6)] bo by simp
  have on1: "on_bnd s1 u = on_bnd s u" for u using on_bnd_cong [OF d1(4)] .
  have n1: "near_ok g v s s1" by (rule near_local [OF s1(2) v bo])
  have ag: "aget (rinfos s) v = Some r" "aget (bndptr s1) v = Some (at (bndptr s1) v)"
    using v b bnd_okD(1) [OF bo1] by (simp_all add: arr blocks_ok_def r_def)
  show ?thesis
  proof (cases "me = from")
    case True
    then have r: "?r = r\<lparr>rid := rid r - w, red := red r + w\<rparr>" using ft by (simp add: d_def)
    obtain s2 where s2: "(if enters (rid r + d) (red r - d) \<and> at (bndptr s1) v = - 1 then BNDInsert v s1 else Some s1) = Some s2"
      "bnd_step s1 s2" "bnd_ok (nvtxs g) s2"
      "\<And>u. 0 \<le> u \<Longrightarrow> u < nvtxs g \<Longrightarrow> on_bnd s2 u = (on_bnd s1 u \<or> enters (rid r + d) (red r - d) \<and> u = v)"
      using bnd_insert_if [OF bo1 v, of "enters (rid r + d) (red r - d)"] by blast
    have "shift_degs enters leaves from to me v w s = Some s2"
      using True ag s1(1) s2(1) ft by (simp add: shift_degs_def d_def)
    moreover have "near_ok g v s s2" using near_ok_trans [OF n1 near_bnd [OF s2(2,3) d1(7)]] .
    ultimately show ?thesis using s1(3,4) bnd_step_slots [OF s2(2)] bnd_stepD(4) [OF s2(2)] s2(4) on1 True
      by (intro exI [of _ s2]) auto
  next
    case False
    with True have me: "me = to" by simp
    obtain s2 where s2: "(if leaves (rid r + d) (red r - d) \<and> at (bndptr s1) v \<noteq> - 1 then BNDDelete v s1 else Some s1) = Some s2"
      "bnd_step s1 s2" "bnd_ok (nvtxs g) s2"
      "\<And>u. 0 \<le> u \<Longrightarrow> u < nvtxs g \<Longrightarrow> on_bnd s2 u = (on_bnd s1 u \<and> \<not> (leaves (rid r + d) (red r - d) \<and> u = v))"
      using bnd_delete_if [OF bo1 v, of "leaves (rid r + d) (red r - d)"] by blast
    have "shift_degs enters leaves from to me v w s = Some s2"
      using me ag s1(1) s2(1) ft by (simp add: shift_degs_def d_def)
    moreover have "near_ok g v s s2" using near_ok_trans [OF n1 near_bnd [OF s2(2,3) d1(7)]] .
    ultimately show ?thesis using s1(3,4) bnd_step_slots [OF s2(2)] bnd_stepD(4) [OF s2(2)] s2(4) on1 False me
      by (intro exI [of _ s2]) auto
  qed
qed

text \<open>The boundary status of a neighbour in part \<open>me\<close> with the new degrees \<open>r\<close>.\<close>

definition bnd_rule ::
  "(int \<Rightarrow> int \<Rightarrow> bool) \<Rightarrow> (int \<Rightarrow> int \<Rightarrow> bool) \<Rightarrow> int \<Rightarrow> int \<Rightarrow> int \<Rightarrow> rinfo \<Rightarrow> bool \<Rightarrow> bool" where
  "bnd_rule enters leaves from to me r on =
     (if me = from then on \<or> enters (rid r) (red r) else if me = to then on \<and> \<not> leaves (rid r) (red r) else on)"

lemma blocks_full: "has_block g s v e \<Longrightarrow> ndegrees (at (rinfos s) v) \<le> deg g v"
  by (simp add: has_block_def)

lemma move_edge_ok:
  assumes g: "kgraph g" and wh: "part_ok g n (wher s)" and i: "0 \<le> i" "i < nvtxs g"
    and p: "p i = from" "from \<noteq> to" "\<And>u. 0 \<le> u \<Longrightarrow> at (wher s) u = moved_to p i to u"
    and j: "at (xadj g) i \<le> j" "j < at (xadj g) (i + 1)"
    and b: "blocks_ok g {0..<nvtxs g} s" and bo: "bnd_ok (nvtxs g) s"
    and r: "rinfo_ok g p s (at (adjncy g) j)"
  defines "v \<equiv> at (adjncy g) j"
  shows "\<exists>s'. move_edge enters leaves g from to j s = Some s' \<and> near_ok g v s s'
    \<and> rinfo_ok g (moved_to p i to) s' v
    \<and> (\<forall>u. 0 \<le> u \<and> u < nvtxs g \<longrightarrow> on_bnd s' u =
        (if u = v then bnd_rule enters leaves from to (p v) (at (rinfos s') v) (on_bnd s v) else on_bnd s u))"
proof -
  let ?A = "{0..<nvtxs g}" and ?w = "ewgt g j" and ?me = "p v"
  note c = kgraphD(2) [OF g]
  note e = kgraph_edge [OF g i j, folded v_def]
  note v = e(3,4)
  have vi: "v \<noteq> i" using e(5) kgraphD(5) [OF g i] by auto
  have iv: "i \<in> nbrs g v" using kgraphD(7) [OF g v i] e(5) by blast
  have vA: "v \<in> ?A" using v by simp
  have ew: "ew g v i = ?w" using ew_edge [OF g i j] kgraphD(8) [OF g i v] by (simp add: v_def)
  have me: "aget (wher s) v = Some ?me"
    using part_vertex(1) [OF wh v] p(3) [OF v(1)] vi by simp
  have r0: "rid (at (rinfos s) v) = conn g p v ?me" "red (at (rinfos s) v) = ext g p v" "row_is g p v (slots s v)"
    using r by (simp_all add: rinfo_ok_def v_def)
  obtain s1 f where s1: "take_block g v s = Some s1" "local_ok g ?A v s s1" "slots s1 v = slots s v"
    "at (rinfos s1) v = (at (rinfos s) v)\<lparr>edegrees := Some f\<rparr>"
    using take_block_ok [OF b c vA] by blast
  note d1 = local_okD [OF s1(2)]
  have bo1: "bnd_ok (nvtxs g) s1" using bnd_ok_cong [OF d1(4-6)] bo by simp
  have n1: "near_ok g v s s1" by (rule near_local [OF s1(2) v bo])
  let ?d = "(if ?me = to then ?w else 0) - (if ?me = from then ?w else 0)"
  obtain s2 where s2: "shift_degs enters leaves from to ?me v ?w s1 = Some s2" "near_ok g v s1 s2" "slots s2 v = slots s1 v"
    "at (rinfos s2) v = (at (rinfos s1) v)\<lparr>rid := rid (at (rinfos s1) v) + ?d, red := red (at (rinfos s1) v) - ?d\<rparr>"
    and on2: "\<And>u. 0 \<le> u \<Longrightarrow> u < nvtxs g \<Longrightarrow> on_bnd s2 u = (if u \<noteq> v then on_bnd s1 u
      else bnd_rule enters leaves from to ?me (at (rinfos s2) v) (on_bnd s1 v))"
    using shift_degs_ok [OF d1(7) bo1 v p(2), of enters leaves ?me ?w] by (auto simp: bnd_rule_def)
  have b2: "blocks_ok g ?A s2" and bo2: "bnd_ok (nvtxs g) s2" using s2(2) by (simp_all add: near_ok_def)
  note rm = row_is_move [OF g i v iv vi r0(3) p(1,2) ew [symmetric] e(6)]
  have d2: "distinct (map fst (slots s2 v))" using s2(3) s1(3) r0(3) by (simp add: row_is_def)
  let ?al1 = "if ?me \<noteq> from then row_sub from ?w (slots s v) else slots s v"
  obtain s3 m where s3: "(if ?me \<noteq> from then sub_edeg v from ?w s2 else Some s2) = Some s3" "local_ok g ?A v s2 s3"
    "slots s3 v = ?al1" "at (rinfos s3) v = (at (rinfos s2) v)\<lparr>ndegrees := m\<rparr>"
  proof (cases "?me = from")
    case True
    then show ?thesis using that [of s2 "ndegrees (at (rinfos s2) v)"] b2 s2(3) s1(3) by (simp add: local_ok_def)
  next
    case False
    then show ?thesis using sub_edeg_ok [OF b2 vA c d2, of "from" ?w] that s2(3) s1(3) by auto
  qed
  have b3: "blocks_ok g ?A s3" by (rule local_okD(7) [OF s3(2)])
  have f3: "edegrees (at (rinfos s3) v) = Some f" using s3(4) s2(4) s1(4) by simp
  let ?al2 = "if ?me \<noteq> to then row_add to ?w ?al1 else ?al1"
  obtain s4 m' where s4: "(if ?me \<noteq> to then add_edeg v to ?w s3 else Some s3) = Some s4" "local_ok g ?A v s3 s4"
    "slots s4 v = ?al2" "at (rinfos s4) v = (at (rinfos s3) v)\<lparr>ndegrees := m'\<rparr>"
  proof (cases "?me = to")
    case True
    then show ?thesis using that [of s3 "ndegrees (at (rinfos s3) v)"] b3 s3(3) by (simp add: local_ok_def)
  next
    case False
    have d3: "distinct (map fst (slots s3 v))" using rm(1) s3(3) by simp
    have room: "ndegrees (at (rinfos s3) v) < deg g v" if "to \<notin> fst ` set (slots s3 v)"
    proof -
      have "to \<in> moved_to p i to ` nbrs g v" using iv by (intro image_eqI [of _ _ i]) simp_all
      then show ?thesis
        using row_room [OF c v d3 _ _ that, of "moved_to p i to"] rm(2) s3(3) blocks_vertex(4) [OF b3 vA] by simp
    qed
    from add_edeg_ok [OF b3 vA c d3 f3 room] show ?thesis using that False s3(3) by auto
  qed
  note n3 = near_local [OF s3(2) v bo2]
  have bo3: "bnd_ok (nvtxs g) s3" using n3 by (simp add: near_ok_def)
  note n4 = near_local [OF s4(2) v bo3]
  have near: "near_ok g v s s4"
    using near_ok_trans [OF near_ok_trans [OF near_ok_trans [OF n1 s2(2)] n3] n4] .
  moreover have "move_edge enters leaves g from to j s = Some s4"
    unfolding move_edge_def e(1,2) [folded v_def] Option.bind.bind_lunit
    using me s1(1) s2(1) s3(1) s4(1) by simp
  moreover have "rinfo_ok g (moved_to p i to) s4 v"
  proof -
    have "conn g (moved_to p i to) v ?me = conn g p v ?me + ?d"
      using conn_move [of p i "from" g to v ?me, OF p(1)] ew p(2) by auto
    then show ?thesis
      using rm(3) s4(3,4) s3(4) s2(4) s1(4) r0 vi
      by (simp add: rinfo_ok_def ext_conn)
  qed
  moreover have "on_bnd s4 u = (if u = v then bnd_rule enters leaves from to (p v) (at (rinfos s4) v) (on_bnd s v) else on_bnd s u)"
    if u: "0 \<le> u" "u < nvtxs g" for u
  proof -
    have "on_bnd s4 u = on_bnd s2 u"
      using on_bnd_cong [OF local_okD(4) [OF s4(2)]] on_bnd_cong [OF local_okD(4) [OF s3(2)]] by simp
    moreover have "on_bnd s1 u = on_bnd s u" for u using on_bnd_cong [OF d1(4)] .
    ultimately show ?thesis using on2 [OF u] s4(4) s3(4) by (simp add: bnd_rule_def)
  qed
  ultimately show ?thesis by blast
qed

text \<open>The loop over the edges, up to edge \<open>j\<close>: the neighbours seen so far have their new degrees.\<close>

definition seen :: "mgraph \<Rightarrow> int \<Rightarrow> int \<Rightarrow> int set" where
  "seen g i j = at (adjncy g) ` {at (xadj g) i..<j}"

definition edge_inv ::
  "(int \<Rightarrow> int \<Rightarrow> bool) \<Rightarrow> (int \<Rightarrow> int \<Rightarrow> bool) \<Rightarrow> mgraph \<Rightarrow> (int \<Rightarrow> int) \<Rightarrow> int \<Rightarrow> int \<Rightarrow> kstate \<Rightarrow> int \<Rightarrow> kstate \<Rightarrow> bool" where
  "edge_inv enters leaves g p i to s j t \<longleftrightarrow>
     wher t = wher s \<and> pwgts t = pwgts s \<and> mincut t = mincut s
     \<and> blocks_ok g {0..<nvtxs g} t \<and> bnd_ok (nvtxs g) t
     \<and> (\<forall>u. 0 \<le> u \<and> u < nvtxs g \<and> u \<in> seen g i j \<longrightarrow> rinfo_ok g (moved_to p i to) t u
          \<and> on_bnd t u = bnd_rule enters leaves (p i) to (p u) (at (rinfos t) u) (on_bnd s u))
     \<and> (\<forall>u. 0 \<le> u \<and> u < nvtxs g \<and> u \<notin> seen g i j \<longrightarrow> slots t u = slots s u
          \<and> at (rinfos t) u = at (rinfos s) u \<and> on_bnd t u = on_bnd s u)"

lemma seen_step: "at (xadj g) i \<le> j \<Longrightarrow> seen g i (j + 1) = insert (at (adjncy g) j) (seen g i j)"
proof -
  assume "at (xadj g) i \<le> j"
  then have "{at (xadj g) i..<j + 1} = insert j {at (xadj g) i..<j}" by auto
  then show ?thesis by (simp add: seen_def)
qed

lemma seen_new:
  assumes "kgraph g" "0 \<le> i" "i < nvtxs g" "at (xadj g) i \<le> j" "j < at (xadj g) (i + 1)"
  shows "at (adjncy g) j \<notin> seen g i j"
proof
  assume "at (adjncy g) j \<in> seen g i j"
  then obtain k where k: "at (xadj g) i \<le> k" "k < j" "at (adjncy g) k = at (adjncy g) j" by (auto simp: seen_def)
  have "k = j"
    by (rule inj_onD [OF kgraphD(4) [OF assms(1-3)] k(3)]) (use k assms in \<open>auto simp: row_def\<close>)
  with k show False by simp
qed

lemma seen_start [simp]: "seen g i (at (xadj g) i) = {}"
  by (simp add: seen_def)

lemma seen_all: "seen g i (at (xadj g) (i + 1)) = nbrs g i"
  by (simp add: seen_def nbrs_def row_def)

lemma edge_inv_start:
  "blocks_ok g {0..<nvtxs g} s \<Longrightarrow> bnd_ok (nvtxs g) s \<Longrightarrow> edge_inv enters leaves g p i to s (at (xadj g) i) s"
  by (simp add: edge_inv_def)

lemma edge_inv_step:
  assumes g: "kgraph g" and wh: "part_ok g n (wher s)" and i: "0 \<le> i" "i < nvtxs g"
    and p: "p i = from" "from \<noteq> to" "\<And>u. 0 \<le> u \<Longrightarrow> at (wher s) u = moved_to p i to u"
    and j: "at (xadj g) i \<le> j" "j < at (xadj g) (i + 1)"
    and r: "\<And>v. 0 \<le> v \<Longrightarrow> v < nvtxs g \<Longrightarrow> v \<noteq> i \<Longrightarrow> rinfo_ok g p s v"
    and inv: "edge_inv enters leaves g p i to s j t"
  shows "\<exists>t'. move_edge enters leaves g from to j t = Some t' \<and> near_ok g (at (adjncy g) j) t t'
    \<and> edge_inv enters leaves g p i to s (j + 1) t'"
proof -
  let ?v = "at (adjncy g) j"
  note new = seen_new [OF g i j]
  have v: "0 \<le> ?v" "?v < nvtxs g" "?v \<in> nbrs g i" using kgraph_edge [OF g i j] by auto
  have "?v \<noteq> i" using v(3) kgraphD(5) [OF g i] by auto
  then have rv: "rinfo_ok g p t ?v"
    using rinfo_ok_cong [of t ?v s g p] inv new v r by (simp add: edge_inv_def)
  have t: "wher t = wher s" "blocks_ok g {0..<nvtxs g} t" "bnd_ok (nvtxs g) t" using inv by (simp_all add: edge_inv_def)
  have wt: "part_ok g n (wher t)" "\<And>u. 0 \<le> u \<Longrightarrow> at (wher t) u = moved_to p i to u" using wh p(3) t(1) by simp_all
  obtain t' where t': "move_edge enters leaves g from to j t = Some t'" "near_ok g ?v t t'"
    "rinfo_ok g (moved_to p i to) t' ?v"
    "\<And>u. 0 \<le> u \<Longrightarrow> u < nvtxs g \<Longrightarrow> on_bnd t' u =
        (if u = ?v then bnd_rule enters leaves from to (p ?v) (at (rinfos t') ?v) (on_bnd t ?v) else on_bnd t u)"
    using move_edge_ok [OF g wt(1) i p(1,2) wt(2) j t(2,3) rv, of enters leaves] by blast
  have "edge_inv enters leaves g p i to s (j + 1) t'"
    unfolding edge_inv_def seen_step [OF j(1)]
  proof (intro conjI allI impI; (elim conjE)?)
    show "wher t' = wher s" "pwgts t' = pwgts s" "mincut t' = mincut s"
      "blocks_ok g {0..<nvtxs g} t'" "bnd_ok (nvtxs g) t'"
      using t'(2) inv by (simp_all add: near_ok_def edge_inv_def)
  next
    fix u assume u: "0 \<le> u" "u < nvtxs g" "u \<in> insert ?v (seen g i j)"
    have same: "u \<noteq> ?v \<Longrightarrow> slots t' u = slots t u \<and> at (rinfos t') u = at (rinfos t) u"
      using t'(2) u(1,2) by (simp add: near_ok_def)
    show "rinfo_ok g (moved_to p i to) t' u"
      using u same t'(3) inv rinfo_ok_cong [of t' u t g "moved_to p i to"] by (cases "u = ?v") (auto simp: edge_inv_def)
    show "on_bnd t' u = bnd_rule enters leaves (p i) to (p u) (at (rinfos t') u) (on_bnd s u)"
    proof (cases "u = ?v")
      case True
      then show ?thesis using t'(4) [OF u(1,2)] inv new v p(1) by (simp add: edge_inv_def)
    next
      case False
      then show ?thesis using t'(4) [OF u(1,2)] same inv u by (simp add: edge_inv_def)
    qed
  next
    fix u assume u: "0 \<le> u" "u < nvtxs g" "u \<notin> insert ?v (seen g i j)"
    then show "slots t' u = slots s u" "at (rinfos t') u = at (rinfos s) u" "on_bnd t' u = on_bnd s u"
      using t'(2,4) inv by (simp_all add: near_ok_def edge_inv_def)
  qed
  with t'(1,2) show ?thesis by blast
qed

lemma edge_inv_end:
  assumes g: "kgraph g" and i: "0 \<le> i" "i < nvtxs g"
    and r: "\<And>v. 0 \<le> v \<Longrightarrow> v < nvtxs g \<Longrightarrow> v \<noteq> i \<Longrightarrow> rinfo_ok g p s v" "rinfo_ok g (moved_to p i to) s i"
    and inv: "edge_inv enters leaves g p i to s (at (xadj g) (i + 1)) t" and v: "0 \<le> v" "v < nvtxs g"
  shows "rinfo_ok g (moved_to p i to) t v"
proof (cases "v \<in> nbrs g i")
  case True
  then show ?thesis using inv v by (simp add: edge_inv_def seen_all)
next
  case False
  then have same: "rinfo_ok g q t v = rinfo_ok g q s v" for q
    using rinfo_ok_cong [of t v s g q] inv v by (simp add: edge_inv_def seen_all)
  show ?thesis
  proof (cases "v = i")
    case ne: False
    have "i \<notin> nbrs g v" using False kgraphD(7) [OF g v i] by blast
    then show ?thesis using same r(1) [OF v ne] rinfo_ok_far [of i g v p to s] ne by simp
  qed (use same r(2) in simp)
qed

end
