(* ===== verification/Mt_Sort.thy ===== *)
theory Mt_Sort
  imports Mt_Util
begin

text \<open>
  The counting sort of \<open>bucketsort.c\<close> with the macro \<open>MAKECSR\<close> of \<open>macros.h\<close>: it sorts a
  permutation by key and keeps the order of equal keys.
\<close>

section \<open>Counting sort\<close>

definition MAKECSR :: "int \<Rightarrow> int list \<Rightarrow> int list option" where
  "MAKECSR n a = do {
     a \<leftarrow> for_loop 1 n (\<lambda>i a. do { x \<leftarrow> aget a i; y \<leftarrow> aget a (i - 1); aset a i (x + y) }) a;
     a \<leftarrow> for_down n 0 (\<lambda>i a. do { y \<leftarrow> aget a (i - 1); aset a i y }) a;
     aset a 0 0 }"

definition BucketSortKeysInc ::
  "int \<Rightarrow> int \<Rightarrow> int list \<Rightarrow> int list \<Rightarrow> int list \<Rightarrow> int list option" where
  "BucketSortKeysInc n maxkey keys tperm perm = do {
     counts \<leftarrow> for_loop 0 n (\<lambda>i counts. do {
       k \<leftarrow> aget keys i; c \<leftarrow> aget counts k; aset counts k (c + 1) }) (replicate (nat (maxkey + 2)) 0);
     counts \<leftarrow> MAKECSR (maxkey + 1) counts;
     (perm, _) \<leftarrow> for_loop 0 n (\<lambda>ii (perm, counts). do {
       i \<leftarrow> aget tperm ii;
       k \<leftarrow> aget keys i;
       c \<leftarrow> aget counts k;
       perm \<leftarrow> aset perm c i;
       counts \<leftarrow> aset counts k (c + 1);
       Some (perm, counts) }) (perm, counts);
     Some perm }"

section \<open>Prefix sums\<close>

lemma sum_step: "0 \<le> (k :: int) \<Longrightarrow> (\<Sum>m = 0..<k + 1. f m) = (\<Sum>m = 0..<k. f m) + (f k :: int)"
proof -
  assume "0 \<le> k"
  then have "{0..<k + 1} = insert k {0..<k}" by auto
  then show ?thesis by simp
qed

lemma MAKECSR_spec:
  assumes "1 \<le> n" "n < ilen a"
  shows "\<exists>b. MAKECSR n a = Some b \<and> length b = length a
    \<and> (\<forall>k. 0 \<le> k \<and> k \<le> n \<longrightarrow> at b k = (\<Sum>m = 0..<k. at a m))"
proof -
  define S where "S k = (\<Sum>m = 0..<k. at a m)" for k :: int
  have S: "S (k + 1) = S k + at a k" if "0 \<le> k" for k
    using sum_step [OF that, of "at a"] by (simp add: S_def)
  have S0: "S 0 = 0" by (simp add: S_def)
  have "\<exists>b. for_loop 1 n (\<lambda>i a. do { x \<leftarrow> aget a i; y \<leftarrow> aget a (i - 1); aset a i (x + y) }) a = Some b
    \<and> length b = length a \<and> (\<forall>k. 0 \<le> k \<and> k < n \<longrightarrow> at b k = (if k < n then S (k + 1) else at a k))"
  proof (rule for_loop_rule [where P = "\<lambda>i b. length b = length a
      \<and> (\<forall>k. 0 \<le> k \<and> k < n \<longrightarrow> at b k = (if k < i then S (k + 1) else at a k))"])
    fix i t
    assume i: "1 \<le> i" "i < n"
      and t: "length t = length a \<and> (\<forall>k. 0 \<le> k \<and> k < n \<longrightarrow> at t k = (if k < i then S (k + 1) else at a k))"
    from t have "ilen t = ilen a" by (simp add: ilen_def)
    moreover have "at t i = at a i" "at t (i - 1) = S i" using t i by auto
    ultimately show "\<exists>t'. do { x \<leftarrow> aget t i; y \<leftarrow> aget t (i - 1); aset t i (x + y) } = Some t'
        \<and> length t' = length a \<and> (\<forall>k. 0 \<le> k \<and> k < n \<longrightarrow> at t' k = (if k < i + 1 then S (k + 1) else at a k))"
      using i t assms S [of i] by (simp add: arr)
  next
    show "length a = length a \<and> (\<forall>k. 0 \<le> k \<and> k < n \<longrightarrow> at a k = (if k < 1 then S (k + 1) else at a k))"
    proof (intro conjI allI impI)
      fix k :: int assume "0 \<le> k \<and> k < n"
      then show "at a k = (if k < 1 then S (k + 1) else at a k)"
        using S [of 0] S0 by (cases "k = 0") auto
    qed simp
  qed (use assms in auto)
  then obtain b where b: "for_loop 1 n (\<lambda>i a. do { x \<leftarrow> aget a i; y \<leftarrow> aget a (i - 1); aset a i (x + y) }) a = Some b"
    "length b = length a" "\<And>k. 0 \<le> k \<Longrightarrow> k < n \<Longrightarrow> at b k = S (k + 1)" by auto
  have "\<exists>c. for_down n 0 (\<lambda>i a. do { y \<leftarrow> aget a (i - 1); aset a i y }) b = Some c
    \<and> length c = length a \<and> (\<forall>k. 0 \<le> k \<and> k \<le> n \<longrightarrow> (0 < k \<longrightarrow> at c k = S k) \<and> (k \<le> 0 \<and> k < n \<longrightarrow> at c k = S (k + 1)))"
  proof (rule for_down_rule [where P = "\<lambda>i c. length c = length a
      \<and> (\<forall>k. 0 \<le> k \<and> k \<le> n \<longrightarrow> (i < k \<longrightarrow> at c k = S k) \<and> (k \<le> i \<and> k < n \<longrightarrow> at c k = S (k + 1)))"])
    fix i t
    assume i: "0 < i" "i \<le> n"
      and t: "length t = length a \<and> (\<forall>k. 0 \<le> k \<and> k \<le> n \<longrightarrow> (i < k \<longrightarrow> at t k = S k) \<and> (k \<le> i \<and> k < n \<longrightarrow> at t k = S (k + 1)))"
    from t have l: "ilen t = ilen a" by (simp add: ilen_def)
    have v: "at t (i - 1) = S i" using t i by auto
    have "length (upd t i (S i)) = length a" using t by simp
    moreover have "(i - 1 < k \<longrightarrow> at (upd t i (S i)) k = S k) \<and> (k \<le> i - 1 \<and> k < n \<longrightarrow> at (upd t i (S i)) k = S (k + 1))"
      if "0 \<le> k" "k \<le> n" for k
      using that t i assms l by auto
    ultimately show "\<exists>t'. do { y \<leftarrow> aget t (i - 1); aset t i y } = Some t' \<and> length t' = length a
        \<and> (\<forall>k. 0 \<le> k \<and> k \<le> n \<longrightarrow> (i - 1 < k \<longrightarrow> at t' k = S k) \<and> (k \<le> i - 1 \<and> k < n \<longrightarrow> at t' k = S (k + 1)))"
      using i l v assms by (simp add: arr)
  qed (use assms b in auto)
  then obtain c where c: "for_down n 0 (\<lambda>i a. do { y \<leftarrow> aget a (i - 1); aset a i y }) b = Some c"
    "length c = length a" "\<And>k. 0 < k \<Longrightarrow> k \<le> n \<Longrightarrow> at c k = S k" by auto
  then have l: "ilen c = ilen a" by (simp add: ilen_def)
  have "at (upd c 0 0) k = S k" if "0 \<le> k" "k \<le> n" for k
    using c(3) [of k] that l assms S0 by auto
  with b(1) c l assms show ?thesis
    by (simp add: MAKECSR_def arr S_def)
qed

section \<open>The sort\<close>

text \<open>How many numbers below \<open>n\<close> satisfy a predicate.\<close>

definition icount :: "int \<Rightarrow> (int \<Rightarrow> bool) \<Rightarrow> int" where
  "icount n p = int (card {m \<in> {0..<n}. p m})"

lemma icount_0 [simp]: "icount 0 p = 0"
  by (simp add: icount_def)

lemma icount_nonneg [simp]: "0 \<le> icount n p"
  by (simp add: icount_def)

lemma icount_step: "0 \<le> i \<Longrightarrow> icount (i + 1) p = icount i p + (if p i then 1 else 0)"
proof -
  assume "0 \<le> i"
  then have "{m \<in> {0..<i + 1}. p m} = (if p i then insert i {m \<in> {0..<i}. p m} else {m \<in> {0..<i}. p m})"
    by (auto simp: order_less_le)
  moreover have "finite {m \<in> {0..<i}. p m}" by (rule finite_subset [of _ "{0..<i}"]) auto
  ultimately show ?thesis by (simp add: icount_def)
qed

lemma icount_less:
  assumes "\<And>m. 0 \<le> m \<Longrightarrow> m < n \<Longrightarrow> p m \<Longrightarrow> q m" "0 \<le> a" "a < n" "q a" "\<not> p a"
  shows "icount n p < icount n q"
proof -
  have "card {m \<in> {0..<n}. p m} < card {m \<in> {0..<n}. q m}"
  proof (rule psubset_card_mono)
    show "finite {m \<in> {0..<n}. q m}" by (rule finite_subset [of _ "{0..<n}"]) auto
    show "{m \<in> {0..<n}. p m} \<subset> {m \<in> {0..<n}. q m}" using assms by fastforce
  qed
  then show ?thesis by (simp add: icount_def)
qed

lemma icount_True: "0 \<le> n \<Longrightarrow> icount n (\<lambda>_. True) = n"
proof -
  assume "0 \<le> n"
  moreover have "{m \<in> {0..<n}. True} = {0..<n}" by blast
  ultimately show ?thesis by (simp only: icount_def) simp
qed

lemma icount_below:
  fixes key :: "int \<Rightarrow> int"
  assumes "0 \<le> k" "0 \<le> n" "\<And>m. 0 \<le> m \<Longrightarrow> m < n \<Longrightarrow> 0 \<le> key m"
  shows "icount n (\<lambda>m. key m < k) = (\<Sum>c = 0..<k. icount n (\<lambda>m. key m = c))"
  using assms(2,3)
proof (induction n rule: int_ge_induct)
  case (step i)
  have "(\<Sum>c = 0..<k. icount (i + 1) (\<lambda>m. key m = c))
      = (\<Sum>c = 0..<k. icount i (\<lambda>m. key m = c) + (if c = key i then 1 else 0))"
    by (rule sum.cong) (use step in \<open>auto simp: icount_step\<close>)
  also have "\<dots> = (\<Sum>c = 0..<k. icount i (\<lambda>m. key m = c)) + (if key i < k then 1 else 0)"
  proof -
    have "(\<Sum>c = 0..<k. if c = key i then 1 else 0) = (if key i \<in> {0..<k} then 1 else (0 :: int))"
      by (rule sum.delta) simp
    then show ?thesis using step.hyps step.prems [of i] by (simp only: sum.distrib) simp
  qed
  finally show ?case using step by (simp add: icount_step)
qed simp

text \<open>The place of entry \<open>jj\<close>: how many entries have a smaller key, or the same key and stand
  before it.\<close>

definition sort_pos :: "int \<Rightarrow> (int \<Rightarrow> int) \<Rightarrow> int \<Rightarrow> int" where
  "sort_pos n key jj = icount n (\<lambda>m. key m < key jj \<or> key m = key jj \<and> m < jj)"

lemma sort_pos_less:
  assumes "0 \<le> a" "a < n" "key a < key b \<or> key a = key b \<and> a < b"
  shows "sort_pos n key a < sort_pos n key b"
  unfolding sort_pos_def by (rule icount_less [where a = a]) (use assms in auto)

lemma sort_pos_less_iff:
  assumes "0 \<le> a" "a < n" "0 \<le> b" "b < n"
  shows "sort_pos n key a < sort_pos n key b \<longleftrightarrow> key a < key b \<or> key a = key b \<and> a < b"
  using sort_pos_less [of a n key b] sort_pos_less [of b n key a] assms
  by (metis less_asym linorder_neqE)

lemma sort_pos_bounds:
  assumes "0 \<le> a" "a < n"
  shows "0 \<le> sort_pos n key a" "sort_pos n key a < n"
proof -
  have "sort_pos n key a < icount n (\<lambda>_. True)"
    unfolding sort_pos_def by (rule icount_less [where a = a]) (use assms in auto)
  then show "sort_pos n key a < n" using assms by (simp add: icount_True)
qed (simp add: sort_pos_def)

lemma sort_pos_inj:
  assumes "0 \<le> a" "a < n" "0 \<le> b" "b < n" "sort_pos n key a = sort_pos n key b"
  shows "a = b"
  using assms sort_pos_less_iff [of a n b key] sort_pos_less_iff [of b n a key]
  by (metis linorder_neqE less_irrefl)

lemma icount_split:
  assumes "0 \<le> j" "j \<le> n"
  shows "icount n (\<lambda>m. p m \<or> q m \<and> m < j) = icount n p + icount j (\<lambda>m. q m \<and> \<not> p m)"
  using assms(2,1)
proof (induction n rule: int_ge_induct)
  case base
  then show ?case
  proof (induction j rule: int_ge_induct)
    case (step i)
    have "icount i (\<lambda>m. p m \<or> q m \<and> m < i + 1) = icount i (\<lambda>m. p m \<or> q m \<and> m < i)"
      by (auto simp: icount_def intro!: arg_cong [where f = card])
    with step show ?case by (auto simp: icount_step)
  qed simp
next
  case (step i)
  then show ?case by (auto simp: icount_step)
qed

lemma sort_pos_split:
  assumes "0 \<le> jj" "jj < n"
  shows "sort_pos n key jj = icount n (\<lambda>m. key m < key jj) + icount jj (\<lambda>m. key m = key jj)"
proof -
  have "icount jj (\<lambda>m. key m = key jj \<and> \<not> key m < key jj) = icount jj (\<lambda>m. key m = key jj)"
    by (auto simp: icount_def intro!: arg_cong [where f = card])
  with icount_split [of jj n "\<lambda>m. key m < key jj" "\<lambda>m. key m = key jj"] assms
  show ?thesis by (simp add: sort_pos_def)
qed

text \<open>The first loop counts the keys.\<close>

lemma count_keys:
  assumes "0 \<le> n" "n \<le> ilen keys" "\<And>i. 0 \<le> i \<Longrightarrow> i < n \<Longrightarrow> 0 \<le> at keys i \<and> at keys i \<le> maxkey"
  shows "\<exists>c. for_loop 0 n (\<lambda>i counts. do {
       k \<leftarrow> aget keys i; c \<leftarrow> aget counts k; aset counts k (c + 1) }) (replicate (nat (maxkey + 2)) 0) = Some c
    \<and> length c = nat (maxkey + 2)
    \<and> (\<forall>k. 0 \<le> k \<and> k \<le> maxkey + 1 \<longrightarrow> at c k = icount n (\<lambda>i. at keys i = k))"
proof (rule for_loop_rule [where P = "\<lambda>i c. length c = nat (maxkey + 2)
    \<and> (\<forall>k. 0 \<le> k \<and> k \<le> maxkey + 1 \<longrightarrow> at c k = icount i (\<lambda>m. at keys m = k))"])
  fix i t
  assume i: "0 \<le> i" "i < n" and t: "length t = nat (maxkey + 2)
    \<and> (\<forall>k. 0 \<le> k \<and> k \<le> maxkey + 1 \<longrightarrow> at t k = icount i (\<lambda>m. at keys m = k))"
  have k: "0 \<le> at keys i" "at keys i \<le> maxkey" using assms(3) [OF i] by auto
  have l: "ilen t = maxkey + 2" using t k by (simp add: ilen_def)
  show "\<exists>t'. do { k \<leftarrow> aget keys i; c \<leftarrow> aget t k; aset t k (c + 1) } = Some t' \<and> length t' = nat (maxkey + 2)
      \<and> (\<forall>k. 0 \<le> k \<and> k \<le> maxkey + 1 \<longrightarrow> at t' k = icount (i + 1) (\<lambda>m. at keys m = k))"
    using t i k l assms(2) by (simp add: arr icount_step)
qed (use assms in auto)

text \<open>Entry \<open>jj\<close> of the input permutation is found at \<open>sort_pos\<close> of the result.\<close>

lemma BucketSortKeysInc_spec:
  assumes n: "0 \<le> n" "n \<le> ilen keys" "n \<le> ilen perm" and tperm: "perm_on n tperm"
    and keys: "\<And>i. 0 \<le> i \<Longrightarrow> i < n \<Longrightarrow> 0 \<le> at keys i \<and> at keys i \<le> maxkey"
    and max: "0 \<le> maxkey"
  shows "\<exists>p. BucketSortKeysInc n maxkey keys tperm perm = Some p \<and> length p = length perm
    \<and> (\<forall>jj. 0 \<le> jj \<and> jj < n \<longrightarrow> at p (sort_pos n (\<lambda>m. at keys (at tperm m)) jj) = at tperm jj)"
proof -
  define key where "key m = at keys (at tperm m)" for m
  have key_eq: "key = (\<lambda>m. at keys (at tperm m))" by (rule ext) (simp add: key_def)
  have key: "0 \<le> key m" "key m \<le> maxkey" if "0 \<le> m" "m < n" for m
    using keys perm_onD [OF tperm that] by (auto simp: key_def)
  obtain c where c: "for_loop 0 n (\<lambda>i counts. do {
       k \<leftarrow> aget keys i; c \<leftarrow> aget counts k; aset counts k (c + 1) }) (replicate (nat (maxkey + 2)) 0) = Some c"
    "length c = nat (maxkey + 2)"
    "\<And>k. 0 \<le> k \<Longrightarrow> k \<le> maxkey + 1 \<Longrightarrow> at c k = icount n (\<lambda>i. at keys i = k)"
    using count_keys [of n keys maxkey, OF n(1,2) keys] by auto
  have same: "icount n (\<lambda>i. at keys i = k) = icount n (\<lambda>m. key m = k)" for k
  proof -
    have "inj_on (at tperm) {m \<in> {0..<n}. key m = k}"
      using perm_on_inj [OF tperm] by (auto intro!: inj_onI)
    moreover have "at tperm ` {m \<in> {0..<n}. key m = k} = {i \<in> {0..<n}. at keys i = k}"
    proof
      show "{i \<in> {0..<n}. at keys i = k} \<subseteq> at tperm ` {m \<in> {0..<n}. key m = k}"
      proof
        fix i assume "i \<in> {i \<in> {0..<n}. at keys i = k}"
        with perm_on_ex [OF tperm, of i] show "i \<in> at tperm ` {m \<in> {0..<n}. key m = k}"
          by (auto simp: key_def)
      qed
    qed (use perm_onD [OF tperm] in \<open>auto simp: key_def\<close>)
    ultimately have "card {i \<in> {0..<n}. at keys i = k} = card {m \<in> {0..<n}. key m = k}"
      using card_image by fastforce
    then show ?thesis by (simp only: icount_def)
  qed
  obtain b where b: "MAKECSR (maxkey + 1) c = Some b" "length b = length c"
    "\<And>k. 0 \<le> k \<Longrightarrow> k \<le> maxkey + 1 \<Longrightarrow> at b k = (\<Sum>m = 0..<k. at c m)"
    using MAKECSR_spec [of "maxkey + 1" c] c(2) max by (auto simp: ilen_def)
  have start: "at b k = icount n (\<lambda>m. key m < k)" if "0 \<le> k" "k \<le> maxkey + 1" for k
  proof -
    have "at b k = (\<Sum>m = 0..<k. icount n (\<lambda>i. key i = m))"
      unfolding b(3) [OF that] using that by (intro sum.cong) (auto simp: c(3) same)
    also have "\<dots> = icount n (\<lambda>m. key m < k)"
      by (rule icount_below [symmetric]) (use that key n in auto)
    finally show ?thesis .
  qed
  define body where "body = (\<lambda>ii (perm :: int list, counts :: int list). do {
       i \<leftarrow> aget tperm ii;
       k \<leftarrow> aget keys i;
       c \<leftarrow> aget counts k;
       perm \<leftarrow> aset perm c i;
       counts \<leftarrow> aset counts k (c + 1);
       Some (perm, counts) })"
  have "\<exists>t. for_loop 0 n body (perm, b) = Some t
    \<and> (length (fst t) = length perm \<and> length (snd t) = length c
      \<and> (\<forall>k. 0 \<le> k \<and> k \<le> maxkey \<longrightarrow> at (snd t) k = at b k + icount n (\<lambda>m. key m = k))
      \<and> (\<forall>jj. 0 \<le> jj \<and> jj < n \<longrightarrow> at (fst t) (sort_pos n key jj) = at tperm jj))"
  proof (rule for_loop_rule [where P = "\<lambda>ii t. length (fst t) = length perm \<and> length (snd t) = length c
      \<and> (\<forall>k. 0 \<le> k \<and> k \<le> maxkey \<longrightarrow> at (snd t) k = at b k + icount ii (\<lambda>m. key m = k))
      \<and> (\<forall>jj. 0 \<le> jj \<and> jj < ii \<longrightarrow> at (fst t) (sort_pos n key jj) = at tperm jj)"])
    fix ii t
    assume ii: "0 \<le> ii" "ii < n"
      and t: "length (fst t) = length perm \<and> length (snd t) = length c
      \<and> (\<forall>k. 0 \<le> k \<and> k \<le> maxkey \<longrightarrow> at (snd t) k = at b k + icount ii (\<lambda>m. key m = k))
      \<and> (\<forall>jj. 0 \<le> jj \<and> jj < ii \<longrightarrow> at (fst t) (sort_pos n key jj) = at tperm jj)"
    obtain p cs where [simp]: "t = (p, cs)" by force
    have il: "ilen p = ilen perm" "ilen cs = maxkey + 2" using t c(2) max by (auto simp: ilen_def)
    have i: "0 \<le> at tperm ii" "at tperm ii < n" using perm_onD [OF tperm ii] .
    have k: "0 \<le> key ii" "key ii \<le> maxkey" using key [OF ii] .
    have pos: "at cs (key ii) = sort_pos n key ii"
      using t k start [of "key ii"] sort_pos_split [OF ii, of key] by simp
    have inb: "0 \<le> sort_pos n key jj" "sort_pos n key jj < ilen p" if "0 \<le> jj" "jj < n" for jj
      using sort_pos_bounds [OF that, of key] n(3) il by auto
    define p' where "p' = upd p (sort_pos n key ii) (at tperm ii)"
    define cs' where "cs' = upd cs (key ii) (sort_pos n key ii + 1)"
    have "n \<le> ilen tperm" using tperm by (simp add: perm_on_def)
    then have "body ii t = Some (p', cs')"
      using ii i n il k inb [OF ii] pos by (simp add: body_def arr p'_def cs'_def flip: key_def)
    moreover have "at cs' k = at b k + icount (ii + 1) (\<lambda>m. key m = k)"
      if "0 \<le> k \<and> k \<le> maxkey" for k
      using that t k il pos ii by (simp add: cs'_def icount_step)
    moreover have "at p' (sort_pos n key jj) = at tperm jj" if "0 \<le> jj \<and> jj < ii + 1" for jj
    proof (cases "jj = ii")
      case False
      with that ii have "sort_pos n key jj \<noteq> sort_pos n key ii"
        using sort_pos_inj [of jj n ii key] by auto
      with that False t ii inb show ?thesis by (simp add: p'_def)
    qed (use ii inb in \<open>simp add: p'_def\<close>)
    ultimately show "\<exists>t'. body ii t = Some t' \<and> length (fst t') = length perm \<and> length (snd t') = length c
      \<and> (\<forall>k. 0 \<le> k \<and> k \<le> maxkey \<longrightarrow> at (snd t') k = at b k + icount (ii + 1) (\<lambda>m. key m = k))
      \<and> (\<forall>jj. 0 \<le> jj \<and> jj < ii + 1 \<longrightarrow> at (fst t') (sort_pos n key jj) = at tperm jj)"
      using t by (auto simp: p'_def cs'_def)
  qed (use n b in auto)
  then show ?thesis
    using c(1) b(1) by (auto simp: BucketSortKeysInc_def body_def key_eq)
qed

text \<open>The result is a permutation again, in ascending order of the keys, and entries with the
  same key keep their order.\<close>

lemma sort_pos_bij: "0 \<le> n \<Longrightarrow> bij_betw (sort_pos n key) {0..<n} {0..<n}"
proof -
  assume "0 \<le> n"
  have inj: "inj_on (sort_pos n key) {0..<n}"
    by (rule inj_onI) (use sort_pos_inj in auto)
  moreover have "sort_pos n key ` {0..<n} \<subseteq> {0..<n}" using sort_pos_bounds by auto
  ultimately have "sort_pos n key ` {0..<n} = {0..<n}"
    by (intro card_subset_eq) (auto simp: card_image)
  with inj show ?thesis by (simp add: bij_betw_def)
qed

lemma BucketSortKeysInc_sorts:
  assumes n: "0 \<le> n" "n \<le> ilen keys" "n \<le> ilen perm" and tperm: "perm_on n tperm"
    and keys: "\<And>i. 0 \<le> i \<Longrightarrow> i < n \<Longrightarrow> 0 \<le> at keys i \<and> at keys i \<le> maxkey" and max: "0 \<le> maxkey"
  shows "\<exists>p. BucketSortKeysInc n maxkey keys tperm perm = Some p \<and> length p = length perm \<and> perm_on n p
    \<and> (\<forall>i j. 0 \<le> i \<and> i < j \<and> j < n \<longrightarrow> at keys (at p i) \<le> at keys (at p j))
    \<and> (\<forall>i j a b. 0 \<le> i \<and> i < j \<and> j < n \<and> at keys (at p i) = at keys (at p j)
         \<and> 0 \<le> a \<and> a < n \<and> 0 \<le> b \<and> b < n \<and> at tperm a = at p i \<and> at tperm b = at p j \<longrightarrow> a < b)"
proof -
  define pos where "pos = sort_pos n (\<lambda>m. at keys (at tperm m))"
  obtain p where p: "BucketSortKeysInc n maxkey keys tperm perm = Some p" "length p = length perm"
    and v: "\<And>jj. 0 \<le> jj \<Longrightarrow> jj < n \<Longrightarrow> at p (pos jj) = at tperm jj"
    using BucketSortKeysInc_spec [OF n tperm keys max] by (auto simp: pos_def)
  have bij: "bij_betw pos {0..<n} {0..<n}" unfolding pos_def by (rule sort_pos_bij [OF n(1)])
  have "bij_betw (at tperm) {0..<n} {0..<n}" using tperm by (simp add: perm_on_def)
  then have "bij_betw (at p \<circ> pos) {0..<n} {0..<n}"
    by (rule bij_betw_cong [THEN iffD1, rotated]) (use v in simp)
  then have "bij_betw (at p) {0..<n} {0..<n}" using bij_betw_comp_iff [OF bij] by blast
  then have perm: "perm_on n p" using n(3) p(2) by (simp add: perm_on_def ilen_def)
  have less: "at keys (at p i) < at keys (at p j) \<or> at keys (at p i) = at keys (at p j) \<and> a < b"
    if ij: "0 \<le> i" "i < j" "j < n" and a: "0 \<le> a" "a < n" "pos a = i" and b: "0 \<le> b" "b < n" "pos b = j" for i j a b
  proof -
    have "pos a < pos b" using ij a b by simp
    then have "at keys (at tperm a) < at keys (at tperm b) \<or> at keys (at tperm a) = at keys (at tperm b) \<and> a < b"
      by (simp add: pos_def sort_pos_less_iff [OF a(1,2) b(1,2)])
    with v [OF a(1,2)] v [OF b(1,2)] a(3) b(3) show ?thesis by simp
  qed
  have ex: "\<exists>a. 0 \<le> a \<and> a < n \<and> pos a = i" if "0 \<le> i" "i < n" for i
  proof -
    have "i \<in> pos ` {0..<n}" using bij that by (simp add: bij_betw_def)
    then show ?thesis by auto
  qed
  have sorted: "at keys (at p i) \<le> at keys (at p j)" if "0 \<le> i" "i < j" "j < n" for i j
    using ex [of i] ex [of j] less [OF that] that by force
  have stable: "a < b"
    if ij: "0 \<le> i" "i < j" "j < n" "at keys (at p i) = at keys (at p j)"
      and a: "0 \<le> a" "a < n" "at tperm a = at p i" and b: "0 \<le> b" "b < n" "at tperm b = at p j" for i j a b
  proof -
    from ex [of i] ex [of j] ij obtain a' b' where ab: "0 \<le> a'" "a' < n" "pos a' = i" "0 \<le> b'" "b' < n" "pos b' = j"
      by auto
    have "at tperm a' = at tperm a" "at tperm b' = at tperm b"
      using v [OF ab(1,2)] v [OF ab(4,5)] ab(3,6) a(3) b(3) by simp_all
    then have "a' = a" "b' = b" using perm_on_inj [OF tperm] ab a b by auto
    then show ?thesis using less [OF ij(1-3) ab] ij(4) by simp
  qed
  show ?thesis using p perm sorted stable by blast
qed

end
