(* ===== verification/Mt_Match.thy ===== *)
theory Mt_Match
  imports Mt_Contract_Props Mt_Sort
begin

text \<open>
  \<open>match.c\<close>: the four routines that pair vertices for the next coarser graph. Each visits the
  vertices in a random order (\<open>Match_SHEM\<close>: by ascending degree) and joins an unmatched vertex to
  one of its unmatched neighbours. The locale \<open>matching_scheme\<close> states what the choice of the
  neighbour has to satisfy for the result to be a matching.
\<close>

section \<open>Pairing\<close>

definition UNMATCHED :: int where "UNMATCHED = - 1"

text \<open>\<open>match\<close>, \<open>cmap\<close> and \<open>cnvtxs\<close>.\<close>

type_synonym mst = "int list \<times> int list \<times> int"

definition pair_up :: "int \<Rightarrow> int \<Rightarrow> mst \<Rightarrow> mst option" where
  "pair_up i maxidx = (\<lambda>(mat, cm, cnvtxs). do {
     cm \<leftarrow> aset cm maxidx cnvtxs;
     cm \<leftarrow> aset cm i cnvtxs;
     mat \<leftarrow> aset mat i maxidx;
     mat \<leftarrow> aset mat maxidx i;
     Some (mat, cm, cnvtxs + 1) })"

text \<open>The body of the loops: skip a vertex that is matched, pair the others.\<close>

definition visit ::
  "(mgraph \<Rightarrow> int list \<Rightarrow> int \<Rightarrow> int \<Rightarrow> int list \<Rightarrow> int option) \<Rightarrow> mgraph \<Rightarrow> int list \<Rightarrow> int \<Rightarrow> mst \<Rightarrow> mst option" where
  "visit pick g perm ii = (\<lambda>(mat, cm, cnvtxs). do {
     i \<leftarrow> aget perm ii;
     x \<leftarrow> aget mat i;
     if x = UNMATCHED then do {
       maxidx \<leftarrow> pick g perm ii i mat;
       pair_up i maxidx (mat, cm, cnvtxs) }
     else Some (mat, cm, cnvtxs) })"

definition fits :: "int \<Rightarrow> mgraph \<Rightarrow> int \<Rightarrow> int \<Rightarrow> bool option" where
  "fits maxv g i k = do { a \<leftarrow> nget (vwgt g) i; b \<leftarrow> nget (vwgt g) k; Some (a + b \<le> maxv) }"

text \<open>The first unmatched neighbour that fits (\<open>Match_RM\<close>), or that is unmatched (\<open>Match_RM_NVW\<close>).\<close>

definition pick_RM :: "int \<Rightarrow> mgraph \<Rightarrow> int list \<Rightarrow> int \<Rightarrow> int \<Rightarrow> int list \<Rightarrow> int option" where
  "pick_RM maxv g perm ii i mat = do {
     a \<leftarrow> aget (xadj g) i; b \<leftarrow> aget (xadj g) (i + 1);
     j \<leftarrow> search a b (\<lambda>j. do {
       k \<leftarrow> aget (adjncy g) j;
       mk \<leftarrow> aget mat k;
       if mk = UNMATCHED then fits maxv g i k else Some False });
     if j < b then aget (adjncy g) j else Some i }"

definition pick_RM_NVW :: "mgraph \<Rightarrow> int list \<Rightarrow> int \<Rightarrow> int \<Rightarrow> int list \<Rightarrow> int option" where
  "pick_RM_NVW g perm ii i mat = do {
     a \<leftarrow> aget (xadj g) i; b \<leftarrow> aget (xadj g) (i + 1);
     j \<leftarrow> search a b (\<lambda>j. do { k \<leftarrow> aget (adjncy g) j; mk \<leftarrow> aget mat k; Some (mk = UNMATCHED) });
     if j < b then aget (adjncy g) j else Some i }"

text \<open>The heaviest edge to an unmatched neighbour that fits (\<open>Match_HEM\<close> and the second loop of
  \<open>Match_SHEM\<close>).\<close>

definition pick_HEM :: "int \<Rightarrow> mgraph \<Rightarrow> int list \<Rightarrow> int \<Rightarrow> int \<Rightarrow> int list \<Rightarrow> int option" where
  "pick_HEM maxv g perm ii i mat = do {
     a \<leftarrow> aget (xadj g) i; b \<leftarrow> aget (xadj g) (i + 1);
     (maxidx, _) \<leftarrow> for_loop a b (\<lambda>j (maxidx, maxwgt). do {
       k \<leftarrow> aget (adjncy g) j;
       mk \<leftarrow> aget mat k;
       w \<leftarrow> nget (adjwgt g) j;
       better \<leftarrow> (if mk = UNMATCHED \<and> maxwgt < w then fits maxv g i k else Some False);
       Some (if better then (k, w) else (maxidx, maxwgt)) }) (i, 0);
     Some maxidx }"

definition has_edges :: "mgraph \<Rightarrow> int \<Rightarrow> bool option" where
  "has_edges g i = do { a \<leftarrow> aget (xadj g) i; b \<leftarrow> aget (xadj g) (i + 1); Some (a < b) }"

text \<open>A partner for a vertex without edges: the last unmatched vertex of the order that has
  some.\<close>

definition pick_island :: "mgraph \<Rightarrow> int list \<Rightarrow> int \<Rightarrow> int \<Rightarrow> int list \<Rightarrow> int option" where
  "pick_island g perm ii i mat = do {
     j \<leftarrow> search_down (nvtxs g - 1) ii (\<lambda>j. do {
       k \<leftarrow> aget perm j;
       mk \<leftarrow> aget mat k;
       if mk = UNMATCHED then has_edges g k else Some False });
     if j > ii then aget perm j else Some i }"

section \<open>The routines\<close>

text \<open>\<open>match\<close> and \<open>perm\<close> from the workspace, the latter a random permutation.\<close>

definition match_begin :: "ctrl \<Rightarrow> mgraph \<Rightarrow> (int list \<times> int list \<times> ctrl) option" where
  "match_begin c g = do {
     (mat, c) \<leftarrow> idxwspacemalloc c (nvtxs g);
     mat \<leftarrow> idxset (nvtxs g) UNMATCHED mat;
     (perm, c) \<leftarrow> idxwspacemalloc c (nvtxs g);
     (perm, k) \<leftarrow> RandomPermute (rand_at c) (rand_pos c) (nvtxs g) perm 1;
     Some (mat, perm, c\<lparr>rand_pos := k\<rparr>) }"

text \<open>The graph gets its \<open>cmap\<close>, the coarse graph is built, the workspace given back.\<close>

definition match_end ::
  "(ctrl \<Rightarrow> mgraph \<Rightarrow> int \<Rightarrow> int list \<Rightarrow> int list \<Rightarrow> (mgraph \<times> ctrl) option) \<Rightarrow> ctrl \<Rightarrow> mgraph \<Rightarrow> int list
     \<Rightarrow> mst \<Rightarrow> (mgraph \<times> mgraph \<times> ctrl) option" where
  "match_end create c g perm = (\<lambda>(mat, cm, cnvtxs). do {
     g \<leftarrow> Some (g\<lparr>cmap := cm\<rparr>);
     (cg, c) \<leftarrow> create c g cnvtxs mat perm;
     c \<leftarrow> idxwspacefree c (nvtxs g);
     c \<leftarrow> idxwspacefree c (nvtxs g);
     Some (g, cg, c) })"

definition Match_RM :: "ctrl \<Rightarrow> mgraph \<Rightarrow> (mgraph \<times> mgraph \<times> ctrl) option" where
  "Match_RM c g = do {
     (mat, perm, c) \<leftarrow> match_begin c g;
     s \<leftarrow> for_loop 0 (nvtxs g) (visit (pick_RM (maxvwgt c)) g perm) (mat, cmap g, 0);
     match_end CreateCoarseGraph c g perm s }"

definition Match_RM_NVW :: "ctrl \<Rightarrow> mgraph \<Rightarrow> (mgraph \<times> mgraph \<times> ctrl) option" where
  "Match_RM_NVW c g = do {
     (mat, perm, c) \<leftarrow> match_begin c g;
     s \<leftarrow> for_loop 0 (nvtxs g) (visit pick_RM_NVW g perm) (mat, cmap g, 0);
     match_end CreateCoarseGraph_NVW c g perm s }"

definition Match_HEM :: "ctrl \<Rightarrow> mgraph \<Rightarrow> (mgraph \<times> mgraph \<times> ctrl) option" where
  "Match_HEM c g = do {
     (mat, perm, c) \<leftarrow> match_begin c g;
     s \<leftarrow> for_loop 0 (nvtxs g) (visit (pick_HEM (maxvwgt c)) g perm) (mat, cmap g, 0);
     match_end CreateCoarseGraph c g perm s }"

text \<open>The degrees, capped at 70 percent of the average one, are the keys of the sort.\<close>

definition degree_order :: "ctrl \<Rightarrow> mgraph \<Rightarrow> int list \<Rightarrow> (int list \<times> ctrl) option" where
  "degree_order c g perm = do {
     (tperm, c) \<leftarrow> idxwspacemalloc c (nvtxs g);
     (degrees, c) \<leftarrow> idxwspacemalloc c (nvtxs g);
     (tperm, k) \<leftarrow> RandomPermute (rand_at c) (rand_pos c) (nvtxs g) tperm 1;
     e \<leftarrow> aget (xadj g) (nvtxs g);
     q \<leftarrow> cdiv e (nvtxs g);
     avgdegree \<leftarrow> Some (times_07 q);
     degrees \<leftarrow> for_loop 0 (nvtxs g) (\<lambda>i degrees. do {
       a \<leftarrow> aget (xadj g) i; b \<leftarrow> aget (xadj g) (i + 1);
       aset degrees i (if b - a > avgdegree then avgdegree else b - a) }) degrees;
     perm \<leftarrow> BucketSortKeysInc (nvtxs g) avgdegree degrees tperm perm;
     Some (perm, c\<lparr>rand_pos := k\<rparr>) }"

text \<open>The first loop stops at the first unmatched vertex with edges; \<open>ii\<close> is where it stands.\<close>

definition island_loop :: "mgraph \<Rightarrow> int list \<Rightarrow> mst \<Rightarrow> (int \<times> mst) option" where
  "island_loop g perm s = while_loop
     (\<lambda>(ii, mat, cm, cnvtxs).
        if ii < nvtxs g then do {
          i \<leftarrow> aget perm ii;
          x \<leftarrow> aget mat i;
          if x = UNMATCHED then map_option Not (has_edges g i) else Some True }
        else Some False)
     (\<lambda>(ii, s). do { s \<leftarrow> visit pick_island g perm ii s; Some (ii + 1, s) }) (0, s)"

definition Match_SHEM :: "ctrl \<Rightarrow> mgraph \<Rightarrow> (mgraph \<times> mgraph \<times> ctrl) option" where
  "Match_SHEM c g = do {
     (mat, c) \<leftarrow> idxwspacemalloc c (nvtxs g);
     mat \<leftarrow> idxset (nvtxs g) UNMATCHED mat;
     (perm, c) \<leftarrow> idxwspacemalloc c (nvtxs g);
     (perm, c) \<leftarrow> degree_order c g perm;
     (ii, s) \<leftarrow> island_loop g perm (mat, cmap g, 0);
     s \<leftarrow> for_loop ii (nvtxs g) (visit (pick_HEM (maxvwgt c)) g perm) s;
     c \<leftarrow> idxwspacefree c (nvtxs g);
     c \<leftarrow> idxwspacefree c (nvtxs g);
     match_end CreateCoarseGraph c g perm s }"

section \<open>The invariant of the loops\<close>

definition match_inv ::
  "(int \<Rightarrow> int \<Rightarrow> bool) \<Rightarrow> mgraph \<Rightarrow> int list \<Rightarrow> int \<Rightarrow> mst \<Rightarrow> bool" where
  "match_inv R g perm ii = (\<lambda>(mat, cm, cnvtxs). ilen mat = nvtxs g \<and> ilen cm = nvtxs g
    \<and> 0 \<le> cnvtxs \<and> cnvtxs \<le> ii
    \<and> (\<forall>j. 0 \<le> j \<and> j < ii \<longrightarrow> at mat (at perm j) \<noteq> UNMATCHED)
    \<and> (\<forall>v. 0 \<le> v \<and> v < nvtxs g \<and> at mat v \<noteq> UNMATCHED \<longrightarrow>
         0 \<le> at mat v \<and> at mat v < nvtxs g \<and> at mat (at mat v) = v
         \<and> at cm (at mat v) = at cm v \<and> 0 \<le> at cm v \<and> at cm v < cnvtxs
         \<and> (at mat v \<noteq> v \<longrightarrow> R v (at mat v)))
    \<and> (\<forall>v w. 0 \<le> v \<and> v < nvtxs g \<and> 0 \<le> w \<and> w < nvtxs g \<and> at mat v \<noteq> UNMATCHED
         \<and> at mat w \<noteq> UNMATCHED \<and> at cm v = at cm w \<longrightarrow> w = v \<or> w = at mat v)
    \<and> (\<forall>d. 0 \<le> d \<and> d < cnvtxs \<longrightarrow> (\<exists>j. 0 \<le> j \<and> j < ii \<and> at cm (at perm j) = d))
    \<and> (\<forall>j d. 0 \<le> j \<and> j < nvtxs g \<and> at mat (at perm j) \<noteq> UNMATCHED \<and> 0 \<le> d \<and> d < at cm (at perm j)
         \<longrightarrow> (\<exists>i. 0 \<le> i \<and> i < j \<and> at mat (at perm i) \<noteq> UNMATCHED \<and> at cm (at perm i) = d)))"

lemma match_inv_start:
  assumes "ilen mat = nvtxs g" "ilen cm = nvtxs g" "\<And>v. 0 \<le> v \<Longrightarrow> v < nvtxs g \<Longrightarrow> at mat v = UNMATCHED"
    "perm_on (nvtxs g) perm"
  shows "match_inv R g perm 0 (mat, cm, 0)"
  using assms perm_onD [OF assms(4)] by (auto simp: match_inv_def)

lemma match_inv_done:
  assumes "match_inv R g perm (nvtxs g) (mat, cm, n)" "perm_on (nvtxs g) perm"
  shows "matching_ok (g\<lparr>cmap := cm\<rparr>) n mat perm"
    "n \<le> nvtxs g" "\<And>v. 0 \<le> v \<Longrightarrow> v < nvtxs g \<Longrightarrow> at mat v \<noteq> v \<Longrightarrow> R v (at mat v)"
proof -
  have all: "at mat v \<noteq> UNMATCHED" if "0 \<le> v" "v < nvtxs g" for v
    using perm_on_ex [OF assms(2) that] assms(1) by (auto simp: match_inv_def)
  have "\<exists>v. 0 \<le> v \<and> v < nvtxs g \<and> at cm v = d" if "0 \<le> d" "d < n" for d
  proof -
    from assms(1) that obtain j where "0 \<le> j" "j < nvtxs g" "at cm (at perm j) = d"
      by (auto simp: match_inv_def)
    with perm_onD [OF assms(2)] show ?thesis by blast
  qed
  moreover have "\<exists>i. 0 \<le> i \<and> i < j \<and> at cm (at perm i) = d"
    if "0 \<le> j" "j < nvtxs g" "0 \<le> d" "d < at cm (at perm j)" for j d
  proof -
    have "at mat (at perm j) \<noteq> UNMATCHED" using all perm_onD [OF assms(2) that(1,2)] by blast
    with assms(1) that show ?thesis unfolding match_inv_def by blast
  qed
  ultimately show "matching_ok (g\<lparr>cmap := cm\<rparr>) n mat perm"
    using assms all by (auto simp: matching_ok_def match_inv_def)
  show "n \<le> nvtxs g" using assms(1) by (simp add: match_inv_def)
  show "R v (at mat v)" if "0 \<le> v" "v < nvtxs g" "at mat v \<noteq> v" for v
    using assms(1) all that by (auto simp: match_inv_def)
qed

text \<open>Pairing two unmatched vertices keeps the invariant.\<close>

lemma pair_up_inv:
  assumes inv: "match_inv R g perm ii (mat, cm, n)" and perm: "perm_on (nvtxs g) perm"
    and ii: "0 \<le> ii" "ii < nvtxs g" and i: "i = at perm ii" "at mat i = UNMATCHED"
    and m: "0 \<le> m" "m < nvtxs g" "at mat m = UNMATCHED" "m \<noteq> i \<Longrightarrow> R i m \<and> R m i"
  shows "\<exists>s. pair_up i m (mat, cm, n) = Some s \<and> match_inv R g perm (ii + 1) s"
proof -
  have ir: "0 \<le> i" "i < nvtxs g" using perm_onD [OF perm ii] i by auto
  have l: "ilen mat = nvtxs g" "ilen cm = nvtxs g" "0 \<le> n" "n \<le> ii" using inv by (auto simp: match_inv_def)
  let ?mat = "upd (upd mat i m) m i" and ?cm = "upd (upd cm m n) i n"
  have mat: "at ?mat v = (if v = m then i else if v = i then m else at mat v)" if "0 \<le> v" for v
    using that ir m l by simp
  have cm: "at ?cm v = (if v = i \<or> v = m then n else at cm v)" if "0 \<le> v" for v
    using that ir m l by simp
  have um: "at ?mat v \<noteq> UNMATCHED \<longleftrightarrow> v = i \<or> v = m \<or> at mat v \<noteq> UNMATCHED" if "0 \<le> v" for v
    using that ir m by (auto simp: mat UNMATCHED_def)
  have old: "0 \<le> at mat v" "at mat v < nvtxs g" "at mat (at mat v) = v" "at cm (at mat v) = at cm v"
    "0 \<le> at cm v" "at cm v < n" "at mat v \<noteq> v \<Longrightarrow> R v (at mat v)"
    "at mat v \<noteq> i" "at mat v \<noteq> m" "v \<noteq> i" "v \<noteq> m"
    if "0 \<le> v" "v < nvtxs g" "at mat v \<noteq> UNMATCHED" for v
  proof -
    show a: "0 \<le> at mat v" "at mat v < nvtxs g" "at mat (at mat v) = v" "at cm (at mat v) = at cm v"
      "0 \<le> at cm v" "at cm v < n" "at mat v \<noteq> v \<Longrightarrow> R v (at mat v)"
      using inv that by (auto simp: match_inv_def)
    show "v \<noteq> i" "v \<noteq> m" using that i m by auto
    show "at mat v \<noteq> i" "at mat v \<noteq> m" using a(3) i(2) m(3) that(1) by (auto simp: UNMATCHED_def)
  qed
  have ge: "ii \<le> j" if "0 \<le> j" "at perm j = i \<or> at perm j = m" for j
    using inv i(2) m(3) that by (force simp: match_inv_def)
  have pr: "0 \<le> at perm j" "at perm j < nvtxs g" if "0 \<le> j" "j < nvtxs g" for j
    using perm_onD [OF perm that] by auto
  have before: "\<exists>j. 0 \<le> j \<and> j < ii \<and> at cm (at perm j) = d" if "0 \<le> d" "d < n" for d
    using inv that by (auto simp: match_inv_def)
  have seen: "at mat (at perm j) \<noteq> UNMATCHED" if "0 \<le> j" "j < ii" for j
    using inv that by (auto simp: match_inv_def)
  have "match_inv R g perm (ii + 1) (?mat, ?cm, n + 1)"
    unfolding match_inv_def prod.case
  proof (intro conjI allI impI)
    fix j assume j: "0 \<le> j \<and> j < ii + 1"
    then show "at ?mat (at perm j) \<noteq> UNMATCHED"
      using um [of "at perm j"] pr [of j] seen [of j] ii i by (cases "j = ii") auto
  next
    fix v assume v: "0 \<le> v \<and> v < nvtxs g \<and> at ?mat v \<noteq> UNMATCHED"
    then have v0: "0 \<le> v" "v < nvtxs g" by auto
    from v um have c: "v = i \<or> v = m \<or> at mat v \<noteq> UNMATCHED" by blast
    have nm: "0 \<le> at ?mat v" using c old [OF v0] ir m(1) by (auto simp: mat v0)
    then show "0 \<le> at ?mat v" .
    show "at ?mat v < nvtxs g" using c old [OF v0] ir m by (auto simp: mat v0)
    show "at ?mat (at ?mat v) = v"
      using c old [OF v0] ir m l v0 by auto
    show "at ?cm (at ?mat v) = at ?cm v"
      unfolding cm [OF nm] cm [OF v0(1)] using c old [OF v0] by (auto simp: mat v0)
    show "0 \<le> at ?cm v" "at ?cm v < n + 1" using c old [OF v0] l by (auto simp: cm v0)
    show "R v (at ?mat v)" if "at ?mat v \<noteq> v" using c old [OF v0] m(4) that by (auto simp: mat v0 split: if_splits)
  next
    fix v w assume vw: "0 \<le> v \<and> v < nvtxs g \<and> 0 \<le> w \<and> w < nvtxs g \<and> at ?mat v \<noteq> UNMATCHED
      \<and> at ?mat w \<noteq> UNMATCHED \<and> at ?cm v = at ?cm w"
    then have v0: "0 \<le> v" "v < nvtxs g" and w0: "0 \<le> w" "w < nvtxs g" by auto
    have same: "at ?cm v = at ?cm w" using vw by blast
    have new: "at ?cm x = n" if "x = i \<or> x = m" "0 \<le> x" for x using that cm [of x] by simp
    have less: "at ?cm x < n" "at ?cm x = at cm x" "at ?mat x = at mat x"
      if "0 \<le> x" "x < nvtxs g" "at mat x \<noteq> UNMATCHED" for x
      using old(6,10,11) [OF that] cm [OF that(1)] mat [OF that(1)] by simp_all
    consider "v = i \<or> v = m" "w = i \<or> w = m" | "v = i \<or> v = m" "at mat w \<noteq> UNMATCHED"
      | "at mat v \<noteq> UNMATCHED" "w = i \<or> w = m" | "at mat v \<noteq> UNMATCHED" "at mat w \<noteq> UNMATCHED"
      using vw um [OF v0(1)] um [OF w0(1)] by blast
    then show "w = v \<or> w = at ?mat v"
    proof cases
      case 1
      then show ?thesis using mat [OF v0(1)] by auto
    next
      case 2
      then show ?thesis using new [OF 2(1) v0(1)] less(1) [OF w0 2(2)] same by simp
    next
      case 3
      then show ?thesis using new [OF 3(2) w0(1)] less(1) [OF v0 3(1)] same by simp
    next
      case 4
      then have "at cm v = at cm w" using less(2) [OF v0 4(1)] less(2) [OF w0 4(2)] same by simp
      with inv v0 w0 4 have "w = v \<or> w = at mat v" unfolding match_inv_def prod.case by blast
      then show ?thesis using less(3) [OF v0 4(1)] by simp
    qed
  next
    fix d assume d: "0 \<le> d \<and> d < n + 1"
    show "\<exists>j. 0 \<le> j \<and> j < ii + 1 \<and> at ?cm (at perm j) = d"
    proof (cases "d = n")
      case True
      have "at ?cm i = n" using cm [OF ir(1)] by simp
      with ii True show ?thesis unfolding i(1) by (intro exI [of _ ii]) simp
    next
      case False
      with d before [of d] obtain j where j: "0 \<le> j" "j < ii" "at cm (at perm j) = d" by auto
      then have "at perm j \<noteq> i" "at perm j \<noteq> m" using seen [OF j(1,2)] i m by auto
      with j pr [of j] ii show ?thesis by (intro exI [of _ j]) (auto simp: cm)
    qed
  next
    fix j d assume jd: "0 \<le> j \<and> j < nvtxs g \<and> at ?mat (at perm j) \<noteq> UNMATCHED \<and> 0 \<le> d \<and> d < at ?cm (at perm j)"
    then have j: "0 \<le> j" "j < nvtxs g" by auto
    have lift: "\<exists>k. 0 \<le> k \<and> k < j \<and> at ?mat (at perm k) \<noteq> UNMATCHED \<and> at ?cm (at perm k) = d"
      if k: "0 \<le> k" "k < j" "at mat (at perm k) \<noteq> UNMATCHED" "at cm (at perm k) = d" for k
    proof -
      have "at perm k \<noteq> i" "at perm k \<noteq> m" using k(3) i m by auto
      with k j pr [of k] um [of "at perm k"] show ?thesis by (intro exI [of _ k]) (auto simp: cm)
    qed
    show "\<exists>k. 0 \<le> k \<and> k < j \<and> at ?mat (at perm k) \<noteq> UNMATCHED \<and> at ?cm (at perm k) = d"
    proof (cases "at perm j = i \<or> at perm j = m")
      case True
      with jd have "d < n" using pr [OF j] by (auto simp: cm)
      with before jd obtain k where k: "0 \<le> k" "k < ii" "at cm (at perm k) = d" by blast
      with ge [OF j(1) True] lift [of k] seen [of k] show ?thesis by auto
    next
      case False
      then have "at mat (at perm j) \<noteq> UNMATCHED" "d < at cm (at perm j)" using jd um pr [OF j] by (auto simp: cm)
      with inv jd obtain k where "0 \<le> k" "k < j" "at mat (at perm k) \<noteq> UNMATCHED" "at cm (at perm k) = d"
        unfolding match_inv_def by blast
      with lift show ?thesis by blast
    qed
  qed (use l in auto)
  moreover have "pair_up i m (mat, cm, n) = Some (?mat, ?cm, n + 1)"
    using ir m l by (simp add: pair_up_def arr)
  ultimately show ?thesis by blast
qed

end
