(* ===== verification/Mt_Match_Props.thy ===== *)
theory Mt_Match_Props
  imports Mt_Match
begin

text \<open>
  What the matching routines compute: the four choices of a partner satisfy the contract
  \<open>matching_scheme\<close>, so that every routine hands a matching to the contraction, and the coarse
  graph keeps the weight and the cut of every partition.
\<close>

section \<open>The contract of a choice\<close>

text \<open>\<open>v\<close> and \<open>w\<close> are joined by an edge stored with one of them.\<close>

definition adjacent :: "mgraph \<Rightarrow> int \<Rightarrow> int \<Rightarrow> bool" where
  "adjacent g v w \<longleftrightarrow> (\<exists>j \<in> row g v. at (adjncy g) j = w) \<or> (\<exists>j \<in> row g w. at (adjncy g) j = v)"

definition linked :: "int \<Rightarrow> mgraph \<Rightarrow> int \<Rightarrow> int \<Rightarrow> bool" where
  "linked maxv g v w \<longleftrightarrow> adjacent g v w \<and> vwt g v + vwt g w \<le> maxv"

definition island :: "mgraph \<Rightarrow> int \<Rightarrow> bool" where
  "island g v \<longleftrightarrow> row g v = {}"

lemma adjacent_sym: "adjacent g v w \<longleftrightarrow> adjacent g w v"
  by (auto simp: adjacent_def)

lemma linked_sym: "linked maxv g v w \<longleftrightarrow> linked maxv g w v"
  by (auto simp: linked_def adjacent_sym add.commute)

text \<open>A vertex that is matched already is skipped.\<close>

lemma visit_skip_inv:
  assumes s: "match_inv S g perm ii (mat, cm, n)" and m: "at mat (at perm ii) \<noteq> UNMATCHED" and ii: "0 \<le> ii"
  shows "match_inv S g perm (ii + 1) (mat, cm, n)"
proof -
  have "at mat (at perm j) \<noteq> UNMATCHED" if "0 \<le> j" "j < ii + 1" for j
    using that m s by (cases "j = ii") (auto simp: match_inv_def)
  moreover have "\<exists>j. 0 \<le> j \<and> j < ii + 1 \<and> at cm (at perm j) = d" if "0 \<le> d" "d < n" for d
  proof -
    from s that obtain j where "0 \<le> j" "j < ii" "at cm (at perm j) = d" by (auto simp: match_inv_def)
    then show ?thesis by (intro exI [of _ j]) auto
  qed
  ultimately show ?thesis using s unfolding match_inv_def by (simp add: zle_add1_eq_le)
qed

locale matching_scheme =
  fixes pick :: "int \<Rightarrow> mgraph \<Rightarrow> int list \<Rightarrow> int \<Rightarrow> int \<Rightarrow> int list \<Rightarrow> int option"
    and ok :: "mgraph \<Rightarrow> int list \<Rightarrow> int \<Rightarrow> bool"
    and R :: "int \<Rightarrow> mgraph \<Rightarrow> int \<Rightarrow> int \<Rightarrow> bool"
  assumes pick: "\<And>maxv g perm ii mat. wf_graph g \<Longrightarrow> ok g perm ii \<Longrightarrow> perm_on (nvtxs g) perm \<Longrightarrow>
      0 \<le> ii \<Longrightarrow> ii < nvtxs g \<Longrightarrow> ilen mat = nvtxs g \<Longrightarrow> at mat (at perm ii) = UNMATCHED \<Longrightarrow>
      \<exists>m. pick maxv g perm ii (at perm ii) mat = Some m \<and> 0 \<le> m \<and> m < nvtxs g \<and> at mat m = UNMATCHED
        \<and> (m \<noteq> at perm ii \<longrightarrow> R maxv g (at perm ii) m)"
begin

lemma visit_ok:
  assumes g: "wf_graph g" "ok g perm ii" and perm: "perm_on (nvtxs g) perm" and ii: "0 \<le> ii" "ii < nvtxs g"
    and S: "\<And>v w. R maxv g v w \<Longrightarrow> S v w" "\<And>v w. S v w \<Longrightarrow> S w v"
    and s: "match_inv S g perm ii s"
  shows "\<exists>t. visit (pick maxv) g perm ii s = Some t \<and> match_inv S g perm (ii + 1) t"
proof -
  obtain mat cm n where [simp]: "s = (mat, cm, n)" by (cases s)
  let ?i = "at perm ii"
  have i: "0 \<le> ?i" "?i < nvtxs g" using perm_onD [OF perm ii] .
  have l: "ilen mat = nvtxs g" "nvtxs g \<le> ilen perm" using s perm by (auto simp: match_inv_def perm_on_def)
  have get: "aget perm ii = Some ?i" "aget mat ?i = Some (at mat ?i)" using ii i l by (simp_all add: arr)
  show ?thesis
  proof (cases "at mat ?i = UNMATCHED")
    case True
    from pick [OF g perm ii l(1) True, of maxv] obtain m where
      m: "pick maxv g perm ii ?i mat = Some m" "0 \<le> m" "m < nvtxs g" "at mat m = UNMATCHED"
        "m \<noteq> ?i \<longrightarrow> R maxv g ?i m" by blast
    from pair_up_inv [OF s [simplified] perm ii refl True m(2-4)] m(5) S
    obtain t where "pair_up ?i m (mat, cm, n) = Some t" "match_inv S g perm (ii + 1) t" by blast
    with m(1) True get show ?thesis by (simp add: visit_def)
  next
    case False
    from visit_skip_inv [OF s [simplified] False ii(1)]
    have "match_inv S g perm (ii + 1) s" by simp
    with False get show ?thesis by (simp add: visit_def)
  qed
qed

lemma match_loop:
  assumes g: "wf_graph g" and ok: "\<And>i. a \<le> i \<Longrightarrow> i < nvtxs g \<Longrightarrow> ok g perm i"
    and perm: "perm_on (nvtxs g) perm" and a: "0 \<le> a" "a \<le> nvtxs g"
    and S: "\<And>v w. R maxv g v w \<Longrightarrow> S v w" "\<And>v w. S v w \<Longrightarrow> S w v"
    and s: "match_inv S g perm a s"
  shows "\<exists>t. for_loop a (nvtxs g) (visit (pick maxv) g perm) s = Some t \<and> match_inv S g perm (nvtxs g) t"
  by (rule for_loop_rule [where P = "\<lambda>i. match_inv S g perm i"])
    (use a s visit_ok [OF g ok perm _ _ S] in auto)

end

section \<open>The choices\<close>

lemma wf_csr: "wf_graph g \<Longrightarrow> csr g"
  by (simp add: wf_graph_def)

lemma row_access:
  assumes "csr g" "0 \<le> i" "i < nvtxs g"
  shows "aget (xadj g) i = Some (at (xadj g) i)" "aget (xadj g) (i + 1) = Some (at (xadj g) (i + 1))"
    "at (xadj g) i \<le> at (xadj g) (i + 1)"
  using assms csrD(2,4) [OF assms(1)] by (simp_all add: arr)

lemma adjncy_access:
  assumes "csr g" "0 \<le> i" "i < nvtxs g" "at (xadj g) i \<le> j" "j < at (xadj g) (i + 1)"
  shows "aget (adjncy g) j = Some (at (adjncy g) j)" "0 \<le> at (adjncy g) j" "at (adjncy g) j < nvtxs g"
    "adjacent g i (at (adjncy g) j)"
  using row_bounds [OF assms] csrD(6) [OF assms(1)] csrD(7,8) [OF assms(1), of j] assms(4,5) by (auto simp: arr adjacent_def row_def)

lemma fits_value:
  assumes "wf_graph g" "weighted g" "0 \<le> i" "i < nvtxs g" "0 \<le> k" "k < nvtxs g"
  shows "fits maxv g i k = Some (vwt g i + vwt g k \<le> maxv)"
  using accessors(2) [OF assms(1,2)] assms by (simp add: fits_def)

interpretation rm: matching_scheme pick_RM "\<lambda>g _ _. weighted g" linked
proof
  fix maxv g perm ii mat
  assume g: "wf_graph g" "weighted g" and perm: "perm_on (nvtxs g) perm" and ii: "0 \<le> ii" "ii < nvtxs g"
    and mat: "ilen mat = nvtxs g" "at mat (at perm ii) = UNMATCHED"
  note c = wf_csr [OF g(1)]
  let ?i = "at perm ii" and ?a = "at (xadj g) (at perm ii)" and ?b = "at (xadj g) (at perm ii + 1)"
  have i: "0 \<le> ?i" "?i < nvtxs g" using perm_onD [OF perm ii] .
  let ?q = "\<lambda>j. at mat (at (adjncy g) j) = UNMATCHED \<and> vwt g ?i + vwt g (at (adjncy g) j) \<le> maxv"
  let ?p = "\<lambda>j. do { k \<leftarrow> aget (adjncy g) j; mk \<leftarrow> aget mat k;
       if mk = UNMATCHED then fits maxv g ?i k else Some False }"
  have "?p j = Some (?q j)" if "?a \<le> j" "j < ?b" for j
    using adjncy_access [OF c i that] mat(1) fits_value [OF g i] by (simp add: arr)
  from search_rule [OF row_access(3) [OF c i], of ?p ?q, OF this]
  obtain j where j: "search ?a ?b ?p = Some j" "?a \<le> j" "j < ?b \<longrightarrow> ?q j" by blast
  then show "\<exists>m. pick_RM maxv g perm ii ?i mat = Some m \<and> 0 \<le> m \<and> m < nvtxs g \<and> at mat m = UNMATCHED
        \<and> (m \<noteq> ?i \<longrightarrow> linked maxv g ?i m)"
    using row_access [OF c i] adjncy_access [OF c i j(2)] i mat(2)
    by (cases "j < ?b") (auto simp: pick_RM_def linked_def)
qed

interpretation rm_nvw: matching_scheme "\<lambda>_. pick_RM_NVW" "\<lambda>_ _ _. True" "\<lambda>_. adjacent"
proof
  fix g perm ii mat
  assume g: "wf_graph g" and perm: "perm_on (nvtxs g) perm" and ii: "0 \<le> ii" "ii < nvtxs g"
    and mat: "ilen mat = nvtxs g" "at mat (at perm ii) = UNMATCHED"
  note c = wf_csr [OF g]
  let ?i = "at perm ii" and ?a = "at (xadj g) (at perm ii)" and ?b = "at (xadj g) (at perm ii + 1)"
  have i: "0 \<le> ?i" "?i < nvtxs g" using perm_onD [OF perm ii] .
  let ?q = "\<lambda>j. at mat (at (adjncy g) j) = UNMATCHED"
  let ?p = "\<lambda>j. do { k \<leftarrow> aget (adjncy g) j; mk \<leftarrow> aget mat k; Some (mk = UNMATCHED) }"
  have "?p j = Some (?q j)" if "?a \<le> j" "j < ?b" for j
    using adjncy_access [OF c i that] mat(1) by (simp add: arr)
  from search_rule [OF row_access(3) [OF c i], of ?p ?q, OF this]
  obtain j where j: "search ?a ?b ?p = Some j" "?a \<le> j" "j < ?b \<longrightarrow> ?q j" by blast
  then show "\<exists>m. pick_RM_NVW g perm ii ?i mat = Some m \<and> 0 \<le> m \<and> m < nvtxs g \<and> at mat m = UNMATCHED
        \<and> (m \<noteq> ?i \<longrightarrow> adjacent g ?i m)"
    using row_access [OF c i] adjncy_access [OF c i j(2)] i mat(2)
    by (cases "j < ?b") (auto simp: pick_RM_NVW_def)
qed

interpretation hem: matching_scheme pick_HEM "\<lambda>g _ _. weighted g" linked
proof
  fix maxv g perm ii mat
  assume g: "wf_graph g" "weighted g" and perm: "perm_on (nvtxs g) perm" and ii: "0 \<le> ii" "ii < nvtxs g"
    and mat: "ilen mat = nvtxs g" "at mat (at perm ii) = UNMATCHED"
  note c = wf_csr [OF g(1)]
  let ?i = "at perm ii" and ?a = "at (xadj g) (at perm ii)" and ?b = "at (xadj g) (at perm ii + 1)"
  have i: "0 \<le> ?i" "?i < nvtxs g" using perm_onD [OF perm ii] .
  define P where "P s \<longleftrightarrow> 0 \<le> fst s \<and> fst s < nvtxs g \<and> at mat (fst s) = UNMATCHED
    \<and> (fst s \<noteq> ?i \<longrightarrow> linked maxv g ?i (fst s))" for s :: "int \<times> int"
  have "\<exists>s. for_loop ?a ?b (\<lambda>j (maxidx, maxwgt). do {
       k \<leftarrow> aget (adjncy g) j;
       mk \<leftarrow> aget mat k;
       w \<leftarrow> nget (adjwgt g) j;
       better \<leftarrow> (if mk = UNMATCHED \<and> maxwgt < w then fits maxv g ?i k else Some False);
       Some (if better then (k, w) else (maxidx, maxwgt)) }) (?i, 0) = Some s \<and> P s"
  proof (rule for_loop_rule [where P = "\<lambda>_. P"])
    fix j s assume j: "?a \<le> j" "j < ?b" and s: "P s"
    note a = adjncy_access [OF c i j]
    have w: "nget (adjwgt g) j = Some (ewgt g j)"
      using accessors(1) [OF g row_bounds [OF c i j]] .
    have m: "aget mat (at (adjncy g) j) = Some (at mat (at (adjncy g) j))" using a mat by (simp add: arr)
    show "\<exists>t. (case s of (maxidx, maxwgt) \<Rightarrow> do {
       k \<leftarrow> aget (adjncy g) j;
       mk \<leftarrow> aget mat k;
       w \<leftarrow> nget (adjwgt g) j;
       better \<leftarrow> (if mk = UNMATCHED \<and> maxwgt < w then fits maxv g ?i k else Some False);
       Some (if better then (k, w) else (maxidx, maxwgt)) }) = Some t \<and> P t"
      using s a w m fits_value [OF g i a(2,3), of maxv] by (cases s) (auto simp: P_def linked_def)
  qed (use row_access [OF c i] i mat in \<open>auto simp: P_def\<close>)
  then show "\<exists>m. pick_HEM maxv g perm ii ?i mat = Some m \<and> 0 \<le> m \<and> m < nvtxs g \<and> at mat m = UNMATCHED
        \<and> (m \<noteq> ?i \<longrightarrow> linked maxv g ?i m)"
    using row_access [OF c i] by (auto simp: pick_HEM_def P_def)
qed

text \<open>A vertex without edges may be joined to any vertex.\<close>

lemma has_edges_value:
  assumes "csr g" "0 \<le> i" "i < nvtxs g"
  shows "has_edges g i = Some (\<not> island g i)"
  using row_access [OF assms] by (auto simp: has_edges_def island_def row_def)

interpretation isl: matching_scheme "\<lambda>_. pick_island" "\<lambda>g perm ii. island g (at perm ii)" "\<lambda>_ g v w. island g v"
proof
  fix g perm ii mat
  assume g: "wf_graph g" "island g (at perm ii)" and perm: "perm_on (nvtxs g) perm" and ii: "0 \<le> ii" "ii < nvtxs g"
    and mat: "ilen mat = nvtxs g" "at mat (at perm ii) = UNMATCHED"
  note c = wf_csr [OF g(1)]
  let ?q = "\<lambda>j. at mat (at perm j) = UNMATCHED \<and> \<not> island g (at perm j)"
  let ?p = "\<lambda>j. do { k \<leftarrow> aget perm j; mk \<leftarrow> aget mat k; if mk = UNMATCHED then has_edges g k else Some False }"
  have l: "nvtxs g \<le> ilen perm" using perm by (simp add: perm_on_def)
  have "?p j = Some (?q j)" if "ii < j" "j \<le> nvtxs g - 1" for j
  proof -
    have "0 \<le> at perm j" "at perm j < nvtxs g" using perm_onD [OF perm, of j] that ii by auto
    then show ?thesis using that ii l mat has_edges_value [OF c] by (simp add: arr)
  qed
  from search_down_rule [of ii "nvtxs g - 1" ?p ?q, OF _ this] ii obtain j where
    j: "search_down (nvtxs g - 1) ii ?p = Some j" "ii \<le> j" "j \<le> nvtxs g - 1" "ii < j \<longrightarrow> ?q j" by auto
  have "aget perm j = Some (at perm j)" "0 \<le> at perm j" "at perm j < nvtxs g"
    using j ii l perm_onD [OF perm, of j] by (auto simp: arr)
  with j show "\<exists>m. pick_island g perm ii (at perm ii) mat = Some m \<and> 0 \<le> m \<and> m < nvtxs g \<and> at mat m = UNMATCHED
        \<and> (m \<noteq> at perm ii \<longrightarrow> island g (at perm ii))"
    using g(2) mat(2) perm_onD [OF perm ii] by (cases "ii < j") (auto simp: pick_island_def)
qed

section \<open>The routines\<close>

definition match_room :: "ctrl \<Rightarrow> mgraph \<Rightarrow> bool" where
  "match_room c g \<longleftrightarrow> nedges g < 2 ^ 31 \<and> nedges g \<le> auxlen c \<and> 0 \<le> ccore c
    \<and> ccore c + 2 * pad2 (nvtxs g) + max (2 * pad2 (nvtxs g)) (HTLENGTH + 1) \<le> maxcore c
    \<and> (\<forall>k. 0 \<le> rand_at c k)"

lemma pad2_mono: "0 \<le> a \<Longrightarrow> a \<le> b \<Longrightarrow> pad2 a \<le> pad2 b"
  unfolding pad2_def by presburger

lemma pad2_nonneg: "0 \<le> a \<Longrightarrow> 0 \<le> pad2 a"
  by (simp add: pad2_def)

lemma match_begin_ok:
  assumes "csr g" "match_room c g"
  shows "\<exists>mat perm k. match_begin c g =
      Some (mat, perm, c\<lparr>ccore := ccore c + 2 * pad2 (nvtxs g), rand_pos := k\<rparr>)
    \<and> ilen mat = nvtxs g \<and> (\<forall>v. 0 \<le> v \<and> v < nvtxs g \<longrightarrow> at mat v = UNMATCHED) \<and> perm_on (nvtxs g) perm"
proof -
  let ?n = "nvtxs g" and ?c1 = "c\<lparr>ccore := ccore c + pad2 (nvtxs g)\<rparr>"
    and ?c2 = "c\<lparr>ccore := ccore c + 2 * pad2 (nvtxs g)\<rparr>"
  have n: "0 \<le> ?n" using csrD(1) [OF assms(1)] .
  then have p: "0 \<le> pad2 ?n" by (rule pad2_nonneg)
  have a: "idxwspacemalloc c ?n = Some (fresh c ?n, ?c1)" "idxwspacemalloc ?c1 ?n = Some (fresh c ?n, ?c2)"
    using assms(2) p by (auto simp: idxwspacemalloc_def match_room_def Let_def fresh_def HTLENGTH_def)
  obtain mat where m: "idxset ?n UNMATCHED (fresh c ?n) = Some mat" "length mat = nat ?n"
    "\<And>v. 0 \<le> v \<Longrightarrow> v < ?n \<Longrightarrow> at mat v = UNMATCHED"
    using idxset_spec [of ?n "fresh c ?n" UNMATCHED] n by auto
  obtain perm k where r: "RandomPermute (rand_at c) (rand_pos c) ?n (fresh c ?n) 1 = Some (perm, k)" "perm_on ?n perm"
    using RandomPermute_perm [of ?n "fresh c ?n" "rand_at c" "rand_pos c"] n assms(2) by (auto simp: match_room_def)
  have "match_begin c g = Some (mat, perm, ?c2\<lparr>rand_pos := k\<rparr>)"
    using a m(1) r(1) by (simp add: match_begin_def)
  then show ?thesis using m n r(2) by (auto simp: ilen_def)
qed

text \<open>What every routine returns: the input with a new \<open>cmap\<close>, a coarse graph of a matching whose
  pairs are in the relation \<open>S\<close>, and the workspace as it was.\<close>

definition coarsened :: "(int \<Rightarrow> int \<Rightarrow> bool) \<Rightarrow> ctrl \<Rightarrow> mgraph \<Rightarrow> mgraph \<times> mgraph \<times> ctrl \<Rightarrow> bool" where
  "coarsened S c g = (\<lambda>(g', cg, c'). \<exists>mat perm. g' = g\<lparr>cmap := cmap g'\<rparr> \<and> ilen (cmap g') = nvtxs g
     \<and> matching_ok g' (nvtxs cg) mat perm \<and> coarse_of g' mat (nvtxs cg) cg
     \<and> (\<forall>v. 0 \<le> v \<and> v < nvtxs g \<and> at mat v \<noteq> v \<longrightarrow> S v (at mat v)) \<and> nvtxs cg \<le> nvtxs g
     \<and> c' = c\<lparr>rand_pos := rand_pos c'\<rparr>)"

lemma wf_cmap: "wf_graph g \<Longrightarrow> ilen cm = nvtxs g \<Longrightarrow> wf_graph (g\<lparr>cmap := cm\<rparr>)"
  by (simp add: wf_graph_def csr_def rowsum_def row_def ewgt_def)

lemma adjacent_cmap [simp]: "adjacent (g\<lparr>cmap := cm\<rparr>) = adjacent g" "row (g\<lparr>cmap := cm\<rparr>) = row g"
  "weighted (g\<lparr>cmap := cm\<rparr>) = weighted g"
  by (simp_all add: adjacent_def row_def weighted_def fun_eq_iff)

lemma match_end_ok:
  assumes g: "wf_graph g" "match_room c g" and perm: "perm_on (nvtxs g) perm"
    and s: "match_inv S g perm (nvtxs g) (mat, cm, n)"
    and create: "\<And>d. contract_room d (g\<lparr>cmap := cm\<rparr>) n \<Longrightarrow> wf_graph (g\<lparr>cmap := cm\<rparr>) \<Longrightarrow>
      matching_ok (g\<lparr>cmap := cm\<rparr>) n mat perm \<Longrightarrow>
      \<exists>cg. create d (g\<lparr>cmap := cm\<rparr>) n mat perm = Some (cg, d) \<and> coarse_of (g\<lparr>cmap := cm\<rparr>) mat n cg"
  shows "\<exists>t. match_end create (c\<lparr>ccore := ccore c + 2 * pad2 (nvtxs g), rand_pos := k\<rparr>) g perm (mat, cm, n) = Some t
    \<and> coarsened S c g t"
proof -
  let ?g = "g\<lparr>cmap := cm\<rparr>" and ?n = "nvtxs g"
    and ?c = "c\<lparr>ccore := ccore c + 2 * pad2 (nvtxs g), rand_pos := k\<rparr>"
  note d = match_inv_done [OF s perm]
  have l: "ilen cm = ?n" "0 \<le> n" using s by (auto simp: match_inv_def)
  have n: "0 \<le> ?n" using csrD(1) [OF wf_csr [OF g(1)]] .
  have p: "pad2 n \<le> pad2 ?n" "0 \<le> pad2 ?n" using pad2_mono [OF l(2) d(2)] pad2_nonneg [OF n] .
  have room: "contract_room ?c ?g n"
    using g(2) p by (auto simp: contract_room_def match_room_def)
  obtain cg where cg: "create ?c ?g n mat perm = Some (cg, ?c)" "coarse_of ?g mat n cg"
    using create [OF room wf_cmap [OF g(1) l(1)] d(1)] by blast
  have "match_end create ?c g perm (mat, cm, n) = Some (?g, cg, c\<lparr>rand_pos := k\<rparr>)"
    using cg(1) g(2) p by (simp add: match_end_def idxwspacefree_def Let_def match_room_def)
  moreover have "nvtxs cg = n" using cg(2) by (simp add: coarse_of_def)
  ultimately show ?thesis using d cg(2) l by (auto simp: coarsened_def)
qed

lemma adjacent_pairs:
  assumes "\<And>v. 0 \<le> v \<Longrightarrow> v < nvtxs g \<Longrightarrow> at mat v \<noteq> v \<Longrightarrow> adjacent g v (at mat v)"
  shows "pairs_adjacent (g\<lparr>cmap := cm\<rparr>) mat"
  using assms by (auto simp: pairs_adjacent_def adjacent_def)

lemma Match_RM_ok:
  assumes g: "wf_graph g" "weighted g" "match_room c g"
  shows "\<exists>t. Match_RM c g = Some t \<and> coarsened (linked (maxvwgt c) g) c g t"
proof -
  from match_begin_ok [OF wf_csr [OF g(1)] g(3)] obtain mat perm k where
    b: "match_begin c g = Some (mat, perm, c\<lparr>ccore := ccore c + 2 * pad2 (nvtxs g), rand_pos := k\<rparr>)"
      "ilen mat = nvtxs g" "\<And>v. 0 \<le> v \<Longrightarrow> v < nvtxs g \<Longrightarrow> at mat v = UNMATCHED" "perm_on (nvtxs g) perm" by blast
  have "ilen (cmap g) = nvtxs g" using g(1) by (simp add: wf_graph_def)
  from rm.match_loop [OF g(1) _ b(4) _ _ _ _ match_inv_start [OF b(2) this b(3,4)], of "maxvwgt c"] g(2)
    csrD(1) [OF wf_csr [OF g(1)]] linked_sym
  obtain t where t: "for_loop 0 (nvtxs g) (visit (pick_RM (maxvwgt c)) g perm) (mat, cmap g, 0) = Some t"
    "match_inv (linked (maxvwgt c) g) g perm (nvtxs g) t" by blast
  obtain mat' cm n where [simp]: "t = (mat', cm, n)" by (cases t)
  note d = match_inv_done [OF t(2) [simplified] b(4)]
  have "pairs_adjacent (g\<lparr>cmap := cm\<rparr>) mat'"
    by (rule adjacent_pairs) (use d(3) in \<open>auto simp: linked_def\<close>)
  with match_end_ok [OF g(1,3) b(4) t(2) [simplified], of CreateCoarseGraph k] CreateCoarseGraph_ok g(2)
  show ?thesis using b(1) t(1) by (auto simp: Match_RM_def)
qed

lemma Match_HEM_ok:
  assumes g: "wf_graph g" "weighted g" "match_room c g"
  shows "\<exists>t. Match_HEM c g = Some t \<and> coarsened (linked (maxvwgt c) g) c g t"
proof -
  from match_begin_ok [OF wf_csr [OF g(1)] g(3)] obtain mat perm k where
    b: "match_begin c g = Some (mat, perm, c\<lparr>ccore := ccore c + 2 * pad2 (nvtxs g), rand_pos := k\<rparr>)"
      "ilen mat = nvtxs g" "\<And>v. 0 \<le> v \<Longrightarrow> v < nvtxs g \<Longrightarrow> at mat v = UNMATCHED" "perm_on (nvtxs g) perm" by blast
  have "ilen (cmap g) = nvtxs g" using g(1) by (simp add: wf_graph_def)
  from hem.match_loop [OF g(1) _ b(4) _ _ _ _ match_inv_start [OF b(2) this b(3,4)], of "maxvwgt c"] g(2)
    csrD(1) [OF wf_csr [OF g(1)]] linked_sym
  obtain t where t: "for_loop 0 (nvtxs g) (visit (pick_HEM (maxvwgt c)) g perm) (mat, cmap g, 0) = Some t"
    "match_inv (linked (maxvwgt c) g) g perm (nvtxs g) t" by blast
  obtain mat' cm n where [simp]: "t = (mat', cm, n)" by (cases t)
  note d = match_inv_done [OF t(2) [simplified] b(4)]
  have "pairs_adjacent (g\<lparr>cmap := cm\<rparr>) mat'"
    by (rule adjacent_pairs) (use d(3) in \<open>auto simp: linked_def\<close>)
  with match_end_ok [OF g(1,3) b(4) t(2) [simplified], of CreateCoarseGraph k] CreateCoarseGraph_ok g(2)
  show ?thesis using b(1) t(1) by (auto simp: Match_HEM_def)
qed

lemma Match_RM_NVW_ok:
  assumes g: "wf_graph g" "vwgt g = None" "adjwgt g = None" "match_room c g"
  shows "\<exists>t. Match_RM_NVW c g = Some t \<and> coarsened (adjacent g) c g t"
proof -
  from match_begin_ok [OF wf_csr [OF g(1)] g(4)] obtain mat perm k where
    b: "match_begin c g = Some (mat, perm, c\<lparr>ccore := ccore c + 2 * pad2 (nvtxs g), rand_pos := k\<rparr>)"
      "ilen mat = nvtxs g" "\<And>v. 0 \<le> v \<Longrightarrow> v < nvtxs g \<Longrightarrow> at mat v = UNMATCHED" "perm_on (nvtxs g) perm" by blast
  have "ilen (cmap g) = nvtxs g" using g(1) by (simp add: wf_graph_def)
  from rm_nvw.match_loop [OF g(1) _ b(4) _ _ _ _ match_inv_start [OF b(2) this b(3,4)]]
    csrD(1) [OF wf_csr [OF g(1)]] adjacent_sym
  obtain t where t: "for_loop 0 (nvtxs g) (visit pick_RM_NVW g perm) (mat, cmap g, 0) = Some t"
    "match_inv (adjacent g) g perm (nvtxs g) t" by blast
  obtain mat' cm n where [simp]: "t = (mat', cm, n)" by (cases t)
  note d = match_inv_done [OF t(2) [simplified] b(4)]
  have "pairs_adjacent (g\<lparr>cmap := cm\<rparr>) mat'"
    by (rule adjacent_pairs) (use d(3) in auto)
  with match_end_ok [OF g(1,4) b(4) t(2) [simplified], of CreateCoarseGraph_NVW k] CreateCoarseGraph_NVW_ok g(2,3)
  show ?thesis using b(1) t(1) by (auto simp: Match_RM_NVW_def)
qed

section \<open>Sorted heavy edge matching\<close>

lemma degree_order_ok:
  assumes g: "csr g" "0 < nvtxs g" and c: "0 \<le> ccore c" "ccore c + 2 * pad2 (nvtxs g) \<le> maxcore c"
    and rand: "\<And>k. 0 \<le> rand_at c k" and perm: "ilen perm = nvtxs g"
  shows "\<exists>p k. degree_order c g perm = Some (p, c\<lparr>ccore := ccore c + 2 * pad2 (nvtxs g), rand_pos := k\<rparr>)
    \<and> perm_on (nvtxs g) p"
proof -
  let ?n = "nvtxs g" and ?c1 = "c\<lparr>ccore := ccore c + pad2 (nvtxs g)\<rparr>"
    and ?c2 = "c\<lparr>ccore := ccore c + 2 * pad2 (nvtxs g)\<rparr>"
  have p: "0 \<le> pad2 ?n" using g(2) by (intro pad2_nonneg) simp
  have a: "idxwspacemalloc c ?n = Some (fresh c ?n, ?c1)" "idxwspacemalloc ?c1 ?n = Some (fresh c ?n, ?c2)"
    using c p by (auto simp: idxwspacemalloc_def Let_def fresh_def)
  obtain tperm k where r: "RandomPermute (rand_at c) (rand_pos c) ?n (fresh c ?n) 1 = Some (tperm, k)" "perm_on ?n tperm"
    using RandomPermute_perm [of ?n "fresh c ?n" "rand_at c" "rand_pos c"] g(2) rand by auto
  define avg where "avg = times_07 (nedges g sdiv nvtxs g)"
  have avg: "0 \<le> avg"
    unfolding avg_def using g(2) nedges_nonneg [OF g(1)]
    by (intro times_07_nonneg) (simp add: sdiv_nonneg pos_imp_zdiv_nonneg_iff)
  have e: "aget (xadj g) ?n = Some (nedges g)" using csrD(2,5) [OF g(1)] g(2) by (simp add: arr)
  let ?f = "\<lambda>i degrees. do {
       a \<leftarrow> aget (xadj g) i; b \<leftarrow> aget (xadj g) (i + 1);
       aset degrees i (if b - a > avg then avg else b - a) }"
  have "\<exists>d. for_loop 0 ?n ?f (fresh c ?n) = Some d
      \<and> ilen d = nvtxs g \<and> (\<forall>i. 0 \<le> i \<and> i < nvtxs g \<longrightarrow> 0 \<le> at d i \<and> at d i \<le> avg)"
  proof (rule for_loop_rule [where P = "\<lambda>m d. ilen d = nvtxs g \<and> (\<forall>i. 0 \<le> i \<and> i < m \<longrightarrow> 0 \<le> at d i \<and> at d i \<le> avg)"])
    fix i t assume i: "0 \<le> i" "i < ?n" and t: "ilen t = nvtxs g \<and> (\<forall>j. 0 \<le> j \<and> j < i \<longrightarrow> 0 \<le> at t j \<and> at t j \<le> avg)"
    then show "\<exists>t'. ?f i t = Some t' \<and> ilen t' = nvtxs g \<and> (\<forall>j. 0 \<le> j \<and> j < i + 1 \<longrightarrow> 0 \<le> at t' j \<and> at t' j \<le> avg)"
      using row_access [OF g(1) i] avg by (simp add: arr)
  qed (use g(2) in auto)
  then obtain d where d: "for_loop 0 ?n ?f (fresh c ?n) = Some d" "ilen d = ?n"
    "\<And>i. 0 \<le> i \<Longrightarrow> i < ?n \<Longrightarrow> 0 \<le> at d i \<and> at d i \<le> avg" by blast
  obtain q where q: "BucketSortKeysInc ?n avg d tperm perm = Some q" "perm_on ?n q"
    using BucketSortKeysInc_sorts [of ?n d perm tperm avg] g(2) d perm r(2) avg by auto
  have "degree_order c g perm = Some (q, ?c2\<lparr>rand_pos := k\<rparr>)"
    using a r(1) e d(1) q(1) g(2) by (simp add: degree_order_def cdiv_def avg_def [symmetric] cong: if_cong)
  then show ?thesis using q(2) by auto
qed

lemma island_loop_ok:
  assumes g: "wf_graph g" and perm: "perm_on (nvtxs g) perm"
    and S: "\<And>v w. island g v \<Longrightarrow> S v w" "\<And>v w. S v w \<Longrightarrow> S w v"
    and s: "match_inv S g perm 0 s"
  shows "\<exists>r. island_loop g perm s = Some r \<and> 0 \<le> fst r \<and> fst r \<le> nvtxs g \<and> match_inv S g perm (fst r) (snd r)"
  unfolding island_loop_def
proof (rule while_loop_rule [where I = "\<lambda>r. 0 \<le> fst r \<and> fst r \<le> nvtxs g \<and> match_inv S g perm (fst r) (snd r)"
    and m = "\<lambda>r. nat (nvtxs g - fst r)"])
  note c = wf_csr [OF g]
  show "0 \<le> fst (0 :: int, s) \<and> fst (0, s) \<le> nvtxs g \<and> match_inv S g perm (fst (0, s)) (snd (0, s))"
    using s csrD(1) [OF c] by simp
  fix r :: "int \<times> mst"
  assume r: "0 \<le> fst r \<and> fst r \<le> nvtxs g \<and> match_inv S g perm (fst r) (snd r)"
  obtain ii mat cm n where [simp]: "r = (ii, mat, cm, n)" by (cases r)
  let ?i = "at perm ii"
  show "\<exists>b. (case r of (ii, mat, cm, cnvtxs) \<Rightarrow>
        if ii < nvtxs g then do {
          i \<leftarrow> aget perm ii;
          x \<leftarrow> aget mat i;
          if x = UNMATCHED then map_option Not (has_edges g i) else Some True }
        else Some False) = Some b
      \<and> (\<not> b \<longrightarrow> 0 \<le> fst r \<and> fst r \<le> nvtxs g \<and> match_inv S g perm (fst r) (snd r))
      \<and> (b \<longrightarrow> (\<exists>t. (case r of (ii, s) \<Rightarrow> do { s \<leftarrow> visit pick_island g perm ii s; Some (ii + 1, s) }) = Some t
           \<and> (0 \<le> fst t \<and> fst t \<le> nvtxs g \<and> match_inv S g perm (fst t) (snd t))
           \<and> nat (nvtxs g - fst t) < nat (nvtxs g - fst r)))"
  proof (cases "ii < nvtxs g")
    case False
    then show ?thesis using r by (intro exI [of _ False]) auto
  next
    case True
    with r have ii: "0 \<le> ii" "ii < nvtxs g" by auto
    have i: "0 \<le> ?i" "?i < nvtxs g" using perm_onD [OF perm ii] .
    have get: "aget perm ii = Some ?i" "aget mat ?i = Some (at mat ?i)"
      using ii i r perm by (auto simp: arr perm_on_def match_inv_def)
    have step: "\<exists>t. visit pick_island g perm ii (mat, cm, n) = Some t \<and> match_inv S g perm (ii + 1) t"
      if "island g ?i \<or> at mat ?i \<noteq> UNMATCHED"
    proof (cases "at mat ?i = UNMATCHED")
      case True
      with that r isl.visit_ok [OF g _ perm ii S] show ?thesis by simp
    next
      case other: False
      have "visit pick_island g perm ii (mat, cm, n) = Some (mat, cm, n)"
        using get other by (simp add: visit_def)
      then show ?thesis
        using visit_skip_inv [OF _ other] r ii by simp
    qed
    show ?thesis
    proof (cases "at mat ?i = UNMATCHED \<and> \<not> island g ?i")
      case True
      then show ?thesis using r get ii has_edges_value [OF c i] by (intro exI [of _ False]) simp
    next
      case other: False
      then obtain t where t: "visit pick_island g perm ii (mat, cm, n) = Some t" "match_inv S g perm (ii + 1) t"
        using step by blast
      then show ?thesis using other r get ii has_edges_value [OF c i] by (intro exI [of _ True]) auto
    qed
  qed
qed

definition shem_rel :: "int \<Rightarrow> mgraph \<Rightarrow> int \<Rightarrow> int \<Rightarrow> bool" where
  "shem_rel maxv g v w \<longleftrightarrow> linked maxv g v w \<or> island g v \<or> island g w"

lemma Match_SHEM_ok:
  assumes g: "wf_graph g" "weighted g" "match_room c g" "0 < nvtxs g"
    and islands: "nvtxs g < 8 * HTLENGTH \<or> (\<forall>v. 0 \<le> v \<and> v < nvtxs g \<longrightarrow> \<not> island g v)"
  shows "\<exists>t. Match_SHEM c g = Some t \<and> coarsened (shem_rel (maxvwgt c) g) c g t"
proof -
  let ?n = "nvtxs g" and ?S = "shem_rel (maxvwgt c) g"
  let ?c2 = "c\<lparr>ccore := ccore c + 2 * pad2 (nvtxs g)\<rparr>" and ?c1 = "c\<lparr>ccore := ccore c + pad2 (nvtxs g)\<rparr>"
  note csr = wf_csr [OF g(1)]
  have p: "0 \<le> pad2 ?n" using g(4) by (intro pad2_nonneg) simp
  have room: "0 \<le> ccore c" "ccore c + 4 * pad2 ?n \<le> maxcore c" "\<And>k. 0 \<le> rand_at c k"
    using g(3) by (auto simp: match_room_def)
  have a: "idxwspacemalloc c ?n = Some (fresh c ?n, ?c1)" "idxwspacemalloc ?c1 ?n = Some (fresh c ?n, ?c2)"
    using room p by (auto simp: idxwspacemalloc_def Let_def fresh_def)
  obtain mat where m: "idxset ?n UNMATCHED (fresh c ?n) = Some mat" "length mat = nat ?n"
    "\<And>v. 0 \<le> v \<Longrightarrow> v < ?n \<Longrightarrow> at mat v = UNMATCHED"
    using idxset_spec [of ?n "fresh c ?n" UNMATCHED] g(4) by auto
  obtain perm k where d: "degree_order ?c2 g (fresh c ?n) = Some (perm, ?c2\<lparr>ccore := ccore c + 4 * pad2 ?n, rand_pos := k\<rparr>)"
    "perm_on ?n perm"
  proof -
    have "\<exists>q k. degree_order ?c2 g (fresh c ?n) = Some (q, ?c2\<lparr>ccore := ccore ?c2 + 2 * pad2 ?n, rand_pos := k\<rparr>)
        \<and> perm_on ?n q"
      by (rule degree_order_ok [OF csr g(4)]) (use room p g(4) in auto)
    moreover have "ccore ?c2 + 2 * pad2 ?n = ccore c + 4 * pad2 ?n" by simp
    ultimately show ?thesis using that by (simp only:) blast
  qed
  have cm: "ilen (cmap g) = ?n" using g(1) by (simp add: wf_graph_def)
  have lm: "ilen mat = ?n" using m(2) g(4) by (simp add: ilen_def)
  have S: "?S v w \<Longrightarrow> ?S w v" for v w using linked_sym by (auto simp: shem_rel_def)
  obtain ii s where i: "island_loop g perm (mat, cmap g, 0) = Some (ii, s)" "0 \<le> ii" "ii \<le> ?n" "match_inv ?S g perm ii s"
    using island_loop_ok [OF g(1) d(2), of ?S "(mat, cmap g, 0)"] match_inv_start [OF lm cm m(3) d(2)] S
    by (auto simp: shem_rel_def)
  obtain t where t: "for_loop ii ?n (visit (pick_HEM (maxvwgt c)) g perm) s = Some t" "match_inv ?S g perm ?n t"
    using hem.match_loop [OF g(1) _ d(2) i(2,3) _ S i(4), of "maxvwgt c"] g(2) by (auto simp: shem_rel_def)
  obtain mat' cm' n where [simp]: "t = (mat', cm', n)" by (cases t)
  note md = match_inv_done [OF t(2) [simplified] d(2)]
  have create: "\<exists>cg. CreateCoarseGraph e (g\<lparr>cmap := cm'\<rparr>) n mat' perm = Some (cg, e) \<and> coarse_of (g\<lparr>cmap := cm'\<rparr>) mat' n cg"
    if e: "contract_room e (g\<lparr>cmap := cm'\<rparr>) n" "wf_graph (g\<lparr>cmap := cm'\<rparr>)" "matching_ok (g\<lparr>cmap := cm'\<rparr>) n mat' perm" for e
  proof (cases "?n < 8 * HTLENGTH")
    case True
    then have "n < 8 * HTLENGTH" using md(2) by simp
    then show ?thesis using CreateCoarseGraphNoMask_ok [OF e(2) _ e(3,1)] g(2) by (simp add: CreateCoarseGraph_def)
  next
    case False
    have "adjacent g v (at mat' v)" if "0 \<le> v" "v < ?n" "at mat' v \<noteq> v" for v
      using md(3) [OF that] islands False that matching_okD(1,2) [OF md(1), of v]
      by (auto simp: shem_rel_def linked_def)
    then have "pairs_adjacent (g\<lparr>cmap := cm'\<rparr>) mat'" by (rule adjacent_pairs)
    with CreateCoarseGraph_ok [OF e(2) _ e(3,1)] g(2) show ?thesis by simp
  qed
  let ?c5 = "c\<lparr>ccore := ccore c + 2 * pad2 ?n, rand_pos := k\<rparr>"
  obtain u where u: "match_end CreateCoarseGraph ?c5 g perm (mat', cm', n) = Some u" "coarsened ?S c g u"
    using match_end_ok [where create = CreateCoarseGraph and k = k, OF g(1,3) d(2) t(2) [simplified] create] by blast
  have fr: "idxwspacefree (c\<lparr>ccore := ccore c + 4 * pad2 ?n, rand_pos := k\<rparr>) ?n
      = Some (c\<lparr>ccore := ccore c + 3 * pad2 ?n, rand_pos := k\<rparr>)"
    "idxwspacefree (c\<lparr>ccore := ccore c + 3 * pad2 ?n, rand_pos := k\<rparr>) ?n = Some ?c5"
    using room p by (simp_all add: idxwspacefree_def Let_def)
  have "Match_SHEM c g = Some u"
    using a m(1) d(1) i(1) t(1) fr u(1) by (simp add: Match_SHEM_def)
  then show ?thesis using u(2) by blast
qed

end
