(* ===== verification/Mt_Coarsen.thy ===== *)
theory Mt_Coarsen
  imports Mt_Match_Props
begin

text \<open>
  \<open>coarsen.c\<close> and the set-up of the control structure in \<open>METIS_WPartGraphKway\<close> (\<open>kmetis.c\<close>): the
  loop that coarsens a graph until it is small enough or stops shrinking. The links \<open>finer\<close> and
  \<open>coarser\<close> are the order of a list of graphs.
\<close>

section \<open>Parameters\<close>

definition MATCH_RM :: int where "MATCH_RM = 1"
definition MATCH_HEM :: int where "MATCH_HEM = 2"
definition MATCH_SHEM :: int where "MATCH_SHEM = 3"
definition MATCH_SHEMKWAY :: int where "MATCH_SHEMKWAY = 4"
definition RTYPE_KWAYRANDOM_MCONN :: int where "RTYPE_KWAYRANDOM_MCONN = 3"

text \<open>\<open>options[0] == 0\<close> asks for the defaults; \<open>CoarsenTo\<close> and \<open>maxvwgt\<close> follow from the number of
  parts and the total weight.\<close>

definition kway_ctrl :: "ctrl \<Rightarrow> mgraph \<Rightarrow> int \<Rightarrow> int list \<Rightarrow> ctrl option" where
  "kway_ctrl c g nparts options = do {
     opt \<leftarrow> aget options 0;
     c \<leftarrow> (if opt = 0 then Some (c\<lparr>CType := MATCH_SHEM, RType := RTYPE_KWAYRANDOM_MCONN\<rparr>)
           else do { ct \<leftarrow> aget options 1; rt \<leftarrow> aget options 3; Some (c\<lparr>CType := ct, RType := rt\<rparr>) });
     q \<leftarrow> cdiv (nvtxs g) (40 * log2 nparts);
     c \<leftarrow> Some (c\<lparr>CoarsenTo := (if q \<ge> 20 * nparts then q else 20 * nparts)\<rparr>);
     tvwgt \<leftarrow> (case vwgt g of Some w \<Rightarrow> idxsum (nvtxs g) w | None \<Rightarrow> Some (nvtxs g));
     r \<leftarrow> cdiv tvwgt (CoarsenTo c);
     Some (c\<lparr>maxvwgt := times_15 r\<rparr>) }"

section \<open>The loop\<close>

text \<open>The finer graphs, nearest first, the current one, the control structure and \<open>clevel\<close>.\<close>

type_synonym level_state = "mgraph list \<times> mgraph \<times> ctrl \<times> int"

definition match_level :: "ctrl \<Rightarrow> mgraph \<Rightarrow> int \<Rightarrow> (mgraph \<times> mgraph \<times> ctrl) option" where
  "match_level c g clevel =
     (if adjwgt g \<noteq> None then
        if CType c = MATCH_RM then Match_RM c g
        else if CType c = MATCH_HEM then if clevel < 1 then Match_RM c g else Match_HEM c g
        else if CType c = MATCH_SHEM then if clevel < 1 then Match_RM c g else Match_SHEM c g
        else if CType c = MATCH_SHEMKWAY then Match_SHEM c g
        else None
      else Match_RM_NVW c g)"

definition coarsen_step :: "level_state \<Rightarrow> level_state option" where
  "coarsen_step = (\<lambda>(finer, g, c, clevel). do {
     (g, cg, c) \<leftarrow> match_level c g clevel;
     Some (g # finer, cg, c, clevel + 1) })"

definition coarsen_more :: "level_state \<Rightarrow> bool" where
  "coarsen_more = (\<lambda>(finer, g, c, clevel). case finer of [] \<Rightarrow> True
     | f # _ \<Rightarrow> nvtxs g > CoarsenTo c \<and> less_09 (nvtxs g) (nvtxs f) \<and> nedges g > nvtxs g sdiv 2)"

definition Coarsen2Way :: "ctrl \<Rightarrow> mgraph \<Rightarrow> (mgraph list \<times> mgraph \<times> ctrl) option" where
  "Coarsen2Way c g = do {
     (c, clevel) \<leftarrow> Some (if CType c > 20 then (c\<lparr>CType := CType c - 20\<rparr>, 1) else (c, 0));
     s \<leftarrow> coarsen_step ([], g, c, clevel);
     (finer, g, c, clevel) \<leftarrow> while_loop (\<lambda>s. Some (coarsen_more s)) coarsen_step s;
     Some (finer, g, c) }"

text \<open>A partition of the coarsest graph as one of the finest.\<close>

fun project_levels :: "mgraph list \<Rightarrow> (int \<Rightarrow> int) \<Rightarrow> int \<Rightarrow> int" where
  "project_levels [] p = p"
| "project_levels (f # finer) p = project_levels finer (\<lambda>v. p (at (cmap f) v))"

section \<open>What coarsening preserves\<close>

text \<open>A graph is in one piece if edges lead out of every set of some but not all of its vertices. So is then each
  graph it is coarsened to, and none of more than one vertex has a vertex without edges.\<close>

definition weight_out :: "mgraph \<Rightarrow> (int \<Rightarrow> bool) \<Rightarrow> int" where
  "weight_out g U = (\<Sum>i = 0..<nvtxs g. if U i then rowsum g (\<lambda>k. if U k then 0 else 1) i else 0)"

definition one_piece :: "mgraph \<Rightarrow> bool" where
  "one_piece g \<longleftrightarrow> (\<forall>U v w. 0 \<le> v \<and> v < nvtxs g \<and> U v \<and> 0 \<le> w \<and> w < nvtxs g \<and> \<not> U w \<longrightarrow> weight_out g U \<noteq> 0)"

lemma one_piece_no_island:
  assumes "one_piece g" "1 < nvtxs g" "0 \<le> v" "v < nvtxs g"
  shows "\<not> island g v"
proof
  assume "island g v"
  then have "weight_out g (\<lambda>i. i = v) = 0"
    by (auto simp: weight_out_def island_def rowsum_def intro!: sum.neutral)
  then show False
    using assms(1) [unfolded one_piece_def, rule_format, of v "\<lambda>i. i = v" "if v = 0 then 1 else 0"] assms(2-) by simp
qed

lemma coarse_weight_out:
  assumes g: "csr g" and m: "matching_ok g n mat perm" and cg: "coarse_of g mat n cg"
  shows "weight_out cg U = weight_out g (\<lambda>v. U (at (cmap g) v))"
proof -
  have cm: "0 \<le> at (cmap g) i \<and> at (cmap g) i < n" if "i \<in> {0..<nvtxs g}" for i
    using matching_okD(5,6) [OF m, of i] that by simp
  let ?f = "\<lambda>k. if U k then 0 else 1 :: int"
  have "weight_out cg U = (\<Sum>c = 0..<n. \<Sum>i = 0..<nvtxs g.
      if at (cmap g) i = c then if U c then rowsum g (\<lambda>k. ?f (at (cmap g) k)) i else 0 else 0)"
    unfolding weight_out_def
  proof (rule sum.cong)
    show "{0..<nvtxs cg} = {0..<n}" using cg by (simp add: coarse_of_def)
    fix c assume c: "c \<in> {0..<n}"
    show "(if U c then rowsum cg ?f c else 0) = (\<Sum>i = 0..<nvtxs g.
        if at (cmap g) i = c then if U c then rowsum g (\<lambda>k. ?f (at (cmap g) k)) i else 0 else 0)"
      using coarse_rowsum [OF g m cg, of c ?f] c by (cases "U c") (simp_all cong: if_cong)
  qed
  also have "\<dots> = (\<Sum>i = 0..<nvtxs g. if U (at (cmap g) i) then rowsum g (\<lambda>k. ?f (at (cmap g) k)) i else 0)"
    by (rule sum_by_class [OF cm])
  finally show ?thesis by (simp add: weight_out_def)
qed

text \<open>Matching types that pair neighbours only, or whose graphs are too small for the hash table of the
  contraction, or without vertices that have no edges.\<close>

definition ctype_ok :: "ctrl \<Rightarrow> mgraph \<Rightarrow> bool" where
  "ctype_ok c g \<longleftrightarrow> CType c = MATCH_RM \<or> CType c = MATCH_HEM
     \<or> (CType c = MATCH_SHEM \<or> CType c = MATCH_SHEMKWAY) \<and> (nvtxs g < 8 * HTLENGTH \<or> one_piece g)"

lemma coarsened_facts:
  assumes "wf_graph g" "coarsened S c g (g', cg, c')"
  shows "cut2 cg p = cut2 g (\<lambda>v. p (at (cmap g') v))"
    "part_weight cg p k = part_weight g (\<lambda>v. p (at (cmap g') v)) k"
    "wf_graph cg" "weighted cg" "nvtxs cg \<le> nvtxs g" "nedges cg \<le> nedges g" "0 < nvtxs g \<Longrightarrow> 0 < nvtxs cg"
    "one_piece g \<Longrightarrow> one_piece cg"
    "c' = c\<lparr>rand_pos := rand_pos c'\<rparr>" "nvtxs g' = nvtxs g"
proof -
  from assms(2) obtain mat perm where g': "g' = g\<lparr>cmap := cmap g'\<rparr>" "ilen (cmap g') = nvtxs g"
    and m: "matching_ok g' (nvtxs cg) mat perm" and cg: "coarse_of g' mat (nvtxs cg) cg"
    and r: "nvtxs cg \<le> nvtxs g" "c' = c\<lparr>rand_pos := rand_pos c'\<rparr>"
    unfolding coarsened_def prod.case by blast
  have same: "nvtxs g' = nvtxs g" "rowsum g' = rowsum g" "vwt g' = vwt g" "nedges g' = nedges g"
    using g'(1) by (metis mgraph.select_convs(1) mgraph.surjective mgraph.update_convs(8),
      metis (no_types) fun_eq_iff mgraph.select_convs(3,5,6) mgraph.surjective mgraph.update_convs(8) rowsum_cong,
      metis (no_types) fun_eq_iff mgraph.select_convs(4) mgraph.surjective mgraph.update_convs(8) vwt_def,
      metis mgraph.select_convs(2) mgraph.surjective mgraph.update_convs(8))
  have "wf_graph g'" using wf_cmap [OF assms(1) g'(2)] g'(1) by simp
  then have c: "csr g'" by (rule wf_csr)
  show "cut2 cg p = cut2 g (\<lambda>v. p (at (cmap g') v))"
    using coarse_cut [OF c m cg] by (simp add: cut2_def same)
  have "part_weight g' q k = part_weight g q k" for q
    unfolding part_weight_def same(1,3) by (rule refl)
  with coarse_part_weight [OF m cg]
  show "part_weight cg p k = part_weight g (\<lambda>v. p (at (cmap g') v)) k" by (simp only: )
  have "weight_out g' U = weight_out g U" for U unfolding weight_out_def same(1,2) by (rule refl)
  with coarse_weight_out [OF c m cg] have out: "weight_out cg U = weight_out g (\<lambda>v. U (at (cmap g') v))" for U by simp
  show "one_piece cg" if g: "one_piece g"
    unfolding one_piece_def
  proof (intro allI impI)
    fix U v w assume a: "0 \<le> v \<and> v < nvtxs cg \<and> U v \<and> 0 \<le> w \<and> w < nvtxs cg \<and> \<not> U w"
    obtain x where x: "0 \<le> x" "x < nvtxs g'" "at (cmap g') x = v" using matching_ok_member [OF m, of v] a by blast
    obtain y where y: "0 \<le> y" "y < nvtxs g'" "at (cmap g') y = w" using matching_ok_member [OF m, of w] a by blast
    from a x y have "0 \<le> x \<and> x < nvtxs g \<and> U (at (cmap g') x) \<and> 0 \<le> y \<and> y < nvtxs g \<and> \<not> U (at (cmap g') y)"
      by (simp add: same)
    with g [unfolded one_piece_def, rule_format, of x "\<lambda>v. U (at (cmap g') v)" y]
    show "weight_out cg U \<noteq> 0" by (simp add: out)
  qed
  show "wf_graph cg" "weighted cg" "nedges cg \<le> nedges g" using cg same by (auto simp: coarse_of_def)
  show "0 < nvtxs cg" if "0 < nvtxs g"
    using matching_okD(5,6) [OF m, of 0] that same by simp
  show "nvtxs cg \<le> nvtxs g" "c' = c\<lparr>rand_pos := rand_pos c'\<rparr>" "nvtxs g' = nvtxs g" using r same by auto
qed

lemma match_room_coarser:
  assumes "match_room c g" "0 \<le> nvtxs cg" "nvtxs cg \<le> nvtxs g" "nedges cg \<le> nedges g"
  shows "match_room (c\<lparr>rand_pos := k\<rparr>) cg"
  using assms pad2_mono [OF assms(2,3)] by (auto simp: match_room_def)

lemma match_level_ok:
  assumes g: "wf_graph g" "weighted g \<or> vwgt g = None \<and> adjwgt g = None" "match_room c g" "ctype_ok c g" "0 < nvtxs g"
  shows "\<exists>t S. match_level c g clevel = Some t \<and> coarsened S c g t"
proof (cases "adjwgt g = None")
  case True
  then have "vwgt g = None" using g(2) by (simp add: weighted_def)
  with Match_RM_NVW_ok [OF g(1) _ True g(3)] True show ?thesis by (auto simp: match_level_def)
next
  case False
  then have w: "weighted g" using g(2) False by blast
  have "nvtxs g < 8 * HTLENGTH \<or> (\<forall>v. 0 \<le> v \<and> v < nvtxs g \<longrightarrow> \<not> island g v)" if "nvtxs g < 8 * HTLENGTH \<or> one_piece g"
    using that one_piece_no_island [of g] by (auto simp: HTLENGTH_def)
  then have "CType c = MATCH_RM \<or> CType c = MATCH_HEM \<or> (CType c = MATCH_SHEM \<or> CType c = MATCH_SHEMKWAY)
      \<and> (\<exists>t. Match_SHEM c g = Some t \<and> coarsened (shem_rel (maxvwgt c) g) c g t)"
    using g(4) Match_SHEM_ok [OF g(1) w g(3,5)] unfolding ctype_ok_def by blast
  with Match_RM_ok [OF g(1) w g(3)] Match_HEM_ok [OF g(1) w g(3)] False
  show ?thesis
    by (auto simp: match_level_def MATCH_RM_def MATCH_HEM_def MATCH_SHEM_def MATCH_SHEMKWAY_def)
qed

text \<open>The invariant of the loop: the current graph is a coarsening of the input.\<close>

definition level_inv :: "ctrl \<Rightarrow> mgraph \<Rightarrow> level_state \<Rightarrow> bool" where
  "level_inv c0 g0 = (\<lambda>(finer, g, c, clevel).
     wf_graph g \<and> (weighted g \<or> vwgt g = None \<and> adjwgt g = None) \<and> match_room c g \<and> ctype_ok c g
     \<and> 0 < nvtxs g \<and> nvtxs g \<le> nvtxs g0 \<and> c = c0\<lparr>rand_pos := rand_pos c\<rparr>
     \<and> (case finer of [] \<Rightarrow> g = g0 | f # _ \<Rightarrow> weighted g \<and> nvtxs g \<le> nvtxs f)
     \<and> (\<forall>p. cut2 g p = cut2 g0 (project_levels finer p)
          \<and> part_weight g p = part_weight g0 (project_levels finer p)))"

lemma coarsen_step_ok:
  assumes "level_inv c0 g0 (finer, g, c, clevel)"
  shows "\<exists>f cg c'. coarsen_step (finer, g, c, clevel) = Some (f # finer, cg, c', clevel + 1)
    \<and> level_inv c0 g0 (f # finer, cg, c', clevel + 1) \<and> nvtxs f = nvtxs g \<and> nvtxs cg \<le> nvtxs g"
proof -
  note i = assms [unfolded level_inv_def prod.case]
  obtain f cg c' S where t: "match_level c g clevel = Some (f, cg, c')" "coarsened S c g (f, cg, c')"
    using match_level_ok [of g c clevel] i by (metis prod_cases3)
  have wf: "wf_graph g" using i by blast
  note q = coarsened_facts [OF wf t(2)]
  have "match_room c' cg"
    using match_room_coarser [of c g cg "rand_pos c'"] i q(5-7,9) by auto
  moreover have "CType c' = CType c" using q(9) by (metis ctrl.ext_inject ctrl.surjective ctrl.update_convs(10))
  then have "ctype_ok c' cg" using i q(5,8) by (auto simp: ctype_ok_def)
  moreover have "c' = c0\<lparr>rand_pos := rand_pos c'\<rparr>"
  proof -
    have "c = c0\<lparr>rand_pos := rand_pos c\<rparr>" using i by blast
    then have "c\<lparr>rand_pos := rand_pos c'\<rparr> = c0\<lparr>rand_pos := rand_pos c'\<rparr>"
      by (metis ctrl.surjective ctrl.update_convs(10))
    with q(9) show ?thesis by simp
  qed
  moreover have "cut2 cg p = cut2 g0 (project_levels (f # finer) p)
      \<and> part_weight cg p = part_weight g0 (project_levels (f # finer) p)" for p
    using i q(1,2) by (auto simp: fun_eq_iff)
  ultimately have "level_inv c0 g0 (f # finer, cg, c', clevel + 1)"
    using i q(3-7,10) by (simp add: level_inv_def)
  with t(1) q(5,10) show ?thesis by (auto simp: coarsen_step_def)
qed

lemma coarsen_from:
  assumes g: "wf_graph g" "weighted g \<or> vwgt g = None \<and> adjwgt g = None" "match_room c g" "0 < nvtxs g"
    and ct: "ctype_ok c g" and n: "nvtxs g < 2 ^ 32"
  shows "\<exists>finer cg c' clevel'. (do {
       s \<leftarrow> coarsen_step ([], g, c, clevel);
       while_loop (\<lambda>s. Some (coarsen_more s)) coarsen_step s }) = Some (finer, cg, c', clevel')
    \<and> finer \<noteq> [] \<and> wf_graph cg \<and> weighted cg
    \<and> 0 < nvtxs cg \<and> nvtxs cg \<le> nvtxs g
    \<and> (\<forall>p. cut2 cg p = cut2 g (project_levels finer p) \<and> part_weight cg p = part_weight g (project_levels finer p))
    \<and> (nvtxs cg \<le> CoarsenTo c \<or> \<not> less_09 (nvtxs cg) (nvtxs (hd finer)) \<or> nedges cg \<le> nvtxs cg div 2)"
proof -
  have i0: "level_inv c g ([], g, c, clevel)" using g ct by (simp add: level_inv_def)
  obtain f cg c' where s: "coarsen_step ([], g, c, clevel) = Some ([f], cg, c', clevel + 1)" "level_inv c g ([f], cg, c', clevel + 1)"
    using coarsen_step_ok [OF i0] by auto
  define I where "I s \<longleftrightarrow> level_inv c g s \<and> fst s \<noteq> []" for s :: level_state
  define m where "m s = 2 * nat (nvtxs (fst (snd s))) + (if coarsen_more s then 1 else 0)" for s :: level_state
  have "\<exists>t. while_loop (\<lambda>s. Some (coarsen_more s)) coarsen_step ([f], cg, c', clevel + 1) = Some t \<and> (I t \<and> \<not> coarsen_more t)"
  proof (rule while_loop_rule [where I = I and m = m])
    show "I ([f], cg, c', clevel + 1)" using s(2) by (simp add: I_def)
    fix s assume I: "I s"
    obtain finer h d lev where st: "s = (finer, h, d, lev)" by (cases s)
    with I have inv: "level_inv c g (finer, h, d, lev)" by (simp add: I_def)
    then obtain e ch d' where n: "coarsen_step s = Some (e # finer, ch, d', lev + 1)"
      "level_inv c g (e # finer, ch, d', lev + 1)" "nvtxs e = nvtxs h" "nvtxs ch \<le> nvtxs h"
      using coarsen_step_ok [OF inv] st by blast
    let ?t = "(e # finer, ch, d', lev + 1)"
    have pos: "0 < nvtxs h" "nvtxs h \<le> nvtxs g" "0 < nvtxs ch" using inv n(2) by (auto simp: level_inv_def)
    have "m ?t < m s" if "coarsen_more s"
    proof (cases "coarsen_more ?t")
      case True
      then have "less_09 (nvtxs ch) (nvtxs e)" by (simp add: coarsen_more_def)
      then have "nvtxs ch < nvtxs h" using less_09_less n(3) pos \<open>nvtxs g < 2 ^ 32\<close> by fastforce
      with that True pos show ?thesis by (simp add: m_def st)
    next
      case False
      with that n(4) pos show ?thesis by (simp add: m_def st)
    qed
    moreover have "I ?t" using n(2) by (simp add: I_def)
    ultimately show "\<exists>b. Some (coarsen_more s) = Some b \<and> (\<not> b \<longrightarrow> I s \<and> \<not> coarsen_more s)
        \<and> (b \<longrightarrow> (\<exists>t. coarsen_step s = Some t \<and> I t \<and> m t < m s))"
      using I n(1) by auto
  qed
  then obtain finer h d lev where t: "while_loop (\<lambda>s. Some (coarsen_more s)) coarsen_step ([f], cg, c', clevel + 1) = Some (finer, h, d, lev)"
    "level_inv c g (finer, h, d, lev)" "finer \<noteq> []" "\<not> coarsen_more (finer, h, d, lev)"
    by (auto simp: I_def)
  have "CoarsenTo d = CoarsenTo c"
    using t(2) unfolding level_inv_def prod.case by (metis ctrl.select_convs(3) ctrl.surjective ctrl.update_convs(10))
  moreover have "nvtxs h sdiv 2 = nvtxs h div 2"
    using t(2) by (simp add: level_inv_def sdiv_nonneg)
  ultimately have stop: "nvtxs h \<le> CoarsenTo c \<or> \<not> less_09 (nvtxs h) (nvtxs (hd finer)) \<or> nedges h \<le> nvtxs h div 2"
    using t(3,4) by (auto simp: coarsen_more_def split: list.splits)
  from t stop show ?thesis using s(1) by (auto simp: level_inv_def split: list.splits)
qed

text \<open>Above 20 \<open>CType\<close> stands for the type 20 below, with the first level counted as the second.\<close>

definition matching_ctrl :: "ctrl \<Rightarrow> ctrl" where
  "matching_ctrl c = (if CType c > 20 then c\<lparr>CType := CType c - 20\<rparr> else c)"

lemma Coarsen2Way_ok:
  assumes g: "wf_graph g" "weighted g \<or> vwgt g = None \<and> adjwgt g = None" "match_room c g" "0 < nvtxs g"
    and ct: "ctype_ok (matching_ctrl c) g" and n: "nvtxs g < 2 ^ 32"
  shows "\<exists>finer cg c'. Coarsen2Way c g = Some (finer, cg, c') \<and> finer \<noteq> [] \<and> wf_graph cg \<and> weighted cg
    \<and> 0 < nvtxs cg \<and> nvtxs cg \<le> nvtxs g
    \<and> (\<forall>p. cut2 cg p = cut2 g (project_levels finer p) \<and> part_weight cg p = part_weight g (project_levels finer p))
    \<and> (nvtxs cg \<le> CoarsenTo c \<or> \<not> less_09 (nvtxs cg) (nvtxs (hd finer)) \<or> nedges cg \<le> nvtxs cg div 2)"
proof -
  have room: "match_room (matching_ctrl c) g" using g(3) by (simp add: match_room_def matching_ctrl_def)
  have "CoarsenTo (matching_ctrl c) = CoarsenTo c" by (simp add: matching_ctrl_def)
  with coarsen_from [OF g(1,2) room g(4) ct n, of "if CType c > 20 then 1 else 0"] show ?thesis
    by (fastforce simp: Coarsen2Way_def matching_ctrl_def bind_eq_Some_conv split: if_splits)
qed

end
