(* ===== verification/Mt_Kway_Refine.thy ===== *)
theory Mt_Kway_Refine
  imports Mt_Kway_Move Mt_Coarsen
begin

text \<open>
  \<open>Random_KWayEdgeRefine\<close> (\<open>kwayfm.c\<close>): passes over the boundary in random order that move vertices to
  neighbouring parts. The lemmas show that every move keeps the state in agreement with the partition
  (\<open>kinv\<close>), does not raise the cut, and with even targets does not overload a part.
\<close>

section \<open>The routine\<close>

text \<open>\<open>tpwgts\<close> and \<open>ubfactor\<close> are floats, and in which precision the machine multiplies them is its
  choice; so the integers the code computes from them are arguments: for part \<open>i\<close> and the total
  weight, \<open>tpwgts[i]*tvwgt\<close>, \<open>tpwgts[i]*tvwgt*ubfactor\<close> and \<open>tpwgts[i]*tvwgt*(1.0/ubfactor)\<close>.\<close>

record limits =
  share :: "int \<Rightarrow> int \<Rightarrow> int"
  above :: "int \<Rightarrow> int \<Rightarrow> int"
  below :: "int \<Rightarrow> int \<Rightarrow> int"

text \<open>The arrays \<open>minwgt\<close>, \<open>maxwgt\<close> and \<open>itpwgts\<close>.\<close>

record bands =
  minwgt :: "int list"
  maxwgt :: "int list"
  itpwgts :: "int list"

definition weight_limits :: "limits \<Rightarrow> int \<Rightarrow> int \<Rightarrow> bands \<Rightarrow> bands option" where
  "weight_limits L nparts tvwgt b = for_loop 0 nparts (\<lambda>i b. do {
     it \<leftarrow> aset (itpwgts b) i (share L i tvwgt);
     mx \<leftarrow> aset (maxwgt b) i (above L i tvwgt);
     mn \<leftarrow> aset (minwgt b) i (below L i tvwgt);
     Some \<lparr>minwgt = mn, maxwgt = mx, itpwgts = it\<rparr> }) b"

definition INC_DEC :: "int list \<Rightarrow> int \<Rightarrow> int \<Rightarrow> int \<Rightarrow> int list option" where
  "INC_DEC pw a b val = do {
     x \<leftarrow> aget pw a; pw \<leftarrow> aset pw a (x + val);
     y \<leftarrow> aget pw b; aset pw b (y - val) }"

text \<open>The move of \<open>i\<close> into the part of slot \<open>k\<close>, up to the loop over its edges; the result names the
  old and the new part.\<close>

definition begin_move ::
  "(int \<Rightarrow> int \<Rightarrow> bool) \<Rightarrow> mgraph \<Rightarrow> int \<Rightarrow> int \<Rightarrow> kstate \<Rightarrow> (int \<times> int \<times> kstate) option" where
  "begin_move leaves g i k s = do {
     r \<leftarrow> aget (rinfos s) i;
     (to, ed) \<leftarrow> slot s r k;
     from \<leftarrow> aget (wher s) i;
     vw \<leftarrow> nget (vwgt g) i;
     s \<leftarrow> flip_vertex i k s;
     pw \<leftarrow> INC_DEC (pwgts s) to from vw;
     s \<leftarrow> Some (s\<lparr>pwgts := pw\<rparr>);
     r \<leftarrow> aget (rinfos s) i;
     s \<leftarrow> (if leaves (rid r) (red r) then BNDDelete i s else Some s);
     Some (from, to, s) }"

definition move_vertex ::
  "(int \<Rightarrow> int \<Rightarrow> bool) \<Rightarrow> (int \<Rightarrow> int \<Rightarrow> bool) \<Rightarrow> mgraph \<Rightarrow> int \<Rightarrow> int \<Rightarrow> kstate \<Rightarrow> kstate option" where
  "move_vertex enters leaves g i k s = do {
     (from, to, s) \<leftarrow> begin_move leaves g i k s;
     a \<leftarrow> aget (xadj g) i; b \<leftarrow> aget (xadj g) (i + 1);
     for_loop a b (move_edge enters leaves g from to) s }"

text \<open>The first part the vertex may go to, and the best one after it.\<close>

definition first_fit :: "kstate \<Rightarrow> bands \<Rightarrow> rinfo \<Rightarrow> int \<Rightarrow> int \<Rightarrow> int option" where
  "first_fit s b r vw ffactor = search 0 (ndegrees r) (\<lambda>k. do {
     (to, ed) \<leftarrow> slot s r k;
     gain \<leftarrow> Some (ed - rid r);
     x \<leftarrow> aget (pwgts s) to; m \<leftarrow> aget (maxwgt b) to;
     Some (x + vw \<le> m + ffactor * gain \<and> gain \<ge> 0) })"

definition better_fit :: "kstate \<Rightarrow> bands \<Rightarrow> rinfo \<Rightarrow> int \<Rightarrow> int \<Rightarrow> int option" where
  "better_fit s b r vw k = for_loop (k + 1) (ndegrees r) (\<lambda>j k. do {
     (to, ed) \<leftarrow> slot s r j; (tk, edk) \<leftarrow> slot s r k;
     x \<leftarrow> aget (pwgts s) to; xk \<leftarrow> aget (pwgts s) tk; m \<leftarrow> aget (maxwgt b) to;
     it \<leftarrow> aget (itpwgts b) to; itk \<leftarrow> aget (itpwgts b) tk;
     Some (if ed > edk \<and> x + vw \<le> m \<or> ed = edk \<and> itk * x < it * xk then j else k) }) k"

text \<open>Moves that leave the cut as it is are made if they help the balance, and now and then.\<close>

definition worth_moving :: "kstate \<Rightarrow> bands \<Rightarrow> rinfo \<Rightarrow> int \<Rightarrow> int \<Rightarrow> int \<Rightarrow> int \<Rightarrow> bool option" where
  "worth_moving s b r from vw k iii = do {
     (to, ed) \<leftarrow> slot s r k;
     if ed - rid r > 0 then Some True
     else if ed - rid r = 0 then do {
       x \<leftarrow> aget (pwgts s) from; y \<leftarrow> aget (pwgts s) to; m \<leftarrow> aget (maxwgt b) from;
       itf \<leftarrow> aget (itpwgts b) from; itt \<leftarrow> aget (itpwgts b) to;
       Some (iii AND 7 = 0 \<or> x \<ge> m \<or> itf * (y + vw) < itt * x) }
     else Some False }"

definition refine_enters :: "int \<Rightarrow> int \<Rightarrow> bool" where "refine_enters inner ed \<longleftrightarrow> ed - inner \<ge> 0"
definition refine_leaves :: "int \<Rightarrow> int \<Rightarrow> bool" where "refine_leaves inner ed \<longleftrightarrow> ed - inner < 0"

definition refine_vertex :: "mgraph \<Rightarrow> bands \<Rightarrow> int \<Rightarrow> int \<Rightarrow> int \<Rightarrow> kstate \<Rightarrow> kstate option" where
  "refine_vertex g b ffactor iii i s = do {
     r \<leftarrow> aget (rinfos s) i;
     if red r \<ge> rid r then do {
       from \<leftarrow> aget (wher s) i; vw \<leftarrow> nget (vwgt g) i;
       x \<leftarrow> aget (pwgts s) from; m \<leftarrow> aget (minwgt b) from;
       if rid r > 0 \<and> x - vw < m then Some s
       else do {
         k \<leftarrow> first_fit s b r vw ffactor;
         if k = ndegrees r then Some s
         else do {
           k \<leftarrow> better_fit s b r vw k;
           ok \<leftarrow> worth_moving s b r from vw k iii;
           if ok then move_vertex refine_enters refine_leaves g i k s else Some s } } }
     else Some s }"

text \<open>One pass over the boundary as it was at its start, in random order; \<open>nbnd\<close> may shrink under it.
  The state has \<open>perm\<close> and the position in the random numbers.\<close>

definition refine_pass ::
  "(nat \<Rightarrow> int) \<Rightarrow> mgraph \<Rightarrow> bands \<Rightarrow> int \<Rightarrow> kstate \<times> int list \<times> nat \<Rightarrow> (kstate \<times> int list \<times> nat) option" where
  "refine_pass rand g b ffactor = (\<lambda>(s, perm, pos). do {
     (perm, pos) \<leftarrow> RandomPermute rand pos (nbnd s) perm 1;
     s \<leftarrow> for_loop 0 (nbnd s) (\<lambda>iii s. do {
       ii \<leftarrow> aget perm iii;
       if ii \<ge> nbnd s then Some s
       else do { i \<leftarrow> aget (bndind s) ii; refine_vertex g b ffactor iii i s } }) s;
     Some (s, perm, pos) })"

primrec refine_passes ::
  "nat \<Rightarrow> (kstate \<times> int list \<times> nat \<Rightarrow> (kstate \<times> int list \<times> nat) option) \<Rightarrow> kstate \<times> int list \<times> nat
    \<Rightarrow> (kstate \<times> int list \<times> nat) option" where
  "refine_passes 0 pass st = Some st"
| "refine_passes (Suc n) pass st = do {
     st' \<leftarrow> pass st;
     if mincut (fst st') = mincut (fst st) then Some st' else refine_passes n pass st' }"

definition Random_KWayEdgeRefine ::
  "ctrl \<Rightarrow> mgraph \<Rightarrow> int \<Rightarrow> limits \<Rightarrow> int \<Rightarrow> int \<Rightarrow> kstate \<Rightarrow> (kstate \<times> ctrl) option" where
  "Random_KWayEdgeRefine c g nparts L npasses ffactor s = do {
     (mn, c) \<leftarrow> idxwspacemalloc c nparts;
     (mx, c) \<leftarrow> idxwspacemalloc c nparts;
     (it, c) \<leftarrow> idxwspacemalloc c nparts;
     tvwgt \<leftarrow> idxsum nparts (pwgts s);
     b \<leftarrow> weight_limits L nparts tvwgt \<lparr>minwgt = mn, maxwgt = mx, itpwgts = it\<rparr>;
     (perm, c) \<leftarrow> idxwspacemalloc c (nvtxs g);
     (s, perm, pos) \<leftarrow> refine_passes (nat npasses) (refine_pass (rand_at c) g b ffactor) (s, perm, rand_pos c);
     c \<leftarrow> Some (c\<lparr>rand_pos := pos\<rparr>);
     c \<leftarrow> idxwspacefree c nparts;
     c \<leftarrow> idxwspacefree c nparts;
     c \<leftarrow> idxwspacefree c nparts;
     c \<leftarrow> idxwspacefree c (nvtxs g);
     Some (s, c) }"

section \<open>One move\<close>

text \<open>A vertex is on its way from part \<open>p i\<close> to \<open>to\<close>: the state knows of it, its neighbours do not.\<close>

definition moving :: "mgraph \<Rightarrow> int \<Rightarrow> (int \<Rightarrow> int) \<Rightarrow> int \<Rightarrow> int \<Rightarrow> kstate \<Rightarrow> bool" where
  "moving g n p i to s \<longleftrightarrow> part_ok g n (wher s) \<and> (\<forall>u. 0 \<le> u \<longrightarrow> at (wher s) u = moved_to p i to u) \<and> p i \<noteq> to
     \<and> ilen (pwgts s) = n \<and> (\<forall>q. 0 \<le> q \<and> q < n \<longrightarrow> at (pwgts s) q = part_weight g (moved_to p i to) q)
     \<and> blocks_ok g {0..<nvtxs g} s \<and> bnd_ok (nvtxs g) s
     \<and> (\<forall>v. 0 \<le> v \<and> v < nvtxs g \<and> v \<noteq> i \<longrightarrow> rinfo_ok g p s v) \<and> rinfo_ok g (moved_to p i to) s i
     \<and> 2 * mincut s = cut2 g (moved_to p i to)"

lemma kinvD:
  assumes "kinv g n s"
  shows "part_ok g n (wher s)" "ilen (pwgts s) = n" "blocks_ok g {0..<nvtxs g} s" "bnd_ok (nvtxs g) s"
    "2 * mincut s = cut2 g (at (wher s))"
    "0 \<le> q \<Longrightarrow> q < n \<Longrightarrow> at (pwgts s) q = part_weight g (at (wher s)) q"
    "0 \<le> v \<Longrightarrow> v < nvtxs g \<Longrightarrow> rinfo_ok g (at (wher s)) s v"
    "0 \<le> v \<Longrightarrow> v < nvtxs g \<Longrightarrow> rid (at (rinfos s) v) = conn g (at (wher s)) v (at (wher s) v)"
    "0 \<le> v \<Longrightarrow> v < nvtxs g \<Longrightarrow> red (at (rinfos s) v) = ext g (at (wher s)) v"
    "0 \<le> v \<Longrightarrow> v < nvtxs g \<Longrightarrow> row_is g (at (wher s)) v (slots s v)"
    "0 \<le> v \<Longrightarrow> v < nvtxs g \<Longrightarrow> aget (rinfos s) v = Some (at (rinfos s) v)"
  using assms by (auto simp: kinv_def rinfo_ok_def arr blocks_ok_def)

lemma move_done:
  assumes g: "kgraph g" and i: "0 \<le> i" "i < nvtxs g" and m: "moving g n p i to s"
    and e: "edge_inv enters leaves g p i to s (at (xadj g) (i + 1)) t"
  shows "kinv g n t"
proof -
  let ?q = "moved_to p i to"
  have w: "wher t = wher s" "pwgts t = pwgts s" "mincut t = mincut s" using e by (simp_all add: edge_inv_def)
  have q: "\<And>u. 0 \<le> u \<Longrightarrow> ?q u = at (wher t) u" using m w by (simp add: moving_def)
  have "rinfo_ok g (at (wher t)) t v" if v: "0 \<le> v" "v < nvtxs g" for v
    using edge_inv_end [OF g i _ _ e v] rinfo_ok_part [OF g v, of ?q "at (wher t)" t, OF q] m by (simp add: moving_def)
  moreover have "cut2 g ?q = cut2 g (at (wher t))" "part_weight g ?q k = part_weight g (at (wher t)) k" for k
    using cut2_part [OF g, of ?q "at (wher t)", OF q] by auto
  ultimately show ?thesis using m e w by (simp add: kinv_def moving_def edge_inv_def)
qed

text \<open>The slots hold neighbouring parts with their weights.\<close>

lemma slot_part:
  assumes g: "kgraph g" and s: "kinv g n s" and i: "0 \<le> i" "i < nvtxs g"
    and k: "0 \<le> k" "k < ndegrees (at (rinfos s) i)"
  obtains q where "slot s (at (rinfos s) i) k = Some (q, conn g (at (wher s)) i q)" "q = fst (at (slots s i) k)"
    "0 \<le> q" "q < n" "q \<noteq> at (wher s) i" "q \<in> at (wher s) ` nbrs g i"
proof -
  have iA: "i \<in> {0..<nvtxs g}" using i by simp
  note b = kinvD(3) [OF s]
  have row: "row_is g (at (wher s)) i (slots s i)" using kinvD(10) [OF s i] .
  have kl: "k < ilen (slots s i)" using blocks_vertex(4) [OF b iA] k by simp
  let ?q = "fst (at (slots s i) k)"
  note a = row_add_at [OF _ k(1) kl refl]
  have d: "distinct (map fst (slots s i))" using row by (simp add: row_is_def)
  have q: "?q \<in> fst ` set (slots s i)" by (rule a(3) [OF d])
  have own: "at (wher s) i \<notin> fst ` set (slots s i)" and sub: "fst ` set (slots s i) \<subseteq> at (wher s) ` nbrs g i"
    using row by (simp_all add: row_is_def)
  have ne: "?q \<noteq> at (wher s) i" using own q by metis
  have img: "?q \<in> at (wher s) ` nbrs g i" using sub q by (rule subsetD)
  have "0 \<le> ?q" "?q < n"
    using img part_vertex(2,3) [OF kinvD(1) [OF s]] nbrs_vertex [OF g i] by auto
  moreover have "snd (at (slots s i) k) = conn g (at (wher s)) i ?q"
    using a(2) [OF d] row ne by (simp add: row_is_def)
  then have "slot s (at (rinfos s) i) k = Some (?q, conn g (at (wher s)) i ?q)"
    using slot_at [OF b iA k kgraphD(2) [OF g]] by (simp add: prod_eq_iff)
  ultimately show ?thesis using that ne img by blast
qed

lemma INC_DEC_ok:
  assumes "0 \<le> a" "a < ilen pw" "0 \<le> b" "b < ilen pw" "a \<noteq> b"
  shows "\<exists>pw'. INC_DEC pw a b w = Some pw' \<and> ilen pw' = ilen pw
    \<and> (\<forall>q. 0 \<le> q \<longrightarrow> at pw' q = at pw q + (if q = a then w else 0) - (if q = b then w else 0))"
  using assms by (simp add: INC_DEC_def arr)

lemma bnd_delete_ok:
  assumes b: "bnd_ok n s" and v: "0 \<le> v" "v < n" and on: "c \<Longrightarrow> on_bnd s v"
  shows "\<exists>s'. (if c then BNDDelete v s else Some s) = Some s' \<and> bnd_step s s' \<and> bnd_ok n s'
    \<and> (\<forall>u. 0 \<le> u \<and> u < n \<longrightarrow> on_bnd s' u = (on_bnd s u \<and> \<not> (c \<and> u = v)))"
  using BNDDelete_ok [OF b v] on b by (cases c) auto

lemma begin_move_ok:
  assumes g: "kgraph g" and s: "kinv g n s" and i: "0 \<le> i" "i < nvtxs g"
    and k: "0 \<le> k" "k < ndegrees (at (rinfos s) i)" and on: "on_bnd s i"
  defines "p \<equiv> at (wher s)"
  defines "to \<equiv> fst (at (slots s i) k)"
  shows "\<exists>s'. begin_move leaves g i k s = Some (p i, to, s') \<and> moving g n p i to s'
    \<and> wher s' = upd (wher s) i to \<and> mincut s' = mincut s - (conn g p i to - conn g p i (p i))
    \<and> (\<forall>q. 0 \<le> q \<longrightarrow> at (pwgts s') q = at (pwgts s) q + (if q = to then vwt g i else 0) - (if q = p i then vwt g i else 0))
    \<and> (\<forall>v. 0 \<le> v \<and> v < nvtxs g \<and> v \<noteq> i \<longrightarrow> on_bnd s' v = on_bnd s v
         \<and> rid (at (rinfos s') v) = rid (at (rinfos s) v) \<and> red (at (rinfos s') v) = red (at (rinfos s) v))
    \<and> on_bnd s' i = (\<not> leaves (rid (at (rinfos s') i)) (red (at (rinfos s') i)))"
proof -
  note w = kinvD(1) [OF s]
  obtain q where q: "slot s (at (rinfos s) i) k = Some (to, conn g p i to)" "0 \<le> to" "to < n" "to \<noteq> p i"
    using slot_part [OF g s i k] by (metis p_def to_def)
  have r: "\<And>v. 0 \<le> v \<Longrightarrow> v < nvtxs g \<Longrightarrow> rinfo_ok g (at (wher s)) s v" using kinvD(7) [OF s] .
  obtain s1 where s1: "flip_vertex i k s = Some s1" "wher s1 = upd (wher s) i to" "blocks_ok g {0..<nvtxs g} s1"
    "pwgts s1 = pwgts s" "bndptr s1 = bndptr s" "bndind s1 = bndind s" "nbnd s1 = nbnd s"
    "mincut s1 = mincut s - (conn g p i to - conn g p i (p i))" "rinfo_ok g (moved_to p i to) s1 i"
    "\<And>v. 0 \<le> v \<Longrightarrow> v < nvtxs g \<Longrightarrow> v \<noteq> i \<Longrightarrow> rinfo_ok g p s1 v"
    using flip_vertex_ok [OF g w kinvD(3) [OF s] r i k refl] unfolding p_def to_def by blast
  have pi: "aget (wher s) i = Some (p i)" "0 \<le> p i" "p i < n" using part_vertex [OF w i] by (simp_all add: p_def)
  obtain pw where pw: "INC_DEC (pwgts s1) to (p i) (vwt g i) = Some pw" "ilen pw = n"
    "\<And>q. 0 \<le> q \<Longrightarrow> at pw q = at (pwgts s) q + (if q = to then vwt g i else 0) - (if q = p i then vwt g i else 0)"
    using INC_DEC_ok [of to "pwgts s1" "p i" "vwt g i"] q(2-4) pi s1(4) kinvD(2) [OF s] by auto
  define s2 where "s2 = s1\<lparr>pwgts := pw\<rparr>"
  have b2: "blocks_ok g {0..<nvtxs g} s2" using s1(3) blocks_ok_cong [of s2 s1] by (simp add: s2_def)
  have bo2: "bnd_ok (nvtxs g) s2" using bnd_ok_cong [of s2 s] s1(5-7) kinvD(4) [OF s] by (simp add: s2_def)
  have on2: "on_bnd s2 u = on_bnd s u" for u by (rule on_bnd_cong) (simp add: s2_def s1(5))
  let ?r = "at (rinfos s2) i"
  have ar: "aget (rinfos s2) i = Some ?r" using b2 i by (simp add: arr blocks_ok_def)
  obtain s3 where s3: "(if leaves (rid ?r) (red ?r) then BNDDelete i s2 else Some s2) = Some s3" "bnd_step s2 s3"
    "bnd_ok (nvtxs g) s3"
    "\<And>u. 0 \<le> u \<Longrightarrow> u < nvtxs g \<Longrightarrow> on_bnd s3 u = (on_bnd s2 u \<and> \<not> (leaves (rid ?r) (red ?r) \<and> u = i))"
    using bnd_delete_ok [OF bo2 i] on2 on by metis
  note d3 = bnd_stepD [OF s3(2)]
  have ri: "rinfo_ok g f s3 v = rinfo_ok g f s1 v" for f v
    by (rule rinfo_ok_cong) (simp_all add: d3 bnd_step_slots [OF s3(2)] s2_def slots_def)
  have "begin_move leaves g i k s = Some (p i, to, s3)"
  proof -
    have a: "aget (rinfos s) i = Some (at (rinfos s) i)" by (rule kinvD(11) [OF s i])
    show ?thesis
      unfolding begin_move_def a q(1) pi(1) kgraph_ends(5) [OF g i] Option.bind.bind_lunit prod.case s1(1) pw(1)
        s2_def [symmetric] ar s3(1) by (rule refl)
  qed
  moreover have "moving g n p i to s3"
  proof -
    have wi: "i < ilen (wher s)" using w i by (simp add: part_ok_def)
    have "part_weight g (moved_to p i to) q = at (pwgts s3) q" if "0 \<le> q" "q < n" for q
      using part_weight_move [OF i, of p "p i" to q] kinvD(6) [OF s that] pw(3) [OF that(1)]
      by (simp add: d3 s2_def p_def)
    moreover have "cut2 g (moved_to p i to) = 2 * mincut s3"
      using cut2_move [OF g i, of p "p i" to] q(4) kinvD(5) [OF s] s1(8) by (simp add: d3 s2_def p_def)
    ultimately show ?thesis
      using part_ok_move [OF w i q(2,3)] at_upd_moved [OF i(1) wi] q(4) pw(2) b2 bnd_step_blocks [OF s3(2)] s3(3) s1(2,9,10) ri
      by (simp add: moving_def d3 s2_def p_def)
  qed
  moreover have "rid (at (rinfos s3) v) = rid (at (rinfos s) v) \<and> red (at (rinfos s3) v) = red (at (rinfos s) v)"
    if "0 \<le> v" "v < nvtxs g" "v \<noteq> i" for v
    using s1(10) [OF that] kinvD(8,9) [OF s that(1,2)] by (simp add: d3 s2_def rinfo_ok_def p_def)
  moreover have "on_bnd s3 i = (\<not> leaves (rid (at (rinfos s3) i)) (red (at (rinfos s3) i)))"
    using s3(4) [OF i] on2 on d3(4) by simp
  moreover have "on_bnd s3 v = on_bnd s v" if "0 \<le> v" "v < nvtxs g" "v \<noteq> i" for v
    using s3(4) [OF that(1,2)] on2 that(3) by simp
  ultimately show ?thesis
    using s1(2,8) pw(3) by (intro exI [of _ s3]) (simp add: d3 s2_def)
qed

lemma move_vertex_ok:
  assumes g: "kgraph g" and s: "kinv g n s" and i: "0 \<le> i" "i < nvtxs g"
    and k: "0 \<le> k" "k < ndegrees (at (rinfos s) i)" and on: "on_bnd s i"
  defines "p \<equiv> at (wher s)"
  defines "to \<equiv> fst (at (slots s i) k)"
  shows "\<exists>s'. move_vertex enters leaves g i k s = Some s' \<and> kinv g n s'
    \<and> wher s' = upd (wher s) i to \<and> mincut s' = mincut s - (conn g p i to - conn g p i (p i))
    \<and> (\<forall>q. 0 \<le> q \<longrightarrow> at (pwgts s') q = at (pwgts s) q + (if q = to then vwt g i else 0) - (if q = p i then vwt g i else 0))"
proof -
  obtain s1 where s1: "begin_move leaves g i k s = Some (p i, to, s1)" "moving g n p i to s1"
    "wher s1 = upd (wher s) i to" "mincut s1 = mincut s - (conn g p i to - conn g p i (p i))"
    "\<And>q. 0 \<le> q \<Longrightarrow> at (pwgts s1) q = at (pwgts s) q + (if q = to then vwt g i else 0) - (if q = p i then vwt g i else 0)"
    using begin_move_ok [OF g s i k on, of leaves] unfolding p_def to_def by blast
  note m = s1(2) [unfolded moving_def]
  let ?P = "edge_inv enters leaves g p i to s1"
  have "\<exists>t. for_loop (at (xadj g) i) (at (xadj g) (i + 1)) (move_edge enters leaves g (p i) to) s1 = Some t
      \<and> ?P (at (xadj g) (i + 1)) t"
  proof (rule for_loop_rule [where P = ?P])
    fix j t assume "at (xadj g) i \<le> j" "j < at (xadj g) (i + 1)" "?P j t"
    then show "\<exists>t'. move_edge enters leaves g (p i) to j t = Some t' \<and> ?P (j + 1) t'"
      using edge_inv_step [OF g _ i refl, of n s1 p to j enters leaves t] m by blast
  qed (use kgraph_ends(3) [OF g i] edge_inv_start m in auto)
  then obtain t where t: "for_loop (at (xadj g) i) (at (xadj g) (i + 1)) (move_edge enters leaves g (p i) to) s1 = Some t"
    "?P (at (xadj g) (i + 1)) t" by blast
  have "move_vertex enters leaves g i k s = Some t"
    using s1(1) kgraph_ends(1,2) [OF g i] t(1) by (simp add: move_vertex_def)
  with move_done [OF g i s1(2) t(2)] s1(3-5) t(2) show ?thesis by (simp add: edge_inv_def)
qed

section \<open>The choice of the part\<close>

definition bands_ok :: "int \<Rightarrow> bands \<Rightarrow> bool" where
  "bands_ok n b \<longleftrightarrow> ilen (minwgt b) = n \<and> ilen (maxwgt b) = n \<and> ilen (itpwgts b) = n"

text \<open>All parts have the same target weight, as \<open>METIS_PartGraphKway\<close> asks for, and \<open>m\<close> is the largest
  weight allowed.\<close>

definition even_bands :: "int \<Rightarrow> bands \<Rightarrow> int \<Rightarrow> bool" where
  "even_bands n b m \<longleftrightarrow> (\<exists>a > 0. \<forall>q. 0 \<le> q \<and> q < n \<longrightarrow> at (itpwgts b) q = a \<and> at (maxwgt b) q = m)"

definition balanced_to :: "int \<Rightarrow> int \<Rightarrow> kstate \<Rightarrow> bool" where
  "balanced_to n m s \<longleftrightarrow> (\<forall>q. 0 \<le> q \<and> q < n \<longrightarrow> at (pwgts s) q \<le> m)"

text \<open>The slot of a vertex and the weights of its part, as the choices read them.\<close>

lemma slot_reads:
  assumes g: "kgraph g" and s: "kinv g n s" and b: "bands_ok n b" and i: "0 \<le> i" "i < nvtxs g"
    and k: "0 \<le> k" "k < ndegrees (at (rinfos s) i)"
  obtains q where "slot s (at (rinfos s) i) k = Some (q, conn g (at (wher s)) i q)" "q = fst (at (slots s i) k)"
    "0 \<le> q" "q < n" "q \<noteq> at (wher s) i" "aget (pwgts s) q = Some (at (pwgts s) q)"
    "aget (maxwgt b) q = Some (at (maxwgt b) q)" "aget (itpwgts b) q = Some (at (itpwgts b) q)"
proof -
  obtain q where "slot s (at (rinfos s) i) k = Some (q, conn g (at (wher s)) i q)" "q = fst (at (slots s i) k)"
    "0 \<le> q" "q < n" "q \<noteq> at (wher s) i"
    by (rule slot_part [OF g s i k])
  with that kinvD(2) [OF s] b show ?thesis by (simp add: arr bands_ok_def)
qed


text \<open>Slot \<open>k\<close> may be chosen: moving there does not raise the cut, and with even targets it keeps
  the part below the limit plus the gain.\<close>

definition allowed :: "mgraph \<Rightarrow> int \<Rightarrow> bands \<Rightarrow> kstate \<Rightarrow> int \<Rightarrow> int \<Rightarrow> int \<Rightarrow> int \<Rightarrow> bool" where
  "allowed g n b s i vw ffactor k \<longleftrightarrow> (let q = fst (at (slots s i) k); p = at (wher s); gain = conn g p i q - conn g p i (p i)
     in 0 \<le> gain \<and> (\<forall>m. even_bands n b m \<and> 0 \<le> ffactor \<longrightarrow> at (pwgts s) q + vw \<le> m + ffactor * gain))"

lemma first_fit_ok:
  assumes g: "kgraph g" and s: "kinv g n s" and b: "bands_ok n b" and i: "0 \<le> i" "i < nvtxs g"
  shows "\<exists>k. first_fit s b (at (rinfos s) i) vw ffactor = Some k \<and> 0 \<le> k \<and> k \<le> ndegrees (at (rinfos s) i)
    \<and> (k < ndegrees (at (rinfos s) i) \<longrightarrow> allowed g n b s i vw ffactor k)"
proof -
  let ?r = "at (rinfos s) i" and ?p = "at (wher s)"
  let ?q = "\<lambda>k. fst (at (slots s i) k)"
  let ?c = "\<lambda>k. at (pwgts s) (?q k) + vw \<le> at (maxwgt b) (?q k) + ffactor * (conn g ?p i (?q k) - conn g ?p i (?p i))
    \<and> conn g ?p i (?q k) - conn g ?p i (?p i) \<ge> 0"
  have iA: "i \<in> {0..<nvtxs g}" using i by simp
  have nd: "0 \<le> ndegrees ?r" using blocks_vertex(5) [OF kinvD(3) [OF s] iA] .
  obtain k where k: "first_fit s b ?r vw ffactor = Some k" "0 \<le> k" "k \<le> ndegrees ?r" "k < ndegrees ?r \<Longrightarrow> ?c k"
    unfolding first_fit_def
  proof (rule searchE [OF nd, where q = ?c])
    fix k assume "0 \<le> k" "k < ndegrees ?r"
    then show "do { (to, ed) \<leftarrow> slot s ?r k; gain \<leftarrow> Some (ed - rid ?r); x \<leftarrow> aget (pwgts s) to; m \<leftarrow> aget (maxwgt b) to;
        Some (x + vw \<le> m + ffactor * gain \<and> gain \<ge> 0) } = Some (?c k)"
      by (rule slot_reads [OF g s b i]) (simp add: kinvD(8) [OF s i])
  qed (use that in blast)
  have "allowed g n b s i vw ffactor k" if lt: "k < ndegrees ?r"
  proof -
    have q: "0 \<le> ?q k" "?q k < n" by (rule slot_reads [OF g s b i k(2) lt], simp)+
    have "at (maxwgt b) (?q k) = m" if "even_bands n b m" for m using that q by (auto simp: even_bands_def)
    then show ?thesis using k(4) [OF lt] by (auto simp: allowed_def Let_def)
  qed
  with k show ?thesis by blast
qed

lemma better_fit_ok:
  assumes g: "kgraph g" and s: "kinv g n s" and b: "bands_ok n b" and i: "0 \<le> i" "i < nvtxs g"
    and k: "0 \<le> k" "k < ndegrees (at (rinfos s) i)" "allowed g n b s i vw ffactor k"
  shows "\<exists>k'. better_fit s b (at (rinfos s) i) vw k = Some k' \<and> 0 \<le> k' \<and> k' < ndegrees (at (rinfos s) i)
    \<and> allowed g n b s i vw ffactor k'"
  unfolding better_fit_def
proof (rule for_loop_rule [where P = "\<lambda>j k'. 0 \<le> k' \<and> k' < ndegrees (at (rinfos s) i) \<and> allowed g n b s i vw ffactor k'"])
  let ?r = "at (rinfos s) i" and ?p = "at (wher s)"
  fix j k' assume j: "k + 1 \<le> j" "j < ndegrees ?r"
    and k': "0 \<le> k' \<and> k' < ndegrees ?r \<and> allowed g n b s i vw ffactor k'"
  have j0: "0 \<le> j" using j k by simp
  obtain q where q: "slot s ?r j = Some (q, conn g ?p i q)" "q = fst (at (slots s i) j)"
    "0 \<le> q" "q < n" "aget (pwgts s) q = Some (at (pwgts s) q)"
    "aget (maxwgt b) q = Some (at (maxwgt b) q)" "aget (itpwgts b) q = Some (at (itpwgts b) q)"
    by (rule slot_reads [OF g s b i j0 j(2)]) blast
  obtain q' where q': "slot s ?r k' = Some (q', conn g ?p i q')" "q' = fst (at (slots s i) k')"
    "0 \<le> q'" "q' < n" "aget (pwgts s) q' = Some (at (pwgts s) q')"
    "aget (maxwgt b) q' = Some (at (maxwgt b) q')" "aget (itpwgts b) q' = Some (at (itpwgts b) q')"
    using k' by (auto intro: slot_reads [OF g s b i])
  let ?c = "conn g ?p i q > conn g ?p i q' \<and> at (pwgts s) q + vw \<le> at (maxwgt b) q
    \<or> conn g ?p i q = conn g ?p i q' \<and> at (itpwgts b) q' * at (pwgts s) q < at (itpwgts b) q * at (pwgts s) q'"
  have "allowed g n b s i vw ffactor j" if ?c
  proof -
    let ?gain = "conn g ?p i q - conn g ?p i (?p i)" and ?gain' = "conn g ?p i q' - conn g ?p i (?p i)"
    have al: "0 \<le> ?gain'" "\<And>m. even_bands n b m \<Longrightarrow> 0 \<le> ffactor \<Longrightarrow> at (pwgts s) q' + vw \<le> m + ffactor * ?gain'"
      using k' by (auto simp: allowed_def Let_def q'(2))
    have "at (pwgts s) q + vw \<le> m + ffactor * ?gain" if e: "even_bands n b m" "0 \<le> ffactor" for m
    proof -
      obtain a where a: "a > 0" "at (itpwgts b) q = a" "at (itpwgts b) q' = a" "at (maxwgt b) q = m"
        using e(1) q q' by (auto simp: even_bands_def)
      from \<open>?c\<close> show ?thesis
      proof
        assume c: "conn g ?p i q > conn g ?p i q' \<and> at (pwgts s) q + vw \<le> at (maxwgt b) q"
        then have "0 \<le> ffactor * ?gain" using al(1) e(2) by simp
        then show ?thesis using c a(4) by simp
      next
        assume c: "conn g ?p i q = conn g ?p i q' \<and> at (itpwgts b) q' * at (pwgts s) q < at (itpwgts b) q * at (pwgts s) q'"
        then have "at (pwgts s) q < at (pwgts s) q'" using a by simp
        then show ?thesis using al(2) [OF e] c by simp
      qed
    qed
    moreover have "0 \<le> ?gain" using \<open>?c\<close> al(1) by auto
    ultimately show ?thesis by (simp add: allowed_def Let_def q(2))
  qed
  then show "\<exists>t'. do { (to, ed) \<leftarrow> slot s ?r j; (tk, edk) \<leftarrow> slot s ?r k';
     x \<leftarrow> aget (pwgts s) to; xk \<leftarrow> aget (pwgts s) tk; m \<leftarrow> aget (maxwgt b) to;
     it \<leftarrow> aget (itpwgts b) to; itk \<leftarrow> aget (itpwgts b) tk;
     Some (if ed > edk \<and> x + vw \<le> m \<or> ed = edk \<and> itk * x < it * xk then j else k') } = Some t'
     \<and> 0 \<le> t' \<and> t' < ndegrees ?r \<and> allowed g n b s i vw ffactor t'"
    using q(1,5-7) q'(1,5-7) j0 j(2) k' by simp
qed (use k in auto)

lemma worth_moving_ok:
  assumes g: "kgraph g" and s: "kinv g n s" and b: "bands_ok n b" and i: "0 \<le> i" "i < nvtxs g"
    and k: "0 \<le> k" "k < ndegrees (at (rinfos s) i)"
  shows "\<exists>ok. worth_moving s b (at (rinfos s) i) (at (wher s) i) vw k iii = Some ok"
proof -
  obtain q where q: "slot s (at (rinfos s) i) k = Some (q, conn g (at (wher s)) i q)"
    "aget (pwgts s) q = Some (at (pwgts s) q)" "aget (itpwgts b) q = Some (at (itpwgts b) q)"
    by (rule slot_reads [OF g s b i k]) blast
  have "aget (pwgts s) (at (wher s) i) = Some (at (pwgts s) (at (wher s) i))"
    "aget (maxwgt b) (at (wher s) i) = Some (at (maxwgt b) (at (wher s) i))"
    "aget (itpwgts b) (at (wher s) i) = Some (at (itpwgts b) (at (wher s) i))"
    using part_vertex(2,3) [OF kinvD(1) [OF s] i] kinvD(2) [OF s] b by (simp_all add: arr bands_ok_def)
  with q show ?thesis by (simp add: worth_moving_def) blast
qed

section \<open>Passes\<close>

text \<open>What refinement promises: the state agrees with the new partition, the cut has not grown, and
  balanced parts stay balanced.\<close>

definition improves :: "mgraph \<Rightarrow> int \<Rightarrow> bands \<Rightarrow> int \<Rightarrow> kstate \<Rightarrow> kstate \<Rightarrow> bool" where
  "improves g n b ffactor s s' \<longleftrightarrow> kinv g n s' \<and> mincut s' \<le> mincut s
     \<and> (\<forall>m. ffactor = 0 \<and> even_bands n b m \<and> (\<forall>v. 0 \<le> v \<and> v < nvtxs g \<longrightarrow> 0 \<le> vwt g v) \<and> balanced_to n m s
          \<longrightarrow> balanced_to n m s')"

lemma improves_refl: "kinv g n s \<Longrightarrow> improves g n b ffactor s s"
  by (simp add: improves_def)

lemma improves_trans: "improves g n b ffactor s t \<Longrightarrow> improves g n b ffactor t u \<Longrightarrow> improves g n b ffactor s u"
  by (auto simp: improves_def)

lemma move_improves:
  assumes g: "kgraph g" and s: "kinv g n s" and i: "0 \<le> i" "i < nvtxs g" and on: "on_bnd s i"
    and k: "0 \<le> k" "k < ndegrees (at (rinfos s) i)" "allowed g n b s i (vwt g i) ffactor k"
  shows "\<exists>s'. move_vertex enters leaves g i k s = Some s' \<and> improves g n b ffactor s s'"
proof -
  let ?p = "at (wher s)"
  define q where "q = fst (at (slots s i) k)"
  obtain s' where s': "move_vertex enters leaves g i k s = Some s'" "kinv g n s'"
    "mincut s' = mincut s - (conn g ?p i q - conn g ?p i (?p i))"
    "\<And>a. 0 \<le> a \<Longrightarrow> at (pwgts s') a = at (pwgts s) a + (if a = q then vwt g i else 0) - (if a = ?p i then vwt g i else 0)"
    using move_vertex_ok [OF g s i k(1,2) on, of enters leaves] unfolding q_def by blast
  have al: "0 \<le> conn g ?p i q - conn g ?p i (?p i)"
    "\<And>m. even_bands n b m \<Longrightarrow> 0 \<le> ffactor \<Longrightarrow> at (pwgts s) q + vwt g i \<le> m + ffactor * (conn g ?p i q - conn g ?p i (?p i))"
    using k(3) by (auto simp: allowed_def Let_def q_def)
  have "balanced_to n m s'"
    if "ffactor = 0" "even_bands n b m" "\<forall>v. 0 \<le> v \<and> v < nvtxs g \<longrightarrow> 0 \<le> vwt g v" "balanced_to n m s" for m
  proof -
    have w: "0 \<le> vwt g i" using that(3) i by simp
    show ?thesis using al(2) [OF that(2)] that(1,4) w by (auto simp: balanced_to_def s'(4))
  qed
  with s' al(1) show ?thesis by (intro exI [of _ s']) (simp add: improves_def)
qed

lemma refine_vertex_ok:
  assumes g: "kgraph g" and s: "kinv g n s" and b: "bands_ok n b" and i: "0 \<le> i" "i < nvtxs g" and on: "on_bnd s i"
  shows "\<exists>s'. refine_vertex g b ffactor iii i s = Some s' \<and> improves g n b ffactor s s'"
proof -
  let ?r = "at (rinfos s) i" and ?f = "at (wher s) i" and ?w = "vwt g i"
  note w = kinvD(1) [OF s] and r = kinvD(11) [OF s i]
  have f: "aget (wher s) i = Some ?f" "0 \<le> ?f" "?f < n" using part_vertex [OF w i] by simp_all
  have fr: "aget (pwgts s) ?f = Some (at (pwgts s) ?f)" "aget (minwgt b) ?f = Some (at (minwgt b) ?f)"
    using f kinvD(2) [OF s] b by (simp_all add: arr bands_ok_def)
  obtain k where k: "first_fit s b ?r ?w ffactor = Some k" "0 \<le> k" "k \<le> ndegrees ?r"
    "k < ndegrees ?r \<Longrightarrow> allowed g n b s i ?w ffactor k"
    using first_fit_ok [OF g s b i] by blast
  note stay = improves_refl [OF s]
  show ?thesis
  proof (cases "red ?r \<ge> rid ?r \<and> \<not> (rid ?r > 0 \<and> at (pwgts s) ?f - ?w < at (minwgt b) ?f) \<and> k \<noteq> ndegrees ?r")
    case False
    then have "refine_vertex g b ffactor iii i s = Some s"
      using r f(1) fr kgraph_ends(5) [OF g i] k(1) by (auto simp: refine_vertex_def)
    with stay show ?thesis by blast
  next
    case True
    then have lt: "k < ndegrees ?r" using k(3) by simp
    obtain k' where k': "better_fit s b ?r ?w k = Some k'" "0 \<le> k'" "k' < ndegrees ?r" "allowed g n b s i ?w ffactor k'"
      using better_fit_ok [OF g s b i k(2) lt k(4) [OF lt]] by blast
    obtain ok where ok: "worth_moving s b ?r ?f ?w k' iii = Some ok"
      using worth_moving_ok [OF g s b i k'(2,3)] by blast
    have "refine_vertex g b ffactor iii i s
        = (if ok then move_vertex refine_enters refine_leaves g i k' s else Some s)"
      using True r f(1) fr kgraph_ends(5) [OF g i] k(1) k'(1) ok by (auto simp: refine_vertex_def)
    then show ?thesis using move_improves [OF g s i on k'(2-4)] stay by (cases ok) auto
  qed
qed

lemma refine_pass_ok:
  assumes g: "kgraph g" and s: "kinv g n s" and b: "bands_ok n b" and perm: "nvtxs g \<le> ilen perm"
    and rand: "\<forall>k. 0 \<le> rand k"
  shows "\<exists>s' perm' pos'. refine_pass rand g b ffactor (s, perm, pos) = Some (s', perm', pos')
    \<and> improves g n b ffactor s s' \<and> ilen perm' = ilen perm"
proof -
  note bo = bnd_okD [OF kinvD(4) [OF s]]
  obtain q pos' where q: "RandomPermute rand pos (nbnd s) perm 1 = Some (q, pos')" "length q = length perm" "perm_on (nbnd s) q"
    using RandomPermute_perm [of "nbnd s" perm rand pos] bo(3,4) perm rand by auto
  let ?P = "\<lambda>_. improves g n b ffactor s"
  let ?body = "\<lambda>iii s. do { ii \<leftarrow> aget q iii; if ii \<ge> nbnd s then Some s
       else do { i \<leftarrow> aget (bndind s) ii; refine_vertex g b ffactor iii i s } }"
  have "\<exists>t. for_loop 0 (nbnd s) ?body s = Some t \<and> ?P (nbnd s) t"
  proof (rule for_loop_rule [where P = ?P])
    fix iii t assume iii: "0 \<le> iii" "iii < nbnd s" and t: "improves g n b ffactor s t"
    have st: "kinv g n t" using t by (simp add: improves_def)
    note bt = bnd_okD [OF kinvD(4) [OF st]]
    have "iii < ilen q" using iii q(3) by (simp add: perm_on_def)
    then have ii: "aget q iii = Some (at q iii)" "0 \<le> at q iii" using iii perm_onD(1) [OF q(3) iii] by (simp_all add: arr)
    show "\<exists>t'. ?body iii t = Some t' \<and> improves g n b ffactor s t'"
    proof (cases "at q iii \<ge> nbnd t")
      case True
      then show ?thesis using ii t by simp
    next
      case False
      then have lt: "at q iii < nbnd t" by simp
      let ?i = "at (bndind t) (at q iii)"
      have "aget (bndind t) (at q iii) = Some ?i" using ii(2) lt bt(2,4) by (simp add: arr)
      moreover obtain t' where "refine_vertex g b ffactor iii ?i t = Some t'" "improves g n b ffactor t t'"
        using refine_vertex_ok [OF g st b bt(5) [OF ii(2) lt] bt(6) [OF ii(2) lt] bnd_ok_listed [OF kinvD(4) [OF st] ii(2) lt]]
        by blast
      ultimately show ?thesis using ii lt improves_trans [OF t] by auto
    qed
  qed (use bo(3) improves_refl [OF s] in auto)
  then obtain t where "for_loop 0 (nbnd s) ?body s = Some t" "improves g n b ffactor s t" by blast
  then show ?thesis using q(1,2) by (auto simp: refine_pass_def ilen_def)
qed

lemma refine_passes_ok:
  assumes g: "kgraph g" and b: "bands_ok n b" and rand: "\<forall>k. 0 \<le> rand k"
  shows "kinv g n s \<Longrightarrow> nvtxs g \<le> ilen perm \<Longrightarrow>
    \<exists>s' perm' pos'. refine_passes m (refine_pass rand g b ffactor) (s, perm, pos) = Some (s', perm', pos')
    \<and> improves g n b ffactor s s'"
proof (induction m arbitrary: s perm pos)
  case 0
  then show ?case using improves_refl by auto
next
  case (Suc m)
  obtain s1 perm1 pos1 where 1: "refine_pass rand g b ffactor (s, perm, pos) = Some (s1, perm1, pos1)"
    "improves g n b ffactor s s1" "ilen perm1 = ilen perm"
    using refine_pass_ok [OF g Suc.prems(1) b Suc.prems(2) rand] by blast
  then obtain s2 perm2 pos2 where 2: "refine_passes m (refine_pass rand g b ffactor) (s1, perm1, pos1) = Some (s2, perm2, pos2)"
    "improves g n b ffactor s1 s2"
    using Suc.IH [of s1 perm1 pos1] Suc.prems(2) by (auto simp: improves_def)
  show ?case using 1 2 improves_trans by (cases "mincut s1 = mincut s") auto
qed

section \<open>The routine as a whole\<close>

lemma idxwspacemalloc_ok:
  "0 \<le> n \<Longrightarrow> ccore c + pad2 n \<le> maxcore c \<Longrightarrow>
     idxwspacemalloc c n = Some (fresh c n, c\<lparr>ccore := ccore c + pad2 n\<rparr>)"
  by (simp add: idxwspacemalloc_def Let_def fresh_def)

lemma idxwspacefree_ok:
  "pad2 n \<le> ccore c \<Longrightarrow> idxwspacefree c n = Some (c\<lparr>ccore := ccore c - pad2 n\<rparr>)"
  by (simp add: idxwspacefree_def Let_def)

lemma fresh_ccore [simp]: "fresh (c\<lparr>ccore := x\<rparr>) n = fresh c n"
  by (simp add: fresh_def)

lemma weight_limits_ok:
  assumes "0 \<le> n" "ilen (minwgt b) = n" "ilen (maxwgt b) = n" "ilen (itpwgts b) = n"
  shows "\<exists>b'. weight_limits L n tv b = Some b' \<and> bands_ok n b'
    \<and> (\<forall>i. 0 \<le> i \<and> i < n \<longrightarrow> at (itpwgts b') i = share L i tv \<and> at (maxwgt b') i = above L i tv \<and> at (minwgt b') i = below L i tv)"
  unfolding weight_limits_def
proof (rule for_loop_rule [where P = "\<lambda>m b'. bands_ok n b'
    \<and> (\<forall>i. 0 \<le> i \<and> i < m \<longrightarrow> at (itpwgts b') i = share L i tv \<and> at (maxwgt b') i = above L i tv \<and> at (minwgt b') i = below L i tv)"])
  fix i b'
  assume "0 \<le> i" "i < n" "bands_ok n b' \<and> (\<forall>j. 0 \<le> j \<and> j < i \<longrightarrow> at (itpwgts b') j = share L j tv
    \<and> at (maxwgt b') j = above L j tv \<and> at (minwgt b') j = below L j tv)"
  then show "\<exists>t. do { it \<leftarrow> aset (itpwgts b') i (share L i tv); mx \<leftarrow> aset (maxwgt b') i (above L i tv);
     mn \<leftarrow> aset (minwgt b') i (below L i tv); Some \<lparr>minwgt = mn, maxwgt = mx, itpwgts = it\<rparr> } = Some t
     \<and> bands_ok n t \<and> (\<forall>j. 0 \<le> j \<and> j < i + 1 \<longrightarrow> at (itpwgts t) j = share L j tv
    \<and> at (maxwgt t) j = above L j tv \<and> at (minwgt t) j = below L j tv)"
    by (simp add: arr bands_ok_def)
qed (use assms in \<open>auto simp: bands_ok_def\<close>)

definition total_weight :: "mgraph \<Rightarrow> int" where
  "total_weight g = (\<Sum>v = 0..<nvtxs g. vwt g v)"

lemma total_parts:
  assumes "part_ok g n wh"
  shows "(\<Sum>q = 0..<n. part_weight g (at wh) q) = total_weight g"
proof -
  have "(\<Sum>q = 0..<n. part_weight g (at wh) q) = (\<Sum>v = 0..<nvtxs g. \<Sum>q = 0..<n. if at wh v = q then vwt g v else 0)"
    unfolding part_weight_def by (rule sum.swap)
  also have "\<dots> = (\<Sum>v = 0..<nvtxs g. vwt g v)"
    by (rule sum.cong) (use part_vertex(2,3) [OF assms] in auto)
  finally show ?thesis by (simp add: total_weight_def)
qed

lemma idxsum_parts:
  assumes "kinv g n s" "0 \<le> n"
  shows "idxsum n (pwgts s) = Some (total_weight g)"
proof -
  have "idxsum n (pwgts s) = Some (\<Sum>q = 0..<n. at (pwgts s) q)"
    by (rule idxsum_spec) (use assms kinvD(2) [OF assms(1)] in auto)
  also have "(\<Sum>q = 0..<n. at (pwgts s) q) = (\<Sum>q = 0..<n. part_weight g (at (wher s)) q)"
    by (rule sum.cong) (simp_all add: kinvD(6) [OF assms(1)])
  finally show ?thesis using total_parts [OF kinvD(1) [OF assms(1)]] by simp
qed

definition refine_room :: "ctrl \<Rightarrow> mgraph \<Rightarrow> int \<Rightarrow> bool" where
  "refine_room c g n \<longleftrightarrow> 0 \<le> n \<and> 0 \<le> ccore c \<and> ccore c + 3 * pad2 n + pad2 (nvtxs g) \<le> maxcore c
     \<and> (\<forall>k. 0 \<le> rand_at c k)"

text \<open>All parts are to weigh the same, up to \<open>m\<close>.\<close>

definition even_limits :: "limits \<Rightarrow> int \<Rightarrow> int \<Rightarrow> int \<Rightarrow> bool" where
  "even_limits L n tv m \<longleftrightarrow> (\<exists>a > 0. \<forall>q. 0 \<le> q \<and> q < n \<longrightarrow> share L q tv = a \<and> above L q tv = m)"

lemma Random_KWayEdgeRefine_ok:
  assumes g: "kgraph g" and s: "kinv g n s" and c: "refine_room c g n"
  shows "\<exists>s' k. Random_KWayEdgeRefine c g n L npasses ffactor s = Some (s', c\<lparr>rand_pos := k\<rparr>) \<and> kinv g n s'
    \<and> mincut s' \<le> mincut s
    \<and> (\<forall>m. ffactor = 0 \<and> even_limits L n (total_weight g) m \<and> (\<forall>v. 0 \<le> v \<and> v < nvtxs g \<longrightarrow> 0 \<le> vwt g v)
          \<and> balanced_to n m s \<longrightarrow> balanced_to n m s')"
proof -
  let ?nv = "nvtxs g"
  have n: "0 \<le> n" "0 \<le> ?nv" using c csrD(1) [OF kgraphD(2) [OF g]] by (simp_all add: refine_room_def)
  note pn = pad2_nonneg [OF n(1)] pad2_nonneg [OF n(2)]
  have room: "0 \<le> ccore c" "ccore c + 3 * pad2 n + pad2 ?nv \<le> maxcore c" and rand: "\<forall>k. 0 \<le> rand_at c k"
    using c by (simp_all add: refine_room_def)
  let ?f = "fresh c n"
  obtain b where b: "weight_limits L n (total_weight g) \<lparr>minwgt = ?f, maxwgt = ?f, itpwgts = ?f\<rparr> = Some b" "bands_ok n b"
    "\<And>i. 0 \<le> i \<Longrightarrow> i < n \<Longrightarrow> at (itpwgts b) i = share L i (total_weight g) \<and> at (maxwgt b) i = above L i (total_weight g)"
    using weight_limits_ok [OF n(1), of "\<lparr>minwgt = ?f, maxwgt = ?f, itpwgts = ?f\<rparr>" L "total_weight g"] n by auto
  obtain s' perm k where p: "refine_passes (nat npasses) (refine_pass (rand_at c) g b ffactor) (s, fresh c ?nv, rand_pos c)
      = Some (s', perm, k)" "improves g n b ffactor s s'"
    using refine_passes_ok [OF g b(2) rand s, of "fresh c ?nv" "nat npasses" ffactor "rand_pos c"] n by auto
  have "Random_KWayEdgeRefine c g n L npasses ffactor s = Some (s', c\<lparr>rand_pos := k\<rparr>)"
    using room pn n b(1) p(1) idxsum_parts [OF s n(1)]
    by (simp add: Random_KWayEdgeRefine_def idxwspacemalloc_ok idxwspacefree_ok)
  moreover have "even_bands n b m" if "even_limits L n (total_weight g) m" for m
    using that b(3) by (auto simp: even_limits_def even_bands_def)
  ultimately show ?thesis using p(2) by (intro exI [of _ s'] exI [of _ k]) (auto simp: improves_def)
qed

end
