(* ===== verification/Mt_Kway_Project.thy ===== *)
theory Mt_Kway_Project
  imports Mt_Kway_Refine
begin

text \<open>
  \<open>ProjectKWayPartition\<close>: the partition of the coarse graph taken to the finer one gives a state with
  the exact degrees, part weights, boundary and cut. The interior of the coarse parts is skipped, which
  is right because a vertex of a coarse vertex without external edges has none itself.
\<close>

section \<open>Projecting the partition\<close>

definition positive :: "mgraph \<Rightarrow> bool" where
  "positive g \<longleftrightarrow> (\<forall>j. 0 \<le> j \<and> j < nedges g \<longrightarrow> 0 < ewgt g j)"

lemma ext_positive:
  assumes g: "kgraph g" "positive g" and v: "0 \<le> v" "v < nvtxs g" and u: "u \<in> nbrs g v" "p u \<noteq> p v"
  shows "0 < ext g p v"
proof -
  obtain j where j: "j \<in> row g v" "u = at (adjncy g) j" using u(1) by (auto simp: nbrs_def)
  then have b: "0 \<le> j" "j < nedges g" using row_bounds [OF kgraphD(2) [OF g(1)] v] by (auto simp: row_def)
  have "0 < (if p (at (adjncy g) j) = p v then 0 else 1) * ewgt g j"
    using u(2) j(2) g(2) b by (simp add: positive_def)
  also have "\<dots> \<le> ext g p v"
    unfolding ext_def rowsum_def
    by (rule member_le_sum [OF j(1)]) (use kgraphD(6) [OF g(1)] row_bounds [OF kgraphD(2) [OF g(1)] v] in \<open>auto simp: row_def\<close>)
  finally show ?thesis .
qed

lemma project_where_ok:
  assumes l: "0 \<le> nvtxs g" "ilen (cmap g) = nvtxs g" "ilen wh = nvtxs g"
    and c: "\<And>v. 0 \<le> v \<Longrightarrow> v < nvtxs g \<Longrightarrow> 0 \<le> at (cmap g) v \<and> at (cmap g) v < m"
    and cs: "ilen (wher cs) = m" "ilen (rinfos cs) = m"
  shows "\<exists>wh' cm. project_where g cs wh = Some (wh', cm) \<and> ilen wh' = nvtxs g \<and> ilen cm = nvtxs g
    \<and> (\<forall>v. 0 \<le> v \<and> v < nvtxs g \<longrightarrow> at wh' v = at (wher cs) (at (cmap g) v) \<and> at cm v = red (at (rinfos cs) (at (cmap g) v)))"
proof -
  let ?P = "\<lambda>i (wh', cm). ilen wh' = nvtxs g \<and> ilen cm = nvtxs g
    \<and> (\<forall>v. 0 \<le> v \<and> v < i \<longrightarrow> at wh' v = at (wher cs) (at (cmap g) v) \<and> at cm v = red (at (rinfos cs) (at (cmap g) v)))
    \<and> (\<forall>v. i \<le> v \<and> v < nvtxs g \<longrightarrow> at cm v = at (cmap g) v)"
  have "\<exists>t. project_where g cs wh = Some t \<and> ?P (nvtxs g) t"
    unfolding project_where_def
  proof (rule for_loop_rule [where P = ?P])
    fix i t assume i: "0 \<le> i" "i < nvtxs g" and t: "?P i t"
    obtain w cm where [simp]: "t = (w, cm)" by (cases t)
    have r: "aget cm i = Some (at (cmap g) i)" "aget (wher cs) (at (cmap g) i) = Some (at (wher cs) (at (cmap g) i))"
      "aget (rinfos cs) (at (cmap g) i) = Some (at (rinfos cs) (at (cmap g) i))"
      using t i c [OF i] cs by (simp_all add: arr)
    show "\<exists>t'. (case t of (wh, cm) \<Rightarrow> do { k \<leftarrow> aget cm i; q \<leftarrow> aget (wher cs) k; wh \<leftarrow> aset wh i q;
        r \<leftarrow> aget (rinfos cs) k; cm \<leftarrow> aset cm i (red r); Some (wh, cm) }) = Some t' \<and> ?P (i + 1) t'"
      using t i r by (simp add: arr)
  qed (use l in auto)
  then show ?thesis by auto
qed

lemma set_slot_raw:
  assumes b: "blocks_ok g A s" and v: "v \<in> A" and g: "csr g" and e: "edegrees (at (rinfos s) v) = Some e"
    and k: "0 \<le> k" "k < deg g v"
  shows "set_slot s (at (rinfos s) v) k d = Some (s\<lparr>estore := upd (estore s) (e + k) d\<rparr>)"
    "local_ok g A v s (s\<lparr>estore := upd (estore s) (e + k) d\<rparr>)" "0 \<le> e" "e + deg g v \<le> ilen (estore s)"
proof -
  note l = blocks_vertex [OF b v] and d = blocks_block [OF b v e g]
  have self: "upd (rinfos s) v (at (rinfos s) v) = rinfos s" by (simp add: upd_def at_def)
  let ?es = "upd (estore s) (e + k) d"
  have "local_ok g A v s (s\<lparr>rinfos := upd (rinfos s) v (at (rinfos s) v), estore := ?es\<rparr>)"
  proof (rule local_okI [OF b v])
    fix i assume "0 \<le> i" "at ?es i \<noteq> at (estore s) i"
    then have "i = e + k" using d k by (auto split: if_splits)
    then show "\<exists>e. edegrees (at (rinfos s) v) = Some e \<and> e \<le> i \<and> i < e + deg g v" using e k by simp
  qed (use l e in auto)
  then show "local_ok g A v s (s\<lparr>estore := ?es\<rparr>)" by (simp add: self)
  show "set_slot s (at (rinfos s) v) k d = Some (s\<lparr>estore := ?es\<rparr>)"
    using d k by (simp add: set_slot_def e arr)
  show "0 \<le> e" "e + deg g v \<le> ilen (estore s)" using d by auto
qed

text \<open>\<open>htable\<close> holds the place of each part in the slots \<open>al\<close>.\<close>

definition htable_ok :: "int \<Rightarrow> (int \<times> int) list \<Rightarrow> int list \<Rightarrow> bool" where
  "htable_ok n al h \<longleftrightarrow> ilen h = n \<and> (\<forall>q. 0 \<le> q \<and> q < n \<longrightarrow>
     (if q \<in> fst ` set al then 0 \<le> at h q \<and> at h q < ilen al \<and> fst (at al (at h q)) = q else at h q = - 1))"

lemma htable_okD:
  assumes "htable_ok n al h" "0 \<le> q" "q < n"
  shows "q \<in> fst ` set al \<Longrightarrow> 0 \<le> at h q" "q \<in> fst ` set al \<Longrightarrow> at h q < ilen al"
    "q \<in> fst ` set al \<Longrightarrow> fst (at al (at h q)) = q" "q \<notin> fst ` set al \<Longrightarrow> at h q = - 1"
proof -
  have "if q \<in> fst ` set al then 0 \<le> at h q \<and> at h q < ilen al \<and> fst (at al (at h q)) = q else at h q = - 1"
    using assms by (simp add: htable_ok_def)
  then show "q \<in> fst ` set al \<Longrightarrow> 0 \<le> at h q" "q \<in> fst ` set al \<Longrightarrow> at h q < ilen al"
    "q \<in> fst ` set al \<Longrightarrow> fst (at al (at h q)) = q" "q \<notin> fst ` set al \<Longrightarrow> at h q = - 1"
    by (simp_all only: if_True if_False)
qed

lemma row_fits:
  assumes "csr g" "0 \<le> v" "v < nvtxs g" "distinct (map fst al)" "fst ` set al \<subseteq> p ` nbrs g v"
  shows "ilen al \<le> deg g v"
proof -
  have "card (fst ` set al) \<le> card (p ` nbrs g v)" by (rule card_mono) (use assms(5) in \<open>auto simp: nbrs_def\<close>)
  also have "\<dots> \<le> card (row g v)" unfolding nbrs_def image_image by (rule card_image_le) simp
  also have "\<dots> = nat (deg g v)" by (simp add: row_def deg_def)
  finally have "length al \<le> nat (deg g v)" using distinct_card [OF assms(4)] by simp
  then show ?thesis using deg_nonneg [OF assms(1-3)] by (simp add: ilen_def)
qed

lemma htable_snoc:
  assumes h: "htable_ok n al h" and q: "0 \<le> q" "q < n" "q \<notin> fst ` set al"
  shows "htable_ok n (al @ [(q, w)]) (upd h q (ilen al))"
  unfolding htable_ok_def
proof (intro conjI allI impI)
  show "ilen (upd h q (ilen al)) = n" using h by (simp add: htable_ok_def)
  have l: "ilen [(q, w)] = 1" by (simp add: ilen_def)
  fix r assume r: "0 \<le> r \<and> r < n"
  have a: "at (al @ [(q, w)]) (ilen al) = (q, w)" by (simp add: at_append) (simp add: at_def)
  show "if r \<in> fst ` set (al @ [(q, w)]) then 0 \<le> at (upd h q (ilen al)) r \<and> at (upd h q (ilen al)) r < ilen (al @ [(q, w)])
      \<and> fst (at (al @ [(q, w)]) (at (upd h q (ilen al)) r)) = r else at (upd h q (ilen al)) r = - 1"
  proof (cases "r = q")
    case True
    then show ?thesis using h q a l by (simp add: htable_ok_def)
  next
    case False
    have "if r \<in> fst ` set al then 0 \<le> at h r \<and> at h r < ilen al \<and> fst (at al (at h r)) = r else at h r = - 1"
      using h r by (simp add: htable_ok_def)
    moreover have "at (upd h q (ilen al)) r = at h r" using False h q r by (simp add: htable_ok_def)
    moreover have "r \<in> fst ` set (al @ [(q, w)]) \<longleftrightarrow> r \<in> fst ` set al" using False by simp
    ultimately show ?thesis using l by (cases "r \<in> fst ` set al") (simp_all only: if_True if_False, auto simp: at_append)
  qed
qed

lemma htable_upd:
  assumes h: "htable_ok n al h" and k: "0 \<le> k" "k < ilen al"
  shows "htable_ok n (upd al k (fst (at al k), x)) h"
proof -
  have a: "fst (at (upd al k (fst (at al k), x)) i) = fst (at al i)" if "0 \<le> i" for i
    using k that by simp
  have "fst ` set (upd al k (fst (at al k), x)) = fst ` set al"
    unfolding set_at image_image ilen_upd by (rule image_cong) (simp_all add: a)
  then show ?thesis using h a by (auto simp: htable_ok_def)
qed

text \<open>The loop over the edges of interface vertex \<open>i\<close>, up to edge \<open>j\<close>: the slots are collected in the
  block at \<open>e\<close>, while the state still has no slots for \<open>i\<close>.\<close>

definition pedge_inv ::
  "mgraph \<Rightarrow> int \<Rightarrow> int set \<Rightarrow> int \<Rightarrow> int \<Rightarrow> kstate \<Rightarrow> int \<Rightarrow> kstate \<times> int list \<times> int \<times> int \<Rightarrow> bool" where
  "pedge_inv g n A i e s j = (\<lambda>(t, h, nd, ed). let p = at (wher s); al = block (estore t) e nd in
     local_ok g A i s t \<and> rinfos t = rinfos s \<and> cdegree t = cdegree s \<and> 0 \<le> nd
     \<and> distinct (map fst al) \<and> p i \<notin> fst ` set al \<and> fst ` set al \<subseteq> p ` nbrs g i
     \<and> (\<forall>q. q \<noteq> p i \<longrightarrow> row_get q al = (\<Sum>k = at (xadj g) i..<j. (if p (at (adjncy g) k) = q then 1 else 0) * ewgt g k))
     \<and> ed = (\<Sum>k = at (xadj g) i..<j. (if p (at (adjncy g) k) = p i then 0 else 1) * ewgt g k)
     \<and> htable_ok n al h)"

lemma project_edge_ok:
  assumes g: "kgraph g" and p: "part_ok g n (wher s)" and i: "0 \<le> i" "i < nvtxs g" "i \<in> A"
    and e: "edegrees (at (rinfos s) i) = Some e"
    and j: "at (xadj g) i \<le> j" "j < at (xadj g) (i + 1)"
    and inv: "pedge_inv g n A i e s j (t, h, nd, ed)"
  shows "\<exists>u. project_edge g i (at (wher s) i) j (t, h, nd, ed) = Some u \<and> pedge_inv g n A i e s (j + 1) u"
proof -
  let ?p = "at (wher s)" and ?al = "block (estore t) e nd"
  note c = kgraphD(2) [OF g]
  have l: "local_ok g A i s t" and ri: "rinfos t = rinfos s" and cd: "cdegree t = cdegree s" and nd: "0 \<le> nd"
    and d: "distinct (map fst ?al)" "?p i \<notin> fst ` set ?al" "fst ` set ?al \<subseteq> ?p ` nbrs g i"
    and r: "\<And>q. q \<noteq> ?p i \<Longrightarrow> row_get q ?al = (\<Sum>k = at (xadj g) i..<j. (if ?p (at (adjncy g) k) = q then 1 else 0) * ewgt g k)"
    and ed: "ed = (\<Sum>k = at (xadj g) i..<j. (if ?p (at (adjncy g) k) = ?p i then 0 else 1) * ewgt g k)"
    and h: "htable_ok n ?al h"
    using inv by (auto simp: pedge_inv_def Let_def)
  note bt = local_okD(7) [OF l] and wt = local_okD(1) [OF l]
  note ge = kgraph_edge(1,2) [OF g i(1,2) j] part_edge [OF p g i(1,2) j]
  let ?o = "?p (at (adjncy g) j)" and ?w = "ewgt g j"
  have il: "ilen ?al = nd" using nd by simp
  have et: "edegrees (at (rinfos t) i) = Some e" using e ri by simp
  have ai: "aget (rinfos t) i = Some (at (rinfos t) i)" using blocks_vertex(1,3) [OF bt i(3)] by (simp add: arr)
  show ?thesis
  proof (cases "?p i = ?o")
    case True
    then have "project_edge g i (?p i) j (t, h, nd, ed) = Some (t, h, nd, ed)"
      using ge wt by (simp add: project_edge_def)
    moreover have "pedge_inv g n A i e s (j + 1) (t, h, nd, ed)"
      unfolding pedge_inv_def Let_def prod.case
    proof (intro conjI allI impI)
      fix q assume "q \<noteq> ?p i"
      then show "row_get q ?al = (\<Sum>k = at (xadj g) i..<j + 1. (if ?p (at (adjncy g) k) = q then 1 else 0) * ewgt g k)"
        using r [of q] True j(1) by (simp add: sum_upto)
    qed (use l ri cd nd d ed h True j(1) in \<open>simp_all add: sum_upto\<close>)
    ultimately show ?thesis by blast
  next
    case False
    have o: "0 \<le> ?o" "?o < n" "?o \<in> ?p ` nbrs g i" using ge(4-6) by auto
    have ah: "aget h ?o = Some (at h ?o)" using h o by (simp add: arr htable_ok_def)
    have goal: "pedge_inv g n A i e s (j + 1) (t\<lparr>estore := es\<rparr>, h', nd', ed + ?w)"
      if l': "local_ok g A i t (t\<lparr>estore := es\<rparr>)" and al: "block es e nd' = row_add ?o ?w ?al" and n': "0 \<le> nd'"
        and h': "htable_ok n (row_add ?o ?w ?al) h'" for es h' nd'
    proof -
      have "row_get q (row_add ?o ?w ?al)
          = (\<Sum>k = at (xadj g) i..<j + 1. (if ?p (at (adjncy g) k) = q then 1 else 0) * ewgt g k)" if "q \<noteq> ?p i" for q
        using r [OF that] j(1) by (simp add: sum_upto)
      moreover have "ed + ?w = (\<Sum>k = at (xadj g) i..<j + 1. (if ?p (at (adjncy g) k) = ?p i then 0 else 1) * ewgt g k)"
        using ed j(1) False by (simp add: sum_upto)
      moreover have "distinct (map fst (row_add ?o ?w ?al))" "?p i \<notin> fst ` set (row_add ?o ?w ?al)"
        "fst ` set (row_add ?o ?w ?al) \<subseteq> ?p ` nbrs g i"
        using d False o(3) by (simp_all add: distinct_row_add keys_row_add)
      ultimately show ?thesis
        using local_ok_trans [OF l l'] ri cd n' h'
        by (simp add: pedge_inv_def al del: row_get_add)
    qed
    show ?thesis
    proof (cases "?o \<in> fst ` set ?al")
      case True
      let ?k = "at h ?o"
      have k: "0 \<le> ?k" "?k < nd" "fst (at ?al ?k) = ?o" using htable_okD(1-3) [OF h o(1,2) True] il by auto
      have kd: "?k < deg g i"
        using row_fits [OF c i(1,2) d(1,3)] k(2) il by simp
      note raw = set_slot_raw [OF bt i(3) c et k(1) kd]
      have sl: "slot t (at (rinfos t) i) ?k = Some (at ?al ?k)"
        using raw(3,4) kd k by (simp add: slot_def et arr at_block)
      have ra: "row_add ?o ?w ?al = upd ?al ?k (fst (at ?al ?k), snd (at ?al ?k) + ?w)"
        using row_add_at(1) [OF d(1) k(1) _ k(3)] k(2) il by simp
      let ?es = "upd (estore t) (e + ?k) (fst (at ?al ?k), snd (at ?al ?k) + ?w)"
      have "nd \<le> deg g i" using row_fits [OF c i(1,2) d(1,3)] il by simp
      then have "block ?es e nd = row_add ?o ?w ?al"
        using block_upd [OF raw(3) k(1,2), of "estore t"] raw(4) ra by simp
      moreover have "htable_ok n (row_add ?o ?w ?al) h"
        unfolding ra by (rule htable_upd [OF h k(1)]) (use k(2) il in simp)
      moreover have "project_edge g i (?p i) j (t, h, nd, ed) = Some (t\<lparr>estore := ?es\<rparr>, h, nd, ed + ?w)"
        using ge(1-3) wt False ah k(1) sl raw(1) ai by (simp add: project_edge_def)
      ultimately show ?thesis using goal [of ?es nd h] raw(2) nd by blast
    next
      case new: False
      have hk: "at h ?o = - 1" using htable_okD(4) [OF h o(1,2) new] .
      have kd: "nd < deg g i" using row_room [OF c i(1,2) d(1,3) o(3) new] il by simp
      note raw = set_slot_raw [OF bt i(3) c et nd kd]
      let ?es = "upd (estore t) (e + nd) (?o, ?w)"
      have "block ?es e (nd + 1) = row_add ?o ?w ?al"
        using nd raw(3,4) kd by (simp add: block_snoc block_upd_beyond row_add_new [OF new])
      moreover have "htable_ok n (row_add ?o ?w ?al) (upd h ?o nd)"
        using htable_snoc [OF h o(1,2) new] il by (simp add: row_add_new [OF new])
      moreover have "aset h ?o nd = Some (upd h ?o nd)" using h o by (simp add: arr htable_ok_def)
      then have "project_edge g i (?p i) j (t, h, nd, ed) = Some (t\<lparr>estore := ?es\<rparr>, upd h ?o nd, nd + 1, ed + ?w)"
        using ge(1-3) wt False ah hk raw(1) ai by (simp add: project_edge_def)
      ultimately show ?thesis using goal [of ?es "nd + 1" "upd h ?o nd"] raw(2) nd by fastforce
    qed
  qed
qed

lemma blocks_ok_at:
  assumes b: "blocks_ok g A s" and l: "ilen (rinfos s') = ilen (rinfos s)" "ilen (estore s') = ilen (estore s)" "cdegree s' = cdegree s"
    and r: "\<And>v. 0 \<le> v \<Longrightarrow> edegrees (at (rinfos s') v) = edegrees (at (rinfos s) v) \<and> ndegrees (at (rinfos s') v) = ndegrees (at (rinfos s) v)"
  shows "blocks_ok g A s'"
proof -
  have pos: "\<And>v. v \<in> A \<Longrightarrow> 0 \<le> v" using b by (simp add: blocks_ok_def)
  have "waiting g A s' = waiting g A s"
    unfolding waiting_def by (rule sum.cong) (auto simp: no_block_def r)
  then show ?thesis
    using b by (simp add: blocks_ok_def no_block_def has_block_def apart_def l r pos)
qed

lemma reset_htable:
  assumes h: "htable_ok n al h" and sl: "\<And>j. 0 \<le> j \<Longrightarrow> j < ilen al \<Longrightarrow> slot s r j = Some (at al j)"
    and k: "\<And>q. q \<in> fst ` set al \<Longrightarrow> 0 \<le> q \<and> q < n"
  shows "\<exists>h'. for_loop 0 (ilen al) (\<lambda>j h. do { d \<leftarrow> slot s r j; aset h (fst d) (- 1) }) h = Some h' \<and> htable_ok n [] h'"
proof -
  let ?P = "\<lambda>j h'. ilen h' = n \<and> (\<forall>q. 0 \<le> q \<and> q < n \<and> at h' q \<noteq> - 1 \<longrightarrow> (\<exists>i. j \<le> i \<and> i < ilen al \<and> fst (at al i) = q))"
  have "\<exists>h'. for_loop 0 (ilen al) (\<lambda>j h. do { d \<leftarrow> slot s r j; aset h (fst d) (- 1) }) h = Some h' \<and> ?P (ilen al) h'"
  proof (rule for_loop_rule [where P = ?P])
    have "\<exists>i. 0 \<le> i \<and> i < ilen al \<and> fst (at al i) = q" if "0 \<le> q" "q < n" "at h q \<noteq> - 1" for q
      using htable_okD [OF h that(1,2)] that(3) by blast
    then show "?P 0 h" using h by (auto simp: htable_ok_def)
    fix j t assume j: "0 \<le> j" "j < ilen al" and t: "?P j t"
    let ?q = "fst (at al j)"
    have q: "0 \<le> ?q" "?q < n" using k at_in_set [OF j] by auto
    have "\<exists>i. j + 1 \<le> i \<and> i < ilen al \<and> fst (at al i) = x" if x: "0 \<le> x" "x < n" "at (upd t ?q (- 1)) x \<noteq> - 1" for x
    proof -
      have ne: "x \<noteq> ?q" "at t x \<noteq> - 1" using x q t by (auto split: if_splits)
      from ne(2) x t obtain i where i: "j \<le> i" "i < ilen al" "fst (at al i) = x" by blast
      moreover have "i \<noteq> j" using i(3) ne(1) by auto
      ultimately show ?thesis by (intro exI [of _ i]) simp
    qed
    then have "?P (j + 1) (upd t ?q (- 1))" using t by (metis ilen_upd)
    moreover have "do { d \<leftarrow> slot s r j; aset t (fst d) (- 1) } = Some (upd t ?q (- 1))"
      unfolding sl [OF j] Option.bind.bind_lunit using q t by (simp only: arr)
    ultimately show "\<exists>t'. do { d \<leftarrow> slot s r j; aset t (fst d) (- 1) } = Some t' \<and> ?P (j + 1) t'" by blast
  qed simp
  then obtain h' where h': "for_loop 0 (ilen al) (\<lambda>j h. do { d \<leftarrow> slot s r j; aset h (fst d) (- 1) }) h = Some h'"
    "?P (ilen al) h'" by blast
  have "htable_ok n [] h'" using h'(2) by (force simp: htable_ok_def)
  with h'(1) show ?thesis by blast
qed

definition proj_inv :: "mgraph \<Rightarrow> int \<Rightarrow> int list \<Rightarrow> int list \<Rightarrow> int \<Rightarrow> kstate \<times> int list \<Rightarrow> bool" where
  "proj_inv g n wh pw i = (\<lambda>(s, h). wher s = wh \<and> pwgts s = pw \<and> htable_ok n [] h
    \<and> blocks_ok g {0..<i} s \<and> (\<forall>v. 0 \<le> v \<and> v < i \<longrightarrow> rinfo_ok g (at wh) s v)
    \<and> bnd_ok (nvtxs g) s
    \<and> (\<forall>v. 0 \<le> v \<and> v < nvtxs g \<longrightarrow> on_bnd s v = (v < i \<and> 0 < ext g (at wh) v \<and> conn g (at wh) v (at wh v) \<le> ext g (at wh) v)))"

text \<open>Putting a finished vertex into the invariant.\<close>

lemma proj_inv_add:
  assumes i: "0 \<le> i" "i < nvtxs g" and inv: "proj_inv g n wh pw i (s, h)"
    and u: "wher u = wh" "pwgts u = pw" "htable_ok n [] h'" "blocks_ok g {0..<i + 1} u" "bnd_ok (nvtxs g) u"
    and r: "rinfo_ok g (at wh) u i"
    and same: "\<And>v. 0 \<le> v \<Longrightarrow> v < i \<Longrightarrow> slots u v = slots s v \<and> at (rinfos u) v = at (rinfos s) v"
    and on: "\<And>v. 0 \<le> v \<Longrightarrow> v < nvtxs g \<Longrightarrow> on_bnd u v = (if v = i then 0 < ext g (at wh) i \<and> conn g (at wh) i (at wh i) \<le> ext g (at wh) i else on_bnd s v)"
  shows "proj_inv g n wh pw (i + 1) (u, h')"
  unfolding proj_inv_def prod.case
proof (intro conjI allI impI; (elim conjE)?)
  fix v assume v: "0 \<le> v" "v < i + 1"
  show "rinfo_ok g (at wh) u v"
  proof (cases "v = i")
    case False
    then have "v < i" using v by simp
    with same [OF v(1) this] have "rinfo_ok g (at wh) u v = rinfo_ok g (at wh) s v" by (intro rinfo_ok_cong) auto
    then show ?thesis using inv v \<open>v < i\<close> by (simp add: proj_inv_def)
  qed (use r in simp)
next
  fix v assume v: "0 \<le> v" "v < nvtxs g"
  show "on_bnd u v = (v < i + 1 \<and> 0 < ext g (at wh) v \<and> conn g (at wh) v (at wh v) \<le> ext g (at wh) v)"
    using on [OF v] inv v by (cases "v = i") (auto simp: proj_inv_def)
qed (use u in auto)

lemma pedge_sums:
  "(\<Sum>k = at (xadj g) i..<at (xadj g) (i + 1). (if p (at (adjncy g) k) = q then 1 else 0) * ewgt g k) = conn g p i q"
  "(\<Sum>k = at (xadj g) i..<at (xadj g) (i + 1). (if p (at (adjncy g) k) = p i then 0 else 1) * ewgt g k) = ext g p i"
  by (simp_all add: conn_def ext_def rowsum_def row_def)

lemma project_vertex_ok:
  assumes g: "kgraph g" "positive g" and p: "part_ok g n wh" and i: "0 \<le> i" "i < nvtxs g"
    and cm: "ilen cm = nvtxs g" "at cm i \<le> 0 \<Longrightarrow> ext g (at wh) i = 0"
    and inv: "proj_inv g n wh pw i (s, h)"
  shows "\<exists>t. project_vertex g cm i (s, h) = Some t \<and> proj_inv g n wh pw (i + 1) t"
proof -
  let ?p = "at wh" and ?sum = "rowsum g (\<lambda>_. 1) i" and ?A = "{0..<i + 1}"
  note c = kgraphD(2) [OF g(1)] and ends = kgraph_ends [OF g(1) i]
  have w: "wher s = wh" and pw: "pwgts s = pw" and h: "htable_ok n [] h" and b: "blocks_ok g {0..<i} s"
    and bo: "bnd_ok (nvtxs g) s" and on: "\<not> on_bnd s i"
    using inv i by (auto simp: proj_inv_def)
  have rl: "ilen (rinfos s) = nvtxs g" using b by (simp add: blocks_ok_def)
  define r0 where "r0 = \<lparr>rid = ?sum, red = 0, ndegrees = 0, edegrees = None\<rparr>"
  define s1 where "s1 = s\<lparr>rinfos := upd (rinfos s) i r0\<rparr>"
  have ins: "insert i {0..<i} = ?A" using i by auto
  have n0: "edegrees r0 = None" "ndegrees r0 = 0" "i \<notin> {0..<i}" by (simp_all add: r0_def)
  note grow = blocks_grow [OF b n0(3) i n0(1,2), folded s1_def, unfolded ins]
  have ri1: "at (rinfos s1) u = (if u = i then r0 else at (rinfos s) u)" if "0 \<le> u" for u
    using that i rl by (simp add: s1_def)
  have start: "project_vertex g cm i (s, h) = (if at cm i > 0 then do {
       s \<leftarrow> take_block g i s1;
       (s, htable, nd, ed) \<leftarrow> for_loop (at (xadj g) i) (at (xadj g) (i + 1)) (project_edge g i (?p i)) (s, h, 0, 0);
       r \<leftarrow> aget (rinfos s) i;
       r \<leftarrow> Some (r\<lparr>red := ed, rid := ?sum - ed\<rparr>);
       if ed = 0 then do {
         s \<leftarrow> set_rinfo s i (r\<lparr>edegrees := None\<rparr>);
         Some (s\<lparr>cdegree := cdegree s - (at (xadj g) (i + 1) - at (xadj g) i)\<rparr>, htable) }
       else do {
         s \<leftarrow> (if ed - (?sum - ed) \<ge> 0 then BNDInsert i s else Some s);
         r \<leftarrow> Some (r\<lparr>ndegrees := nd\<rparr>);
         s \<leftarrow> set_rinfo s i r;
         htable \<leftarrow> for_loop 0 nd (\<lambda>j h. do { d \<leftarrow> slot s r j; aset h (fst d) (- 1) }) htable;
         Some (s, htable) } } else Some (s1, h))"
  proof -
    have "set_rinfo s i \<lparr>rid = ?sum, red = 0, ndegrees = 0, edegrees = None\<rparr> = Some s1"
      using i rl by (simp add: set_rinfo_def arr s1_def r0_def)
    moreover have "aget cm i = Some (at cm i)" using cm(1) i by (simp add: arr)
    ultimately show ?thesis
      unfolding project_vertex_def prod.case w part_vertex(1) [OF p i] ends(6) Option.bind.bind_lunit
      by (simp add: ends(1,2))
  qed
  show ?thesis
  proof (cases "at cm i > 0")
    case False
    then have e0: "ext g ?p i = 0" using cm(2) by simp
    have "rinfo_ok g ?p s1 i"
      using ri1 [OF i(1)] grow(3) row_is_interior [OF g(1) i, of ?p] e0 conn_plus_ext [of g ?p i]
      by (simp add: rinfo_ok_def r0_def)
    moreover have "bnd_ok (nvtxs g) s1" "\<And>v. on_bnd s1 v = on_bnd s v" using bo by (simp_all add: s1_def bnd_ok_def on_bnd_def)
    moreover have "wher s1 = wh" "pwgts s1 = pw" using w pw by (simp_all add: s1_def)
    ultimately have "proj_inv g n wh pw (i + 1) (s1, h)"
      by (intro proj_inv_add [OF i inv _ _ h grow(1)]) (use grow(2) ri1 e0 on in auto)
    with start False show ?thesis by auto
  next
    case True
    let ?e = "cdegree s1"
    define t0 where "t0 = s1\<lparr>rinfos := upd (rinfos s1) i (r0\<lparr>edegrees := Some ?e\<rparr>), cdegree := ?e + deg g i\<rparr>"
    have iA: "i \<in> ?A" using i by simp
    have rl1: "ilen (rinfos s1) = nvtxs g" using rl by (simp add: s1_def)
    have tb: "take_block g i s1 = Some t0"
      using ri1 [OF i(1)] ends(1,2,4) i rl1 by (simp add: take_block_def set_rinfo_def arr t0_def n0)
    then have lt0: "local_ok g ?A i s1 t0" using take_block_ok [OF grow(1) c iA] by auto
    have wt0: "wher t0 = wh" using w by (simp add: t0_def s1_def)
    have et0: "edegrees (at (rinfos t0) i) = Some ?e" and rt0: "at (rinfos t0) i = r0\<lparr>edegrees := Some ?e\<rparr>"
      using i rl1 by (simp_all add: t0_def)
    have p0: "part_ok g n (wher t0)" using p wt0 by simp
    let ?P = "pedge_inv g n ?A i ?e t0"
    have "\<exists>u. for_loop (at (xadj g) i) (at (xadj g) (i + 1)) (project_edge g i (?p i)) (t0, h, 0, 0) = Some u
        \<and> ?P (at (xadj g) (i + 1)) u"
    proof (rule for_loop_rule [where P = ?P])
      show "?P (at (xadj g) i) (t0, h, 0, 0)"
        using local_okD(7) [OF lt0] h by (simp add: pedge_inv_def local_ok_def row_get_def)
      fix j u assume j: "at (xadj g) i \<le> j" "j < at (xadj g) (i + 1)" and u: "?P j u"
      obtain t h1 nd ed where "u = (t, h1, nd, ed)" by (cases u)
      with u project_edge_ok [OF g(1) p0 i iA et0 j, of t h1 nd ed] wt0
      show "\<exists>u'. project_edge g i (?p i) j u = Some u' \<and> ?P (j + 1) u'" by simp
    qed (use ends(3) in auto)
    then obtain t h1 nd ed where loop: "for_loop (at (xadj g) i) (at (xadj g) (i + 1)) (project_edge g i (?p i)) (t0, h, 0, 0)
        = Some (t, h1, nd, ed)" and pi: "?P (at (xadj g) (i + 1)) (t, h1, nd, ed)" by (metis prod_cases4)
    let ?al = "block (estore t) ?e nd"
    have l: "local_ok g ?A i t0 t" and ri: "rinfos t = rinfos t0" and cd: "cdegree t = cdegree t0" and nd: "0 \<le> nd"
      and d: "distinct (map fst ?al)" "?p i \<notin> fst ` set ?al" "fst ` set ?al \<subseteq> ?p ` nbrs g i"
      and rg: "\<And>q. q \<noteq> ?p i \<Longrightarrow> row_get q ?al = conn g ?p i q" and ed: "ed = ext g ?p i" and h1: "htable_ok n ?al h1"
      using pi [unfolded pedge_inv_def Let_def prod.case] wt0 pedge_sums [where g = g and p = ?p and i = i] by simp_all
    note dl = local_okD [OF l]
    have row: "row_is g ?p i ?al" using d rg by (simp add: row_is_def)
    have bnd_t: "bndptr t = bndptr s" "bndind t = bndind s" "nbnd t = nbnd s" "pwgts t = pw" "wher t = wh"
      using dl wt0 pw by (simp_all add: t0_def s1_def)
    have art: "aget (rinfos t) i = Some (r0\<lparr>edegrees := Some ?e\<rparr>)"
      using i rl1 ri rt0 by (simp add: arr t0_def)
    have others: "slots t v = slots s v" "at (rinfos t) v = at (rinfos s) v" if v: "0 \<le> v" "v < i" for v
    proof -
      have "v \<in> ?A" "v \<noteq> i" "v \<in> {0..<i}" using v by auto
      then show "slots t v = slots s v" "at (rinfos t) v = at (rinfos s) v"
        using local_ok_others(1,2) [OF l _ iA] local_ok_others(1,2) [OF lt0 _ iA] grow(2) ri1 [OF v(1)] by auto
    qed
    show ?thesis
    proof (cases "ed = 0")
      case e0: True
      have "?al = []"
      proof (rule ccontr)
        assume "?al \<noteq> []"
        then have q: "fst (hd ?al) \<in> fst ` set ?al" using hd_in_set by blast
        then obtain x where x: "fst (hd ?al) = ?p x" "x \<in> nbrs g i" using d(3) by blast
        have "?p x \<noteq> ?p i" using q d(2) x(1) by metis
        with x(2) have "x \<in> nbrs g i" "?p x \<noteq> ?p i" .
        from ext_positive [of g i x ?p, OF g i this] ed e0 show False by simp
      qed
      then have nd0: "htable_ok n [] h1" using h1 by simp
      define u where "u = t\<lparr>rinfos := upd (rinfos t) i r0, cdegree := cdegree t - deg g i\<rparr>"
      have same: "rinfos u = rinfos s1" "cdegree u = cdegree s1" "ilen (estore u) = ilen (estore s1)"
        using dl(8) local_okD(8) [OF lt0] by (simp_all add: u_def ri cd t0_def s1_def upd_def)
      have bu: "blocks_ok g ?A u" by (rule blocks_ok_at [OF grow(1)]) (simp_all add: same)
      have "project_vertex g cm i (s, h) = Some (u, h1)"
        using start True tb loop art e0 i rl1 ri ends(4)
        by (simp add: set_rinfo_def arr u_def r0_def t0_def)
      moreover have "proj_inv g n wh pw (i + 1) (u, h1)"
      proof (rule proj_inv_add [OF i inv _ _ nd0 bu])
        show "wher u = wh" "pwgts u = pw" using bnd_t by (simp_all add: u_def)
        show "bnd_ok (nvtxs g) u" using bo bnd_ok_cong [of u s] bnd_t by (simp add: u_def)
        show "rinfo_ok g ?p u i"
          using same(1) ri1 [OF i(1)] row_is_interior [OF g(1) i, of ?p] e0 ed conn_plus_ext [of g ?p i]
          by (simp add: rinfo_ok_def r0_def slots_def slots_of_def)
        fix v assume v: "0 \<le> v" "v < i"
        have r: "at (rinfos u) v = at (rinfos s) v" using same(1) ri1 [OF v(1)] v by simp
        then show "slots u v = slots s v \<and> at (rinfos u) v = at (rinfos s) v"
          using others [OF v] by (simp add: slots_def u_def)
      next
        fix v assume "0 \<le> v" "v < nvtxs g"
        have "on_bnd u v = on_bnd s v" by (rule on_bnd_cong) (simp add: u_def bnd_t)
        then show "on_bnd u v = (if v = i then 0 < ext g ?p i \<and> conn g ?p i (?p i) \<le> ext g ?p i else on_bnd s v)"
          using on e0 ed by simp
      qed
      ultimately show ?thesis by blast
    next
      case e1: False
      then have pos: "0 < ext g ?p i" using ed ext_nonneg [OF g(1) i, of ?p] by simp
      have bot: "bnd_ok (nvtxs g) t" using bo bnd_ok_cong [of t s] bnd_t by simp
      have ont: "on_bnd t v = on_bnd s v" for v by (rule on_bnd_cong) (simp add: bnd_t)
      obtain t2 where t2: "(if ed - (?sum - ed) \<ge> 0 then BNDInsert i t else Some t) = Some t2" "bnd_step t t2"
        "bnd_ok (nvtxs g) t2" "\<And>u. 0 \<le> u \<Longrightarrow> on_bnd t2 u = (on_bnd t u \<or> ed - (?sum - ed) \<ge> 0 \<and> u = i)"
        using bnd_if_ok [OF bot i, of "ed - (?sum - ed) \<ge> 0"] on ont by blast
      note d2 = bnd_stepD [OF t2(2)]
      have b2: "blocks_ok g ?A t2" using dl(7) bnd_step_blocks [OF t2(2)] by simp
      define r where "r = r0\<lparr>edegrees := Some ?e, red := ed, rid := ?sum - ed, ndegrees := nd\<rparr>"
      define u where "u = t2\<lparr>rinfos := upd (rinfos t2) i r, estore := estore t2\<rparr>"
      have at2: "at (rinfos t2) i = r0\<lparr>edegrees := Some ?e\<rparr>" using d2(4) ri rt0 by simp
      have ndd: "nd \<le> deg g i" using row_fits [OF c i d(1,3)] nd by simp
      have lu: "local_ok g ?A i t2 u"
        unfolding u_def by (rule local_okI [OF b2 iA]) (use at2 nd ndd in \<open>auto simp: r_def\<close>)
      note du = local_okD [OF lu]
      have riu: "at (rinfos u) i = r" using i rl1 ri d2(4) by (simp add: u_def t0_def)
      have slu: "slots u i = ?al" using riu d2(5) by (simp add: slots_def slots_of_def r_def u_def)
      have sl: "slot u r j = Some (at ?al j)" if "0 \<le> j" "j < ilen ?al" for j
        using slot_at [OF du(7) iA that(1) _ c] riu slu that nd by (simp add: r_def)
      have keys: "0 \<le> q \<and> q < n" if "q \<in> fst ` set ?al" for q
        using subsetD [OF d(3) that] part_vertex(2,3) [OF p] nbrs_vertex [OF g(1) i] by auto
      obtain h2 where h2: "for_loop 0 (ilen ?al) (\<lambda>j h. do { d \<leftarrow> slot u r j; aset h (fst d) (- 1) }) h1 = Some h2"
        "htable_ok n [] h2"
        using reset_htable [OF h1 sl keys] by blast
      have su: "set_rinfo t2 i r = Some u" using i rl1 ri d2(4) by (simp add: set_rinfo_def arr u_def t0_def)
      have "project_vertex g cm i (s, h) = Some (u, h2)"
        unfolding start using True tb loop art e1 t2(1) su h2(1) nd by (simp add: r_def)
      moreover have "proj_inv g n wh pw (i + 1) (u, h2)"
      proof (rule proj_inv_add [OF i inv _ _ h2(2) du(7)])
        show "wher u = wh" "pwgts u = pw" using du(1,2) d2(1,2) bnd_t by simp_all
        show "bnd_ok (nvtxs g) u" using t2(3) bnd_ok_cong [OF du(4-6)] by simp
        show "rinfo_ok g ?p u i"
          using riu slu row ed conn_plus_ext [of g ?p i] by (simp add: rinfo_ok_def r_def)
        fix v assume v: "0 \<le> v" "v < i"
        then have "v \<in> ?A" "v \<noteq> i" by auto
        then show "slots u v = slots s v \<and> at (rinfos u) v = at (rinfos s) v"
          using local_ok_others(1,2) [OF lu _ iA] others [OF v] bnd_step_slots [OF t2(2)] d2(4) by simp
      next
        fix v assume "0 \<le> v" "v < nvtxs g"
        then have "on_bnd u v = (on_bnd s v \<or> ed - (?sum - ed) \<ge> 0 \<and> v = i)"
          using t2(4) on_bnd_cong [OF du(4)] ont by simp
        then show "on_bnd u v = (if v = i then 0 < ext g ?p i \<and> conn g ?p i (?p i) \<le> ext g ?p i else on_bnd s v)"
          using on pos ed conn_plus_ext [of g ?p i] by auto
      qed
      ultimately show ?thesis by blast
    qed
  qed
qed

lemma htable_empty: "ilen h = n \<Longrightarrow> (\<And>q. 0 \<le> q \<Longrightarrow> q < n \<Longrightarrow> at h q = - 1) \<Longrightarrow> htable_ok n [] h"
  by (simp add: htable_ok_def)

lemma copy_pwgts:
  assumes "0 \<le> n" "ilen src = n" "ilen x = n"
  shows "\<exists>y. for_loop 0 n (\<lambda>k pw. do { x \<leftarrow> aget src k; aset pw k x }) x = Some y \<and> ilen y = n
    \<and> (\<forall>q. 0 \<le> q \<and> q < n \<longrightarrow> at y q = at src q)"
proof (rule for_loop_rule [where P = "\<lambda>k t. ilen t = n \<and> (\<forall>q. 0 \<le> q \<and> q < k \<longrightarrow> at t q = at src q)"])
  fix k t assume k: "0 \<le> k" "k < n" and t: "ilen t = n \<and> (\<forall>q. 0 \<le> q \<and> q < k \<longrightarrow> at t q = at src q)"
  then show "\<exists>t'. do { x \<leftarrow> aget src k; aset t k x } = Some t' \<and> ilen t' = n \<and> (\<forall>q. 0 \<le> q \<and> q < k + 1 \<longrightarrow> at t' q = at src q)"
    using assms(2) by (simp add: arr)
qed (use assms in auto)

lemma ext_cong:
  assumes g: "csr g" and v: "0 \<le> v" "v < nvtxs g" and e: "\<And>u. 0 \<le> u \<Longrightarrow> u < nvtxs g \<Longrightarrow> p u = q u"
  shows "ext g p v = ext g q v"
  unfolding ext_def rowsum_def
proof (rule sum.cong)
  fix j assume "j \<in> row g v"
  then have "0 \<le> j" "j < nedges g" using row_bounds [OF g v] by (auto simp: row_def)
  then have "0 \<le> at (adjncy g) j" "at (adjncy g) j < nvtxs g" using csrD(7,8) [OF g] by simp_all
  then show "(if p (at (adjncy g) j) = p v then 0 else 1) * ewgt g j = (if q (at (adjncy g) j) = q v then 0 else 1) * ewgt g j"
    using e v by simp
qed simp

lemma ProjectKWayPartition_ok:
  assumes g: "kgraph g" "positive g" and n: "0 \<le> n"
    and cm: "ilen (cmap g) = nvtxs g" "\<And>v. 0 \<le> v \<Longrightarrow> v < nvtxs g \<Longrightarrow> 0 \<le> at (cmap g) v \<and> at (cmap g) v < m"
    and cs: "ilen (wher cs) = m" "ilen (rinfos cs) = m" "\<And>k. 0 \<le> k \<Longrightarrow> k < m \<Longrightarrow> 0 \<le> at (wher cs) k \<and> at (wher cs) k < n"
    and ext: "\<And>v. 0 \<le> v \<Longrightarrow> v < nvtxs g \<Longrightarrow> red (at (rinfos cs) (at (cmap g) v)) \<le> 0 \<Longrightarrow>
       ext g (\<lambda>v. at (wher cs) (at (cmap g) v)) v = 0"
    and cut: "2 * mincut cs = cut2 g (\<lambda>v. at (wher cs) (at (cmap g) v))"
    and pw: "ilen (pwgts cs) = n" "\<And>q. 0 \<le> q \<Longrightarrow> q < n \<Longrightarrow> at (pwgts cs) q = part_weight g (\<lambda>v. at (wher cs) (at (cmap g) v)) q"
    and room: "nedges g \<le> ilen (estore cs)" "0 \<le> ccore c" "ccore c + pad2 n \<le> maxcore c"
  shows "\<exists>s cm. ProjectKWayPartition c g n cs = Some (s, cm, c) \<and> kinv g n s
    \<and> (\<forall>v. 0 \<le> v \<and> v < nvtxs g \<longrightarrow> at (wher s) v = at (wher cs) (at (cmap g) v)
       \<and> on_bnd s v = (0 < ext g (at (wher s)) v \<and> conn g (at (wher s)) v (at (wher s) v) \<le> ext g (at (wher s)) v))
    \<and> mincut s = mincut cs"
proof -
  let ?nv = "nvtxs g" and ?p = "\<lambda>v. at (wher cs) (at (cmap g) v)"
  note c = kgraphD(2) [OF g(1)] and nv = csrD(1) [OF kgraphD(2) [OF g(1)]]
  let ?s = "AllocateKWayPartitionMemory c g n cs"
  have l: "ilen (pwgts ?s) = n" "ilen (wher ?s) = ?nv" "ilen (bndptr ?s) = ?nv" "ilen (bndind ?s) = ?nv" "ilen (rinfos ?s) = ?nv"
    "estore ?s = estore cs"
    using n nv by (simp_all add: AllocateKWayPartitionMemory_def fresh_rinfos_def ilen_def)
  obtain bp where bp: "idxset ?nv (- 1) (bndptr ?s) = Some bp" "ilen bp = ?nv" "\<And>v. 0 \<le> v \<Longrightarrow> v < ?nv \<Longrightarrow> at bp v = - 1"
    using idxset_at [of ?nv "bndptr ?s" "- 1"] nv l(3) by auto
  obtain wh cmp where wh: "project_where g cs (wher ?s) = Some (wh, cmp)" "ilen wh = ?nv" "ilen cmp = ?nv"
    "\<And>v. 0 \<le> v \<Longrightarrow> v < ?nv \<Longrightarrow> at wh v = ?p v"
    "\<And>v. 0 \<le> v \<Longrightarrow> v < ?nv \<Longrightarrow> at cmp v = red (at (rinfos cs) (at (cmap g) v))"
    using project_where_ok [OF nv cm(1) l(2) cm(2) cs(1,2)] by blast
  have part: "part_ok g n wh" using wh(2,4) cm(2) cs(3) by (simp add: part_ok_def)
  obtain h where h: "idxset n (- 1) (fresh c n) = Some h" "ilen h = n" "\<And>v. 0 \<le> v \<Longrightarrow> v < n \<Longrightarrow> at h v = - 1"
    using idxset_at [of n "fresh c n" "- 1"] n by auto
  let ?t = "?s\<lparr>bndptr := bp, wher := wh, cdegree := 0, nbnd := 0\<rparr>"
  have "blocks_ok g {} ?t" using l room(1) waiting_all [OF c] by (simp add: blocks_ok_def)
  moreover have "bnd_ok ?nv ?t" using l bp nv by (simp add: bnd_ok_def on_bnd_def)
  ultimately have i0: "proj_inv g n wh (pwgts ?s) 0 (?t, h)"
    using htable_empty [OF h(2,3)] bp by (auto simp: proj_inv_def on_bnd_def)
  have e: "at cmp v \<le> 0 \<Longrightarrow> ext g (at wh) v = 0" if v: "0 \<le> v" "v < ?nv" for v
    using ext [OF v] wh(4,5) v ext_cong [OF c v, of "at wh" ?p] by simp
  have "\<exists>u. for_loop 0 ?nv (project_vertex g cmp) (?t, h) = Some u \<and> proj_inv g n wh (pwgts ?s) ?nv u"
  proof (rule for_loop_rule [where P = "proj_inv g n wh (pwgts ?s)"])
    fix i u assume "0 \<le> i" "i < ?nv" "proj_inv g n wh (pwgts ?s) i u"
    then show "\<exists>u'. project_vertex g cmp i u = Some u' \<and> proj_inv g n wh (pwgts ?s) (i + 1) u'"
      using project_vertex_ok [OF g part _ _ wh(3) e] by (cases u) blast
  qed (use nv i0 in auto)
  then obtain s h' where s: "for_loop 0 ?nv (project_vertex g cmp) (?t, h) = Some (s, h')"
    "proj_inv g n wh (pwgts ?s) ?nv (s, h')" by (metis surj_pair)
  have sw: "wher s = wh" "pwgts s = pwgts ?s" using s(2) by (simp_all add: proj_inv_def)
  obtain pw' where pw': "for_loop 0 n (\<lambda>k pw. do { x \<leftarrow> aget (pwgts cs) k; aset pw k x }) (pwgts s) = Some pw'"
    "ilen pw' = n" "\<And>q. 0 \<le> q \<Longrightarrow> q < n \<Longrightarrow> at pw' q = at (pwgts cs) q"
    using copy_pwgts [OF n pw(1), of "pwgts s"] l(1) sw by auto
  let ?r = "s\<lparr>pwgts := pw', mincut := mincut cs\<rparr>"
  have same: "blocks_ok g A ?r = blocks_ok g A s" "rinfo_ok g q ?r v = rinfo_ok g q s v"
    "bnd_ok k ?r = bnd_ok k s" "on_bnd ?r v = on_bnd s v" for A q v k
    by (rule blocks_ok_cong, simp_all add: rinfo_ok_def slots_def bnd_ok_def on_bnd_def)
  have pwe: "part_weight g (at wh) q = part_weight g ?p q" for q
    unfolding part_weight_def by (rule sum.cong) (simp_all add: wh(4))
  have cue: "cut2 g (at wh) = cut2 g ?p"
    unfolding cut2_ext by (rule sum.cong) (simp_all add: ext_cong [OF c _ _ wh(4)])
  have "kinv g n ?r"
    using s(2) part pw'(2,3) pw(2) pwe cue cut same by (simp add: kinv_def proj_inv_def)
  moreover have "ProjectKWayPartition c g n cs = Some (?r, cmp, c)"
    using bp(1) wh(1) h(1) s(1) pw'(1) pad2_nonneg [OF n] room n
    by (simp add: ProjectKWayPartition_def idxwspacemalloc_ok idxwspacefree_ok)
  moreover have "on_bnd ?r v = (0 < ext g (at wh) v \<and> conn g (at wh) v (at wh v) \<le> ext g (at wh) v)"
    if "0 \<le> v" "v < ?nv" for v using s(2) that same by (simp add: proj_inv_def)
  ultimately show ?thesis using wh(4) sw
    by (intro exI [of _ ?r] exI [of _ cmp]) simp
qed

text \<open>From the coarse graph that the contraction made.\<close>

lemma coarse_ext:
  assumes g: "kgraph g" and m: "matching_ok g n mat perm" and cg: "coarse_of g mat n cg"
    and v: "0 \<le> v" "v < nvtxs g" and e: "ext cg p (at (cmap g) v) \<le> 0"
  shows "ext g (\<lambda>v. p (at (cmap g) v)) v = 0"
proof -
  let ?c = "at (cmap g) v" and ?q = "\<lambda>v. p (at (cmap g) v)"
  have c: "0 \<le> ?c" "?c < n" using matching_okD(5,6) [OF m v] by auto
  have "ext cg p ?c = (\<Sum>i = 0..<nvtxs g. if at (cmap g) i = ?c then rowsum g (\<lambda>k. if ?q k = ?q v then 0 else 1) i else 0)"
    unfolding ext_def by (rule coarse_rowsum [OF kgraphD(2) [OF g] m cg c]) simp
  also have "\<dots> = (\<Sum>i = 0..<nvtxs g. if at (cmap g) i = ?c then ext g ?q i else 0)"
    by (rule sum.cong) (auto simp: ext_def)
  finally have s: "ext cg p ?c = (\<Sum>i = 0..<nvtxs g. if at (cmap g) i = ?c then ext g ?q i else 0)" .
  have "(if at (cmap g) v = ?c then ext g ?q v else 0) \<le> ext cg p ?c"
    unfolding s by (rule member_le_sum) (use v ext_nonneg [OF g] in auto)
  then show ?thesis using e ext_nonneg [OF g v, of ?q] by simp
qed

lemma ProjectKWayPartition_coarse:
  assumes g: "kgraph g" "positive g" and n: "0 \<le> n" and m: "matching_ok g (nvtxs cg) mat perm"
    and cg: "coarse_of g mat (nvtxs cg) cg" and cs: "kinv cg n cs" and cm: "ilen (cmap g) = nvtxs g"
    and room: "nedges g \<le> ilen (estore cs)" "0 \<le> ccore c" "ccore c + pad2 n \<le> maxcore c"
  shows "\<exists>s cm. ProjectKWayPartition c g n cs = Some (s, cm, c) \<and> kinv g n s
    \<and> (\<forall>v. 0 \<le> v \<and> v < nvtxs g \<longrightarrow> at (wher s) v = at (wher cs) (at (cmap g) v)
       \<and> on_bnd s v = (0 < ext g (at (wher s)) v \<and> conn g (at (wher s)) v (at (wher s) v) \<le> ext g (at (wher s)) v))
    \<and> mincut s = mincut cs"
proof (rule ProjectKWayPartition_ok [OF g n cm _ _ _ _ _ _ _ _ room])
  note mb = matching_okD(5,6) [OF m]
  show "0 \<le> at (cmap g) v \<and> at (cmap g) v < nvtxs cg" if "0 \<le> v" "v < nvtxs g" for v using mb [OF that] by simp
  show "ilen (wher cs) = nvtxs cg" "ilen (rinfos cs) = nvtxs cg" "ilen (pwgts cs) = n"
    "\<And>k. 0 \<le> k \<Longrightarrow> k < nvtxs cg \<Longrightarrow> 0 \<le> at (wher cs) k \<and> at (wher cs) k < n"
    using cs by (auto simp: kinv_def part_ok_def blocks_ok_def)
  show "2 * mincut cs = cut2 g (\<lambda>v. at (wher cs) (at (cmap g) v))"
    using cs coarse_cut [OF kgraphD(2) [OF g(1)] m cg] by (simp add: kinv_def)
  show "at (pwgts cs) q = part_weight g (\<lambda>v. at (wher cs) (at (cmap g) v)) q" if "0 \<le> q" "q < n" for q
    using cs that coarse_part_weight [OF m cg] by (simp add: kinv_def)
  fix v assume v: "0 \<le> v" "v < nvtxs g" and r: "red (at (rinfos cs) (at (cmap g) v)) \<le> 0"
  have "red (at (rinfos cs) (at (cmap g) v)) = ext cg (at (wher cs)) (at (cmap g) v)"
    using cs mb [OF v] by (simp add: kinv_def rinfo_ok_def)
  with r show "ext g (\<lambda>v. at (wher cs) (at (cmap g) v)) v = 0" using coarse_ext [OF g(1) m cg v] by simp
qed

end
