(* ===== verification/Mt_Kway_Coarse.thy ===== *)
theory Mt_Kway_Coarse
  imports Mt_Kway_Project
begin

text \<open>
  The graph that the contraction makes is again one of the graphs the refinement expects: simple,
  symmetric and with positive weights.
\<close>

section \<open>The coarse graph\<close>

lemma row_add_pos: "0 < w \<Longrightarrow> (\<forall>e \<in> set al. 0 < snd e) \<Longrightarrow> \<forall>e \<in> set (row_add k w al). 0 < snd e"
  by (induction k w al rule: row_add.induct) auto

lemma row_del_subset: "set (row_del k al) \<subseteq> set al"
proof (cases "al = []")
  case False
  then have "last al \<in> set al" by simp
  then have "set (map (\<lambda>e. if fst e = k then last al else e) al) \<subseteq> set al" by (simp add: image_subset_iff)
  then have "set (butlast (map (\<lambda>e. if fst e = k then last al else e) al)) \<subseteq> set al"
    by (rule subset_trans [rotated]) (rule subsetI, erule in_set_butlastD)
  then show ?thesis by (simp add: row_del_def)
qed (simp add: row_del_def)

lemma add_row_pos:
  assumes g: "csr g" "positive g" and v: "0 \<le> v" "v < nvtxs g" and al: "\<forall>e \<in> set al. 0 < snd e"
  shows "\<forall>e \<in> set (add_row g v al). 0 < snd e"
  unfolding add_row_def
proof (rule fold_upto_invariant [where P = "\<lambda>_ r. \<forall>e \<in> set r. 0 < snd e"])
  fix j and r :: "(int \<times> int) list"
  assume j: "at (xadj g) v \<le> j" "j < at (xadj g) (v + 1)" and r: "\<forall>e \<in> set r. 0 < snd e"
  have "0 < ewgt g j" using row_bounds [OF g(1) v j] g(2) by (simp add: positive_def)
  then show "\<forall>e \<in> set (row_add (at (cmap g) (at (adjncy g) j)) (ewgt g j) r). 0 < snd e" using r row_add_pos by blast
qed (use al csrD(4) [OF g(1) v] in auto)

lemma class_row_facts:
  assumes g: "kgraph g" "positive g" and m: "matching_ok g n mat perm" and v: "0 \<le> v" "v < nvtxs g"
  shows "distinct (map fst (class_row g mat v))" "at (cmap g) v \<notin> fst ` set (class_row g mat v)"
    "\<forall>e \<in> set (class_row g mat v). 0 < snd e"
proof -
  note c = kgraphD(2) [OF g(1)] and mv = matching_okD [OF m v]
  have d: "distinct (map fst ([] :: (int \<times> int) list))" by simp
  note a = add_row_facts [OF c v d]
  note b = add_row_facts [OF c mv(1,2) a(2)]
  note del = row_del_facts(2,3) [OF b(2), of "at (cmap g) v"]
  show "distinct (map fst (class_row g mat v))"
    using a(2) del(2) by (simp add: class_row_def Let_def)
  have p: "\<forall>e \<in> set (add_row g v []). 0 < snd e" by (rule add_row_pos [OF c g(2) v]) simp
  have "\<forall>e \<in> set (add_row g (at mat v) (add_row g v [])). 0 < snd e" by (rule add_row_pos [OF c g(2) mv(1,2) p])
  then show "\<forall>e \<in> set (class_row g mat v). 0 < snd e"
    using p subsetD [OF row_del_subset] unfolding class_row_def Let_def by metis
  show "at (cmap g) v \<notin> fst ` set (class_row g mat v)"
  proof (cases "at mat v = v")
    case True
    have "at (cmap g) (at (adjncy g) j) \<noteq> at (cmap g) v" if j: "j \<in> row g v" for j
    proof -
      let ?u = "at (adjncy g) j"
      have e: "at (xadj g) v \<le> j" "j < at (xadj g) (v + 1)" using j by (auto simp: row_def)
      note u = kgraph_edge(3-5) [OF g(1) v e]
      have "?u \<noteq> v" using kgraphD(5) [OF g(1) v] u(3) by auto
      then show ?thesis using mv(7) [OF u(1,2)] True by auto
    qed
    note ne = this
    have "at (cmap g) v \<notin> (\<lambda>j. at (cmap g) (at (adjncy g) j)) ` row g v"
    proof
      assume "at (cmap g) v \<in> (\<lambda>j. at (cmap g) (at (adjncy g) j)) ` row g v"
      then obtain j where "j \<in> row g v" "at (cmap g) v = at (cmap g) (at (adjncy g) j)" by (rule imageE)
      then show False using ne by metis
    qed
    moreover have "class_row g mat v = add_row g v []" using True by (simp only: class_row_def Let_def simp_thms if_False)
    ultimately show ?thesis unfolding a(3) by (simp only: a(3) list.set image_empty Un_empty_left not_False_eq_True)
  next
    case False
    then show ?thesis using del(1) by (auto simp: class_row_def Let_def)
  qed
qed

text \<open>A row of the coarse graph is the row of the class.\<close>

lemma coarse_row:
  assumes m: "matching_ok g n mat perm" and cg: "coarse_of g mat n cg" and c: "0 \<le> c" "c < n"
  obtains x where "0 \<le> x" "x < nvtxs g" "at (cmap g) x = c"
    "at (xadj cg) (c + 1) = at (xadj cg) c + ilen (class_row g mat x)"
    "\<And>m. 0 \<le> m \<Longrightarrow> m < ilen (class_row g mat x) \<Longrightarrow>
        at (adjncy cg) (at (xadj cg) c + m) = fst (at (class_row g mat x) m)
        \<and> ewgt cg (at (xadj cg) c + m) = snd (at (class_row g mat x) m)"
proof -
  obtain v where v: "0 \<le> v" "v < nvtxs g" "at (cmap g) v = c" using matching_ok_member [OF m c] .
  note mv = matching_okD [OF m v(1,2)]
  from cg v obtain x where x: "x \<in> {v, at mat v}"
    "at (xadj cg) (c + 1) = at (xadj cg) c + ilen (class_row g mat x)"
    "\<And>m. 0 \<le> m \<Longrightarrow> m < ilen (class_row g mat x) \<Longrightarrow>
        at (adjncy cg) (at (xadj cg) c + m) = fst (at (class_row g mat x) m)
        \<and> ewgt cg (at (xadj cg) c + m) = snd (at (class_row g mat x) m)"
    unfolding coarse_of_def Let_def by blast
  then show ?thesis using that [of x] v mv(1,2,4) by auto
qed

lemma coarse_row_simple:
  assumes g: "kgraph g" "positive g" and m: "matching_ok g n mat perm" and cg: "coarse_of g mat n cg" and c: "0 \<le> c" "c < n"
  shows "inj_on (at (adjncy cg)) (row cg c)" "c \<notin> nbrs cg c" "\<And>j. j \<in> row cg c \<Longrightarrow> 0 < ewgt cg j"
proof -
  obtain x where x: "0 \<le> x" "x < nvtxs g" "at (cmap g) x = c"
    "at (xadj cg) (c + 1) = at (xadj cg) c + ilen (class_row g mat x)"
    "\<And>m. 0 \<le> m \<Longrightarrow> m < ilen (class_row g mat x) \<Longrightarrow>
        at (adjncy cg) (at (xadj cg) c + m) = fst (at (class_row g mat x) m)
        \<and> ewgt cg (at (xadj cg) c + m) = snd (at (class_row g mat x) m)"
    using coarse_row [OF m cg c] by blast
  let ?al = "class_row g mat x" and ?a = "at (xadj cg) c"
  note f = class_row_facts [OF g m x(1,2)]
  have r: "0 \<le> j - ?a \<and> j - ?a < ilen ?al \<and> at (adjncy cg) j = fst (at ?al (j - ?a)) \<and> ewgt cg j = snd (at ?al (j - ?a))"
    if "j \<in> row cg c" for j
    using that x(5) [of "j - ?a"] x(4) by (auto simp: row_def)
  have mem: "at ?al k \<in> set ?al" if "0 \<le> k" "k < ilen ?al" for k using that by (rule at_in_set)
  have key: "fst (at ?al k) \<in> fst ` set ?al" if "0 \<le> k" "k < ilen ?al" for k using mem [OF that] by simp
  show "inj_on (at (adjncy cg)) (row cg c)"
  proof (rule inj_onI)
    fix i j assume i: "i \<in> row cg c" and j: "j \<in> row cg c" and e: "at (adjncy cg) i = at (adjncy cg) j"
    have "fst (at ?al (i - ?a)) = fst (at ?al (j - ?a))" using r [OF i] r [OF j] e by metis
    moreover have b: "nat (i - ?a) < length ?al" "nat (j - ?a) < length ?al"
      using r [OF i] r [OF j] by (simp_all add: ilen_def nat_less_iff)
    ultimately have "map fst ?al ! nat (i - ?a) = map fst ?al ! nat (j - ?a)"
      using b by (simp add: at_def)
    then have "nat (i - ?a) = nat (j - ?a)"
      using f(1) r [OF i] r [OF j] by (subst (asm) nth_eq_iff_index_eq) (auto simp: ilen_def)
    then have "i - ?a = j - ?a" using r [OF i] r [OF j] by (metis nat_0_le)
    then show "i = j" by simp
  qed
  show "c \<notin> nbrs cg c"
  proof
    assume "c \<in> nbrs cg c"
    then obtain j where "j \<in> row cg c" "c = at (adjncy cg) j" by (auto simp: nbrs_def)
    then show False using r [of j] key [of "j - ?a"] f(2) x(3) by auto
  qed
  show "0 < ewgt cg j" if "j \<in> row cg c" for j using r [OF that] mem [of "j - ?a"] f(3) by auto
qed

lemma edge_row:
  assumes g: "csr g" and j: "0 \<le> j" "j < nedges g"
  shows "\<exists>v. 0 \<le> v \<and> v < nvtxs g \<and> j \<in> row g v"
proof -
  have "\<exists>v. 0 \<le> v \<and> v < n \<and> j \<in> row g v" if "0 \<le> n" "n \<le> nvtxs g" "j < at (xadj g) n" for n
    using that
  proof (induction n rule: int_ge_induct)
    case base
    then show ?case using csrD(3) [OF g] j by simp
  next
    case (step n)
    show ?case
    proof (cases "j < at (xadj g) n")
      case True
      then obtain v where "0 \<le> v \<and> v < n \<and> j \<in> row g v" using step by auto
      then show ?thesis by (intro exI [of _ v]) simp
    next
      case False
      then show ?thesis using step by (intro exI [of _ n]) (simp add: row_def)
    qed
  qed
  then show ?thesis using csrD(1,5) [OF g] j by auto
qed

lemma ew_nbrs:
  assumes g: "csr g" and pos: "\<And>j. j \<in> row g u \<Longrightarrow> 0 < ewgt g j"
  shows "v \<in> nbrs g u \<longleftrightarrow> 0 < ew g u v"
proof
  assume "v \<in> nbrs g u"
  then obtain j where j: "j \<in> row g u" "at (adjncy g) j = v" by (auto simp: nbrs_def)
  have "0 < (if at (adjncy g) j = v then 1 else 0) * ewgt g j" using j pos by simp
  also have "\<dots> \<le> ew g u v"
    unfolding ew_def rowsum_def by (rule member_le_sum [OF j(1)]) (use pos less_imp_le in auto)
  finally show "0 < ew g u v" .
next
  assume p: "0 < ew g u v"
  show "v \<in> nbrs g u"
  proof (rule ccontr)
    assume "v \<notin> nbrs g u"
    then have "ew g u v = rowsum g (\<lambda>_. 0) u" unfolding ew_def by (intro rowsum_eqI) auto
    with p show False by (simp add: rowsum_def)
  qed
qed

text \<open>The weight between two coarse vertices is the sum over their members.\<close>

lemma coarse_ew:
  assumes g: "kgraph g" and m: "matching_ok g n mat perm" and cg: "coarse_of g mat n cg" and a: "0 \<le> a" "a < n" "a \<noteq> b"
  shows "ew cg a b = (\<Sum>i = 0..<nvtxs g. \<Sum>k = 0..<nvtxs g. if at (cmap g) i = a \<and> at (cmap g) k = b then ew g i k else 0)"
proof -
  note c = kgraphD(2) [OF g]
  have "ew cg a b = (\<Sum>i = 0..<nvtxs g. if at (cmap g) i = a then rowsum g (\<lambda>k. if at (cmap g) k = b then 1 else 0) i else 0)"
    unfolding ew_def by (rule coarse_rowsum [OF c m cg a(1,2)]) (use a(3) in simp)
  also have "\<dots> = (\<Sum>i = 0..<nvtxs g. \<Sum>k = 0..<nvtxs g. if at (cmap g) i = a \<and> at (cmap g) k = b then ew g i k else 0)"
  proof (rule sum.cong)
    fix i assume i: "i \<in> {0..<nvtxs g}"
    show "(if at (cmap g) i = a then rowsum g (\<lambda>k. if at (cmap g) k = b then 1 else 0) i else 0)
        = (\<Sum>k = 0..<nvtxs g. if at (cmap g) i = a \<and> at (cmap g) k = b then ew g i k else 0)"
      using i by (simp add: rowsum_ew [OF c] if_distrib [of "\<lambda>x. x * _"] cong: if_cong)
  qed simp
  finally show ?thesis .
qed

lemma coarse_kgraph:
  assumes g: "kgraph g" "positive g" and m: "matching_ok g n mat perm" and cg: "coarse_of g mat n cg"
  shows "kgraph cg" "positive cg"
proof -
  have n: "nvtxs cg = n" and wf: "wf_graph cg" "weighted cg" using cg by (auto simp: coarse_of_def)
  note c = wf_csr [OF wf(1)] and s = coarse_row_simple [OF g m cg]
  show pos: "positive cg"
    unfolding positive_def
  proof (intro allI impI; elim conjE)
    fix j assume "0 \<le> j" "j < nedges cg"
    then obtain v where "0 \<le> v" "v < n" "j \<in> row cg v" using edge_row [OF c] n by blast
    then show "0 < ewgt cg j" using s(3) by blast
  qed
  have sym: "ew cg u v = ew cg v u" if u: "0 \<le> u" "u < n" "0 \<le> v" "v < n" for u v
  proof (cases "u = v")
    case False
    have "ew cg u v = (\<Sum>k = 0..<nvtxs g. \<Sum>i = 0..<nvtxs g. if at (cmap g) i = u \<and> at (cmap g) k = v then ew g i k else 0)"
      unfolding coarse_ew [OF g(1) m cg u(1,2) False] by (rule sum.swap)
    also have "\<dots> = (\<Sum>k = 0..<nvtxs g. \<Sum>i = 0..<nvtxs g. if at (cmap g) k = v \<and> at (cmap g) i = u then ew g k i else 0)"
      by (intro sum.cong refl) (use kgraphD(8) [OF g(1)] in auto)
    also have "\<dots> = ew cg v u" using coarse_ew [OF g(1) m cg u(3,4), of u] False by simp
    finally show ?thesis .
  qed simp
  have "u \<in> nbrs cg v \<longleftrightarrow> v \<in> nbrs cg u" if "0 \<le> u" "u < n" "0 \<le> v" "v < n" for u v
    using ew_nbrs [OF c s(3)] sym [OF that] that by auto
  then show "kgraph cg"
    using wf n s(1,2) sym pos by (auto simp: kgraph_def positive_def intro: less_imp_le)
qed

end
