(* ===== verification/Mt_Kway_Store.thy ===== *)
theory Mt_Kway_Store
  imports Mt_Kway_Coarse
begin

text \<open>
  No routine of the refinement changes the length of the array behind the external degrees, so the room
  for them that was there on the coarsest graph is there on every level.
\<close>

section \<open>The size of the store\<close>

text \<open>No routine changes the length of the array behind the degrees.\<close>

lemma for_loop_kept:
  assumes "for_loop a b f s = Some t" "\<And>i s t. f i s = Some t \<Longrightarrow> h t = h s"
  shows "h t = h s"
proof (cases "a \<le> b")
  case True
  from this assms(1) show ?thesis
  proof (induction "nat (b - a)" arbitrary: a s)
    case (Suc n)
    then have "a < b" by simp
    with Suc.prems(2) obtain u where u: "f a s = Some u" "for_loop (a + 1) b f u = Some t"
      by (auto simp: for_loop_step split: bind_splits)
    with Suc.hyps(1) [of "a + 1" u] Suc.hyps(2) \<open>a < b\<close> assms(2) [OF u(1)] show ?case by simp
  qed simp
qed (use assms(1) in simp)

named_theorems kept

lemma aset_ilen: "aset xs i x = Some ys \<Longrightarrow> ilen ys = ilen xs"
  by (auto simp: aset_def ilen_def split: if_splits)

lemma kept_ops [kept]:
  "BNDInsert v s = Some t \<Longrightarrow> ilen (estore t) = ilen (estore s)"
  "BNDDelete v s = Some t \<Longrightarrow> ilen (estore t) = ilen (estore s)"
  "set_slot s r k d = Some t \<Longrightarrow> ilen (estore t) = ilen (estore s)"
  "set_rinfo s v r = Some t \<Longrightarrow> ilen (estore t) = ilen (estore s)"
  by (auto simp: BNDInsert_def BNDDelete_def set_slot_def set_rinfo_def dest!: aset_ilen split: bind_splits)

lemma kept_take_block [kept]: "take_block g v s = Some t \<Longrightarrow> ilen (estore t) = ilen (estore s)"
  by (auto simp: take_block_def split: bind_splits if_splits dest!: kept)

lemma kept_drop_slot_at [kept]: "drop_slot_at v k s = Some t \<Longrightarrow> ilen (estore t) = ilen (estore s)"
  by (auto simp: drop_slot_at_def split: bind_splits if_splits dest!: kept)

lemma kept_edeg [kept]: "add_edeg v q w s = Some t \<Longrightarrow> ilen (estore t) = ilen (estore s)"
  "sub_edeg v q w s = Some t \<Longrightarrow> ilen (estore t) = ilen (estore s)"
  by (auto simp: add_edeg_def sub_edeg_def split: bind_splits if_splits dest!: kept)

lemma kept_init_vertex: "init_vertex g i x = Some y \<Longrightarrow> ilen (estore (fst y)) = ilen (estore (fst x))"
  by (cases x) (auto simp: init_vertex_def split: bind_splits if_splits dest!: kept
      for_loop_kept [where h = "\<lambda>s. ilen (estore s)"])

lemma kept_Params [kept]: "ComputeKWayPartitionParams g n s = Some t \<Longrightarrow> ilen (estore t) = ilen (estore s)"
  by (auto simp: ComputeKWayPartitionParams_def split: bind_splits
      dest!: for_loop_kept [where h = "\<lambda>x. ilen (estore (fst x))"] kept_init_vertex)

lemma kept_flip [kept]: "flip_vertex i k s = Some t \<Longrightarrow> ilen (estore t) = ilen (estore s)"
  by (auto simp: flip_vertex_def split: bind_splits if_splits dest!: kept)

lemma kept_shift [kept]: "shift_degs enters leaves q r me ii w s = Some t \<Longrightarrow> ilen (estore t) = ilen (estore s)"
  by (auto simp: shift_degs_def split: bind_splits if_splits dest!: kept)

lemma kept_move_edge [kept]: "move_edge enters leaves g q r j s = Some t \<Longrightarrow> ilen (estore t) = ilen (estore s)"
  by (auto simp: move_edge_def split: bind_splits if_splits dest!: kept)

lemma kept_begin_move [kept]: "begin_move leaves g i k s = Some (q, r, t) \<Longrightarrow> ilen (estore t) = ilen (estore s)"
  by (auto simp: begin_move_def split: bind_splits if_splits dest!: kept)

lemma kept_move_vertex [kept]: "move_vertex enters leaves g i k s = Some t \<Longrightarrow> ilen (estore t) = ilen (estore s)"
  by (auto simp: move_vertex_def split: bind_splits if_splits dest!: kept_begin_move
      for_loop_kept [where h = "\<lambda>s. ilen (estore s)"] kept_move_edge)

lemma kept_refine_vertex [kept]: "refine_vertex g b f k i s = Some t \<Longrightarrow> ilen (estore t) = ilen (estore s)"
  by (auto simp: refine_vertex_def split: bind_splits if_splits dest!: kept_move_vertex)

lemma kept_refine_pass: "refine_pass rand g b f x = Some y \<Longrightarrow> ilen (estore (fst y)) = ilen (estore (fst x))"
proof (cases x)
  case (fields s perm pos)
  assume "refine_pass rand g b f x = Some y"
  then obtain perm' pos' t where t: "for_loop 0 (nbnd s) (\<lambda>iii s. do {
       ii \<leftarrow> aget perm' iii;
       if ii \<ge> nbnd s then Some s
       else do { i \<leftarrow> aget (bndind s) ii; refine_vertex g b f iii i s } }) s = Some t" "y = (t, perm', pos')"
    using fields by (auto simp: refine_pass_def split: bind_splits)
  have "ilen (estore t) = ilen (estore s)"
    by (rule for_loop_kept [OF t(1), where h = "\<lambda>s. ilen (estore s)"])
      (auto split: bind_splits if_splits dest!: kept_refine_vertex)
  then show ?thesis using t(2) fields by simp
qed

lemma kept_refine_passes:
  "refine_passes n (refine_pass rand g b f) x = Some y \<Longrightarrow> ilen (estore (fst y)) = ilen (estore (fst x))"
  by (induction n arbitrary: x) (auto split: bind_splits if_splits dest!: kept_refine_pass)

lemma kept_Random [kept]: "Random_KWayEdgeRefine c g n L np f s = Some (t, c') \<Longrightarrow> ilen (estore t) = ilen (estore s)"
  by (auto simp: Random_KWayEdgeRefine_def split: bind_splits dest!: kept_refine_passes)

lemma kept_boundary [kept]: "boundary_loop g p s = Some t \<Longrightarrow> ilen (estore t) = ilen (estore s)"
proof -
  assume "boundary_loop g p s = Some t"
  then obtain bp where "for_loop 0 (nvtxs g) (\<lambda>i s. do { r \<leftarrow> aget (rinfos s) i; if p r then BNDInsert i s else Some s })
       (s\<lparr>bndptr := bp, nbnd := 0\<rparr>) = Some t" by (auto simp: boundary_loop_def split: bind_splits)
  then have "ilen (estore t) = ilen (estore (s\<lparr>bndptr := bp, nbnd := 0\<rparr>))"
    by (rule for_loop_kept [where h = "\<lambda>s. ilen (estore s)"])
      (auto split: bind_splits if_splits dest!: kept_ops(1))
  then show ?thesis by simp
qed

lemma kept_project_edge: "project_edge g i me j x = Some y \<Longrightarrow> ilen (estore (fst y)) = ilen (estore (fst x))"
  by (cases x) (auto simp: project_edge_def split: bind_splits if_splits dest!: kept_ops)

lemma kept_project_vertex: "project_vertex g cm i x = Some y \<Longrightarrow> ilen (estore (fst y)) = ilen (estore (fst x))"
  by (cases x) (auto simp: project_vertex_def split: bind_splits if_splits dest!: kept_ops kept_take_block
      for_loop_kept [where h = "\<lambda>x. ilen (estore (fst x))" and f = "project_edge g i q" for q] kept_project_edge)

lemma kept_Project [kept]: "ProjectKWayPartition c g n cs = Some (t, cm, c') \<Longrightarrow> ilen (estore t) = ilen (estore cs)"
  by (auto simp: ProjectKWayPartition_def AllocateKWayPartitionMemory_def split: bind_splits
      dest!: for_loop_kept [where h = "\<lambda>x. ilen (estore (fst x))" and f = "project_vertex g q" for q] kept_project_vertex)

end
