(* ===== verification/Mt_Pqueue.thy ===== *)
theory Mt_Pqueue
  imports Mt_Graph
begin

text \<open>
  \<open>pqueue.c\<close>: the queue of vertices ordered by gain. It has two representations: buckets of
  doubly linked nodes, one bucket per gain (\<open>type == 1\<close>), and a binary heap with the position of
  every vertex in \<open>locator\<close> (\<open>type == 2\<close>). A pointer to a node is its index in \<open>nodes\<close>, NULL is
  \<open>None\<close>; the pointer \<open>buckets\<close> stands \<open>ngainspan\<close> cells inside its array, so that it can be
  indexed with a gain.
\<close>

section \<open>Structures\<close>

record lnode =
  ident :: int
  prv :: "int option"
  nxt :: "int option"

record pqueue =
  ptype :: int
  nnodes :: int
  maxnodes :: int
  mustfree :: int
  pgainspan :: int
  ngainspan :: int
  maxgain :: int
  nodes :: "lnode list"
  buckets :: "int option list"
  heap :: "(int \<times> int) list"
  locator :: "int list"

text \<open>A cell of the heap is the pair of its \<open>key\<close> and its \<open>val\<close>.\<close>

definition PLUS_GAINSPAN :: int where "PLUS_GAINSPAN = 500"
definition NEG_GAINSPAN :: int where "NEG_GAINSPAN = 500"

definition fresh_nodes :: "ctrl \<Rightarrow> int \<Rightarrow> lnode list" where
  "fresh_nodes c n = map (\<lambda>k. \<lparr>ident = junk c (3 * k), prv = Some (junk c (3 * k + 1)),
     nxt = Some (junk c (3 * k + 2))\<rparr>) [0..<nat n]"

definition fresh_heap :: "ctrl \<Rightarrow> int \<Rightarrow> (int \<times> int) list" where
  "fresh_heap c n = map (\<lambda>k. (junk c (2 * k), junk c (2 * k + 1))) [0..<nat n]"

section \<open>Buckets\<close>

definition bucket_at :: "pqueue \<Rightarrow> int \<Rightarrow> int option option" where
  "bucket_at q gain = aget (buckets q) (gain + ngainspan q)"

definition set_bucket :: "pqueue \<Rightarrow> int \<Rightarrow> int option \<Rightarrow> pqueue option" where
  "set_bucket q gain p = do { bs \<leftarrow> aset (buckets q) (gain + ngainspan q) p; Some (q\<lparr>buckets := bs\<rparr>) }"

text \<open>Writing the field \<open>next\<close> or \<open>prev\<close> of a node, and of the node behind a pointer that may be NULL.\<close>

definition set_next :: "pqueue \<Rightarrow> int \<Rightarrow> int option \<Rightarrow> pqueue option" where
  "set_next q v p = do { n \<leftarrow> aget (nodes q) v; ns \<leftarrow> aset (nodes q) v (n\<lparr>nxt := p\<rparr>); Some (q\<lparr>nodes := ns\<rparr>) }"

definition set_prev :: "pqueue \<Rightarrow> int \<Rightarrow> int option \<Rightarrow> pqueue option" where
  "set_prev q v p = do { n \<leftarrow> aget (nodes q) v; ns \<leftarrow> aset (nodes q) v (n\<lparr>prv := p\<rparr>); Some (q\<lparr>nodes := ns\<rparr>) }"

definition bucket_attach :: "pqueue \<Rightarrow> int \<Rightarrow> int \<Rightarrow> pqueue option" where
  "bucket_attach q node gain = do {
     b \<leftarrow> bucket_at q gain;
     q \<leftarrow> set_next q node b;
     q \<leftarrow> set_prev q node None;
     q \<leftarrow> (case b of Some m \<Rightarrow> set_prev q m (Some node) | None \<Rightarrow> Some q);
     set_bucket q gain (Some node) }"

definition bucket_unlink :: "pqueue \<Rightarrow> int \<Rightarrow> int \<Rightarrow> pqueue option" where
  "bucket_unlink q node gain = do {
     n \<leftarrow> aget (nodes q) node;
     q \<leftarrow> (case prv n of Some p \<Rightarrow> set_next q p (nxt n) | None \<Rightarrow> set_bucket q gain (nxt n));
     n \<leftarrow> aget (nodes q) node;
     (case nxt n of Some m \<Rightarrow> set_prev q m (prv n) | None \<Rightarrow> Some q) }"

text \<open>\<open>for (; buckets[maxgain] == NULL; maxgain--);\<close>\<close>

definition lower_maxgain :: "pqueue \<Rightarrow> pqueue option" where
  "lower_maxgain q =
     (if nnodes q = 0 then Some (q\<lparr>maxgain := - ngainspan q\<rparr>)
      else do {
        m \<leftarrow> while_loop (\<lambda>m. map_option (\<lambda>b. b = None) (bucket_at q m)) (\<lambda>m. Some (m - 1)) (maxgain q);
        Some (q\<lparr>maxgain := m\<rparr>) })"

definition bucket_insert :: "pqueue \<Rightarrow> int \<Rightarrow> int \<Rightarrow> pqueue option" where
  "bucket_insert q node gain = do {
     q \<leftarrow> bucket_attach (q\<lparr>nnodes := nnodes q + 1\<rparr>) node gain;
     Some (if maxgain q < gain then q\<lparr>maxgain := gain\<rparr> else q) }"

definition bucket_delete :: "pqueue \<Rightarrow> int \<Rightarrow> int \<Rightarrow> pqueue option" where
  "bucket_delete q node gain = do {
     q \<leftarrow> bucket_unlink (q\<lparr>nnodes := nnodes q - 1\<rparr>) node gain;
     b \<leftarrow> bucket_at q gain;
     if b = None \<and> gain = maxgain q then lower_maxgain q else Some q }"

definition bucket_update_up :: "pqueue \<Rightarrow> int \<Rightarrow> int \<Rightarrow> int \<Rightarrow> pqueue option" where
  "bucket_update_up q node oldgain newgain = do {
     q \<leftarrow> bucket_unlink q node oldgain;
     q \<leftarrow> bucket_attach q node newgain;
     Some (if maxgain q < newgain then q\<lparr>maxgain := newgain\<rparr> else q) }"

text \<open>Following the NULL pointer of an empty bucket is undefined.\<close>

definition bucket_get_max :: "pqueue \<Rightarrow> (int \<times> pqueue) option" where
  "bucket_get_max q = do {
     q \<leftarrow> Some (q\<lparr>nnodes := nnodes q - 1\<rparr>);
     b \<leftarrow> bucket_at q (maxgain q);
     tptr \<leftarrow> b;
     n \<leftarrow> aget (nodes q) tptr;
     q \<leftarrow> set_bucket q (maxgain q) (nxt n);
     q \<leftarrow> (case nxt n of Some m \<Rightarrow> set_prev q m None | None \<Rightarrow> lower_maxgain q);
     n \<leftarrow> aget (nodes q) tptr;
     Some (ident n, q) }"

section \<open>Heap\<close>

text \<open>The two loops that look for the place of a key: the hole \<open>i\<close> moves towards the root, or
  towards the leaves of a heap of \<open>n\<close> cells.\<close>

function filter_up :: "int \<Rightarrow> int \<Rightarrow> (int \<times> int) list \<Rightarrow> int list \<Rightarrow> (int \<times> (int \<times> int) list \<times> int list) option" where
  "filter_up newgain i hp loc =
     (if i > 0 then do {
        j \<leftarrow> Some ((i - 1) div 2);
        c \<leftarrow> aget hp j;
        if fst c < newgain then do {
          hp \<leftarrow> aset hp i c;
          loc \<leftarrow> aset loc (snd c) i;
          filter_up newgain j hp loc }
        else Some (i, hp, loc) }
      else Some (i, hp, loc))"
  by pat_completeness auto
termination by (relation "measure (\<lambda>(_, i, _, _). nat i)") auto

function filter_down :: "int \<Rightarrow> int \<Rightarrow> int \<Rightarrow> (int \<times> int) list \<Rightarrow> int list \<Rightarrow> (int \<times> (int \<times> int) list \<times> int list) option" where
  "filter_down newgain n i hp loc =
     (if 2 * i + 1 < n then do {
        j \<leftarrow> Some (2 * i + 1);
        c \<leftarrow> aget hp j;
        right \<leftarrow> (if j + 1 < n then map_option fst (aget hp (j + 1)) else Some newgain);
        if fst c > newgain then do {
          j \<leftarrow> Some (if j + 1 < n \<and> right > fst c then j + 1 else j);
          c \<leftarrow> aget hp j;
          hp \<leftarrow> aset hp i c;
          loc \<leftarrow> aset loc (snd c) i;
          filter_down newgain n j hp loc }
        else if j + 1 < n \<and> right > newgain then do {
          c \<leftarrow> aget hp (j + 1);
          hp \<leftarrow> aset hp i c;
          loc \<leftarrow> aset loc (snd c) i;
          filter_down newgain n (j + 1) hp loc }
        else Some (i, hp, loc) }
      else Some (i, hp, loc))"
  by pat_completeness auto
termination
  by (relation "measure (\<lambda>(_, n, i, _, _). nat (n - i))") (auto simp: aget_def split: if_splits)

declare filter_up.simps [simp del] filter_down.simps [simp del]

text \<open>The key and the vertex go into the hole.\<close>

definition heap_put :: "int \<Rightarrow> int \<Rightarrow> int \<times> (int \<times> int) list \<times> int list \<Rightarrow> ((int \<times> int) list \<times> int list) option" where
  "heap_put gain node = (\<lambda>(i, hp, loc). do {
     hp \<leftarrow> aset hp i (gain, node);
     loc \<leftarrow> aset loc node i;
     Some (hp, loc) })"

text \<open>The branches of \<open>PQueueDelete\<close> and \<open>PQueueUpdate\<close>: up when the key grows, down otherwise.\<close>

definition heap_replace :: "int \<Rightarrow> int \<Rightarrow> int \<Rightarrow> int \<Rightarrow> int \<Rightarrow> pqueue \<Rightarrow> pqueue option" where
  "heap_replace oldgain newgain n i node q = do {
     t \<leftarrow> (if oldgain < newgain then filter_up newgain i (heap q) (locator q)
          else filter_down newgain n i (heap q) (locator q));
     (hp, loc) \<leftarrow> heap_put newgain node t;
     Some (q\<lparr>heap := hp, locator := loc\<rparr>) }"

definition heap_insert :: "pqueue \<Rightarrow> int \<Rightarrow> int \<Rightarrow> pqueue option" where
  "heap_insert q node gain = do {
     i \<leftarrow> Some (nnodes q);
     t \<leftarrow> filter_up gain i (heap q) (locator q);
     (hp, loc) \<leftarrow> heap_put gain node t;
     Some (q\<lparr>nnodes := i + 1, heap := hp, locator := loc\<rparr>) }"

definition heap_delete :: "pqueue \<Rightarrow> int \<Rightarrow> pqueue option" where
  "heap_delete q node = do {
     i \<leftarrow> aget (locator q) node;
     loc \<leftarrow> aset (locator q) node (- 1);
     q \<leftarrow> Some (q\<lparr>locator := loc, nnodes := nnodes q - 1\<rparr>);
     if nnodes q > 0 then do {
       c \<leftarrow> aget (heap q) (nnodes q);
       if snd c \<noteq> node then do {
         old \<leftarrow> aget (heap q) i;
         heap_replace (fst old) (fst c) (nnodes q) i (snd c) q }
       else Some q }
     else Some q }"

definition heap_get_max :: "pqueue \<Rightarrow> (int \<times> pqueue) option" where
  "heap_get_max q = do {
     q \<leftarrow> Some (q\<lparr>nnodes := nnodes q - 1\<rparr>);
     c \<leftarrow> aget (heap q) 0;
     vtx \<leftarrow> Some (snd c);
     loc \<leftarrow> aset (locator q) vtx (- 1);
     q \<leftarrow> Some (q\<lparr>locator := loc\<rparr>);
     if nnodes q > 0 then do {
       c \<leftarrow> aget (heap q) (nnodes q);
       t \<leftarrow> filter_down (fst c) (nnodes q) 0 (heap q) (locator q);
       (hp, loc) \<leftarrow> heap_put (fst c) (snd c) t;
       Some (vtx, q\<lparr>heap := hp, locator := loc\<rparr>) }
     else Some (vtx, q) }"

section \<open>The interface\<close>

text \<open>\<open>ln\<close> and \<open>pn\<close> are the sizes of a list node and of a pointer in words of \<open>idxtype\<close>; a
  \<open>KeyValueType\<close> has two.\<close>

definition bucket_space :: "int \<Rightarrow> int \<Rightarrow> ctrl \<Rightarrow> int \<Rightarrow> int \<Rightarrow> pqueue \<Rightarrow> (pqueue \<times> ctrl) option" where
  "bucket_space ln pn c maxn j q =
     (if WspaceAvail c > 2 + ln * maxn + pn * j then do {
        (_, c) \<leftarrow> idxwspacemalloc c (ln * maxn);
        (_, c) \<leftarrow> idxwspacemalloc c (pn * j);
        Some (q\<lparr>mustfree := 0\<rparr>, c) }
      else Some (q\<lparr>mustfree := 1\<rparr>, c))"

definition PQueueInit :: "int \<Rightarrow> int \<Rightarrow> ctrl \<Rightarrow> int \<Rightarrow> int \<Rightarrow> (pqueue \<times> ctrl) option" where
  "PQueueInit ln pn c maxn maxg = do {
     q \<leftarrow> Some \<lparr>ptype = (if maxg > PLUS_GAINSPAN \<or> maxn < 500 then 2 else 1), nnodes = 0, maxnodes = maxn,
       mustfree = junk c 0, pgainspan = junk c 1, ngainspan = junk c 2, maxgain = junk c 3,
       nodes = [], buckets = [], heap = [], locator = []\<rparr>;
     if ptype q = 1 then do {
       q \<leftarrow> Some (q\<lparr>pgainspan := min PLUS_GAINSPAN maxg, ngainspan := min NEG_GAINSPAN maxg\<rparr>);
       j \<leftarrow> Some (ngainspan q + pgainspan q + 1);
       (q, c) \<leftarrow> bucket_space ln pn c maxn j q;
       ns \<leftarrow> for_loop 0 maxn (\<lambda>i ns. do { n \<leftarrow> aget ns i; aset ns i (n\<lparr>ident := i\<rparr>) }) (fresh_nodes c maxn);
       bs \<leftarrow> for_loop 0 j (\<lambda>i bs. aset bs i None) (map Some (fresh c j));
       Some (q\<lparr>nodes := ns, buckets := bs, maxgain := - ngainspan q\<rparr>, c) }
     else do {
       (_, c) \<leftarrow> idxwspacemalloc c (2 * maxn);
       (loc, c) \<leftarrow> idxwspacemalloc c maxn;
       loc \<leftarrow> idxset maxn (- 1) loc;
       Some (q\<lparr>heap := fresh_heap c maxn, locator := loc\<rparr>, c) } }"

definition PQueueReset :: "pqueue \<Rightarrow> pqueue option" where
  "PQueueReset q = do {
     q \<leftarrow> Some (q\<lparr>nnodes := 0\<rparr>);
     if ptype q = 1 then do {
       bs \<leftarrow> for_loop 0 (ngainspan q + pgainspan q + 1) (\<lambda>i bs. aset bs i None) (buckets q);
       Some (q\<lparr>maxgain := - ngainspan q, buckets := bs\<rparr>) }
     else do {
       loc \<leftarrow> idxset (maxnodes q) (- 1) (locator q);
       Some (q\<lparr>locator := loc\<rparr>) } }"

definition PQueueFree :: "int \<Rightarrow> int \<Rightarrow> ctrl \<Rightarrow> pqueue \<Rightarrow> (ctrl \<times> pqueue) option" where
  "PQueueFree ln pn c q = do {
     c \<leftarrow> (if ptype q = 1 then
         if mustfree q \<noteq> 0 then Some c
         else do {
           c \<leftarrow> idxwspacefree c (pn * (ngainspan q + pgainspan q + 1));
           idxwspacefree c (ln * maxnodes q) }
       else do {
         c \<leftarrow> idxwspacefree c (2 * maxnodes q);
         idxwspacefree c (maxnodes q) });
     Some (c, q\<lparr>maxnodes := 0\<rparr>) }"

definition PQueueGetSize :: "pqueue \<Rightarrow> int" where
  "PQueueGetSize q = nnodes q"

definition PQueueInsert :: "pqueue \<Rightarrow> int \<Rightarrow> int \<Rightarrow> pqueue option" where
  "PQueueInsert q node gain = (if ptype q = 1 then bucket_insert q node gain else heap_insert q node gain)"

definition PQueueDelete :: "pqueue \<Rightarrow> int \<Rightarrow> int \<Rightarrow> pqueue option" where
  "PQueueDelete q node gain = (if ptype q = 1 then bucket_delete q node gain else heap_delete q node)"

definition PQueueUpdate :: "pqueue \<Rightarrow> int \<Rightarrow> int \<Rightarrow> int \<Rightarrow> pqueue option" where
  "PQueueUpdate q node oldgain newgain =
     (if oldgain = newgain then Some q
      else if ptype q = 1 then do { q \<leftarrow> PQueueDelete q node oldgain; PQueueInsert q node newgain }
      else do {
        i \<leftarrow> aget (locator q) node;
        heap_replace oldgain newgain (nnodes q) i node q })"

definition PQueueUpdateUp :: "pqueue \<Rightarrow> int \<Rightarrow> int \<Rightarrow> int \<Rightarrow> pqueue option" where
  "PQueueUpdateUp q node oldgain newgain =
     (if oldgain = newgain then Some q
      else if ptype q = 1 then bucket_update_up q node oldgain newgain
      else do {
        i \<leftarrow> aget (locator q) node;
        t \<leftarrow> filter_up newgain i (heap q) (locator q);
        (hp, loc) \<leftarrow> heap_put newgain node t;
        Some (q\<lparr>heap := hp, locator := loc\<rparr>) })"

definition PQueueGetMax :: "pqueue \<Rightarrow> (int \<times> pqueue) option" where
  "PQueueGetMax q =
     (if nnodes q = 0 then Some (- 1, q)
      else if ptype q = 1 then bucket_get_max q else heap_get_max q)"

definition PQueueSeeMax :: "pqueue \<Rightarrow> int option" where
  "PQueueSeeMax q =
     (if nnodes q = 0 then Some (- 1)
      else if ptype q = 1 then do {
        b \<leftarrow> bucket_at q (maxgain q); v \<leftarrow> b; n \<leftarrow> aget (nodes q) v; Some (ident n) }
      else do { c \<leftarrow> aget (heap q) 0; Some (snd c) })"

definition PQueueGetKey :: "pqueue \<Rightarrow> int option" where
  "PQueueGetKey q =
     (if nnodes q = 0 then Some (- 1)
      else if ptype q = 1 then Some (maxgain q)
      else do { c \<leftarrow> aget (heap q) 0; Some (fst c) })"

text \<open>The consistency check of the debugging build: \<open>False\<close> for a failed assertion.\<close>

definition CheckHeap :: "pqueue \<Rightarrow> bool option" where
  "CheckHeap q =
     (if nnodes q = 0 then Some True
      else do {
        c \<leftarrow> aget (heap q) 0;
        l \<leftarrow> aget (locator q) (snd c);
        ok \<leftarrow> for_loop 1 (nnodes q) (\<lambda>i ok. do {
          c \<leftarrow> aget (heap q) i; l \<leftarrow> aget (locator q) (snd c); p \<leftarrow> aget (heap q) ((i - 1) div 2);
          Some (ok \<and> l = i \<and> fst c \<le> fst p) }) (l = 0);
        ok \<leftarrow> for_loop 1 (nnodes q) (\<lambda>i ok. do {
          d \<leftarrow> aget (heap q) i; Some (ok \<and> fst d \<le> fst c) }) ok;
        j \<leftarrow> for_loop 0 (maxnodes q) (\<lambda>i j. do {
          l \<leftarrow> aget (locator q) i; Some (if l \<noteq> - 1 then j + 1 else j) }) 0;
        Some (ok \<and> j = nnodes q) })"

end
