(* ===== verification/Mt_Heap_Props.thy ===== *)
theory Mt_Heap_Props
  imports Mt_Pqueue
begin

text \<open>
  The heap representation of the queue holds a partial map from vertices to gains, in an order
  where no cell is larger than its parent. The loops of \<open>pqueue.c\<close> keep a hole, which a pending
  vertex will fill: their invariants speak of the heap with that vertex already in the hole.
\<close>

section \<open>Representation\<close>

definition hrep :: "int \<Rightarrow> int \<Rightarrow> (int \<times> int) list \<Rightarrow> int list \<Rightarrow> (int \<Rightarrow> int option) \<Rightarrow> bool" where
  "hrep n m H L M \<longleftrightarrow> 0 \<le> n \<and> n \<le> m \<and> ilen H = m \<and> ilen L = m
    \<and> (\<forall>i. 0 \<le> i \<and> i < n \<longrightarrow> 0 \<le> snd (at H i) \<and> snd (at H i) < m \<and> at L (snd (at H i)) = i)
    \<and> (\<forall>v. 0 \<le> v \<and> v < m \<longrightarrow> at L v = - 1 \<and> M v = None
         \<or> 0 \<le> at L v \<and> at L v < n \<and> snd (at H (at L v)) = v \<and> M v = Some (fst (at H (at L v))))
    \<and> (\<forall>v. v < 0 \<or> m \<le> v \<longrightarrow> M v = None)"

abbreviation par :: "int \<Rightarrow> int" where
  "par i \<equiv> (i - 1) div 2"

definition ordered_but :: "int \<Rightarrow> (int \<times> int) list \<Rightarrow> int set \<Rightarrow> bool" where
  "ordered_but n H X \<longleftrightarrow> (\<forall>k. 0 < k \<and> k < n \<and> k \<notin> X \<longrightarrow> fst (at H k) \<le> fst (at H (par k)))"

text \<open>The order that holds but above a cell, or but below it; the neighbours on both sides are in order.\<close>

definition bridge :: "int \<Rightarrow> (int \<times> int) list \<Rightarrow> int \<Rightarrow> bool" where
  "bridge n H i \<longleftrightarrow> (0 < i \<longrightarrow> (\<forall>k. 0 < k \<and> k < n \<and> par k = i \<longrightarrow> fst (at H k) \<le> fst (at H (par i))))"

lemma hrepD:
  assumes "hrep n m H L M"
  shows "0 \<le> n" "n \<le> m" "ilen H = m" "ilen L = m"
    "0 \<le> i \<Longrightarrow> i < n \<Longrightarrow> 0 \<le> snd (at H i)" "0 \<le> i \<Longrightarrow> i < n \<Longrightarrow> snd (at H i) < m"
    "0 \<le> i \<Longrightarrow> i < n \<Longrightarrow> at L (snd (at H i)) = i"
    "0 \<le> i \<Longrightarrow> i < n \<Longrightarrow> M (snd (at H i)) = Some (fst (at H i))"
proof -
  note h = assms [unfolded hrep_def]
  show "0 \<le> n" "n \<le> m" "ilen H = m" "ilen L = m" using h by blast+
  show c: "0 \<le> snd (at H i)" "snd (at H i) < m" "at L (snd (at H i)) = i" if "0 \<le> i" "i < n"
    using h that by blast+
  show "M (snd (at H i)) = Some (fst (at H i))" if i: "0 \<le> i" "i < n"
  proof -
    have "at L (snd (at H i)) \<noteq> - 1" using c(3) [OF i] i by simp
    then show ?thesis using h c [OF i] by auto
  qed
qed

lemma hrep_cell:
  assumes "hrep n m H L M" "M v = Some k"
  shows "0 \<le> v" "v < m" "0 \<le> at L v" "at L v < n" "at H (at L v) = (k, v)"
proof -
  show v: "0 \<le> v" "v < m" using assms unfolding hrep_def by (metis not_le option.distinct(1))+
  with assms show "0 \<le> at L v" "at L v < n" "at H (at L v) = (k, v)"
    unfolding hrep_def by (metis option.distinct(1), metis option.distinct(1), metis option.distinct(1) option.inject prod.collapse)
qed

lemma par_less: "0 < i \<Longrightarrow> 0 \<le> par i \<and> par i < i"
  by auto

text \<open>Exchanging the hole with another cell.\<close>

lemma hrep_move:
  assumes h: "hrep n m (upd H i (g, v)) (upd L v i) M" and i: "0 \<le> i" "i < n" and j: "0 \<le> j" "j < n" "j \<noteq> i"
    and v: "0 \<le> v" "v < m" and c: "c = at H j"
  shows "hrep n m (upd (upd H i c) j (g, v)) (upd (upd L (snd c) i) v j) M"
    "0 \<le> snd c" "snd c < m" "ilen H = m" "ilen L = m"
proof -
  note d = hrepD [OF h]
  show len: "ilen H = m" "ilen L = m" using d(3,4) by simp_all
  have ij: "i < ilen H" "j < ilen H" using i j d(2) len by auto
  have cj: "at (upd H i (g, v)) j = c" using i j ij c by simp
  show c1: "0 \<le> snd c" "snd c < m" using d(5,6) [of j] j cj by simp_all
  have lc: "at (upd L v i) (snd c) = j" using d(7) [of j] j cj by simp
  then have cv: "snd c \<noteq> v" using j v len by auto
  let ?H = "upd (upd H i c) j (g, v)" and ?L = "upd (upd L (snd c) i) v j"
  have H: "at ?H k = (if k = j then (g, v) else if k = i then c else at H k)" if "0 \<le> k" for k
    using that i j ij by simp
  have L: "at ?L w = (if w = v then j else if w = snd c then i else at L w)" if "0 \<le> w" for w
    using that v c1 len by simp
  have H0: "at (upd H i (g, v)) k = (if k = i then (g, v) else at H k)" if "0 \<le> k" for k
    using that i ij by simp
  have L0: "at (upd L v i) w = (if w = v then i else at L w)" if "0 \<le> w" for w
    using that v len by simp
  have "0 \<le> snd (at ?H k) \<and> snd (at ?H k) < m \<and> at ?L (snd (at ?H k)) = k" if k: "0 \<le> k" "k < n" for k
  proof -
    consider "k = j" | "k = i" | "k \<noteq> j" "k \<noteq> i" by blast
    then show ?thesis
    proof cases
      case 1 then show ?thesis using H [OF k(1)] L [of v] v by simp
    next
      case 2 then show ?thesis using H [OF k(1)] L [of "snd c"] c1 j(3) cv by simp
    next
      case 3
      then have e: "at ?H k = at H k" "at (upd H i (g, v)) k = at H k" using H H0 k by simp_all
      have w: "0 \<le> snd (at H k)" "snd (at H k) < m" "at (upd L v i) (snd (at H k)) = k"
        using d(5,6,7) [OF k] e by simp_all
      have "snd (at H k) \<noteq> v" using w(3) L0 v 3 by auto
      moreover have "snd (at H k) \<noteq> snd c" using w(3) lc 3 by auto
      ultimately show ?thesis using e(1) w L L0 by simp
    qed
  qed
  moreover have "at ?L w = - 1 \<and> M w = None
      \<or> 0 \<le> at ?L w \<and> at ?L w < n \<and> snd (at ?H (at ?L w)) = w \<and> M w = Some (fst (at ?H (at ?L w)))"
    if w: "0 \<le> w" "w < m" for w
  proof -
    have o: "at (upd L v i) w = - 1 \<and> M w = None
      \<or> 0 \<le> at (upd L v i) w \<and> at (upd L v i) w < n \<and> snd (at (upd H i (g, v)) (at (upd L v i) w)) = w
         \<and> M w = Some (fst (at (upd H i (g, v)) (at (upd L v i) w)))"
      using h w unfolding hrep_def by blast
    consider "w = v" | "w = snd c" "w \<noteq> v" | "w \<noteq> v" "w \<noteq> snd c" by blast
    then show ?thesis
    proof cases
      case 1
      then have "M v = Some g" using o L0 [of v] H0 [of i] i v by simp
      then show ?thesis using 1 H [of j] L [of v] j v by simp
    next
      case 2
      then have "M w = Some (fst c)" using o lc cj j by simp
      then show ?thesis using 2 H [of i] L [of w] i j w by simp
    next
      case 3
      then have l: "at ?L w = at L w" "at (upd L v i) w = at L w" using L L0 w by simp_all
      show ?thesis
      proof (cases "at L w = - 1")
        case False
        then have q: "0 \<le> at L w" "at L w < n" "snd (at (upd H i (g, v)) (at L w)) = w" using o l by auto
        have "at L w \<noteq> i" using q(3) H0 [of i] i 3 by auto
        moreover have "at L w \<noteq> j" using q(3) cj 3 by auto
        ultimately show ?thesis using o l False q H H0 by auto
      qed (use o l in auto)
    qed
  qed
  moreover have "\<forall>v. v < 0 \<or> m \<le> v \<longrightarrow> M v = None" using h unfolding hrep_def by blast
  ultimately show "hrep n m ?H ?L M" using d(1,2) len unfolding hrep_def by auto
qed

section \<open>The loops\<close>

lemma filter_up_ok:
  assumes "hrep n m (upd H i (g, v)) (upd L v i) M" "0 \<le> i" "i < n" "0 \<le> v" "v < m"
    "ordered_but n (upd H i (g, v)) {i}" "bridge n (upd H i (g, v)) i"
  shows "\<exists>i' H' L'. filter_up g i H L = Some (i', H', L') \<and> 0 \<le> i' \<and> i' < n
    \<and> hrep n m (upd H' i' (g, v)) (upd L' v i') M \<and> ordered_but n (upd H' i' (g, v)) {}"
  using assms
proof (induction "nat i" arbitrary: i H L rule: less_induct)
  case less
  note h = less.prems(1) and i = less.prems(2,3) and v = less.prems(4,5)
  have len: "ilen H = m" "ilen L = m" "n \<le> m" using hrepD(2-4) [OF h] by simp_all
  show ?case
  proof (cases "0 < i")
    case False
    then have "i = 0" using i by simp
    moreover have "ordered_but n (upd H 0 (g, v)) {}"
      using less.prems(6) \<open>i = 0\<close> by (auto simp: ordered_but_def)
    ultimately show ?thesis using less.prems by (subst filter_up.simps) auto
  next
    case True
    then have p: "0 \<le> par i" "par i < i" using par_less by blast+
    obtain k u where c: "at H (par i) = (k, u)" by fastforce
    have get: "aget H (par i) = Some (k, u)" using p i len c by (simp add: arr)
    show ?thesis
    proof (cases "k < g")
      case False
      have "ordered_but n (upd H i (g, v)) {}"
        using less.prems(6) False c p i len
        by (auto simp: ordered_but_def)
      moreover have "filter_up g i H L = Some (i, H, L)"
        using True False get by (subst filter_up.simps) simp
      ultimately show ?thesis using less.prems by auto
    next
      case lt: True
      let ?j = "par i" and ?H = "upd H i (k, u)" and ?L = "upd L u i"
      have mv: "hrep n m (upd ?H ?j (g, v)) (upd ?L v ?j) M" "0 \<le> u" "u < m"
        using hrep_move [OF h i _ _ _ v, of ?j "(k, u)"] p i c by auto
      have at0: "at (upd H i (g, v)) x = (if x = i then (g, v) else at H x)" if "0 \<le> x" for x
        using that i len by simp
      have at1: "at (upd ?H ?j (g, v)) x = (if x = ?j then (g, v) else if x = i then (k, u) else at H x)" if "0 \<le> x" for x
        using that i p len by simp
      have ord: "fst (at H x) \<le> fst (at (upd H i (g, v)) (par x))" if "0 < x" "x < n" "x \<noteq> i" for x
        using less.prems(6) at0 [of x] that by (auto simp: ordered_but_def)
      have br: "fst (at H x) \<le> k" if "0 < x" "x < n" "par x = i" for x
      proof -
        have "fst (at (upd H i (g, v)) x) \<le> fst (at (upd H i (g, v)) ?j)"
          using less.prems(7) True that unfolding bridge_def by blast
        moreover have "x \<noteq> i" using par_less [of x] that by auto
        ultimately show ?thesis unfolding at0 [OF p(1)] at0 [OF less_imp_le [OF that(1)]] using p c by simp
      qed
      have "ordered_but n (upd ?H ?j (g, v)) {?j}"
        unfolding ordered_but_def
      proof (intro allI impI, elim conjE)
        fix x assume x: "0 < x" "x < n" "x \<notin> {?j}"
        note px = par_less [OF x(1)]
        show "fst (at (upd ?H ?j (g, v)) x) \<le> fst (at (upd ?H ?j (g, v)) (par x))"
        proof (cases "x = i")
          case True
          then show ?thesis using at1 [of x] at1 [of ?j] x p lt by simp
        next
          case False
          then have "at (upd ?H ?j (g, v)) x = at H x" using at1 [of x] x by simp
          moreover have "fst (at H x) \<le> fst (at (upd ?H ?j (g, v)) (par x))"
            using ord [OF x(1,2) False] br [OF x(1,2)] at0 [of "par x"] at1 [of "par x"] px c lt p by (auto split: if_splits)
          ultimately show ?thesis by simp
        qed
      qed
      moreover have "bridge n (upd ?H ?j (g, v)) ?j"
        unfolding bridge_def
      proof (intro impI allI, elim conjE)
        fix x assume j: "0 < ?j" and x: "0 < x" "x < n" "par x = ?j"
        have pj: "0 \<le> par ?j" "par ?j < ?j" using par_less [OF j] by blast+
        have "?j < n" "?j \<noteq> i" "par ?j \<noteq> i" "par ?j \<noteq> ?j" using p i pj by linarith+
        then have kj: "k \<le> fst (at H (par ?j))"
          using ord [OF j] at0 [OF pj(1)] c by simp
        have xk: "fst (at H x) \<le> k" if "x \<noteq> i" using ord [OF x(1,2) that] at0 [of ?j] x(3) p c by simp
        have "x \<noteq> ?j" using par_less [OF x(1)] x(3) by linarith
        then have "fst (at (upd ?H ?j (g, v)) x) \<le> k" using at1 [of x] x(1) xk by simp
        moreover have "at (upd ?H ?j (g, v)) (par ?j) = at H (par ?j)"
          using at1 [OF pj(1)] \<open>par ?j \<noteq> i\<close> \<open>par ?j \<noteq> ?j\<close> by simp
        ultimately show "fst (at (upd ?H ?j (g, v)) x) \<le> fst (at (upd ?H ?j (g, v)) (par ?j))"
          using kj by simp
      qed
      moreover have "nat ?j < nat i" "?j < n" using p i by linarith+
      ultimately have "\<exists>i' H' L'. filter_up g ?j ?H ?L = Some (i', H', L') \<and> 0 \<le> i' \<and> i' < n
          \<and> hrep n m (upd H' i' (g, v)) (upd L' v i') M \<and> ordered_but n (upd H' i' (g, v)) {}"
        using less.hyps [OF _ mv(1) p(1) _ v] by blast
      moreover have "filter_up g i H L = filter_up g ?j ?H ?L"
        using True get lt mv i len by (subst filter_up.simps) (simp add: arr)
      ultimately show ?thesis by simp
    qed
  qed
qed

text \<open>One step towards the leaves: the largest child moves into the hole.\<close>

lemma down_step:
  assumes h: "hrep n m (upd H i (g, v)) (upd L v i) M" and i: "0 \<le> i" "i < n" and v: "0 \<le> v" "v < m"
    and ord: "ordered_but n (upd H i (g, v)) {k. par k = i}" and br: "bridge n (upd H i (g, v)) i"
    and j: "j < n" "par j = i" "0 < j" and c: "c = at H j" "g < fst c"
    and sib: "\<forall>x. 0 < x \<and> x < n \<and> par x = i \<longrightarrow> fst (at H x) \<le> fst c"
  shows "hrep n m (upd (upd H i c) j (g, v)) (upd (upd L (snd c) i) v j) M"
    "ordered_but n (upd (upd H i c) j (g, v)) {k. par k = j}" "bridge n (upd (upd H i c) j (g, v)) j"
    "0 \<le> snd c" "snd c < m"
proof -
  have len: "ilen H = m" "ilen L = m" "n \<le> m" using hrepD(2-4) [OF h] by simp_all
  have ij: "i < j" using par_less [OF j(3)] j by simp
  show "hrep n m (upd (upd H i c) j (g, v)) (upd (upd L (snd c) i) v j) M" "0 \<le> snd c" "snd c < m"
    using hrep_move [OF h i _ j(1) _ v c(1)] j(3) ij by auto
  let ?H = "upd (upd H i c) j (g, v)"
  have at0: "at (upd H i (g, v)) x = (if x = i then (g, v) else at H x)" if "0 \<le> x" for x
    using that i len by simp
  have at1: "at ?H x = (if x = j then (g, v) else if x = i then c else at H x)" if "0 \<le> x" for x
    using that i j len by simp
  have old: "fst (at (upd H i (g, v)) x) \<le> fst (at (upd H i (g, v)) (par x))" if "0 < x" "x < n" "par x \<noteq> i" for x
    using ord that unfolding ordered_but_def by blast
  show "ordered_but n ?H {k. par k = j}"
    unfolding ordered_but_def
  proof (intro allI impI, elim conjE)
    fix x assume x: "0 < x" "x < n" "x \<notin> {k. par k = j}"
    then have px: "0 \<le> par x" "par x < x" "par x \<noteq> j" using par_less by auto
    consider "x = j" | "x = i" | "par x = i" "x \<noteq> j" | "x \<noteq> i" "x \<noteq> j" "par x \<noteq> i" by blast
    then show "fst (at ?H x) \<le> fst (at ?H (par x))"
    proof cases
      case 1 then show ?thesis using at1 [of x] at1 [of "par x"] j c px x ij by simp
    next
      case 2
      have "fst (at (upd H i (g, v)) j) \<le> fst (at (upd H i (g, v)) (par i))"
        using br 2 x j unfolding bridge_def by blast
      then show ?thesis using at0 [of j] at0 [of "par x"] at1 [of x] at1 [of "par x"] 2 c px x ij j by simp
    next
      case 3
      then have "fst (at H x) \<le> fst c" using sib x by simp
      then show ?thesis using at1 [of x] at1 [of "par x"] 3 px x ij by simp
    next
      case 4
      then show ?thesis using old [OF x(1,2)] at0 [of x] at0 [of "par x"] at1 [of x] at1 [of "par x"] px x by simp
    qed
  qed
  show "bridge n ?H j"
    unfolding bridge_def
  proof (intro impI allI, elim conjE)
    fix x assume x: "0 < x" "x < n" "par x = j"
    then have "x \<noteq> i" "x \<noteq> j" using par_less [of x] ij by auto
    then show "fst (at ?H x) \<le> fst (at ?H (par j))"
      using old [OF x(1,2)] at0 [of x] at0 [of j] at1 [of x] at1 [of "par j"] x j c ij i by simp
  qed
qed

lemma children: "0 < x \<Longrightarrow> par x = i \<longleftrightarrow> x = 2 * i + 1 \<or> x = 2 * i + (2 :: int)"
  by auto

lemma filter_down_step:
  assumes "l = 2 * i + 1" "r = l + 1"
  shows "filter_down g n i hp loc =
     (if l < n then do {
        c \<leftarrow> aget hp l;
        right \<leftarrow> (if r < n then map_option fst (aget hp r) else Some g);
        if fst c > g then do {
          j \<leftarrow> Some (if r < n \<and> right > fst c then r else l);
          c \<leftarrow> aget hp j; hp \<leftarrow> aset hp i c; loc \<leftarrow> aset loc (snd c) i; filter_down g n j hp loc }
        else if r < n \<and> right > g then do {
          c \<leftarrow> aget hp r; hp \<leftarrow> aset hp i c; loc \<leftarrow> aset loc (snd c) i; filter_down g n r hp loc }
        else Some (i, hp, loc) }
      else Some (i, hp, loc))"
  unfolding assms by (subst filter_down.simps) (simp only: Option.bind.bind_lunit)

lemmas unfold_step = if_True if_False simp_thms Option.bind.bind_lunit option.map

lemma filter_down_ok:
  assumes "hrep n m (upd H i (g, v)) (upd L v i) M" "0 \<le> i" "i < n" "0 \<le> v" "v < m"
    "ordered_but n (upd H i (g, v)) {k. par k = i}" "bridge n (upd H i (g, v)) i"
  shows "\<exists>i' H' L'. filter_down g n i H L = Some (i', H', L') \<and> 0 \<le> i' \<and> i' < n
    \<and> hrep n m (upd H' i' (g, v)) (upd L' v i') M \<and> ordered_but n (upd H' i' (g, v)) {}"
  using assms
proof (induction "nat (n - i)" arbitrary: i H L rule: less_induct)
  case less
  note h = less.prems(1) and i = less.prems(2,3) and v = less.prems(4,5)
  have len: "ilen H = m" "ilen L = m" "n \<le> m" using hrepD(2-4) [OF h] by simp_all
  have at0: "at (upd H i (g, v)) x = (if x = i then (g, v) else at H x)" if "0 \<le> x" for x
    using that i len by simp
  have stop: "ordered_but n (upd H i (g, v)) {}"
    if "\<And>x. 0 < x \<Longrightarrow> x < n \<Longrightarrow> par x = i \<Longrightarrow> fst (at H x) \<le> g"
    unfolding ordered_but_def
  proof (intro allI impI, elim conjE)
    fix x assume x: "0 < x" "x < n" "x \<notin> {}"
    show "fst (at (upd H i (g, v)) x) \<le> fst (at (upd H i (g, v)) (par x))"
    proof (cases "par x = i")
      case True
      have "x \<noteq> i" using par_less [OF x(1)] True by linarith
      then have "at (upd H i (g, v)) x = at H x" "at (upd H i (g, v)) i = (g, v)" using at0 x(1) i by simp_all
      moreover have "fst (at H x) \<le> g" using that [OF x(1,2) True] .
      ultimately show ?thesis unfolding True by simp
    next
      case False
      then show ?thesis using less.prems(6) x unfolding ordered_but_def by blast
    qed
  qed
  have go: "\<exists>i' H' L'. filter_down g n j (upd H i c) (upd L (snd c) i) = Some (i', H', L') \<and> 0 \<le> i' \<and> i' < n
      \<and> hrep n m (upd H' i' (g, v)) (upd L' v i') M \<and> ordered_but n (upd H' i' (g, v)) {}"
    "aset H i c = Some (upd H i c)" "aset L (snd c) i = Some (upd L (snd c) i)"
    if j: "j < n" "par j = i" "0 < j" "c = at H j" "g < fst c"
      "\<forall>x. 0 < x \<and> x < n \<and> par x = i \<longrightarrow> fst (at H x) \<le> fst c" for j c
  proof -
    note st = down_step [OF h i v less.prems(6,7) j]
    show "aset H i c = Some (upd H i c)" by (rule aset_upd) (use len i in linarith)+
    show "aset L (snd c) i = Some (upd L (snd c) i)" by (rule aset_upd) (use st(4,5) len in linarith)+
    have "nat (n - j) < nat (n - i)" "0 \<le> j" using j(1,2,3) i par_less [of j] by linarith+
    from less.hyps [OF this(1) st(1) this(2) j(1) v st(2,3)]
    show "\<exists>i' H' L'. filter_down g n j (upd H i c) (upd L (snd c) i) = Some (i', H', L') \<and> 0 \<le> i' \<and> i' < n
      \<and> hrep n m (upd H' i' (g, v)) (upd L' v i') M \<and> ordered_but n (upd H' i' (g, v)) {}" .
  qed
  obtain l r where lr: "l = 2 * i + 1" "r = l + 1" by blast
  note unf = filter_down_step [OF lr, of g n H L]
  have ch: "x = l \<or> x = r" if "0 < x" "par x = i" for x
    using children [OF that(1), of i] that(2) lr by (simp only: simp_thms) linarith
  have stop': "ordered_but n (upd H i (g, v)) {}"
    if "l < n \<Longrightarrow> fst (at H l) \<le> g" "r < n \<Longrightarrow> fst (at H (r)) \<le> g"
  proof (rule stop)
    fix x assume x: "0 < x" "x < n" "par x = i"
    show "fst (at H x) \<le> g" using ch [OF x(1,3)] that x(2) by blast
  qed
  show ?case
  proof (cases "l < n")
    case False
    have "filter_down g n i H L = Some (i, H, L)" by (simp only: unf unfold_step False)
    moreover have "ordered_but n (upd H i (g, v)) {}" by (rule stop') (use False lr in auto)
    ultimately show ?thesis using less.prems by auto
  next
    case True
    then have l: "aget H l = Some (at H l)" "par l = i" "0 < l" using i len lr by (simp_all add: arr)
    show ?thesis
    proof (cases "r < n")
      case False
      show ?thesis
      proof (cases "fst (at H l) > g")
        case t: True
        have "\<forall>x. 0 < x \<and> x < n \<and> par x = i \<longrightarrow> fst (at H x) \<le> fst (at H l)"
          using ch False by blast
        note st = go [OF True l(2,3) refl t this]
        have "filter_down g n i H L = filter_down g n l (upd H i (at H l)) (upd L (snd (at H l)) i)"
          by (simp only: unf unfold_step True False l(1) t st(2,3))
        with st(1) show ?thesis by simp
      next
        case f: False
        have "filter_down g n i H L = Some (i, H, L)"
          by (simp only: unf unfold_step True False l(1) f)
        moreover have "ordered_but n (upd H i (g, v)) {}"
          by (rule stop') (use False f in auto)
        ultimately show ?thesis using less.prems by auto
      qed
    next
      case r: True
      then have r1: "aget H (r) = Some (at H (r))" "par (r) = i" "0 < r"
        using i len lr by (simp_all add: arr)
      consider "fst (at H l) > g" "fst (at H (r)) > fst (at H l)"
        | "fst (at H l) > g" "\<not> fst (at H (r)) > fst (at H l)"
        | "\<not> fst (at H l) > g" "fst (at H (r)) > g"
        | "\<not> fst (at H l) > g" "\<not> fst (at H (r)) > g" by blast
      then show ?thesis
      proof cases
        case 1
        then have "\<forall>x. 0 < x \<and> x < n \<and> par x = i \<longrightarrow> fst (at H x) \<le> fst (at H r)"
          using ch by fastforce
        moreover have "g < fst (at H (r))" using 1 by simp
        ultimately have st: "\<exists>i' H' L'. filter_down g n (r) (upd H i (at H (r))) (upd L (snd (at H (r))) i)
              = Some (i', H', L') \<and> 0 \<le> i' \<and> i' < n
            \<and> hrep n m (upd H' i' (g, v)) (upd L' v i') M \<and> ordered_but n (upd H' i' (g, v)) {}"
          "aset H i (at H (r)) = Some (upd H i (at H (r)))"
          "aset L (snd (at H (r))) i = Some (upd L (snd (at H (r))) i)"
          using go [OF r r1(2,3) refl] by blast+
        have "filter_down g n i H L = filter_down g n (r) (upd H i (at H (r))) (upd L (snd (at H (r))) i)"
          by (simp only: unf unfold_step True r l(1) r1(1) 1 st(2,3))
        with st(1) show ?thesis by simp
      next
        case 2
        then have "\<forall>x. 0 < x \<and> x < n \<and> par x = i \<longrightarrow> fst (at H x) \<le> fst (at H l)"
          using ch by fastforce
        note st = go [OF True l(2,3) refl 2(1) this]
        have "filter_down g n i H L = filter_down g n l (upd H i (at H l)) (upd L (snd (at H l)) i)"
          by (simp only: unf unfold_step True r l(1) r1(1) 2 st(2,3))
        with st(1) show ?thesis by simp
      next
        case 3
        then have "\<forall>x. 0 < x \<and> x < n \<and> par x = i \<longrightarrow> fst (at H x) \<le> fst (at H r)"
          using ch by fastforce
        note st = go [OF r r1(2,3) refl 3(2) this]
        have "filter_down g n i H L = filter_down g n (r) (upd H i (at H (r))) (upd L (snd (at H (r))) i)"
          by (simp only: unf unfold_step True r l(1) r1(1) 3 st(2,3))
        with st(1) show ?thesis by simp
      next
        case 4
        have "filter_down g n i H L = Some (i, H, L)"
          by (simp only: unf unfold_step True r l(1) r1(1) 4)
        moreover have "ordered_but n (upd H i (g, v)) {}"
          by (rule stop') (use 4 in auto)
        ultimately show ?thesis using less.prems by auto
      qed
    qed
  qed
qed

section \<open>Placing, adding and removing a vertex\<close>

text \<open>Another key for the cell \<open>i\<close> of an ordered heap: what the two loops start from.\<close>

lemma replace_order:
  assumes o: "ordered_but n H {}" and i: "0 \<le> i" "i < n" "n \<le> ilen H"
  shows "fst (at H i) \<le> g \<Longrightarrow> ordered_but n (upd H i (g, w)) {i}"
    "g \<le> fst (at H i) \<Longrightarrow> ordered_but n (upd H i (g, w)) {k. par k = i}"
    "bridge n (upd H i (g, w)) i"
proof -
  have at0: "at (upd H i (g, w)) x = (if x = i then (g, w) else at H x)" if "0 \<le> x" for x
    using that i by simp
  have o': "fst (at H k) \<le> fst (at H (par k))" if "0 < k" "k < n" for k
    using o that by (simp add: ordered_but_def)
  show "ordered_but n (upd H i (g, w)) {i}" if g: "fst (at H i) \<le> g"
    unfolding ordered_but_def
  proof (intro allI impI, elim conjE)
    fix k assume k: "0 < k" "k < n" "k \<notin> {i}"
    then show "fst (at (upd H i (g, w)) k) \<le> fst (at (upd H i (g, w)) (par k))"
      using o' [OF k(1,2)] g at0 [of k] at0 [of "par k"] par_less [OF k(1)] by auto
  qed
  show "ordered_but n (upd H i (g, w)) {k. par k = i}" if g: "g \<le> fst (at H i)"
    unfolding ordered_but_def
  proof (intro allI impI, elim conjE)
    fix k assume k: "0 < k" "k < n" "k \<notin> {k. par k = i}"
    then show "fst (at (upd H i (g, w)) k) \<le> fst (at (upd H i (g, w)) (par k))"
      using o' [OF k(1,2)] g at0 [of k] at0 [of "par k"] par_less [OF k(1)] by (cases "k = i") auto
  qed
  show "bridge n (upd H i (g, w)) i"
    unfolding bridge_def
  proof (intro impI allI, elim conjE)
    fix k assume i0: "0 < i" and k: "0 < k" "k < n" "par k = i"
    have "k \<noteq> i" using par_less [OF k(1)] k(3) by linarith
    moreover have "par i \<noteq> i" "0 \<le> par i" using par_less [OF i0] by linarith+
    ultimately show "fst (at (upd H i (g, w)) k) \<le> fst (at (upd H i (g, w)) (par i))"
      using o' [OF k(1,2)] o' [OF i0 i(2)] at0 [of k] at0 [of "par i"] k by simp
  qed
qed

lemma heap_put_ok:
  assumes "hrep n m (upd H i (g, w)) (upd L w i) M" "0 \<le> i" "i < n" "0 \<le> w" "w < m"
  shows "heap_put g w (i, H, L) = Some (upd H i (g, w), upd L w i)"
  using assms hrepD(2-4) [OF assms(1)] by (simp add: heap_put_def arr)

lemma replace_ok:
  assumes h: "hrep n m (upd (heap q) i (g, w)) (upd (locator q) w i) M" and o: "ordered_but n (heap q) {}"
    and i: "0 \<le> i" "i < n" and w: "0 \<le> w" "w < m"
  shows "\<exists>H' L'. heap_replace (fst (at (heap q) i)) g n i w q = Some (q\<lparr>heap := H', locator := L'\<rparr>)
    \<and> hrep n m H' L' M \<and> ordered_but n H' {}"
    and "fst (at (heap q) i) \<le> g \<Longrightarrow> \<exists>H' L'. (do { t \<leftarrow> filter_up g i (heap q) (locator q);
        (hp, loc) \<leftarrow> heap_put g w t; Some (q\<lparr>heap := hp, locator := loc\<rparr>) }) = Some (q\<lparr>heap := H', locator := L'\<rparr>)
    \<and> hrep n m H' L' M \<and> ordered_but n H' {}"
    and "g \<le> fst (at (heap q) i) \<Longrightarrow> \<exists>H' L'. (do { t \<leftarrow> filter_down g n i (heap q) (locator q);
        (hp, loc) \<leftarrow> heap_put g w t; Some (q\<lparr>heap := hp, locator := loc\<rparr>) }) = Some (q\<lparr>heap := H', locator := L'\<rparr>)
    \<and> hrep n m H' L' M \<and> ordered_but n H' {}"
proof -
  have len: "n \<le> ilen (heap q)" using hrepD(2,3) [OF h] by simp
  note r = replace_order [OF o i len, of g w]
  show up: "\<exists>H' L'. (do { t \<leftarrow> filter_up g i (heap q) (locator q);
        (hp, loc) \<leftarrow> heap_put g w t; Some (q\<lparr>heap := hp, locator := loc\<rparr>) }) = Some (q\<lparr>heap := H', locator := L'\<rparr>)
    \<and> hrep n m H' L' M \<and> ordered_but n H' {}" if g: "fst (at (heap q) i) \<le> g"
  proof -
    obtain i' H' L' where f: "filter_up g i (heap q) (locator q) = Some (i', H', L')" "0 \<le> i'" "i' < n"
      "hrep n m (upd H' i' (g, w)) (upd L' w i') M" "ordered_but n (upd H' i' (g, w)) {}"
      using filter_up_ok [OF h i w r(1) [OF g] r(3)] by blast
    then show ?thesis using heap_put_ok [OF f(4,2,3) w] by auto
  qed
  show down: "\<exists>H' L'. (do { t \<leftarrow> filter_down g n i (heap q) (locator q);
        (hp, loc) \<leftarrow> heap_put g w t; Some (q\<lparr>heap := hp, locator := loc\<rparr>) }) = Some (q\<lparr>heap := H', locator := L'\<rparr>)
    \<and> hrep n m H' L' M \<and> ordered_but n H' {}" if g: "g \<le> fst (at (heap q) i)"
  proof -
    obtain i' H' L' where f: "filter_down g n i (heap q) (locator q) = Some (i', H', L')" "0 \<le> i'" "i' < n"
      "hrep n m (upd H' i' (g, w)) (upd L' w i') M" "ordered_but n (upd H' i' (g, w)) {}"
      using filter_down_ok [OF h i w r(2) [OF g] r(3)] by blast
    then show ?thesis using heap_put_ok [OF f(4,2,3) w] by auto
  qed
  show "\<exists>H' L'. heap_replace (fst (at (heap q) i)) g n i w q = Some (q\<lparr>heap := H', locator := L'\<rparr>)
    \<and> hrep n m H' L' M \<and> ordered_but n H' {}"
    using up down unfolding heap_replace_def by (cases "fst (at (heap q) i) < g") auto
qed

text \<open>A new vertex at the end.\<close>

lemma hrep_room:
  assumes h: "hrep n m H L M" and v: "0 \<le> v" "v < m" "M v = None"
  shows "n < m"
proof -
  have "inj_on (\<lambda>i. snd (at H i)) {0..<n}"
    by (rule inj_onI) (metis atLeastLessThan_iff h hrepD(7))
  moreover have "snd (at H i) \<noteq> v" if "0 \<le> i" "i < n" for i
    using hrepD(8) [OF h that] v(3) by auto
  then have "(\<lambda>i. snd (at H i)) ` {0..<n} \<subseteq> {0..<m} - {v}" using hrepD(5,6) [OF h] by (intro image_subsetI) simp
  ultimately have "card {0..<n} \<le> card ({0..<m} - {v})" by (metis card_inj_on_le finite_Diff finite_atLeastLessThan_int)
  then show ?thesis using v hrepD(1) [OF h] by (simp add: card_Diff_singleton)
qed

lemma hrep_add:
  assumes h: "hrep n m H L M" and v: "0 \<le> v" "v < m" "M v = None"
  shows "hrep (n + 1) m (upd H n (g, v)) (upd L v n) (M(v \<mapsto> g))"
proof -
  note d = hrepD [OF h] and room = hrep_room [OF h v]
  have H: "at (upd H n (g, v)) i = (if i = n then (g, v) else at H i)" if "0 \<le> i" for i
    using that d(1,3) room by simp
  have L: "at (upd L v n) w = (if w = v then n else at L w)" if "0 \<le> w" for w
    using that v d(4) by simp
  have "0 \<le> snd (at (upd H n (g, v)) i) \<and> snd (at (upd H n (g, v)) i) < m
      \<and> at (upd L v n) (snd (at (upd H n (g, v)) i)) = i" if i: "0 \<le> i" "i < n + 1" for i
  proof (cases "i = n")
    case False
    then have "i < n" using i by simp
    moreover have "snd (at H i) \<noteq> v" using d(8) [OF i(1) \<open>i < n\<close>] v(3) by auto
    ultimately show ?thesis using H [OF i(1)] L d(5,6,7) [OF i(1)] False by simp
  qed (use H [OF i(1)] L v in simp)
  moreover have "at (upd L v n) w = - 1 \<and> (M(v \<mapsto> g)) w = None
      \<or> 0 \<le> at (upd L v n) w \<and> at (upd L v n) w < n + 1 \<and> snd (at (upd H n (g, v)) (at (upd L v n) w)) = w
        \<and> (M(v \<mapsto> g)) w = Some (fst (at (upd H n (g, v)) (at (upd L v n) w)))" if w: "0 \<le> w" "w < m" for w
  proof (cases "w = v")
    case True
    then show ?thesis using H [of n] L [OF w(1)] d(1) by simp
  next
    case False
    have "at L w = - 1 \<and> M w = None
      \<or> 0 \<le> at L w \<and> at L w < n \<and> snd (at H (at L w)) = w \<and> M w = Some (fst (at H (at L w)))"
      using h w unfolding hrep_def by blast
    then show ?thesis using H [of "at L w"] L [OF w(1)] False by auto
  qed
  moreover have "\<forall>w. w < 0 \<or> m \<le> w \<longrightarrow> (M(v \<mapsto> g)) w = None" using h v unfolding hrep_def by auto
  ultimately show ?thesis using d(1,3,4) room unfolding hrep_def by auto
qed

text \<open>Without a vertex: the last cell fills its place, unless it was the last itself.\<close>

lemma hrep_drop:
  assumes h: "hrep n m H L M" and v: "M v = Some k"
  shows "0 < n" "at L v = n - 1 \<longleftrightarrow> snd (at H (n - 1)) = v"
    "snd (at H (n - 1)) = v \<Longrightarrow> hrep (n - 1) m H (upd L v (- 1)) (M(v := None))"
    "snd (at H (n - 1)) \<noteq> v \<Longrightarrow> hrep (n - 1) m (upd H (at L v) (at H (n - 1)))
       (upd (upd L v (- 1)) (snd (at H (n - 1))) (at L v)) (M(v := None))"
proof -
  note d = hrepD [OF h] and c = hrep_cell [OF h v]
  show n: "0 < n" using c(3,4) by simp
  obtain g w where gw: "at H (n - 1) = (g, w)" by fastforce
  have w: "0 \<le> w" "w < m" "at L w = n - 1" using d(5-7) [of "n - 1"] n gw by simp_all
  show e: "at L v = n - 1 \<longleftrightarrow> snd (at H (n - 1)) = v" using gw w c(5) by auto
  have old: "at L u = - 1 \<and> M u = None
      \<or> 0 \<le> at L u \<and> at L u < n \<and> snd (at H (at L u)) = u \<and> M u = Some (fst (at H (at L u)))"
    if "0 \<le> u" "u < m" for u using h that unfolding hrep_def by blast
  have out: "\<forall>u. u < 0 \<or> m \<le> u \<longrightarrow> (M(v := None)) u = None" using h unfolding hrep_def by auto
  have L1: "at (upd L v (- 1)) u = (if u = v then - 1 else at L u)" if "0 \<le> u" for u
    using that c(1,2) d(4) by simp
  show "hrep (n - 1) m H (upd L v (- 1)) (M(v := None))" if last: "snd (at H (n - 1)) = v"
  proof -
    have lv: "at L v = n - 1" using e last by blast
    have ne: "snd (at H i) \<noteq> v" if "0 \<le> i" "i < n - 1" for i using d(7) [of i] that lv by auto
    have "at (upd L v (- 1)) u = - 1 \<and> (M(v := None)) u = None
      \<or> 0 \<le> at (upd L v (- 1)) u \<and> at (upd L v (- 1)) u < n - 1 \<and> snd (at H (at (upd L v (- 1)) u)) = u
        \<and> (M(v := None)) u = Some (fst (at H (at (upd L v (- 1)) u)))" if u: "0 \<le> u" "u < m" for u
    proof (cases "u = v")
      case False
      then have "at L u \<noteq> n - 1" using old [OF u] gw last n by auto
      then show ?thesis using False old [OF u] L1 [OF u(1)] by auto
    qed (use L1 [OF u(1)] in simp)
    then show ?thesis using d(1-4) n out ne L1 d(5-7) unfolding hrep_def by simp
  qed
  show "hrep (n - 1) m (upd H (at L v) (at H (n - 1))) (upd (upd L v (- 1)) (snd (at H (n - 1))) (at L v)) (M(v := None))"
    if last: "snd (at H (n - 1)) \<noteq> v"
  proof -
    let ?i = "at L v"
    have i: "0 \<le> ?i" "?i < n - 1" using c(3,4) e last by auto
    have wv: "w \<noteq> v" using last gw by simp
    have H2: "at (upd H ?i (g, w)) j = (if j = ?i then (g, w) else at H j)" if "0 \<le> j" for j
      using that i d(2,3) by simp
    have L2: "at (upd (upd L v (- 1)) w ?i) u = (if u = w then ?i else if u = v then - 1 else at L u)" if "0 \<le> u" for u
      using that w c(1,2) d(4) by simp
    have "0 \<le> snd (at (upd H ?i (g, w)) j) \<and> snd (at (upd H ?i (g, w)) j) < m
      \<and> at (upd (upd L v (- 1)) w ?i) (snd (at (upd H ?i (g, w)) j)) = j" if j: "0 \<le> j" "j < n - 1" for j
    proof (cases "j = ?i")
      case False
      then have "snd (at H j) \<noteq> w" "snd (at H j) \<noteq> v" using d(7) [of j] j w(3) by auto
      then show ?thesis using False H2 [OF j(1)] L2 d(5-7) [of j] j by simp
    qed (use H2 [OF i(1)] L2 [OF w(1)] w in simp)
    moreover have "at (upd (upd L v (- 1)) w ?i) u = - 1 \<and> (M(v := None)) u = None
      \<or> 0 \<le> at (upd (upd L v (- 1)) w ?i) u \<and> at (upd (upd L v (- 1)) w ?i) u < n - 1
        \<and> snd (at (upd H ?i (g, w)) (at (upd (upd L v (- 1)) w ?i) u)) = u
        \<and> (M(v := None)) u = Some (fst (at (upd H ?i (g, w)) (at (upd (upd L v (- 1)) w ?i) u)))"
      if u: "0 \<le> u" "u < m" for u
    proof -
      consider "u = w" | "u = v" | "u \<noteq> w" "u \<noteq> v" by blast
      then show ?thesis
      proof cases
        case 1
        have "M w = Some g" using d(8) [of "n - 1"] n gw by simp
        then show ?thesis using 1 L2 [OF w(1)] H2 [OF i(1)] i wv by simp
      next
        case 2
        then show ?thesis using L2 [OF u(1)] wv by simp
      next
        case 3
        then have l: "at (upd (upd L v (- 1)) w ?i) u = at L u" using L2 [OF u(1)] by simp
        show ?thesis
        proof (cases "at L u = - 1")
          case False
          then have q: "0 \<le> at L u" "at L u < n" "snd (at H (at L u)) = u" "M u = Some (fst (at H (at L u)))"
            using old [OF u] by auto
          have "at L u \<noteq> n - 1" using q(3) gw 3 by auto
          moreover have "at L u \<noteq> ?i" using q(3) c(5) 3 by auto
          ultimately show ?thesis using l q 3 H2 [OF q(1)] by simp
        qed (use l old [OF u] 3 in auto)
      qed
    qed
    ultimately show ?thesis using d(1-4) n out gw unfolding hrep_def by auto
  qed
qed

end
