(* ===== verification/Mt_Heap.thy ===== *)
theory Mt_Heap
  imports Mt_Heap_Props
begin

text \<open>
  The operations on the heap representation as operations on a map from vertices to gains.
  \<open>heap_rep q M\<close>: the queue \<open>q\<close> is a heap that holds \<open>M\<close>.
\<close>

definition heap_rep :: "pqueue \<Rightarrow> (int \<Rightarrow> int option) \<Rightarrow> bool" where
  "heap_rep q M \<longleftrightarrow> ptype q \<noteq> 1 \<and> hrep (nnodes q) (maxnodes q) (heap q) (locator q) M
     \<and> ordered_but (nnodes q) (heap q) {}"

text \<open>What no operation on the content changes.\<close>

definition same_shape :: "pqueue \<Rightarrow> pqueue \<Rightarrow> bool" where
  "same_shape q q' \<longleftrightarrow> ptype q' = ptype q \<and> maxnodes q' = maxnodes q
     \<and> pgainspan q' = pgainspan q \<and> ngainspan q' = ngainspan q \<and> mustfree q' = mustfree q"

lemma hrep_dom:
  assumes h: "hrep n m H L M"
  shows "finite (dom M)" "int (card (dom M)) = n" "dom M \<subseteq> {0..<m}"
proof -
  have inj: "inj_on (\<lambda>i. snd (at H i)) {0..<n}"
    by (rule inj_onI) (metis atLeastLessThan_iff h hrepD(7))
  have img: "(\<lambda>i. snd (at H i)) ` {0..<n} = dom M"
  proof
    show "(\<lambda>i. snd (at H i)) ` {0..<n} \<subseteq> dom M" using hrepD(8) [OF h] by (intro image_subsetI) auto
    show "dom M \<subseteq> (\<lambda>i. snd (at H i)) ` {0..<n}"
    proof
      fix v assume "v \<in> dom M"
      then obtain k where "M v = Some k" by blast
      then show "v \<in> (\<lambda>i. snd (at H i)) ` {0..<n}"
        using hrep_cell(3-5) [OF h] by (metis atLeastLessThan_iff image_eqI snd_conv)
    qed
  qed
  show "finite (dom M)" unfolding img [symmetric] by simp
  show "int (card (dom M)) = n" unfolding img [symmetric] card_image [OF inj] using hrepD(1) [OF h] by simp
  show "dom M \<subseteq> {0..<m}" unfolding img [symmetric] using hrepD(5,6) [OF h] by (intro image_subsetI) simp
qed

text \<open>The root holds a largest key.\<close>

lemma ordered_root:
  assumes o: "ordered_but n H {}" and i: "0 \<le> i" "i < n"
  shows "fst (at H i) \<le> fst (at H 0)"
  using i
proof (induction "nat i" arbitrary: i rule: less_induct)
  case less
  show ?case
  proof (cases "i = 0")
    case False
    then have i: "0 < i" using less.prems by simp
    note p = par_less [OF i]
    have "fst (at H i) \<le> fst (at H (par i))" using o i less.prems by (simp add: ordered_but_def)
    also have "nat (par i) < nat i" "par i < n" using p less.prems by linarith+
    then have "fst (at H (par i)) \<le> fst (at H 0)" using less.hyps p by blast
    finally show ?thesis .
  qed simp
qed

lemma hrep_max:
  assumes h: "hrep n m H L M" and o: "ordered_but n H {}" and v: "M v = Some k"
  shows "0 < n" "k \<le> fst (at H 0)" "M (snd (at H 0)) = Some (fst (at H 0))"
proof -
  note c = hrep_cell [OF h v]
  show "0 < n" using c by simp
  then show "M (snd (at H 0)) = Some (fst (at H 0))" using hrepD(8) [OF h, of 0] by simp
  show "k \<le> fst (at H 0)" using ordered_root [OF o c(3,4)] c(5) by simp
qed

section \<open>The operations\<close>

lemma heap_insert_ok:
  assumes r: "heap_rep q M" and v: "0 \<le> v" "v < maxnodes q" "M v = None"
  shows "\<exists>q'. PQueueInsert q v g = Some q' \<and> heap_rep q' (M(v \<mapsto> g)) \<and> same_shape q q'"
proof -
  let ?n = "nnodes q" and ?H = "heap q" and ?L = "locator q"
  have h: "hrep ?n (maxnodes q) ?H ?L M" and o: "ordered_but ?n ?H {}" and t: "ptype q \<noteq> 1"
    using r by (simp_all add: heap_rep_def)
  note h' = hrep_add [OF h v, of g] and room = hrep_room [OF h v]
  have n: "0 \<le> ?n" "?n < ?n + 1" using hrepD(1) [OF h] by simp_all
  have at0: "at (upd ?H ?n (g, v)) x = (if x = ?n then (g, v) else at ?H x)" if "0 \<le> x" for x
    using that n room hrepD(3) [OF h] by simp
  have "ordered_but (?n + 1) (upd ?H ?n (g, v)) {?n}"
    unfolding ordered_but_def
  proof (intro allI impI, elim conjE)
    fix k assume k: "0 < k" "k < ?n + 1" "k \<notin> {?n}"
    then have "k < ?n" "par k \<noteq> ?n" "0 \<le> par k" using par_less [OF k(1)] by auto
    then show "fst (at (upd ?H ?n (g, v)) k) \<le> fst (at (upd ?H ?n (g, v)) (par k))"
      using o k at0 [of k] at0 [of "par k"] by (simp add: ordered_but_def)
  qed
  moreover have "bridge (?n + 1) (upd ?H ?n (g, v)) ?n"
    unfolding bridge_def
  proof (intro impI allI, elim conjE)
    fix k assume "0 < k" "k < ?n + 1" "par k = ?n"
    then show "fst (at (upd ?H ?n (g, v)) k) \<le> fst (at (upd ?H ?n (g, v)) (par ?n))" using par_less [of k] by linarith
  qed
  ultimately obtain i' H' L' where f: "filter_up g ?n ?H ?L = Some (i', H', L')" "0 \<le> i'" "i' < ?n + 1"
    "hrep (?n + 1) (maxnodes q) (upd H' i' (g, v)) (upd L' v i') (M(v \<mapsto> g))" "ordered_but (?n + 1) (upd H' i' (g, v)) {}"
    using filter_up_ok [OF h' n v(1,2)] by blast
  then have "PQueueInsert q v g = Some (q\<lparr>nnodes := ?n + 1, heap := upd H' i' (g, v), locator := upd L' v i'\<rparr>)"
    using heap_put_ok [OF f(4,2,3) v(1,2)] t by (simp add: PQueueInsert_def heap_insert_def)
  with f(4,5) t show ?thesis by (auto simp: heap_rep_def same_shape_def)
qed

lemma ordered_but_mono: "ordered_but n H X \<Longrightarrow> k \<le> n \<Longrightarrow> ordered_but k H X"
  by (auto simp: ordered_but_def)

lemma heap_delete_ok:
  assumes r: "heap_rep q M" and v: "M v = Some g"
  shows "\<exists>q'. PQueueDelete q v g = Some q' \<and> heap_rep q' (M(v := None)) \<and> same_shape q q'"
proof -
  let ?n = "nnodes q - 1" and ?H = "heap q" and ?L = "locator q" and ?i = "at (locator q) v"
  have h: "hrep (nnodes q) (maxnodes q) ?H ?L M" and o: "ordered_but (nnodes q) ?H {}" and t: "ptype q \<noteq> 1"
    using r by (simp_all add: heap_rep_def)
  note d = hrepD [OF h] and c = hrep_cell [OF h v] and dr = hrep_drop [OF h v]
  let ?q = "q\<lparr>locator := upd ?L v (- 1), nnodes := ?n\<rparr>"
  have o': "ordered_but ?n ?H {}" using ordered_but_mono [OF o] by simp
  have get: "aget ?L v = Some ?i" "aset ?L v (- 1) = Some (upd ?L v (- 1))"
    using c(1,2) d(4) by (simp_all add: arr)
  show ?thesis
  proof (cases "snd (at ?H ?n) = v")
    case True
    have "0 < ?n \<Longrightarrow> aget ?H ?n = Some (at ?H ?n)" using d(2,3) by (simp add: arr)
    then have "PQueueDelete q v g = Some ?q"
      using t get True by (simp add: PQueueDelete_def heap_delete_def)
    with dr(3) [OF True] o' t show ?thesis by (auto simp: heap_rep_def same_shape_def)
  next
    case False
    obtain k w where kw: "at ?H ?n = (k, w)" by fastforce
    have i: "0 \<le> ?i" "?i < ?n" using c(3,4) dr(2) False by auto
    have w: "0 \<le> w" "w < maxnodes q" using d(5,6) [of ?n] dr(1) kw by simp_all
    have h': "hrep ?n (maxnodes q) (upd (heap ?q) ?i (k, w)) (upd (locator ?q) w ?i) (M(v := None))"
      using dr(4) [OF False] kw by simp
    obtain H' L' where R: "heap_replace (fst (at (heap ?q) ?i)) k ?n ?i w ?q = Some (?q\<lparr>heap := H', locator := L'\<rparr>)"
      "hrep ?n (maxnodes q) H' L' (M(v := None))" "ordered_but ?n H' {}"
      using replace_ok(1) [where q = ?q, OF h' _ i w] o' by auto
    have "aget ?H ?n = Some (k, w)" "aget ?H ?i = Some (at ?H ?i)" using i d(2,3) kw by (simp_all add: arr)
    then have "PQueueDelete q v g = heap_replace (fst (at ?H ?i)) k ?n ?i w ?q"
      using t get False i kw by (simp add: PQueueDelete_def heap_delete_def)
    with R t show ?thesis by (auto simp: heap_rep_def same_shape_def)
  qed
qed

lemma heap_get_max_ok:
  assumes r: "heap_rep q M" and ne: "M \<noteq> Map.empty"
  shows "\<exists>v g q'. PQueueGetMax q = Some (v, q') \<and> M v = Some g \<and> (\<forall>u k. M u = Some k \<longrightarrow> k \<le> g)
    \<and> heap_rep q' (M(v := None)) \<and> same_shape q q'"
proof -
  let ?n = "nnodes q - 1" and ?H = "heap q" and ?L = "locator q"
  have h: "hrep (nnodes q) (maxnodes q) ?H ?L M" and o: "ordered_but (nnodes q) ?H {}" and t: "ptype q \<noteq> 1"
    using r by (simp_all add: heap_rep_def)
  obtain u0 k0 where "M u0 = Some k0" using ne by (meson not_Some_eq ext)
  note mx = hrep_max [OF h o]
  obtain g v where gv: "at ?H 0 = (g, v)" by fastforce
  have pos: "0 < nnodes q" using mx(1) [OF \<open>M u0 = Some k0\<close>] .
  have v: "M v = Some g" "\<forall>u k. M u = Some k \<longrightarrow> k \<le> g" using mx(2,3) gv \<open>M u0 = Some k0\<close> by auto
  note d = hrepD [OF h] and c = hrep_cell [OF h v(1)] and dr = hrep_drop [OF h v(1)]
  have lv: "at ?L v = 0" using d(7) [of 0] pos gv by simp
  let ?q = "q\<lparr>nnodes := ?n, locator := upd ?L v (- 1)\<rparr>"
  have o': "ordered_but ?n ?H {}" using ordered_but_mono [OF o] by simp
  have get: "aget ?H 0 = Some (g, v)" "aset ?L v (- 1) = Some (upd ?L v (- 1))"
    using c(1,2) d(2-4) pos gv by (simp_all add: arr)
  have "\<exists>q'. PQueueGetMax q = Some (v, q') \<and> heap_rep q' (M(v := None)) \<and> same_shape q q'"
  proof (cases "0 < ?n")
    case False
    then have n: "?n = 0" using pos by simp
    then have "PQueueGetMax q = Some (v, ?q)"
      using t get pos by (simp add: PQueueGetMax_def heap_get_max_def)
    moreover have "snd (at ?H ?n) = v" using n gv by simp
    ultimately show ?thesis using dr(3) o' t by (auto simp: heap_rep_def same_shape_def)
  next
    case True
    then have last: "snd (at ?H ?n) \<noteq> v" using dr(2) lv by auto
    obtain k w where kw: "at ?H ?n = (k, w)" by fastforce
    have w: "0 \<le> w" "w < maxnodes q" using d(5,6) [of ?n] dr(1) kw by simp_all
    have h': "hrep ?n (maxnodes q) (upd (heap ?q) 0 (k, w)) (upd (locator ?q) w 0) (M(v := None))"
      using dr(4) [OF last] kw lv by simp
    have le: "k \<le> fst (at (heap ?q) 0)" using ordered_root [OF o, of ?n] True kw by simp
    obtain H' L' where R: "(do { t \<leftarrow> filter_down k ?n 0 (heap ?q) (locator ?q);
        (hp, loc) \<leftarrow> heap_put k w t; Some (?q\<lparr>heap := hp, locator := loc\<rparr>) }) = Some (?q\<lparr>heap := H', locator := L'\<rparr>)"
      "hrep ?n (maxnodes q) H' L' (M(v := None))" "ordered_but ?n H' {}"
      using replace_ok(3) [where q = ?q, OF h' _ _ True w le] o' by auto
    have "aget ?H ?n = Some (k, w)" using True d(2,3) kw by (simp add: arr)
    then have "PQueueGetMax q = Some (v, ?q\<lparr>heap := H', locator := L'\<rparr>)"
      using R(1) t get pos True
      by (auto simp: PQueueGetMax_def heap_get_max_def Option.bind_eq_Some_conv)
    with R(2,3) t show ?thesis by (auto simp: heap_rep_def same_shape_def)
  qed
  with v show ?thesis by blast
qed

lemma heap_update_ok:
  assumes r: "heap_rep q M" and v: "M v = Some old"
  shows "\<exists>q'. PQueueUpdate q v old new = Some q' \<and> heap_rep q' (M(v \<mapsto> new)) \<and> same_shape q q'"
    "old \<le> new \<Longrightarrow> \<exists>q'. PQueueUpdateUp q v old new = Some q' \<and> heap_rep q' (M(v \<mapsto> new)) \<and> same_shape q q'"
proof -
  let ?H = "heap q" and ?L = "locator q" and ?i = "at (locator q) v"
  have h: "hrep (nnodes q) (maxnodes q) ?H ?L M" and o: "ordered_but (nnodes q) ?H {}" and t: "ptype q \<noteq> 1"
    using r by (simp_all add: heap_rep_def)
  note d = hrepD [OF h] and c = hrep_cell [OF h v]
  have at0: "at (upd ?H ?i (new, v)) x = (if x = ?i then (new, v) else at ?H x)" if "0 \<le> x" for x
    using that c d(2,3) by simp
  have L0: "at (upd ?L v ?i) u = at ?L u" if "0 \<le> u" for u using that c d(4) by simp
  have cell: "snd (at ?H i) = v \<longleftrightarrow> i = ?i" if "0 \<le> i" "i < nnodes q" for i using d(7) [OF that] c(5) by auto
  have h': "hrep (nnodes q) (maxnodes q) (upd ?H ?i (new, v)) (upd ?L v ?i) (M(v \<mapsto> new))"
    unfolding hrep_def
  proof (intro conjI allI impI)
    fix i assume "0 \<le> i \<and> i < nnodes q"
    then show "0 \<le> snd (at (upd ?H ?i (new, v)) i)" "snd (at (upd ?H ?i (new, v)) i) < maxnodes q"
      "at (upd ?L v ?i) (snd (at (upd ?H ?i (new, v)) i)) = i"
      using at0 [of i] L0 d(5-7) [of i] c by auto
  next
    fix u assume u: "0 \<le> u \<and> u < maxnodes q"
    then have "at ?L u = - 1 \<and> M u = None
      \<or> 0 \<le> at ?L u \<and> at ?L u < nnodes q \<and> snd (at ?H (at ?L u)) = u \<and> M u = Some (fst (at ?H (at ?L u)))"
      using h unfolding hrep_def by blast
    then show "at (upd ?L v ?i) u = - 1 \<and> (M(v \<mapsto> new)) u = None
      \<or> 0 \<le> at (upd ?L v ?i) u \<and> at (upd ?L v ?i) u < nnodes q
        \<and> snd (at (upd ?H ?i (new, v)) (at (upd ?L v ?i) u)) = u
        \<and> (M(v \<mapsto> new)) u = Some (fst (at (upd ?H ?i (new, v)) (at (upd ?L v ?i) u)))"
      using L0 [of u] at0 [of "at ?L u"] cell [of "at ?L u"] u v c(3) by auto
  next
    fix u assume u: "u < 0 \<or> maxnodes q \<le> u"
    then have "M u = None" using h unfolding hrep_def by blast
    then show "(M(v \<mapsto> new)) u = None" using v u c(1,2) by auto
  qed (use d(1-4) in auto)
  have same: "M(v \<mapsto> old) = M" using v by auto
  have get: "aget ?L v = Some ?i" using c(1,2) d(4) by (simp add: arr)
  have key: "fst (at ?H ?i) = old" using c(5) by simp
  note R = replace_ok [OF h' o c(3,4,1,2)]
  show "\<exists>q'. PQueueUpdate q v old new = Some q' \<and> heap_rep q' (M(v \<mapsto> new)) \<and> same_shape q q'"
  proof (cases "old = new")
    case True
    with same r show ?thesis by (auto simp: PQueueUpdate_def same_shape_def)
  next
    case False
    then show ?thesis using R(1) get key t
      by (auto simp: PQueueUpdate_def heap_rep_def same_shape_def)
  qed
  show "\<exists>q'. PQueueUpdateUp q v old new = Some q' \<and> heap_rep q' (M(v \<mapsto> new)) \<and> same_shape q q'" if le: "old \<le> new"
  proof (cases "old = new")
    case True
    with same r show ?thesis by (auto simp: PQueueUpdateUp_def same_shape_def)
  next
    case False
    obtain H' L' where "(do { t \<leftarrow> filter_up new ?i ?H ?L;
        (hp, loc) \<leftarrow> heap_put new v t; Some (q\<lparr>heap := hp, locator := loc\<rparr>) }) = Some (q\<lparr>heap := H', locator := L'\<rparr>)"
      "hrep (nnodes q) (maxnodes q) H' L' (M(v \<mapsto> new))" "ordered_but (nnodes q) H' {}"
      using R(2) key le by auto
    then show ?thesis using get False t
      by (auto simp: PQueueUpdateUp_def heap_rep_def same_shape_def)
  qed
qed

lemma heap_see_ok:
  assumes r: "heap_rep q M" and ne: "M \<noteq> Map.empty"
  shows "\<exists>v g. PQueueSeeMax q = Some v \<and> PQueueGetKey q = Some g \<and> M v = Some g \<and> (\<forall>u k. M u = Some k \<longrightarrow> k \<le> g)"
proof -
  have h: "hrep (nnodes q) (maxnodes q) (heap q) (locator q) M" and o: "ordered_but (nnodes q) (heap q) {}" and t: "ptype q \<noteq> 1"
    using r by (simp_all add: heap_rep_def)
  obtain u0 k0 where "M u0 = Some k0" using ne by (meson not_Some_eq ext)
  note mx = hrep_max [OF h o]
  have pos: "0 < nnodes q" using mx(1) [OF \<open>M u0 = Some k0\<close>] .
  have "aget (heap q) 0 = Some (at (heap q) 0)" using pos hrepD(2,3) [OF h] by (simp add: arr)
  then show ?thesis using mx(2,3) [OF \<open>M u0 = Some k0\<close>] mx(2) t pos
    by (auto simp: PQueueSeeMax_def PQueueGetKey_def)
qed

lemma heap_size_ok:
  assumes "heap_rep q M"
  shows "finite (dom M)" "PQueueGetSize q = int (card (dom M))" "dom M \<subseteq> {0..<maxnodes q}"
  using assms hrep_dom [of "nnodes q" "maxnodes q" "heap q" "locator q" M]
  by (auto simp: heap_rep_def PQueueGetSize_def)

text \<open>An empty queue, after \<open>PQueueInit\<close> or \<open>PQueueReset\<close>.\<close>

lemma hrep_empty:
  assumes "0 \<le> m" "ilen H = m" "ilen L = m" "\<forall>i. 0 \<le> i \<and> i < m \<longrightarrow> at L i = - 1"
  shows "hrep 0 m H L Map.empty" "ordered_but 0 H {}"
  using assms by (auto simp: hrep_def ordered_but_def)

lemma heap_reset_ok:
  assumes r: "heap_rep q M"
  shows "\<exists>q'. PQueueReset q = Some q' \<and> heap_rep q' Map.empty \<and> same_shape q q'"
proof -
  have h: "hrep (nnodes q) (maxnodes q) (heap q) (locator q) M" and t: "ptype q \<noteq> 1"
    using r by (simp_all add: heap_rep_def)
  note d = hrepD(1-4) [OF h]
  obtain L where L: "idxset (maxnodes q) (- 1) (locator q) = Some L" "length L = length (locator q)"
    "\<forall>i. 0 \<le> i \<longrightarrow> at L i = (if i < maxnodes q then - 1 else at (locator q) i)"
    using idxset_spec [of "maxnodes q" "locator q" "- 1"] d by auto
  have "ilen L = maxnodes q" using L(2) d(4) by (simp add: ilen_def)
  then have e: "hrep 0 (maxnodes q) (heap q) L Map.empty" "ordered_but 0 (heap q) {}"
    using hrep_empty [of "maxnodes q" "heap q" L] d L(3) by simp_all
  have "PQueueReset q = Some (q\<lparr>nnodes := 0, locator := L\<rparr>)" using L(1) t by (simp add: PQueueReset_def)
  with e t show ?thesis by (auto simp: heap_rep_def same_shape_def)
qed

end
