(* ===== verification/Mt_Bucket.thy ===== *)
theory Mt_Bucket
  imports Mt_Heap
begin

text \<open>
  The bucket representation of the queue: one doubly linked list of vertices for every gain
  between \<open>- ngainspan\<close> and \<open>pgainspan\<close>. The lists are read off the nodes (\<open>dll\<close>), adding and
  unlinking a node are operations on them, and the operations of the queue are operations on a
  map from vertices to gains.
\<close>

section \<open>Linked lists\<close>

primrec ptr :: "int list \<Rightarrow> int option \<Rightarrow> int option" where
  "ptr [] q = q"
| "ptr (v # vs) q = Some v"

definition lst :: "int option \<Rightarrow> int list \<Rightarrow> int option" where
  "lst p vs = (if vs = [] then p else Some (last vs))"

primrec dll :: "lnode list \<Rightarrow> int option \<Rightarrow> int list \<Rightarrow> int option \<Rightarrow> bool" where
  "dll N p [] q \<longleftrightarrow> True"
| "dll N p (v # vs) q \<longleftrightarrow> 0 \<le> v \<and> v < ilen N \<and> prv (at N v) = p \<and> nxt (at N v) = ptr vs q \<and> dll N (Some v) vs q"

lemma ptr_append [simp]: "ptr (as @ bs) q = ptr as (ptr bs q)"
  by (cases as) simp_all

lemma lst_simps [simp]: "lst p [] = p" "lst p (v # vs) = lst (Some v) vs" "lst p (vs @ [v]) = Some v"
  by (auto simp: lst_def)

lemma dll_append: "dll N p (as @ bs) q \<longleftrightarrow> dll N p as (ptr bs q) \<and> dll N (lst p as) bs q"
  by (induction as arbitrary: p) auto

lemma dll_mem: "dll N p vs q \<Longrightarrow> v \<in> set vs \<Longrightarrow> 0 \<le> v \<and> v < ilen N"
  by (induction vs arbitrary: p) auto

lemma dll_frame: "0 \<le> u \<Longrightarrow> u \<notin> set vs \<Longrightarrow> dll (upd N u x) p vs q = dll N p vs q"
  by (induction vs arbitrary: p) (auto simp: at_upd_other)

lemma dll_set_tail:
  assumes "dll N p (as @ [a]) q" "distinct (as @ [a])"
  shows "dll (upd N a (at N a\<lparr>nxt := q'\<rparr>)) p (as @ [a]) q'"
  using assms by (auto simp: dll_append dll_frame)

lemma dll_set_head:
  assumes "dll N p (b # bs) q" "distinct (b # bs)"
  shows "dll (upd N b (at N b\<lparr>prv := p'\<rparr>)) p' (b # bs) q"
  using assms by (auto simp: dll_frame)

section \<open>The lists of a queue\<close>

definition in_span :: "pqueue \<Rightarrow> int \<Rightarrow> bool" where
  "in_span q g \<longleftrightarrow> - ngainspan q \<le> g \<and> g \<le> pgainspan q"

definition blists :: "pqueue \<Rightarrow> (int \<Rightarrow> int list) \<Rightarrow> bool" where
  "blists q L \<longleftrightarrow> 0 \<le> ngainspan q \<and> 0 \<le> pgainspan q \<and> ilen (nodes q) = maxnodes q
    \<and> ilen (buckets q) = ngainspan q + pgainspan q + 1
    \<and> (\<forall>v. 0 \<le> v \<and> v < maxnodes q \<longrightarrow> ident (at (nodes q) v) = v)
    \<and> (\<forall>g. in_span q g \<longrightarrow> at (buckets q) (g + ngainspan q) = ptr (L g) None
         \<and> dll (nodes q) None (L g) None \<and> distinct (L g))
    \<and> (\<forall>g h. in_span q g \<and> in_span q h \<and> g \<noteq> h \<longrightarrow> set (L g) \<inter> set (L h) = {})"

lemma blistsD:
  assumes "blists q L"
  shows "0 \<le> ngainspan q" "0 \<le> pgainspan q" "ilen (nodes q) = maxnodes q"
    "ilen (buckets q) = ngainspan q + pgainspan q + 1"
    "0 \<le> v \<Longrightarrow> v < maxnodes q \<Longrightarrow> ident (at (nodes q) v) = v"
    "in_span q g \<Longrightarrow> at (buckets q) (g + ngainspan q) = ptr (L g) None"
    "in_span q g \<Longrightarrow> dll (nodes q) None (L g) None" "in_span q g \<Longrightarrow> distinct (L g)"
    "in_span q g \<Longrightarrow> in_span q h \<Longrightarrow> g \<noteq> h \<Longrightarrow> set (L g) \<inter> set (L h) = {}"
  using assms unfolding blists_def by blast+

lemma bucket_at_ok:
  assumes "blists q L" "in_span q g"
  shows "bucket_at q g = Some (ptr (L g) None)"
    "set_bucket q g p = Some (q\<lparr>buckets := upd (buckets q) (g + ngainspan q) p\<rparr>)"
  using assms blistsD(1,2,4,6) [OF assms(1)]
  by (simp_all add: bucket_at_def set_bucket_def in_span_def arr)

lemma set_links:
  assumes "0 \<le> v" "v < ilen (nodes q)"
  shows "set_next q v p = Some (q\<lparr>nodes := upd (nodes q) v (at (nodes q) v\<lparr>nxt := p\<rparr>)\<rparr>)"
    "set_prev q v p = Some (q\<lparr>nodes := upd (nodes q) v (at (nodes q) v\<lparr>prv := p\<rparr>)\<rparr>)"
  using assms by (simp_all add: set_next_def set_prev_def arr)

text \<open>What a change of one list has to keep of the others.\<close>

lemma blists_change:
  assumes b: "blists q L" and g: "in_span q g"
    and N: "ilen N = ilen (nodes q)" "\<And>v. 0 \<le> v \<Longrightarrow> v < ilen N \<Longrightarrow> ident (at N v) = ident (at (nodes q) v)"
    and vs: "dll N None vs None" "distinct vs"
    and frame: "\<And>h. in_span q h \<Longrightarrow> h \<noteq> g \<Longrightarrow> dll N None (L h) None \<and> set vs \<inter> set (L h) = {}"
  shows "blists (q\<lparr>nodes := N, buckets := upd (buckets q) (g + ngainspan q) (ptr vs None)\<rparr>) (L(g := vs))"
proof -
  note d = blistsD [OF b]
  have B: "at (upd (buckets q) (g + ngainspan q) (ptr vs None)) (h + ngainspan q)
      = (if h = g then ptr vs None else at (buckets q) (h + ngainspan q))" if "in_span q h" for h
    using that g d(4) by (auto simp: in_span_def)
  show ?thesis
    unfolding blists_def
  proof (intro conjI allI impI; (elim conjE)?)
    fix h k assume "in_span (q\<lparr>nodes := N, buckets := upd (buckets q) (g + ngainspan q) (ptr vs None)\<rparr>) h"
      "in_span (q\<lparr>nodes := N, buckets := upd (buckets q) (g + ngainspan q) (ptr vs None)\<rparr>) k" "h \<noteq> k"
    then show "set ((L(g := vs)) h) \<inter> set ((L(g := vs)) k) = {}"
      using frame d(9) [of h k] by (auto simp: in_span_def)
  qed (use d B vs frame N in \<open>auto simp: in_span_def\<close>)
qed

lemma attach_ok:
  assumes b: "blists q L" and g: "in_span q g" and v: "0 \<le> v" "v < maxnodes q"
    and new: "\<And>h. in_span q h \<Longrightarrow> v \<notin> set (L h)"
  shows "\<exists>N B. bucket_attach q v g = Some (q\<lparr>nodes := N, buckets := B\<rparr>)
    \<and> blists (q\<lparr>nodes := N, buckets := B\<rparr>) (L(g := v # L g))"
proof -
  note d = blistsD [OF b] and vs = blistsD(7,8) [OF b g]
  define N1 where "N1 = upd (nodes q) v (at (nodes q) v\<lparr>nxt := ptr (L g) None, prv := None\<rparr>)"
  define N where "N = (case L g of [] \<Rightarrow> N1 | m # _ \<Rightarrow> upd N1 m (at N1 m\<lparr>prv := Some v\<rparr>))"
  have v': "v < ilen (nodes q)" using v d(3) by simp
  have len1: "ilen N1 = ilen (nodes q)" by (simp add: N1_def)
  have len: "ilen N = ilen (nodes q)" using len1 by (simp add: N_def split: list.split)
  have m: "m \<in> set (L g) \<Longrightarrow> 0 \<le> m \<and> m < ilen (nodes q) \<and> m \<noteq> v" for m
    using dll_mem [OF vs(1)] new [OF g] by blast
  have upd2: "upd (upd (nodes q) v x) v y = upd (nodes q) v y" for x y by (simp add: upd_def)
  have "bucket_attach q v g = set_bucket (q\<lparr>nodes := N\<rparr>) g (Some v)"
    using v v' m unfolding bucket_attach_def bucket_at_ok(1) [OF b g]
    by (cases "L g") (simp_all add: set_links N_def N1_def upd2)
  also have "\<dots> = Some (q\<lparr>nodes := N, buckets := upd (buckets q) (g + ngainspan q) (Some v)\<rparr>)"
    using g d(1,2,4) by (simp add: set_bucket_def in_span_def arr)
  finally have 1: "bucket_attach q v g
      = Some (q\<lparr>nodes := N, buckets := upd (buckets q) (g + ngainspan q) (ptr (v # L g) None)\<rparr>)" by simp
  have fr: "dll N p us r = dll (nodes q) p us r" if "v \<notin> set us" "set us \<inter> set (L g) = {}" for p us r
    using that v m by (auto simp: N_def N1_def dll_frame split: list.split)
  have id: "ident (at N u) = ident (at (nodes q) u)" if "0 \<le> u" "u < ilen N" for u
    using that len v v' m by (auto simp: N_def N1_def split: list.split)
  have dll': "dll N None (v # L g) None"
  proof (cases "L g")
    case Nil
    then show ?thesis using v v' by (simp add: N_def N1_def)
  next
    case (Cons w ws)
    have "v \<notin> set (w # ws)" using new [OF g] Cons by simp
    then have "dll N1 None (w # ws) None = dll (nodes q) None (w # ws) None"
      unfolding N1_def by (rule dll_frame [OF v(1)])
    then have "dll N1 None (w # ws) None" using vs(1) unfolding Cons by blast
    moreover have "distinct (w # ws)" "N = upd N1 w (at N1 w\<lparr>prv := Some v\<rparr>)" using vs(2) Cons by (simp_all add: N_def)
    ultimately have "dll N (Some v) (w # ws) None" using dll_set_head by blast
    moreover have "at N v = at (nodes q) v\<lparr>nxt := Some w, prv := None\<rparr>"
      using m [of w] Cons v v' by (simp add: N_def N1_def)
    ultimately show ?thesis using Cons v v' len by simp
  qed
  have "blists (q\<lparr>nodes := N, buckets := upd (buckets q) (g + ngainspan q) (ptr (v # L g) None)\<rparr>) (L(g := v # L g))"
  proof (rule blists_change [OF b g len id dll'])
    show "distinct (v # L g)" using vs(2) new [OF g] by simp
    fix h assume h: "in_span q h" "h \<noteq> g"
    then have "set (L h) \<inter> set (L g) = {}" using d(9) g by blast
    then show "dll N None (L h) None \<and> set (v # L g) \<inter> set (L h) = {}"
      using fr [of "L h" None None] new [OF h(1)] d(7) [OF h(1)] by auto
  qed
  with 1 show ?thesis by blast
qed

lemma unlink_ok:
  assumes b: "blists q L" and g: "in_span q g" and split: "L g = as @ v # bs"
  shows "\<exists>N B. bucket_unlink q v g = Some (q\<lparr>nodes := N, buckets := B\<rparr>)
    \<and> blists (q\<lparr>nodes := N, buckets := B\<rparr>) (L(g := as @ bs)) \<and> at N v = at (nodes q) v
    \<and> (as = [] \<longrightarrow> nxt (at (nodes q) v) = ptr bs None \<and> B = upd (buckets q) (g + ngainspan q) (ptr bs None)
         \<and> N = (case bs of [] \<Rightarrow> nodes q | m # _ \<Rightarrow> upd (nodes q) m (at (nodes q) m\<lparr>prv := None\<rparr>)))"
proof -
  note d = blistsD [OF b]
  let ?N = "nodes q"
  have l: "dll ?N None (as @ v # bs) None" "distinct (as @ v # bs)" using d(7,8) [OF g] split by simp_all
  then have la: "dll ?N None as (Some v)" and lv: "0 \<le> v" "v < ilen ?N" "prv (at ?N v) = lst None as" "nxt (at ?N v) = ptr bs None"
    and lb: "dll ?N (Some v) bs None" by (simp_all add: dll_append)
  have mem: "0 \<le> u \<and> u < ilen ?N" if "u \<in> set as \<union> set bs" for u
    using that dll_mem [OF la] dll_mem [OF lb] by blast
  define N1 where "N1 = (if as = [] then ?N else upd ?N (last as) (at ?N (last as)\<lparr>nxt := ptr bs None\<rparr>))"
  define N2 where "N2 = (case bs of [] \<Rightarrow> N1 | m # _ \<Rightarrow> upd N1 m (at N1 m\<lparr>prv := lst None as\<rparr>))"
  define B where "B = (if as = [] then upd (buckets q) (g + ngainspan q) (ptr bs None) else buckets q)"
  have len: "ilen N1 = ilen ?N" "ilen N2 = ilen ?N"
    by (simp_all add: N1_def N2_def split: list.split)
  have la1: "dll N1 None as (ptr bs None)"
  proof (cases as rule: rev_cases)
    case (snoc cs c)
    with dll_set_tail [of ?N None cs c "Some v" "ptr bs None"] la l(2) show ?thesis by (simp add: N1_def)
  qed simp
  have lb1: "dll N1 (Some v) bs None"
  proof (cases as rule: rev_cases)
    case (snoc cs c)
    then have "c \<notin> set bs" "0 \<le> c" using l(2) mem by auto
    with lb snoc show ?thesis by (simp add: N1_def dll_frame)
  qed (use lb in \<open>simp add: N1_def\<close>)
  have "dll N2 None as (ptr bs None) \<and> dll N2 (lst None as) bs None"
  proof (cases bs)
    case Nil
    then show ?thesis using la1 by (simp add: N2_def)
  next
    case (Cons m ms)
    then have "m \<notin> set as" "0 \<le> m" using l(2) mem by auto
    with la1 lb1 Cons l(2) show ?thesis
      using dll_set_head [of N1 "Some v" m ms None "lst None as"] by (simp add: N2_def dll_frame)
  qed
  then have dll': "dll N2 None (as @ bs) None" by (simp add: dll_append)
  have v1: "at N1 v = at ?N v" "at N2 v = at ?N v"
    using l(2) lv mem by (auto simp: N1_def N2_def at_upd_other split: list.split)
  have pB: "B = upd (buckets q) (g + ngainspan q) (ptr (as @ bs) None)"
  proof (cases as)
    case (Cons a as')
    then have "at (buckets q) (g + ngainspan q) = Some a" using d(6) [OF g] split by simp
    then have "upd (buckets q) (g + ngainspan q) (Some a) = buckets q"
      using g d(1,2,4) by (simp add: upd_def at_def list_update_id[symmetric] del: list_update_id) (metis list_update_id)
    with Cons show ?thesis by (simp add: B_def)
  qed (simp add: B_def)
  have "bucket_unlink q v g = Some (q\<lparr>nodes := N2, buckets := B\<rparr>)"
  proof -
    have "(case prv (at ?N v) of Some p \<Rightarrow> set_next q p (nxt (at ?N v)) | None \<Rightarrow> set_bucket q g (nxt (at ?N v)))
        = Some (q\<lparr>nodes := N1, buckets := B\<rparr>)"
      unfolding lv(3,4) using mem [of "last as"] bucket_at_ok(2) [OF b g]
      by (cases "as = []") (simp_all add: lst_def set_links N1_def B_def)
    moreover have "(case nxt (at ?N v) of Some m \<Rightarrow> set_prev (q\<lparr>nodes := N1, buckets := B\<rparr>) m (prv (at ?N v))
        | None \<Rightarrow> Some (q\<lparr>nodes := N1, buckets := B\<rparr>)) = Some (q\<lparr>nodes := N2, buckets := B\<rparr>)"
      unfolding lv(3,4) using mem [of "hd bs"] len by (cases bs) (simp_all add: set_links N2_def)
    moreover have "aget ?N v = Some (at ?N v)" "aget N1 v = Some (at ?N v)" using lv(1,2) len v1 by (simp_all add: arr)
    ultimately show ?thesis by (simp add: bucket_unlink_def)
  qed
  moreover have "blists (q\<lparr>nodes := N2, buckets := B\<rparr>) (L(g := as @ bs))"
    unfolding pB
  proof (rule blists_change [OF b g len(2) _ dll'])
    show "ident (at N2 u) = ident (at ?N u)" if "0 \<le> u" "u < ilen N2" for u
      using that len mem by (auto simp: N1_def N2_def at_upd split: list.split)
    show "distinct (as @ bs)" using l(2) by simp
    fix h assume h: "in_span q h" "h \<noteq> g"
    then have dj: "set (L h) \<inter> (set as \<union> set bs) = {}" using d(9) [OF h(1) g] split by auto
    have "as \<noteq> [] \<Longrightarrow> 0 \<le> last as \<and> last as \<notin> set (L h)" using dj mem [of "last as"] last_in_set by blast
    then have "dll N1 None (L h) None = dll ?N None (L h) None" by (simp add: N1_def dll_frame)
    moreover have "dll N2 None (L h) None = dll N1 None (L h) None"
      using dj mem by (cases bs) (auto simp: N2_def dll_frame)
    ultimately have "dll N2 None (L h) None = dll ?N None (L h) None" by simp
    then show "dll N2 None (L h) None \<and> set (as @ bs) \<inter> set (L h) = {}" using d(7) [OF h(1)] dj by auto
  qed
  moreover have "as = [] \<longrightarrow> nxt (at ?N v) = ptr bs None \<and> B = upd (buckets q) (g + ngainspan q) (ptr bs None)
         \<and> N2 = (case bs of [] \<Rightarrow> ?N | m # _ \<Rightarrow> upd ?N m (at ?N m\<lparr>prv := None\<rparr>))"
    using lv(4) by (simp add: N2_def N1_def B_def split: list.split)
  ultimately show ?thesis using v1(2) by blast
qed

section \<open>The map of a bucket queue\<close>

text \<open>\<open>L\<close> lists the vertices of the map \<open>M\<close> by gain; \<open>top\<close> is the largest gain.\<close>

definition lists_map :: "pqueue \<Rightarrow> (int \<Rightarrow> int list) \<Rightarrow> (int \<Rightarrow> int option) \<Rightarrow> bool" where
  "lists_map q L M \<longleftrightarrow> blists q L \<and> (\<forall>g v. in_span q g \<longrightarrow> (v \<in> set (L g) \<longleftrightarrow> M v = Some g))
     \<and> (\<forall>v g. M v = Some g \<longrightarrow> 0 \<le> v \<and> v < maxnodes q \<and> in_span q g)"

definition top_gain :: "pqueue \<Rightarrow> (int \<Rightarrow> int option) \<Rightarrow> bool" where
  "top_gain q M \<longleftrightarrow> (if M = Map.empty then maxgain q = - ngainspan q
     else (\<exists>v. M v = Some (maxgain q)) \<and> (\<forall>v g. M v = Some g \<longrightarrow> g \<le> maxgain q))"

definition bucket_rep :: "pqueue \<Rightarrow> (int \<Rightarrow> int option) \<Rightarrow> bool" where
  "bucket_rep q M \<longleftrightarrow> ptype q = 1 \<and> (\<exists>L. lists_map q L M) \<and> nnodes q = int (card (dom M)) \<and> top_gain q M"

lemma lists_map_dom: "lists_map q L M \<Longrightarrow> finite (dom M) \<and> dom M \<subseteq> {0..<maxnodes q}"
proof -
  assume "lists_map q L M"
  then have "dom M \<subseteq> {0..<maxnodes q}" by (auto simp: lists_map_def)
  then show ?thesis by (meson finite_atLeastLessThan_int finite_subset)
qed

lemma lists_map_cong:
  assumes "lists_map q L M" "nodes q' = nodes q" "buckets q' = buckets q" "same_shape q q'"
  shows "lists_map q' L M"
  using assms by (simp add: lists_map_def blists_def in_span_def same_shape_def)

lemma lists_attach:
  assumes l: "lists_map q L M" and g: "in_span q g" and v: "0 \<le> v" "v < maxnodes q" "M v = None"
  shows "\<exists>N B. bucket_attach q v g = Some (q\<lparr>nodes := N, buckets := B\<rparr>)
    \<and> lists_map (q\<lparr>nodes := N, buckets := B\<rparr>) (L(g := v # L g)) (M(v \<mapsto> g))"
proof -
  have b: "blists q L" and new: "\<And>h. in_span q h \<Longrightarrow> v \<notin> set (L h)"
    using l v(3) by (auto simp: lists_map_def)
  obtain N B where nb: "bucket_attach q v g = Some (q\<lparr>nodes := N, buckets := B\<rparr>)"
    "blists (q\<lparr>nodes := N, buckets := B\<rparr>) (L(g := v # L g))"
    using attach_ok [OF b g v(1,2) new] by blast
  moreover have "lists_map (q\<lparr>nodes := N, buckets := B\<rparr>) (L(g := v # L g)) (M(v \<mapsto> g))"
    using l nb(2) g v new unfolding lists_map_def in_span_def by auto
  ultimately show ?thesis by blast
qed

lemma lists_unlink:
  assumes l: "lists_map q L M" and v: "M v = Some g"
  shows "\<exists>N B L'. bucket_unlink q v g = Some (q\<lparr>nodes := N, buckets := B\<rparr>)
    \<and> lists_map (q\<lparr>nodes := N, buckets := B\<rparr>) L' (M(v := None)) \<and> (L' g = [] \<longleftrightarrow> (\<forall>u. u \<noteq> v \<longrightarrow> M u \<noteq> Some g))"
proof -
  have b: "blists q L" and g: "in_span q g" and vm: "v \<in> set (L g)"
    using l v by (auto simp: lists_map_def)
  from vm obtain as bs where split: "L g = as @ v # bs" by (meson split_list)
  obtain N B where nb: "bucket_unlink q v g = Some (q\<lparr>nodes := N, buckets := B\<rparr>)"
    "blists (q\<lparr>nodes := N, buckets := B\<rparr>) (L(g := as @ bs))"
    using unlink_ok [OF b g split] by blast
  have "v \<notin> set as \<union> set bs" using blistsD(8) [OF b g] split by simp
  moreover have "u \<in> set (L g) \<longleftrightarrow> M u = Some g" for u using l g by (simp add: lists_map_def)
  ultimately have mem: "u \<in> set (as @ bs) \<longleftrightarrow> (M(v := None)) u = Some g" for u using split by auto
  have "lists_map (q\<lparr>nodes := N, buckets := B\<rparr>) (L(g := as @ bs)) (M(v := None))"
    unfolding lists_map_def
  proof (intro conjI allI impI)
    fix h u assume "in_span (q\<lparr>nodes := N, buckets := B\<rparr>) h"
    then have h: "in_span q h" by (simp add: in_span_def)
    show "u \<in> set ((L(g := as @ bs)) h) \<longleftrightarrow> (M(v := None)) u = Some h"
    proof (cases "h = g")
      case True
      then show ?thesis using mem by simp
    next
      case False
      have "u \<in> set (L h) \<longleftrightarrow> M u = Some h" using l h by (simp add: lists_map_def)
      then show ?thesis using False v by auto
    qed
  next
    fix u h assume "(M(v := None)) u = Some h"
    then have "M u = Some h" by (auto split: if_splits)
    then show "0 \<le> u" "u < maxnodes (q\<lparr>nodes := N, buckets := B\<rparr>)" "in_span (q\<lparr>nodes := N, buckets := B\<rparr>) h"
      using l by (auto simp: lists_map_def in_span_def)
  qed (rule nb(2))
  moreover have "(L(g := as @ bs)) g = [] \<longleftrightarrow> (\<forall>u. u \<noteq> v \<longrightarrow> M u \<noteq> Some g)"
  proof -
    have "(L(g := as @ bs)) g = [] \<longleftrightarrow> (\<forall>u. u \<notin> set (as @ bs))"
      unfolding fun_upd_same set_empty [symmetric] by (metis equals0D equals0I)
    then show ?thesis unfolding mem by auto
  qed
  ultimately show ?thesis using nb(1) by blast
qed

text \<open>The search for the next non-empty bucket.\<close>

lemma lower_maxgain_ok:
  assumes l: "lists_map q L M" and c: "nnodes q = int (card (dom M))"
    and le: "\<forall>v g. M v = Some g \<longrightarrow> g \<le> maxgain q" and m: "in_span q (maxgain q)"
  shows "\<exists>m. lower_maxgain q = Some (q\<lparr>maxgain := m\<rparr>) \<and> top_gain (q\<lparr>maxgain := m\<rparr>) M"
proof (cases "M = Map.empty")
  case True
  then show ?thesis using c by (simp add: lower_maxgain_def top_gain_def)
next
  case False
  then obtain u k where u: "M u = Some k" by (meson not_Some_eq ext)
  then have "nnodes q \<noteq> 0" using c lists_map_dom [OF l] False by simp
  have b: "blists q L" using l by (simp add: lists_map_def)
  have k: "in_span q k" using l u by (auto simp: lists_map_def)
  define I where "I m \<longleftrightarrow> in_span q m \<and> (\<forall>v g. M v = Some g \<longrightarrow> g \<le> m)" for m
  have "\<exists>m. while_loop (\<lambda>m. map_option (\<lambda>b. b = None) (bucket_at q m)) (\<lambda>m. Some (m - 1)) (maxgain q) = Some m
      \<and> ((\<exists>v. M v = Some m) \<and> (\<forall>v g. M v = Some g \<longrightarrow> g \<le> m))"
  proof (rule while_loop_rule [where I = I and m = "\<lambda>m. nat (m + ngainspan q)"])
    show "I (maxgain q)" using le m by (simp add: I_def)
    fix m assume I: "I m"
    then have sp: "in_span q m" and up: "\<forall>v g. M v = Some g \<longrightarrow> g \<le> m" by (simp_all add: I_def)
    have mem: "v \<in> set (L m) \<longleftrightarrow> M v = Some m" for v using l sp by (simp add: lists_map_def)
    show "\<exists>e. map_option (\<lambda>b. b = None) (bucket_at q m) = Some e
        \<and> (\<not> e \<longrightarrow> (\<exists>v. M v = Some m) \<and> (\<forall>v g. M v = Some g \<longrightarrow> g \<le> m))
        \<and> (e \<longrightarrow> (\<exists>t. Some (m - 1) = Some t \<and> I t \<and> nat (t + ngainspan q) < nat (m + ngainspan q)))"
    proof (cases "L m")
      case Nil
      then have none: "M v \<noteq> Some m" for v using mem [of v] by simp
      have less: "g \<le> m - 1" if "M v = Some g" for v g using up none [of v] that by force
      then have "k \<le> m - 1" using u by blast
      then have "I (m - 1)" "0 < m + ngainspan q" using less sp k by (auto simp: I_def in_span_def)
      with Nil show ?thesis using bucket_at_ok(1) [OF b sp] by auto
    next
      case (Cons w ws)
      then have "M w = Some m" using mem [of w] by simp
      with Cons up show ?thesis using bucket_at_ok(1) [OF b sp] by auto
    qed
  qed
  then show ?thesis using \<open>nnodes q \<noteq> 0\<close> False by (auto simp: lower_maxgain_def top_gain_def)
qed

section \<open>The operations\<close>

lemma bucket_insert_ok:
  assumes r: "bucket_rep q M" and g: "in_span q g" and v: "0 \<le> v" "v < maxnodes q" "M v = None"
  shows "\<exists>q'. PQueueInsert q v g = Some q' \<and> bucket_rep q' (M(v \<mapsto> g)) \<and> same_shape q q'"
proof -
  from r obtain L where t: "ptype q = 1" and l: "lists_map q L M" and c: "nnodes q = int (card (dom M))" and top: "top_gain q M"
    by (auto simp: bucket_rep_def)
  let ?q = "q\<lparr>nnodes := nnodes q + 1\<rparr>"
  have l1: "lists_map ?q L M" by (rule lists_map_cong [OF l]) (simp_all add: same_shape_def)
  obtain N B where a: "bucket_attach ?q v g = Some (?q\<lparr>nodes := N, buckets := B\<rparr>)"
    "lists_map (?q\<lparr>nodes := N, buckets := B\<rparr>) (L(g := v # L g)) (M(v \<mapsto> g))"
    using lists_attach [OF l1, of g v] g v by (auto simp: in_span_def)
  let ?r = "?q\<lparr>nodes := N, buckets := B\<rparr>"
  let ?s = "if maxgain ?r < g then ?r\<lparr>maxgain := g\<rparr> else ?r"
  have "PQueueInsert q v g = Some ?s" using t a(1) by (simp add: PQueueInsert_def bucket_insert_def)
  moreover have "lists_map ?s (L(g := v # L g)) (M(v \<mapsto> g))"
    by (rule lists_map_cong [OF a(2)]) (simp_all add: same_shape_def)
  moreover have "nnodes ?s = int (card (dom (M(v \<mapsto> g))))"
    using c v(3) lists_map_dom [OF l] by (simp add: card_insert_if domIff)
  moreover have "top_gain ?s (M(v \<mapsto> g))"
  proof (cases "M = Map.empty")
    case True
    then have "maxgain q \<le> g" using top g by (simp add: top_gain_def in_span_def)
    with True show ?thesis by (auto simp: top_gain_def)
  next
    case False
    then obtain u where "M u = Some (maxgain q)" "\<And>w k. M w = Some k \<Longrightarrow> k \<le> maxgain q" "u \<noteq> v"
      using top v(3) unfolding top_gain_def by (metis option.distinct(1))
    moreover from this have "k \<le> g" if "M w = Some k" "maxgain q < g" for w k using that by fastforce
    ultimately show ?thesis by (auto simp: top_gain_def)
  qed
  ultimately show ?thesis using t by (auto simp: bucket_rep_def same_shape_def intro!: exI [of _ ?s])
qed

lemma top_gain_le: "top_gain q M \<Longrightarrow> M v = Some g \<Longrightarrow> g \<le> maxgain q \<and> (\<exists>u. M u = Some (maxgain q))"
  by (auto simp: top_gain_def split: if_splits)

lemma bucket_delete_ok:
  assumes r: "bucket_rep q M" and v: "M v = Some g"
  shows "\<exists>q'. PQueueDelete q v g = Some q' \<and> bucket_rep q' (M(v := None)) \<and> same_shape q q'"
proof -
  from r obtain L where t: "ptype q = 1" and l: "lists_map q L M" and c: "nnodes q = int (card (dom M))" and top: "top_gain q M"
    by (auto simp: bucket_rep_def)
  let ?M = "M(v := None)" and ?q = "q\<lparr>nnodes := nnodes q - 1\<rparr>"
  have l1: "lists_map ?q L M" by (rule lists_map_cong [OF l]) (simp_all add: same_shape_def)
  obtain N B L' where a: "bucket_unlink ?q v g = Some (?q\<lparr>nodes := N, buckets := B\<rparr>)"
    "lists_map (?q\<lparr>nodes := N, buckets := B\<rparr>) L' ?M" "L' g = [] \<longleftrightarrow> (\<forall>u. u \<noteq> v \<longrightarrow> M u \<noteq> Some g)"
    using lists_unlink [OF l1 v] by blast
  let ?r = "?q\<lparr>nodes := N, buckets := B\<rparr>"
  have card: "nnodes ?r = int (card (dom ?M))"
  proof -
    have "card (dom M) > 0" using v lists_map_dom [OF l] card_gt_0_iff by blast
    then show ?thesis using c v lists_map_dom [OF l] by (cases "M = Map.empty") (simp_all add: card_Diff_singleton domIff int_ops)
  qed
  have g: "in_span ?r g" using l v by (auto simp: lists_map_def in_span_def)
  have bl: "blists ?r L'" using a(2) by (simp add: lists_map_def)
  note le = top_gain_le [OF top]
  show ?thesis
  proof (cases "L' g = [] \<and> g = maxgain q")
    case True
    have "\<forall>u k. ?M u = Some k \<longrightarrow> k \<le> maxgain ?r" using le by (auto split: if_splits)
    then obtain m where m: "lower_maxgain ?r = Some (?r\<lparr>maxgain := m\<rparr>)" "top_gain (?r\<lparr>maxgain := m\<rparr>) ?M"
      using lower_maxgain_ok [OF a(2) card] g True by auto
    have "PQueueDelete q v g = Some (?r\<lparr>maxgain := m\<rparr>)"
      using t a(1) bucket_at_ok(1) [OF bl g] conjunct1 [OF True] conjunct2 [OF True] m(1)
      by (simp add: PQueueDelete_def bucket_delete_def)
    moreover have "lists_map (?r\<lparr>maxgain := m\<rparr>) L' ?M"
      by (rule lists_map_cong [OF a(2)]) (simp_all add: same_shape_def)
    ultimately show ?thesis using t card m(2) by (auto simp: bucket_rep_def same_shape_def)
  next
    case False
    have pn: "ptr (L' g) None = None \<longleftrightarrow> L' g = []" by (cases "L' g") simp_all
    then have "PQueueDelete q v g = Some ?r"
      using t a(1) bucket_at_ok(1) [OF bl g] False
      by (auto simp: PQueueDelete_def bucket_delete_def)
    moreover have "top_gain ?r ?M"
    proof -
      obtain u where u: "M u = Some (maxgain q)" using le v by blast
      have "\<exists>u. ?M u = Some (maxgain q)"
      proof (cases "u = v")
        case True
        then have "g = maxgain q" using u v by simp
        then have "L' g \<noteq> []" using False by simp
        then show ?thesis using a(3) \<open>g = maxgain q\<close> by auto
      qed (use u in auto)
      moreover from this have "?M \<noteq> Map.empty" by (metis option.distinct(1))
      moreover have "k \<le> maxgain q" if "?M w = Some k" for w k using le that by (auto split: if_splits)
      ultimately show ?thesis unfolding top_gain_def by simp
    qed
    ultimately show ?thesis using t a(2) card by (auto simp: bucket_rep_def same_shape_def)
  qed
qed

end
