(* ===== verification/Mt_Queue.thy ===== *)
theory Mt_Queue
  imports Mt_Bucket
begin

text \<open>
  The contract of the queue of \<open>pqueue.c\<close>: whatever its representation, it is a map from vertices
  to gains whose largest gain comes out first. The locale \<open>max_queue\<close> states what the refinement
  algorithms rely on; the heap and the buckets are its instances, and so is the queue that
  \<open>PQueueInit\<close> makes, which is one or the other.
\<close>

section \<open>The remaining bucket operations\<close>

lemma bucket_update_ok:
  assumes r: "bucket_rep q M" and v: "M v = Some old" and g: "in_span q new"
  shows "\<exists>q'. PQueueUpdate q v old new = Some q' \<and> bucket_rep q' (M(v \<mapsto> new)) \<and> same_shape q q'"
proof (cases "old = new")
  case True
  moreover have "M(v \<mapsto> old) = M" using v by auto
  ultimately show ?thesis using r by (auto simp: PQueueUpdate_def same_shape_def)
next
  case False
  have t: "ptype q = 1" using r by (simp add: bucket_rep_def)
  obtain p where p: "PQueueDelete q v old = Some p" "bucket_rep p (M(v := None))" "same_shape q p"
    using bucket_delete_ok [OF r v] by blast
  have vr: "0 \<le> v" "v < maxnodes p" "in_span p new"
    using r v g p(3) by (auto simp: bucket_rep_def lists_map_def same_shape_def in_span_def)
  obtain q' where q': "PQueueInsert p v new = Some q'" "bucket_rep q' (M(v := None, v \<mapsto> new))" "same_shape p q'"
    using bucket_insert_ok [OF p(2) vr(3,1,2)] by auto
  show ?thesis using p q' t False by (auto simp: PQueueUpdate_def same_shape_def)
qed

lemma bucket_update_up_ok:
  assumes r: "bucket_rep q M" and v: "M v = Some old" and g: "in_span q new" and le: "old \<le> new"
  shows "\<exists>q'. PQueueUpdateUp q v old new = Some q' \<and> bucket_rep q' (M(v \<mapsto> new)) \<and> same_shape q q'"
proof (cases "old = new")
  case True
  moreover have "M(v \<mapsto> old) = M" using v by auto
  ultimately show ?thesis using r by (auto simp: PQueueUpdateUp_def same_shape_def)
next
  case False
  from r obtain L where t: "ptype q = 1" and l: "lists_map q L M" and c: "nnodes q = int (card (dom M))" and top: "top_gain q M"
    by (auto simp: bucket_rep_def)
  have vr: "0 \<le> v" "v < maxnodes q" using l v by (auto simp: lists_map_def)
  obtain N B L' where u: "bucket_unlink q v old = Some (q\<lparr>nodes := N, buckets := B\<rparr>)"
    "lists_map (q\<lparr>nodes := N, buckets := B\<rparr>) L' (M(v := None))"
    using lists_unlink [OF l v] by blast
  obtain N' B' where a: "bucket_attach (q\<lparr>nodes := N, buckets := B\<rparr>) v new = Some (q\<lparr>nodes := N', buckets := B'\<rparr>)"
    "lists_map (q\<lparr>nodes := N', buckets := B'\<rparr>) (L'(new := v # L' new)) (M(v := None, v \<mapsto> new))"
    using lists_attach [OF u(2), of new v] g vr by (auto simp: in_span_def)
  let ?r = "q\<lparr>nodes := N', buckets := B'\<rparr>"
  let ?s = "if maxgain ?r < new then ?r\<lparr>maxgain := new\<rparr> else ?r"
  have "PQueueUpdateUp q v old new = Some ?s"
    using t False u(1) a(1) by (simp add: PQueueUpdateUp_def bucket_update_up_def)
  moreover have "lists_map ?s (L'(new := v # L' new)) (M(v \<mapsto> new))"
  proof (rule lists_map_cong)
    show "lists_map ?r (L'(new := v # L' new)) (M(v \<mapsto> new))" using a(2) by simp
  qed (simp_all add: same_shape_def)
  moreover have "nnodes ?s = int (card (dom (M(v \<mapsto> new))))"
    using c v by (simp add: insert_absorb domIff)
  moreover have "top_gain ?s (M(v \<mapsto> new))"
  proof -
    obtain w where w: "M w = Some (maxgain q)" and up: "\<And>x k. M x = Some k \<Longrightarrow> k \<le> maxgain q"
      using top_gain_le [OF top] v by blast
    have "w \<noteq> v" if "new \<le> maxgain q" using that w v False le by auto
    moreover have "k \<le> new" if "M x = Some k" "maxgain q < new" for x k using up that by fastforce
    ultimately show ?thesis using w up by (auto simp: top_gain_def not_less)
  qed
  ultimately show ?thesis using t by (auto simp: bucket_rep_def same_shape_def intro!: exI [of _ ?s])
qed

lemma bucket_get_max_ok:
  assumes r: "bucket_rep q M" and ne: "M \<noteq> Map.empty"
  shows "\<exists>v g q'. PQueueGetMax q = Some (v, q') \<and> M v = Some g \<and> (\<forall>u k. M u = Some k \<longrightarrow> k \<le> g)
    \<and> bucket_rep q' (M(v := None)) \<and> same_shape q q'"
proof -
  from r obtain L where t: "ptype q = 1" and l: "lists_map q L M" and c: "nnodes q = int (card (dom M))" and top: "top_gain q M"
    by (auto simp: bucket_rep_def)
  let ?g = "maxgain q" and ?q = "q\<lparr>nnodes := nnodes q - 1\<rparr>"
  obtain u k where u: "M u = Some k" using ne by (meson not_Some_eq ext)
  obtain w where w: "M w = Some ?g" and up: "\<forall>u k. M u = Some k \<longrightarrow> k \<le> ?g" using top_gain_le [OF top] u by blast
  have l1: "lists_map ?q L M" by (rule lists_map_cong [OF l]) (simp_all add: same_shape_def)
  have sp: "in_span ?q ?g" and mem: "x \<in> set (L ?g) \<longleftrightarrow> M x = Some ?g" for x
    using l w by (auto simp: lists_map_def in_span_def)
  then obtain v bs where vbs: "L ?g = v # bs" using w by (cases "L ?g") auto
  then have v: "M v = Some ?g" using mem [of v] by simp
  have b: "blists ?q L" using l1 by (simp add: lists_map_def)
  obtain N B where nb: "bucket_unlink ?q v ?g = Some (?q\<lparr>nodes := N, buckets := B\<rparr>)"
    "at N v = at (nodes ?q) v" "nxt (at (nodes ?q) v) = ptr bs None" "B = upd (buckets ?q) (?g + ngainspan ?q) (ptr bs None)"
    "N = (case bs of [] \<Rightarrow> nodes ?q | m # _ \<Rightarrow> upd (nodes ?q) m (at (nodes ?q) m\<lparr>prv := None\<rparr>))"
    using unlink_ok [OF b sp, of "[]" v bs] vbs by auto
  obtain L' where L': "lists_map (?q\<lparr>nodes := N, buckets := B\<rparr>) L' (M(v := None))"
    "L' ?g = [] \<longleftrightarrow> (\<forall>u. u \<noteq> v \<longrightarrow> M u \<noteq> Some ?g)"
  proof -
    obtain N2 B2 L2 where u2: "bucket_unlink ?q v ?g = Some (?q\<lparr>nodes := N2, buckets := B2\<rparr>)"
      "lists_map (?q\<lparr>nodes := N2, buckets := B2\<rparr>) L2 (M(v := None))"
      "L2 ?g = [] \<longleftrightarrow> (\<forall>u. u \<noteq> v \<longrightarrow> M u \<noteq> Some ?g)"
      using lists_unlink [OF l1 v] by blast
    then have "?q\<lparr>nodes := N2, buckets := B2\<rparr> = ?q\<lparr>nodes := N, buckets := B\<rparr>" using nb(1) by simp
    from u2(2) [unfolded this] u2(3) show ?thesis by (rule that)
  qed
  let ?r = "?q\<lparr>nodes := N, buckets := B\<rparr>"
  have card: "nnodes ?r = int (card (dom (M(v := None))))"
    using c v lists_map_dom [OF l] ne by (simp add: card_Diff_singleton domIff int_ops Suc_le_eq card_gt_0_iff)
  have pos: "nnodes q \<noteq> 0" using c lists_map_dom [OF l] ne by simp
  have vr: "0 \<le> v" "v < ilen (nodes q)" using l v b blistsD(3) [OF b] by (auto simp: lists_map_def)
  have idv: "ident (at N v) = v" using blistsD(5) [OF b vr(1)] vr blistsD(3) [OF b] nb(2) by simp
  have len: "ilen N = ilen (nodes q)" using nb(5) by (simp split: list.splits)
  have bsm: "0 \<le> m \<and> m < ilen (nodes q)" if "m \<in> set bs" for m
    using blistsD(7) [OF b sp] vbs that dll_mem by fastforce
  have start: "bucket_get_max q = do {
      q \<leftarrow> (case bs of [] \<Rightarrow> lower_maxgain ?r | _ \<Rightarrow> Some ?r);
      n \<leftarrow> aget (nodes q) v; Some (ident n, q) }"
  proof -
    have "bucket_get_max q = do {
        q \<leftarrow> (case ptr bs None of Some m \<Rightarrow> set_prev (?q\<lparr>buckets := B\<rparr>) m None | None \<Rightarrow> lower_maxgain (?q\<lparr>buckets := B\<rparr>));
        n \<leftarrow> aget (nodes q) v; Some (ident n, q) }"
      using bucket_at_ok [OF b sp] vbs vr nb(3,4) by (simp add: bucket_get_max_def arr cong: option.case_cong)
    also have "\<dots> = do {
      q \<leftarrow> (case bs of [] \<Rightarrow> lower_maxgain ?r | _ \<Rightarrow> Some ?r); n \<leftarrow> aget (nodes q) v; Some (ident n, q) }"
    proof (cases bs)
      case (Cons m ms)
      have swap: "?q\<lparr>buckets := B, nodes := X\<rparr> = ?q\<lparr>nodes := X, buckets := B\<rparr>" for X
        by (rule pqueue.equality) simp_all
      from Cons show ?thesis using nb(5) bsm [of m] set_links(2) [of m "?q\<lparr>buckets := B\<rparr>" None]
        by (simp add: swap)
    qed (simp add: nb(5))
    finally show ?thesis .
  qed
  have L'bs: "L' ?g = [] \<longleftrightarrow> bs = []"
  proof -
    have "v \<notin> set bs" using blistsD(8) [OF b sp] vbs by simp
    moreover have "M u = Some ?g \<longleftrightarrow> u = v \<or> u \<in> set bs" for u using mem [of u] vbs by auto
    ultimately have "(\<forall>u. u \<noteq> v \<longrightarrow> M u \<noteq> Some ?g) \<longleftrightarrow> (\<forall>u. u \<notin> set bs)" by metis
    then show ?thesis unfolding L'(2) by (metis equals0D equals0I set_empty)
  qed
  have up': "\<forall>u k. (M(v := None)) u = Some k \<longrightarrow> k \<le> maxgain ?r" using up by simp
  have "\<exists>q'. PQueueGetMax q = Some (v, q') \<and> bucket_rep q' (M(v := None)) \<and> same_shape q q'"
  proof (cases bs)
    case Nil
    have sp': "in_span ?r (maxgain ?r)" using sp by (simp add: in_span_def)
    obtain m where m: "lower_maxgain ?r = Some (?r\<lparr>maxgain := m\<rparr>)" "top_gain (?r\<lparr>maxgain := m\<rparr>) (M(v := None))"
      using lower_maxgain_ok [OF L'(1) card up' sp'] by blast
    have "PQueueGetMax q = Some (v, ?r\<lparr>maxgain := m\<rparr>)"
      using t pos start Nil m(1) vr len idv by (simp add: PQueueGetMax_def arr)
    moreover have "lists_map (?r\<lparr>maxgain := m\<rparr>) L' (M(v := None))"
      by (rule lists_map_cong [OF L'(1)]) (simp_all add: same_shape_def)
    ultimately show ?thesis using t card m(2) by (auto simp: bucket_rep_def same_shape_def)
  next
    case (Cons m ms)
    then obtain u where "u \<noteq> v" "M u = Some ?g" using L'bs L'(2) by auto
    then have "top_gain ?r (M(v := None))" using up' by (auto simp: top_gain_def fun_eq_iff)
    moreover have "PQueueGetMax q = Some (v, ?r)"
      using t pos start Cons vr len idv by (simp add: PQueueGetMax_def arr)
    ultimately show ?thesis using t card L'(1) by (auto simp: bucket_rep_def same_shape_def)
  qed
  with v up show ?thesis by blast
qed

lemma bucket_see_ok:
  assumes r: "bucket_rep q M" and ne: "M \<noteq> Map.empty"
  shows "\<exists>v g. PQueueSeeMax q = Some v \<and> PQueueGetKey q = Some g \<and> M v = Some g \<and> (\<forall>u k. M u = Some k \<longrightarrow> k \<le> g)"
proof -
  from r obtain L where t: "ptype q = 1" and l: "lists_map q L M" and c: "nnodes q = int (card (dom M))" and top: "top_gain q M"
    by (auto simp: bucket_rep_def)
  obtain u k where u: "M u = Some k" using ne by (meson not_Some_eq ext)
  obtain w where w: "M w = Some (maxgain q)" and up: "\<forall>u k. M u = Some k \<longrightarrow> k \<le> maxgain q" using top_gain_le [OF top] u by blast
  have sp: "in_span q (maxgain q)" and mem: "x \<in> set (L (maxgain q)) \<longleftrightarrow> M x = Some (maxgain q)" for x
    using l w by (auto simp: lists_map_def)
  then obtain v bs where vbs: "L (maxgain q) = v # bs" using w by (cases "L (maxgain q)") auto
  then have v: "M v = Some (maxgain q)" using mem [of v] by simp
  have b: "blists q L" using l by (simp add: lists_map_def)
  have vr: "0 \<le> v" "v < maxnodes q" using l v by (auto simp: lists_map_def)
  have "nnodes q \<noteq> 0" using c lists_map_dom [OF l] ne by simp
  then have "PQueueSeeMax q = Some v" "PQueueGetKey q = Some (maxgain q)"
    using t bucket_at_ok(1) [OF b sp] vbs vr blistsD(3,5) [OF b] 
    by (simp_all add: PQueueSeeMax_def PQueueGetKey_def arr)
  with v up show ?thesis by blast
qed

lemma bucket_size_ok:
  assumes "bucket_rep q M"
  shows "finite (dom M)" "PQueueGetSize q = int (card (dom M))" "dom M \<subseteq> {0..<maxnodes q}"
proof -
  from assms obtain L where "lists_map q L M" by (auto simp: bucket_rep_def)
  from lists_map_dom [OF this] show "finite (dom M)" "dom M \<subseteq> {0..<maxnodes q}" by simp_all
  show "PQueueGetSize q = int (card (dom M))" using assms by (simp add: bucket_rep_def PQueueGetSize_def)
qed

lemma none_loop:
  assumes "0 \<le> n" "n \<le> ilen bs"
  shows "\<exists>cs. for_loop 0 n (\<lambda>i bs. aset bs i None) bs = Some cs \<and> length cs = length bs
    \<and> (\<forall>i. 0 \<le> i \<and> i < n \<longrightarrow> at cs i = None)"
proof (rule for_loop_rule [where P = "\<lambda>n cs. length cs = length bs \<and> (\<forall>i. 0 \<le> i \<and> i < n \<longrightarrow> at cs i = None)"])
  fix i cs
  assume i: "0 \<le> i" "i < n" and cs: "length cs = length bs \<and> (\<forall>j. 0 \<le> j \<and> j < i \<longrightarrow> at cs j = None)"
  then have "i < ilen cs" using assms by (simp add: ilen_def)
  with i cs show "\<exists>t. aset cs i None = Some t \<and> length t = length bs \<and> (\<forall>j. 0 \<le> j \<and> j < i + 1 \<longrightarrow> at t j = None)"
    by (auto simp: arr)
qed (use assms in auto)

lemma empty_lists:
  assumes "0 \<le> ngainspan q" "0 \<le> pgainspan q" "ilen (nodes q) = maxnodes q"
    "ilen (buckets q) = ngainspan q + pgainspan q + 1"
    "\<And>v. 0 \<le> v \<Longrightarrow> v < maxnodes q \<Longrightarrow> ident (at (nodes q) v) = v"
    "\<And>i. 0 \<le> i \<Longrightarrow> i < ngainspan q + pgainspan q + 1 \<Longrightarrow> at (buckets q) i = None"
    "ptype q = 1" "nnodes q = 0" "maxgain q = - ngainspan q"
  shows "bucket_rep q Map.empty"
proof -
  have "lists_map q (\<lambda>_. []) Map.empty"
    using assms(1-6) by (auto simp: lists_map_def blists_def in_span_def)
  then show ?thesis using assms(7-9) by (auto simp: bucket_rep_def top_gain_def)
qed

lemma bucket_reset_ok:
  assumes r: "bucket_rep q M"
  shows "\<exists>q'. PQueueReset q = Some q' \<and> bucket_rep q' Map.empty \<and> same_shape q q'"
proof -
  from r obtain L where t: "ptype q = 1" and b: "blists q L" by (auto simp: bucket_rep_def lists_map_def)
  note d = blistsD(1-5) [OF b]
  obtain cs where cs: "for_loop 0 (ngainspan q + pgainspan q + 1) (\<lambda>i bs. aset bs i None) (buckets q) = Some cs"
    "length cs = length (buckets q)" "\<forall>i. 0 \<le> i \<and> i < ngainspan q + pgainspan q + 1 \<longrightarrow> at cs i = None"
    using none_loop [of "ngainspan q + pgainspan q + 1" "buckets q"] d by auto
  let ?q = "q\<lparr>nnodes := 0, maxgain := - ngainspan q, buckets := cs\<rparr>"
  have "PQueueReset q = Some ?q" using t cs(1) by (simp add: PQueueReset_def)
  moreover have "ilen cs = ilen (buckets q)" using cs(2) by (simp add: ilen_def)
  then have "bucket_rep ?q Map.empty" using t cs(3) d by (intro empty_lists) auto
  ultimately show ?thesis by (auto simp: same_shape_def)
qed

section \<open>The contract\<close>

text \<open>Buckets exist for the gains of the span only; a heap takes every gain.\<close>

definition gain_ok :: "pqueue \<Rightarrow> int \<Rightarrow> bool" where
  "gain_ok q g \<longleftrightarrow> (ptype q = 1 \<longrightarrow> in_span q g)"

locale max_queue =
  fixes rep :: "pqueue \<Rightarrow> (int \<Rightarrow> int option) \<Rightarrow> bool"
  assumes insert_law: "rep q M \<Longrightarrow> gain_ok q g \<Longrightarrow> 0 \<le> v \<Longrightarrow> v < maxnodes q \<Longrightarrow> M v = None
      \<Longrightarrow> \<exists>q'. PQueueInsert q v g = Some q' \<and> rep q' (M(v \<mapsto> g)) \<and> same_shape q q'"
    and delete_law: "rep q M \<Longrightarrow> M v = Some g
      \<Longrightarrow> \<exists>q'. PQueueDelete q v g = Some q' \<and> rep q' (M(v := None)) \<and> same_shape q q'"
    and update_law: "rep q M \<Longrightarrow> M v = Some old \<Longrightarrow> gain_ok q new
      \<Longrightarrow> \<exists>q'. PQueueUpdate q v old new = Some q' \<and> rep q' (M(v \<mapsto> new)) \<and> same_shape q q'"
    and update_up_law: "rep q M \<Longrightarrow> M v = Some old \<Longrightarrow> gain_ok q new \<Longrightarrow> old \<le> new
      \<Longrightarrow> \<exists>q'. PQueueUpdateUp q v old new = Some q' \<and> rep q' (M(v \<mapsto> new)) \<and> same_shape q q'"
    and get_max_law: "rep q M \<Longrightarrow> M \<noteq> Map.empty
      \<Longrightarrow> \<exists>v g q'. PQueueGetMax q = Some (v, q') \<and> M v = Some g \<and> (\<forall>u k. M u = Some k \<longrightarrow> k \<le> g)
        \<and> rep q' (M(v := None)) \<and> same_shape q q'"
    and see_law: "rep q M \<Longrightarrow> M \<noteq> Map.empty
      \<Longrightarrow> \<exists>v g. PQueueSeeMax q = Some v \<and> PQueueGetKey q = Some g \<and> M v = Some g \<and> (\<forall>u k. M u = Some k \<longrightarrow> k \<le> g)"
    and reset_law: "rep q M \<Longrightarrow> \<exists>q'. PQueueReset q = Some q' \<and> rep q' Map.empty \<and> same_shape q q'"
    and size_law: "rep q M \<Longrightarrow> finite (dom M) \<and> PQueueGetSize q = int (card (dom M)) \<and> dom M \<subseteq> {0..<maxnodes q}"

text \<open>The client's loops: \<open>PQueueInsert\<close> for a list of vertices and gains, \<open>PQueueGetMax\<close> until it
  gives -1.\<close>

primrec fill :: "(int \<times> int) list \<Rightarrow> pqueue \<Rightarrow> pqueue option" where
  "fill [] q = Some q"
| "fill (x # xs) q = do { q \<leftarrow> PQueueInsert q (fst x) (snd x); fill xs q }"

primrec drain :: "nat \<Rightarrow> pqueue \<Rightarrow> int list option" where
  "drain 0 q = None"
| "drain (Suc n) q = do {
     (v, q) \<leftarrow> PQueueGetMax q;
     if v = - 1 then Some [] else map_option ((#) v) (drain n q) }"

context max_queue
begin

lemma empty_max: "rep q Map.empty \<Longrightarrow> PQueueGetMax q = Some (- 1, q)"
  using size_law [of q Map.empty] by (simp add: PQueueGetMax_def PQueueGetSize_def)

lemma fill_ok:
  assumes "rep q M" "distinct (map fst xs)" "fst ` set xs \<inter> dom M = {}"
    "\<And>v g. (v, g) \<in> set xs \<Longrightarrow> 0 \<le> v \<and> v < maxnodes q \<and> gain_ok q g"
  shows "\<exists>q'. fill xs q = Some q' \<and> rep q' (M ++ map_of xs) \<and> same_shape q q'"
  using assms
proof (induction xs arbitrary: q M)
  case Nil
  then show ?case by (simp add: same_shape_def)
next
  case (Cons x xs)
  obtain v g where x: "x = (v, g)" by (cases x)
  have "M v = None" using Cons.prems(3) x by (auto simp: dom_def)
  then obtain p where p: "PQueueInsert q v g = Some p" "rep p (M(v \<mapsto> g))" "same_shape q p"
    using insert_law [of q M g v] Cons.prems(1,4) x by auto
  have "\<exists>q'. fill xs p = Some q' \<and> rep q' (M(v \<mapsto> g) ++ map_of xs) \<and> same_shape p q'"
  proof (rule Cons.IH [OF p(2)])
    show "distinct (map fst xs)" "fst ` set xs \<inter> dom (M(v \<mapsto> g)) = {}"
      using Cons.prems(2,3) x by auto
    show "0 \<le> w \<and> w < maxnodes p \<and> gain_ok p h" if "(w, h) \<in> set xs" for w h
      using Cons.prems(4) [of w h] that p(3) by (auto simp: same_shape_def gain_ok_def in_span_def)
  qed
  then obtain q' where q': "fill xs p = Some q'" "rep q' (M(v \<mapsto> g) ++ map_of xs)" "same_shape p q'" by blast
  have "map_of xs v = None" using Cons.prems(2) x by (simp add: map_of_eq_None_iff)
  then have "M(v \<mapsto> g) ++ map_of xs = M ++ map_of (x # xs)"
    unfolding x by (auto simp: map_add_def fun_eq_iff split: option.split)
  with q'(2) have "rep q' (M ++ map_of (x # xs))" by (simp only:)
  moreover have "fill (x # xs) q = Some q'" using p(1) q'(1) x by simp
  moreover have "same_shape q q'" using p(3) q'(3) by (simp add: same_shape_def)
  ultimately show ?case by blast
qed

lemma drain_sorted:
  assumes "rep q M" "card (dom M) < n"
  shows "\<exists>vs. drain n q = Some vs \<and> distinct vs \<and> set vs = dom M
    \<and> sorted_wrt (\<lambda>u v. the (M v) \<le> the (M u)) vs"
  using assms
proof (induction n arbitrary: q M)
  case (Suc n)
  show ?case
  proof (cases "M = Map.empty")
    case True
    then show ?thesis using empty_max Suc.prems by simp
  next
    case False
    then obtain v g q' where v: "PQueueGetMax q = Some (v, q')" "M v = Some g"
      "\<And>u k. M u = Some k \<Longrightarrow> k \<le> g" "rep q' (M(v := None))"
      using get_max_law [OF Suc.prems(1)] by blast
    have s: "finite (dom M)" "v \<noteq> - 1" using size_law [OF Suc.prems(1)] v(2) by auto
    have "card (dom M - {v}) < card (dom M)" using s(1) v(2) by (intro card_Diff1_less) auto
    then have "card (dom (M(v := None))) < n" using Suc.prems(2) by simp
    from Suc.IH [OF v(4) this] obtain vs where vs: "drain n q' = Some vs" "distinct vs" "set vs = dom (M(v := None))"
      "sorted_wrt (\<lambda>x y. the ((M(v := None)) y) \<le> the ((M(v := None)) x)) vs" by blast
    have dm: "dom (M(v := None)) = dom M - {v}" by simp
    note vs = vs(1,2) vs(3) [unfolded dm] vs(4)
    have "sorted_wrt (\<lambda>x y. the (M y) \<le> the (M x)) vs"
      by (rule sorted_wrt_mono_rel [OF _ vs(4)]) (use vs(3) in auto)
    moreover have "\<forall>u \<in> set vs. the (M u) \<le> the (M v)" using vs(3) v(2,3) by auto
    ultimately show ?thesis using v(1,2) s(2) vs(1-3) by auto
  qed
qed simp

end

interpretation hq: max_queue heap_rep
proof (unfold_locales, goal_cases)
  case 1 then show ?case using heap_insert_ok by blast
next
  case 2 then show ?case using heap_delete_ok by blast
next
  case 3 then show ?case using heap_update_ok(1) by blast
next
  case 4 then show ?case using heap_update_ok(2) by blast
next
  case 5 then show ?case using heap_get_max_ok by blast
next
  case 6 then show ?case using heap_see_ok by blast
next
  case 7 then show ?case using heap_reset_ok by blast
next
  case 8 then show ?case using heap_size_ok by blast
qed

lemma bucket_gain: "bucket_rep q M \<Longrightarrow> gain_ok q g \<Longrightarrow> in_span q g"
  by (simp add: bucket_rep_def gain_ok_def)

interpretation bq: max_queue bucket_rep
proof (unfold_locales, goal_cases)
  case 1 then show ?case using bucket_insert_ok bucket_gain by blast
next
  case 2 then show ?case using bucket_delete_ok by blast
next
  case 3 then show ?case using bucket_update_ok bucket_gain by blast
next
  case 4 then show ?case using bucket_update_up_ok bucket_gain by blast
next
  case 5 then show ?case using bucket_get_max_ok by blast
next
  case 6 then show ?case using bucket_see_ok by blast
next
  case 7 then show ?case using bucket_reset_ok by blast
next
  case 8 then show ?case using bucket_size_ok by blast
qed

section \<open>The queue as it is made\<close>

definition queue_rep :: "pqueue \<Rightarrow> (int \<Rightarrow> int option) \<Rightarrow> bool" where
  "queue_rep q M \<longleftrightarrow> heap_rep q M \<or> bucket_rep q M"

interpretation pq: max_queue queue_rep
  unfolding queue_rep_def
proof (unfold_locales, goal_cases)
  case (1 q M g v) then show ?case using hq.insert_law [of q M g v] bq.insert_law [of q M g v] by blast
next
  case (2 q M v g) then show ?case using hq.delete_law [of q M v g] bq.delete_law [of q M v g] by blast
next
  case (3 q M v old new) then show ?case using hq.update_law [of q M v old new] bq.update_law [of q M v old new] by blast
next
  case (4 q M v old new) then show ?case using hq.update_up_law [of q M v old new] bq.update_up_law [of q M v old new] by blast
next
  case (5 q M) then show ?case using hq.get_max_law [of q M] bq.get_max_law [of q M] by blast
next
  case (6 q M) then show ?case using hq.see_law [of q M] bq.see_law [of q M] by blast
next
  case (7 q M) then show ?case using hq.reset_law [of q M] bq.reset_law [of q M] by blast
next
  case (8 q M) then show ?case using hq.size_law [of q M] bq.size_law [of q M] by blast
qed

lemma ident_loop:
  assumes "0 \<le> n" "ilen ns = n"
  shows "\<exists>ms. for_loop 0 n (\<lambda>i ns. do { n \<leftarrow> aget ns i; aset ns i (n\<lparr>ident := i\<rparr>) }) ns = Some ms
    \<and> ilen ms = n \<and> (\<forall>v. 0 \<le> v \<and> v < n \<longrightarrow> ident (at ms v) = v)"
proof -
  have "\<exists>ms. for_loop 0 n (\<lambda>i ns. do { n \<leftarrow> aget ns i; aset ns i (n\<lparr>ident := i\<rparr>) }) ns = Some ms
    \<and> (ilen ms = n \<and> (\<forall>v. 0 \<le> v \<and> v < n \<longrightarrow> ident (at ms v) = v))"
  proof (rule for_loop_rule [where P = "\<lambda>i ms. ilen ms = n \<and> (\<forall>v. 0 \<le> v \<and> v < i \<longrightarrow> ident (at ms v) = v)"])
    fix i t
    assume "0 \<le> i" "i < n" "ilen t = n \<and> (\<forall>v. 0 \<le> v \<and> v < i \<longrightarrow> ident (at t v) = v)"
    then show "\<exists>t'. do { n \<leftarrow> aget t i; aset t i (n\<lparr>ident := i\<rparr>) } = Some t'
        \<and> ilen t' = n \<and> (\<forall>v. 0 \<le> v \<and> v < i + 1 \<longrightarrow> ident (at t' v) = v)"
      by (auto simp: arr)
  qed (use assms in auto)
  then show ?thesis by blast
qed

text \<open>\<open>PQueueInit\<close> makes an empty queue. A heap has to fit into the workspace; buckets are allocated
  elsewhere when they do not.\<close>

lemma malloc_ok: "ccore c + pad2 n \<le> maxcore c \<Longrightarrow>
    idxwspacemalloc c n = Some (fresh c n, c\<lparr>ccore := ccore c + pad2 n\<rparr>)"
  by (simp add: idxwspacemalloc_def fresh_def Let_def)

lemma pad2_bounds: "n \<le> pad2 n" "pad2 n \<le> n + 1"
  by (simp_all add: pad2_def)

lemma bucket_space_ok:
  assumes "0 \<le> ln * n" "0 \<le> pn * j"
  shows "\<exists>mf c'. \<forall>q. bucket_space ln pn c n j q = Some (q\<lparr>mustfree := mf\<rparr>, c')"
proof (cases "WspaceAvail c > 2 + ln * n + pn * j")
  case True
  let ?c1 = "c\<lparr>ccore := ccore c + pad2 (ln * n)\<rparr>"
  have "idxwspacemalloc c (ln * n) = Some (fresh c (ln * n), ?c1)"
    "\<exists>c'. idxwspacemalloc ?c1 (pn * j) = Some (fresh ?c1 (pn * j), c')"
    using malloc_ok [of c "ln * n"] malloc_ok [of ?c1 "pn * j"] True assms
      pad2_bounds [of "ln * n"] pad2_bounds [of "pn * j"]
    by (simp_all add: WspaceAvail_def)
  then show ?thesis using True by (auto simp: bucket_space_def)
qed (auto simp: bucket_space_def)

lemma PQueueInit_ok:
  assumes n: "0 \<le> n" and g: "0 \<le> maxg" and s: "0 \<le> ln" "0 \<le> pn"
    and room: "ccore c + pad2 (2 * n) + pad2 n \<le> maxcore c"
  shows "\<exists>q c'. PQueueInit ln pn c n maxg = Some (q, c') \<and> queue_rep q Map.empty \<and> maxnodes q = n
    \<and> (\<forall>g. - maxg \<le> g \<and> g \<le> maxg \<longrightarrow> gain_ok q g)"
proof (cases "maxg > PLUS_GAINSPAN \<or> n < 500")
  case True
  let ?c1 = "c\<lparr>ccore := ccore c + pad2 (2 * n)\<rparr>"
  let ?c2 = "?c1\<lparr>ccore := ccore ?c1 + pad2 n\<rparr>"
  have "0 \<le> pad2 n" using n by (simp add: pad2_def)
  then have m: "idxwspacemalloc c (2 * n) = Some (fresh c (2 * n), ?c1)"
    "idxwspacemalloc ?c1 n = Some (fresh ?c1 n, ?c2)"
    using malloc_ok [of c "2 * n"] malloc_ok [of ?c1 n] room by simp_all
  obtain L where L: "idxset n (- 1) (fresh ?c1 n) = Some L" "length L = nat n"
    "\<forall>i. 0 \<le> i \<and> i < n \<longrightarrow> at L i = - 1"
    using idxset_spec [of n "fresh ?c1 n" "- 1"] n by auto
  let ?q = "\<lparr>ptype = 2, nnodes = 0, maxnodes = n, mustfree = junk c 0, pgainspan = junk c 1,
    ngainspan = junk c 2, maxgain = junk c 3, nodes = [], buckets = [], heap = fresh_heap ?c2 n, locator = L\<rparr>"
  have "PQueueInit ln pn c n maxg = Some (?q, ?c2)"
    using True m L(1) by (simp add: PQueueInit_def)
  moreover have "ilen (fresh_heap ?c2 n) = n" "ilen L = n" using n L(2) by (simp_all add: fresh_heap_def ilen_def)
  then have "heap_rep ?q Map.empty" using hrep_empty [of n "fresh_heap ?c2 n" L] n L(3) by (simp add: heap_rep_def)
  ultimately show ?thesis by (auto simp: queue_rep_def gain_ok_def)
next
  case False
  let ?pg = "min PLUS_GAINSPAN maxg" and ?ng = "min NEG_GAINSPAN maxg"
  let ?j = "?ng + ?pg + 1"
  have span: "?pg = maxg" "?ng = maxg" using False by (auto simp: PLUS_GAINSPAN_def NEG_GAINSPAN_def)
  have lnn: "0 \<le> ln * n" "0 \<le> pn * ?j" using n s g span by simp_all
  obtain mf c' where m: "\<And>q. bucket_space ln pn c n ?j q = Some (q\<lparr>mustfree := mf\<rparr>, c')"
    using bucket_space_ok [OF lnn] by blast
  obtain ns where ns: "for_loop 0 n (\<lambda>i ns. do { n \<leftarrow> aget ns i; aset ns i (n\<lparr>ident := i\<rparr>) }) (fresh_nodes c' n) = Some ns"
    "ilen ns = n" "\<forall>v. 0 \<le> v \<and> v < n \<longrightarrow> ident (at ns v) = v"
    using ident_loop [of n "fresh_nodes c' n"] n by (auto simp: fresh_nodes_def ilen_def)
  obtain bs where bs: "for_loop 0 ?j (\<lambda>i bs. aset bs i None) (map Some (fresh c' ?j)) = Some bs"
    "length bs = nat ?j" "\<forall>i. 0 \<le> i \<and> i < ?j \<longrightarrow> at bs i = None"
    using none_loop [of ?j "map Some (fresh c' ?j)"] g span by (auto simp: ilen_def)
  let ?q = "\<lparr>ptype = 1, nnodes = 0, maxnodes = n, mustfree = mf, pgainspan = ?pg,
    ngainspan = ?ng, maxgain = - ?ng, nodes = ns, buckets = bs, heap = [], locator = []\<rparr>"
  have "PQueueInit ln pn c n maxg = Some (?q, c')"
    using False ns(1) bs(1) m by (simp add: PQueueInit_def)
  moreover have "bucket_rep ?q Map.empty"
    by (rule empty_lists) (use ns bs g span in \<open>auto simp: ilen_def\<close>)
  ultimately show ?thesis using span by (auto simp: queue_rep_def gain_ok_def in_span_def)
qed

end
