(* ===== verification/Mt_Props.thy ===== *)
theory Mt_Props
  imports Mt_Coarsen Mt_Queue
begin

text \<open>
  The properties of the METIS routines that the hop assignment calls, with their instances on small
  graphs.
\<close>

section \<open>Examples\<close>

text \<open>Bounded statements over a concrete bound, so that instances are evaluated.\<close>

lemma below_upto: "(\<forall>i. 0 \<le> i \<and> i < n \<longrightarrow> P i) \<longleftrightarrow> (\<forall>i \<in> set [0..n - 1]. P (i :: int))"
  by (simp add: Ball_def)

lemma ilen_Cons [simp]: "ilen (x # xs) = ilen xs + 1"
  by (simp add: ilen_def)

text \<open>A path of four vertices with the weights 5, 1, 5 on its edges, as the caller passes it, and
  the graph that \<open>SetUpGraph\<close> makes of it.\<close>

definition ex_ctrl :: ctrl where
  "ex_ctrl = \<lparr>CType = MATCH_SHEM, RType = 1, CoarsenTo = 1, maxvwgt = 10, maxcore = 5000, ccore = 0,
     auxlen = 100, junk = (\<lambda>_. 0), rand_at = (\<lambda>_. 0), rand_pos = 0\<rparr>"

definition ex_graph :: mgraph where
  "ex_graph = \<lparr>nvtxs = 4, nedges = 6, xadj = [0, 1, 3, 5, 6], vwgt = Some [1, 2, 3, 4],
     adjncy = [1, 0, 2, 1, 3, 2], adjwgt = Some [5, 5, 1, 1, 5, 5], adjwgtsum = [5, 6, 6, 5],
     cmap = [0, 0, 0, 0]\<rparr>"

lemma upto_evals: "[0..3] = [0, 1, 2, 3 :: int]" "[0..5] = [0, 1, 2, 3, 4, 5 :: int]" "[0..0] = [0 :: int]" "[0..2] = [0, 1, 2 :: int]"
  by (simp_all add: upto.simps)

lemma ex_csr: "csr ex_graph"
  by (simp add: csr_def below_upto ex_graph_def upto_evals at_def)

lemma ex_wf: "wf_graph ex_graph"
proof -
  have r: "row ex_graph 0 = {0}" "row ex_graph 1 = {1, 2}" "row ex_graph 2 = {3, 4}" "row ex_graph 3 = {5}"
    by (auto simp: row_def ex_graph_def at_def)
  have "\<forall>i. 0 \<le> i \<and> i < nvtxs ex_graph \<longrightarrow> at (adjwgtsum ex_graph) i = rowsum ex_graph (\<lambda>_. 1) i"
    unfolding below_upto rowsum_def by (simp add: ex_graph_def upto_evals r [unfolded ex_graph_def] ewgt_def at_def)
  then show ?thesis using ex_csr by (simp add: wf_graph_def ex_graph_def)
qed

lemma ex_ready: "weighted ex_graph" "match_room ex_ctrl ex_graph" "0 < nvtxs ex_graph"
  by (simp_all add: weighted_def match_room_def ex_graph_def ex_ctrl_def pad2_def HTLENGTH_def)

section \<open>Coarsening\<close>

text \<open>C5. \<open>Coarsen2Way\<close> ends, for graphs of fewer than 2^32 vertices, on every stream of random
  numbers, without leaving its arrays or the workspace. The coarsest graph is well formed, and a
  partition of it, projected back through all levels, cuts the same weight of edges and has the same
  weight in every part on the input graph. The loop stops because the graph is small enough, because it
  shrank by less than a tenth, or because few edges are left. The matching is one of the four of coarsen.c. With random and
  heavy edge matchings the graph is any. With the sorted heavy edge matchings (\<open>MATCH_SHEM\<close>, the default of kmetis.c,
  and \<open>MATCH_SHEMKWAY\<close>) it has fewer than \<open>8 * HTLENGTH\<close> = 16376 vertices or is in one piece, that is, edges
  lead out of every set of some but not all vertices (\<open>ctype_ok\<close>): then no level sends a pair that is
  not adjacent through the hash table of the contraction, which can drop edges of such pairs.\<close>

theorem coarsening_keeps_cuts:
  assumes "wf_graph g" "weighted g \<or> vwgt g = None \<and> adjwgt g = None" "match_room c g" "0 < nvtxs g"
    and "ctype_ok (matching_ctrl c) g" "nvtxs g < 2 ^ 32"
  shows "\<exists>finer cg c'. Coarsen2Way c g = Some (finer, cg, c') \<and> finer \<noteq> [] \<and> wf_graph cg \<and> weighted cg
    \<and> 0 < nvtxs cg \<and> nvtxs cg \<le> nvtxs g
    \<and> (\<forall>p. cut2 cg p = cut2 g (project_levels finer p) \<and> part_weight cg p = part_weight g (project_levels finer p))
    \<and> (nvtxs cg \<le> CoarsenTo c \<or> \<not> less_09 (nvtxs cg) (nvtxs (hd finer)) \<or> nedges cg \<le> nvtxs cg div 2)"
  by (rule Coarsen2Way_ok [OF assms])

theorem coarsening_keeps_cuts_witness:
  "\<exists>finer cg c'. Coarsen2Way ex_ctrl ex_graph = Some (finer, cg, c') \<and> finer \<noteq> [] \<and> wf_graph cg \<and> weighted cg
    \<and> 0 < nvtxs cg \<and> nvtxs cg \<le> nvtxs ex_graph
    \<and> (\<forall>p. cut2 cg p = cut2 ex_graph (project_levels finer p)
          \<and> part_weight cg p = part_weight ex_graph (project_levels finer p))
    \<and> (nvtxs cg \<le> CoarsenTo ex_ctrl \<or> \<not> less_09 (nvtxs cg) (nvtxs (hd finer)) \<or> nedges cg \<le> nvtxs cg div 2)"
proof (rule coarsening_keeps_cuts [OF ex_wf _ ex_ready(2,3)])
  show "weighted ex_graph \<or> vwgt ex_graph = None \<and> adjwgt ex_graph = None" using ex_ready(1) by blast
qed (simp_all add: ex_ctrl_def matching_ctrl_def ctype_ok_def MATCH_SHEM_def ex_graph_def HTLENGTH_def)

text \<open>C14. Both versions of \<open>CreateCoarseGraph\<close>, with the table and with the hash table, build the
  same coarse graph of a matching whose pairs are joined by an edge: the row of a pair is the reference
  row, which adds up the edges of both members by their coarse ends and drops the edge inside, and the
  weight is the sum of both; the workspace is left as it was.\<close>

theorem contraction_rows:
  assumes "wf_graph g" "weighted g" "matching_ok g n mat perm" "contract_room c g n" "pairs_adjacent g mat"
  shows "(\<exists>cg. CreateCoarseGraph c g n mat perm = Some (cg, c) \<and> coarse_of g mat n cg)
    \<and> (\<exists>cg. CreateCoarseGraphNoMask c g n mat perm = Some (cg, c) \<and> coarse_of g mat n cg)
    \<and> (\<exists>cg. contract entry_mask del_mask reset_mask (nget (vwgt g)) (nget (adjwgt g)) (HTLENGTH + 1)
          c g n mat perm = Some (cg, c) \<and> coarse_of g mat n cg)"
  using CreateCoarseGraph_ok [OF assms] CreateCoarseGraphNoMask_ok [OF assms(1-4)]
    contract_mask_ok [OF assms(1,3-5), of "nget (adjwgt g)" "nget (vwgt g)"] accessors [OF assms(1,2)]
  by blast

text \<open>The path with its two outer edges matched.\<close>

definition ex_matched :: mgraph where
  "ex_matched = ex_graph\<lparr>cmap := [0, 0, 1, 1]\<rparr>"

lemma below_4: "0 \<le> v \<and> v < (4 :: int) \<longleftrightarrow> v = 0 \<or> v = 1 \<or> v = 2 \<or> v = 3"
  by auto

lemma ex_perm: "perm_on 4 [0, 1, 2, 3]"
  unfolding perm_on_def bij_betw_def inj_on_def
  by (auto simp: at_def nth_Cons' image_iff) presburger+

lemma ex_matching: "matching_ok ex_matched 2 [1, 0, 3, 2] [0, 1, 2, 3]"
proof -
  let ?m = "[1, 0, 3, 2 :: int]" and ?c = "[0, 0, 1, 1 :: int]" and ?p = "[0, 1, 2, 3 :: int]"
  have [simp]: "nvtxs ex_matched = 4" "cmap ex_matched = ?c" by (simp_all add: ex_matched_def ex_graph_def)
  have 1: "0 \<le> at ?m v \<and> at ?m v < 4 \<and> at ?m (at ?m v) = v \<and> at ?c (at ?m v) = at ?c v \<and> 0 \<le> at ?c v \<and> at ?c v < 2"
    if "0 \<le> v \<and> v < 4" for v using that unfolding below_4 by (auto simp: at_def)
  have 2: "w = v \<or> w = at ?m v" if "0 \<le> v \<and> v < 4" "0 \<le> w \<and> w < 4" "at ?c v = at ?c w" for v w
    using that unfolding below_4 by (auto simp: at_def)
  have 3: "\<exists>v. 0 \<le> v \<and> v < 4 \<and> at ?c v = d" if "0 \<le> d" "d < 2" for d
  proof -
    have "d = 0 \<or> d = 1" using that by auto
    then have "0 \<le> 2 * d \<and> 2 * d < 4 \<and> at ?c (2 * d) = d" by (auto simp: at_def)
    then show ?thesis by blast
  qed
  have 4: "\<exists>i. 0 \<le> i \<and> i < j \<and> at ?c (at ?p i) = d" if "0 \<le> j \<and> j < 4" "0 \<le> d" "d < at ?c (at ?p j)" for j d
  proof -
    have "0 < j \<and> d = 0" using that unfolding below_4 by (auto simp: at_def)
    then have "0 \<le> (0::int) \<and> 0 < j \<and> at ?c (at ?p 0) = d" by (simp add: at_def)
    then show ?thesis by blast
  qed
  show ?thesis unfolding matching_ok_def using ex_perm 1 2 3 4 by (auto simp: at_def)
qed

lemma ex_matched_facts: "wf_graph ex_matched" "weighted ex_matched" "contract_room ex_ctrl ex_matched 2"
  "pairs_adjacent ex_matched [1, 0, 3, 2]"
proof -
  show "wf_graph ex_matched" using wf_cmap [OF ex_wf, of "[0, 0, 1, 1]"] by (simp add: ex_matched_def ex_graph_def)
  show "weighted ex_matched" "contract_room ex_ctrl ex_matched 2"
    by (simp_all add: ex_matched_def ex_graph_def weighted_def contract_room_def ex_ctrl_def pad2_def HTLENGTH_def)
  have "row ex_matched 0 = {0}" "row ex_matched 1 = {1, 2}" "row ex_matched 2 = {3, 4}" "row ex_matched 3 = {5}"
    by (auto simp: row_def ex_matched_def ex_graph_def at_def)
  then show "pairs_adjacent ex_matched [1, 0, 3, 2]"
    unfolding pairs_adjacent_def by (auto simp: below_upto upto_evals ex_matched_def ex_graph_def at_def)
qed

theorem contraction_rows_witness:
  "(\<exists>cg. CreateCoarseGraph ex_ctrl ex_matched 2 [1, 0, 3, 2] [0, 1, 2, 3] = Some (cg, ex_ctrl)
      \<and> coarse_of ex_matched [1, 0, 3, 2] 2 cg)
    \<and> (\<exists>cg. CreateCoarseGraphNoMask ex_ctrl ex_matched 2 [1, 0, 3, 2] [0, 1, 2, 3] = Some (cg, ex_ctrl)
      \<and> coarse_of ex_matched [1, 0, 3, 2] 2 cg)
    \<and> (\<exists>cg. contract entry_mask del_mask reset_mask (nget (vwgt ex_matched)) (nget (adjwgt ex_matched)) (HTLENGTH + 1)
          ex_ctrl ex_matched 2 [1, 0, 3, 2] [0, 1, 2, 3] = Some (cg, ex_ctrl)
      \<and> coarse_of ex_matched [1, 0, 3, 2] 2 cg)"
  by (rule contraction_rows [OF ex_matched_facts(1,2) ex_matching ex_matched_facts(3,4)])

text \<open>C26. \<open>Match_SHEM\<close> computes a matching and contracts it, on every stream of random numbers: each
  vertex is matched with itself or with one other; a pair is joined by an edge and its weights add up
  to at most \<open>maxvwgt\<close>, unless one of the two has no edges at all. With the hash table, graphs
  with isolated vertices are excluded.\<close>

theorem sorted_matching:
  assumes "wf_graph g" "weighted g" "match_room c g" "0 < nvtxs g"
    and "nvtxs g < 8 * HTLENGTH \<or> (\<forall>v. 0 \<le> v \<and> v < nvtxs g \<longrightarrow> \<not> island g v)"
  shows "\<exists>t. Match_SHEM c g = Some t \<and> coarsened (shem_rel (maxvwgt c) g) c g t"
  by (rule Match_SHEM_ok [OF assms])

theorem sorted_matching_witness:
  "\<exists>t. Match_SHEM ex_ctrl ex_graph = Some t \<and> coarsened (shem_rel (maxvwgt ex_ctrl) ex_graph) ex_ctrl ex_graph t"
  by (rule sorted_matching [OF ex_wf ex_ready]) (simp add: ex_graph_def HTLENGTH_def)

text \<open>C31. \<open>BucketSortKeysInc\<close> makes \<open>perm\<close> a permutation that sorts the keys, and equal keys keep the order
  they have in \<open>tperm\<close>.\<close>

theorem bucket_sort_stable:
  assumes "0 \<le> n" "n \<le> ilen keys" "n \<le> ilen perm" "perm_on n tperm"
    and "\<And>i. 0 \<le> i \<Longrightarrow> i < n \<Longrightarrow> 0 \<le> at keys i \<and> at keys i \<le> maxkey" "0 \<le> maxkey"
  shows "\<exists>p. BucketSortKeysInc n maxkey keys tperm perm = Some p \<and> length p = length perm \<and> perm_on n p
    \<and> (\<forall>i j. 0 \<le> i \<and> i < j \<and> j < n \<longrightarrow> at keys (at p i) \<le> at keys (at p j))
    \<and> (\<forall>i j a b. 0 \<le> i \<and> i < j \<and> j < n \<and> at keys (at p i) = at keys (at p j)
         \<and> 0 \<le> a \<and> a < n \<and> 0 \<le> b \<and> b < n \<and> at tperm a = at p i \<and> at tperm b = at p j \<longrightarrow> a < b)"
  by (rule BucketSortKeysInc_sorts [OF assms])

theorem bucket_sort_stable_witness:
  "\<exists>p. BucketSortKeysInc 4 2 [2, 0, 2, 1] [0, 1, 2, 3] [7, 7, 7, 7] = Some p \<and> perm_on 4 p
    \<and> at [2, 0, 2, 1 :: int] (at p 0) \<le> at [2, 0, 2, 1] (at p 1)"
proof -
  let ?k = "[2, 0, 2, 1] :: int list" and ?t = "[0, 1, 2, 3] :: int list"
  have k: "0 \<le> at ?k i \<and> at ?k i \<le> 2" if "0 \<le> i" "i < 4" for i
    using below_4 [of i] that by (auto simp: at_def)
  have "4 \<le> ilen ?k" "4 \<le> ilen [7, 7, 7, 7 :: int]" by simp_all
  from bucket_sort_stable [OF _ this ex_perm k]
  obtain p where p: "BucketSortKeysInc 4 2 ?k ?t [7, 7, 7, 7] = Some p" "perm_on 4 p"
    "\<forall>i j. 0 \<le> i \<and> i < j \<and> j < 4 \<longrightarrow> at ?k (at p i) \<le> at ?k (at p j)" by auto
  from p(3) [rule_format, of 0 1] p(1,2) show ?thesis by auto
qed

text \<open>C32. A graph set up from the arrays of the caller is well formed: its weight sums are the sums of
  the rows, missing weights are 1 (or absent when both are missing and the caller is the k-way
  partitioner).\<close>

theorem setup_well_formed:
  assumes "input_ok nv xa adj vw aw wgtflag"
  shows "\<exists>g. SetUpGraph c k nv xa adj vw aw wgtflag = Some g \<and> wf_graph g
    \<and> nvtxs g = nv \<and> xadj g = xa \<and> adjncy g = adj
    \<and> (wgtflag AND 2 \<noteq> 0 \<longrightarrow> vwgt g = vw) \<and> (wgtflag AND 1 \<noteq> 0 \<longrightarrow> adjwgt g = aw)
    \<and> (\<not> (k \<and> wgtflag AND 2 = 0 \<and> wgtflag AND 1 = 0) \<longrightarrow> weighted g)"
  by (rule SetUpGraph_wf [OF assms])

theorem setup_well_formed_witness:
  "\<exists>g. SetUpGraph ex_ctrl True 4 [0, 1, 3, 5, 6] [1, 0, 2, 1, 3, 2] (Some [1, 2, 3, 4]) (Some [5, 5, 1, 1, 5, 5]) 3 = Some g
    \<and> wf_graph g"
proof -
  have "input_ok 4 [0, 1, 3, 5, 6] [1, 0, 2, 1, 3, 2] (Some [1, 2, 3, 4]) (Some [5, 5, 1, 1, 5, 5]) 3"
    using ex_csr unfolding input_ok_def by (simp add: csr_def ex_graph_def at_def)
  from setup_well_formed [OF this, of ex_ctrl True] show ?thesis by auto
qed

text \<open>The conversions between Fortran and C numbering undo each other: after a partition of arrays
  numbered from 1, \<open>xadj\<close> and \<open>adjncy\<close> are what the caller passed, and the parts count from 1.\<close>

theorem numbering_roundtrip:
  assumes "Change2CNumbering nv xs adj = Some (x, a)" "0 \<le> nv" "nv < ilen xs"
    "1 \<le> at xs nv" "at xs nv - 1 \<le> ilen adj" "nv \<le> ilen part"
  shows "Change2FNumbering2 nv x a = Some (xs, adj)
    \<and> (\<exists>p. Change2FNumbering nv x a part = Some (xs, adj, p)
        \<and> (\<forall>i. 0 \<le> i \<and> i < nv \<longrightarrow> at p i = at part i + 1))"
proof -
  from assms(1) obtain ne where x: "bump (- 1) (nv + 1) xs = Some x" "aget x nv = Some ne"
    and a: "bump (- 1) ne adj = Some a" by (auto simp: Change2CNumbering_def Option.bind_eq_Some_conv)
  have v: "at x nv = at xs nv - 1"
  proof -
    have "x = map (\<lambda>v. v - 1) (take (nat (nv + 1)) xs) @ drop (nat (nv + 1)) xs"
      using bump_spec [of "nv + 1" xs "- 1"] x(1) assms(2,3) by simp
    then show ?thesis using assms(2,3) by (auto simp: at_def ilen_def nth_append)
  qed
  have ne: "ne = at xs nv - 1" using aget_SomeD [OF x(2)] v by simp
  note bx = bump_back [OF _ _ x(1)] and ba = bump_back [OF _ _ a]
  have b: "bump 1 (nv + 1) x = Some xs" "bump 1 ne a = Some adj"
    using bx(2) ba(2) assms(2-5) ne by simp_all
  have p: "bump 1 nv part = Some (map (\<lambda>v. v + 1) (take (nat nv) part) @ drop (nat nv) part)"
    using bump_spec [of nv part 1] assms(2,6) by simp
  have "at (map (\<lambda>v. v + 1) (take (nat nv) part) @ drop (nat nv) part) i = at part i + 1"
    if "0 \<le> i" "i < nv" for i
    using that assms(6) by (auto simp: at_def ilen_def nth_append)
  with b p x(2) show ?thesis by (simp add: Change2FNumbering2_def Change2FNumbering_def)
qed

theorem numbering_roundtrip_witness:
  "Change2FNumbering2 2 [0, 1, 2] [1, 0] = Some ([1, 2, 3], [2, 1])
    \<and> (\<exists>p. Change2FNumbering 2 [0, 1, 2] [1, 0] [0, 1] = Some ([1, 2, 3], [2, 1], p)
        \<and> (\<forall>i. 0 \<le> i \<and> i < 2 \<longrightarrow> at p i = at [0, 1] i + 1))"
  by (rule numbering_roundtrip [of 2 "[1, 2, 3]" "[2, 1]" "[0, 1, 2]" "[1, 0]" "[0, 1]"])
    (simp_all add: Change2CNumbering_def bump_spec aget_def at_def)

section \<open>The queue\<close>

text \<open>The operations as commands: what each does to the queue, when the refinement may call it, and
  what it means for the map from vertices to gains. \<open>QGetMax\<close> may give any vertex of the largest gain.\<close>

datatype queue_op = QInsert int int | QDelete int int | QUpdate int int int | QUpdateUp int int int
  | QGetMax | QSeeMax | QReset

fun queue_do :: "queue_op \<Rightarrow> pqueue \<Rightarrow> (int \<times> pqueue) option" where
  "queue_do (QInsert v g) q = map_option (Pair 0) (PQueueInsert q v g)"
| "queue_do (QDelete v g) q = map_option (Pair 0) (PQueueDelete q v g)"
| "queue_do (QUpdate v g h) q = map_option (Pair 0) (PQueueUpdate q v g h)"
| "queue_do (QUpdateUp v g h) q = map_option (Pair 0) (PQueueUpdateUp q v g h)"
| "queue_do QGetMax q = PQueueGetMax q"
| "queue_do QSeeMax q = do { k \<leftarrow> PQueueGetKey q; v \<leftarrow> PQueueSeeMax q; Some (v, q) }"
| "queue_do QReset q = map_option (Pair 0) (PQueueReset q)"

fun queue_may :: "queue_op \<Rightarrow> pqueue \<Rightarrow> (int \<Rightarrow> int option) \<Rightarrow> bool" where
  "queue_may (QInsert v g) q M \<longleftrightarrow> 0 \<le> v \<and> v < maxnodes q \<and> M v = None \<and> gain_ok q g"
| "queue_may (QDelete v g) q M \<longleftrightarrow> M v = Some g"
| "queue_may (QUpdate v g h) q M \<longleftrightarrow> M v = Some g \<and> gain_ok q h"
| "queue_may (QUpdateUp v g h) q M \<longleftrightarrow> M v = Some g \<and> gain_ok q h \<and> g \<le> h"
| "queue_may _ q M \<longleftrightarrow> True"

fun map_do :: "queue_op \<Rightarrow> int \<Rightarrow> (int \<Rightarrow> int option) \<Rightarrow> int \<Rightarrow> int option" where
  "map_do (QInsert v g) r M = M(v \<mapsto> g)"
| "map_do (QDelete v g) r M = M(v := None)"
| "map_do (QUpdate v g h) r M = M(v \<mapsto> h)"
| "map_do (QUpdateUp v g h) r M = M(v \<mapsto> h)"
| "map_do QGetMax r M = M(r := None)"
| "map_do QSeeMax r M = M"
| "map_do QReset r M = Map.empty"

definition max_answer :: "queue_op \<Rightarrow> int \<Rightarrow> (int \<Rightarrow> int option) \<Rightarrow> bool" where
  "max_answer op r M \<longleftrightarrow> (op = QGetMax \<or> op = QSeeMax \<longrightarrow>
     (if M = Map.empty then r = - 1 else \<exists>g. M r = Some g \<and> (\<forall>u k. M u = Some k \<longrightarrow> k \<le> g)))"

text \<open>The queues of a run that starts with \<open>PQueueInit\<close>, with the map the run has built.\<close>

inductive queue_run :: "int \<Rightarrow> int \<Rightarrow> pqueue \<Rightarrow> (int \<Rightarrow> int option) \<Rightarrow> bool" for n maxg where
  run_init: "0 \<le> ln \<Longrightarrow> 0 \<le> pn \<Longrightarrow> ccore c + pad2 (2 * n) + pad2 n \<le> maxcore c
    \<Longrightarrow> PQueueInit ln pn c n maxg = Some (q, c') \<Longrightarrow> queue_run n maxg q Map.empty"
| run_step: "queue_run n maxg q M \<Longrightarrow> queue_may op q M \<Longrightarrow> queue_do op q = Some (r, q')
    \<Longrightarrow> queue_run n maxg q' (map_do op r M)"

lemma queue_step:
  assumes "queue_rep q M" "queue_may op q M"
  shows "\<exists>r q'. queue_do op q = Some (r, q') \<and> queue_rep q' (map_do op r M) \<and> same_shape q q' \<and> max_answer op r M"
proof (cases op)
  case (QInsert v g)
  then show ?thesis using pq.insert_law [OF assms(1), of g v] assms(2) by (auto simp: max_answer_def)
next
  case (QDelete v g)
  then show ?thesis using pq.delete_law [OF assms(1), of v g] assms(2) by (auto simp: max_answer_def)
next
  case (QUpdate v g h)
  then show ?thesis using pq.update_law [OF assms(1), of v g h] assms(2) by (auto simp: max_answer_def)
next
  case (QUpdateUp v g h)
  then show ?thesis using pq.update_up_law [OF assms(1), of v g h] assms(2) by (auto simp: max_answer_def)
next
  case QGetMax
  show ?thesis
  proof (cases "M = Map.empty")
    case True
    with assms(1) have "PQueueGetMax q = Some (- 1, q)" using pq.empty_max by blast
    with True QGetMax assms(1) show ?thesis by (simp add: max_answer_def same_shape_def)
  next
    case False
    with pq.get_max_law [OF assms(1) False] QGetMax show ?thesis by (auto simp: max_answer_def)
  qed
next
  case QSeeMax
  show ?thesis
  proof (cases "M = Map.empty")
    case True
    with assms(1) have "nnodes q = 0" using pq.size_law [of q M] by (simp add: PQueueGetSize_def)
    with True QSeeMax assms(1) show ?thesis
      by (simp add: max_answer_def same_shape_def PQueueGetKey_def PQueueSeeMax_def)
  next
    case False
    with pq.see_law [OF assms(1) False] QSeeMax assms(1) show ?thesis by (auto simp: max_answer_def same_shape_def)
  qed
next
  case QReset
  then show ?thesis using pq.reset_law [OF assms(1)] by (auto simp: max_answer_def)
qed

lemma queue_run_rep:
  assumes "queue_run n maxg q M" "0 \<le> n" "0 \<le> maxg"
  shows "queue_rep q M \<and> maxnodes q = n \<and> (\<forall>g. - maxg \<le> g \<and> g \<le> maxg \<longrightarrow> gain_ok q g)"
  using assms(1)
proof induction
  case (run_init ln pn c q c')
  with PQueueInit_ok [OF assms(2,3) run_init(1-3)] show ?case by auto
next
  case (run_step q M op r q')
  with queue_step [of q M op] show ?case by (auto simp: same_shape_def gain_ok_def in_span_def)
qed

text \<open>C13. The queue refines a map from vertices to gains: after any run of the operations from
  \<open>PQueueInit\<close>, each with its precondition, every permitted operation ends inside the arrays and does
  to the map what it should, \<open>PQueueGetMax\<close> takes and \<open>PQueueSeeMax\<close> shows a vertex of the largest gain
  (-1 when there is none), gains up to \<open>maxgain\<close> are accepted, and the size is the number of vertices.
  This holds for the buckets and for the heap.\<close>

theorem queue_refines_map:
  assumes "queue_run n maxg q M" "0 \<le> n" "0 \<le> maxg"
  shows "PQueueGetSize q = int (card (dom M)) \<and> dom M \<subseteq> {0..<n} \<and> (\<forall>g \<in> {- maxg..maxg}. gain_ok q g)
    \<and> (\<forall>op. queue_may op q M \<longrightarrow> (\<exists>r q'. queue_do op q = Some (r, q') \<and> max_answer op r M
         \<and> queue_run n maxg q' (map_do op r M)))"
proof -
  from queue_run_rep [OF assms] have r: "queue_rep q M" "maxnodes q = n" "\<forall>g. - maxg \<le> g \<and> g \<le> maxg \<longrightarrow> gain_ok q g"
    by auto
  then show ?thesis using pq.size_law [OF r(1)] queue_step [OF r(1)] queue_run.run_step [OF assms(1)] by fastforce
qed

theorem queue_refines_map_witness:
  "\<exists>q. queue_run 3 7 q Map.empty \<and> queue_may (QInsert 1 5) q Map.empty
    \<and> (\<exists>r q'. queue_do (QInsert 1 5) q = Some (r, q') \<and> queue_run 3 7 q' [1 \<mapsto> 5])"
proof -
  obtain q c' where q: "PQueueInit 3 1 ex_ctrl 3 7 = Some (q, c')" "maxnodes q = 3"
    "\<forall>g. - 7 \<le> g \<and> g \<le> 7 \<longrightarrow> gain_ok q g"
    using PQueueInit_ok [of 3 7 3 1 ex_ctrl] by (auto simp: ex_ctrl_def pad2_def)
  have run: "queue_run 3 7 q Map.empty"
    by (rule queue_run.run_init [OF _ _ _ q(1)]) (simp_all add: ex_ctrl_def pad2_def)
  have may: "queue_may (QInsert 1 5) q Map.empty" using q by simp
  with queue_refines_map [OF run] run show ?thesis by fastforce
qed

text \<open>Filling a new queue with vertices and gains and taking the maximum until the answer is -1 gives
  each vertex once, by decreasing gain, whichever representation \<open>PQueueInit\<close> chose.\<close>

theorem queue_sorts_gains:
  assumes "PQueueInit ln pn c n maxg = Some (q, c')" "0 \<le> n" "0 \<le> maxg" "0 \<le> ln" "0 \<le> pn"
    "ccore c + pad2 (2 * n) + pad2 n \<le> maxcore c"
    and xs: "distinct (map fst xs)" "\<And>v g. (v, g) \<in> set xs \<Longrightarrow> 0 \<le> v \<and> v < n \<and> - maxg \<le> g \<and> g \<le> maxg"
  shows "\<exists>q' vs. fill xs q = Some q' \<and> drain (length xs + 1) q' = Some vs \<and> distinct vs \<and> set vs = fst ` set xs
    \<and> sorted_wrt (\<lambda>u v. the (map_of xs v) \<le> the (map_of xs u)) vs"
proof -
  have q: "queue_rep q Map.empty" "maxnodes q = n" "\<And>g. - maxg \<le> g \<Longrightarrow> g \<le> maxg \<Longrightarrow> gain_ok q g"
    using PQueueInit_ok [OF assms(2-6)] assms(1) by auto
  have ok: "0 \<le> v \<and> v < maxnodes q \<and> gain_ok q g" if "(v, g) \<in> set xs" for v g using xs(2) [OF that] q by simp
  obtain q' where q': "fill xs q = Some q'" "queue_rep q' (Map.empty ++ map_of xs)"
    using pq.fill_ok [OF q(1) xs(1) _ ok] by auto
  have d: "dom (Map.empty ++ map_of xs) = fst ` set xs" by (simp add: dom_map_of_conv_image_fst)
  have "card (dom (Map.empty ++ map_of xs)) < length xs + 1"
    unfolding d using card_image_le [of "set xs" fst] card_length [of xs] by simp
  from pq.drain_sorted [OF q'(2) this] show ?thesis using q'(1) d by auto
qed

theorem queue_sorts_gains_witness:
  "\<exists>q c' q' vs. PQueueInit 3 1 ex_ctrl 3 7 = Some (q, c') \<and> fill [(0, 2), (1, 5), (2, - 3)] q = Some q'
    \<and> drain 4 q' = Some vs \<and> set vs = {0, 1, 2}"
proof -
  obtain q c' where q: "PQueueInit 3 1 ex_ctrl 3 7 = Some (q, c')"
    using PQueueInit_ok [of 3 7 3 1 ex_ctrl] by (auto simp: ex_ctrl_def pad2_def)
  let ?xs = "[(0, 2), (1, 5), (2, - 3)] :: (int \<times> int) list"
  have "0 \<le> v \<and> v < 3 \<and> - 7 \<le> g \<and> g \<le> 7" if "(v, g) \<in> set ?xs" for v g using that by auto
  from queue_sorts_gains [where xs = ?xs, OF q _ _ _ _ _ _ this]
  obtain q' vs where "fill ?xs q = Some q'" "drain (length ?xs + 1) q' = Some vs" "set vs = fst ` set ?xs"
    by (auto simp: ex_ctrl_def pad2_def simp del: fill.simps drain.simps)
  moreover have "length ?xs + 1 = 4" "fst ` set ?xs = {0, 1, 2}" by simp_all
  ultimately show ?thesis using q by metis
qed

section \<open>Faults\<close>

text \<open>C37. When the two matched vertices are not adjacent, another neighbour occupies the hash slot, and the
  unwritten cell behind the row happens to hold the number of the coarse vertex, \<open>CreateCoarseGraph\<close> drops
  the last edge of the row, which has nothing to do with the pair, and subtracts the number in the unwritten
  weight cell.\<close>

theorem stale_cell_drops_edge:
  assumes "0 < ne" "ne < ilen adj" "ne < ilen wgt" "0 \<le> c AND HTLENGTH" "c AND HTLENGTH < ilen ht"
    and "0 \<le> at ht (c AND HTLENGTH)" "at ht (c AND HTLENGTH) < ne"
    and row: "\<And>m. 0 \<le> m \<Longrightarrow> m < ne \<Longrightarrow> at adj m \<noteq> c" and stale: "at adj ne = c"
  shows "\<exists>adj' wgt'. del_mask 0 c (adj, wgt, ht, ne) = Some (at wgt ne, adj', wgt', ht, ne - 1)
    \<and> (\<forall>m. 0 \<le> m \<and> m < ne \<longrightarrow> at adj' m = at adj m \<and> at wgt' m = at wgt m)"
proof -
  have "\<exists>j. search 0 ne (\<lambda>jj. do { x \<leftarrow> aget adj (0 + jj); Some (x = c) }) = Some j \<and> 0 \<le> j \<and> j \<le> ne
      \<and> (\<forall>i. 0 \<le> i \<and> i < j \<longrightarrow> \<not> at adj i = c) \<and> (j < ne \<longrightarrow> at adj j = c)"
    by (rule search_rule) (use assms(1,2) in \<open>auto simp: arr\<close>)
  then obtain j where "search 0 ne (\<lambda>jj. do { x \<leftarrow> aget adj (0 + jj); Some (x = c) }) = Some j" "0 \<le> j" "j \<le> ne"
    "j < ne \<longrightarrow> at adj j = c" by blast
  with row [of j] have f: "find_slot 0 c adj ne = Some ne" unfolding find_slot_def by force
  have r: "at adj (at ht (c AND HTLENGTH)) \<noteq> c" using row assms(6,7) by simp
  have app: "aget (adj @ wgt) ne = Some c" using assms(1,2) stale ilen_nonneg [of wgt]
    by (simp add: aget_at at_append del: ilen_nonneg)
  let ?adj = "upd adj ne (at adj (ne - 1))" and ?wgt = "upd wgt ne (at wgt (ne - 1))"
  have "drop_slot 0 ne adj wgt ne = Some (at wgt ne, ?adj, ?wgt)"
    using assms(1-3) by (simp add: drop_slot_def arr)
  then have "del_mask 0 c (adj, wgt, ht, ne) = Some (at wgt ne, ?adj, ?wgt, ht, ne - 1)"
    using assms(1,2,4-7) f r app by (simp add: del_mask_def arr)
  then show ?thesis using assms(1-3) by auto
qed

theorem stale_cell_drops_edge_witness:
  "\<exists>adj' wgt'. del_mask 0 0 ([2048, 0], [5, 9], [0], 1) = Some (9, adj', wgt', [0], 0)"
proof -
  have "at [2048, 0 :: int] m \<noteq> 0" if "0 \<le> m" "m < 1" for m using that by (simp add: at_def)
  from stale_cell_drops_edge [of 1 "[2048, 0]" "[5, 9]" 0 "[0]", OF _ _ _ _ _ _ _ this] show ?thesis
    by (auto simp: at_def)
qed

text \<open>Asking \<open>METIS_WPartGraphKway\<close> for a single part divides by \<open>log2(1)\<close>, which is 0, whatever
  the graph and the options.\<close>

lemma one_part_divides_by_zero: "kway_ctrl c g 1 options = None"
proof -
  have "log2 1 = 0" by (simp add: log2_def log2_loop.simps)
  then show ?thesis by (simp add: kway_ctrl_def cdiv_def Option.bind_eq_None_conv)
qed

end
