(* ===== verification/Mt_Kway_Props.thy ===== *)
theory Mt_Kway_Props
  imports Mt_Kway_Store Mt_Props
begin

text \<open>
  The properties of the k-way refinement, with their instances on the path of four vertices.
\<close>

lemma ex_rows: "row (ex_graph\<lparr>cmap := m\<rparr>) 0 = {0}" "row (ex_graph\<lparr>cmap := m\<rparr>) 1 = {1, 2}"
  "row (ex_graph\<lparr>cmap := m\<rparr>) 2 = {3, 4}" "row (ex_graph\<lparr>cmap := m\<rparr>) 3 = {5}"
  by (auto simp: row_def ex_graph_def at_def)

lemma ex_vals:
  "map (at (adjncy (ex_graph\<lparr>cmap := m\<rparr>))) [0, 1, 2, 3, 4, 5] = [1, 0, 2, 1, 3, 2]"
  "map (ewgt (ex_graph\<lparr>cmap := m\<rparr>)) [0, 1, 2, 3, 4, 5] = [5, 5, 1, 1, 5, 5]"
  by (simp_all add: ex_graph_def ewgt_def at_def)

lemma ex_kgraph:
  assumes "ilen m = 4"
  shows "kgraph (ex_graph\<lparr>cmap := m\<rparr>)" "positive (ex_graph\<lparr>cmap := m\<rparr>)"
proof -
  let ?g = "ex_graph\<lparr>cmap := m\<rparr>"
  have w: "wf_graph ?g" using wf_cmap [OF ex_wf, of m] assms by (simp add: ex_graph_def)
  note r = ex_rows [of m, simplified]
  have e: "\<forall>u \<in> {0, 1, 2, 3}. \<forall>v \<in> {0, 1, 2, 3}. (u \<in> nbrs ?g v \<longleftrightarrow> v \<in> nbrs ?g u) \<and> ew ?g u v = ew ?g v u"
    using ex_vals [of m] by (simp add: nbrs_def ew_def rowsum_def r)
  have i: "\<forall>v \<in> {0, 1, 2, 3}. inj_on (at (adjncy ?g)) (row ?g v) \<and> v \<notin> nbrs ?g v"
    using ex_vals [of m] by (simp add: nbrs_def r)
  have four: "0 \<le> v \<and> v < nvtxs ?g \<longleftrightarrow> v \<in> {0, 1, 2, 3}" for v using below_4 [of v] by (simp add: ex_graph_def)
  show p: "positive ?g"
    by (simp add: positive_def below_upto ex_graph_def upto_evals ewgt_def at_def)
  show "kgraph ?g"
    unfolding kgraph_def
  proof (intro conjI)
    show "weighted ?g" by (simp add: weighted_def ex_graph_def)
    show "\<forall>j. 0 \<le> j \<and> j < nedges ?g \<longrightarrow> 0 \<le> ewgt ?g j" using p by (auto simp: positive_def intro: less_imp_le)
  qed (use w e i four in blast)+
qed

text \<open>C15. \<open>ComputeKWayPartitionParams\<close> ends inside its arrays, on any partition of a graph with symmetric
  weights, and its books are exact: for each vertex the weight of its edges inside the part and to
  each other part, one slot for each part around it; the weight of each part; the cut; and the
  boundary is the vertices with no more weight inside their part than outside.\<close>

theorem kway_books_exact:
  assumes "kgraph g" "part_ok g n (wher s)" "kroom g n s" "0 \<le> n"
  shows "\<exists>s'. ComputeKWayPartitionParams g n s = Some s' \<and> kinv g n s' \<and> wher s' = wher s
    \<and> (\<forall>v. 0 \<le> v \<and> v < nvtxs g \<longrightarrow> on_bnd s' v = (conn g (at (wher s)) v (at (wher s) v) \<le> ext g (at (wher s)) v))"
  by (rule ComputeKWayPartitionParams_ok [OF assms])

text \<open>Room for the refinement of a partition \<open>wh\<close> of the example, and the limits for two equal parts
  that may be off by a tenth.\<close>

definition ex_kstate :: "int list \<Rightarrow> kstate" where
  "ex_kstate wh = \<lparr>wher = wh, pwgts = [0, 0], bndptr = replicate (length wh) 0, bndind = replicate (length wh) 0, nbnd = 0,
     mincut = 0, rinfos = replicate (length wh) \<lparr>rid = 0, red = 0, ndegrees = 0, edegrees = None\<rparr>,
     estore = replicate 6 (0, 0), cdegree = 0\<rparr>"

definition ex_limits :: limits where
  "ex_limits = \<lparr>share = (\<lambda>_ tv. tv div 2), above = (\<lambda>_ tv. tv div 2 * 11 div 10), below = (\<lambda>_ tv. tv div 2 * 9 div 10)\<rparr>"

lemma ex_kroom: "part_ok ex_graph 2 (wher (ex_kstate [0, 1, 0, 1]))" "kroom ex_graph 2 (ex_kstate [0, 1, 0, 1])"
  by (simp_all add: part_ok_def below_upto kroom_def ex_kstate_def ex_graph_def upto_evals at_def)

lemma ex_kgraph_id: "kgraph ex_graph" "positive ex_graph"
  using ex_kgraph [of "cmap ex_graph"] by (simp_all add: ex_graph_def)

theorem kway_books_exact_witness:
  "\<exists>s'. ComputeKWayPartitionParams ex_graph 2 (ex_kstate [0, 1, 0, 1]) = Some s' \<and> kinv ex_graph 2 s'
    \<and> wher s' = [0, 1, 0, 1]"
  using kway_books_exact [OF ex_kgraph_id(1) ex_kroom] by (auto simp: ex_kstate_def)

text \<open>C7. \<open>Random_KWayEdgeRefine\<close> ends inside its arrays, on every stream of random numbers, and while
  it moves vertices from part to part all books stay exact; the cut never grows. In its final use,
  without the allowance for gains, parts that all are to weigh the same and are below the limit stay
  below it.\<close>

theorem kway_refinement_sound:
  assumes "kgraph g" "kinv g n s" "refine_room c g n"
  shows "\<exists>s' k. Random_KWayEdgeRefine c g n L npasses ffactor s = Some (s', c\<lparr>rand_pos := k\<rparr>) \<and> kinv g n s'
    \<and> mincut s' \<le> mincut s
    \<and> (\<forall>m. ffactor = 0 \<and> even_limits L n (total_weight g) m \<and> (\<forall>v. 0 \<le> v \<and> v < nvtxs g \<longrightarrow> 0 \<le> vwt g v)
          \<and> balanced_to n m s \<longrightarrow> balanced_to n m s')"
  by (rule Random_KWayEdgeRefine_ok [OF assms])

lemma ex_refine_room: "refine_room ex_ctrl ex_graph 2"
  by (simp add: refine_room_def ex_ctrl_def ex_graph_def pad2_def)

theorem kway_refinement_sound_witness:
  "\<exists>s s' k. kinv ex_graph 2 s \<and> wher s = [0, 1, 0, 1]
    \<and> Random_KWayEdgeRefine ex_ctrl ex_graph 2 ex_limits 10 1 s = Some (s', ex_ctrl\<lparr>rand_pos := k\<rparr>)
    \<and> kinv ex_graph 2 s' \<and> mincut s' \<le> mincut s"
proof -
  obtain s where s: "kinv ex_graph 2 s" "wher s = [0, 1, 0, 1]"
    using ComputeKWayPartitionParams_ok [OF ex_kgraph_id(1) ex_kroom] by (auto simp: ex_kstate_def)
  with kway_refinement_sound [OF ex_kgraph_id(1) s(1) ex_refine_room, of ex_limits 10 1] show ?thesis by blast
qed

text \<open>C8. \<open>ProjectKWayPartition\<close> takes a partition of the contracted graph to the finer one: each vertex
  gets the part of its coarse vertex, the cut is the coarse one, and all books are exact again, though
  only the vertices whose coarse vertex has external edges are looked at. The contracted graph is again
  a graph the refinement accepts.\<close>

theorem kway_projection_exact:
  assumes "kgraph g" "positive g" "0 \<le> n" "matching_ok g (nvtxs cg) mat perm" "coarse_of g mat (nvtxs cg) cg"
    and "kinv cg n cs" "ilen (cmap g) = nvtxs g"
    and "nedges g \<le> ilen (estore cs)" "0 \<le> ccore c" "ccore c + pad2 n \<le> maxcore c"
  shows "kgraph cg \<and> positive cg \<and> (\<exists>s cm. ProjectKWayPartition c g n cs = Some (s, cm, c) \<and> kinv g n s
    \<and> (\<forall>v. 0 \<le> v \<and> v < nvtxs g \<longrightarrow> at (wher s) v = at (wher cs) (at (cmap g) v)
       \<and> on_bnd s v = (0 < ext g (at (wher s)) v \<and> conn g (at (wher s)) v (at (wher s) v) \<le> ext g (at (wher s)) v))
    \<and> mincut s = mincut cs)"
  using coarse_kgraph [OF assms(1,2,4,5)] ProjectKWayPartition_coarse [OF assms] by blast

theorem kway_projection_exact_witness:
  "\<exists>cg cs s cm. coarse_of ex_matched [1, 0, 3, 2] 2 cg \<and> kinv cg 2 cs \<and> wher cs = [0, 1]
    \<and> ProjectKWayPartition ex_ctrl ex_matched 2 cs = Some (s, cm, ex_ctrl) \<and> kinv ex_matched 2 s \<and> mincut s = mincut cs"
proof -
  have k: "kgraph ex_matched" "positive ex_matched" using ex_kgraph [of "[0, 0, 1, 1]"] by (simp_all add: ex_matched_def)
  obtain cg where cg: "coarse_of ex_matched [1, 0, 3, 2] 2 cg"
    using CreateCoarseGraph_ok [OF ex_matched_facts(1,2) ex_matching ex_matched_facts(3,4)] by blast
  then have n: "nvtxs cg = 2" "nedges cg \<le> 6" by (simp_all add: coarse_of_def ex_matched_def ex_graph_def)
  note cgk = coarse_kgraph [OF k ex_matching cg]
  have "part_ok cg 2 (wher (ex_kstate [0, 1]))" "kroom cg 2 (ex_kstate [0, 1])"
    using n by (simp_all add: part_ok_def below_upto kroom_def ex_kstate_def upto_evals at_def upto_rec1)
  from ComputeKWayPartitionParams_ok [OF cgk(1) this]
  obtain cs where cs: "ComputeKWayPartitionParams cg 2 (ex_kstate [0, 1]) = Some cs" "kinv cg 2 cs" "wher cs = [0, 1]"
    by (auto simp: ex_kstate_def)
  have "ilen (estore cs) = 6" using kept_Params [OF cs(1)] by (simp add: ex_kstate_def)
  then have room: "nedges ex_matched \<le> ilen (estore cs)" by (simp add: ex_matched_def ex_graph_def)
  have "\<exists>s cm. ProjectKWayPartition ex_ctrl ex_matched 2 cs = Some (s, cm, ex_ctrl) \<and> kinv ex_matched 2 s \<and> mincut s = mincut cs"
    using kway_projection_exact [OF k _ _ _ cs(2) _ room, of "[1, 0, 3, 2]" "[0, 1, 2, 3]" ex_ctrl] ex_matching cg n
    by (auto simp: ex_matched_def ex_graph_def ex_ctrl_def pad2_def)
  with cg cs show ?thesis by blast
qed

end
