(* ===== verification/Spec2Isabelle.thy ===== *)
theory Spec2Isabelle
  imports Lx_Props Client_Props Fb_Props Fb_Xcp_Props Lx_Tcpdump_Props Log_Server_Props Mt_Kway_Props
begin

text \<open>
  Verification of the ModelNet network emulator.

  \<^bold>\<open>The program.\<close> ModelNet runs unmodified applications against an emulated network. Each host
  runs many virtual nodes, each with an address in 10/8. A library preloaded into the applications
  (client/libipaddr.c) binds their sockets to the address of the node and sets a magic bit in
  destinations, which routes the packets to an emulator core. On the core a kernel module takes them
  from the IP stack, looks up the path from node to node, sends them over its hops one by one,
  with the loss, the bandwidth queue and the delay of each, and at the end hands them back
  to the IP stack. There are two modules: the Linux one (emulator/linux/module) and the older
  FreeBSD one (emulator/freebsd6.4/module), which also spreads the hops of a path over several cores
  and can run XCP routers in the hops. tools/ipgatherer.c collects the logs of the nodes. Before a run,
  tools/assignment spreads the hops of a topology over the cores: it partitions the graph of the topology
  with \<open>METIS_PartGraphKway\<close> of the METIS sources under tools/assignment/metis.

  \<^bold>\<open>Conventions.\<close> A C function becomes one definition under its own name, with a prefix
  \<open>lx_\<close> or \<open>fb_\<close> where the modules have the same name and \<open>mn_\<close> for the intercepted calls of
  the library; a part of a long function that is a definition of its own is named by what it does.
  A result in \<open>option\<close> is \<open>None\<close> where C has no defined continuation: an index outside an array,
  a NULL or freed pointer, a division by zero, a lock taken twice, a loop that does not end. So a
  theorem with conclusion \<open>Some\<close> says that none of this happens. Errors the code reports are its
  return values: an errno or its negative. Ticks, lengths and counters are words of the width
  of their type and wrap; an \<open>int\<close> of C is a HOL \<open>int\<close> cut by \<open>s32\<close> where it may overflow.
  Memory is a finite map from addresses or a count of blocks (\<open>kmem\<close>), so leaks and dangling
  pointers are states. What the kernel or user answers (allocations, routes, checksums, the
  bytes of a request, system calls) is an argument: a list of answers in the state, or the
  records \<open>kern\<close>, \<open>sysctl_req\<close> and \<open>sys\<close>.

  \<^bold>\<open>The theories.\<close>
  \<^item> \<open>Prelude\<close>: the C integer types, byte order, checked arrays, the shared facts. \<open>Bytes\<close>: words in
    memory, streams of records; the locale \<open>fixed_codec\<close> (a record of fixed width that can be read
    back), interpreted on 32-bit words here and on the digests of the cores in \<open>Fb_Aggregate\<close>.
  \<^item> \<open>Timed_Queue\<close>: the locale \<open>timed_queue\<close>, what the emulation of a hop relies on in a bandwidth queue.
    \<open>Hop\<close>: \<open>struct hop\<close> of both modules (ip_modelnet.h), the ring in \<open>slotlen\<close>, \<open>slotexit\<close>,
    \<open>update_bwq\<close>; it interprets the locale.
  \<^item> \<open>Calendar\<close>: the packet calendar of both modules, \<open>2 ^ 14\<close> slots, against an agenda of ticks: the locale
    \<open>agenda_impl\<close>, interpreted at 64-bit ticks (Linux jiffies) and at 32 (FreeBSD).
    \<open>In_Flight\<close>: packets at one place each of a calendar or in hand, with a buffer of their own.
  \<^item> \<open>Topology\<close>: node, path and hop tables of both modules (mn_pathtable.c): \<open>free_path\<close>, \<open>lookup_path\<close>.
  \<^item> Linux. \<open>Mersenne\<close>: \<open>random_seed\<close>, \<open>random_bits\<close>. \<open>Lx_Hop\<close>: the locked section of
    \<open>emulate_hop\<close>. \<open>Lx_Core\<close>: \<open>emulate_hop\<close>, \<open>emulate_nexthop\<close>, \<open>emulate_path\<close>, \<open>hopclock\<close>,
    \<open>filter_ipinput\<close>, loading and unloading (ip_modelnet.c). \<open>Lx_Pathtable\<close>: the /proc handlers.
    \<open>Lx_Tcpdump\<close>: the packet traces (mn_tcpdump.c), as a component of their own: what \<open>emulate_hop\<close>
    passes to \<open>handle_tcpdump\<close> is an argument there.
    \<open>Lx_Flow\<close>: the invariant \<open>lx_inv\<close> of the packet path and its preservation. \<open>Lx_Tables\<close>, \<open>Lx_Props\<close>,
    \<open>Lx_Tcpdump_Props\<close>: the properties.
  \<^item> FreeBSD. \<open>Fb_State\<close>: the state of the module and the mbuf operations. \<open>Fb_Xcp\<close>: the arithmetic
    of mn_xcp.c. \<open>Fb_Xtq\<close>: mn_xtq.c, the pool of hop schedulers, the timeouts. \<open>Fb_Pathtable\<close>: the sysctl
    handlers. \<open>Fb_Remote\<close>: mn_remote.c, udp_send.c, udp_rewrite.c. \<open>Fb_Core\<close>: ip_modelnet.c
    and \<open>remote_input\<close>, with both clocks. \<open>Fb_Flow\<close>: the invariant \<open>fb_inv\<close> of the packet path on one
    core; \<open>Fb_Run\<close>: its runs, the step relation \<open>fb_step\<close>. \<open>Fb_Link\<close> (bandwidth delay), \<open>Fb_Pool\<close> (schedulers),
    \<open>Fb_Aggregate\<close> (digests), \<open>Fb_Xcp_Props\<close>, \<open>Fb_Props\<close>: lemmas and properties.
  \<^item> The client library. \<open>Client_Sockets\<close>: the socket calls over a record \<open>sys\<close> of system calls.
    \<open>Client_Hosts\<close>: dotted addresses, the name cache, the hosts file, the name calls.
    \<open>Client_Props\<close>: the properties, with the locale \<open>name_cache\<close> and its interpretation.
  \<^item> \<open>Log_Server\<close>, \<open>Log_Server_Props\<close>: tools/ipgatherer.c.
  \<^item> The partitioner (tools/assignment/metis). \<open>Mt_Base\<close>: arrays with \<open>int\<close> indices, \<open>for\<close> and \<open>while\<close> loops, the
    products with floating point constants. \<open>Mt_Util\<close>: util.c, the numbering conversions of fortran.c.
    \<open>Mt_Sort\<close>: \<open>MAKECSR\<close>, bucketsort.c. \<open>Mt_Graph\<close>: \<open>GraphType\<close>, \<open>CtrlType\<close> (struct.h), memory.c, graph.c,
    well-formed graphs, cuts and part weights. \<open>Mt_Contract\<close>, \<open>Mt_Contract_Props\<close>: ccgraph.c, against
    rows built by \<open>row_add\<close>. \<open>Mt_Match\<close>, \<open>Mt_Match_Props\<close>: the matchings of match.c. \<open>Mt_Coarsen\<close>:
    \<open>Coarsen2Way\<close> (coarsen.c) and the set-up of kmetis.c. \<open>Mt_Pqueue\<close>: pqueue.c; \<open>Mt_Heap_Props\<close>, \<open>Mt_Heap\<close>
    (the heap with its locator), \<open>Mt_Bucket\<close> (the buckets of linked lists), \<open>Mt_Queue\<close>: the locale \<open>max_queue\<close>
    with its interpretations on the heap, the buckets and the queue that chooses between them.
    \<open>Mt_Kway\<close>: the state of the k-way refinement, its first parameters and the projection (kwayrefine.c).
    \<open>Mt_Kway_State\<close>: the boundary list and the blocks of external degrees, with what each operation leaves
    alone; \<open>Mt_Kway_Spec\<close>: the exact degrees of a partition, \<open>kinv\<close>; \<open>Mt_Kway_Move\<close>: the move of
    one vertex; \<open>Mt_Kway_Refine\<close>: \<open>Random_KWayEdgeRefine\<close> (kwayfm.c); \<open>Mt_Kway_Project\<close>, \<open>Mt_Kway_Coarse\<close>,
    \<open>Mt_Kway_Store\<close>: the way from a coarse graph to the finer one. \<open>Mt_Props\<close>, \<open>Mt_Kway_Props\<close>: the properties.
  \<^item> This theory: what spans the library and both modules.

  \<^bold>\<open>What is shown.\<close> For the Linux module: every entry point ends, stays inside memory, keeps \<open>lx_inv\<close>
  and accounts for every buffer; the exact decision and exit tick of a hop; packets leave the
  calendar at their tick, in order; the rounding of the delay is unbiased; the generator is the
  Mersenne twister; the table handlers build, resize and free the tables without losing
  memory, and what they write is what path lookup reads; the trace buffers are one queue. For the
  FreeBSD module: on one core any interleaving of packets, time, clock runs and returning callers keeps the books of
  memory, statistics and mbuf chains; the hook can always go on, the clock as long as the callers
  of the packets in flight have not returned (after that \<open>MN_FREE_PKT\<close> writes through a stale pointer,
  which is \<open>None\<close>); aggregation is one list of digests per core, as long as the cluster of an aggregate
  is allocated, a receiver gets the digests back, and with MN_AGGREGATE and routes to the cores none is left
  after a run of the clock; the schedulers are conserved; a link charges every byte of a burst
  but those of exact fits; an XCP router never divides by zero on admissible traffic. For the library: its
  record of the sockets agrees with the system for sockets of one descriptor whose moves have not failed,
  names resolve as the hosts file has them, addresses survive the way there and back. For the log
  server: each file holds the data of its node in the order of arrival if all nodes are within the table
  and the path of the logs is short enough, otherwise a message makes it access memory outside an array. For the partitioner: coarsening ends, and
  a partition of any coarser graph has the cut and the part weights of its projection; contraction builds
  the rows of a plain reference definition, with either hash table; the matchings pair neighbours
  whose weight fits; the bucket sort is stable; both priority queues behave as one finite map from vertices to gains; the k-way
  refinement keeps exact books of degrees, boundary, part weights and cut while it moves vertices, never
  raises the cut, and projects a partition to the finer graph with the same cut. Beside these stand the states in which the
  code does not do what it means to, each with a run that leads there: hop tables rewritten under
  packets in flight, hops without bandwidth limit, unloading with packets in flight, the unload
  of the FreeBSD module, its packets that outlive their caller, its clock at tiny round trip times, digests that cannot be sent or have no cluster, unchecked
  path entries, failed binds and lookups of the library, a hash table of the contraction
  with a cell left over, a request for one part.

  \<^bold>\<open>Bounds and loops.\<close> Loops whose end needs an argument (\<open>update_bwq\<close>, \<open>lx_drain\<close>, \<open>lx_ticks\<close>, the
  drains and ticks of the FreeBSD clock) are \<open>partial_function (option)\<close>: not to end is \<open>None\<close>, and the
  theorems on them prove \<open>Some\<close>; that the tiny round trip hangs the clock is the result
  \<open>None\<close>. \<open>input_loop\<close> of \<open>remote_input\<close> has fuel 48: the code gives up in its 47th round, so more
  changes nothing (\<open>remote_input_fuel\<close>). A calendar holds \<open>2 ^ 14\<close> ticks, so delays must
  be below that; an aggregate holds 30 digests of 48 bytes, which with their header fit
  1472; the table of the log server has nodes 0 to 255, its file name has room for a log path of 120 characters.
  A header of the packet traces has the 32 bytes of a 64-bit Linux kernel, whose \<open>struct timeval\<close> has 16;
  the FreeBSD module is that of a 32-bit machine. Padding that C leaves unspecified is zero.
  In the partitioner vertices, weights and array indices are unbounded \<open>int\<close>s, so a sum of weights that
  overflows the C type is outside the model; memory that C does not initialise holds arbitrary values
  (the field \<open>junk\<close> of \<open>ctrl\<close>), and the random numbers are an arbitrary stream. The refinement's
  weight limits are products of floats whose precision is the machine's choice, so they are arguments (\<open>limits\<close>).
  Coarsening by the sorted heavy edge matchings (SHEM, SHEMKWAY) is shown for graphs
  in one piece or of fewer than 16376 = 8 * 2047 vertices, below which the contraction does not use its hash table.
  The graphs of the refinement are simple and symmetric with weights that are not negative (\<open>kgraph\<close>), for the projection
  positive, which is what tools/assignment/assignment.cpp passes.

  \<^bold>\<open>Not modelled.\<close> Concurrency: operations run one at a time, spin locks are left out (the mutex of
  the FreeBSD module is in the state, since the code deadlocks on it). Allocations that may sleep
  do not fail. Messages, profile tables, \<open>get_hr_time\<close>, the registration of sysctl tables
  (data) and code that is compiled out (SMALL_PKT_REDEMPTION, \<open>name2fd\<close>, NET_LOG). The look up of the
  intercepted symbols (dlsym). Of METIS: the initial partition (pmetis.c, initpart.c and what they
  call), the greedy refinement of kwayfm.c and the subdomain graph (subdomains.c) with the
  driver \<open>RefineKWay\<close> that chooses among them, the variants for several constraints, for
  communication volume and for fill reducing orders, which the assignment of hops never calls. Outside the C code: the
  Perl scripts of deployment, the C++ tools that generate, convert and assign topologies, and the tests. The
  partitioner Chaco is a third-party library.

  \<^bold>\<open>Plan.\<close> Next: the invariant of the FreeBSD packet path with hops on other cores (packet cache and
  aggregates; \<open>one_core\<close> excludes them) and with XCP routers; \<open>remote_input\<close> composed with the sending core over a
  whole frame; \<open>lx_inv\<close> restated over \<open>In_Flight\<close>; the recording of traces tied into \<open>lx_emulate_hop\<close>.
\<close>

section \<open>Addresses from application to application\<close>

text \<open>C12. The client library and both kernels agree on the magic bit. The library on the sending
  host marks the destination; either kernel moves the mark to the source before it looks up the
  path, for which it uses the unmarked addresses of the two applications; and the library on the
  receiving host takes it off the source. So the packet arrives with the destination the sender
  named, from the address the sender has.\<close>

theorem addresses_survive_the_network:
  assumes "sin_addr sa AND MNET_MAGIC_BIT = 0" "src AND MNET_MAGIC_BIT = 0" "IS_INET_ADDR (Some peer) plen"
    and "IS_MNET_IP src" "\<not> mn_keep_dstip c'" "magic_dest (Some sa) len c = (Some sa', len')"
    and "sk_saddr pkt = src" "sk_daddr pkt = sin_addr sa'"
  shows "(sk_saddr (force_rewrite pkt), sk_daddr (force_rewrite pkt)) = fb_force_rewrite src (sin_addr sa') \<and>
     sk_daddr (force_rewrite pkt) = sin_addr sa \<and>
     MODEL_FORCEOFF (sk_saddr (force_rewrite pkt)) = src \<and>
     clear_magic (Some (peer\<lparr>sin_addr := sk_saddr (force_rewrite pkt)\<rparr>)) plen c' = Some (peer\<lparr>sin_addr := src\<rparr>)"
proof -
  have b: "MODEL_FORCEBIT = MNET_MAGIC_BIT" "FB_FORCEBIT = MNET_MAGIC_BIT"
    by (simp_all add: MODEL_FORCEBIT_def FB_FORCEBIT_def MNET_MAGIC_BIT_def)
  have d: "sin_addr sa' = sin_addr sa \<or> sin_addr sa' = sin_addr sa OR MNET_MAGIC_BIT"
    using assms(6) by (auto simp: magic_dest_def split: if_splits)
  then have m: "sin_addr sa' AND MNET_MAGIC_BIT = 0 \<or> sin_addr sa' AND MNET_MAGIC_BIT = MNET_MAGIC_BIT"
    using assms(1) by (auto simp: or_absorb)
  have dst: "sin_addr sa' AND NOT MNET_MAGIC_BIT = sin_addr sa"
    using d assms(1) by (auto simp: or_and_not and_not_clear)
  have src: "(src OR (sin_addr sa' AND MNET_MAGIC_BIT)) AND NOT MNET_MAGIC_BIT = src"
    using m assms(2) by (auto simp: or_and_not and_not_clear)
  have net: "IS_MNET_IP (src OR (sin_addr sa' AND MNET_MAGIC_BIT))"
    using m assms(4) by (auto simp: mnet_magic)
  show ?thesis using assms dst src net b
    by (simp add: force_rewrite_def fb_force_rewrite_def MODEL_FORCEOFF_def clear_magic_def IS_INET_ADDR_def)
qed

definition ex_dest :: sockaddr where
  "ex_dest = \<lparr>sa_family = AF_INET, sin_port = 80, sin_addr = htonl 0x0a000002\<rparr>"

theorem addresses_survive_the_network_witness:
  "(sk_saddr (force_rewrite (ex_skb\<lparr>sk_saddr := htonl 0x0a000001, sk_daddr := htonl 0x0a800002\<rparr>)),
      sk_daddr (force_rewrite (ex_skb\<lparr>sk_saddr := htonl 0x0a000001, sk_daddr := htonl 0x0a800002\<rparr>)))
     = fb_force_rewrite (htonl 0x0a000001) (sin_addr (ex_dest\<lparr>sin_addr := htonl 0x0a800002\<rparr>))"
proof (rule conjunct1, rule addresses_survive_the_network)
  show "sin_addr ex_dest AND MNET_MAGIC_BIT = 0" "htonl 0x0a000001 AND MNET_MAGIC_BIT = 0" "IS_INET_ADDR (Some ex_dest) 16"
    "IS_MNET_IP (htonl 0x0a000001)" "\<not> mn_keep_dstip ex_client"
    "magic_dest (Some ex_dest) 16 ex_client = (Some (ex_dest\<lparr>sin_addr := htonl 0x0a800002\<rparr>), 16)"
    by (simp_all add: IS_INET_ADDR_def IS_MNET_IP_def MNET_MAGIC_BIT_def MAKE_IP_def magic_dest_def ex_client_def ex_dest_def htonl_def)
qed simp_all

end
